(* ===== verification/Prelude.thy ===== *)
theory Prelude
  imports Main "HOL-Library.AList"
begin

text \<open>
  Shared vocabulary of the development: results that may raise, dictionaries that keep
  their insertion order, the first-occurrence deduplication of \<open>dict.fromkeys\<close>, the
  iteration order of a Python set, and the generic lemmas the component theories use.
\<close>

named_theorems dict_simps
named_theorems err_simps

section \<open>Results that may raise\<close>

text \<open>
  \<open>Inl e\<close> is the exception \<open>e\<close> propagating, \<open>Inr v\<close> a normal return. \<open>sbind\<close> runs the
  rest of a body after a call, \<open>sfold\<close> is a \<open>for\<close> loop that updates a state and stops at
  the first exception, \<open>smap\<close> a comprehension whose element expression may raise.
\<close>

definition sbind :: "'e + 'a \<Rightarrow> ('a \<Rightarrow> 'e + 'b) \<Rightarrow> 'e + 'b" where
  "sbind m f = (case m of Inl e \<Rightarrow> Inl e | Inr x \<Rightarrow> f x)"

lemma sbind_simps [simp, err_simps]:
  "sbind (Inl e) f = Inl e"
  "sbind (Inr x) f = f x"
  by (simp_all add: sbind_def)

lemma sbind_eq_Inr [err_simps]: "sbind m f = Inr y \<longleftrightarrow> (\<exists>x. m = Inr x \<and> f x = Inr y)"
  by (cases m) simp_all

lemma sbind_eq_Inl [err_simps]:
  "sbind m f = Inl e \<longleftrightarrow> m = Inl e \<or> (\<exists>x. m = Inr x \<and> f x = Inl e)"
  by (cases m) auto

fun sfold :: "('a \<Rightarrow> 's \<Rightarrow> 'e + 's) \<Rightarrow> 'a list \<Rightarrow> 's \<Rightarrow> 'e + 's" where
  "sfold f [] s = Inr s"
| "sfold f (x # xs) s = sbind (f x s) (sfold f xs)"

fun smap :: "('a \<Rightarrow> 'e + 'b) \<Rightarrow> 'a list \<Rightarrow> 'e + 'b list" where
  "smap f [] = Inr []"
| "smap f (x # xs) = sbind (f x) (\<lambda>y. sbind (smap f xs) (\<lambda>ys. Inr (y # ys)))"

lemma sfold_pure:
  "(\<And>x s. x \<in> set xs \<Longrightarrow> I s \<Longrightarrow> f x s = Inr (g x s) \<and> I (g x s)) \<Longrightarrow> I s
    \<Longrightarrow> sfold f xs s = Inr (fold g xs s) \<and> I (fold g xs s)"
  by (induction xs arbitrary: s) auto

lemma sfold_append [err_simps]: "sfold f (xs @ ys) s = sbind (sfold f xs s) (sfold f ys)"
  by (induction xs arbitrary: s) (auto simp: sbind_def split: sum.splits)

lemma sfold_invariant:
  "sfold f xs s = Inr t \<Longrightarrow> I s
    \<Longrightarrow> (\<And>x s s'. x \<in> set xs \<Longrightarrow> I s \<Longrightarrow> f x s = Inr s' \<Longrightarrow> I s') \<Longrightarrow> I t"
  by (induction xs arbitrary: s) (auto simp: sbind_eq_Inr)

lemma smap_pure: "(\<And>x. x \<in> set xs \<Longrightarrow> f x = Inr (g x)) \<Longrightarrow> smap f xs = Inr (map g xs)"
  by (induction xs) auto

lemma smap_Inr_length: "smap f xs = Inr ys \<Longrightarrow> length ys = length xs"
  by (induction xs arbitrary: ys) (auto simp: sbind_eq_Inr)

section \<open>Dictionaries\<close>

text \<open>
  A Python \<open>dict\<close> is the list of its items in insertion order. \<open>d[k] = v\<close> replaces a
  value in place or appends a new item (\<open>AList.update\<close>); \<open>d[k]\<close> raises when the key is
  absent (\<open>dindex\<close>, with the exception the reader names); \<open>d.get(k)\<close> is \<open>map_of\<close>.
\<close>

type_synonym ('k, 'v) dict = "('k \<times> 'v) list"

abbreviation dget :: "('k, 'v) dict \<Rightarrow> 'k \<Rightarrow> 'v option" where
  "dget \<equiv> map_of"

abbreviation dset :: "'k \<Rightarrow> 'v \<Rightarrow> ('k, 'v) dict \<Rightarrow> ('k, 'v) dict" where
  "dset \<equiv> AList.update"

abbreviation ddel :: "'k \<Rightarrow> ('k, 'v) dict \<Rightarrow> ('k, 'v) dict" where
  "ddel \<equiv> AList.delete"

abbreviation dkeys :: "('k, 'v) dict \<Rightarrow> 'k list" where
  "dkeys d \<equiv> map fst d"

abbreviation dvals :: "('k, 'v) dict \<Rightarrow> 'v list" where
  "dvals d \<equiv> map snd d"

definition dget_default :: "'v \<Rightarrow> ('k, 'v) dict \<Rightarrow> 'k \<Rightarrow> 'v" where
  "dget_default v d k = (case dget d k of None \<Rightarrow> v | Some x \<Rightarrow> x)"

definition dindex :: "'e \<Rightarrow> ('k, 'v) dict \<Rightarrow> 'k \<Rightarrow> 'e + 'v" where
  "dindex e d k = (case dget d k of None \<Rightarrow> Inl e | Some v \<Rightarrow> Inr v)"

definition dict_of :: "('k \<times> 'v) list \<Rightarrow> ('k, 'v) dict" where
  "dict_of items = fold (\<lambda>(k, v). dset k v) items []"

definition dict_update :: "('k, 'v) dict \<Rightarrow> ('k, 'v) dict \<Rightarrow> ('k, 'v) dict" where
  "dict_update d items = fold (\<lambda>(k, v). dset k v) items d"

lemma dget_dset [simp, dict_simps]: "dget (dset k v d) = (dget d)(k \<mapsto> v)"
  by (simp add: update_conv')

lemma dget_ddel [simp, dict_simps]: "dget (ddel k d) = (dget d)(k := None)"
  by (simp add: delete_conv')

lemma dindex_Inr [err_simps]: "dindex e d k = Inr v \<longleftrightarrow> dget d k = Some v"
  by (simp add: dindex_def split: option.splits)

lemma dindex_Inl [err_simps]: "dindex e d k = Inl x \<longleftrightarrow> x = e \<and> dget d k = None"
  by (auto simp: dindex_def split: option.splits)

lemma distinct_dset [dict_simps]: "distinct (dkeys d) \<Longrightarrow> distinct (dkeys (dset k v d))"
  by (rule distinct_update)

lemma dkeys_dset_set [simp, dict_simps]: "fst ` set (dset k v d) = insert k (fst ` set d)"
  by (induction d) auto

lemma set_dkeys_dset [dict_simps]: "set (dkeys (dset k v d)) = insert k (set (dkeys d))"
  by simp

lemma dget_Some_keys: "dget d k = Some v \<Longrightarrow> k \<in> set (dkeys d)"
  by (metis domI dom_map_of_conv_image_fst set_map)

lemma dget_None_keys: "dget d k = None \<longleftrightarrow> k \<notin> set (dkeys d)"
  by (simp add: map_of_eq_None_iff)

lemma distinct_dict_update: "distinct (dkeys d) \<Longrightarrow> distinct (dkeys (dict_update d items))"
  unfolding dict_update_def
  by (induction items arbitrary: d) (auto simp: distinct_update split: prod.splits)

lemma in_dset: "x \<in> set (dset k v d) \<Longrightarrow> x = (k, v) \<or> x \<in> set d"
  by (induction d) (auto split: if_splits)

lemma distinct_dict_of: "distinct (dkeys (dict_of items))"
  using distinct_dict_update [of "[]" items] by (simp add: dict_of_def dict_update_def)

lemma dget_dict_update: "dget (dict_update d items) = dget d ++ dget (rev items)"
  unfolding dict_update_def
proof (induction items arbitrary: d)
  case (Cons x xs)
  then show ?case by (cases x) (simp add: map_add_assoc [symmetric] map_add_upd_left fun_eq_iff map_add_def split: option.splits)
qed simp

lemma set_dkeys_dict_update [simp]:
  "fst ` set (dict_update d items) = fst ` set d \<union> fst ` set items"
  unfolding dict_update_def
proof (induction items arbitrary: d)
  case (Cons x items)
  then show ?case by (cases x) simp
qed simp

lemma dget_rev_distinct:
  assumes "distinct (dkeys d)"
  shows "dget (rev d) = dget d"
  by (rule map_of_inject_set [THEN iffD2]) (use assms in \<open>simp_all add: rev_map [symmetric] del: map_map\<close>)

lemma dget_map_values [simp]:
  "dget (map (\<lambda>n. (n, f n)) ns) k = (if k \<in> set ns then Some (f k) else None)"
  by (induction ns) auto

lemma dget_map_snd: "dget (map (\<lambda>(k, v). (k, f v)) d) k = map_option f (dget d k)"
  by (induction d) auto

lemma dkeys_map_snd [simp]: "map fst (map (\<lambda>(k, v). (k, f v)) d) = dkeys d"
  by (induction d) auto

lemma dget_dict_update_distinct:
  "distinct (dkeys items) \<Longrightarrow> dget (dict_update d items) = dget d ++ dget items"
  by (simp only: dget_dict_update dget_rev_distinct)

lemma dkeys_map_values [simp]: "dkeys (map (\<lambda>n. (n, f n)) ns) = ns"
  by (induction ns) auto

section \<open>First occurrences\<close>

text \<open>\<open>dict.fromkeys(xs)\<close> keeps the first occurrence of each element, in order.\<close>

fun dedup :: "'a list \<Rightarrow> 'a list" where
  "dedup [] = []"
| "dedup (x # xs) = x # filter (\<lambda>y. y \<noteq> x) (dedup xs)"

lemma set_dedup [simp]: "set (dedup xs) = set xs"
  by (induction xs) auto

lemma distinct_dedup [simp]: "distinct (dedup xs)"
  by (induction xs) auto

lemma dedup_distinct: "distinct xs \<Longrightarrow> dedup xs = xs"
  by (induction xs) (auto intro: filter_True)

fun join :: "string \<Rightarrow> string list \<Rightarrow> string" where
  "join sep [] = []"
| "join sep [s] = s"
| "join sep (s # t # ss) = s @ sep @ join sep (t # ss)"

text \<open>\<open>s.split(c)\<close> for a single-character separator: never the empty list.\<close>

fun split_on :: "char \<Rightarrow> string \<Rightarrow> string list" where
  "split_on c [] = [[]]"
| "split_on c (x # xs) =
     (if x = c then [] # split_on c xs
      else (case split_on c xs of [] \<Rightarrow> [[x]] | w # ws \<Rightarrow> (x # w) # ws))"

lemma split_on_nonempty [simp]: "split_on c s \<noteq> []"
  by (induction s) (auto split: list.splits)

lemma join_split_on: "join [c] (split_on c s) = s"
proof (induction s)
  case (Cons x xs)
  obtain w ws where "split_on c xs = w # ws" by (cases "split_on c xs") auto
  with Cons show ?case by (cases ws) auto
qed simp

lemma split_on_no_sep: "w \<in> set (split_on c s) \<Longrightarrow> c \<notin> set w"
proof (induction s arbitrary: w)
  case (Cons x xs)
  obtain v vs where "split_on c xs = v # vs" by (cases "split_on c xs") auto
  with Cons show ?case by (auto split: if_splits)
qed simp

section \<open>Text\<close>

definition starts_with :: "string \<Rightarrow> string \<Rightarrow> bool" where
  "starts_with p s \<longleftrightarrow> take (length p) s = p"

lemma starts_append [simp]: "starts_with p (p @ s)"
  by (simp add: starts_with_def)

text \<open>\<open>needle in haystack\<close> for strings.\<close>

fun contains :: "string \<Rightarrow> string \<Rightarrow> bool" where
  "contains p [] = (p = [])"
| "contains p (c # s) = (starts_with p (c # s) \<or> contains p s)"

definition is_digit :: "char \<Rightarrow> bool" where
  "is_digit c \<longleftrightarrow> 48 \<le> (of_char c :: nat) \<and> (of_char c :: nat) \<le> 57"

definition is_upper :: "char \<Rightarrow> bool" where
  "is_upper c \<longleftrightarrow> 65 \<le> (of_char c :: nat) \<and> (of_char c :: nat) \<le> 90"

definition to_lower :: "char \<Rightarrow> char" where
  "to_lower c = (if is_upper c then char_of ((of_char c :: nat) + 32) else c)"

text \<open>\<open>str.strip\<close> on Latin-1 text.\<close>

definition is_space :: "char \<Rightarrow> bool" where
  "is_space c \<longleftrightarrow> (let n = (of_char c :: nat) in 9 \<le> n \<and> n \<le> 13 \<or> 28 \<le> n \<and> n \<le> 32 \<or> n = 133 \<or> n = 160)"

definition strip :: "string \<Rightarrow> string" where
  "strip s = rev (dropWhile is_space (rev (dropWhile is_space s)))"

text \<open>The decimal numeral of a number, and the number of a numeral.\<close>

fun digits :: "nat \<Rightarrow> string" where
  "digits n = (if n < 10 then [char_of (48 + n)] else digits (n div 10) @ [char_of (48 + n mod 10)])"

declare digits.simps [simp del]

definition digits_value :: "string \<Rightarrow> nat" where
  "digits_value ds = fold (\<lambda>c n. 10 * n + (of_char c - 48)) ds 0"

lemma digits_value_digits [simp]: "digits_value (digits n) = n"
proof (induction n rule: digits.induct)
  case (1 n)
  then show ?case by (subst digits.simps) (auto simp: digits_value_def)
qed

lemma digits_eq_iff [simp]: "digits m = digits n \<longleftrightarrow> m = n"
  using digits_value_digits by metis

lemma digits_are_digits: "c \<in> set (digits n) \<Longrightarrow> is_digit c"
proof (induction n rule: digits.induct)
  case (1 n)
  show ?case
  proof (cases "n < 10")
    case True
    then show ?thesis using 1 by (simp add: digits.simps [of n] is_digit_def)
  next
    case False
    then show ?thesis using 1 by (auto simp: digits.simps [of n] is_digit_def)
  qed
qed

lemma digits_nonempty [simp]: "digits n \<noteq> []"
  by (simp add: digits.simps [of n])

section \<open>Python sets\<close>

text \<open>
  The order in which CPython iterates over a set is unspecified: it depends on the hashes
  of the elements and on the history of the set. A function \<open>so\<close> from the list of the
  insertions to the iteration order stands for it; all that is used of it is that it
  enumerates the set without repetition.
\<close>

definition py_set_order :: "('a list \<Rightarrow> 'a list) \<Rightarrow> bool" where
  "py_set_order so \<longleftrightarrow> (\<forall>xs. distinct (so xs) \<and> set (so xs) = set xs)"

lemma py_set_orderD:
  assumes "py_set_order so"
  shows "distinct (so xs)" and "set (so xs) = set xs"
  using assms by (simp_all add: py_set_order_def)

lemma py_set_order_dedup: "py_set_order dedup"
  by (simp add: py_set_order_def)

section \<open>Relations on finite carriers\<close>

lemma acyclic_Un_fresh:
  assumes "acyclic r" and "n \<notin> S" and "\<And>a. (a, n) \<notin> r"
  shows "acyclic (r \<union> {n} \<times> S)"
proof (rule acyclicI, rule allI, rule notI)
  fix x assume "(x, x) \<in> (r \<union> {n} \<times> S)\<^sup>+"
  moreover have to_n: "(a, b) \<in> (r \<union> {n} \<times> S)\<^sup>+ \<Longrightarrow> b \<noteq> n" for a b
    by (induction rule: trancl_induct) (use assms(2,3) in auto)
  have "(a, b) \<in> (r \<union> {n} \<times> S)\<^sup>+ \<Longrightarrow> a \<noteq> n \<Longrightarrow> (a, b) \<in> r\<^sup>+" for a b
  proof (induction rule: trancl_induct)
    case (step y z)
    have "y \<noteq> n" using step.hyps(1) to_n by blast
    with step show ?case by (auto intro: trancl.trancl_into_trancl)
  qed auto
  ultimately show False using assms(1) to_n [of x x] by (meson acyclic_def)
qed

lemma acyclic_ranked:
  assumes "acyclic r" and "finite U" and "U \<noteq> {}"
  obtains u where "u \<in> U" and "\<And>v. v \<in> U \<Longrightarrow> (u, v) \<notin> r"
proof -
  let ?s = "(r \<inter> U \<times> U)"
  have "finite ?s" using assms(2) by (auto intro: finite_subset [of _ "U \<times> U"])
  moreover have "acyclic ?s" using assms(1) by (rule acyclic_subset) auto
  ultimately have "wf (?s\<inverse>)" by (rule finite_acyclic_wf_converse)
  then obtain u where "u \<in> U" "\<And>v. (v, u) \<in> ?s\<inverse> \<Longrightarrow> v \<notin> U"
    using assms(3) by (metis wf_eq_minimal ex_in_conv)
  then show ?thesis using that by blast
qed

section \<open>Objects with guarded operations\<close>

text \<open>
  An object whose operations may raise before they change anything: the caller sees the exception
  and the object is as it was. \<open>run_ops\<close> is a history of such calls. The locale states what the
  provider of the operations promises: an invariant every operation keeps and a part of the
  state that no operation touches.
\<close>

definition attempt :: "('op \<Rightarrow> 's \<Rightarrow> 'e + 's) \<Rightarrow> 'op \<Rightarrow> 's \<Rightarrow> 's" where
  "attempt step op s = (case step op s of Inl _ \<Rightarrow> s | Inr s' \<Rightarrow> s')"

definition run_ops :: "('op \<Rightarrow> 's \<Rightarrow> 'e + 's) \<Rightarrow> 'op list \<Rightarrow> 's \<Rightarrow> 's" where
  "run_ops step ops s = fold (attempt step) ops s"

lemma run_ops_simps [simp]:
  "run_ops step [] s = s"
  "run_ops step (op # ops) s = run_ops step ops (attempt step op s)"
  by (simp_all add: run_ops_def)

lemma run_ops_append: "run_ops step (ops @ ops') s = run_ops step ops' (run_ops step ops s)"
  by (simp add: run_ops_def)

locale guarded_object =
  fixes step :: "'op \<Rightarrow> 's \<Rightarrow> 'e + 's"
    and inv :: "'s \<Rightarrow> bool"
    and fixed :: "'s \<Rightarrow> 'r"
  assumes step_inv: "inv s \<Longrightarrow> step op s = Inr s' \<Longrightarrow> inv s'"
    and step_fixed: "inv s \<Longrightarrow> step op s = Inr s' \<Longrightarrow> fixed s' = fixed s"
begin

lemma attempt_inv: "inv s \<Longrightarrow> inv (attempt step op s) \<and> fixed (attempt step op s) = fixed s"
  using step_inv step_fixed by (auto simp: attempt_def split: sum.splits)

lemma run_inv: "inv s \<Longrightarrow> inv (run_ops step ops s) \<and> fixed (run_ops step ops s) = fixed s"
  by (induction ops arbitrary: s) (auto simp: attempt_inv)

end

end
