(* ===== verification/Dep_Graph.thy ===== *)
theory Dep_Graph
  imports Prelude
begin

text \<open>
  The dependency graph of the container (\<open>xime/core/container/graph.py\<close>): an edge from a
  class to each class it needs, cycle detection by an iterative depth-first search, and
  Kahn's algorithm with and without the ordering rules of \<open>dependency.order()\<close>.
  Classes are the elements of an arbitrary type; \<open>nm\<close> reads \<open>__name__\<close>, and \<open>so\<close> is the
  iteration order of Python sets (\<open>Prelude\<close>).
\<close>

section \<open>The graph\<close>

type_synonym 'c deps_map = "(string, 'c) dict"
type_synonym 'c resolved_map = "('c, 'c deps_map) dict"

datatype graph_error =
    GraphKeyError
  | GraphValueError
  | GraphIndexError
  | InvalidOrderRule string
  | OrderRuleCycle "string list"

record 'c dep_graph =
  g_order :: "'c list"
  g_edges :: "('c, 'c list) dict"
  g_dependents :: "('c, 'c list) dict"

abbreviation g_nodes :: "'c dep_graph \<Rightarrow> 'c set" where
  "g_nodes g \<equiv> set (g_order g)"

text \<open>
  \<open>dependents[dep].append(cls)\<close> for every class in declared order and every dependency of
  it, in the iteration order of its edge set.
\<close>

definition append_dependent ::
  "'c \<Rightarrow> 'c \<Rightarrow> ('c, 'c list) dict \<Rightarrow> graph_error + ('c, 'c list) dict" where
  "append_dependent cls dep dm =
     sbind (dindex GraphKeyError dm dep) (\<lambda>l. Inr (dset dep (l @ [cls]) dm))"

definition build_dependents ::
  "'c list \<Rightarrow> ('c, 'c list) dict \<Rightarrow> graph_error + ('c, 'c list) dict" where
  "build_dependents order edges =
     sfold (\<lambda>cls dm. sbind (dindex GraphKeyError edges cls)
                       (\<lambda>deps. sfold (append_dependent cls) deps dm))
       order (map (\<lambda>n. (n, [])) order)"

definition make_edges ::
  "('c list \<Rightarrow> 'c list) \<Rightarrow> 'c resolved_map \<Rightarrow> ('c, 'c list) dict" where
  "make_edges so resolved =
     map (\<lambda>(cls, deps). (cls, so (filter (\<lambda>dep. dep \<in> set (dkeys resolved)) (dvals deps))))
       resolved"

definition make_graph ::
  "('c list \<Rightarrow> 'c list) \<Rightarrow> 'c resolved_map \<Rightarrow> graph_error + 'c dep_graph" where
  "make_graph so resolved =
     (let order = dkeys resolved; edges = make_edges so resolved
      in sbind (build_dependents order edges) (\<lambda>dm.
           Inr \<lparr>g_order = order, g_edges = edges, g_dependents = dm\<rparr>))"

section \<open>Depth-first search\<close>

datatype color = White | Gray | Black

text \<open>\<open>self._edges.get(n, set())\<close>\<close>

definition neighbors :: "('c, 'c list) dict \<Rightarrow> 'c \<Rightarrow> 'c list" where
  "neighbors edges n = dget_default [] edges n"

text \<open>
  The inner \<open>while call_stack\<close> loop. A stack frame is a node and what is left of the
  iterator over its neighbours; the head of the list is the top of the stack. \<open>path\<close> keeps
  the order of the source (the current node last).
\<close>

definition white_count :: "('c, color) dict \<Rightarrow> nat" where
  "white_count col = length (filter (\<lambda>(k, v). v = White) col)"

lemma white_count_gray:
  "dget col x = Some White \<Longrightarrow> white_count (dset x Gray col) < white_count col"
  unfolding white_count_def by (induction col) (auto split: if_splits)

lemma white_count_black: "white_count (dset x Black col) \<le> white_count col"
  unfolding white_count_def by (induction col) auto

function (sequential) dfs_loop ::
  "('c \<Rightarrow> 'c list) \<Rightarrow> ('c, color) dict \<Rightarrow> 'c list \<Rightarrow> ('c \<times> 'c list) list \<Rightarrow> 'c list list
    \<Rightarrow> graph_error + (('c, color) dict \<times> 'c list \<times> 'c list list)" where
  "dfs_loop nb col path [] cycles = Inr (col, path, cycles)"
| "dfs_loop nb col path ((node, neighbor # rest) # st) cycles =
     (case dget col neighbor of
        None \<Rightarrow> Inl GraphKeyError
      | Some Gray \<Rightarrow>
          if neighbor \<in> set path
          then dfs_loop nb col path ((node, rest) # st)
                 (cycles @ [dropWhile (\<lambda>c. c \<noteq> neighbor) path @ [neighbor]])
          else Inl GraphValueError
      | Some White \<Rightarrow>
          dfs_loop nb (dset neighbor Gray col) (path @ [neighbor])
            ((neighbor, nb neighbor) # (node, rest) # st) cycles
      | Some Black \<Rightarrow> dfs_loop nb col path ((node, rest) # st) cycles)"
| "dfs_loop nb col path ((node, []) # st) cycles =
     (if path = [] then Inl GraphIndexError
      else dfs_loop nb (dset node Black col) (butlast path) st cycles)"
  by pat_completeness auto
termination
proof (relation "measures
    [\<lambda>(nb, col, path, st, cycles). white_count col,
     \<lambda>(nb, col, path, st, cycles). sum_list (map (\<lambda>(n, rest). Suc (length rest)) st)]",
    goal_cases)
  case (5 nb col path node st cycles)
  then show ?case using white_count_black [of node col] by auto
qed (auto simp: white_count_gray)

fun dfs_starts ::
  "('c \<Rightarrow> 'c list) \<Rightarrow> 'c list \<Rightarrow> ('c, color) dict \<Rightarrow> 'c list \<Rightarrow> 'c list list
    \<Rightarrow> graph_error + 'c list list" where
  "dfs_starts nb [] col path cycles = Inr cycles"
| "dfs_starts nb (start # starts) col path cycles =
     (case dget col start of
        None \<Rightarrow> Inl GraphKeyError
      | Some c \<Rightarrow>
          if c \<noteq> White then dfs_starts nb starts col path cycles
          else sbind (dfs_loop nb (dset start Gray col) (path @ [start])
                        [(start, nb start)] cycles)
                 (\<lambda>(col', path', cycles'). dfs_starts nb starts col' path' cycles'))"

definition detect_cycles :: "'c dep_graph \<Rightarrow> graph_error + 'c list list" where
  "detect_cycles g =
     dfs_starts (neighbors (g_edges g)) (g_order g)
       (map (\<lambda>n. (n, White)) (g_order g)) [] []"

section \<open>Kahn's algorithm\<close>

text \<open>The inner loop: one dependency of each dependent is done.\<close>

fun relax ::
  "'c list \<Rightarrow> ('c, int) dict \<Rightarrow> 'c list \<Rightarrow> graph_error + (('c, int) dict \<times> 'c list)" where
  "relax [] dep_count queue = Inr (dep_count, queue)"
| "relax (d # ds) dep_count queue =
     (case dget dep_count d of
        None \<Rightarrow> Inl GraphKeyError
      | Some k \<Rightarrow> relax ds (dset d (k - 1) dep_count)
                   (if k - 1 = 0 then queue @ [d] else queue))"

definition pos_count :: "('c, int) dict \<Rightarrow> nat" where
  "pos_count dep_count = length (filter (\<lambda>(k, v). 0 < v) dep_count)"

lemma pos_count_dec:
  "dget cnt d = Some k \<Longrightarrow>
     pos_count (dset d (k - 1) cnt) + (if k - 1 = 0 then 1 else 0) = pos_count cnt"
  unfolding pos_count_def by (induction cnt) (auto split: if_splits)

lemma relax_measure:
  "relax ds cnt q = Inr (cnt', q') \<Longrightarrow> length q' + pos_count cnt' = length q + pos_count cnt"
proof (induction ds cnt q rule: relax.induct)
  case (2 d ds cnt q)
  then obtain k where "dget cnt d = Some k" by (auto split: option.splits)
  with 2 pos_count_dec [of cnt d k] show ?case by (auto split: if_splits)
qed simp

function (sequential) kahn_loop ::
  "('c, 'c list) dict \<Rightarrow> ('c, int) dict \<Rightarrow> 'c list \<Rightarrow> 'c list \<Rightarrow> graph_error + 'c list" where
  "kahn_loop dependents dep_count [] result = Inr result"
| "kahn_loop dependents dep_count (node # queue) result =
     (case dget dependents node of
        None \<Rightarrow> Inl GraphKeyError
      | Some ds \<Rightarrow>
          case relax ds dep_count queue of
            Inl e \<Rightarrow> Inl e
          | Inr (dep_count', queue') \<Rightarrow>
              kahn_loop dependents dep_count' queue' (result @ [node]))"
  by pat_completeness auto
termination
  by (relation "measure (\<lambda>(dm, cnt, q, res). length q + pos_count cnt)")
     (auto dest: relax_measure)

text \<open>\<open>dep_count\<close>, the initial queue and the loop, as both sort methods run them.\<close>

definition dep_counts ::
  "'c list \<Rightarrow> ('c, 'c list) dict \<Rightarrow> graph_error + ('c, int) dict" where
  "dep_counts order edges =
     smap (\<lambda>n. sbind (dindex GraphKeyError edges n) (\<lambda>ds. Inr (n, int (length ds)))) order"

definition kahn ::
  "'c list \<Rightarrow> ('c, 'c list) dict \<Rightarrow> ('c, 'c list) dict \<Rightarrow> graph_error + 'c list" where
  "kahn order edges dependents =
     sbind (dep_counts order edges) (\<lambda>cnt.
       kahn_loop dependents cnt (filter (\<lambda>n. dget cnt n = Some 0) order) [])"

definition topological_order :: "'c dep_graph \<Rightarrow> graph_error + 'c list" where
  "topological_order g = kahn (g_order g) (g_edges g) (g_dependents g)"

section \<open>Ordering rules\<close>

definition set_add :: "'c \<Rightarrow> 'c list \<Rightarrow> 'c list" where
  "set_add x s = (if x \<in> set s then s else s @ [x])"

text \<open>The pairs \<open>(rule[i], rule[i + 1])\<close> of a rule; the second depends on the first.\<close>

fun rule_pairs :: "'c list \<Rightarrow> ('c \<times> 'c) list" where
  "rule_pairs (a # b # cs) = (a, b) # rule_pairs (b # cs)"
| "rule_pairs cs = []"

definition add_pairs ::
  "('c \<times> 'c) list \<Rightarrow> ('c, 'c list) dict \<Rightarrow> graph_error + ('c, 'c list) dict" where
  "add_pairs = sfold (\<lambda>(before, after) comb.
     sbind (dindex GraphKeyError comb after) (\<lambda>s. Inr (dset after (set_add before s) comb)))"

definition add_rule ::
  "'c list \<Rightarrow> ('c, 'c list) dict \<Rightarrow> graph_error + ('c, 'c list) dict" where
  "add_rule rule = add_pairs (rule_pairs rule)"

text \<open>
  \<open>_find_cycle\<close>: the same search, on the nodes Kahn's algorithm left over, stopping at the
  first back edge. \<open>Inl\<close> of the inner sum is a cycle found, \<open>Inr\<close> a search that went on.
\<close>

function (sequential) find_loop ::
  "('c \<Rightarrow> 'c list) \<Rightarrow> ('c, color) dict \<Rightarrow> 'c list \<Rightarrow> ('c \<times> 'c list) list
    \<Rightarrow> graph_error + ('c list + ('c, color) dict \<times> 'c list)" where
  "find_loop nb col path [] = Inr (Inr (col, path))"
| "find_loop nb col path ((node, neighbor # rest) # st) =
     (case dget col neighbor of
        None \<Rightarrow> Inl GraphKeyError
      | Some Gray \<Rightarrow>
          if neighbor \<in> set path
          then Inr (Inl (dropWhile (\<lambda>c. c \<noteq> neighbor) path @ [neighbor]))
          else Inl GraphValueError
      | Some White \<Rightarrow>
          find_loop nb (dset neighbor Gray col) (path @ [neighbor])
            ((neighbor, nb neighbor) # (node, rest) # st)
      | Some Black \<Rightarrow> find_loop nb col path ((node, rest) # st))"
| "find_loop nb col path ((node, []) # st) =
     (if path = [] then Inl GraphIndexError
      else find_loop nb (dset node Black col) (butlast path) st)"
  by pat_completeness auto
termination
proof (relation "measures
    [\<lambda>(nb, col, path, st). white_count col,
     \<lambda>(nb, col, path, st). sum_list (map (\<lambda>(n, rest). Suc (length rest)) st)]",
    goal_cases)
  case (4 nb col path node st)
  then show ?case using white_count_black [of node col] by auto
qed (auto simp: white_count_gray)

fun find_starts ::
  "('c \<Rightarrow> 'c list) \<Rightarrow> 'c list \<Rightarrow> ('c, color) dict \<Rightarrow> 'c list \<Rightarrow> graph_error + 'c list" where
  "find_starts nb [] col path = Inr []"
| "find_starts nb (start # starts) col path =
     (case dget col start of
        None \<Rightarrow> Inl GraphKeyError
      | Some c \<Rightarrow>
          if c \<noteq> White then find_starts nb starts col path
          else sbind (find_loop nb (dset start Gray col) (path @ [start]) [(start, nb start)])
                 (\<lambda>r. case r of
                        Inl cycle \<Rightarrow> Inr cycle
                      | Inr (col', path') \<Rightarrow> find_starts nb starts col' path'))"

definition find_cycle ::
  "('c list \<Rightarrow> 'c list) \<Rightarrow> ('c, 'c list) dict \<Rightarrow> 'c list \<Rightarrow> graph_error + 'c list" where
  "find_cycle so edges nodes =
     find_starts (\<lambda>n. so (filter (\<lambda>d. d \<in> set nodes) (neighbors edges n))) (so nodes)
       (map (\<lambda>n. (n, White)) nodes) []"

definition rules_error :: "('c \<Rightarrow> string) \<Rightarrow> 'c list \<Rightarrow> string" where
  "rules_error nm unknown = join '', '' (map (\<lambda>c. [CHR 0x27] @ nm c @ [CHR 0x27]) (dedup unknown))"

definition combined_edges ::
  "('c list \<Rightarrow> 'c list) \<Rightarrow> 'c dep_graph \<Rightarrow> 'c list list \<Rightarrow> graph_error + ('c, 'c list) dict" where
  "combined_edges so g rules =
     sbind (smap (\<lambda>n. sbind (dindex GraphKeyError (g_edges g) n) (\<lambda>s. Inr (n, s))) (g_order g))
       (\<lambda>comb0. sbind (sfold add_rule rules comb0)
         (\<lambda>comb. Inr (map (\<lambda>(n, s). (n, so s)) comb)))"

definition topological_order_with_rules ::
  "('c \<Rightarrow> string) \<Rightarrow> ('c list \<Rightarrow> 'c list) \<Rightarrow> 'c dep_graph \<Rightarrow> 'c list list
    \<Rightarrow> graph_error + 'c list" where
  "topological_order_with_rules nm so g rules =
     (let unknown = filter (\<lambda>c. c \<notin> g_nodes g) (concat rules)
      in if unknown \<noteq> [] then Inl (InvalidOrderRule (rules_error nm unknown))
         else sbind (combined_edges so g rules) (\<lambda>combined.
           sbind (build_dependents (g_order g) combined) (\<lambda>dependents.
             sbind (kahn (g_order g) combined dependents) (\<lambda>result.
               if length result = card (g_nodes g) then Inr result
               else sbind (find_cycle so combined
                             (filter (\<lambda>n. n \<notin> set result) (g_order g)))
                      (\<lambda>cycle. Inl (OrderRuleCycle (map nm cycle)))))))"

section \<open>Correctness of the search\<close>

definition has_color :: "('c, color) dict \<Rightarrow> color \<Rightarrow> 'c set" where
  "has_color col k = {n. dget col n = Some k}"

lemma has_color_dset:
  "has_color (dset x k col) j = (if j = k then insert x (has_color col j) else has_color col j - {x})"
  by (auto simp: has_color_def)

definition closed_walk :: "('c \<Rightarrow> 'c list) \<Rightarrow> 'c list \<Rightarrow> bool" where
  "closed_walk nb c \<longleftrightarrow> 2 \<le> length c \<and> hd c = last c \<and> successively (\<lambda>a b. b \<in> set (nb a)) c"

definition cycle_in :: "('c \<Rightarrow> 'c list) \<Rightarrow> 'c set \<Rightarrow> 'c list \<Rightarrow> bool" where
  "cycle_in nb N c \<longleftrightarrow> closed_walk nb c \<and> set c \<subseteq> N"

definition dfs_inv ::
  "('c \<Rightarrow> 'c list) \<Rightarrow> 'c set \<Rightarrow> ('c, color) dict \<Rightarrow> 'c list \<Rightarrow> ('c \<times> 'c list) list \<Rightarrow> bool" where
  "dfs_inv nb N col path st \<longleftrightarrow>
     set (dkeys col) = N \<and> path = rev (map fst st) \<and> distinct path \<and>
     has_color col Gray = set path \<and> list_all (\<lambda>(n, rest). set rest \<subseteq> set (nb n)) st \<and>
     successively (\<lambda>a b. b \<in> set (nb a)) path"

lemma dfs_inv_skip:
  "dfs_inv nb N col path ((n, x # rest) # st) \<Longrightarrow> dfs_inv nb N col path ((n, rest) # st)"
  by (auto simp: dfs_inv_def simp del: set_map)

lemma dfs_inv_push:
  assumes "dfs_inv nb N col path ((n, x # rest) # st)" and "dget col x = Some White"
  shows "dfs_inv nb N (dset x Gray col) (path @ [x]) ((x, nb x) # (n, rest) # st)"
proof -
  have "x \<notin> has_color col Gray" using assms(2) by (simp add: has_color_def)
  moreover have "x \<in> N"
    using assms dget_Some_keys [OF assms(2)] by (auto simp: dfs_inv_def)
  ultimately show ?thesis
    using assms(1) by (auto simp: dfs_inv_def has_color_dset set_dkeys_dset successively_append_iff insert_absorb
      simp del: set_map)
qed

lemma dfs_inv_pop:
  assumes "dfs_inv nb N col path ((n, []) # st)"
  shows "path \<noteq> []" and "dfs_inv nb N (dset n Black col) (butlast path) st"
proof -
  have "n \<in> has_color col Gray" using assms by (simp add: dfs_inv_def)
  then have n: "n \<in> N" using assms dget_Some_keys [of col n Gray]
    by (simp add: dfs_inv_def has_color_def)
  show "path \<noteq> []" using assms by (simp add: dfs_inv_def)
  show "dfs_inv nb N (dset n Black col) (butlast path) st"
    using assms n
    by (auto simp: dfs_inv_def has_color_dset set_dkeys_dset successively_append_iff butlast_append insert_absorb
        simp del: set_map)
qed

lemma dfs_inv_start:
  assumes "dfs_inv nb N col [] []" and "dget col x = Some White"
  shows "dfs_inv nb N (dset x Gray col) [x] [(x, nb x)]"
  using assms dget_Some_keys [OF assms(2)] by (auto simp: dfs_inv_def has_color_dset set_dkeys_dset insert_absorb simp del: set_map)

lemma back_edge_walk:
  assumes "dfs_inv nb N col path ((n, x # rest) # st)" and "x \<in> set path"
  shows "cycle_in nb N (dropWhile (\<lambda>c. c \<noteq> x) path @ [x])"
proof -
  obtain ys zs where p: "path = ys @ x # zs" "x \<notin> set ys"
    using assms(2) by (meson split_list_first)
  have d: "dropWhile (\<lambda>c. c \<noteq> x) path = x # zs"
    using p by (auto simp: dropWhile_append)
  have "last path = n" using assms(1) by (simp add: dfs_inv_def)
  then have last: "last (x # zs) = n" unfolding p(1) by simp
  have "x \<in> set (nb n)" using assms(1) by (auto simp: dfs_inv_def)
  moreover have "successively (\<lambda>a b. b \<in> set (nb a)) (x # zs)"
    using assms(1) p by (auto simp: dfs_inv_def successively_append_iff)
  ultimately have "successively (\<lambda>a b. b \<in> set (nb a)) ((x # zs) @ [x])"
    unfolding successively_append_iff using last by simp
  moreover have "set path \<subseteq> N"
    using assms(1) dget_Some_keys [of col _ Gray] by (auto simp: dfs_inv_def has_color_def set_eq_iff)
  ultimately show ?thesis using p last unfolding cycle_in_def closed_walk_def d by simp
qed

text \<open>Totality and soundness of the inner loop: it returns, and every new entry is a cycle.\<close>

lemma dfs_loop_sound:
  assumes "dfs_inv nb N col path st" and "\<And>n. n \<in> N \<Longrightarrow> set (nb n) \<subseteq> N"
    and "\<forall>c \<in> set cycles. cycle_in nb N c"
  shows "\<exists>col' new. dfs_loop nb col path st cycles = Inr (col', [], cycles @ new) \<and>
           dfs_inv nb N col' [] [] \<and> (\<forall>c \<in> set new. cycle_in nb N c) \<and>
           (\<forall>n. dget col n \<noteq> Some White \<longrightarrow> dget col' n \<noteq> Some White)"
  using assms
proof (induction nb col path st cycles rule: dfs_loop.induct)
  case (1 nb col path cycles)
  then show ?case by (auto simp: dfs_inv_def)
next
  case (2 nb col path node x rest st cycles)
  note skip = dfs_inv_skip [OF "2.prems"(1)]
  have "node \<in> has_color col Gray" using "2.prems"(1) by (simp add: dfs_inv_def)
  then have "node \<in> N"
    using "2.prems"(1) dget_Some_keys [of col node Gray] by (simp add: dfs_inv_def has_color_def)
  then have "x \<in> N" using "2.prems"(1,2) by (auto simp: dfs_inv_def)
  then obtain c where c: "dget col x = Some c"
    using "2.prems"(1) by (metis dfs_inv_def dget_None_keys not_None_eq)
  show ?case
  proof (cases c)
    case White
    then show ?thesis
      using c 2(1) [of White] dfs_inv_push [OF "2.prems"(1)] "2.prems"(2,3)
      by (fastforce split: if_splits)
  next
    case Gray
    have x: "x \<in> set path" using "2.prems"(1) c Gray by (auto simp: dfs_inv_def has_color_def)
    then show ?thesis
      using c Gray 2(2) [of Gray] skip back_edge_walk [OF "2.prems"(1) x] "2.prems"(2,3)
      by fastforce
  next
    case Black
    then show ?thesis using c 2(3) [of Black] skip "2.prems"(2,3) by simp
  qed
next
  case (3 nb col path node st cycles)
  then show ?case using dfs_inv_pop [OF "3.prems"(1)] by (fastforce split: if_splits)
qed


text \<open>Completeness: if no cycle was recorded, the finished nodes are closed and acyclic.\<close>

definition dep_rel :: "('c \<Rightarrow> 'c list) \<Rightarrow> 'c set \<Rightarrow> ('c \<times> 'c) set" where
  "dep_rel nb N = {(n, d). n \<in> N \<and> d \<in> set (nb n)}"

fun frames_done ::
  "('c \<Rightarrow> 'c list) \<Rightarrow> 'c set \<Rightarrow> 'c set \<Rightarrow> ('c \<times> 'c list) list \<Rightarrow> bool" where
  "frames_done nb B X [] \<longleftrightarrow> True"
| "frames_done nb B X ((n, rest) # st) \<longleftrightarrow>
     set (nb n) \<subseteq> set rest \<union> B \<union> X \<and> frames_done nb B {n} st"

lemma frames_done_mono: "frames_done nb B X st \<Longrightarrow> B \<subseteq> B' \<Longrightarrow> frames_done nb B' X st"
  by (induction nb B X st rule: frames_done.induct) auto

lemma frames_done_absorb: "frames_done nb B {n} st \<Longrightarrow> frames_done nb (insert n B) X st"
  by (cases st) (auto intro: frames_done_mono)

definition dfs_done ::
  "('c \<Rightarrow> 'c list) \<Rightarrow> ('c, color) dict \<Rightarrow> ('c \<times> 'c list) list \<Rightarrow> bool" where
  "dfs_done nb col st \<longleftrightarrow>
     frames_done nb (has_color col Black) {} st \<and>
     (\<forall>n \<in> has_color col Black. set (nb n) \<subseteq> has_color col Black) \<and>
     acyclic (dep_rel nb (has_color col Black))"

lemma dfs_done_push:
  assumes "dfs_done nb col ((n, x # rest) # st)" and "dget col x = Some White"
  shows "dfs_done nb (dset x Gray col) ((x, nb x) # (n, rest) # st)"
proof -
  have "has_color (dset x Gray col) Black = has_color col Black"
    using assms(2) by (auto simp: has_color_def)
  with assms(1) show ?thesis by (auto simp: dfs_done_def)
qed

lemma dfs_done_black:
  "dfs_done nb col ((n, x # rest) # st) \<Longrightarrow> dget col x = Some Black
     \<Longrightarrow> dfs_done nb col ((n, rest) # st)"
  by (auto simp: dfs_done_def has_color_def)

lemma dfs_done_pop:
  assumes "dfs_done nb col ((n, []) # st)" and "dget col n = Some Gray"
  shows "dfs_done nb (dset n Black col) st"
proof -
  let ?B = "has_color col Black"
  have B: "has_color (dset n Black col) Black = insert n ?B" by (simp add: has_color_dset)
  have n: "n \<notin> ?B" using assms(2) by (simp add: has_color_def)
  have sub: "set (nb n) \<subseteq> ?B" using assms(1) by (simp add: dfs_done_def)
  have closed: "\<forall>m \<in> ?B. set (nb m) \<subseteq> ?B" using assms(1) by (simp add: dfs_done_def)
  have rel: "dep_rel nb (insert n ?B) = dep_rel nb ?B \<union> {n} \<times> set (nb n)"
    by (auto simp: dep_rel_def)
  have "acyclic (dep_rel nb (insert n ?B))"
    unfolding rel
  proof (rule acyclic_Un_fresh)
    show "acyclic (dep_rel nb ?B)" using assms(1) by (simp add: dfs_done_def)
    show "n \<notin> set (nb n)" using sub n by auto
    show "(a, n) \<notin> dep_rel nb ?B" for a using closed n by (auto simp: dep_rel_def)
  qed
  moreover have "frames_done nb (insert n ?B) {} st"
    using assms(1) by (auto simp: dfs_done_def intro: frames_done_absorb)
  ultimately show ?thesis using sub closed unfolding dfs_done_def B by auto
qed

lemma dfs_loop_extends:
  "dfs_loop nb col path st cycles = Inr (col', path', cycles') \<Longrightarrow> \<exists>new. cycles' = cycles @ new"
proof (induction nb col path st cycles rule: dfs_loop.induct)
  case (2 nb col path node x rest st cycles)
  then show ?case by (fastforce split: option.splits color.splits if_splits)
qed (auto split: if_splits)

lemma dfs_loop_complete:
  assumes "dfs_inv nb N col path st" and "\<And>n. n \<in> N \<Longrightarrow> set (nb n) \<subseteq> N"
    and "dfs_done nb col st" and "dfs_loop nb col path st cycles = Inr (col', path', [])"
  shows "dfs_done nb col' []"
  using assms
proof (induction nb col path st cycles rule: dfs_loop.induct)
  case (2 nb col path node x rest st cycles)
  obtain c where c: "dget col x = Some c"
    using "2.prems"(4) by (auto split: option.splits)
  show ?case
  proof (cases c)
    case White
    then show ?thesis
      using c 2(1) [of White] dfs_inv_push [OF "2.prems"(1)] dfs_done_push [OF "2.prems"(3)]
        "2.prems"(2,4) by simp
  next
    case Gray
    then show ?thesis using c "2.prems"(4) by (auto split: if_splits dest!: dfs_loop_extends)
  next
    case Black
    then show ?thesis
      using c 2(3) [of Black] dfs_inv_skip [OF "2.prems"(1)] dfs_done_black [OF "2.prems"(3)]
        "2.prems"(2,4) by simp
  qed
next
  case (3 nb col path node st cycles)
  have "node \<in> has_color col Gray" using "3.prems"(1) by (simp add: dfs_inv_def)
  then have "dget col node = Some Gray" by (simp add: has_color_def)
  then show ?case
    using 3 dfs_inv_pop [OF "3.prems"(1)] dfs_done_pop [OF "3.prems"(3)] by simp
qed auto

lemma dfs_starts_sound:
  assumes "dfs_inv nb N col [] []" and "\<And>n. n \<in> N \<Longrightarrow> set (nb n) \<subseteq> N"
    and "set starts \<subseteq> N" and "\<forall>c \<in> set cycles. cycle_in nb N c"
  shows "\<exists>cycles'. dfs_starts nb starts col [] cycles = Inr cycles' \<and>
           (\<forall>c \<in> set cycles'. cycle_in nb N c)"
  using assms
proof (induction starts arbitrary: col cycles)
  case (Cons start starts)
  obtain c where c: "dget col start = Some c"
    using Cons.prems(1,3) by (metis dfs_inv_def dget_None_keys insert_subset list.set(2) not_None_eq)
  show ?case
  proof (cases "c = White")
    case False
    with c Cons show ?thesis by auto
  next
    case True
    with c have w: "dget col start = Some White" by simp
    obtain col' new where "dfs_loop nb (dset start Gray col) [start] [(start, nb start)] cycles
        = Inr (col', [], cycles @ new)" "dfs_inv nb N col' [] []" "\<forall>c \<in> set new. cycle_in nb N c"
      using dfs_loop_sound [OF dfs_inv_start [OF Cons.prems(1) w] Cons.prems(2,4)] by blast
    then show ?thesis using w Cons.IH [of col' "cycles @ new"] Cons.prems(2-4) by (auto simp: ball_Un)
  qed
qed auto

lemma dfs_starts_extends:
  "dfs_starts nb starts col path cycles = Inr cycles' \<Longrightarrow> \<exists>new. cycles' = cycles @ new"
proof (induction starts arbitrary: col path cycles)
  case (Cons start starts)
  then show ?case
    by (fastforce simp: sbind_eq_Inr split: option.splits if_splits dest!: dfs_loop_extends)
qed auto

lemma dfs_starts_complete:
  assumes "dfs_inv nb N col [] []" and "\<And>n. n \<in> N \<Longrightarrow> set (nb n) \<subseteq> N"
    and "set starts \<subseteq> N" and "dfs_done nb col []"
    and "\<forall>n \<in> N - set starts. dget col n \<noteq> Some White"
    and "dfs_starts nb starts col [] cycles = Inr []"
  shows "acyclic (dep_rel nb N)"
  using assms
proof (induction starts arbitrary: col cycles)
  case Nil
  have "n \<in> has_color col Black" if "n \<in> N" for n
  proof -
    obtain c where "dget col n = Some c"
      using \<open>n \<in> N\<close> Nil.prems(1) by (metis dfs_inv_def dget_None_keys not_None_eq)
    moreover have "n \<notin> has_color col Gray" using Nil.prems(1) by (simp add: dfs_inv_def)
    ultimately show ?thesis using Nil.prems(5) \<open>n \<in> N\<close> by (cases c) (auto simp: has_color_def)
  qed
  then have "dep_rel nb N \<subseteq> dep_rel nb (has_color col Black)" by (auto simp: dep_rel_def)
  then show ?case using Nil.prems(4) by (auto simp: dfs_done_def intro: acyclic_subset)
next
  case (Cons start starts)
  obtain c where c: "dget col start = Some c"
    using Cons.prems(1,3) by (metis dfs_inv_def dget_None_keys insert_subset list.set(2) not_None_eq)
  show ?case
  proof (cases "c = White")
    case False
    moreover from this have "\<forall>n \<in> N - set starts. dget col n \<noteq> Some White"
      using c Cons.prems(5) by (metis Diff_iff option.inject set_ConsD)
    ultimately show ?thesis using c Cons by simp
  next
    case True
    with c have w: "dget col start = Some White" by simp
    from Cons.prems(6) w obtain col' path' cycles' where loop:
        "dfs_loop nb (dset start Gray col) [start] [(start, nb start)] cycles = Inr (col', path', cycles')"
      and rest: "dfs_starts nb starts col' path' cycles' = Inr []"
      by (auto simp: sbind_eq_Inr)
    have cyc: "cycles' = []" using dfs_starts_extends [OF rest] by simp
    with loop have "cycles = []" using dfs_loop_extends [OF loop] by simp
    note start = dfs_inv_start [OF Cons.prems(1) w]
    obtain col'' new where s: "dfs_loop nb (dset start Gray col) [start] [(start, nb start)] cycles
        = Inr (col'', [], cycles @ new)" "dfs_inv nb N col'' [] []"
      "\<forall>n. dget (dset start Gray col) n \<noteq> Some White \<longrightarrow> dget col'' n \<noteq> Some White"
      using dfs_loop_sound [OF start Cons.prems(2), of cycles] \<open>cycles = []\<close> by auto
    have [simp]: "col'' = col'" "path' = []" using s(1) loop by auto
    have "has_color (dset start Gray col) Black = has_color col Black"
      using w by (auto simp: has_color_def)
    then have "dfs_done nb (dset start Gray col) [(start, nb start)]"
      using Cons.prems(4) by (simp add: dfs_done_def)
    then have "dfs_done nb col' []"
      using dfs_loop_complete [OF start Cons.prems(2)] loop cyc by simp
    then show ?thesis
      using Cons.IH [of col' "[]"] Cons.prems(2,3,5) s rest cyc by (auto split: if_splits)
  qed
qed

lemma closed_walk_cyclic:
  assumes "closed_walk nb c" and "set c \<subseteq> N"
  shows "\<not> acyclic (dep_rel nb N)"
proof -
  have walk: "successively (\<lambda>a b. b \<in> set (nb a)) (a # xs) \<Longrightarrow> set (a # xs) \<subseteq> N \<Longrightarrow> xs \<noteq> []
      \<Longrightarrow> (a, last xs) \<in> (dep_rel nb N)\<^sup>+" for a xs
  proof (induction xs arbitrary: a)
    case (Cons b xs)
    have ab: "(a, b) \<in> dep_rel nb N" using Cons.prems by (simp add: dep_rel_def)
    show ?case
    proof (cases "xs = []")
      case False
      then have "(b, last xs) \<in> (dep_rel nb N)\<^sup>+" using Cons by simp
      with ab False show ?thesis by (simp add: trancl_into_trancl2)
    qed (use ab in auto)
  qed simp
  obtain a xs where "c = a # xs" "xs \<noteq> []"
    using assms(1) by (cases c; cases "tl c") (auto simp: closed_walk_def)
  with walk [of a xs] assms show ?thesis by (auto simp: closed_walk_def acyclic_def)
qed

section \<open>Well-formed graphs\<close>

definition wf_adj :: "'c list \<Rightarrow> ('c, 'c list) dict \<Rightarrow> bool" where
  "wf_adj order edges \<longleftrightarrow> distinct order \<and>
     (\<forall>n \<in> set order. \<exists>ds. dget edges n = Some ds \<and> distinct ds \<and> set ds \<subseteq> set order)"

definition wf_rev :: "'c list \<Rightarrow> ('c, 'c list) dict \<Rightarrow> ('c, 'c list) dict \<Rightarrow> bool" where
  "wf_rev order edges dm \<longleftrightarrow>
     (\<forall>n \<in> set order. dget dm n = Some (filter (\<lambda>m. n \<in> set (neighbors edges m)) order))"

definition wf_graph :: "'c dep_graph \<Rightarrow> bool" where
  "wf_graph g \<longleftrightarrow> wf_adj (g_order g) (g_edges g) \<and>
     wf_rev (g_order g) (g_edges g) (g_dependents g)"

lemma wf_adj_neighbors:
  assumes "wf_adj order edges" and "n \<in> set order"
  shows "dget edges n = Some (neighbors edges n)" "distinct (neighbors edges n)"
    "set (neighbors edges n) \<subseteq> set order"
proof -
  obtain ds where "dget edges n = Some ds" "distinct ds" "set ds \<subseteq> set order"
    using assms by (auto simp: wf_adj_def)
  then show "dget edges n = Some (neighbors edges n)" "distinct (neighbors edges n)"
    "set (neighbors edges n) \<subseteq> set order"
    by (simp_all add: neighbors_def dget_default_def)
qed

lemma append_dependent_fold:
  assumes "distinct deps" and "\<And>d. d \<in> set deps \<Longrightarrow> dget dm d \<noteq> None"
  shows "\<exists>dm'. sfold (append_dependent cls) deps dm = Inr dm' \<and>
    dget dm' = (\<lambda>n. if n \<in> set deps then map_option (\<lambda>l. l @ [cls]) (dget dm n) else dget dm n)"
  using assms
proof (induction deps arbitrary: dm)
  case (Cons d deps)
  obtain l where l: "dget dm d = Some l" using Cons.prems(2) by fastforce
  let ?dm = "dset d (l @ [cls]) dm"
  have step: "append_dependent cls d dm = Inr ?dm" by (simp add: append_dependent_def dindex_def l)
  have "\<And>e. e \<in> set deps \<Longrightarrow> dget ?dm e \<noteq> None" using Cons.prems by auto
  with Cons.IH [of ?dm] Cons.prems(1) obtain dm' where
    "sfold (append_dependent cls) deps ?dm = Inr dm'"
    "dget dm' = (\<lambda>n. if n \<in> set deps then map_option (\<lambda>l. l @ [cls]) (dget ?dm n) else dget ?dm n)"
    by auto
  with step l Cons.prems(1) show ?case by (auto simp: fun_eq_iff)
qed simp

lemma build_dependents_fold:
  assumes "\<And>c. c \<in> set cs \<Longrightarrow> dget edges c = Some (nb c) \<and> distinct (nb c) \<and> set (nb c) \<subseteq> dom (dget dm)"
  shows "\<exists>dm'. sfold (\<lambda>cls dm. sbind (dindex GraphKeyError edges cls)
             (\<lambda>deps. sfold (append_dependent cls) deps dm)) cs dm = Inr dm' \<and>
    (\<forall>n. dget dm' n = map_option (\<lambda>l. l @ filter (\<lambda>m. n \<in> set (nb m)) cs) (dget dm n))"
  using assms
proof (induction cs arbitrary: dm)
  case Nil
  then show ?case by (simp add: option.map_ident)
next
  case (Cons c cs)
  have c: "dget edges c = Some (nb c)" "distinct (nb c)" "\<And>d. d \<in> set (nb c) \<Longrightarrow> dget dm d \<noteq> None"
    using Cons.prems [of c] by auto
  obtain dm1 where dm1: "sfold (append_dependent c) (nb c) dm = Inr dm1"
    "dget dm1 = (\<lambda>n. if n \<in> set (nb c) then map_option (\<lambda>l. l @ [c]) (dget dm n) else dget dm n)"
    using append_dependent_fold [OF c(2,3)] by blast
  have "dom (dget dm1) = dom (dget dm)" unfolding dm1(2) by (auto simp: dom_def)
  with Cons.IH [of dm1] Cons.prems obtain dm' where
    "sfold (\<lambda>cls dm. sbind (dindex GraphKeyError edges cls)
             (\<lambda>deps. sfold (append_dependent cls) deps dm)) cs dm1 = Inr dm'"
    "\<forall>n. dget dm' n = map_option (\<lambda>l. l @ filter (\<lambda>m. n \<in> set (nb m)) cs) (dget dm1 n)"
    by auto
  with c(1) dm1 show ?case
    by (auto simp: dindex_def option.map_comp comp_def)
qed

lemma build_dependents_ok:
  assumes "wf_adj order edges"
  shows "\<exists>dm. build_dependents order edges = Inr dm \<and> wf_rev order edges dm"
proof -
  have "dom (dget (map (\<lambda>n. (n, [] :: 'a list)) order)) = set order"
    by (auto simp: dom_def)
  then show ?thesis
    using build_dependents_fold [of order edges "neighbors edges" "map (\<lambda>n. (n, [])) order"]
      wf_adj_neighbors [OF assms]
    by (fastforce simp: build_dependents_def wf_rev_def)
qed

lemma make_edges_wf:
  assumes "distinct (dkeys resolved)" and "py_set_order so"
  shows "wf_adj (dkeys resolved) (make_edges so resolved)"
proof -
  have "dget (make_edges so resolved) n =
      map_option (\<lambda>deps. so (filter (\<lambda>dep. dep \<in> set (dkeys resolved)) (dvals deps))) (dget resolved n)" for n
    by (simp only: make_edges_def map_of_map comp_def)
  note edges = this
  show ?thesis
    unfolding wf_adj_def
  proof (intro conjI ballI)
    fix n assume "n \<in> set (dkeys resolved)"
    then obtain deps where "dget resolved n = Some deps" by (metis dget_None_keys not_None_eq)
    then show "\<exists>ds. dget (make_edges so resolved) n = Some ds \<and> distinct ds \<and> set ds \<subseteq> set (dkeys resolved)"
      using py_set_orderD [OF assms(2)] by (auto simp: edges)
  qed (rule assms(1))
qed

lemma make_graph_wf:
  assumes "distinct (dkeys resolved)" and "py_set_order so"
  shows "\<exists>g. make_graph so resolved = Inr g \<and> wf_graph g \<and> g_order g = dkeys resolved \<and>
           g_edges g = make_edges so resolved"
  using build_dependents_ok [OF make_edges_wf [OF assms]] make_edges_wf [OF assms]
  by (auto simp: make_graph_def wf_graph_def Let_def)

section \<open>Correctness of Kahn's algorithm\<close>

definition dep_sorted :: "('c \<Rightarrow> 'c list) \<Rightarrow> 'c list \<Rightarrow> bool" where
  "dep_sorted nb l \<longleftrightarrow> (\<forall>i < length l. set (nb (l ! i)) \<subseteq> set (take i l))"

lemma dep_sorted_snoc: "dep_sorted nb (l @ [x]) \<longleftrightarrow> dep_sorted nb l \<and> set (nb x) \<subseteq> set l"
  unfolding dep_sorted_def by (auto simp: nth_append less_Suc_eq)

lemma relax_spec:
  assumes "distinct ds" and "\<And>d. d \<in> set ds \<Longrightarrow> dget cnt d = Some (c d)"
  shows "\<exists>cnt'. relax ds cnt q = Inr (cnt', q @ filter (\<lambda>d. c d = 1) ds) \<and>
           dget cnt' = (\<lambda>n. if n \<in> set ds then Some (c n - 1) else dget cnt n)"
  using assms
proof (induction ds arbitrary: cnt q)
  case (Cons d ds)
  let ?cnt = "dset d (c d - 1) cnt" and ?q = "if c d - 1 = 0 then q @ [d] else q"
  have "\<And>e. e \<in> set ds \<Longrightarrow> dget ?cnt e = Some (c e)" using Cons.prems by auto
  from Cons.IH [OF _ this, of ?q] Cons.prems(1) obtain cnt' where
    "relax ds ?cnt ?q = Inr (cnt', ?q @ filter (\<lambda>d. c d = 1) ds)"
    "dget cnt' = (\<lambda>n. if n \<in> set ds then Some (c n - 1) else dget ?cnt n)" by auto
  with Cons.prems show ?case by (auto simp: fun_eq_iff)
qed simp

definition kahn_inv ::
  "'c list \<Rightarrow> ('c \<Rightarrow> 'c list) \<Rightarrow> ('c, int) dict \<Rightarrow> 'c list \<Rightarrow> 'c list \<Rightarrow> bool" where
  "kahn_inv order nb cnt queue result \<longleftrightarrow>
     distinct (result @ queue) \<and> set (result @ queue) \<subseteq> set order \<and>
     (\<forall>n \<in> set order. dget cnt n = Some (int (card (set (nb n) - set result)))) \<and>
     (\<forall>n \<in> set order. n \<in> set (result @ queue) \<longleftrightarrow> set (nb n) \<subseteq> set result) \<and>
     dep_sorted nb result"

lemma kahn_inv_step:
  assumes inv: "kahn_inv order nb cnt (node # queue) result" and "distinct order"
    and dm: "dget dm node = Some (filter (\<lambda>m. node \<in> set (nb m)) order)"
  shows "\<exists>cnt' queue'. relax (filter (\<lambda>m. node \<in> set (nb m)) order) cnt queue = Inr (cnt', queue') \<and>
           kahn_inv order nb cnt' queue' (result @ [node])"
proof -
  let ?ds = "filter (\<lambda>m. node \<in> set (nb m)) order"
  let ?c = "\<lambda>m. int (card (set (nb m) - set result))"
  let ?new = "filter (\<lambda>d. ?c d = 1) ?ds"
  have fresh: "node \<notin> set result" and "node \<in> set order" using inv by (auto simp: kahn_inv_def)
  obtain cnt' where r: "relax ?ds cnt queue = Inr (cnt', queue @ ?new)"
    "dget cnt' = (\<lambda>n. if n \<in> set ?ds then Some (?c n - 1) else dget cnt n)"
    using relax_spec [of ?ds cnt ?c queue] inv assms(2) by (auto simp: kahn_inv_def)
  have card: "?c m - 1 = int (card (set (nb m) - set (result @ [node])))"
    if "node \<in> set (nb m)" for m
  proof -
    have "set (nb m) - set (result @ [node]) = (set (nb m) - set result) - {node}" by auto
    moreover have "card (set (nb m) - set result) > 0"
      using that fresh by (auto simp: card_gt_0_iff)
    ultimately show ?thesis using that fresh by (simp add: card_Diff_singleton)
  qed
  have cnt: "dget cnt' n = Some (int (card (set (nb n) - set (result @ [node]))))"
    if "n \<in> set order" for n
  proof (cases "node \<in> set (nb n)")
    case True
    with that card show ?thesis by (simp add: r(2))
  next
    case False
    then have "set (nb n) - set (result @ [node]) = set (nb n) - set result" by auto
    with that False inv show ?thesis by (simp add: r(2) kahn_inv_def)
  qed
  have new: "m \<in> set ?new \<longleftrightarrow> m \<in> set order \<and> node \<in> set (nb m) \<and> set (nb m) \<subseteq> set (result @ [node])" for m
  proof -
    have "?c m = 1 \<longleftrightarrow> set (nb m) \<subseteq> set (result @ [node])" if "node \<in> set (nb m)"
    proof -
      have "?c m = 1 \<longleftrightarrow> card (set (nb m) - set (result @ [node])) = 0" using card [OF that] by linarith
      then show ?thesis by (auto simp: card_eq_0_iff)
    qed
    then show ?thesis by auto
  qed
  have members: "n \<in> set ((result @ [node]) @ queue @ ?new) \<longleftrightarrow> set (nb n) \<subseteq> set (result @ [node])"
    if "n \<in> set order" for n
  proof -
    have "n \<in> set (result @ node # queue) \<longleftrightarrow> set (nb n) \<subseteq> set result"
      using inv that by (simp add: kahn_inv_def)
    moreover have "n \<in> set ((result @ [node]) @ queue @ ?new)
        \<longleftrightarrow> n \<in> set (result @ node # queue) \<or> n \<in> set ?new" by auto
    ultimately show ?thesis unfolding new using that by auto
  qed
  have "set ?new \<inter> set (result @ node # queue) = {}"
    using inv fresh unfolding new [abs_def] kahn_inv_def by (auto simp: new)
  moreover have "distinct ?new" using assms(2) by simp
  ultimately have "distinct ((result @ [node]) @ queue @ ?new)"
    using inv unfolding kahn_inv_def by auto
  moreover have "set ((result @ [node]) @ queue @ ?new) \<subseteq> set order"
    using inv by (auto simp: kahn_inv_def)
  moreover have "dep_sorted nb (result @ [node])"
    using inv \<open>node \<in> set order\<close> unfolding dep_sorted_snoc kahn_inv_def by auto
  ultimately have "kahn_inv order nb cnt' (queue @ ?new) (result @ [node])"
    using cnt members unfolding kahn_inv_def by blast
  with r(1) show ?thesis by blast
qed


lemma kahn_loop_ok:
  assumes "kahn_inv order nb cnt queue result" and "distinct order"
    and "\<And>n. n \<in> set order \<Longrightarrow> dget dm n = Some (filter (\<lambda>m. n \<in> set (nb m)) order)"
  shows "\<exists>res cnt'. kahn_loop dm cnt queue result = Inr res \<and> kahn_inv order nb cnt' [] res"
  using assms
proof (induction dm cnt queue result rule: kahn_loop.induct)
  case (2 dm cnt node queue result)
  have "node \<in> set order" using "2.prems"(1) by (simp add: kahn_inv_def)
  note dm = "2.prems"(3) [OF this]
  obtain cnt' queue' where r: "relax (filter (\<lambda>m. node \<in> set (nb m)) order) cnt queue = Inr (cnt', queue')"
    "kahn_inv order nb cnt' queue' (result @ [node])"
    using kahn_inv_step [OF "2.prems"(1,2) dm] by blast
  show ?case using "2.IH" [OF dm r(1) refl r(2) "2.prems"(2,3)] dm r(1) by simp
qed auto

lemma kahn_ok:
  assumes "wf_adj order edges" and "wf_rev order edges dm"
  shows "\<exists>res cnt. kahn order edges dm = Inr res \<and> kahn_inv order (neighbors edges) cnt [] res"
proof -
  let ?nb = "neighbors edges"
  let ?cnt = "map (\<lambda>n. (n, int (length (?nb n)))) order"
  have d: "distinct order" using assms(1) by (simp add: wf_adj_def)
  have "dep_counts order edges = Inr ?cnt"
    unfolding dep_counts_def
    by (rule smap_pure) (simp add: dindex_def wf_adj_neighbors [OF assms(1)])
  moreover have "dget ?cnt n = Some (int (card (set (?nb n) - set [])))" if "n \<in> set order" for n
    using that wf_adj_neighbors(2) [OF assms(1) that] by (simp add: distinct_card)
  moreover from this have "kahn_inv order ?nb ?cnt (filter (\<lambda>n. dget ?cnt n = Some 0) order) []"
    using d by (auto simp: kahn_inv_def dep_sorted_def)
  moreover have "\<And>n. n \<in> set order \<Longrightarrow> dget dm n = Some (filter (\<lambda>m. n \<in> set (?nb m)) order)"
    using assms(2) by (simp add: wf_rev_def)
  ultimately show ?thesis
    using kahn_loop_ok [of order ?nb ?cnt _ "[]" dm] d by (fastforce simp: kahn_def)
qed

text \<open>Whatever Kahn's algorithm leaves out lies behind a cycle; if it leaves nothing out, there is none.\<close>

lemma kahn_leftover_pred:
  assumes "kahn_inv order nb cnt [] res" and "\<And>n. n \<in> set order \<Longrightarrow> set (nb n) \<subseteq> set order"
    and "n \<in> set order - set res"
  obtains d where "d \<in> set (nb n)" and "d \<in> set order - set res"
proof -
  have "\<not> set (nb n) \<subseteq> set res" using assms(1,3) by (auto simp: kahn_inv_def)
  then show ?thesis using assms(2) [of n] assms(3) that by auto
qed

lemma dep_sorted_acyclic:
  assumes "dep_sorted nb l" and "set l = N" and "distinct l"
  shows "acyclic (dep_rel nb N)"
proof -
  let ?pos = "\<lambda>n. THE i. i < length l \<and> l ! i = n"
  have pos: "?pos (l ! i) = i" if "i < length l" for i
    using that assms(3) by (auto simp: nth_eq_iff_index_eq intro!: the_equality)
  have "dep_rel nb N \<subseteq> (measure ?pos)\<inverse>"
  proof (clarsimp simp: dep_rel_def)
    fix n d assume "n \<in> N" "d \<in> set (nb n)"
    then obtain i where i: "i < length l" "l ! i = n" using assms(2) by (auto simp: in_set_conv_nth)
    then have "d \<in> set (take i l)" using assms(1) \<open>d \<in> set (nb n)\<close> by (auto simp: dep_sorted_def)
    then obtain j where "j < i" "l ! j = d" by (auto simp: in_set_conv_nth)
    then show "?pos d < ?pos n" using pos [of j] pos [of i] i by simp
  qed
  moreover have "acyclic (measure ?pos)" by (simp add: wf_acyclic)
  ultimately show ?thesis by (metis acyclic_converse acyclic_subset)
qed

lemma kahn_complete_iff:
  assumes "wf_adj order edges" and "kahn_inv order (neighbors edges) cnt [] res"
  shows "set res = set order \<longleftrightarrow> acyclic (dep_rel (neighbors edges) (set order))"
proof
  assume "set res = set order"
  then show "acyclic (dep_rel (neighbors edges) (set order))"
    using assms(2) by (auto simp: kahn_inv_def intro: dep_sorted_acyclic)
next
  assume ac: "acyclic (dep_rel (neighbors edges) (set order))"
  have "set order - set res = {}"
  proof (rule ccontr)
    assume ne: "set order - set res \<noteq> {}"
    obtain u where u: "u \<in> set order - set res"
      "\<And>v. v \<in> set order - set res \<Longrightarrow> (u, v) \<notin> dep_rel (neighbors edges) (set order)"
      using acyclic_ranked [OF ac _ ne] by auto
    obtain d where "d \<in> set (neighbors edges u)" "d \<in> set order - set res"
      using kahn_leftover_pred [OF assms(2) wf_adj_neighbors(3) [OF assms(1)] u(1)] by blast
    with u show False by (auto simp: dep_rel_def)
  qed
  then show "set res = set order" using assms(2) by (auto simp: kahn_inv_def)
qed

text \<open>The two methods on a graph the constructor built.\<close>

lemma topological_order_spec:
  assumes "wf_graph g"
  shows "\<exists>res. topological_order g = Inr res \<and> distinct res \<and> set res \<subseteq> g_nodes g \<and>
    dep_sorted (neighbors (g_edges g)) res \<and>
    (set res = g_nodes g \<longleftrightarrow> acyclic (dep_rel (neighbors (g_edges g)) (g_nodes g)))"
proof -
  obtain res cnt where *: "topological_order g = Inr res"
    "kahn_inv (g_order g) (neighbors (g_edges g)) cnt [] res"
    using assms kahn_ok unfolding wf_graph_def topological_order_def by blast
  then show ?thesis
    using assms kahn_complete_iff [of "g_order g" "g_edges g"]
    by (auto simp: wf_graph_def kahn_inv_def)
qed

lemma detect_cycles_spec:
  assumes "wf_graph g"
  shows "\<exists>cs. detect_cycles g = Inr cs \<and> (\<forall>c \<in> set cs. cycle_in (neighbors (g_edges g)) (g_nodes g) c) \<and>
    (cs = [] \<longleftrightarrow> acyclic (dep_rel (neighbors (g_edges g)) (g_nodes g)))"
proof -
  let ?nb = "neighbors (g_edges g)" and ?col = "map (\<lambda>n. (n, White)) (g_order g)"
  have w: "wf_adj (g_order g) (g_edges g)" using assms by (simp add: wf_graph_def)
  have inv: "dfs_inv ?nb (g_nodes g) ?col [] []" by (auto simp: dfs_inv_def has_color_def)
  have "has_color ?col Black = {}" by (auto simp: has_color_def)
  then have fin: "dfs_done ?nb ?col []" by (simp add: dfs_done_def dep_rel_def acyclic_def)
  obtain cs where cs: "detect_cycles g = Inr cs" "\<forall>c \<in> set cs. cycle_in ?nb (g_nodes g) c"
    using dfs_starts_sound [OF inv wf_adj_neighbors(3) [OF w], of "g_order g" "[]"]
    by (auto simp: detect_cycles_def)
  moreover have "acyclic (dep_rel ?nb (g_nodes g))" if "cs = []"
    using dfs_starts_complete [OF inv wf_adj_neighbors(3) [OF w] _ fin, of "g_order g" "[]"] cs(1) that
    by (auto simp: detect_cycles_def)
  moreover have "\<not> acyclic (dep_rel ?nb (g_nodes g))" if "cs \<noteq> []"
    using cs(2) that closed_walk_cyclic [of ?nb "hd cs"] by (auto simp: cycle_in_def)
  ultimately show ?thesis by blast
qed

section \<open>Correctness of the ordering rules\<close>

text \<open>\<open>_find_cycle\<close> returns the first cycle the full search would record.\<close>

lemma find_loop_sim:
  "dfs_loop nb col path st cycles = Inr (col', path', cycles @ new) \<Longrightarrow>
   find_loop nb col path st =
     (case new of [] \<Rightarrow> Inr (Inr (col', path')) | c # _ \<Rightarrow> Inr (Inl c))"
proof (induction nb col path st arbitrary: cycles new rule: find_loop.induct)
  case (2 nb col path node x rest st)
  obtain c where c: "dget col x = Some c" using "2.prems" by (auto split: option.splits)
  show ?case
  proof (cases c)
    case White
    with 2 c show ?thesis by simp
  next
    case Gray
    let ?c = "dropWhile (\<lambda>c. c \<noteq> x) path @ [x]"
    from "2.prems" c Gray have x: "x \<in> set path" and
      loop: "dfs_loop nb col path ((node, rest) # st) (cycles @ [?c]) = Inr (col', path', cycles @ new)"
      by (auto split: if_splits)
    from dfs_loop_extends [OF loop] obtain new' where "new = ?c # new'" by auto
    with x c Gray show ?thesis by simp
  next
    case Black
    with 2 c show ?thesis by simp
  qed
qed (auto split: if_splits)

lemma find_starts_sim:
  "dfs_starts nb starts col path cycles = Inr (cycles @ new) \<Longrightarrow>
   find_starts nb starts col path = Inr (case new of [] \<Rightarrow> [] | c # _ \<Rightarrow> c)"
proof (induction starts arbitrary: col path cycles new)
  case (Cons start starts)
  obtain c where c: "dget col start = Some c" using Cons.prems by (auto split: option.splits)
  show ?case
  proof (cases "c = White")
    case False
    with Cons c show ?thesis by simp
  next
    case True
    with Cons.prems c obtain col' path' cycles' where
      loop: "dfs_loop nb (dset start Gray col) (path @ [start]) [(start, nb start)] cycles
        = Inr (col', path', cycles')"
      and rest: "dfs_starts nb starts col' path' cycles' = Inr (cycles @ new)"
      by (auto simp: sbind_eq_Inr)
    obtain n1 where n1: "cycles' = cycles @ n1" using dfs_loop_extends [OF loop] by blast
    obtain n2 where n2: "new = n1 @ n2" using dfs_starts_extends [OF rest] n1 by auto
    have f: "find_loop nb (dset start Gray col) (path @ [start]) [(start, nb start)]
        = (case n1 of [] \<Rightarrow> Inr (Inr (col', path')) | c # _ \<Rightarrow> Inr (Inl c))"
      using loop unfolding n1 by (rule find_loop_sim)
    show ?thesis
    proof (cases n1)
      case Nil
      with Cons.IH [of col' path' cycles n2] rest n1 n2 f c True show ?thesis by simp
    next
      case (Cons c1 cs)
      with f c True n2 show ?thesis by simp
    qed
  qed
qed simp

lemma closed_walk_mono:
  "closed_walk nb c \<Longrightarrow> (\<And>n. set (nb n) \<subseteq> set (nb' n)) \<Longrightarrow> closed_walk nb' c"
  by (auto simp: closed_walk_def elim!: successively_mono)

lemma find_cycle_spec:
  assumes "py_set_order so" and "distinct nodes"
  shows "\<exists>c. find_cycle so edges nodes = Inr c \<and>
    (c \<noteq> [] \<longrightarrow> closed_walk (neighbors edges) c \<and> set c \<subseteq> set nodes) \<and>
    (c = [] \<longrightarrow> acyclic (dep_rel (neighbors edges) (set nodes) \<inter> set nodes \<times> set nodes))"
proof -
  let ?nb = "\<lambda>n. so (filter (\<lambda>d. d \<in> set nodes) (neighbors edges n))"
  let ?col = "map (\<lambda>n. (n, White)) nodes"
  have sub: "set (?nb n) = set (neighbors edges n) \<inter> set nodes" for n
    using py_set_orderD [OF assms(1)] by auto
  have inv: "dfs_inv ?nb (set nodes) ?col [] []" by (auto simp: dfs_inv_def has_color_def)
  have "has_color ?col Black = {}" by (auto simp: has_color_def)
  then have fin: "dfs_done ?nb ?col []" by (simp add: dfs_done_def dep_rel_def acyclic_def)
  have starts: "set (so nodes) = set nodes" using py_set_orderD [OF assms(1)] by simp
  obtain cs where cs: "dfs_starts ?nb (so nodes) ?col [] [] = Inr cs"
    "\<forall>c \<in> set cs. cycle_in ?nb (set nodes) c"
    using dfs_starts_sound [OF inv, of "so nodes" "[]"] sub starts by auto
  have find: "find_cycle so edges nodes = Inr (case cs of [] \<Rightarrow> [] | c # _ \<Rightarrow> c)"
    unfolding find_cycle_def using find_starts_sim [of ?nb "so nodes" ?col "[]" "[]" cs] cs(1) by simp
  show ?thesis
  proof (cases cs)
    case Nil
    have "acyclic (dep_rel ?nb (set nodes))"
      using dfs_starts_complete [OF inv _ _ fin, of "so nodes" "[]"] sub starts cs(1) Nil by auto
    moreover have "dep_rel ?nb (set nodes) = dep_rel (neighbors edges) (set nodes) \<inter> set nodes \<times> set nodes"
      using sub by (auto simp: dep_rel_def)
    ultimately show ?thesis using find Nil by simp
  next
    case (Cons c cs')
    then have walk: "closed_walk ?nb c" and "set c \<subseteq> set nodes" using cs(2) by (auto simp: cycle_in_def)
    note \<open>set c \<subseteq> set nodes\<close>
    moreover from walk have "closed_walk (neighbors edges) c" by (rule closed_walk_mono) (use sub in auto)
    moreover from this have "c \<noteq> []" by (auto simp: closed_walk_def)
    ultimately show ?thesis using find Cons by simp
  qed
qed

text \<open>What each class must come after: its dependencies and the classes a rule puts before it.\<close>

definition order_deps :: "'c dep_graph \<Rightarrow> 'c list list \<Rightarrow> 'c \<Rightarrow> 'c list" where
  "order_deps g rules n =
     neighbors (g_edges g) n @ map fst (filter (\<lambda>(b, a). a = n) (concat (map rule_pairs rules)))"

lemma rule_pairs_set: "(b, a) \<in> set (rule_pairs r) \<Longrightarrow> b \<in> set r \<and> a \<in> set r"
  by (induction r rule: rule_pairs.induct) auto

definition comb_inv ::
  "'c list \<Rightarrow> ('c \<Rightarrow> 'c set) \<Rightarrow> ('c, 'c list) dict \<Rightarrow> bool" where
  "comb_inv order F comb \<longleftrightarrow> dkeys comb = order \<and>
     (\<forall>n \<in> set order. \<exists>s. dget comb n = Some s \<and> distinct s \<and> set s = F n)"

lemma dkeys_dset_same: "k \<in> set (dkeys d) \<Longrightarrow> dkeys (dset k v d) = dkeys d"
  by (induction d) auto

lemma add_pairs_inv:
  assumes "comb_inv order F comb" and "snd ` set ps \<subseteq> set order"
  shows "\<exists>comb'. add_pairs ps comb = Inr comb' \<and> comb_inv order (\<lambda>n. F n \<union> {b. (b, n) \<in> set ps}) comb'"
  using assms
proof (induction ps arbitrary: F comb)
  case (Cons p ps)
  obtain b a where p: "p = (b, a)" by (cases p)
  have a: "a \<in> set order" and sub: "snd ` set ps \<subseteq> set order" using Cons.prems(2) p by auto
  with Cons.prems(1) obtain s where s: "dget comb a = Some s" "distinct s" "set s = F a"
    by (auto simp: comb_inv_def)
  let ?comb = "dset a (set_add b s) comb" and ?F = "\<lambda>n. F n \<union> (if n = a then {b} else {})"
  have "dkeys ?comb = order"
    using Cons.prems(1) a by (simp only: comb_inv_def dkeys_dset_same)
  then have "comb_inv order ?F ?comb"
    using Cons.prems(1) s by (auto simp: comb_inv_def set_add_def)
  from Cons.IH [OF this sub] obtain comb' where
    c': "add_pairs ps ?comb = Inr comb'" "comb_inv order (\<lambda>n. ?F n \<union> {b. (b, n) \<in> set ps}) comb'" by blast
  have F: "(\<lambda>n. ?F n \<union> {b. (b, n) \<in> set ps}) = (\<lambda>n. F n \<union> {b. (b, n) \<in> set (p # ps)})"
    using p by (auto simp: fun_eq_iff)
  have "add_pairs (p # ps) comb = add_pairs ps ?comb"
    using p s(1) by (simp add: add_pairs_def dindex_def)
  with c' F show ?case by simp
qed (simp add: add_pairs_def)

lemma add_rule_inv:
  assumes "comb_inv order F comb" and "set rule \<subseteq> set order"
  shows "\<exists>comb'. add_rule rule comb = Inr comb' \<and>
    comb_inv order (\<lambda>n. F n \<union> {b. (b, n) \<in> set (rule_pairs rule)}) comb'"
proof -
  have "snd ` set (rule_pairs rule) \<subseteq> set order" using assms(2) rule_pairs_set by fastforce
  then show ?thesis using add_pairs_inv [OF assms(1)] by (simp add: add_rule_def)
qed

lemma add_rules_inv:
  assumes "comb_inv order F comb" and "set (concat rules) \<subseteq> set order"
  shows "\<exists>comb'. sfold add_rule rules comb = Inr comb' \<and>
    comb_inv order (\<lambda>n. F n \<union> {b. (b, n) \<in> set (concat (map rule_pairs rules))}) comb'"
  using assms
proof (induction rules arbitrary: F comb)
  case (Cons r rules)
  have sub: "set r \<subseteq> set order" "set (concat rules) \<subseteq> set order" using Cons.prems(2) by auto
  obtain comb1 where c1: "add_rule r comb = Inr comb1"
    "comb_inv order (\<lambda>n. F n \<union> {b. (b, n) \<in> set (rule_pairs r)}) comb1"
    using add_rule_inv [OF Cons.prems(1) sub(1)] by blast
  have "(\<lambda>n. F n \<union> {b. (b, n) \<in> set (rule_pairs r)} \<union> {b. (b, n) \<in> set (concat (map rule_pairs rules))})
      = (\<lambda>n. F n \<union> {b. (b, n) \<in> set (concat (map rule_pairs (r # rules)))})"
    by (auto simp: fun_eq_iff)
  with Cons.IH [OF c1(2) sub(2)] c1(1) show ?case by simp
qed simp

lemma combined_edges_ok:
  assumes "wf_graph g" and "py_set_order so" and "set (concat rules) \<subseteq> g_nodes g"
  shows "\<exists>comb. combined_edges so g rules = Inr comb \<and> wf_adj (g_order g) comb \<and>
    (\<forall>n \<in> g_nodes g. set (neighbors comb n) = set (order_deps g rules n))"
proof -
  let ?nb = "neighbors (g_edges g)"
  let ?F = "\<lambda>n. set (?nb n) \<union> {b. (b, n) \<in> set (concat (map rule_pairs rules))}"
  have w: "wf_adj (g_order g) (g_edges g)" using assms(1) by (simp add: wf_graph_def)
  have d: "distinct (g_order g)" using w by (simp add: wf_adj_def)
  have c0: "smap (\<lambda>n. sbind (dindex GraphKeyError (g_edges g) n) (\<lambda>s. Inr (n, s))) (g_order g)
      = Inr (map (\<lambda>n. (n, ?nb n)) (g_order g))"
    by (rule smap_pure) (simp add: dindex_def wf_adj_neighbors [OF w])
  have "comb_inv (g_order g) (\<lambda>n. set (?nb n)) (map (\<lambda>n. (n, ?nb n)) (g_order g))"
    using wf_adj_neighbors [OF w] by (auto simp: comb_inv_def comp_def)
  from add_rules_inv [OF this assms(3)] obtain c1 where
    c1: "sfold add_rule rules (map (\<lambda>n. (n, ?nb n)) (g_order g)) = Inr c1" "comb_inv (g_order g) ?F c1"
    by blast
  let ?comb = "map (\<lambda>(n, s). (n, so s)) c1"
  have get: "\<exists>s. dget ?comb n = Some s \<and> distinct s \<and> set s = ?F n" if "n \<in> g_nodes g" for n
    using c1(2) that py_set_orderD [OF assms(2)] by (fastforce simp: comb_inv_def map_of_map)
  have F: "?F n = set (order_deps g rules n)" for n
    by (force simp: order_deps_def)
  have "?F n \<subseteq> g_nodes g" if "n \<in> g_nodes g" for n
  proof -
    have "b \<in> g_nodes g" if "(b, n) \<in> set (concat (map rule_pairs rules))" for b
      using that assms(3) rule_pairs_set by fastforce
    with wf_adj_neighbors(3) [OF w that] show ?thesis by auto
  qed
  with get d have "wf_adj (g_order g) ?comb" unfolding wf_adj_def by metis
  moreover have "set (neighbors ?comb n) = set (order_deps g rules n)" if n: "n \<in> g_nodes g" for n
  proof -
    obtain s where s: "dget ?comb n = Some s" "set s = ?F n" using get [OF n] by blast
    from s(1) have "neighbors ?comb n = s" unfolding neighbors_def dget_default_def by (simp only: option.case)
    with s(2) F show ?thesis by simp
  qed
  ultimately show ?thesis using c0 c1(1) by (simp add: combined_edges_def)
qed


lemma dep_sorted_cong:
  "(\<And>n. n \<in> set l \<Longrightarrow> set (nb n) = set (nb' n)) \<Longrightarrow> dep_sorted nb l = dep_sorted nb' l"
  by (simp add: dep_sorted_def)

lemma dep_rel_cong:
  "(\<And>n. n \<in> N \<Longrightarrow> set (nb n) = set (nb' n)) \<Longrightarrow> dep_rel nb N = dep_rel nb' N"
  by (auto simp: dep_rel_def)

lemma closed_walk_cong:
  assumes "closed_walk nb c" and "\<And>n. n \<in> N \<Longrightarrow> set (nb n) = set (nb' n)" and "set c \<subseteq> N"
  shows "closed_walk nb' c"
  using assms by (auto simp: closed_walk_def subset_iff elim!: successively_mono)

lemma topological_order_with_rules_spec:
  assumes wf: "wf_graph g" and so: "py_set_order so" and rules: "set (concat rules) \<subseteq> g_nodes g"
  shows "(acyclic (dep_rel (order_deps g rules) (g_nodes g)) \<and>
      (\<exists>res. topological_order_with_rules nm so g rules = Inr res \<and> distinct res \<and>
         set res = g_nodes g \<and> dep_sorted (order_deps g rules) res)) \<or>
    (\<not> acyclic (dep_rel (order_deps g rules) (g_nodes g)) \<and>
      (\<exists>cycle. topological_order_with_rules nm so g rules = Inl (OrderRuleCycle (map nm cycle)) \<and>
         closed_walk (order_deps g rules) cycle))"
proof -
  obtain comb where comb: "combined_edges so g rules = Inr comb" "wf_adj (g_order g) comb"
    and deps: "\<And>n. n \<in> g_nodes g \<Longrightarrow> set (neighbors comb n) = set (order_deps g rules n)"
    using combined_edges_ok [OF wf so rules] by blast
  obtain dm where dm: "build_dependents (g_order g) comb = Inr dm" "wf_rev (g_order g) comb dm"
    using build_dependents_ok [OF comb(2)] by blast
  obtain res cnt where res: "kahn (g_order g) comb dm = Inr res"
    and inv: "kahn_inv (g_order g) (neighbors comb) cnt [] res"
    using kahn_ok [OF comb(2) dm(2)] by blast
  let ?left = "filter (\<lambda>n. n \<notin> set res) (g_order g)"
  have d: "distinct (g_order g)" "distinct res" and sub: "set res \<subseteq> g_nodes g"
    using comb(2) inv by (auto simp: wf_adj_def kahn_inv_def)
  have all: "length res = card (g_nodes g) \<longleftrightarrow> set res = g_nodes g"
    using card_subset_eq [OF _ sub] distinct_card [OF d(2)] by auto
  have ac: "set res = g_nodes g \<longleftrightarrow> acyclic (dep_rel (order_deps g rules) (g_nodes g))"
    using kahn_complete_iff [OF comb(2) inv]
    by (simp only: dep_rel_cong [of "g_nodes g" "neighbors comb" "order_deps g rules", OF deps])
  have run: "topological_order_with_rules nm so g rules =
      (if length res = card (g_nodes g) then Inr res
       else sbind (find_cycle so comb ?left) (\<lambda>cycle. Inl (OrderRuleCycle (map nm cycle))))"
  proof -
    have "filter (\<lambda>c. c \<notin> g_nodes g) (concat rules) = []" using rules by (auto simp: filter_empty_conv)
    then show ?thesis
      using comb(1) dm(1) res by (simp add: topological_order_with_rules_def)
  qed
  show ?thesis
  proof (cases "set res = g_nodes g")
    case True
    have "dep_sorted (order_deps g rules) res"
      using inv dep_sorted_cong [of res "neighbors comb" "order_deps g rules"] deps sub
      by (auto simp: kahn_inv_def)
    with True run all ac d(2) show ?thesis by auto
  next
    case False
    obtain c where c: "find_cycle so comb ?left = Inr c" "c \<noteq> [] \<longrightarrow> closed_walk (neighbors comb) c"
      "c \<noteq> [] \<longrightarrow> set c \<subseteq> set ?left"
      "c = [] \<longrightarrow> acyclic (dep_rel (neighbors comb) (set ?left) \<inter> set ?left \<times> set ?left)"
      using find_cycle_spec [OF so, of ?left comb] d(1) by auto
    have "c \<noteq> []"
    proof
      assume "c = []"
      have ne: "set ?left \<noteq> {}" using False sub by auto
      obtain u where u: "u \<in> set ?left"
        "\<And>v. v \<in> set ?left \<Longrightarrow> (u, v) \<notin> dep_rel (neighbors comb) (set ?left) \<inter> set ?left \<times> set ?left"
        using acyclic_ranked [OF mp [OF c(4) \<open>c = []\<close>] finite_set ne] by blast
      have "u \<in> g_nodes g - set res" using u(1) by auto
      then obtain v where "v \<in> set (neighbors comb u)" "v \<in> g_nodes g - set res"
        using kahn_leftover_pred [OF inv wf_adj_neighbors(3) [OF comb(2)]] by blast
      with u show False by (auto simp: dep_rel_def)
    qed
    with c(2) have walk: "closed_walk (neighbors comb) c" by simp
    have "set c \<subseteq> g_nodes g" using c(3) \<open>c \<noteq> []\<close> by auto
    then have "closed_walk (order_deps g rules) c" using closed_walk_cong [OF walk deps] by simp
    with False run all ac c(1) show ?thesis by auto
  qed
qed

section \<open>Properties\<close>

text \<open>The dependencies of a class inside the resolved map.\<close>

definition known_deps :: "'c resolved_map \<Rightarrow> 'c \<Rightarrow> 'c list" where
  "known_deps resolved n =
     (case dget resolved n of None \<Rightarrow> [] | Some deps \<Rightarrow> filter (\<lambda>d. dget resolved d \<noteq> None) (dvals deps))"

lemma make_edges_neighbors:
  assumes "py_set_order so"
  shows "set (neighbors (make_edges so resolved) n) = set (known_deps resolved n)"
proof -
  have map_get: "dget (map (\<lambda>(cls, deps). (cls, f deps)) r) n = map_option f (dget r n)"
    for f :: "'v \<Rightarrow> 'w" and r :: "('a, 'v) dict"
    by (induction r) auto
  have mem: "(\<lambda>d. d \<in> set (dkeys resolved)) = (\<lambda>d. dget resolved d \<noteq> None)"
    by (auto simp: dget_None_keys simp del: set_map)
  show ?thesis
    unfolding make_edges_def neighbors_def dget_default_def known_deps_def mem map_get
    using py_set_orderD [OF assms] by (auto split: option.splits)
qed

lemma make_graph_deps:
  assumes "distinct (dkeys resolved)" and "py_set_order so"
  obtains g where "make_graph so resolved = Inr g" and "wf_graph g" and "g_order g = dkeys resolved"
    and "\<And>n. set (neighbors (g_edges g) n) = set (known_deps resolved n)"
  using make_graph_wf [OF assms] make_edges_neighbors [OF assms(2)] by metis

lemma cycle_in_cong:
  "cycle_in nb N c \<Longrightarrow> (\<And>n. set (nb n) = set (nb' n)) \<Longrightarrow> cycle_in nb' N c"
  by (auto simp: cycle_in_def elim: closed_walk_mono)

text \<open>
  C12: On every resolved map the graph constructor succeeds, \<open>detect_cycles\<close> returns, every
  reported cycle is a closed walk of dependencies inside the map, and it reports nothing exactly
  when the dependency relation of the map is acyclic.
\<close>

theorem detect_cycles_correct:
  assumes "distinct (dkeys resolved)" and "py_set_order so"
  shows "\<exists>cs. sbind (make_graph so resolved) detect_cycles = Inr cs \<and>
    (\<forall>c \<in> set cs. cycle_in (known_deps resolved) (set (dkeys resolved)) c) \<and>
    (cs = [] \<longleftrightarrow> acyclic (dep_rel (known_deps resolved) (set (dkeys resolved))))"
proof -
  obtain g where g: "make_graph so resolved = Inr g" "wf_graph g" "g_order g = dkeys resolved"
    "\<And>n. set (neighbors (g_edges g) n) = set (known_deps resolved n)"
    by (rule make_graph_deps [OF assms]) blast
  show ?thesis
    using detect_cycles_spec [OF g(2)] cycle_in_cong [of _ _ _ "known_deps resolved", OF _ g(4)]
    by (auto simp: g(1,3) dep_rel_cong [of _ _ "known_deps resolved", OF g(4)] simp del: set_map)
qed

theorem detect_cycles_correct_witness:
  "\<exists>cs. sbind (make_graph dedup [(1::nat, [(''a'', 2)]), (2, [(''b'', 1)])]) detect_cycles = Inr cs \<and>
    cs = [[1, 2, 1]] \<and>
    \<not> acyclic (dep_rel (known_deps [(1::nat, [(''a'', 2)]), (2, [(''b'', 1)])]) {1, 2})"
proof -
  have "sbind (make_graph dedup [(1::nat, [(''a'', 2)]), (2, [(''b'', 1)])]) detect_cycles = Inr [[1, 2, 1]]"
    by code_simp
  then show ?thesis
    using detect_cycles_correct [of "[(1::nat, [(''a'', 2)]), (2, [(''b'', 1)])]" dedup,
        OF _ py_set_order_dedup]
    by simp
qed

text \<open>
  On every resolved map \<open>topological_order\<close> returns classes of the map without
  repetition, each after all its dependencies, and it returns all of them exactly when the
  dependency relation is acyclic.
\<close>

theorem topological_order_correct:
  assumes "distinct (dkeys resolved)" and "py_set_order so"
  shows "\<exists>res. sbind (make_graph so resolved) topological_order = Inr res \<and>
    distinct res \<and> set res \<subseteq> set (dkeys resolved) \<and> dep_sorted (known_deps resolved) res \<and>
    (set res = set (dkeys resolved) \<longleftrightarrow> acyclic (dep_rel (known_deps resolved) (set (dkeys resolved))))"
proof -
  obtain g where g: "make_graph so resolved = Inr g" "wf_graph g" "g_order g = dkeys resolved"
    "\<And>n. set (neighbors (g_edges g) n) = set (known_deps resolved n)"
    by (rule make_graph_deps [OF assms]) blast
  show ?thesis
    using topological_order_spec [OF g(2)]
    by (auto simp: g(1,3) dep_rel_cong [of _ _ "known_deps resolved", OF g(4)]
        dep_sorted_cong [of _ _ "known_deps resolved", OF g(4)] simp del: set_map)
qed

theorem topological_order_correct_witness:
  "\<exists>res. sbind (make_graph dedup [(1::nat, [(''a'', 2), (''b'', 3)]), (2, [(''c'', 3)]), (3, [])])
        topological_order = Inr res \<and> distinct res \<and> set res \<subseteq> {1, 2, 3} \<and>
    dep_sorted (known_deps [(1::nat, [(''a'', 2), (''b'', 3)]), (2, [(''c'', 3)]), (3, [])]) res"
  using topological_order_correct [of "[(1::nat, [(''a'', 2), (''b'', 3)]), (2, [(''c'', 3)]), (3, [])]" dedup,
      OF _ py_set_order_dedup]
  by auto

text \<open>What each class must come after: its dependencies and the classes a rule puts before it.\<close>

definition ruled_deps :: "'c resolved_map \<Rightarrow> 'c list list \<Rightarrow> 'c \<Rightarrow> 'c list" where
  "ruled_deps resolved rules n =
     known_deps resolved n @ map fst (filter (\<lambda>(b, a). a = n) (concat (map rule_pairs rules)))"

text \<open>
  C13: With ordering rules, \<open>topological_order_with_rules\<close> rejects a rule naming a class outside
  the graph; otherwise, if dependencies and rules together are acyclic, it returns every class once,
  after its dependencies and after the classes the rules put before it; and if they are cyclic it
  raises the rule-cycle error, whose chain is a closed walk of dependencies and rules.
\<close>

theorem order_with_rules_correct:
  fixes rules :: "'c list list" and nm :: "'c \<Rightarrow> string"
  assumes "distinct (dkeys resolved)" and "py_set_order so"
  defines "N \<equiv> set (dkeys resolved)" and "D \<equiv> ruled_deps resolved rules"
    and "run \<equiv> sbind (make_graph so resolved) (\<lambda>g. topological_order_with_rules nm so g rules)"
  shows "if \<exists>c \<in> set (concat rules). c \<notin> N
    then run = Inl (InvalidOrderRule (rules_error nm (filter (\<lambda>c. c \<notin> N) (concat rules))))
    else if acyclic (dep_rel D N)
    then \<exists>res. run = Inr res \<and> distinct res \<and> set res = N \<and> dep_sorted D res
    else \<exists>cycle. run = Inl (OrderRuleCycle (map nm cycle)) \<and> closed_walk D cycle"
proof -
  obtain g where g: "make_graph so resolved = Inr g" "wf_graph g" "g_order g = dkeys resolved"
    "\<And>n. set (neighbors (g_edges g) n) = set (known_deps resolved n)"
    by (rule make_graph_deps [OF assms(1,2)]) blast
  have D: "set (order_deps g rules n) = set (D n)" for n
    by (simp add: order_deps_def D_def ruled_deps_def g(4))
  have run: "run = topological_order_with_rules nm so g rules" by (simp add: run_def g(1))
  have N: "g_nodes g = N" by (simp add: N_def g(3))
  show ?thesis
  proof (cases "set (concat rules) \<subseteq> N")
    case True
    have walk: "closed_walk (order_deps g rules) c \<Longrightarrow> closed_walk D c" for c
      by (erule closed_walk_mono) (simp add: D)
    from True topological_order_with_rules_spec [OF g(2) assms(2), of rules nm] show ?thesis
      unfolding run N dep_rel_cong [of _ _ D, OF D] dep_sorted_cong [of _ _ D, OF D]
      using walk by (auto simp del: set_concat)
  next
    case False
    then have "filter (\<lambda>c. c \<notin> N) (concat rules) \<noteq> []"
      by (auto simp: filter_empty_conv simp del: set_concat)
    with False show ?thesis
      by (auto simp: run topological_order_with_rules_def N Let_def simp del: set_concat)
  qed
qed

theorem order_with_rules_correct_witness:
  "\<exists>res. sbind (make_graph dedup [(1::nat, [(''a'', 2)]), (2, []), (3, [])])
      (\<lambda>g. topological_order_with_rules (\<lambda>_. ''c'') dedup g [[1, 3]]) = Inr res \<and> res = [2, 1, 3] \<and>
    dep_sorted (ruled_deps [(1::nat, [(''a'', 2)]), (2, []), (3, [])] [[1, 3]]) res"
proof -
  have run: "sbind (make_graph dedup [(1::nat, [(''a'', 2)]), (2, []), (3, [])])
      (\<lambda>g. topological_order_with_rules (\<lambda>_. ''c'') dedup g [[1, 3]]) = Inr [2, 1, 3]"
    by code_simp
  show ?thesis
    using order_with_rules_correct [of "[(1::nat, [(''a'', 2)]), (2, []), (3, [])]" dedup "[[1, 3]]" "\<lambda>_. ''c''",
        OF _ py_set_order_dedup]
    unfolding run by (simp split: if_splits)
qed

end
