(* ===== verification/Class_Model.thy ===== *)
theory Class_Model
  imports Dep_Graph
begin

text \<open>
  What the container reads of Python classes (\<open>xime/core/metadata/type_utils.py\<close>), which
  classes a package scan keeps (\<open>xime/core/container/scanner.py\<close>), and how constructor
  hints become a resolved map (\<open>xime/core/container/resolver.py\<close>). The results of
  \<open>inspect\<close>, \<open>typing.get_type_hints\<close> and \<open>importlib\<close> on a given program are data: the fields of
  \<open>class_env\<close> and the \<open>package\<close> record.
\<close>

section \<open>Errors of the container\<close>

datatype di_error =
    PyNameError
  | PyKeyError string
  | PyValueError string
  | PyRuntimeError string
  | PyImportError string
  | MissingTypeHint string
  | CircularDependency "string list"
  | MissingBinding string string
  | MissingImplementation string
  | MultipleImplementation string "string list"
  | BindingValidation string string "string list"
  | UnregisteredDependency string string "string option"
  | ConfigClassError string string
  | ConfigCtorError string
  | GraphError graph_error

definition lift_graph :: "graph_error + 'a \<Rightarrow> di_error + 'a" where
  "lift_graph r = (case r of Inl e \<Rightarrow> Inl (GraphError e) | Inr x \<Rightarrow> Inr x)"

lemma lift_graph_simps [simp, err_simps]:
  "lift_graph (Inl e) = Inl (GraphError e)"
  "lift_graph (Inr x) = Inr x"
  by (simp_all add: lift_graph_def)

section \<open>Class metadata\<close>

datatype hint_result = HintTypeError | HintNameError | Hints

datatype param_kind = Positional | VarPositional | VarKeyword | KeywordOnly

record 'c class_env =
  cls_name :: "'c \<Rightarrow> string"
  cls_module :: "'c \<Rightarrow> string"
  is_protocol :: "'c \<Rightarrow> bool"
  is_abstract :: "'c \<Rightarrow> bool"
  is_pydantic_model :: "'c \<Rightarrow> bool"
  protocol_attrs :: "'c \<Rightarrow> string list"
  callable_attr :: "'c \<Rightarrow> string \<Rightarrow> bool"
  init_hint_result :: "'c \<Rightarrow> hint_result"
  init_hints :: "'c \<Rightarrow> (string, 'c) dict"
  init_signature :: "'c \<Rightarrow> (string \<times> param_kind) list option"
  init_defaults :: "'c \<Rightarrow> string list"
  is_refdata :: "'c \<Rightarrow> bool"
  is_link_handler :: "'c \<Rightarrow> bool"

definition resolve_constructor_hints :: "'c class_env \<Rightarrow> 'c \<Rightarrow> di_error + (string, 'c) dict" where
  "resolve_constructor_hints env cls =
     (case init_hint_result env cls of
        HintTypeError \<Rightarrow> Inr []
      | HintNameError \<Rightarrow> Inl PyNameError
      | Hints \<Rightarrow> Inr (ddel ''return'' (init_hints env cls)))"

definition get_init_parameters :: "'c class_env \<Rightarrow> 'c \<Rightarrow> string list" where
  "get_init_parameters env cls =
     (case init_signature env cls of
        None \<Rightarrow> []
      | Some ps \<Rightarrow> map fst (filter (\<lambda>(name, kind).
                      name \<noteq> ''self'' \<and> kind \<noteq> VarPositional \<and> kind \<noteq> VarKeyword) ps))"

definition meaningful_dunders :: "string list" where
  "meaningful_dunders =
     [''__call__'', ''__aenter__'', ''__aexit__'', ''__anext__'', ''__aiter__'',
      ''__enter__'', ''__exit__'']"

definition is_contract_name :: "string \<Rightarrow> bool" where
  "is_contract_name name \<longleftrightarrow> take 1 name \<noteq> ''_'' \<or> name \<in> set meaningful_dunders"

definition get_protocol_methods :: "'c class_env \<Rightarrow> 'c \<Rightarrow> string list" where
  "get_protocol_methods env p = filter is_contract_name (protocol_attrs env p)"

section \<open>Scanning packages\<close>

datatype import_exc = ModuleNotFound string | OtherImportError string

text \<open>
  A package as \<open>importlib\<close>, \<open>pkgutil.walk_packages\<close> and \<open>inspect.getmembers\<close> present it: the
  objects its \<open>__all__\<close> names (\<open>None\<close> for anything that is not a class), the classes of the
  package module, and the submodules in walk order with the outcome of importing each.
\<close>

record 'c package =
  pkg_all :: "'c option list option"
  pkg_members :: "'c list"
  pkg_modules :: "(string \<times> (import_exc + 'c list)) list"

definition default_excluded_segments :: "string list" where
  "default_excluded_segments =
     [''domain'', ''dto'', ''entity'', ''vo'', ''constant'', ''exception'']"

definition module_itself_missing :: "string \<Rightarrow> string \<Rightarrow> bool" where
  "module_itself_missing exc_name module_name \<longleftrightarrow>
     (let missing = split_on (CHR ''.'') exc_name; parts = split_on (CHR ''.'') module_name
      in take (length missing) parts = missing)"

definition is_excluded_module :: "string list \<Rightarrow> string \<Rightarrow> bool" where
  "is_excluded_module excluded module_name \<longleftrightarrow>
     set (split_on (CHR ''.'') module_name) \<inter> set excluded \<noteq> {}"

definition is_eligible :: "'c class_env \<Rightarrow> 'c \<Rightarrow> di_error + bool" where
  "is_eligible env cls =
     (if is_protocol env cls then Inr False
      else if is_abstract env cls then Inr False
      else if is_pydantic_model env cls then Inr False
      else if get_init_parameters env cls = [] then Inr True
      else case resolve_constructor_hints env cls of
             Inl _ \<Rightarrow> Inl (MissingTypeHint (cls_name env cls))
           | Inr hints \<Rightarrow> Inr (list_all (\<lambda>p. p \<in> set (dkeys hints)) (get_init_parameters env cls)))"

fun keep_eligible :: "'c class_env \<Rightarrow> 'c list \<Rightarrow> di_error + 'c list" where
  "keep_eligible env [] = Inr []"
| "keep_eligible env (c # cs) =
     sbind (is_eligible env c) (\<lambda>ok.
       sbind (keep_eligible env cs) (\<lambda>rest. Inr (if ok then c # rest else rest)))"

definition collect_from_all :: "'c class_env \<Rightarrow> 'c option list \<Rightarrow> di_error + 'c list" where
  "collect_from_all env objs = keep_eligible env (List.map_filter id objs)"

fun walk_submodules ::
  "'c class_env \<Rightarrow> string list \<Rightarrow> (string \<times> (import_exc + 'c list)) list \<Rightarrow> di_error + 'c list" where
  "walk_submodules env excluded [] = Inr []"
| "walk_submodules env excluded ((name, imported) # ms) =
     (if is_excluded_module excluded name then walk_submodules env excluded ms
      else case imported of
             Inl (ModuleNotFound missing) \<Rightarrow>
               if module_itself_missing missing name then walk_submodules env excluded ms
               else Inl (PyImportError missing)
           | Inl (OtherImportError msg) \<Rightarrow> Inl (PyImportError msg)
           | Inr members \<Rightarrow>
               sbind (keep_eligible env (filter (\<lambda>c. cls_module env c = name) members)) (\<lambda>cs.
                 sbind (walk_submodules env excluded ms) (\<lambda>rest. Inr (cs @ rest))))"

definition walk_modules ::
  "'c class_env \<Rightarrow> string list \<Rightarrow> string \<Rightarrow> 'c package \<Rightarrow> di_error + 'c list" where
  "walk_modules env excluded name pkg =
     sbind (keep_eligible env (filter (\<lambda>c. cls_module env c = name) (pkg_members pkg))) (\<lambda>own.
       sbind (walk_submodules env excluded (pkg_modules pkg)) (\<lambda>rest. Inr (own @ rest)))"

definition scan_package ::
  "'c class_env \<Rightarrow> (string \<Rightarrow> import_exc + 'c package) \<Rightarrow> string list \<Rightarrow> string
    \<Rightarrow> di_error + 'c list" where
  "scan_package env importer excluded name =
     (case importer name of
        Inl _ \<Rightarrow> Inl (PyImportError name)
      | Inr pkg \<Rightarrow>
          (case pkg_all pkg of
             Some objs \<Rightarrow> collect_from_all env objs
           | None \<Rightarrow> walk_modules env excluded name pkg))"

definition scan ::
  "'c class_env \<Rightarrow> (string \<Rightarrow> import_exc + 'c package) \<Rightarrow> string list option \<Rightarrow> string list
    \<Rightarrow> di_error + 'c list" where
  "scan env importer excluded names =
     (let ex = (case excluded of None \<Rightarrow> default_excluded_segments | Some e \<Rightarrow> e)
      in sbind (smap (scan_package env importer ex) names) (\<lambda>found.
           Inr (fold (\<lambda>c seen. if c \<in> set seen then seen else seen @ [c]) (concat found) [])))"

section \<open>Resolving constructor hints\<close>

definition resolve_one :: "'c class_env \<Rightarrow> ('c, 'c) dict \<Rightarrow> 'c \<Rightarrow> 'c" where
  "resolve_one env bindings t =
     (if is_protocol env t then dget_default t bindings t else t)"

definition resolve_hints ::
  "'c class_env \<Rightarrow> ('c, 'c) dict \<Rightarrow> 'c \<Rightarrow> di_error + 'c deps_map" where
  "resolve_hints env bindings cls =
     sbind (resolve_constructor_hints env cls) (\<lambda>hints.
       Inr (map (\<lambda>(param, t). (param, resolve_one env bindings t)) hints))"

definition resolve ::
  "'c class_env \<Rightarrow> ('c, 'c) dict \<Rightarrow> 'c list \<Rightarrow> di_error + 'c resolved_map" where
  "resolve env bindings classes =
     sbind (smap (\<lambda>cls. sbind (resolve_hints env bindings cls) (\<lambda>deps. Inr (cls, deps))) classes)
       (\<lambda>items. Inr (dict_of items))"

section \<open>Facts\<close>

lemma keep_eligible_set:
  "keep_eligible env cs = Inr out \<Longrightarrow>
     set out = {c \<in> set cs. is_eligible env c = Inr True} \<and>
     (\<forall>c \<in> set cs. \<exists>b. is_eligible env c = Inr b)"
  by (induction cs arbitrary: out) (auto simp: sbind_eq_Inr split: if_splits)

lemma walk_submodules_eligible:
  "walk_submodules env excluded ms = Inr out \<Longrightarrow> c \<in> set out \<Longrightarrow>
     is_eligible env c = Inr True \<and>
     (\<exists>name. cls_module env c = name \<and> name \<in> set (map fst ms) \<and> \<not> is_excluded_module excluded name)"
proof (induction env excluded ms arbitrary: out rule: walk_submodules.induct)
  case (2 env excluded name imported ms)
  then show ?case
    by (fastforce simp: sbind_eq_Inr dest!: keep_eligible_set
        split: if_splits sum.splits import_exc.splits)
qed simp

lemma eligible_not_protocol:
  "is_eligible env c = Inr True \<Longrightarrow>
     \<not> is_protocol env c \<and> \<not> is_abstract env c \<and> \<not> is_pydantic_model env c \<and>
     (get_init_parameters env c \<noteq> [] \<longrightarrow> (\<exists>hints. resolve_constructor_hints env c = Inr hints \<and>
        set (get_init_parameters env c) \<subseteq> set (dkeys hints)))"
  by (auto simp: is_eligible_def list_all_iff subset_iff split: if_splits sum.splits)

lemma fold_seen:
  "distinct seen \<Longrightarrow>
     distinct (fold (\<lambda>c seen. if c \<in> set seen then seen else seen @ [c]) cs seen) \<and>
     set (fold (\<lambda>c seen. if c \<in> set seen then seen else seen @ [c]) cs seen) = set seen \<union> set cs"
  by (induction cs arbitrary: seen) auto

lemma scan_package_eligible:
  "scan_package env importer excluded name = Inr out \<Longrightarrow> c \<in> set out \<Longrightarrow> is_eligible env c = Inr True"
  by (auto simp: scan_package_def collect_from_all_def walk_modules_def sbind_eq_Inr
      dest!: keep_eligible_set walk_submodules_eligible split: sum.splits option.splits)

lemma smap_set: "smap f xs = Inr ys \<Longrightarrow> y \<in> set ys \<Longrightarrow> \<exists>x \<in> set xs. f x = Inr y"
  by (induction xs arbitrary: ys) (auto simp: sbind_eq_Inr)

lemma scan_sound:
  assumes "scan env importer excluded names = Inr classes"
  shows "distinct classes \<and> (\<forall>c \<in> set classes. is_eligible env c = Inr True)"
proof -
  obtain found where found:
    "smap (scan_package env importer
       (case excluded of None \<Rightarrow> default_excluded_segments | Some e \<Rightarrow> e)) names = Inr found"
    "classes = fold (\<lambda>c seen. if c \<in> set seen then seen else seen @ [c]) (concat found) []"
    using assms by (auto simp: scan_def Let_def sbind_eq_Inr)
  then show ?thesis
    using fold_seen [of "[]" "concat found"]
    by (auto dest!: smap_set [OF found(1)] scan_package_eligible)
qed

lemma resolve_keys:
  assumes "resolve env bindings classes = Inr r"
  shows "distinct (dkeys r)"
  using assms by (auto simp: resolve_def sbind_eq_Inr distinct_dict_of)

section \<open>Properties\<close>

text \<open>The classes a package offers to the scan, before the eligibility filter.\<close>

definition offered :: "'c class_env \<Rightarrow> string list \<Rightarrow> string \<Rightarrow> 'c package \<Rightarrow> 'c set" where
  "offered env ex name pkg =
     (case pkg_all pkg of
        Some objs \<Rightarrow> {c. Some c \<in> set objs}
      | None \<Rightarrow> {c \<in> set (pkg_members pkg). cls_module env c = name} \<union>
          {c. \<exists>m cs. (m, Inr cs) \<in> set (pkg_modules pkg) \<and> \<not> is_excluded_module ex m \<and>
                c \<in> set cs \<and> cls_module env c = m})"

lemma walk_submodules_set:
  "walk_submodules env ex ms = Inr out \<Longrightarrow>
     set out = {c. \<exists>m cs. (m, Inr cs) \<in> set ms \<and> \<not> is_excluded_module ex m \<and>
                 c \<in> set cs \<and> cls_module env c = m \<and> is_eligible env c = Inr True}"
proof (induction ms arbitrary: out)
  case (Cons item ms)
  obtain name imported where item: "item = (name, imported)" by (cases item)
  show ?case
  proof (cases "is_excluded_module ex name")
    case True
    with Cons item show ?thesis by auto
  next
    case False
    then consider (skip) e where "imported = Inl e" "walk_submodules env ex ms = Inr out"
      | (keep) cs out1 rest where "imported = Inr cs" "walk_submodules env ex ms = Inr rest"
          "keep_eligible env (filter (\<lambda>c. cls_module env c = name) cs) = Inr out1" "out = out1 @ rest"
      using Cons.prems item by (auto simp: sbind_eq_Inr split: sum.splits import_exc.splits if_splits)
    then show ?thesis
    proof cases
      case skip
      with False Cons.IH item show ?thesis by auto
    next
      case keep
      with Cons.IH [OF keep(2)] keep_eligible_set [OF keep(3)] False item show ?thesis by auto
    qed
  qed
qed simp

lemma scan_package_set:
  assumes "scan_package env importer ex name = Inr out"
  obtains pkg where "importer name = Inr pkg"
    and "set out = {c \<in> offered env ex name pkg. is_eligible env c = Inr True}"
proof -
  obtain pkg where pkg: "importer name = Inr pkg"
    using assms by (auto simp: scan_package_def split: sum.splits)
  have all: "set (List.map_filter id objs) = {c. Some c \<in> set objs}" for objs :: "'a option list"
    by (induction objs) (auto simp: List.map_filter_simps split: option.splits)
  have "set out = {c \<in> offered env ex name pkg. is_eligible env c = Inr True}"
  proof (cases "pkg_all pkg")
    case (Some objs)
    with assms pkg keep_eligible_set [of env "List.map_filter id objs" out] show ?thesis
      by (auto simp: scan_package_def collect_from_all_def offered_def all)
  next
    case None
    then obtain own rest where
      "keep_eligible env (filter (\<lambda>c. cls_module env c = name) (pkg_members pkg)) = Inr own"
      "walk_submodules env ex (pkg_modules pkg) = Inr rest" "out = own @ rest"
      using assms pkg by (auto simp: scan_package_def walk_modules_def sbind_eq_Inr)
    with None keep_eligible_set [OF this(1)] walk_submodules_set [OF this(2)] show ?thesis
      by (auto simp: offered_def)
  qed
  with pkg that show ?thesis by blast
qed

lemma smap_all: "smap f xs = Inr ys \<Longrightarrow> x \<in> set xs \<Longrightarrow> \<exists>y \<in> set ys. f x = Inr y"
  by (induction xs arbitrary: ys) (auto simp: sbind_eq_Inr)

text \<open>
  A scan that returns, returns without repetition exactly the eligible classes the named
  packages offer: what \<open>__all__\<close> lists, or the classes defined in the package module and in the
  submodules whose dotted name has no excluded segment.
\<close>

theorem scan_correct:
  assumes "scan env importer excluded names = Inr classes"
  defines "ex \<equiv> (case excluded of None \<Rightarrow> default_excluded_segments | Some e \<Rightarrow> e)"
  shows "distinct classes \<and>
    set classes = {c. is_eligible env c = Inr True \<and>
      (\<exists>name \<in> set names. \<exists>pkg. importer name = Inr pkg \<and> c \<in> offered env ex name pkg)}"
proof -
  obtain found where found: "smap (scan_package env importer ex) names = Inr found"
    "classes = fold (\<lambda>c seen. if c \<in> set seen then seen else seen @ [c]) (concat found) []"
    using assms by (auto simp: scan_def Let_def sbind_eq_Inr)
  have classes: "distinct classes" "set classes = \<Union> (set ` set found)"
    using fold_seen [of "[]" "concat found"] found(2) by auto
  have "c \<in> set classes \<longleftrightarrow> is_eligible env c = Inr True \<and>
      (\<exists>name \<in> set names. \<exists>pkg. importer name = Inr pkg \<and> c \<in> offered env ex name pkg)" for c
  proof
    assume "c \<in> set classes"
    then obtain out name where "c \<in> set out" "name \<in> set names" "scan_package env importer ex name = Inr out"
      using classes(2) smap_set [OF found(1)] by blast
    then show "is_eligible env c = Inr True \<and>
      (\<exists>name \<in> set names. \<exists>pkg. importer name = Inr pkg \<and> c \<in> offered env ex name pkg)"
      by (elim scan_package_set) blast
  next
    assume "is_eligible env c = Inr True \<and>
      (\<exists>name \<in> set names. \<exists>pkg. importer name = Inr pkg \<and> c \<in> offered env ex name pkg)"
    then obtain name pkg where c: "is_eligible env c = Inr True" "name \<in> set names"
      "importer name = Inr pkg" "c \<in> offered env ex name pkg" by blast
    from smap_all [OF found(1) c(2)] obtain out where
      out: "out \<in> set found" "scan_package env importer ex name = Inr out" by blast
    from out(2) have "c \<in> set out" by (rule scan_package_set) (use c in auto)
    with out(1) classes(2) show "c \<in> set classes" by blast
  qed
  with classes(1) show ?thesis by blast
qed

text \<open>A small program for the witnesses: class 9 is a protocol with one method, class 1 implements it.\<close>

definition sample_env :: "nat class_env" where
  "sample_env =
     \<lparr>cls_name = (\<lambda>c. if c = 9 then ''Port'' else if c = 1 then ''Adapter'' else ''Service''),
      cls_module = (\<lambda>c. if c = 3 then ''app.domain'' else if c = 4 then ''app.svc'' else ''app''),
      is_protocol = (\<lambda>c. c = 9), is_abstract = (\<lambda>c. c = 8), is_pydantic_model = (\<lambda>_. False),
      protocol_attrs = (\<lambda>c. if c = 9 then [''load'', ''_secret''] else []),
      callable_attr = (\<lambda>c m. c = 1 \<and> m = ''load''),
      init_hint_result = (\<lambda>_. Hints),
      init_hints = (\<lambda>c. if c = 2 then [(''port'', 9)] else if c = 4 then [(''two'', 2)] else []),
      init_signature = (\<lambda>c. Some ((''self'', Positional) #
         (if c = 2 then [(''port'', Positional)] else if c = 4 then [(''two'', Positional)] else []))),
      init_defaults = (\<lambda>_. []), is_refdata = (\<lambda>_. False), is_link_handler = (\<lambda>_. False)\<rparr>"

definition sample_package :: "nat package" where
  "sample_package = \<lparr>pkg_all = None, pkg_members = [1, 2, 8, 9],
     pkg_modules = [(''app.domain'', Inr [3]), (''app.svc'', Inr [4, 1])]\<rparr>"

theorem scan_correct_witness:
  "scan sample_env (\<lambda>_. Inr sample_package) None [''app''] = Inr [1, 2, 4] \<and>
   {c. is_eligible sample_env c = Inr True \<and> (\<exists>name \<in> {''app''}. \<exists>pkg. Inr sample_package = Inr pkg \<and>
      c \<in> offered sample_env default_excluded_segments name pkg)} = {1, 2, 4}"
proof -
  have run: "scan sample_env (\<lambda>_. Inr sample_package :: import_exc + nat package) None [''app''] = Inr [1, 2, 4]"
    by code_simp
  from scan_correct [OF run] show ?thesis using run by simp
qed

end
