(* ===== verification/Validator.thy ===== *)
theory Validator
  imports Class_Model "HOL-Library.List_Lexorder" "HOL-Library.Char_ord"
begin

text \<open>
  The startup checks of the container (\<open>xime/core/container/validator.py\<close>): cycles, protocols
  nothing supplies, incomplete bindings, and concrete dependencies nobody registered. The
  first failing check raises. A binding target is one implementation or a tuple of them.
\<close>

datatype 'c target = Single 'c | Tuple "'c list"

fun target_impls :: "'c target \<Rightarrow> 'c list" where
  "target_impls (Single c) = [c]"
| "target_impls (Tuple cs) = cs"

definition hint_for :: "'c class_env \<Rightarrow> 'c \<Rightarrow> string option" where
  "hint_for env dep_type =
     (if is_refdata env dep_type
      then Some ''a RefData table reaches the container through configure_refdata(), not dependency.scan()''
      else if is_link_handler env dep_type
      then Some ''a ProcessLink handler reaches the container through configure_link(), not dependency.scan()''
      else None)"

definition check_cycles :: "'c class_env \<Rightarrow> 'c dep_graph \<Rightarrow> di_error + unit" where
  "check_cycles env graph =
     sbind (lift_graph (detect_cycles graph)) (\<lambda>cycles.
       case cycles of [] \<Rightarrow> Inr () | cycle # _ \<Rightarrow> Inl (CircularDependency (map (cls_name env) cycle)))"

definition satisfies :: "'c class_env \<Rightarrow> 'c \<Rightarrow> string list \<Rightarrow> bool" where
  "satisfies env cls required = list_all (callable_attr env cls) required"

definition find_candidates :: "'c class_env \<Rightarrow> 'c \<Rightarrow> 'c list \<Rightarrow> 'c list" where
  "find_candidates env protocol_cls all_classes =
     (let required = get_protocol_methods env protocol_cls
      in filter (\<lambda>cls. \<not> is_protocol env cls \<and> satisfies env cls required) all_classes)"

definition unresolved_protocol :: "'c class_env \<Rightarrow> 'c list \<Rightarrow> 'c \<Rightarrow> di_error" where
  "unresolved_protocol env all_classes dep_type =
     (case find_candidates env dep_type all_classes of
        [] \<Rightarrow> MissingImplementation (cls_name env dep_type)
      | [c] \<Rightarrow> MissingBinding (cls_name env dep_type) (cls_name env c)
      | cs \<Rightarrow> MultipleImplementation (cls_name env dep_type) (map (cls_name env) cs))"

text \<open>\<open>already_reported\<close> is the state of the loop; a newly reported protocol raises.\<close>

definition check_protocol_dep ::
  "'c class_env \<Rightarrow> 'c list \<Rightarrow> 'c list \<Rightarrow> 'c \<Rightarrow> 'c list \<Rightarrow> di_error + 'c list" where
  "check_protocol_dep env all_classes pre_built dep_type reported =
     (if \<not> is_protocol env dep_type then Inr reported
      else if dep_type \<in> set reported then Inr reported
      else if dep_type \<in> set pre_built then Inr reported
      else Inl (unresolved_protocol env all_classes dep_type))"

definition check_unresolved_protocols ::
  "'c class_env \<Rightarrow> 'c resolved_map \<Rightarrow> 'c list \<Rightarrow> 'c list \<Rightarrow> 'c list \<Rightarrow> di_error + unit" where
  "check_unresolved_protocols env resolved all_classes instances factory_provided =
     sbind (sfold (\<lambda>(_, deps). sfold (check_protocol_dep env all_classes (instances @ factory_provided))
                     (dvals deps)) resolved [])
       (\<lambda>_. Inr ())"

definition missing_methods :: "'c class_env \<Rightarrow> 'c \<Rightarrow> 'c \<Rightarrow> string list" where
  "missing_methods env interface impl =
     filter (\<lambda>m. \<not> callable_attr env impl m) (get_protocol_methods env interface)"

definition check_binding :: "'c class_env \<Rightarrow> 'c \<Rightarrow> 'c \<Rightarrow> unit \<Rightarrow> di_error + unit" where
  "check_binding env interface impl _ =
     (let missing = missing_methods env interface impl
      in if missing \<noteq> []
         then Inl (BindingValidation (cls_name env interface) (cls_name env impl) (sort (remdups missing)))
         else Inr ())"

definition check_bindings :: "'c class_env \<Rightarrow> ('c, 'c target) dict \<Rightarrow> di_error + unit" where
  "check_bindings env bindings =
     sfold (\<lambda>(interface, target) _.
              if \<not> is_protocol env interface then Inr ()
              else sfold (check_binding env interface) (target_impls target) ())
       bindings ()"

definition check_concrete_dep ::
  "'c class_env \<Rightarrow> 'c list \<Rightarrow> 'c \<Rightarrow> 'c \<Rightarrow> unit \<Rightarrow> di_error + unit" where
  "check_concrete_dep env registered cls dep_type _ =
     (if \<not> is_protocol env dep_type \<and> dep_type \<notin> set registered
      then Inl (UnregisteredDependency (cls_name env cls) (cls_name env dep_type) (hint_for env dep_type))
      else Inr ())"

definition check_missing_concrete_deps ::
  "'c class_env \<Rightarrow> 'c resolved_map \<Rightarrow> 'c list \<Rightarrow> 'c list \<Rightarrow> 'c list \<Rightarrow> di_error + unit" where
  "check_missing_concrete_deps env resolved all_classes instances factory_provided =
     sfold (\<lambda>(cls, deps). sfold (check_concrete_dep env
              (all_classes @ instances @ factory_provided) cls) (dvals deps)) resolved ()"

definition validate ::
  "'c class_env \<Rightarrow> 'c resolved_map \<Rightarrow> 'c dep_graph \<Rightarrow> ('c, 'c target) dict \<Rightarrow> 'c list
    \<Rightarrow> 'c list \<Rightarrow> 'c list \<Rightarrow> di_error + unit" where
  "validate env resolved graph bindings all_classes instances factory_provided =
     sbind (check_cycles env graph) (\<lambda>_.
       sbind (check_unresolved_protocols env resolved all_classes instances factory_provided) (\<lambda>_.
         sbind (check_bindings env bindings) (\<lambda>_.
           check_missing_concrete_deps env resolved all_classes instances factory_provided)))"

section \<open>What a validated graph satisfies\<close>

definition all_deps :: "'c resolved_map \<Rightarrow> 'c set" where
  "all_deps resolved = (\<Union>(cls, deps) \<in> set resolved. set (dvals deps))"

definition supplied ::
  "'c class_env \<Rightarrow> 'c list \<Rightarrow> 'c list \<Rightarrow> 'c list \<Rightarrow> 'c \<Rightarrow> bool" where
  "supplied env all_classes instances factory_provided d \<longleftrightarrow>
     d \<in> set instances \<union> set factory_provided \<or> \<not> is_protocol env d \<and> d \<in> set all_classes"

definition bindings_complete :: "'c class_env \<Rightarrow> ('c, 'c target) dict \<Rightarrow> bool" where
  "bindings_complete env bindings \<longleftrightarrow>
     (\<forall>(i, t) \<in> set bindings. is_protocol env i \<longrightarrow>
        (\<forall>c \<in> set (target_impls t). \<forall>m \<in> set (get_protocol_methods env i). callable_attr env c m))"

lemma sfold_unit_check: "(sfold f xs () = Inr ()) = (\<forall>x \<in> set xs. f x () = Inr ())"
  by (induction xs) (auto simp: sbind_eq_Inr)

lemma check_protocol_deps_iff:
  "(sfold (check_protocol_dep env all pre) ds rep = Inr rep') \<longleftrightarrow>
     rep' = rep \<and> (\<forall>d \<in> set ds. is_protocol env d \<longrightarrow> d \<in> set rep \<union> set pre)"
proof (induction ds arbitrary: rep)
  case (Cons d ds)
  then show ?case by (auto simp: check_protocol_dep_def)
qed auto

lemma check_unresolved_protocols_iff:
  "check_unresolved_protocols env resolved all inst fac = Inr () \<longleftrightarrow>
     (\<forall>d \<in> all_deps resolved. is_protocol env d \<longrightarrow> d \<in> set inst \<union> set fac)"
proof -
  have "(\<exists>r. sfold (\<lambda>(_, deps). sfold (check_protocol_dep env all pre) (dvals deps)) rs rep = Inr r) \<longleftrightarrow>
      (\<forall>d \<in> all_deps rs. is_protocol env d \<longrightarrow> d \<in> set rep \<union> set pre)" for rs rep pre
  proof (induction rs)
    case (Cons r rs)
    obtain cls deps where r: "r = (cls, deps)" by (cases r)
    have "all_deps (r # rs) = set (dvals deps) \<union> all_deps rs" by (simp add: all_deps_def r)
    with Cons r show ?case
      by (simp add: sbind_eq_Inr check_protocol_deps_iff ball_Un del: set_map)
  qed (simp add: all_deps_def)
  from this [of "inst @ fac" resolved "[]"] show ?thesis
    by (simp add: check_unresolved_protocols_def sbind_eq_Inr)
qed

lemma check_binding_iff:
  "check_binding env i c () = Inr () \<longleftrightarrow> (\<forall>m \<in> set (get_protocol_methods env i). callable_attr env c m)"
  by (auto simp: check_binding_def missing_methods_def Let_def filter_empty_conv)

lemma check_bindings_iff: "check_bindings env bindings = Inr () \<longleftrightarrow> bindings_complete env bindings"
  by (auto simp: check_bindings_def bindings_complete_def sfold_unit_check check_binding_iff split: if_splits)

lemma check_missing_concrete_deps_iff:
  "check_missing_concrete_deps env resolved all inst fac = Inr () \<longleftrightarrow>
     (\<forall>d \<in> all_deps resolved. \<not> is_protocol env d \<longrightarrow> d \<in> set all \<union> set inst \<union> set fac)"
proof -
  have "check_concrete_dep env reg cls d () = Inr () \<longleftrightarrow> (\<not> is_protocol env d \<longrightarrow> d \<in> set reg)"
    for reg cls d by (simp add: check_concrete_dep_def)
  then show ?thesis
    by (simp add: check_missing_concrete_deps_def all_deps_def sfold_unit_check case_prod_beta del: set_map)
qed

lemma check_cycles_iff:
  assumes "wf_graph g"
  shows "check_cycles env g = Inr () \<longleftrightarrow> acyclic (dep_rel (neighbors (g_edges g)) (g_nodes g))"
  using detect_cycles_spec [OF assms] by (auto simp: check_cycles_def split: list.splits)

lemma validate_iff:
  assumes "wf_graph g"
  shows "validate env resolved g bindings all inst fac = Inr () \<longleftrightarrow>
    acyclic (dep_rel (neighbors (g_edges g)) (g_nodes g)) \<and> bindings_complete env bindings \<and>
    (\<forall>d \<in> all_deps resolved. supplied env all inst fac d)"
  unfolding validate_def supplied_def
  by (simp add: sbind_eq_Inr check_cycles_iff [OF assms] check_bindings_iff
      check_unresolved_protocols_iff check_missing_concrete_deps_iff) blast

lemma find_candidates_iff:
  "c \<in> set (find_candidates env p all) \<longleftrightarrow>
     c \<in> set all \<and> \<not> is_protocol env c \<and> (\<forall>m \<in> set (get_protocol_methods env p). callable_attr env c m)"
  by (auto simp: find_candidates_def satisfies_def list_all_iff Let_def)

section \<open>Properties\<close>

text \<open>
  C14: On every resolved map, validation passes exactly when the dependency relation is acyclic,
  every implementation bound to a protocol has all its contract methods, and every dependency is
  supplied: a pre-built instance, a type a factory provides, or a registered concrete class.
\<close>

theorem validate_correct:
  assumes "distinct (dkeys resolved)" and "py_set_order so"
  shows "sbind (lift_graph (make_graph so resolved))
      (\<lambda>g. validate env resolved g bindings classes instances provided) = Inr () \<longleftrightarrow>
    acyclic (dep_rel (known_deps resolved) (set (dkeys resolved))) \<and> bindings_complete env bindings \<and>
    (\<forall>d \<in> all_deps resolved. supplied env classes instances provided d)"
proof -
  obtain g where g: "make_graph so resolved = Inr g" "wf_graph g" "g_order g = dkeys resolved"
    "\<And>n. set (neighbors (g_edges g) n) = set (known_deps resolved n)"
    by (rule make_graph_deps [OF assms]) blast
  show ?thesis
    using validate_iff [OF g(2), of env resolved bindings classes instances provided]
    by (simp add: g(1,3) dep_rel_cong [of _ _ "known_deps resolved", OF g(4)] del: set_map)
qed

theorem validate_correct_witness:
  "sbind (lift_graph (make_graph dedup [(1, []), (2::nat, [(''port'', 1)])]))
      (\<lambda>g. validate sample_env [(1, []), (2, [(''port'', 1)])] g [(9, Single 1)] [1, 2] [] []) = Inr () \<and>
   acyclic (dep_rel (known_deps [(1, []), (2::nat, [(''port'', 1)])]) {1, 2})"
proof -
  have run: "sbind (lift_graph (make_graph dedup [(1, []), (2::nat, [(''port'', 1)])]))
      (\<lambda>g. validate sample_env [(1, []), (2, [(''port'', 1)])] g [(9, Single 1)] [1, 2] [] []) = Inr ()"
    by code_simp
  with validate_correct [of "[(1, []), (2::nat, [(''port'', 1)])]" dedup sample_env "[(9, Single 1)]" "[1, 2]" "[]" "[]",
      OF _ py_set_order_dedup]
  show ?thesis by simp
qed

end
