(* ===== verification/Registry.thy ===== *)
theory Registry
  imports Class_Model
begin

text \<open>
  The singleton registry (\<open>xime/core/container/registry.py\<close>): a dictionary of instances, a build
  plan, and a lazy recursive construction guarded by the set of classes being built. The
  registry holds one lock during a construction, so a call is one atomic step here.
  \<open>call f kwargs\<close> is the application's constructor or factory, which may raise. The recursion
  of \<open>_instantiate\<close> has a fuel argument; \<open>inst_total\<close> says how much is enough.
\<close>

datatype 'x build_exn =
    BuildKeyError
  | CircularBuild
  | NoProvider
  | NotBuilt
  | AppError 'x

record ('c, 'f, 'o) registry =
  r_instances :: "('c, 'o) dict"
  r_plan :: "('c, 'c deps_map) dict"
  r_factory :: "('c, 'f) dict"
  r_building :: "'c list"

record ('c, 'f) factory_entry =
  provided_type :: 'c
  factory_fn :: 'f
  dependencies :: "'c deps_map"

definition empty_registry :: "('c, 'f, 'o) registry" where
  "empty_registry = \<lparr>r_instances = [], r_plan = [], r_factory = [], r_building = []\<rparr>"

definition register_one ::
  "('c \<Rightarrow> 'f) \<Rightarrow> ('c, 'f) dict \<Rightarrow> 'c \<times> 'c deps_map \<Rightarrow> ('c, 'f, 'o) registry \<Rightarrow> ('c, 'f, 'o) registry" where
  "register_one ctor factory_map item r =
     (case item of (cls, deps) \<Rightarrow>
        if dget (r_instances r) cls \<noteq> None then r
        else r\<lparr>r_plan := dset cls deps (r_plan r),
               r_factory := dset cls (dget_default (ctor cls) factory_map cls) (r_factory r)\<rparr>)"

definition register ::
  "('c \<Rightarrow> 'f) \<Rightarrow> ('c, 'f, 'o) registry \<Rightarrow> 'c resolved_map \<Rightarrow> ('c, 'o) dict
    \<Rightarrow> ('c, 'f) factory_entry list \<Rightarrow> ('c, 'f, 'o) registry" where
  "register ctor r resolved instances entries =
     (let r1 = r\<lparr>r_instances := dict_update (r_instances r) instances\<rparr>;
          factory_map = dict_of (map (\<lambda>e. (provided_type e, factory_fn e)) entries)
      in fold (register_one ctor factory_map) resolved r1)"

definition known :: "('c, 'f, 'o) registry \<Rightarrow> 'c \<Rightarrow> bool" where
  "known r d \<longleftrightarrow> dget (r_factory r) d \<noteq> None \<or> dget (r_instances r) d \<noteq> None"

text \<open>The keyword arguments, each built by \<open>rec\<close>; \<open>None\<close> is running out of fuel.\<close>

fun build_args ::
  "(('c, 'f, 'o) registry \<Rightarrow> 'c \<Rightarrow> (('c, 'f, 'o) registry \<times> ('x build_exn + 'o)) option)
    \<Rightarrow> 'c deps_map \<Rightarrow> ('c, 'f, 'o) registry
    \<Rightarrow> (('c, 'f, 'o) registry \<times> ('x build_exn + (string, 'o) dict)) option" where
  "build_args rec [] r = Some (r, Inr [])"
| "build_args rec ((param, d) # ds) r =
     (if known r d
      then case rec r d of
             None \<Rightarrow> None
           | Some (r1, Inl e) \<Rightarrow> Some (r1, Inl e)
           | Some (r1, Inr obj) \<Rightarrow>
               (case build_args rec ds r1 of
                  None \<Rightarrow> None
                | Some (r2, Inl e) \<Rightarrow> Some (r2, Inl e)
                | Some (r2, Inr kwargs) \<Rightarrow> Some (r2, Inr ((param, obj) # kwargs)))
      else build_args rec ds r)"

definition discard_building :: "'c \<Rightarrow> ('c, 'f, 'o) registry \<Rightarrow> ('c, 'f, 'o) registry" where
  "discard_building cls r = r\<lparr>r_building := removeAll cls (r_building r)\<rparr>"

definition construct ::
  "('f \<Rightarrow> (string, 'o) dict \<Rightarrow> 'x + 'o) \<Rightarrow> 'c \<Rightarrow> ('c, 'f, 'o) registry \<Rightarrow> (string, 'o) dict
    \<Rightarrow> ('c, 'f, 'o) registry \<times> ('x build_exn + 'o)" where
  "construct call cls r kwargs =
     (case dget (r_factory r) cls of
        None \<Rightarrow> (r, Inl BuildKeyError)
      | Some f \<Rightarrow>
          (case call f kwargs of
             Inl x \<Rightarrow> (r, Inl (AppError x))
           | Inr obj \<Rightarrow> (r\<lparr>r_instances := dset cls obj (r_instances r)\<rparr>, Inr obj)))"

primrec inst ::
  "nat \<Rightarrow> ('f \<Rightarrow> (string, 'o) dict \<Rightarrow> 'x + 'o) \<Rightarrow> ('c, 'f, 'o) registry \<Rightarrow> 'c
    \<Rightarrow> (('c, 'f, 'o) registry \<times> ('x build_exn + 'o)) option" where
  "inst 0 call r cls = None"
| "inst (Suc fuel) call r cls =
     (case dget (r_instances r) cls of
        Some obj \<Rightarrow> Some (r, Inr obj)
      | None \<Rightarrow>
          if cls \<in> set (r_building r) then Some (r, Inl CircularBuild)
          else let r1 = r\<lparr>r_building := cls # r_building r\<rparr>
               in case dget (r_plan r1) cls of
                    None \<Rightarrow> Some (discard_building cls r1, Inl BuildKeyError)
                  | Some deps \<Rightarrow>
                      (case build_args (inst fuel call) deps r1 of
                         None \<Rightarrow> None
                       | Some (r2, Inl e) \<Rightarrow> Some (discard_building cls r2, Inl e)
                       | Some (r2, Inr kwargs) \<Rightarrow>
                           (case construct call cls r2 kwargs of
                              (r3, res) \<Rightarrow> Some (discard_building cls r3, res))))"

definition registry_get ::
  "nat \<Rightarrow> ('f \<Rightarrow> (string, 'o) dict \<Rightarrow> 'x + 'o) \<Rightarrow> ('c, 'f, 'o) registry \<Rightarrow> 'c
    \<Rightarrow> (('c, 'f, 'o) registry \<times> ('x build_exn + 'o)) option" where
  "registry_get fuel call r cls =
     (case dget (r_instances r) cls of
        Some obj \<Rightarrow> Some (r, Inr obj)
      | None \<Rightarrow>
          if dget (r_factory r) cls = None then Some (r, Inl NoProvider)
          else inst fuel call r cls)"

section \<open>Registration\<close>

definition reg_wf :: "('c, 'f, 'o) registry \<Rightarrow> bool" where
  "reg_wf r \<longleftrightarrow> dom (dget (r_plan r)) = dom (dget (r_factory r))"

lemma register_one_spec:
  assumes "reg_wf r"
  shows "reg_wf (register_one ctor fm (cls, deps) r)"
    and "r_instances (register_one ctor fm (cls, deps) r) = r_instances r"
    and "r_building (register_one ctor fm (cls, deps) r) = r_building r"
    and "dget (r_plan (register_one ctor fm (cls, deps) r)) =
      (if dget (r_instances r) cls = None then (dget (r_plan r))(cls \<mapsto> deps) else dget (r_plan r))"
  using assms by (auto simp: register_one_def reg_wf_def)

lemma register_fold:
  fixes r :: "('c, 'f, 'o) registry"
  assumes "reg_wf r"
  shows "reg_wf (fold (register_one ctor fm) items r) \<and>
    r_instances (fold (register_one ctor fm) items r) = r_instances r \<and>
    r_building (fold (register_one ctor fm) items r) = r_building r \<and>
    dget (r_plan (fold (register_one ctor fm) items r)) =
      dget (r_plan r) ++ (dget (rev items) |` (- dom (dget (r_instances r))))"
  using assms
proof (induction items arbitrary: r)
  case Nil
  then show ?case by (simp add: restrict_map_def)
next
  case (Cons item items)
  obtain cls deps where item: "item = (cls, deps)" by (cases item)
  note one = register_one_spec [OF Cons.prems, of ctor fm cls deps]
  let ?r = "register_one ctor fm item r"
  have "dget (r_plan ?r) ++ (dget (rev items) |` (- dom (dget (r_instances r)))) =
      dget (r_plan r) ++ (dget (rev (item # items)) |` (- dom (dget (r_instances r))))"
    using one(4) item by (auto simp: fun_eq_iff map_add_def restrict_map_def split: option.splits)
  then show ?case using Cons.IH [of ?r] one item by simp
qed

lemma register_spec:
  fixes resolved :: "'c resolved_map"
  assumes "distinct (dkeys resolved)"
  shows "reg_wf (register ctor empty_registry resolved instances entries)"
    and "r_building (register ctor empty_registry resolved instances entries) = []"
    and "dget (r_instances (register ctor empty_registry resolved instances entries)) = dget (rev instances)"
    and "dget (r_plan (register ctor empty_registry resolved instances entries)) =
           dget resolved |` (- dom (dget (rev instances)))"
proof -
  let ?r1 = "empty_registry\<lparr>r_instances := dict_update [] instances\<rparr>"
  let ?r = "register ctor empty_registry resolved instances entries"
  have wf: "reg_wf ?r1" by (simp add: reg_wf_def empty_registry_def)
  show "reg_wf ?r" "r_building ?r = []" "dget (r_instances ?r) = dget (rev instances)"
    "dget (r_plan ?r) = dget resolved |` (- dom (dget (rev instances)))"
    using register_fold [OF wf, of ctor "dict_of (map (\<lambda>e. (provided_type e, factory_fn e)) entries)" resolved]
      dget_rev_distinct [OF assms]
    by (simp_all add: register_def empty_registry_def dget_dict_update)
qed

section \<open>Construction\<close>

text \<open>What a construction leaves alone, and what it only adds to.\<close>

definition reg_extends :: "('c, 'f, 'o) registry \<Rightarrow> ('c, 'f, 'o) registry \<Rightarrow> bool" where
  "reg_extends r r' \<longleftrightarrow> r_plan r' = r_plan r \<and> r_factory r' = r_factory r \<and>
     r_building r' = r_building r \<and> dget (r_instances r) \<subseteq>\<^sub>m dget (r_instances r') \<and>
     dom (dget (r_instances r')) \<subseteq> dom (dget (r_instances r)) \<union> dom (dget (r_plan r)) \<and>
     (\<forall>c \<in> set (r_building r). dget (r_instances r') c = dget (r_instances r) c)"

lemma reg_extends_refl [simp]: "reg_extends r r"
  by (simp add: reg_extends_def)

lemma reg_extends_trans:
  assumes "reg_extends r s" and "reg_extends s t"
  shows "reg_extends r t"
  unfolding reg_extends_def
proof (intro conjI)
  show "r_plan t = r_plan r" "r_factory t = r_factory r" "r_building t = r_building r"
    using assms by (simp_all add: reg_extends_def)
  show "dget (r_instances r) \<subseteq>\<^sub>m dget (r_instances t)"
    using assms map_le_trans [of _ "dget (r_instances s)"] by (simp add: reg_extends_def)
  have "dom (dget (r_instances t)) \<subseteq> dom (dget (r_instances s)) \<union> dom (dget (r_plan r))"
    and "dom (dget (r_instances s)) \<subseteq> dom (dget (r_instances r)) \<union> dom (dget (r_plan r))"
    using assms by (simp_all add: reg_extends_def)
  then show "dom (dget (r_instances t)) \<subseteq> dom (dget (r_instances r)) \<union> dom (dget (r_plan r))"
    by blast
  show "\<forall>c \<in> set (r_building r). dget (r_instances t) c = dget (r_instances r) c"
    using assms by (simp add: reg_extends_def)
qed

lemma known_dom: "known r d \<longleftrightarrow> d \<in> dom (dget (r_factory r)) \<union> dom (dget (r_instances r))"
  by (auto simp: known_def)

lemma reg_extends_known:
  assumes "reg_extends r r'" and "reg_wf r"
  shows "known r' d = known r d"
proof -
  have "dom (dget (r_instances r)) \<subseteq> dom (dget (r_instances r'))"
    using assms(1) by (simp add: reg_extends_def map_le_implies_dom_le)
  moreover have "r_factory r' = r_factory r"
    "dom (dget (r_instances r')) \<subseteq> dom (dget (r_instances r)) \<union> dom (dget (r_factory r))"
    using assms by (simp_all add: reg_extends_def reg_wf_def)
  ultimately have "dom (dget (r_factory r')) \<union> dom (dget (r_instances r')) =
      dom (dget (r_factory r)) \<union> dom (dget (r_instances r))"
    by (simp only:) blast
  then show ?thesis unfolding known_dom by (rule arg_cong)
qed

lemma reg_extends_wf: "reg_extends r r' \<Longrightarrow> reg_wf r \<Longrightarrow> reg_wf r'"
  by (simp add: reg_extends_def reg_wf_def)

lemma build_args_ConsE:
  assumes "build_args rec ((param, d) # ds) r = Some (r', res)"
  obtains (skip) "\<not> known r d" "build_args rec ds r = Some (r', res)"
  | (fail) e where "known r d" "rec r d = Some (r', Inl e)" "res = Inl e"
  | (later) r1 obj e where "known r d" "rec r d = Some (r1, Inr obj)"
      "build_args rec ds r1 = Some (r', Inl e)" "res = Inl e"
  | (built) r1 obj kwargs where "known r d" "rec r d = Some (r1, Inr obj)"
      "build_args rec ds r1 = Some (r', Inr kwargs)" "res = Inr ((param, obj) # kwargs)"
proof (cases "known r d")
  case False
  with assms skip show ?thesis by simp
next
  case True
  with assms obtain r1 res1 where r1: "rec r d = Some (r1, res1)" by (auto split: option.splits)
  show ?thesis
  proof (cases res1)
    case (Inl e)
    with assms True r1 fail show ?thesis by simp
  next
    case (Inr obj)
    with assms True r1 obtain r2 res2 where r2: "build_args rec ds r1 = Some (r2, res2)"
      by (auto split: option.splits)
    with assms True r1 Inr later built show ?thesis by (cases res2) auto
  qed
qed

lemma build_args_extends:
  assumes "\<And>r d r' res. rec r d = Some (r', res) \<Longrightarrow> reg_extends r r'"
    and "build_args rec ds r = Some (r', res)"
  shows "reg_extends r r'"
  using assms(2)
proof (induction ds arbitrary: r r' res)
  case (Cons p ds)
  obtain param d where p: "p = (param, d)" by (cases p)
  from Cons.prems [unfolded p] show ?case
    by (cases rule: build_args_ConsE) (auto intro: Cons.IH reg_extends_trans assms(1))
qed simp

lemma inst_SucE:
  assumes "inst (Suc fuel) call r cls = Some (r', res)"
  obtains (cached) obj where "dget (r_instances r) cls = Some obj" "r' = r" "res = Inr obj"
  | (circular) "dget (r_instances r) cls = None" "cls \<in> set (r_building r)" "r' = r" "res = Inl CircularBuild"
  | (no_plan) "dget (r_instances r) cls = None" "cls \<notin> set (r_building r)" "dget (r_plan r) cls = None"
      "r' = r" "res = Inl BuildKeyError"
  | (args_fail) deps r2 e where "dget (r_instances r) cls = None" "cls \<notin> set (r_building r)"
      "dget (r_plan r) cls = Some deps"
      "build_args (inst fuel call) deps (r\<lparr>r_building := cls # r_building r\<rparr>) = Some (r2, Inl e)"
      "r' = discard_building cls r2" "res = Inl e"
  | (built) deps r2 kwargs r3 where "dget (r_instances r) cls = None" "cls \<notin> set (r_building r)"
      "dget (r_plan r) cls = Some deps"
      "build_args (inst fuel call) deps (r\<lparr>r_building := cls # r_building r\<rparr>) = Some (r2, Inr kwargs)"
      "construct call cls r2 kwargs = (r3, res)" "r' = discard_building cls r3"
  using assms
  by (auto simp: Let_def discard_building_def split: if_splits option.splits prod.splits sum.splits)

lemma construct_cases:
  "construct call cls r kwargs = (r', res) \<Longrightarrow>
     (r' = r \<and> (\<exists>e. res = Inl e)) \<or>
     (\<exists>f obj. dget (r_factory r) cls = Some f \<and> call f kwargs = Inr obj \<and> res = Inr obj \<and>
        r' = r\<lparr>r_instances := dset cls obj (r_instances r)\<rparr>)"
  by (auto simp: construct_def split: option.splits sum.splits)

lemma inst_extends: "inst fuel call r cls = Some (r', res) \<Longrightarrow> reg_extends r r'"
proof (induction fuel arbitrary: r cls r' res)
  case (Suc fuel)
  let ?r1 = "r\<lparr>r_building := cls # r_building r\<rparr>"
  have lower: "reg_extends r (discard_building cls r2)"
    if "reg_extends ?r1 r2" "cls \<notin> set (r_building r)" for r2
    using that by (simp add: reg_extends_def discard_building_def)
  have args: "build_args (inst fuel call) deps ?r1 = Some (r2, a) \<Longrightarrow> reg_extends ?r1 r2" for deps r2 a
    using build_args_extends [of "inst fuel call"] Suc.IH by blast
  from Suc.prems show ?case
  proof (cases rule: inst_SucE)
    case (args_fail deps r2 e)
    then show ?thesis using lower args by blast
  next
    case (built deps r2 kwargs r3)
    have r2: "reg_extends ?r1 r2" using args built(4) .
    then have none: "dget (r_instances r2) cls = None" using built(1) by (simp add: reg_extends_def)
    from construct_cases [OF built(5)] show ?thesis
    proof (elim disjE exE conjE)
      assume "r3 = r2" then show ?thesis using lower [OF r2] built by simp
    next
      fix f obj assume "r3 = r2\<lparr>r_instances := dset cls obj (r_instances r2)\<rparr>"
      then show ?thesis
        using r2 built(2,3,6) none
        by (auto simp: reg_extends_def discard_building_def map_le_def dom_def)
    qed
  qed simp_all
qed simp

text \<open>
  Wiring: every instance the plan covers was made by its own factory from exactly the
  singletons of its known dependencies.
\<close>

definition kwargs_of :: "('c, 'f, 'o) registry \<Rightarrow> 'c deps_map \<Rightarrow> (string, 'o) dict" where
  "kwargs_of r deps = map (\<lambda>(p, d). (p, the (dget (r_instances r) d))) (filter (\<lambda>(p, d). known r d) deps)"

definition deps_built :: "('c, 'f, 'o) registry \<Rightarrow> 'c deps_map \<Rightarrow> bool" where
  "deps_built r deps \<longleftrightarrow> (\<forall>d \<in> set (dvals deps). known r d \<longrightarrow> d \<in> dom (dget (r_instances r)))"

definition wired ::
  "('f \<Rightarrow> (string, 'o) dict \<Rightarrow> 'x + 'o) \<Rightarrow> ('c, 'f, 'o) registry \<Rightarrow> bool" where
  "wired call r \<longleftrightarrow>
     (\<forall>c obj deps. dget (r_instances r) c = Some obj \<longrightarrow> dget (r_plan r) c = Some deps \<longrightarrow>
        deps_built r deps \<and>
        (\<exists>f. dget (r_factory r) c = Some f \<and> call f (kwargs_of r deps) = Inr obj))"

lemma deps_built_extends:
  assumes "deps_built r deps" and "reg_extends r r'" and "reg_wf r"
  shows "deps_built r' deps" and "kwargs_of r' deps = kwargs_of r deps"
proof -
  have le: "dget (r_instances r) \<subseteq>\<^sub>m dget (r_instances r')" using assms(2) by (simp add: reg_extends_def)
  note known = reg_extends_known [OF assms(2,3)]
  have "dget (r_instances r') d = dget (r_instances r) d" if "d \<in> set (dvals deps)" "known r d" for d
    using assms(1) that le unfolding deps_built_def map_le_def by metis
  then show "kwargs_of r' deps = kwargs_of r deps"
    unfolding kwargs_of_def known by (force intro!: map_cong)
  show "deps_built r' deps"
    using assms(1) map_le_implies_dom_le [OF le] unfolding deps_built_def known by blast
qed

lemma build_args_kwargs:
  assumes "\<And>r d r' obj. rec r d = Some (r', Inr obj) \<Longrightarrow> reg_extends r r' \<and> dget (r_instances r') d = Some obj"
    and "\<And>r d r' res. rec r d = Some (r', res) \<Longrightarrow> reg_extends r r'"
    and "build_args rec ds r = Some (r', Inr kwargs)" and "reg_wf r"
  shows "deps_built r' ds \<and> kwargs = kwargs_of r' ds"
  using assms(3,4)
proof (induction ds arbitrary: r kwargs)
  case Nil
  then show ?case by (simp add: deps_built_def kwargs_of_def)
next
  case (Cons p ds)
  obtain param d where p: "p = (param, d)" by (cases p)
  from Cons.prems(1) [unfolded p] show ?case
  proof (cases rule: build_args_ConsE)
    case skip
    have "reg_extends r r'" by (rule build_args_extends [OF _ skip(2)]) (rule assms(2))
    from reg_extends_known [OF this Cons.prems(2)] have "\<not> known r' d" using skip(1) by simp
    with Cons.IH [OF skip(2) Cons.prems(2)] show ?thesis by (simp add: p deps_built_def kwargs_of_def)
  next
    case (built r1 obj kw)
    have ext: "reg_extends r r1" "dget (r_instances r1) d = Some obj" using assms(1) [OF built(2)] by auto
    have wf: "reg_wf r1" using reg_extends_wf [OF ext(1) Cons.prems(2)] .
    have ext': "reg_extends r1 r'" by (rule build_args_extends [OF _ built(3)]) (rule assms(2))
    have d: "dget (r_instances r') d = Some obj"
      using ext' ext(2) by (auto simp: reg_extends_def map_le_def dom_def)
    then have "known r' d" by (simp add: known_def)
    with Cons.IH [OF built(3) wf] built(4) d show ?thesis
      by (auto simp: p deps_built_def kwargs_of_def)
  qed auto
qed

lemma wired_building [simp]: "wired call (r\<lparr>r_building := b\<rparr>) = wired call r"
  by (simp add: wired_def deps_built_def kwargs_of_def known_def)

lemma reg_wf_building [simp]: "reg_wf (r\<lparr>r_building := b\<rparr>) = reg_wf r"
  by (simp add: reg_wf_def)

lemma build_args_invariant:
  assumes "\<And>r d r' res. rec r d = Some (r', res) \<Longrightarrow> I r \<Longrightarrow> I r'"
    and "build_args rec ds r = Some (r', res)" and "I r"
  shows "I r'"
  using assms(2,3)
proof (induction ds arbitrary: r res)
  case (Cons p ds)
  obtain param d where p: "p = (param, d)" by (cases p)
  from Cons.prems(1) [unfolded p] show ?case
    by (cases rule: build_args_ConsE) (use Cons.IH Cons.prems(2) assms(1) in blast)+
qed simp

lemma wired_construct:
  assumes "wired call r2" and "reg_wf r2" and "dget (r_plan r2) cls = Some deps"
    and "dget (r_instances r2) cls = None" and "deps_built r2 deps" and "dget (r_factory r2) cls = Some f"
    and "call f (kwargs_of r2 deps) = Inr obj"
  shows "wired call (r2\<lparr>r_instances := dset cls obj (r_instances r2)\<rparr>)" (is "wired call ?r")
proof -
  have ext: "reg_extends (r2\<lparr>r_building := []\<rparr>) (?r\<lparr>r_building := []\<rparr>)"
    using assms(3,4) by (auto simp: reg_extends_def map_le_def)
  have keep: "deps_built ?r ds \<and> kwargs_of ?r ds = kwargs_of r2 ds" if "deps_built r2 ds" for ds
    using deps_built_extends [OF _ ext, of ds] that assms(2)
    by (simp add: deps_built_def kwargs_of_def known_def)
  show ?thesis
    unfolding wired_def
  proof (intro allI impI)
    fix c o' ds assume c: "dget (r_instances ?r) c = Some o'" "dget (r_plan ?r) c = Some ds"
    show "deps_built ?r ds \<and> (\<exists>f. dget (r_factory ?r) c = Some f \<and> call f (kwargs_of ?r ds) = Inr o')"
    proof (cases "c = cls")
      case True
      with c assms(3,5,6,7) keep show ?thesis by auto
    next
      case False
      with c have "dget (r_instances r2) c = Some o'" "dget (r_plan r2) c = Some ds" by auto
      with assms(1) keep [of ds] show ?thesis by (auto simp: wired_def)
    qed
  qed
qed

lemma inst_result:
  "inst fuel call r cls = Some (r', Inr obj) \<Longrightarrow> dget (r_instances r') cls = Some obj"
proof (cases fuel)
  case (Suc n)
  assume "inst fuel call r cls = Some (r', Inr obj)"
  from this [unfolded Suc] show ?thesis
    by (cases rule: inst_SucE) (auto simp: discard_building_def dest!: construct_cases)
qed simp

lemma inst_wired:
  "inst fuel call r cls = Some (r', res) \<Longrightarrow> reg_wf r \<Longrightarrow> wired call r \<Longrightarrow> wired call r'"
proof (induction fuel arbitrary: r cls r' res)
  case (Suc fuel)
  let ?r1 = "r\<lparr>r_building := cls # r_building r\<rparr>"
  have args: "reg_extends ?r1 r2 \<and> reg_wf r2 \<and> wired call r2"
    if "build_args (inst fuel call) deps ?r1 = Some (r2, a)" for deps r2 a
  proof -
    have "reg_extends ?r1 r2" by (rule build_args_extends [OF inst_extends that])
    moreover have "reg_wf r2 \<and> wired call r2"
      by (rule build_args_invariant [OF _ that])
        (use Suc.IH Suc.prems(2,3) reg_extends_wf [OF inst_extends] in auto)
    ultimately show ?thesis by simp
  qed
  from Suc.prems(1) show ?case
  proof (cases rule: inst_SucE)
    case (args_fail deps r2 e)
    with args [OF args_fail(4)] show ?thesis by (simp add: discard_building_def)
  next
    case (built deps r2 kwargs r3)
    note r2 = args [OF built(4)]
    have kw: "deps_built r2 deps \<and> kwargs = kwargs_of r2 deps"
      by (rule build_args_kwargs [OF _ inst_extends built(4)])
        (use inst_extends inst_result Suc.prems(2) in auto)
    have plan: "dget (r_plan r2) cls = Some deps" and none: "dget (r_instances r2) cls = None"
      using r2 built(1,3) by (simp_all add: reg_extends_def)
    from construct_cases [OF built(5)] have "wired call r3"
    proof (elim disjE exE conjE)
      fix f obj assume "dget (r_factory r2) cls = Some f" "call f kwargs = Inr obj"
        "r3 = r2\<lparr>r_instances := dset cls obj (r_instances r2)\<rparr>"
      with wired_construct [of call r2 cls deps f obj] r2 kw plan none show ?thesis by simp
    qed (use r2 in simp)
    with built(6) show ?thesis by (simp add: discard_building_def)
  qed (use Suc.prems in auto)
qed simp

text \<open>An acyclic plan never raises the circularity or a missing-key error: only the application can.\<close>

definition plan_rel :: "('c, 'f, 'o) registry \<Rightarrow> ('c \<times> 'c) set" where
  "plan_rel r = {(c, d). \<exists>deps. dget (r_plan r) c = Some deps \<and> d \<in> set (dvals deps) \<and> d \<in> dom (dget (r_plan r))}"

definition app_only :: "('x build_exn + 'a) \<Rightarrow> bool" where
  "app_only res \<longleftrightarrow> (\<forall>e. res = Inl e \<longrightarrow> (\<exists>x. e = AppError x))"

lemma build_args_app_only:
  assumes "\<And>r d r' res. rec r d = Some (r', res) \<Longrightarrow> I r \<Longrightarrow> d \<in> D \<Longrightarrow> known r d \<Longrightarrow> I r' \<and> app_only res"
    and "build_args rec ds r = Some (r', res)" and "I r" and "set (dvals ds) \<subseteq> D"
  shows "app_only res"
  using assms(2-4)
proof (induction ds arbitrary: r res)
  case (Cons p ds)
  obtain param d where p: "p = (param, d)" by (cases p)
  from Cons.prems(1) [unfolded p] show ?case
  proof (cases rule: build_args_ConsE)
    case skip
    with Cons show ?thesis by auto
  next
    case (fail e)
    with assms(1) [OF fail(2)] Cons.prems p show ?thesis by (auto simp: app_only_def)
  next
    case (later r1 obj e)
    with assms(1) [OF later(2)] Cons.prems p Cons.IH [OF later(3)] show ?thesis
      by (auto simp: app_only_def)
  qed (simp add: app_only_def)
qed (simp add: app_only_def)

lemma inst_app_only:
  assumes "inst fuel call r cls = Some (r', res)" and "reg_wf r" and "known r cls"
    and "acyclic (plan_rel r)" and "\<forall>b \<in> set (r_building r). (b, cls) \<in> (plan_rel r)\<^sup>+"
  shows "app_only res"
  using assms
proof (induction fuel arbitrary: r cls r' res)
  case (Suc fuel)
  let ?r1 = "r\<lparr>r_building := cls # r_building r\<rparr>"
  have rel: "plan_rel ?r1 = plan_rel r" by (simp add: plan_rel_def)
  from Suc.prems(1) show ?case
  proof (cases rule: inst_SucE)
    case circular
    with Suc.prems(4,5) show ?thesis by (auto simp: acyclic_def)
  next
    case no_plan
    with Suc.prems(2,3) show ?thesis by (auto simp: known_def reg_wf_def)
  next
    case (args_fail deps r2 e)
    let ?I = "\<lambda>s. reg_extends ?r1 s \<and> reg_wf s"
    have "app_only (Inl e :: 'd build_exn + (string, 'c) dict)"
    proof (rule build_args_app_only [OF _ args_fail(4), where I = ?I and D = "set (dvals deps)"])
      fix s d s' res
      assume s: "inst fuel call s d = Some (s', res)" "?I s" "d \<in> set (dvals deps)" "known s d"
      have s_eq: "plan_rel s = plan_rel r" "r_building s = cls # r_building r"
        using s(2) by (simp_all add: reg_extends_def plan_rel_def)
      have "app_only res"
      proof (cases "d \<in> dom (dget (r_plan r))")
        case True
        then have "(cls, d) \<in> plan_rel r" using args_fail(3) s(3) by (auto simp: plan_rel_def)
        then have "\<forall>b \<in> set (r_building s). (b, d) \<in> (plan_rel s)\<^sup>+"
          using Suc.prems(5) s_eq by (auto intro: trancl_into_trancl)
        then show ?thesis using Suc.IH [OF s(1)] s(2,4) Suc.prems(4) s_eq by simp
      next
        case False
        have "dget (r_instances s) d \<noteq> None"
        proof -
          have "dom (dget (r_plan s)) = dom (dget (r_factory s))" using s(2) unfolding reg_wf_def by blast
          moreover have "r_plan s = r_plan r" using s(2) by (simp add: reg_extends_def)
          ultimately have "d \<notin> dom (dget (r_factory s))" using False by simp
          then show ?thesis using s(4) unfolding known_dom by blast
        qed
        with s(1) show ?thesis by (cases fuel) (auto simp: app_only_def split: option.splits)
      qed
      moreover have "reg_extends s s'" using inst_extends [OF s(1)] .
      ultimately show "?I s' \<and> app_only res"
        using s(2) reg_extends_trans reg_extends_wf by blast
    qed (use Suc.prems(2) in auto)
    with args_fail show ?thesis by (simp add: app_only_def)
  next
    case (built deps r2 kwargs r3)
    have "reg_extends ?r1 r2" by (rule build_args_extends [OF inst_extends built(4)])
    then have "dget (r_factory r2) cls \<noteq> None"
      using Suc.prems(2) built(3) by (auto simp: reg_extends_def reg_wf_def dom_def set_eq_iff)
    with built(5) show ?thesis
      by (auto simp: construct_def app_only_def split: option.splits sum.splits)
  qed (simp add: app_only_def)
qed simp

text \<open>Enough fuel: each nested call adds a class of the plan to the ones being built.\<close>

lemma build_args_total:
  assumes "\<And>r d. I r \<Longrightarrow> rec r d \<noteq> None" and "\<And>r d r' res. rec r d = Some (r', res) \<Longrightarrow> I r \<Longrightarrow> I r'"
    and "I r"
  shows "build_args rec ds r \<noteq> None"
  using assms(3)
proof (induction ds arbitrary: r)
  case (Cons p ds)
  obtain param d where p: "p = (param, d)" by (cases p)
  obtain r1 res where r1: "rec r d = Some (r1, res)" using assms(1) [OF Cons.prems] by fastforce
  then have "build_args rec ds r1 \<noteq> None" using Cons assms(2) by blast
  with Cons r1 p show ?case by (auto split: option.splits sum.splits)
qed simp

lemma inst_total:
  "card (dom (dget (r_plan r)) - set (r_building r)) < fuel \<Longrightarrow> inst fuel call r cls \<noteq> None"
proof (induction fuel arbitrary: r cls)
  case (Suc fuel)
  let ?r1 = "r\<lparr>r_building := cls # r_building r\<rparr>"
  show ?case
  proof (cases "dget (r_instances r) cls = None \<and> cls \<notin> set (r_building r) \<and> dget (r_plan r) cls \<noteq> None")
    case True
    have "cls \<in> dom (dget (r_plan r)) - set (r_building r)" using True by auto
    moreover have "dom (dget (r_plan r)) - set (r_building ?r1) =
        dom (dget (r_plan r)) - set (r_building r) - {cls}" by auto
    ultimately have less: "card (dom (dget (r_plan r)) - set (r_building ?r1)) < fuel"
      using Suc.prems card_Diff1_less [of "dom (dget (r_plan r)) - set (r_building r)" cls]
      by (simp add: finite_dom_map_of)
    have "build_args (inst fuel call) deps ?r1 \<noteq> None" for deps
    proof (rule build_args_total [where I = "\<lambda>s. r_plan s = r_plan r \<and> r_building s = r_building ?r1"])
      show "inst fuel call s d \<noteq> None"
        if "r_plan s = r_plan r \<and> r_building s = r_building ?r1" for s d
        using Suc.IH [of s d] less that by simp
      show "r_plan s' = r_plan r \<and> r_building s' = r_building ?r1"
        if "inst fuel call s d = Some (s', res)" "r_plan s = r_plan r \<and> r_building s = r_building ?r1"
        for s d s' res
        using inst_extends [OF that(1)] that(2) by (simp add: reg_extends_def)
    qed simp
    moreover obtain deps where "dget (r_plan r) cls = Some deps" using True by auto
    moreover from calculation(1) [of deps] obtain a where "build_args (inst fuel call) deps ?r1 = Some a" by fast
    ultimately show ?thesis using True by (auto simp: Let_def split: sum.splits prod.splits)
  qed (auto simp: Let_def split: option.splits)
qed simp

section \<open>A registry ready to serve\<close>

definition reg_ready ::
  "('f \<Rightarrow> (string, 'o) dict \<Rightarrow> 'x + 'o) \<Rightarrow> nat \<Rightarrow> ('c, 'f, 'o) registry \<Rightarrow> bool" where
  "reg_ready call fuel r \<longleftrightarrow> reg_wf r \<and> wired call r \<and> r_building r = [] \<and> acyclic (plan_rel r) \<and>
     card (dom (dget (r_plan r))) < fuel"

lemma registry_get_ready:
  assumes "reg_ready call fuel r" and "known r cls"
  obtains r' res where "registry_get fuel call r cls = Some (r', res)" and "reg_extends r r'"
    and "reg_ready call fuel r'" and "app_only res"
    and "\<And>x. res = Inr x \<Longrightarrow> dget (r_instances r') cls = Some x"
proof (cases "dget (r_instances r) cls")
  case (Some x)
  with assms(1) show ?thesis by (intro that [of r "Inr x"]) (auto simp: registry_get_def app_only_def)
next
  case None
  note ready = assms(1) [unfolded reg_ready_def]
  have eq: "registry_get fuel call r cls = inst fuel call r cls"
    using None assms(2) by (auto simp: registry_get_def known_def)
  have "inst fuel call r cls \<noteq> None" using inst_total [of r fuel call cls] ready by simp
  then obtain r' res where run: "inst fuel call r cls = Some (r', res)" by auto
  have ext: "reg_extends r r'" by (rule inst_extends [OF run])
  have "plan_rel r' = plan_rel r" using ext by (simp add: reg_extends_def plan_rel_def)
  then have "reg_ready call fuel r'"
    using ext ready reg_extends_wf [OF ext] inst_wired [OF run] by (simp add: reg_ready_def reg_extends_def)
  moreover have "app_only res" using inst_app_only [OF run _ assms(2)] ready by simp
  ultimately show ?thesis using that [OF _ ext] run eq inst_result by metis
qed

text \<open>A registry just after \<open>register\<close> is ready when the resolved map is acyclic.\<close>

lemma register_ready:
  assumes "distinct (dkeys resolved)" and "acyclic (dep_rel (known_deps resolved) (set (dkeys resolved)))"
    and "length resolved < fuel"
  shows "reg_ready call fuel (register ctor empty_registry resolved instances entries)"
proof -
  let ?r = "register ctor empty_registry resolved instances entries"
  note spec = register_spec [OF assms(1), of ctor instances entries]
  have plan: "dget (r_plan ?r) \<subseteq>\<^sub>m dget resolved" unfolding spec(4) by (auto simp: map_le_def restrict_map_def split: if_splits)
  have "plan_rel ?r \<subseteq> dep_rel (known_deps resolved) (set (dkeys resolved))"
    using plan by (fastforce simp: plan_rel_def dep_rel_def known_deps_def map_le_def dom_def
        dest: dget_Some_keys simp del: set_map)
  then have "acyclic (plan_rel ?r)" by (rule acyclic_subset [OF assms(2)])
  moreover have "wired call ?r" by (auto simp: wired_def spec(3,4) restrict_map_def split: if_splits)
  moreover have "card (dom (dget (r_plan ?r))) < fuel"
  proof -
    have "dom (dget (r_plan ?r)) \<subseteq> fst ` set resolved"
      using map_le_implies_dom_le [OF plan] by (simp add: dom_map_of_conv_image_fst)
    then have "card (dom (dget (r_plan ?r))) \<le> card (fst ` set resolved)" by (intro card_mono) auto
    also have "\<dots> \<le> length resolved" using card_image_le [of "set resolved" fst] card_length [of resolved] by simp
    finally show ?thesis using assms(3) by simp
  qed
  ultimately show ?thesis using spec(1,2) by (simp add: reg_ready_def)
qed

lemma wiredD:
  assumes "wired call r" and "dget (r_instances r) c = Some x" and "dget (r_plan r) c = Some deps"
  obtains f where "deps_built r deps" and "dget (r_factory r) c = Some f" and "call f (kwargs_of r deps) = Inr x"
  using assms unfolding wired_def by blast

end
