(* ===== verification/Switcher.thy ===== *)
theory Switcher
  imports Prelude
begin

text \<open>
  Dynamic binding at run time: the \<open>Switcher\<close> (\<open>xime/core/container/switcher.py\<close>), which
  holds for every dynamic interface its declared implementations and the selected one, and the
  attribute lookup of \<open>DynamicProxy\<close> (\<open>xime/core/container/proxy.py\<close>), which forwards to the
  singleton of the selected implementation.
\<close>

datatype 'c switch_error =
    BindingDisabled
  | NotDynamic 'c
  | InvalidSwitch 'c 'c "'c list"
  | SwitchKeyError
  | SwitchIndexError

record 'c switcher =
  sw_enabled :: bool
  sw_tuples :: "('c, 'c list) dict"
  sw_current :: "('c, 'c) dict"

text \<open>\<open>impls[0]\<close> of a tuple.\<close>

definition first_impl :: "'c list \<Rightarrow> 'c switch_error + 'c" where
  "first_impl impls = (case impls of [] \<Rightarrow> Inl SwitchIndexError | c # _ \<Rightarrow> Inr c)"

definition make_switcher :: "('c, 'c list) dict \<Rightarrow> bool \<Rightarrow> 'c switch_error + 'c switcher" where
  "make_switcher tuples enabled =
     sbind (smap (\<lambda>(i, impls). sbind (first_impl impls) (\<lambda>c. Inr (i, c))) tuples) (\<lambda>cur.
       Inr \<lparr>sw_enabled = enabled, sw_tuples = tuples, sw_current = cur\<rparr>)"

definition current :: "'c switcher \<Rightarrow> 'c \<Rightarrow> 'c switch_error + 'c" where
  "current s interface = dindex SwitchKeyError (sw_current s) interface"

definition require_enabled :: "'c switcher \<Rightarrow> 'c switch_error + unit" where
  "require_enabled s = (if \<not> sw_enabled s then Inl BindingDisabled else Inr ())"

definition require_known :: "'c switcher \<Rightarrow> 'c \<Rightarrow> 'c switch_error + 'c list" where
  "require_known s interface =
     (case dget (sw_tuples s) interface of None \<Rightarrow> Inl (NotDynamic interface) | Some impls \<Rightarrow> Inr impls)"

definition use_impl :: "'c switcher \<Rightarrow> 'c \<Rightarrow> 'c \<Rightarrow> 'c switch_error + 'c switcher" where
  "use_impl s interface implementation =
     sbind (require_enabled s) (\<lambda>_.
       sbind (require_known s interface) (\<lambda>impls.
         if implementation \<notin> set impls then Inl (InvalidSwitch interface implementation impls)
         else Inr (s\<lparr>sw_current := dset interface implementation (sw_current s)\<rparr>)))"

definition reset_one :: "'c \<times> 'c list \<Rightarrow> 'c switcher \<Rightarrow> 'c switch_error + 'c switcher" where
  "reset_one item s =
     (case item of (i, impls) \<Rightarrow>
        sbind (first_impl impls) (\<lambda>c. Inr (s\<lparr>sw_current := dset i c (sw_current s)\<rparr>)))"

definition reset :: "'c switcher \<Rightarrow> 'c option \<Rightarrow> 'c switch_error + 'c switcher" where
  "reset s interface =
     sbind (require_enabled s) (\<lambda>_.
       case interface of
         None \<Rightarrow> sfold reset_one (sw_tuples s) s
       | Some i \<Rightarrow> sbind (require_known s i) (\<lambda>impls. reset_one (i, impls) s))"

datatype 'c switch_op = Use 'c 'c | Reset "'c option"

fun switch_step :: "'c switch_op \<Rightarrow> 'c switcher \<Rightarrow> 'c switch_error + 'c switcher" where
  "switch_step (Use i c) s = use_impl s i c"
| "switch_step (Reset i) s = reset s i"

section \<open>The proxy\<close>

datatype ('c, 'e) proxy_error = AttributeError string | ProxySwitch "'c switch_error" | Resolve 'e

definition reserved :: "string list" where
  "reserved = [''post_construct'', ''pre_destroy'']"

text \<open>
  \<open>resolver\<close> is the container's \<open>get\<close> with the state it reads and updates; \<open>attr\<close> is the
  attribute access on the resolved object.
\<close>

definition proxy_getattr ::
  "'c switcher \<Rightarrow> ('r \<Rightarrow> 'c \<Rightarrow> 'r \<times> ('e + 'o)) \<Rightarrow> ('o \<Rightarrow> string \<Rightarrow> ('c, 'e) proxy_error + 'v)
    \<Rightarrow> 'c \<Rightarrow> string \<Rightarrow> 'r \<Rightarrow> 'r \<times> (('c, 'e) proxy_error + 'v)" where
  "proxy_getattr s resolver attr interface name r =
     (if name \<in> set reserved then (r, Inl (AttributeError name))
      else case current s interface of
             Inl e \<Rightarrow> (r, Inl (ProxySwitch e))
           | Inr impl \<Rightarrow>
               (case resolver r impl of
                  (r', Inl e) \<Rightarrow> (r', Inl (Resolve e))
                | (r', Inr target) \<Rightarrow> (r', attr target name)))"

section \<open>The invariant\<close>

text \<open>Every dynamic interface has a selected implementation, and it is one of those declared.\<close>

definition switcher_ok :: "'c switcher \<Rightarrow> bool" where
  "switcher_ok s \<longleftrightarrow> (\<forall>(i, impls) \<in> set (sw_tuples s). impls \<noteq> []) \<and>
     dom (dget (sw_current s)) = dom (dget (sw_tuples s)) \<and>
     (\<forall>i impls c. dget (sw_tuples s) i = Some impls \<longrightarrow> dget (sw_current s) i = Some c \<longrightarrow> c \<in> set impls)"

lemma first_impl_Inr: "first_impl impls = Inr c \<longleftrightarrow> (\<exists>cs. impls = c # cs)"
  by (auto simp: first_impl_def split: list.splits)

lemma require_known_Inr [err_simps]:
  "require_known s i = Inr impls \<longleftrightarrow> dget (sw_tuples s) i = Some impls"
  by (auto simp: require_known_def split: option.splits)

lemma require_enabled_Inr [err_simps]: "require_enabled s = Inr x \<longleftrightarrow> sw_enabled s"
  by (simp add: require_enabled_def)

lemma switcher_ok_set:
  assumes "switcher_ok s" and "dget (sw_tuples s) i = Some impls" and "c \<in> set impls"
  shows "switcher_ok (s\<lparr>sw_current := dset i c (sw_current s)\<rparr>)"
  using assms by (auto simp: switcher_ok_def)

lemma reset_one_ok:
  assumes "switcher_ok s" and "reset_one (i, impls) s = Inr s'" and "dget (sw_tuples s) i = Some impls"
  shows "switcher_ok s' \<and> sw_tuples s' = sw_tuples s \<and> sw_enabled s' = sw_enabled s"
  using assms switcher_ok_set [OF assms(1,3)] by (auto simp: reset_one_def sbind_eq_Inr first_impl_Inr)

lemma make_switcher_ok:
  assumes "distinct (dkeys tuples)" and "make_switcher tuples enabled = Inr s"
  shows "switcher_ok s" and "sw_tuples s = tuples" and "sw_enabled s = enabled"
proof -
  obtain cur where cur: "smap (\<lambda>(i, impls). sbind (first_impl impls) (\<lambda>c. Inr (i, c))) tuples = Inr cur"
    and s: "s = \<lparr>sw_enabled = enabled, sw_tuples = tuples, sw_current = cur\<rparr>"
    using assms(2) by (auto simp: make_switcher_def sbind_eq_Inr)
  from cur have "(\<forall>(i, impls) \<in> set tuples. impls \<noteq> []) \<and> dget cur = (\<lambda>i. map_option hd (dget tuples i))"
    by (induction tuples arbitrary: cur) (auto simp: sbind_eq_Inr first_impl_Inr fun_eq_iff)
  then show "switcher_ok s" "sw_tuples s = tuples" "sw_enabled s = enabled"
    by (auto simp: s switcher_ok_def dom_def dest!: map_of_SomeD)
qed

definition sw_ok_distinct :: "'c switcher \<Rightarrow> bool" where
  "sw_ok_distinct s \<longleftrightarrow> switcher_ok s \<and> distinct (dkeys (sw_tuples s))"

lemma reset_all_ok:
  assumes "sfold reset_one items s = Inr s'" and "switcher_ok s"
    and "\<forall>(i, impls) \<in> set items. dget (sw_tuples s) i = Some impls"
  shows "switcher_ok s' \<and> sw_tuples s' = sw_tuples s \<and> sw_enabled s' = sw_enabled s"
  using assms
proof (induction items arbitrary: s)
  case (Cons item items)
  then obtain i impls s1 where item: "item = (i, impls)" "reset_one (i, impls) s = Inr s1"
    "sfold reset_one items s1 = Inr s'" by (cases item) (auto simp: sbind_eq_Inr)
  with reset_one_ok [OF Cons.prems(2) item(2)] Cons.prems(3) Cons.IH [OF item(3)] show ?case by auto
qed simp

lemma switch_step_ok:
  assumes "sw_ok_distinct s" and "switch_step op s = Inr s'"
  shows "sw_ok_distinct s' \<and> sw_tuples s' = sw_tuples s \<and> sw_enabled s' = sw_enabled s"
proof -
  note ok = assms(1) [unfolded sw_ok_distinct_def]
  have "switcher_ok s' \<and> sw_tuples s' = sw_tuples s \<and> sw_enabled s' = sw_enabled s"
  proof (cases op)
    case (Use i c)
    with assms(2) ok show ?thesis
      by (auto simp: use_impl_def err_simps switcher_ok_set split: if_splits)
  next
    case (Reset i)
    have all: "\<forall>(i, impls) \<in> set (sw_tuples s). dget (sw_tuples s) i = Some impls"
      using ok by (auto simp: map_of_is_SomeI)
    from Reset assms(2) ok all show ?thesis
      by (auto simp: reset_def err_simps split: option.splits dest: reset_all_ok reset_one_ok)
  qed
  then show ?thesis using ok by (simp add: sw_ok_distinct_def)
qed

interpretation switching: guarded_object switch_step sw_ok_distinct "\<lambda>s. (sw_tuples s, sw_enabled s)"
  by unfold_locales (auto dest: switch_step_ok)

section \<open>Properties\<close>

text \<open>What one call means for the selection of an interface with the given implementations.\<close>

fun select :: "'c \<Rightarrow> 'c list \<Rightarrow> 'c switch_op \<Rightarrow> 'c \<Rightarrow> 'c" where
  "select i impls (Use j c) sel = (if j = i \<and> c \<in> set impls then c else sel)"
| "select i impls (Reset None) sel = hd impls"
| "select i impls (Reset (Some j)) sel = (if j = i then hd impls else sel)"

lemma reset_all_total:
  assumes "\<forall>(j, impls) \<in> set items. impls \<noteq> []"
  shows "\<exists>s'. sfold reset_one items s = Inr s' \<and>
    dget (sw_current s') = dget (sw_current s) ++ (\<lambda>j. map_option hd (dget (rev items) j))"
  using assms
proof (induction items arbitrary: s)
  case (Cons item items)
  obtain j impls where item: "item = (j, impls)" by (cases item)
  have "reset_one item s = Inr (s\<lparr>sw_current := dset j (hd impls) (sw_current s)\<rparr>)"
    using Cons.prems item by (cases impls) (auto simp: reset_one_def first_impl_def)
  moreover obtain s' where s': "sfold reset_one items (s\<lparr>sw_current := dset j (hd impls) (sw_current s)\<rparr>) = Inr s'"
    "dget (sw_current s') =
      dget (sw_current (s\<lparr>sw_current := dset j (hd impls) (sw_current s)\<rparr>)) ++ (\<lambda>j. map_option hd (dget (rev items) j))"
    using Cons.IH [of "s\<lparr>sw_current := dset j (hd impls) (sw_current s)\<rparr>"] Cons.prems that
    by (metis list.set_intros(2))
  moreover have "dget (sw_current s') = dget (sw_current s) ++ (\<lambda>j. map_option hd (dget (rev (item # items)) j))"
    unfolding s'(2) using item by (auto simp: fun_eq_iff map_add_def split: option.splits)
  ultimately show ?case by (intro exI [of _ s']) simp
qed (simp add: fun_eq_iff map_add_def)

lemma make_switcher_current:
  assumes "make_switcher tuples enabled = Inr s"
  shows "dget (sw_current s) = (\<lambda>i. map_option hd (dget tuples i))"
proof -
  obtain cur where cur: "smap (\<lambda>(i, impls). sbind (first_impl impls) (\<lambda>c. Inr (i, c))) tuples = Inr cur"
    and s: "sw_current s = cur"
    using assms by (auto simp: make_switcher_def sbind_eq_Inr)
  from cur show ?thesis unfolding s
    by (induction tuples arbitrary: cur) (auto simp: sbind_eq_Inr first_impl_Inr fun_eq_iff)
qed

lemma attempt_select:
  assumes "sw_ok_distinct s" and "sw_enabled s" and "dget (sw_tuples s) i = Some impls"
    and "dget (sw_current s) i = Some sel"
  shows "dget (sw_current (attempt switch_step op s)) i = Some (select i impls op sel)"
proof -
  have ok: "\<forall>(j, cs) \<in> set (sw_tuples s). cs \<noteq> []" and d: "distinct (dkeys (sw_tuples s))"
    using assms(1) by (simp_all add: sw_ok_distinct_def switcher_ok_def)
  have ne: "cs \<noteq> []" if "dget (sw_tuples s) j = Some cs" for j cs
    using ok that by (auto dest: map_of_SomeD)
  show ?thesis
  proof (cases "(i, impls, op, sel)" rule: select.cases)
    case (1 i' impls' j c sel')
    with assms(2-4) show ?thesis
      by (auto simp: attempt_def use_impl_def require_enabled_def require_known_def split: option.splits)
  next
    case (2 i' impls' sel')
    with assms reset_all_total [OF ok, of s] dget_rev_distinct [OF d] show ?thesis
      by (auto simp: attempt_def reset_def require_enabled_def)
  next
    case (3 i' impls' j sel')
    with assms ne show ?thesis
      by (auto simp: attempt_def reset_def require_enabled_def require_known_def reset_one_def
          first_impl_def split: option.splits list.splits)
  qed
qed

lemma attempt_disabled: "\<not> sw_enabled s \<Longrightarrow> attempt switch_step op s = s"
  by (cases op) (simp_all add: attempt_def use_impl_def reset_def require_enabled_def)

lemma run_select:
  assumes "sw_ok_distinct s" and "dget (sw_tuples s) i = Some impls" and "dget (sw_current s) i = Some sel"
  shows "dget (sw_current (run_ops switch_step ops s)) i =
    Some (if sw_enabled s then fold (select i impls) ops sel else sel)"
  using assms
proof (induction ops arbitrary: s sel)
  case (Cons op ops)
  from switching.attempt_inv [OF Cons.prems(1), of op]
  have inv: "sw_ok_distinct (attempt switch_step op s)"
    "sw_tuples (attempt switch_step op s) = sw_tuples s" "sw_enabled (attempt switch_step op s) = sw_enabled s"
    by auto
  show ?case
    using Cons.IH [OF inv(1)] Cons.prems inv attempt_select [OF Cons.prems(1) _ Cons.prems(2,3), of op]
      attempt_disabled [of s op] by (cases "sw_enabled s") auto
qed simp

lemma current_after:
  assumes "distinct (dkeys tuples)" and "make_switcher tuples enabled = Inr s"
    and "dget tuples i = Some impls"
  shows "current (run_ops switch_step ops s) i =
      Inr (if enabled then fold (select i impls) ops (hd impls) else hd impls)"
    and "sw_ok_distinct (run_ops switch_step ops s)" and "sw_tuples (run_ops switch_step ops s) = tuples"
proof -
  note made = make_switcher_ok [OF assms(1,2)]
  have inv: "sw_ok_distinct s" using made assms(1) by (simp add: sw_ok_distinct_def)
  from run_select [OF inv _ , of i impls "hd impls" ops] show "current (run_ops switch_step ops s) i =
      Inr (if enabled then fold (select i impls) ops (hd impls) else hd impls)"
    using made assms(3) make_switcher_current [OF assms(2)] by (simp add: current_def dindex_def)
  show "sw_ok_distinct (run_ops switch_step ops s)" "sw_tuples (run_ops switch_step ops s) = tuples"
    using switching.run_inv [OF inv, of ops] made by auto
qed

text \<open>
  C15: After any history of \<open>use\<close> and \<open>reset\<close> calls, failed ones included, on a switcher
  made from the declared tuples, \<open>current\<close> of a dynamic interface is the implementation the last
  successful call selected for it (its first declared implementation if there is none, or if
  dynamic binding is disabled), always one of the declared implementations, and the declared tuples
  are unchanged.
\<close>

theorem switcher_history:
  fixes ops :: "'c switch_op list"
  assumes "distinct (dkeys tuples)" and "make_switcher tuples enabled = Inr s"
    and "dget tuples i = Some impls"
  defines "t \<equiv> run_ops switch_step ops s"
    and "sel \<equiv> (if enabled then fold (select i impls) ops (hd impls) else hd impls)"
  shows "current t i = Inr sel \<and> sel \<in> set impls \<and> sw_tuples t = tuples"
proof -
  note after = current_after [OF assms(1-3), of ops, folded t_def sel_def]
  moreover have "sel \<in> set impls"
    using after assms(3) by (fastforce simp: sw_ok_distinct_def switcher_ok_def current_def dindex_Inr)
  ultimately show ?thesis by simp
qed

theorem switcher_history_witness:
  "\<exists>s. make_switcher [(9::nat, [1, 2])] True = Inr s \<and>
     current (run_ops switch_step [Use 9 2, Use 9 7, Use 8 1] s) 9 = Inr 2"
proof -
  obtain s where s: "make_switcher [(9::nat, [1, 2])] True = Inr s"
    by (simp add: make_switcher_def first_impl_def)
  show ?thesis using switcher_history [OF _ s, of 9 "[1, 2]" "[Use 9 2, Use 9 7, Use 8 1]"] s by simp
qed

text \<open>
  An attribute access on the proxy of a dynamic interface, after any history of switches,
  resolves the singleton of the selected implementation and reads the attribute there; the two
  lifecycle names are refused without resolving anything.
\<close>

theorem proxy_forwards:
  fixes ops :: "'c switch_op list"
  assumes "distinct (dkeys tuples)" and "make_switcher tuples enabled = Inr s"
    and "dget tuples i = Some impls"
  defines "t \<equiv> run_ops switch_step ops s"
    and "sel \<equiv> (if enabled then fold (select i impls) ops (hd impls) else hd impls)"
  shows "proxy_getattr t resolver attr i name r =
    (if name \<in> {''post_construct'', ''pre_destroy''} then (r, Inl (AttributeError name))
     else case resolver r sel of
            (r', Inl e) \<Rightarrow> (r', Inl (Resolve e))
          | (r', Inr target) \<Rightarrow> (r', attr target name))"
  using current_after(1) [OF assms(1-3), of ops]
  by (simp add: t_def sel_def proxy_getattr_def reserved_def)

theorem proxy_forwards_witness:
  "\<exists>s. make_switcher [(9::nat, [1, 2])] True = Inr s \<and>
     proxy_getattr (run_ops switch_step [Use 9 2] s) (\<lambda>r c. (r + 1, Inr c)) (\<lambda>c n. Inr (c, n)) 9 ''charge'' (0::nat) =
       (1, (Inr (2, ''charge'') :: (nat, nat) proxy_error + _)) \<and>
     proxy_getattr (run_ops switch_step [Use 9 2] s) (\<lambda>r c. (r + 1, Inr c)) (\<lambda>c n. Inr (c, n)) 9 ''pre_destroy'' (0::nat) =
       (0, (Inl (AttributeError ''pre_destroy'') :: (nat, nat) proxy_error + (nat \<times> string)))"
proof -
  obtain s where s: "make_switcher [(9::nat, [1, 2])] True = Inr s"
    by (simp add: make_switcher_def first_impl_def)
  have dist: "distinct (dkeys [(9::nat, [1::nat, 2])])" and impls: "dget [(9::nat, [1::nat, 2])] 9 = Some [1, 2]"
    by simp_all
  show ?thesis
    by (rule exI [of _ s], unfold proxy_forwards [OF dist s impls]) (use s in simp)
qed

end
