(* ===== verification/Container.thy ===== *)
theory Container
  imports Validator Registry Switcher
begin

text \<open>
  The container facade (\<open>xime/core/container/__init__.py\<close>) and the loader of config classes
  (\<open>xime/core/container/config_loader.py\<close>): configuration calls that are refused once built, the
  normalisation of bindings, the \<open>build\<close> pipeline in its order of steps, and the accessors.
  Objects are the application's own, switchers and proxies; switchers live in a store, since
  the injected singleton and the proxies alias one of them.
\<close>

section \<open>Config classes\<close>

record ('c, 'f) config_method =
  cm_hint_result :: hint_result
  cm_hints :: "(string, 'c) dict"
  cm_params :: "string list"
  cm_fn :: 'f

text \<open>The attributes in \<open>dir()\<close> order; \<open>None\<close> is an attribute that is not a function.\<close>

record ('c, 'f) config_class =
  cc_name :: string
  cc_init :: "(string \<times> param_kind) list"
  cc_ctor_error :: "string option"
  cc_attrs :: "(string \<times> ('c, 'f) config_method option) list"

definition public_functions :: "('c, 'f) config_class \<Rightarrow> (string \<times> ('c, 'f) config_method) list" where
  "public_functions cc =
     List.map_filter (\<lambda>(name, m). if take 1 name = ''_'' then None else map_option (Pair name) m) (cc_attrs cc)"

definition validate_no_constructor_params :: "('c, 'f) config_class \<Rightarrow> di_error + unit" where
  "validate_no_constructor_params cc =
     (if filter (\<lambda>(name, kind). name \<noteq> ''self'' \<and> kind \<noteq> VarPositional \<and> kind \<noteq> VarKeyword) (cc_init cc) \<noteq> []
      then Inl (ConfigClassError (cc_name cc) ''__init__'') else Inr ())"

definition extract_entry ::
  "('c, 'f) config_class \<Rightarrow> string \<Rightarrow> ('c, 'f) config_method \<Rightarrow> di_error + ('c, 'f) factory_entry option" where
  "extract_entry cc name m =
     (case cm_hint_result m of
        HintNameError \<Rightarrow> Inl (ConfigClassError (cc_name cc) name)
      | HintTypeError \<Rightarrow> Inr None
      | Hints \<Rightarrow>
          (case dget (cm_hints m) ''return'' of
             None \<Rightarrow> Inr None
           | Some ret \<Rightarrow>
               (let hints = ddel ''self'' (ddel ''return'' (cm_hints m));
                    params = filter (\<lambda>p. p \<noteq> ''self'') (cm_params m)
                in if \<not> list_all (\<lambda>p. dget hints p \<noteq> None) params then Inr None
                   else Inr (Some \<lparr>provided_type = ret, factory_fn = cm_fn m,
                     dependencies = map (\<lambda>p. (p, the (dget hints p))) params\<rparr>))))"

definition load_config :: "('c, 'f) config_class \<Rightarrow> di_error + ('c, 'f) factory_entry list" where
  "load_config cc =
     sbind (validate_no_constructor_params cc) (\<lambda>_.
       case cc_ctor_error cc of
         Some msg \<Rightarrow> Inl (ConfigCtorError msg)
       | None \<Rightarrow>
           sbind (smap (\<lambda>(name, m). extract_entry cc name m) (public_functions cc))
             (\<lambda>es. Inr (List.map_filter id es)))"

section \<open>The container\<close>

datatype ('c, 'a) obj = App 'a | SwitcherObj nat | ProxyObj 'c nat

record ('c, 'f, 'a) container =
  c_packages :: "string list"
  c_excluded :: "string list option"
  c_bindings :: "('c, 'c target) dict"
  c_instances :: "('c, ('c, 'a) obj) dict"
  c_explicit :: "'c list"
  c_config :: "('c, 'f) config_class list"
  c_rules :: "'c list list"
  c_dynamic :: bool
  c_registry :: "('c, 'f, ('c, 'a) obj) registry option"
  c_topo :: "'c list"
  c_switchers :: "'c switcher list"

definition new_container :: "('c, 'f, 'a) container" where
  "new_container = \<lparr>c_packages = [], c_excluded = None, c_bindings = [], c_instances = [],
     c_explicit = [], c_config = [], c_rules = [], c_dynamic = False, c_registry = None,
     c_topo = [], c_switchers = []\<rparr>"

text \<open>The program the container runs on: its classes, modules, constructors and call behaviour.\<close>

record ('c, 'f, 'a, 'x) world =
  w_env :: "'c class_env"
  w_importer :: "string \<Rightarrow> import_exc + 'c package"
  w_set_order :: "'c list \<Rightarrow> 'c list"
  w_ctor :: "'c \<Rightarrow> 'f"
  w_defaults :: "'f \<Rightarrow> string list"
  w_call :: "'f \<Rightarrow> (string, ('c, 'a) obj) dict \<Rightarrow> 'x + ('c, 'a) obj"
  w_switcher :: 'c

section \<open>Configuration\<close>

definition guard_not_built :: "string \<Rightarrow> ('c, 'f, 'a) container \<Rightarrow> di_error + unit" where
  "guard_not_built m c = (if c_registry c \<noteq> None then Inl (PyRuntimeError m) else Inr ())"

definition scan_packages :: "string list \<Rightarrow> ('c, 'f, 'a) container \<Rightarrow> di_error + ('c, 'f, 'a) container" where
  "scan_packages names c =
     sbind (guard_not_built ''scan'' c) (\<lambda>_. Inr (c\<lparr>c_packages := c_packages c @ names\<rparr>))"

definition exclude_segments :: "string list \<Rightarrow> ('c, 'f, 'a) container \<Rightarrow> di_error + ('c, 'f, 'a) container" where
  "exclude_segments names c =
     sbind (guard_not_built ''exclude_segments'' c) (\<lambda>_. Inr (c\<lparr>c_excluded := Some names\<rparr>))"

definition bind :: "('c, 'c target) dict \<Rightarrow> ('c, 'f, 'a) container \<Rightarrow> di_error + ('c, 'f, 'a) container" where
  "bind bindings c =
     sbind (guard_not_built ''bind'' c) (\<lambda>_. Inr (c\<lparr>c_bindings := dict_update (c_bindings c) bindings\<rparr>))"

definition dynamic_binding :: "bool \<Rightarrow> ('c, 'f, 'a) container \<Rightarrow> di_error + ('c, 'f, 'a) container" where
  "dynamic_binding enabled c =
     sbind (guard_not_built ''dynamic_binding'' c) (\<lambda>_. Inr (c\<lparr>c_dynamic := enabled\<rparr>))"

definition register_instance :: "'c \<Rightarrow> ('c, 'a) obj \<Rightarrow> ('c, 'f, 'a) container \<Rightarrow> di_error + ('c, 'f, 'a) container" where
  "register_instance cls instance_obj c =
     sbind (guard_not_built ''register_instance'' c)
       (\<lambda>_. Inr (c\<lparr>c_instances := dset cls instance_obj (c_instances c)\<rparr>))"

definition register_classes :: "'c list \<Rightarrow> ('c, 'f, 'a) container \<Rightarrow> di_error + ('c, 'f, 'a) container" where
  "register_classes classes c =
     sbind (guard_not_built ''register'' c) (\<lambda>_. Inr (c\<lparr>c_explicit := c_explicit c @ classes\<rparr>))"

definition configure :: "('c, 'f) config_class \<Rightarrow> ('c, 'f, 'a) container \<Rightarrow> di_error + ('c, 'f, 'a) container" where
  "configure cc c = sbind (guard_not_built ''configure'' c) (\<lambda>_. Inr (c\<lparr>c_config := c_config c @ [cc]\<rparr>))"

definition order_rules :: "'c list list \<Rightarrow> ('c, 'f, 'a) container \<Rightarrow> di_error + ('c, 'f, 'a) container" where
  "order_rules rules c = sbind (guard_not_built ''order'' c) (\<lambda>_. Inr (c\<lparr>c_rules := c_rules c @ rules\<rparr>))"

section \<open>Building\<close>

definition merge_unique :: "'c list \<Rightarrow> 'c list \<Rightarrow> 'c list" where
  "merge_unique base extra = fold (\<lambda>c result. if c \<in> set result then result else result @ [c]) extra base"

definition classify_binding ::
  "('c \<Rightarrow> string) \<Rightarrow> 'c \<times> 'c target \<Rightarrow> ('c, 'c) dict \<times> ('c, 'c list) dict
    \<Rightarrow> di_error + ('c, 'c) dict \<times> ('c, 'c list) dict" where
  "classify_binding nm item acc =
     (case (item, acc) of ((interface, t), (singles, tuples)) \<Rightarrow>
        (case t of
           Single c \<Rightarrow> Inr (dset interface c singles, tuples)
         | Tuple [] \<Rightarrow> Inl (PyValueError (nm interface))
         | Tuple [c] \<Rightarrow> Inr (dset interface c singles, tuples)
         | Tuple cs \<Rightarrow> Inr (singles, dset interface cs tuples)))"

definition dsetdefault :: "'k \<Rightarrow> 'v \<Rightarrow> ('k, 'v) dict \<Rightarrow> ('k, 'v) dict" where
  "dsetdefault k v d = (if dget d k = None then dset k v d else d)"

definition add_proxy ::
  "nat \<Rightarrow> 'c \<times> 'c list \<Rightarrow> ('c, ('c, 'a) obj) dict \<Rightarrow> ('c, ('c, 'a) obj) dict" where
  "add_proxy sw item insts = dsetdefault (fst item) (ProxyObj (fst item) sw) insts"

definition register_managed_impls :: "'c list \<Rightarrow> 'c list \<Rightarrow> 'c list" where
  "register_managed_impls impls explicit =
     fold (\<lambda>c result. if c \<in> set result then result else result @ [c]) impls explicit"

definition prepare_dynamic_binding ::
  "('c, 'f, 'a, 'x) world \<Rightarrow> ('c, 'f, 'a) container
    \<Rightarrow> ('c, 'f, 'a) container \<times> (di_error + ('c, 'c) dict \<times> ('c, 'c target) dict)" where
  "prepare_dynamic_binding w c =
     (case sfold (classify_binding (cls_name (w_env w))) (c_bindings c) ([], []) of
        Inl e \<Rightarrow> (c, Inl e)
      | Inr (singles, tuples) \<Rightarrow>
          (case make_switcher tuples (c_dynamic c) of
             Inl _ \<Rightarrow> (c, Inl (PyRuntimeError ''IndexError''))
           | Inr s \<Rightarrow>
               (let sw = length (c_switchers c);
                    insts = dsetdefault (w_switcher w) (SwitcherObj sw) (c_instances c);
                    c1 = c\<lparr>c_switchers := c_switchers c @ [s], c_instances := insts\<rparr>;
                    vb = map (\<lambda>(i, t). (i, Single t)) singles
                in if c_dynamic c \<and> tuples \<noteq> []
                   then (c1\<lparr>c_instances := fold (add_proxy sw) tuples insts,
                            c_explicit := register_managed_impls (concat (dvals tuples)) (c_explicit c)\<rparr>,
                         Inr (singles, dict_update vb (map (\<lambda>(i, impls). (i, Tuple impls)) tuples)))
                   else (c1, Inr (dict_update singles (map (\<lambda>(i, impls). (i, hd impls)) tuples),
                                  dict_update vb (map (\<lambda>(i, impls). (i, Single (hd impls))) tuples))))))"

definition resolve_factory_deps ::
  "'c class_env \<Rightarrow> ('c, 'c) dict \<Rightarrow> 'c deps_map \<Rightarrow> 'c deps_map" where
  "resolve_factory_deps env bindings deps = map (\<lambda>(param, t). (param, resolve_one env bindings t)) deps"

definition drop_unsatisfiable_optional_deps ::
  "('c, 'f, 'a, 'x) world \<Rightarrow> ('c, 'f) factory_entry list \<Rightarrow> 'c list \<Rightarrow> 'c resolved_map \<Rightarrow> 'c resolved_map" where
  "drop_unsatisfiable_optional_deps w entries available resolved =
     (let factory_fns = dict_of (map (\<lambda>e. (provided_type e, factory_fn e)) entries)
      in map (\<lambda>(cls, deps).
           (let optional = (case dget factory_fns cls of
                              Some f \<Rightarrow> w_defaults w f | None \<Rightarrow> init_defaults (w_env w) cls)
            in (cls, filter (\<lambda>(param, t). \<not> (param \<in> set optional \<and> t \<notin> set available)) deps))) resolved)"

definition resolve_all ::
  "('c, 'f, 'a, 'x) world \<Rightarrow> ('c, 'f, 'a) container \<Rightarrow> ('c, 'c) dict
    \<Rightarrow> di_error + 'c list \<times> ('c, 'f) factory_entry list \<times> 'c resolved_map" where
  "resolve_all w c rb =
     sbind (scan (w_env w) (w_importer w) (c_excluded c) (c_packages c)) (\<lambda>scanned.
       let all_classes = merge_unique scanned (c_explicit c)
       in sbind (smap load_config (c_config c)) (\<lambda>loaded.
         let entries = concat loaded
         in sbind (resolve (w_env w) rb all_classes) (\<lambda>resolved0.
           let resolved1 = fold (\<lambda>e. dset (provided_type e)
                 (resolve_factory_deps (w_env w) rb (dependencies e))) entries resolved0;
               available = all_classes @ dkeys (c_instances c) @ map provided_type entries
           in Inr (all_classes, entries, drop_unsatisfiable_optional_deps w entries available resolved1))))"

definition plan_build ::
  "('c, 'f, 'a, 'x) world \<Rightarrow> ('c, 'f, 'a) container \<Rightarrow> ('c, 'c) dict \<Rightarrow> ('c, 'c target) dict
    \<Rightarrow> di_error + 'c list \<times> ('c, 'f) factory_entry list \<times> 'c resolved_map" where
  "plan_build w c rb vb =
     sbind (resolve_all w c rb) (\<lambda>(all_classes, entries, resolved).
       sbind (lift_graph (make_graph (w_set_order w) resolved)) (\<lambda>graph.
         sbind (validate (w_env w) resolved graph vb all_classes (dkeys (c_instances c))
                  (map provided_type entries)) (\<lambda>_.
           sbind (lift_graph (if c_rules c \<noteq> []
                    then topological_order_with_rules (cls_name (w_env w)) (w_set_order w) graph (c_rules c)
                    else topological_order graph)) (\<lambda>order.
             Inr (order, entries, resolved)))))"

definition build ::
  "('c, 'f, 'a, 'x) world \<Rightarrow> ('c, 'f, 'a) container \<Rightarrow> ('c, 'f, 'a) container \<times> (di_error + unit)" where
  "build w c =
     (case guard_not_built ''build'' c of
        Inl e \<Rightarrow> (c, Inl e)
      | Inr _ \<Rightarrow>
          (case prepare_dynamic_binding w c of
             (c1, Inl e) \<Rightarrow> (c1, Inl e)
           | (c1, Inr (rb, vb)) \<Rightarrow>
               (case plan_build w c1 rb vb of
                  Inl e \<Rightarrow> (c1, Inl e)
                | Inr (order, entries, resolved) \<Rightarrow>
                    (c1\<lparr>c_topo := order,
                        c_registry := Some (register (w_ctor w) empty_registry resolved (c_instances c1) entries)\<rparr>,
                     Inr ()))))"

section \<open>Access\<close>

definition container_get ::
  "nat \<Rightarrow> ('c, 'f, 'a, 'x) world \<Rightarrow> ('c, 'f, 'a) container \<Rightarrow> 'c
    \<Rightarrow> (('c, 'f, 'a) container \<times> ('x build_exn + ('c, 'a) obj)) option" where
  "container_get fuel w c cls =
     (case c_registry c of
        None \<Rightarrow> Some (c, Inl NotBuilt)
      | Some r \<Rightarrow> map_option (\<lambda>(r', res). (c\<lparr>c_registry := Some r'\<rparr>, res)) (registry_get fuel (w_call w) r cls))"

fun get_each ::
  "nat \<Rightarrow> ('c, 'f, 'a, 'x) world \<Rightarrow> ('c, 'f, 'a) container \<Rightarrow> 'c list
    \<Rightarrow> (('c, 'f, 'a) container \<times> ('x build_exn + ('c, 'a) obj list)) option" where
  "get_each fuel w c [] = Some (c, Inr [])"
| "get_each fuel w c (cls # rest) =
     (case container_get fuel w c cls of
        None \<Rightarrow> None
      | Some (c1, Inl e) \<Rightarrow> Some (c1, Inl e)
      | Some (c1, Inr x) \<Rightarrow>
          (case get_each fuel w c1 rest of
             None \<Rightarrow> None
           | Some (c2, Inl e) \<Rightarrow> Some (c2, Inl e)
           | Some (c2, Inr xs) \<Rightarrow> Some (c2, Inr (x # xs))))"

definition get_all_in_order ::
  "nat \<Rightarrow> ('c, 'f, 'a, 'x) world \<Rightarrow> ('c, 'f, 'a) container
    \<Rightarrow> (('c, 'f, 'a) container \<times> ('x build_exn + ('c, 'a) obj list)) option" where
  "get_all_in_order fuel w c =
     (case c_registry c of
        None \<Rightarrow> Some (c, Inl NotBuilt)
      | Some _ \<Rightarrow>
          map_option (\<lambda>(c', res). (c', map_sum id (\<lambda>xs. dvals (c_instances c) @ xs) res))
            (get_each fuel w c (c_topo c)))"

section \<open>Configuration calls\<close>

datatype ('c, 'f, 'a) config_op =
    Scan "string list"
  | ExcludeSegments "string list"
  | Bind "('c, 'c target) dict"
  | DynamicBinding bool
  | RegisterInstance 'c "('c, 'a) obj"
  | RegisterClasses "'c list"
  | Configure "('c, 'f) config_class"
  | Order "'c list list"

fun config_step ::
  "('c, 'f, 'a) config_op \<Rightarrow> ('c, 'f, 'a) container \<Rightarrow> di_error + ('c, 'f, 'a) container" where
  "config_step (Scan names) c = scan_packages names c"
| "config_step (ExcludeSegments names) c = exclude_segments names c"
| "config_step (Bind bindings) c = bind bindings c"
| "config_step (DynamicBinding enabled) c = dynamic_binding enabled c"
| "config_step (RegisterInstance cls x) c = register_instance cls x c"
| "config_step (RegisterClasses classes) c = register_classes classes c"
| "config_step (Configure cc) c = configure cc c"
| "config_step (Order rules) c = order_rules rules c"

lemmas config_defs = scan_packages_def exclude_segments_def bind_def dynamic_binding_def
  register_instance_def register_classes_def configure_def order_rules_def

definition container_ok :: "('c, 'f, 'a) container \<Rightarrow> bool" where
  "container_ok c \<longleftrightarrow> distinct (dkeys (c_bindings c)) \<and> distinct (dkeys (c_instances c))"

lemma config_step_ok:
  assumes "config_step op c = Inr c'"
  shows "container_ok c \<Longrightarrow> container_ok c'"
    and "(c_registry c', c_topo c', c_switchers c') = (c_registry c, c_topo c, c_switchers c)"
  using assms by (cases op; auto simp: config_defs sbind_eq_Inr container_ok_def
      distinct_dict_update distinct_dset simp del: set_map distinct_map)+

interpretation configuring: guarded_object config_step container_ok
  "\<lambda>c. (c_registry c, c_topo c, c_switchers c)"
  by unfold_locales (auto dest: config_step_ok)

lemma built_refuses:
  assumes "c_registry c = Some r"
  shows "\<exists>m. config_step op c = Inl (PyRuntimeError m)"
  using assms by (cases op) (simp_all add: config_defs guard_not_built_def)

section \<open>Normalising the bindings\<close>

text \<open>What a binding target means: one implementation, or several to switch between.\<close>

fun single_target :: "'c target \<Rightarrow> 'c option" where
  "single_target (Single c) = Some c"
| "single_target (Tuple [c]) = Some c"
| "single_target (Tuple cs) = None"

fun multi_target :: "'c target \<Rightarrow> 'c list option" where
  "multi_target (Tuple (c # d # cs)) = Some (c # d # cs)"
| "multi_target t = None"

lemma classify_binding_cases:
  "classify_binding nm (i, t) (singles, tuples) =
     (if t = Tuple [] then Inl (PyValueError (nm i))
      else Inr (case single_target t of Some c \<Rightarrow> dset i c singles | None \<Rightarrow> singles,
                case multi_target t of Some cs \<Rightarrow> dset i cs tuples | None \<Rightarrow> tuples))"
  by (cases t rule: multi_target.cases) (auto simp: classify_binding_def)

lemma multi_target_nonempty: "multi_target t = Some cs \<Longrightarrow> cs \<noteq> []"
  by (cases t rule: multi_target.cases) auto

lemma classify_all:
  assumes "sfold (classify_binding nm) bs (singles, tuples) = Inr (singles', tuples')" and "distinct (dkeys bs)"
  shows "dget singles' = dget singles ++ (\<lambda>i. Option.bind (dget bs i) single_target)"
    and "dget tuples' = dget tuples ++ (\<lambda>i. Option.bind (dget bs i) multi_target)"
    and "distinct (dkeys tuples) \<Longrightarrow> distinct (dkeys tuples')"
    and "distinct (dkeys singles) \<Longrightarrow> distinct (dkeys singles')"
proof -
  have "dget singles' = dget singles ++ (\<lambda>i. Option.bind (dget bs i) single_target) \<and>
    dget tuples' = dget tuples ++ (\<lambda>i. Option.bind (dget bs i) multi_target) \<and>
    (distinct (dkeys tuples) \<longrightarrow> distinct (dkeys tuples')) \<and>
    (distinct (dkeys singles) \<longrightarrow> distinct (dkeys singles'))"
    using assms
  proof (induction bs arbitrary: singles tuples)
    case Nil
    then show ?case by (simp add: map_add_def fun_eq_iff)
  next
    case (Cons b bs)
    obtain i t where b: "b = (i, t)" by (cases b)
    have fresh: "dget bs i = None" using Cons.prems(2) b by (simp add: dget_None_keys)
    let ?s = "case single_target t of Some c \<Rightarrow> dset i c singles | None \<Rightarrow> singles"
    let ?t = "case multi_target t of Some cs \<Rightarrow> dset i cs tuples | None \<Rightarrow> tuples"
    have rest: "sfold (classify_binding nm) bs (?s, ?t) = Inr (singles', tuples')"
      using Cons.prems(1) unfolding b sfold.simps classify_binding_cases by (simp split: if_splits)
    have keys: "distinct (dkeys tuples) \<Longrightarrow> distinct (dkeys ?t)" "distinct (dkeys singles) \<Longrightarrow> distinct (dkeys ?s)"
      by (simp_all add: distinct_update split: option.splits del: distinct_map)
    have d: "distinct (dkeys bs)" using Cons.prems(2) by simp
    have "dget ?s ++ (\<lambda>i. Option.bind (dget bs i) single_target) =
        dget singles ++ (\<lambda>j. Option.bind (dget (b # bs) j) single_target)"
      "dget ?t ++ (\<lambda>i. Option.bind (dget bs i) multi_target) =
        dget tuples ++ (\<lambda>j. Option.bind (dget (b # bs) j) multi_target)"
      using fresh b by (auto simp: fun_eq_iff map_add_def split: option.splits)
    with Cons.IH [OF rest d] keys show ?case by simp
  qed
  then show "dget singles' = dget singles ++ (\<lambda>i. Option.bind (dget bs i) single_target)"
    and "dget tuples' = dget tuples ++ (\<lambda>i. Option.bind (dget bs i) multi_target)"
    and "distinct (dkeys tuples) \<Longrightarrow> distinct (dkeys tuples')"
    and "distinct (dkeys singles) \<Longrightarrow> distinct (dkeys singles')"
    by blast+
qed

lemma fold_distinct_append:
  "set (fold (\<lambda>c result. if c \<in> set result then result else result @ [c]) xs ys) = set ys \<union> set xs"
  by (induction xs arbitrary: ys) auto

lemma fold_add_proxy:
  "dget (fold (add_proxy sw) tuples insts) =
     (\<lambda>i. case dget insts i of Some x \<Rightarrow> Some x
          | None \<Rightarrow> if dget tuples i = None then None else Some (ProxyObj i sw))"
proof (induction tuples arbitrary: insts)
  case (Cons t tuples)
  then show ?case by (cases t) (auto simp: add_proxy_def dsetdefault_def fun_eq_iff split: option.splits)
qed (simp add: fun_eq_iff split: option.splits)

lemma distinct_fold_add_proxy:
  "distinct (dkeys insts) \<Longrightarrow> distinct (dkeys (fold (add_proxy sw) tuples insts))"
  by (induction tuples arbitrary: insts)
    (simp_all add: add_proxy_def dsetdefault_def distinct_update del: distinct_map)

definition resolver_target :: "bool \<Rightarrow> 'c target \<Rightarrow> 'c option" where
  "resolver_target dyn t =
     (case single_target t of Some c \<Rightarrow> Some c | None \<Rightarrow> if dyn then None else map_option hd (multi_target t))"

definition validation_target :: "bool \<Rightarrow> 'c target \<Rightarrow> 'c target option" where
  "validation_target dyn t =
     (case single_target t of Some c \<Rightarrow> Some (Single c)
      | None \<Rightarrow> map_option (\<lambda>cs. if dyn then Tuple cs else Single (hd cs)) (multi_target t))"

lemma target_cases: "t = Tuple [] \<or> (single_target t = None) = (multi_target t \<noteq> None)"
  by (cases t rule: multi_target.cases) auto

lemma prepare_cases:
  assumes "container_ok c" and "prepare_dynamic_binding w c = (c1, Inr (rb, vb))"
  obtains singles tuples s where
    "dget singles = (\<lambda>i. Option.bind (dget (c_bindings c) i) single_target)"
    "dget tuples = (\<lambda>i. Option.bind (dget (c_bindings c) i) multi_target)"
    "distinct (dkeys tuples)" "distinct (dkeys singles)" "make_switcher tuples (c_dynamic c) = Inr s"
    "c1 = c\<lparr>c_switchers := c_switchers c @ [s],
       c_instances := (let insts = dsetdefault (w_switcher w) (SwitcherObj (length (c_switchers c))) (c_instances c)
         in if c_dynamic c then fold (add_proxy (length (c_switchers c))) tuples insts else insts),
       c_explicit := (if c_dynamic c then register_managed_impls (concat (dvals tuples)) (c_explicit c)
         else c_explicit c)\<rparr>"
    "rb = (if c_dynamic c then singles else dict_update singles (map (\<lambda>(i, cs). (i, hd cs)) tuples))"
    "vb = dict_update (map (\<lambda>(i, t). (i, Single t)) singles)
       (map (\<lambda>(i, cs). (i, if c_dynamic c then Tuple cs else Single (hd cs))) tuples)"
proof -
  obtain singles tuples where st: "sfold (classify_binding (cls_name (w_env w))) (c_bindings c) ([], []) = Inr (singles, tuples)"
    using assms(2) by (auto simp: prepare_dynamic_binding_def split: sum.splits)
  obtain s where s: "make_switcher tuples (c_dynamic c) = Inr s"
    using assms(2) st by (auto simp: prepare_dynamic_binding_def split: sum.splits)
  have d: "distinct (dkeys (c_bindings c))" using assms(1) by (simp add: container_ok_def)
  note all = classify_all [OF st d]
  have run: "prepare_dynamic_binding w c = (c1, Inr (rb, vb))" by (rule assms(2))
  show ?thesis
  proof (rule that [of singles tuples s])
    show "dget singles = (\<lambda>i. Option.bind (dget (c_bindings c) i) single_target)"
      "dget tuples = (\<lambda>i. Option.bind (dget (c_bindings c) i) multi_target)"
      "distinct (dkeys tuples)" "distinct (dkeys singles)"
      using all by (simp_all add: map_add_def)
    show "make_switcher tuples (c_dynamic c) = Inr s" by (rule s)
  qed (use run st s in \<open>auto simp: prepare_dynamic_binding_def Let_def register_managed_impls_def
      dict_update_def split: if_splits\<close>)
qed

lemma prepare_frame:
  assumes "container_ok c" and "prepare_dynamic_binding w c = (c1, Inr (rb, vb))"
  shows "container_ok c1" and "c_registry c1 = c_registry c" and "c_rules c1 = c_rules c"
    and "c_topo c1 = c_topo c"
proof -
  have "distinct (dkeys (dsetdefault k v d))" if "distinct (dkeys d)" for k v and d :: "('a, ('a, 'c) obj) dict"
    using that by (simp add: dsetdefault_def distinct_update del: distinct_map)
  moreover obtain tuples s where "c1 = c\<lparr>c_switchers := c_switchers c @ [s],
       c_instances := (let insts = dsetdefault (w_switcher w) (SwitcherObj (length (c_switchers c))) (c_instances c)
         in if c_dynamic c then fold (add_proxy (length (c_switchers c))) tuples insts else insts),
       c_explicit := (if c_dynamic c then register_managed_impls (concat (dvals tuples)) (c_explicit c)
         else c_explicit c)\<rparr>"
    by (rule prepare_cases [OF assms]) blast
  ultimately show "container_ok c1" "c_registry c1 = c_registry c" "c_rules c1 = c_rules c" "c_topo c1 = c_topo c"
    using assms(1) by (simp_all add: container_ok_def Let_def distinct_fold_add_proxy del: distinct_map)
qed

lemma prepare_spec:
  assumes "container_ok c" and "prepare_dynamic_binding w c = (c1, Inr (rb, vb))"
  shows "dget rb = (\<lambda>i. Option.bind (dget (c_bindings c) i) (resolver_target (c_dynamic c)))"
    and "dget vb = (\<lambda>i. Option.bind (dget (c_bindings c) i) (validation_target (c_dynamic c)))"
    and "dget (c_instances c1) = (\<lambda>i. case dget (c_instances c) i of Some x \<Rightarrow> Some x | None \<Rightarrow>
           if i = w_switcher w then Some (SwitcherObj (length (c_switchers c)))
           else if c_dynamic c \<and> Option.bind (dget (c_bindings c) i) multi_target \<noteq> None
             then Some (ProxyObj i (length (c_switchers c))) else None)"
    and "set (c_explicit c1) = set (c_explicit c) \<union> (if c_dynamic c then
           {x. \<exists>i t cs. dget (c_bindings c) i = Some t \<and> multi_target t = Some cs \<and> x \<in> set cs} else {})"
proof -
  let ?sw = "length (c_switchers c)"
  obtain singles tuples s where sg: "dget singles = (\<lambda>i. Option.bind (dget (c_bindings c) i) single_target)"
    and tp: "dget tuples = (\<lambda>i. Option.bind (dget (c_bindings c) i) multi_target)"
    and d: "distinct (dkeys tuples)"
    and c1: "c_instances c1 = (let insts = dsetdefault (w_switcher w) (SwitcherObj ?sw) (c_instances c)
         in if c_dynamic c then fold (add_proxy ?sw) tuples insts else insts)"
       "c_explicit c1 = (if c_dynamic c then register_managed_impls (concat (dvals tuples)) (c_explicit c)
         else c_explicit c)"
    and rb: "rb = (if c_dynamic c then singles else dict_update singles (map (\<lambda>(i, cs). (i, hd cs)) tuples))"
    and vb: "vb = dict_update (map (\<lambda>(i, t). (i, Single t)) singles)
       (map (\<lambda>(i, cs). (i, if c_dynamic c then Tuple cs else Single (hd cs))) tuples)"
    by (rule prepare_cases [OF assms]) simp
  have upd: "dget (dict_update e (map (\<lambda>(i, cs). (i, f cs)) tuples)) = dget e ++ (\<lambda>i. map_option f (dget tuples i))"
    for e :: "('a, 'v) dict" and f
    by (subst dget_dict_update_distinct) (simp_all add: d dget_map_snd [abs_def] del: distinct_map map_map)
  have none: "multi_target t = None" if "single_target t = Some x" for t :: "'a target" and x
    using target_cases [of t] that by auto
  show "dget rb = (\<lambda>i. Option.bind (dget (c_bindings c) i) (resolver_target (c_dynamic c)))"
    unfolding rb by (auto simp: fun_eq_iff upd sg tp map_add_def resolver_target_def none
        split: option.splits Option.bind_splits)
  show "dget vb = (\<lambda>i. Option.bind (dget (c_bindings c) i) (validation_target (c_dynamic c)))"
    unfolding vb upd dget_map_snd [abs_def] sg tp
    by (auto simp: fun_eq_iff map_add_def validation_target_def none
        split: option.splits Option.bind_splits)
  show "dget (c_instances c1) = (\<lambda>i. case dget (c_instances c) i of Some x \<Rightarrow> Some x | None \<Rightarrow>
           if i = w_switcher w then Some (SwitcherObj ?sw)
           else if c_dynamic c \<and> Option.bind (dget (c_bindings c) i) multi_target \<noteq> None
             then Some (ProxyObj i ?sw) else None)"
    unfolding c1 Let_def tp [symmetric, THEN fun_cong]
    by (auto simp: fun_eq_iff fold_add_proxy dsetdefault_def tp split: option.splits)
  have vals: "set (concat (dvals tuples)) = {x. \<exists>i cs. dget tuples i = Some cs \<and> x \<in> set cs}"
    using d by (force simp: in_set_conv_decomp dest: map_of_SomeD intro: map_of_is_SomeI)
  show "set (c_explicit c1) = set (c_explicit c) \<union> (if c_dynamic c then
           {x. \<exists>i t cs. dget (c_bindings c) i = Some t \<and> multi_target t = Some cs \<and> x \<in> set cs} else {})"
    unfolding c1 register_managed_impls_def
    by (cases "c_dynamic c"; simp only: if_True if_False fold_distinct_append vals tp)
      (auto simp: bind_eq_Some_conv)
qed

section \<open>What a successful build guarantees\<close>

lemma order_rules_Inr:
  assumes "wf_graph g" and "py_set_order so" and "topological_order_with_rules nm so g rules = Inr res"
  shows "distinct res" and "set res = g_nodes g" and "dep_sorted (neighbors (g_edges g)) res"
proof -
  have sub: "set (concat rules) \<subseteq> g_nodes g"
  proof (rule ccontr)
    assume "\<not> set (concat rules) \<subseteq> g_nodes g"
    then have "filter (\<lambda>c. c \<notin> g_nodes g) (concat rules) \<noteq> []"
      by (auto simp: filter_empty_conv simp del: set_concat)
    with assms(3) show False by (simp add: topological_order_with_rules_def Let_def)
  qed
  have "distinct res \<and> set res = g_nodes g \<and> dep_sorted (order_deps g rules) res"
    using topological_order_with_rules_spec [OF assms(1,2) sub, of nm] assms(3) by auto
  then show "distinct res" "set res = g_nodes g" "dep_sorted (neighbors (g_edges g)) res"
    by (auto simp: dep_sorted_def order_deps_def)
qed

lemma distinct_fold_dset:
  "distinct (dkeys d) \<Longrightarrow> distinct (dkeys (fold (\<lambda>e. dset (k e) (v e)) es d))"
  by (induction es arbitrary: d) (simp_all add: distinct_update del: distinct_map)

lemma keys_fold_dset: "set (dkeys (fold (\<lambda>e. dset (k e) (v e)) es d)) = set (dkeys d) \<union> k ` set es"
  by (induction es arbitrary: d) auto

lemma keys_drop_optional: "dkeys (drop_unsatisfiable_optional_deps w entries available resolved) = dkeys resolved"
  by (simp add: drop_unsatisfiable_optional_deps_def Let_def case_prod_beta comp_def)

lemma smap_keys:
  "smap (\<lambda>x. sbind (f x) (\<lambda>y. Inr (x, y))) xs = Inr items \<Longrightarrow> map fst items = xs"
  by (induction xs arbitrary: items) (auto simp: sbind_eq_Inr)

lemma set_keys_dict_of: "set (dkeys (dict_of items)) = set (map fst items)"
proof -
  have "set (dkeys (fold (\<lambda>(k, v). dset k v) items d)) = set (dkeys d) \<union> set (map fst items)" for d
    by (induction items arbitrary: d) (simp_all add: set_dkeys_dset case_prod_beta del: set_map)
  from this [of "[]"] show ?thesis by (simp add: dict_of_def)
qed

lemma resolve_all_keys:
  assumes "resolve_all w c rb = Inr (all_classes, entries, resolved)"
  shows "distinct (dkeys resolved)"
    and "set (dkeys resolved) = set all_classes \<union> provided_type ` set entries"
proof -
  obtain resolved0 resolved1 available where r: "resolve (w_env w) rb all_classes = Inr resolved0"
    "resolved1 = fold (\<lambda>e. dset (provided_type e) (resolve_factory_deps (w_env w) rb (dependencies e))) entries resolved0"
    "resolved = drop_unsatisfiable_optional_deps w entries available resolved1"
    using assms by (auto simp: resolve_all_def sbind_eq_Inr Let_def)
  have "set (dkeys resolved0) = set all_classes"
    using r(1) by (auto simp: resolve_def sbind_eq_Inr set_keys_dict_of dest!: smap_keys simp del: set_map)
  then show "set (dkeys resolved) = set all_classes \<union> provided_type ` set entries"
    unfolding r(3) keys_drop_optional r(2) keys_fold_dset by simp
  show "distinct (dkeys resolved)"
    unfolding r(3) keys_drop_optional r(2) using resolve_keys [OF r(1)] by (rule distinct_fold_dset)
qed

lemma plan_build_ok:
  assumes "plan_build w c rb vb = Inr (order, entries, resolved)" and so: "py_set_order (w_set_order w)"
  shows "distinct (dkeys resolved)" and "distinct order" and "set order = set (dkeys resolved)"
    and "dep_sorted (known_deps resolved) order"
    and "acyclic (dep_rel (known_deps resolved) (set (dkeys resolved)))"
    and "bindings_complete (w_env w) vb"
    and "all_deps resolved \<subseteq> set (dkeys resolved) \<union> set (dkeys (c_instances c))"
proof -
  have lift: "lift_graph m = Inr x \<longleftrightarrow> m = Inr x" for m :: "graph_error + 'z" and x
    by (cases m) simp_all
  obtain all_classes graph where run: "resolve_all w c rb = Inr (all_classes, entries, resolved)"
    "make_graph (w_set_order w) resolved = Inr graph"
    "validate (w_env w) resolved graph vb all_classes (dkeys (c_instances c)) (map provided_type entries) = Inr ()"
    "(if c_rules c \<noteq> [] then topological_order_with_rules (cls_name (w_env w)) (w_set_order w) graph (c_rules c)
      else topological_order graph) = Inr order"
    using assms(1) by (auto simp: plan_build_def sbind_eq_Inr lift split: if_splits)
  show dist: "distinct (dkeys resolved)" by (rule resolve_all_keys [OF run(1)])
  obtain g where g: "make_graph (w_set_order w) resolved = Inr g" "wf_graph g" "g_order g = dkeys resolved"
    "\<And>n. set (neighbors (g_edges g) n) = set (known_deps resolved n)"
    by (rule make_graph_deps [OF dist so]) blast
  have graph: "graph = g" using run(2) g(1) by simp
  have valid: "acyclic (dep_rel (neighbors (g_edges g)) (g_nodes g))" "bindings_complete (w_env w) vb"
    "\<forall>d \<in> all_deps resolved. supplied (w_env w) all_classes (dkeys (c_instances c)) (map provided_type entries) d"
    using run(3) unfolding graph validate_iff [OF g(2)] by blast+
  show ac: "acyclic (dep_rel (known_deps resolved) (set (dkeys resolved)))"
    using valid(1) by (simp add: g(3) dep_rel_cong [of _ _ "known_deps resolved", OF g(4)] del: set_map)
  show "bindings_complete (w_env w) vb" by (rule valid(2))
  show "all_deps resolved \<subseteq> set (dkeys resolved) \<union> set (dkeys (c_instances c))"
    using valid(3) resolve_all_keys(2) [OF run(1)]
    unfolding supplied_def set_map [of provided_type] by blast
  have "distinct order \<and> set order = g_nodes g \<and> dep_sorted (neighbors (g_edges g)) order"
  proof (cases "c_rules c = []")
    case True
    with run(4) topological_order_spec [OF g(2)] valid(1) show ?thesis by (auto simp: graph)
  next
    case False
    with run(4) order_rules_Inr [OF g(2) so] show ?thesis by (auto simp: graph)
  qed
  then show "distinct order" "set order = set (dkeys resolved)" "dep_sorted (known_deps resolved) order"
    by (simp_all add: g(3) dep_sorted_cong [of _ _ "known_deps resolved", OF g(4)])
qed

lemma build_cases:
  assumes "build w c = (c', Inr ())"
  obtains c1 rb vb order entries resolved where "c_registry c = None"
    "prepare_dynamic_binding w c = (c1, Inr (rb, vb))" "plan_build w c1 rb vb = Inr (order, entries, resolved)"
    "c' = c1\<lparr>c_topo := order,
       c_registry := Some (register (w_ctor w) empty_registry resolved (c_instances c1) entries)\<rparr>"
  using assms
  by (auto simp: build_def guard_not_built_def split: if_splits sum.splits prod.splits)

text \<open>The state of the registry the accessors keep.\<close>

definition reg_of :: "('c, 'f, 'a) container \<Rightarrow> ('c, 'f, ('c, 'a) obj) registry" where
  "reg_of c = (case c_registry c of None \<Rightarrow> empty_registry | Some r \<Rightarrow> r)"

definition singleton :: "('c, 'f, 'a) container \<Rightarrow> 'c \<Rightarrow> ('c, 'a) obj option" where
  "singleton c cls = dget (r_instances (reg_of c)) cls"

lemma get_each_ready:
  assumes "c_registry c = Some r" and "reg_ready (w_call w) fuel r" and "\<forall>cls \<in> set classes. known r cls"
  shows "\<exists>r' res. get_each fuel w c classes = Some (c\<lparr>c_registry := Some r'\<rparr>, res) \<and> reg_extends r r' \<and>
    reg_ready (w_call w) fuel r' \<and> app_only res \<and>
    (\<forall>xs. res = Inr xs \<longrightarrow> map (\<lambda>cls. dget (r_instances r') cls) classes = map Some xs)"
  using assms
proof (induction classes arbitrary: c r)
  case Nil
  then show ?case by (intro exI [of _ r]) (simp add: app_only_def)
next
  case (Cons cls classes)
  have "known r cls" using Cons.prems(3) by simp
  then obtain r1 res1 where r1: "registry_get fuel (w_call w) r cls = Some (r1, res1)" "reg_extends r r1"
    "reg_ready (w_call w) fuel r1" "app_only res1" "\<And>x. res1 = Inr x \<Longrightarrow> dget (r_instances r1) cls = Some x"
    using registry_get_ready [OF Cons.prems(2)] by metis
  have wf: "reg_wf r" using Cons.prems(2) by (simp add: reg_ready_def)
  show ?case
  proof (cases res1)
    case (Inl e)
    with r1 Cons.prems(1) show ?thesis
      by (intro exI [of _ r1] exI [of _ "Inl e"]) (auto simp: container_get_def app_only_def)
  next
    case (Inr x)
    let ?c1 = "c\<lparr>c_registry := Some r1\<rparr>"
    have known: "\<forall>cls \<in> set classes. known r1 cls"
      using Cons.prems(3) reg_extends_known [OF r1(2) wf] by simp
    obtain r2 res2 where r2: "get_each fuel w ?c1 classes = Some (?c1\<lparr>c_registry := Some r2\<rparr>, res2)"
      "reg_extends r1 r2" "reg_ready (w_call w) fuel r2" "app_only res2"
      "\<And>xs. res2 = Inr xs \<Longrightarrow> map (\<lambda>cls. dget (r_instances r2) cls) classes = map Some xs"
      using Cons.IH [of ?c1 r1, OF _ r1(3) known] by auto
    have "dget (r_instances r2) cls = Some x"
      using r1(5) [OF Inr] r2(2) by (auto simp: reg_extends_def map_le_def dom_def)
    with r1(1) Inr Cons.prems(1) r2 reg_extends_trans [OF r1(2) r2(2)] show ?thesis
      by (intro exI [of _ r2] exI [of _ "map_sum id ((#) x) res2"])
        (auto simp: container_get_def app_only_def split: sum.splits)
  qed
qed

lemma build_ready:
  assumes ok: "container_ok c" and so: "py_set_order (w_set_order w)" and run: "build w c = (c', Inr ())"
    and fuel: "length (c_topo c') < fuel"
  obtains r where "c_registry c' = Some r" and "reg_ready (w_call w) fuel r"
    and "dget (r_instances r) = dget (c_instances c')"
    and "dom (dget (r_plan r)) = set (c_topo c') - dom (dget (c_instances c'))"
    and "\<And>cls deps. dget (r_plan r) cls = Some deps \<Longrightarrow> \<forall>d \<in> set (dvals deps). known r d"
    and "\<And>cls. cls \<in> set (c_topo c') \<Longrightarrow> known r cls"
proof -
  obtain c1 rb vb order entries resolved where b: "prepare_dynamic_binding w c = (c1, Inr (rb, vb))"
    "plan_build w c1 rb vb = Inr (order, entries, resolved)"
    "c' = c1\<lparr>c_topo := order,
       c_registry := Some (register (w_ctor w) empty_registry resolved (c_instances c1) entries)\<rparr>"
    by (rule build_cases [OF run])
  let ?r = "register (w_ctor w) empty_registry resolved (c_instances c1) entries"
  note plan = plan_build_ok [OF b(2) so]
  have d: "distinct (dkeys (c_instances c1))" using prepare_frame(1) [OF ok b(1)] by (simp add: container_ok_def)
  note spec = register_spec [OF plan(1), of "w_ctor w" "c_instances c1" entries]
  have inst: "dget (r_instances ?r) = dget (c_instances c1)" using spec(3) dget_rev_distinct [OF d] by simp
  have dom: "dom (dget (r_plan ?r)) = set order - dom (dget (c_instances c1))"
    unfolding spec(4) dget_rev_distinct [OF d] plan(3)
    by (auto simp: dom_map_of_conv_image_fst)
  have fac: "dom (dget (r_factory ?r)) = dom (dget (r_plan ?r))" using spec(1) by (simp add: reg_wf_def)
  have known: "known ?r d" if "d \<in> set (dkeys resolved) \<union> set (dkeys (c_instances c1))" for d
    using that unfolding known_dom fac dom inst plan(3) by (auto simp: dom_map_of_conv_image_fst)
  have deps: "\<forall>d \<in> set (dvals deps). known ?r d" if "dget (r_plan ?r) cls = Some deps" for cls deps
  proof -
    have "dget resolved cls = Some deps" using that by (auto simp: spec(4) restrict_map_def split: if_splits)
    then have "set (dvals deps) \<subseteq> all_deps resolved" by (force simp: all_deps_def dest!: map_of_SomeD)
    with plan(7) known show ?thesis by blast
  qed
  have len: "length resolved < fuel"
    using fuel b(3) distinct_card [OF plan(2)] distinct_card [OF plan(1)] plan(3) by simp
  show ?thesis
  proof (rule that [of ?r])
    show "c_registry c' = Some ?r" by (simp add: b(3))
    show "reg_ready (w_call w) fuel ?r" by (rule register_ready [OF plan(1,5) len])
    show "dget (r_instances ?r) = dget (c_instances c')" "dom (dget (r_plan ?r)) = set (c_topo c') - dom (dget (c_instances c'))"
      using inst dom b(3) by simp_all
    show "known ?r cls" if "cls \<in> set (c_topo c')" for cls using that known plan(3) b(3) by simp
  qed (rule deps)
qed

text \<open>
  What a class is built with, read off the program and the configuration alone. The last config method that provides the
  class makes it, else its constructor; its declared dependencies are that method's, or the hints of its constructor;
  a protocol stands for the implementation it is bound to, if the resolver has one; and a parameter with a default
  whose type nothing supplies is left to the default.
\<close>

definition last_entry :: "('c, 'f) factory_entry list \<Rightarrow> 'c \<Rightarrow> ('c, 'f) factory_entry option" where
  "last_entry entries cls = find (\<lambda>e. provided_type e = cls) (rev entries)"

definition factory_of :: "('c, 'f, 'a, 'x) world \<Rightarrow> ('c, 'f) factory_entry list \<Rightarrow> 'c \<Rightarrow> 'f" where
  "factory_of w entries cls = (case last_entry entries cls of Some e \<Rightarrow> factory_fn e | None \<Rightarrow> w_ctor w cls)"

definition hints_of :: "('c, 'f, 'a, 'x) world \<Rightarrow> ('c, 'f) factory_entry list \<Rightarrow> 'c \<Rightarrow> 'c deps_map" where
  "hints_of w entries cls =
     (case last_entry entries cls of
        Some e \<Rightarrow> dependencies e
      | None \<Rightarrow> if init_hint_result (w_env w) cls = Hints then ddel ''return'' (init_hints (w_env w) cls) else [])"

definition implementation_of :: "('c, 'f, 'a, 'x) world \<Rightarrow> ('c, 'f, 'a) container \<Rightarrow> 'c \<Rightarrow> 'c" where
  "implementation_of w c t =
     (case (if is_protocol (w_env w) t then Option.bind (dget (c_bindings c) t) (resolver_target (c_dynamic c)) else None) of
        Some i \<Rightarrow> i | None \<Rightarrow> t)"

definition defaulted :: "('c, 'f, 'a, 'x) world \<Rightarrow> ('c, 'f) factory_entry list \<Rightarrow> 'c \<Rightarrow> string list" where
  "defaulted w entries cls =
     (case last_entry entries cls of Some e \<Rightarrow> w_defaults w (factory_fn e) | None \<Rightarrow> init_defaults (w_env w) cls)"

definition declared_deps ::
  "('c, 'f, 'a, 'x) world \<Rightarrow> ('c, 'f, 'a) container \<Rightarrow> ('c, 'f) factory_entry list \<Rightarrow> 'c list \<Rightarrow> 'c \<Rightarrow> 'c deps_map" where
  "declared_deps w c entries available cls =
     filter (\<lambda>(param, t). param \<in> set (defaulted w entries cls) \<longrightarrow> t \<in> set available)
       (map (\<lambda>(param, t). (param, implementation_of w c t)) (hints_of w entries cls))"

lemma dget_fold_entries:
  "dget (fold (\<lambda>e. dset (k e) (v e)) es d) cls =
     (case find (\<lambda>e. k e = cls) (rev es) of Some e \<Rightarrow> Some (v e) | None \<Rightarrow> dget d cls)"
  by (induction es rule: rev_induct) auto

lemma dget_map_keyed: "dget (map (\<lambda>(k, v). (k, f k v)) d) k = map_option (f k) (dget d k)"
  by (induction d) auto

lemma dget_factory_fns:
  "dget (dict_of (map (\<lambda>e. (provided_type e, factory_fn e)) entries)) cls = map_option factory_fn (last_entry entries cls)"
proof -
  have "dict_of (map (\<lambda>e. (provided_type e, factory_fn e)) entries) = fold (\<lambda>e. dset (provided_type e) (factory_fn e)) entries []"
    by (simp add: dict_of_def fold_map comp_def)
  then show ?thesis unfolding last_entry_def
    by (cases "find (\<lambda>e. provided_type e = cls) (rev entries)") (simp_all add: dget_fold_entries)
qed

lemma resolve_deps:
  assumes "resolve env bindings classes = Inr r" and "dget r cls = Some deps"
  shows "resolve_hints env bindings cls = Inr deps"
proof -
  obtain items where items: "smap (\<lambda>cls. sbind (resolve_hints env bindings cls) (\<lambda>deps. Inr (cls, deps))) classes = Inr items" "r = dict_of items"
    using assms(1) by (auto simp: resolve_def sbind_eq_Inr)
  have "(cls, deps) \<in> set (fold (\<lambda>(k, v). dset k v) items d) \<Longrightarrow> (cls, deps) \<in> set items \<or> (cls, deps) \<in> set d" for d
  proof (induction items arbitrary: d)
    case (Cons x xs)
    then show ?case by (cases x) (auto dest: in_dset)
  qed simp
  from this [of "[]"] have "(cls, deps) \<in> set items"
    using assms(2) items(2) by (auto simp: dict_of_def dest!: map_of_SomeD)
  then show ?thesis using smap_set [OF items(1)] by (auto simp: sbind_eq_Inr)
qed

lemma resolve_all_declared:
  assumes "container_ok c" and "prepare_dynamic_binding w c = (c1, Inr (rb, vb))"
    and "resolve_all w c1 rb = Inr (all_classes, entries, resolved)"
  obtains scanned loaded where
    "scan (w_env w) (w_importer w) (c_excluded c) (c_packages c) = Inr scanned" "smap load_config (c_config c) = Inr loaded"
    "entries = concat loaded" "set all_classes = set scanned \<union> set (c_explicit c1)"
    "\<And>cls. cls \<in> set (dkeys resolved) \<Longrightarrow> dget resolved cls =
       Some (declared_deps w c entries (all_classes @ dkeys (c_instances c1) @ map provided_type entries) cls)"
proof -
  have frame: "c_excluded c1 = c_excluded c" "c_packages c1 = c_packages c" "c_config c1 = c_config c"
    by (rule prepare_cases [OF assms(1,2)], simp)+
  have rb: "dget rb = (\<lambda>i. Option.bind (dget (c_bindings c) i) (resolver_target (c_dynamic c)))"
    by (rule prepare_spec [OF assms(1,2)])
  obtain scanned loaded resolved0 where r:
    "scan (w_env w) (w_importer w) (c_excluded c) (c_packages c) = Inr scanned" "smap load_config (c_config c) = Inr loaded"
    "entries = concat loaded" "all_classes = merge_unique scanned (c_explicit c1)" "resolve (w_env w) rb all_classes = Inr resolved0"
    "resolved = drop_unsatisfiable_optional_deps w entries (all_classes @ dkeys (c_instances c1) @ map provided_type entries)
       (fold (\<lambda>e. dset (provided_type e) (resolve_factory_deps (w_env w) rb (dependencies e))) entries resolved0)"
    using assms(3) by (auto simp: resolve_all_def sbind_eq_Inr Let_def frame)
  let ?avail = "all_classes @ dkeys (c_instances c1) @ map provided_type entries"
  have one: "resolve_one (w_env w) rb t = implementation_of w c t" for t
    by (simp add: resolve_one_def implementation_of_def dget_default_def rb split: option.split)
  have hints: "resolve_hints (w_env w) rb cls = Inr deps \<Longrightarrow> last_entry entries cls = None \<Longrightarrow>
      deps = map (\<lambda>(p, t). (p, implementation_of w c t)) (hints_of w entries cls)" for cls deps
    by (auto simp: resolve_hints_def sbind_eq_Inr one hints_of_def resolve_constructor_hints_def split: hint_result.splits)
  have "dget resolved cls = Some (declared_deps w c entries ?avail cls)" if k: "cls \<in> set (dkeys resolved)" for cls
  proof -
    let ?resolved1 = "fold (\<lambda>e. dset (provided_type e) (resolve_factory_deps (w_env w) rb (dependencies e))) entries resolved0"
    have some: "dget resolved cls \<noteq> None" using k by (simp only: dget_None_keys not_not)
    define F where "F deps = filter (\<lambda>(param, t). \<not> (param \<in> set (defaulted w entries cls) \<and> t \<notin> set ?avail)) deps" for deps :: "'a deps_map"
    have res: "dget resolved cls = map_option F (dget ?resolved1 cls)"
      unfolding r(6) drop_unsatisfiable_optional_deps_def Let_def dget_map_keyed dget_factory_fns F_def defaulted_def
      by (cases "last_entry entries cls") simp_all
    have "dget ?resolved1 cls = Some (map (\<lambda>(p, t). (p, implementation_of w c t)) (hints_of w entries cls))"
    proof (cases "last_entry entries cls")
      case (Some e)
      then show ?thesis unfolding dget_fold_entries last_entry_def [symmetric]
        by (simp add: hints_of_def resolve_factory_deps_def one)
    next
      case None
      then have "dget ?resolved1 cls = dget resolved0 cls" unfolding dget_fold_entries last_entry_def [symmetric] by simp
      moreover obtain deps where "dget resolved0 cls = Some deps" using some res calculation by auto
      ultimately show ?thesis using hints [OF resolve_deps [OF r(5)] None] by auto
    qed
    then show ?thesis using res by (simp add: F_def declared_deps_def)
  qed
  moreover have "set all_classes = set scanned \<union> set (c_explicit c1)"
    unfolding r(4) merge_unique_def fold_distinct_append ..
  ultimately show ?thesis using that r(1-3) by blast
qed

lemma register_one_factory:
  "dget (r_factory (fold (register_one ctor fm) items r)) cls =
     (if dget (r_instances r) cls = None \<and> cls \<in> set (dkeys items) then Some (dget_default (ctor cls) fm cls)
      else dget (r_factory r) cls)"
proof (induction items arbitrary: r)
  case (Cons x items)
  obtain k deps where "x = (k, deps)" by (cases x)
  then show ?case unfolding fold_simps comp_def Cons.IH by (auto simp: register_one_def)
qed simp

lemma register_factory:
  assumes "cls \<in> set (dkeys resolved)" and "dget (rev instances) cls = None"
  shows "dget (r_factory (register (w_ctor w) empty_registry resolved instances entries)) cls = Some (factory_of w entries cls)"
proof -
  have "dget (dict_update [] instances) cls = None"
    using assms(2) by (simp add: dget_dict_update)
  then show ?thesis using assms(1)
    by (cases "last_entry entries cls")
      (simp_all add: register_def empty_registry_def Let_def register_one_factory dget_default_def dget_factory_fns factory_of_def)
qed

text \<open>The registry of a successful build has a plan and a factory for exactly what was declared.\<close>

lemma build_declared:
  assumes ok: "container_ok c" and so: "py_set_order (w_set_order w)" and run: "build w c = (c', Inr ())"
  obtains scanned loaded where
    "scan (w_env w) (w_importer w) (c_excluded c) (c_packages c) = Inr scanned" "smap load_config (c_config c) = Inr loaded"
    "set (c_topo c') = set scanned \<union> set (c_explicit c') \<union> provided_type ` set (concat loaded)"
    "\<And>cls available. cls \<in> set (c_topo c') \<Longrightarrow> dget (c_instances c') cls = None \<Longrightarrow>
       set available = set scanned \<union> set (c_explicit c') \<union> provided_type ` set (concat loaded) \<union> set (dkeys (c_instances c')) \<Longrightarrow>
       dget (r_plan (reg_of c')) cls = Some (declared_deps w c (concat loaded) available cls) \<and>
       dget (r_factory (reg_of c')) cls = Some (factory_of w (concat loaded) cls)"
proof -
  obtain c1 rb vb order entries resolved where b: "prepare_dynamic_binding w c = (c1, Inr (rb, vb))"
    "plan_build w c1 rb vb = Inr (order, entries, resolved)"
    "c' = c1\<lparr>c_topo := order,
       c_registry := Some (register (w_ctor w) empty_registry resolved (c_instances c1) entries)\<rparr>"
    by (rule build_cases [OF run])
  note plan = plan_build_ok [OF b(2) so]
  have c': "c_explicit c' = c_explicit c1" "c_instances c' = c_instances c1" "c_topo c' = order"
    "reg_of c' = register (w_ctor w) empty_registry resolved (c_instances c1) entries" by (simp_all add: b(3) reg_of_def)
  have d: "distinct (dkeys (c_instances c1))" using prepare_frame(1) [OF ok b(1)] by (simp add: container_ok_def)
  obtain all_classes where all: "resolve_all w c1 rb = Inr (all_classes, entries, resolved)"
    using b(2) by (auto simp: plan_build_def sbind_eq_Inr)
  obtain scanned loaded where r:
    "scan (w_env w) (w_importer w) (c_excluded c) (c_packages c) = Inr scanned" "smap load_config (c_config c) = Inr loaded"
    "entries = concat loaded" "set all_classes = set scanned \<union> set (c_explicit c1)"
    "\<And>cls. cls \<in> set (dkeys resolved) \<Longrightarrow> dget resolved cls =
       Some (declared_deps w c entries (all_classes @ dkeys (c_instances c1) @ map provided_type entries) cls)"
    by (rule resolve_all_declared [OF ok b(1) all]) blast
  show ?thesis
  proof (rule that [OF r(1,2)])
    show "set (c_topo c') = set scanned \<union> set (c_explicit c') \<union> provided_type ` set (concat loaded)"
      unfolding c' plan(3) resolve_all_keys(2) [OF all] r(4) r(3) [symmetric] ..
  next
    fix cls and available :: "'a list"
    assume cls: "cls \<in> set (c_topo c')" "dget (c_instances c') cls = None"
      and avail: "set available = set scanned \<union> set (c_explicit c') \<union> provided_type ` set (concat loaded) \<union> set (dkeys (c_instances c'))"
    have key: "cls \<in> set (dkeys resolved)" using cls(1) unfolding c' plan(3) .
    have none: "dget (rev (c_instances c1)) cls = None" using cls(2) unfolding c' dget_rev_distinct [OF d] .
    have same: "set (all_classes @ dkeys (c_instances c1) @ map provided_type entries) = set available"
      unfolding avail c' r(3) [symmetric] by (auto simp: r(4))
    have "dget (r_plan (reg_of c')) cls = dget resolved cls"
      unfolding c' register_spec(4) [OF plan(1)] using none by (simp add: restrict_map_def dom_def)
    also have "\<dots> = Some (declared_deps w c entries available cls)"
      unfolding r(5) [OF key] declared_deps_def same ..
    finally show "dget (r_plan (reg_of c')) cls = Some (declared_deps w c (concat loaded) available cls) \<and>
       dget (r_factory (reg_of c')) cls = Some (factory_of w (concat loaded) cls)"
      unfolding c' using register_factory [OF key none] by (simp add: r(3))
  qed
qed

lemma get_all_ok:
  assumes "container_ok c" and "py_set_order (w_set_order w)" and "build w c = (c', Inr ())"
    and "length (c_topo c') < fuel"
  shows "\<exists>c2 res. get_all_in_order fuel w c' = Some (c2, res) \<and>
    r_plan (reg_of c2) = r_plan (reg_of c') \<and> r_factory (reg_of c2) = r_factory (reg_of c') \<and>
    (\<forall>e. res = Inl e \<longrightarrow> (\<exists>x. e = AppError x)) \<and>
    (\<forall>objs. res = Inr objs \<longrightarrow>
       (\<exists>built. objs = dvals (c_instances c') @ built \<and> map Some built = map (singleton c2) (c_topo c')) \<and>
       (\<forall>cls \<in> set (c_topo c'). dget (c_instances c') cls = None \<longrightarrow>
          (\<exists>deps f x. dget (r_plan (reg_of c2)) cls = Some deps \<and> dget (r_factory (reg_of c2)) cls = Some f \<and>
             singleton c2 cls = Some x \<and> (\<forall>d \<in> set (dvals deps). singleton c2 d \<noteq> None) \<and>
             w_call w f (map (\<lambda>(p, d). (p, the (singleton c2 d))) deps) = Inr x)))"
proof -
  obtain r where r: "c_registry c' = Some r" "reg_ready (w_call w) fuel r"
    "dom (dget (r_plan r)) = set (c_topo c') - dom (dget (c_instances c'))"
    "\<And>cls deps. dget (r_plan r) cls = Some deps \<Longrightarrow> \<forall>d \<in> set (dvals deps). known r d"
    "\<And>cls. cls \<in> set (c_topo c') \<Longrightarrow> known r cls"
    by (rule build_ready [OF assms]) blast
  obtain r2 res where run: "get_each fuel w c' (c_topo c') = Some (c'\<lparr>c_registry := Some r2\<rparr>, res)"
    and ext: "reg_extends r r2" and ready: "reg_ready (w_call w) fuel r2" and app: "app_only res"
    and objs: "\<And>xs. res = Inr xs \<Longrightarrow> map (\<lambda>cls. dget (r_instances r2) cls) (c_topo c') = map Some xs"
    using get_each_ready [where classes = "c_topo c'", OF r(1,2)] r(5) by blast
  let ?c2 = "c'\<lparr>c_registry := Some r2\<rparr>"
  have reg: "reg_of ?c2 = r2" by (simp add: reg_of_def)
  have wf: "reg_wf r" using r(2) by (simp add: reg_ready_def)
  have wired: "\<exists>deps f x. dget (r_plan r2) cls = Some deps \<and> dget (r_factory r2) cls = Some f \<and>
      singleton ?c2 cls = Some x \<and> (\<forall>d \<in> set (dvals deps). singleton ?c2 d \<noteq> None) \<and>
      w_call w f (map (\<lambda>(p, d). (p, the (singleton ?c2 d))) deps) = Inr x"
    if inr: "res = Inr xs" and cls: "cls \<in> set (c_topo c')" "dget (c_instances c') cls = None" for xs cls
  proof -
    have "cls \<in> dom (dget (r_plan r))" unfolding r(3) using cls by auto
    then obtain deps where deps: "dget (r_plan r) cls = Some deps" by auto
    then have deps2: "dget (r_plan r2) cls = Some deps" using ext by (simp add: reg_extends_def)
    have "dget (r_instances r2) cls \<in> set (map Some xs)" unfolding objs [OF inr, symmetric] using cls(1) by simp
    then obtain x where x: "dget (r_instances r2) cls = Some x" by auto
    obtain f where f: "deps_built r2 deps" "dget (r_factory r2) cls = Some f" "w_call w f (kwargs_of r2 deps) = Inr x"
      by (rule wiredD [OF _ x deps2, where call = "w_call w"]) (use ready in \<open>simp_all add: reg_ready_def\<close>)
    have known: "\<forall>d \<in> set (dvals deps). known r2 d"
      using r(4) [OF deps] reg_extends_known [OF ext wf] by simp
    then have "filter (\<lambda>(p, d). known r2 d) deps = deps" by (auto intro!: filter_True)
    then have "kwargs_of r2 deps = map (\<lambda>(p, d). (p, the (singleton ?c2 d))) deps"
      by (simp add: kwargs_of_def singleton_def reg)
    moreover have "\<forall>d \<in> set (dvals deps). singleton ?c2 d \<noteq> None"
      using f(1) known unfolding deps_built_def singleton_def reg by blast
    ultimately show ?thesis using deps2 x f by (auto simp: singleton_def reg)
  qed
  have main: "get_all_in_order fuel w c' = Some (?c2, map_sum id (\<lambda>xs. dvals (c_instances c') @ xs) res)"
    using run r(1) by (simp add: get_all_in_order_def)
  show ?thesis
  proof (rule exI [of _ ?c2], rule exI [of _ "map_sum id (\<lambda>xs. dvals (c_instances c') @ xs) res"],
      intro conjI allI impI ballI, rule main)
    show "r_plan (reg_of ?c2) = r_plan (reg_of c')" "r_factory (reg_of ?c2) = r_factory (reg_of c')"
      using ext r(1) unfolding reg by (simp_all add: reg_extends_def reg_of_def)
  next
    fix e assume "map_sum id (\<lambda>xs. dvals (c_instances c') @ xs) res = Inl e"
    then show "\<exists>x. e = AppError x" using app by (cases res) (auto simp: app_only_def)
  next
    fix all assume "map_sum id (\<lambda>xs. dvals (c_instances c') @ xs) res = Inr all"
    then obtain xs where xs: "res = Inr xs" "all = dvals (c_instances c') @ xs" by (cases res) auto
    from objs [OF xs(1)] xs(2) show "\<exists>built. all = dvals (c_instances c') @ built \<and> map Some built = map (singleton ?c2) (c_topo c')"
      by (auto simp: singleton_def [abs_def] reg)
    fix cls assume "cls \<in> set (c_topo c')" "dget (c_instances c') cls = None"
    with wired xs(1) show "\<exists>deps f x. dget (r_plan (reg_of ?c2)) cls = Some deps \<and> dget (r_factory (reg_of ?c2)) cls = Some f \<and>
      singleton ?c2 cls = Some x \<and> (\<forall>d \<in> set (dvals deps). singleton ?c2 d \<noteq> None) \<and>
      w_call w f (map (\<lambda>(p, d). (p, the (singleton ?c2 d))) deps) = Inr x"
      unfolding reg by blast
  qed
qed

section \<open>Properties\<close>

definition sample_world :: "(nat, nat, nat, string) world" where
  "sample_world = \<lparr>w_env = sample_env, w_importer = (\<lambda>_. Inr sample_package), w_set_order = dedup,
     w_ctor = (\<lambda>c. c), w_defaults = (\<lambda>_. []),
     w_call = (\<lambda>f kwargs. Inr (App (10 * f + length kwargs))), w_switcher = 50\<rparr>"

definition sample_container :: "(nat, nat, nat) container" where
  "sample_container = run_ops config_step [Scan [''app''], Bind [(9, Tuple [1])]] new_container"

text \<open>
  C5: After a successful build the build order holds exactly the scanned, the registered and the provided classes, and
  forcing all singletons terminates within the given fuel and can only fail with an exception of the application's
  own constructors: never with the registry's circularity, missing-provider or key errors. If it succeeds, it returns
  the pre-built instances followed by the singletons of the build order, and every singleton that was not pre-built
  was made by the factory the configuration gives it (\<open>factory_of\<close>) from exactly one argument per dependency the
  program declares for it (\<open>declared_deps\<close>), each the singleton of that dependency.
\<close>

theorem build_then_get_all:
  assumes "container_ok c" and "py_set_order (w_set_order w)" and "build w c = (c', Inr ())"
    and "length (c_topo c') < fuel"
  shows "\<exists>scanned loaded c2 res.
    scan (w_env w) (w_importer w) (c_excluded c) (c_packages c) = Inr scanned \<and> smap load_config (c_config c) = Inr loaded \<and>
    set (c_topo c') = set (scanned @ c_explicit c' @ map provided_type (concat loaded)) \<and>
    get_all_in_order fuel w c' = Some (c2, res) \<and>
    (\<forall>e. res = Inl e \<longrightarrow> (\<exists>x. e = AppError x)) \<and>
    (\<forall>objs. res = Inr objs \<longrightarrow>
       (\<exists>built. objs = dvals (c_instances c') @ built \<and> map Some built = map (singleton c2) (c_topo c')) \<and>
       (\<forall>cls \<in> set (c_topo c'). dget (c_instances c') cls = None \<longrightarrow>
          (let deps = declared_deps w c (concat loaded)
                 (scanned @ c_explicit c' @ map provided_type (concat loaded) @ dkeys (c_instances c')) cls
           in (\<forall>d \<in> set (dvals deps). singleton c2 d \<noteq> None) \<and>
              (\<exists>x. singleton c2 cls = Some x \<and>
                 w_call w (factory_of w (concat loaded) cls) (map (\<lambda>(p, d). (p, the (singleton c2 d))) deps) = Inr x))))"
proof -
  obtain scanned loaded where b:
    "scan (w_env w) (w_importer w) (c_excluded c) (c_packages c) = Inr scanned" "smap load_config (c_config c) = Inr loaded"
    "set (c_topo c') = set scanned \<union> set (c_explicit c') \<union> provided_type ` set (concat loaded)"
    "\<And>cls available. cls \<in> set (c_topo c') \<Longrightarrow> dget (c_instances c') cls = None \<Longrightarrow>
       set available = set scanned \<union> set (c_explicit c') \<union> provided_type ` set (concat loaded) \<union> set (dkeys (c_instances c')) \<Longrightarrow>
       dget (r_plan (reg_of c')) cls = Some (declared_deps w c (concat loaded) available cls) \<and>
       dget (r_factory (reg_of c')) cls = Some (factory_of w (concat loaded) cls)"
    by (rule build_declared [OF assms(1-3)]) blast
  let ?avail = "scanned @ c_explicit c' @ map provided_type (concat loaded) @ dkeys (c_instances c')"
  have plan: "dget (r_plan (reg_of c')) cls = Some (declared_deps w c (concat loaded) ?avail cls)"
    "dget (r_factory (reg_of c')) cls = Some (factory_of w (concat loaded) cls)"
    if "cls \<in> set (c_topo c')" "dget (c_instances c') cls = None" for cls
    using b(4) [OF that, of ?avail] by auto
  from get_all_ok [OF assms] obtain c2 res where g: "get_all_in_order fuel w c' = Some (c2, res)"
    "r_plan (reg_of c2) = r_plan (reg_of c')" "r_factory (reg_of c2) = r_factory (reg_of c')"
    "\<forall>e. res = Inl e \<longrightarrow> (\<exists>x. e = AppError x)"
    "\<And>objs. res = Inr objs \<Longrightarrow> \<exists>built. objs = dvals (c_instances c') @ built \<and> map Some built = map (singleton c2) (c_topo c')"
    "\<And>objs cls. res = Inr objs \<Longrightarrow> cls \<in> set (c_topo c') \<Longrightarrow> dget (c_instances c') cls = None \<Longrightarrow>
       \<exists>deps f x. dget (r_plan (reg_of c2)) cls = Some deps \<and> dget (r_factory (reg_of c2)) cls = Some f \<and>
         singleton c2 cls = Some x \<and> (\<forall>d \<in> set (dvals deps). singleton c2 d \<noteq> None) \<and>
         w_call w f (map (\<lambda>(p, d). (p, the (singleton c2 d))) deps) = Inr x"
    by blast
  have wired: "let deps = declared_deps w c (concat loaded) ?avail cls
     in (\<forall>d \<in> set (dvals deps). singleton c2 d \<noteq> None) \<and>
        (\<exists>x. singleton c2 cls = Some x \<and>
           w_call w (factory_of w (concat loaded) cls) (map (\<lambda>(p, d). (p, the (singleton c2 d))) deps) = Inr x)"
    if "res = Inr objs" "cls \<in> set (c_topo c')" "dget (c_instances c') cls = None" for objs cls
    using g(6) [OF that] unfolding g(2,3) plan [OF that(2,3)] Let_def option.inject by blast
  have topo: "set (c_topo c') = set (scanned @ c_explicit c' @ map provided_type (concat loaded))"
    unfolding b(3) by auto
  show ?thesis
    by (rule exI [of _ scanned], rule exI [of _ loaded], rule exI [of _ c2], rule exI [of _ res])
      (use b(1,2) topo g(1,4,5) wired in blast)
qed

theorem build_then_get_all_witness:
  "\<exists>c2 res. get_all_in_order 9 sample_world (fst (build sample_world sample_container)) = Some (c2, res) \<and>
    (\<forall>e. res = Inl e \<longrightarrow> (\<exists>x. e = AppError x)) \<and>
    map_option snd (get_all_in_order 9 sample_world (fst (build sample_world sample_container))) =
      Some (Inr [SwitcherObj 0, App 10, App 21, App 41])"
proof -
  have run: "snd (build sample_world sample_container) = Inr ()"
    "length (c_topo (fst (build sample_world sample_container))) < 9"
    "map_option snd (get_all_in_order 9 sample_world (fst (build sample_world sample_container))) =
      Some (Inr [SwitcherObj 0, App 10, App 21, App 41])"
    by code_simp+
  have ok: "container_ok sample_container" by (simp add: container_ok_def) code_simp
  have so: "py_set_order (w_set_order sample_world)" by (simp add: sample_world_def py_set_order_dedup)
  from run(1) have "build sample_world sample_container = (fst (build sample_world sample_container), Inr ())"
    by (metis prod.collapse)
  from build_then_get_all [OF ok so this run(2)] run(3) show ?thesis by fast
qed

text \<open>
  A class that is both pre-built with \<open>register_instance\<close> and scanned (the documented way to
  override a scanned class) is listed twice by \<open>get_all_in_order\<close> after a successful build:
  once among the pre-built instances and once in the build order.
\<close>

theorem prebuilt_listed_twice:
  assumes "container_ok c" and "py_set_order (w_set_order w)" and "build w c = (c', Inr ())"
    and "length (c_topo c') < fuel" and "get_all_in_order fuel w c' = Some (c2, Inr objs)"
    and "cls \<in> set (c_topo c')" and "dget (c_instances c') cls = Some x"
  shows "2 \<le> count_list objs x"
proof -
  obtain r where r: "c_registry c' = Some r" "reg_ready (w_call w) fuel r"
    "dget (r_instances r) = dget (c_instances c')" "\<And>cls. cls \<in> set (c_topo c') \<Longrightarrow> known r cls"
    by (rule build_ready [OF assms(1-4)]) blast
  obtain r2 res where run: "get_each fuel w c' (c_topo c') = Some (c'\<lparr>c_registry := Some r2\<rparr>, res)"
    and ext: "reg_extends r r2"
    and objs: "\<And>xs. res = Inr xs \<Longrightarrow> map (\<lambda>cls. dget (r_instances r2) cls) (c_topo c') = map Some xs"
    using get_each_ready [where classes = "c_topo c'", OF r(1,2)] r(4) by blast
  obtain xs where xs: "res = Inr xs" "objs = dvals (c_instances c') @ xs"
    using assms(5) run r(1) by (cases res) (auto simp: get_all_in_order_def)
  have "dget (r_instances r2) cls = Some x"
    using ext r(3) assms(7) by (auto simp: reg_extends_def map_le_def dom_def)
  then have "Some x \<in> set (map Some xs)" using objs [OF xs(1)] assms(6) by (metis image_eqI list.set_map)
  then have "x \<in> set xs" by auto
  moreover have "x \<in> set (dvals (c_instances c'))" using assms(7) by (force dest: map_of_SomeD)
  ultimately show ?thesis
    unfolding xs(2) count_list_append by (metis One_nat_def Suc_leI add_mono count_list_0_iff gr0I numeral_2_eq_2 plus_1_eq_Suc)
qed

theorem prebuilt_listed_twice_witness:
  "\<exists>c c' c2 objs. run_ops config_step [RegisterInstance 1 (App 7)] sample_container = c \<and>
     build sample_world c = (c', Inr ()) \<and> get_all_in_order 9 sample_world c' = Some (c2, Inr objs) \<and>
     2 \<le> count_list objs (App 7)"
proof -
  define c where "c = run_ops config_step [RegisterInstance 1 (App 7)] sample_container"
  define c' where "c' = fst (build sample_world c)"
  have run: "snd (build sample_world c) = Inr ()" "c_topo c' = [1, 2, 4]" "dget (c_instances c') 1 = Some (App 7)"
    "map_option snd (get_all_in_order 9 sample_world c') = Some (Inr [App 7, SwitcherObj 0, App 7, App 21, App 41])"
    unfolding c'_def c_def by code_simp+
  have ok: "container_ok c" unfolding c_def by (simp add: container_ok_def) code_simp
  have so: "py_set_order (w_set_order sample_world)" by (simp add: sample_world_def py_set_order_dedup)
  from run(1) have b: "build sample_world c = (c', Inr ())" by (metis c'_def prod.collapse)
  obtain c2 where g: "get_all_in_order 9 sample_world c' = Some (c2, Inr [App 7, SwitcherObj 0, App 7, App 21, App 41])"
    using run(4) by (auto simp: map_option_eq_Some)
  have "2 \<le> count_list [App 7, SwitcherObj 0, App 7, App 21, App 41 :: (nat, nat) obj] (App 7)"
    by (rule prebuilt_listed_twice [OF ok so b _ g, where cls = 1]) (simp_all add: run del: One_nat_def)
  with b g c_def show ?thesis by blast
qed

text \<open>
  Preparing the bindings of a container: the resolver sees each one-implementation binding
  (a tuple of one counts as one) and, with dynamic binding off, the first implementation of each
  tuple; with it on, an interface bound to several implementations is left to its proxy, which is
  registered unless the application registered something itself, and all its implementations become
  registered classes. The validator sees all of them.
\<close>

theorem prepare_bindings_correct:
  assumes "container_ok c" and "prepare_dynamic_binding w c = (c1, Inr (rb, vb))"
  shows "dget rb = (\<lambda>i. Option.bind (dget (c_bindings c) i) (resolver_target (c_dynamic c))) \<and>
    dget vb = (\<lambda>i. Option.bind (dget (c_bindings c) i) (validation_target (c_dynamic c))) \<and>
    dget (c_instances c1) = (\<lambda>i. case dget (c_instances c) i of Some x \<Rightarrow> Some x | None \<Rightarrow>
        if i = w_switcher w then Some (SwitcherObj (length (c_switchers c)))
        else if c_dynamic c \<and> Option.bind (dget (c_bindings c) i) multi_target \<noteq> None
          then Some (ProxyObj i (length (c_switchers c))) else None) \<and>
    set (c_explicit c1) = set (c_explicit c) \<union> (if c_dynamic c then
        {x. \<exists>i t cs. dget (c_bindings c) i = Some t \<and> multi_target t = Some cs \<and> x \<in> set cs} else {})"
  using prepare_spec [OF assms] by blast

theorem prepare_bindings_correct_witness:
  "\<exists>c1 rb vb. prepare_dynamic_binding sample_world
       (run_ops config_step [Bind [(9, Tuple [1, 2])], DynamicBinding True] new_container :: (nat, nat, nat) container) =
       (c1, Inr (rb, vb)) \<and> dget rb 9 = None \<and> dget vb 9 = Some (Tuple [1, 2]) \<and>
     dget (c_instances c1) 9 = Some (ProxyObj 9 0) \<and> set (c_explicit c1) = {1, 2}"
proof -
  define c where "c = (run_ops config_step [Bind [(9, Tuple [1, 2])], DynamicBinding True] new_container :: (nat, nat, nat) container)"
  have run: "isl (snd (prepare_dynamic_binding sample_world c)) = False"
    "c_bindings c = [(9, Tuple [1, 2])]" "c_dynamic c = True" "c_instances c = []"
    "c_explicit c = []" "c_switchers c = []" "w_switcher sample_world = 50"
    unfolding c_def by code_simp+
  have ok: "container_ok c" by (simp add: container_ok_def run)
  obtain c1 res where p1: "prepare_dynamic_binding sample_world c = (c1, res)" by (rule prod.exhaust)
  then obtain rb vb where p: "prepare_dynamic_binding sample_world c = (c1, Inr (rb, vb))"
    using run(1) by (cases res) auto
  note all = prepare_bindings_correct [OF ok p, unfolded run(2-7)]
  have "dget rb 9 = None" "dget vb 9 = Some (Tuple [1, 2])" "dget (c_instances c1) 9 = Some (ProxyObj 9 0)"
    using all by (simp_all add: resolver_target_def validation_target_def)
  moreover have "{x. \<exists>i t cs. dget [(9::nat, Tuple [1, 2])] i = Some t \<and> multi_target t = Some cs \<and> x \<in> set cs} = {1, 2::nat}"
    by (auto split: if_splits)
  with all have "set (c_explicit c1) = {1, 2}" by simp
  ultimately show ?thesis using p c_def by blast
qed

end
