(* ===== verification/Lifecycle.thy ===== *)
theory Lifecycle
  imports Prelude
begin

text \<open>
  The lifecycle manager (\<open>xime/core/lifecycle/manager.py\<close>): \<open>start\<close> runs the \<open>post_construct\<close>
  hooks in order and remembers what it started, \<open>run_once\<close> the cluster-wide tasks, \<open>stop\<close> the
  \<open>pre_destroy\<close> hooks of what was started in reverse order, collecting the errors. \<open>hook\<close> is the
  application's hook, which may change the world \<open>'w\<close> and raise; \<open>BaseExn\<close> stands for the exceptions
  \<open>except Exception\<close> does not catch. The log records every hook called.
\<close>

datatype 'x hook_exn = Exn 'x | BaseExn 'x

datatype 'o event = PostConstruct 'o | RunOnce 'o | PreDestroy 'o

datatype 'x stop_exn = ExceptionGroup "'x list" | Escaped 'x

record 'o hooks =
  has_post_construct :: "'o \<Rightarrow> bool"
  has_run_once :: "'o \<Rightarrow> bool"
  has_pre_destroy :: "'o \<Rightarrow> bool"

record ('o, 'w) lifecycle =
  l_instances :: "'o list"
  l_started :: "'o list option"
  l_log :: "'o event list"
  l_world :: 'w

definition make_lifecycle :: "'o list \<Rightarrow> 'w \<Rightarrow> ('o, 'w) lifecycle" where
  "make_lifecycle instances w = \<lparr>l_instances = instances, l_started = None, l_log = [], l_world = w\<rparr>"

definition call_hook ::
  "('o event \<Rightarrow> 'w \<Rightarrow> 'w \<times> 'x hook_exn option) \<Rightarrow> 'o event \<Rightarrow> ('o, 'w) lifecycle
    \<Rightarrow> ('o, 'w) lifecycle \<times> 'x hook_exn option" where
  "call_hook hook ev l =
     (case hook ev (l_world l) of (w, r) \<Rightarrow> (l\<lparr>l_log := l_log l @ [ev], l_world := w\<rparr>, r))"

definition mark_started :: "'o \<Rightarrow> ('o, 'w) lifecycle \<Rightarrow> ('o, 'w) lifecycle" where
  "mark_started i l = l\<lparr>l_started := Some ((case l_started l of None \<Rightarrow> [] | Some s \<Rightarrow> s) @ [i])\<rparr>"

fun start_each ::
  "'o hooks \<Rightarrow> ('o event \<Rightarrow> 'w \<Rightarrow> 'w \<times> 'x hook_exn option) \<Rightarrow> 'o list \<Rightarrow> ('o, 'w) lifecycle
    \<Rightarrow> ('o, 'w) lifecycle \<times> 'x hook_exn option" where
  "start_each h hook [] l = (l, None)"
| "start_each h hook (i # xs) l =
     (if has_post_construct h i
      then case call_hook hook (PostConstruct i) l of
             (l1, Some e) \<Rightarrow> (l1, Some e)
           | (l1, None) \<Rightarrow> start_each h hook xs (mark_started i l1)
      else start_each h hook xs (mark_started i l))"

definition start ::
  "'o hooks \<Rightarrow> ('o event \<Rightarrow> 'w \<Rightarrow> 'w \<times> 'x hook_exn option) \<Rightarrow> ('o, 'w) lifecycle
    \<Rightarrow> ('o, 'w) lifecycle \<times> 'x hook_exn option" where
  "start h hook l = start_each h hook (l_instances l) (l\<lparr>l_started := Some []\<rparr>)"

fun run_each ::
  "('o event \<Rightarrow> 'w \<Rightarrow> 'w \<times> 'x hook_exn option) \<Rightarrow> 'o list \<Rightarrow> ('o, 'w) lifecycle
    \<Rightarrow> ('o, 'w) lifecycle \<times> 'x hook_exn option" where
  "run_each hook [] l = (l, None)"
| "run_each hook (i # xs) l =
     (case call_hook hook (RunOnce i) l of
        (l1, Some e) \<Rightarrow> (l1, Some e)
      | (l1, None) \<Rightarrow> run_each hook xs l1)"

definition run_once ::
  "'o hooks \<Rightarrow> ('o event \<Rightarrow> 'w \<Rightarrow> 'w \<times> 'x hook_exn option) \<Rightarrow> ('o, 'w) lifecycle
    \<Rightarrow> ('o, 'w) lifecycle \<times> 'x hook_exn option" where
  "run_once h hook l = run_each hook (filter (has_run_once h) (l_instances l)) l"

fun stop_each ::
  "'o hooks \<Rightarrow> ('o event \<Rightarrow> 'w \<Rightarrow> 'w \<times> 'x hook_exn option) \<Rightarrow> 'o list \<Rightarrow> 'x list \<Rightarrow> ('o, 'w) lifecycle
    \<Rightarrow> ('o, 'w) lifecycle \<times> ('x + 'x list)" where
  "stop_each h hook [] errors l = (l, Inr errors)"
| "stop_each h hook (i # xs) errors l =
     (if has_pre_destroy h i
      then case call_hook hook (PreDestroy i) l of
             (l1, Some (BaseExn e)) \<Rightarrow> (l1, Inl e)
           | (l1, Some (Exn e)) \<Rightarrow> stop_each h hook xs (errors @ [e]) l1
           | (l1, None) \<Rightarrow> stop_each h hook xs errors l1
      else stop_each h hook xs errors l)"

definition stop ::
  "'o hooks \<Rightarrow> ('o event \<Rightarrow> 'w \<Rightarrow> 'w \<times> 'x hook_exn option) \<Rightarrow> ('o, 'w) lifecycle
    \<Rightarrow> ('o, 'w) lifecycle \<times> ('x stop_exn + unit)" where
  "stop h hook l =
     (case stop_each h hook (rev (case l_started l of Some s \<Rightarrow> s | None \<Rightarrow> l_instances l)) [] l of
        (l1, Inl e) \<Rightarrow> (l1, Inl (Escaped e))
      | (l1, Inr []) \<Rightarrow> (l1, Inr ())
      | (l1, Inr errors) \<Rightarrow> (l1, Inl (ExceptionGroup errors)))"

section \<open>Facts\<close>

text \<open>What a run of the start loop over \<open>xs\<close> leaves: the prefix \<open>ok\<close> started, the hooks it called.\<close>

definition start_post ::
  "'o hooks \<Rightarrow> 'o list \<Rightarrow> 'o list \<Rightarrow> 'o event list \<Rightarrow> ('o, 'w) lifecycle \<Rightarrow> 'x hook_exn option \<Rightarrow> bool" where
  "start_post h xs s log l' r \<longleftrightarrow> (\<exists>ok rest. xs = ok @ rest \<and> l_started l' = Some (s @ ok) \<and>
    (case r of
       None \<Rightarrow> rest = [] \<and> l_log l' = log @ map PostConstruct (filter (has_post_construct h) ok)
     | Some e \<Rightarrow> \<exists>i rest'. rest = i # rest' \<and> has_post_construct h i \<and>
         l_log l' = log @ map PostConstruct (filter (has_post_construct h) ok @ [i])))"

lemma start_post_Cons:
  assumes "start_post h xs (s @ [i]) (if has_post_construct h i then log @ [PostConstruct i] else log) l' r"
  shows "start_post h (i # xs) s log l' r"
proof -
  obtain ok rest where ok: "xs = ok @ rest" "l_started l' = Some (s @ i # ok)"
    "case r of
       None \<Rightarrow> rest = [] \<and> l_log l' = (if has_post_construct h i then log @ [PostConstruct i] else log)
         @ map PostConstruct (filter (has_post_construct h) ok)
     | Some e \<Rightarrow> \<exists>j rest'. rest = j # rest' \<and> has_post_construct h j \<and>
         l_log l' = (if has_post_construct h i then log @ [PostConstruct i] else log)
           @ map PostConstruct (filter (has_post_construct h) ok @ [j])"
    using assms by (auto simp: start_post_def)
  then show ?thesis
    unfolding start_post_def
    by (intro exI [of _ "i # ok"] exI [of _ rest]) (auto split: option.splits if_splits)
qed

lemma start_each_spec:
  assumes "start_each h hook xs l = (l', r)" and "l_started l = Some s"
  shows "start_post h xs s (l_log l) l' r"
  using assms
proof (induction xs arbitrary: l s)
  case Nil
  then show ?case by (auto simp: start_post_def)
next
  case (Cons i xs)
  show ?case
  proof (cases "has_post_construct h i")
    case False
    with Cons.prems Cons.IH [of "mark_started i l" "s @ [i]"] start_post_Cons [of h xs s i "l_log l" l' r]
    show ?thesis by (simp add: mark_started_def)
  next
    case True
    obtain l1 r1 where c: "call_hook hook (PostConstruct i) l = (l1, r1)" by (rule prod.exhaust)
    then have l1: "l_log l1 = l_log l @ [PostConstruct i]" "l_started l1 = Some s"
      using Cons.prems(2) by (auto simp: call_hook_def split: prod.splits)
    show ?thesis
    proof (cases r1)
      case None
      with True c Cons.prems Cons.IH [of "mark_started i l1" "s @ [i]"] l1
        start_post_Cons [of h xs s i "l_log l" l' r]
      show ?thesis by (simp add: mark_started_def)
    next
      case (Some e)
      with True c Cons.prems l1 show ?thesis
        unfolding start_post_def by (intro exI [of _ "[]"] exI [of _ "i # xs"]) auto
    qed
  qed
qed

lemma stop_each_spec:
  assumes "stop_each h hook xs errors l = (l', res)"
  shows "l_instances l' = l_instances l \<and> l_started l' = l_started l \<and>
    (case res of
       Inr es \<Rightarrow> l_log l' = l_log l @ map PreDestroy (filter (has_pre_destroy h) xs)
     | Inl e \<Rightarrow> \<exists>n. l_log l' = l_log l @ take n (map PreDestroy (filter (has_pre_destroy h) xs)))"
  using assms
proof (induction h hook xs errors l rule: stop_each.induct)
  case (2 h hook i xs errors l)
  show ?case
  proof (cases "has_pre_destroy h i")
    case False
    with 2 show ?thesis by (auto split: sum.splits)
  next
    case True
    obtain l1 r1 where c: "call_hook hook (PreDestroy i) l = (l1, r1)" by (rule prod.exhaust)
    then have l1: "l_log l1 = l_log l @ [PreDestroy i]" "l_started l1 = l_started l" "l_instances l1 = l_instances l"
      by (auto simp: call_hook_def split: prod.splits)
    have more: "\<exists>n. A @ [x] @ take m ys = A @ take n (x # ys)" for A :: "'a event list" and x m ys
      by (intro exI [of _ "Suc m"]) simp
    show ?thesis
    proof (cases r1)
      case None
      from 2(1) [OF True c [symmetric] None] 2(4) True c None l1 show ?thesis
        using more by (auto split: sum.splits)
    next
      case (Some x)
      show ?thesis
      proof (cases x)
        case (Exn e)
        from 2(2) [OF True c [symmetric] Some Exn] 2(4) True c Some Exn l1 show ?thesis
          using more by (auto split: sum.splits)
      next
        case (BaseExn e)
        have "\<exists>n. [PreDestroy i] = take n (PreDestroy i # map PreDestroy (filter (has_pre_destroy h) xs))"
          by (rule exI [of _ "Suc 0"]) simp
        with 2(4) True c Some BaseExn l1 show ?thesis by auto
      qed
    qed
  qed
qed (auto split: sum.splits)

lemma stop_each_total:
  assumes "\<forall>i w e. snd (hook (PreDestroy i) w) \<noteq> Some (BaseExn e)"
  shows "\<exists>l' es. stop_each h hook xs errors l = (l', Inr es)"
proof (induction xs arbitrary: errors l)
  case (Cons i xs)
  obtain l1 r1 where c: "call_hook hook (PreDestroy i) l = (l1, r1)" by (rule prod.exhaust)
  then have "r1 \<noteq> Some (BaseExn e)" for e
    using assms [rule_format, of i "l_world l" e] by (auto simp: call_hook_def split: prod.splits)
  with c Cons show ?case by (auto split: option.splits hook_exn.splits)
qed simp

section \<open>Properties\<close>

text \<open>
  C10: Whatever \<open>start\<close> reaches, \<open>stop\<close> undoes: the hooks called are \<open>post_construct\<close> of the
  started prefix in order (and of the instance whose hook failed, if one did), then \<open>pre_destroy\<close>
  of exactly the started instances in reverse order, each once, even when some of them raise an \<open>Exception\<close>
  (anything else ends the teardown, and is excluded here).
\<close>

theorem start_stop_pairing:
  assumes "\<forall>i w e. snd (hook (PreDestroy i) w) \<noteq> Some (BaseExn e)"
    and "start h hook (make_lifecycle instances w) = (l1, r)" and "stop h hook l1 = (l2, res)"
  shows "\<exists>ok rest. instances = ok @ rest \<and> (r = None \<longleftrightarrow> rest = []) \<and>
    (rest \<noteq> [] \<longrightarrow> has_post_construct h (hd rest)) \<and>
    l_log l2 = map PostConstruct (filter (has_post_construct h) (ok @ take 1 rest)) @
      map PreDestroy (filter (has_pre_destroy h) (rev ok))"
proof -
  have post: "start_post h instances [] [] l1 r"
    using start_each_spec [of h hook instances "(make_lifecycle instances w)\<lparr>l_started := Some []\<rparr>" l1 r "[]"] assms(2)
    by (simp add: start_def make_lifecycle_def)
  then obtain ok rest where ok: "instances = ok @ rest" "l_started l1 = Some ok"
    "(r = None \<longleftrightarrow> rest = []) \<and> (rest \<noteq> [] \<longrightarrow> has_post_construct h (hd rest)) \<and>
     l_log l1 = map PostConstruct (filter (has_post_construct h) (ok @ take 1 rest))"
    by (auto simp: start_post_def split: option.splits)
  obtain l' es where st: "stop_each h hook (rev ok) [] l1 = (l', Inr es)"
    using stop_each_total [OF assms(1)] by blast
  with assms(3) ok(2) have "l2 = l'" by (auto simp: stop_def split: list.splits)
  with stop_each_spec [OF st] ok show ?thesis by (intro exI [of _ ok] exI [of _ rest]) simp
qed

theorem start_stop_pairing_witness:
  "\<exists>l1 l2 r res. start \<lparr>has_post_construct = (\<lambda>_. True), has_run_once = (\<lambda>_. False), has_pre_destroy = (\<lambda>_. True)\<rparr>
      (\<lambda>ev w. (w, if ev = PostConstruct (3::nat) \<or> ev = PreDestroy 2 then Some (Exn ''boom'') else None))
      (make_lifecycle [1, 2, 3, 4] ()) = (l1, r) \<and>
    stop \<lparr>has_post_construct = (\<lambda>_. True), has_run_once = (\<lambda>_. False), has_pre_destroy = (\<lambda>_. True)\<rparr>
      (\<lambda>ev w. (w, if ev = PostConstruct (3::nat) \<or> ev = PreDestroy 2 then Some (Exn ''boom'') else None)) l1 = (l2, res) \<and>
    l_log l2 = [PostConstruct 1, PostConstruct 2, PostConstruct 3, PreDestroy 2, PreDestroy 1] \<and>
    res = Inl (ExceptionGroup [''boom''])"
proof -
  define h :: "nat hooks" where
    "h = \<lparr>has_post_construct = (\<lambda>_. True), has_run_once = (\<lambda>_. False), has_pre_destroy = (\<lambda>_. True)\<rparr>"
  define hook :: "nat event \<Rightarrow> unit \<Rightarrow> unit \<times> string hook_exn option" where
    "hook = (\<lambda>ev w. (w, if ev = PostConstruct (3::nat) \<or> ev = PreDestroy 2 then Some (Exn ''boom'') else None))"
  obtain l1 r where l1: "start h hook (make_lifecycle [1, 2, 3, 4] ()) = (l1, r)" by (rule prod.exhaust)
  obtain l2 res where l2: "stop h hook l1 = (l2, res)" by (rule prod.exhaust)
  have no_base: "\<forall>i w e. snd (hook (PreDestroy i) w) \<noteq> Some (BaseExn e)" by (simp add: hook_def)
  from start_stop_pairing [OF no_base l1 l2] obtain ok rest where pair: "[1, 2, 3, 4] = ok @ rest"
    "l_log l2 = map PostConstruct (filter (has_post_construct h) (ok @ take 1 rest)) @
      map PreDestroy (filter (has_pre_destroy h) (rev ok))" by blast
  have run: "r = Some (Exn ''boom'')" "l_log l2 = [PostConstruct 1, PostConstruct 2, PostConstruct 3, PreDestroy 2, PreDestroy 1]"
    "res = Inl (ExceptionGroup [''boom''])"
    using l1 l2 by (auto simp: start_def stop_def h_def hook_def make_lifecycle_def call_hook_def mark_started_def)
  show ?thesis using l1 l2 run unfolding h_def hook_def by blast
qed

end
