(* ===== verification/Shared_Memory.thy ===== *)
theory Shared_Memory
  imports Prelude "HOL-Library.Word"
begin

text \<open>
  Shared memory as bytes: a \<open>memoryview\<close> is a list of bytes; \<open>struct.Struct\<close> with the formats
  \<open><B\<close>, \<open><H\<close>, \<open><I\<close>, \<open><Q\<close> is the little-endian encoding of a number in 1, 2, 4, 8 bytes, with its
  range and buffer-length errors. \<open>ghi_o\<close> is the write of \<open>xime/core/shared/_mp.py\<close>. The
  locale \<open>cells\<close> is what the layouts promise about the numbered fields they place in a buffer.
\<close>

unbundle bit_operations_syntax

type_synonym byte = "8 word"
type_synonym buffer = "byte list"

datatype mem_error =
    StructRange
  | StructShort
  | SliceLength
  | ByteRange
  | MemIndex

section \<open>Little-endian numbers\<close>

fun le_bytes :: "nat \<Rightarrow> nat \<Rightarrow> buffer" where
  "le_bytes 0 v = []"
| "le_bytes (Suc n) v = word_of_nat (v mod 256) # le_bytes n (v div 256)"

fun le_value :: "buffer \<Rightarrow> nat" where
  "le_value [] = 0"
| "le_value (b # bs) = unat b + 256 * le_value bs"

lemma length_le_bytes [simp]: "length (le_bytes n v) = n"
  by (induction n arbitrary: v) auto

lemma unat_byte [simp]: "v < 256 \<Longrightarrow> unat (word_of_nat v :: byte) = v"
  by (simp add: unat_of_nat)

lemma unat_byte_less [simp]: "unat (b :: byte) < 256"
  using unsigned_less [of b] by simp

lemma le_value_bytes [simp]: "le_value (le_bytes n v) = v mod 256 ^ n"
  by (induction n arbitrary: v) (simp_all add: mod_mult2_eq)

lemma le_bytes_value [simp]: "le_bytes (length bs) (le_value bs) = bs"
proof (induction bs)
  case (Cons b bs)
  have "(unat b + 256 * le_value bs) mod 256 = unat b" "(unat b + 256 * le_value bs) div 256 = le_value bs"
    using unat_byte_less [of b] by simp_all
  with Cons show ?case by simp
qed simp

lemma le_value_less: "le_value bs < 256 ^ length bs"
proof (induction bs)
  case (Cons b bs)
  have "unat b + 256 * le_value bs < 256 + 256 * le_value bs" using unat_byte_less [of b] by simp
  also have "\<dots> \<le> 256 * 256 ^ length bs" using Cons by simp
  finally show ?case by simp
qed simp

definition pack_le :: "nat \<Rightarrow> nat \<Rightarrow> mem_error + buffer" where
  "pack_le n v = (if v < 256 ^ n then Inr (le_bytes n v) else Inl StructRange)"

section \<open>Reading and writing a buffer\<close>

text \<open>\<open>buf[off : off + n]\<close> clamps to the end; assigning to it needs as many bytes as it has.\<close>

definition get_slice :: "buffer \<Rightarrow> nat \<Rightarrow> nat \<Rightarrow> buffer" where
  "get_slice buf off n = take n (drop off buf)"

definition put_slice :: "buffer \<Rightarrow> nat \<Rightarrow> buffer \<Rightarrow> mem_error + buffer" where
  "put_slice buf off bs =
     (if length (get_slice buf off (length bs)) = length bs
      then Inr (take off buf @ bs @ drop (off + length bs) buf) else Inl SliceLength)"

definition unpack_le :: "nat \<Rightarrow> buffer \<Rightarrow> nat \<Rightarrow> mem_error + nat" where
  "unpack_le n buf off =
     (if off + n \<le> length buf then Inr (le_value (get_slice buf off n)) else Inl StructShort)"

definition pack_into :: "nat \<Rightarrow> buffer \<Rightarrow> nat \<Rightarrow> nat \<Rightarrow> mem_error + buffer" where
  "pack_into n buf off v =
     sbind (pack_le n v) (\<lambda>bs. if off + n \<le> length buf then put_slice buf off bs else Inl StructShort)"

definition ghi_o :: "nat \<Rightarrow> buffer \<Rightarrow> nat \<Rightarrow> nat \<Rightarrow> mem_error + buffer" where
  "ghi_o n buf off v = sbind (pack_le n v) (\<lambda>bs. put_slice buf off bs)"

definition get_byte :: "buffer \<Rightarrow> nat \<Rightarrow> mem_error + byte" where
  "get_byte buf i = (if i < length buf then Inr (buf ! i) else Inl MemIndex)"

definition put_byte :: "buffer \<Rightarrow> nat \<Rightarrow> nat \<Rightarrow> mem_error + buffer" where
  "put_byte buf i v =
     (if i \<ge> length buf then Inl MemIndex
      else if v \<ge> 256 then Inl ByteRange
      else Inr (buf[i := word_of_nat v]))"

text \<open>Every write is \<open>blit\<close> of some bytes at an offset inside the buffer.\<close>

definition blit :: "nat \<Rightarrow> buffer \<Rightarrow> buffer \<Rightarrow> buffer" where
  "blit off bs buf = take off buf @ bs @ drop (off + length bs) buf"

lemma length_blit [simp]: "off + length bs \<le> length buf \<Longrightarrow> length (blit off bs buf) = length buf"
  by (simp add: blit_def)

lemma length_get_slice [simp]: "off + n \<le> length buf \<Longrightarrow> length (get_slice buf off n) = n"
  by (simp add: get_slice_def)

lemma nth_blit:
  "off + length bs \<le> length buf \<Longrightarrow> i < length buf \<Longrightarrow>
     blit off bs buf ! i = (if off \<le> i \<and> i < off + length bs then bs ! (i - off) else buf ! i)"
  by (auto simp: blit_def nth_append)

lemma nth_get_slice: "off + n \<le> length buf \<Longrightarrow> i < n \<Longrightarrow> get_slice buf off n ! i = buf ! (off + i)"
  by (simp add: get_slice_def)

text \<open>Read-after-write, and the frame: a read disjoint from a write does not see it.\<close>

lemma get_blit_same [simp]:
  "off + length bs \<le> length buf \<Longrightarrow> n = length bs \<Longrightarrow> get_slice (blit off bs buf) off n = bs"
  by (simp add: get_slice_def blit_def)

lemma blit_get_slice: "off + n \<le> length buf \<Longrightarrow> blit off (get_slice buf off n) buf = buf"
  by (rule nth_equalityI) (auto simp: nth_blit nth_get_slice)

definition apart :: "nat \<Rightarrow> nat \<Rightarrow> nat \<Rightarrow> nat \<Rightarrow> bool" where
  "apart a m b n \<longleftrightarrow> a + m \<le> b \<or> b + n \<le> a"

lemma get_blit_apart:
  assumes "off + length bs \<le> length buf" and "o' + n \<le> length buf" and "apart off (length bs) o' n"
  shows "get_slice (blit off bs buf) o' n = get_slice buf o' n"
  by (rule nth_equalityI) (use assms in \<open>auto simp: nth_get_slice nth_blit apart_def\<close>)

lemma put_slice_blit: "off + length bs \<le> length buf \<Longrightarrow> put_slice buf off bs = Inr (blit off bs buf)"
  by (simp add: put_slice_def blit_def)

lemma ghi_o_blit:
  "v < 256 ^ n \<Longrightarrow> off + n \<le> length buf \<Longrightarrow> ghi_o n buf off v = Inr (blit off (le_bytes n v) buf)"
  by (simp add: ghi_o_def pack_le_def put_slice_blit)

lemma pack_into_blit:
  "v < 256 ^ n \<Longrightarrow> off + n \<le> length buf \<Longrightarrow> pack_into n buf off v = Inr (blit off (le_bytes n v) buf)"
  by (simp add: pack_into_def pack_le_def put_slice_blit)

lemma put_byte_blit:
  "i < length buf \<Longrightarrow> v < 256 \<Longrightarrow> put_byte buf i v = Inr (blit i [word_of_nat v] buf)"
  by (auto simp: put_byte_def blit_def upd_conv_take_nth_drop)

lemma get_byte_slice: "i < length buf \<Longrightarrow> get_byte buf i = Inr (hd (get_slice buf i 1))"
  by (simp add: get_byte_def get_slice_def hd_drop_conv_nth)

lemma unpack_le_slice: "off + n \<le> length buf \<Longrightarrow> unpack_le n buf off = Inr (le_value (get_slice buf off n))"
  by (simp add: unpack_le_def)

section \<open>Placed fields\<close>

text \<open>
  The contract of a layout: the fields it names lie inside the block and do not overlap. Then the
  contents of all fields are a function that a write updates at one point.
\<close>

definition fields_of :: "('l \<Rightarrow> nat) \<Rightarrow> ('l \<Rightarrow> nat) \<Rightarrow> buffer \<Rightarrow> 'l \<Rightarrow> buffer" where
  "fields_of off sz buf l = get_slice buf (off l) (sz l)"

locale placed =
  fixes off :: "'l \<Rightarrow> nat" and sz :: "'l \<Rightarrow> nat" and total :: nat
  assumes placed_apart: "l \<noteq> l' \<Longrightarrow> apart (off l) (sz l) (off l') (sz l')"
    and placed_inside: "off l + sz l \<le> total"
begin

lemma inside: "total \<le> length buf \<Longrightarrow> off l + sz l \<le> length buf"
  using placed_inside [of l] by simp

lemma length_field: "total \<le> length buf \<Longrightarrow> length (fields_of off sz buf l) = sz l"
  using inside [of buf l] by (simp add: fields_of_def)

lemma put_field_ok:
  "total \<le> length buf \<Longrightarrow> length bs = sz l \<Longrightarrow> put_slice buf (off l) bs = Inr (blit (off l) bs buf)"
  using inside [of buf l] by (simp add: put_slice_blit)

lemma length_put: "total \<le> length buf \<Longrightarrow> length bs = sz l \<Longrightarrow> length (blit (off l) bs buf) = length buf"
  using inside [of buf l] by simp

lemma fields_put:
  assumes "total \<le> length buf" and "length bs = sz l"
  shows "fields_of off sz (blit (off l) bs buf) = (fields_of off sz buf)(l := bs)"
proof
  fix l'
  have inl: "off l + length bs \<le> length buf" using inside [OF assms(1), of l] assms(2) by simp
  show "fields_of off sz (blit (off l) bs buf) l' = ((fields_of off sz buf)(l := bs)) l'"
  proof (cases "l' = l")
    case True
    with inl assms(2) show ?thesis by (simp add: fields_of_def)
  next
    case False
    then have "apart (off l) (length bs) (off l') (sz l')" using placed_apart [of l l'] assms(2) by simp
    with False show ?thesis using get_blit_apart [OF inl inside [OF assms(1), of l']] by (simp add: fields_of_def)
  qed
qed

lemma ghi_o_field:
  assumes "total \<le> length buf" and "x < 256 ^ sz l" and "n = sz l"
  shows "ghi_o n buf (off l) x = Inr (blit (off l) (le_bytes (sz l) x) buf)"
  using inside [OF assms(1), of l] assms(2,3) by (simp add: ghi_o_blit)

lemma unpack_field:
  "total \<le> length buf \<Longrightarrow> n = sz l \<Longrightarrow> unpack_le n buf (off l) = Inr (le_value (fields_of off sz buf l))"
  using inside [of buf l] by (simp add: unpack_le_slice fields_of_def)

lemma byte_field:
  assumes "total \<le> length buf" and "sz l = 1"
  shows "get_byte buf (off l) = Inr (hd (fields_of off sz buf l))"
    and "le_value (fields_of off sz buf l) = unat (hd (fields_of off sz buf l))"
    and "x < 256 \<Longrightarrow> put_byte buf (off l) x = Inr (blit (off l) (le_bytes 1 x) buf)"
proof -
  have inl: "off l < length buf" using inside [OF assms(1), of l] assms(2) by simp
  show "get_byte buf (off l) = Inr (hd (fields_of off sz buf l))"
    using get_byte_slice [OF inl] assms(2) by (simp add: fields_of_def)
  have "length (fields_of off sz buf l) = 1" using length_field [OF assms(1)] assms(2) by simp
  then show "le_value (fields_of off sz buf l) = unat (hd (fields_of off sz buf l))"
    by (cases "fields_of off sz buf l") simp_all
  show "x < 256 \<Longrightarrow> put_byte buf (off l) x = Inr (blit (off l) (le_bytes 1 x) buf)"
    using put_byte_blit [OF inl] by simp
qed

end

section \<open>Numbered cells\<close>

text \<open>
  The contract of a family of cells in a memory: reading gives a value of the cell, writing
  a value of the cell makes it what is read and changes no other cell of the family.
\<close>

locale cells =
  fixes rd :: "'i \<Rightarrow> 'm \<Rightarrow> 'e + 'v"
    and wr :: "'i \<Rightarrow> 'v \<Rightarrow> 'm \<Rightarrow> 'e + 'm"
    and good :: "'m \<Rightarrow> bool"
    and idx :: "'i \<Rightarrow> bool"
    and val :: "'i \<Rightarrow> 'v \<Rightarrow> bool"
  assumes rd_good: "good m \<Longrightarrow> idx i \<Longrightarrow> \<exists>v. rd i m = Inr v \<and> val i v"
    and wr_good: "good m \<Longrightarrow> idx i \<Longrightarrow> val i v \<Longrightarrow>
      \<exists>m'. wr i v m = Inr m' \<and> good m' \<and> rd i m' = Inr v \<and> (\<forall>j. idx j \<longrightarrow> j \<noteq> i \<longrightarrow> rd j m' = rd j m)"
begin

lemma write_all:
  assumes "good m" and "\<forall>i \<in> set ixs. idx i \<and> val i (f i)"
  shows "\<exists>m'. sfold (\<lambda>i. wr i (f i)) ixs m = Inr m' \<and> good m' \<and>
    (\<forall>j. idx j \<longrightarrow> rd j m' = (if j \<in> set ixs then Inr (f j) else rd j m))"
  using assms
proof (induction ixs arbitrary: m)
  case (Cons i ixs)
  then obtain m1 where m1: "wr i (f i) m = Inr m1" "good m1" "rd i m1 = Inr (f i)"
    "\<forall>j. idx j \<longrightarrow> j \<noteq> i \<longrightarrow> rd j m1 = rd j m" using wr_good by (metis list.set_intros(1))
  from Cons.IH [OF m1(2)] Cons.prems(2) obtain m2 where m2: "sfold (\<lambda>i. wr i (f i)) ixs m1 = Inr m2" "good m2"
    "\<forall>j. idx j \<longrightarrow> rd j m2 = (if j \<in> set ixs then Inr (f j) else rd j m1)" by auto
  from m1 m2 show ?case by (intro exI [of _ m2]) auto
qed simp

lemma update_cell:
  assumes "good m" and "idx i" and "rd i m = Inr v" and "val i (f v)"
  shows "\<exists>m'. sbind (rd i m) (\<lambda>v. wr i (f v) m) = Inr m' \<and> good m' \<and> rd i m' = Inr (f v) \<and>
    (\<forall>j. idx j \<longrightarrow> j \<noteq> i \<longrightarrow> rd j m' = rd j m)"
  using wr_good [OF assms(1,2,4)] assms(3) by simp

end

end
