(* ===== verification/Link_Layout.thy ===== *)
theory Link_Layout
  imports Shared_Memory
begin

text \<open>
  The byte layout of a channel (\<open>xime/core/link/_layout.py\<close>): header, sequence counter, missed
  counters, one bitmap of unread rows per reader, and the rows, one region per writer. Offsets
  are the code's arithmetic. \<open>loc\<close> names every field; \<open>view\<close> is the content of all fields, in
  terms of which the operations are updates of a function.
\<close>

section \<open>Layout\<close>

datatype link_error =
    Mem mem_error
  | BadMagic
  | BadVersion nat
  | BadGeometry "nat \<times> nat \<times> nat"
  | UnknownChannel string
  | PayloadTooLong nat nat
  | KeyTooLong nat
  | LinkIndexError nat
  | UnknownHandlerChannel string
  | HandlerResultType
  | LinkProcessCount nat

definition mem :: "mem_error + 'a \<Rightarrow> link_error + 'a" where
  "mem r = (case r of Inl e \<Rightarrow> Inl (Mem e) | Inr x \<Rightarrow> Inr x)"

lemma mem_simps [simp, err_simps]: "mem (Inl e) = Inl (Mem e)" "mem (Inr x) = Inr x"
  by (simp_all add: mem_def)

definition magic :: buffer where "magic = [0x58, 0x4C, 0x4E, 0x4B]"
definition layout_version :: nat where "layout_version = 1"
definition seq_offset :: nat where "seq_offset = 16"
definition missed_base :: nat where "missed_base = seq_offset + 8"
definition key_bytes :: nat where "key_bytes = 32"
definition correlation_bytes :: nat where "correlation_bytes = 16"
definition row_header_bytes :: nat where "row_header_bytes = 72"
definition no_taker :: nat where "no_taker = 255"
definition max_processes :: nat where "max_processes = 255"
definition kind_announce :: nat where "kind_announce = 0"
definition kind_request :: nat where "kind_request = 1"
definition kind_reply :: nat where "kind_reply = 2"
definition kind_failure :: nat where "kind_failure = 3"

lemmas layout_consts = seq_offset_def missed_base_def key_bytes_def correlation_bytes_def
  row_header_bytes_def

record layout =
  rows_per_writer :: nat
  payload_bytes :: nat
  process_count :: nat

definition align8 :: "nat \<Rightarrow> nat" where
  "align8 v = nat ((int v + 7) AND NOT 7)"

definition total_rows :: "layout \<Rightarrow> nat" where
  "total_rows L = rows_per_writer L * process_count L"

definition row_bytes :: "layout \<Rightarrow> nat" where
  "row_bytes L = row_header_bytes + payload_bytes L"

definition bitmap_offset :: "layout \<Rightarrow> nat" where
  "bitmap_offset L = align8 (missed_base + 8 * process_count L)"

definition bitmap_stride :: "layout \<Rightarrow> nat" where
  "bitmap_stride L = align8 ((total_rows L + 7) div 8)"

definition rows_offset :: "layout \<Rightarrow> nat" where
  "rows_offset L = bitmap_offset L + bitmap_stride L * process_count L"

definition region_bytes :: "layout \<Rightarrow> nat" where
  "region_bytes L = row_bytes L * rows_per_writer L"

definition total_bytes :: "layout \<Rightarrow> nat" where
  "total_bytes L = rows_offset L + region_bytes L * process_count L"

section \<open>Header and counters\<close>

definition missed_offset :: "nat \<Rightarrow> nat" where
  "missed_offset i = missed_base + 8 * i"

text \<open>\<open><4sHHII\<close>: the fields in order, each within its width.\<close>

definition pack_header :: "layout \<Rightarrow> mem_error + buffer" where
  "pack_header L =
     sbind (pack_le 2 layout_version) (\<lambda>v.
       sbind (pack_le 2 (process_count L)) (\<lambda>p.
         sbind (pack_le 4 (rows_per_writer L)) (\<lambda>r.
           sbind (pack_le 4 (payload_bytes L)) (\<lambda>b. Inr (magic @ v @ p @ r @ b)))))"

definition write_header :: "layout \<Rightarrow> buffer \<Rightarrow> mem_error + buffer" where
  "write_header L buf =
     sbind (pack_header L) (\<lambda>h.
       sbind (if 16 \<le> length buf then put_slice buf 0 h else Inl StructShort) (\<lambda>buf.
         sbind (pack_into 8 buf seq_offset 0) (\<lambda>buf.
           sfold (\<lambda>i buf. pack_into 8 buf (missed_offset i) 0) [0..<process_count L] buf)))"

definition verify_header :: "layout \<Rightarrow> buffer \<Rightarrow> link_error + unit" where
  "verify_header L buf =
     (if length buf < 16 then Inl (Mem StructShort)
      else if get_slice buf 0 4 \<noteq> magic then Inl BadMagic
      else let version = le_value (get_slice buf 4 2);
               actual = (le_value (get_slice buf 6 2), le_value (get_slice buf 8 4), le_value (get_slice buf 12 4))
           in if version \<noteq> layout_version then Inl (BadVersion version)
              else if actual \<noteq> (process_count L, rows_per_writer L, payload_bytes L) then Inl (BadGeometry actual)
              else Inr ())"

definition read_missed :: "buffer \<Rightarrow> nat \<Rightarrow> mem_error + nat" where
  "read_missed buf i = unpack_le 8 buf (missed_offset i)"

definition bump_missed :: "buffer \<Rightarrow> nat \<Rightarrow> mem_error + buffer" where
  "bump_missed buf i =
     sbind (unpack_le 8 buf (missed_offset i)) (\<lambda>cur. ghi_o 8 buf (missed_offset i) (cur + 1))"

definition next_sequence :: "buffer \<Rightarrow> mem_error + buffer \<times> nat" where
  "next_sequence buf =
     sbind (unpack_le 8 buf seq_offset) (\<lambda>c.
       sbind (ghi_o 8 buf seq_offset (c + 1)) (\<lambda>buf. Inr (buf, c + 1)))"

section \<open>Bitmaps\<close>

definition bit_offset :: "layout \<Rightarrow> nat \<Rightarrow> nat \<Rightarrow> nat \<times> byte" where
  "bit_offset L reader row =
     (bitmap_offset L + bitmap_stride L * reader + row div 8, push_bit (row mod 8) 1)"

definition set_bit_at :: "layout \<Rightarrow> nat \<Rightarrow> nat \<Rightarrow> buffer \<Rightarrow> mem_error + buffer" where
  "set_bit_at L reader row buf =
     (case bit_offset L reader row of (pos, m) \<Rightarrow>
        sbind (get_byte buf pos) (\<lambda>b. put_byte buf pos (unat (b OR m))))"

definition clear_bit_at :: "layout \<Rightarrow> nat \<Rightarrow> nat \<Rightarrow> buffer \<Rightarrow> mem_error + buffer" where
  "clear_bit_at L reader row buf =
     (case bit_offset L reader row of (pos, m) \<Rightarrow>
        sbind (get_byte buf pos) (\<lambda>b. put_byte buf pos (unat (b AND (0xFF XOR m)))))"

definition test_bit_at :: "layout \<Rightarrow> buffer \<Rightarrow> nat \<Rightarrow> nat \<Rightarrow> mem_error + bool" where
  "test_bit_at L buf reader row =
     (case bit_offset L reader row of (pos, m) \<Rightarrow>
        sbind (get_byte buf pos) (\<lambda>b. Inr (b AND m \<noteq> 0)))"

definition band :: "layout \<Rightarrow> buffer \<Rightarrow> nat \<Rightarrow> buffer" where
  "band L buf reader = get_slice buf (bitmap_offset L + bitmap_stride L * reader) (bitmap_stride L)"

fun bit_length :: "nat \<Rightarrow> nat" where
  "bit_length 0 = 0"
| "bit_length n = Suc (bit_length (n div 2))"

text \<open>
  The loop over the set bits of the band: \<open>low = value & -value\<close>, \<open>row = low.bit_length() - 1\<close>,
  \<open>value ^= low\<close>. The band is a non-negative integer, so the loop stops at zero.
\<close>

lemma lowest_bit:
  assumes "0 < (v::int)"
  obtains k where "v AND - v = 2 ^ k" and "bit v k" and "\<And>j. j < k \<Longrightarrow> \<not> bit v j"
proof -
  have "\<exists>k. v AND - v = 2 ^ k \<and> bit v k \<and> (\<forall>j < k. \<not> bit v j)"
    using assms
  proof (induction "nat v" arbitrary: v rule: less_induct)
    case less
    show ?case
    proof (cases "even v")
      case True
      then obtain w where w: "v = 2 * w" by blast
      with less(2) have "nat w < nat v" "0 < w" by simp_all
      then obtain k where k: "w AND - w = 2 ^ k" "bit w k" "\<forall>j < k. \<not> bit w j" using less(1) by blast
      have "v AND - v = 2 * (w AND - w)"
        by (rule bit_eqI) (auto simp add: w bit_simps bit_double_iff simp flip: mult_minus_right)
      with k show ?thesis
        by (intro exI [of _ "Suc k"]) (auto simp: w bit_double_iff less_Suc_eq_0_disj)
    next
      case False
      then obtain w where w: "v = 2 * w + 1" by (blast elim: oddE)
      have neg: "- v = 2 * NOT w + 1" by (simp add: w not_int_def)
      have "bit (v AND - v) n = bit (1::int) n" for n
        unfolding bit_and_iff neg unfolding w
        by (cases n) (simp_all add: bit_0 bit_Suc bit_and_iff bit_not_iff)
      then have "v AND - v = 1" by (intro bit_eqI) blast
      with False show ?thesis by (intro exI [of _ 0]) (simp add: bit_0)
    qed
  qed
  with that show ?thesis by blast
qed

lemma xor_lowest:
  assumes "0 < (v::int)"
  shows "0 \<le> v XOR (v AND - v)" and "v XOR (v AND - v) < v"
proof -
  obtain k where k: "v AND - v = 2 ^ k" "bit v k" by (rule lowest_bit [OF assms])
  have "v XOR 2 ^ k = unset_bit k v" using k(2) by (auto intro!: bit_eqI simp: bit_simps)
  moreover have "unset_bit k v = v - 2 ^ k" using k(2) by (simp add: unset_bit_eq of_bool_def)
  moreover have "0 \<le> unset_bit k v" using assms by simp
  ultimately show "0 \<le> v XOR (v AND - v)" "v XOR (v AND - v) < v" using k(1) by simp_all
qed

function (sequential) unread_loop :: "nat \<Rightarrow> int \<Rightarrow> nat list" where
  "unread_loop rows value =
     (if value \<le> 0 then []
      else let low = value AND - value;
               row = bit_length (nat low) - 1;
               rest = unread_loop rows (value XOR low)
           in if row < rows then row # rest else rest)"
  by pat_completeness auto
termination
  by (relation "measure (\<lambda>(rows, value). nat value)") (auto simp: xor_lowest not_le)

declare unread_loop.simps [simp del]

definition unread_rows :: "layout \<Rightarrow> buffer \<Rightarrow> nat \<Rightarrow> nat list" where
  "unread_rows L buf reader =
     (let value = le_value (band L buf reader)
      in if value = 0 then [] else unread_loop (total_rows L) (int value))"

definition any_unread :: "layout \<Rightarrow> buffer \<Rightarrow> nat \<Rightarrow> mem_error + nat list" where
  "any_unread L buf row =
     sbind (smap (\<lambda>r. sbind (test_bit_at L buf r row) (\<lambda>b. Inr (r, b))) [0..<process_count L])
       (\<lambda>bs. Inr (map fst (filter snd bs)))"

section \<open>Rows\<close>

datatype row_field =
  FSeq | FWritten | FCorrelation | FKey | FLength | FComplete | FKind | FTaker | FSender | FPayload

fun field_offset :: "row_field \<Rightarrow> nat" where
  "field_offset FSeq = 0"
| "field_offset FWritten = 8"
| "field_offset FCorrelation = 16"
| "field_offset FKey = 32"
| "field_offset FLength = 64"
| "field_offset FComplete = 68"
| "field_offset FKind = 69"
| "field_offset FTaker = 70"
| "field_offset FSender = 71"
| "field_offset FPayload = 72"

definition row_offset :: "layout \<Rightarrow> nat \<Rightarrow> nat" where
  "row_offset L row = rows_offset L + row_bytes L * row"

definition rows_of :: "layout \<Rightarrow> nat \<Rightarrow> nat list" where
  "rows_of L writer = [writer * rows_per_writer L..<writer * rows_per_writer L + rows_per_writer L]"

definition read_u64 :: "layout \<Rightarrow> buffer \<Rightarrow> nat \<Rightarrow> row_field \<Rightarrow> mem_error + nat" where
  "read_u64 L buf row f = unpack_le 8 buf (row_offset L row + field_offset f)"

definition write_u64 :: "layout \<Rightarrow> nat \<Rightarrow> row_field \<Rightarrow> nat \<Rightarrow> buffer \<Rightarrow> mem_error + buffer" where
  "write_u64 L row f v buf = ghi_o 8 buf (row_offset L row + field_offset f) v"

definition read_u8 :: "layout \<Rightarrow> buffer \<Rightarrow> nat \<Rightarrow> row_field \<Rightarrow> mem_error + nat" where
  "read_u8 L buf row f = sbind (get_byte buf (row_offset L row + field_offset f)) (\<lambda>b. Inr (unat b))"

definition write_u8 :: "layout \<Rightarrow> nat \<Rightarrow> row_field \<Rightarrow> nat \<Rightarrow> buffer \<Rightarrow> mem_error + buffer" where
  "write_u8 L row f v buf = put_byte buf (row_offset L row + field_offset f) v"

definition read_length :: "layout \<Rightarrow> buffer \<Rightarrow> nat \<Rightarrow> mem_error + nat" where
  "read_length L buf row = unpack_le 4 buf (row_offset L row + field_offset FLength)"

definition write_length :: "layout \<Rightarrow> nat \<Rightarrow> nat \<Rightarrow> buffer \<Rightarrow> mem_error + buffer" where
  "write_length L row v buf = ghi_o 4 buf (row_offset L row + field_offset FLength) v"

text \<open>\<open>bytes.ljust(n, b"\\x00")\<close> and \<open>bytes.rstrip(b"\\x00")\<close>. Keys are their UTF-8 bytes here.\<close>

definition ljust0 :: "nat \<Rightarrow> buffer \<Rightarrow> buffer" where
  "ljust0 n bs = bs @ replicate (n - length bs) 0"

definition rstrip0 :: "buffer \<Rightarrow> buffer" where
  "rstrip0 bs = rev (dropWhile (\<lambda>b. b = 0) (rev bs))"

definition read_key :: "layout \<Rightarrow> buffer \<Rightarrow> nat \<Rightarrow> buffer" where
  "read_key L buf row = rstrip0 (get_slice buf (row_offset L row + field_offset FKey) key_bytes)"

text \<open>Assigning the padded bytes to a slice of the field's width.\<close>

definition put_field :: "buffer \<Rightarrow> nat \<Rightarrow> nat \<Rightarrow> buffer \<Rightarrow> mem_error + buffer" where
  "put_field buf off n bs = (if length bs = length (get_slice buf off n) then put_slice buf off bs else Inl SliceLength)"

definition write_key :: "layout \<Rightarrow> nat \<Rightarrow> buffer \<Rightarrow> buffer \<Rightarrow> mem_error + buffer" where
  "write_key L row key buf = put_field buf (row_offset L row + field_offset FKey) key_bytes (ljust0 key_bytes key)"

definition read_correlation :: "layout \<Rightarrow> buffer \<Rightarrow> nat \<Rightarrow> buffer" where
  "read_correlation L buf row = get_slice buf (row_offset L row + field_offset FCorrelation) correlation_bytes"

definition write_correlation :: "layout \<Rightarrow> nat \<Rightarrow> buffer \<Rightarrow> buffer \<Rightarrow> mem_error + buffer" where
  "write_correlation L row v buf =
     put_field buf (row_offset L row + field_offset FCorrelation) correlation_bytes (ljust0 correlation_bytes v)"

definition read_payload :: "layout \<Rightarrow> buffer \<Rightarrow> nat \<Rightarrow> mem_error + buffer" where
  "read_payload L buf row =
     sbind (read_length L buf row) (\<lambda>n.
       Inr (get_slice buf (row_offset L row + row_header_bytes) (min n (payload_bytes L))))"

definition write_payload :: "layout \<Rightarrow> nat \<Rightarrow> buffer \<Rightarrow> buffer \<Rightarrow> mem_error + buffer" where
  "write_payload L row payload buf = put_slice buf (row_offset L row + row_header_bytes) payload"

section \<open>The fields of a buffer\<close>

lemma align8_div: "align8 v = (v + 7) div 8 * 8"
proof -
  have "(int v + 7) AND NOT (mask 3) = push_bit 3 (drop_bit 3 (int v + 7))"
    by (rule bit_eqI) (auto simp: bit_simps)
  then have "(int v + 7) AND NOT 7 = (int v + 7) div 8 * 8"
    by (simp add: push_bit_eq_mult drop_bit_eq_div mask_eq_exp_minus_1)
  also have "\<dots> = int ((v + 7) div 8 * 8)" by (simp add: zdiv_int)
  finally show ?thesis by (simp only: align8_def nat_int)
qed

lemma align8_ge: "v \<le> align8 v"
  unfolding align8_div by presburger

text \<open>
  Every byte of the layout belongs to one field: the fixed header, the sequence counter, the missed
  counter of a process, a byte of the unread bitmap of a reader, a field of a row.
\<close>

datatype loc =
    LHeader
  | LSeq
  | LMissed nat
  | LBits nat nat
  | LRow nat row_field

fun field_size :: "layout \<Rightarrow> row_field \<Rightarrow> nat" where
  "field_size L FSeq = 8"
| "field_size L FWritten = 8"
| "field_size L FCorrelation = 16"
| "field_size L FKey = 32"
| "field_size L FLength = 4"
| "field_size L FComplete = 1"
| "field_size L FKind = 1"
| "field_size L FTaker = 1"
| "field_size L FSender = 1"
| "field_size L FPayload = payload_bytes L"

fun valid_loc :: "layout \<Rightarrow> loc \<Rightarrow> bool" where
  "valid_loc L LHeader = True"
| "valid_loc L LSeq = True"
| "valid_loc L (LMissed i) = (i < process_count L)"
| "valid_loc L (LBits r k) = (r < process_count L \<and> k < bitmap_stride L)"
| "valid_loc L (LRow row f) = (row < total_rows L)"

fun off :: "layout \<Rightarrow> loc \<Rightarrow> nat" where
  "off L LHeader = 0"
| "off L LSeq = seq_offset"
| "off L (LMissed i) = missed_offset i"
| "off L (LBits r k) = bitmap_offset L + bitmap_stride L * r + k"
| "off L (LRow row f) = row_offset L row + field_offset f"

fun sz :: "layout \<Rightarrow> loc \<Rightarrow> nat" where
  "sz L LHeader = 16"
| "sz L LSeq = 8"
| "sz L (LMissed i) = 8"
| "sz L (LBits r k) = 1"
| "sz L (LRow row f) = field_size L f"

text \<open>The four sections of the layout follow one another.\<close>

fun sect :: "loc \<Rightarrow> nat" where
  "sect LHeader = 0"
| "sect LSeq = 0"
| "sect (LMissed i) = 0"
| "sect (LBits r k) = 1"
| "sect (LRow row f) = 2"

definition sect_start :: "layout \<Rightarrow> nat \<Rightarrow> nat" where
  "sect_start L n = (if n = 0 then 0 else if n = 1 then bitmap_offset L
     else if n = 2 then rows_offset L else total_bytes L)"

lemma step_le: "i < n \<Longrightarrow> b * i + b \<le> b * (n::nat)"
  by (metis Suc_leI add.commute mult_Suc_right mult_le_mono2)

lemma field_in_row: "field_offset f + field_size L f \<le> row_bytes L"
  by (cases f) (simp_all add: row_bytes_def layout_consts)

lemma row_in_rows:
  assumes "row < total_rows L"
  shows "row_offset L row + row_bytes L \<le> total_bytes L"
proof -
  have "row_bytes L * row + row_bytes L \<le> row_bytes L * total_rows L" by (rule step_le [OF assms])
  also have "\<dots> = region_bytes L * process_count L" by (simp add: total_rows_def region_bytes_def)
  finally show ?thesis by (simp add: row_offset_def total_bytes_def)
qed

lemma missed_in_header: "i < process_count L \<Longrightarrow> missed_offset i + 8 \<le> bitmap_offset L"
  using align8_ge [of "missed_base + 8 * process_count L"]
  by (simp add: bitmap_offset_def missed_offset_def)

lemma loc_in_sect:
  assumes "valid_loc L l"
  shows "sect_start L (sect l) \<le> off L l" and "off L l + sz L l \<le> sect_start L (Suc (sect l))"
proof -
  have hdr: "24 \<le> bitmap_offset L"
    using align8_ge [of "missed_base + 8 * process_count L"] by (simp add: bitmap_offset_def layout_consts)
  have bits: "bitmap_stride L * r + k + 1 \<le> bitmap_stride L * process_count L"
    if "r < process_count L" "k < bitmap_stride L" for r k
    using step_le [OF that(1), of "bitmap_stride L"] that(2) by simp
  have rows: "row_offset L row + field_offset f + field_size L f \<le> total_bytes L"
    if "row < total_rows L" for row f
    using row_in_rows [OF that] field_in_row [of f L] by simp
  have "sect_start L (sect l) \<le> off L l \<and> off L l + sz L l \<le> sect_start L (Suc (sect l))"
  proof (cases l)
    case (LBits r k)
    with bits [of r k] assms show ?thesis by (simp add: sect_start_def rows_offset_def)
  next
    case (LRow row f)
    with rows [of row f] assms show ?thesis by (simp add: sect_start_def row_offset_def add.assoc)
  qed (use hdr missed_in_header assms in \<open>simp_all add: sect_start_def layout_consts\<close>)
  then show "sect_start L (sect l) \<le> off L l" "off L l + sz L l \<le> sect_start L (Suc (sect l))" by simp_all
qed

lemma sect_start_mono: "m \<le> n \<Longrightarrow> sect_start L m \<le> sect_start L n"
  by (auto simp: sect_start_def rows_offset_def total_bytes_def bitmap_offset_def)

lemma fields_apart:
  "f \<noteq> g \<Longrightarrow> apart (field_offset f) (field_size L f) (field_offset g) (field_size L g)"
  by (cases f; cases g) (simp_all add: apart_def)

lemma apart_shift: "apart (x + a) m (x + b) n = apart a m b n"
  by (auto simp: apart_def)

text \<open>Different fields do not overlap, and all of them lie inside the layout.\<close>

lemma locs_apart:
  assumes "valid_loc L l" and "valid_loc L l'" and "l \<noteq> l'"
  shows "apart (off L l) (sz L l) (off L l') (sz L l')"
proof (cases "sect l = sect l'")
  case False
  then consider "sect l < sect l'" | "sect l' < sect l" by linarith
  then show ?thesis
  proof cases
    case 1
    then have "sect_start L (Suc (sect l)) \<le> sect_start L (sect l')" by (intro sect_start_mono) simp
    with loc_in_sect(2) [OF assms(1)] loc_in_sect(1) [OF assms(2)] show ?thesis by (simp add: apart_def)
  next
    case 2
    then have "sect_start L (Suc (sect l')) \<le> sect_start L (sect l)" by (intro sect_start_mono) simp
    with loc_in_sect(2) [OF assms(2)] loc_in_sect(1) [OF assms(1)] show ?thesis by (simp add: apart_def)
  qed
next
  case True
  have bits: "apart (bitmap_stride L * r + k) 1 (bitmap_stride L * r' + k') 1"
    if "k < bitmap_stride L" "k' < bitmap_stride L" "(r, k) \<noteq> (r', k')" for r r' k k'
  proof (cases "r = r'")
    case False
    then consider "r < r'" | "r' < r" by linarith
    then show ?thesis
      using step_le [of r r' "bitmap_stride L"] step_le [of r' r "bitmap_stride L"] that
      by cases (auto simp: apart_def)
  qed (use that in \<open>auto simp: apart_def\<close>)
  have rows: "apart (row_bytes L * row + field_offset f) (field_size L f) (row_bytes L * row' + field_offset f') (field_size L f')"
    if "(row, f) \<noteq> (row', f')" for row row' f f'
  proof (cases "row = row'")
    case False
    then consider "row < row'" | "row' < row" by linarith
    then show ?thesis
      using step_le [of row row' "row_bytes L"] step_le [of row' row "row_bytes L"]
        field_in_row [of f L] field_in_row [of f' L]
      by cases (auto simp: apart_def)
  qed (use that in \<open>auto simp: apart_shift intro: fields_apart\<close>)
  show ?thesis
    using assms True bits rows
    by (cases l; cases l') (auto simp: apart_shift row_offset_def missed_offset_def layout_consts add.assoc,
        auto simp: apart_def)
qed

lemma loc_in_bounds: "valid_loc L l \<Longrightarrow> off L l + sz L l \<le> total_bytes L"
  using loc_in_sect(2) [of L l] sect_start_mono [of "Suc (sect l)" 3 L]
  by (cases l) (auto simp: sect_start_def)

text \<open>A block of at least the layout's size (the operating system rounds it up), and its fields.\<close>

definition link_mem :: "layout \<Rightarrow> buffer \<Rightarrow> bool" where
  "link_mem L buf \<longleftrightarrow> total_bytes L \<le> length buf"

definition view :: "layout \<Rightarrow> buffer \<Rightarrow> loc \<Rightarrow> buffer" where
  "view L buf l = (if valid_loc L l then get_slice buf (off L l) (sz L l) else [])"

definition wloc :: "layout \<Rightarrow> loc \<Rightarrow> buffer \<Rightarrow> buffer \<Rightarrow> buffer" where
  "wloc L l bs buf = blit (off L l) bs buf"

lemma loc_in_mem: "link_mem L buf \<Longrightarrow> valid_loc L l \<Longrightarrow> off L l + sz L l \<le> length buf"
  using loc_in_bounds [of L l] by (simp add: link_mem_def)

lemma length_view [simp]: "link_mem L buf \<Longrightarrow> valid_loc L l \<Longrightarrow> length (view L buf l) = sz L l"
  by (simp add: view_def loc_in_mem)

lemma link_mem_wloc [simp]:
  "link_mem L buf \<Longrightarrow> valid_loc L l \<Longrightarrow> length bs = sz L l \<Longrightarrow> link_mem L (wloc L l bs buf)"
  using loc_in_mem [of L buf l] by (simp add: link_mem_def wloc_def)

lemma view_wloc [simp]:
  assumes "link_mem L buf" and "valid_loc L l" and "length bs = sz L l"
  shows "view L (wloc L l bs buf) = (view L buf)(l := bs)"
proof
  fix l'
  have in_l: "off L l + length bs \<le> length buf" using loc_in_mem [OF assms(1,2)] assms(3) by simp
  show "view L (wloc L l bs buf) l' = ((view L buf)(l := bs)) l'"
  proof (cases "valid_loc L l' \<and> l' \<noteq> l")
    case True
    then have "apart (off L l) (length bs) (off L l') (sz L l')" using locs_apart [OF assms(2)] assms(3) by auto
    with True show ?thesis
      using get_blit_apart [OF in_l loc_in_mem [OF assms(1), of l']] by (simp add: view_def wloc_def)
  next
    case False
    then consider "l' = l" | "l' \<noteq> l" "\<not> valid_loc L l'" by blast
    then show ?thesis
    proof cases
      case 1
      with assms(2) get_blit_same [OF in_l assms(3) [symmetric]] show ?thesis by (simp add: view_def wloc_def)
    next
      case 2
      then show ?thesis by (simp add: view_def)
    qed
  qed
qed

lemma put_slice_wloc:
  assumes "link_mem L buf" and "valid_loc L l" and "length bs = sz L l"
  shows "put_slice buf (off L l) bs = Inr (wloc L l bs buf)"
  using loc_in_mem [OF assms(1,2)] assms(3) by (simp add: wloc_def put_slice_blit)

interpretation field_cells: cells "\<lambda>l buf. Inr (view L buf l) :: mem_error + buffer" "\<lambda>l bs buf. put_slice buf (off L l) bs"
    "link_mem L" "valid_loc L" "\<lambda>l bs. length bs = sz L l" for L
  by unfold_locales (auto simp: put_slice_wloc)

section \<open>Numbers in fields\<close>

definition num :: "(loc \<Rightarrow> buffer) \<Rightarrow> loc \<Rightarrow> nat" where
  "num v l = le_value (v l)"

lemma num_upd [simp]: "num (v(l := bs)) l' = (if l' = l then le_value bs else num v l')"
  by (simp add: num_def)

lemma unpack_loc:
  assumes "link_mem L buf" and "valid_loc L l"
  shows "unpack_le (sz L l) buf (off L l) = Inr (num (view L buf) l)"
  using loc_in_mem [OF assms] assms(2) by (simp add: unpack_le_slice view_def num_def)

lemma ghi_o_loc:
  assumes "link_mem L buf" and "valid_loc L l" and "x < 256 ^ sz L l"
  shows "ghi_o (sz L l) buf (off L l) x = Inr (wloc L l (le_bytes (sz L l) x) buf)"
  using loc_in_mem [OF assms(1,2)] assms(3) by (simp add: ghi_o_blit wloc_def)

lemma num_less:
  assumes "link_mem L buf" and "valid_loc L l"
  shows "num (view L buf) l < 256 ^ sz L l"
  using le_value_less [of "view L buf l"] assms by (simp add: num_def)

lemma get_byte_loc:
  assumes "link_mem L buf" and "valid_loc L l" and "sz L l = 1"
  shows "get_byte buf (off L l) = Inr (hd (view L buf l))"
  using loc_in_mem [OF assms(1,2)] assms(2,3) by (simp add: get_byte_slice view_def)

lemma put_byte_loc:
  assumes "link_mem L buf" and "valid_loc L l" and "sz L l = 1" and "x < 256"
  shows "put_byte buf (off L l) x = Inr (wloc L l [word_of_nat x] buf)"
  using loc_in_mem [OF assms(1,2)] assms(3,4) by (simp add: put_byte_blit wloc_def)

lemma num_byte: 
  assumes "link_mem L buf" and "valid_loc L l" and "sz L l = 1"
  shows "num (view L buf) l = unat (hd (view L buf l))"
proof -
  have "length (view L buf l) = 1" using assms by simp
  then show ?thesis by (cases "view L buf l") (simp_all add: num_def)
qed

lemma read_u64_num:
  assumes "link_mem L buf" and "row < total_rows L" and "field_size L f = 8"
  shows "read_u64 L buf row f = Inr (num (view L buf) (LRow row f))"
  using unpack_loc [of L buf "LRow row f"] assms by (simp add: read_u64_def)

lemma write_u64_wloc:
  assumes "link_mem L buf" and "row < total_rows L" and "field_size L f = 8" and "x < 256 ^ 8"
  shows "write_u64 L row f x buf = Inr (wloc L (LRow row f) (le_bytes 8 x) buf)"
  using ghi_o_loc [of L buf "LRow row f" x] assms by (simp add: write_u64_def)

lemma read_u8_num:
  assumes "link_mem L buf" and "row < total_rows L" and "field_size L f = 1"
  shows "read_u8 L buf row f = Inr (num (view L buf) (LRow row f))"
  using get_byte_loc [of L buf "LRow row f"] num_byte [of L buf "LRow row f"] assms by (simp add: read_u8_def)

lemma write_u8_wloc:
  assumes "link_mem L buf" and "row < total_rows L" and "field_size L f = 1" and "x < 256"
  shows "write_u8 L row f x buf = Inr (wloc L (LRow row f) (le_bytes 1 x) buf)"
  using put_byte_loc [of L buf "LRow row f" x] assms by (simp add: write_u8_def)

lemma read_length_num:
  "link_mem L buf \<Longrightarrow> row < total_rows L \<Longrightarrow> read_length L buf row = Inr (num (view L buf) (LRow row FLength))"
  using unpack_loc [of L buf "LRow row FLength"] by (simp add: read_length_def)

lemma write_length_wloc:
  "link_mem L buf \<Longrightarrow> row < total_rows L \<Longrightarrow> x < 256 ^ 4 \<Longrightarrow>
     write_length L row x buf = Inr (wloc L (LRow row FLength) (le_bytes 4 x) buf)"
  using ghi_o_loc [of L buf "LRow row FLength" x] by (simp add: write_length_def)

lemma read_missed_num:
  "link_mem L buf \<Longrightarrow> i < process_count L \<Longrightarrow> read_missed buf i = Inr (num (view L buf) (LMissed i))"
  using unpack_loc [of L buf "LMissed i"] by (simp add: read_missed_def)

lemma bump_missed_wloc:
  assumes "link_mem L buf" and "i < process_count L" and "num (view L buf) (LMissed i) + 1 < 256 ^ 8"
  shows "bump_missed buf i = Inr (wloc L (LMissed i) (le_bytes 8 (num (view L buf) (LMissed i) + 1)) buf)"
  using unpack_loc [of L buf "LMissed i"] ghi_o_loc [of L buf "LMissed i"] assms
  by (simp add: bump_missed_def)

lemma next_sequence_wloc:
  assumes "link_mem L buf" and "num (view L buf) LSeq + 1 < 256 ^ 8"
  shows "next_sequence buf =
    Inr (wloc L LSeq (le_bytes 8 (num (view L buf) LSeq + 1)) buf, num (view L buf) LSeq + 1)"
  using unpack_loc [of L buf LSeq] ghi_o_loc [of L buf LSeq] assms by (simp add: next_sequence_def)

section \<open>Bytes in fields\<close>

lemma length_ljust0 [simp]: "length bs \<le> n \<Longrightarrow> length (ljust0 n bs) = n"
  by (simp add: ljust0_def)

lemma put_field_wloc:
  assumes "link_mem L buf" and "valid_loc L l" and "length bs = sz L l"
  shows "put_field buf (off L l) (sz L l) bs = Inr (wloc L l bs buf)"
  using put_slice_wloc [OF assms] loc_in_mem [OF assms(1,2)] assms(3) by (simp add: put_field_def)

lemma read_key_view:
  "row < total_rows L \<Longrightarrow> read_key L buf row = rstrip0 (view L buf (LRow row FKey))"
  by (simp add: read_key_def view_def layout_consts)

lemma write_key_wloc:
  "link_mem L buf \<Longrightarrow> row < total_rows L \<Longrightarrow> length key \<le> 32 \<Longrightarrow>
     write_key L row key buf = Inr (wloc L (LRow row FKey) (ljust0 32 key) buf)"
  using put_field_wloc [of L buf "LRow row FKey" "ljust0 32 key"] by (simp add: write_key_def layout_consts)

lemma read_correlation_view:
  "row < total_rows L \<Longrightarrow> read_correlation L buf row = view L buf (LRow row FCorrelation)"
  by (simp add: read_correlation_def view_def layout_consts)

lemma write_correlation_wloc:
  "link_mem L buf \<Longrightarrow> row < total_rows L \<Longrightarrow> length c \<le> 16 \<Longrightarrow>
     write_correlation L row c buf = Inr (wloc L (LRow row FCorrelation) (ljust0 16 c) buf)"
  using put_field_wloc [of L buf "LRow row FCorrelation" "ljust0 16 c"]
  by (simp add: write_correlation_def layout_consts)

lemma take_get_slice: "m \<le> n \<Longrightarrow> get_slice buf o' m = take m (get_slice buf o' n)"
  by (simp add: get_slice_def min_def)

lemma read_payload_view:
  assumes "link_mem L buf" and "row < total_rows L"
  shows "read_payload L buf row =
    Inr (take (num (view L buf) (LRow row FLength)) (view L buf (LRow row FPayload)))"
proof -
  have n: "get_slice buf (off L (LRow row FPayload)) (min n (payload_bytes L)) =
      take n (view L buf (LRow row FPayload))" for n
    using take_get_slice [of "min n (payload_bytes L)" "payload_bytes L"] assms
      length_view [of L buf "LRow row FPayload"]
    by (simp add: view_def min_def)
  then show ?thesis using assms by (simp add: read_payload_def read_length_num layout_consts)
qed

text \<open>Writing a payload keeps the rest of the field's old bytes.\<close>

lemma write_payload_wloc:
  assumes "link_mem L buf" and "row < total_rows L" and "length p \<le> payload_bytes L"
  shows "write_payload L row p buf =
    Inr (wloc L (LRow row FPayload) (p @ drop (length p) (view L buf (LRow row FPayload))) buf)"
proof -
  let ?o = "off L (LRow row FPayload)"
  have le: "?o + payload_bytes L \<le> length buf" using loc_in_mem [OF assms(1), of "LRow row FPayload"] assms(2) by simp
  have v: "view L buf (LRow row FPayload) = get_slice buf ?o (payload_bytes L)" using assms(2) by (simp add: view_def)
  have "blit ?o p buf = blit ?o (p @ drop (length p) (get_slice buf ?o (payload_bytes L))) buf"
    by (rule nth_equalityI)
      (use le assms(3) in \<open>auto simp: nth_blit nth_append nth_get_slice add.commute add.left_commute\<close>)
  then show ?thesis
    using put_slice_blit [of ?o p buf] le assms(3)
    by (simp add: write_payload_def wloc_def v layout_consts)
qed

section \<open>Unread bits\<close>

definition unread :: "(loc \<Rightarrow> buffer) \<Rightarrow> nat \<Rightarrow> nat \<Rightarrow> bool" where
  "unread v reader row \<longleftrightarrow> bit (hd (v (LBits reader (row div 8)))) (row mod 8)"

lemma bit_byte_valid:
  assumes "row < total_rows L"
  shows "row div 8 < bitmap_stride L"
  using assms align8_ge [of "(total_rows L + 7) div 8"] by (simp add: bitmap_stride_def)

lemma bit_offset_off:
  "bit_offset L reader row = (off L (LBits reader (row div 8)), push_bit (row mod 8) 1)"
  by (simp add: bit_offset_def)

lemma exp_bit_byte: "i < 8 \<Longrightarrow> bit (2 ^ i :: byte) n \<longleftrightarrow> n = i"
  by (auto simp: bit_exp_iff)

lemma and_exp_byte: "i < 8 \<Longrightarrow> (b AND (2 ^ i :: byte) \<noteq> 0) \<longleftrightarrow> bit b i"
  by (auto simp: bit_eq_iff [of "b AND 2 ^ i"] bit_and_iff exp_bit_byte)

lemma bit_set_byte: "i < 8 \<Longrightarrow> n < 8 \<Longrightarrow> bit (old OR (2 ^ i :: byte)) n \<longleftrightarrow> n = i \<or> bit old n"
  by (auto simp: bit_or_iff exp_bit_byte)

lemma bit_clear_byte:
  assumes "i < 8" and "n < 8"
  shows "bit (old AND (0xFF XOR (2 ^ i :: byte))) n \<longleftrightarrow> n \<noteq> i \<and> bit old n"
proof -
  have "(0xFF :: byte) = mask 8" by (simp add: mask_eq_exp_minus_1)
  then have "bit (0xFF :: byte) n" using assms(2) by (simp only: bit_mask_iff) simp
  then show ?thesis using assms(1) by (simp add: bit_and_iff bit_xor_iff exp_bit_byte del: bit_numeral_simps) auto
qed

lemma test_bit_unread:
  assumes "link_mem L buf" and "reader < process_count L" and "row < total_rows L"
  shows "test_bit_at L buf reader row = Inr (unread (view L buf) reader row)"
  using get_byte_loc [of L buf "LBits reader (row div 8)"] assms bit_byte_valid [OF assms(3)]
  by (simp add: test_bit_at_def bit_offset_off unread_def and_exp_byte)

definition set_bits :: "(loc \<Rightarrow> buffer) \<Rightarrow> nat \<Rightarrow> nat \<Rightarrow> bool \<Rightarrow> buffer" where
  "set_bits v reader row b =
     (let old = hd (v (LBits reader (row div 8))); m = push_bit (row mod 8) 1
      in [if b then old OR m else old AND (0xFF XOR m)])"

lemma set_bit_wloc:
  assumes "link_mem L buf" and "reader < process_count L" and "row < total_rows L"
  shows "set_bit_at L reader row buf =
      Inr (wloc L (LBits reader (row div 8)) (set_bits (view L buf) reader row True) buf)"
    and "clear_bit_at L reader row buf =
      Inr (wloc L (LBits reader (row div 8)) (set_bits (view L buf) reader row False) buf)"
  using get_byte_loc [of L buf "LBits reader (row div 8)"] put_byte_loc [of L buf "LBits reader (row div 8)"]
    assms bit_byte_valid [OF assms(3)]
  by (simp_all add: set_bit_at_def clear_bit_at_def bit_offset_off set_bits_def Let_def)

lemma length_set_bits [simp]: "length (set_bits v reader row b) = 1"
  by (simp add: set_bits_def Let_def)

lemma unread_set_bits:
  "unread (v(LBits reader (row div 8) := set_bits v reader row b)) r' row' =
     (if r' = reader \<and> row' = row then b else unread v r' row')"
proof (cases "r' = reader \<and> row' div 8 = row div 8")
  case True
  have "row' mod 8 = row mod 8 \<longleftrightarrow> row' = row" using True by (metis div_mod_decomp)
  then show ?thesis
    using True bit_set_byte [of "row mod 8" "row' mod 8"] bit_clear_byte [of "row mod 8" "row' mod 8"]
    by (cases b) (simp_all add: unread_def set_bits_def Let_def)
next
  case False
  then show ?thesis by (auto simp: unread_def)
qed

lemma unread_upd_other [simp]:
  "(\<And>r k. l \<noteq> LBits r k) \<Longrightarrow> unread (v(l := bs)) r' row' = unread v r' row'"
  by (cases l) (auto simp: unread_def)

definition write_bit :: "layout \<Rightarrow> nat \<times> nat \<Rightarrow> bool \<Rightarrow> buffer \<Rightarrow> mem_error + buffer" where
  "write_bit L i b buf = (if b then set_bit_at L (fst i) (snd i) buf else clear_bit_at L (fst i) (snd i) buf)"

lemma write_bit_wloc:
  assumes "link_mem L buf" and "fst i < process_count L" and "snd i < total_rows L"
  shows "write_bit L i b buf =
    Inr (wloc L (LBits (fst i) (snd i div 8)) (set_bits (view L buf) (fst i) (snd i) b) buf)"
  using set_bit_wloc [OF assms] by (simp add: write_bit_def)

interpretation unread_bits: cells "\<lambda>i buf. test_bit_at L buf (fst i) (snd i)" "write_bit L" "link_mem L"
    "\<lambda>i. fst i < process_count L \<and> snd i < total_rows L" "\<lambda>_ _. True" for L
proof (unfold_locales, goal_cases)
  case (1 m i)
  then show ?case by (simp add: test_bit_unread)
next
  case (2 m i v)
  then show ?case
    by (simp add: write_bit_wloc test_bit_unread unread_set_bits bit_byte_valid prod_eq_iff)
qed

interpretation missed_cells: cells "\<lambda>i buf. read_missed buf i" "\<lambda>i v buf. ghi_o 8 buf (missed_offset i) v"
    "link_mem L" "\<lambda>i. i < process_count L" "\<lambda>_ v. v < 256 ^ 8" for L
proof (unfold_locales, goal_cases)
  case (1 m i)
  with num_less [of L m "LMissed i"] show ?case by (simp add: read_missed_num)
next
  case (2 m i v)
  with ghi_o_loc [of L m "LMissed i" v] show ?case by (simp add: read_missed_num [where L = L])
qed

lemma any_unread_list:
  assumes "link_mem L buf" and "row < total_rows L"
  shows "any_unread L buf row = Inr (filter (\<lambda>r. unread (view L buf) r row) [0..<process_count L])"
proof -
  have "smap (\<lambda>r. sbind (test_bit_at L buf r row) (\<lambda>b. Inr (r, b))) [0..<process_count L] =
      Inr (map (\<lambda>r. (r, unread (view L buf) r row)) [0..<process_count L])"
    by (rule smap_pure) (use assms in \<open>simp add: test_bit_unread\<close>)
  then show ?thesis by (simp add: any_unread_def filter_map comp_def)
qed

section \<open>The scan of a bitmap\<close>

lemma bit_length_exp: "bit_length (2 ^ k) = Suc k"
proof (induction k)
  case (Suc k)
  have "bit_length n = Suc (bit_length (n div 2))" if "0 < n" for n using that by (cases n) simp_all
  from this [of "2 ^ Suc k"] Suc show ?case by simp
qed (simp add: One_nat_def)

lemma unread_loop_bits:
  assumes "0 \<le> v"
  shows "unread_loop n v = filter (bit v) [0..<n]"
  using assms
proof (induction n v rule: unread_loop.induct)
  case (1 n v)
  show ?case
  proof (cases "v = 0")
    case False
    with 1(2) have pos: "0 < v" by simp
    obtain k where k: "v AND - v = 2 ^ k" "bit v k" "\<And>j. j < k \<Longrightarrow> \<not> bit v j" by (rule lowest_bit [OF pos]) blast
    let ?w = "v XOR (v AND - v)"
    have bits: "bit ?w j \<longleftrightarrow> bit v j \<and> j \<noteq> k" for j
      using k(2) by (auto simp: k(1) bit_xor_iff bit_exp_iff)
    have len: "bit_length (nat (v AND - v)) - 1 = k" by (simp add: k(1) nat_power_eq bit_length_exp)
    have rest: "unread_loop n ?w = filter (bit ?w) [0..<n]" using 1(1) xor_lowest(1) [OF pos] pos by simp
    have "filter (bit v) [0..<n] = (if k < n then k # filter (bit ?w) [0..<n] else filter (bit ?w) [0..<n])"
    proof (cases "k < n")
      case True
      have "[0..<n] = [0..<k] @ k # [Suc k..<n]"
        using True by (metis le_add1 less_imp_le upt_add_eq_append upt_conv_Cons add_0 le_add_diff_inverse)
      moreover have "filter (bit v) [0..<k] = []" "filter (bit ?w) [0..<k] = []"
        using k(3) bits by (auto simp: filter_empty_conv)
      moreover have "filter (bit v) [Suc k..<n] = filter (bit ?w) [Suc k..<n]"
        by (rule filter_cong) (use bits in auto)
      ultimately show ?thesis using True k(2) bits [of k] by simp
    next
      case False
      have "bit v j = bit ?w j" if "j < n" for j using bits [of j] False that by auto
      then have "filter (bit v) [0..<n] = filter (bit ?w) [0..<n]" by (intro filter_cong) simp_all
      with False show ?thesis by simp
    qed
    then show ?thesis using pos rest len by (subst unread_loop.simps) (simp add: Let_def)
  qed (simp add: unread_loop.simps)
qed

lemma bit_le_value:
  "bit (le_value bs) i \<longleftrightarrow> i div 8 < length bs \<and> bit (bs ! (i div 8)) (i mod 8)"
proof (induction bs arbitrary: i)
  case (Cons b bs)
  have split: "le_value (b # bs) = push_bit 8 (le_value bs) + take_bit 8 (unat b)"
    using unat_byte_less [of b] by (simp add: push_bit_eq_mult take_bit_eq_mod)
  have "le_value (b # bs) = push_bit 8 (le_value bs) OR take_bit 8 (unat b)"
    unfolding split by (rule disjunctive_add) (auto simp: bit_simps)
  then have "bit (le_value (b # bs)) i \<longleftrightarrow> (if i < 8 then bit b i else bit (le_value bs) (i - 8))"
    by (auto simp: bit_simps)
  with Cons show ?case by (cases "i < 8") (auto simp: div_if [of i] mod_if [of i])
qed simp

lemma unread_rows_list:
  assumes "link_mem L buf" and "reader < process_count L"
  shows "unread_rows L buf reader = filter (unread (view L buf) reader) [0..<total_rows L]"
proof -
  let ?n = "bitmap_stride L" and ?o = "bitmap_offset L + bitmap_stride L * reader"
  have le: "?o + ?n \<le> length buf"
  proof -
    have "bitmap_stride L * reader + bitmap_stride L \<le> bitmap_stride L * process_count L"
      by (rule step_le [OF assms(2)])
    then show ?thesis using assms(1) by (simp add: link_mem_def total_bytes_def rows_offset_def)
  qed
  have bits: "bit (int (le_value (band L buf reader))) row \<longleftrightarrow> unread (view L buf) reader row"
    if row: "row < total_rows L" for row
  proof -
    have k: "row div 8 < ?n" by (rule bit_byte_valid [OF row])
    have "hd (view L buf (LBits reader (row div 8))) = get_slice buf ?o ?n ! (row div 8)"
      using k le assms(2) by (simp add: view_def get_slice_def hd_drop_conv_nth hd_take)
    then show ?thesis using le k by (simp add: bit_of_nat_iff bit_le_value band_def unread_def)
  qed
  have "filter (bit (int (le_value (band L buf reader)))) [0..<total_rows L] =
      filter (unread (view L buf) reader) [0..<total_rows L]"
    by (rule filter_cong) (use bits in auto)
  moreover have "unread_rows L buf reader = unread_loop (total_rows L) (int (le_value (band L buf reader)))"
    by (simp add: unread_rows_def Let_def unread_loop.simps)
  ultimately show ?thesis using unread_loop_bits [of "int (le_value (band L buf reader))"] by simp
qed

section \<open>The header\<close>

lemma num_wloc [simp]:
  "link_mem L buf \<Longrightarrow> valid_loc L l \<Longrightarrow> length bs = sz L l \<Longrightarrow>
     num (view L (wloc L l bs buf)) l' = (if l' = l then le_value bs else num (view L buf) l')"
  by (simp add: num_def)

definition header_ok :: "layout \<Rightarrow> bool" where
  "header_ok L \<longleftrightarrow> process_count L < 2 ^ 16 \<and> rows_per_writer L < 2 ^ 32 \<and> payload_bytes L < 2 ^ 32"

definition header_of :: "layout \<Rightarrow> buffer" where
  "header_of L = magic @ le_bytes 2 layout_version @ le_bytes 2 (process_count L) @
     le_bytes 4 (rows_per_writer L) @ le_bytes 4 (payload_bytes L)"

lemma pack_header_ok: "header_ok L \<Longrightarrow> pack_header L = Inr (header_of L)"
  by (simp add: pack_header_def pack_le_def header_ok_def header_of_def layout_version_def)

lemma length_header_of [simp]: "length (header_of L) = 16"
  by (simp add: header_of_def magic_def)

lemma write_header_view:
  assumes "header_ok L" and "link_mem L buf"
  shows "\<exists>buf'. write_header L buf = Inr buf' \<and> link_mem L buf' \<and> length buf' = length buf \<and>
    view L buf' LHeader = header_of L \<and> num (view L buf') LSeq = 0 \<and>
    (\<forall>i < process_count L. num (view L buf') (LMissed i) = 0) \<and>
    (\<forall>r k. view L buf' (LBits r k) = view L buf (LBits r k))"
proof -
  let ?b1 = "wloc L LHeader (header_of L) buf" and ?z = "le_bytes 8 0"
  let ?b2 = "wloc L LSeq ?z ?b1"
  have into: "pack_into 8 b (off L l) 0 = Inr (wloc L l ?z b)"
    if "link_mem L b" "valid_loc L l" "sz L l = 8" for b l
    using loc_in_mem [OF that(1,2)] that(3) by (simp add: pack_into_blit wloc_def)
  have len: "length (wloc L l bs b) = length b" if "link_mem L b" "valid_loc L l" "length bs = sz L l" for b l bs
    using loc_in_mem [OF that(1,2)] that(3) by (simp add: wloc_def)
  have miss: "\<exists>b'. sfold (\<lambda>i buf. pack_into 8 buf (missed_offset i) 0) is b = Inr b' \<and> link_mem L b' \<and>
      length b' = length b \<and> view L b' LHeader = view L b LHeader \<and> num (view L b') LSeq = num (view L b) LSeq \<and>
      (\<forall>r k. view L b' (LBits r k) = view L b (LBits r k)) \<and>
      (\<forall>i < process_count L. num (view L b') (LMissed i) = (if i \<in> set is then 0 else num (view L b) (LMissed i)))"
    if "link_mem L b" "\<forall>i \<in> set is. i < process_count L" for b "is"
    using that
  proof (induction "is" arbitrary: b)
    case (Cons i "is")
    have i: "valid_loc L (LMissed i)" using Cons.prems(2) by simp
    have "pack_into 8 b (missed_offset i) 0 = Inr (wloc L (LMissed i) ?z b)" using into [OF Cons.prems(1) i] by simp
    moreover have m: "link_mem L (wloc L (LMissed i) ?z b)" and sub: "\<forall>i \<in> set is. i < process_count L"
      using Cons.prems i by simp_all
    moreover obtain b' where "sfold (\<lambda>i buf. pack_into 8 buf (missed_offset i) 0) is (wloc L (LMissed i) ?z b) = Inr b'"
      "link_mem L b'" "length b' = length (wloc L (LMissed i) ?z b)"
      "view L b' LHeader = view L (wloc L (LMissed i) ?z b) LHeader"
      "num (view L b') LSeq = num (view L (wloc L (LMissed i) ?z b)) LSeq"
      "\<forall>r k. view L b' (LBits r k) = view L (wloc L (LMissed i) ?z b) (LBits r k)"
      "\<forall>j < process_count L. num (view L b') (LMissed j) =
         (if j \<in> set is then 0 else num (view L (wloc L (LMissed i) ?z b)) (LMissed j))"
      using Cons.IH [OF m sub] by blast
    ultimately show ?case
      using Cons.prems i len [OF Cons.prems(1) i, of ?z] by (intro exI [of _ b']) simp
  qed simp
  have "put_slice buf 0 (header_of L) = Inr ?b1" using put_slice_wloc [OF assms(2), of LHeader] by simp
  moreover have "pack_into 8 ?b1 seq_offset 0 = Inr ?b2" using into [of ?b1 LSeq] assms(2) by simp
  moreover have "16 \<le> length buf" using loc_in_mem [OF assms(2), of LHeader] by simp
  moreover obtain b' where "sfold (\<lambda>i buf. pack_into 8 buf (missed_offset i) 0) [0..<process_count L] ?b2 = Inr b'"
    "link_mem L b'" "length b' = length ?b2" "view L b' LHeader = view L ?b2 LHeader"
    "num (view L b') LSeq = num (view L ?b2) LSeq" "\<forall>i < process_count L. num (view L b') (LMissed i) = 0"
    "\<forall>r k. view L b' (LBits r k) = view L ?b2 (LBits r k)"
    using miss [of ?b2 "[0..<process_count L]"] assms(2) by auto
  ultimately show ?thesis
    using assms len [OF assms(2), of LHeader "header_of L"] len [of ?b1 LSeq ?z]
    by (simp add: write_header_def pack_header_ok)
qed

lemma get_slice_get_slice:
  "a + k \<le> n \<Longrightarrow> get_slice (get_slice buf 0 n) a k = get_slice buf a k"
  by (simp add: get_slice_def drop_take)

lemma verify_header_of:
  assumes "header_ok L" and "16 \<le> length buf" and "get_slice buf 0 16 = header_of L"
  shows "verify_header M buf = (if (process_count L, rows_per_writer L, payload_bytes L) =
      (process_count M, rows_per_writer M, payload_bytes M) then Inr ()
    else Inl (BadGeometry (process_count L, rows_per_writer L, payload_bytes L)))"
proof -
  have sub: "get_slice buf a k = get_slice (header_of L) a k" if "a + k \<le> 16" for a k
    using get_slice_get_slice [OF that, of buf] assms(3) by simp
  have "get_slice (header_of L) 0 4 = magic" "get_slice (header_of L) 4 2 = le_bytes 2 layout_version"
    "get_slice (header_of L) 6 2 = le_bytes 2 (process_count L)"
    "get_slice (header_of L) 8 4 = le_bytes 4 (rows_per_writer L)"
    "get_slice (header_of L) 12 4 = le_bytes 4 (payload_bytes L)"
    by (simp_all add: get_slice_def header_of_def magic_def)
  then show ?thesis
    using assms(1,2)
    by (simp add: verify_header_def sub header_ok_def layout_version_def Let_def)
qed

section \<open>Properties\<close>

text \<open>
  No two fields of a channel's layout overlap, and all of them end within its total size, for
  every number of rows, payload size and number of processes.
\<close>

theorem layout_disjoint:
  assumes "valid_loc L l" and "valid_loc L l'" and "l \<noteq> l'"
  shows "apart (off L l) (sz L l) (off L l') (sz L l') \<and> off L l + sz L l \<le> total_bytes L"
  using locs_apart [OF assms] loc_in_bounds [OF assms(1)] by blast

theorem layout_disjoint_witness:
  "apart (off \<lparr>rows_per_writer = 3, payload_bytes = 5, process_count = 2\<rparr> (LBits 1 0)) 1
     (off \<lparr>rows_per_writer = 3, payload_bytes = 5, process_count = 2\<rparr> (LRow 5 FPayload)) 5"
proof -
  have "valid_loc \<lparr>rows_per_writer = 3, payload_bytes = 5, process_count = 2\<rparr> (LBits 1 0)" by code_simp
  moreover have "valid_loc \<lparr>rows_per_writer = 3, payload_bytes = 5, process_count = 2\<rparr> (LRow 5 FPayload)" by code_simp
  ultimately show ?thesis using layout_disjoint [of _ "LBits 1 0" "LRow 5 FPayload"] by fastforce
qed

text \<open>
  A block another process created carries its header: verifying it succeeds exactly when the
  verifying process declares the same geometry, and the fresh counters are zero.
\<close>

theorem header_roundtrip:
  assumes "header_ok L" and "link_mem L buf"
  shows "\<exists>buf'. write_header L buf = Inr buf' \<and>
    verify_header M buf' = (if (process_count L, rows_per_writer L, payload_bytes L) =
        (process_count M, rows_per_writer M, payload_bytes M) then Inr ()
      else Inl (BadGeometry (process_count L, rows_per_writer L, payload_bytes L))) \<and>
    (\<forall>i < process_count L. read_missed buf' i = Inr 0)"
proof -
  obtain buf' where b: "write_header L buf = Inr buf'" "link_mem L buf'" "view L buf' LHeader = header_of L"
    "\<forall>i < process_count L. num (view L buf') (LMissed i) = 0"
    using write_header_view [OF assms] by blast
  have "16 \<le> length buf'" using loc_in_mem [OF b(2), of LHeader] by simp
  moreover have "get_slice buf' 0 16 = header_of L" using b(3) by (simp add: view_def)
  ultimately show ?thesis
    using b(1,4) verify_header_of [OF assms(1), of buf' M] read_missed_num [OF b(2)]
    by (intro exI [of _ buf'] conjI) simp_all
qed

theorem header_roundtrip_witness:
  "\<exists>buf'. write_header \<lparr>rows_per_writer = 1, payload_bytes = 2, process_count = 1\<rparr> (replicate 200 7) = Inr buf' \<and>
     verify_header \<lparr>rows_per_writer = 1, payload_bytes = 2, process_count = 1\<rparr> buf' = Inr () \<and>
     verify_header \<lparr>rows_per_writer = 4, payload_bytes = 2, process_count = 1\<rparr> buf' = Inl (BadGeometry (1, 1, 2))"
proof -
  define L where "L = \<lparr>rows_per_writer = 1, payload_bytes = 2, process_count = 1\<rparr>"
  define buf :: buffer where "buf = replicate 200 7"
  define M where "M = \<lparr>rows_per_writer = 4, payload_bytes = 2, process_count = 1\<rparr>"
  have L: "process_count L = 1" "rows_per_writer L = 1" "payload_bytes L = 2" "total_bytes L \<le> 200"
    and M: "process_count M = 1" "rows_per_writer M = 4" "payload_bytes M = 2"
    unfolding L_def M_def by code_simp+
  have ok: "header_ok L" "link_mem L buf" using L by (simp_all add: header_ok_def link_mem_def buf_def)
  obtain b where b: "write_header L buf = Inr b" using write_header_view [OF ok] by blast
  have "verify_header L b = Inr ()" "verify_header M b = Inl (BadGeometry (1, 1, 2))"
    using header_roundtrip [OF ok, of L] header_roundtrip [OF ok, of M] b by (simp_all add: L M)
  with b show ?thesis unfolding L_def M_def buf_def by blast
qed

text \<open>
  The scan of a reader's bitmap as one integer, lowest set bit first, returns in ascending order
  exactly the rows whose unread bit a test of that bit finds set.
\<close>

theorem unread_rows_correct:
  assumes "link_mem L buf" and "reader < process_count L"
  shows "unread_rows L buf reader = filter (\<lambda>row. test_bit_at L buf reader row = Inr True) [0..<total_rows L]"
proof -
  have "filter (\<lambda>row. test_bit_at L buf reader row = Inr True) [0..<total_rows L] =
      filter (unread (view L buf) reader) [0..<total_rows L]"
    by (rule filter_cong) (use test_bit_unread [OF assms] in auto)
  then show ?thesis using unread_rows_list [OF assms] by simp
qed

theorem unread_rows_correct_witness:
  "\<exists>buf. set_bit_at \<lparr>rows_per_writer = 1, payload_bytes = 2, process_count = 2\<rparr> 1 0 (replicate 300 0) = Inr buf \<and>
     unread_rows \<lparr>rows_per_writer = 1, payload_bytes = 2, process_count = 2\<rparr> buf 1 = [0]"
proof -
  define L where "L = \<lparr>rows_per_writer = 1, payload_bytes = 2, process_count = 2\<rparr>"
  define m :: buffer where "m = replicate 300 0"
  have tot: "total_bytes L \<le> 300" "total_rows L = 2" "process_count L = 2" "length m = 300"
    unfolding L_def m_def by code_simp+
  then have mem: "link_mem L m" by (simp add: link_mem_def)
  obtain buf where b: "set_bit_at L 1 0 m = Inr buf" "link_mem L buf"
    "test_bit_at L buf 1 0 = Inr True" "test_bit_at L buf 1 1 = test_bit_at L m 1 1"
    using unread_bits.wr_good [OF mem, of "(1, 0)" True] tot by (auto simp: write_bit_def)
  have "test_bit_at L m 1 1 = Inr False" unfolding L_def m_def by code_simp
  with b tot unread_rows_correct [OF b(2), of 1] have "unread_rows L buf 1 = [0]"
    by (simp add: numeral_2_eq_2)
  with b(1) show ?thesis unfolding L_def m_def by blast
qed

end
