(* ===== verification/Link.thy ===== *)
theory Link
  imports Link_Layout
begin

text \<open>
  The process link (\<open>xime/core/link/_link.py\<close>, \<open>_outcome.py\<close>, \<open>_config.py\<close>, \<open>_decorators.py\<close>,
  \<open>_cleanup.py\<close>): the operations of one process on the shared blocks of its channels. \<open>bus\<close> is what
  the processes share, \<open>link\<close> what one process keeps. A handler is awaited in the middle of
  \<open>_consume\<close>, so that function is two steps here, before and after the handler. Keys and
  error texts are their UTF-8 bytes. A \<open>struct.error\<close> (a counter past its 8 bytes) ends a call, and the
  partial writes before it are not kept.
\<close>

datatype outcome = Done buffer | NoOwner | NoAnswer | Failed buffer

datatype handler_kind = OnAnnounce | OnRequest

record bound_handler =
  bh_kind :: handler_kind
  bh_owner :: string

record channel_spec =
  spec_rows :: nat
  spec_payload :: nat

record bus =
  b_views :: "(string, buffer) dict"
  b_bells :: "nat list"

record link =
  k_index :: nat
  k_count :: nat
  k_layouts :: "(string, layout) dict"
  k_cursors :: "(string, nat) dict"
  k_handlers :: "(string, bound_handler) dict"
  k_pending :: "(buffer, outcome option) dict"
  k_warned_full :: "string list"
  k_missed_logs :: nat
  k_slow_logs :: nat
  k_running :: bool

section \<open>Configuration\<close>

definition internal_channel :: string where "internal_channel = ''__xime__''"

definition channels :: "(string, channel_spec) dict \<Rightarrow> (string, channel_spec) dict" where
  "channels app = dict_update [(internal_channel, \<lparr>spec_rows = 64, spec_payload = 512\<rparr>)] app"

datatype config_error =
    SpecRows int
  | SpecPayload int
  | ReservedChannel string
  | InvalidChannel string

definition make_spec :: "int \<Rightarrow> int \<Rightarrow> config_error + channel_spec" where
  "make_spec rows payload =
     (if rows < 1 then Inl (SpecRows rows)
      else if payload < 1 then Inl (SpecPayload payload)
      else Inr \<lparr>spec_rows = nat rows, spec_payload = nat payload\<rparr>)"

text \<open>\<open>byte_len\<close> is the length of a name's UTF-8 encoding.\<close>

definition configure_link ::
  "(string \<Rightarrow> nat) \<Rightarrow> (string, channel_spec) dict \<Rightarrow> config_error + (string, channel_spec) dict" where
  "configure_link byte_len specs =
     sbind (sfold (\<lambda>(name, _) _.
         if take 2 name = ''__'' then Inl (ReservedChannel name)
         else if name = [] \<or> 64 < byte_len name then Inl (InvalidChannel name)
         else Inr ()) specs ())
       (\<lambda>_. Inr specs)"

definition validate_process_count :: "int \<Rightarrow> link_error + nat" where
  "validate_process_count count =
     (if count < 1 \<or> int max_processes < count then Inl (LinkProcessCount (nat count)) else Inr (nat count))"

section \<open>Construction\<close>

definition layout_of :: "channel_spec \<Rightarrow> nat \<Rightarrow> layout" where
  "layout_of spec n = \<lparr>rows_per_writer = spec_rows spec, payload_bytes = spec_payload spec, process_count = n\<rparr>"

definition init_link :: "(string, channel_spec) dict \<Rightarrow> nat \<Rightarrow> nat \<Rightarrow> link" where
  "init_link specs n index =
     \<lparr>k_index = index, k_count = n, k_layouts = map (\<lambda>(name, spec). (name, layout_of spec n)) specs,
      k_cursors = map (\<lambda>(name, _). (name, 0)) specs, k_handlers = [], k_pending = [],
      k_warned_full = [], k_missed_logs = 0, k_slow_logs = 0, k_running = False\<rparr>"

text \<open>\<open>alloc\<close> gives a fresh block of at least the asked size, as the operating system does.\<close>

definition create_link ::
  "(nat \<Rightarrow> buffer) \<Rightarrow> (string, channel_spec) dict \<Rightarrow> int \<Rightarrow> int \<Rightarrow> link_error + link \<times> bus" where
  "create_link alloc specs count index =
     sbind (validate_process_count count) (\<lambda>n.
       if \<not> (0 \<le> index \<and> index < count) then Inl (LinkIndexError (nat index))
       else sbind (smap (\<lambda>(name, spec).
              let L = layout_of spec n
              in sbind (mem (write_header L (alloc (total_bytes L)))) (\<lambda>buf. Inr (name, buf))) specs) (\<lambda>views.
            Inr (init_link specs n (nat index), \<lparr>b_views = views, b_bells = replicate n 0\<rparr>)))"

definition attach_link ::
  "bus \<Rightarrow> (string, channel_spec) dict \<Rightarrow> int \<Rightarrow> int \<Rightarrow> link_error + link" where
  "attach_link b specs count index =
     sbind (validate_process_count count) (\<lambda>n.
       if \<not> (0 \<le> index \<and> index < count) then Inl (LinkIndexError (nat index))
       else sbind (smap (\<lambda>(name, spec).
              sbind (dindex (UnknownChannel name) (b_views b) name) (\<lambda>buf.
                verify_header (layout_of spec n) buf)) specs) (\<lambda>_.
            Inr (init_link specs n (nat index))))"

definition bind_handlers :: "(string, bound_handler) dict \<Rightarrow> link \<Rightarrow> link_error + link" where
  "bind_handlers handlers k =
     (case filter (\<lambda>c. dget (k_layouts k) c = None) (dkeys handlers) of
        c # _ \<Rightarrow> Inl (UnknownHandlerChannel c)
      | [] \<Rightarrow> Inr (k\<lparr>k_handlers := handlers\<rparr>))"

definition get_channel :: "link \<Rightarrow> bus \<Rightarrow> string \<Rightarrow> link_error + layout \<times> buffer" where
  "get_channel k b ch =
     sbind (dindex (UnknownChannel ch) (k_layouts k) ch) (\<lambda>L.
       sbind (dindex (UnknownChannel ch) (b_views b) ch) (\<lambda>buf. Inr (L, buf)))"

section \<open>Publishing\<close>

text \<open>The bytes of one publication: the writer's next row is taken, filled and shown to the readers.\<close>

definition drop_stale :: "layout \<Rightarrow> nat \<Rightarrow> nat list \<Rightarrow> buffer \<Rightarrow> mem_error + buffer" where
  "drop_stale L row stale buf =
     sfold (\<lambda>r buf. sbind (bump_missed buf r) (\<lambda>buf. clear_bit_at L r row buf)) stale buf"

definition claim_row :: "layout \<Rightarrow> nat \<Rightarrow> buffer \<Rightarrow> mem_error + buffer \<times> nat list" where
  "claim_row L row buf =
     sbind (any_unread L buf row) (\<lambda>stale.
       sbind (if stale \<noteq> [] then drop_stale L row stale buf else Inr buf) (\<lambda>buf.
         sbind (write_u8 L row FComplete 0 buf) (\<lambda>buf. Inr (buf, stale))))"

definition fill_row ::
  "layout \<Rightarrow> nat \<Rightarrow> nat \<Rightarrow> nat \<Rightarrow> nat \<Rightarrow> nat \<Rightarrow> buffer \<Rightarrow> buffer \<Rightarrow> buffer \<Rightarrow> buffer \<Rightarrow> mem_error + buffer" where
  "fill_row L index row sequence now kind key payload corr buf =
     sbind (write_u64 L row FSeq sequence buf) (\<lambda>buf.
     sbind (write_u64 L row FWritten now buf) (\<lambda>buf.
     sbind (write_correlation L row corr buf) (\<lambda>buf.
     sbind (write_key L row key buf) (\<lambda>buf.
     sbind (write_payload L row payload buf) (\<lambda>buf.
     sbind (write_length L row (length payload) buf) (\<lambda>buf.
     sbind (write_u8 L row FKind kind buf) (\<lambda>buf.
     sbind (write_u8 L row FTaker no_taker buf) (\<lambda>buf.
     sbind (write_u8 L row FSender index buf) (\<lambda>buf.
       write_u8 L row FComplete 1 buf)))))))))"

definition others :: "nat \<Rightarrow> nat \<Rightarrow> nat list" where
  "others n index = filter (\<lambda>r. r \<noteq> index) [0..<n]"

definition show_row :: "layout \<Rightarrow> nat \<Rightarrow> nat \<Rightarrow> buffer \<Rightarrow> mem_error + buffer" where
  "show_row L index row buf = sfold (\<lambda>r buf. set_bit_at L r row buf) (others (process_count L) index) buf"

text \<open>\<open>chua_doc / len(cua_toi) >= 0.8\<close>, for an empty region 0.\<close>

definition nearly_full :: "layout \<Rightarrow> nat \<Rightarrow> buffer \<Rightarrow> mem_error + bool" where
  "nearly_full L index buf =
     sbind (smap (any_unread L buf) (rows_of L index)) (\<lambda>us.
       Inr (us \<noteq> [] \<and> 4 * length us \<le> 5 * length (filter (\<lambda>u. u \<noteq> []) us)))"

definition maybe_warn_full :: "layout \<Rightarrow> string \<Rightarrow> buffer \<Rightarrow> link \<Rightarrow> mem_error + link" where
  "maybe_warn_full L ch buf k =
     sbind (nearly_full L (k_index k) buf) (\<lambda>full.
       Inr (if full \<and> ch \<notin> set (k_warned_full k) then k\<lparr>k_warned_full := k_warned_full k @ [ch]\<rparr>
            else if \<not> full then k\<lparr>k_warned_full := removeAll ch (k_warned_full k)\<rparr>
            else k))"

definition ring :: "nat \<Rightarrow> nat list \<Rightarrow> nat list" where
  "ring index bells = map (\<lambda>(r, n). if r \<noteq> index then Suc n else n) (enumerate 0 bells)"

definition publish ::
  "nat \<Rightarrow> string \<Rightarrow> nat \<Rightarrow> buffer \<Rightarrow> buffer \<Rightarrow> buffer \<Rightarrow> link \<Rightarrow> bus \<Rightarrow> link_error + link \<times> bus \<times> nat" where
  "publish now ch kind key payload corr k b =
     sbind (get_channel k b ch) (\<lambda>(L, buf).
       if payload_bytes L < length payload then Inl (PayloadTooLong (length payload) (payload_bytes L))
       else if key_bytes < length key then Inl (KeyTooLong (length key))
       else sbind (dindex (UnknownChannel ch) (k_cursors k) ch) (\<lambda>cursor.
         let row = k_index k * rows_per_writer L + cursor;
             k1 = k\<lparr>k_cursors := dset ch ((cursor + 1) mod rows_per_writer L) (k_cursors k)\<rparr>
         in sbind (mem (claim_row L row buf)) (\<lambda>(buf1, stale).
            let k2 = (if stale \<noteq> [] then k1\<lparr>k_missed_logs := Suc (k_missed_logs k1)\<rparr> else k1)
            in sbind (mem (maybe_warn_full L ch buf1 k2)) (\<lambda>k3.
               sbind (mem (next_sequence buf1)) (\<lambda>(buf2, sequence).
                 sbind (mem (fill_row L (k_index k) row sequence now kind key payload corr buf2)) (\<lambda>buf3.
                   sbind (mem (show_row L (k_index k) row buf3)) (\<lambda>buf4.
                     Inr (k3, b\<lparr>b_views := dset ch buf4 (b_views b),
                                b_bells := ring (k_index k) (b_bells b)\<rparr>, row))))))))"

definition announce :: "nat \<Rightarrow> string \<Rightarrow> buffer \<Rightarrow> buffer \<Rightarrow> link \<Rightarrow> bus \<Rightarrow> link_error + link \<times> bus \<times> nat" where
  "announce now ch payload key k b = publish now ch kind_announce key payload [] k b"

definition send :: "nat \<Rightarrow> string \<Rightarrow> buffer \<Rightarrow> buffer \<Rightarrow> link \<Rightarrow> bus \<Rightarrow> link_error + link \<times> bus \<times> nat" where
  "send now ch key payload k b = publish now ch kind_request key payload [] k b"

section \<open>Reading\<close>

record message =
  m_key :: buffer
  m_payload :: buffer
  m_sender :: nat

text \<open>\<open>sorted(rows, key=...)\<close> with the sequence numbers read from the rows.\<close>

definition by_sequence :: "layout \<Rightarrow> buffer \<Rightarrow> nat list \<Rightarrow> mem_error + nat list" where
  "by_sequence L buf rows =
     sbind (smap (\<lambda>r. sbind (read_u64 L buf r FSeq) (\<lambda>s. Inr (s, r))) rows) (\<lambda>keyed.
       Inr (map snd (sort_key fst keyed)))"

definition read_message :: "layout \<Rightarrow> buffer \<Rightarrow> nat \<Rightarrow> mem_error + message" where
  "read_message L buf row =
     sbind (read_payload L buf row) (\<lambda>p.
       sbind (read_u8 L buf row FSender) (\<lambda>s.
         Inr \<lparr>m_key = read_key L buf row, m_payload = p, m_sender = s\<rparr>))"

fun drain_rows :: "layout \<Rightarrow> nat \<Rightarrow> nat list \<Rightarrow> buffer \<Rightarrow> mem_error + buffer \<times> message list" where
  "drain_rows L index [] buf = Inr (buf, [])"
| "drain_rows L index (row # rows) buf =
     sbind (read_u8 L buf row FComplete) (\<lambda>c.
       if c = 0 then drain_rows L index rows buf
       else sbind (read_message L buf row) (\<lambda>msg.
         sbind (clear_bit_at L index row buf) (\<lambda>buf1.
           sbind (drain_rows L index rows buf1) (\<lambda>(buf2, msgs). Inr (buf2, msg # msgs)))))"

definition drain_sync :: "string \<Rightarrow> link \<Rightarrow> bus \<Rightarrow> link_error + bus \<times> message list" where
  "drain_sync ch k b =
     sbind (get_channel k b ch) (\<lambda>(L, buf).
       sbind (mem (by_sequence L buf (unread_rows L buf (k_index k)))) (\<lambda>rows.
         sbind (mem (drain_rows L (k_index k) rows buf)) (\<lambda>(buf', msgs).
           Inr (b\<lparr>b_views := dset ch buf' (b_views b)\<rparr>, msgs))))"

section \<open>Requests and answers\<close>

definition settle :: "buffer \<Rightarrow> nat \<Rightarrow> buffer \<Rightarrow> link \<Rightarrow> link" where
  "settle corr kind payload k =
     (case dget (k_pending k) corr of
        Some None \<Rightarrow> k\<lparr>k_pending := dset corr (Some (if kind = kind_failure then Failed payload else Done payload)) (k_pending k)\<rparr>
      | _ \<Rightarrow> k)"

text \<open>What a call of the handler gives, and what \<open>_invoke\<close> makes of it.\<close>

datatype handler_result = RNone | RBytes buffer | ROther | RRaise buffer | RCancelled

datatype verdict = Answered buffer | Skipped | FailedWith buffer

datatype invoke_exn = HandlerCancelled | HandlerType

definition slow_ns :: nat where "slow_ns = 5000000000"

definition invoke ::
  "bound_handler \<Rightarrow> handler_result \<Rightarrow> nat \<Rightarrow> link \<Rightarrow> link \<times> (invoke_exn + verdict)" where
  "invoke h result elapsed k =
     (let k1 = (if slow_ns < elapsed then k\<lparr>k_slow_logs := Suc (k_slow_logs k)\<rparr> else k)
      in (k1, case result of
                RCancelled \<Rightarrow> Inl HandlerCancelled
              | RRaise detail \<Rightarrow> Inr (FailedWith detail)
              | RNone \<Rightarrow> Inr Skipped
              | RBytes bs \<Rightarrow> if bh_kind h = OnAnnounce then Inr Skipped else Inr (Answered bs)
              | ROther \<Rightarrow> if bh_kind h = OnAnnounce then Inr Skipped else Inl HandlerType))"

record delivery =
  d_row :: nat
  d_kind :: nat
  d_key :: buffer
  d_corr :: buffer
  d_payload :: buffer

definition empty_correlation :: buffer where "empty_correlation = replicate 16 0"

text \<open>Up to the handler: the row is read, its bit cleared, an answer delivered to its asker.\<close>

definition consume_begin ::
  "string \<Rightarrow> nat \<Rightarrow> link \<Rightarrow> bus \<Rightarrow> link_error + link \<times> bus \<times> (bound_handler \<times> delivery) option" where
  "consume_begin ch row k b =
     sbind (get_channel k b ch) (\<lambda>(L, buf).
       sbind (mem (read_u8 L buf row FKind)) (\<lambda>kind.
         sbind (mem (read_payload L buf row)) (\<lambda>payload.
           sbind (mem (read_u8 L buf row FSender)) (\<lambda>_.
             sbind (mem (clear_bit_at L (k_index k) row buf)) (\<lambda>buf1.
               let corr = read_correlation L buf row;
                   b1 = b\<lparr>b_views := dset ch buf1 (b_views b)\<rparr>
               in if kind = kind_reply \<or> kind = kind_failure then Inr (settle corr kind payload k, b1, None)
                  else Inr (k, b1, map_option (\<lambda>h. (h, \<lparr>d_row = row, d_kind = kind,
                    d_key = read_key L buf row, d_corr = corr, d_payload = payload\<rparr>)) (dget (k_handlers k) ch)))))))"

definition take_row :: "string \<Rightarrow> nat \<Rightarrow> link \<Rightarrow> bus \<Rightarrow> link_error + bus" where
  "take_row ch row k b =
     sbind (get_channel k b ch) (\<lambda>(L, buf).
       sbind (mem (write_u8 L row FTaker (k_index k) buf)) (\<lambda>buf1.
         Inr (b\<lparr>b_views := dset ch buf1 (b_views b)\<rparr>)))"

text \<open>After the handler: an answered request is marked taken and, when asked for, answered.\<close>

definition consume_end ::
  "nat \<Rightarrow> string \<Rightarrow> delivery \<Rightarrow> verdict \<Rightarrow> link \<Rightarrow> bus \<Rightarrow> link_error + link \<times> bus" where
  "consume_end now ch d v k b =
     (case v of
        FailedWith detail \<Rightarrow>
          if d_kind d = kind_request \<and> d_corr d \<noteq> empty_correlation
          then sbind (take_row ch (d_row d) k b) (\<lambda>b1.
                 sbind (publish now ch kind_failure (d_key d) detail (d_corr d) k b1) (\<lambda>(k2, b2, _). Inr (k2, b2)))
          else Inr (k, b)
      | Skipped \<Rightarrow> Inr (k, b)
      | Answered answer \<Rightarrow>
          if d_kind d \<noteq> kind_request then Inr (k, b)
          else sbind (take_row ch (d_row d) k b) (\<lambda>b1.
                 if d_corr d \<noteq> empty_correlation
                 then sbind (publish now ch kind_reply (d_key d) answer (d_corr d) k b1) (\<lambda>(k2, b2, _). Inr (k2, b2))
                 else Inr (k, b1)))"

text \<open>\<open>ask\<close> up to its wait, and what it returns when the wait ends.\<close>

definition ask_begin ::
  "nat \<Rightarrow> string \<Rightarrow> buffer \<Rightarrow> buffer \<Rightarrow> buffer \<Rightarrow> link \<Rightarrow> bus \<Rightarrow> link_error + link \<times> bus \<times> nat \<times> nat" where
  "ask_begin now ch key payload corr k b =
     (let k1 = k\<lparr>k_pending := dset corr None (k_pending k)\<rparr>
      in sbind (publish now ch kind_request key payload corr k1 b) (\<lambda>(k2, b2, row).
           sbind (get_channel k2 b2 ch) (\<lambda>(L, buf).
             sbind (mem (read_u64 L buf row FSeq)) (\<lambda>seq0. Inr (k2, b2, row, seq0)))))"

definition ask_timeout :: "string \<Rightarrow> nat \<Rightarrow> nat \<Rightarrow> link \<Rightarrow> bus \<Rightarrow> link_error + outcome" where
  "ask_timeout ch row seq0 k b =
     sbind (get_channel k b ch) (\<lambda>(L, buf).
       sbind (mem (read_u64 L buf row FSeq)) (\<lambda>s.
         if s \<noteq> seq0 then Inr NoAnswer
         else sbind (mem (read_u8 L buf row FTaker)) (\<lambda>taker.
           Inr (if taker \<noteq> no_taker then NoAnswer else NoOwner))))"

definition ask_end ::
  "bool \<Rightarrow> string \<Rightarrow> buffer \<Rightarrow> nat \<Rightarrow> nat \<Rightarrow> link \<Rightarrow> bus \<Rightarrow> link \<times> (link_error + outcome)" where
  "ask_end timed_out ch corr row seq0 k b =
     (k\<lparr>k_pending := ddel corr (k_pending k)\<rparr>,
      case dget (k_pending k) corr of
        Some (Some answer) \<Rightarrow> if timed_out then ask_timeout ch row seq0 k b else Inr answer
      | _ \<Rightarrow> ask_timeout ch row seq0 k b)"

section \<open>Observation\<close>

record channel_stats =
  cs_rows_total :: nat
  cs_rows_used :: nat
  cs_oldest :: "int option"
  cs_readers :: "(nat \<times> nat \<times> nat) list"

definition age_ms :: "nat \<Rightarrow> nat \<Rightarrow> int" where
  "age_ms now written = (int now - int written) div 1000000"

fun stats_rows ::
  "layout \<Rightarrow> buffer \<Rightarrow> nat \<Rightarrow> nat list \<Rightarrow> nat \<times> int option \<Rightarrow> mem_error + nat \<times> int option" where
  "stats_rows L buf now [] acc = Inr acc"
| "stats_rows L buf now (row # rows) (used, oldest) =
     sbind (read_u8 L buf row FComplete) (\<lambda>c.
       if c = 0 then stats_rows L buf now rows (used, oldest)
       else sbind (any_unread L buf row) (\<lambda>u.
         if u = [] then stats_rows L buf now rows (used, oldest)
         else sbind (read_u64 L buf row FWritten) (\<lambda>t.
           let age = age_ms now t
           in stats_rows L buf now rows
                (Suc used, Some (case oldest of None \<Rightarrow> age | Some a \<Rightarrow> max a age)))))"

definition stats_channel :: "layout \<Rightarrow> buffer \<Rightarrow> nat \<Rightarrow> mem_error + channel_stats" where
  "stats_channel L buf now =
     sbind (smap (\<lambda>i. sbind (read_missed buf i) (\<lambda>m.
              Inr (i, length (unread_rows L buf i), m))) [0..<process_count L]) (\<lambda>readers.
       sbind (stats_rows L buf now [0..<total_rows L] (0, None)) (\<lambda>(used, oldest).
         Inr \<lparr>cs_rows_total = total_rows L, cs_rows_used = used, cs_oldest = oldest, cs_readers = readers\<rparr>))"

definition stats :: "nat \<Rightarrow> link \<Rightarrow> bus \<Rightarrow> link_error + (string \<times> channel_stats) list" where
  "stats now k b =
     smap (\<lambda>(name, L). sbind (dindex (UnknownChannel name) (b_views b) name) (\<lambda>buf.
       sbind (mem (stats_channel L buf now)) (\<lambda>s. Inr (name, s)))) (k_layouts k)"

record raw_row =
  rr_row :: nat
  rr_kind :: string
  rr_key :: buffer
  rr_sender :: nat
  rr_taker :: "nat option"
  rr_unread_by :: "nat list"
  rr_payload :: buffer
  rr_age :: int

definition kind_name :: "nat \<Rightarrow> string" where
  "kind_name k = (if k = kind_announce then ''announce'' else if k = kind_request then ''request''
     else if k = kind_reply then ''reply'' else if k = kind_failure then ''failure'' else ''?'')"

definition dump_row :: "layout \<Rightarrow> buffer \<Rightarrow> nat \<Rightarrow> nat \<Rightarrow> mem_error + raw_row option" where
  "dump_row L buf now row =
     sbind (read_u8 L buf row FComplete) (\<lambda>c.
       if c = 0 then Inr None
       else sbind (read_u8 L buf row FTaker) (\<lambda>taker.
            sbind (read_u8 L buf row FKind) (\<lambda>kind.
            sbind (read_u8 L buf row FSender) (\<lambda>sender.
            sbind (any_unread L buf row) (\<lambda>u.
            sbind (read_payload L buf row) (\<lambda>p.
            sbind (read_u64 L buf row FWritten) (\<lambda>t.
              Inr (Some \<lparr>rr_row = row, rr_kind = kind_name kind, rr_key = read_key L buf row, rr_sender = sender,
                rr_taker = (if taker = no_taker then None else Some taker), rr_unread_by = u,
                rr_payload = p, rr_age = age_ms now t\<rparr>))))))))"

definition dump :: "nat \<Rightarrow> string \<Rightarrow> link \<Rightarrow> bus \<Rightarrow> link_error + raw_row list" where
  "dump now ch k b =
     sbind (get_channel k b ch) (\<lambda>(L, buf).
       sbind (mem (smap (dump_row L buf now) [0..<total_rows L])) (\<lambda>rs. Inr (List.map_filter id rs)))"

section \<open>Start and stop\<close>

definition start_link :: "link \<Rightarrow> link" where
  "start_link k = (if k_running k then k else k\<lparr>k_running := True\<rparr>)"

definition stop_link :: "link \<Rightarrow> bus \<Rightarrow> link \<times> bus" where
  "stop_link k b =
     (if \<not> k_running k then (k, b)
      else (k\<lparr>k_running := False, k_pending := []\<rparr>,
            b\<lparr>b_bells := map (\<lambda>(r, n). if r = k_index k then n + length (k_layouts k) else n)
               (enumerate 0 (b_bells b))\<rparr>))"

section \<open>Orphaned blocks\<close>

definition block_prefixes :: "string list" where
  "block_prefixes = [''xime-link-'', ''xime-ref-'', ''xime-beat-'']"

definition block_name :: "string \<Rightarrow> string \<Rightarrow> string" where
  "block_name link_id ch = ''xime-link-'' @ link_id @ ''-'' @ ch"

definition owner_pid :: "string \<Rightarrow> nat option" where
  "owner_pid name =
     (case filter (\<lambda>p. take (length p) name = p) block_prefixes of
        [] \<Rightarrow> None
      | p # _ \<Rightarrow>
          (let part = hd (split_on (CHR ''-'') (drop (length p) name))
           in if part \<noteq> [] \<and> list_all is_digit part then Some (digits_value part) else None))"

text \<open>\<open>alive\<close> and the outcome of \<open>unlink\<close> come from the operating system.\<close>

definition sweep_orphans :: "(nat \<Rightarrow> bool) \<Rightarrow> (string \<Rightarrow> bool) \<Rightarrow> string list \<Rightarrow> string list" where
  "sweep_orphans alive unlinks names =
     filter (\<lambda>n. case owner_pid n of None \<Rightarrow> False | Some pid \<Rightarrow> \<not> alive pid \<and> unlinks n) names"

section \<open>The channel a buffer stands for\<close>

text \<open>
  The abstract state of a channel: who has not read which row, how many rows each process
  missed, the last sequence number, the bytes of every row field.
\<close>

record chan =
  a_unread :: "nat \<Rightarrow> nat \<Rightarrow> bool"
  a_missed :: "nat \<Rightarrow> nat"
  a_seq :: nat
  a_field :: "nat \<Rightarrow> row_field \<Rightarrow> buffer"

definition abs_chan :: "layout \<Rightarrow> buffer \<Rightarrow> chan" where
  "abs_chan L buf =
     \<lparr>a_unread = (\<lambda>r row. r < process_count L \<and> row < total_rows L \<and> unread (view L buf) r row),
      a_missed = (\<lambda>i. if i < process_count L then num (view L buf) (LMissed i) else 0),
      a_seq = num (view L buf) LSeq,
      a_field = (\<lambda>row f. view L buf (LRow row f))\<rparr>"

lemma abs_field:
  assumes "link_mem L buf" and "row < total_rows L" and "length bs = field_size L f"
  shows "abs_chan L (wloc L (LRow row f) bs buf) =
    (abs_chan L buf)\<lparr>a_field := (a_field (abs_chan L buf))(row := (a_field (abs_chan L buf) row)(f := bs))\<rparr>"
  using assms by (auto simp: abs_chan_def fun_eq_iff)

lemma abs_seq:
  assumes "link_mem L buf" and "length bs = 8"
  shows "abs_chan L (wloc L LSeq bs buf) = (abs_chan L buf)\<lparr>a_seq := le_value bs\<rparr>"
  using assms by (auto simp: abs_chan_def fun_eq_iff)

lemma abs_missed:
  assumes "link_mem L buf" and "i < process_count L" and "length bs = 8"
  shows "abs_chan L (wloc L (LMissed i) bs buf) =
    (abs_chan L buf)\<lparr>a_missed := (a_missed (abs_chan L buf))(i := le_value bs)\<rparr>"
  using assms by (auto simp: abs_chan_def fun_eq_iff)

lemma abs_bit:
  assumes "link_mem L buf" and "r < process_count L" and "row < total_rows L"
  shows "abs_chan L (wloc L (LBits r (row div 8)) (set_bits (view L buf) r row b) buf) =
    (abs_chan L buf)\<lparr>a_unread := (\<lambda>r' row'. if r' = r \<and> row' = row then b else a_unread (abs_chan L buf) r' row')\<rparr>"
  using assms bit_byte_valid [OF assms(3)]
  by (auto simp: abs_chan_def fun_eq_iff unread_set_bits)

lemma wloc_bit_mem:
  "link_mem L buf \<Longrightarrow> r < process_count L \<Longrightarrow> row < total_rows L \<Longrightarrow>
     link_mem L (wloc L (LBits r (row div 8)) (set_bits (view L buf) r row b) buf)"
  by (simp add: bit_byte_valid)

text \<open>Counters below their limit.\<close>

definition counters_ok :: "chan \<Rightarrow> bool" where
  "counters_ok c \<longleftrightarrow> a_seq c + 1 < 256 ^ 8 \<and> (\<forall>i. a_missed c i + 1 < 256 ^ 8)"

lemma drop_stale_abs:
  assumes "link_mem L buf" and "row < total_rows L" and "distinct stale"
    and "\<forall>r \<in> set stale. r < process_count L \<and> a_missed (abs_chan L buf) r + 1 < 256 ^ 8"
  shows "\<exists>buf'. drop_stale L row stale buf = Inr buf' \<and> link_mem L buf' \<and>
    abs_chan L buf' = (abs_chan L buf)\<lparr>
      a_missed := (\<lambda>i. a_missed (abs_chan L buf) i + (if i \<in> set stale then 1 else 0)),
      a_unread := (\<lambda>r row'. a_unread (abs_chan L buf) r row' \<and> \<not> (row' = row \<and> r \<in> set stale))\<rparr>"
  using assms
proof (induction stale arbitrary: buf)
  case Nil
  then show ?case by (simp add: drop_stale_def)
next
  case (Cons r stale)
  have r: "r < process_count L" "num (view L buf) (LMissed r) + 1 < 256 ^ 8"
    using Cons.prems(4) by (auto simp: abs_chan_def)
  define b1 where "b1 = wloc L (LMissed r) (le_bytes 8 (num (view L buf) (LMissed r) + 1)) buf"
  have b1_ok: "bump_missed buf r = Inr b1" "link_mem L b1"
    unfolding b1_def using bump_missed_wloc [OF Cons.prems(1) r] Cons.prems(1) r(1) by simp_all
  define b2 where "b2 = wloc L (LBits r (row div 8)) (set_bits (view L b1) r row False) b1"
  have b2_ok: "clear_bit_at L r row b1 = Inr b2" "link_mem L b2"
    unfolding b2_def using set_bit_wloc(2) [OF b1_ok(2) r(1) Cons.prems(2)] wloc_bit_mem [OF b1_ok(2) r(1) Cons.prems(2)] by simp_all
  have val: "le_value (le_bytes 8 (num (view L buf) (LMissed r) + 1)) = a_missed (abs_chan L buf) r + 1"
    using r by (simp add: abs_chan_def)
  have abs: "abs_chan L b2 = (abs_chan L buf)\<lparr>
      a_missed := (a_missed (abs_chan L buf))(r := a_missed (abs_chan L buf) r + 1),
      a_unread := (\<lambda>r' row'. if r' = r \<and> row' = row then False else a_unread (abs_chan L buf) r' row')\<rparr>"
    unfolding b2_def abs_bit [OF b1_ok(2) r(1) Cons.prems(2)]
    using abs_missed [OF Cons.prems(1) r(1)] val by (simp add: b1_def)
  have "\<forall>q \<in> set stale. q < process_count L \<and> a_missed (abs_chan L b2) q + 1 < 256 ^ 8"
    using Cons.prems(3,4) by (simp add: abs)
  with Cons.IH [OF b2_ok(2) Cons.prems(2)] Cons.prems(3) obtain buf' where
    "drop_stale L row stale b2 = Inr buf'" "link_mem L buf'"
    "abs_chan L buf' = (abs_chan L b2)\<lparr>
      a_missed := (\<lambda>i. a_missed (abs_chan L b2) i + (if i \<in> set stale then 1 else 0)),
      a_unread := (\<lambda>r row'. a_unread (abs_chan L b2) r row' \<and> \<not> (row' = row \<and> r \<in> set stale))\<rparr>"
    by auto
  moreover from this(1) have "drop_stale L row (r # stale) buf = Inr buf'"
    by (simp add: drop_stale_def b1_ok(1) b2_ok(1))
  ultimately show ?case
    unfolding abs using Cons.prems(3)
    by (intro exI [of _ buf']) (simp, rule chan.equality; auto simp: fun_eq_iff)
qed

lemma show_rows_abs:
  assumes "link_mem L buf" and "row < total_rows L" and "\<forall>r \<in> set rs. r < process_count L"
  shows "\<exists>buf'. sfold (\<lambda>r buf. set_bit_at L r row buf) rs buf = Inr buf' \<and> link_mem L buf' \<and>
    abs_chan L buf' = (abs_chan L buf)\<lparr>
      a_unread := (\<lambda>r row'. a_unread (abs_chan L buf) r row' \<or> (row' = row \<and> r \<in> set rs))\<rparr>"
  using assms
proof (induction rs arbitrary: buf)
  case (Cons r rs)
  have r: "r < process_count L" using Cons.prems(3) by simp
  let ?b1 = "wloc L (LBits r (row div 8)) (set_bits (view L buf) r row True) buf"
  have b1: "set_bit_at L r row buf = Inr ?b1" "link_mem L ?b1"
    using set_bit_wloc(1) [OF Cons.prems(1) r Cons.prems(2)] wloc_bit_mem [OF Cons.prems(1) r Cons.prems(2)] by simp_all
  note abs = abs_bit [OF Cons.prems(1) r Cons.prems(2), of True]
  from Cons.IH [OF b1(2) Cons.prems(2)] Cons.prems(3) obtain buf' where
    "sfold (\<lambda>r buf. set_bit_at L r row buf) rs ?b1 = Inr buf'" "link_mem L buf'"
    "abs_chan L buf' = (abs_chan L ?b1)\<lparr>
      a_unread := (\<lambda>r row'. a_unread (abs_chan L ?b1) r row' \<or> (row' = row \<and> r \<in> set rs))\<rparr>" by auto
  with b1(1) show ?case
    unfolding abs by (intro exI [of _ buf']) (simp, rule chan.equality; auto simp: fun_eq_iff)
qed simp

lemma claim_row_abs:
  assumes "link_mem L buf" and "row < total_rows L" and "counters_ok (abs_chan L buf)"
  shows "\<exists>buf'. claim_row L row buf =
      Inr (buf', filter (\<lambda>r. a_unread (abs_chan L buf) r row) [0..<process_count L]) \<and> link_mem L buf' \<and>
    abs_chan L buf' = (abs_chan L buf)\<lparr>
      a_missed := (\<lambda>i. a_missed (abs_chan L buf) i + (if a_unread (abs_chan L buf) i row then 1 else 0)),
      a_unread := (\<lambda>r row'. a_unread (abs_chan L buf) r row' \<and> row' \<noteq> row),
      a_field := (a_field (abs_chan L buf))(row := (a_field (abs_chan L buf) row)(FComplete := [0]))\<rparr>"
proof -
  let ?stale = "filter (\<lambda>r. a_unread (abs_chan L buf) r row) [0..<process_count L]"
  have "filter (\<lambda>r. unread (view L buf) r row) [0..<process_count L] = ?stale"
    by (rule filter_cong) (use assms(2) in \<open>auto simp: abs_chan_def\<close>)
  then have any: "any_unread L buf row = Inr ?stale" using any_unread_list [OF assms(1,2)] by simp
  have mem: "r \<in> set ?stale \<longleftrightarrow> a_unread (abs_chan L buf) r row" for r by (auto simp: abs_chan_def)
  have prem: "\<forall>r \<in> set ?stale. r < process_count L \<and> a_missed (abs_chan L buf) r + 1 < 256 ^ 8"
    using assms(3) by (simp add: counters_ok_def)
  obtain buf1 where b1: "drop_stale L row ?stale buf = Inr buf1" "link_mem L buf1"
    "abs_chan L buf1 = (abs_chan L buf)\<lparr>
      a_missed := (\<lambda>i. a_missed (abs_chan L buf) i + (if i \<in> set ?stale then 1 else 0)),
      a_unread := (\<lambda>r row'. a_unread (abs_chan L buf) r row' \<and> \<not> (row' = row \<and> r \<in> set ?stale))\<rparr>"
    using drop_stale_abs [OF assms(1,2) _ prem] by auto
  let ?b2 = "wloc L (LRow row FComplete) [0] buf1"
  have b2: "write_u8 L row FComplete 0 buf1 = Inr ?b2"
    using write_u8_wloc [OF b1(2) assms(2), of FComplete 0] by simp
  have run: "claim_row L row buf = Inr (?b2, ?stale)"
  proof -
    have "(if ?stale \<noteq> [] then drop_stale L row ?stale buf else Inr buf) = Inr buf1"
      using b1(1) by (cases "?stale = []") (simp_all add: drop_stale_def)
    then show ?thesis by (simp only: claim_row_def any sbind_simps b2)
  qed
  have "abs_chan L ?b2 = (abs_chan L buf)\<lparr>
      a_missed := (\<lambda>i. a_missed (abs_chan L buf) i + (if a_unread (abs_chan L buf) i row then 1 else 0)),
      a_unread := (\<lambda>r row'. a_unread (abs_chan L buf) r row' \<and> row' \<noteq> row),
      a_field := (a_field (abs_chan L buf))(row := (a_field (abs_chan L buf) row)(FComplete := [0]))\<rparr>"
    using abs_field [OF b1(2) assms(2), of "[0]" FComplete] unfolding b1(3) mem
    by simp (rule chan.equality; auto simp: fun_eq_iff)
  with run b1(2) assms(2) show ?thesis by (intro exI [of _ ?b2]) simp
qed

section \<open>Publishing refines an update of the channel\<close>

fun row_content ::
  "nat \<Rightarrow> nat \<Rightarrow> nat \<Rightarrow> nat \<Rightarrow> buffer \<Rightarrow> buffer \<Rightarrow> buffer \<Rightarrow> (row_field \<Rightarrow> buffer) \<Rightarrow> row_field \<Rightarrow> buffer" where
  "row_content index s now kind key payload corr old FSeq = le_bytes 8 s"
| "row_content index s now kind key payload corr old FWritten = le_bytes 8 now"
| "row_content index s now kind key payload corr old FCorrelation = ljust0 16 corr"
| "row_content index s now kind key payload corr old FKey = ljust0 32 key"
| "row_content index s now kind key payload corr old FLength = le_bytes 4 (length payload)"
| "row_content index s now kind key payload corr old FComplete = le_bytes 1 1"
| "row_content index s now kind key payload corr old FKind = le_bytes 1 kind"
| "row_content index s now kind key payload corr old FTaker = le_bytes 1 no_taker"
| "row_content index s now kind key payload corr old FSender = le_bytes 1 index"
| "row_content index s now kind key payload corr old FPayload = payload @ drop (length payload) (old FPayload)"

definition publish_abs ::
  "nat \<Rightarrow> nat \<Rightarrow> nat \<Rightarrow> nat \<Rightarrow> nat \<Rightarrow> buffer \<Rightarrow> buffer \<Rightarrow> buffer \<Rightarrow> chan \<Rightarrow> chan" where
  "publish_abs n index row now kind key payload corr c =
     \<lparr>a_unread = (\<lambda>r row'. if row' = row then r < n \<and> r \<noteq> index else a_unread c r row'),
      a_missed = (\<lambda>i. a_missed c i + (if a_unread c i row then 1 else 0)),
      a_seq = a_seq c + 1,
      a_field = (a_field c)(row := row_content index (a_seq c + 1) now kind key payload corr (a_field c row))\<rparr>"

text \<open>A sequence of writes to fields of one row.\<close>

definition wfields :: "layout \<Rightarrow> nat \<Rightarrow> (row_field \<times> buffer) list \<Rightarrow> buffer \<Rightarrow> buffer" where
  "wfields L row ws buf = fold (\<lambda>(f, bs). wloc L (LRow row f) bs) ws buf"

lemma wfields_abs:
  assumes "link_mem L buf" and "row < total_rows L" and "\<forall>(f, bs) \<in> set ws. length bs = field_size L f"
  shows "link_mem L (wfields L row ws buf) \<and>
    abs_chan L (wfields L row ws buf) = (abs_chan L buf)\<lparr>
      a_field := (a_field (abs_chan L buf))(row := fold (\<lambda>(f, bs) g. g(f := bs)) ws (a_field (abs_chan L buf) row))\<rparr>"
  using assms
proof (induction ws arbitrary: buf)
  case Nil
  then show ?case by (simp add: wfields_def)
next
  case (Cons w ws)
  obtain f bs where w: "w = (f, bs)" by (cases w)
  define b1 where "b1 = wloc L (LRow row f) bs buf"
  have len: "length bs = field_size L f" using Cons.prems(3) w by simp
  have b1: "link_mem L b1" using Cons.prems(1,2) len by (simp add: b1_def)
  have abs: "abs_chan L b1 = (abs_chan L buf)\<lparr>a_field := (a_field (abs_chan L buf))(row := (a_field (abs_chan L buf) row)(f := bs))\<rparr>"
    unfolding b1_def by (rule abs_field [OF Cons.prems(1,2) len])
  have "wfields L row (w # ws) buf = wfields L row ws b1" by (simp add: wfields_def w b1_def)
  with Cons.IH [OF b1 Cons.prems(2)] Cons.prems(3) show ?case
    by (simp add: abs w) (rule chan.equality; auto simp: fun_eq_iff)
qed

lemma fill_row_wfields:
  assumes "link_mem L buf" and "row < total_rows L" and "s < 256 ^ 8" and "now < 256 ^ 8"
    and "length payload \<le> payload_bytes L" and "payload_bytes L < 256 ^ 4" and "length key \<le> 32"
    and "length corr \<le> 16" and "kind < 256" and "index < 256"
  shows "fill_row L index row s now kind key payload corr buf =
    Inr (wfields L row
      [(FSeq, le_bytes 8 s), (FWritten, le_bytes 8 now), (FCorrelation, ljust0 16 corr), (FKey, ljust0 32 key),
       (FPayload, payload @ drop (length payload) (view L buf (LRow row FPayload))),
       (FLength, le_bytes 4 (length payload)), (FKind, le_bytes 1 kind), (FTaker, le_bytes 1 no_taker),
       (FSender, le_bytes 1 index), (FComplete, le_bytes 1 1)] buf)"
proof -
  note fits = assms(2)
  let ?w = "\<lambda>f bs. wloc L (LRow row f) bs"
  define b1 where "b1 = ?w FSeq (le_bytes 8 s) buf"
  define b2 where "b2 = ?w FWritten (le_bytes 8 now) b1"
  define b3 where "b3 = ?w FCorrelation (ljust0 16 corr) b2"
  define b4 where "b4 = ?w FKey (ljust0 32 key) b3"
  define p where "p = payload @ drop (length payload) (view L buf (LRow row FPayload))"
  define b5 where "b5 = ?w FPayload p b4"
  define b6 where "b6 = ?w FLength (le_bytes 4 (length payload)) b5"
  define b7 where "b7 = ?w FKind (le_bytes 1 kind) b6"
  define b8 where "b8 = ?w FTaker (le_bytes 1 no_taker) b7"
  define b9 where "b9 = ?w FSender (le_bytes 1 index) b8"
  have lp: "length p = payload_bytes L" using assms(1,2,5) by (simp add: p_def)
  have m1: "link_mem L b1" unfolding b1_def using assms(1,2) by simp
  have m2: "link_mem L b2" unfolding b2_def using m1 fits by simp
  have m3: "link_mem L b3" unfolding b3_def using m2 fits assms(8) by simp
  have m4: "link_mem L b4" unfolding b4_def using m3 fits assms(7) by simp
  have m5: "link_mem L b5" unfolding b5_def using m4 fits lp by simp
  have m6: "link_mem L b6" unfolding b6_def using m5 fits by simp
  have m7: "link_mem L b7" unfolding b7_def using m6 fits by simp
  have m8: "link_mem L b8" unfolding b8_def using m7 fits by simp
  have m9: "link_mem L b9" unfolding b9_def using m8 fits by simp
  have v4: "view L b4 (LRow row FPayload) = view L buf (LRow row FPayload)"
    unfolding b4_def b3_def b2_def b1_def
    using assms(1,2,7,8) m1 m2 m3 by (simp add: b3_def [symmetric] b2_def [symmetric] b1_def [symmetric])
      (simp add: b3_def b2_def b1_def)
  have steps: "write_u64 L row FSeq s buf = Inr b1" "write_u64 L row FWritten now b1 = Inr b2"
    "write_correlation L row corr b2 = Inr b3" "write_key L row key b3 = Inr b4"
    "write_payload L row payload b4 = Inr b5" "write_length L row (length payload) b5 = Inr b6"
    "write_u8 L row FKind kind b6 = Inr b7" "write_u8 L row FTaker no_taker b7 = Inr b8"
    "write_u8 L row FSender index b8 = Inr b9"
    "write_u8 L row FComplete 1 b9 = Inr (?w FComplete (le_bytes 1 1) b9)"
    unfolding b1_def b2_def b3_def b4_def b5_def b6_def b7_def b8_def b9_def
    subgoal by (rule write_u64_wloc [OF assms(1,2) _ assms(3)]) simp
    subgoal using write_u64_wloc [OF m1 assms(2) _ assms(4)] by (simp add: b1_def)
    subgoal using write_correlation_wloc [OF m2 assms(2,8)] by (simp add: b2_def b1_def)
    subgoal using write_key_wloc [OF m3 assms(2,7)] by (simp add: b3_def b2_def b1_def)
    subgoal using write_payload_wloc [OF m4 assms(2,5)] unfolding v4 p_def by (simp add: b4_def b3_def b2_def b1_def)
    subgoal using write_length_wloc [OF m5 assms(2), of "length payload"] assms(5,6)
      by (simp add: b5_def b4_def b3_def b2_def b1_def)
    subgoal using write_u8_wloc [OF m6 assms(2) _ assms(9), of FKind]
      by (simp add: b6_def b5_def b4_def b3_def b2_def b1_def)
    subgoal using write_u8_wloc [OF m7 assms(2), of FTaker no_taker]
      by (simp add: b7_def b6_def b5_def b4_def b3_def b2_def b1_def no_taker_def)
    subgoal using write_u8_wloc [OF m8 assms(2), of FSender index] assms(10)
      by (simp add: b8_def b7_def b6_def b5_def b4_def b3_def b2_def b1_def no_taker_def)
    subgoal using write_u8_wloc [OF m9 assms(2), of FComplete 1]
      by (simp add: b9_def b8_def b7_def b6_def b5_def b4_def b3_def b2_def b1_def no_taker_def)
    done
  show ?thesis
    by (simp only: fill_row_def steps sbind_simps)
      (simp only: wfields_def fold_simps prod.case p_def [symmetric] b1_def [symmetric] b2_def [symmetric] b3_def [symmetric] b4_def [symmetric]
        b5_def [symmetric] b6_def [symmetric] b7_def [symmetric] b8_def [symmetric] b9_def [symmetric])
qed

text \<open>What a process assumes of its own state and of the shared blocks.\<close>

definition chan_ok :: "link \<Rightarrow> bus \<Rightarrow> string \<Rightarrow> layout \<Rightarrow> buffer \<Rightarrow> nat \<Rightarrow> bool" where
  "chan_ok k b ch L buf cursor \<longleftrightarrow>
     dget (k_layouts k) ch = Some L \<and> dget (b_views b) ch = Some buf \<and> dget (k_cursors k) ch = Some cursor \<and>
     cursor < rows_per_writer L \<and> payload_bytes L < 256 ^ 4 \<and> link_mem L buf \<and>
     process_count L = k_count k \<and> k_index k < k_count k \<and> k_count k < 256"

lemma own_row:
  assumes "index < process_count L" and "cursor < rows_per_writer L"
  shows "index * rows_per_writer L + cursor < total_rows L"
  using step_le [OF assms(1), of "rows_per_writer L"] assms(2) by (simp add: total_rows_def mult.commute)

lemma nearly_full_total:
  assumes "link_mem L buf" and "index < process_count L"
  shows "\<exists>full. nearly_full L index buf = Inr full"
proof -
  have "row < total_rows L" if "row \<in> set (rows_of L index)" for row
    using step_le [OF assms(2), of "rows_per_writer L"] that by (auto simp: rows_of_def total_rows_def mult.commute)
  then have "smap (any_unread L buf) (rows_of L index) =
      Inr (map (\<lambda>row. filter (\<lambda>r. unread (view L buf) r row) [0..<process_count L]) (rows_of L index))"
    by (intro smap_pure any_unread_list assms(1))
  then show ?thesis by (simp add: nearly_full_def)
qed

lemma next_sequence_abs:
  assumes "link_mem L buf" and "a_seq (abs_chan L buf) + 1 < 256 ^ 8"
  shows "\<exists>buf'. next_sequence buf = Inr (buf', a_seq (abs_chan L buf) + 1) \<and> link_mem L buf' \<and>
    abs_chan L buf' = (abs_chan L buf)\<lparr>a_seq := a_seq (abs_chan L buf) + 1\<rparr>"
proof -
  have s: "a_seq (abs_chan L buf) = num (view L buf) LSeq" by (simp add: abs_chan_def)
  let ?b = "wloc L LSeq (le_bytes 8 (num (view L buf) LSeq + 1)) buf"
  have "abs_chan L ?b = (abs_chan L buf)\<lparr>a_seq := num (view L buf) LSeq + 1\<rparr>"
    using abs_seq [OF assms(1), of "le_bytes 8 (num (view L buf) LSeq + 1)"] assms(2) s by simp
  moreover have "link_mem L ?b" using assms(1) by simp
  ultimately show ?thesis using next_sequence_wloc [OF assms(1)] assms(2) unfolding s by blast
qed

lemma publish_bytes:
  assumes "link_mem L buf" and "row < total_rows L" and "counters_ok (abs_chan L buf)" and "now < 256 ^ 8"
    and "length payload \<le> payload_bytes L" and "payload_bytes L < 256 ^ 4" and "length key \<le> 32"
    and "length corr \<le> 16" and "kind < 256" and "index < 256"
  obtains buf1 buf2 buf3 buf4 where
    "claim_row L row buf = Inr (buf1, filter (\<lambda>r. a_unread (abs_chan L buf) r row) [0..<process_count L])"
    "link_mem L buf1" "next_sequence buf1 = Inr (buf2, a_seq (abs_chan L buf) + 1)"
    "fill_row L index row (a_seq (abs_chan L buf) + 1) now kind key payload corr buf2 = Inr buf3"
    "show_row L index row buf3 = Inr buf4" "link_mem L buf4"
    "abs_chan L buf4 = publish_abs (process_count L) index row now kind key payload corr (abs_chan L buf)"
proof -
  let ?c = "abs_chan L buf"
  obtain buf1 where b1: "claim_row L row buf = Inr (buf1, filter (\<lambda>r. a_unread ?c r row) [0..<process_count L])"
    "link_mem L buf1" "abs_chan L buf1 = ?c\<lparr>
      a_missed := (\<lambda>i. a_missed ?c i + (if a_unread ?c i row then 1 else 0)),
      a_unread := (\<lambda>r row'. a_unread ?c r row' \<and> row' \<noteq> row),
      a_field := (a_field ?c)(row := (a_field ?c row)(FComplete := [0]))\<rparr>"
    using claim_row_abs [OF assms(1-3)] by blast
  have seq: "a_seq (abs_chan L buf1) = a_seq ?c" "a_seq ?c + 1 < 256 ^ 8"
    using assms(3) by (simp_all add: b1(3) counters_ok_def)
  obtain buf2 where b2: "next_sequence buf1 = Inr (buf2, a_seq ?c + 1)" "link_mem L buf2"
    "abs_chan L buf2 = (abs_chan L buf1)\<lparr>a_seq := a_seq ?c + 1\<rparr>"
    using next_sequence_abs [OF b1(2)] seq by auto
  define ws where "ws =
      [(FSeq, le_bytes 8 (a_seq ?c + 1)), (FWritten, le_bytes 8 now), (FCorrelation, ljust0 16 corr), (FKey, ljust0 32 key),
       (FPayload, payload @ drop (length payload) (view L buf2 (LRow row FPayload))),
       (FLength, le_bytes 4 (length payload)), (FKind, le_bytes 1 kind), (FTaker, le_bytes 1 no_taker),
       (FSender, le_bytes 1 index), (FComplete, le_bytes 1 1)]"
  define buf3 where "buf3 = wfields L row ws buf2"
  have b3: "fill_row L index row (a_seq ?c + 1) now kind key payload corr buf2 = Inr buf3"
    unfolding buf3_def ws_def by (rule fill_row_wfields [OF b2(2) assms(2) seq(2) assms(4-10)])
  have pay: "view L buf2 (LRow row FPayload) = a_field ?c row FPayload"
  proof -
    have "view L buf2 (LRow row FPayload) = a_field (abs_chan L buf2) row FPayload" by (simp add: abs_chan_def)
    also have "\<dots> = a_field ?c row FPayload" by (simp add: b2(3) b1(3))
    finally show ?thesis .
  qed
  have lp: "length (view L buf2 (LRow row FPayload)) = payload_bytes L" using length_view [OF b2(2), of "LRow row FPayload"] assms(2) by simp
  have lens: "\<forall>(f, bs) \<in> set ws. length bs = field_size L f"
    unfolding ws_def using assms(5,7,8) lp by simp
  note wf = wfields_abs [OF b2(2) assms(2) lens, folded buf3_def]
  have row: "fold (\<lambda>(f, bs) g. g(f := bs)) ws (a_field (abs_chan L buf2) row) =
      row_content index (a_seq ?c + 1) now kind key payload corr (a_field ?c row)"
  proof
    fix f
    show "fold (\<lambda>(f, bs) g. g(f := bs)) ws (a_field (abs_chan L buf2) row) f =
      row_content index (a_seq ?c + 1) now kind key payload corr (a_field ?c row) f"
      unfolding ws_def pay by (cases f) simp_all
  qed
  obtain buf4 where b4: "show_row L index row buf3 = Inr buf4" "link_mem L buf4"
    "abs_chan L buf4 = (abs_chan L buf3)\<lparr>a_unread := (\<lambda>r row'. a_unread (abs_chan L buf3) r row' \<or>
       (row' = row \<and> r \<in> set (others (process_count L) index)))\<rparr>"
    using show_rows_abs [of L buf3 row "others (process_count L) index"] wf assms(2)
    by (auto simp: show_row_def others_def)
  have zero: "\<not> a_unread ?c r row'" if "\<not> r < process_count L" for r row' using that by (simp add: abs_chan_def)
  have "a_field (abs_chan L buf4) = (a_field ?c)(row := row_content index (a_seq ?c + 1) now kind key payload corr (a_field ?c row))"
  proof -
    have "a_field (abs_chan L buf4) =
        (a_field (abs_chan L buf2))(row := fold (\<lambda>(f, bs) g. g(f := bs)) ws (a_field (abs_chan L buf2) row))"
      unfolding b4(3) conjunct2 [OF wf] by simp
    then show ?thesis unfolding row by (simp add: b2(3) b1(3))
  qed
  moreover have "a_seq (abs_chan L buf4) = a_seq ?c + 1"
    unfolding b4(3) conjunct2 [OF wf] b2(3) by simp
  moreover have "a_missed (abs_chan L buf4) = (\<lambda>i. a_missed ?c i + (if a_unread ?c i row then 1 else 0))"
    unfolding b4(3) conjunct2 [OF wf] b2(3) b1(3) by simp
  moreover have "a_unread (abs_chan L buf4) = (\<lambda>r row'. if row' = row then r < process_count L \<and> r \<noteq> index else a_unread ?c r row')"
    unfolding b4(3) conjunct2 [OF wf] b2(3) b1(3) by (auto simp: fun_eq_iff others_def)
  ultimately have "abs_chan L buf4 = publish_abs (process_count L) index row now kind key payload corr ?c"
    unfolding publish_abs_def by (intro chan.equality) simp_all
  with that b1(1,2) b2(1) b3 b4(1,2) show ?thesis by blast
qed

lemma publish_ok:
  assumes "chan_ok k b ch L buf cursor" and "counters_ok (abs_chan L buf)" and "now < 256 ^ 8"
    and "length payload \<le> payload_bytes L" and "length key \<le> 32" and "length corr \<le> 16" and "kind < 256"
  shows "\<exists>k' b' buf'. publish now ch kind key payload corr k b =
      Inr (k', b', k_index k * rows_per_writer L + cursor) \<and>
    b_views b' = dset ch buf' (b_views b) \<and> b_bells b' = ring (k_index k) (b_bells b) \<and>
    abs_chan L buf' = publish_abs (k_count k) (k_index k) (k_index k * rows_per_writer L + cursor)
      now kind key payload corr (abs_chan L buf) \<and>
    chan_ok k' b' ch L buf' ((cursor + 1) mod rows_per_writer L) \<and> k_index k' = k_index k"
proof -
  define row where "row = k_index k * rows_per_writer L + cursor"
  define k1 where "k1 = k\<lparr>k_cursors := dset ch ((cursor + 1) mod rows_per_writer L) (k_cursors k)\<rparr>"
  define stale where "stale = filter (\<lambda>r. a_unread (abs_chan L buf) r row) [0..<process_count L]"
  define k2 where "k2 = (if stale \<noteq> [] then k1\<lparr>k_missed_logs := Suc (k_missed_logs k1)\<rparr> else k1)"
  note ok = assms(1) [unfolded chan_ok_def]
  have r: "row < total_rows L" unfolding row_def by (rule own_row) (use ok in simp_all)
  have idx: "k_index k < 256" "payload_bytes L < 256 ^ 4" using ok by simp_all
  have mem_ok: "link_mem L buf" using ok by blast
  obtain buf1 buf2 buf3 buf4 where
    b: "claim_row L row buf = Inr (buf1, stale)" "link_mem L buf1"
    "next_sequence buf1 = Inr (buf2, a_seq (abs_chan L buf) + 1)"
    "fill_row L (k_index k) row (a_seq (abs_chan L buf) + 1) now kind key payload corr buf2 = Inr buf3"
    "show_row L (k_index k) row buf3 = Inr buf4" "link_mem L buf4"
    "abs_chan L buf4 = publish_abs (process_count L) (k_index k) row now kind key payload corr (abs_chan L buf)"
    unfolding stale_def
    using publish_bytes [OF mem_ok r assms(2,3,4) idx(2) assms(5,6,7) idx(1)] by blast
  have "k_index k2 = k_index k" by (simp add: k2_def k1_def)
  moreover obtain full where "nearly_full L (k_index k) buf1 = Inr full"
    using nearly_full_total [OF b(2)] ok by auto
  ultimately obtain k3 where k3: "maybe_warn_full L ch buf1 k2 = Inr k3"
    "k_layouts k3 = k_layouts k2" "k_cursors k3 = k_cursors k2" "k_index k3 = k_index k2" "k_count k3 = k_count k2"
    by (auto simp: maybe_warn_full_def)
  have run: "publish now ch kind key payload corr k b =
      Inr (k3, b\<lparr>b_views := dset ch buf4 (b_views b), b_bells := ring (k_index k) (b_bells b)\<rparr>, row)"
    using ok assms(4,5) b k3(1) unfolding k2_def k1_def
    by (cases "stale = []")
      (simp_all add: publish_def get_channel_def dindex_def Let_def key_bytes_def row_def [symmetric])
  have same: "k_layouts k2 = k_layouts k" "k_index k2 = k_index k" "k_count k2 = k_count k"
    "k_cursors k2 = dset ch ((cursor + 1) mod rows_per_writer L) (k_cursors k)"
    by (simp_all add: k2_def k1_def)
  have "chan_ok k3 (b\<lparr>b_views := dset ch buf4 (b_views b), b_bells := ring (k_index k) (b_bells b)\<rparr>) ch L buf4
      ((cursor + 1) mod rows_per_writer L)"
    using ok b(6) unfolding chan_ok_def k3 same by simp
  with run b(7) ok show ?thesis
    unfolding row_def using k3(4) same(2) by (intro exI [of _ k3] exI [of _ "b\<lparr>b_views := dset ch buf4 (b_views b), b_bells := ring (k_index k) (b_bells b)\<rparr>"] exI [of _ buf4]) simp
qed

end
