(* ===== verification/Link_Delivery.thy ===== *)
theory Link_Delivery
  imports Link "HOL-Library.Sublist"
begin

text \<open>
  Delivery on a channel of the process link: draining a channel clears bits of the channel the block
  stands for, and as long as publications and drains follow one another, each run to its end before the
  next begins, nothing is lost without being counted. \<open>net\<close> is all processes of a channel with a log of what
  was published and received. The code takes no lock that would keep the calls of two processes apart; the
  last section shows what an overlap can do.
\<close>

section \<open>Reading refines clearing the bits\<close>

definition row_num :: "chan \<Rightarrow> nat \<Rightarrow> row_field \<Rightarrow> nat" where
  "row_num c row f = le_value (a_field c row f)"

definition message_at :: "chan \<Rightarrow> nat \<Rightarrow> message" where
  "message_at c row = \<lparr>m_key = rstrip0 (a_field c row FKey),
     m_payload = take (row_num c row FLength) (a_field c row FPayload), m_sender = row_num c row FSender\<rparr>"

definition drain_abs :: "nat \<Rightarrow> nat set \<Rightarrow> chan \<Rightarrow> chan" where
  "drain_abs r rows c = c\<lparr>a_unread := (\<lambda>r' row. a_unread c r' row \<and> \<not> (r' = r \<and> row \<in> rows))\<rparr>"

lemma drain_abs_simps [simp]:
  "a_unread (drain_abs r rows c) r' row \<longleftrightarrow> a_unread c r' row \<and> \<not> (r' = r \<and> row \<in> rows)"
  "a_missed (drain_abs r rows c) = a_missed c" "a_seq (drain_abs r rows c) = a_seq c"
  "a_field (drain_abs r rows c) = a_field c"
  "row_num (drain_abs r rows c) = row_num c" "message_at (drain_abs r rows c) = message_at c"
  by (simp_all add: drain_abs_def row_num_def message_at_def fun_eq_iff)

lemma drain_abs_drain_abs: "drain_abs r A (drain_abs r B c) = drain_abs r (A \<union> B) c"
  by (rule chan.equality) (auto simp: drain_abs_def fun_eq_iff)

lemma row_num_view: "row_num (abs_chan L buf) row f = num (view L buf) (LRow row f)"
  by (simp add: row_num_def abs_chan_def num_def)

lemma read_message_abs:
  assumes "link_mem L buf" and "row < total_rows L"
  shows "read_message L buf row = Inr (message_at (abs_chan L buf) row)"
  using assms by (simp add: read_message_def read_payload_view read_u8_num read_key_view message_at_def row_num_view)
    (simp add: abs_chan_def)

lemma clear_abs:
  assumes "link_mem L buf" and "r < process_count L" and "row < total_rows L"
  shows "\<exists>buf'. clear_bit_at L r row buf = Inr buf' \<and> link_mem L buf' \<and>
    abs_chan L buf' = drain_abs r {row} (abs_chan L buf)"
proof -
  have "abs_chan L (wloc L (LBits r (row div 8)) (set_bits (view L buf) r row False) buf) = drain_abs r {row} (abs_chan L buf)"
    unfolding abs_bit [OF assms] by (rule chan.equality) (auto simp: drain_abs_def fun_eq_iff)
  then show ?thesis using set_bit_wloc(2) [OF assms] wloc_bit_mem [OF assms] by simp
qed

lemma drain_rows_abs:
  assumes "link_mem L buf" and "r < process_count L" and "\<forall>row \<in> set rows. row < total_rows L"
  shows "\<exists>buf'. drain_rows L r rows buf =
      Inr (buf', map (message_at (abs_chan L buf)) (filter (\<lambda>row. row_num (abs_chan L buf) row FComplete \<noteq> 0) rows)) \<and>
    link_mem L buf' \<and>
    abs_chan L buf' = drain_abs r {row \<in> set rows. row_num (abs_chan L buf) row FComplete \<noteq> 0} (abs_chan L buf)"
  using assms
proof (induction rows arbitrary: buf)
  case Nil
  then show ?case by (simp add: drain_abs_def)
next
  case (Cons row rows)
  let ?c = "abs_chan L buf"
  have row: "row < total_rows L" and rows: "\<forall>row \<in> set rows. row < total_rows L" using Cons.prems(3) by simp_all
  have done_flag: "read_u8 L buf row FComplete = Inr (row_num ?c row FComplete)"
    using read_u8_num [OF Cons.prems(1) row] by (simp add: row_num_view)
  show ?case
  proof (cases "row_num ?c row FComplete = 0")
    case True
    have set_eq: "{x. (x = row \<or> x \<in> set rows) \<and> 0 < row_num ?c x FComplete} =
      {x \<in> set rows. 0 < row_num ?c x FComplete}" using True by auto
    show ?thesis using Cons.IH [OF Cons.prems(1,2) rows] True done_flag by (simp add: set_eq)
  next
    case False
    obtain b1 where b1: "clear_bit_at L r row buf = Inr b1" "link_mem L b1" "abs_chan L b1 = drain_abs r {row} ?c"
      using clear_abs [OF Cons.prems(1,2) row] by blast
    obtain b2 where b2: "drain_rows L r rows b1 =
        Inr (b2, map (message_at ?c) (filter (\<lambda>row. row_num ?c row FComplete \<noteq> 0) rows))" "link_mem L b2"
      "abs_chan L b2 = drain_abs r {row \<in> set rows. row_num ?c row FComplete \<noteq> 0} (drain_abs r {row} ?c)"
      using Cons.IH [OF b1(2) Cons.prems(2) rows] by (auto simp: b1(3))
    have set_eq: "{x \<in> set rows. row_num ?c x FComplete \<noteq> 0} \<union> {row} =
        {x \<in> set (row # rows). row_num ?c x FComplete \<noteq> 0}" using False by auto
    show ?thesis
      using b1(1) b2(1,2) b2(3) [unfolded drain_abs_drain_abs set_eq] False done_flag
        read_message_abs [OF Cons.prems(1) row]
      by (intro exI [of _ b2]) simp
  qed
qed

definition unread_list :: "layout \<Rightarrow> chan \<Rightarrow> nat \<Rightarrow> nat list" where
  "unread_list L c r = sort_key (\<lambda>row. row_num c row FSeq) (filter (a_unread c r) [0..<total_rows L])"

lemma unread_rows_abs:
  assumes "link_mem L buf" and "r < process_count L"
  shows "unread_rows L buf r = filter (a_unread (abs_chan L buf) r) [0..<total_rows L]"
  unfolding unread_rows_list [OF assms] by (rule filter_cong) (use assms(2) in \<open>auto simp: abs_chan_def\<close>)

lemma map_snd_sort_key: "map snd (sort_key fst (map (\<lambda>r. (f r, r)) rows)) = sort_key f rows"
  (is "_ = ?s")
proof -
  have ins: "map (\<lambda>r. (f r, r)) (insort_key f x xs) = insort_key fst (f x, x) (map (\<lambda>r. (f r, r)) xs)" for x xs
    by (induction xs) auto
  have "sort_key fst (map (\<lambda>r. (f r, r)) rows) = map (\<lambda>r. (f r, r)) ?s"
    by (induction rows) (simp_all add: ins)
  then show ?thesis by (simp add: comp_def)
qed

lemma drain_sync_abs:
  assumes "chan_ok k b ch L buf cursor"
  defines "c \<equiv> abs_chan L buf"
  shows "\<exists>buf'. drain_sync ch k b =
      Inr (b\<lparr>b_views := dset ch buf' (b_views b)\<rparr>,
        map (message_at c) (filter (\<lambda>row. row_num c row FComplete \<noteq> 0) (unread_list L c (k_index k)))) \<and>
    link_mem L buf' \<and>
    abs_chan L buf' = drain_abs (k_index k) {row. a_unread c (k_index k) row \<and> row_num c row FComplete \<noteq> 0} c"
proof -
  note ok = assms(1) [unfolded chan_ok_def]
  have mem: "link_mem L buf" and r: "k_index k < process_count L" using ok by simp_all
  let ?rows = "filter (a_unread c (k_index k)) [0..<total_rows L]"
  have "smap (\<lambda>r. sbind (read_u64 L buf r FSeq) (\<lambda>s. Inr (s, r))) ?rows = Inr (map (\<lambda>r. (row_num c r FSeq, r)) ?rows)"
    by (rule smap_pure) (use mem in \<open>auto simp: read_u64_num row_num_view c_def\<close>)
  then have sorted: "by_sequence L buf (unread_rows L buf (k_index k)) = Inr (unread_list L c (k_index k))"
    by (simp add: by_sequence_def unread_rows_abs [OF mem r] c_def [symmetric] map_snd_sort_key unread_list_def)
  have in_rows: "\<forall>row \<in> set (unread_list L c (k_index k)). row < total_rows L" by (auto simp: unread_list_def)
  have set_eq: "{row \<in> set (unread_list L c (k_index k)). row_num c row FComplete \<noteq> 0} =
      {row. a_unread c (k_index k) row \<and> row_num c row FComplete \<noteq> 0}"
    by (auto simp: unread_list_def c_def abs_chan_def)
  obtain buf' where "drain_rows L (k_index k) (unread_list L c (k_index k)) buf =
      Inr (buf', map (message_at c) (filter (\<lambda>row. row_num c row FComplete \<noteq> 0) (unread_list L c (k_index k))))"
    "link_mem L buf'"
    "abs_chan L buf' = drain_abs (k_index k) {row. a_unread c (k_index k) row \<and> row_num c row FComplete \<noteq> 0} c"
    using drain_rows_abs [OF mem r in_rows] unfolding c_def [symmetric] set_eq by blast
  then show ?thesis using ok sorted by (intro exI [of _ buf']) (simp add: drain_sync_def get_channel_def dindex_def)
qed


section \<open>What every reader of a channel gets\<close>

text \<open>
  \<open>H\<close> is the list of the messages published so far, \<open>S\<close> the positions in it of those a reader has
  received. The sequence number of an unread row is its message's position in \<open>H\<close>, counted from 1.
\<close>

definition backed :: "message list \<Rightarrow> chan \<Rightarrow> bool" where
  "backed H c \<longleftrightarrow> a_seq c = length H \<and>
     (\<forall>r row. a_unread c r row \<longrightarrow> row_num c row FComplete \<noteq> 0 \<and>
        (\<exists>s < length H. row_num c row FSeq = Suc s \<and> message_at c row = H ! s \<and> m_sender (H ! s) \<noteq> r)) \<and>
     (\<forall>r row row'. a_unread c r row \<longrightarrow> a_unread c r row' \<longrightarrow> row_num c row FSeq = row_num c row' FSeq \<longrightarrow> row = row')"

definition received :: "message list \<Rightarrow> chan \<Rightarrow> nat \<Rightarrow> message list \<Rightarrow> bool" where
  "received H c r got \<longleftrightarrow> (\<exists>S. got = map ((!) H) S \<and> sorted_wrt (<) S \<and>
     (\<forall>s \<in> set S. s < length H \<and> m_sender (H ! s) \<noteq> r) \<and>
     (\<forall>row. a_unread c r row \<longrightarrow> (\<forall>s \<in> set S. Suc s < row_num c row FSeq)))"

definition accounted :: "message list \<Rightarrow> chan \<Rightarrow> nat \<Rightarrow> message list \<Rightarrow> bool" where
  "accounted H c r got \<longleftrightarrow>
     length (filter (\<lambda>m. m_sender m \<noteq> r) H) = length got + a_missed c r + card {row. a_unread c r row}"

lemma received_subseq:
  assumes "received H c r got"
  shows "subseq got (filter (\<lambda>m. m_sender m \<noteq> r) H)"
proof -
  obtain S where S: "got = map ((!) H) S" "sorted_wrt (<) S" "\<forall>s \<in> set S. s < length H \<and> m_sender (H ! s) \<noteq> r"
    using assms by (auto simp: received_def)
  have "subseq S [0..<length H]"
    using S(2,3) by (intro sorted_subset_imp_subseq) (auto simp: strict_sorted_iff)
  then have "subseq (map ((!) H) S) H" using subseq_map [of S "[0..<length H]" "(!) H"] by (simp add: map_nth)
  then have "subseq (filter (\<lambda>m. m_sender m \<noteq> r) got) (filter (\<lambda>m. m_sender m \<noteq> r) H)"
    unfolding S(1) by (rule subseq_filter)
  moreover have "filter (\<lambda>m. m_sender m \<noteq> r) got = got" using S(1,3) by (auto intro: filter_True)
  ultimately show ?thesis by simp
qed

lemma publish_abs_simps [simp]:
  "a_seq (publish_abs n p row now kind key payload corr c) = Suc (a_seq c)"
  "a_missed (publish_abs n p row now kind key payload corr c) i = a_missed c i + (if a_unread c i row then 1 else 0)"
  "a_unread (publish_abs n p row now kind key payload corr c) r row' \<longleftrightarrow>
     (if row' = row then r < n \<and> r \<noteq> p else a_unread c r row')"
  "row' \<noteq> row \<Longrightarrow> row_num (publish_abs n p row now kind key payload corr c) row' = row_num c row'"
  "row' \<noteq> row \<Longrightarrow> message_at (publish_abs n p row now kind key payload corr c) row' = message_at c row'"
  by (simp_all add: publish_abs_def row_num_def message_at_def fun_eq_iff)

lemma rstrip0_ljust0 [simp]: "rstrip0 (ljust0 n bs) = rstrip0 bs"
proof -
  have "dropWhile (\<lambda>b. b = 0) (replicate k 0 @ xs) = dropWhile (\<lambda>b. b = (0::byte)) xs" for k xs by (induction k) auto
  then show ?thesis by (simp add: rstrip0_def ljust0_def)
qed

lemma publish_abs_row:
  assumes "a_seq c + 1 < 256 ^ 8" and "p < 256" and "length payload < 256 ^ 4"
  shows "row_num (publish_abs n p row now kind key payload corr c) row FSeq = Suc (a_seq c)"
    and "row_num (publish_abs n p row now kind key payload corr c) row FComplete = 1"
    and "message_at (publish_abs n p row now kind key payload corr c) row =
      \<lparr>m_key = rstrip0 key, m_payload = payload, m_sender = p\<rparr>"
  using assms by (simp_all add: row_num_def message_at_def publish_abs_def)

lemma backed_publish:
  assumes "backed H c" and "length H + 1 < 256 ^ 8" and "p < 256" and "length payload < 256 ^ 4"
  shows "backed (H @ [\<lparr>m_key = rstrip0 key, m_payload = payload, m_sender = p\<rparr>])
    (publish_abs n p row now kind key payload corr c)"
proof -
  let ?m = "\<lparr>m_key = rstrip0 key, m_payload = payload, m_sender = p\<rparr>"
  let ?c' = "publish_abs n p row now kind key payload corr c"
  have seq: "a_seq c = length H" and old: "\<And>r row. a_unread c r row \<Longrightarrow> row_num c row FComplete \<noteq> 0 \<and>
        (\<exists>s < length H. row_num c row FSeq = Suc s \<and> message_at c row = H ! s \<and> m_sender (H ! s) \<noteq> r)"
    and inj: "\<And>r row row'. a_unread c r row \<Longrightarrow> a_unread c r row' \<Longrightarrow> row_num c row FSeq = row_num c row' FSeq \<Longrightarrow> row = row'"
    using assms(1) unfolding backed_def by blast+
  note new = publish_abs_row [where c = c and row = row and p = p and n = n and now = now and kind = kind
      and key = key and payload = payload and corr = corr, unfolded seq, OF assms(2-4)]
  have le: "row_num ?c' row' FSeq \<le> length H" if "a_unread ?c' r row'" "row' \<noteq> row" for r row'
    using old [of r row'] that by auto
  have "\<forall>r row'. a_unread ?c' r row' \<longrightarrow> row_num ?c' row' FComplete \<noteq> 0 \<and> (\<exists>s < length (H @ [?m]). row_num ?c' row' FSeq = Suc s \<and>
      message_at ?c' row' = (H @ [?m]) ! s \<and> m_sender ((H @ [?m]) ! s) \<noteq> r)"
  proof (intro allI impI)
    fix r row' assume u: "a_unread ?c' r row'"
    show "row_num ?c' row' FComplete \<noteq> 0 \<and> (\<exists>s < length (H @ [?m]). row_num ?c' row' FSeq = Suc s \<and>
      message_at ?c' row' = (H @ [?m]) ! s \<and> m_sender ((H @ [?m]) ! s) \<noteq> r)"
  proof (cases "row' = row")
    case True
    with u new show ?thesis by (auto intro!: exI [of _ "length H"])
  next
    case False
    with u old [of r row'] obtain s where "s < length H" "row_num c row' FSeq = Suc s" "message_at c row' = H ! s"
      "m_sender (H ! s) \<noteq> r" "row_num c row' FComplete \<noteq> 0" by auto
    with False show ?thesis by (auto intro!: exI [of _ s] simp: nth_append)
  qed
  qed
  moreover have "\<forall>r row1 row2. a_unread ?c' r row1 \<longrightarrow> a_unread ?c' r row2 \<longrightarrow>
      row_num ?c' row1 FSeq = row_num ?c' row2 FSeq \<longrightarrow> row1 = row2"
  proof (intro allI impI)
    fix r row1 row2 assume "a_unread ?c' r row1" "a_unread ?c' r row2" "row_num ?c' row1 FSeq = row_num ?c' row2 FSeq"
    then show "row1 = row2"
      using inj [of r row1 row2] le [of r row1] le [of r row2] new(1)
      by (cases "row1 = row"; cases "row2 = row") auto
  qed
  moreover have "a_seq ?c' = length (H @ [?m])" using seq by simp
  ultimately show ?thesis unfolding backed_def by (intro conjI)
qed

lemma received_publish:
  assumes "received H c r got" and "backed H c" and "length H + 1 < 256 ^ 8" and "p < 256" and "length payload < 256 ^ 4"
  shows "received (H @ [m]) (publish_abs n p row now kind key payload corr c) r got"
proof -
  obtain S where S: "got = map ((!) H) S" "sorted_wrt (<) S" "\<forall>s \<in> set S. s < length H \<and> m_sender (H ! s) \<noteq> r"
    "\<And>row s. a_unread c r row \<Longrightarrow> s \<in> set S \<Longrightarrow> Suc s < row_num c row FSeq"
    using assms(1) unfolding received_def by blast
  have seq: "a_seq c = length H" using assms(2) by (simp add: backed_def)
  have "got = map ((!) (H @ [m])) S" using S(1,3) by (simp add: nth_append)
  moreover have "\<forall>s \<in> set S. s < length (H @ [m]) \<and> m_sender ((H @ [m]) ! s) \<noteq> r"
    using S(3) by (auto simp: nth_append)
  moreover have "\<forall>row'. a_unread (publish_abs n p row now kind key payload corr c) r row' \<longrightarrow>
      (\<forall>s \<in> set S. Suc s < row_num (publish_abs n p row now kind key payload corr c) row' FSeq)"
  proof (intro allI impI ballI)
    fix row' s assume u: "a_unread (publish_abs n p row now kind key payload corr c) r row'" and s: "s \<in> set S"
    show "Suc s < row_num (publish_abs n p row now kind key payload corr c) row' FSeq"
    proof (cases "row' = row")
      case True
      then show ?thesis using S(3) s publish_abs_row(1) [of c p payload] assms(3-5) seq by simp
    qed (use u s S(4) in simp)
  qed
  ultimately show ?thesis using S(2) unfolding received_def by (intro exI [of _ S] conjI)
qed

lemma accounted_publish:
  assumes "accounted H c r got" and "finite {row. a_unread c r row}" and "r < n" and "m_sender m = p"
  shows "accounted (H @ [m]) (publish_abs n p row now kind key payload corr c) r got"
proof (cases "r = p")
  case True
  have e: "{row'. a_unread (publish_abs n p row now kind key payload corr c) r row'} = {row. a_unread c r row} - {row}"
    using True by auto
  have "card ({row. a_unread c r row} - {row}) + (if a_unread c r row then 1 else 0) = card {row. a_unread c r row}"
    using card_Suc_Diff1 [OF assms(2), of row] by simp
  then show ?thesis using assms(1,4) True unfolding accounted_def publish_abs_simps(2) e by simp
next
  case False
  have e: "{row'. a_unread (publish_abs n p row now kind key payload corr c) r row'} = insert row {row. a_unread c r row}"
    using False assms(3) by auto
  show ?thesis
    using assms(1,2,4) False unfolding accounted_def publish_abs_simps(2) e
    by (cases "a_unread c r row") (simp_all add: insert_absorb)
qed

text \<open>A drain of a reader: everything unread is received, oldest first.\<close>

lemma backed_drain: "backed H c \<Longrightarrow> backed H (drain_abs r rows c)"
  unfolding backed_def drain_abs_simps by blast

lemma received_drain:
  assumes "received H c r got" and "backed H c" and "\<forall>row. a_unread c r row \<longrightarrow> row < total_rows L"
  shows "received H (drain_abs r {row. a_unread c r row} c) r (got @ map (message_at c) (unread_list L c r))"
proof -
  let ?rows = "unread_list L c r" and ?pos = "\<lambda>row. row_num c row FSeq - 1"
  obtain S where S: "got = map ((!) H) S" "sorted_wrt (<) S" "\<forall>s \<in> set S. s < length H \<and> m_sender (H ! s) \<noteq> r"
    "\<And>row s. a_unread c r row \<Longrightarrow> s \<in> set S \<Longrightarrow> Suc s < row_num c row FSeq"
    using assms(1) unfolding received_def by blast
  have rows: "set ?rows = {row. a_unread c r row}" using assms(3) by (auto simp: unread_list_def)
  have old: "\<exists>s < length H. row_num c row FSeq = Suc s \<and> message_at c row = H ! s \<and> m_sender (H ! s) \<noteq> r"
    if "row \<in> set ?rows" for row
    using assms(2) that unfolding rows backed_def by blast
  have "sorted (map (\<lambda>row. row_num c row FSeq) ?rows)" "distinct ?rows" by (simp_all add: unread_list_def)
  moreover have "inj_on (\<lambda>row. row_num c row FSeq) (set ?rows)"
    using assms(2) unfolding rows backed_def inj_on_def by blast
  ultimately have "sorted_wrt (<) (map (\<lambda>row. row_num c row FSeq) ?rows)"
    by (simp add: strict_sorted_iff distinct_map)
  then have "sorted_wrt (\<lambda>x y. row_num c x FSeq < row_num c y FSeq) ?rows" by (simp add: sorted_wrt_map)
  then have "sorted_wrt (\<lambda>x y. ?pos x < ?pos y) ?rows"
    by (rule sorted_wrt_mono_rel [rotated]) (use old in fastforce)
  then have "sorted_wrt (<) (map ?pos ?rows)" by (simp add: sorted_wrt_map)
  moreover have "s < t" if "s \<in> set S" "t \<in> ?pos ` set ?rows" for s t
    using S(4) [of _ s] that unfolding rows by fastforce
  ultimately have "sorted_wrt (<) (S @ map ?pos ?rows)" using S(2) by (auto simp: sorted_wrt_append)
  moreover have "map (message_at c) ?rows = map ((!) H) (map ?pos ?rows)" using old by fastforce
  moreover have "\<forall>s \<in> set (S @ map ?pos ?rows). s < length H \<and> m_sender (H ! s) \<noteq> r" using S(3) old by fastforce
  ultimately show ?thesis
    unfolding received_def by (intro exI [of _ "S @ map ?pos ?rows"]) (simp add: S(1))
qed

lemma received_drain_other: "r' \<noteq> r \<Longrightarrow> received H c r' got \<Longrightarrow> received H (drain_abs r rows c) r' got"
  unfolding received_def by simp

lemma accounted_drain:
  assumes "accounted H c r got" and "\<forall>row. a_unread c r row \<longrightarrow> row < total_rows L"
  shows "accounted H (drain_abs r {row. a_unread c r row} c) r (got @ map (message_at c) (unread_list L c r))"
proof -
  have "distinct (unread_list L c r)" by (simp add: unread_list_def)
  then have "length (unread_list L c r) = card {row. a_unread c r row}"
    using assms(2) by (subst distinct_card [symmetric]) (auto simp: unread_list_def intro!: arg_cong [of _ _ card])
  then show ?thesis using assms(1) by (simp add: accounted_def)
qed

lemma accounted_drain_other: "r' \<noteq> r \<Longrightarrow> accounted H c r' got \<Longrightarrow> accounted H (drain_abs r rows c) r' got"
  by (simp add: accounted_def)

section \<open>Publications and drains one after another\<close>

text \<open>
  The sequential specification of a channel: a step is one whole call, and no two calls overlap in time. It says what
  the code promises when they do not; nothing in the code enforces that they do not.
\<close>

datatype link_op =
    Publish nat nat nat buffer buffer buffer
  | Drain nat

record net =
  n_links :: "link list"
  n_bus :: bus
  n_sent :: "message list"
  n_got :: "message list list"

fun net_step :: "string \<Rightarrow> link_op \<Rightarrow> net \<Rightarrow> link_error + net" where
  "net_step ch (Publish p now kind key payload corr) s =
     sbind (publish now ch kind key payload corr (n_links s ! p) (n_bus s)) (\<lambda>(k, b, _).
       Inr (s\<lparr>n_links := (n_links s)[p := k], n_bus := b,
              n_sent := n_sent s @ [\<lparr>m_key = rstrip0 key, m_payload = payload, m_sender = p\<rparr>]\<rparr>))"
| "net_step ch (Drain r) s =
     sbind (drain_sync ch (n_links s ! r) (n_bus s)) (\<lambda>(b, msgs).
       Inr (s\<lparr>n_bus := b, n_got := (n_got s)[r := n_got s ! r @ msgs]\<rparr>))"

fun op_ok :: "layout \<Rightarrow> link_op \<Rightarrow> bool" where
  "op_ok L (Publish p now kind key payload corr) \<longleftrightarrow> p < process_count L \<and> now < 256 ^ 8 \<and> kind < 256 \<and>
     length key \<le> 32 \<and> length payload \<le> payload_bytes L \<and> length corr \<le> 16"
| "op_ok L (Drain r) \<longleftrightarrow> r < process_count L"

definition net_ok :: "string \<Rightarrow> layout \<Rightarrow> net \<Rightarrow> bool" where
  "net_ok ch L s \<longleftrightarrow> length (n_links s) = process_count L \<and> length (n_got s) = process_count L \<and>
     (\<exists>buf. (\<forall>p < process_count L. k_index (n_links s ! p) = p \<and>
            (\<exists>cursor. chan_ok (n_links s ! p) (n_bus s) ch L buf cursor)) \<and>
        backed (n_sent s) (abs_chan L buf) \<and>
        (\<forall>r < process_count L. received (n_sent s) (abs_chan L buf) r (n_got s ! r) \<and>
           accounted (n_sent s) (abs_chan L buf) r (n_got s ! r)))"

lemma unread_below: "a_unread (abs_chan L buf) r row \<Longrightarrow> row < total_rows L"
  by (simp add: abs_chan_def)

lemma finite_unread [simp]: "finite {row. a_unread (abs_chan L buf) r row}"
  by (rule finite_subset [of _ "{..<total_rows L}"]) (auto dest: unread_below)

lemma accounted_counters:
  assumes "backed H (abs_chan L buf)" and "length H + 1 < 256 ^ 8"
    and "\<forall>r < process_count L. accounted H (abs_chan L buf) r (got r)"
  shows "counters_ok (abs_chan L buf)"
proof -
  have "a_missed (abs_chan L buf) i \<le> length H" for i
  proof (cases "i < process_count L")
    case True
    then have "a_missed (abs_chan L buf) i \<le> length (filter (\<lambda>m. m_sender m \<noteq> i) H)"
      using assms(3) by (simp add: accounted_def)
    then show ?thesis using length_filter_le [of "\<lambda>m. m_sender m \<noteq> i" H] by (rule order_trans)
  qed (simp add: abs_chan_def)
  then have "a_missed (abs_chan L buf) i + 1 < 256 ^ 8" for i
    using assms(2) by (meson add_le_cancel_right le_less_trans)
  then show ?thesis using assms(1,2) by (simp add: counters_ok_def backed_def)
qed

lemma chan_ok_other:
  "chan_ok k b ch L buf cursor \<Longrightarrow> link_mem L buf' \<Longrightarrow> b_views b' = dset ch buf' (b_views b) \<Longrightarrow> chan_ok k b' ch L buf' cursor"
  by (simp add: chan_ok_def)

lemma net_step_ok:
  assumes "net_ok ch L s" and "op_ok L op" and "length (n_sent s) + 1 < 256 ^ 8"
  shows "\<exists>s'. net_step ch op s = Inr s' \<and> net_ok ch L s' \<and> length (n_sent s') \<le> length (n_sent s) + 1"
proof -
  obtain buf where len: "length (n_links s) = process_count L" "length (n_got s) = process_count L"
    and links: "\<And>p. p < process_count L \<Longrightarrow> k_index (n_links s ! p) = p \<and>
            (\<exists>cursor. chan_ok (n_links s ! p) (n_bus s) ch L buf cursor)"
    and bk: "backed (n_sent s) (abs_chan L buf)"
    and rd: "\<And>r. r < process_count L \<Longrightarrow> received (n_sent s) (abs_chan L buf) r (n_got s ! r)"
    and ac: "\<And>r. r < process_count L \<Longrightarrow> accounted (n_sent s) (abs_chan L buf) r (n_got s ! r)"
    using assms(1) unfolding net_ok_def by blast
  show ?thesis
  proof (cases op)
    case (Publish p now kind key payload corr)
    have p: "p < process_count L" and lims: "now < 256 ^ 8" "length payload \<le> payload_bytes L" "length key \<le> 32"
      "length corr \<le> 16" "kind < 256"
      using assms(2) Publish by simp_all
    obtain cursor where idx: "k_index (n_links s ! p) = p" and ok: "chan_ok (n_links s ! p) (n_bus s) ch L buf cursor"
      using links [OF p] by blast
    have cnt: "k_count (n_links s ! p) = process_count L" and small: "p < 256" "length payload < 256 ^ 4"
      using ok lims(2) p by (simp_all add: chan_ok_def)
    have ctr: "counters_ok (abs_chan L buf)" using accounted_counters [OF bk assms(3)] ac by blast
    define row where "row = p * rows_per_writer L + cursor"
    define m where "m = \<lparr>m_key = rstrip0 key, m_payload = payload, m_sender = p\<rparr>"
    obtain k' b' buf' where run: "publish now ch kind key payload corr (n_links s ! p) (n_bus s) = Inr (k', b', row)"
      and views: "b_views b' = dset ch buf' (b_views (n_bus s))"
      and abs: "abs_chan L buf' = publish_abs (process_count L) p row now kind key payload corr (abs_chan L buf)"
      and ok': "chan_ok k' b' ch L buf' ((cursor + 1) mod rows_per_writer L)" and idx': "k_index k' = p"
      using publish_ok [OF ok ctr lims] unfolding idx cnt row_def by blast
    define s' where "s' = s\<lparr>n_links := (n_links s)[p := k'], n_bus := b', n_sent := n_sent s @ [m]\<rparr>"
    have mem: "link_mem L buf'" using ok' by (simp add: chan_ok_def)
    have "k_index (n_links s' ! q) = q \<and> (\<exists>cursor. chan_ok (n_links s' ! q) (n_bus s') ch L buf' cursor)"
      if q: "q < process_count L" for q
    proof (cases "q = p")
      case True
      then show ?thesis using ok' idx' p len by (auto simp: s'_def)
    next
      case False
      then show ?thesis using links [OF q] chan_ok_other [OF _ mem views] len by (auto simp: s'_def)
    qed
    moreover have "backed (n_sent s') (abs_chan L buf')"
      unfolding abs s'_def m_def using backed_publish [OF bk assms(3) small] by simp
    moreover have "received (n_sent s') (abs_chan L buf') r (n_got s' ! r)" if "r < process_count L" for r
      unfolding abs s'_def using received_publish [OF rd [OF that] bk assms(3) small] by simp
    moreover have "accounted (n_sent s') (abs_chan L buf') r (n_got s' ! r)" if "r < process_count L" for r
      unfolding abs s'_def using accounted_publish [OF ac [OF that] finite_unread that, of m p] by (simp add: m_def)
    moreover have "length (n_links s') = process_count L" "length (n_got s') = process_count L"
      using len by (simp_all add: s'_def)
    ultimately have "net_ok ch L s'" unfolding net_ok_def by blast
    moreover have "net_step ch op s = Inr s'" by (simp add: Publish run s'_def m_def)
    ultimately show ?thesis by (intro exI [of _ s']) (simp add: s'_def)
  next
    case (Drain r)
    have r: "r < process_count L" using assms(2) Drain by simp
    obtain cursor where idx: "k_index (n_links s ! r) = r" and ok: "chan_ok (n_links s ! r) (n_bus s) ch L buf cursor"
      using links [OF r] by blast
    let ?c = "abs_chan L buf"
    have whole: "row_num ?c row FComplete \<noteq> 0" if "a_unread ?c r row" for row
      using bk that unfolding backed_def by blast
    then have all: "filter (\<lambda>row. row_num ?c row FComplete \<noteq> 0) (unread_list L ?c r) = unread_list L ?c r"
      by (intro filter_True) (simp add: unread_list_def)
    have rows: "{row. a_unread ?c r row \<and> row_num ?c row FComplete \<noteq> 0} = {row. a_unread ?c r row}" using whole by blast
    define msgs where "msgs = map (message_at ?c) (unread_list L ?c r)"
    obtain buf' where run: "drain_sync ch (n_links s ! r) (n_bus s) =
        Inr ((n_bus s)\<lparr>b_views := dset ch buf' (b_views (n_bus s))\<rparr>, msgs)"
      and mem: "link_mem L buf'" and abs: "abs_chan L buf' = drain_abs r {row. a_unread ?c r row} ?c"
      using drain_sync_abs [OF ok] unfolding idx all rows msgs_def by blast
    define s' where "s' = s\<lparr>n_bus := (n_bus s)\<lparr>b_views := dset ch buf' (b_views (n_bus s))\<rparr>,
      n_got := (n_got s)[r := n_got s ! r @ msgs]\<rparr>"
    have views: "b_views (n_bus s') = dset ch buf' (b_views (n_bus s))" by (simp add: s'_def)
    have "k_index (n_links s' ! q) = q \<and> (\<exists>cursor. chan_ok (n_links s' ! q) (n_bus s') ch L buf' cursor)"
      if q: "q < process_count L" for q
      using links [OF q] chan_ok_other [OF _ mem views] by (auto simp: s'_def)
    moreover have "backed (n_sent s') (abs_chan L buf')" unfolding abs s'_def using backed_drain [OF bk] by simp
    moreover have "received (n_sent s') (abs_chan L buf') q (n_got s' ! q)" if "q < process_count L" for q
      unfolding abs s'_def msgs_def
      using received_drain [OF rd [OF r] bk, of L] received_drain_other [OF _ rd [OF that]] unread_below len r
      by (cases "q = r") auto
    moreover have "accounted (n_sent s') (abs_chan L buf') q (n_got s' ! q)" if "q < process_count L" for q
      unfolding abs s'_def msgs_def
      using accounted_drain [OF ac [OF r], of L] accounted_drain_other [OF _ ac [OF that]] unread_below len r
      by (cases "q = r") auto
    moreover have "length (n_links s') = process_count L" "length (n_got s') = process_count L"
      using len by (simp_all add: s'_def)
    ultimately have "net_ok ch L s'" unfolding net_ok_def by blast
    moreover have "net_step ch op s = Inr s'" by (simp add: Drain run s'_def)
    ultimately show ?thesis by (intro exI [of _ s']) (simp add: s'_def)
  qed
qed

lemma net_run_ok:
  assumes "net_ok ch L s" and "list_all (op_ok L) ops" and "length (n_sent s) + length ops < 256 ^ 8 - 1"
  shows "\<exists>s'. sfold (net_step ch) ops s = Inr s' \<and> net_ok ch L s'"
  using assms
proof (induction ops arbitrary: s)
  case (Cons op ops)
  have "op_ok L op" "length (n_sent s) + 1 < 256 ^ 8" "list_all (op_ok L) ops" using Cons.prems(2,3) by simp_all
  then obtain s' where s': "net_step ch op s = Inr s'" "net_ok ch L s'" "length (n_sent s') \<le> length (n_sent s) + 1"
    using net_step_ok [OF Cons.prems(1)] by blast
  with Cons.IH [OF s'(2)] Cons.prems(2,3) show ?case by simp
qed simp

definition net_start :: "link list \<Rightarrow> bus \<Rightarrow> net" where
  "net_start ks b = \<lparr>n_links = ks, n_bus = b, n_sent = [], n_got = map (\<lambda>_. []) ks\<rparr>"

lemma dget_smap:
  assumes "smap (\<lambda>(k, v). sbind (f k v) (\<lambda>w. Inr (k, w))) d = Inr d'" and "dget d k = Some v"
  shows "\<exists>w. f k v = Inr w \<and> dget d' k = Some w"
  using assms
proof (induction d arbitrary: d')
  case (Cons x d)
  obtain k' v' where x: "x = (k', v')" by (cases x)
  from Cons.prems(1) obtain w ds where w: "f k' v' = Inr w" "smap (\<lambda>(k, v). sbind (f k v) (\<lambda>w. Inr (k, w))) d = Inr ds"
    "d' = (k', w) # ds" by (auto simp: x sbind_eq_Inr)
  show ?case
  proof (cases "k = k'")
    case True
    then show ?thesis using w Cons.prems(2) by (simp add: x)
  next
    case False
    then show ?thesis using w Cons.IH [OF w(2)] Cons.prems(2) by (simp add: x)
  qed
qed simp

lemma pack_header_Inr: "pack_header L = Inr h \<Longrightarrow> header_ok L"
  by (auto simp: pack_header_def pack_le_def header_ok_def sbind_eq_Inr split: if_splits)

lemma write_header_fresh:
  assumes "write_header L z = Inr buf" and "total_bytes L \<le> length z" and "set z \<subseteq> {0}"
  shows "header_ok L" and "link_mem L buf" and "a_unread (abs_chan L buf) = (\<lambda>_ _. False)"
    and "a_missed (abs_chan L buf) = (\<lambda>_. 0)" and "a_seq (abs_chan L buf) = 0"
proof -
  show hok: "header_ok L" using assms(1) by (auto simp: write_header_def sbind_eq_Inr dest: pack_header_Inr)
  have mem: "link_mem L z" using assms(2) by (simp add: link_mem_def)
  obtain buf' where b: "write_header L z = Inr buf'" "link_mem L buf'" "num (view L buf') LSeq = 0"
    "\<forall>i < process_count L. num (view L buf') (LMissed i) = 0" "\<forall>r k. view L buf' (LBits r k) = view L z (LBits r k)"
    using write_header_view [OF hok mem] by blast
  then have buf: "buf' = buf" using assms(1) by simp
  show "link_mem L buf" using b(2) buf by simp
  have "\<not> unread (view L z) r row" if "r < process_count L" "row < total_rows L" for r row
  proof -
    have v: "valid_loc L (LBits r (row div 8))" using that bit_byte_valid by simp
    have "length (view L z (LBits r (row div 8))) = 1" using length_view [OF mem v] by simp
    moreover have "set (view L z (LBits r (row div 8))) \<subseteq> {0}"
      using assms(3) by (auto simp: view_def get_slice_def dest!: in_set_takeD in_set_dropD)
    ultimately have "view L z (LBits r (row div 8)) = [0]" by (auto simp: length_Suc_conv One_nat_def)
    then show ?thesis by (simp add: unread_def)
  qed
  then have "\<not> unread (view L buf) r row" if "r < process_count L" "row < total_rows L" for r row
    using that b(5) by (simp add: unread_def buf)
  then show "a_unread (abs_chan L buf) = (\<lambda>_ _. False)" "a_missed (abs_chan L buf) = (\<lambda>_. 0)" "a_seq (abs_chan L buf) = 0"
    using b(3,4) unfolding buf by (auto simp: abs_chan_def fun_eq_iff)
qed

lemma init_link_ok:
  assumes "dget specs ch = Some spec" and "1 \<le> spec_rows spec" and "spec_payload spec < 256 ^ 4"
    and "i < n" and "n \<le> 255" and "dget (b_views b) ch = Some buf" and "link_mem (layout_of spec n) buf"
  shows "chan_ok (init_link specs n i) b ch (layout_of spec n) buf 0"
  using assms by (simp add: chan_ok_def init_link_def layout_of_def dget_map_snd)

lemma create_attach:
  assumes "create_link alloc specs (int n) 0 = Inr (k, b)" and "\<And>m. m \<le> length (alloc m) \<and> set (alloc m) \<subseteq> {0}"
    and "dget specs ch = Some spec" and "1 \<le> spec_rows spec"
    and "length ks = n" and "ks ! 0 = k" and "\<And>i. 0 < i \<Longrightarrow> i < n \<Longrightarrow> attach_link b specs (int n) (int i) = Inr (ks ! i)"
  shows "net_ok ch (layout_of spec n) (net_start ks b)"
proof -
  let ?L = "layout_of spec n"
  from assms(1) obtain views where n: "0 < n" "n \<le> 255" and k: "k = init_link specs n 0"
    and views: "smap (\<lambda>(name, spec). sbind (mem (write_header (layout_of spec n) (alloc (total_bytes (layout_of spec n)))))
      (\<lambda>buf. Inr (name, buf))) specs = Inr views" and b: "b = \<lparr>b_views = views, b_bells = replicate n 0\<rparr>"
    by (auto simp: create_link_def validate_process_count_def sbind_eq_Inr max_processes_def Let_def split: if_splits)
  obtain buf where buf: "write_header ?L (alloc (total_bytes ?L)) = Inr buf" "dget (b_views b) ch = Some buf"
    using dget_smap [OF views assms(3)] by (auto simp: b mem_def split: sum.splits)
  note fresh = write_header_fresh [OF buf(1)] assms(2) [of "total_bytes ?L"]
  have pay: "spec_payload spec < 256 ^ 4" using fresh by (simp add: header_ok_def layout_of_def)
  have ks: "ks ! i = init_link specs n i" if "i < n" for i
  proof (cases "i = 0")
    case False
    then show ?thesis using assms(7) [of i] that
      by (auto simp: attach_link_def validate_process_count_def sbind_eq_Inr split: if_splits)
  qed (use assms(6) k in simp)
  have "chan_ok (ks ! i) b ch ?L buf 0" if "i < n" for i
    unfolding ks [OF that] using init_link_ok [OF assms(3,4) pay that n(2) buf(2)] fresh by simp
  moreover have "k_index (ks ! i) = i" if "i < n" for i by (simp add: ks [OF that] init_link_def)
  moreover have "backed [] (abs_chan ?L buf)" using fresh(3-6) by (simp add: backed_def)
  moreover have "received [] (abs_chan ?L buf) r []" "accounted [] (abs_chan ?L buf) r []" for r
    using fresh(3-6) by (simp_all add: received_def accounted_def)
  ultimately show ?thesis
    unfolding net_ok_def by (intro conjI exI [of _ buf]) (auto simp: net_start_def layout_of_def assms(5))
qed

text \<open>Two processes, one row of two bytes each: the second message overwrites the unread first one.\<close>

definition sample_specs :: "(string, channel_spec) dict" where
  "sample_specs = [(''c'', \<lparr>spec_rows = 1, spec_payload = 2\<rparr>)]"

definition sample_ops :: "link_op list" where
  "sample_ops = [Publish 0 7 0 [107] [1, 2] [], Publish 0 8 0 [107] [3] [], Drain 1]"

lemma smap_total:
  assumes "\<And>k v. (k, v) \<in> set d \<Longrightarrow> \<exists>w. f k v = Inr w"
  shows "\<exists>d'. smap (\<lambda>(k, v). sbind (f k v) (\<lambda>w. Inr (k, w))) d = Inr d'"
  using assms
proof (induction d)
  case (Cons x d)
  obtain k v where x: "x = (k, v)" by (cases x)
  obtain w where "f k v = Inr w" using Cons.prems x by auto
  moreover obtain d' where "smap (\<lambda>(k, v). sbind (f k v) (\<lambda>w. Inr (k, w))) d = Inr d'" using Cons by auto
  ultimately show ?case by (simp add: x)
qed simp

lemma link_opens:
  assumes "0 < n" and "n \<le> 255" and "distinct (dkeys specs)"
    and "\<And>name spec. (name, spec) \<in> set specs \<Longrightarrow> header_ok (layout_of spec n)"
    and "\<And>m. m \<le> length (alloc m)"
  shows "\<exists>b. create_link alloc specs (int n) 0 = Inr (init_link specs n 0, b) \<and>
    (\<forall>i < n. attach_link b specs (int n) (int i) = Inr (init_link specs n i))"
proof -
  define wr where "wr = (\<lambda>(name :: string) spec. let L = layout_of spec n in mem (write_header L (alloc (total_bytes L))))"
  have hdr: "\<exists>buf. wr name spec = Inr buf \<and> verify_header (layout_of spec n) buf = Inr ()" if "(name, spec) \<in> set specs" for name spec
  proof -
    let ?L = "layout_of spec n"
    have ok: "header_ok ?L" "link_mem ?L (alloc (total_bytes ?L))" using assms(4) [OF that] assms(5) by (simp_all add: link_mem_def)
    obtain buf where b: "write_header ?L (alloc (total_bytes ?L)) = Inr buf" "link_mem ?L buf" "view ?L buf LHeader = header_of ?L"
      using write_header_view [OF ok] by blast
    have "16 \<le> length buf" using loc_in_mem [OF b(2), of LHeader] by simp
    moreover have "get_slice buf 0 16 = header_of ?L" using b(3) by (simp add: view_def)
    ultimately show ?thesis using b(1) verify_header_of [OF ok(1), of buf ?L] by (simp add: wr_def Let_def)
  qed
  obtain views where v: "smap (\<lambda>(name, spec). sbind (wr name spec) (\<lambda>buf. Inr (name, buf))) specs = Inr views"
    using smap_total [of specs wr] hdr by blast
  let ?b = "\<lparr>b_views = views, b_bells = replicate n 0\<rparr>"
  have "smap (\<lambda>(name, spec). sbind (dindex (UnknownChannel name) (b_views ?b) name) (\<lambda>buf.
      verify_header (layout_of spec n) buf)) specs = Inr (map (\<lambda>_. ()) specs)"
  proof (rule smap_pure)
    fix x assume x: "x \<in> set specs"
    obtain name spec where e: "x = (name, spec)" by (cases x)
    then have "dget specs name = Some spec" using assms(3) x by simp
    then obtain buf where "wr name spec = Inr buf" "dget views name = Some buf" using dget_smap [OF v] by blast
    then show "(case x of (name, spec) \<Rightarrow> sbind (dindex (UnknownChannel name) (b_views ?b) name) (\<lambda>buf.
      verify_header (layout_of spec n) buf)) = Inr ()"
      using hdr [of name spec] x e by (auto simp: dindex_def)
  qed
  then have "attach_link ?b specs (int n) (int i) = Inr (init_link specs n i)" if "i < n" for i
    using that assms(1,2) by (simp add: attach_link_def validate_process_count_def max_processes_def)
  moreover have "create_link alloc specs (int n) 0 = Inr (init_link specs n 0, ?b)"
    using v assms(1,2) unfolding wr_def
    by (simp add: create_link_def validate_process_count_def max_processes_def Let_def)
  ultimately show ?thesis by blast
qed

lemma sample_net_ok:
  "\<exists>b. create_link (\<lambda>m. replicate m 0) sample_specs (int 2) 0 = Inr (init_link sample_specs 2 0, b) \<and>
     (\<forall>i < 2. attach_link b sample_specs (int 2) (int i) = Inr (init_link sample_specs 2 i)) \<and>
     net_ok ''c'' (layout_of \<lparr>spec_rows = 1, spec_payload = 2\<rparr> 2)
       (net_start [init_link sample_specs 2 0, init_link sample_specs 2 1] b)"
proof -
  define z :: "nat \<Rightarrow> buffer" where "z = (\<lambda>m. replicate m 0)"
  have z: "m \<le> length (z m) \<and> set (z m) \<subseteq> {0}" for m by (auto simp: z_def)
  obtain b where c: "create_link z sample_specs (int 2) 0 = Inr (init_link sample_specs 2 0, b)"
    and a: "\<And>i. i < 2 \<Longrightarrow> attach_link b sample_specs (int 2) (int i) = Inr (init_link sample_specs 2 i)"
    using link_opens [of 2 sample_specs z] z by (auto simp: sample_specs_def header_ok_def layout_of_def)
  have att: "attach_link b sample_specs (int 2) (int i) = Inr ([init_link sample_specs 2 0, init_link sample_specs 2 1] ! i)"
    if "0 < i" "i < 2" for i
  proof -
    from that have "i = 1" by simp
    with a [of 1] show ?thesis by simp
  qed
  have "net_ok ''c'' (layout_of \<lparr>spec_rows = 1, spec_payload = 2\<rparr> 2)
      (net_start [init_link sample_specs 2 0, init_link sample_specs 2 1] b)"
    by (rule create_attach [OF c z _ _ _ _ att]) (simp_all add: sample_specs_def)
  with a c show ?thesis unfolding z_def by blast
qed

section \<open>Properties\<close>

text \<open>
  C16: Publishing on a channel succeeds, and on the channel the shared block stands for it is the
  abstract update: the writer's next row gets the message and the next sequence number, becomes unread
  for every other process and for no one else, everyone who had not read the row's old message has it
  counted as missed, and no other row changes. The other channels, and every bell but the ring of
  the other processes, are untouched.
\<close>

theorem publish_refines:
  assumes "chan_ok k b ch L buf cursor" and "counters_ok (abs_chan L buf)" and "now < 256 ^ 8"
    and "length payload \<le> payload_bytes L" and "length key \<le> 32" and "length corr \<le> 16" and "kind < 256"
  shows "\<exists>k' b' buf'. publish now ch kind key payload corr k b =
      Inr (k', b', k_index k * rows_per_writer L + cursor) \<and>
    b_views b' = dset ch buf' (b_views b) \<and> b_bells b' = ring (k_index k) (b_bells b) \<and>
    abs_chan L buf' = publish_abs (k_count k) (k_index k) (k_index k * rows_per_writer L + cursor)
      now kind key payload corr (abs_chan L buf) \<and>
    chan_ok k' b' ch L buf' ((cursor + 1) mod rows_per_writer L)"
  using publish_ok [OF assms] by blast

theorem publish_refines_witness:
  "\<exists>b buf k' b' buf'. publish 7 ''c'' 0 [107] [1, 2] [] (init_link sample_specs 2 0) b = Inr (k', b', 0) \<and>
     abs_chan (layout_of \<lparr>spec_rows = 1, spec_payload = 2\<rparr> 2) buf' =
       publish_abs 2 0 0 7 0 [107] [1, 2] [] (abs_chan (layout_of \<lparr>spec_rows = 1, spec_payload = 2\<rparr> 2) buf)"
proof -
  define L where "L = layout_of \<lparr>spec_rows = 1, spec_payload = 2\<rparr> 2"
  define k where "k = init_link sample_specs 2 0"
  have pc: "process_count L = 2" by (simp add: L_def layout_of_def)
  obtain b where "net_ok ''c'' L (net_start [k, init_link sample_specs 2 1] b)"
    using sample_net_ok unfolding L_def k_def by blast
  then obtain buf where chans: "\<forall>p < 2. \<exists>cursor. chan_ok ([k, init_link sample_specs 2 1] ! p) b ''c'' L buf cursor"
    and bk1: "backed [] (abs_chan L buf)"
    and acc: "\<forall>r < 2. accounted [] (abs_chan L buf) r (map (\<lambda>_. []) [k, init_link sample_specs 2 1] ! r)"
    unfolding net_ok_def net_start_def net.simps pc by blast
  obtain cursor where ok: "chan_ok k b ''c'' L buf cursor" using chans [THEN spec, of 0] by auto
  have "map (\<lambda>_. [] :: message list) [k, init_link sample_specs 2 1] ! r = []" if "r < 2" for r using that by (subst nth_map) simp_all
  with acc have "\<forall>r < process_count L. accounted [] (abs_chan L buf) r []" unfolding pc by simp
  note bk = bk1 this
  have ctr: "counters_ok (abs_chan L buf)" using accounted_counters [OF bk(1) _ bk(2)] by simp
  have k: "k_index k = 0" "k_count k = 2" "payload_bytes L = 2" "cursor = 0"
    using ok by (simp_all add: k_def init_link_def L_def layout_of_def chan_ok_def)
  have "length [1, 2 :: byte] \<le> payload_bytes L" "length [107 :: byte] \<le> 32" "length ([] :: buffer) \<le> 16" "(0::nat) < 256"
    "(7::nat) < 256 ^ 8" by (simp_all add: k)
  from publish_refines [OF ok ctr this(5) this(1-4)] show ?thesis
    unfolding k L_def [symmetric] k_def [symmetric] by auto
qed

text \<open>
  C2: On a channel fresh from creation, whatever the processes publish and drain, in whatever order but one call after
  another: every call succeeds, what a reader has received is a subsequence, in publication order and without
  repetition, of what the others published, and every message of the others is either received,
  still unread or counted as missed, by the same numbers the statistics report. This is about calls that do not
  overlap in time. The code does not keep them apart, and when they overlap a row can be lost uncounted
  (\<open>racing_bits_lose_a_row\<close>) and \<open>missed\<close>, a diagnostic number, can fall short.
\<close>

theorem every_message_accounted_in_turn:
  assumes "create_link alloc specs (int n) 0 = Inr (k, b)" and "\<And>m. m \<le> length (alloc m) \<and> set (alloc m) \<subseteq> {0}"
    and "dget specs ch = Some spec" and "1 \<le> spec_rows spec"
    and "length ks = n" and "ks ! 0 = k" and "\<And>i. 0 < i \<Longrightarrow> i < n \<Longrightarrow> attach_link b specs (int n) (int i) = Inr (ks ! i)"
    and "list_all (op_ok (layout_of spec n)) ops" and "length ops < 256 ^ 8 - 1"
  shows "\<exists>s buf. sfold (net_step ch) ops (net_start ks b) = Inr s \<and> dget (b_views (n_bus s)) ch = Some buf \<and>
    (\<forall>r < n. subseq (n_got s ! r) (filter (\<lambda>m. m_sender m \<noteq> r) (n_sent s)) \<and>
       (\<exists>missed. read_missed buf r = Inr missed \<and>
          length (filter (\<lambda>m. m_sender m \<noteq> r) (n_sent s)) =
            length (n_got s ! r) + missed + length (unread_rows (layout_of spec n) buf r)))"
proof -
  let ?L = "layout_of spec n"
  have pc: "process_count ?L = n" by (simp add: layout_of_def)
  have start: "net_ok ch ?L (net_start ks b)" by (rule create_attach [OF assms(1-7)])
  obtain s where run: "sfold (net_step ch) ops (net_start ks b) = Inr s" and ok: "net_ok ch ?L s"
    using net_run_ok [OF start assms(8)] assms(9) by (auto simp: net_start_def)
  obtain buf where chan: "\<And>p. p < n \<Longrightarrow> \<exists>cursor. chan_ok (n_links s ! p) (n_bus s) ch ?L buf cursor"
    and rd: "\<And>r. r < n \<Longrightarrow> received (n_sent s) (abs_chan ?L buf) r (n_got s ! r)"
    and ac: "\<And>r. r < n \<Longrightarrow> accounted (n_sent s) (abs_chan ?L buf) r (n_got s ! r)"
    using ok unfolding net_ok_def pc by blast
  have "0 < n" using assms(1)
    by (auto simp: create_link_def validate_process_count_def sbind_eq_Inr split: if_splits)
  then have mem: "link_mem ?L buf" and view: "dget (b_views (n_bus s)) ch = Some buf" using chan by (auto simp: chan_ok_def)
  have "card {row. a_unread (abs_chan ?L buf) r row} = length (unread_rows ?L buf r)" if r: "r < n" for r
  proof -
    have "unread_rows ?L buf r = filter (a_unread (abs_chan ?L buf) r) [0..<total_rows ?L]"
      using unread_rows_abs [OF mem] r by (simp add: pc)
    moreover have "{row. a_unread (abs_chan ?L buf) r row} = set (filter (a_unread (abs_chan ?L buf) r) [0..<total_rows ?L])"
      using unread_below by auto
    ultimately show ?thesis by (simp add: distinct_card del: set_filter)
  qed
  moreover have "read_missed buf r = Inr (a_missed (abs_chan ?L buf) r)" if "r < n" for r
    using read_missed_num [OF mem] that by (simp add: abs_chan_def pc)
  ultimately have "subseq (n_got s ! r) (filter (\<lambda>m. m_sender m \<noteq> r) (n_sent s)) \<and>
       (\<exists>missed. read_missed buf r = Inr missed \<and>
          length (filter (\<lambda>m. m_sender m \<noteq> r) (n_sent s)) =
            length (n_got s ! r) + missed + length (unread_rows ?L buf r))" if "r < n" for r
    using received_subseq [OF rd [OF that]] ac [OF that] that by (simp add: accounted_def)
  with run view show ?thesis by blast
qed

theorem every_message_accounted_in_turn_witness:
  "\<exists>ks b s buf missed. attach_link b sample_specs 2 1 = Inr (ks ! 1) \<and>
     sfold (net_step ''c'') sample_ops (net_start ks b) = Inr s \<and>
     dget (b_views (n_bus s)) ''c'' = Some buf \<and> read_missed buf 1 = Inr missed \<and>
     length (filter (\<lambda>m. m_sender m \<noteq> 1) (n_sent s)) = length (n_got s ! 1) + missed +
       length (unread_rows (layout_of \<lparr>spec_rows = 1, spec_payload = 2\<rparr> 2) buf 1)"
proof -
  define z :: "nat \<Rightarrow> buffer" where "z = (\<lambda>m. replicate m 0)"
  define ks where "ks = [init_link sample_specs 2 0, init_link sample_specs 2 1]"
  have z: "m \<le> length (z m) \<and> set (z m) \<subseteq> {0}" for m by (auto simp: z_def)
  obtain b where c: "create_link z sample_specs (int 2) 0 = Inr (init_link sample_specs 2 0, b)"
    and a: "\<forall>i < 2. attach_link b sample_specs (int 2) (int i) = Inr (init_link sample_specs 2 i)"
    using sample_net_ok unfolding z_def by blast
  have att: "attach_link b sample_specs (int 2) (int i) = Inr (ks ! i)" if "0 < i" "i < 2" for i
  proof -
    from that have "i = 1" by simp
    then show ?thesis using a [THEN spec, of 1] by (simp add: ks_def)
  qed
  have sp: "dget sample_specs ''c'' = Some \<lparr>spec_rows = 1, spec_payload = 2\<rparr>" by (simp add: sample_specs_def)
  have ops: "list_all (op_ok (layout_of \<lparr>spec_rows = 1, spec_payload = 2\<rparr> 2)) sample_ops" "length sample_ops < 256 ^ 8 - 1"
    by (simp_all add: sample_ops_def layout_of_def)
  have ks: "1 \<le> spec_rows \<lparr>spec_rows = 1, spec_payload = 2\<rparr>" "length ks = 2" "ks ! 0 = init_link sample_specs 2 0"
    by (simp_all add: ks_def)
  obtain s buf where "sfold (net_step ''c'') sample_ops (net_start ks b) = Inr s" "dget (b_views (n_bus s)) ''c'' = Some buf"
    "\<exists>missed. read_missed buf 1 = Inr missed \<and>
          length (filter (\<lambda>m. m_sender m \<noteq> 1) (n_sent s)) =
            length (n_got s ! 1) + missed + length (unread_rows (layout_of \<lparr>spec_rows = 1, spec_payload = 2\<rparr> 2) buf 1)"
    using every_message_accounted_in_turn [OF c z sp ks att ops] by (metis one_less_numeral_iff semiring_norm(76))
  moreover have "attach_link b sample_specs 2 1 = Inr (ks ! 1)" using att [of 1] by simp
  ultimately show ?thesis by blast
qed

section \<open>Two processes in the same byte\<close>

text \<open>
  \<open>buf[pos] |= mask\<close> reads the byte and writes it back, and another process can do the same in
  between. \<open>bit_load\<close> and \<open>bit_store\<close> are the two halves; \<open>bit_race\<close> is the order in which both
  processes have read before either writes.
\<close>

datatype bit_op = SetBit nat nat | ClearBit nat nat

fun bit_load :: "layout \<Rightarrow> bit_op \<Rightarrow> buffer \<Rightarrow> mem_error + byte" where
  "bit_load L (SetBit reader row) buf = get_byte buf (fst (bit_offset L reader row))"
| "bit_load L (ClearBit reader row) buf = get_byte buf (fst (bit_offset L reader row))"

fun bit_store :: "layout \<Rightarrow> bit_op \<Rightarrow> byte \<Rightarrow> buffer \<Rightarrow> mem_error + buffer" where
  "bit_store L (SetBit reader row) b buf =
     (case bit_offset L reader row of (pos, m) \<Rightarrow> put_byte buf pos (unat (b OR m)))"
| "bit_store L (ClearBit reader row) b buf =
     (case bit_offset L reader row of (pos, m) \<Rightarrow> put_byte buf pos (unat (b AND (0xFF XOR m))))"

lemma bit_halves:
  "set_bit_at L reader row buf = sbind (bit_load L (SetBit reader row) buf) (\<lambda>b. bit_store L (SetBit reader row) b buf)"
  "clear_bit_at L reader row buf = sbind (bit_load L (ClearBit reader row) buf) (\<lambda>b. bit_store L (ClearBit reader row) b buf)"
  by (simp_all add: set_bit_at_def clear_bit_at_def bit_offset_def)

definition bit_race :: "layout \<Rightarrow> bit_op \<Rightarrow> bit_op \<Rightarrow> buffer \<Rightarrow> mem_error + buffer" where
  "bit_race L p q buf =
     sbind (bit_load L p buf) (\<lambda>x. sbind (bit_load L q buf) (\<lambda>y.
       sbind (bit_store L p x buf) (\<lambda>buf. bit_store L q y buf)))"

text \<open>
  A writer showing a row to a reader and the reader clearing the bit of another row of the same
  byte can lose the shown row: it is neither unread nor counted as missed.
\<close>
theorem racing_bits_lose_a_row:
  assumes "link_mem L buf" and "r < process_count L" and "row < total_rows L" and "row' < total_rows L"
    and "row div 8 = row' div 8" and "test_bit_at L buf r row = Inr False"
  shows "\<exists>buf'. bit_race L (SetBit r row) (ClearBit r row') buf = Inr buf' \<and>
    test_bit_at L buf' r row = Inr False \<and> read_missed buf' r = read_missed buf r"
proof -
  let ?l = "LBits r (row div 8)"
  have v: "valid_loc L ?l" using assms(2) bit_byte_valid [OF assms(3)] by simp
  define x where "x = hd (view L buf ?l)"
  define b1 where "b1 = wloc L ?l [x OR push_bit (row mod 8) 1] buf"
  define b2 where "b2 = wloc L ?l (set_bits (view L buf) r row' False) b1"
  have off: "bit_offset L r row = (off L ?l, push_bit (row mod 8) 1)" "bit_offset L r row' = (off L ?l, push_bit (row' mod 8) 1)"
    using bit_offset_off [of L r row] bit_offset_off [of L r row'] assms(5) by simp_all
  have m1: "link_mem L b1" using assms(1) v by (simp add: b1_def)
  have m2: "link_mem L b2" using m1 v by (simp add: b2_def)
  have ld: "get_byte buf (off L ?l) = Inr x" using get_byte_loc [OF assms(1) v] by (simp add: x_def)
  have "put_byte buf (off L ?l) (unat (x OR push_bit (row mod 8) 1)) = Inr b1"
    using put_byte_loc [OF assms(1) v] by (simp add: b1_def)
  moreover have "put_byte b1 (off L ?l) (unat (x AND (0xFF XOR push_bit (row' mod 8) 1))) = Inr b2"
    using put_byte_loc [OF m1 v] by (simp add: b2_def set_bits_def Let_def x_def assms(5) [symmetric])
  ultimately have run: "bit_race L (SetBit r row) (ClearBit r row') buf = Inr b2"
    using ld by (simp add: bit_race_def off)
  have "view L b2 = (view L buf)(LBits r (row' div 8) := set_bits (view L buf) r row' False)"
    using v m1 assms(1,5) by (simp add: b2_def b1_def)
  then have "unread (view L b2) r row = (if row = row' then False else unread (view L buf) r row)"
    by (simp add: unread_set_bits)
  moreover have "\<not> unread (view L buf) r row" using assms(6) test_bit_unread [OF assms(1-3)] by simp
  ultimately have "test_bit_at L b2 r row = Inr False" using test_bit_unread [OF m2 assms(2,3)] by simp
  moreover have "read_missed b2 r = read_missed buf r"
    using read_missed_num [OF m2] read_missed_num [OF assms(1)] assms(1,2) v m1 by (simp add: b2_def b1_def)
  ultimately show ?thesis using run by blast
qed

theorem racing_bits_lose_a_row_witness:
  "\<exists>buf'. bit_race \<lparr>rows_per_writer = 1, payload_bytes = 2, process_count = 2\<rparr> (SetBit 1 0) (ClearBit 1 1) (replicate 300 0) = Inr buf' \<and>
     test_bit_at \<lparr>rows_per_writer = 1, payload_bytes = 2, process_count = 2\<rparr> buf' 1 0 = Inr False"
proof -
  define L where "L = \<lparr>rows_per_writer = 1, payload_bytes = 2, process_count = 2\<rparr>"
  define m :: buffer where "m = replicate 300 0"
  have tot: "total_bytes L \<le> 300" "total_rows L = 2" "process_count L = 2" "length m = 300"
    unfolding L_def m_def by code_simp+
  then have mem: "link_mem L m" by (simp add: link_mem_def)
  have bit: "test_bit_at L m 1 0 = Inr False" unfolding L_def m_def by code_simp
  have "1 < process_count L" "0 < total_rows L" "1 < total_rows L" "(0::nat) div 8 = 1 div 8" using tot by simp_all
  from racing_bits_lose_a_row [OF mem this bit] show ?thesis unfolding L_def m_def by blast
qed

end
