(* ===== verification/Link_Pump.thy ===== *)
theory Link_Pump
  imports Link
begin

text \<open>
  The reading loops of one process (\<open>_pump\<close> and \<open>_drain\<close> of \<open>xime/core/link/_link.py\<close>): one loop per
  channel, all of them waiting on the one bell of the process. Another process's publication first
  shows the row, then rings. Here a channel is the number of its rows unread by this process.
\<close>

section \<open>Steps\<close>

text \<open>A loop waits in \<open>bell.acquire\<close>, has been woken, or has scanned and has rows left to consume.\<close>

datatype pump = Asleep | Woken | Reading nat

record reader =
  p_bell :: nat
  p_ringing :: nat
  p_unread :: "string \<Rightarrow> nat"
  p_pump :: "string \<Rightarrow> pump"

definition start_reader :: reader where
  "start_reader = \<lparr>p_bell = 0, p_ringing = 0, p_unread = (\<lambda>_. 0), p_pump = (\<lambda>_. Asleep)\<rparr>"

inductive pump_step :: "string list \<Rightarrow> reader \<Rightarrow> reader \<Rightarrow> bool" for chans where
  Show: "c \<in> set chans \<Longrightarrow>
    pump_step chans s (s\<lparr>p_unread := (p_unread s)(c := Suc (p_unread s c)), p_ringing := Suc (p_ringing s)\<rparr>)"
| Ring: "p_ringing s = Suc n \<Longrightarrow> pump_step chans s (s\<lparr>p_ringing := n, p_bell := Suc (p_bell s)\<rparr>)"
| Wake: "c \<in> set chans \<Longrightarrow> p_pump s c = Asleep \<Longrightarrow> p_bell s = Suc n \<Longrightarrow>
    pump_step chans s (s\<lparr>p_bell := n, p_pump := (p_pump s)(c := Woken)\<rparr>)"
| Scan: "c \<in> set chans \<Longrightarrow> p_pump s c = Woken \<Longrightarrow>
    pump_step chans s (s\<lparr>p_pump := (p_pump s)(c := Reading (p_unread s c))\<rparr>)"
| Consume: "c \<in> set chans \<Longrightarrow> p_pump s c = Reading (Suc n) \<Longrightarrow>
    pump_step chans s (s\<lparr>p_unread := (p_unread s)(c := p_unread s c - 1), p_pump := (p_pump s)(c := Reading n)\<rparr>)"
| Sleep: "c \<in> set chans \<Longrightarrow> p_pump s c = Reading 0 \<Longrightarrow>
    pump_step chans s (s\<lparr>p_pump := (p_pump s)(c := Asleep)\<rparr>)"

abbreviation reachable :: "string list \<Rightarrow> reader \<Rightarrow> bool" where
  "reachable chans s \<equiv> (pump_step chans)\<^sup>*\<^sup>* start_reader s"

text \<open>Nobody is about to ring, and no loop can move: what is unread stays unread until the next publication.\<close>

definition stuck :: "string list \<Rightarrow> reader \<Rightarrow> bool" where
  "stuck chans s \<longleftrightarrow> p_ringing s = 0 \<and> (\<forall>c \<in> set chans. p_pump s c = Asleep \<and> p_bell s = 0)"

lemma stuck_no_step:
  assumes "stuck chans s" and "pump_step chans s s'"
  shows "\<exists>c \<in> set chans. p_unread s' c = Suc (p_unread s c)"
  using assms(2,1) by cases (auto simp: stuck_def)

section \<open>One channel\<close>

text \<open>Every unread row the loop has not yet scanned is backed by a ring that is still to be heard.\<close>

fun scanned :: "pump \<Rightarrow> nat \<Rightarrow> nat" where
  "scanned Asleep u = 0"
| "scanned Woken u = u"
| "scanned (Reading n) u = n"

definition bell_inv :: "string \<Rightarrow> reader \<Rightarrow> bool" where
  "bell_inv c s \<longleftrightarrow> (case p_pump s c of Reading n \<Rightarrow> n \<le> p_unread s c | _ \<Rightarrow> True) \<and>
     (scanned (p_pump s c) (p_unread s c) < p_unread s c \<longrightarrow> 0 < p_bell s + p_ringing s)"

lemma bell_inv_step:
  assumes "pump_step [c] s s'" and "bell_inv c s"
  shows "bell_inv c s'"
  using assms by cases (auto simp: bell_inv_def split: pump.splits)

lemma bell_inv_reachable:
  assumes "reachable [c] s"
  shows "bell_inv c s"
  using assms
proof (induction rule: rtranclp_induct)
  case base
  show ?case by (simp add: bell_inv_def start_reader_def)
qed (rule bell_inv_step)

lemma rtranclp_into: "r\<^sup>*\<^sup>* a b \<Longrightarrow> r b c \<Longrightarrow> r\<^sup>*\<^sup>* a c"
  by (rule rtranclp.rtrancl_into_rtrancl)

lemma app_not_internal:
  assumes "configure_link byte_len app = Inr app" and "ch \<in> set (dkeys app)"
  shows "ch \<noteq> internal_channel"
proof
  assume ch: "ch = internal_channel"
  define chk where "chk = (\<lambda>(name, _ :: channel_spec) (_ :: unit). if take 2 name = ''__'' then Inl (ReservedChannel name)
         else if name = [] \<or> 64 < byte_len name then Inl (InvalidChannel name) else Inr ())"
  have "\<exists>e. sfold chk items () = Inl e" if "ch \<in> set (dkeys items)" for items
    using that
  proof (induction items)
    case (Cons x items)
    obtain name spec where x: "x = (name, spec)" by (cases x)
    show ?case
    proof (cases "name = ch")
      case True
      then show ?thesis by (simp add: x chk_def ch internal_channel_def)
    next
      case False
      then obtain e where "sfold chk items () = Inl e" using Cons x by auto
      then show ?thesis by (cases "chk x ()") auto
    qed
  qed simp
  then obtain e where "sfold chk app () = Inl e" using assms(2) by blast
  then show False using assms(1) by (simp add: configure_link_def chk_def)
qed

section \<open>Properties\<close>

text \<open>
  With a single channel no wake-up is lost: whenever the loop sleeps with no bell to hear and
  nobody about to ring, the channel has no unread row.
\<close>

theorem one_channel_wakes:
  assumes "reachable [c] s" and "stuck [c] s"
  shows "p_unread s c = 0"
  using bell_inv_reachable [OF assms(1)] assms(2) by (simp add: bell_inv_def stuck_def)

text \<open>
  C18: With an application channel beside the internal channel every link has, a wake-up can be lost:
  the loop of another channel can take the only ring, find nothing, and go back to sleep, and then
  the message is unread, every loop sleeps and no ring is left.
\<close>

theorem two_channels_lose_wakeups:
  assumes "configure_link byte_len app = Inr app" and "ch \<in> set (dkeys app)"
  shows "\<exists>s. reachable (dkeys (channels app)) s \<and> stuck (dkeys (channels app)) s \<and> p_unread s ch = 1"
proof -
  define cs where "cs = dkeys (channels app)"
  have keys: "ch \<in> set cs" "internal_channel \<in> set cs"
    using assms(2) by (auto simp: cs_def channels_def)
  have neq: "ch \<noteq> internal_channel" using app_not_internal [OF assms] .
  let ?other = internal_channel
  define s1 where "s1 = start_reader\<lparr>p_unread := (\<lambda>_. 0)(ch := 1), p_ringing := 1\<rparr>"
  define s2 where "s2 = s1\<lparr>p_ringing := 0, p_bell := 1\<rparr>"
  define s3 where "s3 = s2\<lparr>p_bell := 0, p_pump := (p_pump s2)(?other := Woken)\<rparr>"
  define s4 where "s4 = s3\<lparr>p_pump := (p_pump s3)(?other := Reading 0)\<rparr>"
  define s5 where "s5 = s4\<lparr>p_pump := (p_pump s4)(?other := Asleep)\<rparr>"
  note ss = s1_def s2_def s3_def s4_def s5_def start_reader_def
  have "pump_step cs start_reader s1"
    using pump_step.Show [OF keys(1), of start_reader] by (simp add: ss)
  moreover have "pump_step cs s1 s2" using pump_step.Ring [of s1 0 cs] by (simp add: ss)
  moreover have "pump_step cs s2 s3" using pump_step.Wake [OF keys(2), of s2 0] by (simp add: ss)
  moreover have "pump_step cs s3 s4" using pump_step.Scan [OF keys(2), of s3] neq by (simp add: ss)
  moreover have "pump_step cs s4 s5" using pump_step.Sleep [OF keys(2), of s4] by (simp add: ss)
  ultimately have "reachable cs s5" by (meson rtranclp.rtrancl_into_rtrancl rtranclp.rtrancl_refl)
  moreover have "stuck cs s5" "p_unread s5 ch = 1" by (simp_all add: stuck_def ss)
  ultimately show ?thesis unfolding cs_def by blast
qed

theorem one_channel_wakes_witness:
  "p_unread (start_reader\<lparr>p_unread := (\<lambda>_. 0)(''c'' := 0), p_pump := (p_pump start_reader)(''c'' := Asleep)\<rparr>) ''c'' = 0"
proof -
  define s1 where "s1 = start_reader\<lparr>p_unread := (p_unread start_reader)(''c'' := 1), p_ringing := 1\<rparr>"
  define s2 where "s2 = s1\<lparr>p_ringing := 0, p_bell := 1\<rparr>"
  define s3 where "s3 = s2\<lparr>p_bell := 0, p_pump := (p_pump s2)(''c'' := Woken)\<rparr>"
  define s4 where "s4 = s3\<lparr>p_pump := (p_pump s3)(''c'' := Reading 1)\<rparr>"
  define s5 where "s5 = s4\<lparr>p_unread := (p_unread s4)(''c'' := 0), p_pump := (p_pump s4)(''c'' := Reading 0)\<rparr>"
  define s6 where "s6 = s5\<lparr>p_pump := (p_pump s5)(''c'' := Asleep)\<rparr>"
  note ss = s1_def s2_def s3_def s4_def s5_def s6_def start_reader_def
  have "pump_step [''c''] start_reader s1" using pump_step.Show [of "''c''" "[''c'']" start_reader] by (simp add: ss)
  moreover have "pump_step [''c''] s1 s2" using pump_step.Ring [of s1 0 "[''c'']"] by (simp add: ss)
  moreover have "pump_step [''c''] s2 s3" using pump_step.Wake [of "''c''" "[''c'']" s2 0] by (simp add: ss)
  moreover have "pump_step [''c''] s3 s4" using pump_step.Scan [of "''c''" "[''c'']" s3] by (simp add: ss)
  moreover have "pump_step [''c''] s4 s5" using pump_step.Consume [of "''c''" "[''c'']" s4 0] by (simp add: ss)
  moreover have "pump_step [''c''] s5 s6" using pump_step.Sleep [of "''c''" "[''c'']" s5] by (simp add: ss)
  ultimately have "reachable [''c''] s6" by (meson rtranclp.rtrancl_into_rtrancl rtranclp.rtrancl_refl)
  moreover have "stuck [''c''] s6" by (simp add: stuck_def ss)
  ultimately have "p_unread s6 ''c'' = 0" by (rule one_channel_wakes)
  then show ?thesis by (simp add: ss)
qed

theorem two_channels_lose_wakeups_witness:
  "\<exists>s. reachable [internal_channel, ''fieldbus''] s \<and> stuck [internal_channel, ''fieldbus''] s \<and> p_unread s ''fieldbus'' = 1"
proof -
  have "configure_link length [(''fieldbus'', \<lparr>spec_rows = 256, spec_payload = 512\<rparr>)] =
      Inr [(''fieldbus'', \<lparr>spec_rows = 256, spec_payload = 512\<rparr>)]" by code_simp
  moreover have "dkeys (channels [(''fieldbus'', \<lparr>spec_rows = 256, spec_payload = 512\<rparr>)]) = [internal_channel, ''fieldbus'']"
    by code_simp
  ultimately show ?thesis
    using two_channels_lose_wakeups [of length "[(''fieldbus'', \<lparr>spec_rows = 256, spec_payload = 512\<rparr>)]" "''fieldbus''"]
    by simp
qed

end
