(* ===== verification/RefData.thy ===== *)
theory RefData
  imports Shared_Memory
begin

text \<open>
  Shared reference data (\<open>xime/core/refdata\<close>): one writer publishes versions of a table into two
  slots of a shared block, every process reads the current one without a lock. The block is bytes;
  what the processes see of it at each access is an argument of the reader, so that a read can run
  while a publication is under way. The application's \<open>encode_segments\<close> and \<open>decode_segments\<close> are
  parameters, their exceptions \<open>App\<close>. Texts are their UTF-8 bytes.
\<close>

section \<open>Layout\<close>

datatype 'x ref_error =
    RMem mem_error
  | NotReady
  | TooManySegments nat
  | TooLarge nat nat
  | NotWriter
  | TornSegments nat
  | TornRead
  | RClosed
  | App 'x
  | RefMagic buffer
  | RefVersion nat
  | RefLimit nat
  | UnknownTable string
  | TableConflict string nat nat
  | InvalidName string
  | InvalidSize int
  | NotARefData string
  | NoTableName string

definition rmem :: "mem_error + 'a \<Rightarrow> 'x ref_error + 'a" where
  "rmem r = (case r of Inl e \<Rightarrow> Inl (RMem e) | Inr v \<Rightarrow> Inr v)"

lemma rmem_simps [simp, err_simps]: "rmem (Inl e) = Inl (RMem e)" "rmem (Inr v) = Inr v"
  by (simp_all add: rmem_def)

datatype ref_field =
    RMagic | RVersion | RFlags | RGeneration | RWritten | RLengthA | RLengthB | RLimit | RSegments
  | RPointer | RWriter | RSlotA | RSlotB

definition header_bytes :: nat where "header_bytes = 40"
definition flag_stale :: nat where "flag_stale = 1"
definition no_writer :: nat where "no_writer = 255"
definition never_published :: nat where "never_published = 0"
definition ref_magic :: buffer where "ref_magic = [0x58, 0x52, 0x45, 0x46]"
definition ref_version :: nat where "ref_version = 1"

definition slot_a_offset :: nat where "slot_a_offset = header_bytes"
definition slot_b_offset :: "nat \<Rightarrow> nat" where "slot_b_offset M = header_bytes + M"
definition ref_total :: "nat \<Rightarrow> nat" where "ref_total M = header_bytes + M * 2"

fun ref_off :: "nat \<Rightarrow> ref_field \<Rightarrow> nat" where
  "ref_off M RMagic = 0"
| "ref_off M RVersion = 4"
| "ref_off M RFlags = 6"
| "ref_off M RGeneration = 8"
| "ref_off M RWritten = 16"
| "ref_off M RLengthA = 24"
| "ref_off M RLengthB = 28"
| "ref_off M RLimit = 32"
| "ref_off M RSegments = 36"
| "ref_off M RPointer = 38"
| "ref_off M RWriter = 39"
| "ref_off M RSlotA = slot_a_offset"
| "ref_off M RSlotB = slot_b_offset M"

fun ref_sz :: "nat \<Rightarrow> ref_field \<Rightarrow> nat" where
  "ref_sz M RMagic = 4"
| "ref_sz M RVersion = 2"
| "ref_sz M RFlags = 2"
| "ref_sz M RGeneration = 8"
| "ref_sz M RWritten = 8"
| "ref_sz M RLengthA = 4"
| "ref_sz M RLengthB = 4"
| "ref_sz M RLimit = 4"
| "ref_sz M RSegments = 2"
| "ref_sz M RPointer = 1"
| "ref_sz M RWriter = 1"
| "ref_sz M RSlotA = M"
| "ref_sz M RSlotB = M"

definition ref_pack_header :: "nat \<Rightarrow> mem_error + buffer" where
  "ref_pack_header M =
     sbind (pack_le 2 ref_version) (\<lambda>v. sbind (pack_le 2 0) (\<lambda>fl. sbind (pack_le 8 never_published) (\<lambda>g.
     sbind (pack_le 8 0) (\<lambda>w. sbind (pack_le 4 0) (\<lambda>a. sbind (pack_le 4 0) (\<lambda>b. sbind (pack_le 4 M) (\<lambda>m.
     sbind (pack_le 2 0) (\<lambda>s. sbind (pack_le 1 0) (\<lambda>p. sbind (pack_le 1 no_writer) (\<lambda>o'.
       Inr (ref_magic @ v @ fl @ g @ w @ a @ b @ m @ s @ p @ o')))))))))))"

definition write_ref_header :: "nat \<Rightarrow> buffer \<Rightarrow> mem_error + buffer" where
  "write_ref_header M buf =
     sbind (ref_pack_header M) (\<lambda>h. if header_bytes \<le> length buf then put_slice buf 0 h else Inl StructShort)"

definition verify_ref_header :: "nat \<Rightarrow> buffer \<Rightarrow> 'x ref_error + unit" where
  "verify_ref_header M buf =
     (if length buf < header_bytes then Inl (RMem StructShort)
      else if get_slice buf 0 4 \<noteq> ref_magic then Inl (RefMagic (get_slice buf 0 4))
      else if le_value (get_slice buf 4 2) \<noteq> ref_version then Inl (RefVersion (le_value (get_slice buf 4 2)))
      else if le_value (get_slice buf 32 4) \<noteq> M then Inl (RefLimit (le_value (get_slice buf 32 4)))
      else Inr ())"

definition read_generation :: "buffer \<Rightarrow> mem_error + nat" where
  "read_generation buf = unpack_le 8 buf 8"

definition write_generation :: "nat \<Rightarrow> buffer \<Rightarrow> mem_error + buffer" where
  "write_generation g buf = ghi_o 8 buf 8 g"

definition read_written_at :: "buffer \<Rightarrow> mem_error + nat" where
  "read_written_at buf = unpack_le 8 buf 16"

definition write_written_at :: "nat \<Rightarrow> buffer \<Rightarrow> mem_error + buffer" where
  "write_written_at t buf = ghi_o 8 buf 16 t"

definition read_pointer :: "buffer \<Rightarrow> mem_error + nat" where
  "read_pointer buf = sbind (get_byte buf 38) (\<lambda>b. Inr (unat b))"

definition write_pointer :: "nat \<Rightarrow> buffer \<Rightarrow> mem_error + buffer" where
  "write_pointer s buf = put_byte buf 38 s"

definition read_segments :: "buffer \<Rightarrow> mem_error + nat" where
  "read_segments buf = unpack_le 2 buf 36"

definition write_segments :: "nat \<Rightarrow> buffer \<Rightarrow> mem_error + buffer" where
  "write_segments n buf = ghi_o 2 buf 36 n"

definition read_writer :: "buffer \<Rightarrow> mem_error + nat" where
  "read_writer buf = sbind (get_byte buf 39) (\<lambda>b. Inr (unat b))"

definition write_writer :: "nat \<Rightarrow> buffer \<Rightarrow> mem_error + buffer" where
  "write_writer i buf = put_byte buf 39 i"

definition length_offset :: "nat \<Rightarrow> nat" where
  "length_offset slot = (if slot = 0 then 24 else 28)"

definition read_slot_length :: "buffer \<Rightarrow> nat \<Rightarrow> mem_error + nat" where
  "read_slot_length buf slot = unpack_le 4 buf (length_offset slot)"

definition write_slot_length :: "nat \<Rightarrow> nat \<Rightarrow> buffer \<Rightarrow> mem_error + buffer" where
  "write_slot_length slot n buf = ghi_o 4 buf (length_offset slot) n"

definition read_flags :: "buffer \<Rightarrow> mem_error + nat" where
  "read_flags buf = unpack_le 2 buf 6"

definition set_flag :: "nat \<Rightarrow> bool \<Rightarrow> buffer \<Rightarrow> mem_error + buffer" where
  "set_flag flag on buf =
     sbind (read_flags buf) (\<lambda>cur.
       let upd = (if on then cur OR flag else nat (int cur AND NOT (int flag)))
       in if upd \<noteq> cur then ghi_o 2 buf 6 upd else Inr buf)"

definition slot_offset :: "nat \<Rightarrow> nat \<Rightarrow> nat" where
  "slot_offset M slot = (if slot = 0 then slot_a_offset else slot_b_offset M)"

definition slot_view :: "nat \<Rightarrow> buffer \<Rightarrow> nat \<Rightarrow> mem_error + buffer" where
  "slot_view M buf slot = sbind (read_slot_length buf slot) (\<lambda>n. Inr (get_slice buf (slot_offset M slot) n))"

definition write_slot :: "nat \<Rightarrow> nat \<Rightarrow> buffer \<Rightarrow> buffer \<Rightarrow> mem_error + buffer" where
  "write_slot M slot payload buf = put_slice buf (slot_offset M slot) payload"

section \<open>Publishing\<close>

text \<open>The writes of one version, in the order the code makes them; \<open>now\<close> is the clock.\<close>

definition write_version :: "nat \<Rightarrow> nat \<Rightarrow> nat \<Rightarrow> buffer \<Rightarrow> buffer \<Rightarrow> mem_error + buffer \<times> nat" where
  "write_version M index now payload buf =
     sbind (read_pointer buf) (\<lambda>ptr.
       let target = 1 - ptr
       in sbind (write_slot M target payload buf) (\<lambda>buf.
          sbind (write_slot_length target (length payload) buf) (\<lambda>buf.
          sbind (write_segments 1 buf) (\<lambda>buf.
          sbind (write_written_at now buf) (\<lambda>buf.
          sbind (write_writer index buf) (\<lambda>buf.
          sbind (write_pointer target buf) (\<lambda>buf.
          sbind (read_generation buf) (\<lambda>g.
          sbind (write_generation (g + 1) buf) (\<lambda>buf.
          sbind (set_flag flag_stale False buf) (\<lambda>buf. Inr (buf, g + 1)))))))))))"

definition warn_if_nearly_full :: "nat \<Rightarrow> nat \<Rightarrow> bool \<Rightarrow> bool" where
  "warn_if_nearly_full M used warned =
     (if 4 * M \<le> 5 * used \<and> \<not> warned then True else if \<not> 4 * M \<le> 5 * used then False else warned)"

text \<open>What \<open>_write\<close> leaves in the block, the warned flag, and its result.\<close>

definition write_segs :: "nat \<Rightarrow> nat \<Rightarrow> nat \<Rightarrow> buffer list \<Rightarrow> buffer \<Rightarrow> bool \<Rightarrow> (buffer \<times> bool) \<times> ('x ref_error + nat)" where
  "write_segs M index now segs buf warned =
     (case segs of
        [payload] \<Rightarrow>
          if M < length payload
          then (case set_flag flag_stale True buf of
                  Inl e \<Rightarrow> ((buf, warned), Inl (RMem e))
                | Inr buf' \<Rightarrow> ((buf', warned), Inl (TooLarge (length payload) M)))
          else (case write_version M index now payload buf of
                  Inl e \<Rightarrow> ((buf, warned), Inl (RMem e))
                | Inr (buf', g) \<Rightarrow> ((buf', warn_if_nearly_full M (length payload) warned), Inr g))
      | _ \<Rightarrow> ((buf, warned), Inl (TooManySegments (length segs))))"

section \<open>Reading\<close>

definition max_spins :: nat where "max_spins = 100"

text \<open>
  \<open>obs t\<close> is the block at the \<open>t\<close>-th access of the reader. Copying the slot reads its bytes one
  after the other.
\<close>

definition copy_slot :: "nat \<Rightarrow> (nat \<Rightarrow> buffer) \<Rightarrow> nat \<Rightarrow> nat \<Rightarrow> nat \<Rightarrow> buffer" where
  "copy_slot M obs t slot n =
     (let start = slot_offset M slot
      in map (\<lambda>i. obs (t + i) ! (start + i)) [0..<min n (length (obs t) - start)])"

record 'v cache =
  c_value :: "'v option"
  c_generation :: nat

fun read_spins ::
  "nat \<Rightarrow> nat \<Rightarrow> (buffer list \<Rightarrow> 'x + 'v) \<Rightarrow> (nat \<Rightarrow> buffer) \<Rightarrow> nat \<Rightarrow> 'v cache \<Rightarrow> 'x ref_error + 'v option \<times> 'v cache" where
  "read_spins 0 M dec obs t c = Inl TornRead"
| "read_spins (Suc n) M dec obs t c =
     sbind (rmem (read_generation (obs t))) (\<lambda>first.
       if first = never_published then Inr (None, c)
       else if first = c_generation c then Inr (c_value c, c)
       else sbind (rmem (read_pointer (obs (t + 1)))) (\<lambda>slot.
         sbind (rmem (read_segments (obs (t + 2)))) (\<lambda>segments.
           sbind (rmem (read_slot_length (obs (t + 3)) slot)) (\<lambda>len.
             let chunk = copy_slot M obs (t + 4) slot len; t' = t + 4 + length chunk
             in sbind (rmem (read_generation (obs t'))) (\<lambda>again.
               if again \<noteq> first then read_spins n M dec obs (t' + 1) c
               else if segments \<noteq> 1 then Inl (TornSegments segments)
               else (case dec [chunk] of
                       Inl e \<Rightarrow> Inl (App e)
                     | Inr v \<Rightarrow> Inr (Some v, \<lparr>c_value = Some v, c_generation = first\<rparr>)))))))"

record ref_stats =
  st_generation :: nat
  st_served :: nat
  st_written_ms :: "int option"
  st_used :: nat
  st_limit :: nat
  st_segments :: nat
  st_writer :: "nat option"
  st_stale :: bool

text \<open>One process's handle on a table.\<close>

record 'v table =
  t_max :: nat
  t_cache :: "'v cache"
  t_warned :: bool
  t_open :: bool

definition new_table :: "nat \<Rightarrow> 'v table" where
  "new_table M = \<lparr>t_max = M, t_cache = \<lparr>c_value = None, c_generation = never_published\<rparr>, t_warned = False, t_open = True\<rparr>"

definition require_view :: "'v table \<Rightarrow> 'x ref_error + unit" where
  "require_view T = (if t_open T then Inr () else Inl RClosed)"

definition release :: "'v table \<Rightarrow> 'v table" where
  "release T = T\<lparr>t_open := False, t_cache := \<lparr>c_value = None, c_generation = never_published\<rparr>\<rparr>"

definition read_table ::
  "(buffer list \<Rightarrow> 'x + 'v) \<Rightarrow> (nat \<Rightarrow> buffer) \<Rightarrow> 'v table \<Rightarrow> 'x ref_error + 'v option \<times> 'v table" where
  "read_table dec obs T =
     sbind (require_view T) (\<lambda>_.
       sbind (read_spins max_spins (t_max T) dec obs 0 (t_cache T)) (\<lambda>(v, c). Inr (v, T\<lparr>t_cache := c\<rparr>)))"

definition read_or_fail ::
  "(buffer list \<Rightarrow> 'x + 'v) \<Rightarrow> (nat \<Rightarrow> buffer) \<Rightarrow> 'v table \<Rightarrow> 'x ref_error + 'v \<times> 'v table" where
  "read_or_fail dec obs T =
     sbind (read_table dec obs T) (\<lambda>(v, T'). case v of None \<Rightarrow> Inl NotReady | Some x \<Rightarrow> Inr (x, T'))"

definition generation :: "buffer \<Rightarrow> 'v table \<Rightarrow> 'x ref_error + nat" where
  "generation buf T = sbind (require_view T) (\<lambda>_. rmem (read_generation buf))"

text \<open>
  \<open>wait_ready\<close>: the polls until the deadline, as the blocks seen at each of them (\<open>obss\<close>); the last
  poll is the one at which the deadline has passed.
\<close>

fun wait_ready ::
  "(buffer list \<Rightarrow> 'x + 'v) \<Rightarrow> (nat \<Rightarrow> buffer) list \<Rightarrow> 'v table \<Rightarrow> 'x ref_error + 'v \<times> 'v table" where
  "wait_ready dec [] T = Inl NotReady"
| "wait_ready dec (obs # obss) T =
     sbind (read_table dec obs T) (\<lambda>(v, T').
       case v of Some x \<Rightarrow> Inr (x, T')
       | None \<Rightarrow> if obss = [] then Inl NotReady else wait_ready dec obss T')"

definition publish_value ::
  "bool \<Rightarrow> nat \<Rightarrow> nat \<Rightarrow> ('v \<Rightarrow> 'x + buffer list) \<Rightarrow> 'v \<Rightarrow> 'w table \<Rightarrow> buffer \<Rightarrow> ('w table \<times> buffer) \<times> ('x ref_error + nat)" where
  "publish_value primary index now enc v T buf =
     (if \<not> primary then ((T, buf), Inl NotWriter)
      else case enc v of
        Inl e \<Rightarrow> ((T, buf), Inl (App e))
      | Inr segs \<Rightarrow>
          if \<not> t_open T then ((T, buf), Inl RClosed)
          else (case write_segs (t_max T) index now segs buf (t_warned T) of
                  ((buf', warned), r) \<Rightarrow> ((T\<lparr>t_warned := warned\<rparr>, buf'), r)))"

definition ref_stats_of :: "nat \<Rightarrow> buffer \<Rightarrow> 'v table \<Rightarrow> 'x ref_error + ref_stats" where
  "ref_stats_of now buf T =
     sbind (require_view T) (\<lambda>_. sbind (rmem (read_generation buf)) (\<lambda>g. sbind (rmem (read_written_at buf)) (\<lambda>w.
     sbind (rmem (read_writer buf)) (\<lambda>wr. sbind (rmem (read_pointer buf)) (\<lambda>p.
     sbind (rmem (read_slot_length buf p)) (\<lambda>used. sbind (rmem (read_segments buf)) (\<lambda>s.
     sbind (rmem (read_flags buf)) (\<lambda>fl.
       Inr \<lparr>st_generation = g, st_served = c_generation (t_cache T),
            st_written_ms = (if g = never_published \<or> w = 0 then None else Some ((int now - int w) div 1000000)),
            st_used = used, st_limit = t_max T, st_segments = s,
            st_writer = (if wr = no_writer then None else Some wr), st_stale = (fl AND flag_stale \<noteq> 0)\<rparr>))))))))"

section \<open>Declaration and arena\<close>

definition is_alnum :: "char \<Rightarrow> bool" where
  "is_alnum c \<longleftrightarrow> (let n = (of_char c :: nat) in (48 \<le> n \<and> n \<le> 57) \<or> (65 \<le> n \<and> n \<le> 90) \<or> (97 \<le> n \<and> n \<le> 122))"

text \<open>The pattern \<open>^[A-Za-z0-9][A-Za-z0-9._-]*$\<close>, whose \<open>$\<close> also matches before a final line feed.\<close>

definition name_matches :: "string \<Rightarrow> bool" where
  "name_matches s \<longleftrightarrow>
     (let body = (if s \<noteq> [] \<and> last s = CHR 0x0A then butlast s else s)
      in body \<noteq> [] \<and> is_alnum (hd body) \<and> list_all (\<lambda>c. is_alnum c \<or> c \<in> set ''._-'') (tl body))"

definition validate_name :: "string \<Rightarrow> 'x ref_error + string" where
  "validate_name s = (if \<not> name_matches s \<or> 64 < length s then Inl (InvalidName s) else Inr s)"

definition validate_max_bytes :: "int \<Rightarrow> 'x ref_error + nat" where
  "validate_max_bytes v = (if v < 1 then Inl (InvalidSize v) else Inr (nat v))"

definition specs_of :: "(string \<times> nat) list \<Rightarrow> 'x ref_error + (string, nat) dict" where
  "specs_of classes =
     sfold (\<lambda>(name, size) seen.
       case dget seen name of
         Some previous \<Rightarrow> if previous \<noteq> size then Inl (TableConflict name previous size) else Inr (dset name size seen)
       | None \<Rightarrow> Inr (dset name size seen)) classes []"

text \<open>What \<open>configure_refdata\<close> looks at of a class.\<close>

record ref_class =
  rc_name :: string
  rc_refdata :: bool
  rc_abstract :: bool

definition configure_refdata :: "ref_class list \<Rightarrow> 'x ref_error + ref_class list" where
  "configure_refdata cs =
     sbind (sfold (\<lambda>c _. if \<not> rc_refdata c then Inl (NotARefData (rc_name c))
         else if rc_abstract c then Inl (NoTableName (rc_name c)) else Inr ()) cs ())
       (\<lambda>_. Inr cs)"

record 'v arena =
  ar_index :: nat
  ar_tables :: "string list"
  ar_tracked :: "(nat, 'v table) dict"
  ar_closed :: bool

definition create_arena ::
  "(nat \<Rightarrow> buffer) \<Rightarrow> (string, nat) dict \<Rightarrow> nat \<Rightarrow> 'x ref_error + 'v arena \<times> (string, buffer) dict" where
  "create_arena alloc specs index =
     sbind (smap (\<lambda>(name, M). sbind (rmem (write_ref_header M (alloc (ref_total M)))) (\<lambda>b. Inr (name, b))) specs)
       (\<lambda>blocks. Inr (\<lparr>ar_index = index, ar_tables = dkeys specs, ar_tracked = [], ar_closed = False\<rparr>, blocks))"

definition attach_arena ::
  "(string, buffer) dict \<Rightarrow> (string, nat) dict \<Rightarrow> nat \<Rightarrow> 'x ref_error + 'v arena" where
  "attach_arena blocks specs index =
     sbind (smap (\<lambda>(name, M). sbind (dindex (UnknownTable name) blocks name) (\<lambda>b. verify_ref_header M b)) specs)
       (\<lambda>_. Inr \<lparr>ar_index = index, ar_tables = dkeys specs, ar_tracked = [], ar_closed = False\<rparr>)"

definition open_table :: "nat \<Rightarrow> string \<Rightarrow> nat \<Rightarrow> 'v arena \<Rightarrow> 'x ref_error + 'v arena" where
  "open_table ref name M A =
     (if name \<notin> set (ar_tables A) then Inl (UnknownTable name)
      else Inr (A\<lparr>ar_tracked := dset ref (new_table M) (ar_tracked A)\<rparr>))"

text \<open>Closing releases every table still tracked; \<open>refs\<close> gives the handles the program keeps.\<close>

definition close_arena :: "'v arena \<Rightarrow> 'v arena \<times> (nat, 'v table) dict" where
  "close_arena A =
     (if ar_closed A then (A, [])
      else (A\<lparr>ar_closed := True, ar_tracked := [], ar_tables := []\<rparr>, map (\<lambda>(r, T). (r, release T)) (ar_tracked A)))"

section \<open>The fields of a block\<close>

lemma ref_fields_apart: "l \<noteq> l' \<Longrightarrow> apart (ref_off M l) (ref_sz M l) (ref_off M l') (ref_sz M l')"
  by (cases l; cases l') (simp_all add: apart_def slot_a_offset_def slot_b_offset_def header_bytes_def)

lemma ref_fields_inside: "ref_off M l + ref_sz M l \<le> ref_total M"
  by (cases l) (simp_all add: ref_total_def slot_a_offset_def slot_b_offset_def header_bytes_def)

interpretation ref: placed "ref_off M" "ref_sz M" "ref_total M" for M
  by unfold_locales (simp_all add: ref_fields_apart ref_fields_inside)

definition ref_mem :: "nat \<Rightarrow> buffer \<Rightarrow> bool" where
  "ref_mem M buf \<longleftrightarrow> ref_total M \<le> length buf"

abbreviation rf :: "nat \<Rightarrow> buffer \<Rightarrow> ref_field \<Rightarrow> buffer" where
  "rf M \<equiv> fields_of (ref_off M) (ref_sz M)"

definition rnum :: "nat \<Rightarrow> buffer \<Rightarrow> ref_field \<Rightarrow> nat" where
  "rnum M buf l = le_value (rf M buf l)"

definition rput :: "nat \<Rightarrow> ref_field \<Rightarrow> buffer \<Rightarrow> buffer \<Rightarrow> buffer" where
  "rput M l bs buf = blit (ref_off M l) bs buf"

lemma length_rf [simp]: "ref_mem M buf \<Longrightarrow> length (rf M buf l) = ref_sz M l"
  unfolding ref_mem_def by (rule ref.length_field)

lemma rf_rput [simp]:
  "ref_mem M buf \<Longrightarrow> length bs = ref_sz M l \<Longrightarrow> rf M (rput M l bs buf) = (rf M buf)(l := bs)"
  unfolding ref_mem_def rput_def by (rule ref.fields_put)

lemma ref_mem_rput [simp]: "ref_mem M buf \<Longrightarrow> length bs = ref_sz M l \<Longrightarrow> ref_mem M (rput M l bs buf)"
  using ref.length_put [of M buf bs l] by (simp add: ref_mem_def rput_def)

lemma rnum_rput [simp]:
  "ref_mem M buf \<Longrightarrow> length bs = ref_sz M l \<Longrightarrow>
     rnum M (rput M l bs buf) l' = (if l' = l then le_value bs else rnum M buf l')"
  by (simp add: rnum_def)

definition slot_field :: "nat \<Rightarrow> ref_field" where
  "slot_field slot = (if slot = 0 then RSlotA else RSlotB)"

definition length_field_of :: "nat \<Rightarrow> ref_field" where
  "length_field_of slot = (if slot = 0 then RLengthA else RLengthB)"

lemma slot_offset_field: "slot_offset M slot = ref_off M (slot_field slot)"
  by (simp add: slot_offset_def slot_field_def)

lemma length_offset_field: "length_offset slot = ref_off M (length_field_of slot)"
  by (simp add: length_offset_def length_field_of_def)

lemma ref_sz_slot [simp]: "ref_sz M (slot_field slot) = M" "ref_sz M (length_field_of slot) = 4"
  by (simp_all add: slot_field_def length_field_of_def)

lemma ref_reads:
  assumes "ref_mem M buf"
  shows "read_generation buf = Inr (rnum M buf RGeneration)" "read_written_at buf = Inr (rnum M buf RWritten)"
    "read_pointer buf = Inr (rnum M buf RPointer)" "read_segments buf = Inr (rnum M buf RSegments)"
    "read_writer buf = Inr (rnum M buf RWriter)" "read_slot_length buf slot = Inr (rnum M buf (length_field_of slot))"
    "read_flags buf = Inr (rnum M buf RFlags)"
  using assms ref.unpack_field [of M buf 8 RGeneration] ref.unpack_field [of M buf 8 RWritten]
    ref.unpack_field [of M buf 2 RSegments] ref.unpack_field [of M buf 2 RFlags]
    ref.unpack_field [of M buf 4 "length_field_of slot"] ref.byte_field [of M buf RPointer] ref.byte_field [of M buf RWriter]
    length_offset_field [of slot M]
  by (simp_all add: ref_mem_def rnum_def read_generation_def read_written_at_def read_pointer_def read_segments_def
      read_writer_def read_slot_length_def read_flags_def)

lemma ref_writes:
  assumes "ref_mem M buf"
  shows "v < 256 ^ 8 \<Longrightarrow> write_generation v buf = Inr (rput M RGeneration (le_bytes 8 v) buf)"
    "v < 256 ^ 8 \<Longrightarrow> write_written_at v buf = Inr (rput M RWritten (le_bytes 8 v) buf)"
    "v < 256 \<Longrightarrow> write_pointer v buf = Inr (rput M RPointer (le_bytes 1 v) buf)"
    "v < 256 ^ 2 \<Longrightarrow> write_segments v buf = Inr (rput M RSegments (le_bytes 2 v) buf)"
    "v < 256 \<Longrightarrow> write_writer v buf = Inr (rput M RWriter (le_bytes 1 v) buf)"
    "v < 256 ^ 4 \<Longrightarrow> write_slot_length slot v buf = Inr (rput M (length_field_of slot) (le_bytes 4 v) buf)"
proof -
  note m = assms [unfolded ref_mem_def]
  show "v < 256 ^ 8 \<Longrightarrow> write_generation v buf = Inr (rput M RGeneration (le_bytes 8 v) buf)"
    using ref.ghi_o_field [OF m, of v RGeneration 8] unfolding write_generation_def rput_def ref_off.simps ref_sz.simps by blast
  show "v < 256 ^ 8 \<Longrightarrow> write_written_at v buf = Inr (rput M RWritten (le_bytes 8 v) buf)"
    using ref.ghi_o_field [OF m, of v RWritten 8] unfolding write_written_at_def rput_def ref_off.simps ref_sz.simps by blast
  show "v < 256 \<Longrightarrow> write_pointer v buf = Inr (rput M RPointer (le_bytes 1 v) buf)"
    using ref.byte_field(3) [OF m, of RPointer v] by (simp add: write_pointer_def rput_def)
  show "v < 256 ^ 2 \<Longrightarrow> write_segments v buf = Inr (rput M RSegments (le_bytes 2 v) buf)"
    using ref.ghi_o_field [OF m, of v RSegments 2] unfolding write_segments_def rput_def ref_off.simps ref_sz.simps by blast
  show "v < 256 \<Longrightarrow> write_writer v buf = Inr (rput M RWriter (le_bytes 1 v) buf)"
    using ref.byte_field(3) [OF m, of RWriter v] by (simp add: write_writer_def rput_def)
  show "v < 256 ^ 4 \<Longrightarrow> write_slot_length slot v buf = Inr (rput M (length_field_of slot) (le_bytes 4 v) buf)"
    using ref.ghi_o_field [OF m, of v "length_field_of slot" 4]
    unfolding write_slot_length_def rput_def length_offset_field [of slot M] ref_sz_slot by blast
qed

end
