(* ===== verification/RefData_Safety.thy ===== *)
theory RefData_Safety
  imports RefData
begin

text \<open>
  Readers against the writer: a publication is a sequence of small writes (the slot byte by byte), the
  reader's accesses fall anywhere between them, and what a read returns is still a version that was
  published whole. \<open>writer\<close> is the block, the writes still to come and the log of the versions begun.
\<close>

section \<open>The writes of a publication\<close>

datatype ref_write =
    PutByte nat nat byte
  | PutLength nat nat
  | PutSegments nat
  | PutWritten nat
  | PutWriter nat
  | PutPointer nat
  | PutGeneration nat
  | PutFlag bool

fun apply_write :: "nat \<Rightarrow> ref_write \<Rightarrow> buffer \<Rightarrow> mem_error + buffer" where
  "apply_write M (PutByte slot i b) buf = put_slice buf (slot_offset M slot + i) [b]"
| "apply_write M (PutLength slot n) buf = write_slot_length slot n buf"
| "apply_write M (PutSegments n) buf = write_segments n buf"
| "apply_write M (PutWritten t) buf = write_written_at t buf"
| "apply_write M (PutWriter i) buf = write_writer i buf"
| "apply_write M (PutPointer s) buf = write_pointer s buf"
| "apply_write M (PutGeneration g) buf = write_generation g buf"
| "apply_write M (PutFlag on) buf = set_flag flag_stale on buf"

definition slot_writes :: "nat \<Rightarrow> buffer \<Rightarrow> ref_write list" where
  "slot_writes slot payload = map (\<lambda>(i, b). PutByte slot i b) (enumerate 0 payload)"

definition version_writes :: "nat \<Rightarrow> nat \<Rightarrow> nat \<Rightarrow> nat \<Rightarrow> buffer \<Rightarrow> ref_write list" where
  "version_writes index now target g payload =
     slot_writes target payload @ [PutLength target (length payload), PutSegments 1, PutWritten now, PutWriter index,
       PutPointer target, PutGeneration g, PutFlag False]"

fun write_ok :: "nat \<Rightarrow> ref_write \<Rightarrow> bool" where
  "write_ok M (PutByte slot i b) \<longleftrightarrow> i < M"
| "write_ok M (PutLength slot n) \<longleftrightarrow> n < 256 ^ 4"
| "write_ok M (PutSegments n) \<longleftrightarrow> n < 256 ^ 2"
| "write_ok M (PutWritten t) \<longleftrightarrow> t < 256 ^ 8"
| "write_ok M (PutWriter i) \<longleftrightarrow> i < 256"
| "write_ok M (PutPointer s) \<longleftrightarrow> s < 256"
| "write_ok M (PutGeneration g) \<longleftrightarrow> g < 256 ^ 8"
| "write_ok M (PutFlag on) \<longleftrightarrow> True"

text \<open>What a write does to the fields; the flags are not looked at.\<close>

fun write_field :: "ref_write \<Rightarrow> ref_field" where
  "write_field (PutByte slot i b) = slot_field slot"
| "write_field (PutLength slot n) = length_field_of slot"
| "write_field (PutSegments n) = RSegments"
| "write_field (PutWritten t) = RWritten"
| "write_field (PutWriter i) = RWriter"
| "write_field (PutPointer s) = RPointer"
| "write_field (PutGeneration g) = RGeneration"
| "write_field (PutFlag on) = RFlags"

fun write_value :: "ref_write \<Rightarrow> buffer \<Rightarrow> buffer" where
  "write_value (PutByte slot i b) old = old[i := b]"
| "write_value (PutLength slot n) old = le_bytes 4 n"
| "write_value (PutSegments n) old = le_bytes 2 n"
| "write_value (PutWritten t) old = le_bytes 8 t"
| "write_value (PutWriter i) old = le_bytes 1 i"
| "write_value (PutPointer s) old = le_bytes 1 s"
| "write_value (PutGeneration g) old = le_bytes 8 g"
| "write_value (PutFlag on) old = (let cur = le_value old in
     le_bytes 2 (if on then cur OR flag_stale else nat (int cur AND NOT (int flag_stale))))"

definition upd :: "ref_write \<Rightarrow> (ref_field \<Rightarrow> buffer) \<Rightarrow> ref_field \<Rightarrow> buffer" where
  "upd w f = f(write_field w := write_value w (f (write_field w)))"

lemma flag_less:
  assumes "cur < 256 ^ 2"
  shows "cur OR flag_stale < 256 ^ 2" and "nat (int cur AND NOT (int flag_stale)) < 256 ^ 2"
proof -
  have "take_bit 16 (cur OR flag_stale) = cur OR flag_stale"
    using assms by (simp add: flag_stale_def take_bit_or take_bit_nat_eq_self)
  then have "cur OR flag_stale < 2 ^ 16" by (metis take_bit_nat_less_exp)
  then show "cur OR flag_stale < 256 ^ 2" by simp
  have "int cur AND NOT (int flag_stale) \<le> int cur" by (simp add: AND_upper1)
  then show "nat (int cur AND NOT (int flag_stale)) < 256 ^ 2" using assms by linarith
qed

lemma set_flag_field:
  assumes "ref_mem M buf"
  shows "set_flag flag_stale on buf = Inr (rput M RFlags (write_value (PutFlag on) (rf M buf RFlags)) buf)"
proof -
  define cur where "cur = rnum M buf RFlags"
  define new where "new = (if on then cur OR flag_stale else nat (int cur AND NOT (int flag_stale)))"
  have len: "length (rf M buf RFlags) = 2" using assms by simp
  have lt: "cur < 256 ^ 2" using le_value_less [of "rf M buf RFlags"] len by (simp add: cur_def rnum_def)
  have val: "write_value (PutFlag on) (rf M buf RFlags) = le_bytes 2 new"
    unfolding write_value.simps Let_def new_def cur_def rnum_def ..
  have rd: "read_flags buf = Inr cur" using ref_reads(7) [OF assms] by (simp add: cur_def)
  show ?thesis
  proof (cases "new = cur")
    case True
    have "le_bytes 2 new = rf M buf RFlags"
      using True le_bytes_value [of "rf M buf RFlags"] len by (simp add: cur_def rnum_def)
    moreover have "rput M RFlags (rf M buf RFlags) buf = buf"
      unfolding rput_def fields_of_def
      by (rule blit_get_slice, rule ref.inside, rule assms [unfolded ref_mem_def])
    ultimately show ?thesis using True rd unfolding val by (simp add: set_flag_def new_def [symmetric])
  next
    case False
    have "new < 256 ^ 2" using flag_less [OF lt] by (simp add: new_def)
    then have "ghi_o 2 buf 6 new = Inr (rput M RFlags (le_bytes 2 new) buf)"
      using ref.ghi_o_field [OF assms [unfolded ref_mem_def], of new RFlags 2]
      unfolding rput_def ref_off.simps ref_sz.simps by blast
    then show ?thesis using False rd unfolding val by (simp add: set_flag_def new_def [symmetric])
  qed
qed

lemma put_byte_in_field:
  assumes "ref_mem M buf" and "i < M"
  shows "put_slice buf (slot_offset M slot + i) [b] = Inr (rput M (slot_field slot) ((rf M buf (slot_field slot))[i := b]) buf)"
proof -
  let ?o = "ref_off M (slot_field slot)"
  have inl: "?o + M \<le> length buf" using ref.inside [of M buf "slot_field slot"] assms(1) by (simp add: ref_mem_def)
  have "blit (?o + i) [b] buf = blit ?o ((get_slice buf ?o M)[i := b]) buf"
  proof (rule nth_equalityI)
    fix k assume k: "k < length (blit (?o + i) [b] buf)"
    then have "k < length buf" using inl assms(2) by simp
    then show "blit (?o + i) [b] buf ! k = blit ?o ((get_slice buf ?o M)[i := b]) buf ! k"
      using inl assms(2) by (auto simp: nth_blit nth_list_update nth_get_slice)
  qed (use inl assms(2) in simp)
  then show ?thesis
    using put_slice_blit [of "?o + i" "[b]" buf] inl assms(2) by (simp add: slot_offset_field rput_def fields_of_def)
qed

lemma apply_write_ok:
  assumes "ref_mem M buf" and "write_ok M w"
  shows "\<exists>buf'. apply_write M w buf = Inr buf' \<and> ref_mem M buf' \<and> rf M buf' = upd w (rf M buf)"
proof -
  have len: "length (write_value w (rf M buf (write_field w))) = ref_sz M (write_field w)"
    using assms by (cases w) (simp_all add: Let_def)
  have "apply_write M w buf = Inr (rput M (write_field w) (write_value w (rf M buf (write_field w))) buf)"
  proof (cases w)
    case (PutByte slot i b)
    then show ?thesis using put_byte_in_field [OF assms(1)] assms(2) by simp
  next
    case (PutFlag on)
    then show ?thesis using set_flag_field [OF assms(1)] by simp
  qed (use assms ref_writes [OF assms(1)] in simp_all)
  then show ?thesis using assms(1) len by (simp add: upd_def)
qed

lemma apply_writes_ok:
  assumes "ref_mem M buf" and "list_all (write_ok M) ws"
  shows "\<exists>buf'. sfold (apply_write M) ws buf = Inr buf' \<and> ref_mem M buf' \<and> rf M buf' = fold upd ws (rf M buf)"
  using assms
proof (induction ws arbitrary: buf)
  case (Cons w ws)
  then obtain b1 where "apply_write M w buf = Inr b1" "ref_mem M b1" "rf M b1 = upd w (rf M buf)"
    using apply_write_ok [of M buf w] by auto
  with Cons.IH [of b1] Cons.prems(2) show ?case by auto
qed simp

lemma blit_blit_byte:
  assumes "off + Suc (length p) \<le> length buf"
  shows "blit (Suc off) p (blit off [b] buf) = blit off (b # p) buf"
  by (rule nth_equalityI) (use assms in \<open>auto simp: nth_blit nth_Cons' not_le less_Suc_eq_le\<close>)

lemma slot_writes_blit:
  assumes "slot_offset M slot + k + length p \<le> length buf"
  shows "sfold (apply_write M) (map (\<lambda>(i, b). PutByte slot i b) (enumerate k p)) buf =
    Inr (blit (slot_offset M slot + k) p buf)"
  using assms
proof (induction p arbitrary: k buf)
  case Nil
  then show ?case by (simp add: blit_def)
next
  case (Cons b p)
  let ?o = "slot_offset M slot + k"
  have "put_slice buf ?o [b] = Inr (blit ?o [b] buf)" using put_slice_blit [of ?o "[b]" buf] Cons.prems by simp
  moreover have "sfold (apply_write M) (map (\<lambda>(i, b). PutByte slot i b) (enumerate (Suc k) p)) (blit ?o [b] buf) =
      Inr (blit (Suc ?o) p (blit ?o [b] buf))"
    using Cons.IH [of "Suc k" "blit ?o [b] buf"] Cons.prems by simp
  moreover have "blit (Suc ?o) p (blit ?o [b] buf) = blit ?o (b # p) buf"
    by (rule blit_blit_byte) (use Cons.prems in simp)
  ultimately show ?case by simp
qed

text \<open>The code's \<open>_write\<close> is the sequence of the small writes.\<close>

lemma write_version_writes:
  assumes "ref_mem M buf" and "length payload \<le> M" and "M < 256 ^ 4" and "now < 256 ^ 8" and "index < 256"
  shows "write_version M index now payload buf =
    sbind (sfold (apply_write M) (version_writes index now (1 - rnum M buf RPointer) (rnum M buf RGeneration + 1) payload) buf)
      (\<lambda>b. Inr (b, rnum M buf RGeneration + 1))"
proof -
  define t where "t = 1 - rnum M buf RPointer"
  define g where "g = rnum M buf RGeneration"
  have inl: "slot_offset M t + length payload \<le> length buf"
    using ref.inside [of M buf "slot_field t"] assms by (simp add: ref_mem_def slot_offset_field)
  define b1 where "b1 = blit (slot_offset M t) payload buf"
  have w1: "write_slot M t payload buf = Inr b1" unfolding write_slot_def b1_def by (rule put_slice_blit [OF inl])
  have s1: "sfold (apply_write M) (slot_writes t payload) buf = Inr b1"
    using slot_writes_blit [of M t 0 payload buf] inl by (simp add: slot_writes_def b1_def)
  define ws where "ws = [PutLength t (length payload), PutSegments 1, PutWritten now, PutWriter index, PutPointer t]"
  have rp: "read_pointer buf = Inr (rnum M buf RPointer)" using ref_reads [OF assms(1)] by simp
  have ok: "list_all (write_ok M) (slot_writes t payload)" "list_all (write_ok M) ws"
    using assms(2-5) by (auto simp: slot_writes_def list_all_iff in_set_enumerate_eq ws_def t_def)
  have b1: "ref_mem M b1" "rf M b1 = fold upd (slot_writes t payload) (rf M buf)"
    using apply_writes_ok [OF assms(1) ok(1)] s1 by auto
  obtain b2 where b2: "sfold (apply_write M) ws b1 = Inr b2" "ref_mem M b2" "rf M b2 = fold upd ws (rf M b1)"
    using apply_writes_ok [OF b1(1) ok(2)] by blast
  have keep: "fold upd xs f RGeneration = f RGeneration" if "\<forall>w \<in> set xs. write_field w \<noteq> RGeneration" for xs f
    using that by (induction xs arbitrary: f) (auto simp: upd_def)
  have k1: "\<forall>w \<in> set ws. write_field w \<noteq> RGeneration" by (simp add: ws_def length_field_of_def)
  have k2: "\<forall>w \<in> set (slot_writes t payload). write_field w \<noteq> RGeneration"
    by (auto simp: slot_writes_def slot_field_def split: if_splits)
  have "rf M b2 RGeneration = rf M buf RGeneration"
    unfolding b2(3) b1(2) keep [OF k1] keep [OF k2] ..
  then have rg: "read_generation b2 = Inr g" using ref_reads(1) [OF b2(2)] by (simp add: rnum_def g_def)
  define fin where "fin = (\<lambda>b. sbind (write_generation (g + 1) b) (\<lambda>b. sbind (set_flag flag_stale False b) (\<lambda>b. Inr (b, g + 1))))"
  have code: "write_version M index now payload buf = sbind (sfold (apply_write M) ws b1) (\<lambda>b. sbind (read_generation b)
      (\<lambda>g. sbind (write_generation (g + 1) b) (\<lambda>b. sbind (set_flag flag_stale False b) (\<lambda>b. Inr (b, g + 1)))))"
    unfolding write_version_def rp sbind_simps t_def [symmetric] Let_def w1 ws_def
    by (simp add: sbind_def split: sum.splits)
  have "sfold (apply_write M) (version_writes index now t (g + 1) payload) buf =
      sbind (sfold (apply_write M) ws b1) (\<lambda>b. sbind (write_generation (g + 1) b) (set_flag flag_stale False))"
    unfolding version_writes_def sfold_append s1 sbind_simps ws_def
    by (simp add: sbind_def split: sum.splits)
  then show ?thesis
    unfolding code b2(1) sbind_simps rg t_def [symmetric] g_def [symmetric]
    by (simp add: sbind_def split: sum.splits)
qed

section \<open>A writer and what it leaves at any moment\<close>

record writer =
  w_mem :: buffer
  w_todo :: "ref_write list"
  w_log :: "buffer list"

inductive wstep :: "nat \<Rightarrow> nat \<Rightarrow> writer \<Rightarrow> writer \<Rightarrow> bool" for M index where
  Begin: "w_todo s = [] \<Longrightarrow> length payload \<le> M \<Longrightarrow> now < 256 ^ 8 \<Longrightarrow>
    read_pointer (w_mem s) = Inr p \<Longrightarrow> read_generation (w_mem s) = Inr g \<Longrightarrow> g + 1 < 256 ^ 8 \<Longrightarrow>
    wstep M index s (s\<lparr>w_todo := version_writes index now (1 - p) (g + 1) payload, w_log := w_log s @ [payload]\<rparr>)"
| Oversize: "w_todo s = [] \<Longrightarrow> wstep M index s (s\<lparr>w_todo := [PutFlag True]\<rparr>)"
| Write: "w_todo s = w # ws \<Longrightarrow> apply_write M w (w_mem s) = Inr mem' \<Longrightarrow>
    wstep M index s (s\<lparr>w_mem := mem', w_todo := ws\<rparr>)"

definition holds :: "(ref_field \<Rightarrow> buffer) \<Rightarrow> nat \<Rightarrow> buffer \<Rightarrow> bool" where
  "holds f slot p \<longleftrightarrow> le_value (f (length_field_of slot)) = length p \<and> take (length p) (f (slot_field slot)) = p"

text \<open>
  With \<open>j\<close> versions complete, the slot \<open>j mod 2\<close> holds the last of them; a publication under way fills the
  other slot, and has moved the pointer only when that slot is whole.
\<close>

definition idle :: "nat \<Rightarrow> ref_write list \<Rightarrow> buffer list \<Rightarrow> (ref_field \<Rightarrow> buffer) \<Rightarrow> bool" where
  "idle j todo log f \<longleftrightarrow> length log = j \<and> (\<forall>w \<in> set todo. write_field w = RFlags) \<and> le_value (f RPointer) = j mod 2"

definition busy :: "nat \<Rightarrow> nat \<Rightarrow> nat \<Rightarrow> ref_write list \<Rightarrow> buffer list \<Rightarrow> (ref_field \<Rightarrow> buffer) \<Rightarrow> bool" where
  "busy M index j todo log f \<longleftrightarrow> length log = Suc j \<and>
     (let p = log ! j; n = length p; t = Suc j mod 2 in
      n \<le> M \<and> (\<exists>now k. k \<le> n + 5 \<and> todo = drop k (version_writes index now t (Suc j) p) \<and>
        take (min k n) (f (slot_field t)) = take (min k n) p \<and>
        (n < k \<longrightarrow> le_value (f (length_field_of t)) = n) \<and>
        (Suc n < k \<longrightarrow> le_value (f RSegments) = 1) \<and>
        le_value (f RPointer) = (if k \<le> n + 4 then j mod 2 else t)))"

definition current_ok :: "nat \<Rightarrow> buffer list \<Rightarrow> (ref_field \<Rightarrow> buffer) \<Rightarrow> bool" where
  "current_ok j log f \<longleftrightarrow> le_value (f RGeneration) = j \<and> j \<le> length log \<and>
     (0 < j \<longrightarrow> le_value (f RSegments) = 1 \<and> holds f (j mod 2) (log ! (j - 1)))"

definition winv :: "nat \<Rightarrow> nat \<Rightarrow> writer \<Rightarrow> bool" where
  "winv M index s \<longleftrightarrow> M < 256 ^ 4 \<and> index < 256 \<and> ref_mem M (w_mem s) \<and> list_all (write_ok M) (w_todo s) \<and>
     (\<exists>j. current_ok j (w_log s) (rf M (w_mem s)) \<and>
        (idle j (w_todo s) (w_log s) (rf M (w_mem s)) \<or> busy M index j (w_todo s) (w_log s) (rf M (w_mem s))))"

lemma upd_simps [simp]:
  "upd w f l = (if l = write_field w then write_value w (f l) else f l)"
  by (simp add: upd_def)

lemma slot_field_neq [simp]:
  "slot_field (j mod 2) \<noteq> slot_field (Suc j mod 2)" "slot_field (Suc j mod 2) \<noteq> slot_field (j mod 2)"
  "length_field_of (j mod 2) \<noteq> length_field_of (Suc j mod 2)" "length_field_of (Suc j mod 2) \<noteq> length_field_of (j mod 2)"
  by (cases "even j"; simp add: slot_field_def length_field_of_def mod_Suc even_iff_mod_2_eq_zero odd_iff_mod_2_eq_one)+

lemma slot_field_kind [simp]:
  "slot_field s \<noteq> RGeneration" "slot_field s \<noteq> RSegments" "slot_field s \<noteq> RPointer" "slot_field s \<noteq> length_field_of s'"
  "slot_field s \<noteq> RWritten" "slot_field s \<noteq> RWriter" "slot_field s \<noteq> RFlags"
  "length_field_of s \<noteq> RGeneration" "length_field_of s \<noteq> RSegments" "length_field_of s \<noteq> RPointer" "length_field_of s \<noteq> slot_field s'"
  "length_field_of s \<noteq> RWritten" "length_field_of s \<noteq> RWriter" "length_field_of s \<noteq> RFlags"
  by (simp_all add: slot_field_def length_field_of_def)

lemmas slot_field_kind_sym [simp] = slot_field_kind [symmetric]

lemma length_version_writes [simp]: "length (version_writes index now t g p) = length p + 7"
  by (simp add: version_writes_def slot_writes_def)

lemma nth_version_writes:
  assumes "k < length p + 7"
  shows "version_writes index now t g p ! k = (let n = length p in
    if k < n then PutByte t k (p ! k) else if k = n then PutLength t n else if k = n + 1 then PutSegments 1
    else if k = n + 2 then PutWritten now else if k = n + 3 then PutWriter index
    else if k = n + 4 then PutPointer t else if k = n + 5 then PutGeneration g else PutFlag False)"
proof (cases "k < length p")
  case True
  then show ?thesis by (simp add: version_writes_def nth_append slot_writes_def nth_enumerate_eq Let_def)
next
  case False
  then obtain d where d: "k = length p + d" "d < 7" using assms by (metis add_less_cancel_left le_add_diff_inverse not_le)
  from d(2) have "d \<in> {0, 1, 2, 3, 4, 5, 6}" by (simp only: insert_iff empty_iff) linarith
  then show ?thesis using d(1) by (auto simp: version_writes_def nth_append slot_writes_def Let_def)
qed

lemma current_ok_other:
  assumes "current_ok j log f" and "f' = upd w f"
    and "\<forall>l \<in> {RGeneration, slot_field (j mod 2), length_field_of (j mod 2)}. write_field w \<noteq> l"
    and "write_field w = RSegments \<longrightarrow> write_value w (f RSegments) = le_bytes 2 1"
  shows "current_ok j log f'"
  using assms by (auto simp: current_ok_def holds_def)

lemma take_list_update_extend:
  assumes "k < n" and "n = length p" and "take k xs = take k p" and "n \<le> length xs"
  shows "take (Suc k) (xs[k := p ! k]) = take (Suc k) p"
  using assms by (simp add: take_Suc_conv_app_nth)

lemma busy_write:
  assumes "current_ok j log f" and "busy M index j (w # ws) log f" and "f' = upd w f" and "write_ok M w"
    and "length (f (slot_field (Suc j mod 2))) = M" and "M < 256 ^ 4"
  shows "(current_ok j log f' \<and> busy M index j ws log f') \<or> (current_ok (Suc j) log f' \<and> idle (Suc j) ws log f')"
proof -
  define p where "p = log ! j"
  define n where "n = length p"
  define t where "t = Suc j mod 2"
  obtain now k where log: "length log = Suc j" and nM: "n \<le> M" and k: "k \<le> n + 5"
    and todo: "w # ws = drop k (version_writes index now t (Suc j) p)"
    and part: "take (min k n) (f (slot_field t)) = take (min k n) p"
    and len: "n < k \<Longrightarrow> le_value (f (length_field_of t)) = n"
    and seg: "Suc n < k \<Longrightarrow> le_value (f RSegments) = 1"
    and ptr: "le_value (f RPointer) = (if k \<le> n + 4 then j mod 2 else t)"
    using assms(2) unfolding busy_def Let_def p_def [symmetric] n_def [symmetric] t_def [symmetric] by blast
  define V where "V = version_writes index now t (Suc j) p"
  have w: "w = V ! k" and ws: "ws = drop (Suc k) V" using todo k n_def
    by (auto simp: V_def [symmetric] hd_drop_conv_nth [symmetric] drop_Suc tl_drop dest: arg_cong [of _ _ hd] arg_cong [of _ _ tl])
      (metis V_def drop_eq_Nil hd_drop_conv_nth length_version_writes list.sel(1) list.simps(3) not_le)
  have wk: "w = (if k < n then PutByte t k (p ! k) else if k = n then PutLength t n else if k = n + 1 then PutSegments 1
    else if k = n + 2 then PutWritten now else if k = n + 3 then PutWriter index
    else if k = n + 4 then PutPointer t else PutGeneration (Suc j))"
    using nth_version_writes [of k p index now t "Suc j"] k unfolding w V_def Let_def n_def by simp
  have n4: "n < 256 ^ 4" using nM assms(6) by simp
  show ?thesis
  proof (cases "k = n + 5")
    case True
    then have wg: "w = PutGeneration (Suc j)" using wk by simp
    with assms(4) have "Suc j < 256 ^ 8" by simp
    then have gen: "le_value (f' RGeneration) = Suc j" using assms(3) wg by simp
    have "holds f' t p" using part len True assms(3) wg by (simp add: holds_def n_def)
    then have "current_ok (Suc j) log f'"
      using gen seg True assms(3) wg log by (simp add: current_ok_def t_def p_def)
    moreover have "ws = [PutFlag False]"
      unfolding ws True V_def n_def by (simp add: version_writes_def slot_writes_def)
    then have "idle (Suc j) ws log f'" using log ptr True assms(3) wg by (simp add: idle_def t_def)
    ultimately show ?thesis by blast
  next
    case False
    then have k4: "k \<le> n + 4" using k by simp
    have cur: "current_ok j log f'"
      by (rule current_ok_other [OF assms(1,3)]) (use wk k4 in \<open>auto simp: t_def split: if_splits\<close>)
    have part': "take (min (Suc k) n) (f' (slot_field t)) = take (min (Suc k) n) p"
    proof (cases "k < n")
      case True
      have "take (Suc k) ((f (slot_field t))[k := p ! k]) = take (Suc k) p"
        by (rule take_list_update_extend [OF True n_def])
          (use part True nM assms(5) in \<open>simp_all add: t_def\<close>)
      then show ?thesis using True wk assms(3) by simp
    next
      case False
      then have "f' (slot_field t) = f (slot_field t)" using wk k4 assms(3) by (auto split: if_splits)
      then show ?thesis using part False by (simp add: min_def split: if_splits)
    qed
    have len': "le_value (f' (length_field_of t)) = n" if "n < Suc k"
      using that len n4 wk k4 assms(3) by (cases "k = n") auto
    have seg': "le_value (f' RSegments) = 1" if "Suc n < Suc k"
      using that seg wk k4 assms(3) by (cases "k = Suc n") auto
    have ptr': "le_value (f' RPointer) = (if Suc k \<le> n + 4 then j mod 2 else t)"
    proof (cases "k = n + 4")
      case True
      then show ?thesis using wk assms(3) by (simp add: t_def)
    next
      case False
      then show ?thesis using ptr wk k4 assms(3) by auto
    qed
    have "busy M index j ws log f'"
      unfolding busy_def Let_def p_def [symmetric] n_def [symmetric] t_def [symmetric]
      using log nM k4 ws part' len' seg' ptr' unfolding V_def by (intro conjI exI [of _ now] exI [of _ "Suc k"]) simp_all
    with cur show ?thesis by blast
  qed
qed

lemma idle_write:
  assumes "current_ok j log f" and "idle j (w # ws) log f"
  shows "current_ok j log (upd w f) \<and> idle j ws log (upd w f)"
proof -
  have w: "write_field w = RFlags" using assms(2) by (simp add: idle_def)
  show ?thesis
    using current_ok_other [OF assms(1) refl, of w] assms(2) w by (auto simp: idle_def)
qed

lemma current_ok_log: "current_ok j log f \<Longrightarrow> current_ok j (log @ ps) f"
  by (auto simp: current_ok_def nth_append)

lemma version_writes_ok:
  assumes "length p \<le> M" and "M < 256 ^ 4" and "now < 256 ^ 8" and "index < 256" and "t < 2" and "g < 256 ^ 8"
  shows "list_all (write_ok M) (version_writes index now t g p)"
  using assms by (auto simp: version_writes_def slot_writes_def list_all_iff in_set_enumerate_eq)

lemma wstep_inv:
  assumes "wstep M index s s'" and "winv M index s"
  shows "winv M index s'"
  using assms(1)
proof cases
  case (Begin payload now p g)
  obtain j where lim: "M < 256 ^ 4" "index < 256" "ref_mem M (w_mem s)"
    and cur: "current_ok j (w_log s) (rf M (w_mem s))" and ib: "idle j [] (w_log s) (rf M (w_mem s)) \<or> busy M index j [] (w_log s) (rf M (w_mem s))"
    using assms(2) Begin(2) unfolding winv_def by auto
  have "\<not> busy M index j [] (w_log s) (rf M (w_mem s))"
    by (auto simp: busy_def Let_def)
  with ib have id: "idle j [] (w_log s) (rf M (w_mem s))" by blast
  have p: "p = j mod 2" "g = j"
    using Begin(5,6) ref_reads [OF lim(3)] id cur by (simp_all add: idle_def current_ok_def rnum_def)
  have t: "1 - p = Suc j mod 2" unfolding p(1) by (simp add: mod_Suc) 
  have "busy M index j (w_todo s') (w_log s') (rf M (w_mem s'))"
    using id Begin(1,3) t p(2)
    unfolding busy_def Let_def
    by (intro conjI exI [of _ now] exI [of _ 0]) (auto simp: idle_def nth_append)
  moreover have "list_all (write_ok M) (w_todo s')"
    using version_writes_ok [OF Begin(3) lim(1) Begin(4) lim(2), of "1 - p" "g + 1"] Begin(1,7) t by simp
  ultimately show ?thesis
    using lim cur current_ok_log [OF cur, of "[payload]"] Begin(1) unfolding winv_def by auto
next
  case Oversize
  obtain j where lim: "M < 256 ^ 4" "index < 256" "ref_mem M (w_mem s)"
    and cur: "current_ok j (w_log s) (rf M (w_mem s))" and ib: "idle j [] (w_log s) (rf M (w_mem s)) \<or> busy M index j [] (w_log s) (rf M (w_mem s))"
    using assms(2) Oversize(2) unfolding winv_def by auto
  have "\<not> busy M index j [] (w_log s) (rf M (w_mem s))" by (auto simp: busy_def Let_def)
  with ib have "idle j [PutFlag True] (w_log s) (rf M (w_mem s))" by (simp add: idle_def)
  then show ?thesis using lim cur Oversize(1) unfolding winv_def by auto
next
  case (Write w ws mem')
  obtain j where lim: "M < 256 ^ 4" "index < 256" "ref_mem M (w_mem s)" and ok: "write_ok M w" "list_all (write_ok M) ws"
    and cur: "current_ok j (w_log s) (rf M (w_mem s))"
    and ib: "idle j (w # ws) (w_log s) (rf M (w_mem s)) \<or> busy M index j (w # ws) (w_log s) (rf M (w_mem s))"
    using assms(2) Write(2) unfolding winv_def by auto
  have mem': "ref_mem M mem'" "rf M mem' = upd w (rf M (w_mem s))"
    using apply_write_ok [OF lim(3) ok(1)] Write(3) by auto
  have len: "length (rf M (w_mem s) (slot_field (Suc j mod 2))) = M" using lim(3) by simp
  from ib have "\<exists>j. current_ok j (w_log s) (rf M mem') \<and>
      (idle j ws (w_log s) (rf M mem') \<or> busy M index j ws (w_log s) (rf M mem'))"
    using idle_write [OF cur] busy_write [OF cur _ mem'(2) ok(1) len lim(1)] unfolding mem'(2) by blast
  then show ?thesis using lim ok(2) mem'(1) Write(1) unfolding winv_def by simp
qed

section \<open>What a reader can rely on\<close>

abbreviation gen_of :: "nat \<Rightarrow> writer \<Rightarrow> nat" where
  "gen_of M s \<equiv> rnum M (w_mem s) RGeneration"

abbreviation ptr_of :: "nat \<Rightarrow> writer \<Rightarrow> nat" where
  "ptr_of M s \<equiv> rnum M (w_mem s) RPointer"

lemma busy_head:
  assumes "busy M index j (w # ws) log f"
  shows "w = PutPointer x \<Longrightarrow> x = Suc j mod 2" and "w = PutGeneration g \<Longrightarrow> g = Suc j"
    and "write_field w \<in> {RGeneration, RPointer} \<Longrightarrow> (\<exists>x. w = PutPointer x) \<or> (\<exists>g. w = PutGeneration g)"
proof -
  obtain now k p where "w # ws = drop k (version_writes index now (Suc j mod 2) (Suc j) p)"
    using assms unfolding busy_def Let_def by blast
  then have "w \<in> set (version_writes index now (Suc j mod 2) (Suc j) p)" by (metis in_set_dropD list.set_intros(1))
  then show "w = PutPointer x \<Longrightarrow> x = Suc j mod 2" "w = PutGeneration g \<Longrightarrow> g = Suc j"
    by (auto simp: version_writes_def slot_writes_def)
  show "write_field w \<in> {RGeneration, RPointer} \<Longrightarrow> (\<exists>x. w = PutPointer x) \<or> (\<exists>g. w = PutGeneration g)"
    by (cases w) auto
qed

definition later :: "nat \<Rightarrow> writer \<Rightarrow> writer \<Rightarrow> bool" where
  "later M s s' \<longleftrightarrow> gen_of M s \<le> gen_of M s' \<and> (\<exists>ps. w_log s' = w_log s @ ps) \<and>
     (gen_of M s' = gen_of M s \<longrightarrow> ptr_of M s = Suc (gen_of M s) mod 2 \<longrightarrow> ptr_of M s' = ptr_of M s)"

lemma wstep_later:
  assumes "wstep M index s s'" and "winv M index s"
  shows "later M s s'"
  using assms(1)
proof cases
  case (Write w ws mem')
  obtain j where mem: "ref_mem M (w_mem s)" and ok: "write_ok M w"
    and cur: "current_ok j (w_log s) (rf M (w_mem s))"
    and ib: "idle j (w # ws) (w_log s) (rf M (w_mem s)) \<or> busy M index j (w # ws) (w_log s) (rf M (w_mem s))"
    using assms(2) Write(2) unfolding winv_def by auto
  have f': "rf M mem' = upd w (rf M (w_mem s))" using apply_write_ok [OF mem ok] Write(3) by auto
  have gen: "gen_of M s = j" using cur by (simp add: current_ok_def rnum_def)
  show ?thesis
  proof (cases "write_field w \<in> {RGeneration, RPointer}")
    case False
    then show ?thesis using Write(1) by (auto simp: later_def rnum_def f')
  next
    case True
    with ib have b: "busy M index j (w # ws) (w_log s) (rf M (w_mem s))" by (auto simp: idle_def)
    from busy_head(3) [OF b True] show ?thesis
    proof
      assume "\<exists>x. w = PutPointer x"
      then have w: "w = PutPointer (Suc j mod 2)" using busy_head(1) [OF b] by blast
      have "(Suc j mod 2) mod 256 = Suc j mod 2" by simp
      then show ?thesis using Write(1) gen by (simp add: later_def rnum_def f' w)
    next
      assume "\<exists>g. w = PutGeneration g"
      then have w: "w = PutGeneration (Suc j)" using busy_head(2) [OF b] by blast
      with ok have "Suc j < 256 ^ 8" by simp
      then show ?thesis using Write(1) gen by (simp add: later_def rnum_def f' w)
    qed
  qed
qed (simp_all add: later_def)

lemma later_refl: "later M s s"
  by (simp add: later_def)

lemma later_trans: "later M s s' \<Longrightarrow> later M s' s'' \<Longrightarrow> later M s s''"
  unfolding later_def by auto

lemma wsteps_later:
  assumes "(wstep M index)\<^sup>*\<^sup>* s s'" and "winv M index s"
  shows "winv M index s' \<and> later M s s'"
  using assms
proof (induction rule: rtranclp_induct)
  case (step s' s'')
  then show ?case using wstep_inv wstep_later later_trans by blast
qed (simp add: later_refl)

text \<open>While the generation stays \<open>j\<close>, the slot the pointer named keeps one whole version.\<close>

lemma slot_stable:
  assumes "winv M index s" and "gen_of M s = j" and "0 < j"
  shows "\<exists>i. i < length (w_log s) \<and> j \<le> Suc i \<and>
    (\<forall>s'. winv M index s' \<longrightarrow> later M s s' \<longrightarrow> gen_of M s' = j \<longrightarrow>
       rnum M (w_mem s') RSegments = 1 \<and> holds (rf M (w_mem s')) (ptr_of M s) (w_log s ! i))"
proof -
  have inv: "current_ok j (w_log s') (rf M (w_mem s')) \<and>
      (idle j (w_todo s') (w_log s') (rf M (w_mem s')) \<or> busy M index j (w_todo s') (w_log s') (rf M (w_mem s')))"
    if "winv M index s'" "gen_of M s' = j" for s'
    using that unfolding winv_def by (auto simp: current_ok_def rnum_def)
  have full: "length (w_log s') = Suc j \<and> holds (rf M (w_mem s')) (Suc j mod 2) (w_log s' ! j)"
    if "winv M index s'" "gen_of M s' = j" "ptr_of M s' = Suc j mod 2" for s'
  proof -
    have neq: "j mod 2 \<noteq> Suc j mod 2" by (simp add: mod_Suc)
    with inv [OF that(1,2)] that(3) have "busy M index j (w_todo s') (w_log s') (rf M (w_mem s'))"
      by (auto simp: idle_def rnum_def)
    then obtain k where "length (w_log s') = Suc j"
      and part: "take (min k (length (w_log s' ! j))) (rf M (w_mem s') (slot_field (Suc j mod 2))) = take (min k (length (w_log s' ! j))) (w_log s' ! j)"
      and len: "length (w_log s' ! j) < k \<longrightarrow> le_value (rf M (w_mem s') (length_field_of (Suc j mod 2))) = length (w_log s' ! j)"
      and ptr: "le_value (rf M (w_mem s') RPointer) = (if k \<le> length (w_log s' ! j) + 4 then j mod 2 else Suc j mod 2)"
      unfolding busy_def Let_def by blast
    moreover have "length (w_log s' ! j) + 4 < k" using ptr that(3) neq by (auto simp: rnum_def split: if_splits)
    ultimately show ?thesis by (simp add: holds_def)
  qed
  consider "ptr_of M s = j mod 2" | "ptr_of M s = Suc j mod 2"
    using inv [OF assms(1,2)] by (auto simp: idle_def busy_def Let_def rnum_def split: if_splits)
  then show ?thesis
  proof cases
    case 1
    have j: "j - 1 < length (w_log s)" using inv [OF assms(1,2)] assms(3) unfolding current_ok_def by linarith
    show ?thesis
    proof (intro exI [of _ "j - 1"] conjI allI impI)
      fix s' assume s': "winv M index s'" "later M s s'" "gen_of M s' = j"
      have "w_log s' ! (j - 1) = w_log s ! (j - 1)" using s'(2) j by (auto simp: later_def nth_append)
      then show "rnum M (w_mem s') RSegments = 1" "holds (rf M (w_mem s')) (ptr_of M s) (w_log s ! (j - 1))"
        using inv [OF s'(1,3)] assms(3) 1 by (simp_all add: current_ok_def rnum_def)
    qed (use j in simp_all)
  next
    case 2
    have j: "j < length (w_log s)" using full [OF assms(1,2) 2] by simp
    show ?thesis
    proof (intro exI [of _ j] conjI allI impI)
      fix s' assume s': "winv M index s'" "later M s s'" "gen_of M s' = j"
      have "ptr_of M s' = Suc j mod 2" using s'(2,3) assms(2) 2 by (simp add: later_def)
      moreover have "w_log s' ! j = w_log s ! j" using s'(2) j by (auto simp: later_def nth_append)
      ultimately show "holds (rf M (w_mem s')) (ptr_of M s) (w_log s ! j)" using full [OF s'(1,3)] 2 by simp
      show "rnum M (w_mem s') RSegments = 1" using inv [OF s'(1,3)] assms(3) by (simp add: current_ok_def rnum_def)
    qed (use j in simp_all)
  qed
qed

lemma holds_length: "ref_mem M buf \<Longrightarrow> holds (rf M buf) slot p \<Longrightarrow> length p \<le> M"
proof -
  assume m: "ref_mem M buf" and h: "holds (rf M buf) slot p"
  have "take (length p) (rf M buf (slot_field slot)) = p" using h by (simp add: holds_def)
  then have "length p = min (length (rf M buf (slot_field slot))) (length p)" by (metis length_take)
  then show "length p \<le> M" using m by simp
qed

lemma length_copy_slot:
  assumes "ref_mem M (obs t)" and "n \<le> M"
  shows "length (copy_slot M obs t slot n) = n"
  using ref.inside [of M "obs t" "slot_field slot"] assms
  by (simp add: copy_slot_def slot_offset_field Let_def ref_mem_def)

lemma copy_slot_whole:
  assumes "\<And>i. i \<le> length p \<Longrightarrow> ref_mem M (obs (t + i)) \<and> holds (rf M (obs (t + i))) slot p"
  shows "copy_slot M obs t slot (length p) = p"
proof -
  let ?o = "ref_off M (slot_field slot)"
  have t0: "ref_mem M (obs t)" "holds (rf M (obs t)) slot p" using assms [of 0] by simp_all
  have lenp: "length p \<le> M" by (rule holds_length [OF t0])
  have room: "?o + M \<le> length (obs (t + i))" if "i \<le> length p" for i
    using ref.inside [of M "obs (t + i)" "slot_field slot"] assms [OF that] by (simp add: ref_mem_def)
  have "obs (t + i) ! (?o + i) = p ! i" if i: "i < length p" for i
  proof -
    have "rf M (obs (t + i)) (slot_field slot) ! i = p ! i"
      using assms [of i] i unfolding holds_def by (metis less_imp_le nth_take)
    then show ?thesis using nth_get_slice [OF room, of i i] i lenp by (simp add: fields_of_def)
  qed
  moreover have "min (length p) (length (obs t) - ?o) = length p" using room [of 0] lenp by simp
  ultimately show ?thesis
    by (intro nth_equalityI) (simp_all add: copy_slot_def slot_offset_field Let_def)
qed

definition cache_ok :: "(buffer list \<Rightarrow> 'x + 'v) \<Rightarrow> buffer list \<Rightarrow> 'v cache \<Rightarrow> bool" where
  "cache_ok dec log c \<longleftrightarrow> c_generation c = 0 \<or>
     (\<exists>v i. c_value c = Some v \<and> i < length log \<and> c_generation c \<le> Suc i \<and> dec [log ! i] = Inr v)"

text \<open>
  A good outcome of a read begun when \<open>g\<close> versions were complete: giving up, nothing published yet, or the
  decoding of a version that was published whole and is not older than the \<open>g\<close>-th.
\<close>

definition read_good ::
  "(buffer list \<Rightarrow> 'x + 'v) \<Rightarrow> (nat \<Rightarrow> writer) \<Rightarrow> nat \<Rightarrow> 'x ref_error + 'v option \<times> 'v cache \<Rightarrow> bool" where
  "read_good dec run g r \<longleftrightarrow>
     (case r of
        Inl TornRead \<Rightarrow> True
      | Inl (App e) \<Rightarrow> \<exists>t i. i < length (w_log (run t)) \<and> g \<le> Suc i \<and> dec [w_log (run t) ! i] = Inl e
      | Inl _ \<Rightarrow> False
      | Inr (None, c) \<Rightarrow> g = 0
      | Inr (Some v, c) \<Rightarrow> \<exists>t i. i < length (w_log (run t)) \<and> g \<le> Suc i \<and> dec [w_log (run t) ! i] = Inr v \<and>
          cache_ok dec (w_log (run t)) c)"

lemma run_later:
  assumes "\<And>t. (wstep M index)\<^sup>*\<^sup>* (run t) (run (Suc t))" and "winv M index (run a)" and "a \<le> b"
  shows "winv M index (run b) \<and> later M (run a) (run b)"
proof -
  have "(wstep M index)\<^sup>*\<^sup>* (run a) (run b)"
    using assms(3) by (induction rule: dec_induct) (auto intro: assms(1) rtranclp_trans)
  then show ?thesis using wsteps_later assms(2) by blast
qed

lemma cache_ok_later: "cache_ok dec log c \<Longrightarrow> cache_ok dec (log @ ps) c"
  unfolding cache_ok_def by (auto simp: nth_append)

lemma read_good_weaken: "read_good dec run g r \<Longrightarrow> g' \<le> g \<Longrightarrow> read_good dec run g' r"
  unfolding read_good_def
  by (cases r) (auto split: ref_error.splits option.splits intro: le_trans, meson le_trans, meson le0)

lemma read_spins_good:
  assumes steps: "\<And>t. (wstep M index)\<^sup>*\<^sup>* (run t) (run (Suc t))" and "winv M index (run t0)"
    and "cache_ok dec (w_log (run t0)) c"
  shows "read_good dec run (gen_of M (run t0)) (read_spins n M dec (\<lambda>t. w_mem (run t)) t0 c)"
  using assms(2,3)
proof (induction n arbitrary: t0)
  case 0
  then show ?case by (simp add: read_good_def)
next
  case (Suc n)
  define obs where "obs = (\<lambda>t. w_mem (run t))"
  define j where "j = gen_of M (run t0)"
  have lat: "winv M index (run b) \<and> later M (run a) (run b)" if "t0 \<le> a" "a \<le> b" for a b
    using run_later [where run = run and M = M and index = index, OF steps, of t0 a]
      run_later [where run = run and M = M and index = index, OF steps, of a b] Suc.prems(1) that by blast
  have mem: "ref_mem M (obs b)" if "t0 \<le> b" for b
    using lat [of t0 b] that by (simp add: winv_def obs_def)
  have g0: "read_generation (obs t0) = Inr j" using ref_reads(1) [OF mem, of t0] by (simp add: j_def obs_def)
  show ?case
  proof (cases "j = 0 \<or> j = c_generation c")
    case True
    show ?thesis
    proof (cases "j = 0")
      case True
      then show ?thesis using g0 unfolding j_def [symmetric] obs_def [symmetric]
        by (simp add: never_published_def read_good_def)
    next
      case False
      with True have jc: "j = c_generation c" by blast
      with Suc.prems(2) False obtain v i where v: "c_value c = Some v" "i < length (w_log (run t0))" "j \<le> Suc i"
        "dec [w_log (run t0) ! i] = Inr v" by (auto simp: cache_ok_def)
      have "read_spins (Suc n) M dec obs t0 c = Inr (Some v, c)"
        using g0 jc False v(1) by (simp add: never_published_def)
      then show ?thesis
        using v Suc.prems(2) unfolding j_def [symmetric] obs_def [symmetric] by (auto simp: read_good_def)
    qed
  next
    case False
    define q where "q = ptr_of M (run (t0 + 1))"
    define segs where "segs = rnum M (obs (t0 + 2)) RSegments"
    define len where "len = rnum M (obs (t0 + 3)) (length_field_of q)"
    define chunk where "chunk = copy_slot M obs (t0 + 4) q len"
    define t' where "t' = t0 + 4 + length chunk"
    define again where "again = gen_of M (run t')"
    have reads: "read_pointer (obs (t0 + 1)) = Inr q" "read_segments (obs (t0 + 2)) = Inr segs"
      "read_slot_length (obs (t0 + 3)) q = Inr len" "read_generation (obs t') = Inr again"
      using ref_reads [OF mem, of "t0 + 1"] ref_reads [OF mem, of "t0 + 2"] ref_reads [OF mem, of "t0 + 3"]
        ref_reads [OF mem, of t']
      by (simp_all add: q_def segs_def len_def again_def obs_def t'_def)
    have run_eq: "read_spins (Suc n) M dec obs t0 c =
        (if again \<noteq> j then read_spins n M dec obs (t' + 1) c
         else if segs \<noteq> 1 then Inl (TornSegments segs)
         else case dec [chunk] of Inl e \<Rightarrow> Inl (App e) | Inr v \<Rightarrow> Inr (Some v, \<lparr>c_value = Some v, c_generation = j\<rparr>))"
      using g0 reads False unfolding t'_def chunk_def
      by (simp add: never_published_def Let_def add.assoc)
    have lat0: "winv M index (run (t' + 1)) \<and> later M (run t0) (run (t' + 1))" using lat [of t0 "t' + 1"] by (simp add: t'_def)
    show ?thesis
    proof (cases "again = j")
      case False
      have "cache_ok dec (w_log (run (t' + 1))) c" using Suc.prems(2) lat0 cache_ok_later by (auto simp: later_def)
      then have "read_good dec run (gen_of M (run (t' + 1))) (read_spins n M dec obs (t' + 1) c)"
        using Suc.IH [of "t' + 1"] lat0 by (simp add: obs_def)
      moreover have "j \<le> gen_of M (run (t' + 1))" using lat0 by (simp add: later_def j_def)
      ultimately show ?thesis
        using run_eq False read_good_weaken unfolding j_def [symmetric] obs_def [symmetric] by auto
    next
      case True
      have same: "gen_of M (run b) = j" if "t0 \<le> b" "b \<le> t'" for b
      proof -
        have "j \<le> gen_of M (run b)" using lat [of t0 b] that by (simp add: later_def j_def)
        moreover have "gen_of M (run b) \<le> j" using lat [of b t'] that True by (simp add: later_def again_def)
        ultimately show ?thesis by simp
      qed
      obtain i where i: "i < length (w_log (run (t0 + 1)))" "j \<le> Suc i"
        and stable: "\<And>s'. winv M index s' \<Longrightarrow> later M (run (t0 + 1)) s' \<Longrightarrow> gen_of M s' = j \<Longrightarrow>
          rnum M (w_mem s') RSegments = 1 \<and> holds (rf M (w_mem s')) q (w_log (run (t0 + 1)) ! i)"
        using slot_stable [of M index "run (t0 + 1)" j] lat [of t0 "t0 + 1"] same [of "t0 + 1"] False
        by (auto simp: t'_def q_def)
      define p where "p = w_log (run (t0 + 1)) ! i"
      have at: "rnum M (obs b) RSegments = 1 \<and> holds (rf M (obs b)) q p" if "t0 + 1 \<le> b" "b \<le> t'" for b
        using stable [of "run b"] lat [of "t0 + 1" b] same [of b] that by (simp add: p_def obs_def)
      have len: "len = length p" using at [of "t0 + 3"] by (simp add: len_def rnum_def holds_def t'_def)
      have "segs = 1" using at [of "t0 + 2"] by (simp add: segs_def t'_def)
      moreover have "chunk = p"
      proof -
        have "length p \<le> M" by (rule holds_length [OF mem, of "t0 + 3" q]) (use at [of "t0 + 3"] in \<open>simp_all add: t'_def\<close>)
        then have "length chunk = length p"
          using length_copy_slot [of M obs "t0 + 4" len q] mem [of "t0 + 4"] len by (simp add: chunk_def)
        then have "ref_mem M (obs (t0 + 4 + i)) \<and> holds (rf M (obs (t0 + 4 + i))) q p" if "i \<le> length p" for i
          using at [of "t0 + 4 + i"] mem [of "t0 + 4 + i"] that by (simp add: t'_def)
        then show ?thesis unfolding chunk_def len by (rule copy_slot_whole)
      qed
      ultimately have "read_spins (Suc n) M dec obs t0 c =
          (case dec [p] of Inl e \<Rightarrow> Inl (App e) | Inr v \<Rightarrow> Inr (Some v, \<lparr>c_value = Some v, c_generation = j\<rparr>))"
        using run_eq True by simp
      then show ?thesis
        using i unfolding j_def [symmetric] obs_def [symmetric]
        by (cases "dec [p]") (auto simp: read_good_def cache_ok_def p_def)
    qed
  qed
qed

section \<open>Publishing and reading without interference\<close>

lemma static_read:
  assumes "ref_mem M buf" and "rnum M buf (length_field_of (rnum M buf RPointer)) \<le> M"
  shows "read_spins (Suc n) M dec (\<lambda>_. buf) t c =
    (if rnum M buf RGeneration = 0 then Inr (None, c)
     else if rnum M buf RGeneration = c_generation c then Inr (c_value c, c)
     else if rnum M buf RSegments \<noteq> 1 then Inl (TornSegments (rnum M buf RSegments))
     else case dec [take (rnum M buf (length_field_of (rnum M buf RPointer))) (rf M buf (slot_field (rnum M buf RPointer)))] of
            Inl e \<Rightarrow> Inl (App e)
          | Inr v \<Rightarrow> Inr (Some v, \<lparr>c_value = Some v, c_generation = rnum M buf RGeneration\<rparr>))"
proof -
  define q where "q = rnum M buf RPointer"
  define len where "len = rnum M buf (length_field_of q)"
  have len: "len \<le> M" using assms(2) by (simp add: len_def q_def)
  have "copy_slot M (\<lambda>_. buf) a q len = take len (rf M buf (slot_field q))" for a
  proof (rule nth_equalityI)
    show "length (copy_slot M (\<lambda>_. buf) a q len) = length (take len (rf M buf (slot_field q)))"
      using length_copy_slot [of M "\<lambda>_. buf" a len q] assms(1) len by simp
    fix i assume "i < length (copy_slot M (\<lambda>_. buf) a q len)"
    then have i: "i < len" using length_copy_slot [of M "\<lambda>_. buf" a len q] assms(1) len by simp
    have "ref_off M (slot_field q) + M \<le> length buf"
      using ref.inside [of M buf "slot_field q"] assms(1) by (simp add: ref_mem_def)
    then show "copy_slot M (\<lambda>_. buf) a q len ! i = take len (rf M buf (slot_field q)) ! i"
      using i len by (simp add: copy_slot_def slot_offset_field Let_def fields_of_def nth_get_slice)
  qed
  then show ?thesis
    using ref_reads [OF assms(1)] unfolding q_def [symmetric] len_def [symmetric]
    by (simp add: never_published_def Let_def q_def [symmetric] len_def [symmetric])
qed

lemma fold_slot_writes:
  "fold upd (map (\<lambda>(i, b). PutByte slot i b) (enumerate k p)) f =
    f(slot_field slot := fold (\<lambda>(i, b) xs. xs[i := b]) (enumerate k p) (f (slot_field slot)))"
  by (induction p arbitrary: k f) (auto simp: upd_def)

lemma fold_list_update:
  assumes "k + length p \<le> length xs"
  shows "fold (\<lambda>(i, b) xs. xs[i := b]) (enumerate k p) xs = take k xs @ p @ drop (k + length p) xs"
  using assms
proof (induction p arbitrary: k xs)
  case (Cons b p)
  have "take (Suc k) (xs[k := b]) = take k xs @ [b]" using Cons.prems by (simp add: take_Suc_conv_app_nth)
  with Cons.IH [of "Suc k" "xs[k := b]"] Cons.prems show ?case by simp
qed simp

lemma publish_fields:
  assumes "ref_mem M buf" and "M < 256 ^ 4" and "rnum M buf RPointer \<le> 1" and "index < 256" and "now < 256 ^ 8"
    and "rnum M buf RGeneration + 1 < 256 ^ 8" and "length p \<le> M"
  defines "t \<equiv> 1 - rnum M buf RPointer"
  shows "\<exists>buf'. write_version M index now p buf = Inr (buf', rnum M buf RGeneration + 1) \<and> ref_mem M buf' \<and>
    rnum M buf' RGeneration = rnum M buf RGeneration + 1 \<and> rnum M buf' RPointer = t \<and> rnum M buf' RSegments = 1 \<and>
    rnum M buf' RWriter = index \<and> rnum M buf' RWritten = now \<and>
    holds (rf M buf') t p \<and> rf M buf' (slot_field (1 - t)) = rf M buf (slot_field (1 - t))"
proof -
  define g where "g = rnum M buf RGeneration + 1"
  have t2: "t < 2" by (simp add: t_def)
  have "list_all (write_ok M) (version_writes index now t g p)"
    using version_writes_ok [OF assms(7,2,5,4) t2] assms(6) by (simp add: g_def)
  then obtain b where b: "sfold (apply_write M) (version_writes index now t g p) buf = Inr b" "ref_mem M b"
    "rf M b = fold upd (version_writes index now t g p) (rf M buf)"
    using apply_writes_ok [OF assms(1)] by blast
  have run: "write_version M index now p buf = Inr (b, g)"
    using write_version_writes [OF assms(1,7,2,5,4)] b(1) by (simp add: g_def t_def)
  define f1 where "f1 = (rf M buf)(slot_field t := p @ drop (length p) (rf M buf (slot_field t)))"
  have f1: "fold upd (slot_writes t p) (rf M buf) = f1"
    using fold_slot_writes [of t 0 p "rf M buf"] fold_list_update [of 0 p "rf M buf (slot_field t)"] assms(1,7)
    by (simp add: slot_writes_def f1_def)
  have rfb: "rf M b = fold upd [PutLength t (length p), PutSegments 1, PutWritten now, PutWriter index,
       PutPointer t, PutGeneration g, PutFlag False] f1"
    unfolding b(3) version_writes_def fold_append comp_def f1 ..
  have n4: "length p < 256 ^ 4" using assms(2,7) by simp
  have other: "slot_field (1 - t) \<noteq> slot_field t" using t2 by (cases "t = 0") (simp_all add: slot_field_def)
  have "rnum M b RGeneration = g" "rnum M b RPointer = t" "rnum M b RSegments = 1" "rnum M b RWriter = index"
    "rnum M b RWritten = now"
    using assms(4,5,6) t2 by (simp_all add: rnum_def rfb g_def)
  moreover have "holds (rf M b) t p" using n4 by (simp add: holds_def rfb f1_def)
  moreover have "rf M b (slot_field (1 - t)) = rf M buf (slot_field (1 - t))"
    using other by (simp add: rfb f1_def del: upd_simps) (simp add: upd_def f1_def)
  ultimately show ?thesis using run b(2) by (simp add: g_def)
qed

definition ref_header_of :: "nat \<Rightarrow> buffer" where
  "ref_header_of M = ref_magic @ le_bytes 2 ref_version @ le_bytes 2 0 @ le_bytes 8 never_published @ le_bytes 8 0 @
     le_bytes 4 0 @ le_bytes 4 0 @ le_bytes 4 M @ le_bytes 2 0 @ le_bytes 1 0 @ le_bytes 1 no_writer"

lemma length_ref_header_of [simp]: "length (ref_header_of M) = 40"
  by (simp add: ref_header_of_def ref_magic_def)

lemma ref_pack_header_eq: "ref_pack_header M = (if M < 256 ^ 4 then Inr (ref_header_of M) else Inl StructRange)"
  by (simp add: ref_pack_header_def pack_le_def ref_header_of_def ref_version_def never_published_def no_writer_def)

lemma get_blit_inside:
  assumes "length h \<le> length buf" and "o' + n \<le> length h"
  shows "get_slice (blit 0 h buf) o' n = get_slice h o' n"
  by (rule nth_equalityI) (use assms in \<open>auto simp: nth_get_slice nth_blit\<close>)

lemma write_ref_header_fields:
  assumes "ref_mem M buf" and "M < 256 ^ 4"
  shows "\<exists>b. write_ref_header M buf = Inr b \<and> ref_mem M b \<and> get_slice b 0 40 = ref_header_of M \<and>
    rnum M b RGeneration = 0 \<and> rnum M b RPointer = 0 \<and> rnum M b RWriter = no_writer \<and> rnum M b RFlags = 0"
proof -
  let ?b = "blit 0 (ref_header_of M) buf"
  have l: "40 \<le> length buf" using assms(1) by (simp add: ref_mem_def ref_total_def header_bytes_def)
  then have run: "write_ref_header M buf = Inr ?b"
    using put_slice_blit [of 0 "ref_header_of M" buf] assms(2)
    by (simp add: write_ref_header_def ref_pack_header_eq header_bytes_def)
  have len: "length ?b = length buf" using l by simp
  have get: "get_slice ?b o' n = get_slice (ref_header_of M) o' n" if "o' + n \<le> 40" for o' n
    by (rule get_blit_inside) (use l that in simp_all)
  have "get_slice (ref_header_of M) 0 40 = ref_header_of M" by (simp add: get_slice_def)
  moreover have "get_slice (ref_header_of M) 8 8 = le_bytes 8 0" "get_slice (ref_header_of M) 38 1 = le_bytes 1 0"
    "get_slice (ref_header_of M) 39 1 = le_bytes 1 no_writer" "get_slice (ref_header_of M) 6 2 = le_bytes 2 0"
    by (simp_all add: get_slice_def ref_header_of_def ref_magic_def never_published_def)
  ultimately show ?thesis
    using run assms(1) len get [of 0 40] get [of 8 8] get [of 38 1] get [of 39 1] get [of 6 2]
    by (intro exI [of _ ?b]) (simp add: ref_mem_def rnum_def fields_of_def no_writer_def)
qed

lemma run_writes:
  assumes "sfold (apply_write M) ws mem = Inr mem'"
  shows "(wstep M index)\<^sup>*\<^sup>* \<lparr>w_mem = mem, w_todo = ws, w_log = log\<rparr> \<lparr>w_mem = mem', w_todo = [], w_log = log\<rparr>"
  using assms
proof (induction ws arbitrary: mem)
  case (Cons w ws)
  then obtain m1 where m1: "apply_write M w mem = Inr m1" "sfold (apply_write M) ws m1 = Inr mem'"
    by (auto simp: sbind_eq_Inr)
  have "wstep M index \<lparr>w_mem = mem, w_todo = w # ws, w_log = log\<rparr> \<lparr>w_mem = m1, w_todo = ws, w_log = log\<rparr>"
    using wstep.Write [of "\<lparr>w_mem = mem, w_todo = w # ws, w_log = log\<rparr>" w ws M m1] m1(1) by simp
  then show ?case using Cons.IH [OF m1(2)] by (rule converse_rtranclp_into_rtranclp)
qed simp

text \<open>A table of two bytes, and the version \<open>[5]\<close> published on it.\<close>

lemma sample_table:
  obtains b0 where "write_ref_header 2 (replicate 44 0) = Inr b0" and "ref_mem 2 b0" and "rnum 2 b0 RGeneration = 0"
    and "rnum 2 b0 RPointer = 0"
  using write_ref_header_fields [of 2 "replicate 44 0"] by (auto simp: ref_mem_def ref_total_def header_bytes_def)

section \<open>Properties\<close>

text \<open>
  C3: However a reader's accesses fall between the writes of any sequence of publications, what a read
  returns was published whole: no mixture of two versions is decoded, no layout or segment error is
  raised, and the version is at least as new as the last one complete when the read began.
\<close>

theorem reads_are_whole:
  assumes "write_ref_header M z = Inr (w_mem (run 0))" and "ref_total M \<le> length z" and "index < 256"
    and "w_todo (run 0) = []" and "w_log (run 0) = []"
    and "\<And>t. (wstep M index)\<^sup>*\<^sup>* (run t) (run (Suc t))"
    and "cache_ok dec (w_log (run t)) c"
  shows "read_good dec run (gen_of M (run t)) (read_spins n M dec (\<lambda>t. w_mem (run t)) t c)"
proof -
  have M: "M < 256 ^ 4"
  proof (rule ccontr)
    assume "\<not> M < 256 ^ 4"
    with assms(1) show False by (simp add: write_ref_header_def ref_pack_header_eq)
  qed
  obtain b where b: "write_ref_header M z = Inr b" "ref_mem M b" "rnum M b RGeneration = 0" "rnum M b RPointer = 0"
    using write_ref_header_fields [of M z] M assms(2) by (auto simp: ref_mem_def)
  have "winv M index (run 0)"
    using b assms(1,3,4,5) M unfolding winv_def
    by (intro conjI exI [of _ 0]) (simp_all add: current_ok_def idle_def rnum_def)
  then have "winv M index (run t)" using run_later [where run = run and M = M and index = index, OF assms(6), of 0 t] by blast
  then show ?thesis by (rule read_spins_good [OF assms(6) _ assms(7)])
qed

theorem reads_are_whole_witness:
  "\<exists>run. gen_of 2 (run (Suc 0)) = 1 \<and> read_good (\<lambda>ps. Inr (concat ps) :: unit + buffer) run 1
     (read_spins 3 2 (\<lambda>ps. Inr (concat ps)) (\<lambda>t. w_mem (run t)) (Suc 0) \<lparr>c_value = None, c_generation = 0\<rparr>)"
proof -
  obtain b0 where b0: "write_ref_header 2 (replicate 44 0) = Inr b0" "ref_mem 2 b0" "rnum 2 b0 RGeneration = 0"
    "rnum 2 b0 RPointer = 0" by (rule sample_table)
  define ws where "ws = version_writes 0 7 1 1 [5]"
  obtain b1 where b1: "write_version 2 0 7 [5] b0 = Inr (b1, 1)" "rnum 2 b1 RGeneration = 1"
    using publish_fields [OF b0(2), of 0 7 "[5]"] b0(3,4) by auto
  then have w: "sfold (apply_write 2) ws b0 = Inr b1"
    using write_version_writes [OF b0(2), of "[5]" 7 0] b0(3,4) by (auto simp: ws_def sbind_eq_Inr)
  define s0 where "s0 = \<lparr>w_mem = b0, w_todo = [], w_log = []\<rparr>"
  define s1 where "s1 = \<lparr>w_mem = b1, w_todo = [], w_log = [[5]]\<rparr>"
  define run where "run = (\<lambda>t :: nat. if t = 0 then s0 else s1)"
  have "wstep 2 0 s0 \<lparr>w_mem = b0, w_todo = ws, w_log = [[5]]\<rparr>"
    using wstep.Begin [of s0 "[5]" 2 7 0 0] ref_reads [OF b0(2)] b0(3,4) by (simp add: s0_def ws_def)
  then have "(wstep 2 0)\<^sup>*\<^sup>* s0 s1" unfolding s1_def using run_writes [OF w] by (rule converse_rtranclp_into_rtranclp)
  then have steps: "(wstep 2 0)\<^sup>*\<^sup>* (run t) (run (Suc t))" for t by (simp add: run_def)
  have "read_good (\<lambda>ps. Inr (concat ps) :: unit + buffer) run (gen_of 2 (run (Suc 0)))
     (read_spins 3 2 (\<lambda>ps. Inr (concat ps)) (\<lambda>t. w_mem (run t)) (Suc 0) \<lparr>c_value = None, c_generation = 0\<rparr>)"
    by (rule reads_are_whole [where run = run and M = 2 and index = 0 and z = "replicate 44 0", OF _ _ _ _ _ steps])
      (use b0(1) in \<open>simp_all add: run_def s0_def ref_total_def header_bytes_def cache_ok_def\<close>)
  moreover have "gen_of 2 (run (Suc 0)) = 1" using b1(2) by (simp add: run_def s1_def)
  ultimately show ?thesis by auto
qed

text \<open>
  A publication that fits succeeds with the next generation, every reader that does not already hold
  that generation then decodes exactly the published bytes, and the statistics name its size and writer
  and no longer report a stale table.
\<close>

theorem publish_then_read:
  assumes "ref_mem M buf" and "M < 256 ^ 4" and "rnum M buf RPointer \<le> 1" and "index < 255" and "now < 256 ^ 8"
    and "rnum M buf RGeneration + 1 < 256 ^ 8" and "length p \<le> M" and "c_generation c \<noteq> rnum M buf RGeneration + 1"
  shows "\<exists>buf' w'. write_segs M index now [p] buf warned = ((buf', w'), Inr (rnum M buf RGeneration + 1)) \<and>
    read_spins max_spins M dec (\<lambda>_. buf') 0 c =
      (case dec [p] of Inl e \<Rightarrow> Inl (App e)
       | Inr v \<Rightarrow> Inr (Some v, \<lparr>c_value = Some v, c_generation = rnum M buf RGeneration + 1\<rparr>))"
proof -
  obtain b where b: "write_version M index now p buf = Inr (b, rnum M buf RGeneration + 1)" "ref_mem M b"
    "rnum M b RGeneration = rnum M buf RGeneration + 1" "rnum M b RSegments = 1"
    "holds (rf M b) (rnum M b RPointer) p"
    using publish_fields [of M buf index now p] assms(1-7) by auto
  have "length p \<le> M" using holds_length [OF b(2,5)] .
  moreover have "rnum M b (length_field_of (rnum M b RPointer)) = length p"
    "take (length p) (rf M b (slot_field (rnum M b RPointer))) = p" using b(5) by (simp_all add: holds_def rnum_def)
  moreover have "max_spins = Suc 99" by (simp add: max_spins_def)
  ultimately have "read_spins max_spins M dec (\<lambda>_. b) 0 c =
      (case dec [p] of Inl e \<Rightarrow> Inl (App e)
       | Inr v \<Rightarrow> Inr (Some v, \<lparr>c_value = Some v, c_generation = rnum M buf RGeneration + 1\<rparr>))"
    using static_read [OF b(2), of 99 dec 0 c] b(4) assms(8) unfolding b(3)
    by (simp del: read_spins.simps)
  moreover have "write_segs M index now [p] buf warned =
      ((b, warn_if_nearly_full M (length p) warned), Inr (rnum M buf RGeneration + 1))"
    using b(1) assms(7) by (simp add: write_segs_def)
  ultimately show ?thesis by blast
qed

theorem publish_then_read_witness:
  "\<exists>b0 b1 w. write_ref_header 2 (replicate 44 0) = Inr b0 \<and>
     (write_segs 2 0 7 [[5]] b0 False :: (buffer \<times> bool) \<times> (unit ref_error + nat)) = ((b1, w), Inr 1) \<and>
     read_spins max_spins 2 (\<lambda>ps. Inr (concat ps) :: unit + buffer) (\<lambda>_. b1) 0 \<lparr>c_value = None, c_generation = 0\<rparr> =
       Inr (Some [5], \<lparr>c_value = Some [5], c_generation = 1\<rparr>)"
proof -
  obtain b0 where b0: "write_ref_header 2 (replicate 44 0) = Inr b0" "ref_mem 2 b0" "rnum 2 b0 RGeneration = 0"
    "rnum 2 b0 RPointer = 0" by (rule sample_table)
  obtain b1 w where "(write_segs 2 0 7 [[5]] b0 False :: (buffer \<times> bool) \<times> (unit ref_error + nat)) = ((b1, w), Inr 1)"
    "read_spins max_spins 2 (\<lambda>ps. Inr (concat ps) :: unit + buffer) (\<lambda>_. b1) 0 \<lparr>c_value = None, c_generation = 0\<rparr> =
       Inr (Some [5], \<lparr>c_value = Some [5], c_generation = 1\<rparr>)"
    using publish_then_read [OF b0(2), of 0 7 "[5]" "\<lparr>c_value = None, c_generation = 0\<rparr>" False "\<lambda>ps. Inr (concat ps) :: unit + buffer"]
      b0(3,4) by (auto simp del: read_spins.simps)
  with b0(1) show ?thesis by blast
qed

text \<open>
  A version larger than the table is refused and changes nothing a reader sees: every read gives
  what it gave before, and every process sees the table as stale in its statistics.
\<close>
theorem oversize_keeps_old:
  assumes "ref_mem M buf" and "M < length p" and "rnum M buf (length_field_of (rnum M buf RPointer)) \<le> M" and "t_open T"
  shows "\<exists>buf' st. write_segs M index now [p] buf warned = ((buf', warned), Inl (TooLarge (length p) M)) \<and>
    read_spins (Suc n) M dec (\<lambda>_. buf') 0 c = read_spins (Suc n) M dec (\<lambda>_. buf) 0 c \<and>
    (ref_stats_of now' buf' T :: 'x ref_error + ref_stats) = Inr st \<and> st_stale st"
proof -
  define b where "b = rput M RFlags (write_value (PutFlag True) (rf M buf RFlags)) buf"
  have len: "length (write_value (PutFlag True) (rf M buf RFlags)) = 2" by (simp add: Let_def)
  have run: "set_flag flag_stale True buf = Inr b" unfolding b_def by (rule set_flag_field [OF assms(1)])
  have b: "ref_mem M b" "rf M b = (rf M buf)(RFlags := write_value (PutFlag True) (rf M buf RFlags))"
    unfolding b_def using assms(1) len by (simp_all del: write_value.simps)
  have same: "rnum M b l = rnum M buf l" if "l \<noteq> RFlags" for l using that by (simp add: rnum_def b(2))
  have "read_spins (Suc n) M dec (\<lambda>_. b) 0 c = read_spins (Suc n) M dec (\<lambda>_. buf) 0 c"
  proof -
    define q where "q = rnum M buf RPointer"
    have eqs: "rnum M b RPointer = q" "rnum M b (length_field_of q) = rnum M buf (length_field_of q)"
      "rnum M b RGeneration = rnum M buf RGeneration" "rnum M b RSegments = rnum M buf RSegments"
      "rf M b (slot_field q) = rf M buf (slot_field q)"
      using same b(2) by (simp_all add: q_def del: write_value.simps)
    have "rnum M b (length_field_of (rnum M b RPointer)) \<le> M" unfolding eqs using assms(3) by (simp add: q_def)
    from static_read [OF b(1) this, of n dec 0 c] static_read [OF assms(1,3), of n dec 0 c] show ?thesis
      unfolding eqs q_def [symmetric] by (rule trans [OF _ sym])
  qed
  moreover have "rnum M b RFlags AND flag_stale \<noteq> 0"
  proof -
    have "rnum M buf RFlags < 256 ^ 2"
      using le_value_less [of "rf M buf RFlags"] assms(1) by (simp add: rnum_def)
    then have "rnum M b RFlags = rnum M buf RFlags OR flag_stale"
      using flag_less(1) [of "rnum M buf RFlags"] by (simp add: rnum_def b(2) Let_def)
    moreover have "(x OR flag_stale) AND flag_stale = 1" for x :: nat
    proof -
      have "odd (x OR flag_stale)" by (simp only: flag_stale_def even_or_iff) simp
      then show ?thesis unfolding flag_stale_def and_one_eq by (simp only: odd_iff_mod_2_eq_one)
    qed
    ultimately show ?thesis by simp
  qed
  then obtain st where "(ref_stats_of now' b T :: 'x ref_error + ref_stats) = Inr st" "st_stale st"
    using ref_reads [OF b(1)] assms(4) by (auto simp: ref_stats_of_def require_view_def)
  ultimately show ?thesis
    using run assms(2) by (intro exI [of _ b] exI [of _ st]) (simp add: write_segs_def del: read_spins.simps)
qed

theorem oversize_keeps_old_witness:
  "\<exists>b0 b1 st. write_ref_header 2 (replicate 44 0) = Inr b0 \<and>
     (write_segs 2 0 7 [[5, 6, 7]] b0 False :: (buffer \<times> bool) \<times> (unit ref_error + nat)) = ((b1, False), Inl (TooLarge 3 2)) \<and>
     (ref_stats_of 9 b1 (new_table 2 :: buffer table) :: unit ref_error + ref_stats) = Inr st \<and> st_stale st"
proof -
  obtain b0 where b0: "write_ref_header 2 (replicate 44 0) = Inr b0" "ref_mem 2 b0" "rnum 2 b0 RGeneration = 0"
    "rnum 2 b0 RPointer = 0" by (rule sample_table)
  have "get_slice (ref_header_of 2) 24 4 = le_bytes 4 0"
    by (simp add: get_slice_def ref_header_of_def ref_magic_def)
  moreover have "rf 2 b0 RLengthA = get_slice (ref_header_of 2) 24 4"
  proof -
    have "put_slice (replicate 44 0) 0 (ref_header_of 2) = Inr b0"
      using b0(1) by (simp add: write_ref_header_def ref_pack_header_eq header_bytes_def)
    then have "b0 = blit 0 (ref_header_of 2) (replicate 44 0)" using put_slice_blit [of 0 "ref_header_of 2" "replicate 44 0"] by simp
    then show ?thesis using get_blit_inside [of "ref_header_of 2" "replicate 44 0" 24 4] by (simp add: fields_of_def)
  qed
  ultimately have "rnum 2 b0 (length_field_of (rnum 2 b0 RPointer)) = 0"
    using b0(4) by (simp add: rnum_def length_field_of_def)
  then have fit: "rnum 2 b0 (length_field_of (rnum 2 b0 RPointer)) \<le> 2" by simp
  have "2 < length [5, 6, 7 :: byte]" "t_open (new_table 2 :: buffer table)" by (simp_all add: new_table_def)
  then obtain b1 st where "(write_segs 2 0 7 [[5, 6, 7]] b0 False :: (buffer \<times> bool) \<times> (unit ref_error + nat)) =
      ((b1, False), Inl (TooLarge (length [5, 6, 7 :: byte]) 2))"
    "(ref_stats_of 9 b1 (new_table 2 :: buffer table) :: unit ref_error + ref_stats) = Inr st" "st_stale st"
    using oversize_keeps_old [OF b0(2) _ fit, of "[5, 6, 7]" "new_table 2 :: buffer table" 0 7 False 0
        "\<lambda>ps. Inr (concat ps) :: unit + buffer" "\<lparr>c_value = None, c_generation = 0\<rparr>" 9] by blast
  moreover have "length [5, 6, 7 :: byte] = 3" by simp
  ultimately show ?thesis using b0(1) by auto
qed

end
