(* ===== verification/Topology.thy ===== *)
theory Topology
  imports Prelude
begin

text \<open>
  The process topology (\<open>xime/core/bootstrap/_processes.py\<close>): which processes exist and which addresses
  each one serves, parsed from a configuration value. A mapping is the list of its items in order,
  a key is its text. Every error names the rule that was broken and where.
\<close>

section \<open>Configuration values\<close>

datatype yaml =
    YNull
  | YBool bool
  | YInt int
  | YFloat int
  | YStr string
  | YList "yaml list"
  | YMap "(string \<times> yaml) list"

definition opt_get :: "(string \<times> yaml) list \<Rightarrow> string \<Rightarrow> yaml" where
  "opt_get m k = (case dget m k of None \<Rightarrow> YNull | Some v \<Rightarrow> v)"

datatype topo_error =
    NotMapping string
  | BadId string string
  | BadPort string
  | PortRange string int
  | BadPath string
  | BadHost string
  | AmbiguousEndpoint string
  | BadShared string
  | SharedNoAddress string
  | DuplicateInProcess string
  | BadCount string
  | CountBelowOne string int
  | BadPrimary string
  | PrimaryOnCount string
  | CountPrivateAddress string string string
  | EmptyProcesses
  | DuplicateId string
  | NoPrimary
  | ManyPrimaries "string list"
  | AddressConflict "string list"
  | HostConflict "string list"
  | AdapterConflict "string list"
  | ReservedEndpoint string string
  | SingleOnlyKey string
  | SecondEndpoint string string
  | BothDeclared
  | ShareLoadNoBlock
  | ProcessesNoShareLoad
  | NoPrimaryBlock

definition require_mapping :: "yaml \<Rightarrow> string \<Rightarrow> topo_error + (string \<times> yaml) list" where
  "require_mapping v w = (case v of YMap m \<Rightarrow> Inr m | _ \<Rightarrow> Inl (NotMapping w))"

definition id_char :: "char \<Rightarrow> bool" where
  "id_char c \<longleftrightarrow> (let n = (of_char c :: nat) in (48 \<le> n \<and> n \<le> 57) \<or> (65 \<le> n \<and> n \<le> 90) \<or> (97 \<le> n \<and> n \<le> 122))"

text \<open>\<open>^[A-Za-z0-9][A-Za-z0-9_.-]*$\<close>; \<open>$\<close> also matches before a final line feed.\<close>

definition id_matches :: "string \<Rightarrow> bool" where
  "id_matches s \<longleftrightarrow>
     (let body = (if s \<noteq> [] \<and> last s = CHR 0x0A then butlast s else s)
      in body \<noteq> [] \<and> id_char (hd body) \<and> list_all (\<lambda>c. id_char c \<or> c \<in> set ''_.-'') (tl body))"

definition validate_id :: "string \<Rightarrow> string \<Rightarrow> topo_error + string" where
  "validate_id s w = (if id_matches s then Inr s else Inl (BadId w s))"

section \<open>Endpoints, blocks, topologies\<close>

datatype address = Unix string | Tcp "int option"

record endpoint_spec =
  e_kind :: string
  e_id :: string
  e_host :: "string option"
  e_port :: "int option"
  e_path :: "string option"
  e_shared :: bool
  e_options :: "(string \<times> yaml) list"

definition e_key :: "endpoint_spec \<Rightarrow> string \<times> string" where
  "e_key e = (e_kind e, e_id e)"

definition e_listens :: "endpoint_spec \<Rightarrow> bool" where
  "e_listens e \<longleftrightarrow> e_port e \<noteq> None \<or> e_path e \<noteq> None"

definition e_endpoint :: "endpoint_spec \<Rightarrow> address" where
  "e_endpoint e = (case e_path e of Some p \<Rightarrow> Unix p | None \<Rightarrow> Tcp (e_port e))"

record process_block =
  b_id :: string
  b_primary :: bool
  b_endpoints :: "(string \<times> string, endpoint_spec) dict"

definition spec_for :: "process_block \<Rightarrow> string \<times> string \<Rightarrow> endpoint_spec option" where
  "spec_for b key = dget (b_endpoints b) key"

type_synonym topology = "process_block list"

fun by_id :: "topology \<Rightarrow> string \<Rightarrow> process_block option" where
  "by_id [] i = None"
| "by_id (b # bs) i = (if b_id b = i then Some b else by_id bs i)"

definition primary_id :: "topology \<Rightarrow> topo_error + string" where
  "primary_id T = (case filter b_primary T of [] \<Rightarrow> Inl NoPrimaryBlock | b # _ \<Rightarrow> Inr (b_id b))"

definition ids :: "topology \<Rightarrow> string list" where
  "ids T = map b_id T"

definition specs_for :: "topology \<Rightarrow> string \<times> string \<Rightarrow> endpoint_spec list" where
  "specs_for T key = List.map_filter (\<lambda>b. spec_for b key) T"

definition declared_keys :: "topology \<Rightarrow> (string \<times> string) list" where
  "declared_keys T = dedup (concat (map (\<lambda>b. dkeys (b_endpoints b)) T))"

section \<open>Parsing an endpoint\<close>

definition parse_port :: "(string \<times> yaml) list \<Rightarrow> string \<Rightarrow> topo_error + int option" where
  "parse_port opts w =
     (case opt_get opts ''port'' of
        YNull \<Rightarrow> Inr None
      | YInt p \<Rightarrow> if 0 \<le> p \<and> p \<le> 65535 then Inr (Some p) else Inl (PortRange w p)
      | _ \<Rightarrow> Inl (BadPort w))"

definition parse_string :: "(string \<Rightarrow> topo_error) \<Rightarrow> (string \<times> yaml) list \<Rightarrow> string \<Rightarrow> string \<Rightarrow> topo_error + string option" where
  "parse_string err opts key w =
     (case opt_get opts key of YNull \<Rightarrow> Inr None | YStr s \<Rightarrow> Inr (Some s) | _ \<Rightarrow> Inl (err w))"

definition parse_shared :: "(string \<times> yaml) list \<Rightarrow> string \<Rightarrow> topo_error + bool" where
  "parse_shared opts w =
     (case dget opts ''shared'' of None \<Rightarrow> Inr False | Some (YBool b) \<Rightarrow> Inr b | Some _ \<Rightarrow> Inl (BadShared w))"

definition parse_endpoint :: "string \<Rightarrow> string \<Rightarrow> yaml \<Rightarrow> string \<Rightarrow> topo_error + endpoint_spec" where
  "parse_endpoint kind aid raw w =
     sbind (require_mapping raw w) (\<lambda>opts.
     sbind (parse_port opts w) (\<lambda>port.
     sbind (parse_string BadPath opts ''path'' w) (\<lambda>path.
     sbind (parse_string BadHost opts ''host'' w) (\<lambda>host.
     if port \<noteq> None \<and> path \<noteq> None then Inl (AmbiguousEndpoint w)
     else sbind (parse_shared opts w) (\<lambda>shared.
       let e = \<lparr>e_kind = kind, e_id = aid, e_host = host, e_port = port, e_path = path, e_shared = shared, e_options = opts\<rparr>
       in if shared \<and> \<not> e_listens e then Inl (SharedNoAddress w) else Inr e)))))"

section \<open>Parsing a block\<close>

definition reserved_keys :: "string list" where "reserved_keys = [''primary'', ''count'']"

fun reject_duplicates :: "string \<Rightarrow> endpoint_spec list \<Rightarrow> address list \<Rightarrow> topo_error + unit" where
  "reject_duplicates pid [] seen = Inr ()"
| "reject_duplicates pid (e # es) seen =
     (if \<not> e_listens e then reject_duplicates pid es seen
      else if e_endpoint e \<in> set seen then Inl (DuplicateInProcess pid)
      else reject_duplicates pid es (e_endpoint e # seen))"

definition dotted :: "string list \<Rightarrow> string" where
  "dotted parts = join ''.'' parts"

definition parse_kind ::
  "string \<Rightarrow> string \<times> yaml \<Rightarrow> (string \<times> string, endpoint_spec) dict \<Rightarrow> topo_error + (string \<times> string, endpoint_spec) dict" where
  "parse_kind pid item eps =
     (case item of (kind, raw) \<Rightarrow>
        if kind \<in> set reserved_keys then Inr eps
        else let w = dotted [''processes'', pid, kind]
             in sbind (validate_id kind w) (\<lambda>_.
                sbind (require_mapping raw w) (\<lambda>m.
                  sfold (\<lambda>(aid, v) eps.
                    sbind (validate_id aid (dotted [w, aid])) (\<lambda>_.
                      sbind (parse_endpoint kind aid v (dotted [w, aid])) (\<lambda>e. Inr (dset (kind, aid) e eps)))) m eps)))"

definition parse_block :: "string \<Rightarrow> (string \<times> yaml) list \<Rightarrow> bool \<Rightarrow> topo_error + process_block" where
  "parse_block pid raw primary =
     sbind (sfold (parse_kind pid) raw []) (\<lambda>eps.
       sbind (reject_duplicates pid (dvals eps) []) (\<lambda>_.
         Inr \<lparr>b_id = pid, b_primary = primary, b_endpoints = eps\<rparr>))"

definition expand_count :: "string \<Rightarrow> (string \<times> yaml) list \<Rightarrow> topo_error + (string \<times> bool) list" where
  "expand_count name raw =
     (case (case dget raw ''count'' of None \<Rightarrow> YInt 1 | Some v \<Rightarrow> v) of
        YInt count \<Rightarrow>
          if count < 1 then Inl (CountBelowOne name count)
          else (case (case dget raw ''primary'' of None \<Rightarrow> YBool False | Some v \<Rightarrow> v) of
                  YBool primary \<Rightarrow>
                    if count = 1 then Inr [(name, primary)]
                    else if primary then Inl (PrimaryOnCount name)
                    else Inr (map (\<lambda>i. (name @ ''-'' @ digits i, False)) [1..<Suc (nat count)])
                | _ \<Rightarrow> Inl (BadPrimary name))
      | _ \<Rightarrow> Inl (BadCount name))"

definition reject_unshared :: "string \<Rightarrow> process_block \<Rightarrow> topo_error + unit" where
  "reject_unshared name b =
     (case filter (\<lambda>e. e_listens e \<and> \<not> e_shared e) (dvals (b_endpoints b)) of
        [] \<Rightarrow> Inr ()
      | e # _ \<Rightarrow> Inl (CountPrivateAddress name (e_kind e) (e_id e)))"

section \<open>Checks over all blocks\<close>

fun reject_duplicate_ids :: "process_block list \<Rightarrow> string list \<Rightarrow> topo_error + unit" where
  "reject_duplicate_ids [] seen = Inr ()"
| "reject_duplicate_ids (b # bs) seen =
     (if b_id b \<in> set seen then Inl (DuplicateId (b_id b)) else reject_duplicate_ids bs (b_id b # seen))"

definition require_one_primary :: "process_block list \<Rightarrow> topo_error + unit" where
  "require_one_primary bs =
     (case map b_id (filter b_primary bs) of
        [_] \<Rightarrow> Inr () | [] \<Rightarrow> Inl NoPrimary | ps \<Rightarrow> Inl (ManyPrimaries ps))"

text \<open>All listening endpoints by address, in the order the addresses first occur.\<close>

definition address_groups :: "process_block list \<Rightarrow> (address, (string \<times> endpoint_spec) list) dict" where
  "address_groups bs =
     fold (\<lambda>(pid, e) groups. dset (e_endpoint e) (dget_default [] groups (e_endpoint e) @ [(pid, e)]) groups)
       (concat (map (\<lambda>b. map (\<lambda>e. (b_id b, e)) (filter e_listens (dvals (b_endpoints b)))) bs)) []"

definition check_group :: "(string \<times> endpoint_spec) list \<Rightarrow> topo_error + unit" where
  "check_group entries =
     (if length entries < 2 then Inr ()
      else if filter (\<lambda>(_, e). \<not> e_shared e) entries \<noteq> [] then Inl (AddressConflict (map fst entries))
      else if 1 < length (dedup (map (\<lambda>(_, e). e_host e) entries)) then Inl (HostConflict (map fst entries))
      else if 1 < length (dedup (map (\<lambda>(_, e). e_key e) entries)) then Inl (AdapterConflict (map fst entries))
      else Inr ())"

definition reject_conflicts :: "process_block list \<Rightarrow> topo_error + unit" where
  "reject_conflicts bs = sfold (\<lambda>(_, entries) _. check_group entries) (address_groups bs) ()"

definition parse_named :: "string \<times> yaml \<Rightarrow> process_block list \<Rightarrow> topo_error + process_block list" where
  "parse_named item blocks =
     (case item of (raw_name, raw) \<Rightarrow>
        sbind (validate_id raw_name (dotted [''processes'', raw_name])) (\<lambda>name.
        sbind (require_mapping raw (dotted [''processes'', name])) (\<lambda>m.
        sbind (expand_count name m) (\<lambda>pids.
          sfold (\<lambda>(pid, primary) blocks.
            sbind (parse_block pid m primary) (\<lambda>b.
              sbind (if pid \<noteq> name then reject_unshared name b else Inr ()) (\<lambda>_. Inr (blocks @ [b]))))
            pids blocks))))"

definition parse_topology :: "yaml \<Rightarrow> topo_error + topology" where
  "parse_topology raw =
     sbind (require_mapping raw ''processes'') (\<lambda>processes.
       if processes = [] then Inl EmptyProcesses
       else sbind (sfold parse_named processes []) (\<lambda>blocks.
              sbind (reject_duplicate_ids blocks []) (\<lambda>_.
              sbind (require_one_primary blocks) (\<lambda>_.
              sbind (reject_conflicts blocks) (\<lambda>_. Inr blocks)))))"

definition with_internal_endpoint ::
  "topology \<Rightarrow> string \<Rightarrow> string \<Rightarrow> string option \<Rightarrow> int option \<Rightarrow> (string \<times> yaml) list \<Rightarrow> string \<Rightarrow> topo_error + topology" where
  "with_internal_endpoint T kind aid host port options w =
     (if \<exists>b \<in> set T. (kind, aid) \<in> set (dkeys (b_endpoints b)) then Inl (ReservedEndpoint kind aid)
      else sbind (primary_id T) (\<lambda>pid.
        case by_id T pid of
          None \<Rightarrow> Inl NoPrimaryBlock
        | Some b \<Rightarrow>
            let opts = dset ''port'' (case port of None \<Rightarrow> YNull | Some p \<Rightarrow> YInt p)
                  (dset ''host'' (case host of None \<Rightarrow> YNull | Some h \<Rightarrow> YStr h) options)
            in sbind (parse_endpoint kind aid (YMap opts) w) (\<lambda>e.
               let eps = dset (kind, aid) e (b_endpoints b);
                   blocks = map (\<lambda>b'. if b_id b' = pid then b\<lparr>b_endpoints := eps\<rparr> else b') T
               in sbind (reject_duplicates pid (dvals eps) []) (\<lambda>_.
                  sbind (reject_conflicts blocks) (\<lambda>_. Inr blocks)))))"

section \<open>One process\<close>

definition single_id :: string where "single_id = ''main''"
definition multi_only_process :: "string list" where "multi_only_process = [''primary'', ''count'']"
definition multi_only_endpoint :: "string list" where "multi_only_endpoint = [''shared'']"

definition parse_single :: "yaml \<Rightarrow> topo_error + topology" where
  "parse_single raw =
     sbind (require_mapping raw ''process'') (\<lambda>m.
       case filter (\<lambda>k. k \<in> set (dkeys m)) multi_only_process of
         k # _ \<Rightarrow> Inl (SingleOnlyKey k)
       | [] \<Rightarrow> sbind (parse_block single_id m True) (\<lambda>b.
           case concat (map (\<lambda>e. filter (\<lambda>k. k \<in> set (dkeys (e_options e))) multi_only_endpoint) (dvals (b_endpoints b))) of
             k # _ \<Rightarrow> Inl (SingleOnlyKey k)
           | [] \<Rightarrow> Inr [b]))"

definition flat_sources :: "(string, string \<times> string list) dict" where
  "flat_sources = [(''web'', (''webserver'', [''host'', ''port'', ''ssl''])), (''grpc'', (''grpc'', [''port'', ''tls'']))]"

definition flat_default_ports :: "(string, int) dict" where
  "flat_default_ports = [(''web'', 8080), (''grpc'', 50051)]"

text \<open>\<open>rd\<close> is the reader of the flat configuration; an absent key reads as null.\<close>

definition flat_field :: "(string \<Rightarrow> yaml) \<Rightarrow> string \<Rightarrow> string \<Rightarrow> string \<Rightarrow> yaml" where
  "flat_field rd kind flat f =
     (let v = rd (dotted [flat, f]) in if v = YNull \<and> kind = ''web'' then rd (dotted [''server'', f]) else v)"

definition flat_options :: "(string \<Rightarrow> yaml) \<Rightarrow> string \<Rightarrow> string \<Rightarrow> topo_error + (string \<times> yaml) list" where
  "flat_options rd kind aid =
     (case dget flat_sources kind of
        None \<Rightarrow> Inr []
      | Some (flat, fs) \<Rightarrow>
          if aid \<noteq> ''default'' then Inl (SecondEndpoint kind aid)
          else let opts = fold (\<lambda>f opts. let v = flat_field rd kind flat f in if v \<noteq> YNull then dset f v opts else opts) fs []
               in Inr (case dget flat_default_ports kind of
                         Some p \<Rightarrow> if ''port'' \<in> set (dkeys opts) then opts else dset ''port'' (YInt p) opts
                       | None \<Rightarrow> opts))"

definition synthesize_from_flat :: "(string \<Rightarrow> yaml) \<Rightarrow> (string \<times> string) list \<Rightarrow> topo_error + topology" where
  "synthesize_from_flat rd declared =
     sbind (sfold (\<lambda>(kind, aid) eps.
         sbind (flat_options rd kind aid) (\<lambda>opts.
           sbind (parse_endpoint kind aid (YMap opts) (case dget flat_sources kind of None \<Rightarrow> kind | Some (flat, _) \<Rightarrow> flat)) (\<lambda>e.
             Inr (dset (kind, aid) e eps)))) declared []) (\<lambda>eps.
       sbind (reject_duplicates single_id (dvals eps) []) (\<lambda>_.
         Inr [\<lparr>b_id = single_id, b_primary = True, b_endpoints = eps\<rparr>]))"

definition build_topology :: "(string \<Rightarrow> yaml) \<Rightarrow> (string \<times> string) list \<Rightarrow> bool \<Rightarrow> topo_error + topology" where
  "build_topology rd declared share_load =
     (let single = rd ''process''; multi = rd ''processes''
      in if single \<noteq> YNull \<and> multi \<noteq> YNull then Inl BothDeclared
         else if share_load then (if multi = YNull then Inl ShareLoadNoBlock else parse_topology multi)
         else if multi \<noteq> YNull then Inl ProcessesNoShareLoad
         else if single \<noteq> YNull then parse_single single
         else synthesize_from_flat rd declared)"

section \<open>What the checks establish\<close>

text \<open>What a well-formed endpoint, block and list of blocks are.\<close>

definition endpoint_ok :: "endpoint_spec \<Rightarrow> bool" where
  "endpoint_ok e \<longleftrightarrow> (\<forall>p. e_port e = Some p \<longrightarrow> 0 \<le> p \<and> p \<le> 65535) \<and>
     \<not> (e_port e \<noteq> None \<and> e_path e \<noteq> None) \<and> (e_shared e \<longrightarrow> e_listens e)"

definition listening :: "process_block \<Rightarrow> endpoint_spec list" where
  "listening b = filter e_listens (dvals (b_endpoints b))"

definition block_ok :: "process_block \<Rightarrow> bool" where
  "block_ok b \<longleftrightarrow> distinct (dkeys (b_endpoints b)) \<and>
     (\<forall>(k, e) \<in> set (b_endpoints b). e_key e = k \<and> endpoint_ok e) \<and> distinct (map e_endpoint (listening b))"

text \<open>Two processes may listen on one address only when both share it for the same adapter on the same host.\<close>

definition compatible :: "endpoint_spec \<Rightarrow> endpoint_spec \<Rightarrow> bool" where
  "compatible e e' \<longleftrightarrow> e_shared e \<and> e_shared e' \<and> e_host e = e_host e' \<and> e_key e = e_key e'"

definition topology_ok :: "topology \<Rightarrow> bool" where
  "topology_ok T \<longleftrightarrow> (\<forall>b \<in> set T. block_ok b) \<and> distinct (ids T) \<and> length (filter b_primary T) = 1 \<and>
     (\<forall>b \<in> set T. \<forall>b' \<in> set T. b_id b \<noteq> b_id b' \<longrightarrow> (\<forall>e \<in> set (listening b). \<forall>e' \<in> set (listening b').
        e_endpoint e = e_endpoint e' \<longrightarrow> compatible e e'))"

lemma parse_port_ok: "parse_port opts w = Inr port \<Longrightarrow> port = Some p \<Longrightarrow> 0 \<le> p \<and> p \<le> 65535"
  by (auto simp: parse_port_def split: yaml.splits if_splits)

lemma parse_endpoint_ok:
  assumes "parse_endpoint kind aid raw w = Inr e"
  shows "endpoint_ok e \<and> e_key e = (kind, aid) \<and> raw = YMap (e_options e)"
  using assms parse_port_ok
  by (auto simp: parse_endpoint_def sbind_eq_Inr require_mapping_def endpoint_ok_def e_key_def Let_def
      split: if_splits yaml.splits)

lemma reject_duplicates_iff:
  "reject_duplicates pid es seen = Inr () \<longleftrightarrow>
     distinct (map e_endpoint (filter e_listens es)) \<and> (\<forall>e \<in> set es. e_listens e \<longrightarrow> e_endpoint e \<notin> set seen)"
  by (induction pid es seen rule: reject_duplicates.induct) (auto simp: image_iff)

lemma reject_duplicate_ids_iff:
  "reject_duplicate_ids bs seen = Inr () \<longleftrightarrow> distinct (ids bs) \<and> set (ids bs) \<inter> set seen = {}"
  by (induction bs seen rule: reject_duplicate_ids.induct) (auto simp: ids_def)

lemma require_one_primary_iff: "require_one_primary bs = Inr () \<longleftrightarrow> length (filter b_primary bs) = 1"
  by (cases "filter b_primary bs" rule: remdups_adj.cases) (auto simp: require_one_primary_def)

lemma dedup_two: "1 < length (dedup xs) \<longleftrightarrow> (\<exists>x \<in> set xs. \<exists>y \<in> set xs. x \<noteq> y)"
proof -
  have "length (dedup xs) = card (set xs)" using distinct_card [OF distinct_dedup, of xs] by simp
  moreover have "1 < card (set xs) \<longleftrightarrow> (\<exists>x \<in> set xs. \<exists>y \<in> set xs. x \<noteq> y)"
    using card_le_Suc0_iff_eq [of "set xs"] by (auto simp: not_le [symmetric])
  ultimately show ?thesis by simp
qed

definition listen_entries :: "process_block list \<Rightarrow> (string \<times> endpoint_spec) list" where
  "listen_entries bs = concat (map (\<lambda>b. map (\<lambda>e. (b_id b, e)) (listening b)) bs)"

definition at_address :: "address \<Rightarrow> process_block list \<Rightarrow> (string \<times> endpoint_spec) list" where
  "at_address a bs = filter (\<lambda>(_, e). e_endpoint e = a) (listen_entries bs)"

lemma grouping:
  defines "step \<equiv> \<lambda>(pid :: string, e) groups. dset (e_endpoint e) (dget_default [] groups (e_endpoint e) @ [(pid, e)]) groups"
  assumes "distinct (dkeys g)"
  shows "distinct (dkeys (fold step xs g)) \<and> dget (fold step xs g) a =
    (if filter (\<lambda>(_, e). e_endpoint e = a) xs = [] then dget g a
     else Some (dget_default [] g a @ filter (\<lambda>(_, e). e_endpoint e = a) xs))"
  using assms(2)
proof (induction xs arbitrary: g)
  case (Cons x xs)
  obtain pid e where x: "x = (pid, e)" by (cases x)
  have "distinct (dkeys (step x g))" using Cons.prems by (simp add: step_def x distinct_update)
  from Cons.IH [OF this] show ?case
    by (auto simp: x step_def dget_default_def)
qed simp

lemma address_groups_spec:
  "distinct (dkeys (address_groups bs))"
  "dget (address_groups bs) a = (if at_address a bs = [] then None else Some (at_address a bs))"
  using grouping [of "[]" "listen_entries bs" a]
  by (simp_all add: address_groups_def at_address_def listen_entries_def listening_def dget_default_def)

lemma sfold_unit_iff: "sfold (\<lambda>x _. f x) xs () = Inr () \<longleftrightarrow> (\<forall>x \<in> set xs. f x = Inr ())"
proof (induction xs)
  case (Cons x xs)
  then show ?case by (cases "f x") auto
qed simp

lemma check_group_iff:
  "check_group es = Inr () \<longleftrightarrow> length es < 2 \<or> (\<forall>(_, e) \<in> set es. \<forall>(_, e') \<in> set es. compatible e e')"
proof (cases "length es < 2")
  case False
  have "check_group es = Inr () \<longleftrightarrow> (\<forall>x \<in> set es. e_shared (snd x)) \<and>
      (\<forall>x \<in> set es. \<forall>y \<in> set es. e_host (snd x) = e_host (snd y)) \<and>
      (\<forall>x \<in> set es. \<forall>y \<in> set es. e_key (snd x) = e_key (snd y))"
  proof -
    define P where "P = (\<forall>x \<in> set es. e_shared (snd x))"
    define Q where "Q = (\<forall>x \<in> set es. \<forall>y \<in> set es. e_host (snd x) = e_host (snd y))"
    define R where "R = (\<forall>x \<in> set es. \<forall>y \<in> set es. e_key (snd x) = e_key (snd y))"
    have "(filter (\<lambda>(_, e). \<not> e_shared e) es \<noteq> []) = (\<not> P)" unfolding P_def filter_empty_conv by (simp add: case_prod_beta')
    moreover have "(1 < length (dedup (map (\<lambda>(_, e). e_host e) es))) = (\<not> Q)"
      unfolding dedup_two Q_def by (simp add: case_prod_beta')
    moreover have "(1 < length (dedup (map (\<lambda>(_, e). e_key e) es))) = (\<not> R)"
      unfolding dedup_two R_def by (simp add: case_prod_beta')
    ultimately show ?thesis
      using False unfolding P_def [symmetric] Q_def [symmetric] R_def [symmetric] check_group_def by simp
  qed
  also have "\<dots> \<longleftrightarrow> (\<forall>x \<in> set es. \<forall>y \<in> set es. compatible (snd x) (snd y))"
    unfolding compatible_def by blast
  finally show ?thesis using False by (simp add: case_prod_beta')
qed (simp add: check_group_def)

lemma reject_conflicts_iff:
  "reject_conflicts bs = Inr () \<longleftrightarrow> (\<forall>a. check_group (at_address a bs) = Inr ())"
proof -
  have "reject_conflicts bs = Inr () \<longleftrightarrow> (\<forall>(a, es) \<in> set (address_groups bs). check_group es = Inr ())"
    using sfold_unit_iff [of "\<lambda>(_, es). check_group es" "address_groups bs"]
    by (simp add: reject_conflicts_def case_prod_beta')
  also have "\<dots> \<longleftrightarrow> (\<forall>a es. dget (address_groups bs) a = Some es \<longrightarrow> check_group es = Inr ())"
    using address_groups_spec(1) by (auto simp: map_of_eq_Some_iff)
  also have "\<dots> \<longleftrightarrow> (\<forall>a. check_group (at_address a bs) = Inr ())"
    by (auto simp: address_groups_spec(2) check_group_def)
  finally show ?thesis .
qed

lemma at_address_set: "(pid, e) \<in> set (at_address a bs) \<longleftrightarrow> (\<exists>b \<in> set bs. pid = b_id b \<and> e \<in> set (listening b)) \<and> e_endpoint e = a"
  by (auto simp: at_address_def listen_entries_def)

lemma at_address_length:
  assumes "\<forall>b \<in> set bs. distinct (map e_endpoint (listening b))" and "distinct (ids bs)" and "2 \<le> length (at_address a bs)"
  shows "\<forall>(pid, e) \<in> set (at_address a bs). \<exists>(pid', e') \<in> set (at_address a bs). pid' \<noteq> pid"
proof -
  have one: "length (filter (\<lambda>e. e_endpoint e = a) (listening b)) \<le> 1" if "b \<in> set bs" for b
  proof -
    have "distinct (map e_endpoint (filter (\<lambda>e. e_endpoint e = a) (listening b)))"
      using assms(1) that by (auto intro: distinct_map_filter)
    moreover have "map e_endpoint (filter (\<lambda>e. e_endpoint e = a) (listening b)) = replicate (length (filter (\<lambda>e. e_endpoint e = a) (listening b))) a"
      by (rule replicate_eqI) auto
    ultimately have "distinct (replicate (length (filter (\<lambda>e. e_endpoint e = a) (listening b))) a)" by simp
    moreover have "n \<le> 1" if "distinct (replicate n a)" for n
      using that by (cases n; cases "n - 1") auto
    ultimately show ?thesis by blast
  qed
  have pids: "distinct (map fst (at_address a bs'))" if "set bs' \<subseteq> set bs" "distinct (ids bs')" for bs'
    using that
  proof (induction bs')
    case Nil
    then show ?case by (simp add: at_address_def listen_entries_def)
  next
    case (Cons b bs')
    have "at_address a (b # bs') = map (\<lambda>e. (b_id b, e)) (filter (\<lambda>e. e_endpoint e = a) (listening b)) @ at_address a bs'"
      by (simp add: at_address_def listen_entries_def filter_map comp_def)
    moreover have "b_id b \<notin> fst ` set (at_address a bs')"
      using Cons.prems(2) by (force simp: at_address_def listen_entries_def ids_def)
    moreover have "distinct (map fst (at_address a bs'))" using Cons by (simp add: ids_def)
    moreover have "distinct (map fst (map (\<lambda>e. (b_id b, e)) (filter (\<lambda>e. e_endpoint e = a) (listening b))))"
      using one [of b] Cons.prems(1) by (cases "filter (\<lambda>e. e_endpoint e = a) (listening b)") (auto simp: comp_def)
    ultimately show ?case by auto
  qed
  show ?thesis
  proof (clarify)
    fix pid e assume pe: "(pid, e) \<in> set (at_address a bs)"
    show "\<exists>(pid', e') \<in> set (at_address a bs). pid' \<noteq> pid"
    proof (rule ccontr)
      assume "\<not> ?thesis"
      then have "fst ` set (at_address a bs) \<subseteq> {pid}" by auto
      then have "set (map fst (at_address a bs)) \<subseteq> {pid}" by simp
      then have "card (set (map fst (at_address a bs))) \<le> card {pid}" by (intro card_mono) simp_all
      moreover have "card (set (map fst (at_address a bs))) = length (at_address a bs)"
        using distinct_card [OF pids [of bs]] assms(2) by simp
      ultimately show False using assms(3) by simp
    qed
  qed
qed

text \<open>The checks of \<open>parse_topology\<close> accept exactly the well-formed lists of well-formed blocks.\<close>

lemma checks_iff:
  assumes "\<forall>b \<in> set bs. block_ok b"
  shows "sbind (reject_duplicate_ids bs []) (\<lambda>_. sbind (require_one_primary bs) (\<lambda>_. sbind (reject_conflicts bs) (\<lambda>_. Inr bs))) = Inr T \<longleftrightarrow>
    T = bs \<and> topology_ok bs"
proof -
  have dist: "\<forall>b \<in> set bs. distinct (map e_endpoint (listening b))" using assms by (simp add: block_ok_def)
  have conf: "(\<forall>a. check_group (at_address a bs) = Inr ()) \<longleftrightarrow>
      (\<forall>b \<in> set bs. \<forall>b' \<in> set bs. b_id b \<noteq> b_id b' \<longrightarrow> (\<forall>e \<in> set (listening b). \<forall>e' \<in> set (listening b').
        e_endpoint e = e_endpoint e' \<longrightarrow> compatible e e'))" (is "?L = ?R") if ids: "distinct (ids bs)"
  proof
    assume L: ?L
    show ?R
    proof (intro ballI impI)
      fix b b' e e' assume b: "b \<in> set bs" "b' \<in> set bs" "b_id b \<noteq> b_id b'" "e \<in> set (listening b)" "e' \<in> set (listening b')"
        "e_endpoint e = e_endpoint e'"
      have m: "(b_id b, e) \<in> set (at_address (e_endpoint e) bs)" "(b_id b', e') \<in> set (at_address (e_endpoint e) bs)"
        using b by (auto simp: at_address_set)
      then have "\<not> length (at_address (e_endpoint e) bs) < 2"
        using b(3) by (cases "at_address (e_endpoint e) bs"; cases "tl (at_address (e_endpoint e) bs)") auto
      with L m show "compatible e e'" unfolding check_group_iff by blast
    qed
  next
    assume R: ?R
    show ?L
    proof
      fix a
      show "check_group (at_address a bs) = Inr ()"
      proof (cases "length (at_address a bs) < 2")
        case False
        have diff: "compatible e e'" if "(pid, e) \<in> set (at_address a bs)" "(pid', e') \<in> set (at_address a bs)" "pid \<noteq> pid'" for pid e pid' e'
          using R that by (auto simp: at_address_set)
        have other: "\<exists>q f. (q, f) \<in> set (at_address a bs) \<and> q \<noteq> pid" if "(pid, e) \<in> set (at_address a bs)" for pid e
          using at_address_length [OF dist ids, of a] False that by fastforce
        have "compatible e e'" if m: "(pid, e) \<in> set (at_address a bs)" "(pid', e') \<in> set (at_address a bs)" for pid e pid' e'
        proof (cases "pid = pid'")
          case True
          obtain q f where "(q, f) \<in> set (at_address a bs)" "q \<noteq> pid" using other [OF m(1)] by blast
          then have "compatible e f" "compatible e' f" using diff m True by blast+
          then show ?thesis by (simp add: compatible_def)
        qed (use diff m in blast)
        then show ?thesis unfolding check_group_iff by blast
      qed (simp add: check_group_iff)
    qed
  qed
  have "reject_duplicate_ids bs [] = Inr () \<longleftrightarrow> distinct (ids bs)" by (simp add: reject_duplicate_ids_iff)
  moreover have "sbind x (\<lambda>_ :: unit. y) = Inr z \<longleftrightarrow> x = Inr () \<and> y = Inr z" for x :: "topo_error + unit" and y :: "topo_error + topology" and z
    by (cases x) auto
  ultimately show ?thesis
    using conf assms by (auto simp: topology_ok_def require_one_primary_iff reject_conflicts_iff)
qed

definition endpoints_ok :: "(string \<times> string, endpoint_spec) dict \<Rightarrow> bool" where
  "endpoints_ok eps \<longleftrightarrow> distinct (dkeys eps) \<and> (\<forall>(k, e) \<in> set eps. e_key e = k \<and> endpoint_ok e)"

lemma endpoints_ok_dset:
  "endpoints_ok eps \<Longrightarrow> endpoint_ok e \<Longrightarrow> e_key e = k \<Longrightarrow> endpoints_ok (dset k e eps)"
  unfolding endpoints_ok_def using in_dset [of _ k e eps] by (auto simp: distinct_update dest: in_dset)

lemma endpoints_ok_parse:
  "parse_endpoint kind aid raw w = Inr e \<Longrightarrow> endpoints_ok eps \<Longrightarrow> endpoints_ok (dset (kind, aid) e eps)"
  using parse_endpoint_ok endpoints_ok_dset by blast

lemma parse_kind_ok:
  assumes "parse_kind pid item eps = Inr eps'" and "endpoints_ok eps"
  shows "endpoints_ok eps'"
proof -
  obtain kind raw where item: "item = (kind, raw)" by (cases item)
  show ?thesis
  proof (cases "kind \<in> set reserved_keys")
    case False
    then obtain m w where "sfold (\<lambda>(aid, v) eps.
                    sbind (validate_id aid (dotted [w, aid])) (\<lambda>_.
                      sbind (parse_endpoint kind aid v (dotted [w, aid])) (\<lambda>e. Inr (dset (kind, aid) e eps)))) m eps = Inr eps'"
      using assms(1) by (auto simp: item parse_kind_def Let_def sbind_eq_Inr)
    then show ?thesis
      by (rule sfold_invariant [where I = endpoints_ok, OF _ assms(2)])
        (auto simp: sbind_eq_Inr intro: endpoints_ok_parse)
  qed (use assms item in \<open>simp add: parse_kind_def\<close>)
qed

lemma block_ok_alt:
  "endpoints_ok (b_endpoints b) \<Longrightarrow> reject_duplicates pid (dvals (b_endpoints b)) [] = Inr () \<Longrightarrow> block_ok b"
  by (simp add: block_ok_def endpoints_ok_def reject_duplicates_iff listening_def)

lemma parse_block_ok:
  assumes "parse_block pid raw primary = Inr b"
  shows "block_ok b \<and> b_id b = pid \<and> b_primary b = primary"
proof -
  obtain eps where eps: "sfold (parse_kind pid) raw [] = Inr eps" "reject_duplicates pid (dvals eps) [] = Inr ()"
    "b = \<lparr>b_id = pid, b_primary = primary, b_endpoints = eps\<rparr>"
    using assms by (auto simp: parse_block_def sbind_eq_Inr)
  have "endpoints_ok eps"
    by (rule sfold_invariant [OF eps(1)]) (auto simp: endpoints_ok_def dest: parse_kind_ok [unfolded endpoints_ok_def])
  then show ?thesis using block_ok_alt [of b pid] eps(2,3) by simp
qed

lemma parse_named_ok:
  assumes "parse_named item blocks = Inr blocks'" and "\<forall>b \<in> set blocks. block_ok b"
  shows "\<forall>b \<in> set blocks'. block_ok b"
proof -
  obtain name m pids where "sfold (\<lambda>(pid, primary) blocks.
            sbind (parse_block pid m primary) (\<lambda>b.
              sbind (if pid \<noteq> name then reject_unshared name b else Inr ()) (\<lambda>_. Inr (blocks @ [b])))) pids blocks = Inr blocks'"
    using assms(1) by (auto simp: parse_named_def sbind_eq_Inr split: prod.splits)
  then show ?thesis
    by (rule sfold_invariant [where I = "\<lambda>bs. \<forall>b \<in> set bs. block_ok b", OF _ assms(2)])
      (auto simp: sbind_eq_Inr, metis parse_block_ok)
qed

lemma parse_blocks_ok: "sfold parse_named m [] = Inr bs \<Longrightarrow> \<forall>b \<in> set bs. block_ok b"
  by (rule sfold_invariant [of parse_named m "[]" bs]) (auto dest: parse_named_ok)

lemma parse_topology_iff:
  "parse_topology raw = Inr T \<longleftrightarrow>
     (\<exists>m. raw = YMap m \<and> m \<noteq> [] \<and> sfold parse_named m [] = Inr T \<and> topology_ok T)"
proof
  assume "parse_topology raw = Inr T"
  then obtain m where m: "raw = YMap m" "m \<noteq> []" and run: "sbind (sfold parse_named m []) (\<lambda>blocks.
      sbind (reject_duplicate_ids blocks []) (\<lambda>_. sbind (require_one_primary blocks) (\<lambda>_.
        sbind (reject_conflicts blocks) (\<lambda>_. Inr blocks)))) = Inr T"
    by (auto simp: parse_topology_def require_mapping_def split: yaml.splits if_splits)
  obtain bs where bs: "sfold parse_named m [] = Inr bs" using run by (auto simp: sbind_eq_Inr)
  with run checks_iff [OF parse_blocks_ok [OF bs], of T] m
  show "\<exists>m. raw = YMap m \<and> m \<noteq> [] \<and> sfold parse_named m [] = Inr T \<and> topology_ok T" by auto
next
  assume "\<exists>m. raw = YMap m \<and> m \<noteq> [] \<and> sfold parse_named m [] = Inr T \<and> topology_ok T"
  then obtain m where m: "raw = YMap m" "m \<noteq> []" "sfold parse_named m [] = Inr T" "topology_ok T" by blast
  then show "parse_topology raw = Inr T"
    using checks_iff [OF parse_blocks_ok [OF m(3)], of T] by (simp add: parse_topology_def require_mapping_def)
qed

lemma single_topology_ok: "block_ok b \<Longrightarrow> b_primary b \<Longrightarrow> topology_ok [b]"
  by (simp add: topology_ok_def ids_def)

lemma synthesize_ok:
  assumes "synthesize_from_flat rd declared = Inr T"
  shows "topology_ok T"
proof -
  obtain eps where eps: "sfold (\<lambda>(kind, aid) eps.
         sbind (flat_options rd kind aid) (\<lambda>opts.
           sbind (parse_endpoint kind aid (YMap opts) (case dget flat_sources kind of None \<Rightarrow> kind | Some (flat, _) \<Rightarrow> flat)) (\<lambda>e.
             Inr (dset (kind, aid) e eps)))) declared [] = Inr eps"
    "reject_duplicates single_id (dvals eps) [] = Inr ()"
    "T = [\<lparr>b_id = single_id, b_primary = True, b_endpoints = eps\<rparr>]"
    using assms by (auto simp: synthesize_from_flat_def sbind_eq_Inr)
  have "endpoints_ok eps"
    by (rule sfold_invariant [OF eps(1)])
      (auto simp: sbind_eq_Inr endpoints_ok_def [of "[]"] intro: endpoints_ok_parse)
  then show ?thesis
    unfolding eps(3) using block_ok_alt [of "\<lparr>b_id = single_id, b_primary = True, b_endpoints = eps\<rparr>" single_id] eps(2)
    by (intro single_topology_ok) simp_all
qed

lemma parse_single_ok: "parse_single raw = Inr T \<Longrightarrow> topology_ok T"
proof -
  assume r: "parse_single raw = Inr T"
  then obtain m where m: "(case filter (\<lambda>k. k \<in> set (dkeys m)) multi_only_process of
         k # _ \<Rightarrow> Inl (SingleOnlyKey k)
       | [] \<Rightarrow> sbind (parse_block single_id m True) (\<lambda>b.
           case concat (map (\<lambda>e. filter (\<lambda>k. k \<in> set (dkeys (e_options e))) multi_only_endpoint) (dvals (b_endpoints b))) of
             k # _ \<Rightarrow> Inl (SingleOnlyKey k)
           | [] \<Rightarrow> Inr [b])) = Inr T"
    unfolding parse_single_def sbind_eq_Inr by blast
  then obtain b where b: "parse_block single_id m True = Inr b"
    and out: "(case concat (map (\<lambda>e. filter (\<lambda>k. k \<in> set (dkeys (e_options e))) multi_only_endpoint) (dvals (b_endpoints b))) of
             k # _ \<Rightarrow> Inl (SingleOnlyKey k) | [] \<Rightarrow> Inr [b]) = Inr T"
    by (cases "filter (\<lambda>k. k \<in> set (dkeys m)) multi_only_process"; cases "parse_block single_id m True") simp_all
  have "T = [b]" using out by (simp split: list.split_asm del: concat_eq_Nil_conv)
  then show ?thesis using parse_block_ok [OF b] by (auto intro: single_topology_ok)
qed

lemma build_topology_ok:
  "build_topology rd declared share_load = Inr T \<Longrightarrow> topology_ok T"
  unfolding build_topology_def Let_def
  by (auto split: if_splits dest: parse_single_ok synthesize_ok simp: parse_topology_iff)

lemma by_id_Some: "by_id T i = Some b \<Longrightarrow> b \<in> set T \<and> b_id b = i"
  by (induction T) (auto split: if_splits)

lemma with_internal_ok:
  assumes "with_internal_endpoint T kind aid host port options w = Inr T'" and "topology_ok T"
  shows "\<exists>pid e. primary_id T = Inr pid \<and> e_key e = (kind, aid) \<and> e_host e = host \<and> e_port e = port \<and> topology_ok T' \<and>
    ids T' = ids T \<and> primary_id T' = Inr pid \<and>
    (\<forall>i. by_id T' i = map_option (\<lambda>b. if i = pid then b\<lparr>b_endpoints := dset (kind, aid) e (b_endpoints b)\<rparr> else b) (by_id T i))"
proof -
  define opts where "opts = dset ''port'' (case port of None \<Rightarrow> YNull | Some p \<Rightarrow> YInt p)
                  (dset ''host'' (case host of None \<Rightarrow> YNull | Some h \<Rightarrow> YStr h) options)"
  obtain pid b e where pid: "primary_id T = Inr pid" and b: "by_id T pid = Some b"
    and e: "parse_endpoint kind aid (YMap opts) w = Inr e"
    and checks: "reject_duplicates pid (dvals (dset (kind, aid) e (b_endpoints b))) [] = Inr ()"
      "reject_conflicts (map (\<lambda>b'. if b_id b' = pid then b\<lparr>b_endpoints := dset (kind, aid) e (b_endpoints b)\<rparr> else b') T) = Inr ()"
    and T': "T' = map (\<lambda>b'. if b_id b' = pid then b\<lparr>b_endpoints := dset (kind, aid) e (b_endpoints b)\<rparr> else b') T"
    using assms(1) unfolding with_internal_endpoint_def Let_def opts_def [symmetric]
    by (auto simp: sbind_eq_Inr split: if_splits option.splits)
  define nb where "nb = b\<lparr>b_endpoints := dset (kind, aid) e (b_endpoints b)\<rparr>"
  have bT: "b \<in> set T" "b_id b = pid" using by_id_Some [OF b] by simp_all
  have dist: "distinct (ids T)" using assms(2) by (simp add: topology_ok_def)
  have uniq: "b' = b" if "b' \<in> set T" "b_id b' = pid" for b'
    using dist bT that by (auto simp: ids_def distinct_map inj_on_def)
  have T'': "T' = map (\<lambda>b'. if b' = b then nb else b') T"
    unfolding T' [folded nb_def]
  proof (rule map_cong [OF refl])
    fix b' assume "b' \<in> set T"
    then have "b_id b' = pid \<longleftrightarrow> b' = b" using uniq [of b'] bT(2) by blast
    then show "(if b_id b' = pid then nb else b') = (if b' = b then nb else b')" by simp
  qed
  have "endpoints_ok (b_endpoints b)" using assms(2) bT(1) by (auto simp: topology_ok_def block_ok_def endpoints_ok_def)
  then have "block_ok nb"
    using block_ok_alt [of nb pid] checks(1) endpoints_ok_parse [OF e] by (simp add: nb_def)
  then have blocks: "\<forall>b' \<in> set T'. block_ok b'" using assms(2) by (auto simp: T'' topology_ok_def)
  have nb: "b_id nb = b_id b" "b_primary nb = b_primary b" by (simp_all add: nb_def)
  have ids: "ids T' = ids T" unfolding ids_def T'' map_map by (rule map_cong) (simp_all add: nb)
  have prim: "map b_id (filter b_primary T') = map b_id (filter b_primary T)"
  proof -
    have "map b_id (filter b_primary (map (\<lambda>b'. if b' = b then nb else b') xs)) = map b_id (filter b_primary xs)" for xs
      by (induction xs) (auto simp: nb)
    then show ?thesis unfolding T'' .
  qed
  have "length (filter b_primary T') = 1"
    using arg_cong [OF prim, of length] assms(2) by (simp add: topology_ok_def)
  then have "require_one_primary T' = Inr ()" by (simp only: require_one_primary_iff)
  moreover have "reject_duplicate_ids T' [] = Inr ()" using dist ids by (simp add: reject_duplicate_ids_iff)
  ultimately have ok: "topology_ok T'"
    using checks_iff [OF blocks, of T'] checks(2) by (simp add: T' [symmetric])
  have "primary_id T' = primary_id T"
    using prim unfolding primary_id_def by (cases "filter b_primary T"; cases "filter b_primary T'") auto
  moreover have "by_id T' i = map_option (\<lambda>b. if i = pid then b\<lparr>b_endpoints := dset (kind, aid) e (b_endpoints b)\<rparr> else b) (by_id T i)" for i
  proof -
    have "by_id (map (\<lambda>b'. if b_id b' = pid then nb else b') xs) i = map_option (\<lambda>b'. if i = pid then nb else b') (by_id xs i)" for xs
      by (induction xs) (auto simp: nb bT)
    then have "by_id T' i = map_option (\<lambda>b'. if i = pid then nb else b') (by_id T i)" by (simp only: T' [folded nb_def])
    then show ?thesis using b by (cases "i = pid") (simp_all add: nb_def)
  qed
  moreover have "e_key e = (kind, aid)" using parse_endpoint_ok [OF e] by simp
  moreover have "e_host e = host" "e_port e = port"
    using e by (auto simp: parse_endpoint_def require_mapping_def sbind_eq_Inr Let_def opts_def parse_port_def parse_string_def
        opt_get_def split: if_splits option.splits)
  ultimately show ?thesis using pid ok ids by (intro exI [of _ pid] exI [of _ e]) simp
qed


text \<open>\<open>count: n\<close> makes n copies of one block, told apart by a decimal suffix.\<close>

lemma sfold_append_ok:
  assumes "sfold (\<lambda>x acc. sbind (f x) (\<lambda>y. Inr (acc @ [y]))) xs acc = Inr out"
  shows "\<exists>ys. out = acc @ ys \<and> list_all2 (\<lambda>x y. f x = Inr y) xs ys"
  using assms
proof (induction xs arbitrary: acc)
  case (Cons x xs)
  then obtain y where y: "f x = Inr y" "sfold (\<lambda>x acc. sbind (f x) (\<lambda>y. Inr (acc @ [y]))) xs (acc @ [y]) = Inr out"
    by (auto simp: sbind_eq_Inr)
  from Cons.IH [OF y(2)] obtain ys where "out = acc @ y # ys" "list_all2 (\<lambda>x y. f x = Inr y) xs ys" by auto
  with y(1) show ?case by (intro exI [of _ "y # ys"]) simp
qed simp

lemma reject_unshared_iff:
  "reject_unshared name b = Inr () \<longleftrightarrow> (\<forall>e \<in> set (listening b). e_shared e)"
proof -
  have "(filter (\<lambda>e. e_listens e \<and> \<not> e_shared e) (dvals (b_endpoints b)) = []) = (\<forall>e \<in> set (listening b). e_shared e)"
    by (auto simp: listening_def filter_empty_conv)
  then show ?thesis
    by (cases "filter (\<lambda>e. e_listens e \<and> \<not> e_shared e) (dvals (b_endpoints b))") (simp_all add: reject_unshared_def)
qed

text \<open>Where an item stands only shows in the error; a success does not depend on it.\<close>

lemma validate_id_elsewhere: "validate_id s w = Inr x \<Longrightarrow> validate_id s w' = Inr x"
  by (simp add: validate_id_def split: if_splits)

lemma require_mapping_elsewhere: "require_mapping v w = Inr x \<Longrightarrow> require_mapping v w' = Inr x"
  by (simp add: require_mapping_def split: yaml.splits)

lemma parse_endpoint_elsewhere:
  assumes "parse_endpoint kind aid v w = Inr e" shows "parse_endpoint kind aid v w' = Inr e"
proof -
  have "parse_port opts w = Inr x \<Longrightarrow> parse_port opts w' = Inr x"
    "parse_string err opts key w = Inr y \<Longrightarrow> parse_string err opts key w' = Inr y"
    "parse_shared opts w = Inr z \<Longrightarrow> parse_shared opts w' = Inr z" for opts x err key y z
    by (auto simp: parse_port_def parse_string_def parse_shared_def split: yaml.splits if_splits option.splits)
  note elsewhere = this require_mapping_elsewhere [of v w _ w']
  obtain opts port path host shared where *: "require_mapping v w = Inr opts" "parse_port opts w = Inr port"
    "parse_string BadPath opts ''path'' w = Inr path" "parse_string BadHost opts ''host'' w = Inr host"
    "\<not> (port \<noteq> None \<and> path \<noteq> None)" "parse_shared opts w = Inr shared"
    "e = \<lparr>e_kind = kind, e_id = aid, e_host = host, e_port = port, e_path = path, e_shared = shared, e_options = opts\<rparr>"
    "\<not> (shared \<and> \<not> e_listens e)"
    using assms unfolding parse_endpoint_def Let_def sbind_eq_Inr by (auto simp: sbind_eq_Inr split: if_splits)
  show ?thesis
    unfolding parse_endpoint_def Let_def elsewhere(4) [OF *(1)] elsewhere(1) [OF *(2)] elsewhere(2) [OF *(3)]
      elsewhere(2) [OF *(4)] elsewhere(3) [OF *(6)] sbind_simps *(7) [symmetric] using *(5,8) by simp
qed

lemma sfold_mono:
  assumes "\<And>x a b. f x a = Inr b \<Longrightarrow> g x a = Inr b" and "sfold f xs a = Inr b"
  shows "sfold g xs a = Inr b"
  using assms(2)
proof (induction xs arbitrary: a)
  case (Cons x xs)
  then obtain c where "f x a = Inr c" "sfold f xs c = Inr b" by (auto simp: sbind_eq_Inr)
  then show ?case using assms(1) Cons.IH by (simp add: sbind_eq_Inr)
qed simp

lemma parse_kind_elsewhere:
  assumes "parse_kind pid item eps = Inr eps'" shows "parse_kind pid' item eps = Inr eps'"
proof -
  obtain kind raw where item: "item = (kind, raw)" by (cases item)
  show ?thesis
  proof (cases "kind \<in> set reserved_keys")
    case False
    define w w' where "w = dotted [''processes'', pid, kind]" and "w' = dotted [''processes'', pid', kind]"
    obtain x m where *: "validate_id kind w = Inr x" "require_mapping raw w = Inr m"
      "sfold (\<lambda>(aid, v) eps. sbind (validate_id aid (dotted [w, aid])) (\<lambda>_.
          sbind (parse_endpoint kind aid v (dotted [w, aid])) (\<lambda>e. Inr (dset (kind, aid) e eps)))) m eps = Inr eps'"
      using assms False by (auto simp: item parse_kind_def Let_def sbind_eq_Inr w_def)
    have "sfold (\<lambda>(aid, v) eps. sbind (validate_id aid (dotted [w', aid])) (\<lambda>_.
          sbind (parse_endpoint kind aid v (dotted [w', aid])) (\<lambda>e. Inr (dset (kind, aid) e eps)))) m eps = Inr eps'"
      by (rule sfold_mono [OF _ *(3)])
        (auto simp: sbind_eq_Inr,
          auto dest: validate_id_elsewhere [where w' = "dotted [w', _]"] parse_endpoint_elsewhere [where w' = "dotted [w', _]"])
    then show ?thesis
      using False validate_id_elsewhere [OF *(1), of w'] require_mapping_elsewhere [OF *(2), of w']
      by (simp add: item parse_kind_def Let_def w'_def [symmetric])
  qed (use assms in \<open>simp add: item parse_kind_def\<close>)
qed

lemma sbind_assoc: "sbind (sbind m f) g = sbind m (\<lambda>x. sbind (f x) g)"
  by (cases m) simp_all

lemma parse_block_elsewhere:
  assumes "parse_block pid raw primary = Inr b"
  shows "parse_block pid' raw primary' = Inr \<lparr>b_id = pid', b_primary = primary', b_endpoints = b_endpoints b\<rparr>"
proof -
  obtain eps where eps: "sfold (parse_kind pid) raw [] = Inr eps" "reject_duplicates pid (dvals eps) [] = Inr ()"
    "b = \<lparr>b_id = pid, b_primary = primary, b_endpoints = eps\<rparr>"
    using assms by (auto simp: parse_block_def sbind_eq_Inr)
  have "sfold (parse_kind pid') raw [] = Inr eps" by (rule sfold_mono [OF _ eps(1)]) (rule parse_kind_elsewhere)
  moreover have "reject_duplicates pid' (dvals eps) [] = Inr ()" using eps(2) by (simp add: reject_duplicates_iff)
  ultimately show ?thesis by (simp add: parse_block_def eps(3))
qed

lemma count_copies:
  assumes "parse_named (name, YMap m) blocks = Inr out" and "dget m ''count'' = Some (YInt n)" and "2 \<le> n"
  shows "\<exists>eps. out = blocks @ map (\<lambda>i. \<lparr>b_id = name @ ''-'' @ digits i, b_primary = False, b_endpoints = eps\<rparr>) [1..<Suc (nat n)] \<and>
    (\<forall>e \<in> set (dvals eps). e_listens e \<longrightarrow> e_shared e)"
proof -
  define copy where "copy = (\<lambda>i. name @ ''-'' @ digits i)"
  define one where "one = (\<lambda>(pid, primary). sbind (parse_block pid m primary) (\<lambda>b.
      sbind (if pid \<noteq> name then reject_unshared name b else Inr ()) (\<lambda>_. Inr b)))"
  have ex: "expand_count name m = Inr pids \<Longrightarrow> pids = map (\<lambda>i. (copy i, False)) [1..<Suc (nat n)]" for pids
    using assms(2,3) by (auto simp: expand_count_def copy_def split: yaml.splits if_splits option.splits)
  have "sfold (\<lambda>x blocks. sbind (one x) (\<lambda>b. Inr (blocks @ [b]))) (map (\<lambda>i. (copy i, False)) [1..<Suc (nat n)]) blocks = Inr out"
    using assms(1) ex unfolding parse_named_def one_def
    by (auto simp: sbind_eq_Inr require_mapping_def validate_id_def case_prod_beta' sbind_assoc simp del: upt_Suc split: if_splits)
  from sfold_append_ok [OF this] obtain ys where ys: "out = blocks @ ys"
    and all: "list_all2 (\<lambda>x y. one x = Inr y) (map (\<lambda>i. (copy i, False)) [1..<Suc (nat n)]) ys" by blast
  have len: "length ys = nat n" using list_all2_lengthD [OF all] by (simp del: upt_Suc)
  have each: "parse_block (copy (Suc k)) m False = Inr (ys ! k) \<and> (\<forall>e \<in> set (listening (ys ! k)). e_shared e)" if "k < nat n" for k
  proof -
    have "one (copy (Suc k), False) = Inr (ys ! k)"
      using list_all2_nthD [OF all, of k] that by (simp del: upt_Suc)
    moreover have "copy (Suc k) \<noteq> name" by (simp add: copy_def)
    ultimately show ?thesis by (auto simp: one_def sbind_eq_Inr reject_unshared_iff)
  qed
  define eps where "eps = b_endpoints (ys ! 0)"
  have first: "parse_block (copy (Suc 0)) m False = Inr (ys ! 0)" "\<forall>e \<in> set (listening (ys ! 0)). e_shared e"
    using each [of 0] assms(3) by simp_all
  have "ys ! k = \<lparr>b_id = copy (Suc k), b_primary = False, b_endpoints = eps\<rparr>" if "k < nat n" for k
    using each [OF that] parse_block_elsewhere [OF first(1), of "copy (Suc k)" False] by (simp add: eps_def)
  then have "ys = map (\<lambda>i. \<lparr>b_id = copy i, b_primary = False, b_endpoints = eps\<rparr>) [1..<Suc (nat n)]"
    by (intro nth_equalityI) (simp_all add: len del: upt_Suc)
  moreover have "\<forall>e \<in> set (dvals eps). e_listens e \<longrightarrow> e_shared e" using first(2) by (simp add: listening_def eps_def)
  ultimately show ?thesis unfolding ys copy_def by blast
qed

section \<open>Properties\<close>

text \<open>
  Whichever way a topology comes about (a \<open>processes\<close> block with load sharing, a \<open>process\<close> block,
  or the flat keys of a configuration without either), what \<open>build_topology\<close> returns is well formed:
  distinct process ids, exactly one primary, every port in range, no endpoint with both a port and a
  path, and no two processes on one address unless both declare it shared, for the same adapter
  and the same host.
\<close>

theorem built_topology_ok:
  assumes "build_topology rd declared share_load = Inr T"
  shows "topology_ok T"
  using assms by (rule build_topology_ok)

text \<open>
  C11: \<open>parse_topology\<close> accepts exactly the non-empty mappings whose items parse one by one and whose
  blocks together are well formed: the pairwise address rule that groups addresses, counts hosts and counts
  adapters rejects every bad topology and no good one.
\<close>

theorem parse_topology_exact:
  "parse_topology raw = Inr T \<longleftrightarrow>
     (\<exists>m. raw = YMap m \<and> m \<noteq> [] \<and> sfold parse_named m [] = Inr T \<and> topology_ok T)"
  by (rule parse_topology_iff)

text \<open>
  \<open>count: n\<close> gives exactly n blocks \<open>name-1\<close> to \<open>name-n\<close> with the same endpoints, none of
  them primary, with pairwise different ids, and every address they listen on is declared shared.
\<close>

theorem count_expands:
  assumes "parse_named (name, YMap m) blocks = Inr out" and "dget m ''count'' = Some (YInt n)" and "2 \<le> n"
  shows "\<exists>eps new. out = blocks @ new \<and> new = map (\<lambda>i. \<lparr>b_id = name @ ''-'' @ digits i, b_primary = False, b_endpoints = eps\<rparr>) [1..<Suc (nat n)] \<and>
    distinct (ids new) \<and> length new = nat n \<and> (\<forall>e \<in> set (dvals eps). e_listens e \<longrightarrow> e_shared e)"
proof -
  define copies where "copies eps = map (\<lambda>i. \<lparr>b_id = name @ ''-'' @ digits i, b_primary = False, b_endpoints = eps\<rparr>) [1..<Suc (nat n)]" for eps
  obtain eps where eps: "out = blocks @ copies eps" "\<forall>e \<in> set (dvals eps). e_listens e \<longrightarrow> e_shared e"
    using count_copies [OF assms] unfolding copies_def by blast
  have "distinct (ids (copies eps))"
    by (simp add: copies_def ids_def distinct_map inj_on_def comp_def del: upt_Suc)
  moreover have "length (copies eps) = nat n" by (simp add: copies_def del: upt_Suc)
  ultimately show ?thesis
    using eps by (intro exI [of _ eps] exI [of _ "copies eps"]) (simp only: copies_def [symmetric] refl simp_thms)
qed

text \<open>
  An internal endpoint is added to the primary process alone. When \<open>with_internal_endpoint\<close>
  returns, the key was free in every process, the new endpoint carries the requested host and port,
  the result is well formed, and every other process, the ids, and the primary are as before.
\<close>

theorem internal_endpoint_added:
  assumes "with_internal_endpoint T kind aid host port options w = Inr T'" and "topology_ok T"
  shows "\<exists>pid e. primary_id T = Inr pid \<and> e_key e = (kind, aid) \<and> e_host e = host \<and> e_port e = port \<and> topology_ok T' \<and>
    ids T' = ids T \<and> primary_id T' = Inr pid \<and>
    (\<forall>i. by_id T' i = map_option (\<lambda>b. if i = pid then b\<lparr>b_endpoints := dset (kind, aid) e (b_endpoints b)\<rparr> else b) (by_id T i))"
  using assms by (rule with_internal_ok)

text \<open>A configuration with a primary process and two workers that share one port.\<close>

definition example_topology :: yaml where
  "example_topology = YMap
     [(''main'', YMap [(''primary'', YBool True), (''web'', YMap [(''default'', YMap [(''port'', YInt 8080)])])]),
      (''work'', YMap [(''count'', YInt 2), (''web'', YMap [(''default'', YMap [(''port'', YInt 9000), (''shared'', YBool True)])])])]"

definition example_reader :: "string \<Rightarrow> yaml" where
  "example_reader k = (if k = ''processes'' then example_topology else YNull)"

definition example_blocks :: topology where
  "example_blocks = (case parse_topology example_topology of Inr T \<Rightarrow> T | Inl _ \<Rightarrow> [])"

definition example_worker :: "(string \<times> yaml) list" where
  "example_worker = [(''count'', YInt 2), (''web'', YMap [(''default'', YMap [(''port'', YInt 9000), (''shared'', YBool True)])])]"

lemma example_parses: "parse_topology example_topology = Inr example_blocks"
  by code_simp

lemma example_builds: "build_topology example_reader [] True = Inr example_blocks"
  by (simp add: build_topology_def example_reader_def example_parses) (simp add: example_topology_def)

lemma built_topology_ok_witness:
  "build_topology example_reader [] True = Inr example_blocks \<and> topology_ok example_blocks"
  using built_topology_ok [OF example_builds] example_builds by simp

lemma count_expands_witness:
  "\<exists>out. parse_named (''work'', YMap example_worker) [] = Inr out \<and>
     (\<exists>eps new. out = [] @ new \<and>
       new = map (\<lambda>i. \<lparr>b_id = ''work'' @ ''-'' @ digits i, b_primary = False, b_endpoints = eps\<rparr>) [1..<Suc (nat 2)] \<and>
       distinct (ids new) \<and> length new = nat 2 \<and> (\<forall>e \<in> set (dvals eps). e_listens e \<longrightarrow> e_shared e))"
proof -
  have "\<exists>out. parse_named (''work'', YMap example_worker) [] = Inr out"
  proof -
    have "isl (parse_named (''work'', YMap example_worker) []) = False" by code_simp
    then show ?thesis by (cases "parse_named (''work'', YMap example_worker) []") auto
  qed
  then obtain out where out: "parse_named (''work'', YMap example_worker) [] = Inr out" by blast
  have cnt: "dget example_worker ''count'' = Some (YInt 2)" by (simp add: example_worker_def)
  show ?thesis by (rule exI, rule conjI, rule out, rule count_expands [OF out cnt order_refl])
qed

lemma internal_endpoint_added_witness:
  "\<exists>T'. with_internal_endpoint example_blocks ''link'' ''default'' (Some ''127.0.0.1'') (Some 9001) [] ''link'' = Inr T' \<and> topology_ok T'"
proof -
  have "isl (with_internal_endpoint example_blocks ''link'' ''default'' (Some ''127.0.0.1'') (Some 9001) [] ''link'') = False"
    by code_simp
  then obtain T' where T': "with_internal_endpoint example_blocks ''link'' ''default'' (Some ''127.0.0.1'') (Some 9001) [] ''link'' = Inr T'"
    by (cases "with_internal_endpoint example_blocks ''link'' ''default'' (Some ''127.0.0.1'') (Some 9001) [] ''link''") auto
  then show ?thesis using internal_endpoint_added [OF T' build_topology_ok [OF example_builds]] by blast
qed

end
