(* ===== verification/Control.thy ===== *)
theory Control
  imports Shared_Memory
begin

unbundle bit_operations_syntax

text \<open>
  The messages between a supervisor and its processes (\<open>xime/core/bootstrap/_control.py\<close>): two
  header bytes and a text for a report, a request id, a set of worker indices and an opaque body
  for a command to adapters, a request id, an index and a result for its acknowledgement.
\<close>

datatype control_key =
    Promote | Ready | RunOnceDone | Promoted | PromoteFailed | AdapterIsolated
  | CommandRequest | CommandBroadcast | CommandAck

definition broadcast :: nat where "broadcast = 255"

definition pack :: "int \<Rightarrow> byte list \<Rightarrow> int \<Rightarrow> byte list" where
  "pack index extra flag = [word_of_int (index AND 0xFF), word_of_int (flag AND 0xFF)] @ extra"

definition unpack :: "byte list \<Rightarrow> nat \<times> nat \<times> byte list" where
  "unpack p = (if length p < 2 then (broadcast, 0, []) else (unat (p ! 0), unat (p ! 1), drop 2 p))"

datatype control_error = BadRequestId | BadTargets | DuplicateTargets | CommandTooLarge | BadAckHeader | AckTooLarge

definition pack_adapter_command :: "byte list \<Rightarrow> int list \<Rightarrow> byte list \<Rightarrow> control_error + byte list" where
  "pack_adapter_command request_id targets command =
     (if length request_id \<noteq> 16 then Inl BadRequestId
      else if length targets > 255 \<or> (\<exists>t \<in> set targets. \<not> (0 \<le> t \<and> t \<le> 254)) then Inl BadTargets
      else let unique = sort (remdups targets)
           in if length unique \<noteq> length targets then Inl DuplicateTargets
              else if int (length command) > 512 - 17 - int (length unique) then Inl CommandTooLarge
              else Inr (request_id @ [word_of_nat (length unique)] @ map word_of_int unique @ command))"

definition unpack_adapter_command :: "byte list \<Rightarrow> (byte list \<times> nat list \<times> byte list) option" where
  "unpack_adapter_command p =
     (if length p < 17 then None
      else let stop = 17 + unat (p ! 16)
           in if length p < stop then None
              else let targets = map unat (drop 17 (take stop p))
                   in if length (remdups targets) \<noteq> length targets then None
                      else Some (take 16 p, targets, drop stop p))"

definition pack_adapter_ack :: "byte list \<Rightarrow> int \<Rightarrow> byte list \<Rightarrow> control_error + byte list" where
  "pack_adapter_ack request_id index result =
     (if length request_id \<noteq> 16 \<or> \<not> (0 \<le> index \<and> index \<le> 254) then Inl BadAckHeader
      else if length result > 512 - 17 then Inl AckTooLarge
      else Inr (request_id @ [word_of_int index] @ result))"

definition unpack_adapter_ack :: "byte list \<Rightarrow> (byte list \<times> nat \<times> byte list) option" where
  "unpack_adapter_ack p = (if length p < 17 then None else Some (take 16 p, unat (p ! 16), drop 17 p))"

section \<open>Facts\<close>

lemma unat_of_int_byte: "0 \<le> i \<Longrightarrow> i < 256 \<Longrightarrow> unat (word_of_int i :: byte) = nat i"
  by (simp add: unat_eq_nat_uint uint_word_of_int)

lemma unat_masked_byte: "unat (word_of_int (i AND 0xFF) :: byte) = nat (i mod 256)"
proof -
  have "i AND 0xFF = i mod 256"
    using take_bit_eq_mask [of 8 i] by (simp add: take_bit_eq_mod mask_eq_exp_minus_1)
  then show ?thesis by (simp add: unat_of_int_byte)
qed

lemma unpack_pack: "unpack (pack i extra f) = (nat (i mod 256), nat (f mod 256), extra)"
  by (simp add: unpack_def pack_def unat_masked_byte)

lemma distinct_iff_remdups: "length (remdups xs) = length xs \<longleftrightarrow> distinct xs"
  by (metis distinct_remdups length_remdups_eq remdups_id_iff_distinct)

lemma pack_adapter_command_iff:
  "pack_adapter_command rid targets cmd = Inr p \<longleftrightarrow>
     length rid = 16 \<and> distinct targets \<and> set targets \<subseteq> {0..254} \<and> length targets + length cmd \<le> 495 \<and>
     p = rid @ [word_of_nat (length targets)] @ map word_of_int (sort targets) @ cmd"
proof -
  have "distinct targets \<Longrightarrow> set targets \<subseteq> {0..254} \<Longrightarrow> length targets \<le> 255"
    using card_mono [of "{0..254::int}" "set targets"] distinct_card [of targets] by simp
  then show ?thesis
    by (auto simp: pack_adapter_command_def Let_def distinct_iff_remdups remdups_id_iff_distinct [THEN iffD2])
qed

lemma unpack_command_image:
  assumes "length rid = 16" "distinct ts" "\<forall>t \<in> set ts. t < 256" "length ts \<le> 255"
  shows "unpack_adapter_command (rid @ [word_of_nat (length ts)] @ map word_of_nat ts @ cmd) = Some (rid, ts, cmd)"
proof -
  let ?p = "rid @ [word_of_nat (length ts)] @ map word_of_nat ts @ cmd"
  have n: "unat (?p ! 16) = length ts" using assms(1,4) by (simp add: nth_append unat_of_nat)
  have "map unat (map word_of_nat ts :: byte list) = ts"
    using assms(3) by (intro nth_equalityI) (simp_all add: unat_of_nat)
  then show ?thesis
    using assms n by (simp add: unpack_adapter_command_def Let_def distinct_iff_remdups)
qed

lemma unpack_command_shape:
  assumes "unpack_adapter_command p = Some (rid, ts, cmd)"
  shows "length rid = 16 \<and> distinct ts \<and> (\<forall>t \<in> set ts. t < 256) \<and>
    p = rid @ [word_of_nat (length ts)] @ map word_of_nat ts @ cmd"
proof -
  have len: "17 \<le> length p" "17 + unat (p ! 16) \<le> length p"
    and ts: "ts = map unat (drop 17 (take (17 + unat (p ! 16)) p))" and rid: "rid = take 16 p"
    and cmd: "cmd = drop (17 + unat (p ! 16)) p" and d: "distinct ts"
    using assms by (auto simp: unpack_adapter_command_def Let_def distinct_iff_remdups split: if_splits)
  have n: "length ts = unat (p ! 16)" using len by (simp add: ts)
  have "p = take 16 p @ [p ! 16] @ drop 17 p"
    using id_take_nth_drop [of 16 p] len(1) by simp
  moreover have "drop 17 p = drop 17 (take (17 + unat (p ! 16)) p) @ cmd"
  proof -
    have "cmd = drop (unat (p ! 16)) (drop 17 p)" by (simp add: cmd add.commute)
    then show ?thesis by (simp add: drop_take del: drop_drop)
  qed
  moreover have "map word_of_nat ts = drop 17 (take (17 + unat (p ! 16)) p)"
    by (simp add: ts comp_def)
  ultimately show ?thesis using d n len(1) unsigned_less [where ?'b = 8 and ?'a = nat] by (auto simp: rid ts)
qed


lemma map_word_of_int_nat: "\<forall>t \<in> set ts. 0 \<le> t \<Longrightarrow> map (word_of_int :: int \<Rightarrow> byte) ts = map word_of_nat (map nat ts)"
  by simp

lemma unpack_packed_command:
  assumes "pack_adapter_command rid targets cmd = Inr p"
  shows "unpack_adapter_command p = Some (rid, map nat (sort targets), cmd) \<and> length p \<le> 512"
proof -
  have *: "length rid = 16" "distinct targets" "set targets \<subseteq> {0..254}" "length targets + length cmd \<le> 495"
    and p: "p = rid @ [word_of_nat (length targets)] @ map word_of_int (sort targets) @ cmd"
    using assms by (simp_all add: pack_adapter_command_iff)
  have nonneg: "\<forall>t \<in> set targets. 0 \<le> t \<and> t \<le> 254" using *(3) by auto
  have "length targets \<le> 255"
    using card_mono [of "{0..254::int}" "set targets"] distinct_card [of targets] *(2,3) by simp
  moreover have "distinct (map nat (sort targets))"
    using *(2) nonneg by (simp add: distinct_map inj_on_def) (metis eq_nat_nat_iff)
  moreover have "p = rid @ [word_of_nat (length (map nat (sort targets)))] @ map word_of_nat (map nat (sort targets)) @ cmd"
    using nonneg map_word_of_int_nat [of "sort targets"] by (simp add: p)
  moreover have "\<forall>t \<in> set (map nat (sort targets)). t < 256" using nonneg by auto
  moreover have "length p \<le> 512" using *(1,4) by (simp add: p)
  ultimately show ?thesis
    using unpack_command_image [of rid "map nat (sort targets)" cmd] *(1) by (metis length_map length_sort)
qed

lemma unpack_packed_ack:
  assumes "pack_adapter_ack rid i result = Inr p"
  shows "unpack_adapter_ack p = Some (rid, nat i, result) \<and> length p \<le> 512"
  using assms by (auto simp: pack_adapter_ack_def unpack_adapter_ack_def nth_append unat_of_int_byte split: if_splits)

section \<open>Properties\<close>

text \<open>
  A command to adapters survives the wire. What \<open>pack_adapter_command\<close> accepts fits the 512
  bytes of an internal row, and \<open>unpack_adapter_command\<close> gives back the request id, the targets in
  ascending order and the body.
\<close>

theorem command_roundtrip:
  assumes "pack_adapter_command rid targets cmd = Inr p"
  shows "unpack_adapter_command p = Some (rid, map nat (sort targets), cmd) \<and> length p \<le> 512"
  using assms by (rule unpack_packed_command)

lemma command_roundtrip_witness:
  "\<exists>p. pack_adapter_command (replicate 16 7) [2, 0] [1, 2, 3] = Inr p \<and>
     unpack_adapter_command p = Some (replicate 16 7, [0, 2], [1, 2, 3]) \<and> length p \<le> 512"
proof -
  have "\<exists>p. pack_adapter_command (replicate 16 7) [2, 0] [1, 2, 3] = Inr p"
    by (simp add: pack_adapter_command_iff)
  then obtain p where p: "pack_adapter_command (replicate 16 7) [2, 0] [1, 2, 3] = Inr p" by blast
  from command_roundtrip [OF p] p show ?thesis by auto
qed

end
