(* ===== verification/Placement.thy ===== *)
theory Placement
  imports Topology
begin

text \<open>
  Adapters against the topology (\<open>xime/core/bootstrap/_slot.py\<close> and the first half of \<open>_supervisor.py\<close>):
  the checks before any process starts, the shared sockets the parent binds, and the slots each
  process gets. An adapter is what the code reads of it with \<open>getattr\<close>; \<open>None\<close> is an attribute that
  is absent or not a non-empty string. A float of the configuration is its multiple of \<open>2^-1074\<close>.
\<close>

section \<open>Adapters\<close>

datatype share = ShareInherit | ShareReusePort | ShareNone

datatype share_attr = NoShareAttr | Share share | BadShare

datatype scaling = Singleton | Sharded | OtherScaling

record adapter =
  a_type :: string
  a_kind :: "string option"
  a_id :: "string option"
  a_share :: share_attr
  a_scaling :: scaling
  a_unique :: "string list"
  a_disjoint :: "string list"
  a_takes_slot :: bool

datatype place_error =
    NoAdapterKind string
  | NoAdapterId string
  | InvalidShare string
  | UnknownEndpoints "(string \<times> string) list"
  | RunsNowhere "string list"
  | CannotShare string "string \<times> string"
  | SharedOnWindows string "string \<times> string"
  | RepeatedValue "string \<times> string" string string string
  | OverlappingSet "string \<times> string" string string string
  | Unhashable
  | SingletonElsewhere "string \<times> string" "string list"
  | ShardedUnderShareLoad "string list"
  | NoPrimaryAmong
  | AdapterKeyError "string \<times> string"
  | BindFailed endpoint_spec
  | UnknownProcess string
  | TakesNoSlot string
  | TopologyError topo_error

definition adapter_kind_of :: "adapter \<Rightarrow> place_error + string" where
  "adapter_kind_of a = (case a_kind a of Some k \<Rightarrow> Inr k | None \<Rightarrow> Inl (NoAdapterKind (a_type a)))"

definition adapter_id_of :: "adapter \<Rightarrow> place_error + string" where
  "adapter_id_of a = (case a_id a of Some i \<Rightarrow> Inr i | None \<Rightarrow> Inl (NoAdapterId (a_type a)))"

definition share_strategy_of :: "adapter \<Rightarrow> place_error + share" where
  "share_strategy_of a =
     (case a_share a of NoShareAttr \<Rightarrow> Inr ShareNone | Share s \<Rightarrow> Inr s | BadShare \<Rightarrow> Inl (InvalidShare (a_type a)))"

definition adapter_key :: "adapter \<Rightarrow> place_error + string \<times> string" where
  "adapter_key a = sbind (adapter_kind_of a) (\<lambda>k. sbind (adapter_id_of a) (\<lambda>i. Inr (k, i)))"

definition describe :: "adapter \<Rightarrow> string" where
  "describe a = (case adapter_key a of Inr (k, i) \<Rightarrow> dotted [k, i] | Inl _ \<Rightarrow> a_type a)"

section \<open>The checks at start\<close>

type_synonym adapter_index = "(string \<times> string, adapter) dict"

definition index_adapters :: "adapter list \<Rightarrow> place_error + adapter_index" where
  "index_adapters as = sfold (\<lambda>a d. sbind (adapter_key a) (\<lambda>k. Inr (dset k a d))) as []"

definition reject_unknown :: "topology \<Rightarrow> adapter list \<Rightarrow> place_error + unit" where
  "reject_unknown T as =
     sbind (index_adapters as) (\<lambda>known.
       case filter (\<lambda>k. k \<notin> set (dkeys known)) (declared_keys T) of
         [] \<Rightarrow> Inr () | unknown \<Rightarrow> Inl (UnknownEndpoints unknown))"

definition reject_orphans :: "topology \<Rightarrow> adapter list \<Rightarrow> place_error + unit" where
  "reject_orphans T as =
     sbind (sfold (\<lambda>a orphans. sbind (adapter_key a) (\<lambda>k.
              Inr (if k \<in> set (declared_keys T) then orphans else orphans @ [describe a]))) as []) (\<lambda>orphans.
       if orphans = [] then Inr () else Inl (RunsNowhere orphans))"

definition check_shared :: "bool \<Rightarrow> adapter_index \<Rightarrow> string \<Rightarrow> endpoint_spec \<Rightarrow> place_error + unit" where
  "check_shared win32 known pid e =
     (if \<not> e_shared e then Inr ()
      else sbind (dindex (AdapterKeyError (e_key e)) known (e_key e)) (\<lambda>a.
           sbind (share_strategy_of a) (\<lambda>strategy.
             if strategy = ShareNone then Inl (CannotShare pid (e_key e))
             else if strategy = ShareReusePort \<and> win32 then Inl (SharedOnWindows pid (e_key e))
             else Inr ())))"

text \<open>Every endpoint of every block, with the id of its block, in the order the code visits them.\<close>

definition all_specs :: "topology \<Rightarrow> (string \<times> endpoint_spec) list" where
  "all_specs T = concat (map (\<lambda>b. map (\<lambda>e. (b_id b, e)) (dvals (b_endpoints b))) T)"

definition reject_unsupported_sharing :: "bool \<Rightarrow> topology \<Rightarrow> adapter list \<Rightarrow> place_error + unit" where
  "reject_unsupported_sharing win32 T as =
     sbind (index_adapters as) (\<lambda>known. sfold (\<lambda>(pid, e) _. check_shared win32 known pid e) (all_specs T) ())"

text \<open>
  A configuration value as a dictionary key: numbers compare by value, so \<open>True\<close>, \<open>1\<close> and \<open>1.0\<close> are one key;
  a list or a mapping is not hashable.
\<close>

definition py_key :: "yaml \<Rightarrow> place_error + yaml" where
  "py_key v = (case v of
       YBool b \<Rightarrow> Inr (YInt (if b then 1 else 0))
     | YFloat f \<Rightarrow> Inr (if f mod 2 ^ 1074 = 0 then YInt (f div 2 ^ 1074) else YFloat f)
     | YList _ \<Rightarrow> Inl Unhashable
     | YMap _ \<Rightarrow> Inl Unhashable
     | _ \<Rightarrow> Inr v)"

definition reject_repeated :: "string \<times> string \<Rightarrow> string \<Rightarrow> (string \<times> endpoint_spec) list \<Rightarrow> place_error + unit" where
  "reject_repeated key field specs =
     sbind (sfold (\<lambda>(pid, e) seen.
         let v = opt_get (e_options e) field
         in if v = YNull then Inr seen
            else sbind (py_key v) (\<lambda>k.
              case dget seen k of
                Some other \<Rightarrow> Inl (RepeatedValue key field other pid)
              | None \<Rightarrow> Inr (dset k pid seen))) specs []) (\<lambda>_. Inr ())"

definition field_values :: "yaml \<Rightarrow> yaml list" where
  "field_values v = (case v of YNull \<Rightarrow> [] | YList vs \<Rightarrow> vs | _ \<Rightarrow> [v])"

definition reject_overlap :: "string \<times> string \<Rightarrow> string \<Rightarrow> (string \<times> endpoint_spec) list \<Rightarrow> place_error + unit" where
  "reject_overlap key field specs =
     sbind (sfold (\<lambda>(pid, e) owner.
         sfold (\<lambda>v owner. sbind (py_key v) (\<lambda>k.
             case dget owner k of
               Some other \<Rightarrow> Inl (OverlappingSet key field other pid)
             | None \<Rightarrow> Inr (dset k pid owner)))
           (field_values (opt_get (e_options e) field)) owner) specs []) (\<lambda>_. Inr ())"

definition specs_of_key :: "topology \<Rightarrow> string \<times> string \<Rightarrow> (string \<times> endpoint_spec) list" where
  "specs_of_key T key = List.map_filter (\<lambda>b. map_option (\<lambda>e. (b_id b, e)) (dget (b_endpoints b) key)) T"

definition check_sharding :: "topology \<Rightarrow> string \<times> string \<Rightarrow> adapter \<Rightarrow> place_error + unit" where
  "check_sharding T key a =
     (let specs = specs_of_key T key
      in if length specs < 2 then Inr ()
         else sbind (sfold (\<lambda>f _. reject_repeated key f specs) (a_unique a) ()) (\<lambda>_.
                sfold (\<lambda>f _. reject_overlap key f specs) (a_disjoint a) ()))"

definition reject_bad_sharding :: "topology \<Rightarrow> adapter list \<Rightarrow> place_error + unit" where
  "reject_bad_sharding T as =
     sbind (index_adapters as) (\<lambda>known. sfold (\<lambda>(key, a) _. check_sharding T key a) known ())"

definition reject_singletons :: "topology \<Rightarrow> adapter list \<Rightarrow> place_error + unit" where
  "reject_singletons T as =
     (case primary_id T of
        Inl e \<Rightarrow> Inl (TopologyError e)
      | Inr primary \<Rightarrow>
          sbind (index_adapters as) (\<lambda>known. sfold (\<lambda>(key, a) _.
            if a_scaling a \<noteq> Singleton then Inr ()
            else (case filter (\<lambda>pid. pid \<noteq> primary) (map fst (specs_of_key T key)) of
                    [] \<Rightarrow> Inr () | elsewhere \<Rightarrow> Inl (SingletonElsewhere key elsewhere))) known ()))"

definition reject_sharded :: "adapter list \<Rightarrow> place_error + unit" where
  "reject_sharded as =
     (case map describe (filter (\<lambda>a. a_scaling a = Sharded) as) of
        [] \<Rightarrow> Inr () | sharded \<Rightarrow> Inl (ShardedUnderShareLoad sharded))"

definition validate_against_adapters :: "bool \<Rightarrow> topology \<Rightarrow> adapter list \<Rightarrow> bool \<Rightarrow> place_error + unit" where
  "validate_against_adapters win32 T as share_load =
     sbind (reject_unknown T as) (\<lambda>_.
     sbind (reject_orphans T as) (\<lambda>_.
     sbind (reject_unsupported_sharing win32 T as) (\<lambda>_.
     sbind (reject_bad_sharding T as) (\<lambda>_.
     sbind (reject_singletons T as) (\<lambda>_.
       if share_load then reject_sharded as else Inr ())))))"

section \<open>Shared sockets\<close>

text \<open>
  The operating-system calls of a bind, in order. \<open>works\<close> says which succeed; a call after a failed
  one does not happen. A failed \<open>bind\<close> or \<open>chmod\<close> closes the socket; the other failures escape.
\<close>

datatype os_call =
    MakeDirs string | RemovePath string | OpenTcp "string \<times> int" | OpenUnix | ReuseAddr
  | BindTcp "string \<times> int" | BindPath string | Chmod600 string | CloseSock | Listen nat | Inheritable

definition backlog :: nat where "backlog = 2048"

text \<open>Runs a list of calls, each with what to do when it fails: the calls made, and whether all worked.\<close>

fun os_run :: "(os_call \<Rightarrow> bool) \<Rightarrow> (os_call \<times> os_call list) list \<Rightarrow> os_call list \<times> bool" where
  "os_run works [] = ([], True)"
| "os_run works ((c, cleanup) # cs) =
     (if works c then (case os_run works cs of (done_calls, ok) \<Rightarrow> (c # done_calls, ok)) else (c # cleanup, False))"

definition tcp_calls :: "endpoint_spec \<Rightarrow> int \<Rightarrow> (os_call \<times> os_call list) list" where
  "tcp_calls e port =
     (let addr = (case e_host e of Some h \<Rightarrow> h | None \<Rightarrow> ''0.0.0.0'', port)
      in [(OpenTcp addr, []), (ReuseAddr, []), (BindTcp addr, [CloseSock]), (Listen backlog, []), (Inheritable, [])])"

definition unix_calls :: "(string \<Rightarrow> bool) \<Rightarrow> (string \<Rightarrow> string) \<Rightarrow> string \<Rightarrow> (os_call \<times> os_call list) list" where
  "unix_calls present parent path =
     (MakeDirs (parent path), []) # (if present path then [(RemovePath path, [])] else []) @
     [(OpenUnix, []), (BindPath path, [CloseSock]), (Chmod600 path, [CloseSock]), (Listen backlog, []), (Inheritable, [])]"


text \<open>What the operating system does: which calls succeed for an endpoint, which paths exist.\<close>

record os_env =
  os_works :: "endpoint_spec \<Rightarrow> os_call \<Rightarrow> bool"
  os_present :: "string \<Rightarrow> bool"
  os_parent :: "string \<Rightarrow> string"
  os_win32 :: bool

definition bind_tcp :: "os_env \<Rightarrow> endpoint_spec \<Rightarrow> int \<Rightarrow> os_call list \<times> bool" where
  "bind_tcp env e port = os_run (os_works env e) (tcp_calls e port)"

definition bind_unix :: "os_env \<Rightarrow> endpoint_spec \<Rightarrow> string \<Rightarrow> os_call list \<times> bool" where
  "bind_unix env e path =
     (if os_win32 env then ([], False) else os_run (os_works env e) (unix_calls (os_present env) (os_parent env) path))"

text \<open>\<open>assert spec.port is not None\<close> cannot fail: a shared endpoint listens.\<close>

definition bind_endpoint :: "os_env \<Rightarrow> endpoint_spec \<Rightarrow> os_call list \<times> bool" where
  "bind_endpoint env e =
     (case e_path e of
        Some path \<Rightarrow> bind_unix env e path
      | None \<Rightarrow> (case e_port e of Some port \<Rightarrow> bind_tcp env e port | None \<Rightarrow> ([], False)))"

text \<open>A bound socket is the endpoint it was opened for; a failure also says which were open by then.\<close>

type_synonym sockets = "(address, endpoint_spec) dict"

fun bind_each :: "os_env \<Rightarrow> adapter_index \<Rightarrow> endpoint_spec list \<Rightarrow> sockets \<Rightarrow> (place_error \<times> sockets) + sockets" where
  "bind_each env known [] bound = Inr bound"
| "bind_each env known (e # es) bound =
     (if \<not> e_shared e \<or> e_endpoint e \<in> set (dkeys bound) then bind_each env known es bound
      else case sbind (dindex (AdapterKeyError (e_key e)) known (e_key e)) share_strategy_of of
             Inl err \<Rightarrow> Inl (err, bound)
           | Inr strategy \<Rightarrow>
               if strategy \<noteq> ShareInherit then bind_each env known es bound
               else if snd (bind_endpoint env e) then bind_each env known es (dset (e_endpoint e) e bound)
               else Inl (BindFailed e, bound))"

text \<open>The error carries the sockets that were closed again.\<close>

definition bind_shared_sockets :: "os_env \<Rightarrow> topology \<Rightarrow> adapter list \<Rightarrow> (place_error \<times> endpoint_spec list) + sockets" where
  "bind_shared_sockets env T as =
     (case index_adapters as of
        Inl err \<Rightarrow> Inl (err, [])
      | Inr known \<Rightarrow>
          (case bind_each env known (map snd (all_specs T)) [] of
             Inl (err, bound) \<Rightarrow> Inl (err, dvals bound)
           | Inr bound \<Rightarrow> Inr bound))"

type_synonym socket_map = "(string \<times> string, endpoint_spec) dict"

definition sockets_for :: "topology \<Rightarrow> string \<Rightarrow> sockets \<Rightarrow> place_error + socket_map" where
  "sockets_for T pid bound =
     (case by_id T pid of
        None \<Rightarrow> Inl (UnknownProcess pid)
      | Some b \<Rightarrow> Inr (fold (\<lambda>e out.
            case (if e_shared e then dget bound (e_endpoint e) else None) of
              Some s \<Rightarrow> dset (e_key e) s out
            | None \<Rightarrow> out) (dvals (b_endpoints b)) []))"

section \<open>The slots of a process\<close>

record slot =
  sl_process :: string
  sl_primary :: bool
  sl_spec :: endpoint_spec
  sl_sock :: "endpoint_spec option"
  sl_single :: bool

definition slot_where :: "slot \<Rightarrow> string" where
  "slot_where s = dotted [(if sl_single s then ''process'' else dotted [''processes'', sl_process s]),
     e_kind (sl_spec s), e_id (sl_spec s)]"

definition spec_of_worker :: "process_block \<Rightarrow> process_block option \<Rightarrow> adapter \<Rightarrow> string \<times> string \<Rightarrow> endpoint_spec option" where
  "spec_of_worker b primary a key =
     (case dget (b_endpoints b) key of
        Some e \<Rightarrow> Some e
      | None \<Rightarrow>
          (case primary of
             Some pb \<Rightarrow> if a_scaling a = Singleton then dget (b_endpoints pb) key else None
           | None \<Rightarrow> None))"

definition assign :: "adapter \<Rightarrow> slot \<Rightarrow> place_error + adapter \<times> slot" where
  "assign a s = (if a_takes_slot a then Inr (a, s) else Inl (TakesNoSlot (a_type a)))"

definition prepare_worker ::
  "topology \<Rightarrow> adapter list \<Rightarrow> string \<Rightarrow> socket_map \<Rightarrow> bool \<Rightarrow> place_error + (adapter \<times> slot) list" where
  "prepare_worker T as pid sockets single =
     (case by_id T pid of
        None \<Rightarrow> Inl (UnknownProcess pid)
      | Some b \<Rightarrow>
          (case primary_id T of
             Inl e \<Rightarrow> Inl (TopologyError e)
           | Inr primary \<Rightarrow>
               sfold (\<lambda>a active. sbind (adapter_key a) (\<lambda>key.
                 case spec_of_worker b (by_id T primary) a key of
                   None \<Rightarrow> Inr active
                 | Some e \<Rightarrow>
                     sbind (assign a \<lparr>sl_process = pid, sl_primary = b_primary b, sl_spec = e,
                              sl_sock = dget sockets key, sl_single = single\<rparr>) (\<lambda>x. Inr (active @ [x])))) as []))"

section \<open>What the checks establish\<close>

lemma sfold_unit_pairs: "sfold (\<lambda>(x, y) _. f x y) xs () = Inr () \<longleftrightarrow> (\<forall>(x, y) \<in> set xs. f x y = Inr ())"
  using sfold_unit_iff [of "\<lambda>(x, y). f x y" xs] by (simp add: case_prod_unfold)

lemma sfold_unit_iff': "sfold (\<lambda>x _. f x) xs () = Inr u \<longleftrightarrow> (\<forall>x \<in> set xs. f x = Inr ())"
  using sfold_unit_iff [of f xs] by simp

lemma sbind_unit: "sbind m (\<lambda>_. f) = Inr () \<longleftrightarrow> (\<exists>x. m = Inr x) \<and> f = Inr ()"
  by (auto simp: sbind_eq_Inr)

text \<open>The index of the adapters holds each registered key, mapped to the last adapter registered for it.\<close>

lemma index_adapters_spec:
  assumes "index_adapters as = Inr known"
  shows "distinct (dkeys known) \<and> (\<forall>a \<in> set as. \<exists>k. adapter_key a = Inr k \<and> k \<in> set (dkeys known)) \<and>
    (\<forall>x \<in> set known. snd x \<in> set as \<and> adapter_key (snd x) = Inr (fst x))"
proof -
  have "distinct (dkeys d) \<Longrightarrow> sfold (\<lambda>a d. sbind (adapter_key a) (\<lambda>k. Inr (dset k a d))) xs d = Inr known \<Longrightarrow>
      distinct (dkeys known) \<and> set (dkeys d) \<subseteq> set (dkeys known) \<and>
      (\<forall>a \<in> set xs. \<exists>k. adapter_key a = Inr k \<and> k \<in> set (dkeys known)) \<and>
      (\<forall>x \<in> set known. x \<in> set d \<or> snd x \<in> set xs \<and> adapter_key (snd x) = Inr (fst x))" for xs d
  proof (induction xs arbitrary: d)
    case (Cons a xs)
    then obtain k where k: "adapter_key a = Inr k"
      and run: "sfold (\<lambda>a d. sbind (adapter_key a) (\<lambda>k. Inr (dset k a d))) xs (dset k a d) = Inr known"
      by (auto simp: sbind_eq_Inr)
    have "distinct (dkeys (dset k a d))" using Cons.prems(1) by (rule distinct_update)
    note IH = Cons.IH [OF this run]
    have sub: "insert k (set (dkeys d)) \<subseteq> set (dkeys known)"
      using IH by (simp only: set_dkeys_dset)
    show ?case
    proof (intro conjI ballI)
      show "distinct (dkeys known)" using IH by blast
      show "set (dkeys d) \<subseteq> set (dkeys known)" using sub by blast
      show "\<exists>k. adapter_key b = Inr k \<and> k \<in> set (dkeys known)" if "b \<in> set (a # xs)" for b
      proof (cases "b = a")
        case True
        then show ?thesis using k sub by blast
      next
        case False
        then have "b \<in> set xs" using that by simp
        then show ?thesis using IH by blast
      qed
      show "x \<in> set d \<or> snd x \<in> set (a # xs) \<and> adapter_key (snd x) = Inr (fst x)" if "x \<in> set known" for x
      proof -
        have "x \<in> set (dset k a d) \<or> snd x \<in> set xs \<and> adapter_key (snd x) = Inr (fst x)" using IH that by blast
        then show ?thesis using in_dset [of x k a d] k by fastforce
      qed
    qed
  qed auto
  from this [of "[]" as] assms show ?thesis unfolding index_adapters_def by simp
qed

text \<open>The fold of the repeated-value check succeeds exactly when all keys are hashable and distinct.\<close>

definition hash_keys :: "yaml list \<Rightarrow> (place_error + yaml) list" where
  "hash_keys vs = map py_key vs"

definition all_hashable :: "yaml list \<Rightarrow> bool" where
  "all_hashable vs \<longleftrightarrow> (\<forall>v \<in> set vs. \<exists>k. py_key v = Inr k)"

lemma claim_fold:
  fixes err :: "string \<Rightarrow> string \<Rightarrow> place_error"
  defines "step \<equiv> \<lambda>(pid, v) owner. sbind (py_key v) (\<lambda>k.
             case dget owner k of Some other \<Rightarrow> Inl (err other pid) | None \<Rightarrow> Inr (dset k pid owner))"
  shows "(\<exists>out. sfold step pvs owner = Inr out) \<longleftrightarrow> all_hashable (map snd pvs) \<and>
    distinct (hash_keys (map snd pvs)) \<and> (\<forall>k \<in> set (dkeys owner). Inr k \<notin> set (hash_keys (map snd pvs)))"
proof (induction pvs arbitrary: owner)
  case (Cons x pvs)
  obtain pid v where x: "x = (pid, v)" by (cases x)
  show ?case
  proof (cases "py_key v")
    case (Inl e)
    then show ?thesis by (simp add: x step_def all_hashable_def)
  next
    case (Inr k)
    show ?thesis
    proof (cases "dget owner k")
      case (Some other)
      then have "k \<in> set (dkeys owner)" by (rule dget_Some_keys)
      then show ?thesis using Inr Some by (auto simp: x step_def hash_keys_def)
    next
      case None
      then have k: "k \<notin> set (dkeys owner)" by (simp only: dget_None_keys simp_thms)
      have "(\<exists>out. sfold step (x # pvs) owner = Inr out) \<longleftrightarrow> (\<exists>out. sfold step pvs (dset k pid owner) = Inr out)"
        using None Inr by (simp add: x step_def)
      also have "\<dots> \<longleftrightarrow> all_hashable (map snd pvs) \<and> distinct (hash_keys (map snd pvs)) \<and>
          (\<forall>k' \<in> insert k (set (dkeys owner)). Inr k' \<notin> set (hash_keys (map snd pvs)))"
        unfolding Cons.IH set_dkeys_dset ..
      also have "\<dots> \<longleftrightarrow> all_hashable (map snd (x # pvs)) \<and> distinct (hash_keys (map snd (x # pvs))) \<and>
          (\<forall>k' \<in> set (dkeys owner). Inr k' \<notin> set (hash_keys (map snd (x # pvs))))"
        using Inr k by (auto simp: x all_hashable_def hash_keys_def)
      finally show ?thesis .
    qed
  qed
qed (simp add: all_hashable_def hash_keys_def)


lemma sfold_concat: "sfold (\<lambda>x. sfold f (g x)) xs s = sfold f (concat (map g xs)) s"
proof (induction xs arbitrary: s)
  case (Cons x xs)
  have "sfold (\<lambda>x. sfold f (g x)) xs = sfold f (concat (map g xs))" using Cons.IH by (rule ext)
  then show ?case by (simp add: sfold_append)
qed simp

definition values_of :: "(yaml \<Rightarrow> yaml list) \<Rightarrow> string \<Rightarrow> (string \<times> endpoint_spec) list \<Rightarrow> yaml list" where
  "values_of pick field specs = concat (map (\<lambda>(pid, e). pick (opt_get (e_options e) field)) specs)"

definition one_value :: "yaml \<Rightarrow> yaml list" where
  "one_value v = (if v = YNull then [] else [v])"

definition all_distinct :: "yaml list \<Rightarrow> bool" where
  "all_distinct vs \<longleftrightarrow> all_hashable vs \<and> distinct (hash_keys vs)"

lemma reject_repeated_iff:
  "reject_repeated key field specs = Inr () \<longleftrightarrow> all_distinct (values_of one_value field specs)"
proof -
  define step where "step = (\<lambda>(pid, v) owner. sbind (py_key v) (\<lambda>k.
             case dget owner k of Some other \<Rightarrow> Inl (RepeatedValue key field other pid) | None \<Rightarrow> Inr (dset k pid owner)))"
  define g where "g = (\<lambda>x :: string \<times> endpoint_spec. map (Pair (fst x)) (one_value (opt_get (e_options (snd x)) field)))"
  have "reject_repeated key field specs = sbind (sfold (\<lambda>x. sfold step (g x)) specs []) (\<lambda>_. Inr ())"
    unfolding reject_repeated_def
    by (intro arg_cong2 [where f = sbind] arg_cong [where f = "\<lambda>h. sfold h specs []"] refl)
      (auto simp: fun_eq_iff g_def step_def one_value_def Let_def sbind_def split: sum.split option.split)
  also have "\<dots> = sbind (sfold step (concat (map g specs)) []) (\<lambda>_. Inr ())" by (simp only: sfold_concat)
  finally have "reject_repeated key field specs = Inr () \<longleftrightarrow> (\<exists>out. sfold step (concat (map g specs)) [] = Inr out)"
    by (simp add: sbind_eq_Inr)
  moreover have "map snd (concat (map g specs)) = values_of one_value field specs"
    by (simp add: values_of_def g_def map_concat comp_def case_prod_unfold)
  ultimately show ?thesis
    using claim_fold [of "\<lambda>other pid. RepeatedValue key field other pid" "concat (map g specs)" "[]"]
    by (simp add: step_def all_distinct_def)
qed

lemma reject_overlap_iff:
  "reject_overlap key field specs = Inr () \<longleftrightarrow> all_distinct (values_of field_values field specs)"
proof -
  define step where "step = (\<lambda>(pid, v) owner. sbind (py_key v) (\<lambda>k.
             case dget owner k of Some other \<Rightarrow> Inl (OverlappingSet key field other pid) | None \<Rightarrow> Inr (dset k pid owner)))"
  define g where "g = (\<lambda>x :: string \<times> endpoint_spec. map (Pair (fst x)) (field_values (opt_get (e_options (snd x)) field)))"
  have inner: "sfold (\<lambda>v owner. sbind (py_key v) (\<lambda>k. case dget owner k of
        Some other \<Rightarrow> Inl (OverlappingSet key field other pid) | None \<Rightarrow> Inr (dset k pid owner))) vs owner
      = sfold step (map (Pair pid) vs) owner" for pid vs owner
    by (induction vs arbitrary: owner) (auto simp: step_def sbind_def split: sum.split)
  have "reject_overlap key field specs = sbind (sfold (\<lambda>x. sfold step (g x)) specs []) (\<lambda>_. Inr ())"
    unfolding reject_overlap_def
    by (intro arg_cong2 [where f = sbind] arg_cong [where f = "\<lambda>h. sfold h specs []"] refl)
      (auto simp: fun_eq_iff g_def inner)
  also have "\<dots> = sbind (sfold step (concat (map g specs)) []) (\<lambda>_. Inr ())" by (simp only: sfold_concat)
  finally have "reject_overlap key field specs = Inr () \<longleftrightarrow> (\<exists>out. sfold step (concat (map g specs)) [] = Inr out)"
    by (simp add: sbind_eq_Inr)
  moreover have "map snd (concat (map g specs)) = values_of field_values field specs"
    by (simp add: values_of_def g_def map_concat comp_def case_prod_unfold)
  ultimately show ?thesis
    using claim_fold [of "\<lambda>other pid. OverlappingSet key field other pid" "concat (map g specs)" "[]"]
    by (simp add: step_def all_distinct_def)
qed

text \<open>What a deployment must satisfy before its processes start.\<close>

definition shareable :: "bool \<Rightarrow> adapter \<Rightarrow> bool" where
  "shareable win32 a \<longleftrightarrow> a_share a = Share ShareInherit \<or> (a_share a = Share ShareReusePort \<and> \<not> win32)"

text \<open>
  \<open>keys_of\<close> are one process's values of a field as dictionary keys. The values of the processes differ, or
  their sets do not overlap, when no two processes have a key in common.
\<close>

definition keys_of :: "(yaml \<Rightarrow> yaml list) \<Rightarrow> string \<Rightarrow> string \<times> endpoint_spec \<Rightarrow> (place_error + yaml) list" where
  "keys_of pick field x = hash_keys (pick (opt_get (e_options (snd x)) field))"

definition processes_apart :: "(yaml \<Rightarrow> yaml list) \<Rightarrow> string \<Rightarrow> (string \<times> endpoint_spec) list \<Rightarrow> bool" where
  "processes_apart pick field specs \<longleftrightarrow>
     all_hashable (values_of pick field specs) \<and>
     (\<forall>j < length specs. \<forall>i < j. set (keys_of pick field (specs ! i)) \<inter> set (keys_of pick field (specs ! j)) = {})"

lemma distinct_values_of:
  "distinct (hash_keys (values_of pick field specs)) \<longleftrightarrow>
     (\<forall>j < length specs. \<forall>i < j. set (keys_of pick field (specs ! i)) \<inter> set (keys_of pick field (specs ! j)) = {}) \<and>
     (\<forall>x \<in> set specs. distinct (keys_of pick field x))"
proof -
  have concat: "hash_keys (values_of pick field specs) = concat (map (keys_of pick field) specs)"
    by (simp add: values_of_def keys_of_def [abs_def] hash_keys_def map_concat comp_def case_prod_unfold)
  have "distinct (concat (map (keys_of pick field) specs)) \<longleftrightarrow>
      sorted_wrt (\<lambda>x y. set (keys_of pick field x) \<inter> set (keys_of pick field y) = {}) specs \<and>
      (\<forall>x \<in> set specs. distinct (keys_of pick field x))"
    by (induction specs) auto
  then show ?thesis unfolding concat sorted_wrt_iff_nth_less by blast
qed

lemma all_distinct_apart:
  "all_distinct (values_of pick field specs) \<longleftrightarrow>
     processes_apart pick field specs \<and> (\<forall>x \<in> set specs. distinct (keys_of pick field x))"
  unfolding all_distinct_def processes_apart_def distinct_values_of by blast

lemma one_value_distinct: "distinct (keys_of one_value field x)"
  by (simp add: keys_of_def one_value_def hash_keys_def)

text \<open>
  The documented conditions: an adapter's \<open>unique_per_process\<close> values differ between the processes and its
  \<open>disjoint_per_process\<close> sets do not overlap between the processes. Nothing is said of one process's own list.
\<close>

definition placement_ok :: "bool \<Rightarrow> topology \<Rightarrow> adapter_index \<Rightarrow> adapter list \<Rightarrow> bool \<Rightarrow> bool" where
  "placement_ok win32 T known as share_load \<longleftrightarrow>
     set (dkeys known) = set (declared_keys T) \<and>
     (\<forall>(pid, e) \<in> set (all_specs T). e_shared e \<longrightarrow> (\<exists>a. dget known (e_key e) = Some a \<and> shareable win32 a)) \<and>
     (\<forall>(k, a) \<in> set known. 2 \<le> length (specs_of_key T k) \<longrightarrow>
        (\<forall>f \<in> set (a_unique a). processes_apart one_value f (specs_of_key T k)) \<and>
        (\<forall>f \<in> set (a_disjoint a). processes_apart field_values f (specs_of_key T k))) \<and>
     (\<exists>primary. primary_id T = Inr primary \<and>
        (\<forall>(k, a) \<in> set known. a_scaling a = Singleton \<longrightarrow> set (map fst (specs_of_key T k)) \<subseteq> {primary})) \<and>
     (share_load \<longrightarrow> (\<forall>a \<in> set as. a_scaling a \<noteq> Sharded))"

text \<open>What the code demands besides: no process lists a value of such a set twice.\<close>

definition lists_nothing_twice :: "topology \<Rightarrow> adapter_index \<Rightarrow> bool" where
  "lists_nothing_twice T known \<longleftrightarrow>
     (\<forall>(k, a) \<in> set known. 2 \<le> length (specs_of_key T k) \<longrightarrow>
        (\<forall>f \<in> set (a_disjoint a). \<forall>x \<in> set (specs_of_key T k). distinct (keys_of field_values f x)))"

text \<open>The one list it refuses against the documentation: \<open>a\<close> names a topic twice, \<open>b\<close> another one.\<close>

definition topics_of :: "string list \<Rightarrow> endpoint_spec" where
  "topics_of ts = \<lparr>e_kind = ''mqtt'', e_id = ''default'', e_host = None, e_port = None, e_path = None, e_shared = False,
     e_options = [(''topics'', YList (map YStr ts))]\<rparr>"

lemma own_repetition_refused:
  defines "specs \<equiv> [(''a'', topics_of [''x'', ''x'']), (''b'', topics_of [''y''])]"
  shows "processes_apart field_values ''topics'' specs"
    and "reject_overlap key ''topics'' specs = Inl (OverlappingSet key ''topics'' ''a'' ''a'')"
  unfolding specs_def
  by (auto simp: topics_of_def processes_apart_def all_hashable_def values_of_def keys_of_def hash_keys_def opt_get_def
      field_values_def py_key_def reject_overlap_def less_Suc_eq nth_Cons')

lemma check_shared_iff:
  "check_shared win32 known pid e = Inr () \<longleftrightarrow>
     (e_shared e \<longrightarrow> (\<exists>a. dget known (e_key e) = Some a \<and> shareable win32 a))"
proof (cases "dget known (e_key e)")
  case None
  then show ?thesis by (simp add: check_shared_def dindex_def)
next
  case (Some a)
  have "(sbind (share_strategy_of a) (\<lambda>strategy. if strategy = ShareNone then Inl (CannotShare pid (e_key e))
      else if strategy = ShareReusePort \<and> win32 then Inl (SharedOnWindows pid (e_key e)) else Inr ()) = Inr ())
    = shareable win32 a"
  proof (cases "a_share a")
    case (Share s)
    then show ?thesis by (cases s) (simp_all add: share_strategy_of_def shareable_def)
  qed (simp_all add: share_strategy_of_def shareable_def)
  then show ?thesis by (simp add: check_shared_def Some dindex_def)
qed

lemma orphans_fold:
  assumes "\<forall>a \<in> set as. \<exists>k. adapter_key a = Inr k"
  shows "sfold (\<lambda>a orphans. sbind (adapter_key a) (\<lambda>k.
              Inr (if k \<in> set D then orphans else orphans @ [describe a]))) as acc =
    Inr (acc @ map describe (filter (\<lambda>a. \<forall>k. adapter_key a = Inr k \<longrightarrow> k \<notin> set D) as))"
  using assms
proof (induction as arbitrary: acc)
  case (Cons a as)
  then obtain k where k: "adapter_key a = Inr k" by auto
  have "\<forall>a \<in> set as. \<exists>k. adapter_key a = Inr k" using Cons.prems by simp
  from Cons.IH [OF this] k show ?case by (cases "k \<in> set D") (simp_all del: split_paired_All)
qed simp

lemma reject_unknown_iff:
  assumes "index_adapters as = Inr known"
  shows "reject_unknown T as = Inr () \<longleftrightarrow> set (declared_keys T) \<subseteq> set (dkeys known)"
proof -
  have "filter (\<lambda>k. k \<notin> set (dkeys known)) (declared_keys T) = [] \<longleftrightarrow> set (declared_keys T) \<subseteq> set (dkeys known)"
    unfolding filter_empty_conv by blast
  then show ?thesis
    unfolding reject_unknown_def assms sbind_simps
    by (cases "filter (\<lambda>k. k \<notin> set (dkeys known)) (declared_keys T)") simp_all
qed

lemma reject_orphans_iff:
  assumes "index_adapters as = Inr known"
  shows "reject_orphans T as = Inr () \<longleftrightarrow> set (dkeys known) \<subseteq> set (declared_keys T)"
proof -
  note spec = index_adapters_spec [OF assms]
  have all: "\<forall>a \<in> set as. \<exists>k. adapter_key a = Inr k" using spec by blast
  have "reject_orphans T as = Inr () \<longleftrightarrow> (\<forall>a \<in> set as. \<exists>k. adapter_key a = Inr k \<and> k \<in> set (declared_keys T))"
    unfolding reject_orphans_def orphans_fold [OF all, of "declared_keys T" "[]"]
    by (auto simp: filter_empty_conv)
  also have "\<dots> \<longleftrightarrow> set (dkeys known) \<subseteq> set (declared_keys T)"
  proof
    assume L: "\<forall>a \<in> set as. \<exists>k. adapter_key a = Inr k \<and> k \<in> set (declared_keys T)"
    show "set (dkeys known) \<subseteq> set (declared_keys T)"
    proof
      fix k assume "k \<in> set (dkeys known)"
      then obtain x where "x \<in> set known" "fst x = k" by auto
      with spec have "snd x \<in> set as" "adapter_key (snd x) = Inr k" by blast+
      with L show "k \<in> set (declared_keys T)" by fastforce
    qed
  next
    assume "set (dkeys known) \<subseteq> set (declared_keys T)"
    with spec show "\<forall>a \<in> set as. \<exists>k. adapter_key a = Inr k \<and> k \<in> set (declared_keys T)" by blast
  qed
  finally show ?thesis .
qed

lemma check_sharding_iff:
  "check_sharding T key a = Inr () \<longleftrightarrow> (2 \<le> length (specs_of_key T key) \<longrightarrow>
     (\<forall>f \<in> set (a_unique a). processes_apart one_value f (specs_of_key T key)) \<and>
     (\<forall>f \<in> set (a_disjoint a). processes_apart field_values f (specs_of_key T key)) \<and>
     (\<forall>f \<in> set (a_disjoint a). \<forall>x \<in> set (specs_of_key T key). distinct (keys_of field_values f x)))"
  by (auto simp: check_sharding_def Let_def sbind_eq_Inr sfold_unit_iff reject_repeated_iff reject_overlap_iff
      all_distinct_apart one_value_distinct)

lemma reject_singletons_iff:
  assumes "index_adapters as = Inr known"
  shows "reject_singletons T as = Inr () \<longleftrightarrow> (\<exists>primary. primary_id T = Inr primary \<and>
        (\<forall>(k, a) \<in> set known. a_scaling a = Singleton \<longrightarrow> set (map fst (specs_of_key T k)) \<subseteq> {primary}))"
proof (cases "primary_id T")
  case (Inr primary)
  define f where "f k = filter (\<lambda>pid. pid \<noteq> primary) (map fst (specs_of_key T k))" for k
  have each: "(if a_scaling a \<noteq> Singleton then Inr () else (case f k of [] \<Rightarrow> Inr () | elsewhere \<Rightarrow> Inl (SingletonElsewhere k elsewhere))) = Inr ()
      \<longleftrightarrow> (a_scaling a = Singleton \<longrightarrow> set (map fst (specs_of_key T k)) \<subseteq> {primary})" for k a
  proof -
    have "f k = [] \<longleftrightarrow> set (map fst (specs_of_key T k)) \<subseteq> {primary}"
      unfolding f_def filter_empty_conv by blast
    then show ?thesis by (cases "f k") simp_all
  qed
  show ?thesis
    unfolding reject_singletons_def assms Inr sum.case sbind_simps sfold_unit_pairs f_def [symmetric] each by simp
qed (simp add: reject_singletons_def)

lemma placement_iff:
  "validate_against_adapters win32 T as share_load = Inr () \<longleftrightarrow>
     (\<exists>known. index_adapters as = Inr known \<and> placement_ok win32 T known as share_load \<and> lists_nothing_twice T known)"
proof (cases "index_adapters as")
  case (Inl e)
  then show ?thesis by (simp add: validate_against_adapters_def reject_unknown_def sbind_unit)
next
  case (Inr known)
  have share: "reject_unsupported_sharing win32 T as = Inr () \<longleftrightarrow>
      (\<forall>(pid, e) \<in> set (all_specs T). e_shared e \<longrightarrow> (\<exists>a. dget known (e_key e) = Some a \<and> shareable win32 a))"
    unfolding reject_unsupported_sharing_def Inr sbind_simps sfold_unit_pairs check_shared_iff ..
  have shard: "reject_bad_sharding T as = Inr () \<longleftrightarrow> (\<forall>(k, a) \<in> set known. check_sharding T k a = Inr ())"
    unfolding reject_bad_sharding_def Inr sbind_simps sfold_unit_pairs ..
  have sharded: "reject_sharded as = Inr () \<longleftrightarrow> (\<forall>a \<in> set as. a_scaling a \<noteq> Sharded)"
    by (cases "filter (\<lambda>a. a_scaling a = Sharded) as")
      (auto simp: reject_sharded_def filter_empty_conv, auto simp: filter_eq_Cons_iff)
  have "validate_against_adapters win32 T as share_load = Inr () \<longleftrightarrow>
      reject_unknown T as = Inr () \<and> reject_orphans T as = Inr () \<and> reject_unsupported_sharing win32 T as = Inr () \<and>
      reject_bad_sharding T as = Inr () \<and> reject_singletons T as = Inr () \<and> (share_load \<longrightarrow> reject_sharded as = Inr ())"
    by (auto simp: validate_against_adapters_def sbind_eq_Inr)
  also have "\<dots> \<longleftrightarrow> placement_ok win32 T known as share_load \<and> lists_nothing_twice T known"
    unfolding reject_unknown_iff [OF Inr] reject_orphans_iff [OF Inr] share shard check_sharding_iff
      reject_singletons_iff [OF Inr] sharded placement_ok_def lists_nothing_twice_def by blast
  finally show ?thesis using Inr by simp
qed


section \<open>Which process gets which socket\<close>

definition inherits :: "adapter_index \<Rightarrow> string \<times> string \<Rightarrow> bool" where
  "inherits known k \<longleftrightarrow> (\<exists>a. dget known k = Some a \<and> a_share a = Share ShareInherit)"

lemma bind_each_ok:
  assumes "bind_each env known es bound = Inr out"
  shows "(\<forall>a s. dget bound a = Some s \<longrightarrow> dget out a = Some s) \<and>
    (\<forall>a s. dget out a = Some s \<longrightarrow> dget bound a = Some s \<or> s \<in> set es \<and> e_shared s \<and> e_endpoint s = a \<and> inherits known (e_key s)) \<and>
    (\<forall>e \<in> set es. e_shared e \<and> inherits known (e_key e) \<longrightarrow> e_endpoint e \<in> set (dkeys out))"
  using assms
proof (induction es arbitrary: bound)
  case (Cons e es)
  show ?case
  proof (cases "\<not> e_shared e \<or> e_endpoint e \<in> set (dkeys bound)")
    case True
    then have run: "bind_each env known es bound = Inr out" using Cons.prems by simp
    note IH = Cons.IH [OF this]
    have "e_endpoint e \<in> set (dkeys out)" if "e_shared e"
    proof -
      have "e_endpoint e \<in> set (dkeys bound)" using True that by blast
      then obtain s where "dget bound (e_endpoint e) = Some s" using dget_None_keys [of bound "e_endpoint e"] by blast
      then have "dget out (e_endpoint e) = Some s" using IH by blast
      then show ?thesis by (rule dget_Some_keys)
    qed
    with IH show ?thesis by (simp only: set_simps) blast
  next
    case False
    then have new: "dget bound (e_endpoint e) = None" using dget_None_keys [of bound "e_endpoint e"] by blast
    obtain a strategy where a: "dget known (e_key e) = Some a" "share_strategy_of a = Inr strategy"
      using Cons.prems False by (auto simp: dindex_def split: sum.splits option.splits)
    have inh: "inherits known (e_key e) \<longleftrightarrow> strategy = ShareInherit"
      using a by (auto simp: inherits_def share_strategy_of_def split: share_attr.splits)
    show ?thesis
    proof (cases "strategy = ShareInherit")
      case True
      then have run: "bind_each env known es (dset (e_endpoint e) e bound) = Inr out"
        using Cons.prems False a by (simp add: dindex_def split: if_splits)
      note IH = Cons.IH [OF this]
      have e: "dget out (e_endpoint e) = Some e" using IH by simp
      then have "e_endpoint e \<in> set (dkeys out)" by (rule dget_Some_keys)
      moreover have "\<forall>x s. dget bound x = Some s \<longrightarrow> dget out x = Some s"
      proof (intro allI impI)
        fix x s assume "dget bound x = Some s"
        then show "dget out x = Some s" using IH new by (cases "x = e_endpoint e") simp_all
      qed
      moreover have "\<forall>x s. dget out x = Some s \<longrightarrow> dget bound x = Some s \<or>
          s \<in> set (e # es) \<and> e_shared s \<and> e_endpoint s = x \<and> inherits known (e_key s)"
      proof (intro allI impI)
        fix x s assume s: "dget out x = Some s"
        show "dget bound x = Some s \<or> s \<in> set (e # es) \<and> e_shared s \<and> e_endpoint s = x \<and> inherits known (e_key s)"
        proof (cases "x = e_endpoint e")
          case True
          then show ?thesis using s e False inh \<open>strategy = ShareInherit\<close> by simp
        next
          case False
          have "dget (dset (e_endpoint e) e bound) x = Some s \<or>
              s \<in> set es \<and> e_shared s \<and> e_endpoint s = x \<and> inherits known (e_key s)" using IH s by blast
          then show ?thesis using False by auto
        qed
      qed
      ultimately show ?thesis using IH by (simp only: set_simps) blast
    next
      case False
      then have run: "bind_each env known es bound = Inr out"
        using Cons.prems \<open>\<not> (\<not> e_shared e \<or> _)\<close> a by (simp add: dindex_def)
      from Cons.IH [OF this] inh False show ?thesis by (simp only: set_simps) blast
    qed
  qed
qed simp

lemma sockets_for_spec:
  assumes "sockets_for T pid bound = Inr socks" and "by_id T pid = Some b" and "block_ok b"
  shows "dget socks k = (case spec_for b k of None \<Rightarrow> None | Some e \<Rightarrow> if e_shared e then dget bound (e_endpoint e) else None)"
proof -
  define pick where "pick e = (if e_shared e then dget bound (e_endpoint e) else None)" for e
  define step where "step = (\<lambda>e out. case pick e of Some s \<Rightarrow> dset (e_key e) s out | None \<Rightarrow> out)"
  have socks: "socks = fold step (dvals (b_endpoints b)) []"
    using assms(1,2) by (simp add: sockets_for_def step_def pick_def)
  have gen: "distinct (dkeys d) \<Longrightarrow> \<forall>x \<in> set d. e_key (snd x) = fst x \<Longrightarrow> (\<forall>x \<in> set d. dget out (fst x) = None) \<Longrightarrow>
      dget (fold step (dvals d) out) k = (case dget d k of None \<Rightarrow> dget out k | Some e \<Rightarrow> pick e)" for d out
  proof (induction d arbitrary: out)
    case (Cons x d)
    obtain k' e where x: "x = (k', e)" by (cases x)
    have ek: "e_key e = k'" using Cons.prems(2) by (simp add: x)
    have notin: "k' \<notin> set (dkeys d)" using Cons.prems(1) by (simp add: x)
    have out: "\<forall>x \<in> set d. dget (step e out) (fst x) = None"
      using Cons.prems(3) notin by (auto simp: step_def ek split: option.split)
    have "dget (fold step (dvals (x # d)) out) k = (case dget d k of None \<Rightarrow> dget (step e out) k | Some e \<Rightarrow> pick e)"
      using Cons.IH [OF _ _ out] Cons.prems(1,2) by (simp add: x)
    also have "\<dots> = (case dget (x # d) k of None \<Rightarrow> dget out k | Some e \<Rightarrow> pick e)"
    proof (cases "k = k'")
      case True
      then have "dget d k = None" using notin by (simp only: dget_None_keys simp_thms)
      then show ?thesis using True Cons.prems(3) by (simp add: x step_def ek split: option.split)
    qed (simp add: x step_def ek split: option.split)
    finally show ?case .
  qed simp
  have "distinct (dkeys (b_endpoints b))" "\<forall>x \<in> set (b_endpoints b). e_key (snd x) = fst x"
    using assms(3) by (auto simp: block_ok_def)
  from gen [OF this, of "[]"] show ?thesis
    unfolding socks spec_for_def pick_def [symmetric] by (cases "dget (b_endpoints b) k") simp_all
qed

lemma shared_sockets:
  assumes "topology_ok T" and "index_adapters as = Inr known"
    and "bind_shared_sockets env T as = Inr bound" and "sockets_for T pid bound = Inr socks"
    and "by_id T pid = Some b" and "spec_for b k = Some e"
  shows "if e_shared e \<and> inherits known k
     then \<exists>s. dget socks k = Some s \<and> dget bound (e_endpoint e) = Some s \<and> e_endpoint s = e_endpoint e \<and> e_host s = e_host e \<and> e_key s = k
     else dget socks k = None"
proof -
  have bT: "b \<in> set T" "b_id b = pid" using by_id_Some [OF assms(5)] by simp_all
  have b: "block_ok b" using assms(1) bT by (simp add: topology_ok_def)
  have e: "e \<in> set (dvals (b_endpoints b))" "e_key e = k"
  proof -
    have "(k, e) \<in> set (b_endpoints b)" using assms(6) by (auto simp: spec_for_def dest: map_of_SomeD)
    then show "e \<in> set (dvals (b_endpoints b))" "e_key e = k" using b by (force simp: block_ok_def)+
  qed
  have elisten: "e_shared e \<Longrightarrow> e \<in> set (listening b)"
    using e b by (fastforce simp: listening_def block_ok_def endpoint_ok_def)
  have bind: "bind_each env known (map snd (all_specs T)) [] = Inr bound"
    using assms(2,3) by (simp add: bind_shared_sockets_def split: sum.splits prod.splits)
  note bound = bind_each_ok [OF this]
  have specs: "set (map snd (all_specs T)) = (\<Union>b' \<in> set T. set (dvals (b_endpoints b')))"
    by (force simp: all_specs_def)
  have get: "dget socks k = (if e_shared e then dget bound (e_endpoint e) else None)"
    using sockets_for_spec [OF assms(4,5) b, of k] assms(6) by simp
  have same: "e_host s = e_host e \<and> e_key s = k" if shared: "e_shared e" and s: "dget bound (e_endpoint e) = Some s" for s
  proof -
    have s': "s \<in> set (map snd (all_specs T))" "e_shared s" "e_endpoint s = e_endpoint e"
      using bound s by auto
    then obtain b' where b': "b' \<in> set T" "s \<in> set (dvals (b_endpoints b'))" using specs by auto
    have blk: "block_ok b'" using assms(1) b' by (simp add: topology_ok_def)
    have sl: "s \<in> set (listening b')" using s' b' blk by (fastforce simp: listening_def block_ok_def endpoint_ok_def)
    show ?thesis
    proof (cases "b_id b' = b_id b")
      case True
      have "b' = b" using assms(1) b'(1) bT True by (auto simp: topology_ok_def ids_def distinct_map inj_on_def)
      moreover have "inj_on e_endpoint (set (listening b))" using b by (simp add: block_ok_def distinct_map)
      ultimately have "s = e" using sl elisten [OF shared] s'(3) by (simp add: inj_on_eq_iff)
      then show ?thesis using e by simp
    next
      case False
      then have "compatible s e"
        using assms(1) b'(1) bT(1) sl elisten [OF shared] s'(3) unfolding topology_ok_def by blast
      then show ?thesis using e by (simp add: compatible_def)
    qed
  qed
  show ?thesis
  proof (cases "e_shared e \<and> inherits known k")
    case True
    have "e \<in> set (map snd (all_specs T))" using specs bT e by blast
    then have "e_endpoint e \<in> set (dkeys bound)" using bound True e by blast
    then obtain s where s: "dget bound (e_endpoint e) = Some s" using dget_None_keys [of bound "e_endpoint e"] by blast
    have "e_endpoint s = e_endpoint e" using bound s by auto
    then show ?thesis using True s same [OF _ s] get by simp
  next
    case False
    have "dget bound (e_endpoint e) = None" if "e_shared e"
    proof (rule ccontr)
      assume "dget bound (e_endpoint e) \<noteq> None"
      then obtain s where s: "dget bound (e_endpoint e) = Some s" by blast
      then have "inherits known (e_key s)" using bound by auto
      then show False using same [OF that s] that False by simp
    qed
    then show ?thesis using get False by auto
  qed
qed


section \<open>The slots of the processes\<close>

lemma prepare_fold:
  assumes "\<forall>a \<in> set as. a_takes_slot a \<and> adapter_key a = Inr (key a)"
  shows "sfold (\<lambda>a active. sbind (adapter_key a) (\<lambda>key.
                 case spec a key of None \<Rightarrow> Inr active
                 | Some e \<Rightarrow> sbind (assign a (sl e key)) (\<lambda>x. Inr (active @ [x])))) as acc
    = Inr (acc @ List.map_filter (\<lambda>a. map_option (\<lambda>e. (a, sl e (key a))) (spec a (key a))) as)"
  using assms
proof (induction as arbitrary: acc)
  case (Cons a as)
  then show ?case
    by (cases "spec a (key a)") (simp_all add: assign_def map_filter_simps)
qed (simp add: map_filter_simps)

lemma by_id_ids: "pid \<in> set (ids T) \<longleftrightarrow> (\<exists>b. by_id T pid = Some b)"
  by (induction T) (auto simp: ids_def)

lemma by_id_distinct: "distinct (ids T) \<Longrightarrow> b \<in> set T \<Longrightarrow> by_id T (b_id b) = Some b"
  by (induction T) (auto simp: ids_def)

lemma primary_of_ok:
  assumes "topology_ok T"
  shows "\<exists>pb. primary_id T = Inr (b_id pb) \<and> by_id T (b_id pb) = Some pb \<and> b_primary pb \<and>
    (\<forall>b \<in> set T. b_primary b \<longleftrightarrow> b = pb)"
proof -
  obtain pb where pb: "filter b_primary T = [pb]"
    using assms by (auto simp: topology_ok_def length_Suc_conv)
  have filt: "set (filter b_primary T) = {pb}" using pb by simp
  have "pb \<in> set T" "b_primary pb" using filt by auto
  moreover have "\<forall>b \<in> set T. b_primary b \<longleftrightarrow> b = pb"
  proof
    fix b assume "b \<in> set T"
    then have "b_primary b \<longleftrightarrow> b \<in> set (filter b_primary T)" by simp
    then show "b_primary b \<longleftrightarrow> b = pb" unfolding filt by simp
  qed
  moreover have "distinct (ids T)" using assms by (simp add: topology_ok_def)
  ultimately show ?thesis using by_id_distinct [of T pb] pb by (intro exI [of _ pb]) (simp add: primary_id_def)
qed

lemma prepare_worker_eq:
  assumes T: "topology_ok T" and known: "index_adapters as = Inr known" and takes: "\<forall>a \<in> set as. a_takes_slot a"
    and b: "by_id T pid = Some b" and pb: "primary_id T = Inr primary" "by_id T primary = Some pb"
  shows "prepare_worker T as pid socks single = Inr (List.map_filter (\<lambda>a.
     map_option (\<lambda>e. (a, \<lparr>sl_process = pid, sl_primary = b_primary b, sl_spec = e,
       sl_sock = dget socks (projr (adapter_key a)), sl_single = single\<rparr>))
       (spec_of_worker b (Some pb) a (projr (adapter_key a)))) as)"
proof -
  have "\<forall>a \<in> set as. a_takes_slot a \<and> adapter_key a = Inr (projr (adapter_key a))"
    using takes index_adapters_spec [OF known] by fastforce
  from prepare_fold [where spec = "spec_of_worker b (Some pb)" and acc = "[]" and sl = "\<lambda>e key. \<lparr>sl_process = pid,
      sl_primary = b_primary b, sl_spec = e, sl_sock = dget socks key, sl_single = single\<rparr>", OF this]
  show ?thesis by (simp add: prepare_worker_def b pb)
qed

lemma spec_for_key:
  assumes "topology_ok T" and "b \<in> set T" and "dget (b_endpoints b) k = Some e"
  shows "e_key e = k"
  using assms by (auto simp: topology_ok_def block_ok_def dest!: map_of_SomeD)

lemma worker_slots:
  assumes T: "topology_ok T" and known: "index_adapters as = Inr known" and ok: "placement_ok win32 T known as share_load"
    and takes: "\<forall>a \<in> set as. a_takes_slot a"
  shows "(\<forall>pid \<in> set (ids T). \<exists>slots. prepare_worker T as pid (socks pid) single = Inr slots \<and>
       (\<forall>(a, s) \<in> set slots. a \<in> set as \<and> sl_process s = pid \<and> (sl_primary s \<longleftrightarrow> primary_id T = Inr pid) \<and>
          adapter_key a = Inr (e_key (sl_spec s)) \<and> sl_sock s = dget (socks pid) (e_key (sl_spec s)) \<and>
          (\<exists>home b. by_id T home = Some b \<and> spec_for b (e_key (sl_spec s)) = Some (sl_spec s) \<and>
             (home = pid \<or> a_scaling a = Singleton \<and> primary_id T = Inr home)))) \<and>
    (\<forall>a \<in> set as. \<exists>pid \<in> set (ids T). \<exists>slots. prepare_worker T as pid (socks pid) single = Inr slots \<and> a \<in> fst ` set slots)"
proof -
  obtain pb where pb: "primary_id T = Inr (b_id pb)" "by_id T (b_id pb) = Some pb" "\<forall>b \<in> set T. b_primary b \<longleftrightarrow> b = pb"
    using primary_of_ok [OF T] by blast
  define run where "run pid b = List.map_filter (\<lambda>a.
     map_option (\<lambda>e. (a, \<lparr>sl_process = pid, sl_primary = b_primary b, sl_spec = e,
       sl_sock = dget (socks pid) (projr (adapter_key a)), sl_single = single\<rparr>))
       (spec_of_worker b (Some pb) a (projr (adapter_key a)))) as" for pid b
  have eq: "prepare_worker T as pid (socks pid) single = Inr (run pid b)" if "by_id T pid = Some b" for pid b
    unfolding run_def by (rule prepare_worker_eq [OF T known takes that pb(1,2)])
  have dist: "distinct (ids T)" using T by (simp add: topology_ok_def)
  have idx: "\<exists>k. adapter_key a = Inr k \<and> k \<in> set (dkeys known)" if "a \<in> set as" for a
    using index_adapters_spec [OF known] that by blast
  have pT: "pb \<in> set T" using by_id_Some [OF pb(2)] by simp
  have 1: "a \<in> set as \<and> sl_process s = pid \<and> (sl_primary s \<longleftrightarrow> primary_id T = Inr pid) \<and>
          adapter_key a = Inr (e_key (sl_spec s)) \<and> sl_sock s = dget (socks pid) (e_key (sl_spec s)) \<and>
          (\<exists>home b. by_id T home = Some b \<and> spec_for b (e_key (sl_spec s)) = Some (sl_spec s) \<and>
             (home = pid \<or> a_scaling a = Singleton \<and> primary_id T = Inr home))"
    if b: "by_id T pid = Some b" and s: "(a, s) \<in> set (run pid b)" for pid b a s
  proof -
    obtain e where e: "a \<in> set as" "spec_of_worker b (Some pb) a (projr (adapter_key a)) = Some e"
      "s = \<lparr>sl_process = pid, sl_primary = b_primary b, sl_spec = e,
       sl_sock = dget (socks pid) (projr (adapter_key a)), sl_single = single\<rparr>"
      using s by (auto simp: run_def map_filter_def)
    obtain k where k: "adapter_key a = Inr k" using idx e(1) by blast
    have bT: "b \<in> set T" "b_id b = pid" using by_id_Some [OF b] by simp_all
    have home: "\<exists>home h. by_id T home = Some h \<and> dget (b_endpoints h) k = Some e \<and>
        (home = pid \<or> a_scaling a = Singleton \<and> primary_id T = Inr home)"
      using e(2) b pb(1,2) by (auto simp: spec_of_worker_def k split: option.splits if_splits)
    then have "e_key e = k" using spec_for_key [OF T] by_id_Some by blast
    moreover have "b_primary b \<longleftrightarrow> primary_id T = Inr pid"
    proof -
      have "b = pb \<longleftrightarrow> b_id b = b_id pb"
        using by_id_distinct [OF dist bT(1)] by_id_distinct [OF dist pT] by (metis option.inject)
      then show ?thesis using pb(1,3) bT by (metis sum.inject(2))
    qed
    ultimately show ?thesis using home e k by (simp add: spec_for_def)
  qed
  have 2: "\<exists>pid \<in> set (ids T). \<exists>slots. prepare_worker T as pid (socks pid) single = Inr slots \<and> a \<in> fst ` set slots"
    if a: "a \<in> set as" for a
  proof -
    obtain k where k: "adapter_key a = Inr k" "k \<in> set (dkeys known)" using idx a by blast
    then have "k \<in> set (declared_keys T)" using ok unfolding placement_ok_def by blast
    then obtain b where b: "b \<in> set T" "k \<in> set (dkeys (b_endpoints b))" by (auto simp: declared_keys_def)
    then obtain e where e: "dget (b_endpoints b) k = Some e" using dget_None_keys [of "b_endpoints b" k] by blast
    have id: "by_id T (b_id b) = Some b" using by_id_distinct [OF dist b(1)] .
    have "a \<in> fst ` set (run (b_id b) b)"
      using a e k by (force simp: run_def map_filter_def spec_of_worker_def image_iff)
    moreover have "b_id b \<in> set (ids T)" using b(1) by (simp add: ids_def)
    ultimately show ?thesis using eq [OF id] by blast
  qed
  show ?thesis
  proof (intro conjI ballI)
    fix pid assume "pid \<in> set (ids T)"
    then obtain b where b: "by_id T pid = Some b" using by_id_ids by blast
    show "\<exists>slots. prepare_worker T as pid (socks pid) single = Inr slots \<and>
       (\<forall>(a, s) \<in> set slots. a \<in> set as \<and> sl_process s = pid \<and> (sl_primary s \<longleftrightarrow> primary_id T = Inr pid) \<and>
          adapter_key a = Inr (e_key (sl_spec s)) \<and> sl_sock s = dget (socks pid) (e_key (sl_spec s)) \<and>
          (\<exists>home b. by_id T home = Some b \<and> spec_for b (e_key (sl_spec s)) = Some (sl_spec s) \<and>
             (home = pid \<or> a_scaling a = Singleton \<and> primary_id T = Inr home)))"
      by (rule exI [of _ "run pid b"], rule conjI, rule eq [OF b]) (use 1 [OF b] in blast)
  qed (rule 2)
qed


section \<open>A shared unix socket\<close>

text \<open>Whenever the parent listens on a socket file, the file was first restricted to its owner.\<close>

lemma unix_socket_private:
  assumes "Listen n \<in> set (fst (bind_unix env e path))"
  shows "\<exists>before after. fst (bind_unix env e path) = before @ [BindPath path, Chmod600 path, Listen n] @ after \<and>
    os_works env e (BindPath path) \<and> os_works env e (Chmod600 path) \<and> Listen n \<notin> set before"
proof -
  define before where "before = MakeDirs (os_parent env path) # (if os_present env path then [RemovePath path] else []) @ [OpenUnix]"
  have "os_works env e (BindPath path)" "os_works env e (Chmod600 path)" "\<not> os_win32 env" "n = backlog"
    and "\<exists>after. fst (bind_unix env e path) = before @ [BindPath path, Chmod600 path, Listen n] @ after"
    using assms unfolding bind_unix_def unix_calls_def before_def by (auto split: if_splits)
  moreover have "Listen n \<notin> set before" by (simp add: before_def)
  ultimately show ?thesis by blast
qed

section \<open>Properties\<close>

text \<open>
  C6: the start-up checks are exact. \<open>validate_against_adapters\<close> passes exactly when the documented conditions hold
  (every adapter has a key and the registered keys are the declared ones, every shared endpoint belongs to an
  adapter that can share on this platform, the \<open>unique_per_process\<close> values of an adapter in several processes
  differ between any two of them, its \<open>disjoint_per_process\<close> sets do not overlap between any two of them, all of
  these values are hashable, singletons are declared in the primary process only, and no adapter is sharded
  under load sharing) and, beyond the documentation, no process lists a value of a disjoint set twice: the
  code reports such a list as an overlap of the process with itself.
\<close>

theorem validation_exact:
  "validate_against_adapters win32 T as share_load = Inr () \<longleftrightarrow>
     (\<exists>known. index_adapters as = Inr known \<and> placement_ok win32 T known as share_load \<and> lists_nothing_twice T known)"
  by (rule placement_iff)

text \<open>
  Who gets which socket. Once the parent has bound the shared sockets of a well-formed topology, a process
  inherits a socket for exactly those of its endpoints that are shared by inheritance, and it is the one
  socket bound at that address on that host, so all processes that share an address get the same one.
\<close>
theorem sockets_shared:
  assumes "topology_ok T" and "index_adapters as = Inr known"
    and "bind_shared_sockets env T as = Inr bound" and "sockets_for T pid bound = Inr socks"
    and "by_id T pid = Some b" and "spec_for b k = Some e"
  shows "if e_shared e \<and> inherits known k
     then \<exists>s. dget socks k = Some s \<and> dget bound (e_endpoint e) = Some s \<and> e_endpoint s = e_endpoint e \<and> e_host s = e_host e \<and> e_key s = k
     else dget socks k = None"
  using assms by (rule shared_sockets)

text \<open>
  Who runs which adapter. On a validated deployment \<open>prepare_worker\<close> succeeds in every process. Each slot
  it hands out names its process, knows whether that process is the primary, and carries the endpoint declared
  there for the adapter's key (for a singleton also the primary's) with the socket of that key. No
  adapter is left without a process.
\<close>

theorem slots_assigned:
  assumes "topology_ok T" and "validate_against_adapters win32 T as share_load = Inr ()"
    and "\<forall>a \<in> set as. a_takes_slot a"
  shows "(\<forall>pid \<in> set (ids T). \<exists>slots. prepare_worker T as pid (socks pid) single = Inr slots \<and>
       (\<forall>(a, s) \<in> set slots. a \<in> set as \<and> sl_process s = pid \<and> (sl_primary s \<longleftrightarrow> primary_id T = Inr pid) \<and>
          adapter_key a = Inr (e_key (sl_spec s)) \<and> sl_sock s = dget (socks pid) (e_key (sl_spec s)) \<and>
          (\<exists>home b. by_id T home = Some b \<and> spec_for b (e_key (sl_spec s)) = Some (sl_spec s) \<and>
             (home = pid \<or> a_scaling a = Singleton \<and> primary_id T = Inr home)))) \<and>
    (\<forall>a \<in> set as. \<exists>pid \<in> set (ids T). \<exists>slots. prepare_worker T as pid (socks pid) single = Inr slots \<and> a \<in> fst ` set slots)"
proof -
  obtain known where "index_adapters as = Inr known" "placement_ok win32 T known as share_load"
    using assms(2) placement_iff by blast
  then show ?thesis by (rule worker_slots [OF assms(1) _ _ assms(3)])
qed

text \<open>The example deployment with one web adapter that inherits its shared sockets, all calls working.\<close>

definition example_adapters :: "adapter list" where
  "example_adapters = [\<lparr>a_type = ''WebAdapter'', a_kind = Some ''web'', a_id = Some ''default'', a_share = Share ShareInherit,
     a_scaling = OtherScaling, a_unique = [], a_disjoint = [], a_takes_slot = True\<rparr>]"

definition example_env :: os_env where
  "example_env = \<lparr>os_works = \<lambda>_ _. True, os_present = \<lambda>_. False, os_parent = id, os_win32 = False\<rparr>"

definition example_endpoint :: endpoint_spec where
  "example_endpoint = \<lparr>e_kind = ''web'', e_id = ''default'', e_host = None, e_port = Some 9000, e_path = None, e_shared = True,
     e_options = [(''port'', YInt 9000), (''shared'', YBool True)]\<rparr>"

lemma example_bound: "bind_shared_sockets example_env example_blocks example_adapters = Inr [(Tcp (Some 9000), example_endpoint)]"
  by code_simp

lemma sockets_shared_witness:
  "\<exists>socks. sockets_for example_blocks ''work-2'' [(Tcp (Some 9000), example_endpoint)] = Inr socks \<and>
     dget socks (''web'', ''default'') = Some example_endpoint"
proof -
  have known: "index_adapters example_adapters = Inr [((''web'', ''default''), hd example_adapters)]" by code_simp
  have b: "by_id example_blocks ''work-2'' = Some (example_blocks ! 2)" by code_simp
  have e: "spec_for (example_blocks ! 2) (''web'', ''default'') = Some example_endpoint" by code_simp
  obtain socks where socks: "sockets_for example_blocks ''work-2'' [(Tcp (Some 9000), example_endpoint)] = Inr socks"
    using b by (simp add: sockets_for_def)
  have "e_shared example_endpoint" "inherits [((''web'', ''default''), hd example_adapters)] (''web'', ''default'')"
    by (simp_all add: example_endpoint_def inherits_def example_adapters_def)
  with sockets_shared [OF build_topology_ok [OF example_builds] known example_bound socks b e] socks
  show ?thesis by (auto simp: example_endpoint_def e_endpoint_def)
qed

lemma slots_assigned_witness:
  "\<exists>pid \<in> set (ids example_blocks). \<exists>slots.
     prepare_worker example_blocks example_adapters pid [] False = Inr slots \<and> hd example_adapters \<in> fst ` set slots"
proof -
  have "validate_against_adapters False example_blocks example_adapters True = Inr ()" by code_simp
  moreover have "\<forall>a \<in> set example_adapters. a_takes_slot a" "hd example_adapters \<in> set example_adapters"
    by (simp_all add: example_adapters_def)
  ultimately show ?thesis
    using slots_assigned [OF build_topology_ok [OF example_builds], of False example_adapters True "\<lambda>_. []" False] by blast
qed

end
