(* ===== verification/Supervisor.thy ===== *)
theory Supervisor
  imports Placement Control
begin

text \<open>
  The supervisor (second half of \<open>xime/core/bootstrap/_supervisor.py\<close>) and the heartbeat table
  (\<open>_watchdog.py\<close>). Instants and durations are microseconds; each reading of the monotonic clock is an argument,
  as is what the operating system says of a process (\<open>alive\<close>, by the number of its start) and
  whether a start or an announcement works. An exception carries the state it leaves behind.
\<close>

section \<open>Heartbeats\<close>

definition second :: int where "second = 1000000"

definition silence_limit :: int where "silence_limit = 60 * second"
definition startup_grace :: int where "startup_grace = 60 * second"

text \<open>One cell per process: the instant of the last beat (0 is never) and the number of beats.\<close>

record heartbeats =
  h_slots :: nat
  h_cells :: "(int \<times> nat) list"

definition create_beats :: "nat \<Rightarrow> heartbeats" where
  "create_beats slots = \<lparr>h_slots = slots, h_cells = replicate slots (0, 0)\<rparr>"

definition attach_beats :: "heartbeats \<Rightarrow> nat \<Rightarrow> heartbeats option" where
  "attach_beats block slots = (if h_slots block = slots then Some block else None)"

definition read_beat :: "heartbeats \<Rightarrow> nat \<Rightarrow> int \<times> nat" where
  "read_beat b i = h_cells b ! i"

text \<open>The counter is 8 bytes wide; packing a larger number raises.\<close>

definition pat :: "int \<Rightarrow> heartbeats \<Rightarrow> nat \<Rightarrow> heartbeats option" where
  "pat now b i =
     (let n = snd (read_beat b i) + 1
      in if n < 2 ^ 64 then Some (b\<lparr>h_cells := (h_cells b)[i := (now, n)]\<rparr>) else None)"

definition beat_count :: "heartbeats \<Rightarrow> nat \<Rightarrow> nat" where
  "beat_count b i = snd (read_beat b i)"

definition reset_beat :: "heartbeats \<Rightarrow> nat \<Rightarrow> heartbeats" where
  "reset_beat b i = b\<lparr>h_cells := (h_cells b)[i := (0, 0)]\<rparr>"

text \<open>\<open>Never\<close> is \<open>None\<close>, \<open>Forever\<close> is \<open>float('inf')\<close>.\<close>

datatype silence = Never | Forever | SilentFor int

definition silent_for :: "heartbeats \<Rightarrow> nat \<Rightarrow> int \<Rightarrow> silence" where
  "silent_for b i now =
     (case read_beat b i of (beat, n) \<Rightarrow>
        if n = 0 then Never else if beat = 0 then Forever else SilentFor (now - beat))"

section \<open>State\<close>

datatype kill_reason = NoBeatFor int | LoopBlocked silence

datatype death = StillRunning | OnItsOwn | OtherParent | BySignal int

definition foreign_death :: "bool \<Rightarrow> int option \<Rightarrow> death" where
  "foreign_death win32 code =
     (case code of
        None \<Rightarrow> StillRunning
      | Some n \<Rightarrow> if 0 \<le> n then OnItsOwn else if win32 \<and> n = -15 then OtherParent else BySignal (- n))"

datatype sup_event =
    Started string nat bool bool nat
  | Sent control_key "byte list"
  | Promoting string int
  | KilledChild nat
  | TerminatedChild nat
  | Slept int
  | WarnedSilent string nat
  | DiedAgain string nat int
  | Exited string "kill_reason + death"

record sup =
  s_children :: "(string, nat) dict"
  s_spawned_at :: "(string, int) dict"
  s_warned :: "(string, nat) dict"
  s_killed_by_me :: "(string, kill_reason) dict"
  s_respawns :: "(string, nat) dict"
  s_stopping :: bool
  s_primary :: "string option"
  s_run_once_done :: bool
  s_promotions :: "int list"
  s_promotion_stopped :: bool
  s_beats :: "heartbeats option"
  s_next :: nat
  s_events :: "sup_event list"

record cluster =
  c_topology :: topology
  c_bound :: sockets
  c_has_link :: bool
  c_announces :: "control_key \<Rightarrow> byte list \<Rightarrow> bool"
  c_win32 :: bool

datatype sup_error = NoBlock string | StartFailed string | RespawnOverflow | NoPrimaryInTopology

type_synonym 'a sup_result = "(sup_error \<times> sup) + 'a"

definition c_ids :: "cluster \<Rightarrow> string list" where "c_ids c = ids (c_topology c)"

definition emit :: "sup_event \<Rightarrow> sup \<Rightarrow> sup" where
  "emit ev s = s\<lparr>s_events := s_events s @ [ev]\<rparr>"

definition new_sup :: "cluster \<Rightarrow> heartbeats option \<Rightarrow> topo_error + sup" where
  "new_sup c beats =
     (case primary_id (c_topology c) of
        Inl e \<Rightarrow> Inl e
      | Inr p \<Rightarrow> Inr \<lparr>s_children = [], s_spawned_at = [], s_warned = [], s_killed_by_me = [], s_respawns = [],
          s_stopping = False, s_primary = Some p, s_run_once_done = False, s_promotions = [], s_promotion_stopped = False,
          s_beats = beats, s_next = 0, s_events = []\<rparr>)"

fun index_of :: "string \<Rightarrow> string list \<Rightarrow> nat option" where
  "index_of x [] = None"
| "index_of x (y # ys) = (if x = y then Some 0 else map_option Suc (index_of x ys))"

section \<open>Starting a process\<close>

definition ordered_ids :: "cluster \<Rightarrow> topo_error + string list" where
  "ordered_ids c = sbind (primary_id (c_topology c)) (\<lambda>p. Inr (p # filter (\<lambda>i. i \<noteq> p) (c_ids c)))"

definition spawn :: "cluster \<Rightarrow> bool \<Rightarrow> int \<Rightarrow> string \<Rightarrow> sup \<Rightarrow> sup sup_result" where
  "spawn c starts now pid s =
     (case sockets_for (c_topology c) pid (c_bound c) of
        Inl _ \<Rightarrow> Inl (NoBlock pid, s)
      | Inr socks \<Rightarrow>
          (case index_of pid (c_ids c) of
             None \<Rightarrow> Inl (NoBlock pid, s)
           | Some i \<Rightarrow>
               let primary = (s_primary s = Some pid);
                   s1 = s\<lparr>s_beats := map_option (\<lambda>b. reset_beat b i) (s_beats s)\<rparr>
               in if \<not> starts then Inl (StartFailed pid, s1)
                  else Inr (emit (Started pid i primary (primary \<and> \<not> s_run_once_done s) (s_next s))
                    (s1\<lparr>s_children := dset pid (s_next s) (s_children s), s_next := Suc (s_next s),
                      s_spawned_at := dset pid now (s_spawned_at s), s_killed_by_me := ddel pid (s_killed_by_me s)\<rparr>))))"

section \<open>The primary role\<close>

definition promotion_limit :: nat where "promotion_limit = 3"
definition promotion_window :: int where "promotion_window = 60 * second"

definition announce_control :: "cluster \<Rightarrow> control_key \<Rightarrow> byte list \<Rightarrow> sup \<Rightarrow> sup" where
  "announce_control c key payload s = (if c_announces c key payload then emit (Sent key payload) s else s)"

definition is_alive :: "(nat \<Rightarrow> bool) \<Rightarrow> sup \<Rightarrow> string \<Rightarrow> bool" where
  "is_alive alive s pid = (case dget (s_children s) pid of Some h \<Rightarrow> alive h | None \<Rightarrow> False)"

definition promote_candidate :: "cluster \<Rightarrow> (nat \<Rightarrow> bool) \<Rightarrow> string option \<Rightarrow> string option \<Rightarrow> sup \<Rightarrow> string option" where
  "promote_candidate c alive exclude restart s =
     (case filter (\<lambda>pid. Some pid \<noteq> exclude \<and> is_alive alive s pid) (c_ids c) of
        pid # _ \<Rightarrow> Some pid
      | [] \<Rightarrow> restart)"

definition promote_someone ::
  "cluster \<Rightarrow> (nat \<Rightarrow> bool) \<Rightarrow> int \<Rightarrow> string option \<Rightarrow> string option \<Rightarrow> sup \<Rightarrow> sup" where
  "promote_someone c alive now exclude restart s =
     (if \<not> c_has_link c \<or> s_promotion_stopped s then s
      else let recent = filter (\<lambda>t. now - t < promotion_window) (s_promotions s);
               s1 = s\<lparr>s_promotions := recent\<rparr>
           in if promotion_limit \<le> length recent then s1\<lparr>s_promotion_stopped := True, s_primary := None\<rparr>
              else case promote_candidate c alive exclude restart s of
                     None \<Rightarrow> s1\<lparr>s_primary := None\<rparr>
                   | Some pid \<Rightarrow>
                       let s2 = emit (Promoting pid now) (s1\<lparr>s_promotions := recent @ [now], s_primary := Some pid\<rparr>)
                       in if Some pid = restart then s2
                          else case index_of pid (c_ids c) of
                                 None \<Rightarrow> s2
                               | Some i \<Rightarrow> announce_control c Promote (pack (int i) [] (if s_run_once_done s then 0 else 1)) s2)"

section \<open>Restarting a dead process\<close>

definition respawn_delay :: int where "respawn_delay = second"
definition respawn_delay_max :: int where "respawn_delay_max = 30 * second"
definition respawn_reset_after :: int where "respawn_reset_after = 60 * second"

text \<open>
  \<open>1.0 * 2 ** (n - 1)\<close> is a float: the power is an integer, and multiplying converts it, which
  raises \<open>OverflowError\<close> from \<open>2 ** 1024\<close> on.
\<close>

definition backoff :: "nat \<Rightarrow> int option" where
  "backoff n = (if 1024 \<le> n - 1 then None else Some (min (respawn_delay * 2 ^ (n - 1)) respawn_delay_max))"

text \<open>What a restart meets: who is alive, the exit code, three clock readings, whether the start works.\<close>

record restart =
  r_alive :: "nat \<Rightarrow> bool"
  r_code :: "int option"
  r_promote_at :: int
  r_check_at :: int
  r_spawn_at :: int
  r_starts :: bool

definition exit_reason :: "cluster \<Rightarrow> restart \<Rightarrow> string \<Rightarrow> sup \<Rightarrow> kill_reason + death" where
  "exit_reason c r pid s =
     (case dget (s_killed_by_me s) pid of Some k \<Rightarrow> Inl k | None \<Rightarrow> Inr (foreign_death (c_win32 c) (r_code r)))"

text \<open>The report of the death, and the role of a dead primary handed on.\<close>

definition hand_over :: "cluster \<Rightarrow> restart \<Rightarrow> string \<Rightarrow> sup \<Rightarrow> sup" where
  "hand_over c r pid s =
     (let s2 = emit (Exited pid (exit_reason c r pid s)) (s\<lparr>s_killed_by_me := ddel pid (s_killed_by_me s)\<rparr>)
      in if s_primary s2 = Some pid
         then promote_someone c (r_alive r) (r_promote_at r) (Some pid) (Some pid) (s2\<lparr>s_primary := None\<rparr>)
         else s2)"

text \<open>How many times in a row the process has died; a long life starts the count again.\<close>

definition deaths_in_row :: "restart \<Rightarrow> string \<Rightarrow> sup \<Rightarrow> nat" where
  "deaths_in_row r pid s =
     dget_default 0 (if respawn_reset_after \<le> r_check_at r - dget_default 0 (s_spawned_at s) pid
       then ddel pid (s_respawns s) else s_respawns s) pid + 1"

definition count_death :: "restart \<Rightarrow> string \<Rightarrow> sup \<Rightarrow> sup" where
  "count_death r pid s = s\<lparr>s_respawns := dset pid (deaths_in_row r pid s)
     (if respawn_reset_after \<le> r_check_at r - dget_default 0 (s_spawned_at s) pid then ddel pid (s_respawns s) else s_respawns s)\<rparr>"

definition pause :: "string \<Rightarrow> nat \<Rightarrow> int \<Rightarrow> sup \<Rightarrow> sup" where
  "pause pid n wait s = emit (Slept wait) (if 1 < n then emit (DiedAgain pid n wait) s else s)"

definition respawn :: "cluster \<Rightarrow> restart \<Rightarrow> string \<Rightarrow> sup \<Rightarrow> sup sup_result" where
  "respawn c r pid s =
     (case dget (s_children s) pid of
        None \<Rightarrow> Inr s
      | Some _ \<Rightarrow>
          let s1 = s\<lparr>s_children := ddel pid (s_children s)\<rparr>
          in if s_stopping s then Inr s1
             else let s3 = hand_over c r pid s1; n = deaths_in_row r pid s3; s4 = count_death r pid s3
                  in case backoff n of
                       None \<Rightarrow> Inl (RespawnOverflow, s4)
                     | Some wait \<Rightarrow> spawn c (r_starts r) (r_spawn_at r) pid (pause pid n wait s4))"

section \<open>Watching the children\<close>

definition warn_levels :: "int list" where "warn_levels = [10 * second, 25 * second, 45 * second]"

definition warn_silence :: "string \<Rightarrow> int \<Rightarrow> sup \<Rightarrow> sup" where
  "warn_silence pid silent s =
     (let level = length (filter (\<lambda>l. l \<le> silent) warn_levels)
      in if level = 0 then s\<lparr>s_warned := ddel pid (s_warned s)\<rparr>
         else if level \<le> dget_default 0 (s_warned s) pid then s
         else emit (WarnedSilent pid level) (s\<lparr>s_warned := dset pid level (s_warned s)\<rparr>))"

definition kill_child :: "string \<Rightarrow> nat \<Rightarrow> kill_reason \<Rightarrow> sup \<Rightarrow> sup" where
  "kill_child pid h reason s =
     emit (KilledChild h) (s\<lparr>s_killed_by_me := dset pid reason (s_killed_by_me s), s_warned := ddel pid (s_warned s)\<rparr>)"

definition reap_one :: "cluster \<Rightarrow> heartbeats \<Rightarrow> (nat \<Rightarrow> bool) \<Rightarrow> int \<Rightarrow> string \<times> nat \<Rightarrow> sup \<Rightarrow> sup sup_result" where
  "reap_one c beats alive now child s =
     (case child of (pid, h) \<Rightarrow>
        if \<not> alive h then Inr s
        else case index_of pid (c_ids c) of
               None \<Rightarrow> Inl (NoBlock pid, s)
             | Some i \<Rightarrow>
                 let age = now - dget_default 0 (s_spawned_at s) pid
                 in case silent_for beats i now of
                      Never \<Rightarrow> if age \<le> startup_grace then Inr s else Inr (kill_child pid h (NoBeatFor age) s)
                    | Forever \<Rightarrow> Inr (kill_child pid h (LoopBlocked Forever) s)
                    | SilentFor d \<Rightarrow> if silence_limit < d then Inr (kill_child pid h (LoopBlocked (SilentFor d)) s)
                                     else Inr (warn_silence pid d s))"

definition reap_hung :: "cluster \<Rightarrow> (nat \<Rightarrow> bool) \<Rightarrow> int \<Rightarrow> sup \<Rightarrow> sup sup_result" where
  "reap_hung c alive now s =
     (case s_beats s of
        None \<Rightarrow> Inr s
      | Some beats \<Rightarrow> sfold (reap_one c beats alive now) (s_children s) s)"

definition id_at :: "cluster \<Rightarrow> nat \<Rightarrow> string" where
  "id_at c i = (if i < length (c_ids c) then c_ids c ! i else ''#'' @ digits i)"

definition on_control :: "cluster \<Rightarrow> (nat \<Rightarrow> bool) \<Rightarrow> int \<Rightarrow> control_key \<times> byte list \<Rightarrow> sup \<Rightarrow> sup" where
  "on_control c alive now msg s =
     (case msg of (key, payload) \<Rightarrow>
        if key = CommandRequest
        then (case unpack_adapter_command payload of
                None \<Rightarrow> s
              | Some (_, targets, _) \<Rightarrow>
                  if \<not> c_has_link c then s
                  else if \<exists>t \<in> set targets. length (c_ids c) \<le> t then s
                  else announce_control c CommandBroadcast payload s)
        else let who = id_at c (fst (unpack payload))
             in if key = RunOnceDone then s\<lparr>s_run_once_done := True\<rparr>
                else if key = PromoteFailed then promote_someone c alive now (Some who) None s
                else s)"

definition pump_control :: "cluster \<Rightarrow> ((nat \<Rightarrow> bool) \<times> int \<times> control_key \<times> byte list) list \<Rightarrow> sup \<Rightarrow> sup" where
  "pump_control c msgs s =
     (if c_has_link c then fold (\<lambda>(alive, now, msg). on_control c alive now msg) msgs s else s)"

text \<open>
  One turn of \<open>_watch\<close>: the messages drained, the sentinels that fired, the instant of the reaping, and whether
  a stop signal arrived meanwhile.
\<close>

record turn =
  t_msgs :: "((nat \<Rightarrow> bool) \<times> int \<times> control_key \<times> byte list) list"
  t_deaths :: "(restart \<times> string) list"
  t_alive :: "nat \<Rightarrow> bool"
  t_reap_at :: int
  t_signal :: bool

definition on_signal :: "sup \<Rightarrow> sup" where
  "on_signal s = s\<lparr>s_stopping := True\<rparr>"

definition watch_turn :: "cluster \<Rightarrow> turn \<Rightarrow> sup \<Rightarrow> sup sup_result" where
  "watch_turn c t s =
     sbind (sfold (\<lambda>(r, pid). respawn c r pid) (t_deaths t) (pump_control c (t_msgs t) s)) (\<lambda>s1.
     sbind (reap_hung c (t_alive t) (t_reap_at t) s1) (\<lambda>s2. Inr (if t_signal t then on_signal s2 else s2)))"

fun watch :: "cluster \<Rightarrow> turn list \<Rightarrow> sup \<Rightarrow> sup sup_result" where
  "watch c [] s = Inr s"
| "watch c (t # ts) s =
     (if s_stopping s \<or> s_children s = [] then Inr s else sbind (watch_turn c t s) (watch c ts))"

section \<open>Start and stop of the whole cluster\<close>

definition run_once_wait :: int where "run_once_wait = 60 * second"

record poll =
  p_alive :: "nat \<Rightarrow> bool"
  p_now :: int
  p_msgs :: "((nat \<Rightarrow> bool) \<times> int \<times> control_key \<times> byte list) list"
  p_signal :: bool

text \<open>The second component says whether the wait was over after these polls.\<close>

fun await_run_once :: "cluster \<Rightarrow> int \<Rightarrow> string \<Rightarrow> poll list \<Rightarrow> sup \<Rightarrow> sup \<times> bool" where
  "await_run_once c deadline pid ps s =
     (if s_stopping s \<or> s_run_once_done s then (s, True)
      else case ps of
             [] \<Rightarrow> (s, False)
           | p # ps' \<Rightarrow>
               if \<not> is_alive (p_alive p) s pid then (s, True)
               else if deadline < p_now p then (s, True)
               else await_run_once c deadline pid ps'
                      (let s' = pump_control c (p_msgs p) s in if p_signal p then on_signal s' else s'))"

declare await_run_once.simps [simp del]

record boot =
  b_starts :: "string \<Rightarrow> bool"
  b_at :: "string \<Rightarrow> int"
  b_signal :: "string \<Rightarrow> bool"
  b_await_from :: int
  b_polls :: "poll list"

fun spawn_rest :: "cluster \<Rightarrow> boot \<Rightarrow> string list \<Rightarrow> sup \<Rightarrow> sup sup_result" where
  "spawn_rest c b [] s = Inr s"
| "spawn_rest c b (pid # pids) s =
     (let s' = (if b_signal b pid then on_signal s else s)
      in if s_stopping s' then Inr s' else sbind (spawn c (b_starts b pid) (b_at b pid) pid s') (spawn_rest c b pids))"

definition boot_cluster :: "cluster \<Rightarrow> boot \<Rightarrow> sup \<Rightarrow> sup sup_result" where
  "boot_cluster c b s =
     (case ordered_ids c of
        Inl _ \<Rightarrow> Inl (NoPrimaryInTopology, s)
      | Inr pids \<Rightarrow>
          sbind (spawn c (b_starts b (hd pids)) (b_at b (hd pids)) (hd pids) s) (\<lambda>s1.
            spawn_rest c b (tl pids) (fst (await_run_once c (b_await_from b + run_once_wait) (hd pids) (b_polls b) s1))))"

text \<open>\<open>_shutdown\<close>: terminate, wait up to ten seconds, kill who is still alive. The sockets are closed either way.\<close>

definition shutdown :: "(nat \<Rightarrow> bool) \<Rightarrow> (nat \<Rightarrow> bool) \<Rightarrow> sup \<Rightarrow> sup" where
  "shutdown alive alive_later s =
     (let s1 = s\<lparr>s_stopping := True\<rparr>
      in if s_children s1 = [] then s1
         else let s2 = fold (\<lambda>h. emit (TerminatedChild h)) (filter alive (dvals (s_children s1))) s1;
                  s3 = fold (\<lambda>h. emit (KilledChild h)) (filter alive_later (dvals (s_children s1))) s2
              in s3\<lparr>s_children := []\<rparr>)"

text \<open>\<open>run\<close>: whatever happens in between, the shutdown runs; an exception leaves after it.\<close>

definition run_cluster :: "cluster \<Rightarrow> boot \<Rightarrow> turn list \<Rightarrow> (nat \<Rightarrow> bool) \<Rightarrow> (nat \<Rightarrow> bool) \<Rightarrow> sup \<Rightarrow> sup \<times> sup_error option" where
  "run_cluster c b ts alive alive_later s =
     (case sbind (boot_cluster c b s) (watch c ts) of
        Inl (e, s') \<Rightarrow> (shutdown alive alive_later s', Some e)
      | Inr s' \<Rightarrow> (shutdown alive alive_later s', None))"

section \<open>The operations interleaved\<close>

text \<open>
  Any order of the operations on a clock that does not run backwards. A signal may come between any
  two of them; between turns the children beat and die on their own, which the arguments show.
\<close>

inductive sup_step :: "cluster \<Rightarrow> int \<times> sup \<Rightarrow> int \<times> sup \<Rightarrow> bool" for c where
  Control: "t \<le> t' \<Longrightarrow> sup_step c (t, s) (t', on_control c alive t' msg s)"
| Restart: "t \<le> r_promote_at r \<Longrightarrow> r_promote_at r \<le> r_check_at r \<Longrightarrow> r_check_at r \<le> r_spawn_at r \<Longrightarrow>
    respawn c r pid s = Inr s' \<Longrightarrow> sup_step c (t, s) (r_spawn_at r, s')"
| Spawn: "t \<le> t' \<Longrightarrow> spawn c starts t' pid s = Inr s' \<Longrightarrow> sup_step c (t, s) (t', s')"
| Reap: "t \<le> t' \<Longrightarrow> reap_hung c alive t' s = Inr s' \<Longrightarrow> sup_step c (t, s) (t', s')"
| Signal: "t \<le> t' \<Longrightarrow> sup_step c (t, s) (t', on_signal s)"
| Beats: "t \<le> t' \<Longrightarrow> sup_step c (t, s) (t', s\<lparr>s_beats := beats\<rparr>)"

abbreviation sup_run :: "cluster \<Rightarrow> int \<times> sup \<Rightarrow> int \<times> sup \<Rightarrow> bool" where
  "sup_run c \<equiv> (sup_step c)\<^sup>*\<^sup>*"

section \<open>The promotion limit\<close>

definition promoted_at :: "sup \<Rightarrow> int list" where
  "promoted_at s = List.map_filter (\<lambda>ev. case ev of Promoting _ t \<Rightarrow> Some t | _ \<Rightarrow> None) (s_events s)"

lemma promoted_at_emit [simp]:
  "promoted_at (emit ev s) = promoted_at s @ (case ev of Promoting _ t \<Rightarrow> [t] | _ \<Rightarrow> [])"
  by (simp add: promoted_at_def emit_def map_filter_def split: sup_event.split)

lemma promoted_at_update [simp]:
  "promoted_at (s\<lparr>s_children := a\<rparr>) = promoted_at s"
  "promoted_at (s\<lparr>s_spawned_at := b\<rparr>) = promoted_at s"
  "promoted_at (s\<lparr>s_warned := w\<rparr>) = promoted_at s"
  "promoted_at (s\<lparr>s_killed_by_me := k\<rparr>) = promoted_at s"
  "promoted_at (s\<lparr>s_respawns := r\<rparr>) = promoted_at s"
  "promoted_at (s\<lparr>s_stopping := st\<rparr>) = promoted_at s"
  "promoted_at (s\<lparr>s_primary := p\<rparr>) = promoted_at s"
  "promoted_at (s\<lparr>s_run_once_done := d\<rparr>) = promoted_at s"
  "promoted_at (s\<lparr>s_promotions := ps\<rparr>) = promoted_at s"
  "promoted_at (s\<lparr>s_promotion_stopped := x\<rparr>) = promoted_at s"
  "promoted_at (s\<lparr>s_beats := h\<rparr>) = promoted_at s"
  "promoted_at (s\<lparr>s_next := n\<rparr>) = promoted_at s"
  by (simp_all add: promoted_at_def)

lemma emit_fields [simp]:
  "s_children (emit ev s) = s_children s" "s_spawned_at (emit ev s) = s_spawned_at s" "s_warned (emit ev s) = s_warned s"
  "s_killed_by_me (emit ev s) = s_killed_by_me s" "s_respawns (emit ev s) = s_respawns s" "s_stopping (emit ev s) = s_stopping s"
  "s_primary (emit ev s) = s_primary s" "s_run_once_done (emit ev s) = s_run_once_done s" "s_promotions (emit ev s) = s_promotions s"
  "s_promotion_stopped (emit ev s) = s_promotion_stopped s" "s_beats (emit ev s) = s_beats s" "s_next (emit ev s) = s_next s"
  "s_events (emit ev s) = s_events s @ [ev]"
  by (simp_all add: emit_def)

text \<open>
  The list the supervisor keeps stands for the whole history: from now on both give the same
  recent promotions, and no window of the history ever held more than the limit.
\<close>

definition in_window :: "int \<Rightarrow> int \<Rightarrow> bool" where
  "in_window w u \<longleftrightarrow> w \<le> u \<and> u < w + promotion_window"

definition promo_inv :: "int \<Rightarrow> sup \<Rightarrow> bool" where
  "promo_inv t s \<longleftrightarrow> (\<forall>u \<in> set (promoted_at s). u \<le> t) \<and>
     (\<forall>now \<ge> t. filter (\<lambda>u. now - u < promotion_window) (s_promotions s) = filter (\<lambda>u. now - u < promotion_window) (promoted_at s)) \<and>
     (\<forall>w. length (filter (in_window w) (promoted_at s)) \<le> promotion_limit)"

lemma promo_inv_later:
  "promo_inv t s \<Longrightarrow> t \<le> t' \<Longrightarrow> promo_inv t' s"
  unfolding promo_inv_def by (meson order_trans)

lemma promo_inv_cong:
  "promoted_at s' = promoted_at s \<Longrightarrow> s_promotions s' = s_promotions s \<Longrightarrow> promo_inv t s' = promo_inv t s"
  by (simp add: promo_inv_def)


lemma announce_fields [simp]:
  "s_children (announce_control c k p s) = s_children s" "s_spawned_at (announce_control c k p s) = s_spawned_at s"
  "s_respawns (announce_control c k p s) = s_respawns s" "s_stopping (announce_control c k p s) = s_stopping s"
  "s_primary (announce_control c k p s) = s_primary s" "s_run_once_done (announce_control c k p s) = s_run_once_done s"
  "s_promotions (announce_control c k p s) = s_promotions s" "s_promotion_stopped (announce_control c k p s) = s_promotion_stopped s"
  "s_killed_by_me (announce_control c k p s) = s_killed_by_me s" "s_warned (announce_control c k p s) = s_warned s"
  "s_beats (announce_control c k p s) = s_beats s" "s_next (announce_control c k p s) = s_next s"
  "promoted_at (announce_control c k p s) = promoted_at s"
  by (simp_all add: announce_control_def)

lemma promote_cases:
  defines "recent now s \<equiv> filter (\<lambda>t. now - t < promotion_window) (s_promotions s)"
  obtains "promoted_at (promote_someone c alive now ex re s) = promoted_at s"
      "s_promotions (promote_someone c alive now ex re s) = s_promotions s"
    | "promoted_at (promote_someone c alive now ex re s) = promoted_at s"
      "s_promotions (promote_someone c alive now ex re s) = recent now s"
    | "promoted_at (promote_someone c alive now ex re s) = promoted_at s @ [now]"
      "s_promotions (promote_someone c alive now ex re s) = recent now s @ [now]" "length (recent now s) < promotion_limit"
proof (cases "\<not> c_has_link c \<or> s_promotion_stopped s")
  case False
  note quiet = False
  show ?thesis
  proof (cases "promotion_limit \<le> length (recent now s)")
    case True
    then show ?thesis
      using quiet that(2) by (simp add: promote_someone_def recent_def [symmetric] Let_def)
  next
    case False
    show ?thesis
    proof (cases "promote_candidate c alive ex re s")
      case None
      then show ?thesis using quiet False that(2) by (simp add: promote_someone_def recent_def [symmetric] Let_def)
    next
      case (Some pid)
      have "promoted_at (promote_someone c alive now ex re s) = promoted_at s @ [now]"
        "s_promotions (promote_someone c alive now ex re s) = recent now s @ [now]"
        using quiet False Some by (simp_all add: promote_someone_def recent_def [symmetric] Let_def split: option.split)
      then show ?thesis using that(3) False by simp
    qed
  qed
qed (use that(1) in \<open>simp add: promote_someone_def\<close>)

lemma filter_recent:
  "now \<le> now' \<Longrightarrow> filter (\<lambda>u. now' - u < promotion_window) (filter (\<lambda>u. now - u < promotion_window) ps) =
     filter (\<lambda>u. now' - u < promotion_window) ps"
  by (simp add: filter_filter conj_commute) (rule filter_cong, auto)

lemma promote_inv:
  assumes inv: "promo_inv t s" and "t \<le> now"
  shows "promo_inv now (promote_someone c alive now ex re s)"
proof -
  define recent where "recent = filter (\<lambda>t. now - t < promotion_window) (s_promotions s)"
  have later: "promo_inv now s" using promo_inv_later [OF assms] .
  have rec_hist: "recent = filter (\<lambda>u. now - u < promotion_window) (promoted_at s)"
    using later by (simp add: promo_inv_def recent_def)
  have keep: "filter (\<lambda>u. now' - u < promotion_window) recent = filter (\<lambda>u. now' - u < promotion_window) (promoted_at s)"
    if "now \<le> now'" for now'
    using filter_recent [OF that, of "promoted_at s"] by (simp only: rec_hist)
  show ?thesis
  proof (cases rule: promote_cases [of c alive now ex re s])
    case 1
    then show ?thesis using later promo_inv_cong by blast
  next
    case 2
    then show ?thesis using later keep by (simp add: promo_inv_def recent_def [symmetric])
  next
    case 3
    have "length (filter (in_window w) (promoted_at s @ [now])) \<le> promotion_limit" for w
    proof (cases "in_window w now")
      case True
      have "filter (in_window w) (promoted_at s) = filter (in_window w) recent"
        unfolding rec_hist filter_filter using True by (intro filter_cong) (auto simp: in_window_def)
      then have "length (filter (in_window w) (promoted_at s)) \<le> length recent" by simp
      then show ?thesis using 3(3) True by (simp add: recent_def)
    next
      case False
      then show ?thesis using later by (simp add: promo_inv_def)
    qed
    moreover have "\<forall>u \<in> set (promoted_at s @ [now]). u \<le> now" using later by (auto simp: promo_inv_def)
    ultimately show ?thesis using 3(1,2) keep by (simp add: promo_inv_def recent_def [symmetric])
  qed
qed

lemma spawn_promotions:
  assumes "spawn c starts now pid s = Inr s'"
  shows "promoted_at s' = promoted_at s" "s_promotions s' = s_promotions s"
  using assms by (auto simp: spawn_def Let_def split: sum.splits option.splits if_splits)

lemma respawn_eq:
  assumes "dget (s_children s) pid = Some h"
  shows "respawn c r pid s =
    (let s1 = s\<lparr>s_children := ddel pid (s_children s)\<rparr>; s3 = hand_over c r pid s1; n = deaths_in_row r pid s3 in
     if s_stopping s then Inr s1
     else case backoff n of
       None \<Rightarrow> Inl (RespawnOverflow, count_death r pid s3)
     | Some wait \<Rightarrow> spawn c (r_starts r) (r_spawn_at r) pid (pause pid n wait (count_death r pid s3)))"
  using assms by (simp add: respawn_def Let_def)

lemma promo_frame [simp]:
  "promo_inv t (count_death r pid s) = promo_inv t s"
  "promo_inv t (pause pid n wait s) = promo_inv t s"
  "promo_inv t (s\<lparr>s_children := a\<rparr>) = promo_inv t s"
  "promo_inv t (s\<lparr>s_primary := p\<rparr>) = promo_inv t s"
  "promo_inv t (s\<lparr>s_stopping := b\<rparr>) = promo_inv t s"
  "promo_inv t (s\<lparr>s_beats := hb\<rparr>) = promo_inv t s"
  "promo_inv t (s\<lparr>s_run_once_done := b\<rparr>) = promo_inv t s"
  "promo_inv t (s\<lparr>s_killed_by_me := k\<rparr>) = promo_inv t s"
  "promo_inv t (s\<lparr>s_warned := w\<rparr>) = promo_inv t s"
  "promo_inv t (emit (Exited pid x) s) = promo_inv t s"
  "promo_inv t (emit (KilledChild h) s) = promo_inv t s"
  "promo_inv t (emit (WarnedSilent pid l) s) = promo_inv t s"
  "promo_inv t (announce_control c key payload s) = promo_inv t s"
  by (simp_all add: promo_inv_def count_death_def pause_def)

lemma hand_over_inv:
  assumes "promo_inv t s" and "t \<le> r_promote_at r"
  shows "promo_inv (r_promote_at r) (hand_over c r pid s)"
  using assms promo_inv_later [OF assms] by (auto simp: hand_over_def Let_def intro!: promote_inv)

lemma respawn_inv:
  assumes inv: "promo_inv t s" and le: "t \<le> r_promote_at r" and run: "respawn c r pid s = Inr s'"
  shows "promo_inv (r_promote_at r) s'"
proof (cases "dget (s_children s) pid")
  case None
  then show ?thesis using run promo_inv_later [OF inv le] by (simp add: respawn_def)
next
  case (Some h)
  have 3: "promo_inv (r_promote_at r) (hand_over c r pid (s\<lparr>s_children := ddel pid (s_children s)\<rparr>))"
    using hand_over_inv [OF _ le] inv by simp
  show ?thesis
  proof (cases "s_stopping s")
    case True
    then show ?thesis using run promo_inv_later [OF inv le] by (auto simp: respawn_eq [OF Some] Let_def)
  next
    case False
    then obtain n wait where sp: "spawn c (r_starts r) (r_spawn_at r) pid
        (pause pid n wait (count_death r pid (hand_over c r pid (s\<lparr>s_children := ddel pid (s_children s)\<rparr>)))) = Inr s'"
      using run by (auto simp: respawn_eq [OF Some] Let_def split: option.splits)
    have "promo_inv (r_promote_at r) (pause pid n wait (count_death r pid (hand_over c r pid (s\<lparr>s_children := ddel pid (s_children s)\<rparr>))))"
      using 3 by simp
    then show ?thesis using promo_inv_cong spawn_promotions [OF sp] by blast
  qed
qed

lemma reap_one_inv: "reap_one c beats alive now child s = Inr s' \<Longrightarrow> promo_inv t s' = promo_inv t s"
  by (auto simp: reap_one_def kill_child_def warn_silence_def Let_def
      split: prod.splits if_splits option.splits silence.splits)

lemma reap_inv:
  assumes "reap_hung c alive now s = Inr s'" and "promo_inv t s"
  shows "promo_inv t s'"
proof (cases "s_beats s")
  case (Some beats)
  then have "sfold (reap_one c beats alive now) (s_children s) s = Inr s'" using assms(1) by (simp add: reap_hung_def)
  then show ?thesis by (rule sfold_invariant [where I = "promo_inv t"]) (use assms(2) reap_one_inv in blast)+
qed (use assms in \<open>simp add: reap_hung_def\<close>)

lemma on_control_inv:
  assumes "promo_inv t s" and "t \<le> now"
  shows "promo_inv now (on_control c alive now msg s)"
proof -
  obtain key payload where msg: "msg = (key, payload)" by (cases msg)
  have later: "promo_inv now s" using promo_inv_later [OF assms] .
  show ?thesis
  proof (cases "key = CommandRequest")
    case True
    then show ?thesis using later by (auto simp: msg on_control_def split: option.split prod.split)
  next
    case False
    then show ?thesis using later promote_inv [OF assms] by (simp add: msg on_control_def Let_def)
  qed
qed

lemma sup_step_inv: "sup_step c x y \<Longrightarrow> promo_inv (fst x) (snd x) \<Longrightarrow> promo_inv (fst y) (snd y)"
proof (induction rule: sup_step.induct)
  case (Control t t' msg s alive)
  then show ?case using on_control_inv by simp
next
  case (Restart t r pid s s')
  then show ?case using respawn_inv [of t s r c pid s'] promo_inv_later [of "r_promote_at r" s' "r_spawn_at r"] by simp
next
  case (Spawn t t' starts pid s s')
  then show ?case using spawn_promotions [OF Spawn(2)] promo_inv_cong [of s' s t] promo_inv_later by auto
next
  case (Reap t t' alive s s')
  then show ?case using reap_inv promo_inv_later by fastforce
next
  case (Signal t t' s)
  then show ?case using promo_inv_later by (simp add: on_signal_def)
next
  case (Beats t t' s beats)
  then show ?case using promo_inv_later by simp
qed

lemma sup_run_inv: "sup_run c x y \<Longrightarrow> promo_inv (fst x) (snd x) \<Longrightarrow> promo_inv (fst y) (snd y)"
  by (induction rule: rtranclp_induct) (auto intro: sup_step_inv)

lemma new_sup_inv: "new_sup c beats = Inr s \<Longrightarrow> promo_inv t s"
  by (auto simp: new_sup_def promo_inv_def promoted_at_def map_filter_simps split: sum.splits)


section \<open>Crash loops\<close>

definition slept :: "sup \<Rightarrow> int list" where
  "slept s = List.map_filter (\<lambda>ev. case ev of Slept d \<Rightarrow> Some d | _ \<Rightarrow> None) (s_events s)"

lemma slept_emit [simp]: "slept (emit ev s) = slept s @ (case ev of Slept d \<Rightarrow> [d] | _ \<Rightarrow> [])"
  by (simp add: slept_def map_filter_def split: sup_event.split)

lemma slept_update [simp]:
  "slept (s\<lparr>s_children := a\<rparr>) = slept s" "slept (s\<lparr>s_killed_by_me := k\<rparr>) = slept s" "slept (s\<lparr>s_respawns := r\<rparr>) = slept s"
  "slept (s\<lparr>s_children := a, s_spawned_at := b, s_killed_by_me := k, s_beats := h, s_next := n\<rparr>) = slept s"
  by (simp_all add: slept_def)

lemma index_of_ids: "by_id T pid = Some b \<Longrightarrow> \<exists>i. index_of pid (ids T) = Some i \<and> i < length (ids T) \<and> ids T ! i = pid"
  by (induction T) (auto simp: ids_def split: if_splits)

lemma spawn_ok:
  assumes "by_id (c_topology c) pid = Some b"
  shows "\<exists>i s'. index_of pid (c_ids c) = Some i \<and> spawn c True now pid s = Inr s' \<and>
    s_children s' = dset pid (s_next s) (s_children s) \<and> s_next s' = Suc (s_next s) \<and>
    s_spawned_at s' = dset pid now (s_spawned_at s) \<and> s_killed_by_me s' = ddel pid (s_killed_by_me s) \<and>
    s_beats s' = map_option (\<lambda>b. reset_beat b i) (s_beats s) \<and>
    s_events s' = s_events s @ [Started pid i (s_primary s = Some pid) (s_primary s = Some pid \<and> \<not> s_run_once_done s) (s_next s)] \<and>
    s_stopping s' = s_stopping s \<and> s_primary s' = s_primary s \<and> s_respawns s' = s_respawns s \<and> s_warned s' = s_warned s \<and>
    s_promotions s' = s_promotions s \<and> s_promotion_stopped s' = s_promotion_stopped s \<and> s_run_once_done s' = s_run_once_done s"
proof -
  obtain i where i: "index_of pid (c_ids c) = Some i" using index_of_ids [OF assms] by (auto simp: c_ids_def)
  have "\<exists>socks. sockets_for (c_topology c) pid (c_bound c) = Inr socks" using assms by (simp add: sockets_for_def)
  then show ?thesis using i by (auto simp: spawn_def Let_def)
qed

definition quick_death :: "restart \<Rightarrow> string \<Rightarrow> sup \<Rightarrow> bool" where
  "quick_death r pid s \<longleftrightarrow> r_check_at r - dget_default 0 (s_spawned_at s) pid < respawn_reset_after"

definition crashing :: "string \<Rightarrow> nat \<Rightarrow> sup \<Rightarrow> bool" where
  "crashing pid n s \<longleftrightarrow> (\<exists>h. dget (s_children s) pid = Some h) \<and> \<not> s_stopping s \<and> s_primary s \<noteq> Some pid \<and>
     dget_default 0 (s_respawns s) pid = n"

lemma respawn_quick:
  assumes "by_id (c_topology c) pid = Some b" and "crashing pid n s" and "quick_death r pid s" and "r_starts r"
  shows "if n < 1024
    then \<exists>s'. respawn c r pid s = Inr s' \<and> crashing pid (Suc n) s' \<and>
      dget_default 0 (s_spawned_at s') pid = r_spawn_at r \<and> slept s' = slept s @ [min (second * 2 ^ n) (30 * second)]
    else \<exists>s'. respawn c r pid s = Inl (RespawnOverflow, s')"
proof -
  obtain h where h: "dget (s_children s) pid = Some h" using assms(2) by (auto simp: crashing_def)
  define s3 where "s3 = hand_over c r pid (s\<lparr>s_children := ddel pid (s_children s)\<rparr>)"
  have s3: "s3 = emit (Exited pid (exit_reason c r pid (s\<lparr>s_children := ddel pid (s_children s)\<rparr>)))
      (s\<lparr>s_children := ddel pid (s_children s), s_killed_by_me := ddel pid (s_killed_by_me s)\<rparr>)"
    using assms(2) by (simp add: s3_def hand_over_def Let_def crashing_def)
  have lived: "\<not> respawn_reset_after \<le> r_check_at r - dget_default 0 (s_spawned_at s3) pid"
    using assms(3) by (simp add: quick_death_def s3)
  have n: "deaths_in_row r pid s3 = Suc n"
    using lived assms(2) by (simp add: deaths_in_row_def crashing_def s3)
  have run: "respawn c r pid s = (case backoff (Suc n) of
       None \<Rightarrow> Inl (RespawnOverflow, count_death r pid s3)
     | Some wait \<Rightarrow> spawn c True (r_spawn_at r) pid (pause pid (Suc n) wait (count_death r pid s3)))"
    unfolding respawn_eq [OF h] Let_def s3_def [symmetric] n assms(4) [THEN eqTrueI]
    using assms(2) by (simp add: crashing_def)
  show ?thesis
  proof (cases "n < 1024")
    case True
    define wait where "wait = min (second * 2 ^ n) (30 * second)"
    have bk: "backoff (Suc n) = Some wait" using True by (simp add: backoff_def wait_def respawn_delay_def respawn_delay_max_def)
    define s5 where "s5 = pause pid (Suc n) wait (count_death r pid s3)"
    have s5: "s_stopping s5 = s_stopping s" "s_primary s5 = s_primary s" "dget_default 0 (s_respawns s5) pid = Suc n" "slept s5 = slept s @ [wait]"
      using n by (simp_all add: s5_def pause_def count_death_def s3 dget_default_def)
    obtain s' where s': "spawn c True (r_spawn_at r) pid s5 = Inr s'" "s_children s' = dset pid (s_next s5) (s_children s5)"
      "s_spawned_at s' = dset pid (r_spawn_at r) (s_spawned_at s5)" "s_stopping s' = s_stopping s5" "s_primary s' = s_primary s5"
      "s_respawns s' = s_respawns s5" "\<exists>p i x y z. s_events s' = s_events s5 @ [Started p i x y z]"
      using spawn_ok [OF assms(1), of "r_spawn_at r" s5] by blast
    have "slept s' = slept s5" using s'(7) by (auto simp: slept_def map_filter_def)
    then show ?thesis
      using True run bk s' s5 assms(2) by (simp add: s5_def [symmetric] crashing_def wait_def [symmetric] dget_default_def)
  next
    case False
    then show ?thesis using run by (simp add: backoff_def)
  qed
qed

text \<open>Restarts one after the other, each dead again before it lived long.\<close>

fun quick_deaths :: "int \<Rightarrow> restart list \<Rightarrow> bool" where
  "quick_deaths spawned [] = True"
| "quick_deaths spawned (r # rs) =
     (r_starts r \<and> r_check_at r - spawned < respawn_reset_after \<and> quick_deaths (r_spawn_at r) rs)"

lemma crash_loop:
  assumes "by_id (c_topology c) pid = Some b" and "crashing pid n s" and "n \<le> 1024"
    and "quick_deaths (dget_default 0 (s_spawned_at s) pid) rs"
  shows "if n + length rs \<le> 1024
    then \<exists>s'. sfold (\<lambda>r. respawn c r pid) rs s = Inr s' \<and> crashing pid (n + length rs) s' \<and>
      slept s' = slept s @ map (\<lambda>k. min (second * 2 ^ k) (30 * second)) [n..<n + length rs]
    else \<exists>s'. sfold (\<lambda>r. respawn c r pid) rs s = Inl (RespawnOverflow, s')"
  using assms(2-4)
proof (induction rs arbitrary: n s)
  case Nil
  then show ?case by simp
next
  case (Cons r rs)
  have quick: "quick_death r pid s" "r_starts r" and rest: "quick_deaths (r_spawn_at r) rs"
    using Cons.prems(3) by (simp_all add: quick_death_def)
  note step = respawn_quick [OF assms(1) Cons.prems(1) quick]
  show ?case
  proof (cases "n < 1024")
    case True
    then obtain s' where s': "respawn c r pid s = Inr s'" "crashing pid (Suc n) s'"
      "dget_default 0 (s_spawned_at s') pid = r_spawn_at r" "slept s' = slept s @ [min (second * 2 ^ n) (30 * second)]"
      using step by auto
    have IH: "if Suc n + length rs \<le> 1024
      then \<exists>s''. sfold (\<lambda>r. respawn c r pid) rs s' = Inr s'' \<and> crashing pid (Suc n + length rs) s'' \<and>
        slept s'' = slept s' @ map (\<lambda>k. min (second * 2 ^ k) (30 * second)) [Suc n..<Suc n + length rs]
      else \<exists>s''. sfold (\<lambda>r. respawn c r pid) rs s' = Inl (RespawnOverflow, s'')"
      using Cons.IH [OF s'(2)] True rest s'(3) by simp
    have "[n..<n + length (r # rs)] = n # [Suc n..<Suc n + length rs]" by (simp add: upt_conv_Cons del: upt_Suc)
    then show ?thesis using IH s'(1,4) by (simp del: upt_Suc split: if_splits)
  next
    case False
    then obtain s' where "respawn c r pid s = Inl (RespawnOverflow, s')" using step by auto
    then show ?thesis using False by simp
  qed
qed


section \<open>Reaping\<close>

definition killed :: "sup \<Rightarrow> nat list" where
  "killed s = List.map_filter (\<lambda>ev. case ev of KilledChild h \<Rightarrow> Some h | _ \<Rightarrow> None) (s_events s)"

lemma killed_emit [simp]: "killed (emit ev s) = killed s @ (case ev of KilledChild h \<Rightarrow> [h] | _ \<Rightarrow> [])"
  by (simp add: killed_def map_filter_def split: sup_event.split)

lemma killed_update [simp]:
  "killed (s\<lparr>s_warned := w\<rparr>) = killed s" "killed (s\<lparr>s_killed_by_me := k\<rparr>) = killed s" "killed (s\<lparr>s_killed_by_me := k, s_warned := w\<rparr>) = killed s"
  "killed (s\<lparr>s_warned := w, s_killed_by_me := k\<rparr>) = killed s"
  by (simp_all add: killed_def)

definition hung :: "heartbeats \<Rightarrow> nat \<Rightarrow> int \<Rightarrow> int \<Rightarrow> bool" where
  "hung beats i now age \<longleftrightarrow> (case silent_for beats i now of
     Never \<Rightarrow> startup_grace < age | Forever \<Rightarrow> True | SilentFor d \<Rightarrow> silence_limit < d)"

definition doomed :: "cluster \<Rightarrow> heartbeats \<Rightarrow> (nat \<Rightarrow> bool) \<Rightarrow> int \<Rightarrow> sup \<Rightarrow> string \<times> nat \<Rightarrow> bool" where
  "doomed c beats alive now s child \<longleftrightarrow> (case child of (pid, h) \<Rightarrow> alive h \<and>
     (case index_of pid (c_ids c) of None \<Rightarrow> False
      | Some i \<Rightarrow> hung beats i now (now - dget_default 0 (s_spawned_at s) pid)))"

lemma index_of_Some: "x \<in> set xs \<Longrightarrow> \<exists>i. index_of x xs = Some i \<and> i < length xs \<and> xs ! i = x"
  by (induction xs) auto

text \<open>
  What one pass leaves behind for one child: why it was killed, the level of silence reached by a living child that
  beat within the limit, the events (a kill, or a warning when the level is above the one last warned about),
  and the level remembered.
\<close>

definition death_reason :: "cluster \<Rightarrow> heartbeats \<Rightarrow> int \<Rightarrow> sup \<Rightarrow> string \<Rightarrow> kill_reason option" where
  "death_reason c beats now s pid = map_option (\<lambda>i. case silent_for beats i now of
     Never \<Rightarrow> NoBeatFor (now - dget_default 0 (s_spawned_at s) pid) | silent \<Rightarrow> LoopBlocked silent) (index_of pid (c_ids c))"

definition silence_level :: "cluster \<Rightarrow> heartbeats \<Rightarrow> (nat \<Rightarrow> bool) \<Rightarrow> int \<Rightarrow> string \<times> nat \<Rightarrow> nat option" where
  "silence_level c beats alive now child = (case child of (pid, h) \<Rightarrow>
     if \<not> alive h then None
     else case index_of pid (c_ids c) of
       None \<Rightarrow> None
     | Some i \<Rightarrow> (case silent_for beats i now of
         SilentFor d \<Rightarrow> if d \<le> silence_limit then Some (length (filter (\<lambda>l. l \<le> d) warn_levels)) else None
       | _ \<Rightarrow> None))"

definition child_events :: "cluster \<Rightarrow> heartbeats \<Rightarrow> (nat \<Rightarrow> bool) \<Rightarrow> int \<Rightarrow> sup \<Rightarrow> string \<times> nat \<Rightarrow> sup_event list" where
  "child_events c beats alive now s child =
     (if doomed c beats alive now s child then [KilledChild (snd child)]
      else case silence_level c beats alive now child of
        None \<Rightarrow> []
      | Some level \<Rightarrow> if dget_default 0 (s_warned s) (fst child) < level then [WarnedSilent (fst child) level] else [])"

definition child_warned :: "cluster \<Rightarrow> heartbeats \<Rightarrow> (nat \<Rightarrow> bool) \<Rightarrow> int \<Rightarrow> sup \<Rightarrow> string \<times> nat \<Rightarrow> nat option" where
  "child_warned c beats alive now s child =
     (if doomed c beats alive now s child then None
      else case silence_level c beats alive now child of
        None \<Rightarrow> dget (s_warned s) (fst child)
      | Some level \<Rightarrow> if level = 0 then None else Some (max level (dget_default 0 (s_warned s) (fst child))))"

text \<open>All that a pass over some children may change, and how.\<close>

definition reaped_only :: "cluster \<Rightarrow> heartbeats \<Rightarrow> (nat \<Rightarrow> bool) \<Rightarrow> int \<Rightarrow> (string \<times> nat) list \<Rightarrow> sup \<Rightarrow> sup \<Rightarrow> bool" where
  "reaped_only c beats alive now xs s s' \<longleftrightarrow>
     s' = s\<lparr>s_warned := s_warned s', s_killed_by_me := s_killed_by_me s',
       s_events := s_events s @ concat (map (child_events c beats alive now s) xs)\<rparr> \<and>
     (\<forall>x \<in> set xs. dget (s_warned s') (fst x) = child_warned c beats alive now s x \<and>
       dget (s_killed_by_me s') (fst x) =
         (if doomed c beats alive now s x then death_reason c beats now s (fst x) else dget (s_killed_by_me s) (fst x))) \<and>
     (\<forall>pid. pid \<notin> set (dkeys xs) \<longrightarrow>
       dget (s_warned s') pid = dget (s_warned s) pid \<and> dget (s_killed_by_me s') pid = dget (s_killed_by_me s) pid)"

lemma warn_silence_eq:
  "\<exists>w. warn_silence pid d s = s\<lparr>s_warned := w, s_events := s_events s @
      (let level = length (filter (\<lambda>l. l \<le> d) warn_levels)
       in if dget_default 0 (s_warned s) pid < level then [WarnedSilent pid level] else [])\<rparr> \<and>
    dget w = (dget (s_warned s))(pid := (let level = length (filter (\<lambda>l. l \<le> d) warn_levels)
       in if level = 0 then None else Some (max level (dget_default 0 (s_warned s) pid))))"
proof -
  define level where "level = length (filter (\<lambda>l. l \<le> d) warn_levels)"
  consider "level = 0" | "0 < level" "level \<le> dget_default 0 (s_warned s) pid" | "dget_default 0 (s_warned s) pid < level"
    by linarith
  then show ?thesis
  proof cases
    case 1
    then show ?thesis unfolding warn_silence_def level_def [symmetric] Let_def
      by (intro exI [of _ "ddel pid (s_warned s)"]) (simp add: fun_eq_iff)
  next
    case 2
    then obtain v where "dget (s_warned s) pid = Some v" "max level v = v"
      by (auto simp: dget_default_def split: option.splits)
    then show ?thesis using 2 unfolding warn_silence_def level_def [symmetric] Let_def
      by (intro exI [of _ "s_warned s"]) (simp add: fun_eq_iff dget_default_def)
  next
    case 3
    then show ?thesis unfolding warn_silence_def level_def [symmetric] Let_def
      by (intro exI [of _ "dset pid level (s_warned s)"]) (simp add: fun_eq_iff emit_def)
  qed
qed

lemma reap_one_exact:
  assumes "fst child \<in> set (c_ids c)"
  shows "\<exists>s'. reap_one c beats alive now child s = Inr s' \<and> reaped_only c beats alive now [child] s s'"
proof -
  obtain pid h where child: "child = (pid, h)" by (cases child)
  obtain i where i: "index_of pid (c_ids c) = Some i" using index_of_Some assms by (auto simp: child)
  define dead where "dead = doomed c beats alive now s child"
  define age where "age = now - dget_default 0 (s_spawned_at s) pid"
  note defs = child reap_one_def i doomed_def hung_def Let_def age_def [symmetric] reaped_only_def child_events_def
    child_warned_def silence_level_def death_reason_def
  show ?thesis
  proof (cases "alive h")
    case False
    then show ?thesis by (simp add: defs)
  next
    case True
    show ?thesis
    proof (cases "silent_for beats i now")
      case (SilentFor d)
      obtain w where w: "warn_silence pid d s = s\<lparr>s_warned := w, s_events := s_events s @
          (let level = length (filter (\<lambda>l. l \<le> d) warn_levels)
           in if dget_default 0 (s_warned s) pid < level then [WarnedSilent pid level] else [])\<rparr>"
        "dget w = (dget (s_warned s))(pid := (let level = length (filter (\<lambda>l. l \<le> d) warn_levels)
           in if level = 0 then None else Some (max level (dget_default 0 (s_warned s) pid))))"
        using warn_silence_eq [of pid d s] by blast
      show ?thesis
        by (cases "silence_limit < d") (simp_all add: defs True SilentFor w kill_child_def emit_def)
    qed (simp_all add: defs True kill_child_def emit_def)
  qed
qed

lemma reaped_keeps:
  assumes "reaped_only c beats alive now xs s s'"
  shows "doomed c beats alive now s' = doomed c beats alive now s" and "death_reason c beats now s' = death_reason c beats now s"
    and "s_events s' = s_events s @ concat (map (child_events c beats alive now s) xs)"
proof -
  have s': "s' = s\<lparr>s_warned := s_warned s', s_killed_by_me := s_killed_by_me s',
       s_events := s_events s @ concat (map (child_events c beats alive now s) xs)\<rparr>"
    using assms by (simp add: reaped_only_def)
  then have "s_spawned_at s' = s_spawned_at (s\<lparr>s_warned := s_warned s', s_killed_by_me := s_killed_by_me s',
       s_events := s_events s @ concat (map (child_events c beats alive now s) xs)\<rparr>)" by (rule arg_cong)
  then have spawned: "s_spawned_at s' = s_spawned_at s" by simp
  show "doomed c beats alive now s' = doomed c beats alive now s" "death_reason c beats now s' = death_reason c beats now s"
    unfolding fun_eq_iff doomed_def death_reason_def spawned by simp_all
  have "s_events s' = s_events (s\<lparr>s_warned := s_warned s', s_killed_by_me := s_killed_by_me s',
       s_events := s_events s @ concat (map (child_events c beats alive now s) xs)\<rparr>)" using s' by (rule arg_cong)
  then show "s_events s' = s_events s @ concat (map (child_events c beats alive now s) xs)" by simp
qed

lemma update_twice:
  "s1 = s\<lparr>s_warned := w1, s_killed_by_me := k1, s_events := e1\<rparr> \<Longrightarrow> s2 = s1\<lparr>s_warned := w2, s_killed_by_me := k2, s_events := e2\<rparr> \<Longrightarrow>
   e2 = e3 \<Longrightarrow> s2 = s\<lparr>s_warned := w2, s_killed_by_me := k2, s_events := e3\<rparr>"
  by simp

lemma reaped_trans:
  assumes 1: "reaped_only c beats alive now [x] s s1" and 2: "reaped_only c beats alive now xs s1 s2"
    and x: "fst x \<notin> set (dkeys xs)"
  shows "reaped_only c beats alive now (x # xs) s s2"
proof -
  note keeps = reaped_keeps [OF 1]
  have other: "dget (s_warned s1) (fst y) = dget (s_warned s) (fst y)" "dget (s_killed_by_me s1) (fst y) = dget (s_killed_by_me s) (fst y)"
    if "y \<in> set xs" for y
  proof -
    have "fst y \<in> set (dkeys xs)" using that by simp
    then have "fst y \<noteq> fst x" using x by metis
    then have "fst y \<notin> set (dkeys [x])" by simp
    then show "dget (s_warned s1) (fst y) = dget (s_warned s) (fst y)" "dget (s_killed_by_me s1) (fst y) = dget (s_killed_by_me s) (fst y)"
      using conjunct2 [OF conjunct2 [OF 1 [unfolded reaped_only_def]]] by blast+
  qed
  have warned: "child_warned c beats alive now s1 y = child_warned c beats alive now s y"
    and events: "child_events c beats alive now s1 y = child_events c beats alive now s y" if "y \<in> set xs" for y
    unfolding child_warned_def child_events_def keeps dget_default_def other [OF that] by (rule refl)+
  have same: "map (child_events c beats alive now s1) xs = map (child_events c beats alive now s) xs"
    using events by (rule map_cong [OF refl])
  have evs: "s_events s1 @ concat (map (child_events c beats alive now s1) xs) =
      s_events s @ concat (map (child_events c beats alive now s) (x # xs))"
    unfolding same keeps(3) by simp
  have s1: "s1 = s\<lparr>s_warned := s_warned s1, s_killed_by_me := s_killed_by_me s1,
       s_events := s_events s @ concat (map (child_events c beats alive now s) [x])\<rparr>"
    using 1 unfolding reaped_only_def by (rule conjunct1)
  have s2: "s2 = s1\<lparr>s_warned := s_warned s2, s_killed_by_me := s_killed_by_me s2,
       s_events := s_events s1 @ concat (map (child_events c beats alive now s1) xs)\<rparr>"
    using 2 unfolding reaped_only_def by (rule conjunct1)
  have eq: "s2 = s\<lparr>s_warned := s_warned s2, s_killed_by_me := s_killed_by_me s2,
       s_events := s_events s @ concat (map (child_events c beats alive now s) (x # xs))\<rparr>"
    by (rule update_twice [OF s1 s2 evs])
  have first: "dget (s_warned s1) (fst x) = child_warned c beats alive now s x"
      "dget (s_killed_by_me s1) (fst x) = (if doomed c beats alive now s x then death_reason c beats now s (fst x) else dget (s_killed_by_me s) (fst x))"
      "pid \<noteq> fst x \<Longrightarrow> dget (s_warned s1) pid = dget (s_warned s) pid \<and> dget (s_killed_by_me s1) pid = dget (s_killed_by_me s) pid" for pid
    using conjunct2 [OF 1 [unfolded reaped_only_def]] by simp_all
  have rest: "y \<in> set xs \<Longrightarrow> dget (s_warned s2) (fst y) = child_warned c beats alive now s1 y \<and>
       dget (s_killed_by_me s2) (fst y) =
         (if doomed c beats alive now s y then death_reason c beats now s (fst y) else dget (s_killed_by_me s1) (fst y))"
      "pid \<notin> set (dkeys xs) \<Longrightarrow> dget (s_warned s2) pid = dget (s_warned s1) pid \<and> dget (s_killed_by_me s2) pid = dget (s_killed_by_me s1) pid" for y pid
    using conjunct2 [OF 2 [unfolded reaped_only_def keeps]] by blast+
  show ?thesis
    unfolding reaped_only_def
  proof (intro conjI eq ballI allI impI)
    fix y assume "y \<in> set (x # xs)"
    then consider "y = x" | "y \<in> set xs" by auto
    then show "dget (s_warned s2) (fst y) = child_warned c beats alive now s y"
      and "dget (s_killed_by_me s2) (fst y) =
        (if doomed c beats alive now s y then death_reason c beats now s (fst y) else dget (s_killed_by_me s) (fst y))"
      by (cases; use first rest x other warned in simp)+
  next
    fix pid assume "pid \<notin> set (dkeys (x # xs))"
    then show "dget (s_warned s2) pid = dget (s_warned s) pid" "dget (s_killed_by_me s2) pid = dget (s_killed_by_me s) pid"
      using first(3) rest(2) by simp_all
  qed
qed

lemma reap_all:
  assumes "set (dkeys xs) \<subseteq> set (c_ids c)" and "distinct (dkeys xs)"
  shows "\<exists>s'. sfold (reap_one c beats alive now) xs s = Inr s' \<and> reaped_only c beats alive now xs s s'"
  using assms
proof (induction xs arbitrary: s)
  case Nil
  then show ?case by (simp add: reaped_only_def)
next
  case (Cons x xs)
  have x: "fst x \<in> set (c_ids c)" and xs: "set (dkeys xs) \<subseteq> set (c_ids c)" "distinct (dkeys xs)" "fst x \<notin> set (dkeys xs)"
    using Cons.prems by auto
  obtain s1 where s1: "reap_one c beats alive now x s = Inr s1" "reaped_only c beats alive now [x] s s1"
    using reap_one_exact [OF x] by blast
  obtain s2 where s2: "sfold (reap_one c beats alive now) xs s1 = Inr s2" "reaped_only c beats alive now xs s1 s2"
    using Cons.IH [OF xs(1,2)] by blast
  show ?case using s1(1) s2(1) reaped_trans [OF s1(2) s2(2) xs(3)] by auto
qed

lemma killed_child_events:
  "List.map_filter (\<lambda>ev. case ev of KilledChild h \<Rightarrow> Some h | _ \<Rightarrow> None) (concat (map (child_events c beats alive now s) xs)) =
   map snd (filter (doomed c beats alive now s) xs)"
  by (induction xs) (auto simp: child_events_def map_filter_def split: option.split)

lemma reap_hung_exact:
  assumes "s_beats s = Some beats" and "set (dkeys (s_children s)) \<subseteq> set (c_ids c)" and "distinct (dkeys (s_children s))"
  shows "\<exists>s'. reap_hung c alive now s = Inr s' \<and> reaped_only c beats alive now (s_children s) s s' \<and>
    killed s' = killed s @ map snd (filter (doomed c beats alive now s) (s_children s))"
proof -
  obtain s' where s': "sfold (reap_one c beats alive now) (s_children s) s = Inr s'" "reaped_only c beats alive now (s_children s) s s'"
    using reap_all [OF assms(2,3)] by blast
  have "killed s' = killed s @ map snd (filter (doomed c beats alive now s) (s_children s))"
    unfolding killed_def reaped_keeps(3) [OF s'(2)] killed_child_events [symmetric] by (simp add: map_filter_def)
  then show ?thesis using s' assms(1) by (auto simp: reap_hung_def)
qed

text \<open>A process that beat within the limit is never killed for silence; a new one has its grace.\<close>

lemma beating_is_safe:
  assumes "pat t beats i = Some beats'" and "i < length (h_cells beats)" and "t \<noteq> 0" and "now - t \<le> silence_limit"
  shows "\<not> hung beats' i now age"
  using assms by (auto simp: pat_def Let_def hung_def silent_for_def read_beat_def split: if_splits)

lemma fresh_is_safe:
  assumes "i < length (h_cells beats)" and "age \<le> startup_grace"
  shows "\<not> hung (reset_beat beats i) i now age"
  using assms by (simp add: hung_def silent_for_def read_beat_def reset_beat_def)

section \<open>The role of a dead primary\<close>

lemma index_of_c_ids: "by_id (c_topology c) pid = Some b \<Longrightarrow> \<exists>i. index_of pid (c_ids c) = Some i"
  using index_of_ids [of "c_topology c" pid b] by (auto simp: c_ids_def)

lemma candidate_spec:
  "promote_candidate c alive ex re s = Some pid \<Longrightarrow>
     pid \<in> set (c_ids c) \<and> Some pid \<noteq> ex \<and> is_alive alive s pid \<or> re = Some pid \<and> (\<forall>q \<in> set (c_ids c). Some q \<noteq> ex \<longrightarrow> \<not> is_alive alive s q)"
proof (cases "filter (\<lambda>pid. Some pid \<noteq> ex \<and> is_alive alive s pid) (c_ids c)")
  case Nil
  assume "promote_candidate c alive ex re s = Some pid"
  with Nil have "re = Some pid" by (simp add: promote_candidate_def)
  moreover have "\<forall>q \<in> set (c_ids c). Some q \<noteq> ex \<longrightarrow> \<not> is_alive alive s q"
    using Nil unfolding filter_empty_conv by blast
  ultimately show ?thesis by blast
next
  case (Cons q qs)
  assume "promote_candidate c alive ex re s = Some pid"
  with Cons have "pid = q" by (simp add: promote_candidate_def)
  moreover have "q \<in> set (filter (\<lambda>pid. Some pid \<noteq> ex \<and> is_alive alive s pid) (c_ids c))" by (simp add: Cons)
  ultimately show ?thesis by simp
qed


section \<open>Properties\<close>

text \<open>
  C7: the promotion limit holds over every run of the supervisor. However messages, deaths, restarts, reaping and
  stop signals interleave on a clock that does not run backwards, no window of 60 seconds ever holds
  more than 3 promotions. (The list of recent promotions is pruned only when a promotion is attempted.)
\<close>

theorem promotions_bounded:
  assumes "new_sup c beats = Inr s0" and "sup_run c (t0, s0) (t, s)"
  shows "length (filter (in_window w) (promoted_at s)) \<le> promotion_limit"
proof -
  have "promo_inv (fst (t, s)) (snd (t, s))" by (rule sup_run_inv [OF assms(2)]) (use new_sup_inv [OF assms(1)] in simp)
  then show ?thesis by (simp add: promo_inv_def)
qed

text \<open>
  C8: the reaper kills exactly the hung. It never fails on the children of the topology; it kills, in order and once
  each, the living children that never beat and have outlived the start-up grace, whose cell is
  impossible, or that were silent longer than the limit, and notes why for each. A living child silent within
  the limit is warned about once per level of silence reached, and its level forgotten when it beats again.
  Nothing else changes: not the children, the role, the restart counts, the heartbeat table or any other
  field, nor what was noted about the other processes.
\<close>

theorem reaps_exactly_the_hung:
  assumes "s_beats s = Some beats" and "set (dkeys (s_children s)) \<subseteq> set (c_ids c)" and "distinct (dkeys (s_children s))"
  shows "\<exists>s'. reap_hung c alive now s = Inr s' \<and>
    killed s' = killed s @ map snd (filter (doomed c beats alive now s) (s_children s)) \<and>
    reaped_only c beats alive now (s_children s) s s'"
  using reap_hung_exact [OF assms] by blast

text \<open>
  C17: a process that is not the primary and dies quickly again and again is restarted after 1, 2, 4, 8, 16 and then always 30 seconds: up to
  the 1024th death in a row every restart succeeds and the pauses are \<open>min (2 ^ k) 30\<close> seconds.
\<close>

theorem crash_loop_backs_off:
  assumes "by_id (c_topology c) pid = Some b" and "crashing pid 0 s"
    and "quick_deaths (dget_default 0 (s_spawned_at s) pid) rs" and "length rs \<le> 1024"
  shows "\<exists>s'. sfold (\<lambda>r. respawn c r pid) rs s = Inr s' \<and>
      slept s' = slept s @ map (\<lambda>k. min (second * 2 ^ k) (30 * second)) [0..<length rs]"
  using crash_loop [OF assms(1,2) _ assms(3)] assms(4) by (simp del: upt_Suc split: if_splits) blast

text \<open>
  The 1025th quick death in a row raises instead: the pause is computed as a float before it is capped, and
  \<open>2 ** 1024\<close> does not fit one. Nothing in the loop catches it, so the supervisor and with it the
  whole cluster stop (after about eight and a half hours of the capped pauses).
\<close>

theorem crash_loop_brings_cluster_down:
  assumes "by_id (c_topology c) pid = Some b" and "crashing pid 0 s"
    and "quick_deaths (dget_default 0 (s_spawned_at s) pid) rs" and "1024 < length rs"
  shows "\<exists>s'. sfold (\<lambda>r. respawn c r pid) rs s = Inl (RespawnOverflow, s')"
  using crash_loop [OF assms(1,2) _ assms(3)] assms(4) by simp

text \<open>The example cluster, its supervisor with two children, and restarts that die at once.\<close>

definition example_cluster :: cluster where
  "example_cluster = \<lparr>c_topology = example_blocks, c_bound = [], c_has_link = True, c_announces = \<lambda>_ _. True, c_win32 = False\<rparr>"

definition example_sup :: sup where
  "example_sup = \<lparr>s_children = [(''main'', 0), (''work-1'', 1)], s_spawned_at = [(''main'', 0), (''work-1'', 0)], s_warned = [],
     s_killed_by_me = [], s_respawns = [], s_stopping = False, s_primary = Some ''main'', s_run_once_done = True,
     s_promotions = [], s_promotion_stopped = False, s_beats = Some (create_beats 4), s_next = 2, s_events = []\<rparr>"

definition quick_restart :: restart where
  "quick_restart = \<lparr>r_alive = \<lambda>_. True, r_code = Some 1, r_promote_at = 0, r_check_at = 0, r_spawn_at = 0, r_starts = True\<rparr>"

lemma quick_restarts: "quick_deaths 0 (replicate n quick_restart)"
  by (induction n) (simp_all add: quick_restart_def respawn_reset_after_def second_def)

lemma example_crashing: "crashing ''work-1'' 0 example_sup" "dget_default 0 (s_spawned_at example_sup) ''work-1'' = 0"
  by (simp_all add: crashing_def example_sup_def dget_default_def)

lemma example_block: "\<exists>b. by_id (c_topology example_cluster) ''work-1'' = Some b"
proof -
  have "by_id example_blocks ''work-1'' = Some (example_blocks ! 1)" by code_simp
  then show ?thesis by (simp add: example_cluster_def)
qed

lemma promotions_bounded_witness:
  "\<exists>s0 s. new_sup example_cluster None = Inr s0 \<and> sup_run example_cluster (0, s0) (5, s) \<and> s_stopping s \<and>
     length (filter (in_window 0) (promoted_at s)) \<le> promotion_limit"
proof -
  have "primary_id example_blocks = Inr ''main''" by code_simp
  then obtain s0 where s0: "new_sup example_cluster None = Inr s0" by (simp add: new_sup_def example_cluster_def)
  have run: "sup_run example_cluster (0, s0) (5, on_signal s0)" by (rule r_into_rtranclp) (rule sup_step.Signal, simp)
  show ?thesis using s0 run promotions_bounded [OF s0 run, of 0] by (intro exI [of _ s0] exI [of _ "on_signal s0"]) (simp add: on_signal_def)
qed

lemma reaps_exactly_the_hung_witness:
  "\<exists>s'. reap_hung example_cluster (\<lambda>_. True) (61 * second) example_sup = Inr s' \<and> killed s' = [0, 1]"
proof -
  have beats: "s_beats example_sup = Some (create_beats 4)" by (simp add: example_sup_def)
  have ids: "set (dkeys (s_children example_sup)) \<subseteq> set (c_ids example_cluster)" by code_simp
  have "map snd (filter (doomed example_cluster (create_beats 4) (\<lambda>_. True) (61 * second) example_sup) (s_children example_sup)) = [0, 1]"
    by code_simp
  moreover have "killed example_sup = []" by (simp add: killed_def example_sup_def map_filter_simps)
  moreover have "distinct (dkeys (s_children example_sup))" by code_simp
  ultimately show ?thesis using reaps_exactly_the_hung [OF beats ids, of "\<lambda>_. True" "61 * second"] by auto
qed

lemma crash_loop_backs_off_witness:
  "\<exists>s'. sfold (\<lambda>r. respawn example_cluster r ''work-1'') (replicate 1024 quick_restart) example_sup = Inr s'"
  using crash_loop_backs_off [OF _ example_crashing(1), of example_cluster _ "replicate 1024 quick_restart"]
    example_block example_crashing(2) quick_restarts by auto

lemma crash_loop_brings_cluster_down_witness:
  "\<exists>s'. sfold (\<lambda>r. respawn example_cluster r ''work-1'') (replicate 1025 quick_restart) example_sup = Inl (RespawnOverflow, s')"
  using crash_loop_brings_cluster_down [OF _ example_crashing(1), of example_cluster _ "replicate 1025 quick_restart"]
    example_block example_crashing(2) quick_restarts by auto

end
