(* ===== verification/Member.thy ===== *)
theory Member
  imports Supervisor
begin

text \<open>
  A process of the cluster: its side of the control channel (\<open>xime/core/bootstrap/_cluster.py\<close>), and
  the adapters the application starts, keeps on standby, serves, isolates and stops
  (\<open>application.py\<close>, \<open>_health.py\<close>). An adapter is an element of \<open>'a\<close>; what its \<open>start\<close> does is an
  argument. The log records the calls that leave the process and the starts and stops.
\<close>

section \<open>State\<close>

text \<open>
  How a call ends: normally, with an \<open>Exception\<close>, with another exception that is not a cancellation, or
  cancelled. The bytes are the text of the exception.
\<close>

datatype call_outcome = Fine | Fails "byte list" | Fatal "byte list" | Cancelled

datatype 'a member_event =
    Told control_key "byte list"
  | RanOnceHere
  | StartCalled 'a
  | StopCalled 'a

record waiter =
  w_expected :: "nat list"
  w_acks :: "(nat, byte list) dict"

record 'a member =
  m_index :: nat
  m_slots :: nat
  m_linked :: bool
  m_primary :: bool
  m_run_once_done :: bool
  m_adapters :: "('a \<times> bool) list"
  m_started :: "'a list"
  m_standby :: "'a list"
  m_isolated :: "'a list"
  m_serving :: "'a list"
  m_waiters :: "(byte list, waiter) dict"
  m_log :: "'a member_event list"

definition clustered :: "'a member \<Rightarrow> bool" where
  "clustered m \<longleftrightarrow> 1 < m_slots m"

definition note_event :: "'a member_event \<Rightarrow> 'a member \<Rightarrow> 'a member" where
  "note_event ev m = m\<lparr>m_log := m_log m @ [ev]\<rparr>"

text \<open>\<open>_tell\<close> never raises; a report that cannot be announced is dropped.\<close>

definition tell :: "bool \<Rightarrow> control_key \<Rightarrow> byte list \<Rightarrow> 'a member \<Rightarrow> 'a member" where
  "tell works key detail m =
     (if m_linked m \<and> clustered m \<and> works
      then note_event (Told key (pack (int (m_index m)) (take 400 detail) 0)) m else m)"

section \<open>Taking the primary role\<close>

text \<open>Calls \<open>start\<close> on the adapters in turn: how it ended, who was started, who was called last.\<close>

fun start_each_standby :: "('a \<Rightarrow> call_outcome) \<Rightarrow> 'a list \<Rightarrow> 'a list \<Rightarrow> 'a member \<Rightarrow> 'a member \<times> 'a list \<times> ('a \<times> call_outcome) option" where
  "start_each_standby starts [] started m = (m, started, None)"
| "start_each_standby starts (a # as) started m =
     (let m1 = note_event (StartCalled a) m
      in case starts a of
           Fine \<Rightarrow> start_each_standby starts as (started @ [a]) m1
         | bad \<Rightarrow> (m1, started, Some (a, bad)))"

definition stop_all :: "'a list \<Rightarrow> 'a member \<Rightarrow> 'a member" where
  "stop_all as m = fold (\<lambda>a. note_event (StopCalled a)) as m"

text \<open>
  An \<open>Exception\<close> stops the failing adapter and, in reverse order, those already started, and puts the
  standby list back. Any other exception passes both handlers: the started adapters stay, the list is gone.
\<close>

definition start_standby :: "('a \<Rightarrow> call_outcome) \<Rightarrow> 'a member \<Rightarrow> 'a member \<times> call_outcome" where
  "start_standby starts m =
     (case start_each_standby starts (m_standby m) [] (m\<lparr>m_standby := []\<rparr>) of
        (m1, started, None) \<Rightarrow> (m1\<lparr>m_started := m_started m1 @ started, m_serving := m_serving m1 @ started\<rparr>, Fine)
      | (m1, started, Some (a, Fails e)) \<Rightarrow> (stop_all (a # rev started) m1 \<lparr>m_standby := m_standby m\<rparr>, Fails e)
      | (m1, started, Some (a, bad)) \<Rightarrow> (m1, bad))"

record 'a promotion =
  pr_run_once :: call_outcome
  pr_starts :: "'a \<Rightarrow> call_outcome"
  pr_tells :: "control_key \<Rightarrow> bool"

definition run_once_here :: "'a promotion \<Rightarrow> bool \<Rightarrow> 'a member \<Rightarrow> 'a member \<times> call_outcome" where
  "run_once_here p needed m =
     (if \<not> needed then (m, Fine)
      else let m1 = note_event RanOnceHere m
           in if pr_run_once p = Fine then (tell (pr_tells p RunOnceDone) RunOnceDone [] m1, Fine) else (m1, pr_run_once p))"

definition take_role :: "'a promotion \<Rightarrow> bool \<Rightarrow> 'a member \<Rightarrow> 'a member \<times> call_outcome" where
  "take_role p needed m =
     (case run_once_here p needed m of
        (m1, Fine) \<Rightarrow> start_standby (pr_starts p) (m1\<lparr>m_run_once_done := True\<rparr>)
      | (m1, bad) \<Rightarrow> (m1, bad))"

text \<open>A cancellation escapes, which the second component shows.\<close>

definition accept_promotion :: "'a promotion \<Rightarrow> bool \<Rightarrow> 'a member \<Rightarrow> 'a member \<times> bool" where
  "accept_promotion p needed m =
     (if m_primary m then (m, True)
      else case take_role p needed (m\<lparr>m_primary := True\<rparr>) of
             (m1, Fine) \<Rightarrow> (tell (pr_tells p Promoted) Promoted [] m1, True)
           | (m1, Cancelled) \<Rightarrow> (m1, False)
           | (m1, Fails e) \<Rightarrow> (tell (pr_tells p PromoteFailed) PromoteFailed e (m1\<lparr>m_primary := False\<rparr>), True)
           | (m1, Fatal e) \<Rightarrow> (tell (pr_tells p PromoteFailed) PromoteFailed e (m1\<lparr>m_primary := False\<rparr>), True))"

section \<open>Adapters of a process\<close>

text \<open>One turn of the loop of \<open>_start_adapters\<close>; \<open>snd\<close> of an adapter says whether it is a singleton.\<close>

definition start_one :: "('a \<Rightarrow> call_outcome) \<Rightarrow> 'a \<times> bool \<Rightarrow> 'a member \<Rightarrow> 'a member \<times> call_outcome" where
  "start_one starts ad m =
     (case ad of (a, singleton) \<Rightarrow>
        if singleton \<and> \<not> m_primary m then (m\<lparr>m_standby := m_standby m @ [a]\<rparr>, Fine)
        else let m1 = note_event (StartCalled a) m
             in if starts a = Fine then (m1\<lparr>m_started := m_started m1 @ [a]\<rparr>, Fine) else (m1, starts a))"

fun start_adapters :: "('a \<Rightarrow> call_outcome) \<Rightarrow> ('a \<times> bool) list \<Rightarrow> 'a member \<Rightarrow> 'a member \<times> call_outcome" where
  "start_adapters starts [] m = (m, Fine)"
| "start_adapters starts (ad # ads) m =
     (case start_one starts ad m of
        (m1, Fine) \<Rightarrow> start_adapters starts ads m1
      | (m1, bad) \<Rightarrow> (m1, bad))"

text \<open>\<open>_serve_adapters\<close> makes one serving task for each started adapter and forgets earlier ones.\<close>

definition serve_adapters :: "'a member \<Rightarrow> 'a list \<times> 'a member" where
  "serve_adapters m = (m_started m, m\<lparr>m_serving := m_started m\<rparr>)"

definition serve_one_ends :: "bool \<Rightarrow> 'a \<Rightarrow> call_outcome \<Rightarrow> byte list \<Rightarrow> 'a member \<Rightarrow> 'a member" where
  "serve_one_ends tells a how label m =
     (case how of
        Fails _ \<Rightarrow> tell tells AdapterIsolated label (m\<lparr>m_isolated := m_isolated m @ [a]\<rparr>)
      | Fatal _ \<Rightarrow> tell tells AdapterIsolated label (m\<lparr>m_isolated := m_isolated m @ [a]\<rparr>)
      | _ \<Rightarrow> m)"

definition stop_adapters :: "'a member \<Rightarrow> 'a member" where
  "stop_adapters m = stop_all (rev (map fst (m_adapters m))) m"

definition clear_runtime :: "'a member \<Rightarrow> 'a member" where
  "clear_runtime m = m\<lparr>m_started := [], m_standby := [], m_isolated := [], m_run_once_done := False\<rparr>"

datatype health_state = Serving | Standby | Isolated

definition health :: "'a member \<Rightarrow> bool \<times> ('a \<times> health_state) list" where
  "health m = (m_primary m, List.map_filter (\<lambda>(a, _).
     if a \<in> set (m_isolated m) then Some (a, Isolated)
     else if a \<in> set (m_standby m) then Some (a, Standby)
     else if a \<in> set (m_started m) then Some (a, Serving)
     else None) (m_adapters m))"

section \<open>Commands to adapters\<close>

datatype command_error = NotClustered | NoTargets | BadCommand control_error | CannotAnnounce

text \<open>Sending: the waiter is registered first and removed again when packing or announcing raises.\<close>

definition request_command :: "bool \<Rightarrow> byte list \<Rightarrow> int list \<Rightarrow> byte list \<Rightarrow> 'a member \<Rightarrow> 'a member \<times> (command_error + byte list)" where
  "request_command announces rid targets command m =
     (if \<not> m_linked m \<or> \<not> clustered m then (m, Inl NotClustered)
      else if targets = [] then (m, Inl NoTargets)
      else let expected = sort (remdups targets);
               gone = m\<lparr>m_waiters := ddel rid (m_waiters m)\<rparr>
           in case pack_adapter_command rid expected command of
                Inl e \<Rightarrow> (gone, Inl (BadCommand e))
              | Inr payload \<Rightarrow>
                  if announces
                  then (note_event (Told CommandRequest payload)
                          (m\<lparr>m_waiters := dset rid \<lparr>w_expected = map nat expected, w_acks = []\<rparr> (m_waiters m)\<rparr>), Inr payload)
                  else (gone, Inl CannotAnnounce))"

definition record_ack :: "byte list \<Rightarrow> nat \<Rightarrow> byte list \<Rightarrow> 'a member \<Rightarrow> 'a member" where
  "record_ack rid i result m =
     (case dget (m_waiters m) rid of
        None \<Rightarrow> m
      | Some w \<Rightarrow>
          if i \<notin> set (w_expected w) \<or> i \<in> set (dkeys (w_acks w)) then m
          else m\<lparr>m_waiters := dset rid (w\<lparr>w_acks := dset i result (w_acks w)\<rparr>) (m_waiters m)\<rparr>)"

definition all_acknowledged :: "waiter \<Rightarrow> bool" where
  "all_acknowledged w \<longleftrightarrow> set (w_expected w) \<subseteq> set (dkeys (w_acks w))"

text \<open>After the wait, complete or timed out: the acknowledgements, the missing targets, the waiter removed.\<close>

definition finish_command :: "byte list \<Rightarrow> 'a member \<Rightarrow> 'a member \<times> ((nat, byte list) dict \<times> nat list) option" where
  "finish_command rid m =
     (case dget (m_waiters m) rid of
        None \<Rightarrow> (m, None)
      | Some w \<Rightarrow> (m\<lparr>m_waiters := ddel rid (m_waiters m)\<rparr>,
          Some (w_acks w, sort (filter (\<lambda>t. t \<notin> set (dkeys (w_acks w))) (remdups (w_expected w))))))"

text \<open>Executing: an answer or failure text too long for the row raises inside the task, and no ACK is sent.\<close>

definition execute_command :: "bool \<Rightarrow> byte list \<Rightarrow> byte list \<Rightarrow> 'a member \<Rightarrow> 'a member \<times> control_error option" where
  "execute_command announces rid result m =
     (case pack_adapter_ack rid (int (m_index m)) result of
        Inl e \<Rightarrow> (m, Some e)
      | Inr ack \<Rightarrow>
          let m1 = record_ack rid (m_index m) result m
          in (if m_linked m \<and> announces then note_event (Told CommandAck ack) m1 else m1, None))"

datatype control_action = NoAction | ExecuteCommand "byte list" "byte list" | PromoteMe bool

definition control_action_of :: "nat \<Rightarrow> control_key \<Rightarrow> byte list \<Rightarrow> control_action" where
  "control_action_of index key payload =
     (if key = CommandBroadcast
      then (case unpack_adapter_command payload of
              None \<Rightarrow> NoAction
            | Some (rid, targets, command) \<Rightarrow> if index \<in> set targets then ExecuteCommand rid command else NoAction)
      else if key = Promote
      then (case unpack payload of (target, flag, _) \<Rightarrow> if target = index then PromoteMe (flag \<noteq> 0) else NoAction)
      else NoAction)"

text \<open>
  One message of the internal channel. A command is run by a task of its own, so it shows as the
  action; a promotion is awaited on the spot.
\<close>

definition member_control :: "'a promotion \<Rightarrow> control_key \<times> byte list \<Rightarrow> 'a member \<Rightarrow> 'a member \<times> control_action" where
  "member_control p msg m =
     (case msg of (key, payload) \<Rightarrow>
        if key = CommandAck
        then (case unpack_adapter_ack payload of
                Some (rid, i, result) \<Rightarrow> (record_ack rid i result m, NoAction)
              | None \<Rightarrow> (m, NoAction))
        else case control_action_of (m_index m) key payload of
               PromoteMe needed \<Rightarrow> (fst (accept_promotion p needed m), NoAction)
             | act \<Rightarrow> (m, act))"


section \<open>Refusing the role\<close>

lemma note_event_fields [simp]:
  "m_primary (note_event ev m) = m_primary m" "m_standby (note_event ev m) = m_standby m" "m_started (note_event ev m) = m_started m"
  "m_serving (note_event ev m) = m_serving m" "m_log (note_event ev m) = m_log m @ [ev]" "m_index (note_event ev m) = m_index m"
  "m_linked (note_event ev m) = m_linked m" "m_slots (note_event ev m) = m_slots m" "m_waiters (note_event ev m) = m_waiters m"
  "m_adapters (note_event ev m) = m_adapters m" "m_isolated (note_event ev m) = m_isolated m"
  by (simp_all add: note_event_def)

lemma clustered_fields [simp]:
  "clustered (note_event ev m) = clustered m" "clustered (m\<lparr>m_primary := b\<rparr>) = clustered m"
  "clustered (m\<lparr>m_run_once_done := b\<rparr>) = clustered m" "clustered (m\<lparr>m_standby := l\<rparr>) = clustered m"
  "clustered (m\<lparr>m_started := l\<rparr>) = clustered m" "clustered (m\<lparr>m_serving := l\<rparr>) = clustered m"
  by (simp_all add: clustered_def)

lemma tell_fields [simp]:
  "m_primary (tell w k d m) = m_primary m" "m_standby (tell w k d m) = m_standby m" "m_started (tell w k d m) = m_started m"
  "m_serving (tell w k d m) = m_serving m" "m_index (tell w k d m) = m_index m" "m_linked (tell w k d m) = m_linked m"
  "m_slots (tell w k d m) = m_slots m" "clustered (tell w k d m) = clustered m"
  "m_log (tell w k d m) = m_log m @ (if m_linked m \<and> clustered m \<and> w then [Told k (pack (int (m_index m)) (take 400 d) 0)] else [])"
  by (simp_all add: tell_def)

lemma stop_all_fields [simp]:
  "m_primary (stop_all as m) = m_primary m" "m_standby (stop_all as m) = m_standby m" "m_started (stop_all as m) = m_started m"
  "m_serving (stop_all as m) = m_serving m" "m_index (stop_all as m) = m_index m" "m_linked (stop_all as m) = m_linked m"
  "m_slots (stop_all as m) = m_slots m" "clustered (stop_all as m) = clustered m"
  "m_log (stop_all as m) = m_log m @ map StopCalled as"
proof -
  have all: "m_primary (stop_all as m) = m_primary m \<and> m_standby (stop_all as m) = m_standby m \<and> m_started (stop_all as m) = m_started m \<and>
      m_serving (stop_all as m) = m_serving m \<and> m_index (stop_all as m) = m_index m \<and> m_linked (stop_all as m) = m_linked m \<and>
      m_slots (stop_all as m) = m_slots m \<and> clustered (stop_all as m) = clustered m \<and> m_log (stop_all as m) = m_log m @ map StopCalled as"
    unfolding stop_all_def by (induction as arbitrary: m) simp_all
  show "m_primary (stop_all as m) = m_primary m" "m_standby (stop_all as m) = m_standby m" "m_started (stop_all as m) = m_started m"
    "m_serving (stop_all as m) = m_serving m" "m_index (stop_all as m) = m_index m" "m_linked (stop_all as m) = m_linked m"
    "m_slots (stop_all as m) = m_slots m" "clustered (stop_all as m) = clustered m" "m_log (stop_all as m) = m_log m @ map StopCalled as"
    using all by blast+
qed

text \<open>What the loop over the standby adapters leaves behind.\<close>

definition rest_of :: "'a member \<Rightarrow> 'a member" where
  "rest_of m = m\<lparr>m_log := []\<rparr>"

lemma rest_of_simps [simp]:
  "rest_of (note_event ev m) = rest_of m" "rest_of (tell w k d m) = rest_of m" "rest_of (m\<lparr>m_log := l\<rparr>) = rest_of m"
  by (simp_all add: rest_of_def note_event_def tell_def)

lemma rest_of_stop_all [simp]: "rest_of (stop_all as m) = rest_of m"
  unfolding stop_all_def by (induction as arbitrary: m) simp_all

lemma rest_of_update:
  "rest_of (m\<lparr>m_standby := l\<rparr>) = rest_of m \<lparr>m_standby := l\<rparr>" "rest_of (m\<lparr>m_primary := b\<rparr>) = rest_of m \<lparr>m_primary := b\<rparr>"
  "rest_of (m\<lparr>m_run_once_done := b\<rparr>) = rest_of m \<lparr>m_run_once_done := b\<rparr>"
  by (simp_all add: rest_of_def)

lemma rest_of_fields:
  "rest_of m = rest_of m' \<Longrightarrow> m_primary m = m_primary m' \<and> m_standby m = m_standby m' \<and> m_index m = m_index m' \<and>
     m_linked m = m_linked m' \<and> m_slots m = m_slots m' \<and> m_run_once_done m = m_run_once_done m'"
  unfolding rest_of_def by (cases m; cases m') simp

lemma standby_starts_spec:
  assumes "start_each_standby starts as started m = (m', started', failed)"
  shows "rest_of m' = rest_of m \<and> (case failed of
      None \<Rightarrow> started' = started @ as \<and> m_log m' = m_log m @ map StartCalled as \<and> (\<forall>a \<in> set as. starts a = Fine)
    | Some (a, bad) \<Rightarrow> \<exists>ok rest. as = ok @ a # rest \<and> started' = started @ ok \<and> m_log m' = m_log m @ map StartCalled (ok @ [a]) \<and>
        starts a = bad \<and> bad \<noteq> Fine \<and> (\<forall>x \<in> set ok. starts x = Fine))"
  using assms
proof (induction as arbitrary: started m)
  case Nil
  then show ?case by auto
next
  case (Cons a as)
  define m1 where "m1 = note_event (StartCalled a) m"
  have m1: "rest_of m1 = rest_of m" "m_log m1 = m_log m @ [StartCalled a]" by (simp_all add: m1_def)
  show ?case
  proof (cases "starts a = Fine")
    case True
    then have run: "start_each_standby starts as (started @ [a]) m1 = (m', started', failed)"
      using Cons.prems by (simp add: m1_def Let_def)
    note IH = Cons.IH [OF this]
    show ?thesis
    proof (cases failed)
      case None
      then show ?thesis using IH m1 True by simp
    next
      case (Some x)
      obtain b bad where x: "x = (b, bad)" by (cases x)
      obtain ok rest where "as = ok @ b # rest" "started' = started @ a # ok" "m_log m' = m_log m1 @ map StartCalled (ok @ [b])"
        "starts b = bad" "bad \<noteq> Fine" "\<forall>x \<in> set ok. starts x = Fine" using IH Some x by auto
      then show ?thesis using IH m1 True Some x by (auto intro!: exI [of _ "a # ok"])
    qed
  next
    case False
    then have "m' = m1 \<and> started' = started \<and> failed = Some (a, starts a)"
      using Cons.prems by (cases "starts a") (auto simp: m1_def Let_def)
    then show ?thesis using m1 False by (auto intro!: exI [of _ "[]"])
  qed
qed

text \<open>The adapters that \<open>start\<close> or \<open>stop\<close> was called on, in a log.\<close>

definition calls :: "'a member_event list \<Rightarrow> ('a \<times> bool) list" where
  "calls log = List.map_filter (\<lambda>ev. case ev of StartCalled a \<Rightarrow> Some (a, True) | StopCalled a \<Rightarrow> Some (a, False) | _ \<Rightarrow> None) log"

lemma calls_simps [simp]:
  "calls [] = []" "calls (log @ log') = calls log @ calls log'" "calls (Told k d # log) = calls log"
  "calls (RanOnceHere # log) = calls log" "calls (StartCalled a # log) = (a, True) # calls log"
  "calls (StopCalled a # log) = (a, False) # calls log"
  "calls (map StartCalled as) = map (\<lambda>a. (a, True)) as" "calls (map StopCalled as) = map (\<lambda>a. (a, False)) as"
proof -
  show "calls (map StartCalled as) = map (\<lambda>a. (a, True)) as" by (induction as) (simp_all add: calls_def map_filter_simps)
  show "calls (map StopCalled as) = map (\<lambda>a. (a, False)) as" by (induction as) (simp_all add: calls_def map_filter_simps)
qed (simp_all add: calls_def map_filter_def del: split_paired_Ex)

lemma start_standby_refused:
  assumes "start_standby starts m = (m', Fails e)"
  shows "rest_of m' = rest_of m \<and> (\<exists>tried. m_log m' = m_log m @ map StartCalled tried @ map StopCalled (rev tried))"
proof -
  obtain m1 started failed where run: "start_each_standby starts (m_standby m) [] (m\<lparr>m_standby := []\<rparr>) = (m1, started, failed)"
    by (metis prod_cases3)
  obtain a where failed: "failed = Some (a, Fails e)" and m': "m' = stop_all (a # rev started) m1 \<lparr>m_standby := m_standby m\<rparr>"
    using assms run by (auto simp: start_standby_def split: option.splits call_outcome.splits)
  note spec = standby_starts_spec [OF run]
  obtain ok rest where ok: "m_standby m = ok @ a # rest" "started = ok" "m_log m1 = m_log m @ map StartCalled (ok @ [a])"
    using spec failed by auto
  have "rest_of m1 = rest_of (m\<lparr>m_standby := []\<rparr>)" using spec by simp
  then have "rest_of m' = rest_of m \<lparr>m_standby := m_standby m\<rparr>" by (simp add: m' rest_of_update)
  then have "rest_of m' = rest_of m" by (simp add: rest_of_def)
  moreover have "m_log m' = m_log m @ map StartCalled (ok @ [a]) @ map StopCalled (rev (ok @ [a]))"
    using ok by (simp add: m')
  ultimately show ?thesis by blast
qed

lemma run_once_here_spec:
  assumes "run_once_here p needed m = (m', out)"
  shows "rest_of m' = rest_of m \<and> calls (m_log m') = calls (m_log m) \<and> (out = Fine \<longleftrightarrow> \<not> needed \<or> pr_run_once p = Fine)"
  using assms by (auto simp: run_once_here_def Let_def split: if_splits)

lemma accept_refused:
  assumes "\<not> m_primary m" and "take_role p needed (m\<lparr>m_primary := True\<rparr>) = (m1, Fails e)"
  shows "\<exists>m' tried. accept_promotion p needed m = (m', True) \<and>
    m' = m\<lparr>m_run_once_done := m_run_once_done m \<or> \<not> needed \<or> pr_run_once p = Fine, m_log := m_log m'\<rparr> \<and>
    calls (m_log m') = calls (m_log m) @ map (\<lambda>a. (a, True)) tried @ map (\<lambda>a. (a, False)) (rev tried) \<and>
    (m_linked m \<and> clustered m \<and> pr_tells p PromoteFailed \<longrightarrow>
       last (m_log m') = Told PromoteFailed (pack (int (m_index m)) (take 400 e) 0))"
proof -
  define m' where "m' = tell (pr_tells p PromoteFailed) PromoteFailed e (m1\<lparr>m_primary := False\<rparr>)"
  define ran where "ran \<longleftrightarrow> m_run_once_done m \<or> \<not> needed \<or> pr_run_once p = Fine"
  have acc: "accept_promotion p needed m = (m', True)" using assms by (simp add: accept_promotion_def m'_def)
  obtain m0 out where m0: "run_once_here p needed (m\<lparr>m_primary := True\<rparr>) = (m0, out)" by fastforce
  have r0: "rest_of m0 = rest_of m \<lparr>m_primary := True\<rparr>" "calls (m_log m0) = calls (m_log m)"
      "out = Fine \<longleftrightarrow> \<not> needed \<or> pr_run_once p = Fine"
    using run_once_here_spec [OF m0] by (simp_all add: rest_of_update)
  have "\<exists>tried. rest_of m1 = rest_of m \<lparr>m_primary := True, m_run_once_done := ran\<rparr> \<and>
      calls (m_log m1) = calls (m_log m0) @ map (\<lambda>a. (a, True)) tried @ map (\<lambda>a. (a, False)) (rev tried)"
  proof (cases "out = Fine")
    case True
    then have "start_standby (pr_starts p) (m0\<lparr>m_run_once_done := True\<rparr>) = (m1, Fails e)"
      using assms(2) m0 by (simp add: take_role_def)
    from start_standby_refused [OF this] obtain tried where t:
      "rest_of m1 = rest_of (m0\<lparr>m_run_once_done := True\<rparr>)" "m_log m1 = m_log m0 @ map StartCalled tried @ map StopCalled (rev tried)"
      by auto
    have "ran" using True r0(3) by (simp add: ran_def)
    then show ?thesis using t by (intro exI [of _ tried]) (simp add: rest_of_update r0)
  next
    case False
    then have "m1 = m0" using assms(2) m0 by (cases out) (simp_all add: take_role_def)
    moreover have "ran = m_run_once_done m" using False r0(3) by (simp add: ran_def)
    moreover have "rest_of m \<lparr>m_primary := True, m_run_once_done := m_run_once_done m\<rparr> = rest_of m \<lparr>m_primary := True\<rparr>"
      by (simp add: rest_of_def)
    ultimately show ?thesis using r0(1) by (intro exI [of _ "[]"]) simp
  qed
  then obtain tried where t: "rest_of m1 = rest_of m \<lparr>m_primary := True, m_run_once_done := ran\<rparr>"
    "calls (m_log m1) = calls (m_log m0) @ map (\<lambda>a. (a, True)) tried @ map (\<lambda>a. (a, False)) (rev tried)"
    by blast
  have "rest_of m' = rest_of m \<lparr>m_primary := False, m_run_once_done := ran\<rparr>"
    by (simp add: m'_def rest_of_update t(1))
  also have "\<dots> = rest_of (m\<lparr>m_run_once_done := ran\<rparr>)" using assms(1) by (simp add: rest_of_def)
  finally have m': "m' = m\<lparr>m_run_once_done := ran, m_log := m_log m'\<rparr>"
    unfolding rest_of_def by (cases m; cases m') simp
  have "m_index m1 = m_index m" "m_linked m1 = m_linked m" "clustered m1 = clustered m"
    using rest_of_fields [of m1 "m\<lparr>m_primary := True, m_run_once_done := ran\<rparr>"] t(1)
    by (simp_all add: rest_of_def clustered_def)
  moreover have "calls (m_log m') = calls (m_log m) @ map (\<lambda>a. (a, True)) tried @ map (\<lambda>a. (a, False)) (rev tried)"
    using t(2) r0 by (simp add: m'_def)
  ultimately show ?thesis using acc m' unfolding ran_def [symmetric]
    by (intro exI [of _ m'] exI [of _ tried]) (simp add: m'_def)
qed


section \<open>Serving an adapter twice\<close>

text \<open>
  The pump of the control channel runs from \<open>listen\<close> on, so a promotion can arrive while the adapters are
  still being started: after the singleton went to standby and before \<open>_serve_adapters\<close>.
\<close>

definition serving_tasks :: "'a promotion \<Rightarrow> 'a \<times> bool \<Rightarrow> ('a \<times> bool) list \<Rightarrow> ('a \<Rightarrow> call_outcome) \<Rightarrow> 'a member \<Rightarrow> 'a list" where
  "serving_tasks p single others starts m =
     (let m1 = fst (start_one starts single m);
          m2 = fst (accept_promotion p False m1);
          m3 = fst (start_adapters starts others m2)
      in m_serving m2 @ fst (serve_adapters m3))"

lemma start_adapters_fine:
  assumes "m_primary m" and "\<forall>ad \<in> set ads. starts (fst ad) = Fine"
  shows "m_started (fst (start_adapters starts ads m)) = m_started m @ map fst ads"
  using assms
proof (induction ads arbitrary: m)
  case (Cons ad ads)
  obtain a singleton where ad: "ad = (a, singleton)" by (cases ad)
  define m1 where "m1 = note_event (StartCalled a) m"
  have one: "start_one starts ad m = (m1\<lparr>m_started := m_started m1 @ [a]\<rparr>, Fine)"
    using Cons.prems by (simp add: ad start_one_def m1_def)
  have "m_started (fst (start_adapters starts ads (m1\<lparr>m_started := m_started m1 @ [a]\<rparr>))) = m_started (m1\<lparr>m_started := m_started m1 @ [a]\<rparr>) @ map fst ads"
    by (rule Cons.IH) (use Cons.prems in \<open>simp_all add: m1_def\<close>)
  then show ?case unfolding start_adapters.simps one by (simp add: ad m1_def)
qed simp

lemma served_twice:
  assumes "\<not> m_primary m" and "m_standby m = []" and "m_started m = []" and "m_serving m = []"
    and "pr_starts p a = Fine" and "\<forall>ad \<in> set others. starts (fst ad) = Fine"
  shows "serving_tasks p (a, True) others starts m = a # a # map fst others"
proof -
  define m1 where "m1 = m\<lparr>m_standby := [a]\<rparr>"
  have one: "start_one starts (a, True) m = (m1, Fine)" using assms(1,2) by (simp add: start_one_def m1_def)
  have m1: "m_started m1 = []" "m_serving m1 = []" "m_standby m1 = [a]" "\<not> m_primary m1" using assms by (simp_all add: m1_def)
  obtain m2 where m2: "accept_promotion p False m1 = (m2, True)" "m_primary m2" "m_started m2 = [a]" "m_serving m2 = [a]"
    using m1 assms(5) by (simp add: accept_promotion_def take_role_def run_once_here_def start_standby_def Let_def)
  show ?thesis
    using start_adapters_fine [OF m2(2) assms(6)] m2
    by (simp add: serving_tasks_def one Let_def serve_adapters_def)
qed

section \<open>Acknowledgements\<close>

lemma record_ack_waiter:
  assumes "dget (m_waiters m) rid = Some w"
  shows "dget (m_waiters (record_ack rid i r m)) rid = Some (w\<lparr>w_acks :=
    (if i \<in> set (w_expected w) \<and> i \<notin> set (dkeys (w_acks w)) then dset i r (w_acks w) else w_acks w)\<rparr>)"
  using assms by (simp add: record_ack_def)

text \<open>The first acknowledgement of each expected worker, and no other.\<close>

lemma record_acks:
  assumes "dget (m_waiters m) rid = Some w"
  shows "\<exists>acks. dget (m_waiters (fold (\<lambda>(i, r). record_ack rid i r) xs m)) rid = Some (w\<lparr>w_acks := acks\<rparr>) \<and>
    (\<forall>i. dget acks i = (case dget (w_acks w) i of Some r \<Rightarrow> Some r | None \<Rightarrow> if i \<in> set (w_expected w) then dget xs i else None))"
  using assms
proof (induction xs arbitrary: m w)
  case Nil
  then show ?case by (intro exI [of _ "w_acks w"]) (auto split: option.split)
next
  case (Cons x xs)
  obtain i r where x: "x = (i, r)" by (cases x)
  define w1 where "w1 = w\<lparr>w_acks := (if i \<in> set (w_expected w) \<and> i \<notin> set (dkeys (w_acks w)) then dset i r (w_acks w) else w_acks w)\<rparr>"
  have w1: "dget (m_waiters (record_ack rid i r m)) rid = Some w1"
    unfolding w1_def by (rule record_ack_waiter [OF Cons.prems])
  obtain acks where acks: "dget (m_waiters (fold (\<lambda>(i, r). record_ack rid i r) xs (record_ack rid i r m))) rid = Some (w1\<lparr>w_acks := acks\<rparr>)"
    "\<forall>j. dget acks j = (case dget (w_acks w1) j of Some r \<Rightarrow> Some r | None \<Rightarrow> if j \<in> set (w_expected w1) then dget xs j else None)"
    using Cons.IH [OF w1] by blast
  have "dget acks j = (case dget (w_acks w) j of Some r \<Rightarrow> Some r | None \<Rightarrow> if j \<in> set (w_expected w) then dget (x # xs) j else None)" for j
  proof -
    have none: "dget (w_acks w) i = None \<longleftrightarrow> i \<notin> set (dkeys (w_acks w))" by (rule dget_None_keys)
    have "dget (w_acks w1) j = (if j = i \<and> i \<in> set (w_expected w) \<and> dget (w_acks w) i = None then Some r else dget (w_acks w) j)"
      unfolding none by (simp add: w1_def)
    moreover have "w_expected w1 = w_expected w" by (simp add: w1_def)
    ultimately show ?thesis using acks(2) by (cases "dget (w_acks w) j") (auto simp: x split: option.splits if_splits)
  qed
  moreover have "w1\<lparr>w_acks := acks\<rparr> = w\<lparr>w_acks := acks\<rparr>" by (simp add: w1_def)
  ultimately show ?case using acks(1) by (intro exI [of _ acks]) (simp add: x)
qed

lemma command_accounts_all:
  assumes "request_command True rid targets command m = (m1, Inr payload)"
    and "finish_command rid (fold (\<lambda>(i, r). record_ack rid i r) xs m1) = (m2, result)"
  shows "\<exists>acks missing. result = Some (acks, missing) \<and>
    (\<forall>i. dget acks i = (if int i \<in> set targets then dget xs i else None)) \<and>
    set missing = {i. int i \<in> set targets \<and> i \<notin> fst ` set xs} \<and> sorted missing \<and> distinct missing \<and>
    unpack_adapter_command payload = Some (rid, map nat (sort (remdups targets)), command)"
proof -
  define expected where "expected = sort (remdups targets)"
  obtain ok: "pack_adapter_command rid expected command = Inr payload"
    and m1: "dget (m_waiters m1) rid = Some \<lparr>w_expected = map nat expected, w_acks = []\<rparr>"
    using assms(1) by (auto simp: request_command_def Let_def expected_def split: if_splits sum.splits)
  have nonneg: "\<forall>t \<in> set targets. 0 \<le> t" using ok by (auto simp: pack_adapter_command_iff expected_def)
  obtain acks where acks: "dget (m_waiters (fold (\<lambda>(i, r). record_ack rid i r) xs m1)) rid = Some \<lparr>w_expected = map nat expected, w_acks = acks\<rparr>"
    "\<forall>i. dget acks i = (if i \<in> set (map nat expected) then dget xs i else None)"
    using record_acks [OF m1, of xs] by auto
  have mem: "i \<in> set (map nat expected) \<longleftrightarrow> int i \<in> set targets" for i
    using nonneg by (auto simp: expected_def image_iff) (metis nat_int)
  define missing where "missing = sort (filter (\<lambda>t. t \<notin> set (dkeys acks)) (remdups (map nat expected)))"
  have res: "result = Some (acks, missing)" using assms(2) acks(1) by (simp add: finish_command_def missing_def)
  have "i \<in> set (dkeys acks) \<longleftrightarrow> int i \<in> set targets \<and> i \<in> fst ` set xs" for i
  proof -
    have "i \<in> set (dkeys acks) \<longleftrightarrow> dget acks i \<noteq> None" by (simp only: dget_None_keys not_not)
    also have "\<dots> \<longleftrightarrow> int i \<in> set targets \<and> dget xs i \<noteq> None" using acks(2) mem by auto
    also have "dget xs i \<noteq> None \<longleftrightarrow> i \<in> fst ` set xs" by (simp only: dget_None_keys not_not set_map)
    finally show ?thesis .
  qed
  then have "set missing = {i. int i \<in> set targets \<and> i \<notin> fst ` set xs}"
    using mem by (auto simp: missing_def)
  moreover have "\<forall>i. dget acks i = (if int i \<in> set targets then dget xs i else None)" using acks(2) mem by simp
  moreover have "unpack_adapter_command payload = Some (rid, map nat (sort (remdups targets)), command)"
    using unpack_packed_command [OF ok] by (simp add: expected_def sorted_sort_id)
  ultimately show ?thesis using res by (intro exI [of _ acks] exI [of _ missing]) (simp add: missing_def)
qed


section \<open>Properties\<close>

text \<open>
  C9: a process that cannot take the primary role rolls back. When the cluster task or a standby adapter fails with an
  \<open>Exception\<close>, every adapter it tried to start was stopped again in reverse order, the supervisor is told, and
  the process is as before (not primary, with its standby list, started and isolated adapters, serving
  tasks and commands under way) but for the events logged and one field: the cluster task counts as done when it was not needed
  here or ended well, so that only a refusal by an adapter can leave it set.
\<close>

theorem refusal_rolls_back:
  assumes "\<not> m_primary m" and "take_role p needed (m\<lparr>m_primary := True\<rparr>) = (m1, Fails e)"
  shows "\<exists>m' tried. accept_promotion p needed m = (m', True) \<and>
    m' = m\<lparr>m_run_once_done := m_run_once_done m \<or> \<not> needed \<or> pr_run_once p = Fine, m_log := m_log m'\<rparr> \<and>
    calls (m_log m') = calls (m_log m) @ map (\<lambda>a. (a, True)) tried @ map (\<lambda>a. (a, False)) (rev tried) \<and>
    (m_linked m \<and> clustered m \<and> pr_tells p PromoteFailed \<longrightarrow>
       last (m_log m') = Told PromoteFailed (pack (int (m_index m)) (take 400 e) 0))"
  using assms by (rule accept_refused)

text \<open>
  A promotion that arrives while the adapters are being started makes the process serve a singleton twice: the
  promotion starts the adapter and gives it a serving task, and \<open>_serve_adapters\<close> then makes a task
  for every started adapter, that one included.
\<close>

theorem early_promotion_serves_twice:
  assumes "\<not> m_primary m" and "m_standby m = []" and "m_started m = []" and "m_serving m = []"
    and "pr_starts p a = Fine" and "\<forall>ad \<in> set others. starts (fst ad) = Fine"
  shows "serving_tasks p (a, True) others starts m = a # a # map fst others"
  using assms by (rule served_twice)

text \<open>
  A command to adapters accounts for every target. The request on the wire names the targets in order;
  whatever acknowledgements then come in, in any order, repeated, or from other processes, the caller gets
  the first result of each target that answered and the sorted list of those that did not.
\<close>
theorem commands_accounted:
  assumes "request_command True rid targets command m = (m1, Inr payload)"
    and "finish_command rid (fold (\<lambda>(i, r). record_ack rid i r) xs m1) = (m2, result)"
  shows "\<exists>acks missing. result = Some (acks, missing) \<and>
    (\<forall>i. dget acks i = (if int i \<in> set targets then dget xs i else None)) \<and>
    set missing = {i. int i \<in> set targets \<and> i \<notin> fst ` set xs} \<and> sorted missing \<and> distinct missing \<and>
    unpack_adapter_command payload = Some (rid, map nat (sort (remdups targets)), command)"
  using assms by (rule command_accounts_all)

text \<open>A process with one singleton adapter, 1, and one other, 2.\<close>

definition example_member :: "nat member" where
  "example_member = \<lparr>m_index = 1, m_slots = 4, m_linked = True, m_primary = False, m_run_once_done = False,
     m_adapters = [(1, True), (2, False)], m_started = [], m_standby = [], m_isolated = [], m_serving = [],
     m_waiters = [], m_log = []\<rparr>"

definition example_promotion :: "call_outcome \<Rightarrow> nat promotion" where
  "example_promotion out = \<lparr>pr_run_once = Fine, pr_starts = \<lambda>_. out, pr_tells = \<lambda>_. True\<rparr>"

lemma refusal_rolls_back_witness:
  "\<exists>m'. accept_promotion (example_promotion (Fails [7])) False (example_member\<lparr>m_standby := [1]\<rparr>) = (m', True) \<and>
     \<not> m_primary m' \<and> m_standby m' = [1] \<and> last (m_log m') = Told PromoteFailed (pack 1 [7] 0)"
proof -
  let ?m = "example_member\<lparr>m_standby := [1]\<rparr>" and ?p = "example_promotion (Fails [7])"
  have "\<exists>m1. take_role ?p False (?m\<lparr>m_primary := True\<rparr>) = (m1, Fails [7])"
    by (simp add: take_role_def run_once_here_def start_standby_def example_promotion_def example_member_def Let_def)
  then obtain m1 where run: "take_role ?p False (?m\<lparr>m_primary := True\<rparr>) = (m1, Fails [7])" by blast
  have "\<not> m_primary ?m" by (simp add: example_member_def)
  from refusal_rolls_back [OF this run] obtain m' where m': "accept_promotion ?p False ?m = (m', True)"
      "m' = ?m\<lparr>m_run_once_done := m_run_once_done ?m \<or> \<not> False \<or> pr_run_once ?p = Fine, m_log := m_log m'\<rparr>"
      "m_linked ?m \<and> clustered ?m \<and> pr_tells ?p PromoteFailed \<longrightarrow>
         last (m_log m') = Told PromoteFailed (pack (int (m_index ?m)) (take 400 [7]) 0)" by blast
  have "m_primary m' = m_primary ?m" "m_standby m' = m_standby ?m" by (subst m'(2); simp)+
  then show ?thesis using m'(1,3) by (intro exI [of _ m']) (simp add: example_member_def example_promotion_def clustered_def)
qed

lemma early_promotion_serves_twice_witness:
  "serving_tasks (example_promotion Fine) (1, True) [(2, False)] (\<lambda>_. Fine) example_member = [1, 1, 2]"
  using early_promotion_serves_twice [of example_member "example_promotion Fine" 1 "[(2, False)]" "\<lambda>_. Fine"]
  by (simp add: example_member_def example_promotion_def)

lemma commands_accounted_witness:
  "\<exists>m1 payload m2 acks. request_command True (replicate 16 0) [2, 1] [9] example_member = (m1, Inr payload) \<and>
     finish_command (replicate 16 0) (fold (\<lambda>(i, r). record_ack (replicate 16 0) i r) [(1, [5]), (1, [6]), (3, [7])] m1) = (m2, Some (acks, [2])) \<and>
     dget acks 1 = Some [5]"
proof -
  have "\<exists>m1 payload. request_command True (replicate 16 0) [2, 1] [9] example_member = (m1, Inr payload)"
    by (simp add: request_command_def clustered_def example_member_def Let_def pack_adapter_command_def)
  then obtain m1 payload where req: "request_command True (replicate 16 0) [2, 1] [9] example_member = (m1, Inr payload)" by blast
  obtain m2 result where fin: "finish_command (replicate 16 0)
      (fold (\<lambda>(i, r). record_ack (replicate 16 0) i r) [(1, [5]), (1, [6]), (3, [7])] m1) = (m2, result)"
    by fastforce
  from commands_accounted [OF req fin] obtain acks missing where r: "result = Some (acks, missing)" "dget acks 1 = Some [5]"
    "set missing = {i. int i \<in> set [2, 1] \<and> i \<notin> fst ` set [(1, [5 :: byte]), (1, [6]), (3, [7])]}" "sorted missing" "distinct missing"
    by auto
  have "i \<in> set missing \<longleftrightarrow> i = 2" for i
  proof -
    have "i \<in> set missing \<longleftrightarrow> (int i = 2 \<or> int i = 1) \<and> i \<noteq> 1 \<and> i \<noteq> 3" unfolding r(3) by simp
    then show ?thesis by presburger
  qed
  then have "set missing = {2}" by blast
  then have "missing = [2]" by (intro sorted_distinct_set_unique) (use r(4,5) in simp_all)
  then show ?thesis using req fin r by blast
qed

end
