(* ===== verification/Cluster_Run.thy ===== *)
theory Cluster_Run
  imports Member
begin

text \<open>
  The supervisor and its processes together, over the internal channel: what the supervisor announces is
  unread by every process, what a process reports is unread by the supervisor. Unread messages belong
  to the slot, not to the process: a restarted process attaches to the same row bits and reads what its
  predecessor left (\<open>ProcessLink.attach\<close> clears nothing).
\<close>

section \<open>The system\<close>

type_synonym control_message = "control_key \<times> byte list"

record 'a sys =
  y_time :: int
  y_sup :: sup
  y_procs :: "nat \<Rightarrow> 'a member option"
  y_inbox :: "nat \<Rightarrow> control_message list"
  y_reports :: "control_message list"

definition fresh_member :: "cluster \<Rightarrow> ('a \<times> bool) list \<Rightarrow> nat \<Rightarrow> bool \<Rightarrow> 'a member" where
  "fresh_member c ads i primary = \<lparr>m_index = i, m_slots = Suc (length (c_ids c)), m_linked = True, m_primary = primary,
     m_run_once_done = primary, m_adapters = ads,
     m_started = map fst (filter (\<lambda>(_, singleton). primary \<or> \<not> singleton) ads),
     m_standby = map fst (filter (\<lambda>(_, singleton). \<not> primary \<and> singleton) ads), m_isolated = [],
     m_serving = map fst (filter (\<lambda>(_, singleton). primary \<or> \<not> singleton) ads), m_waiters = [], m_log = []\<rparr>"

definition send_all :: "cluster \<Rightarrow> nat option \<Rightarrow> control_message \<Rightarrow> (nat \<Rightarrow> control_message list) \<Rightarrow> nat \<Rightarrow> control_message list" where
  "send_all c from msg inbox = (\<lambda>i. if i < length (c_ids c) \<and> Some i \<noteq> from then inbox i @ [msg] else inbox i)"

definition absorb :: "cluster \<Rightarrow> ('a \<times> bool) list \<Rightarrow> sup_event \<Rightarrow> 'a sys \<Rightarrow> 'a sys" where
  "absorb c ads ev y =
     (case ev of
        Sent key payload \<Rightarrow> y\<lparr>y_inbox := send_all c None (key, payload) (y_inbox y)\<rparr>
      | Started pid i primary needed h \<Rightarrow> y\<lparr>y_procs := (y_procs y)(h := Some (fresh_member c ads i primary))\<rparr>
      | _ \<Rightarrow> y)"

text \<open>The supervisor has gone on to \<open>s'\<close>: what it sent and started since.\<close>

definition after_sup :: "cluster \<Rightarrow> ('a \<times> bool) list \<Rightarrow> int \<Rightarrow> sup \<Rightarrow> 'a sys \<Rightarrow> 'a sys" where
  "after_sup c ads t s' y =
     fold (absorb c ads) (drop (length (s_events (y_sup y))) (s_events s')) (y\<lparr>y_time := t, y_sup := s'\<rparr>)"

definition told :: "'a member_event list \<Rightarrow> control_message list" where
  "told log = List.map_filter (\<lambda>ev. case ev of Told key payload \<Rightarrow> Some (key, payload) | _ \<Rightarrow> None) log"

definition after_member :: "cluster \<Rightarrow> nat \<Rightarrow> 'a member \<Rightarrow> 'a member \<Rightarrow> 'a sys \<Rightarrow> 'a sys" where
  "after_member c h m m' y =
     (let new = told (drop (length (m_log m)) (m_log m'))
      in y\<lparr>y_procs := (y_procs y)(h := Some m'),
           y_inbox := fold (send_all c (Some (m_index m))) new (y_inbox y), y_reports := y_reports y @ new\<rparr>)"

definition living :: "'a sys \<Rightarrow> nat \<Rightarrow> bool" where
  "living y h \<longleftrightarrow> y_procs y h \<noteq> None"

definition promotes :: "nat \<Rightarrow> control_message \<Rightarrow> bool" where
  "promotes i msg \<longleftrightarrow> (\<exists>b. control_action_of i (fst msg) (snd msg) = PromoteMe b)"

definition is_refusal :: "control_message \<Rightarrow> bool" where
  "is_refusal msg \<longleftrightarrow> fst msg = PromoteFailed"

text \<open>
  The steps. A death is observed by \<open>_watch\<close> after the control channel was drained, so no refusal is
  unread when a process is restarted. In a \<open>careful\<close> run no process dies with an unread promotion.
\<close>

inductive sys_step :: "bool \<Rightarrow> cluster \<Rightarrow> ('a \<times> bool) list \<Rightarrow> 'a sys \<Rightarrow> 'a sys \<Rightarrow> bool" for careful c ads where
  Boot: "pid \<notin> set (dkeys (s_children (y_sup y))) \<Longrightarrow> y_time y \<le> t \<Longrightarrow> spawn c True t pid (y_sup y) = Inr s' \<Longrightarrow>
    sys_step careful c ads y (after_sup c ads t s' y)"
| Die: "y_procs y h = Some m \<Longrightarrow> careful \<longrightarrow> filter (promotes (m_index m)) (y_inbox y (m_index m)) = [] \<Longrightarrow>
    sys_step careful c ads y (y\<lparr>y_procs := (y_procs y)(h := None)\<rparr>)"
| Restart: "dget (s_children (y_sup y)) pid = Some h \<Longrightarrow> y_procs y h = None \<Longrightarrow> filter is_refusal (y_reports y) = [] \<Longrightarrow>
    r_alive r = living y \<Longrightarrow> y_time y \<le> r_promote_at r \<Longrightarrow> r_promote_at r \<le> r_check_at r \<Longrightarrow> r_check_at r \<le> r_spawn_at r \<Longrightarrow>
    respawn c r pid (y_sup y) = Inr s' \<Longrightarrow> sys_step careful c ads y (after_sup c ads (r_spawn_at r) s' y)"
| Report: "y_reports y = msg # rest \<Longrightarrow> y_time y \<le> t \<Longrightarrow>
    sys_step careful c ads y (after_sup c ads t (on_control c (living y) t msg (y_sup y)) (y\<lparr>y_reports := rest\<rparr>))"
| Deliver: "y_procs y h = Some m \<Longrightarrow> y_inbox y (m_index m) = msg # rest \<Longrightarrow> member_control p msg m = (m', act) \<Longrightarrow>
    sys_step careful c ads y (after_member c h m m' (y\<lparr>y_inbox := (y_inbox y)(m_index m := rest)\<rparr>))"

abbreviation sys_run :: "bool \<Rightarrow> cluster \<Rightarrow> ('a \<times> bool) list \<Rightarrow> 'a sys \<Rightarrow> 'a sys \<Rightarrow> bool" where
  "sys_run careful c ads \<equiv> (sys_step careful c ads)\<^sup>*\<^sup>*"

definition new_sys :: "int \<Rightarrow> sup \<Rightarrow> 'a sys" where
  "new_sys t s = \<lparr>y_time = t, y_sup = s, y_procs = \<lambda>_. None, y_inbox = \<lambda>_. [], y_reports = []\<rparr>"

text \<open>The handles of the living processes that hold the primary role.\<close>

definition primaries :: "'a sys \<Rightarrow> nat set" where
  "primaries y = {h. \<exists>m. y_procs y h = Some m \<and> m_primary m}"

section \<open>What the events of a supervisor do to the system\<close>

definition sends :: "sup_event list \<Rightarrow> control_message list" where
  "sends evs = List.map_filter (\<lambda>ev. case ev of Sent key payload \<Rightarrow> Some (key, payload) | _ \<Rightarrow> None) evs"

definition births :: "sup_event list \<Rightarrow> (nat \<times> nat \<times> bool) list" where
  "births evs = List.map_filter (\<lambda>ev. case ev of Started pid i primary needed h \<Rightarrow> Some (h, i, primary) | _ \<Rightarrow> None) evs"

lemma sends_append [simp]: "sends (xs @ ys) = sends xs @ sends ys"
  by (simp add: sends_def map_filter_def)

lemma births_append [simp]: "births (xs @ ys) = births xs @ births ys"
  by (simp add: births_def map_filter_def)

lemma sends_simps [simp]:
  "sends [] = []" "sends (Sent k p # evs) = (k, p) # sends evs" "sends (Started pid i b nd h # evs) = sends evs"
  "sends (Promoting q t # evs) = sends evs" "sends (Slept d # evs) = sends evs" "sends (DiedAgain pid n d # evs) = sends evs"
  "sends (Exited pid x # evs) = sends evs"
  by (simp_all add: sends_def map_filter_simps)

lemma births_simps [simp]:
  "births [] = []" "births (Sent k p # evs) = births evs" "births (Started pid i b nd h # evs) = (h, i, b) # births evs"
  "births (Promoting q t # evs) = births evs" "births (Slept d # evs) = births evs" "births (DiedAgain pid n d # evs) = births evs"
  "births (Exited pid x # evs) = births evs"
  by (simp_all add: births_def map_filter_simps)

lemma absorb_simps [simp]:
  "absorb c ads (Sent key payload) y = y\<lparr>y_inbox := send_all c None (key, payload) (y_inbox y)\<rparr>"
  "absorb c ads (Started pid i b nd h) y = y\<lparr>y_procs := (y_procs y)(h := Some (fresh_member c ads i b))\<rparr>"
  "absorb c ads (Promoting q t) y = y" "absorb c ads (KilledChild h) y = y" "absorb c ads (TerminatedChild h) y = y"
  "absorb c ads (Slept d) y = y" "absorb c ads (WarnedSilent pid n) y = y" "absorb c ads (DiedAgain pid n d) y = y"
  "absorb c ads (Exited pid x) y = y"
  by (simp_all add: absorb_def)

lemma absorb_all:
  "y_time (fold (absorb c ads) evs y) = y_time y \<and> y_sup (fold (absorb c ads) evs y) = y_sup y \<and>
   y_reports (fold (absorb c ads) evs y) = y_reports y \<and>
   y_inbox (fold (absorb c ads) evs y) = (\<lambda>i. if i < length (c_ids c) then y_inbox y i @ sends evs else y_inbox y i) \<and>
   y_procs (fold (absorb c ads) evs y) = fold (\<lambda>(h, i, b) f. f(h := Some (fresh_member c ads i b))) (births evs) (y_procs y)"
proof (induction evs arbitrary: y)
  case Nil
  then show ?case by auto
next
  case (Cons ev evs)
  show ?case
    by (cases ev) (simp_all add: Cons send_all_def fun_eq_iff sends_def births_def map_filter_simps)
qed

lemma after_sup_eq:
  assumes "s_events s' = s_events (y_sup y) @ evs"
  shows "y_time (after_sup c ads t s' y) = t" "y_sup (after_sup c ads t s' y) = s'" "y_reports (after_sup c ads t s' y) = y_reports y"
    and "y_inbox (after_sup c ads t s' y) = (\<lambda>i. if i < length (c_ids c) then y_inbox y i @ sends evs else y_inbox y i)"
    and "y_procs (after_sup c ads t s' y) = fold (\<lambda>(h, i, b) f. f(h := Some (fresh_member c ads i b))) (births evs) (y_procs y)"
  using absorb_all [of c ads evs "y\<lparr>y_time := t, y_sup := s'\<rparr>"] assms by (simp_all add: after_sup_def fun_eq_iff)

lemma fold_send_all: "fold (send_all c from) msgs inbox = (\<lambda>i. if i < length (c_ids c) \<and> Some i \<noteq> from then inbox i @ msgs else inbox i)"
  by (induction msgs arbitrary: inbox) (auto simp: send_all_def fun_eq_iff)


section \<open>Two primaries\<close>

text \<open>A script of steps, and the run it stands for: \<open>None\<close> when a step is not possible.\<close>

datatype act = ABoot string | ADie nat | ARestart string | ADeliver nat

definition restart_now :: "'a sys \<Rightarrow> restart" where
  "restart_now y = \<lparr>r_alive = living y, r_code = Some 1, r_promote_at = y_time y, r_check_at = y_time y, r_spawn_at = y_time y,
     r_starts = True\<rparr>"

definition calm :: "'a promotion" where
  "calm = \<lparr>pr_run_once = Fine, pr_starts = \<lambda>_. Fine, pr_tells = \<lambda>_. True\<rparr>"

definition play_one :: "cluster \<Rightarrow> ('a \<times> bool) list \<Rightarrow> act \<Rightarrow> 'a sys \<Rightarrow> 'a sys option" where
  "play_one c ads a y =
     (case a of
        ABoot pid \<Rightarrow>
          if pid \<in> set (dkeys (s_children (y_sup y))) then None
          else (case spawn c True (y_time y) pid (y_sup y) of Inr s' \<Rightarrow> Some (after_sup c ads (y_time y) s' y) | Inl _ \<Rightarrow> None)
      | ADie h \<Rightarrow> (case y_procs y h of Some m \<Rightarrow> Some (y\<lparr>y_procs := (y_procs y)(h := None)\<rparr>) | None \<Rightarrow> None)
      | ARestart pid \<Rightarrow>
          (case dget (s_children (y_sup y)) pid of
             None \<Rightarrow> None
           | Some h \<Rightarrow>
               if y_procs y h \<noteq> None \<or> filter is_refusal (y_reports y) \<noteq> [] then None
               else (case respawn c (restart_now y) pid (y_sup y) of
                       Inr s' \<Rightarrow> Some (after_sup c ads (y_time y) s' y) | Inl _ \<Rightarrow> None))
      | ADeliver h \<Rightarrow>
          (case y_procs y h of
             None \<Rightarrow> None
           | Some m \<Rightarrow>
               (case y_inbox y (m_index m) of
                  [] \<Rightarrow> None
                | msg # rest \<Rightarrow> Some (after_member c h m (fst (member_control calm msg m)) (y\<lparr>y_inbox := (y_inbox y)(m_index m := rest)\<rparr>)))))"

fun play :: "cluster \<Rightarrow> ('a \<times> bool) list \<Rightarrow> act list \<Rightarrow> 'a sys \<Rightarrow> 'a sys option" where
  "play c ads [] y = Some y"
| "play c ads (a # as) y = (case play_one c ads a y of Some y' \<Rightarrow> play c ads as y' | None \<Rightarrow> None)"

lemma play_one_sound: "play_one c ads a y = Some y' \<Longrightarrow> sys_step False c ads y y'"
proof (cases a)
  case (ABoot pid)
  assume "play_one c ads a y = Some y'"
  then show ?thesis
    using ABoot sys_step.Boot [OF _ order_refl, of pid y c _ False ads] by (auto simp: play_one_def split: if_splits sum.splits)
next
  case (ADie h)
  assume "play_one c ads a y = Some y'"
  then show ?thesis using ADie by (auto simp: play_one_def split: option.splits intro: sys_step.Die)
next
  case (ARestart pid)
  assume "play_one c ads a y = Some y'"
  then obtain h s' where h: "dget (s_children (y_sup y)) pid = Some h" "y_procs y h = None" "filter is_refusal (y_reports y) = []"
    and s': "respawn c (restart_now y) pid (y_sup y) = Inr s'" and y': "y' = after_sup c ads (y_time y) s' y"
    using ARestart by (auto simp: play_one_def split: option.splits if_splits sum.splits)
  have "sys_step False c ads y (after_sup c ads (r_spawn_at (restart_now y)) s' y)"
    by (rule sys_step.Restart [OF h]) (use s' in \<open>simp_all add: restart_now_def\<close>)
  then show ?thesis by (simp add: y' restart_now_def)
next
  case (ADeliver h)
  assume "play_one c ads a y = Some y'"
  then obtain m msg rest where m: "y_procs y h = Some m" "y_inbox y (m_index m) = msg # rest"
    and y': "y' = after_member c h m (fst (member_control calm msg m)) (y\<lparr>y_inbox := (y_inbox y)(m_index m := rest)\<rparr>)"
    using ADeliver by (auto simp: play_one_def split: option.splits list.splits)
  show ?thesis unfolding y' by (rule sys_step.Deliver [OF m]) (rule prod.collapse [symmetric])
qed

lemma play_sound: "play c ads as y = Some y' \<Longrightarrow> sys_run False c ads y y'"
proof (induction as arbitrary: y)
  case (Cons a as)
  then obtain y1 where "play_one c ads a y = Some y1" "play c ads as y1 = Some y'" by (auto split: option.splits)
  then show ?case using play_one_sound Cons.IH by (meson converse_rtranclp_into_rtranclp)
qed simp

text \<open>
  The primary dies and \<open>work-1\<close> is promoted; before \<open>work-1\<close> reads that, it dies too and the role goes to the
  restarted \<open>main\<close>. Then both \<open>main\<close> and the restarted \<open>work-1\<close> read their slot's messages.
\<close>

definition unlucky :: "act list" where
  "unlucky = [ABoot ''main'', ABoot ''work-1'', ABoot ''work-2'', ADie 0, ARestart ''main'', ADie 1, ARestart ''work-1'',
     ADeliver 3, ADeliver 3, ADeliver 4]"

definition start_state :: "nat sys" where
  "start_state = new_sys 0 (case new_sup example_cluster None of Inr s \<Rightarrow> s | Inl _ \<Rightarrow> example_sup)"

definition example_ads :: "(nat \<times> bool) list" where
  "example_ads = [(1, True), (2, False)]"

definition holds_role :: "'a sys \<Rightarrow> nat \<Rightarrow> bool" where
  "holds_role y h \<longleftrightarrow> (case y_procs y h of Some m \<Rightarrow> m_primary m | None \<Rightarrow> False)"

lemma unlucky_ends:
  "map_option (\<lambda>y. (holds_role y 3, holds_role y 4, s_children (y_sup y), s_primary (y_sup y))) (play example_cluster example_ads unlucky start_state) =
     Some (True, True, [(''work-2'', 2), (''main'', 3), (''work-1'', 4)], Some ''main'')"
  by code_simp


section \<open>One primary in a careful run\<close>

definition pending :: "'a sys \<Rightarrow> nat \<Rightarrow> control_message list" where
  "pending y i = filter (promotes i) (y_inbox y i)"

text \<open>
  The invariant over the processes, the unread promotions per slot, the unread refusals and the supervisor's
  children, next handle and primary: every process is a child; who holds the role, or is about to read
  of it, or has refused it, is the one the supervisor means, and at most one of the three is the case.
\<close>

definition role :: "cluster \<Rightarrow> (nat \<Rightarrow> 'a member option) \<Rightarrow> (nat \<Rightarrow> control_message list) \<Rightarrow> control_message list \<Rightarrow> (string, nat) dict \<Rightarrow> nat
    \<Rightarrow> string option \<Rightarrow> bool" where
  "role c procs pend refs ch nx prim \<longleftrightarrow>
     (\<forall>h m. procs h = Some m \<longrightarrow> (\<exists>pid. dget ch pid = Some h \<and> index_of pid (c_ids c) = Some (m_index m))) \<and>
     (\<forall>pid h. dget ch pid = Some h \<longrightarrow> h < nx) \<and>
     (\<forall>pid pid' h. dget ch pid = Some h \<longrightarrow> dget ch pid' = Some h \<longrightarrow> pid = pid') \<and>
     (\<forall>h m. procs h = Some m \<longrightarrow> m_primary m \<longrightarrow> (\<exists>pid. prim = Some pid \<and> dget ch pid = Some h)) \<and>
     (\<forall>i. pend i \<noteq> [] \<longrightarrow> (\<exists>pid h m. prim = Some pid \<and> dget ch pid = Some h \<and> procs h = Some m \<and> m_index m = i \<and> \<not> m_primary m)) \<and>
     (\<forall>i. length (pend i) \<le> 1) \<and>
     (refs = [] \<or> (\<exists>pid p h. refs = [(PromoteFailed, p)] \<and> prim = Some pid \<and> dget ch pid = Some h \<and>
        index_of pid (c_ids c) = Some (fst (unpack p)) \<and> (\<forall>i. pend i = []) \<and> (\<forall>h m. procs h = Some m \<longrightarrow> \<not> m_primary m)))"

definition role_inv :: "cluster \<Rightarrow> 'a sys \<Rightarrow> bool" where
  "role_inv c y \<longleftrightarrow> role c (y_procs y) (pending y) (filter is_refusal (y_reports y)) (s_children (y_sup y)) (s_next (y_sup y)) (s_primary (y_sup y))"

lemma roleD:
  assumes "role c procs pend refs ch nx prim"
  shows "procs h = Some m \<Longrightarrow> \<exists>pid. dget ch pid = Some h \<and> index_of pid (c_ids c) = Some (m_index m)"
    and "dget ch pid = Some h \<Longrightarrow> h < nx"
    and "dget ch pid = Some h \<Longrightarrow> dget ch pid' = Some h \<Longrightarrow> pid = pid'"
    and "procs h = Some m \<Longrightarrow> m_primary m \<Longrightarrow> \<exists>pid. prim = Some pid \<and> dget ch pid = Some h"
    and "pend i \<noteq> [] \<Longrightarrow> \<exists>pid h m. prim = Some pid \<and> dget ch pid = Some h \<and> procs h = Some m \<and> m_index m = i \<and> \<not> m_primary m"
    and "length (pend i) \<le> 1"
    and "refs \<noteq> [] \<Longrightarrow> \<exists>pid p h. refs = [(PromoteFailed, p)] \<and> prim = Some pid \<and> dget ch pid = Some h \<and>
        index_of pid (c_ids c) = Some (fst (unpack p)) \<and> (\<forall>i. pend i = []) \<and> (\<forall>h m. procs h = Some m \<longrightarrow> \<not> m_primary m)"
proof -
  note r = assms [unfolded role_def]
  show "procs h = Some m \<Longrightarrow> \<exists>pid. dget ch pid = Some h \<and> index_of pid (c_ids c) = Some (m_index m)"
    by (rule r [THEN conjunct1, rule_format])
  note r = r [THEN conjunct2]
  show "dget ch pid = Some h \<Longrightarrow> h < nx" by (rule r [THEN conjunct1, rule_format])
  note r = r [THEN conjunct2]
  show "dget ch pid = Some h \<Longrightarrow> dget ch pid' = Some h \<Longrightarrow> pid = pid'" by (rule r [THEN conjunct1, rule_format])
  note r = r [THEN conjunct2]
  show "procs h = Some m \<Longrightarrow> m_primary m \<Longrightarrow> \<exists>pid. prim = Some pid \<and> dget ch pid = Some h"
    by (rule r [THEN conjunct1, rule_format])
  note r = r [THEN conjunct2]
  show "pend i \<noteq> [] \<Longrightarrow> \<exists>pid h m. prim = Some pid \<and> dget ch pid = Some h \<and> procs h = Some m \<and> m_index m = i \<and> \<not> m_primary m"
    by (rule r [THEN conjunct1, rule_format])
  note r = r [THEN conjunct2]
  show "length (pend i) \<le> 1" by (rule r [THEN conjunct1, rule_format])
  note r = r [THEN conjunct2]
  show "refs \<noteq> [] \<Longrightarrow> \<exists>pid p h. refs = [(PromoteFailed, p)] \<and> prim = Some pid \<and> dget ch pid = Some h \<and>
        index_of pid (c_ids c) = Some (fst (unpack p)) \<and> (\<forall>i. pend i = []) \<and> (\<forall>h m. procs h = Some m \<longrightarrow> \<not> m_primary m)"
    using r by (rule disjE) (erule notE, assumption)
qed

lemma roleI:
  assumes "\<And>h m. procs h = Some m \<Longrightarrow> \<exists>pid. dget ch pid = Some h \<and> index_of pid (c_ids c) = Some (m_index m)"
    and "\<And>pid h. dget ch pid = Some h \<Longrightarrow> h < nx"
    and "\<And>pid pid' h. dget ch pid = Some h \<Longrightarrow> dget ch pid' = Some h \<Longrightarrow> pid = pid'"
    and "\<And>h m. procs h = Some m \<Longrightarrow> m_primary m \<Longrightarrow> \<exists>pid. prim = Some pid \<and> dget ch pid = Some h"
    and "\<And>i. pend i \<noteq> [] \<Longrightarrow> \<exists>pid h m. prim = Some pid \<and> dget ch pid = Some h \<and> procs h = Some m \<and> m_index m = i \<and> \<not> m_primary m"
    and "\<And>i. length (pend i) \<le> 1"
    and "refs \<noteq> [] \<Longrightarrow> \<exists>pid p h. refs = [(PromoteFailed, p)] \<and> prim = Some pid \<and> dget ch pid = Some h \<and>
        index_of pid (c_ids c) = Some (fst (unpack p)) \<and> (\<forall>i. pend i = []) \<and> (\<forall>h m. procs h = Some m \<longrightarrow> \<not> m_primary m)"
  shows "role c procs pend refs ch nx prim"
  unfolding role_def
proof (intro conjI allI impI)
  show "refs = [] \<or> (\<exists>pid p h. refs = [(PromoteFailed, p)] \<and> prim = Some pid \<and> dget ch pid = Some h \<and>
        index_of pid (c_ids c) = Some (fst (unpack p)) \<and> (\<forall>i. pend i = []) \<and> (\<forall>h m. procs h = Some m \<longrightarrow> \<not> m_primary m))"
    using assms(7) by blast
qed (rule assms; assumption)+

lemma role_die:
  assumes r: "role c procs pend refs ch nx prim" and h: "procs h = Some m" and "pend (m_index m) = []"
  shows "role c (procs(h := None)) pend refs ch nx prim"
proof (rule roleI)
  fix i assume "pend i \<noteq> []"
  then obtain pid h' m' where *: "prim = Some pid" "dget ch pid = Some h'" "procs h' = Some m'" "m_index m' = i" "\<not> m_primary m'"
    using roleD(5) [OF r] by blast
  moreover have "h' \<noteq> h" using * h assms(3) \<open>pend i \<noteq> []\<close> by auto
  ultimately show "\<exists>pid h' m'. prim = Some pid \<and> dget ch pid = Some h' \<and> (procs(h := None)) h' = Some m' \<and> m_index m' = i \<and> \<not> m_primary m'"
    by (intro exI [of _ pid] exI [of _ h'] exI [of _ m']) simp
next
  fix h' m' assume "(procs(h := None)) h' = Some m'"
  then have "procs h' = Some m'" by (simp split: if_splits)
  then show "\<exists>pid. dget ch pid = Some h' \<and> index_of pid (c_ids c) = Some (m_index m')" by (rule roleD(1) [OF r])
next
  fix h' m' assume "(procs(h := None)) h' = Some m'" "m_primary m'"
  then have "procs h' = Some m'" "m_primary m'" by (simp_all split: if_splits)
  then show "\<exists>pid. prim = Some pid \<and> dget ch pid = Some h'" by (rule roleD(4) [OF r])
next
  assume "refs \<noteq> []"
  then obtain pid p h0 where "refs = [(PromoteFailed, p)]" "prim = Some pid" "dget ch pid = Some h0"
    "index_of pid (c_ids c) = Some (fst (unpack p))" "\<forall>i. pend i = []" "\<forall>h m. procs h = Some m \<longrightarrow> \<not> m_primary m"
    using roleD(7) [OF r] by blast
  then show "\<exists>pid p h0. refs = [(PromoteFailed, p)] \<and> prim = Some pid \<and> dget ch pid = Some h0 \<and>
      index_of pid (c_ids c) = Some (fst (unpack p)) \<and> (\<forall>i. pend i = []) \<and> (\<forall>h' m'. (procs(h := None)) h' = Some m' \<longrightarrow> \<not> m_primary m')"
    by (intro exI [of _ pid] exI [of _ p] exI [of _ h0]) simp
qed (use roleD(2,3,6) [OF r] in blast)+

lemma role_birth:
  assumes r: "role c procs pend refs ch nx prim" and new: "dget ch pid = None"
    and m: "index_of pid (c_ids c) = Some (m_index m)" "m_primary m \<longleftrightarrow> prim = Some pid"
  shows "role c (procs(nx := Some m)) pend refs (dset pid nx ch) (Suc nx) prim"
proof (rule roleI)
  fix h m' assume h: "(procs(nx := Some m)) h = Some m'"
  show "\<exists>q. dget (dset pid nx ch) q = Some h \<and> index_of q (c_ids c) = Some (m_index m')"
  proof (cases "h = nx")
    case True
    then show ?thesis using h m by (intro exI [of _ pid]) simp
  next
    case False
    then obtain q where "dget ch q = Some h" "index_of q (c_ids c) = Some (m_index m')" using h roleD(1) [OF r] by fastforce
    then show ?thesis using new by (intro exI [of _ q]) auto
  qed
next
  fix q h assume "dget (dset pid nx ch) q = Some h"
  then show "h < Suc nx" using roleD(2) [OF r, of q h] by (auto split: if_splits)
next
  fix q q' h assume "dget (dset pid nx ch) q = Some h" "dget (dset pid nx ch) q' = Some h"
  then show "q = q'" using roleD(2) [OF r, of _ nx] roleD(3) [OF r, of q h q'] by (auto split: if_splits)
next
  fix h m' assume h: "(procs(nx := Some m)) h = Some m'" "m_primary m'"
  show "\<exists>q. prim = Some q \<and> dget (dset pid nx ch) q = Some h"
  proof (cases "h = nx")
    case True
    then show ?thesis using h m(2) by (intro exI [of _ pid]) auto
  next
    case False
    then obtain q where "prim = Some q" "dget ch q = Some h" using h roleD(4) [OF r] by fastforce
    then show ?thesis using new by (intro exI [of _ q]) auto
  qed
next
  fix i assume "pend i \<noteq> []"
  then obtain q h m' where *: "prim = Some q" "dget ch q = Some h" "procs h = Some m'" "m_index m' = i" "\<not> m_primary m'"
    using roleD(5) [OF r] by blast
  have "h \<noteq> nx" "q \<noteq> pid" using roleD(2) [OF r *(2)] *(2) new by auto
  with * show "\<exists>q h m'. prim = Some q \<and> dget (dset pid nx ch) q = Some h \<and> (procs(nx := Some m)) h = Some m' \<and> m_index m' = i \<and> \<not> m_primary m'"
    by (intro exI [of _ q] exI [of _ h] exI [of _ m']) simp
next
  assume "refs \<noteq> []"
  then obtain q p h0 where *: "refs = [(PromoteFailed, p)]" "prim = Some q" "dget ch q = Some h0"
    "index_of q (c_ids c) = Some (fst (unpack p))" "\<forall>i. pend i = []" "\<forall>h m. procs h = Some m \<longrightarrow> \<not> m_primary m"
    using roleD(7) [OF r] by blast
  have "q \<noteq> pid" using *(3) new by auto
  then have "\<not> m_primary m" using m(2) *(2) by simp
  with * \<open>q \<noteq> pid\<close> show "\<exists>q p h0. refs = [(PromoteFailed, p)] \<and> prim = Some q \<and> dget (dset pid nx ch) q = Some h0 \<and>
      index_of q (c_ids c) = Some (fst (unpack p)) \<and> (\<forall>i. pend i = []) \<and> (\<forall>h m'. (procs(nx := Some m)) h = Some m' \<longrightarrow> \<not> m_primary m')"
    by (intro exI [of _ q] exI [of _ p] exI [of _ h0]) simp
qed (use roleD(6) [OF r] in blast)

lemma role_bury:
  assumes r: "role c procs pend [] ch nx prim" and h: "dget ch pid = Some h" "procs h = None"
  shows "role c procs pend [] (ddel pid ch) nx prim"
proof (rule roleI)
  fix h' m assume m: "procs h' = Some m"
  then obtain q where "dget ch q = Some h'" "index_of q (c_ids c) = Some (m_index m)" using roleD(1) [OF r] by blast
  moreover have "q \<noteq> pid" using calculation h m by auto
  ultimately show "\<exists>q. dget (ddel pid ch) q = Some h' \<and> index_of q (c_ids c) = Some (m_index m)" by (intro exI [of _ q]) simp
next
  fix h' m assume m: "procs h' = Some m" "m_primary m"
  then obtain q where "prim = Some q" "dget ch q = Some h'" using roleD(4) [OF r] by blast
  moreover have "q \<noteq> pid" using calculation h m by auto
  ultimately show "\<exists>q. prim = Some q \<and> dget (ddel pid ch) q = Some h'" by (intro exI [of _ q]) simp
next
  fix i assume "pend i \<noteq> []"
  then obtain q h' m' where *: "prim = Some q" "dget ch q = Some h'" "procs h' = Some m'" "m_index m' = i" "\<not> m_primary m'"
    using roleD(5) [OF r] by blast
  moreover have "q \<noteq> pid" using * h by auto
  ultimately show "\<exists>q h' m'. prim = Some q \<and> dget (ddel pid ch) q = Some h' \<and> procs h' = Some m' \<and> m_index m' = i \<and> \<not> m_primary m'"
    by (intro exI [of _ q] exI [of _ h'] exI [of _ m']) simp
qed (use roleD(2,3,6) [OF r] in \<open>auto split: if_splits\<close>)

lemma role_vacant:
  assumes r: "role c procs pend [] ch nx (Some pid)" and h: "\<forall>h. dget ch pid = Some h \<longrightarrow> procs h = None"
  shows "pend i = []" and "procs h' = Some m \<Longrightarrow> \<not> m_primary m"
proof -
  show "pend i = []"
  proof (rule ccontr)
    assume "pend i \<noteq> []"
    then obtain h' m' where "dget ch pid = Some h'" "procs h' = Some m'" using roleD(5) [OF r] by blast
    then show False using h by simp
  qed
  show "procs h' = Some m \<Longrightarrow> \<not> m_primary m" using roleD(4) [OF r, of h' m] h by auto
qed

lemma role_hand:
  assumes r: "role c procs pend refs ch nx prim" and free: "\<And>i. pend i = []" "\<And>h m. procs h = Some m \<Longrightarrow> \<not> m_primary m"
    and pend': "\<And>i. pend' i \<noteq> [] \<Longrightarrow> \<exists>q h m. prim' = Some q \<and> index_of q (c_ids c) = Some i \<and> dget ch q = Some h \<and> procs h = Some m"
    and len: "\<And>i. length (pend' i) \<le> 1"
  shows "role c procs pend' [] ch nx prim'"
proof (rule roleI)
  fix i assume "pend' i \<noteq> []"
  then obtain q h m where *: "prim' = Some q" "index_of q (c_ids c) = Some i" "dget ch q = Some h" "procs h = Some m" using pend' by blast
  obtain q' where "dget ch q' = Some h" "index_of q' (c_ids c) = Some (m_index m)" using roleD(1) [OF r *(4)] by blast
  then have "m_index m = i" using roleD(3) [OF r *(3)] *(2) by auto
  then show "\<exists>pid h m. prim' = Some pid \<and> dget ch pid = Some h \<and> procs h = Some m \<and> m_index m = i \<and> \<not> m_primary m"
    using * free(2) by blast
qed (use roleD(1,2,3) [OF r] free len in blast)+


text \<open>What a promotion attempt of the supervisor does.\<close>

lemma promotes_other: "k \<noteq> Promote \<Longrightarrow> \<not> promotes i (k, p)"
  by (auto simp: promotes_def control_action_of_def split: option.splits if_splits)

lemma promotes_promote: "j < 256 \<Longrightarrow> promotes i (Promote, pack (int j) [] f) \<longleftrightarrow> i = j"
  by (auto simp: promotes_def control_action_of_def unpack_pack)

lemma index_of_Some_D: "index_of x xs = Some i \<Longrightarrow> i < length xs \<and> xs ! i = x"
  by (induction xs arbitrary: i) (auto split: if_splits)

definition same_cluster :: "sup \<Rightarrow> sup \<Rightarrow> bool" where
  "same_cluster s s' \<longleftrightarrow> s_children s' = s_children s \<and> s_next s' = s_next s \<and> s_stopping s' = s_stopping s"

text \<open>The role after the attempt, and the one control_message that may have gone out.\<close>

definition handed :: "cluster \<Rightarrow> (nat \<Rightarrow> bool) \<Rightarrow> sup \<Rightarrow> string option \<Rightarrow> control_message list \<Rightarrow> bool" where
  "handed c alive s prim msgs \<longleftrightarrow> msgs = [] \<or>
     (\<exists>q i f. prim = Some q \<and> is_alive alive s q \<and> index_of q (c_ids c) = Some i \<and> msgs = [(Promote, pack (int i) [] f)])"

lemma promote_delta:
  fixes c alive now ex re s
  defines "s' \<equiv> promote_someone c alive now ex re s"
  shows "\<exists>evs. s_events s' = s_events s @ evs \<and> births evs = [] \<and> same_cluster s s' \<and> handed c alive s (s_primary s') (sends evs)"
proof (cases "\<not> c_has_link c \<or> s_promotion_stopped s")
  case True
  then show ?thesis by (simp add: s'_def promote_someone_def same_cluster_def handed_def)
next
  case False
  note quiet = False
  define recent where "recent = filter (\<lambda>t. now - t < promotion_window) (s_promotions s)"
  show ?thesis
  proof (cases "promotion_limit \<le> length recent")
    case True
    then show ?thesis
      using quiet by (simp add: s'_def promote_someone_def recent_def [symmetric] Let_def same_cluster_def handed_def)
  next
    case False
    note few = False
    show ?thesis
    proof (cases "promote_candidate c alive ex re s")
      case None
      then show ?thesis
        using quiet few by (simp add: s'_def promote_someone_def recent_def [symmetric] Let_def same_cluster_def handed_def)
    next
      case (Some q)
      define s2 where "s2 = emit (Promoting q now) (s\<lparr>s_promotions := recent @ [now], s_primary := Some q\<rparr>)"
      have s2: "s_events s2 = s_events s @ [Promoting q now]" "same_cluster s s2" "s_primary s2 = Some q"
        by (simp_all add: s2_def same_cluster_def)
      have eq: "s' = (if Some q = re then s2 else case index_of q (c_ids c) of None \<Rightarrow> s2
          | Some i \<Rightarrow> announce_control c Promote (pack (int i) [] (if s_run_once_done s then 0 else 1)) s2)"
        using quiet few Some
        by (cases "index_of q (c_ids c)") (simp_all add: s'_def promote_someone_def recent_def [symmetric] Let_def s2_def)
      show ?thesis
      proof (cases "Some q = re \<or> index_of q (c_ids c) = None")
        case True
        then have "s' = s2" using eq by auto
        then show ?thesis using s2 by (intro exI [of _ "[Promoting q now]"]) (simp add: handed_def)
      next
        case False
        then obtain i where i: "index_of q (c_ids c) = Some i" "Some q \<noteq> re" by auto
        have alive: "is_alive alive s q" using candidate_spec [OF Some] i(2) by auto
        define msg where "msg = pack (int i) [] (if s_run_once_done s then 0 else 1)"
        have s': "s' = announce_control c Promote msg s2" using eq i by (simp add: msg_def)
        show ?thesis
        proof (cases "c_announces c Promote msg")
          case True
          then show ?thesis
            using s2 s' i alive by (intro exI [of _ "[Promoting q now, Sent Promote msg]"])
              (auto simp: announce_control_def same_cluster_def handed_def msg_def)
        next
          case False
          then show ?thesis
            using s2 s' by (intro exI [of _ "[Promoting q now]"]) (simp add: announce_control_def handed_def)
        qed
      qed
    qed
  qed
qed

lemma pending_after_sup:
  assumes "s_events s' = s_events (y_sup y) @ evs"
  shows "pending (after_sup c ads t s' y) i = pending y i @ (if i < length (c_ids c) then filter (promotes i) (sends evs) else [])"
  by (simp add: pending_def after_sup_eq(4) [OF assms])

lemma handed_pending:
  assumes "handed c alive s prim msgs" and "length (c_ids c) \<le> 255" and "filter (promotes i) msgs \<noteq> []"
  shows "\<exists>q h. prim = Some q \<and> index_of q (c_ids c) = Some i \<and> dget (s_children s) q = Some h \<and> alive h"
    and "length (filter (promotes i) msgs) \<le> 1"
proof -
  obtain q j f where m: "prim = Some q" "is_alive alive s q" "index_of q (c_ids c) = Some j" "msgs = [(Promote, pack (int j) [] f)]"
    using assms(1,3) by (auto simp: handed_def)
  have "j < 256" using index_of_Some_D [OF m(3)] assms(2) by simp
  then have "i = j" using assms(3) m(4) promotes_promote [of j i f] by (simp split: if_splits)
  then show "\<exists>q h. prim = Some q \<and> index_of q (c_ids c) = Some i \<and> dget (s_children s) q = Some h \<and> alive h"
    using m(1-3) by (auto simp: is_alive_def split: option.splits)
  show "length (filter (promotes i) msgs) \<le> 1" using m(4) by simp
qed

lemma role_attempt:
  assumes r: "role c procs pend refs ch nx prim" and free: "\<And>i. pend i = []" "\<And>h m. procs h = Some m \<Longrightarrow> \<not> m_primary m"
    and N: "length (c_ids c) \<le> 255" and msgs: "handed c (\<lambda>h. procs h \<noteq> None) s prim' msgs" and ch: "s_children s = ch"
  shows "role c procs (\<lambda>i. if i < length (c_ids c) then filter (promotes i) msgs else []) [] ch nx prim'"
proof (rule role_hand [OF r free])
  fix i assume "(if i < length (c_ids c) then filter (promotes i) msgs else []) \<noteq> []"
  then have "filter (promotes i) msgs \<noteq> []" by (simp split: if_splits)
  from handed_pending(1) [OF msgs N this]
  show "\<exists>q h m. prim' = Some q \<and> index_of q (c_ids c) = Some i \<and> dget ch q = Some h \<and> procs h = Some m"
    by (auto simp: ch)
next
  fix i show "length (if i < length (c_ids c) then filter (promotes i) msgs else []) \<le> 1"
    using handed_pending(2) [OF msgs N, of i] by (cases "filter (promotes i) msgs = []") simp_all
qed


lemma spawn_delta:
  assumes "spawn c starts now pid s = Inr s'"
  shows "\<exists>i needed. index_of pid (c_ids c) = Some i \<and>
    s_events s' = s_events s @ [Started pid i (s_primary s = Some pid) needed (s_next s)] \<and>
    s_children s' = dset pid (s_next s) (s_children s) \<and> s_next s' = Suc (s_next s) \<and> s_primary s' = s_primary s"
  using assms by (auto simp: spawn_def Let_def split: sum.splits option.splits if_splits)

lemma hand_over_delta:
  fixes c r pid s
  defines "s' \<equiv> hand_over c r pid s"
  shows "\<exists>evs. s_events s' = s_events s @ evs \<and> births evs = [] \<and> s_children s' = s_children s \<and> s_next s' = s_next s \<and>
    (if s_primary s = Some pid then handed c (r_alive r) s (s_primary s') (sends evs)
     else s_primary s' = s_primary s \<and> sends evs = [])"
proof -
  define s2 where "s2 = emit (Exited pid (exit_reason c r pid s)) (s\<lparr>s_killed_by_me := ddel pid (s_killed_by_me s)\<rparr>)"
  have s2: "s_events s2 = s_events s @ [Exited pid (exit_reason c r pid s)]" "s_children s2 = s_children s" "s_next s2 = s_next s"
    "s_primary s2 = s_primary s" by (simp_all add: s2_def)
  show ?thesis
  proof (cases "s_primary s = Some pid")
    case True
    define s3 where "s3 = s2\<lparr>s_primary := None\<rparr>"
    have s': "s' = promote_someone c (r_alive r) (r_promote_at r) (Some pid) (Some pid) s3"
      using True by (simp add: s'_def hand_over_def s2_def [symmetric] Let_def s2(4) s3_def)
    obtain evs where evs: "s_events s' = s_events s3 @ evs" "births evs = []" "same_cluster s3 s'"
      "handed c (r_alive r) s3 (s_primary s') (sends evs)"
      using promote_delta [of c "r_alive r" "r_promote_at r" "Some pid" "Some pid" s3] unfolding s' by blast
    have "is_alive (r_alive r) s3 = is_alive (r_alive r) s" by (simp add: fun_eq_iff is_alive_def s3_def s2)
    then have "handed c (r_alive r) s (s_primary s') (sends evs)" using evs(4) by (simp add: handed_def)
    then show ?thesis
      using True evs s2 by (intro exI [of _ "Exited pid (exit_reason c r pid s) # evs"]) (simp add: same_cluster_def s3_def)
  next
    case False
    then have "s' = s2" by (simp add: s'_def hand_over_def s2_def [symmetric] Let_def s2(4))
    then show ?thesis using False s2 by (intro exI [of _ "[Exited pid (exit_reason c r pid s)]"]) simp
  qed
qed

lemma respawn_delta:
  assumes "respawn c r pid s = Inr s'" and h: "dget (s_children s) pid = Some h" and "\<not> s_stopping s"
  shows "\<exists>evs i prim. s_events s' = s_events s @ evs \<and> index_of pid (c_ids c) = Some i \<and>
    births evs = [(s_next s, i, prim = Some pid)] \<and> s_children s' = dset pid (s_next s) (ddel pid (s_children s)) \<and>
    s_next s' = Suc (s_next s) \<and> s_primary s' = prim \<and>
    (if s_primary s = Some pid then handed c (r_alive r) (s\<lparr>s_children := ddel pid (s_children s)\<rparr>) prim (sends evs)
     else prim = s_primary s \<and> sends evs = [])"
proof -
  define s1 where "s1 = s\<lparr>s_children := ddel pid (s_children s)\<rparr>"
  define s3 where "s3 = hand_over c r pid s1"
  obtain n wait where sp: "spawn c (r_starts r) (r_spawn_at r) pid (pause pid n wait (count_death r pid s3)) = Inr s'"
    using assms(1,3) by (auto simp: respawn_eq [OF h] Let_def s1_def [symmetric] s3_def [symmetric] split: option.splits)
  define s5 where "s5 = pause pid n wait (count_death r pid s3)"
  have s5: "s_children s5 = s_children s3" "s_next s5 = s_next s3" "s_primary s5 = s_primary s3"
    "\<exists>evs. s_events s5 = s_events s3 @ evs \<and> sends evs = [] \<and> births evs = []"
  proof -
    show "\<exists>evs. s_events s5 = s_events s3 @ evs \<and> sends evs = [] \<and> births evs = []"
      by (cases "1 < n") (simp_all add: s5_def pause_def count_death_def)
  qed (simp_all add: s5_def pause_def count_death_def)
  obtain ev5 where ev5: "s_events s5 = s_events s3 @ ev5" "sends ev5 = []" "births ev5 = []" using s5(4) by blast
  obtain ev3 where ev3: "s_events s3 = s_events s1 @ ev3" "births ev3 = []" "s_children s3 = s_children s1" "s_next s3 = s_next s1"
    "if s_primary s1 = Some pid then handed c (r_alive r) s1 (s_primary s3) (sends ev3) else s_primary s3 = s_primary s1 \<and> sends ev3 = []"
    using hand_over_delta [of c r pid s1] unfolding s3_def [symmetric] by blast
  obtain i needed where i: "index_of pid (c_ids c) = Some i"
    "s_events s' = s_events s5 @ [Started pid i (s_primary s5 = Some pid) needed (s_next s5)]"
    "s_children s' = dset pid (s_next s5) (s_children s5)" "s_next s' = Suc (s_next s5)" "s_primary s' = s_primary s5"
    using spawn_delta [OF sp] unfolding s5_def [symmetric] by blast
  have "s_primary s1 = s_primary s" "s_events s1 = s_events s" "s_next s1 = s_next s" "s_children s1 = ddel pid (s_children s)"
    by (simp_all add: s1_def)
  then show ?thesis
    using i ev3 ev5 s5(1-3) unfolding s1_def [symmetric]
    by (intro exI [of _ "ev3 @ ev5 @ [Started pid i (s_primary s5 = Some pid) needed (s_next s5)]"] exI [of _ i]
        exI [of _ "s_primary s3"]) auto
qed


text \<open>What a process does with a control_message.\<close>

lemma told_simps [simp]:
  "told [] = []" "told (Told k d # log) = (k, d) # told log" "told (RanOnceHere # log) = told log"
  "told (StartCalled a # log) = told log" "told (StopCalled a # log) = told log" "told (log @ log') = told log @ told log'"
  "told (map StartCalled as) = []" "told (map StopCalled as) = []"
proof -
  show "told (map StartCalled as) = []" by (induction as) (simp_all add: told_def map_filter_simps)
  show "told (map StopCalled as) = []" by (induction as) (simp_all add: told_def map_filter_simps)
qed (simp_all add: told_def map_filter_def del: split_paired_Ex)

text \<open>Taking the role tells the supervisor at most that the cluster task is done.\<close>

definition quiet_log :: "'a member \<Rightarrow> 'a member \<Rightarrow> bool" where
  "quiet_log m m' \<longleftrightarrow> m_index m' = m_index m \<and> m_primary m' = m_primary m \<and>
     (\<exists>log. m_log m' = m_log m @ log \<and> set (map fst (told log)) \<subseteq> {RunOnceDone})"

lemma quiet_refl [simp]: "quiet_log m m"
  by (simp add: quiet_log_def exI [of _ "[]"])

lemma quiet_trans: "quiet_log m m' \<Longrightarrow> quiet_log m' m'' \<Longrightarrow> quiet_log m m''"
  unfolding quiet_log_def by (auto simp del: set_map)

lemma quiet_start_standby: "start_standby starts m = (m', out) \<Longrightarrow> quiet_log m m'"
proof -
  assume run: "start_standby starts m = (m', out)"
  obtain m1 started failed where each: "start_each_standby starts (m_standby m) [] (m\<lparr>m_standby := []\<rparr>) = (m1, started, failed)"
    by (metis prod_cases3)
  note spec = standby_starts_spec [OF each]
  have m1: "m_index m1 = m_index m" "m_primary m1 = m_primary m" using rest_of_fields [OF conjunct1 [OF spec]] by simp_all
  have "\<exists>called. m_log m1 = m_log m @ map StartCalled called"
  proof (cases failed)
    case None
    then show ?thesis using spec by auto
  next
    case (Some x)
    obtain a bad where x: "x = (a, bad)" by (cases x)
    obtain ok rest where "m_log m1 = m_log (m\<lparr>m_standby := []\<rparr>) @ map StartCalled (ok @ [a])"
      using spec unfolding Some x option.case prod.case by blast
    then show ?thesis by (intro exI [of _ "ok @ [a]"]) simp
  qed
  then obtain called where log: "m_log m1 = m_log m @ map StartCalled called" by blast
  have "\<exists>stopped. m_index m' = m_index m1 \<and> m_primary m' = m_primary m1 \<and> m_log m' = m_log m1 @ map StopCalled stopped"
  proof (cases failed)
    case None
    then show ?thesis using run each by (intro exI [of _ "[]"]) (auto simp: start_standby_def)
  next
    case (Some x)
    obtain a bad where x: "x = (a, bad)" by (cases x)
    have "bad \<noteq> Fine" using spec Some x by auto
    then show ?thesis
      using run each Some x by (cases bad) (auto simp: start_standby_def intro: exI [of _ "[]"] exI [of _ "a # rev started"])
  qed
  then show ?thesis using m1 log by (auto simp: quiet_log_def)
qed

lemma quiet_run_once: "run_once_here p needed m = (m', out) \<Longrightarrow> quiet_log m m'"
  by (auto simp: run_once_here_def Let_def quiet_log_def split: if_splits)

lemma quiet_take_role: "take_role p needed m = (m', out) \<Longrightarrow> quiet_log m m'"
proof -
  assume run: "take_role p needed m = (m', out)"
  obtain m1 out1 where once: "run_once_here p needed m = (m1, out1)" by fastforce
  show ?thesis
  proof (cases "out1 = Fine")
    case True
    then have "start_standby (pr_starts p) (m1\<lparr>m_run_once_done := True\<rparr>) = (m', out)" using run once by (simp add: take_role_def)
    from quiet_start_standby [OF this] have "quiet_log m1 m'" by (simp add: quiet_log_def)
    then show ?thesis using quiet_run_once [OF once] quiet_trans by blast
  next
    case False
    then have "m' = m1" using run once by (cases out1) (simp_all add: take_role_def)
    then show ?thesis using quiet_run_once [OF once] by simp
  qed
qed

lemma accept_delta:
  assumes "accept_promotion p needed m = (m', ok)" and "\<not> m_primary m"
  shows "m_index m' = m_index m \<and> (\<exists>log. m_log m' = m_log m @ log \<and> Promote \<notin> set (map fst (told log)) \<and>
    (filter is_refusal (told log) = [] \<or>
     \<not> m_primary m' \<and> (\<exists>e. filter is_refusal (told log) = [(PromoteFailed, pack (int (m_index m)) e 0)])))"
proof -
  obtain m1 out where take: "take_role p needed (m\<lparr>m_primary := True\<rparr>) = (m1, out)" by fastforce
  obtain log where log: "m_log m1 = m_log m @ log" "set (map fst (told log)) \<subseteq> {RunOnceDone}" and idx: "m_index m1 = m_index m"
    using quiet_take_role [OF take] by (auto simp: quiet_log_def simp del: set_map)
  have none: "filter is_refusal (told log) = []" "Promote \<notin> set (map fst (told log))"
    using log(2) by (auto simp: filter_empty_conv is_refusal_def)
  show ?thesis
  proof (cases out)
    case Fine
    then show ?thesis
      using assms take log(1) none idx
      by (auto simp: accept_promotion_def is_refusal_def)
  next
    case (Fails e)
    then have m': "m' = tell (pr_tells p PromoteFailed) PromoteFailed e (m1\<lparr>m_primary := False\<rparr>)"
      using assms take by (simp add: accept_promotion_def)
    show ?thesis using log(1) none idx by (auto simp: m' is_refusal_def)
  next
    case (Fatal e)
    then have m': "m' = tell (pr_tells p PromoteFailed) PromoteFailed e (m1\<lparr>m_primary := False\<rparr>)"
      using assms take by (simp add: accept_promotion_def)
    show ?thesis using log(1) none idx by (auto simp: m' is_refusal_def)
  next
    case Cancelled
    then show ?thesis using assms take log(1) none idx by (auto simp: accept_promotion_def)
  qed
qed

lemma control_other:
  assumes "member_control p msg m = (m', act)" and "\<not> promotes (m_index m) msg"
  shows "m_index m' = m_index m \<and> m_primary m' = m_primary m \<and> m_log m' = m_log m"
proof -
  obtain key payload where msg: "msg = (key, payload)" by (cases msg)
  have ack: "m_index (record_ack rid i r m) = m_index m \<and> m_primary (record_ack rid i r m) = m_primary m \<and> m_log (record_ack rid i r m) = m_log m" for rid i r
    by (simp add: record_ack_def split: option.split)
  show ?thesis
  proof (cases "key = CommandAck")
    case True
    then show ?thesis using assms(1) ack by (auto simp: msg member_control_def split: option.splits prod.splits)
  next
    case False
    have not_me: "control_action_of (m_index m) key payload \<noteq> PromoteMe b" for b
      using assms(2) unfolding promotes_def msg fst_conv snd_conv by blast
    show ?thesis
    proof (cases "control_action_of (m_index m) key payload")
      case (PromoteMe b)
      then show ?thesis using not_me by blast
    qed (use assms(1) False in \<open>simp_all add: msg member_control_def\<close>)
  qed
qed

lemma control_promote:
  assumes "member_control p msg m = (m', act)" and "promotes (m_index m) msg"
  shows "\<exists>needed. m' = fst (accept_promotion p needed m)"
proof -
  obtain key payload where msg: "msg = (key, payload)" by (cases msg)
  obtain b where b: "control_action_of (m_index m) key payload = PromoteMe b" using assms(2) by (auto simp: promotes_def msg)
  have "key \<noteq> CommandAck" using b by (auto simp: control_action_of_def)
  then show ?thesis using assms(1) b by (auto simp: msg member_control_def)
qed


lemma role_accept:
  assumes r: "role c procs pend [] ch nx (Some q)" and q: "dget ch q = Some h" "procs h = Some m" and idle: "\<not> m_primary m"
    and m': "m_index m' = m_index m" and i: "index_of q (c_ids c) = Some (m_index m)"
    and refs: "refs = [] \<or> \<not> m_primary m' \<and> (\<exists>p. refs = [(PromoteFailed, p)] \<and> fst (unpack p) = m_index m)"
  shows "role c (procs(h := Some m')) (\<lambda>_. []) refs ch nx (Some q)"
proof (rule roleI)
  fix h2 m2 assume m2: "(procs(h := Some m')) h2 = Some m2"
  show "\<exists>pid. dget ch pid = Some h2 \<and> index_of pid (c_ids c) = Some (m_index m2)"
  proof (cases "h2 = h")
    case True
    then show ?thesis using m2 q(1) i m' by (intro exI [of _ q]) simp
  next
    case False
    then show ?thesis using m2 roleD(1) [OF r, of h2 m2] by simp
  qed
next
  fix h2 m2 assume m2: "(procs(h := Some m')) h2 = Some m2" "m_primary m2"
  have "h2 = h"
  proof (rule ccontr)
    assume ne: "h2 \<noteq> h"
    then have "procs h2 = Some m2" using m2(1) by simp
    from roleD(4) [OF r this m2(2)] q(1) ne show False by auto
  qed
  then show "\<exists>pid. Some q = Some pid \<and> dget ch pid = Some h2" using q(1) by simp
next
  have none: "\<not> m_primary m2" if "(procs(h := Some m')) h2 = Some m2" "\<not> m_primary m'" for h2 m2
  proof
    assume prim: "m_primary m2"
    have "h2 \<noteq> h" using that prim by (cases "h2 = h") auto
    then have "procs h2 = Some m2" using that(1) by simp
    from roleD(4) [OF r this prim] q(1) have "h2 = h" by auto
    then show False using \<open>h2 \<noteq> h\<close> by simp
  qed
  assume "refs \<noteq> []"
  then obtain p where p: "refs = [(PromoteFailed, p)]" "fst (unpack p) = m_index m" "\<not> m_primary m'" using refs by blast
  show "\<exists>pid p h2. refs = [(PromoteFailed, p)] \<and> Some q = Some pid \<and> dget ch pid = Some h2 \<and>
      index_of pid (c_ids c) = Some (fst (unpack p)) \<and> (\<forall>i :: nat. [] = []) \<and> (\<forall>h2 m2. (procs(h := Some m')) h2 = Some m2 \<longrightarrow> \<not> m_primary m2)"
    using p q(1) i none by (intro exI [of _ q] exI [of _ p] exI [of _ h]) simp
qed (use roleD(2,3) [OF r] in \<open>auto\<close>)

lemma role_update:
  assumes r: "role c procs pend refs ch nx prim" and h: "procs h = Some m" and m': "m_index m' = m_index m" "m_primary m' = m_primary m"
  shows "role c (procs(h := Some m')) pend refs ch nx prim"
proof -
  have like: "\<exists>m0. procs h2 = Some m0 \<and> m_index m2 = m_index m0 \<and> m_primary m2 = m_primary m0"
    if "(procs(h := Some m')) h2 = Some m2" for h2 m2
    using that h m' by (cases "h2 = h") auto
  show ?thesis
  proof (rule roleI)
    fix h2 m2 assume "(procs(h := Some m')) h2 = Some m2"
    then obtain m0 where "procs h2 = Some m0" "m_index m2 = m_index m0" using like by blast
    then show "\<exists>pid. dget ch pid = Some h2 \<and> index_of pid (c_ids c) = Some (m_index m2)" using roleD(1) [OF r, of h2 m0] by simp
  next
    fix h2 m2 assume "(procs(h := Some m')) h2 = Some m2" "m_primary m2"
    then obtain m0 where "procs h2 = Some m0" "m_primary m0" using like by blast
    then show "\<exists>pid. prim = Some pid \<and> dget ch pid = Some h2" by (rule roleD(4) [OF r])
  next
    fix i assume "pend i \<noteq> []"
    then obtain q h2 m2 where *: "prim = Some q" "dget ch q = Some h2" "procs h2 = Some m2" "m_index m2 = i" "\<not> m_primary m2"
      using roleD(5) [OF r] by blast
    have "\<exists>m3. (procs(h := Some m')) h2 = Some m3 \<and> m_index m3 = i \<and> \<not> m_primary m3" using * h m' by (cases "h2 = h") auto
    then show "\<exists>q h2 m2. prim = Some q \<and> dget ch q = Some h2 \<and> (procs(h := Some m')) h2 = Some m2 \<and> m_index m2 = i \<and> \<not> m_primary m2"
      using * by blast
  next
    assume "refs \<noteq> []"
    then obtain q p h2 where *: "refs = [(PromoteFailed, p)]" "prim = Some q" "dget ch q = Some h2"
      "index_of q (c_ids c) = Some (fst (unpack p))" "\<forall>i. pend i = []" "\<forall>h m. procs h = Some m \<longrightarrow> \<not> m_primary m"
      using roleD(7) [OF r] by blast
    have "\<forall>h2 m2. (procs(h := Some m')) h2 = Some m2 \<longrightarrow> \<not> m_primary m2" using like *(6) by blast
    then show "\<exists>pid p h2. refs = [(PromoteFailed, p)] \<and> prim = Some pid \<and> dget ch pid = Some h2 \<and>
        index_of pid (c_ids c) = Some (fst (unpack p)) \<and> (\<forall>i. pend i = []) \<and> (\<forall>h2 m2. (procs(h := Some m')) h2 = Some m2 \<longrightarrow> \<not> m_primary m2)"
      using * by blast
  qed (use roleD(2,3,6) [OF r] in blast)+
qed


text \<open>The steps keep the invariant.\<close>

lemma fresh_fields [simp]: "m_index (fresh_member c ads i b) = i" "m_primary (fresh_member c ads i b) = b"
  by (simp_all add: fresh_member_def)

lemma pending_quiet:
  assumes "s_events s' = s_events (y_sup y) @ evs" and "sends evs = []"
  shows "pending (after_sup c ads t s' y) = pending y"
  by (simp add: fun_eq_iff pending_after_sup [OF assms(1)] assms(2))

lemma role_invD: "role_inv c y \<Longrightarrow> role c (y_procs y) (pending y) (filter is_refusal (y_reports y)) (s_children (y_sup y)) (s_next (y_sup y)) (s_primary (y_sup y))"
  by (simp add: role_inv_def)

lemma boot_role:
  assumes inv: "role_inv c y" and new: "pid \<notin> set (dkeys (s_children (y_sup y)))" and sp: "spawn c True t pid (y_sup y) = Inr s'"
  shows "role_inv c (after_sup c ads t s' y)"
proof -
  obtain i needed where d: "index_of pid (c_ids c) = Some i"
    "s_events s' = s_events (y_sup y) @ [Started pid i (s_primary (y_sup y) = Some pid) needed (s_next (y_sup y))]"
    "s_children s' = dset pid (s_next (y_sup y)) (s_children (y_sup y))" "s_next s' = Suc (s_next (y_sup y))" "s_primary s' = s_primary (y_sup y)"
    using spawn_delta [OF sp] by blast
  have "dget (s_children (y_sup y)) pid = None" using new by (simp only: dget_None_keys simp_thms)
  from role_birth [OF role_invD [OF inv] this, of "fresh_member c ads i (s_primary (y_sup y) = Some pid)"]
  show ?thesis
    using d by (simp add: role_inv_def after_sup_eq [OF d(2)] pending_quiet [OF d(2)])
qed

lemma restart_role:
  assumes inv: "role_inv c y" and h: "dget (s_children (y_sup y)) pid = Some h" "y_procs y h = None"
    and refs: "filter is_refusal (y_reports y) = []" and alive: "r_alive r = living y" and N: "length (c_ids c) \<le> 255"
    and run: "respawn c r pid (y_sup y) = Inr s'"
  shows "role_inv c (after_sup c ads t s' y)"
proof -
  define s where "s = y_sup y"
  define ch where "ch = ddel pid (s_children s)"
  have r: "role c (y_procs y) (pending y) [] (s_children s) (s_next s) (s_primary s)"
    using role_invD [OF inv] refs by (simp add: s_def)
  have r1: "role c (y_procs y) (pending y) [] ch (s_next s) (s_primary s)"
    unfolding ch_def by (rule role_bury [OF r]) (use h in \<open>simp_all add: s_def\<close>)
  show ?thesis
  proof (cases "s_stopping s")
    case True
    then have s': "s' = s\<lparr>s_children := ch\<rparr>" using run respawn_eq [OF h(1), of c r] by (simp add: Let_def s_def ch_def)
    have ev: "s_events s' = s_events (y_sup y) @ []" by (simp add: s' s_def)
    show ?thesis
      using r1 refs by (simp add: role_inv_def after_sup_eq [OF ev] pending_quiet [OF ev]) (simp add: s')
  next
    case False
    then have ns: "\<not> s_stopping (y_sup y)" by (simp add: s_def)
    obtain evs i prim where D: "s_events s' = s_events s @ evs \<and> index_of pid (c_ids c) = Some i \<and>
      births evs = [(s_next s, i, prim = Some pid)] \<and> s_children s' = dset pid (s_next s) ch \<and> s_next s' = Suc (s_next s) \<and> s_primary s' = prim \<and>
      (if s_primary s = Some pid then handed c (r_alive r) (s\<lparr>s_children := ch\<rparr>) prim (sends evs) else prim = s_primary s \<and> sends evs = [])"
      using respawn_delta [OF run h(1) ns, folded s_def, folded ch_def] by (elim exE) (rule that)
    have d: "s_events s' = s_events (y_sup y) @ evs" "index_of pid (c_ids c) = Some i"
      "births evs = [(s_next s, i, prim = Some pid)]" "s_children s' = dset pid (s_next s) ch" "s_next s' = Suc (s_next s)" "s_primary s' = prim"
      "if s_primary s = Some pid then handed c (r_alive r) (s\<lparr>s_children := ch\<rparr>) prim (sends evs) else prim = s_primary s \<and> sends evs = []"
      using D unfolding s_def by blast+
    have gone: "dget ch pid = None" by (simp add: ch_def)
    define pend where "pend = (\<lambda>i. pending y i @ (if i < length (c_ids c) then filter (promotes i) (sends evs) else []))"
    have r2: "role c (y_procs y) pend [] ch (s_next s) prim"
    proof (cases "s_primary s = Some pid")
      case True
      have vac: "\<forall>h. dget ch pid = Some h \<longrightarrow> y_procs y h = None" by (simp add: gone)
      have free: "pending y i = []" "y_procs y h2 = Some m2 \<Longrightarrow> \<not> m_primary m2" for i h2 m2
        using role_vacant [OF r1 [unfolded True] vac] by blast+
      have "handed c (\<lambda>h. y_procs y h \<noteq> None) (s\<lparr>s_children := ch\<rparr>) prim (sends evs)"
        using d(7) True alive by (simp add: living_def [abs_def])
      from role_attempt [OF r1 free N this] show ?thesis by (simp add: pend_def free cong: if_cong)
    next
      case False
      then have "prim = s_primary s" "sends evs = []" using d(7) by simp_all
      moreover have "pend = pending y" using calculation by (simp add: pend_def fun_eq_iff)
      ultimately show ?thesis using r1 by simp
    qed
    have "role c ((y_procs y)(s_next s := Some (fresh_member c ads i (prim = Some pid)))) pend [] (dset pid (s_next s) ch) (Suc (s_next s)) prim"
      by (rule role_birth [OF r2 gone]) (simp_all add: d(2))
    moreover have "pending (after_sup c ads t s' y) = pend"
      by (simp add: fun_eq_iff pend_def pending_after_sup [OF d(1)])
    ultimately show ?thesis
      using refs d(3) by (simp add: role_inv_def after_sup_eq [OF d(1)] d(4-6))
  qed
qed

lemma report_role:
  assumes inv: "role_inv c y" and msg: "y_reports y = msg # rest" and N: "length (c_ids c) \<le> 255"
  shows "role_inv c (after_sup c ads t (on_control c (living y) t msg (y_sup y)) (y\<lparr>y_reports := rest\<rparr>))"
proof -
  define s where "s = y_sup y"
  obtain key payload where m: "msg = (key, payload)" by (cases msg)
  define s' where "s' = on_control c (living y) t msg s"
  have r: "role c (y_procs y) (pending y) (filter is_refusal (msg # rest)) (s_children s) (s_next s) (s_primary s)"
    using role_invD [OF inv] msg by (simp add: s_def)
  have pend_upd: "pending (y\<lparr>y_reports := rest\<rparr>) = pending y" by (simp add: pending_def fun_eq_iff)
  show ?thesis
  proof (cases "key = PromoteFailed")
    case True
    have ref: "is_refusal msg" by (simp add: is_refusal_def m True)
    obtain q p h where f: "filter is_refusal (msg # rest) = [(PromoteFailed, p)]" "s_primary s = Some q" "dget (s_children s) q = Some h"
      "\<forall>i. pending y i = []" "\<forall>h m. y_procs y h = Some m \<longrightarrow> \<not> m_primary m"
      using roleD(7) [OF r] ref by auto
    have rest: "filter is_refusal rest = []" using f(1) ref by simp
    have s': "s' = promote_someone c (living y) t (Some (id_at c (fst (unpack payload)))) None s"
      by (simp add: s'_def on_control_def m True Let_def)
    obtain evs where evs: "s_events s' = s_events s @ evs" "births evs = []" "same_cluster s s'" "handed c (living y) s (s_primary s') (sends evs)"
      using promote_delta unfolding s' by blast
    have ev: "s_events s' = s_events (y_sup (y\<lparr>y_reports := rest\<rparr>)) @ evs" using evs(1) by (simp add: s_def)
    have h: "handed c (\<lambda>h. y_procs y h \<noteq> None) s (s_primary s') (sends evs)" using evs(4) by (simp add: living_def [abs_def])
    have "role c (y_procs y) (\<lambda>i. if i < length (c_ids c) then filter (promotes i) (sends evs) else []) [] (s_children s) (s_next s) (s_primary s')"
      by (rule role_attempt [OF r _ _ N h refl]) (use f in blast)+
    moreover have "pending (after_sup c ads t s' (y\<lparr>y_reports := rest\<rparr>)) = (\<lambda>i. if i < length (c_ids c) then filter (promotes i) (sends evs) else [])"
      using f(4) by (simp add: fun_eq_iff pending_after_sup [OF ev] pend_upd)
    ultimately show ?thesis
      unfolding s'_def [symmetric] s_def [symmetric]
      using rest evs(2,3) by (simp add: role_inv_def after_sup_eq [OF ev] same_cluster_def)
  next
    case False
    have "\<exists>evs. s_events s' = s_events s @ evs \<and> births evs = [] \<and> Promote \<notin> set (map fst (sends evs)) \<and> same_cluster s s' \<and> s_primary s' = s_primary s"
    proof (cases "key = CommandRequest")
      case True
      have "s' = s \<or> s' = announce_control c CommandBroadcast payload s"
        by (auto simp: s'_def on_control_def m True split: option.split)
      then have "s' = s \<or> s' = emit (Sent CommandBroadcast payload) s" by (auto simp: announce_control_def)
      then show ?thesis
      proof
        assume "s' = s"
        then show ?thesis by (intro exI [of _ "[]"]) (simp add: same_cluster_def)
      next
        assume "s' = emit (Sent CommandBroadcast payload) s"
        then show ?thesis by (intro exI [of _ "[Sent CommandBroadcast payload]"]) (simp add: same_cluster_def)
      qed
    next
      case other: False
      show ?thesis
        using False other by (intro exI [of _ "[]"]) (simp add: s'_def on_control_def m Let_def same_cluster_def)
    qed
    then obtain evs where evs: "s_events s' = s_events s @ evs" "births evs = []" "Promote \<notin> set (map fst (sends evs))"
      "same_cluster s s'" "s_primary s' = s_primary s" by blast
    have ev: "s_events s' = s_events (y_sup (y\<lparr>y_reports := rest\<rparr>)) @ evs" using evs(1) by (simp add: s_def)
    have none: "filter (promotes i) (sends evs) = []" for i
      using evs(3) promotes_other [of _ i] by (fastforce simp: filter_empty_conv image_iff)
    have "pending (after_sup c ads t s' (y\<lparr>y_reports := rest\<rparr>)) = pending y"
      by (simp add: fun_eq_iff pending_after_sup [OF ev] pend_upd none)
    moreover have "filter is_refusal (msg # rest) = filter is_refusal rest" using False by (simp add: is_refusal_def m)
    ultimately show ?thesis
      unfolding s'_def [symmetric] s_def [symmetric]
      using r evs by (simp add: role_inv_def after_sup_eq [OF ev] same_cluster_def)
  qed
qed


lemma pending_member:
  assumes "Promote \<notin> set (map fst new)"
  shows "filter (promotes i) (fold (send_all c from) new inbox i) = filter (promotes i) (inbox i)"
proof -
  have "filter (promotes i) new = []"
    using assms promotes_other [of _ i] by (fastforce simp: filter_empty_conv image_iff)
  then show ?thesis by (simp add: fold_send_all)
qed

lemma deliver_role:
  assumes inv: "role_inv c y" and m: "y_procs y h = Some m" and msg: "y_inbox y (m_index m) = msg # rest"
    and ctl: "member_control p msg m = (m', act)" and N: "length (c_ids c) \<le> 255"
  shows "role_inv c (after_member c h m m' (y\<lparr>y_inbox := (y_inbox y)(m_index m := rest)\<rparr>))"
proof -
  note r = role_invD [OF inv]
  let ?i = "m_index m"
  obtain pid where pid: "dget (s_children (y_sup y)) pid = Some h" "index_of pid (c_ids c) = Some ?i" using roleD(1) [OF r m] by blast
  show ?thesis
  proof (cases "promotes ?i msg")
    case False
    note same = control_other [OF ctl False]
    have "told (drop (length (m_log m)) (m_log m')) = []" using same by simp
    then have eq: "after_member c h m m' (y\<lparr>y_inbox := (y_inbox y)(?i := rest)\<rparr>) =
        y\<lparr>y_procs := (y_procs y)(h := Some m'), y_inbox := (y_inbox y)(?i := rest)\<rparr>"
      by (simp add: after_member_def)
    have "pending (y\<lparr>y_procs := (y_procs y)(h := Some m'), y_inbox := (y_inbox y)(?i := rest)\<rparr>) = pending y"
      using False msg by (simp add: fun_eq_iff pending_def)
    then show ?thesis
      unfolding eq using role_update [OF r m, of m'] same by (simp add: role_inv_def)
  next
    case True
    have pend: "pending y ?i \<noteq> []" using True msg by (simp add: pending_def)
    have refs: "filter is_refusal (y_reports y) = []"
      using roleD(7) [OF r] pend by blast
    obtain q h2 m2 where q: "s_primary (y_sup y) = Some q" "dget (s_children (y_sup y)) q = Some h2" "y_procs y h2 = Some m2"
      "m_index m2 = ?i" "\<not> m_primary m2" using roleD(5) [OF r pend] by blast
    obtain q' where "dget (s_children (y_sup y)) q' = Some h2" "index_of q' (c_ids c) = Some ?i"
      using roleD(1) [OF r q(3)] q(4) by auto
    then have "q' = q" "q' = pid"
      using roleD(3) [OF r q(2)] index_of_Some_D [OF pid(2)] index_of_Some_D [of q' "c_ids c" ?i] by auto
    then have h2: "h2 = h" "q = pid" using q(2) pid(1) by auto
    then have idle: "\<not> m_primary m" using q m by simp
    obtain needed where acc: "m' = fst (accept_promotion p needed m)" using control_promote [OF ctl True] by blast
    obtain log where d: "m_index m' = ?i" "m_log m' = m_log m @ log" "Promote \<notin> set (map fst (told log))"
      "filter is_refusal (told log) = [] \<or> \<not> m_primary m' \<and> (\<exists>e. filter is_refusal (told log) = [(PromoteFailed, pack (int ?i) e 0)])"
      using accept_delta [of p needed m m' "snd (accept_promotion p needed m)"] idle acc by auto
    define y' where "y' = after_member c h m m' (y\<lparr>y_inbox := (y_inbox y)(?i := rest)\<rparr>)"
    have y': "y_procs y' = (y_procs y)(h := Some m')" "y_sup y' = y_sup y" "y_reports y' = y_reports y @ told log"
      "y_inbox y' = fold (send_all c (Some ?i)) (told log) ((y_inbox y)(?i := rest))"
      by (simp_all add: y'_def after_member_def Let_def d(2))
    have none: "pending y' j = []" for j
    proof -
      have "pending y' j = filter (promotes j) (((y_inbox y)(?i := rest)) j)"
        unfolding pending_def y'(4) by (rule pending_member [OF d(3)])
      also have "\<dots> = []"
      proof (cases "j = ?i")
        case True
        have "length (pending y ?i) \<le> 1" by (rule roleD(6) [OF r])
        then show ?thesis using True \<open>promotes ?i msg\<close> msg by (simp add: pending_def)
      next
        case False
        have "pending y j = []"
        proof (rule ccontr)
          assume "pending y j \<noteq> []"
          from roleD(5) [OF r this] obtain q3 h3 m3 where "s_primary (y_sup y) = Some q3" "dget (s_children (y_sup y)) q3 = Some h3"
            "y_procs y h3 = Some m3" "m_index m3 = j" by blast
          then show False using q(1,2) h2 m False by simp
        qed
        then show ?thesis using False by (simp add: pending_def)
      qed
      finally show ?thesis .
    qed
    have lt: "?i < 256" using index_of_Some_D [OF pid(2)] N by simp
    have refs': "filter is_refusal (y_reports y') = [] \<or> \<not> m_primary m' \<and>
        (\<exists>p. filter is_refusal (y_reports y') = [(PromoteFailed, p)] \<and> fst (unpack p) = ?i)"
      using d(4) refs lt by (auto simp: y'(3) unpack_pack)
    have "role c (y_procs y) (pending y) [] (s_children (y_sup y)) (s_next (y_sup y)) (Some pid)"
      using r refs q(1) h2 by simp
    from role_accept [OF this pid(1) m idle d(1) pid(2) refs']
    have "role c (y_procs y') (\<lambda>_. []) (filter is_refusal (y_reports y')) (s_children (y_sup y')) (s_next (y_sup y')) (s_primary (y_sup y'))"
      using q(1) h2 by (simp add: y'(1,2))
    moreover have "pending y' = (\<lambda>_. [])" using none by (simp add: fun_eq_iff)
    ultimately show ?thesis unfolding y'_def [symmetric] by (simp add: role_inv_def)
  qed
qed

lemma step_role:
  assumes "sys_step True c ads y y'" and "role_inv c y" and "length (c_ids c) \<le> 255"
  shows "role_inv c y'"
  using assms(1)
proof cases
  case (Boot pid t s')
  then show ?thesis using boot_role [OF assms(2)] by blast
next
  case (Die h m)
  have "pending y (m_index m) = []" using Die(3) by (simp add: pending_def)
  from role_die [OF role_invD [OF assms(2)] Die(2) this]
  show ?thesis unfolding Die(1) by (simp add: role_inv_def pending_def [abs_def])
next
  case (Restart pid h r s')
  then show ?thesis using restart_role [OF assms(2) Restart(2-5) assms(3) Restart(9)] by blast
next
  case (Report msg rest t)
  then show ?thesis using report_role [OF assms(2) Report(2) assms(3)] by blast
next
  case (Deliver h m msg rest p m' act)
  then show ?thesis using deliver_role [OF assms(2) Deliver(2-4) assms(3)] by blast
qed

lemma new_role: "new_sup c beats = Inr s \<Longrightarrow> role_inv c (new_sys t s)"
  by (auto simp: new_sup_def role_inv_def role_def new_sys_def pending_def split: sum.splits)

lemma run_role:
  assumes "sys_run True c ads y y'" and "role_inv c y" and "length (c_ids c) \<le> 255"
  shows "role_inv c y'"
  using assms(1) by (induction rule: rtranclp_induct) (use assms(2,3) step_role in blast)+

lemma primaries_one:
  assumes "role_inv c y" and "h \<in> primaries y" and "h' \<in> primaries y"
  shows "h = h'" and "\<exists>pid. s_primary (y_sup y) = Some pid \<and> dget (s_children (y_sup y)) pid = Some h"
proof -
  obtain m m' where m: "y_procs y h = Some m" "m_primary m" "y_procs y h' = Some m'" "m_primary m'"
    using assms(2,3) by (auto simp: primaries_def)
  show "\<exists>pid. s_primary (y_sup y) = Some pid \<and> dget (s_children (y_sup y)) pid = Some h"
    by (rule roleD(4) [OF role_invD [OF assms(1)] m(1,2)])
  then show "h = h'" using roleD(4) [OF role_invD [OF assms(1)] m(3,4)] by auto
qed

section \<open>Properties\<close>

text \<open>
  C1: in a careful run the cluster has at most one primary. However processes die, are restarted, promoted,
  refuse the role and report, as long as no process dies with an unread promotion in its slot: two
  processes never hold the role at once, and who holds it is the one the supervisor means.
\<close>

theorem one_primary:
  assumes "new_sup c beats = Inr s" and "length (c_ids c) \<le> 255" and "sys_run True c ads (new_sys t s) y"
  shows "card (primaries y) \<le> 1 \<and>
    (\<forall>h \<in> primaries y. \<exists>pid. s_primary (y_sup y) = Some pid \<and> dget (s_children (y_sup y)) pid = Some h)"
proof -
  have inv: "role_inv c y" by (rule run_role [OF assms(3) new_role [OF assms(1)] assms(2)])
  have sub: "primaries y \<subseteq> {h}" if "h \<in> primaries y" for h using primaries_one(1) [OF inv _ that] by blast
  have "card (primaries y) \<le> 1"
  proof (cases "primaries y = {}")
    case False
    then obtain h where "h \<in> primaries y" by blast
    from card_mono [OF _ sub [OF this]] show ?thesis by simp
  qed simp
  then show ?thesis using primaries_one(2) [OF inv] by blast
qed

text \<open>
  Without that care there can be two. A process promoted while it hangs is killed before it reads so; the
  role goes to another, and the restarted process reads the promotion its predecessor left in the
  slot. Both then hold the primary role, while the supervisor means only one of them.
\<close>
theorem two_primaries:
  "\<exists>y. sys_run False example_cluster example_ads start_state y \<and> {3, 4} \<subseteq> primaries y \<and>
     s_children (y_sup y) = [(''work-2'', 2), (''main'', 3), (''work-1'', 4)] \<and> s_primary (y_sup y) = Some ''main''"
proof -
  obtain y where y: "play example_cluster example_ads unlucky start_state = Some y"
    and ends: "holds_role y 3" "holds_role y 4" "s_children (y_sup y) = [(''work-2'', 2), (''main'', 3), (''work-1'', 4)]"
    "s_primary (y_sup y) = Some ''main''"
    using unlucky_ends by auto
  have "{3, 4} \<subseteq> primaries y"
    using ends(1,2) by (auto simp: holds_role_def primaries_def split: option.splits)
  then show ?thesis using play_sound [OF y] ends(3,4) by blast
qed

lemma one_primary_witness:
  "\<exists>s y. new_sup example_cluster None = Inr s \<and> sys_run True example_cluster example_ads (new_sys 0 s) y \<and>
     s_children (y_sup y) \<noteq> [] \<and> card (primaries y) \<le> 1"
proof -
  have "primary_id example_blocks = Inr ''main''" by code_simp
  then obtain s where s: "new_sup example_cluster None = Inr s" by (simp add: new_sup_def example_cluster_def)
  have ch: "s_children s = []" using s by (auto simp: new_sup_def split: sum.splits)
  obtain b where "by_id (c_topology example_cluster) ''work-1'' = Some b" using example_block by blast
  then obtain s' where s': "spawn example_cluster True 0 ''work-1'' s = Inr s'" "s_children s' = dset ''work-1'' (s_next s) (s_children s)"
    "\<exists>evs. s_events s' = s_events s @ evs"
    using spawn_ok [of example_cluster "''work-1''" b 0 s] by blast
  obtain evs where evs: "s_events s' = s_events (y_sup (new_sys 0 s :: nat sys)) @ evs" using s'(3) by (auto simp: new_sys_def)
  define y where "y = after_sup example_cluster example_ads 0 s' (new_sys 0 s)"
  have "sys_step True example_cluster example_ads (new_sys 0 s) y"
    unfolding y_def by (rule sys_step.Boot [of "''work-1''"]) (use s' ch in \<open>simp_all add: new_sys_def\<close>)
  then have run: "sys_run True example_cluster example_ads (new_sys 0 s) y" by blast
  have "length (c_ids example_cluster) \<le> 255" by code_simp
  from one_primary [OF s this run] have "card (primaries y) \<le> 1" by blast
  moreover have "y_sup y = s'" unfolding y_def by (rule after_sup_eq(2) [OF evs])
  then have "s_children (y_sup y) \<noteq> []" by (simp add: s'(2) ch)
  ultimately show ?thesis using s run by blast
qed

end
