(* ===== verification/Modbus_Model.thy ===== *)
theory Modbus_Model
  imports Prelude
begin

text \<open>
  The declarative device model of the Modbus adapter (\<open>xime/adapters/modbus/_model.py\<close>): the four areas,
  the data types, fields with their checks, and the class decorator that collects the fields of a
  class and refuses overlapping ones. A number of the type \<open>'r\<close> is a Python float; the model
  compares one with zero and stores it. A field object has an identity, on which \<open>_owner_info\<close> is kept.
\<close>

section \<open>Areas and types\<close>

datatype area = Coil | Discrete | Input | Holding

definition areas :: "area list" where "areas = [Coil, Discrete, Input, Holding]"

fun area_label :: "area \<Rightarrow> string" where
  "area_label Coil = ''coil''" | "area_label Discrete = ''discrete''"
| "area_label Input = ''input''" | "area_label Holding = ''holding''"

fun is_bit :: "area \<Rightarrow> bool" where
  "is_bit Coil = True" | "is_bit Discrete = True" | "is_bit Input = False" | "is_bit Holding = False"

fun writable :: "area \<Rightarrow> bool" where
  "writable Coil = True" | "writable Discrete = False" | "writable Input = False" | "writable Holding = True"

fun modicon_base :: "area \<Rightarrow> int" where
  "modicon_base Coil = 1" | "modicon_base Discrete = 10001" | "modicon_base Input = 30001" | "modicon_base Holding = 40001"

definition modicon_span :: "area \<Rightarrow> int \<times> int" where
  "modicon_span a = (modicon_base a, modicon_base a + 9998)"

datatype data_type = TBool | Int16 | UInt16 | Int32 | UInt32 | Int64 | UInt64 | Float32 | Float64 | Text

definition data_types :: "data_type list" where
  "data_types = [TBool, Int16, UInt16, Int32, UInt32, Int64, UInt64, Float32, Float64, Text]"

fun type_label :: "data_type \<Rightarrow> string" where
  "type_label TBool = ''bool''" | "type_label Int16 = ''int16''" | "type_label UInt16 = ''uint16''"
| "type_label Int32 = ''int32''" | "type_label UInt32 = ''uint32''" | "type_label Int64 = ''int64''"
| "type_label UInt64 = ''uint64''" | "type_label Float32 = ''float32''" | "type_label Float64 = ''float64''"
| "type_label Text = ''string''"

fun type_words :: "data_type \<Rightarrow> int" where
  "type_words TBool = 0" | "type_words Int16 = 1" | "type_words UInt16 = 1" | "type_words Int32 = 2"
| "type_words UInt32 = 2" | "type_words Int64 = 4" | "type_words UInt64 = 4" | "type_words Float32 = 2"
| "type_words Float64 = 4" | "type_words Text = 0"

datatype order = Big | Little

datatype model_error =
    NoAddress
  | TwoAddresses int int
  | OutsideModicon area int
  | NegativeAddress int
  | AddressTooLarge int
  | UnknownType string
  | BadOrder string string
  | BitNotBool area data_type
  | BoolInRegister
  | TextNeedsCount
  | CountTooSmall int
  | CountMeaningless data_type
  | ZeroScale
  | BadUnit int
  | NoFields string
  | OverlappingFields area string string

definition parse_type :: "string \<Rightarrow> model_error + data_type" where
  "parse_type s = (case filter (\<lambda>t. type_label t = s) data_types of t # _ \<Rightarrow> Inr t | [] \<Rightarrow> Inl (UnknownType s))"

definition check_order :: "string option \<Rightarrow> string \<Rightarrow> model_error + order option" where
  "check_order v label =
     (case v of
        None \<Rightarrow> Inr None
      | Some s \<Rightarrow> if s = ''big'' then Inr (Some Big) else if s = ''little'' then Inr (Some Little) else Inl (BadOrder label s))"

section \<open>Fields\<close>

record 'r mfield =
  f_id :: nat
  f_area :: area
  f_address :: int
  f_type :: data_type
  f_word_order :: "order option"
  f_byte_order :: "order option"
  f_scale :: "'r option"
  f_offset :: "'r option"
  f_count :: "int option"
  f_name :: string

text \<open>\<open>self.count or 1\<close>\<close>

definition count_or_one :: "'r mfield \<Rightarrow> int" where
  "count_or_one f = (case f_count f of Some n \<Rightarrow> if n = 0 then 1 else n | None \<Rightarrow> 1)"

definition word_count :: "'r mfield \<Rightarrow> int" where
  "word_count f = (if is_bit (f_area f) then count_or_one f else if f_type f = Text then count_or_one f else type_words (f_type f))"

definition end_address :: "'r mfield \<Rightarrow> int" where
  "end_address f = f_address f + word_count f"

definition resolve_address :: "int option \<Rightarrow> int option \<Rightarrow> area \<Rightarrow> model_error + int" where
  "resolve_address address modicon a =
     (case (address, modicon) of
        (None, None) \<Rightarrow> Inl NoAddress
      | (Some x, Some m) \<Rightarrow> Inl (TwoAddresses x m)
      | (None, Some m) \<Rightarrow>
          (case modicon_span a of (low, high) \<Rightarrow>
             if \<not> (low \<le> m \<and> m \<le> high) then Inl (OutsideModicon a m) else Inr (m - modicon_base a))
      | (Some x, None) \<Rightarrow>
          if x < 0 then Inl (NegativeAddress x) else if 65535 < x then Inl (AddressTooLarge x) else Inr x)"

definition validate_field :: "'r::zero mfield \<Rightarrow> model_error + unit" where
  "validate_field f =
     sbind (if is_bit (f_area f) then (if f_type f \<noteq> TBool then Inl (BitNotBool (f_area f) (f_type f)) else Inr ())
            else if f_type f = TBool then Inl BoolInRegister else Inr ()) (\<lambda>_.
     sbind (if f_type f = Text \<and> (f_count f = None \<or> f_count f = Some 0) then Inl TextNeedsCount else Inr ()) (\<lambda>_.
     sbind (case f_count f of Some n \<Rightarrow> if n < 1 then Inl (CountTooSmall n) else Inr () | None \<Rightarrow> Inr ()) (\<lambda>_.
     sbind (if f_count f \<noteq> None \<and> \<not> is_bit (f_area f) \<and> f_type f \<noteq> Text then Inl (CountMeaningless (f_type f)) else Inr ()) (\<lambda>_.
     if f_scale f = Some 0 then Inl ZeroScale else Inr ()))))"

text \<open>The arguments of \<open>ModbusField\<close> as they are written in a class body.\<close>

record 'r field_args =
  a_address :: "int option"
  a_modicon :: "int option"
  a_type :: string
  a_word_order :: "string option"
  a_byte_order :: "string option"
  a_scale :: "'r option"
  a_offset :: "'r option"
  a_count :: "int option"

definition new_field :: "nat \<Rightarrow> area \<Rightarrow> 'r::zero field_args \<Rightarrow> model_error + 'r mfield" where
  "new_field oid a args =
     sbind (resolve_address (a_address args) (a_modicon args) a) (\<lambda>address.
     sbind (parse_type (a_type args)) (\<lambda>ty.
     sbind (check_order (a_word_order args) ''word_order'') (\<lambda>wo.
     sbind (check_order (a_byte_order args) ''byte_order'') (\<lambda>bo.
       let f = \<lparr>f_id = oid, f_area = a, f_address = address, f_type = ty, f_word_order = wo, f_byte_order = bo,
                f_scale = a_scale args, f_offset = a_offset args, f_count = a_count args, f_name = ''''\<rparr>
       in sbind (validate_field f) (\<lambda>_. Inr f)))))"

definition holding :: "nat \<Rightarrow> 'r::zero field_args \<Rightarrow> model_error + 'r mfield" where
  "holding oid args = new_field oid Holding args"

definition input_register :: "nat \<Rightarrow> 'r::zero field_args \<Rightarrow> model_error + 'r mfield" where
  "input_register oid args = new_field oid Input args"

definition bit_args :: "int option \<Rightarrow> int option \<Rightarrow> int option \<Rightarrow> 'r field_args" where
  "bit_args address modicon n = \<lparr>a_address = address, a_modicon = modicon, a_type = ''bool'', a_word_order = None,
     a_byte_order = None, a_scale = None, a_offset = None, a_count = n\<rparr>"

definition coil :: "nat \<Rightarrow> int option \<Rightarrow> int option \<Rightarrow> int option \<Rightarrow> model_error + 'r::zero mfield" where
  "coil oid address modicon n = new_field oid Coil (bit_args address modicon n)"

definition discrete :: "nat \<Rightarrow> int option \<Rightarrow> int option \<Rightarrow> int option \<Rightarrow> model_error + 'r::zero mfield" where
  "discrete oid address modicon n = new_field oid Discrete (bit_args address modicon n)"

section \<open>Device classes\<close>

record 'r device_info =
  d_cls :: string
  d_unit :: int
  d_fields :: "(string, 'r mfield) dict"
  d_byte_order :: order
  d_word_order :: order

definition fields_in :: "'r device_info \<Rightarrow> area \<Rightarrow> 'r mfield list" where
  "fields_in info a = sort_key f_address (filter (\<lambda>f. f_area f = a) (dvals (d_fields info)))"

definition resolved_word_order :: "'r device_info \<Rightarrow> 'r mfield \<Rightarrow> order" where
  "resolved_word_order info f = (case f_word_order f of Some w \<Rightarrow> w | None \<Rightarrow> d_word_order info)"

definition resolved_byte_order :: "'r device_info \<Rightarrow> 'r mfield \<Rightarrow> order" where
  "resolved_byte_order info f = (case f_byte_order f of Some b \<Rightarrow> b | None \<Rightarrow> d_byte_order info)"

text \<open>A class is the list of its method resolution order; each entry lists its fields by attribute name.\<close>

definition collect_fields :: "(string \<times> 'r mfield) list list \<Rightarrow> (string, 'r mfield) dict" where
  "collect_fields mro =
     dict_of (map (\<lambda>(name, f). (name, if f_name f = '''' then f\<lparr>f_name := name\<rparr> else f)) (concat (rev mro)))"

definition by_area :: "'r mfield list \<Rightarrow> (area, 'r mfield list) dict" where
  "by_area fs = fold (\<lambda>f groups. dset (f_area f) (dget_default [] groups (f_area f) @ [f]) groups) fs []"

definition check_neighbours :: "area \<Rightarrow> 'r mfield list \<Rightarrow> model_error + unit" where
  "check_neighbours a same =
     sfold (\<lambda>(previous, current) _.
       if f_address current < end_address previous
       then Inl (OverlappingFields a (f_name previous) (f_name current)) else Inr ()) (zip same (tl same)) ()"

definition check_no_overlap :: "(string, 'r mfield) dict \<Rightarrow> model_error + unit" where
  "check_no_overlap fs =
     sfold (\<lambda>(a, same) _. check_neighbours a (sort_key f_address same)) (by_area (dvals fs)) ()"

text \<open>
  \<open>owners\<close> is \<open>_owner_info\<close>, kept by the identity of the field objects: a field a class inherits is the same object
  as in its base, and the first model that claims it stays its owner.
\<close>

definition claim_fields :: "'r device_info \<Rightarrow> (nat, 'r device_info) dict \<Rightarrow> (nat, 'r device_info) dict" where
  "claim_fields info owners =
     fold (\<lambda>f ows. if dget ows (f_id f) = None then dset (f_id f) info ows else ows) (dvals (d_fields info)) owners"

definition device ::
  "string \<Rightarrow> (string \<times> 'r mfield) list list \<Rightarrow> int \<Rightarrow> string \<Rightarrow> string \<Rightarrow> (nat, 'r device_info) dict
    \<Rightarrow> model_error + 'r device_info \<times> (nat, 'r device_info) dict" where
  "device cls mro unit bo wo owners =
     (if \<not> (0 \<le> unit \<and> unit \<le> 255) then Inl (BadUnit unit)
      else sbind (check_order (Some bo) ''byte_order'') (\<lambda>b.
           sbind (check_order (Some wo) ''word_order'') (\<lambda>w.
             let fs = collect_fields mro
             in if fs = [] then Inl (NoFields cls)
                else sbind (check_no_overlap fs) (\<lambda>_.
                  let info = \<lparr>d_cls = cls, d_unit = unit, d_fields = fs, d_byte_order = the b, d_word_order = the w\<rparr>
                  in Inr (info, claim_fields info owners)))))"

section \<open>Lemmas\<close>

lemma in_areas [simp]: "a \<in> set areas"
  by (cases a) (simp_all add: areas_def)

lemma distinct_areas: "distinct areas"
  by (simp add: areas_def)

text \<open>What the checks of a field establish.\<close>

definition field_ok :: "'r mfield \<Rightarrow> bool" where
  "field_ok f \<longleftrightarrow> 0 < word_count f \<and> 0 \<le> f_address f \<and> f_address f \<le> 65535 \<and> (is_bit (f_area f) \<longleftrightarrow> f_type f = TBool)"

lemma resolve_address_range: "resolve_address address modicon a = Inr x \<Longrightarrow> 0 \<le> x \<and> x \<le> 65535"
  by (cases a) (auto simp: resolve_address_def modicon_span_def split: option.splits if_splits)

lemma validate_field_ok:
  fixes f :: "'r::zero mfield"
  assumes "validate_field f = Inr ()" and "0 \<le> f_address f" and "f_address f \<le> 65535"
  shows "field_ok f"
proof -
  have bit: "is_bit (f_area f) \<longleftrightarrow> f_type f = TBool"
    using assms(1) by (auto simp: validate_field_def sbind_eq_Inr split: if_splits)
  have "0 < count_or_one f"
    using assms(1) by (auto simp: validate_field_def count_or_one_def sbind_eq_Inr split: if_splits option.splits)
  moreover have "f_type f \<noteq> TBool \<Longrightarrow> f_type f \<noteq> Text \<Longrightarrow> 0 < type_words (f_type f)" by (cases "f_type f") simp_all
  ultimately show ?thesis using bit assms(2,3) by (auto simp: field_ok_def word_count_def)
qed

lemma new_field_ok: "new_field oid a args = Inr f \<Longrightarrow> field_ok f \<and> f_area f = a"
proof -
  assume "new_field oid a args = Inr f"
  then obtain address ty wo bo where f: "resolve_address (a_address args) (a_modicon args) a = Inr address"
    "f = \<lparr>f_id = oid, f_area = a, f_address = address, f_type = ty, f_word_order = wo, f_byte_order = bo,
           f_scale = a_scale args, f_offset = a_offset args, f_count = a_count args, f_name = ''''\<rparr>"
    "validate_field f = Inr ()"
    by (auto simp: new_field_def Let_def sbind_eq_Inr)
  then show ?thesis using resolve_address_range [OF f(1)] validate_field_ok [of f] by simp
qed

text \<open>Disjoint spans of addresses.\<close>

definition apart_fields :: "'r mfield \<Rightarrow> 'r mfield \<Rightarrow> bool" where
  "apart_fields f g \<longleftrightarrow> f_area f \<noteq> f_area g \<or> end_address f \<le> f_address g \<or> end_address g \<le> f_address f"

lemma sorted_neighbours:
  assumes "sorted (map f_address fs)" and "\<forall>f \<in> set fs. 0 < word_count f"
  shows "(\<forall>(p, c) \<in> set (zip fs (tl fs)). end_address p \<le> f_address c) \<longleftrightarrow>
    sorted_wrt (\<lambda>f g. end_address f \<le> f_address g) fs"
  using assms
proof (induction fs)
  case (Cons f fs)
  show ?case
  proof (cases fs)
    case (Cons g gs)
    have step: "(\<forall>(p, c) \<in> set (zip fs (tl fs)). end_address p \<le> f_address c) \<longleftrightarrow> sorted_wrt (\<lambda>f g. end_address f \<le> f_address g) fs"
      using Cons.IH Cons.prems by simp
    have "f_address g \<le> f_address h" if "h \<in> set fs" for h using Cons.prems(1) that Cons by auto
    then show ?thesis using step by (auto simp: Cons) force+
  qed simp
qed simp

text \<open>Grouping by area keeps the fields of an area in order.\<close>

lemma by_area_spec:
  "distinct (dkeys (by_area fs)) \<and>
    dget (by_area fs) a = (if filter (\<lambda>f. f_area f = a) fs = [] then None else Some (filter (\<lambda>f. f_area f = a) fs))"
proof (induction fs rule: rev_induct)
  case (snoc f fs)
  have "by_area (fs @ [f]) = dset (f_area f) (dget_default [] (by_area fs) (f_area f) @ [f]) (by_area fs)"
    by (simp add: by_area_def)
  then show ?case using snoc by (auto simp: distinct_update dget_default_def)
qed (simp add: by_area_def)

lemma by_area_items:
  "(a, gs) \<in> set (by_area fs) \<longleftrightarrow> gs = filter (\<lambda>f. f_area f = a) fs \<and> gs \<noteq> []"
proof -
  have "distinct (dkeys (by_area fs))" using by_area_spec [of fs a] by blast
  then have "(a, gs) \<in> set (by_area fs) \<longleftrightarrow> dget (by_area fs) a = Some gs" by simp
  then show ?thesis using by_area_spec [of fs a] by auto
qed

lemma sfold_checks: "sfold (\<lambda>(a, b) _. g a b) xs () = Inr () \<longleftrightarrow> (\<forall>(a, b) \<in> set xs. g a b = Inr ())"
proof (induction xs)
  case (Cons x xs)
  obtain a b where x: "x = (a, b)" by fastforce
  show ?case
  proof (cases "g a b")
    case (Inr u)
    then show ?thesis using Cons.IH by (simp add: x)
  qed (simp add: x)
qed simp

lemma check_neighbours_iff:
  assumes "sorted (map f_address fs)" and "\<forall>f \<in> set fs. 0 < word_count f"
  shows "check_neighbours a fs = Inr () \<longleftrightarrow> sorted_wrt (\<lambda>f g. end_address f \<le> f_address g) fs"
proof -
  have "check_neighbours a fs = Inr () \<longleftrightarrow> (\<forall>(p, c) \<in> set (zip fs (tl fs)). end_address p \<le> f_address c)"
    unfolding check_neighbours_def sfold_checks by (auto simp: not_less split: if_splits)
  then show ?thesis using sorted_neighbours [OF assms] by simp
qed

lemma pairwise_sorted:
  assumes "distinct fs" and "\<forall>f \<in> set fs. 0 < word_count f" and "\<forall>f \<in> set fs. f_area f = a"
  shows "sorted_wrt (\<lambda>f g. end_address f \<le> f_address g) (sort_key f_address fs) \<longleftrightarrow>
    (\<forall>f \<in> set fs. \<forall>g \<in> set fs. f \<noteq> g \<longrightarrow> apart_fields f g)" (is "?sorted \<longleftrightarrow> ?apart")
proof -
  let ?gs = "sort_key f_address fs"
  have d: "distinct ?gs" "set ?gs = set fs" "sorted (map f_address ?gs)" using assms(1) by simp_all
  have "?sorted \<longleftrightarrow> (\<forall>i j. i < j \<longrightarrow> j < length ?gs \<longrightarrow> end_address (?gs ! i) \<le> f_address (?gs ! j))"
    by (simp add: sorted_wrt_iff_nth_less)
  also have "\<dots> \<longleftrightarrow> (\<forall>i < length ?gs. \<forall>j < length ?gs. i \<noteq> j \<longrightarrow> apart_fields (?gs ! i) (?gs ! j))" (is "?l \<longleftrightarrow> ?r")
  proof
    assume ?l
    then show ?r unfolding apart_fields_def by (metis linorder_neqE_nat)
  next
    assume r: ?r
    show ?l
    proof (intro allI impI)
      fix i j assume ij: "i < j" "j < length ?gs"
      then have "apart_fields (?gs ! i) (?gs ! j)" using r by auto
      moreover have "?gs ! i \<in> set fs" "?gs ! j \<in> set fs"
        using nth_mem [of i ?gs] nth_mem [of j ?gs] ij d(2) by simp_all
      moreover have "f_address (?gs ! i) \<le> f_address (?gs ! j)"
        using sorted_nth_mono [OF d(3), of i j] ij by (simp add: nth_map)
      ultimately show "end_address (?gs ! i) \<le> f_address (?gs ! j)"
        using assms(2,3) unfolding apart_fields_def end_address_def by fastforce
    qed
  qed
  also have "\<dots> \<longleftrightarrow> ?apart"
  proof
    assume r: "\<forall>i < length ?gs. \<forall>j < length ?gs. i \<noteq> j \<longrightarrow> apart_fields (?gs ! i) (?gs ! j)"
    show ?apart
    proof (intro ballI impI)
      fix f g assume "f \<in> set fs" "g \<in> set fs" "f \<noteq> g"
      then obtain i j where "i < length ?gs" "?gs ! i = f" "j < length ?gs" "?gs ! j = g"
        unfolding d(2) [symmetric] in_set_conv_nth by blast
      then show "apart_fields f g" using r \<open>f \<noteq> g\<close> by blast
    qed
  next
    assume ap: ?apart
    show "\<forall>i < length ?gs. \<forall>j < length ?gs. i \<noteq> j \<longrightarrow> apart_fields (?gs ! i) (?gs ! j)"
    proof (intro allI impI)
      fix i j assume "i < length ?gs" "j < length ?gs" "i \<noteq> j"
      then show "apart_fields (?gs ! i) (?gs ! j)"
        using ap d(1) nth_mem [of i ?gs] nth_mem [of j ?gs] unfolding d(2) distinct_conv_nth by blast
    qed
  qed
  finally show ?thesis .
qed

text \<open>Looking at neighbours in address order refuses exactly the models in which two fields share an address.\<close>

lemma check_no_overlap_iff:
  assumes "distinct (dvals fs)" and "\<forall>f \<in> set (dvals fs). 0 < word_count f"
  shows "check_no_overlap fs = Inr () \<longleftrightarrow>
    (\<forall>f \<in> set (dvals fs). \<forall>g \<in> set (dvals fs). f \<noteq> g \<longrightarrow> apart_fields f g)"
proof -
  let ?of = "\<lambda>a. filter (\<lambda>f. f_area f = a) (dvals fs)"
  let ?ok = "\<lambda>a. \<forall>f \<in> set (?of a). \<forall>g \<in> set (?of a). f \<noteq> g \<longrightarrow> apart_fields f g"
  have one: "check_neighbours a (sort_key f_address (?of a)) = Inr () \<longleftrightarrow> ?ok a" for a
  proof -
    have pos: "\<forall>f \<in> set (sort_key f_address (?of a)). 0 < word_count f" using assms(2) by auto
    have "check_neighbours a (sort_key f_address (?of a)) = Inr () \<longleftrightarrow>
        sorted_wrt (\<lambda>f g. end_address f \<le> f_address g) (sort_key f_address (?of a))"
      by (rule check_neighbours_iff [OF sorted_sort_key pos])
    also have "\<dots> \<longleftrightarrow> ?ok a" by (rule pairwise_sorted [of _ a]) (use assms in auto)
    finally show ?thesis .
  qed
  have "check_no_overlap fs = Inr () \<longleftrightarrow> (\<forall>(a, gs) \<in> set (by_area (dvals fs)). check_neighbours a (sort_key f_address gs) = Inr ())"
    unfolding check_no_overlap_def by (rule sfold_checks)
  also have "\<dots> \<longleftrightarrow> (\<forall>a. ?of a \<noteq> [] \<longrightarrow> ?ok a)" by (simp add: Ball_def by_area_items one del: set_filter)
  also have "\<dots> \<longleftrightarrow> (\<forall>a. ?ok a)" by (metis empty_iff empty_set)
  also have "\<dots> \<longleftrightarrow> (\<forall>f \<in> set (dvals fs). \<forall>g \<in> set (dvals fs). f \<noteq> g \<longrightarrow> apart_fields f g)"
    unfolding apart_fields_def set_filter mem_Collect_eq by blast
  finally show ?thesis .
qed

lemma device_cases:
  assumes "device cls mro unit bo wo owners = Inr (info, owners')"
  shows "d_cls info = cls" and "d_unit info = unit" and "0 \<le> unit" and "unit \<le> 255" and "d_fields info = collect_fields mro"
    and "d_fields info \<noteq> []" and "check_no_overlap (d_fields info) = Inr ()"
  using assms by (auto simp: device_def Let_def sbind_eq_Inr split: if_splits)

lemma device_claims: "device cls mro unit bo wo owners = Inr (info, owners') \<Longrightarrow> owners' = claim_fields info owners"
  by (auto simp: device_def Let_def sbind_eq_Inr split: if_splits)

text \<open>A field that had no owner belongs to the new model; every other one keeps the owner it had.\<close>

lemma claim_loop:
  "dget (fold (\<lambda>f ows. if dget ows (f_id f) = None then dset (f_id f) info ows else ows) fs owners) k =
    (case dget owners k of Some o' \<Rightarrow> Some o' | None \<Rightarrow> if k \<in> f_id ` set fs then Some info else None)"
  by (induction fs arbitrary: owners) (auto split: option.splits)

lemma owner_after_claim:
  assumes "f \<in> set (dvals (d_fields info))"
  shows "dget (claim_fields info owners) (f_id f) = Some (case dget owners (f_id f) of Some o' \<Rightarrow> o' | None \<Rightarrow> info)"
  using assms unfolding claim_fields_def claim_loop by (auto split: option.splits)

end
