(* ===== verification/Modbus_Plan.thy ===== *)
theory Modbus_Plan
  imports Modbus_Model
begin

text \<open>
  The read planner (\<open>xime/adapters/modbus/_planner.py\<close>): fields at scattered addresses become read
  commands, each within one area and within the size the protocol allows.
\<close>

section \<open>Commands\<close>

definition max_registers :: int where "max_registers = 125"
definition max_bits :: int where "max_bits = 2000"
definition default_max_gap :: int where "default_max_gap = 8"

record read_command =
  r_area :: area
  r_address :: int
  r_count :: int

definition cmd_end :: "read_command \<Rightarrow> int" where
  "cmd_end c = r_address c + r_count c"

definition covers :: "read_command \<Rightarrow> 'r mfield \<Rightarrow> bool" where
  "covers c f \<longleftrightarrow> f_area f = r_area c \<and> r_address c \<le> f_address f \<and> end_address f \<le> cmd_end c"

datatype plan_error = NegativeGap int | FieldTooLarge string area int

definition area_limit :: "area \<Rightarrow> int" where
  "area_limit a = (if is_bit a then max_bits else max_registers)"

definition span :: "area \<Rightarrow> 'r mfield \<Rightarrow> int \<Rightarrow> plan_error + int" where
  "span a f limit = (if limit < word_count f then Inl (FieldTooLarge (f_name f) a (word_count f)) else Inr (word_count f))"

text \<open>The loop of \<open>_plan_area\<close>: the command under way covers \<open>start\<close> to \<open>fin\<close>.\<close>

fun plan_loop :: "area \<Rightarrow> int \<Rightarrow> int \<Rightarrow> 'r mfield list \<Rightarrow> int \<Rightarrow> int \<Rightarrow> plan_error + read_command list" where
  "plan_loop a limit max_gap [] start fin = Inr [\<lparr>r_area = a, r_address = start, r_count = fin - start\<rparr>]"
| "plan_loop a limit max_gap (f # fs) start fin =
     sbind (span a f limit) (\<lambda>size.
       let field_end = f_address f + size
       in if f_address f - fin \<le> max_gap \<and> field_end - start \<le> limit
          then plan_loop a limit max_gap fs start (max fin field_end)
          else sbind (plan_loop a limit max_gap fs (f_address f) field_end) (\<lambda>cs.
                 Inr (\<lparr>r_area = a, r_address = start, r_count = fin - start\<rparr> # cs)))"

definition plan_area :: "area \<Rightarrow> 'r mfield list \<Rightarrow> int \<Rightarrow> plan_error + read_command list" where
  "plan_area a fs max_gap =
     (let limit = area_limit a; f = hd fs
      in sbind (span a f limit) (\<lambda>size. plan_loop a limit max_gap (tl fs) (f_address f) (f_address f + size)))"

definition plan_reads :: "'r device_info \<Rightarrow> 'r mfield list option \<Rightarrow> int \<Rightarrow> plan_error + read_command list" where
  "plan_reads info only max_gap =
     (if max_gap < 0 then Inl (NegativeGap max_gap)
      else let selected = (case only of None \<Rightarrow> dvals (d_fields info) | Some fs \<Rightarrow> fs)
           in sfold (\<lambda>a commands.
                let in_area = sort_key f_address (filter (\<lambda>f. f_area f = a) selected)
                in if in_area = [] then Inr commands
                   else sbind (plan_area a in_area max_gap) (\<lambda>cs. Inr (commands @ cs))) areas [])"

section \<open>One area\<close>

text \<open>
  What a command may read: every address lies in a field it covers or less than \<open>gap\<close> behind the end of one.
\<close>

definition near_fields :: "int \<Rightarrow> 'r mfield set \<Rightarrow> int \<Rightarrow> int \<Rightarrow> bool" where
  "near_fields gap fs start fin \<longleftrightarrow> (\<forall>x. start \<le> x \<and> x < fin \<longrightarrow>
     (\<exists>f \<in> fs. start \<le> f_address f \<and> end_address f \<le> fin \<and> f_address f \<le> x \<and> x < end_address f + gap))"

definition cmd_ok :: "int \<Rightarrow> int \<Rightarrow> 'r mfield set \<Rightarrow> area \<Rightarrow> read_command \<Rightarrow> bool" where
  "cmd_ok limit gap fs a c \<longleftrightarrow> r_area c = a \<and> 0 < r_count c \<and> r_count c \<le> limit \<and> near_fields gap fs (r_address c) (cmd_end c)"

lemma near_fields_one: "0 \<le> gap \<Longrightarrow> f \<in> fs \<Longrightarrow> near_fields gap fs (f_address f) (end_address f)"
  by (auto simp: near_fields_def)

definition ends_at :: "'r mfield set \<Rightarrow> int \<Rightarrow> int \<Rightarrow> bool" where
  "ends_at fs start fin \<longleftrightarrow> (\<exists>f \<in> fs. start \<le> f_address f \<and> f_address f \<le> fin \<and> end_address f = fin)"

lemma near_fields_extend:
  assumes "near_fields gap fs start fin" and "ends_at fs start fin" and "f \<in> fs" and "start \<le> f_address f"
    and "f_address f - fin \<le> gap" and "0 \<le> gap"
  shows "near_fields gap fs start (max fin (end_address f))"
  unfolding near_fields_def
proof (intro allI impI)
  fix x assume x: "start \<le> x \<and> x < max fin (end_address f)"
  consider "x < fin" | "fin \<le> x" "f_address f \<le> x" | "fin \<le> x" "x < f_address f" by linarith
  then show "\<exists>g \<in> fs. start \<le> f_address g \<and> end_address g \<le> max fin (end_address f) \<and> f_address g \<le> x \<and> x < end_address g + gap"
  proof cases
    case 1
    then obtain g where "g \<in> fs" "start \<le> f_address g" "end_address g \<le> fin" "f_address g \<le> x" "x < end_address g + gap"
      using assms(1) x unfolding near_fields_def by blast
    then show ?thesis by (intro bexI [of _ g]) auto
  next
    case 2
    then show ?thesis using x assms(3,4,6) by (intro bexI [of _ f]) auto
  next
    case 3
    obtain g where "g \<in> fs" "start \<le> f_address g" "f_address g \<le> fin" "end_address g = fin"
      using assms(2) unfolding ends_at_def by blast
    then show ?thesis using 3 assms(5) by (intro bexI [of _ g]) auto
  qed
qed

lemma ends_at_extend:
  assumes "ends_at fs start fin" and "f \<in> fs" and "start \<le> f_address f" and "0 < word_count f"
  shows "ends_at fs start (max fin (end_address f))"
proof (cases "end_address f \<le> fin")
  case True
  then show ?thesis using assms(1) by (simp add: max_def)
next
  case False
  then show ?thesis using assms(2-4) unfolding ends_at_def by (intro bexI [of _ f]) (auto simp: end_address_def)
qed

lemma plan_loop_ok:
  assumes "plan_loop a limit gap fs start fin = Inr cs" and "0 \<le> gap" and "start < fin" and "fin - start \<le> limit"
    and "near_fields gap all start fin" and "ends_at all start fin" and "set fs \<subseteq> all" and "\<forall>f \<in> all. 0 < word_count f"
    and "\<forall>f \<in> set fs. start \<le> f_address f" and "sorted (map f_address fs)" and "\<forall>f \<in> set fs. f_area f = a"
  shows "(\<forall>c \<in> set cs. cmd_ok limit gap all a c) \<and> (\<forall>f \<in> set fs. \<exists>c \<in> set cs. covers c f) \<and>
    (\<exists>c \<in> set cs. r_area c = a \<and> r_address c = start \<and> fin \<le> cmd_end c)"
  using assms
proof (induction fs arbitrary: start fin cs)
  case Nil
  then show ?case by (auto simp: cmd_ok_def cmd_end_def)
next
  case (Cons f fs)
  let ?fend = "end_address f"
  have small: "word_count f \<le> limit" and size: "span a f limit = Inr (word_count f)"
    using Cons.prems(1) by (auto simp: span_def split: if_splits)
  have f: "f \<in> all" "0 < word_count f" "start \<le> f_address f" "f_area f = a" using Cons.prems(7-9,11) by auto
  have rest: "set fs \<subseteq> all" "\<forall>g \<in> set fs. start \<le> f_address g" "\<forall>g \<in> set fs. f_address f \<le> f_address g"
    "sorted (map f_address fs)" "\<forall>g \<in> set fs. f_area g = a" using Cons.prems(7,9-11) by auto
  show ?case
  proof (cases "f_address f - fin \<le> gap \<and> ?fend - start \<le> limit")
    case True
    have eq: "plan_loop a limit gap fs start (max fin ?fend) = Inr cs"
      using Cons.prems(1) True by (simp add: size end_address_def)
    have "(\<forall>c \<in> set cs. cmd_ok limit gap all a c) \<and> (\<forall>f \<in> set fs. \<exists>c \<in> set cs. covers c f) \<and>
        (\<exists>c \<in> set cs. r_area c = a \<and> r_address c = start \<and> max fin ?fend \<le> cmd_end c)"
      by (rule Cons.IH [OF eq Cons.prems(2) _ _ near_fields_extend [OF Cons.prems(5,6) f(1,3) _ Cons.prems(2)] ends_at_extend [OF Cons.prems(6) f(1,3,2)]
          rest(1) Cons.prems(8) rest(2,4,5)]) (use True Cons.prems(3,4) in auto)
    moreover have "covers c f" if "r_area c = a" "r_address c = start" "max fin ?fend \<le> cmd_end c" for c
      using that f by (simp add: covers_def)
    ultimately show ?thesis by (auto simp: max_def split: if_splits)
  next
    case False
    obtain ds where ds: "plan_loop a limit gap fs (f_address f) ?fend = Inr ds"
      "cs = \<lparr>r_area = a, r_address = start, r_count = fin - start\<rparr> # ds"
      using Cons.prems(1) False by (auto simp: size end_address_def Let_def sbind_eq_Inr split: if_splits)
    have new: "f_address f < ?fend" "?fend - f_address f \<le> limit" "ends_at all (f_address f) ?fend"
      using f small by (auto simp: end_address_def ends_at_def)
    have ih: "(\<forall>c \<in> set ds. cmd_ok limit gap all a c) \<and> (\<forall>f \<in> set fs. \<exists>c \<in> set ds. covers c f) \<and>
        (\<exists>c \<in> set ds. r_area c = a \<and> r_address c = f_address f \<and> ?fend \<le> cmd_end c)"
      by (rule Cons.IH [OF ds(1) Cons.prems(2) new(1,2) near_fields_one [OF Cons.prems(2) f(1)] new(3) rest(1) Cons.prems(8) rest(3,4,5)])
    have "cmd_ok limit gap all a \<lparr>r_area = a, r_address = start, r_count = fin - start\<rparr>"
      using Cons.prems(3-5) by (simp add: cmd_ok_def cmd_end_def)
    moreover obtain c where "c \<in> set ds" "r_area c = a" "r_address c = f_address f" "?fend \<le> cmd_end c" using ih by blast
    then have "\<exists>c \<in> set ds. covers c f" using f by (intro bexI [of _ c]) (simp_all add: covers_def)
    moreover have "\<exists>c \<in> set cs. r_area c = a \<and> r_address c = start \<and> fin \<le> cmd_end c" by (simp add: ds(2) cmd_end_def)
    ultimately show ?thesis using ih unfolding ds(2) by simp
  qed
qed

lemma plan_loop_total:
  "\<forall>f \<in> set fs. word_count f \<le> limit \<Longrightarrow> \<exists>cs. plan_loop a limit gap fs start fin = Inr cs"
proof (induction fs arbitrary: start fin)
  case (Cons f fs)
  have ih: "\<exists>cs. plan_loop a limit gap fs s e = Inr cs" for s e by (rule Cons.IH) (use Cons.prems in simp)
  obtain cs where cs: "plan_loop a limit gap fs (f_address f) (f_address f + word_count f) = Inr cs" using ih by blast
  obtain ds where ds: "plan_loop a limit gap fs start (max fin (f_address f + word_count f)) = Inr ds" using ih by blast
  have "span a f limit = Inr (word_count f)" using Cons.prems by (simp add: span_def)
  then show ?case by (simp add: cs ds Let_def)
qed simp

lemma plan_loop_sizes: "plan_loop a limit gap fs start fin = Inr cs \<Longrightarrow> \<forall>f \<in> set fs. word_count f \<le> limit"
proof (induction fs arbitrary: start fin cs)
  case (Cons f fs)
  have size: "word_count f \<le> limit" "span a f limit = Inr (word_count f)" using Cons.prems by (auto simp: span_def split: if_splits)
  then have "\<exists>s e ds. plan_loop a limit gap fs s e = Inr ds"
    using Cons.prems by (auto simp: Let_def sbind_eq_Inr split: if_splits)
  then show ?case using Cons.IH size(1) by auto
qed simp

section \<open>The whole plan\<close>

text \<open>The plan of the fields \<open>all\<close>: every command is fine in its area and every field is read by one.\<close>

definition plan_ok :: "int \<Rightarrow> 'r mfield list \<Rightarrow> read_command list \<Rightarrow> bool" where
  "plan_ok gap all cs \<longleftrightarrow>
     (\<forall>c \<in> set cs. cmd_ok (area_limit (r_area c)) gap (set (filter (\<lambda>f. f_area f = r_area c) all)) (r_area c) c) \<and>
     (\<forall>f \<in> set all. \<exists>c \<in> set cs. covers c f)"

lemma plan_area_ok:
  assumes "plan_area a fs gap = Inr cs" and "fs \<noteq> []" and "0 \<le> gap" and "sorted (map f_address fs)"
    and "\<forall>f \<in> set fs. f_area f = a \<and> 0 < word_count f"
  shows "(\<forall>c \<in> set cs. cmd_ok (area_limit a) gap (set fs) a c) \<and> (\<forall>f \<in> set fs. \<exists>c \<in> set cs. covers c f)"
proof -
  obtain f gs where fs: "fs = f # gs" using assms(2) by (cases fs) auto
  let ?fend = "end_address f"
  have size: "word_count f \<le> area_limit a" and loop: "plan_loop a (area_limit a) gap gs (f_address f) ?fend = Inr cs"
    using assms(1) by (auto simp: plan_area_def fs Let_def span_def end_address_def split: if_splits)
  have f: "f \<in> set fs" "0 < word_count f" "f_area f = a" using assms(5) by (simp_all add: fs)
  have ends: "ends_at (set fs) (f_address f) ?fend" using f by (auto simp: ends_at_def end_address_def intro!: bexI [of _ f])
  have "(\<forall>c \<in> set cs. cmd_ok (area_limit a) gap (set fs) a c) \<and> (\<forall>f \<in> set gs. \<exists>c \<in> set cs. covers c f) \<and>
      (\<exists>c \<in> set cs. r_area c = a \<and> r_address c = f_address f \<and> ?fend \<le> cmd_end c)"
    by (rule plan_loop_ok [OF loop assms(3) _ _ near_fields_one [OF assms(3) f(1)] ends])
      (use assms(4,5) size f(2) in \<open>auto simp: fs end_address_def\<close>)
  moreover from this obtain c where "c \<in> set cs" "r_area c = a" "r_address c = f_address f" "?fend \<le> cmd_end c" by blast
  then have "\<exists>c \<in> set cs. covers c f" using f(3) by (intro bexI [of _ c]) (simp_all add: covers_def)
  ultimately show ?thesis by (simp add: fs)
qed

lemma plan_area_sizes:
  assumes "fs \<noteq> []"
  shows "(\<exists>cs. plan_area a fs gap = Inr cs) \<longleftrightarrow> (\<forall>f \<in> set fs. word_count f \<le> area_limit a)"
proof -
  obtain f gs where fs: "fs = f # gs" using assms by (cases fs) auto
  show ?thesis
    using plan_loop_total [of gs "area_limit a" a gap] plan_loop_sizes [of a "area_limit a" gap gs]
    by (auto simp: plan_area_def fs span_def Let_def)
qed

lemma sfold_concat_smap:
  "sfold (\<lambda>x s. sbind (g x) (\<lambda>ys. Inr (s @ ys))) xs s = sbind (smap g xs) (\<lambda>yss. Inr (s @ concat yss))"
proof (induction xs arbitrary: s)
  case (Cons x xs)
  show ?case
  proof (cases "g x")
    case (Inr y)
    then show ?thesis using Cons by (cases "smap g xs") simp_all
  qed simp
qed simp

lemma smap_Inr_all2: "smap g xs = Inr ys \<Longrightarrow> list_all2 (\<lambda>x y. g x = Inr y) xs ys"
  by (induction xs arbitrary: ys) (auto simp: sbind_eq_Inr)

lemma smap_succeeds: "(\<exists>ys. smap g xs = Inr ys) \<longleftrightarrow> (\<forall>x \<in> set xs. \<exists>y. g x = Inr y)"
proof (induction xs)
  case (Cons x xs)
  show ?case
  proof (cases "g x")
    case (Inr y)
    then show ?thesis using Cons by (cases "smap g xs") auto
  qed simp
qed simp

text \<open>The fields of one area in address order, and the plan of that area.\<close>

definition area_fields :: "'r mfield list \<Rightarrow> area \<Rightarrow> 'r mfield list" where
  "area_fields fs a = sort_key f_address (filter (\<lambda>f. f_area f = a) fs)"

definition area_plan :: "int \<Rightarrow> 'r mfield list \<Rightarrow> area \<Rightarrow> plan_error + read_command list" where
  "area_plan gap fs a = (if area_fields fs a = [] then Inr [] else plan_area a (area_fields fs a) gap)"

definition selected :: "'r device_info \<Rightarrow> 'r mfield list option \<Rightarrow> 'r mfield list" where
  "selected info only = (case only of None \<Rightarrow> dvals (d_fields info) | Some fs \<Rightarrow> fs)"

lemma set_area_fields [simp]: "set (area_fields fs a) = {f \<in> set fs. f_area f = a}"
  by (simp add: area_fields_def)

lemma plan_reads_areas:
  "plan_reads info only gap =
     (if gap < 0 then Inl (NegativeGap gap) else sbind (smap (area_plan gap (selected info only)) areas) (\<lambda>css. Inr (concat css)))"
proof -
  have "(\<lambda>a commands.
        let in_area = sort_key f_address (filter (\<lambda>f. f_area f = a) fs)
        in if in_area = [] then Inr commands else sbind (plan_area a in_area gap) (\<lambda>cs. Inr (commands @ cs))) =
      (\<lambda>a s. sbind (area_plan gap fs a) (\<lambda>ys. Inr (s @ ys)))" for fs :: "'a mfield list"
    by (simp add: fun_eq_iff area_plan_def area_fields_def Let_def)
  then show ?thesis by (simp add: plan_reads_def selected_def [symmetric] sfold_concat_smap)
qed

lemma plan_reads_ok:
  assumes "plan_reads info only gap = Inr cs" and "\<forall>f \<in> set (selected info only). 0 < word_count f"
  shows "0 \<le> gap" and "plan_ok gap (selected info only) cs"
proof -
  let ?fs = "selected info only"
  show gap: "0 \<le> gap" using assms(1) by (simp add: plan_reads_areas split: if_splits)
  obtain css where css: "smap (area_plan gap ?fs) areas = Inr css" "cs = concat css"
    using assms(1) by (auto simp: plan_reads_areas sbind_eq_Inr split: if_splits)
  have all2: "list_all2 (\<lambda>a y. area_plan gap ?fs a = Inr y) areas css" using smap_Inr_all2 [OF css(1)] .
  have one: "(\<forall>c \<in> set y. cmd_ok (area_limit a) gap (set (area_fields ?fs a)) a c) \<and>
      (\<forall>f \<in> set (area_fields ?fs a). \<exists>c \<in> set y. covers c f)" if "area_plan gap ?fs a = Inr y" for a y
  proof (cases "area_fields ?fs a = []")
    case True
    then show ?thesis using that by (simp add: area_plan_def del: set_area_fields)
  next
    case False
    then have eq: "plan_area a (area_fields ?fs a) gap = Inr y" using that by (simp add: area_plan_def)
    show ?thesis by (rule plan_area_ok [OF eq False gap]) (use assms(2) in \<open>simp_all add: area_fields_def\<close>)
  qed
  show "plan_ok gap ?fs cs"
    unfolding plan_ok_def
  proof (intro conjI ballI)
    fix c assume "c \<in> set cs"
    then obtain y where y: "y \<in> set css" "c \<in> set y" by (auto simp: css(2))
    then obtain a where "area_plan gap ?fs a = Inr y" using all2 by (auto simp: list_all2_conv_all_nth in_set_conv_nth)
    then have "cmd_ok (area_limit a) gap (set (area_fields ?fs a)) a c" using one y(2) by blast
    then show "cmd_ok (area_limit (r_area c)) gap (set (filter (\<lambda>f. f_area f = r_area c) ?fs)) (r_area c) c"
      by (auto simp: cmd_ok_def)
  next
    fix f assume f: "f \<in> set ?fs"
    obtain y where y: "y \<in> set css" "area_plan gap ?fs (f_area f) = Inr y"
    proof -
      obtain i where i: "i < length areas" "areas ! i = f_area f"
        using in_areas [of "f_area f"] unfolding in_set_conv_nth by blast
      then have "i < length css" "area_plan gap ?fs (f_area f) = Inr (css ! i)"
        using all2 by (auto simp: list_all2_conv_all_nth)
      then show ?thesis using that [of "css ! i"] by simp
    qed
    have "f \<in> set (area_fields ?fs (f_area f))" using f by simp
    then have "\<exists>c \<in> set y. covers c f" using one [OF y(2)] by blast
    then show "\<exists>c \<in> set cs. covers c f" using y(1) by (auto simp: css(2))
  qed
qed

lemma plan_reads_total:
  "(\<exists>cs. plan_reads info only gap = Inr cs) \<longleftrightarrow>
    0 \<le> gap \<and> (\<forall>f \<in> set (selected info only). word_count f \<le> area_limit (f_area f))"
proof -
  let ?fs = "selected info only"
  have one: "(\<exists>y. area_plan gap ?fs a = Inr y) \<longleftrightarrow> (\<forall>f \<in> set (area_fields ?fs a). word_count f \<le> area_limit a)" for a
    by (cases "area_fields ?fs a = []") (simp_all add: area_plan_def plan_area_sizes del: set_area_fields)
  have "(\<exists>cs. plan_reads info only gap = Inr cs) \<longleftrightarrow> 0 \<le> gap \<and> (\<exists>css. smap (area_plan gap ?fs) areas = Inr css)"
    by (auto simp: plan_reads_areas sbind_eq_Inr)
  also have "\<dots> \<longleftrightarrow> 0 \<le> gap \<and> (\<forall>f \<in> set ?fs. word_count f \<le> area_limit (f_area f))"
    by (auto simp: smap_succeeds one)
  finally show ?thesis .
qed

text \<open>The commands of a plan start at different addresses of their areas.\<close>

lemma plan_loop_starts:
  assumes "plan_loop a limit gap fs start fin = Inr cs" and "0 \<le> gap" and "start < fin"
    and "\<forall>f \<in> set fs. start \<le> f_address f \<and> 0 < word_count f" and "sorted (map f_address fs)"
  shows "(\<forall>c \<in> set cs. r_area c = a \<and> start \<le> r_address c) \<and> sorted_wrt (<) (map r_address cs)"
  using assms
proof (induction fs arbitrary: start fin cs)
  case (Cons f fs)
  let ?fend = "f_address f + word_count f"
  have size: "word_count f \<le> limit" "span a f limit = Inr (word_count f)" using Cons.prems(1) by (auto simp: span_def split: if_splits)
  have f: "start \<le> f_address f" "0 < word_count f" "\<forall>g \<in> set fs. start \<le> f_address g \<and> 0 < word_count g"
    "\<forall>g \<in> set fs. f_address f \<le> f_address g \<and> 0 < word_count g" "sorted (map f_address fs)" using Cons.prems(4,5) by auto
  show ?case
  proof (cases "f_address f - fin \<le> gap \<and> ?fend - start \<le> limit")
    case True
    have eq: "plan_loop a limit gap fs start (max fin ?fend) = Inr cs" using Cons.prems(1) True by (simp add: size)
    show ?thesis by (rule Cons.IH [OF eq Cons.prems(2) _ f(3,5)]) (use Cons.prems(3) in simp)
  next
    case False
    then have later: "start < f_address f" using f(1) size(1) Cons.prems(2,3) by auto
    obtain ds where ds: "plan_loop a limit gap fs (f_address f) ?fend = Inr ds"
      "cs = \<lparr>r_area = a, r_address = start, r_count = fin - start\<rparr> # ds"
      using Cons.prems(1) False by (auto simp: size Let_def sbind_eq_Inr split: if_splits)
    have "(\<forall>c \<in> set ds. r_area c = a \<and> f_address f \<le> r_address c) \<and> sorted_wrt (<) (map r_address ds)"
      by (rule Cons.IH [OF ds(1) Cons.prems(2) _ f(4,5)]) (use f(2) in simp)
    then show ?thesis using later unfolding ds(2) by fastforce
  qed
qed simp

lemma distinct_map_key:
  assumes "distinct (map g xs)" and "\<forall>x \<in> set xs. h x = a"
  shows "distinct (map (\<lambda>x. (h x, g x)) xs)"
  using assms by (auto simp: distinct_map inj_on_def)

lemma plan_area_starts:
  assumes "area_plan gap fs a = Inr cs" and "0 \<le> gap" and "\<forall>f \<in> set fs. 0 < word_count f"
  shows "(\<forall>c \<in> set cs. r_area c = a) \<and> distinct (map (\<lambda>c. (r_area c, r_address c)) cs)"
proof (cases "area_fields fs a")
  case Nil
  then show ?thesis using assms(1) by (simp add: area_plan_def)
next
  case (Cons f gs)
  have "f \<in> set (area_fields fs a)" "set gs \<subseteq> set (area_fields fs a)" using Cons by auto
  then have pos: "0 < word_count f" "\<forall>g \<in> set gs. 0 < word_count g" using assms(3) by auto
  have "sorted (map f_address (area_fields fs a))" by (simp add: area_fields_def)
  then have srt: "sorted (map f_address gs)" "\<forall>g \<in> set gs. f_address f \<le> f_address g" by (auto simp: Cons)
  have loop: "plan_loop a (area_limit a) gap gs (f_address f) (f_address f + word_count f) = Inr cs"
    using assms(1) by (auto simp: area_plan_def plan_area_def Cons Let_def span_def split: if_splits)
  have "(\<forall>c \<in> set cs. r_area c = a \<and> f_address f \<le> r_address c) \<and> sorted_wrt (<) (map r_address cs)"
    by (rule plan_loop_starts [OF loop assms(2)]) (use pos srt in auto)
  then show ?thesis using distinct_map_key [of r_address cs r_area a] strict_sorted_iff by blast
qed

lemma distinct_concat_parts:
  assumes "list_all2 (\<lambda>a ys. distinct (map k ys) \<and> (\<forall>y \<in> set ys. fst (k y) = a)) as yss" and "distinct as"
  shows "distinct (map k (concat yss)) \<and> fst ` k ` set (concat yss) \<subseteq> set as"
  using assms
proof (induction rule: list_all2_induct)
  case (Cons a as ys yss)
  then have ih: "distinct (map k (concat yss))" "fst ` k ` set (concat yss) \<subseteq> set as" "a \<notin> set as" by auto
  have ys: "distinct (map k ys)" "\<forall>y \<in> set ys. fst (k y) = a" using Cons.hyps by auto
  have "k ` set ys \<inter> k ` set (concat yss) = {}" 
  proof (rule equals0I)
    fix q assume "q \<in> k ` set ys \<inter> k ` set (concat yss)"
    then obtain y z where yz: "y \<in> set ys" "q = k y" "z \<in> set (concat yss)" "q = k z" by blast
    then have "fst q \<in> set as" using ih(2) by blast
    moreover have "fst q = a" using ys(2) yz(1,2) by blast
    ultimately show False using ih(3) by blast
  qed
  then have "distinct (map k (concat (ys # yss)))" using ys(1) ih(1) by simp
  moreover have "fst ` k ` set (concat (ys # yss)) \<subseteq> set (a # as)"
    using ys(2) ih(2) by (simp only: concat.simps set_append image_Un list.set) blast
  ultimately show ?case by blast
qed simp

lemma plan_reads_starts:
  assumes "plan_reads info only gap = Inr cs" and "\<forall>f \<in> set (selected info only). 0 < word_count f"
  shows "distinct (map (\<lambda>c. (r_area c, r_address c)) cs)"
proof -
  have gap: "0 \<le> gap" by (rule plan_reads_ok(1) [OF assms])
  obtain css where css: "smap (area_plan gap (selected info only)) areas = Inr css" "cs = concat css"
    using assms(1) by (auto simp: plan_reads_areas sbind_eq_Inr split: if_splits)
  have "list_all2 (\<lambda>a ys. distinct (map (\<lambda>c. (r_area c, r_address c)) ys) \<and> (\<forall>y \<in> set ys. fst (r_area y, r_address y) = a)) areas css"
    by (rule list_all2_mono [OF smap_Inr_all2 [OF css(1)]]) (use plan_area_starts [OF _ gap assms(2)] in auto)
  then show ?thesis using distinct_concat_parts [OF _ distinct_areas] unfolding css(2) by blast
qed

lemma plan_loop_area: "plan_loop a limit gap fs start fin = Inr cs \<Longrightarrow> c \<in> set cs \<Longrightarrow> r_area c = a"
proof (induction fs arbitrary: start fin cs)
  case (Cons f fs)
  then show ?case by (auto simp: Let_def sbind_eq_Inr split: if_splits)
qed simp

text \<open>A command starts at the address of a field and ends where a field ends.\<close>

lemma plan_loop_edges:
  assumes "plan_loop a limit gap fs start fin = Inr cs" and "c \<in> set cs"
  shows "r_address c \<in> insert start (f_address ` set fs)" and "cmd_end c \<in> insert fin (end_address ` set fs)"
proof -
  have "r_address c \<in> insert start (f_address ` set fs) \<and> cmd_end c \<in> insert fin (end_address ` set fs)"
    using assms
  proof (induction fs arbitrary: start fin cs)
    case Nil
    then show ?case by (auto simp: cmd_end_def)
  next
    case (Cons f fs)
    let ?fend = "f_address f + word_count f"
    have size: "span a f limit = Inr (word_count f)" using Cons.prems(1) by (auto simp: span_def split: if_splits)
    show ?case
    proof (cases "f_address f - fin \<le> gap \<and> ?fend - start \<le> limit")
      case True
      have "plan_loop a limit gap fs start (max fin ?fend) = Inr cs" using Cons.prems(1) True by (simp add: size)
      from Cons.IH [OF this Cons.prems(2)] show ?thesis by (auto simp: end_address_def max_def split: if_splits)
    next
      case False
      then obtain ds where ds: "plan_loop a limit gap fs (f_address f) ?fend = Inr ds"
        "cs = \<lparr>r_area = a, r_address = start, r_count = fin - start\<rparr> # ds"
        using Cons.prems(1) by (auto simp: size Let_def sbind_eq_Inr split: if_splits)
      show ?thesis
      proof (cases "c \<in> set ds")
        case True
        from Cons.IH [OF ds(1) True] show ?thesis by (auto simp: end_address_def)
      next
        case False
        then show ?thesis using Cons.prems(2) by (simp add: ds(2) cmd_end_def)
      qed
    qed
  qed
  then show "r_address c \<in> insert start (f_address ` set fs)" and "cmd_end c \<in> insert fin (end_address ` set fs)" by blast+
qed

lemma plan_reads_edges:
  assumes "plan_reads info only gap = Inr cs" and "c \<in> set cs"
  shows "\<exists>f \<in> set (selected info only). f_area f = r_area c \<and> f_address f = r_address c"
    and "\<exists>f \<in> set (selected info only). f_area f = r_area c \<and> end_address f = cmd_end c"
proof -
  let ?fs = "selected info only"
  obtain css where css: "smap (area_plan gap ?fs) areas = Inr css" "cs = concat css"
    using assms(1) by (auto simp: plan_reads_areas sbind_eq_Inr split: if_splits)
  have all2: "list_all2 (\<lambda>a y. area_plan gap ?fs a = Inr y) areas css" using smap_Inr_all2 [OF css(1)] .
  obtain y where y: "y \<in> set css" "c \<in> set y" using assms(2) by (auto simp: css(2))
  then obtain a where a: "area_plan gap ?fs a = Inr y" using all2 by (auto simp: list_all2_conv_all_nth in_set_conv_nth)
  show "\<exists>f \<in> set ?fs. f_area f = r_area c \<and> f_address f = r_address c"
    and "\<exists>f \<in> set ?fs. f_area f = r_area c \<and> end_address f = cmd_end c"
  proof -
    obtain f gs where fs: "area_fields ?fs a = f # gs"
      using a y(2) by (cases "area_fields ?fs a") (auto simp: area_plan_def)
    have loop: "plan_loop a (area_limit a) gap gs (f_address f) (end_address f) = Inr y"
      using a by (auto simp: area_plan_def plan_area_def fs Let_def span_def end_address_def split: if_splits)
    have sub: "insert f (set gs) = {g \<in> set ?fs. f_area g = a}" using fs set_area_fields [of ?fs a] by simp
    have area: "r_area c = a" using plan_loop_area [OF loop y(2)] .
    have "r_address c \<in> f_address ` insert f (set gs)" "cmd_end c \<in> end_address ` insert f (set gs)"
      using plan_loop_edges [OF loop y(2)] by simp_all
    then show "\<exists>f \<in> set ?fs. f_area f = r_area c \<and> f_address f = r_address c"
      and "\<exists>f \<in> set ?fs. f_area f = r_area c \<and> end_address f = cmd_end c" unfolding sub area by auto
  qed
qed

section \<open>Claims\<close>

text \<open>
  C20: planning raises exactly when the gap is negative or a field is larger than one command may be. Otherwise
  every field is read whole by one command, every command stays in one area, is not empty, asks for
  at most 125 registers or 2000 bits, and reads no address further than \<open>max_gap\<close> behind the end of a field
  it covers; with gap 0 it reads declared addresses only.
\<close>

theorem plan_reads_correct:
  fixes info :: "'r device_info"
  assumes "\<forall>f \<in> set (selected info only). 0 < word_count f"
  shows "((\<exists>cs. plan_reads info only gap = Inr cs) \<longleftrightarrow>
      0 \<le> gap \<and> (\<forall>f \<in> set (selected info only). word_count f \<le> area_limit (f_area f))) \<and>
    (\<forall>cs. plan_reads info only gap = Inr cs \<longrightarrow> plan_ok gap (selected info only) cs)"
  using plan_reads_total plan_reads_ok(2) [OF _ assms] by blast

text \<open>An example model: a register pair, a word after a small hole, one far away, and three coils.\<close>

definition sample_field :: "nat \<Rightarrow> area \<Rightarrow> int \<Rightarrow> data_type \<Rightarrow> int option \<Rightarrow> string \<Rightarrow> int mfield" where
  "sample_field oid a address ty n name = \<lparr>f_id = oid, f_area = a, f_address = address, f_type = ty, f_word_order = None,
     f_byte_order = None, f_scale = None, f_offset = None, f_count = n, f_name = name\<rparr>"

definition sample_info :: "int device_info" where
  "sample_info = \<lparr>d_cls = ''Inverter'', d_unit = 1, d_fields =
     [(''power'', sample_field 0 Holding 0 UInt32 None ''power''), (''state'', sample_field 1 Holding 5 UInt16 None ''state''),
      (''fault'', sample_field 2 Holding 300 UInt16 None ''fault''), (''relays'', sample_field 3 Coil 2 TBool (Some 3) ''relays'')],
     d_byte_order = Big, d_word_order = Big\<rparr>"

lemma plan_reads_correct_witness:
  "plan_reads sample_info None 8 = Inr [\<lparr>r_area = Coil, r_address = 2, r_count = 3\<rparr>,
      \<lparr>r_area = Holding, r_address = 0, r_count = 6\<rparr>, \<lparr>r_area = Holding, r_address = 300, r_count = 1\<rparr>] \<and>
    plan_ok 8 (selected sample_info None) [\<lparr>r_area = Coil, r_address = 2, r_count = 3\<rparr>,
      \<lparr>r_area = Holding, r_address = 0, r_count = 6\<rparr>, \<lparr>r_area = Holding, r_address = 300, r_count = 1\<rparr>]"
proof -
  have "plan_reads sample_info None 8 = Inr [\<lparr>r_area = Coil, r_address = 2, r_count = 3\<rparr>,
      \<lparr>r_area = Holding, r_address = 0, r_count = 6\<rparr>, \<lparr>r_area = Holding, r_address = 300, r_count = 1\<rparr>]"
    by code_simp
  moreover have "\<forall>f \<in> set (selected sample_info None). 0 < word_count f" by code_simp
  ultimately show ?thesis using plan_reads_correct [of sample_info None 8] by blast
qed

end
