(* ===== verification/Modbus_Codec.thy ===== *)
theory Modbus_Codec
  imports Modbus_Plan
begin

unbundle bit_operations_syntax

text \<open>
  Registers and typed values (\<open>xime/adapters/modbus/_codec.py\<close>). The conversions of pymodbus and Python's float
  arithmetic are the record \<open>lib\<close>; a bit on the wire is 0 or 1.
\<close>

section \<open>Values\<close>

datatype 'r mvalue = VInt int | VFloat 'r | VBool bool | VText string | VList "'r mvalue list"

record 'r lib =
  pm_from :: "data_type \<Rightarrow> order \<Rightarrow> int list \<Rightarrow> 'r mvalue option"
  pm_to :: "data_type \<Rightarrow> order \<Rightarrow> 'r mvalue \<Rightarrow> int list option"
  fl_of_int :: "int \<Rightarrow> 'r option"
  fl_parse :: "string \<Rightarrow> 'r option"
  fl_mul :: "'r \<Rightarrow> 'r \<Rightarrow> 'r"
  fl_add :: "'r \<Rightarrow> 'r \<Rightarrow> 'r"
  fl_sub :: "'r \<Rightarrow> 'r \<Rightarrow> 'r"
  fl_div :: "'r \<Rightarrow> 'r \<Rightarrow> 'r option"
  fl_round :: "'r \<Rightarrow> int option"

datatype codec_error =
    TooFewBits string int int
  | TooFewRegisters string int int
  | ReadOnlyField string area
  | TooManyRegisters string int int
  | WrongBitCount string int int
  | NotText string
  | NotCovered string area int
  | Raised

definition or_raise :: "'a option \<Rightarrow> codec_error + 'a" where
  "or_raise x = (case x of Some y \<Rightarrow> Inr y | None \<Rightarrow> Inl Raised)"

fun truthy :: "'r::zero mvalue \<Rightarrow> bool" where
  "truthy (VInt n) = (n \<noteq> 0)" | "truthy (VFloat x) = (x \<noteq> 0)" | "truthy (VBool b) = b"
| "truthy (VText s) = (s \<noteq> '''')" | "truthy (VList vs) = (vs \<noteq> [])"

fun to_float :: "'r lib \<Rightarrow> 'r mvalue \<Rightarrow> 'r option" where
  "to_float l (VInt n) = fl_of_int l n" | "to_float l (VFloat x) = Some x" | "to_float l (VBool b) = fl_of_int l (of_bool b)"
| "to_float l (VText s) = fl_parse l s" | "to_float l (VList vs) = None"

fun round_int :: "'r lib \<Rightarrow> 'r mvalue \<Rightarrow> int option" where
  "round_int l (VInt n) = Some n" | "round_int l (VFloat x) = fl_round l x" | "round_int l (VBool b) = Some (of_bool b)"
| "round_int l (VText s) = None" | "round_int l (VList vs) = None"

definition integer_types :: "data_type set" where
  "integer_types = {Int16, UInt16, Int32, UInt32, Int64, UInt64}"

definition swap_bytes :: "int list \<Rightarrow> int list" where
  "swap_bytes rs = map (\<lambda>r. push_bit 8 (r AND 255) OR (drop_bit 8 r AND 255)) rs"

section \<open>Decoding\<close>

definition decode_bits :: "'r mfield \<Rightarrow> int list \<Rightarrow> codec_error + 'r mvalue" where
  "decode_bits f raw =
     (let expected = word_count f
      in if int (length raw) < expected then Inl (TooFewBits (f_name f) expected (int (length raw)))
         else let bits = map (\<lambda>b. VBool (b \<noteq> 0)) (take (nat expected) raw)
              in Inr (if (case f_count f of Some n \<Rightarrow> n \<noteq> 0 \<and> 1 < n | None \<Rightarrow> False) then VList bits else hd bits))"

definition as_registers :: "'r mfield \<Rightarrow> int list \<Rightarrow> codec_error + int list" where
  "as_registers f raw =
     (if int (length raw) < word_count f then Inl (TooFewRegisters (f_name f) (word_count f) (int (length raw)))
      else Inr (take (nat (word_count f)) raw))"

definition apply_scale :: "'r lib \<Rightarrow> 'r mfield \<Rightarrow> 'r mvalue \<Rightarrow> codec_error + 'r mvalue" where
  "apply_scale l f v =
     (if f_scale f = None \<and> f_offset f = None then Inr v
      else sbind (or_raise (to_float l v)) (\<lambda>x.
        let y = (case f_scale f of Some s \<Rightarrow> fl_mul l x s | None \<Rightarrow> x)
        in Inr (VFloat (case f_offset f of Some d \<Rightarrow> fl_add l y d | None \<Rightarrow> y))))"

definition decode_field :: "'r lib \<Rightarrow> 'r mfield \<Rightarrow> 'r device_info \<Rightarrow> int list \<Rightarrow> codec_error + 'r mvalue" where
  "decode_field l f info raw =
     (if is_bit (f_area f) then decode_bits f raw
      else sbind (as_registers f raw) (\<lambda>rs.
        let rs = (if resolved_byte_order info f = Little then swap_bytes rs else rs)
        in sbind (or_raise (pm_from l (f_type f) (resolved_word_order info f) rs)) (\<lambda>v.
             if f_type f = Text then Inr v else apply_scale l f v)))"

section \<open>Encoding\<close>

definition encode_bits :: "'r::zero mfield \<Rightarrow> 'r mvalue \<Rightarrow> codec_error + int list" where
  "encode_bits f v =
     (let bits = (case v of VList vs \<Rightarrow> map truthy vs | _ \<Rightarrow> [truthy v])
      in if int (length bits) \<noteq> word_count f then Inl (WrongBitCount (f_name f) (word_count f) (int (length bits)))
         else Inr (map of_bool bits))"

definition unapply_scale :: "'r lib \<Rightarrow> 'r mfield \<Rightarrow> 'r mvalue \<Rightarrow> codec_error + 'r mvalue" where
  "unapply_scale l f v =
     (if f_type f = Text then (case v of VText s \<Rightarrow> Inr v | _ \<Rightarrow> Inl (NotText (f_name f)))
      else sbind (if f_scale f = None \<and> f_offset f = None then Inr v
                  else sbind (or_raise (to_float l v)) (\<lambda>x.
                    let y = (case f_offset f of Some d \<Rightarrow> fl_sub l x d | None \<Rightarrow> x)
                    in case f_scale f of None \<Rightarrow> Inr (VFloat y) | Some s \<Rightarrow> sbind (or_raise (fl_div l y s)) (\<lambda>z. Inr (VFloat z)))) (\<lambda>raw.
           if f_type f \<in> integer_types then sbind (or_raise (round_int l raw)) (\<lambda>n. Inr (VInt n))
           else sbind (or_raise (to_float l raw)) (\<lambda>x. Inr (VFloat x))))"

definition encode_field ::
  "'r lib \<Rightarrow> 'r::zero mfield \<Rightarrow> 'r device_info \<Rightarrow> 'r mvalue \<Rightarrow> bool \<Rightarrow> codec_error + int list" where
  "encode_field l f info v allow_read_only =
     (if \<not> writable (f_area f) \<and> \<not> allow_read_only then Inl (ReadOnlyField (f_name f) (f_area f))
      else if is_bit (f_area f) then encode_bits f v
      else sbind (unapply_scale l f v) (\<lambda>raw.
           sbind (or_raise (pm_to l (f_type f) (resolved_word_order info f) raw)) (\<lambda>rs.
             let rs = (if resolved_byte_order info f = Little then swap_bytes rs else rs); expected = word_count f
             in if expected < int (length rs) then Inl (TooManyRegisters (f_name f) (int (length rs)) expected)
                else Inr (rs @ replicate (nat (expected - int (length rs))) 0))))"

section \<open>Whole models\<close>

fun slice_for :: "'r mfield \<Rightarrow> (int, int list) dict \<Rightarrow> codec_error + int list" where
  "slice_for f [] = Inl (NotCovered (f_name f) (f_area f) (f_address f))"
| "slice_for f ((start, vs) # rest) =
     (if start \<le> f_address f \<and> end_address f \<le> start + int (length vs)
      then Inr (take (nat (word_count f)) (drop (nat (f_address f - start)) vs))
      else slice_for f rest)"

definition decode_device ::
  "'r lib \<Rightarrow> 'r device_info \<Rightarrow> (area, (int, int list) dict) dict \<Rightarrow> codec_error + (string \<times> 'r mvalue) list" where
  "decode_device l info payloads =
     smap (\<lambda>(name, f). sbind (slice_for f (dget_default [] payloads (f_area f))) (\<lambda>chunk.
       sbind (decode_field l f info chunk) (\<lambda>v. Inr (name, v)))) (d_fields info)"

section \<open>Round trips\<close>

lemma bit_above:
  fixes r :: int
  assumes "0 \<le> r" and "r < 2 ^ n" and "n \<le> m"
  shows "\<not> bit r m"
proof -
  have "r < 2 ^ m" using assms(2,3) by (meson less_le_trans one_le_numeral power_increasing)
  then show ?thesis using assms(1) by (simp add: bit_iff_odd)
qed

definition swap_register :: "int \<Rightarrow> int" where
  "swap_register r = push_bit 8 (r AND 255) OR (drop_bit 8 r AND 255)"

lemma bit_swap_register: "bit (swap_register r) n \<longleftrightarrow> (8 \<le> n \<and> n < 16 \<and> bit r (n - 8)) \<or> (n < 8 \<and> bit r (8 + n))"
proof -
  have "swap_register r = push_bit 8 (r AND mask 8) OR (drop_bit 8 r AND mask 8)"
    by (simp only: swap_register_def mask_eq_exp_minus_1) simp
  then show ?thesis by (auto simp: bit_or_iff bit_and_iff bit_push_bit_iff bit_drop_bit_eq bit_mask_iff possible_bit_def)
qed

lemma swap_register_twice:
  assumes "0 \<le> r" and "r < 65536"
  shows "swap_register (swap_register r) = r"
proof (rule bit_eqI)
  fix n
  have "16 \<le> n \<Longrightarrow> \<not> bit r n" using bit_above [of r 16 n] assms by simp
  moreover have "8 \<le> n \<Longrightarrow> 8 + (n - 8) = n" by simp
  ultimately show "bit (swap_register (swap_register r)) n = bit r n"
    unfolding bit_swap_register by (cases "n < 8"; cases "n < 16") auto
qed

lemma swap_bytes_twice: "\<forall>r \<in> set rs. 0 \<le> r \<and> r < 65536 \<Longrightarrow> swap_bytes (swap_bytes rs) = rs"
  unfolding swap_bytes_def swap_register_def [symmetric] by (simp add: swap_register_twice map_idI)

lemma length_swap_bytes [simp]: "length (swap_bytes rs) = length rs"
  by (simp add: swap_bytes_def)

text \<open>
  What pymodbus documents for the type of a field: the registers of a value it accepts are 16 bits each, as many
  as the type has, and convert regs to the value.
\<close>

definition converts :: "'r lib \<Rightarrow> data_type \<Rightarrow> order \<Rightarrow> 'r mvalue \<Rightarrow> bool" where
  "converts l ty wo v \<longleftrightarrow> (\<forall>rs. pm_to l ty wo v = Some rs \<longrightarrow>
     int (length rs) = type_words ty \<and> (\<forall>r \<in> set rs. 0 \<le> r \<and> r < 65536) \<and> pm_from l ty wo rs = Some v)"

text \<open>
  And for texts, which may be shorter than their field: the registers of an accepted text are 16 bits each, and zero
  registers behind them are dropped on the way back.
\<close>

definition converts_text :: "'r lib \<Rightarrow> order \<Rightarrow> string \<Rightarrow> bool" where
  "converts_text l wo s \<longleftrightarrow> (\<forall>rs. pm_to l Text wo (VText s) = Some rs \<longrightarrow>
     (\<forall>r \<in> set rs. 0 \<le> r \<and> r < 65536) \<and> (\<forall>n. pm_from l Text wo (rs @ replicate n 0) = Some (VText s)))"

text \<open>
  The values that survive the codec: bits, texts, integers and floats without scale and offset, and, under
  a scale or an offset, the floats that the float arithmetic and the rounding bring back. The library converts each.
\<close>

definition plain_value :: "'r lib \<Rightarrow> 'r device_info \<Rightarrow> 'r mfield \<Rightarrow> 'r mvalue \<Rightarrow> bool" where
  "plain_value l info f v \<longleftrightarrow>
     (let wo = resolved_word_order info f
      in if is_bit (f_area f)
      then (if count_or_one f = 1 then \<exists>b. v = VBool b else \<exists>bs. v = VList (map VBool bs) \<and> int (length bs) = count_or_one f)
      else if f_type f = Text then \<exists>s. v = VText s \<and> converts_text l wo s
      else if f_scale f = None \<and> f_offset f = None
      then (if f_type f \<in> integer_types then \<exists>n. v = VInt n else \<exists>x. v = VFloat x) \<and> converts l (f_type f) wo v
      else \<exists>x raw. v = VFloat x \<and> unapply_scale l f v = Inr raw \<and> converts l (f_type f) wo raw \<and> apply_scale l f raw = Inr v)"

lemma swap_bytes_append: "swap_bytes (rs @ replicate n 0) = swap_bytes rs @ replicate n 0"
  by (simp add: swap_bytes_def)

lemma plain_number:
  assumes "plain_value l info f v" and "\<not> is_bit (f_area f)" and "f_type f \<noteq> Text"
  obtains raw where "unapply_scale l f v = Inr raw" "converts l (f_type f) (resolved_word_order info f) raw" "apply_scale l f raw = Inr v"
proof (cases "f_scale f = None \<and> f_offset f = None")
  case True
  then have "converts l (f_type f) (resolved_word_order info f) v" "unapply_scale l f v = Inr v"
    using assms by (auto simp: plain_value_def unapply_scale_def or_raise_def split: if_splits)
  then show ?thesis using True that [of v] by (simp add: apply_scale_def)
next
  case False
  then show ?thesis using assms that by (auto simp: plain_value_def)
qed

lemma codec_roundtrip:
  assumes "encode_field l f info v ro = Inr payload" and "plain_value l info f v" and "0 < word_count f"
  shows "decode_field l f info payload = Inr v \<and> int (length payload) = word_count f"
proof (cases "is_bit (f_area f)")
  case True
  have wc: "word_count f = count_or_one f" using True by (simp add: word_count_def)
  have enc: "encode_bits f v = Inr payload" using assms(1) True by (simp add: encode_field_def split: if_splits)
  show ?thesis
  proof (cases "count_or_one f = 1")
    case one: True
    then obtain b where b: "v = VBool b" using assms(2) True by (auto simp: plain_value_def)
    then have "payload = [of_bool b]" using enc one wc by (simp add: encode_bits_def)
    then show ?thesis using True one wc b
      by (auto simp: decode_field_def decode_bits_def Let_def count_or_one_def split: option.splits if_splits)
  next
    case False
    then obtain bs where bs: "v = VList (map VBool bs)" "int (length bs) = count_or_one f" using assms(2) True by (auto simp: plain_value_def)
    then have pl: "payload = map of_bool bs" using enc wc by (simp add: encode_bits_def comp_def)
    have "1 < count_or_one f" using False assms(3) wc by simp
    then have "case f_count f of Some n \<Rightarrow> n \<noteq> 0 \<and> 1 < n | None \<Rightarrow> False" by (auto simp: count_or_one_def split: option.splits if_splits)
    then show ?thesis using True bs pl wc by (simp add: decode_field_def decode_bits_def comp_def)
  qed
next
  case reg: False
  let ?wo = "resolved_word_order info f"
  let ?swap = "\<lambda>rs. if resolved_byte_order info f = Little then swap_bytes rs else rs"
  show ?thesis
  proof (cases "f_type f = Text")
    case True
    obtain s where s: "v = VText s" "converts_text l ?wo s" using assms(2) reg True by (auto simp: plain_value_def)
    have un: "unapply_scale l f v = Inr v" using True s(1) by (simp add: unapply_scale_def)
    obtain rs where rs: "pm_to l Text ?wo v = Some rs"
      using assms(1) reg un True by (auto simp: encode_field_def or_raise_def split: option.splits if_splits)
    let ?pad = "replicate (nat (word_count f - int (length rs))) 0"
    have regs: "\<forall>r \<in> set rs. 0 \<le> r \<and> r < 65536" "pm_from l Text ?wo (rs @ ?pad) = Some v"
      using s rs by (auto simp: converts_text_def)
    have short: "int (length rs) \<le> word_count f" and payload: "payload = ?swap rs @ ?pad"
      using assms(1) reg un rs True by (auto simp: encode_field_def or_raise_def Let_def split: if_splits)
    then have len: "int (length payload) = word_count f" by simp
    moreover have "?swap payload = rs @ ?pad"
      using payload swap_bytes_twice [OF regs(1)] by (simp add: swap_bytes_append)
    ultimately show ?thesis using reg regs(2) True by (simp add: decode_field_def or_raise_def as_registers_def)
  next
    case num: False
    obtain raw where raw: "unapply_scale l f v = Inr raw" "converts l (f_type f) ?wo raw" "apply_scale l f raw = Inr v"
      by (rule plain_number [OF assms(2) reg num])
    have wc: "word_count f = type_words (f_type f)" using reg num by (simp add: word_count_def)
    obtain rs where rs: "pm_to l (f_type f) ?wo raw = Some rs"
      using assms(1) reg raw(1) by (auto simp: encode_field_def or_raise_def split: option.splits if_splits)
    have regs: "int (length rs) = type_words (f_type f)" "\<forall>r \<in> set rs. 0 \<le> r \<and> r < 65536" "pm_from l (f_type f) ?wo rs = Some raw"
      using raw(2) rs by (auto simp: converts_def)
    have payload: "payload = ?swap rs"
      using assms(1) reg raw(1) rs regs(1) wc by (simp add: encode_field_def or_raise_def Let_def split: if_splits)
    then have len: "int (length payload) = word_count f" using regs(1) wc by simp
    then have "as_registers f payload = Inr payload" by (simp add: as_registers_def)
    moreover have "?swap payload = rs" using payload swap_bytes_twice [OF regs(2)] by simp
    ultimately show ?thesis using reg regs(3) raw(3) num len by (simp add: decode_field_def or_raise_def)
  qed
qed

end
