(* ===== verification/Modbus_Client.thy ===== *)
theory Modbus_Client
  imports Modbus_Codec
begin

text \<open>
  Reading and writing devices: the shared connection (\<open>xime/adapters/modbus/_runtime.py\<close>) and the client
  (\<open>_client.py\<close>). What a device answers to a command is an argument; \<open>device_answer\<close> is one that has some addresses
  and refuses a command that asks for another.
\<close>

section \<open>The connection\<close>

datatype conn_error =
    NoAdapterServes
  | ConnectTimeout
  | NotAvailable
  | TransportFailed
  | NoResponse
  | DeviceRefused "int option"

record connection =
  k_attached :: bool
  k_served :: bool

definition mark_served :: "connection \<Rightarrow> connection" where "mark_served k = k\<lparr>k_served := True\<rparr>"
definition attach_client :: "connection \<Rightarrow> connection" where "attach_client k = k\<lparr>k_attached := True\<rparr>"
definition detach_client :: "connection \<Rightarrow> connection" where "detach_client k = k\<lparr>k_attached := False\<rparr>"

text \<open>How the wait for a client ends.\<close>

datatype waited = ClientCame | TimedOut | ClientGone

definition require_client :: "waited \<Rightarrow> connection \<Rightarrow> conn_error + unit" where
  "require_client w k =
     (if k_attached k then Inr ()
      else if \<not> k_served k then Inl NoAdapterServes
      else case w of ClientCame \<Rightarrow> Inr () | TimedOut \<Rightarrow> Inl ConnectTimeout | ClientGone \<Rightarrow> Inl NotAvailable)"

datatype reply = CallRaises | NoReply | Refusal "int option" | Answer "int list"

definition raise_for_error :: "reply \<Rightarrow> conn_error + int list" where
  "raise_for_error r =
     (case r of CallRaises \<Rightarrow> Inl TransportFailed | NoReply \<Rightarrow> Inl NoResponse
      | Refusal code \<Rightarrow> Inl (DeviceRefused code) | Answer vs \<Rightarrow> Inr vs)"

text \<open>The values are trimmed to the count: pymodbus pads bits to a multiple of eight.\<close>

definition conn_read :: "waited \<Rightarrow> connection \<Rightarrow> reply \<Rightarrow> int \<Rightarrow> conn_error + int list" where
  "conn_read w k r n = sbind (require_client w k) (\<lambda>_. sbind (raise_for_error r) (\<lambda>vs. Inr (take (nat n) vs)))"

text \<open>One register or coil has a function code of its own (6 and 5, otherwise 16 and 15).\<close>

record write_request =
  q_code :: int
  q_address :: int
  q_values :: "int list"

definition write_request_for :: "area \<Rightarrow> int \<Rightarrow> int list \<Rightarrow> write_request" where
  "write_request_for a address vs =
     \<lparr>q_code = (if is_bit a then (if length vs = 1 then 5 else 15) else if length vs = 1 then 6 else 16),
      q_address = address, q_values = vs\<rparr>"

definition conn_write :: "waited \<Rightarrow> connection \<Rightarrow> reply \<Rightarrow> conn_error + unit" where
  "conn_write w k r = sbind (require_client w k) (\<lambda>_. sbind (raise_for_error r) (\<lambda>_. Inr ()))"

section \<open>The client\<close>

datatype client_error = PlanFailed plan_error | ConnFailed conn_error | CodecFailed codec_error | NoOwner string

text \<open>The model a field object belongs to: its orders and its unit are those a field read alone goes by.\<close>

definition info_of :: "(nat, 'r device_info) dict \<Rightarrow> 'r mfield \<Rightarrow> client_error + 'r device_info" where
  "info_of owners f = (case dget owners (f_id f) of None \<Rightarrow> Inl (NoOwner (f_name f)) | Some info \<Rightarrow> Inr info)"

definition target_unit :: "int option \<Rightarrow> 'r device_info \<Rightarrow> int" where
  "target_unit unit info = (case unit of Some u \<Rightarrow> u | None \<Rightarrow> d_unit info)"

definition lift_left :: "('e \<Rightarrow> 'x) \<Rightarrow> 'e + 'a \<Rightarrow> 'x + 'a" where
  "lift_left f r = (case r of Inl e \<Rightarrow> Inl (f e) | Inr v \<Rightarrow> Inr v)"

definition add_payload :: "read_command \<Rightarrow> int list \<Rightarrow> (area, (int, int list) dict) dict \<Rightarrow> (area, (int, int list) dict) dict" where
  "add_payload c vs payloads = dset (r_area c) (dset (r_address c) vs (dget_default [] payloads (r_area c))) payloads"

text \<open>\<open>ask\<close> is the outcome of \<open>connection.read\<close> for a unit and a command; each command is sent once.\<close>

definition client_read ::
  "'r lib \<Rightarrow> 'r device_info \<Rightarrow> int option \<Rightarrow> int \<Rightarrow> (int \<Rightarrow> read_command \<Rightarrow> conn_error + int list)
    \<Rightarrow> client_error + (string \<times> 'r mvalue) list" where
  "client_read l info unit max_gap ask =
     sbind (lift_left PlanFailed (plan_reads info None max_gap)) (\<lambda>commands.
     sbind (sfold (\<lambda>c payloads. sbind (lift_left ConnFailed (ask (target_unit unit info) c)) (\<lambda>vs. Inr (add_payload c vs payloads))) commands [])
       (\<lambda>payloads. lift_left CodecFailed (decode_device l info payloads)))"

definition read_field ::
  "'r lib \<Rightarrow> (nat, 'r device_info) dict \<Rightarrow> 'r mfield \<Rightarrow> int option \<Rightarrow> (int \<Rightarrow> read_command \<Rightarrow> conn_error + int list)
    \<Rightarrow> client_error + 'r mvalue" where
  "read_field l owners f unit ask =
     sbind (info_of owners f) (\<lambda>info.
     sbind (lift_left ConnFailed (ask (target_unit unit info) \<lparr>r_area = f_area f, r_address = f_address f, r_count = word_count f\<rparr>)) (\<lambda>vs.
       lift_left CodecFailed (decode_field l f info vs)))"

text \<open>
  \<open>put\<close> is the outcome of \<open>connection.write_registers\<close> or \<open>write_coils\<close> for a unit; the requests sent are kept.
\<close>

definition client_write ::
  "'r lib \<Rightarrow> (nat, 'r::zero device_info) dict \<Rightarrow> 'r mfield \<Rightarrow> 'r mvalue \<Rightarrow> int option \<Rightarrow> (int \<Rightarrow> write_request \<Rightarrow> conn_error + unit)
    \<Rightarrow> (int \<times> write_request) list \<Rightarrow> client_error + (int \<times> write_request) list" where
  "client_write l owners f v unit put sent =
     sbind (info_of owners f) (\<lambda>info.
     sbind (lift_left CodecFailed (encode_field l f info v False)) (\<lambda>payload.
       let q = write_request_for (f_area f) (f_address f) payload; u = target_unit unit info
       in sbind (lift_left ConnFailed (put u q)) (\<lambda>_. Inr (sent @ [(u, q)]))))"

definition write_device ::
  "'r lib \<Rightarrow> (nat, 'r::zero device_info) dict \<Rightarrow> 'r device_info \<Rightarrow> (string \<Rightarrow> 'r mvalue option) \<Rightarrow> int option
    \<Rightarrow> (int \<Rightarrow> write_request \<Rightarrow> conn_error + unit) \<Rightarrow> client_error + (int \<times> write_request) list" where
  "write_device l owners info inst unit put =
     sfold (\<lambda>(name, f) sent.
       if \<not> writable (f_area f) then Inr sent
       else case inst name of None \<Rightarrow> Inr sent | Some v \<Rightarrow> client_write l owners f v unit put sent) (d_fields info) []"

section \<open>Reading a whole model\<close>

text \<open>The cells of a device memory.\<close>

definition cell_run :: "(area \<Rightarrow> int \<Rightarrow> int) \<Rightarrow> area \<Rightarrow> int \<Rightarrow> int \<Rightarrow> int list" where
  "cell_run mem a start n = map (\<lambda>i. mem a (start + int i)) [0..<nat n]"

lemma length_cells [simp]: "length (cell_run mem a start n) = nat n"
  by (simp add: cell_run_def)

lemma cells_part:
  assumes "0 \<le> k" and "0 \<le> n" and "k + n \<le> m"
  shows "take (nat n) (drop (nat k) (cell_run mem a start m)) = cell_run mem a (start + k) n"
  using assms by (intro nth_equalityI) (auto simp: cell_run_def algebra_simps)

lemma slice_for_ok:
  assumes "\<forall>(s, vs) \<in> set d. vs = cell_run mem (f_area f) s (int (length vs))"
    and "\<exists>(s, vs) \<in> set d. s \<le> f_address f \<and> end_address f \<le> s + int (length vs)" and "0 < word_count f"
  shows "slice_for f d = Inr (cell_run mem (f_area f) (f_address f) (word_count f))"
  using assms
proof (induction d)
  case (Cons x d)
  obtain s vs where x: "x = (s, vs)" by fastforce
  show ?case
  proof (cases "s \<le> f_address f \<and> end_address f \<le> s + int (length vs)")
    case True
    have vs: "vs = cell_run mem (f_area f) s (int (length vs))" using Cons.prems(1) x by auto
    have "take (nat (word_count f)) (drop (nat (f_address f - s)) (cell_run mem (f_area f) s (int (length vs)))) =
        cell_run mem (f_area f) (s + (f_address f - s)) (word_count f)"
      by (rule cells_part) (use True assms(3) in \<open>auto simp: end_address_def\<close>)
    then show ?thesis using True vs by (simp add: x)
  next
    case False
    then show ?thesis using Cons by (simp add: x) blast
  qed
qed simp

lemma get_none [simp]: "dget_default v [] k = v"
  by (simp add: dget_default_def)

lemma get_add_payload:
  "dget_default [] (add_payload c vs p) a =
    (if a = r_area c then dset (r_address c) vs (dget_default [] p a) else dget_default [] p a)"
  by (simp add: add_payload_def dget_default_def)

lemma set_dset_sub: "set (dset k v d) \<subseteq> insert (k, v) (set d)"
  by (induction d) auto

lemma payloads_fold:
  assumes "\<forall>c \<in> set cs. ask c = Inr (v c)" and "distinct (map (\<lambda>c. (r_area c, r_address c)) cs)"
  shows "\<exists>p'. sfold (\<lambda>c payloads. sbind (lift_left ConnFailed (ask c)) (\<lambda>vs. Inr (add_payload c vs payloads))) cs p = Inr p' \<and>
    (\<forall>c \<in> set cs. dget (dget_default [] p' (r_area c)) (r_address c) = Some (v c)) \<and>
    (\<forall>a s vs. (s, vs) \<in> set (dget_default [] p' a) \<longrightarrow>
       (s, vs) \<in> set (dget_default [] p a) \<or> (\<exists>c \<in> set cs. r_area c = a \<and> r_address c = s \<and> vs = v c)) \<and>
    (\<forall>a s. (a, s) \<notin> (\<lambda>c. (r_area c, r_address c)) ` set cs \<longrightarrow>
       dget (dget_default [] p' a) s = dget (dget_default [] p a) s)"
  using assms
proof (induction cs arbitrary: p)
  case (Cons c cs)
  let ?p = "add_payload c (v c) p"
  have rest: "\<forall>c \<in> set cs. ask c = Inr (v c)" "distinct (map (\<lambda>c. (r_area c, r_address c)) cs)"
    and fresh: "(r_area c, r_address c) \<notin> (\<lambda>c. (r_area c, r_address c)) ` set cs" using Cons.prems by auto
  obtain p' where p': "sfold (\<lambda>c payloads. sbind (lift_left ConnFailed (ask c)) (\<lambda>vs. Inr (add_payload c vs payloads))) cs ?p = Inr p'"
    and have_all: "\<forall>c \<in> set cs. dget (dget_default [] p' (r_area c)) (r_address c) = Some (v c)"
    and only: "\<forall>a s vs. (s, vs) \<in> set (dget_default [] p' a) \<longrightarrow>
       (s, vs) \<in> set (dget_default [] ?p a) \<or> (\<exists>c \<in> set cs. r_area c = a \<and> r_address c = s \<and> vs = v c)"
    and same: "\<forall>a s. (a, s) \<notin> (\<lambda>c. (r_area c, r_address c)) ` set cs \<longrightarrow>
       dget (dget_default [] p' a) s = dget (dget_default [] ?p a) s"
    using Cons.IH [OF rest, of ?p] by (elim exE conjE) (rule that)
  have "ask c = Inr (v c)" using Cons.prems by simp
  then have "sfold (\<lambda>c payloads. sbind (lift_left ConnFailed (ask c)) (\<lambda>vs. Inr (add_payload c vs payloads))) (c # cs) p = Inr p'"
    using p' by (simp add: lift_left_def)
  moreover have "dget (dget_default [] p' (r_area c)) (r_address c) = Some (v c)"
    using same fresh by (simp add: get_add_payload)
  moreover have "(s, vs) \<in> set (dget_default [] p a) \<or> (\<exists>d \<in> set (c # cs). r_area d = a \<and> r_address d = s \<and> vs = v d)"
    if entry: "(s, vs) \<in> set (dget_default [] p' a)" for a s vs
  proof -
    consider "(s, vs) \<in> set (dget_default [] ?p a)" | "\<exists>d \<in> set cs. r_area d = a \<and> r_address d = s \<and> vs = v d"
      using only entry by blast
    then show ?thesis
    proof cases
      case 1
      then show ?thesis
        using set_dset_sub [of "r_address c" "v c" "dget_default [] p a"] by (auto simp: get_add_payload split: if_splits)
    qed auto
  qed
  moreover have "dget (dget_default [] p' a) s = dget (dget_default [] p a) s"
    if "(a, s) \<notin> (\<lambda>c. (r_area c, r_address c)) ` set (c # cs)" for a s
  proof -
    have "dget (dget_default [] p' a) s = dget (dget_default [] ?p a) s" using same that by simp
    also have "\<dots> = dget (dget_default [] p a) s" using that by (auto simp: get_add_payload)
    finally show ?thesis .
  qed
  ultimately show ?case using have_all by (intro exI [of _ p']) (simp only: list.set ball_simps, blast)
qed simp

definition field_cells :: "(area \<Rightarrow> int \<Rightarrow> int) \<Rightarrow> 'r mfield \<Rightarrow> int list" where
  "field_cells mem f = cell_run mem (f_area f) (f_address f) (word_count f)"

text \<open>
  What a device does with a command, per unit: when every address of it exists the cells are the answer, and one that
  does not makes the whole command fail with ILLEGAL DATA ADDRESS (exception code 2).
\<close>

definition all_there :: "(area \<Rightarrow> int \<Rightarrow> bool) \<Rightarrow> read_command \<Rightarrow> bool" where
  "all_there here c = list_all (\<lambda>i. here (r_area c) (r_address c + int i)) [0..<nat (r_count c)]"

definition device_answer :: "(int \<Rightarrow> area \<Rightarrow> int \<Rightarrow> bool) \<Rightarrow> (int \<Rightarrow> area \<Rightarrow> int \<Rightarrow> int) \<Rightarrow> int \<Rightarrow> read_command \<Rightarrow> conn_error + int list" where
  "device_answer here mems u c =
     (if all_there (here u) c then Inr (cell_run (mems u) (r_area c) (r_address c) (r_count c)) else Inl (DeviceRefused (Some 2)))"

lemma all_there_iff: "all_there here c \<longleftrightarrow> (\<forall>x. r_address c \<le> x \<and> x < cmd_end c \<longrightarrow> here (r_area c) x)"
proof
  assume l: "all_there here c"
  show "\<forall>x. r_address c \<le> x \<and> x < cmd_end c \<longrightarrow> here (r_area c) x"
  proof (intro allI impI)
    fix x assume x: "r_address c \<le> x \<and> x < cmd_end c"
    then have "nat (x - r_address c) < nat (r_count c)" "r_address c + int (nat (x - r_address c)) = x" by (simp_all add: cmd_end_def)
    then show "here (r_area c) x" using l unfolding all_there_def list_all_iff by (metis atLeastLessThan_iff le0 set_upt)
  qed
qed (auto simp: all_there_def list_all_iff cmd_end_def)

lemma covered_there: "covers c f \<Longrightarrow> all_there here c \<Longrightarrow> all_there here \<lparr>r_area = f_area f, r_address = f_address f, r_count = word_count f\<rparr>"
  by (auto simp: all_there_iff covers_def cmd_end_def end_address_def)

lemma near_fields_there:
  assumes "plan_ok gap fs cs" and "\<forall>f \<in> set fs. \<forall>x. f_address f \<le> x \<and> x < end_address f + gap \<longrightarrow> here (f_area f) x"
  shows "list_all (all_there here) cs"
  unfolding list_all_iff
proof
  fix c assume c: "c \<in> set cs"
  then have near: "near_fields gap (set (filter (\<lambda>f. f_area f = r_area c) fs)) (r_address c) (cmd_end c)"
    using assms(1) by (auto simp: plan_ok_def cmd_ok_def)
  show "all_there here c"
    unfolding all_there_iff
  proof (intro allI impI)
    fix x assume "r_address c \<le> x \<and> x < cmd_end c"
    then obtain f where "f \<in> set fs" "f_area f = r_area c" "f_address f \<le> x" "x < end_address f + gap"
      using near unfolding near_fields_def by auto
    then show "here (r_area c) x" using assms(2) by force
  qed
qed

lemma asking_fails:
  assumes "\<forall>c \<in> set cs. ask c = Inr (v c) \<or> ask c = Inl e" and "\<exists>c \<in> set cs. ask c = Inl e"
  shows "sfold (\<lambda>c payloads. sbind (lift_left ConnFailed (ask c)) (\<lambda>vs. Inr (add_payload c vs payloads))) cs p = Inl (ConnFailed e)"
  using assms
proof (induction cs arbitrary: p)
  case (Cons c cs)
  show ?case
  proof (cases "ask c")
    case (Inl e')
    then show ?thesis using Cons.prems(1) by (simp add: lift_left_def)
  next
    case (Inr vs)
    then have "sfold (\<lambda>c payloads. sbind (lift_left ConnFailed (ask c)) (\<lambda>vs. Inr (add_payload c vs payloads))) cs (add_payload c vs p) = Inl (ConnFailed e)"
      by (intro Cons.IH) (use Cons.prems in auto)
    then show ?thesis using Inr by (simp add: lift_left_def)
  qed
qed simp

lemma smap_cong: "(\<And>x. x \<in> set xs \<Longrightarrow> g x = h x) \<Longrightarrow> smap g xs = smap h xs"
  by (induction xs) auto

lemma client_read_fields:
  assumes u_def: "u = target_unit unit info" and mem_def: "mem = mems u" and cs: "plan_reads info None gap = Inr cs" and there: "list_all (all_there (here u)) cs"
    and sizes: "\<forall>f \<in> set (dvals (d_fields info)). 0 < word_count f"
  shows "client_read l info unit gap (device_answer here mems) =
    lift_left CodecFailed (smap (\<lambda>(name, f). sbind (decode_field l f info (field_cells mem f)) (\<lambda>v. Inr (name, v))) (d_fields info))"
proof -
  have sel: "selected info None = dvals (d_fields info)" by (simp add: selected_def)
  let ?ask = "device_answer here mems u"
  have pos: "\<forall>f \<in> set (selected info None). 0 < word_count f" using sizes sel by auto
  let ?v = "\<lambda>c. cell_run mem (r_area c) (r_address c) (r_count c)"
  have asked: "\<forall>c \<in> set cs. ?ask c = Inr (?v c)"
    using there by (auto simp: device_answer_def list_all_iff mem_def u_def)
  obtain p where p: "sfold (\<lambda>c payloads. sbind (lift_left ConnFailed (?ask c)) (\<lambda>vs. Inr (add_payload c vs payloads))) cs [] = Inr p"
    and got: "\<forall>c \<in> set cs. dget (dget_default [] p (r_area c)) (r_address c) = Some (?v c)"
    and only: "\<forall>a s vs. (s, vs) \<in> set (dget_default [] p a) \<longrightarrow>
       (s, vs) \<in> set (dget_default [] [] a) \<or> (\<exists>c \<in> set cs. r_area c = a \<and> r_address c = s \<and> vs = ?v c)"
    using payloads_fold [OF asked plan_reads_starts [OF cs pos], of "[]"] by (elim exE conjE) (rule that)
  have chunk: "slice_for f (dget_default [] p (f_area f)) = Inr (field_cells mem f)" if f: "f \<in> set (dvals (d_fields info))" for f
  proof -
    obtain c where c: "c \<in> set cs" "covers c f" using plan_reads_ok(2) [OF cs pos] f sel by (auto simp: plan_ok_def)
    have count: "0 < r_count c" using plan_reads_ok(2) [OF cs pos] c(1) by (auto simp: plan_ok_def cmd_ok_def)
    have "(r_address c, ?v c) \<in> set (dget_default [] p (f_area f))"
      using got c map_of_SomeD [of "dget_default [] p (r_area c)" "r_address c" "?v c"] by (simp add: covers_def)
    moreover have "r_address c \<le> f_address f \<and> end_address f \<le> r_address c + int (length (?v c))"
      using c(2) count by (simp add: covers_def cmd_end_def)
    ultimately have cover: "\<exists>(s, vs) \<in> set (dget_default [] p (f_area f)). s \<le> f_address f \<and> end_address f \<le> s + int (length vs)" by blast
    have "vs = cell_run mem (f_area f) s (int (length vs))" if entry: "(s, vs) \<in> set (dget_default [] p (f_area f))" for s vs
    proof -
      obtain d where "d \<in> set cs" "r_area d = f_area f" "r_address d = s" "vs = ?v d"
        using only [rule_format, OF entry] by (auto simp: get_none)
      moreover from this have "0 < r_count d" using plan_reads_ok(2) [OF cs pos] by (auto simp: plan_ok_def cmd_ok_def)
      ultimately show ?thesis by simp
    qed
    then have "\<forall>(s, vs) \<in> set (dget_default [] p (f_area f)). vs = cell_run mem (f_area f) s (int (length vs))" by blast
    moreover have "0 < word_count f" using sizes f by blast
    ultimately show ?thesis unfolding field_cells_def by (intro slice_for_ok cover)
  qed
  have "decode_device l info p =
      smap (\<lambda>(name, f). sbind (decode_field l f info (field_cells mem f)) (\<lambda>v. Inr (name, v))) (d_fields info)"
    unfolding decode_device_def by (rule smap_cong) (use chunk in force)
  then show ?thesis using p by (simp add: client_read_def cs u_def lift_left_def [of PlanFailed])
qed

text \<open>The owner of a field goes by the same orders and the same unit as the model that is read.\<close>

definition alike_owner :: "(nat, 'r device_info) dict \<Rightarrow> int option \<Rightarrow> 'r device_info \<Rightarrow> 'r mfield \<Rightarrow> bool" where
  "alike_owner owners unit info f \<longleftrightarrow> (case dget owners (f_id f) of None \<Rightarrow> False
     | Some owner \<Rightarrow> resolved_byte_order owner f = resolved_byte_order info f \<and> resolved_word_order owner f = resolved_word_order info f \<and>
         target_unit unit owner = target_unit unit info)"

lemma new_fields_alike:
  assumes "device cls mro u bo wo owners = Inr (info, owners')" and "f \<in> set (dvals (d_fields info))" and "dget owners (f_id f) = None"
  shows "alike_owner owners' unit info f"
  using owner_after_claim [OF assms(2), of owners] assms(3) device_claims [OF assms(1)] by (simp add: alike_owner_def)

lemma decode_by_owner:
  assumes "resolved_byte_order owner f = resolved_byte_order info f" and "resolved_word_order owner f = resolved_word_order info f"
  shows "decode_field l f owner vs = decode_field l f info vs"
  using assms by (simp add: decode_field_def)

lemma read_field_there:
  assumes "alike_owner owners unit info f" and "all_there (here (target_unit unit info)) \<lparr>r_area = f_area f, r_address = f_address f, r_count = word_count f\<rparr>"
  shows "read_field l owners f unit (device_answer here mems) =
    lift_left CodecFailed (decode_field l f info (field_cells (mems (target_unit unit info)) f))"
proof -
  obtain owner where o: "dget owners (f_id f) = Some owner" "resolved_byte_order owner f = resolved_byte_order info f"
    "resolved_word_order owner f = resolved_word_order info f" "target_unit unit owner = target_unit unit info"
    using assms(1) by (auto simp: alike_owner_def split: option.splits)
  show ?thesis
    using assms(2) o(4) decode_by_owner [OF o(2,3)]
    by (simp add: read_field_def info_of_def o(1) device_answer_def lift_left_def [of ConnFailed] field_cells_def)
qed

lemma lift_smap:
  "lift_left CodecFailed (smap (\<lambda>(name, f). sbind (g f) (\<lambda>v. Inr (name, v))) fs) =
    smap (\<lambda>(name, f). sbind (lift_left CodecFailed (g f)) (\<lambda>v. Inr (name, v))) fs"
  by (induction fs) (auto simp: lift_left_def sbind_def split: sum.splits)

lemma whole_read_there:
  assumes "plan_reads info None gap = Inr cs" and "list_all (all_there (here (target_unit unit info))) cs"
    and "\<forall>f \<in> set (dvals (d_fields info)). 0 < word_count f \<and> alike_owner owners unit info f"
  shows "client_read l info unit gap (device_answer here mems) =
    smap (\<lambda>(name, f). sbind (read_field l owners f unit (device_answer here mems)) (\<lambda>v. Inr (name, v))) (d_fields info)"
proof -
  let ?mem = "mems (target_unit unit info)"
  have sizes: "\<forall>f \<in> set (dvals (d_fields info)). 0 < word_count f" using assms(3) by blast
  then have pos: "\<forall>f \<in> set (selected info None). 0 < word_count f" by (simp add: selected_def)
  have read: "read_field l owners f unit (device_answer here mems) = lift_left CodecFailed (decode_field l f info (field_cells ?mem f))"
    if f: "f \<in> set (dvals (d_fields info))" for f
  proof -
    obtain c where "c \<in> set cs" "covers c f" using plan_reads_ok(2) [OF assms(1) pos] f by (auto simp: plan_ok_def selected_def)
    then show ?thesis using covered_there assms(2,3) f by (intro read_field_there) (auto simp: list_all_iff)
  qed
  have "client_read l info unit gap (device_answer here mems) =
      smap (\<lambda>(name, f). sbind (lift_left CodecFailed (decode_field l f info (field_cells ?mem f))) (\<lambda>v. Inr (name, v))) (d_fields info)"
    unfolding client_read_fields [where u = "target_unit unit info" and mem = ?mem and mems = mems and here = here, OF refl refl assms(1,2) sizes]
    by (rule lift_smap)
  also have "\<dots> = smap (\<lambda>(name, f). sbind (read_field l owners f unit (device_answer here mems)) (\<lambda>v. Inr (name, v))) (d_fields info)"
    by (rule smap_cong) (use read in force)
  finally show ?thesis .
qed

lemma whole_read_refused:
  assumes "plan_reads info None gap = Inr cs" and "\<not> list_all (all_there (here (target_unit unit info))) cs"
  shows "client_read l info unit gap (device_answer here mems) = Inl (ConnFailed (DeviceRefused (Some 2)))"
proof -
  let ?u = "target_unit unit info"
  have "sfold (\<lambda>c payloads. sbind (lift_left ConnFailed (device_answer here mems ?u c)) (\<lambda>vs. Inr (add_payload c vs payloads))) cs [] =
      Inl (ConnFailed (DeviceRefused (Some 2)))"
    by (rule asking_fails [where v = "\<lambda>c. cell_run (mems ?u) (r_area c) (r_address c) (r_count c)"])
      (use assms(2) in \<open>auto simp: device_answer_def list_all_iff\<close>)
  then show ?thesis by (simp add: client_read_def assms(1) lift_left_def [of PlanFailed])
qed

section \<open>Claims\<close>

text \<open>
  C19: reading a whole model through the planned commands is the same as reading each of its fields with a command
  of its own, for every gap and with or without another unit: the same values in the order of the fields, or the
  same first error. A field never sees registers of another field, of the holes that were read along, or of another command.
  This holds when every planned address exists on the device; when one does not, a hole that is read along included,
  the device refuses its command and the whole read is that refusal. Every planned address exists when
  the fields do and each is followed by \<open>max_gap\<close> addresses that do, so with gap 0 declared addresses are enough.
  The owner of each field goes by the orders and the unit of the model: a field read alone is decoded by
  its owner, which for an inherited field is the first model that claimed it.
\<close>

theorem reading_a_model_is_reading_its_fields:
  assumes "0 \<le> gap" and "\<forall>f \<in> set (dvals (d_fields info)). 0 < word_count f \<and> word_count f \<le> area_limit (f_area f)"
    and "\<forall>f \<in> set (dvals (d_fields info)). alike_owner owners unit info f"
  shows "\<exists>commands. plan_reads info None gap = Inr commands \<and>
    client_read l info unit gap (device_answer here mems) =
      (if list_all (all_there (here (target_unit unit info))) commands
       then smap (\<lambda>(name, f). sbind (read_field l owners f unit (device_answer here mems)) (\<lambda>v. Inr (name, v))) (d_fields info)
       else Inl (ConnFailed (DeviceRefused (Some 2)))) \<and>
    ((\<forall>f \<in> set (dvals (d_fields info)). \<forall>x. f_address f \<le> x \<and> x < end_address f + gap \<longrightarrow> here (target_unit unit info) (f_area f) x) \<longrightarrow>
      list_all (all_there (here (target_unit unit info))) commands)"
proof -
  have sel: "selected info None = dvals (d_fields info)" by (simp add: selected_def)
  obtain cs where cs: "plan_reads info None gap = Inr cs" using plan_reads_total [of info None gap] assms(1,2) sel by auto
  have "plan_ok gap (dvals (d_fields info)) cs" using plan_reads_ok(2) [OF cs] assms(2) sel by auto
  note there = near_fields_there [OF this]
  have "\<forall>f \<in> set (dvals (d_fields info)). 0 < word_count f \<and> alike_owner owners unit info f" using assms(2,3) by blast
  then show ?thesis using cs there whole_read_there [OF cs] whole_read_refused [OF cs] by (intro exI [of _ cs]) simp
qed

text \<open>
  An example library: unsigned registers, texts of two characters a register, and floats that are integers.
\<close>

definition word_pair :: "order \<Rightarrow> int \<Rightarrow> int \<Rightarrow> int list" where
  "word_pair wo hi lo = (if wo = Big then [hi, lo] else [lo, hi])"

definition pair_word :: "order \<Rightarrow> int \<Rightarrow> int \<Rightarrow> int" where
  "pair_word wo x y = (if wo = Big then x * 65536 + y else y * 65536 + x)"

fun text_registers :: "int list \<Rightarrow> int list" where
  "text_registers [] = []" | "text_registers [x] = [x * 256]" | "text_registers (x # y # zs) = (x * 256 + y) # text_registers zs"

definition register_text :: "int list \<Rightarrow> string" where
  "register_text rs = map (\<lambda>n. char_of (nat n)) (filter (\<lambda>n. n \<noteq> 0) (concat (map (\<lambda>r. [r div 256, r mod 256]) rs)))"

definition in_words :: "int \<Rightarrow> int \<Rightarrow> bool" where
  "in_words n limit \<longleftrightarrow> 0 \<le> n \<and> n < limit"

definition sample_from :: "data_type \<Rightarrow> order \<Rightarrow> int list \<Rightarrow> int mvalue option" where
  "sample_from ty wo rs = (case (ty, rs) of (UInt16, [r]) \<Rightarrow> Some (VInt r) | (UInt32, [x, y]) \<Rightarrow> Some (VInt (pair_word wo x y))
     | (Float32, [x, y]) \<Rightarrow> Some (VFloat (pair_word wo x y)) | (Text, _) \<Rightarrow> Some (VText (register_text rs)) | _ \<Rightarrow> None)"

definition sample_to :: "data_type \<Rightarrow> order \<Rightarrow> int mvalue \<Rightarrow> int list option" where
  "sample_to ty wo v = (case (ty, v) of (UInt16, VInt n) \<Rightarrow> if in_words n 65536 then Some [n] else None
     | (UInt32, VInt n) \<Rightarrow> if in_words n 4294967296 then Some (word_pair wo (n div 65536) (n mod 65536)) else None
     | (Float32, VFloat n) \<Rightarrow> if in_words n 4294967296 then Some (word_pair wo (n div 65536) (n mod 65536)) else None
     | (Text, VText s) \<Rightarrow> Some (text_registers (map (\<lambda>c. int (of_char c)) s)) | _ \<Rightarrow> None)"

definition sample_lib :: "int lib" where
  "sample_lib = \<lparr>pm_from = sample_from, pm_to = sample_to,
     fl_of_int = Some, fl_parse = \<lambda>_. None, fl_mul = (*), fl_add = (+), fl_sub = (-), fl_div = \<lambda>x y. if y = 0 then None else Some (x div y),
     fl_round = Some\<rparr>"

definition sample_memory :: "int \<Rightarrow> area \<Rightarrow> int \<Rightarrow> int" where
  "sample_memory u a x = (if a = Holding then 1000 * u + x else x mod 2)"

definition sample_owners :: "(nat, int device_info) dict" where
  "sample_owners = claim_fields sample_info []"

definition no_holes :: "int \<Rightarrow> area \<Rightarrow> int \<Rightarrow> bool" where "no_holes u a x \<longleftrightarrow> 0 \<le> x"
definition small_hole :: "int \<Rightarrow> area \<Rightarrow> int \<Rightarrow> bool" where "small_hole u a x \<longleftrightarrow> 0 \<le> x \<and> x \<noteq> 3"

text \<open>
  A field object a second model inherits is read alone by the orders of the first model, also when \<open>unit\<close> is passed:
  the whole model and the field give two values.
\<close>

definition little_info :: "int device_info" where
  "little_info = sample_info\<lparr>d_cls := ''Little'', d_unit := 2, d_fields := [(''power'', sample_field 0 Holding 0 UInt32 None ''power'')], d_word_order := Little\<rparr>"

lemma inherited_field_keeps_its_first_orders:
  "read_field sample_lib (claim_fields little_info sample_owners) (sample_field 0 Holding 0 UInt32 None ''power'') (Some 2)
      (device_answer no_holes sample_memory) = Inr (VInt (2000 * 65536 + 2001)) \<and>
    client_read sample_lib little_info (Some 2) 8 (device_answer no_holes sample_memory) = Inr [(''power'', VInt (2001 * 65536 + 2000))]"
  by code_simp

lemma reading_a_model_is_reading_its_fields_witness:
  "client_read sample_lib sample_info None 8 (device_answer no_holes sample_memory) =
      Inr [(''power'', VInt (1000 * 65536 + 1001)), (''state'', VInt 1005), (''fault'', VInt 1300),
        (''relays'', VList [VBool False, VBool True, VBool False])] \<and>
    client_read sample_lib sample_info None 8 (device_answer small_hole sample_memory) = Inl (ConnFailed (DeviceRefused (Some 2)))"
proof -
  have h: "\<forall>f \<in> set (dvals (d_fields sample_info)). 0 < word_count f \<and> word_count f \<le> area_limit (f_area f)"
    "\<forall>f \<in> set (dvals (d_fields sample_info)). alike_owner sample_owners None sample_info f" by code_simp+
  have plan: "plan_reads sample_info None 8 = Inr [\<lparr>r_area = Coil, r_address = 2, r_count = 3\<rparr>,
      \<lparr>r_area = Holding, r_address = 0, r_count = 6\<rparr>, \<lparr>r_area = Holding, r_address = 300, r_count = 1\<rparr>]" (is "_ = Inr ?cs") by code_simp
  have gap: "(0 :: int) \<le> 8" by simp
  note all = reading_a_model_is_reading_its_fields [OF gap h, of sample_lib _ sample_memory, unfolded plan sum.inject ex_simps simp_thms]
  have "list_all (all_there (no_holes (target_unit None sample_info))) ?cs" "\<not> list_all (all_there (small_hole (target_unit None sample_info))) ?cs"
    by code_simp+
  then have "client_read sample_lib sample_info None 8 (device_answer no_holes sample_memory) =
      smap (\<lambda>(name, f). sbind (read_field sample_lib sample_owners f None (device_answer no_holes sample_memory)) (\<lambda>v. Inr (name, v))) (d_fields sample_info)"
    "client_read sample_lib sample_info None 8 (device_answer small_hole sample_memory) = Inl (ConnFailed (DeviceRefused (Some 2)))"
    using all [of no_holes] all [of small_hole] by auto
  moreover have "smap (\<lambda>(name, f). sbind (read_field sample_lib sample_owners f None (device_answer no_holes sample_memory)) (\<lambda>v. Inr (name, v))) (d_fields sample_info) =
      Inr [(''power'', VInt (1000 * 65536 + 1001)), (''state'', VInt 1005), (''fault'', VInt 1300),
        (''relays'', VList [VBool False, VBool True, VBool False])]" by code_simp
  ultimately show ?thesis by simp
qed

end
