(* ===== verification/Modbus_Server.thy ===== *)
theory Modbus_Server
  imports Modbus_Client
begin

text \<open>
  The other direction (\<open>xime/adapters/modbus/_server.py\<close>): the process answers masters. Handlers are
  grouped by unit and model; values are pushed into the served registers, and a write request of a
  master becomes calls of the handlers of the fields it covers. \<open>'h\<close> is a bound method.
\<close>

section \<open>Handlers\<close>

datatype 'r write_target = NotAField | FieldOf "'r mfield" "'r device_info option"

datatype 'r marked = Serve "'r device_info option" | OnWrite "'r write_target"

record ('r, 'h) served =
  v_info :: "'r device_info"
  v_provider :: "'h option"
  v_provider_name :: string
  v_writers :: "(string, 'h) dict"
  v_writer_names :: "(string, string) dict"

definition new_served :: "'r device_info \<Rightarrow> ('r, 'h) served" where
  "new_served info = \<lparr>v_info = info, v_provider = None, v_provider_name = '''', v_writers = [], v_writer_names = []\<rparr>"

datatype server_error =
    NotInContainer string
  | NotADeviceModel string
  | DuplicateServe string string string
  | InvalidWriteTarget string
  | OrphanField string
  | UnwritableTarget string area
  | NothingToServe

definition handler_name :: "string \<Rightarrow> string \<Rightarrow> string" where
  "handler_name cls attr = cls @ ''.'' @ attr"

definition add_provider ::
  "string \<Rightarrow> 'r device_info option \<Rightarrow> 'h \<Rightarrow> (string, ('r, 'h) served) dict \<Rightarrow> server_error + (string, ('r, 'h) served) dict" where
  "add_provider who model bound by_model =
     (case model of
        None \<Rightarrow> Inl (NotADeviceModel who)
      | Some info \<Rightarrow>
          let s = dget_default (new_served info) by_model (d_cls info)
          in if v_provider s \<noteq> None then Inl (DuplicateServe (d_cls info) (v_provider_name s) who)
             else Inr (dset (d_cls info) (s\<lparr>v_provider := Some bound, v_provider_name := who\<rparr>) by_model))"

definition add_writer ::
  "string \<Rightarrow> 'r write_target \<Rightarrow> 'h \<Rightarrow> (string, ('r, 'h) served) dict \<Rightarrow> server_error + (string, ('r, 'h) served) dict" where
  "add_writer who target bound by_model =
     (case target of
        NotAField \<Rightarrow> Inl (InvalidWriteTarget who)
      | FieldOf f None \<Rightarrow> Inl (OrphanField who)
      | FieldOf f (Some owner) \<Rightarrow>
          if \<not> writable (f_area f) then Inl (UnwritableTarget who (f_area f))
          else let s = dget_default (new_served owner) by_model (d_cls owner)
               in Inr (dset (d_cls owner) (s\<lparr>v_writers := dset (f_name f) bound (v_writers s),
                    v_writer_names := dset (f_name f) who (v_writer_names s)\<rparr>) by_model))"

record ('r, 'h) controller =
  c_name :: string
  c_in_container :: bool
  c_handlers :: "(string \<times> 'r marked \<times> 'h) list"

definition collect_one :: "('r, 'h) controller \<Rightarrow> (string, ('r, 'h) served) dict \<Rightarrow> server_error + (string, ('r, 'h) served) dict" where
  "collect_one c by_model =
     (if \<not> c_in_container c then Inl (NotInContainer (c_name c))
      else sfold (\<lambda>(attr, mark, bound) ms.
        case mark of Serve model \<Rightarrow> add_provider (handler_name (c_name c) attr) model bound ms
        | OnWrite target \<Rightarrow> add_writer (handler_name (c_name c) attr) target bound ms) (c_handlers c) by_model)"

definition collect_served :: "('r, 'h) controller list \<Rightarrow> server_error + (int, ('r, 'h) served list) dict" where
  "collect_served cs =
     sbind (sfold collect_one cs []) (\<lambda>by_model.
       Inr (fold (\<lambda>s units. dset (d_unit (v_info s)) (dget_default [] units (d_unit (v_info s)) @ [s]) units) (dvals by_model) []))"

definition start_server :: "('r, 'h) controller list \<Rightarrow> server_error + (int, ('r, 'h) served list) dict" where
  "start_server cs = sbind (collect_served cs) (\<lambda>units. if units = [] then Inl NothingToServe else Inr units)"

section \<open>Storage\<close>

definition area_size :: "('r, 'h) served list \<Rightarrow> area \<Rightarrow> int" where
  "area_size models a =
     fold (\<lambda>s n. fold (\<lambda>f n. if f_area f = a then max n (end_address f) else n) (dvals (d_fields (v_info s))) n) models 0"

text \<open>Sizes of the four blocks of a unit; an empty block has one cell.\<close>

definition block_sizes :: "('r, 'h) served list \<Rightarrow> (area \<times> int) list" where
  "block_sizes models = map (\<lambda>a. (a, if area_size models a = 0 then 1 else area_size models a)) [Coil, Discrete, Holding, Input]"

definition read_code :: "area \<Rightarrow> int" where
  "read_code a = (case a of Coil \<Rightarrow> 1 | Discrete \<Rightarrow> 2 | Holding \<Rightarrow> 3 | Input \<Rightarrow> 4)"

definition code_area :: "int \<Rightarrow> area option" where
  "code_area code =
     (if code \<in> {1, 5, 15} then Some Coil else if code = 2 then Some Discrete
      else if code \<in> {3, 6, 16} then Some Holding else if code = 4 then Some Input else None)"

definition set_values :: "int \<Rightarrow> int \<Rightarrow> int list \<Rightarrow> (area \<Rightarrow> int \<Rightarrow> int) \<Rightarrow> area \<Rightarrow> int \<Rightarrow> int" where
  "set_values code address vs mem =
     (\<lambda>a x. if code_area code = Some a \<and> address \<le> x \<and> x < address + int (length vs) then vs ! nat (x - address) else mem a x)"

definition store_field ::
  "'r lib \<Rightarrow> 'r::zero device_info \<Rightarrow> (string \<Rightarrow> 'r mvalue option) \<Rightarrow> string \<times> 'r mfield \<Rightarrow> (area \<Rightarrow> int \<Rightarrow> int) \<Rightarrow> area \<Rightarrow> int \<Rightarrow> int" where
  "store_field l info inst nf mem =
     (case nf of (name, f) \<Rightarrow>
        (case inst name of
           None \<Rightarrow> mem
         | Some v \<Rightarrow> (case encode_field l f info v True of
                        Inl _ \<Rightarrow> mem
                      | Inr payload \<Rightarrow> set_values (read_code (f_area f)) (f_address f) payload mem)))"

definition store_model ::
  "'r lib \<Rightarrow> 'r::zero device_info \<Rightarrow> (string \<Rightarrow> 'r mvalue option) \<Rightarrow> (area \<Rightarrow> int \<Rightarrow> int) \<Rightarrow> area \<Rightarrow> int \<Rightarrow> int" where
  "store_model l info inst mem = fold (store_field l info inst) (d_fields info) mem"

text \<open>
  One refresh. \<open>provide\<close> is what a handler returns: an exception and \<open>None\<close> both leave the registers alone.
\<close>

definition refresh_once ::
  "'r lib \<Rightarrow> ('h \<Rightarrow> (string \<Rightarrow> 'r mvalue option) option) \<Rightarrow> (int, ('r::zero, 'h) served list) dict
    \<Rightarrow> (int \<Rightarrow> area \<Rightarrow> int \<Rightarrow> int) \<Rightarrow> int \<Rightarrow> area \<Rightarrow> int \<Rightarrow> int" where
  "refresh_once l provide units mems =
     fold (\<lambda>(unit, models) mems. fold (\<lambda>s mems.
       case v_provider s of None \<Rightarrow> mems
       | Some h \<Rightarrow> (case provide h of None \<Rightarrow> mems
                    | Some inst \<Rightarrow> mems(unit := store_model l (v_info s) inst (mems unit)))) models mems) units mems"

section \<open>Writes of a master\<close>

definition slice_written :: "'r mfield \<Rightarrow> int \<Rightarrow> int list \<Rightarrow> int list option" where
  "slice_written f address vs =
     (if f_address f < address \<or> address + int (length vs) < end_address f then None
      else Some (take (nat (word_count f)) (drop (nat (f_address f - address)) vs)))"

definition write_codes :: "int set" where "write_codes = {5, 15, 6, 16}"

text \<open>The calls a write request makes, in order; a field that does not decode is logged and skipped.\<close>

definition writer_call ::
  "'r lib \<Rightarrow> 'r device_info \<Rightarrow> area \<Rightarrow> int \<Rightarrow> int list \<Rightarrow> string \<times> 'h \<Rightarrow> ('h \<times> 'r mvalue) list" where
  "writer_call l info a address vs wh =
     (case wh of (name, h) \<Rightarrow>
        (case dget (d_fields info) name of
           None \<Rightarrow> []
         | Some f \<Rightarrow>
             if f_area f \<noteq> a then []
             else (case slice_written f address vs of
                     None \<Rightarrow> []
                   | Some payload \<Rightarrow> (case decode_field l f info payload of Inl _ \<Rightarrow> [] | Inr v \<Rightarrow> [(h, v)]))))"

definition handle_write ::
  "'r lib \<Rightarrow> ('r, 'h) served list \<Rightarrow> int \<Rightarrow> int \<Rightarrow> int list \<Rightarrow> ('h \<times> 'r mvalue) list" where
  "handle_write l models code address vs =
     (case code_area code of
        None \<Rightarrow> []
      | Some a \<Rightarrow> if code \<notin> write_codes then []
                  else concat (map (\<lambda>s. concat (map (writer_call l (v_info s) a address vs) (v_writers s))) models))"

section \<open>Pushed values\<close>

lemma code_area_read [simp]: "code_area (read_code a) = Some a"
  by (cases a) (simp_all add: code_area_def read_code_def)

lemma set_values_own:
  "field_cells (set_values (read_code (f_area f)) (f_address f) vs mem) f = take (nat (word_count f)) vs"
  if "int (length vs) = word_count f"
  using that by (auto simp: field_cells_def cell_run_def set_values_def intro!: nth_equalityI)

lemma set_values_other:
  assumes "apart_fields f g" and "int (length vs) = word_count f"
  shows "field_cells (set_values (read_code (f_area f)) (f_address f) vs mem) g = field_cells mem g"
proof -
  have "set_values (read_code (f_area f)) (f_address f) vs mem (f_area g) (f_address g + int i) = mem (f_area g) (f_address g + int i)"
    if "i < nat (word_count g)" for i
    using assms that by (auto simp: set_values_def apart_fields_def end_address_def)
  then show ?thesis by (simp add: field_cells_def cell_run_def)
qed

text \<open>An instance that can be stored: every field holds a plain value that encodes.\<close>

definition storable :: "'r lib \<Rightarrow> 'r::zero device_info \<Rightarrow> (string \<Rightarrow> 'r mvalue option) \<Rightarrow> string \<times> 'r mfield \<Rightarrow> bool" where
  "storable l info inst nf \<longleftrightarrow> (case nf of (name, f) \<Rightarrow>
     \<exists>v payload. inst name = Some v \<and> plain_value l info f v \<and> encode_field l f info v True = Inr payload)"

lemma store_field_own:
  assumes "storable l info inst (name, f)" and "0 < word_count f"
  shows "decode_field l f info (field_cells (store_field l info inst (name, f) mem) f) = Inr (the (inst name))"
proof -
  obtain v payload where v: "inst name = Some v" "plain_value l info f v" "encode_field l f info v True = Inr payload"
    using assms(1) by (auto simp: storable_def)
  have r: "decode_field l f info payload = Inr v" "int (length payload) = word_count f"
    using codec_roundtrip [OF v(3,2) assms(2)] by simp_all
  then show ?thesis using v(1,3) by (simp add: store_field_def set_values_own)
qed

lemma store_field_other:
  assumes "storable l info inst (name, f)" and "0 < word_count f" and "apart_fields f g"
  shows "field_cells (store_field l info inst (name, f) mem) g = field_cells mem g"
proof -
  obtain v payload where v: "inst name = Some v" "plain_value l info f v" "encode_field l f info v True = Inr payload"
    using assms(1) by (auto simp: storable_def)
  then show ?thesis
    using codec_roundtrip [OF v(3,2) assms(2)] assms(3) by (simp add: store_field_def set_values_other)
qed

lemma stored_fields:
  assumes "\<forall>nf \<in> set fs. storable l info inst nf \<and> 0 < word_count (snd nf)"
    and "sorted_wrt apart_fields (map snd fs)"
  shows "(\<forall>(name, f) \<in> set fs. decode_field l f info (field_cells (fold (store_field l info inst) fs mem) f) = Inr (the (inst name))) \<and>
    (\<forall>g. (\<forall>f \<in> set (map snd fs). apart_fields f g) \<longrightarrow> field_cells (fold (store_field l info inst) fs mem) g = field_cells mem g)"
  using assms
proof (induction fs arbitrary: mem)
  case (Cons nf fs)
  obtain name f where nf: "nf = (name, f)" by fastforce
  let ?m = "store_field l info inst (name, f) mem"
  have f: "storable l info inst (name, f)" "0 < word_count f" using Cons.prems(1) nf by auto
  have rest: "\<forall>nf \<in> set fs. storable l info inst nf \<and> 0 < word_count (snd nf)" "sorted_wrt apart_fields (map snd fs)"
    using Cons.prems nf by auto
  have later: "\<forall>g \<in> set (map snd fs). apart_fields g f" using Cons.prems(2) nf by (auto simp: apart_fields_def)
  have ih: "(\<forall>(name, f) \<in> set fs. decode_field l f info (field_cells (fold (store_field l info inst) fs ?m) f) = Inr (the (inst name)))"
    "\<And>g. \<forall>f \<in> set (map snd fs). apart_fields f g \<Longrightarrow> field_cells (fold (store_field l info inst) fs ?m) g = field_cells ?m g"
    using Cons.IH [OF rest, of ?m] by blast+
  have "decode_field l f info (field_cells (fold (store_field l info inst) fs ?m) f) = Inr (the (inst name))"
    unfolding ih(2) [OF later] by (rule store_field_own [OF f])
  moreover have "field_cells (fold (store_field l info inst) fs ?m) g = field_cells mem g"
    if "\<forall>h \<in> set (map snd (nf # fs)). apart_fields h g" for g
    using that nf ih(2) [of g] store_field_other [OF f, of g] by simp
  ultimately show ?case using ih(1) nf by simp
qed simp

lemma distinct_by_groups: "(\<And>a. distinct (filter (\<lambda>x. h x = a) xs)) \<Longrightarrow> distinct xs"
proof (induction xs)
  case (Cons x xs)
  have "distinct (filter (\<lambda>y. h y = a) xs)" for a using Cons.prems [of a] by (simp split: if_splits)
  moreover have "x \<notin> set xs" using Cons.prems [of "h x"] by simp
  ultimately show ?case using Cons.IH by simp
qed simp

lemma distinct_pairwise: "distinct xs \<Longrightarrow> \<forall>x \<in> set xs. \<forall>y \<in> set xs. x \<noteq> y \<longrightarrow> P x y \<Longrightarrow> sorted_wrt P xs"
  by (induction xs) auto

lemma no_overlap_apart:
  assumes "check_no_overlap fs = Inr ()" and "\<forall>f \<in> set (dvals fs). 0 < word_count f"
  shows "sorted_wrt apart_fields (dvals fs)"
proof -
  let ?of = "\<lambda>a. filter (\<lambda>f. f_area f = a) (dvals fs)"
  have "distinct (?of a)" for a
  proof (cases "?of a = []")
    case False
    have pos: "\<forall>f \<in> set (sort_key f_address (?of a)). 0 < word_count f" using assms(2) by auto
    have "(a, ?of a) \<in> set (by_area (dvals fs))" unfolding by_area_items using False by blast
    then have "check_neighbours a (sort_key f_address (?of a)) = Inr ()"
      using assms(1) unfolding check_no_overlap_def sfold_checks by blast
    then have srt: "sorted_wrt (\<lambda>f g. end_address f \<le> f_address g) (sort_key f_address (?of a))"
      using check_neighbours_iff [OF sorted_sort_key pos] by blast
    have "distinct (sort_key f_address (?of a))"
      unfolding distinct_conv_nth
    proof (intro allI impI)
      fix i j assume ij: "i < length (sort_key f_address (?of a))" "j < length (sort_key f_address (?of a))" "i \<noteq> j"
      then have "sort_key f_address (?of a) ! i \<in> set (sort_key f_address (?of a))" "sort_key f_address (?of a) ! j \<in> set (sort_key f_address (?of a))"
        by (simp_all only: nth_mem)
      then have "0 < word_count (sort_key f_address (?of a) ! i)" "0 < word_count (sort_key f_address (?of a) ! j)" using pos by blast+
      then show "sort_key f_address (?of a) ! i \<noteq> sort_key f_address (?of a) ! j"
        using srt ij unfolding sorted_wrt_iff_nth_less end_address_def by (metis add_le_same_cancel1 linorder_neqE_nat not_le)
    qed
    then show ?thesis by simp
  qed simp
  then have d: "distinct (dvals fs)" by (rule distinct_by_groups)
  then have "\<forall>f \<in> set (dvals fs). \<forall>g \<in> set (dvals fs). f \<noteq> g \<longrightarrow> apart_fields f g"
    using check_no_overlap_iff [OF d assms(2)] assms(1) by blast
  with d show ?thesis by (rule distinct_pairwise)
qed

lemma smap_decode:
  assumes "\<forall>(name, f) \<in> set fs. decode_field l f info (field_cells mem f) = Inr (g name)"
  shows "smap (\<lambda>(name, f). sbind (decode_field l f info (field_cells mem f)) (\<lambda>v. Inr (name, v))) fs = Inr (map (\<lambda>(name, f). (name, g name)) fs)"
  using assms by (induction fs) auto

text \<open>The addresses of a unit that exist: each area has the cells its models need, and at least one.\<close>

definition served_at :: "('r, 'h) served list \<Rightarrow> area \<Rightarrow> int \<Rightarrow> bool" where
  "served_at models a x \<longleftrightarrow> 0 \<le> x \<and> x < dget_default 0 (block_sizes models) a"

lemma size_loop:
  "n \<le> fold (\<lambda>f n. if f_area f = a then max n (end_address f) else n) fs n \<and>
    (\<forall>f \<in> set fs. f_area f = a \<longrightarrow> end_address f \<le> fold (\<lambda>f n. if f_area f = a then max n (end_address f) else n) fs n)"
proof (induction fs arbitrary: n)
  case (Cons f fs)
  show ?case using Cons [of "if f_area f = a then max n (end_address f) else n"] by (auto split: if_splits)
qed simp

lemma size_covers:
  assumes "s \<in> set models" and "f \<in> set (dvals (d_fields (v_info s)))"
  shows "end_address f \<le> area_size models (f_area f)"
proof -
  let ?one = "\<lambda>s n. fold (\<lambda>f' n. if f_area f' = f_area f then max n (end_address f') else n) (dvals (d_fields (v_info s))) n"
  have grow: "n \<le> fold ?one ms n" for ms n
  proof (induction ms arbitrary: n)
    case (Cons m ms)
    show ?case using Cons [of "?one m n"] size_loop [of n "f_area f" "dvals (d_fields (v_info m))"] by simp
  qed simp
  have "end_address f \<le> fold ?one models n" for n
    using assms(1)
  proof (induction models arbitrary: n)
    case (Cons m ms)
    show ?case
    proof (cases "m = s")
      case True
      have "end_address f \<le> ?one s n" using size_loop [of n "f_area f" "dvals (d_fields (v_info s))"] assms(2) by blast
      then show ?thesis using grow [of "?one s n" ms] True by simp
    next
      case False
      then show ?thesis using Cons by simp
    qed
  qed simp
  then show ?thesis by (simp add: area_size_def)
qed

lemma block_size: "dget_default 0 (block_sizes models) a = (if area_size models a = 0 then 1 else area_size models a)"
  by (cases a) (simp_all add: block_sizes_def dget_default_def)

lemma plan_is_served:
  assumes "plan_reads info None gap = Inr cs" and "s \<in> set models" and "v_info s = info"
    and "\<forall>f \<in> set (dvals (d_fields info)). 0 \<le> f_address f"
  shows "list_all (all_there (served_at models)) cs"
  unfolding list_all_iff
proof
  fix c assume c: "c \<in> set cs"
  obtain f where f: "f \<in> set (dvals (d_fields info))" "f_address f = r_address c"
    using plan_reads_edges(1) [OF assms(1) c] by (auto simp: selected_def)
  obtain g where g: "g \<in> set (dvals (d_fields info))" "f_area g = r_area c" "end_address g = cmd_end c"
    using plan_reads_edges(2) [OF assms(1) c] by (auto simp: selected_def)
  have "0 \<le> r_address c" using f assms(4) by force
  moreover have "cmd_end c \<le> area_size models (r_area c)" using size_covers [OF assms(2), of g] g assms(3) by simp
  ultimately show "all_there (served_at models) c" by (auto simp: all_there_iff served_at_def block_size)
qed

lemma served_then_read:
  assumes "check_no_overlap (d_fields info) = Inr ()"
    and "\<forall>f \<in> set (dvals (d_fields info)). field_ok f \<and> word_count f \<le> area_limit (f_area f)"
    and "\<forall>nf \<in> set (d_fields info). storable l info inst nf"
    and "s \<in> set (models (target_unit unit info))" and "v_info s = info" and "0 \<le> gap"
    and mem: "mems (target_unit unit info) = store_model l info inst mem"
  shows "client_read l info unit gap (device_answer (\<lambda>u. served_at (models u)) mems) =
    Inr (map (\<lambda>(name, f). (name, the (inst name))) (d_fields info))"
proof -
  have pos: "\<forall>f \<in> set (dvals (d_fields info)). 0 < word_count f" using assms(2) by (auto simp: field_ok_def)
  then have "\<forall>nf \<in> set (d_fields info). storable l info inst nf \<and> 0 < word_count (snd nf)" using assms(3) by auto
  moreover have "sorted_wrt apart_fields (dvals (d_fields info))" by (rule no_overlap_apart [OF assms(1) pos])
  ultimately have "\<forall>(name, f) \<in> set (d_fields info).
      decode_field l f info (field_cells (store_model l info inst mem) f) = Inr (the (inst name))"
    using stored_fields [of "d_fields info" l info inst mem] unfolding store_model_def by blast
  note decoded = smap_decode [OF this]
  have "selected info None = dvals (d_fields info)" by (simp add: selected_def)
  then obtain cs where cs: "plan_reads info None gap = Inr cs" using plan_reads_total [of info None gap] assms(2,6) by auto
  have "list_all (all_there (served_at (models (target_unit unit info)))) cs"
    by (rule plan_is_served [OF cs assms(4,5)]) (use assms(2) in \<open>auto simp: field_ok_def\<close>)
  from client_read_fields [where here = "\<lambda>u. served_at (models u)" and u = "target_unit unit info" and mems = mems, OF refl mem [symmetric] cs this pos]
  show ?thesis by (simp add: decoded lift_left_def)
qed

section \<open>Accepted writes\<close>

lemma slice_written_own:
  "int (length vs) = word_count f \<Longrightarrow> slice_written f (f_address f) vs = Some vs"
  by (simp add: slice_written_def end_address_def)

lemma slice_written_apart:
  assumes "apart_fields f g" and "f_area g = f_area f" and "int (length vs) = word_count f" and "0 < word_count g" and "0 < word_count f"
  shows "slice_written g (f_address f) vs = None"
  using assms by (auto simp: slice_written_def apart_fields_def end_address_def)

lemma write_codes_area:
  "writable a \<Longrightarrow> code_area (q_code (write_request_for a x vs)) = Some a \<and> q_code (write_request_for a x vs) \<in> write_codes"
  by (cases a) (simp_all add: write_request_for_def code_area_def write_codes_def)

lemma concat_only:
  assumes "distinct (dkeys d)" and "\<And>k w. (k, w) \<in> set d \<Longrightarrow> k \<noteq> name \<Longrightarrow> g (k, w) = []"
  shows "concat (map g d) = (case dget d name of None \<Rightarrow> [] | Some w \<Rightarrow> g (name, w))"
  using assms
proof (induction d)
  case (Cons x d)
  obtain k w where x: "x = (k, w)" by fastforce
  have ih: "concat (map g d) = (case dget d name of None \<Rightarrow> [] | Some w \<Rightarrow> g (name, w))"
    by (rule Cons.IH) (use Cons.prems in auto)
  show ?case
  proof (cases "k = name")
    case True
    then have "dget d name = None" using Cons.prems(1) x by (auto simp: dget_None_keys)
    then show ?thesis using ih x True by simp
  next
    case False
    then have "g (k, w) = []" using Cons.prems(2) x by auto
    then show ?thesis using ih x False by simp
  qed
qed simp

lemma pairwise_apart:
  assumes "sorted_wrt apart_fields (dvals fs)" and "(m, f) \<in> set fs" and "(n, g) \<in> set fs" and "m \<noteq> n"
  shows "apart_fields f g"
proof -
  obtain i j where ij: "i < length fs" "fs ! i = (m, f)" "j < length fs" "fs ! j = (n, g)"
    using assms(2,3) unfolding in_set_conv_nth by blast
  then have at: "dvals fs ! i = f" "dvals fs ! j = g" "i < length (dvals fs)" "j < length (dvals fs)" by simp_all
  have "i \<noteq> j" using assms(4) ij by auto
  then consider "i < j" | "j < i" by linarith
  then have "apart_fields f g \<or> apart_fields g f"
    using assms(1) at unfolding sorted_wrt_iff_nth_less by cases blast+
  then show ?thesis by (auto simp: apart_fields_def)
qed

lemma write_reaches:
  assumes "check_no_overlap (d_fields info) = Inr ()" and "\<forall>f \<in> set (dvals (d_fields info)). 0 < word_count f"
    and "dget (d_fields info) name = Some f" and "plain_value l info f v" and "v_info s = info" and "distinct (dkeys (v_writers s))"
    and "alike_owner owners unit info f" and "client_write l owners f v unit (\<lambda>_ _. Inr ()) [] = Inr [(u, q)]"
  shows "u = target_unit unit info" and
    "handle_write l [s] (q_code q) (q_address q) (q_values q) = (case dget (v_writers s) name of Some h \<Rightarrow> [(h, v)] | None \<Rightarrow> [])"
proof -
  obtain owner where o: "dget owners (f_id f) = Some owner" "resolved_byte_order owner f = resolved_byte_order info f"
    "resolved_word_order owner f = resolved_word_order info f" "target_unit unit owner = target_unit unit info"
    using assms(7) by (auto simp: alike_owner_def split: option.splits)
  obtain payload where enc: "encode_field l f owner v False = Inr payload" and q: "q = write_request_for (f_area f) (f_address f) payload"
    and u: "u = target_unit unit owner"
    using assms(8) by (auto simp: client_write_def info_of_def o(1) lift_left_def Let_def split: sum.splits)
  show "u = target_unit unit info" using u o(4) by simp
  have enc: "encode_field l f info v False = Inr payload" using enc unfolding encode_field_def o(2,3) .
  have f: "(name, f) \<in> set (d_fields info)" using assms(3) by (rule map_of_SomeD)
  then have pos: "0 < word_count f" using assms(2) by auto
  have r: "decode_field l f info payload = Inr v" "int (length payload) = word_count f"
    using codec_roundtrip [OF enc assms(4) pos] by simp_all
  have w: "writable (f_area f)" using enc by (simp add: encode_field_def split: if_splits)
  have code: "code_area (q_code q) = Some (f_area f)" "q_code q \<in> write_codes" "q_address q = f_address f" "q_values q = payload"
    using write_codes_area [OF w] by (simp_all add: q) (simp_all add: write_request_for_def)
  have srt: "sorted_wrt apart_fields (dvals (d_fields info))" by (rule no_overlap_apart [OF assms(1,2)])
  let ?g = "writer_call l info (f_area f) (f_address f) payload"
  have own: "?g (name, h) = [(h, v)]" for h
    by (simp add: writer_call_def assms(3) slice_written_own [OF r(2)] r(1))
  have other: "?g (k, h) = []" if "k \<noteq> name" for k h
  proof (cases "dget (d_fields info) k")
    case (Some g)
    then have g: "(k, g) \<in> set (d_fields info)" by (rule map_of_SomeD)
    then have "apart_fields f g" "0 < word_count g" using pairwise_apart [OF srt f g] that assms(2) by auto
    then show ?thesis using slice_written_apart [of f g payload] Some r(2) pos by (simp add: writer_call_def)
  qed (simp add: writer_call_def)
  have "concat (map ?g (v_writers s)) = (case dget (v_writers s) name of None \<Rightarrow> [] | Some h \<Rightarrow> ?g (name, h))"
    by (rule concat_only [OF assms(6)]) (rule other)
  then show "handle_write l [s] (q_code q) (q_address q) (q_values q) = (case dget (v_writers s) name of Some h \<Rightarrow> [(h, v)] | None \<Rightarrow> [])"
    using code assms(5) by (simp add: handle_write_def own split: option.splits)
qed

section \<open>Claims\<close>

text \<open>
  C21: what a slave publishes is what a master reads. After an instance of a model the unit serves has been stored,
  a read of the whole model with any gap is not refused (the holes between the fields exist in the blocks of the slave)
  and returns, in the order of the fields, exactly the values of the instance: no field overwrites another, and byte order,
  word order, padding and trimming cancel out. The fields hold bits, texts, unscaled integers and floats the
  library converts, or, under a scale or an offset, floats that the rounding brings back; their spans were accepted by the class decorator.
\<close>

theorem served_values_are_read:
  assumes "device cls mro u bo wo owners = Inr (info, owners')"
    and "\<forall>f \<in> set (dvals (d_fields info)). field_ok f \<and> word_count f \<le> area_limit (f_area f)"
    and "\<forall>nf \<in> set (d_fields info). storable l info inst nf"
    and "s \<in> set (models u)" and "v_info s = info" and "0 \<le> gap"
  shows "client_read l info None gap (device_answer (\<lambda>u. served_at (models u)) (mems(u := store_model l info inst (mems u)))) =
    Inr (map (\<lambda>(name, f). (name, the (inst name))) (d_fields info))"
proof (rule served_then_read [OF device_cases(7) [OF assms(1)] assms(2,3) _ assms(5,6)])
  have "target_unit None info = u" using device_cases(2) [OF assms(1)] by (simp add: target_unit_def)
  then show "s \<in> set (models (target_unit None info))"
    and "(mems(u := store_model l info inst (mems u))) (target_unit None info) = store_model l info inst (mems u)" using assms(4) by simp_all
qed

text \<open>
  A value a master writes to a field is sent to the unit of the model and reaches the handler of that field, unchanged
  and once, and no handler of another field; without a handler nothing is called. The function code of the request
  depends on the area and on whether one cell or several are written.
\<close>
theorem written_value_reaches_its_handler:
  assumes "device cls mro u bo wo owners = Inr (info, owners')" and "\<forall>f \<in> set (dvals (d_fields info)). 0 < word_count f"
    and "dget (d_fields info) name = Some f" and "plain_value l info f v" and "v_info s = info" and "distinct (dkeys (v_writers s))"
    and "alike_owner owners' unit info f" and "client_write l owners' f v unit (\<lambda>_ _. Inr ()) [] = Inr [(u', q)]"
  shows "u' = target_unit unit info \<and>
    handle_write l [s] (q_code q) (q_address q) (q_values q) = (case dget (v_writers s) name of Some h \<Rightarrow> [(h, v)] | None \<Rightarrow> [])"
  using write_reaches [OF device_cases(7) [OF assms(1)] assms(2-8)] by blast

text \<open>
  An example: a level in tenths, a float after a hole, a text shorter than its field and three coils; the
  registers of the device have their low byte first.
\<close>

definition meter_fields :: "(string \<times> int mfield) list" where
  "meter_fields = [(''level'', (sample_field 10 Holding 0 UInt16 None ''level'')\<lparr>f_scale := Some 10\<rparr>),
     (''flow'', sample_field 11 Holding 2 Float32 None ''flow''), (''tag'', sample_field 12 Holding 6 Text (Some 3) ''tag''),
     (''relays'', sample_field 13 Coil 2 TBool (Some 3) ''relays'')]"

definition meter_info :: "int device_info" where
  "meter_info = \<lparr>d_cls = ''Meter'', d_unit = 4, d_fields = meter_fields, d_byte_order = Little, d_word_order = Big\<rparr>"

lemma meter_device: "device ''Meter'' [meter_fields] 4 ''little'' ''big'' [] = Inr (meter_info, claim_fields meter_info [])"
  by code_simp

definition meter_instance :: "string \<Rightarrow> int mvalue option" where
  "meter_instance name = (if name = ''level'' then Some (VFloat 70) else if name = ''flow'' then Some (VFloat 70000)
     else if name = ''tag'' then Some (VText ''abc'') else if name = ''relays'' then Some (VList [VBool True, VBool False, VBool True]) else None)"

lemma sample_converts: "converts sample_lib UInt16 wo (VInt n)" "converts sample_lib UInt32 wo (VInt n)" "converts sample_lib Float32 wo (VFloat n)"
proof -
  show "converts sample_lib UInt16 wo (VInt n)" by (simp add: converts_def sample_lib_def sample_to_def sample_from_def in_words_def)
  show "converts sample_lib UInt32 wo (VInt n)" "converts sample_lib Float32 wo (VFloat n)"
    by (cases wo; auto simp: converts_def sample_lib_def sample_to_def sample_from_def in_words_def word_pair_def pair_word_def split: if_splits)+
qed

lemma sample_text: "converts_text sample_lib wo ''abc''"
proof -
  have padding: "register_text (rs @ replicate n 0) = register_text rs" for rs n by (simp add: register_text_def)
  have "text_registers (map (\<lambda>c. int (of_char c)) ''abc'') = [24930, 25344]" "register_text [24930, 25344] = ''abc''" by code_simp+
  then show ?thesis
    unfolding converts_text_def sample_lib_def lib.simps sample_to_def sample_from_def by (simp add: padding [of "[24930, 25344]", simplified])
qed

lemma meter_storable: "\<forall>nf \<in> set (d_fields meter_info). storable sample_lib meter_info meter_instance nf"
proof -
  let ?level = "(sample_field 10 Holding 0 UInt16 None ''level'')\<lparr>f_scale := Some 10\<rparr>"
  let ?relays = "sample_field 13 Coil 2 TBool (Some 3) ''relays''"
  have "plain_value sample_lib meter_info ?level (VFloat 70)"
  proof -
    have "unapply_scale sample_lib ?level (VFloat 70) = Inr (VInt 7)" "apply_scale sample_lib ?level (VInt 7) = Inr (VFloat 70)" by code_simp+
    then show ?thesis using sample_converts(1) by (simp add: plain_value_def Let_def sample_field_def)
  qed
  moreover have "plain_value sample_lib meter_info (sample_field 11 Holding 2 Float32 None ''flow'') (VFloat 70000)"
    by (simp add: plain_value_def Let_def sample_field_def integer_types_def sample_converts)
  moreover have "plain_value sample_lib meter_info (sample_field 12 Holding 6 Text (Some 3) ''tag'') (VText ''abc'')"
    using sample_text by (simp add: plain_value_def Let_def sample_field_def)
  moreover have "plain_value sample_lib meter_info ?relays (VList (map VBool [True, False, True]))"
  proof -
    have "is_bit (f_area ?relays)" "count_or_one ?relays = 3" by (simp_all add: sample_field_def count_or_one_def)
    then show ?thesis unfolding plain_value_def by (simp del: list.map) (rule exI [of _ "[True, False, True]"], simp)
  qed
  moreover have "encode_field sample_lib ?level meter_info (VFloat 70) True = Inr [1792]"
    "encode_field sample_lib (sample_field 11 Holding 2 Float32 None ''flow'') meter_info (VFloat 70000) True = Inr [256, 28689]"
    "encode_field sample_lib (sample_field 12 Holding 6 Text (Some 3) ''tag'') meter_info (VText ''abc'') True = Inr [25185, 99, 0]"
    "encode_field sample_lib ?relays meter_info (VList (map VBool [True, False, True])) True = Inr [1, 0, 1]" by code_simp+
  ultimately show ?thesis by (simp add: meter_info_def meter_fields_def storable_def meter_instance_def)
qed

lemma served_values_are_read_witness:
  "client_read sample_lib meter_info None 8
      (device_answer (\<lambda>u. served_at [new_served meter_info :: (int, nat) served])
        (sample_memory(4 := store_model sample_lib meter_info meter_instance (sample_memory 4)))) =
    Inr [(''level'', VFloat 70), (''flow'', VFloat 70000), (''tag'', VText ''abc''), (''relays'', VList [VBool True, VBool False, VBool True])]"
proof -
  have "\<forall>f \<in> set (dvals (d_fields meter_info)). field_ok f \<and> word_count f \<le> area_limit (f_area f)" by code_simp
  then have "client_read sample_lib meter_info None 8
      (device_answer (\<lambda>u. served_at [new_served meter_info :: (int, nat) served])
        (sample_memory(4 := store_model sample_lib meter_info meter_instance (sample_memory 4)))) =
      Inr (map (\<lambda>(name, f). (name, the (meter_instance name))) (d_fields meter_info))"
    by (intro served_values_are_read [OF meter_device _ meter_storable, where s = "new_served meter_info"]) (simp_all add: new_served_def)
  then show ?thesis by (simp add: meter_info_def meter_fields_def meter_instance_def)
qed

lemma written_value_reaches_its_handler_witness:
  "handle_write sample_lib [(new_served meter_info)\<lparr>v_writers := [(''tag'', 7 :: nat), (''flow'', 8)]\<rparr>] 16 2 [256, 28689] = [(8, VFloat 70000)]"
proof -
  let ?f = "sample_field 11 Holding 2 Float32 None ''flow''"
  let ?q = "\<lparr>q_code = 16, q_address = 2, q_values = [256, 28689]\<rparr>"
  let ?s = "(new_served meter_info)\<lparr>v_writers := [(''tag'', 7 :: nat), (''flow'', 8)]\<rparr>"
  have "\<forall>f \<in> set (dvals (d_fields meter_info)). 0 < word_count f" by code_simp
  moreover have "dget (d_fields meter_info) ''flow'' = Some ?f" by code_simp
  moreover have "plain_value sample_lib meter_info ?f (VFloat 70000)"
    by (simp add: plain_value_def Let_def sample_field_def integer_types_def sample_converts)
  moreover have "alike_owner (claim_fields meter_info []) None meter_info ?f" by code_simp
  moreover have "client_write sample_lib (claim_fields meter_info []) ?f (VFloat 70000) None (\<lambda>_ _. Inr ()) [] = Inr [(4, ?q)]" by code_simp
  ultimately have "4 = target_unit None meter_info \<and> handle_write sample_lib [?s] (q_code ?q) (q_address ?q) (q_values ?q) =
      (case dget (v_writers ?s) ''flow'' of Some h \<Rightarrow> [(h, VFloat 70000)] | None \<Rightarrow> [])"
    by (intro written_value_reaches_its_handler [OF meter_device]) (simp_all add: new_served_def)
  then show ?thesis by simp
qed

end
