(* ===== verification/Modbus_Poll.thy ===== *)
theory Modbus_Poll
  imports Modbus_Codec
begin

text \<open>
  The polling master: the poll table (\<open>xime/adapters/modbus/routing/_builder.py\<close>) and the change
  detection of a poll loop (\<open>_adapter.py\<close>). Intervals are of an ordered type \<open>'i\<close>; Python's \<open>!=\<close> and the
  comparison with the deadband are the record \<open>py_num\<close>.
\<close>

section \<open>The poll table\<close>

text \<open>What \<open>inspect\<close> reports of a bound handler, and what its decorator recorded.\<close>

datatype ('r, 'i) poll_mark =
    Poll "'r device_info option" "'i option"
  | OnChange "('r mfield \<times> 'r device_info option) option" "'r option"
  | SlaveMark

record ('r, 'i, 'h) poll_handler =
  p_attr :: string
  p_mark :: "('r, 'i) poll_mark"
  p_bound :: 'h
  p_coroutine :: bool
  p_params :: "string list"
  p_annotation :: "string option"

record ('r, 'i, 'h) poll_controller =
  pc_name :: string
  pc_in_container :: bool
  pc_handlers :: "('r, 'i, 'h) poll_handler list"

datatype poll_error =
    PollNotInContainer string
  | NotCoroutine string string
  | NotAModel string string
  | BadInterval string string
  | BadSignature string string "string list"
  | WrongAnnotation string string string
  | NotAModelField string string
  | BadDeadband string string
  | FieldWithoutModel string string

record 'h resolved_poll =
  rp_bound :: 'h
  rp_wants_device :: bool

record ('r, 'h) change_watch =
  w_field :: "'r mfield"
  w_owner :: "'r device_info option"
  w_bound :: 'h
  w_handler :: string
  w_deadband :: "'r option"
  w_wants_device :: bool

record ('r, 'i, 'h) poll_group =
  g_info :: "'r device_info"
  g_interval :: 'i
  g_polls :: "'h resolved_poll list"
  g_watches :: "('r, 'h) change_watch list"

type_synonym ('r, 'i, 'h) poll_groups = "(string \<times> 'i, ('r, 'i, 'h) poll_group) dict"

text \<open>One parameter, or two of which the second is named \<open>device\<close>; an annotation must be the polled model.\<close>

definition check_signature :: "string \<Rightarrow> ('r, 'i, 'h) poll_handler \<Rightarrow> string option \<Rightarrow> poll_error + bool" where
  "check_signature cls h expected =
     (let wants = (length (p_params h) = 2 \<and> p_params h ! 1 = ''device'')
      in if length (p_params h) \<noteq> 1 \<and> \<not> wants then Inl (BadSignature cls (p_attr h) (p_params h))
         else case (expected, p_annotation h) of
                (Some model, Some a) \<Rightarrow> if a \<noteq> model then Inl (WrongAnnotation cls (p_attr h) a) else Inr wants
              | _ \<Rightarrow> Inr wants)"

definition new_group :: "'r device_info \<Rightarrow> 'i \<Rightarrow> ('r, 'i, 'h) poll_group" where
  "new_group info interval = \<lparr>g_info = info, g_interval = interval, g_polls = [], g_watches = []\<rparr>"

definition add_poll ::
  "'i::{linorder,zero} \<Rightarrow> string \<Rightarrow> ('r, 'i, 'h) poll_handler \<Rightarrow> 'r device_info option \<Rightarrow> 'i option \<Rightarrow> ('r, 'i, 'h) poll_groups
    \<Rightarrow> poll_error + ('r, 'i, 'h) poll_groups" where
  "add_poll default_interval cls h model interval groups =
     (case model of
        None \<Rightarrow> Inl (NotAModel cls (p_attr h))
      | Some info \<Rightarrow>
          let every = (case interval of Some i \<Rightarrow> i | None \<Rightarrow> default_interval)
          in if every \<le> 0 then Inl (BadInterval cls (p_attr h))
             else sbind (check_signature cls h (Some (d_cls info))) (\<lambda>wants.
               let g = dget_default (new_group info every) groups (d_cls info, every)
               in Inr (dset (d_cls info, every) (g\<lparr>g_polls := g_polls g @ [\<lparr>rp_bound = p_bound h, rp_wants_device = wants\<rparr>]\<rparr>) groups)))"

definition resolve_watch ::
  "('r \<Rightarrow> bool) \<Rightarrow> string \<Rightarrow> ('r, 'i, 'h) poll_handler \<Rightarrow> ('r mfield \<times> 'r device_info option) option \<Rightarrow> 'r option
    \<Rightarrow> poll_error + ('r, 'h) change_watch" where
  "resolve_watch negative cls h target deadband =
     (case target of
        None \<Rightarrow> Inl (NotAModelField cls (p_attr h))
      | Some (f, owner) \<Rightarrow>
          if (case deadband of Some d \<Rightarrow> negative d | None \<Rightarrow> False) then Inl (BadDeadband cls (p_attr h))
          else sbind (check_signature cls h None) (\<lambda>wants.
            Inr \<lparr>w_field = f, w_owner = owner, w_bound = p_bound h, w_handler = p_attr h, w_deadband = deadband, w_wants_device = wants\<rparr>))"

text \<open>A watch joins the fastest loop of its model (the first of equally fast ones) or becomes a loop of its own.\<close>

definition fastest :: "('r, 'i::linorder, 'h) poll_groups \<Rightarrow> string \<Rightarrow> (string \<times> 'i) option" where
  "fastest groups cls =
     (case filter (\<lambda>(k, g). fst k = cls) groups of
        [] \<Rightarrow> None
      | (k, g) # rest \<Rightarrow> Some (fst (fold (\<lambda>(k', g') (k, g). if g_interval g' < g_interval g then (k', g') else (k, g)) rest (k, g))))"

definition attach_watch ::
  "'i::{linorder,zero} \<Rightarrow> string \<times> ('r, 'h) change_watch \<Rightarrow> ('r, 'i, 'h) poll_groups \<Rightarrow> poll_error + ('r, 'i, 'h) poll_groups" where
  "attach_watch default_interval cw groups =
     (case cw of (cls, w) \<Rightarrow>
        (case w_owner w of
           None \<Rightarrow> Inl (FieldWithoutModel cls (w_handler w))
         | Some info \<Rightarrow>
             let k = (case fastest groups (d_cls info) of Some k \<Rightarrow> k | None \<Rightarrow> (d_cls info, default_interval));
                 g = dget_default (new_group info default_interval) groups k
             in Inr (dset k (g\<lparr>g_watches := g_watches g @ [w]\<rparr>) groups)))"

definition add_handler ::
  "'i::{linorder,zero} \<Rightarrow> ('r \<Rightarrow> bool) \<Rightarrow> string \<Rightarrow> ('r, 'i, 'h) poll_handler \<Rightarrow> ('r, 'i, 'h) poll_groups \<times> (string \<times> ('r, 'h) change_watch) list
    \<Rightarrow> poll_error + ('r, 'i, 'h) poll_groups \<times> (string \<times> ('r, 'h) change_watch) list" where
  "add_handler default_interval negative cls h st =
     (case st of (groups, pending) \<Rightarrow>
        if \<not> p_coroutine h then Inl (NotCoroutine cls (p_attr h))
        else case p_mark h of
               Poll model interval \<Rightarrow> sbind (add_poll default_interval cls h model interval groups) (\<lambda>gs. Inr (gs, pending))
             | OnChange target deadband \<Rightarrow> sbind (resolve_watch negative cls h target deadband) (\<lambda>w. Inr (groups, pending @ [(cls, w)]))
             | SlaveMark \<Rightarrow> Inr (groups, pending))"

definition build_polls ::
  "'i::{linorder,zero} \<Rightarrow> ('r \<Rightarrow> bool) \<Rightarrow> ('r, 'i, 'h) poll_controller list \<Rightarrow> poll_error + ('r, 'i, 'h) poll_group list" where
  "build_polls default_interval negative cs =
     sbind (sfold (\<lambda>c st. if \<not> pc_in_container c then Inl (PollNotInContainer (pc_name c))
                          else sfold (add_handler default_interval negative (pc_name c)) (pc_handlers c) st) cs ([], [])) (\<lambda>(groups, pending).
     sbind (sfold (attach_watch default_interval) pending groups) (\<lambda>groups. Inr (dvals groups)))"

section \<open>Change detection\<close>

text \<open>\<open>differ\<close> is \<open>!=\<close>, \<open>farther\<close> is \<open>abs(current - before) > deadband\<close>, \<open>positive\<close> is \<open>> 0\<close>.\<close>

record 'r py_num =
  differ :: "'r mvalue option \<Rightarrow> 'r mvalue option \<Rightarrow> bool"
  farther :: "'r mvalue \<Rightarrow> 'r mvalue \<Rightarrow> 'r \<Rightarrow> bool"
  positive :: "'r \<Rightarrow> bool"

fun numeric :: "'r mvalue \<Rightarrow> bool" where
  "numeric (VInt n) = True" | "numeric (VFloat x) = True" | "numeric _ = False"

definition has_changed :: "'r py_num \<Rightarrow> 'r mvalue option \<Rightarrow> 'r mvalue option \<Rightarrow> 'r option \<Rightarrow> bool" where
  "has_changed nm before current deadband =
     (case deadband of
        None \<Rightarrow> differ nm before current
      | Some d \<Rightarrow>
          if \<not> positive nm d then differ nm before current
          else (case (before, current) of
                  (Some b, Some c) \<Rightarrow> if numeric b \<and> numeric c then farther nm b c d else differ nm before current
                | _ \<Rightarrow> differ nm before current))"

text \<open>
  One reading: for each watch the value before is looked up and replaced, then the handler is called if the
  value changed. A call is the position of its watch and the new value. \<open>previous\<close> lives as long as the loop.
\<close>

type_synonym 'r previous = "(string, 'r mvalue option) dict"

definition fire_one ::
  "'r py_num \<Rightarrow> (string, 'r mvalue) dict \<Rightarrow> nat \<times> ('r, 'h) change_watch \<Rightarrow> 'r previous \<times> (nat \<times> 'r mvalue option) list
    \<Rightarrow> 'r previous \<times> (nat \<times> 'r mvalue option) list" where
  "fire_one nm inst iw st =
     (case (iw, st) of ((i, w), (previous, calls)) \<Rightarrow>
        let name = f_name (w_field w); current = dget inst name; before = dget previous name
        in (dset name current previous,
            case before of
              None \<Rightarrow> calls
            | Some b \<Rightarrow> if has_changed nm b current (w_deadband w) then calls @ [(i, current)] else calls))"

definition fire_changes ::
  "'r py_num \<Rightarrow> ('r, 'h) change_watch list \<Rightarrow> (string, 'r mvalue) dict \<Rightarrow> 'r previous \<Rightarrow> 'r previous \<times> (nat \<times> 'r mvalue option) list" where
  "fire_changes nm ws inst previous = fold (fire_one nm inst) (enumerate 0 ws) (previous, [])"

text \<open>The loop: a failed reading (\<open>None\<close>) is logged and leaves the values before alone.\<close>

fun run_group ::
  "'r py_num \<Rightarrow> ('r, 'h) change_watch list \<Rightarrow> (string, 'r mvalue) dict option list \<Rightarrow> 'r previous \<Rightarrow> (nat \<times> 'r mvalue option) list" where
  "run_group nm ws [] previous = []"
| "run_group nm ws (None # rs) previous = run_group nm ws rs previous"
| "run_group nm ws (Some inst # rs) previous =
     (case fire_changes nm ws inst previous of (previous', calls) \<Rightarrow> calls @ run_group nm ws rs previous')"

section \<open>What a watch is told\<close>

definition first_watch :: "('r, 'h) change_watch list \<Rightarrow> nat \<Rightarrow> bool" where
  "first_watch ws i \<longleftrightarrow> (\<forall>j < i. f_name (w_field (ws ! j)) \<noteq> f_name (w_field (ws ! i)))"

text \<open>The successful readings of a field, and the changes between neighbours.\<close>

definition readings :: "string \<Rightarrow> (string, 'r mvalue) dict option list \<Rightarrow> 'r mvalue option list" where
  "readings name rs = map (\<lambda>inst. dget inst name) (List.map_filter id rs)"

definition changes :: "'r py_num \<Rightarrow> 'r option \<Rightarrow> 'r mvalue option list \<Rightarrow> 'r mvalue option list" where
  "changes nm deadband vs = map snd (filter (\<lambda>(b, c). has_changed nm b c deadband) (zip vs (tl vs)))"

definition calls_of :: "nat \<Rightarrow> (nat \<times> 'r mvalue option) list \<Rightarrow> 'r mvalue option list" where
  "calls_of i calls = map snd (filter (\<lambda>c. fst c = i) calls)"

lemma calls_of_simps [simp]:
  "calls_of i [] = []" "calls_of i (xs @ ys) = calls_of i xs @ calls_of i ys"
  "calls_of i [(j, v)] = (if i = j then [v] else [])"
  by (simp_all add: calls_of_def)

text \<open>\<open>x != x\<close> is false and no value is farther than a positive deadband from itself (so no reading is a NaN).\<close>

definition reflexive :: "'r py_num \<Rightarrow> bool" where
  "reflexive nm \<longleftrightarrow> (\<forall>v d. \<not> has_changed nm v v d)"

abbreviation watched :: "('r, 'h) change_watch list \<Rightarrow> nat \<Rightarrow> string" where
  "watched ws i \<equiv> f_name (w_field (ws ! i))"

definition told_now :: "'r py_num \<Rightarrow> 'r option \<Rightarrow> 'r mvalue option option \<Rightarrow> 'r mvalue option \<Rightarrow> 'r mvalue option list" where
  "told_now nm deadband before current =
     (case before of Some b \<Rightarrow> if has_changed nm b current deadband then [current] else [] | None \<Rightarrow> [])"

lemma fire_changes_spec:
  assumes "reflexive nm"
  shows "let r = fire_changes nm ws inst previous in (\<forall>name. dget (fst r) name = (if name \<in> set (map (f_name \<circ> w_field) ws) then Some (dget inst name) else dget previous name)) \<and>
    (\<forall>i < length ws. calls_of i (snd r) =
       (if first_watch ws i then told_now nm (w_deadband (ws ! i)) (dget previous (watched ws i)) (dget inst (watched ws i)) else [])) \<and>
    (\<forall>i \<ge> length ws. calls_of i (snd r) = [])"
  unfolding Let_def
proof (induction ws rule: rev_induct)
  case Nil
  then show ?case by (simp add: fire_changes_def)
next
  case (snoc w ws)
  let ?name = "f_name (w_field w)" and ?n = "length ws"
  obtain p calls where pc: "fire_changes nm ws inst previous = (p, calls)" by fastforce
  have p: "dget p name = (if name \<in> set (map (f_name \<circ> w_field) ws) then Some (dget inst name) else dget previous name)" for name
    using snoc pc by simp
  have old: "calls_of i calls = (if first_watch ws i
      then told_now nm (w_deadband (ws ! i)) (dget previous (watched ws i)) (dget inst (watched ws i)) else [])" if "i < ?n" for i
    using snoc pc that by simp
  have none: "calls_of i calls = []" if "?n \<le> i" for i using snoc pc that by simp
  have step: "fire_changes nm (ws @ [w]) inst previous = (dset ?name (dget inst ?name) p,
      calls @ map (Pair ?n) (told_now nm (w_deadband w) (dget p ?name) (dget inst ?name)))"
    using pc by (auto simp: fire_changes_def enumerate_append_eq fire_one_def Let_def told_now_def split: option.splits)
  have first: "first_watch (ws @ [w]) ?n \<longleftrightarrow> ?name \<notin> set (map (f_name \<circ> w_field) ws)"
  proof -
    have "?name \<in> set (map (f_name \<circ> w_field) ws) \<longleftrightarrow> (\<exists>j < ?n. watched ws j = ?name)"
      unfolding in_set_conv_nth by auto
    then show ?thesis by (auto simp: first_watch_def nth_append simp del: set_map)
  qed
  have last: "told_now nm (w_deadband w) (dget p ?name) (dget inst ?name) =
      (if first_watch (ws @ [w]) ?n then told_now nm (w_deadband w) (dget previous ?name) (dget inst ?name) else [])"
    using assms(1) by (simp add: first p told_now_def reflexive_def)
  have tag: "calls_of i (map (Pair j) vs) = (if i = j then vs else [])" for i j :: nat and vs :: "'a mvalue option list"
    by (induction vs) (auto simp: calls_of_def comp_def)
  have before: "first_watch (ws @ [w]) i \<longleftrightarrow> first_watch ws i" if "i < ?n" for i
    using that by (auto simp: first_watch_def nth_append)
  show ?case
  proof (intro conjI allI impI)
    show "dget (fst (fire_changes nm (ws @ [w]) inst previous)) name =
        (if name \<in> set (map (f_name \<circ> w_field) (ws @ [w])) then Some (dget inst name) else dget previous name)" for name
      unfolding step by (simp add: p)
    show "calls_of i (snd (fire_changes nm (ws @ [w]) inst previous)) = (if first_watch (ws @ [w]) i
        then told_now nm (w_deadband ((ws @ [w]) ! i)) (dget previous (watched (ws @ [w]) i)) (dget inst (watched (ws @ [w]) i)) else [])"
      if "i < length (ws @ [w])" for i
    proof (cases "i = ?n")
      case True
      then show ?thesis unfolding step by (simp add: none tag last)
    next
      case False
      then have "i < ?n" using that by simp
      then show ?thesis unfolding step by (simp add: old tag before nth_append)
    qed
    show "calls_of i (snd (fire_changes nm (ws @ [w]) inst previous)) = []" if "length (ws @ [w]) \<le> i" for i
      unfolding step using that by (simp add: none tag)
  qed
qed

lemma changes_Cons: "changes nm d (v # w # vs) = told_now nm d (Some v) w @ changes nm d (w # vs)"
  by (simp add: changes_def told_now_def)

lemma changes_short [simp]: "changes nm d [] = []" "changes nm d [v] = []"
  by (simp_all add: changes_def)

lemma readings_simps [simp]:
  "readings name [] = []" "readings name (None # rs) = readings name rs"
  "readings name (Some inst # rs) = dget inst name # readings name rs"
  by (simp_all add: readings_def map_filter_simps)

definition started :: "'r mvalue option option \<Rightarrow> 'r mvalue option list \<Rightarrow> 'r mvalue option list" where
  "started before vs = (case before of Some b \<Rightarrow> b # vs | None \<Rightarrow> vs)"

lemma run_group_calls:
  assumes "reflexive nm" and "i < length ws"
  shows "calls_of i (run_group nm ws rs previous) =
    (if first_watch ws i then changes nm (w_deadband (ws ! i)) (started (dget previous (watched ws i)) (readings (watched ws i) rs)) else [])"
proof (induction rs arbitrary: previous)
  case Nil
  then show ?case by (simp add: started_def split: option.splits)
next
  case (Cons r rs)
  show ?case
  proof (cases r)
    case None
    then show ?thesis using Cons.IH by simp
  next
    case (Some inst)
    obtain p calls where pc: "fire_changes nm ws inst previous = (p, calls)" by fastforce
    let ?name = "watched ws i" and ?d = "w_deadband (ws ! i)"
    have "?name \<in> set (map (f_name \<circ> w_field) ws)" using assms(2) by simp
    then have p: "dget p ?name = Some (dget inst ?name)"
      and calls: "calls_of i calls = (if first_watch ws i then told_now nm ?d (dget previous ?name) (dget inst ?name) else [])"
      using fire_changes_spec [OF assms(1), of ws inst previous] assms(2) pc by (simp_all add: Let_def)
    have "calls_of i (run_group nm ws (r # rs) previous) = calls_of i calls @ calls_of i (run_group nm ws rs p)"
      by (simp add: Some pc)
    also have "\<dots> = (if first_watch ws i then told_now nm ?d (dget previous ?name) (dget inst ?name) @
        changes nm ?d (dget inst ?name # readings ?name rs) else [])"
      by (simp add: calls Cons.IH p started_def)
    also have "\<dots> = (if first_watch ws i then changes nm ?d (started (dget previous ?name) (readings ?name (r # rs))) else [])"
      by (cases "dget previous ?name") (simp_all add: Some started_def changes_Cons, simp_all add: told_now_def)
    finally show ?thesis .
  qed
qed

section \<open>Claims\<close>

text \<open>
  Over any sequence of readings, failed ones included, the first \<open>@on_change\<close> handler of a field in a poll group is
  called with every reading that differs from the successful reading before it and with no other, so never for
  the first one. A second handler of the same field in the group is never called: the first one has
  already replaced the value it is compared with.
\<close>

theorem changes_reach_only_the_first_watch:
  assumes "reflexive nm" and "i < length ws"
  shows "calls_of i (run_group nm ws rs []) =
    (if first_watch ws i then changes nm (w_deadband (ws ! i)) (readings (f_name (w_field (ws ! i))) rs) else [])"
  using run_group_calls [OF assms, of rs "[]"] by (simp add: started_def)

definition sample_num :: "int py_num" where
  "sample_num = \<lparr>differ = \<lambda>x y. x \<noteq> y,
     farther = \<lambda>x y d. (case (x, y) of (VInt a, VInt b) \<Rightarrow> d < \<bar>b - a\<bar> | _ \<Rightarrow> False), positive = \<lambda>d. 0 < d\<rparr>"

definition sample_watch :: "string \<Rightarrow> int option \<Rightarrow> (int, nat) change_watch" where
  "sample_watch name d = \<lparr>w_field = sample_field 1 Holding 5 UInt16 None name, w_owner = Some sample_info, w_bound = 0,
     w_handler = ''on_change'', w_deadband = d, w_wants_device = False\<rparr>"

definition sample_readings :: "(string, int mvalue) dict option list" where
  "sample_readings = [Some [(''state'', VInt 1)], Some [(''state'', VInt 1)], None, Some [(''state'', VInt 4)], Some [(''state'', VInt 5)]]"

lemma changes_reach_only_the_first_watch_witness:
  "let ws = [sample_watch ''state'' None, sample_watch ''state'' None]
   in calls_of 0 (run_group sample_num ws sample_readings []) = [Some (VInt 4), Some (VInt 5)] \<and>
      calls_of 1 (run_group sample_num ws sample_readings []) = []"
proof -
  let ?ws = "[sample_watch ''state'' None, sample_watch ''state'' None]"
  have r: "reflexive sample_num"
    by (auto simp: reflexive_def has_changed_def sample_num_def split: option.splits mvalue.splits)
  have "changes sample_num (w_deadband (?ws ! 0)) (readings (f_name (w_field (?ws ! 0))) sample_readings) = [Some (VInt 4), Some (VInt 5)]"
    by code_simp
  moreover have "first_watch ?ws 0" "\<not> first_watch ?ws 1" by (auto simp: first_watch_def sample_watch_def sample_field_def)
  ultimately show ?thesis
    using changes_reach_only_the_first_watch [OF r, of 0 ?ws sample_readings]
      changes_reach_only_the_first_watch [OF r, of 1 ?ws sample_readings] by (simp add: Let_def)
qed

end
