(* ===== verification/Socket_Frames.thy ===== *)
theory Socket_Frames
  imports Shared_Memory
begin

text \<open>
  The frame protocol of the socket adapter (\<open>xime/adapters/socket/_protocol.py\<close>): a header of 16 bytes, big-endian,
  and a payload. A stream is the list of the bytes the peer has sent so far.
\<close>

section \<open>Frames\<close>

definition be_bytes :: "nat \<Rightarrow> nat \<Rightarrow> buffer" where
  "be_bytes n v = rev (le_bytes n v)"

definition be_value :: "buffer \<Rightarrow> nat" where
  "be_value bs = le_value (rev bs)"

definition frame_magic :: buffer where "frame_magic = [88, 77]"
definition frame_version :: nat where "frame_version = 1"
definition header_size :: nat where "header_size = 16"
definition max_payload :: nat where "max_payload = 64 * 1024 * 1024"

datatype msg_type =
  CommandRequest | CommandResponse | StreamStart | StreamChunk | StreamEnd | StreamResponse | ErrorFrame | Cancel

definition type_number :: "msg_type \<Rightarrow> nat" where
  "type_number t = (case t of CommandRequest \<Rightarrow> 1 | CommandResponse \<Rightarrow> 2 | StreamStart \<Rightarrow> 3 | StreamChunk \<Rightarrow> 4
     | StreamEnd \<Rightarrow> 5 | StreamResponse \<Rightarrow> 6 | ErrorFrame \<Rightarrow> 7 | Cancel \<Rightarrow> 8)"

lemma type_number_eq [simp]: "type_number a = type_number b \<longleftrightarrow> a = b"
  by (cases a; cases b) (simp_all add: type_number_def)

text \<open>\<open>msg_type\<close> of a frame that was read is the raw byte.\<close>

record frame =
  fr_type :: nat
  fr_session :: nat
  fr_payload :: buffer

text \<open>\<open>struct.pack\<close> raises when a number does not fit its field; the size limit is not checked here.\<close>

definition encode_frame :: "nat \<Rightarrow> nat \<Rightarrow> buffer \<Rightarrow> buffer option" where
  "encode_frame ty sid payload =
     (if ty < 256 \<and> sid < 256 ^ 8 \<and> length payload < 256 ^ 4
      then Some (frame_magic @ be_bytes 1 frame_version @ be_bytes 1 ty @ be_bytes 8 sid @ be_bytes 4 (length payload) @ payload)
      else None)"

datatype read_error = Incomplete | BadMagic buffer | BadVersion nat | TooLarge nat

definition read_exactly :: "nat \<Rightarrow> buffer \<Rightarrow> read_error + buffer \<times> buffer" where
  "read_exactly n s = (if length s < n then Inl Incomplete else Inr (take n s, drop n s))"

definition read_frame :: "buffer \<Rightarrow> read_error + frame \<times> buffer" where
  "read_frame s =
     sbind (read_exactly header_size s) (\<lambda>(header, s1).
       let magic = take 2 header; version = be_value (take 1 (drop 2 header)); ty = be_value (take 1 (drop 3 header));
           sid = be_value (take 8 (drop 4 header)); len = be_value (take 4 (drop 12 header))
       in if magic \<noteq> frame_magic then Inl (BadMagic magic)
          else if version \<noteq> frame_version then Inl (BadVersion version)
          else if max_payload < len then Inl (TooLarge len)
          else sbind (if len = 0 then Inr ([], s1) else read_exactly len s1) (\<lambda>(payload, s2).
            Inr (\<lparr>fr_type = ty, fr_session = sid, fr_payload = payload\<rparr>, s2)))"

text \<open>Reading until the bytes end or a frame is refused; \<open>n\<close> bounds the number of frames.\<close>

fun read_frames :: "nat \<Rightarrow> buffer \<Rightarrow> frame list \<times> read_error option" where
  "read_frames 0 s = ([], None)"
| "read_frames (Suc n) s =
     (case read_frame s of
        Inl e \<Rightarrow> ([], Some e)
      | Inr (f, rest) \<Rightarrow> (case read_frames n rest of (fs, e) \<Rightarrow> (f # fs, e)))"

section \<open>Round trip\<close>

lemma length_be_bytes [simp]: "length (be_bytes n v) = n"
  by (simp add: be_bytes_def)

lemma be_value_bytes [simp]: "v < 256 ^ n \<Longrightarrow> be_value (be_bytes n v) = v"
  by (simp add: be_value_def be_bytes_def)

lemma encode_Some:
  assumes "encode_frame ty sid payload = Some bs"
  shows "ty < 256" "sid < 256 ^ 8" "length payload < 256 ^ 4"
    "bs = frame_magic @ be_bytes 1 frame_version @ be_bytes 1 ty @ be_bytes 8 sid @ be_bytes 4 (length payload) @ payload"
  using assms by (auto simp: encode_frame_def split: if_splits)

lemma read_encoded:
  assumes "encode_frame ty sid payload = Some bs"
  shows "read_frame (bs @ rest) =
    (if max_payload < length payload then Inl (TooLarge (length payload))
     else Inr (\<lparr>fr_type = ty, fr_session = sid, fr_payload = payload\<rparr>, rest))"
proof -
  let ?h = "frame_magic @ be_bytes 1 frame_version @ be_bytes 1 ty @ be_bytes 8 sid @ be_bytes 4 (length payload)"
  note e = encode_Some [OF assms]
  have len: "length ?h = 16" by (simp add: frame_magic_def)
  have bs: "bs @ rest = ?h @ payload @ rest" using e(4) by simp
  have header: "read_exactly header_size (bs @ rest) = Inr (?h, payload @ rest)"
    unfolding bs using len by (simp add: read_exactly_def header_size_def)
  have parts: "take 2 ?h = frame_magic" "take 1 (drop 2 ?h) = be_bytes 1 frame_version" "take 1 (drop 3 ?h) = be_bytes 1 ty"
    "take 8 (drop 4 ?h) = be_bytes 8 sid" "take 4 (drop 12 ?h) = be_bytes 4 (length payload)"
    by (simp_all add: frame_magic_def)
  have vals: "be_value (be_bytes 1 frame_version) = frame_version" "be_value (be_bytes 1 ty) = ty" "be_value (be_bytes 8 sid) = sid"
    "be_value (be_bytes 4 (length payload)) = length payload"
    using e(1-3) by (simp_all add: frame_version_def)
  have "sbind (if length payload = 0 then Inr ([], payload @ rest) else read_exactly (length payload) (payload @ rest))
      (\<lambda>(p, s2). Inr (\<lparr>fr_type = ty, fr_session = sid, fr_payload = p\<rparr>, s2)) =
      (Inr (\<lparr>fr_type = ty, fr_session = sid, fr_payload = payload\<rparr>, rest) :: read_error + frame \<times> buffer)"
    by (simp add: read_exactly_def)
  then show ?thesis
    unfolding read_frame_def header sbind_simps prod.case Let_def parts vals by simp
qed

text \<open>The bytes of several frames sent one after another; \<open>None\<close> when one cannot be packed.\<close>

fun encode_all :: "(nat \<times> nat \<times> buffer) list \<Rightarrow> buffer option" where
  "encode_all [] = Some []"
| "encode_all ((ty, sid, payload) # fs) =
     (case (encode_frame ty sid payload, encode_all fs) of (Some bs, Some rest) \<Rightarrow> Some (bs @ rest) | _ \<Rightarrow> None)"

definition as_frame :: "nat \<times> nat \<times> buffer \<Rightarrow> frame" where
  "as_frame x = (case x of (ty, sid, payload) \<Rightarrow> \<lparr>fr_type = ty, fr_session = sid, fr_payload = payload\<rparr>)"

text \<open>Whatever follows the frames is read as if they had not been there.\<close>

lemma read_all_encoded:
  assumes "encode_all fs = Some bs" and "\<forall>(ty, sid, payload) \<in> set fs. length payload \<le> max_payload"
  shows "read_frames (length fs + m) (bs @ rest) = (map as_frame fs @ fst (read_frames m rest), snd (read_frames m rest))"
  using assms
proof (induction fs arbitrary: bs)
  case (Cons x fs)
  obtain ty sid payload where x: "x = (ty, sid, payload)" by (cases x) auto
  obtain b tail where b: "encode_frame ty sid payload = Some b" "encode_all fs = Some tail" "bs = b @ tail"
    using Cons.prems(1) by (auto simp: x split: option.splits)
  have "read_frames (length fs + m) (tail @ rest) = (map as_frame fs @ fst (read_frames m rest), snd (read_frames m rest))"
    by (rule Cons.IH) (use b Cons.prems in auto)
  moreover have "\<not> max_payload < length payload" using Cons.prems(2) x by auto
  ultimately show ?case by (simp add: b(3) read_encoded [OF b(1)] x as_frame_def)
qed simp

text \<open>No bytes, or the first bytes of a frame that is not there yet, are an incomplete read.\<close>

lemma read_part_of_frame:
  assumes "encode_frame ty sid payload = Some bs" and "length payload \<le> max_payload" and "k < length bs"
  shows "read_frame (take k bs) = Inl Incomplete"
proof -
  let ?h = "frame_magic @ be_bytes 1 frame_version @ be_bytes 1 ty @ be_bytes 8 sid @ be_bytes 4 (length payload)"
  note e = encode_Some [OF assms(1)]
  have len: "length ?h = 16" by (simp add: frame_magic_def)
  have bs: "bs = ?h @ payload" using e(4) by simp
  show ?thesis
  proof (cases "k < 16")
    case True
    then show ?thesis using assms(3) by (simp add: read_frame_def read_exactly_def header_size_def)
  next
    case False
    have header: "read_exactly header_size (take k bs) = Inr (?h, take (k - 16) payload)"
      using False len assms(3) unfolding bs by (simp add: read_exactly_def header_size_def)
    have parts: "take 2 ?h = frame_magic" "take 1 (drop 2 ?h) = be_bytes 1 frame_version" "take 1 (drop 3 ?h) = be_bytes 1 ty"
      "take 8 (drop 4 ?h) = be_bytes 8 sid" "take 4 (drop 12 ?h) = be_bytes 4 (length payload)"
      by (simp_all add: frame_magic_def)
    have vals: "be_value (be_bytes 1 frame_version) = frame_version" "be_value (be_bytes 4 (length payload)) = length payload"
      using e(1-3) by (simp_all add: frame_version_def)
    have short: "k - 16 < length payload" using assms(3) False len unfolding bs by simp
    then have "length payload \<noteq> 0" "read_exactly (length payload) (take (k - 16) payload) = Inl Incomplete"
      by (auto simp: read_exactly_def)
    then show ?thesis
      unfolding read_frame_def header sbind_simps prod.case Let_def parts vals using assms(2) by simp
  qed
qed

section \<open>Claims\<close>

text \<open>
  C22: frames written with \<open>encode_frame\<close> one after another, none with a payload over 64 MiB, are read back frame by
  frame, whatever bytes follow them, and reading goes on with those bytes as if it began there. A frame that has arrived
  in part is an incomplete read and never another frame. A frame whose payload is over the limit can be written all the
  same; the reader refuses it.
\<close>

theorem frames_roundtrip:
  assumes "encode_all fs = Some bs" and "\<forall>(ty, sid, payload) \<in> set fs. length payload \<le> max_payload"
    and "encode_frame ty sid payload = Some one"
  shows "read_frames (length fs + m) (bs @ rest) = (map as_frame fs @ fst (read_frames m rest), snd (read_frames m rest)) \<and>
    (length payload \<le> max_payload \<longrightarrow> (\<forall>k < length one. read_frame (take k one) = Inl Incomplete)) \<and>
    (max_payload < length payload \<longrightarrow> read_frame (one @ rest) = Inl (TooLarge (length payload)))"
  using read_all_encoded [OF assms(1,2)] read_part_of_frame [OF assms(3)] read_encoded [OF assms(3)] by simp

lemma frames_roundtrip_witness:
  "\<exists>bs. encode_all [(3, 7, [1, 2]), (5, 7, [])] = Some bs \<and>
    read_frames 4 (bs @ [88, 77, 9] @ replicate 13 0) =
      (map as_frame [(3, 7, [1, 2]), (5, 7, [])], Some (BadVersion 9))"
proof -
  obtain one where one: "encode_frame 4 7 [] = Some one" by (simp add: encode_frame_def)
  obtain bs where bs: "encode_all [(3, 7, [1, 2]), (5, 7, [])] = Some bs" by (simp add: encode_frame_def)
  have small: "\<forall>(ty, sid, payload) \<in> set [(3, 7, [1, 2]), (5, 7, [])]. length (payload :: buffer) \<le> max_payload"
    by (simp add: max_payload_def)
  have rest: "read_frames 2 ([88, 77, 9] @ replicate 13 0) = ([], Some (BadVersion 9))" by code_simp
  have "length [(3 :: nat, 7 :: nat, [1, 2] :: buffer), (5, 7, [])] + 2 = 4" by simp
  with frames_roundtrip [OF bs small one, of 2 "[88, 77, 9] @ replicate 13 0"]
  have "read_frames 4 (bs @ [88, 77, 9] @ replicate 13 0) = (map as_frame [(3, 7, [1, 2]), (5, 7, [])], Some (BadVersion 9))"
    unfolding rest by (simp only: fst_conv snd_conv append_Nil2)
  with bs show ?thesis by blast
qed

end
