(* ===== verification/Socket_Sessions.thy ===== *)
theory Socket_Sessions
  imports Socket_Frames "HOL-Library.Sublist"
begin

text \<open>
  One connection of the socket adapter (\<open>xime/adapters/socket/_session.py\<close>, \<open>_adapter.py\<close>): the read loop that
  dispatches frames, the sessions with their bounded queues, the handlers that take from them, the
  reaper. A session object is a number; its handler is an arbitrary program that takes items
  and ends. What an envelope names is an argument; commands do not touch the sessions.
\<close>

section \<open>State\<close>

datatype item = Chunk buffer | EndMark | Expired

datatype stream_shape = Upload | Download | Command

datatype opened = Malformed | NotAMapping | UnknownEndpoint | Opens stream_shape

record session =
  s_sid :: nat
  s_from :: nat
  s_queue :: "item list"
  s_taken :: "item list"
  s_active :: int
  s_running :: bool
  s_cancelled :: bool

datatype sent = SentChunk nat buffer | SentError nat string | SentEnd nat | SentResponse nat | StartedCommand nat

text \<open>
  \<open>x_sessions\<close> is the dictionary of the session manager, \<open>x_objects\<close> every session ever created, \<open>x_waiting\<close> the
  \<open>put\<close> the read loop is blocked in, \<open>x_read\<close> the frames read so far.
\<close>

record conn =
  x_sessions :: "(nat, nat) dict"
  x_objects :: "session list"
  x_waiting :: "(nat \<times> item) option"
  x_closed :: bool
  x_read :: "frame list"
  x_out :: "sent list"

record socket_config =
  sc_timeout :: int
  sc_max_chunk :: nat
  sc_queue_size :: nat

definition new_conn :: conn where
  "new_conn = \<lparr>x_sessions = [], x_objects = [], x_waiting = None, x_closed = False, x_read = [], x_out = []\<rparr>"

definition send_out :: "sent \<Rightarrow> conn \<Rightarrow> conn" where
  "send_out s x = x\<lparr>x_out := x_out x @ [s]\<rparr>"

definition upd_session :: "nat \<Rightarrow> (session \<Rightarrow> session) \<Rightarrow> conn \<Rightarrow> conn" where
  "upd_session u f x = x\<lparr>x_objects := (x_objects x)[u := f (x_objects x ! u)]\<rparr>"

section \<open>The session manager\<close>

definition create_session :: "nat \<Rightarrow> int \<Rightarrow> bool \<Rightarrow> conn \<Rightarrow> conn" where
  "create_session sid now runs x = x\<lparr>x_sessions := dset sid (length (x_objects x)) (x_sessions x),
     x_objects := x_objects x @ [\<lparr>s_sid = sid, s_from = length (x_read x), s_queue = [], s_taken = [], s_active = now,
       s_running = runs, s_cancelled = False\<rparr>]\<rparr>"

definition get_session :: "nat \<Rightarrow> int \<Rightarrow> conn \<Rightarrow> nat option \<times> conn" where
  "get_session sid now x =
     (case dget (x_sessions x) sid of
        None \<Rightarrow> (None, x)
      | Some u \<Rightarrow> (Some u, upd_session u (\<lambda>s. s\<lparr>s_active := now\<rparr>) x))"

definition destroy_session :: "nat \<Rightarrow> conn \<Rightarrow> conn" where
  "destroy_session sid x =
     (case dget (x_sessions x) sid of
        None \<Rightarrow> x
      | Some u \<Rightarrow> upd_session u (\<lambda>s. if s_running s then s\<lparr>s_cancelled := True\<rparr> else s)
                    (x\<lparr>x_sessions := ddel sid (x_sessions x)\<rparr>))"

definition destroy_all :: "conn \<Rightarrow> conn" where
  "destroy_all x = fold destroy_session (dkeys (x_sessions x)) x"

text \<open>A size of 0 is an unbounded queue.\<close>

definition queue_full :: "socket_config \<Rightarrow> session \<Rightarrow> bool" where
  "queue_full cfg s \<longleftrightarrow> 0 < sc_queue_size cfg \<and> sc_queue_size cfg \<le> length (s_queue s)"

definition reap_session :: "socket_config \<Rightarrow> int \<Rightarrow> nat \<times> nat \<Rightarrow> conn \<Rightarrow> conn" where
  "reap_session cfg now e x =
     (case e of (sid, u) \<Rightarrow>
        if sc_timeout cfg < now - s_active (x_objects x ! u)
        then destroy_session sid (if queue_full cfg (x_objects x ! u) then x
               else upd_session u (\<lambda>s. s\<lparr>s_queue := s_queue s @ [Expired]\<rparr>) x)
        else x)"

definition reap_expired :: "socket_config \<Rightarrow> int \<Rightarrow> conn \<Rightarrow> conn" where
  "reap_expired cfg now x = fold (reap_session cfg now) (x_sessions x) x"

section \<open>The read loop\<close>

text \<open>The \<open>finally\<close> block of the connection.\<close>

definition close_conn :: "conn \<Rightarrow> conn" where
  "close_conn x = (destroy_all x)\<lparr>x_closed := True\<rparr>"

definition put_item :: "socket_config \<Rightarrow> nat \<Rightarrow> item \<Rightarrow> conn \<Rightarrow> conn" where
  "put_item cfg u i x =
     (if queue_full cfg (x_objects x ! u) then x\<lparr>x_waiting := Some (u, i)\<rparr>
      else upd_session u (\<lambda>s. s\<lparr>s_queue := s_queue s @ [i]\<rparr>) x)"

definition start_stream :: "opened \<Rightarrow> int \<Rightarrow> nat \<Rightarrow> conn \<Rightarrow> conn" where
  "start_stream open_as now sid x =
     (case open_as of
        Malformed \<Rightarrow> send_out (SentError sid ''INVALID_ARGUMENT'') x
      | NotAMapping \<Rightarrow> close_conn x
      | UnknownEndpoint \<Rightarrow> send_out (SentError sid ''NOT_FOUND'') x
      | Opens Command \<Rightarrow> send_out (SentError sid ''INVALID_ARGUMENT'') (destroy_session sid (create_session sid now False x))
      | Opens shape \<Rightarrow> create_session sid now True x)"

definition dispatch_frame :: "socket_config \<Rightarrow> (buffer \<Rightarrow> opened) \<Rightarrow> int \<Rightarrow> frame \<Rightarrow> conn \<Rightarrow> conn" where
  "dispatch_frame cfg opens now f x =
     (if fr_type f = type_number CommandRequest then send_out (StartedCommand (fr_session f)) x
      else if fr_type f = type_number StreamStart then start_stream (opens (fr_payload f)) now (fr_session f) x
      else if fr_type f = type_number StreamChunk then
        (case get_session (fr_session f) now x of
           (None, x') \<Rightarrow> x'
         | (Some u, x') \<Rightarrow>
             if sc_max_chunk cfg < length (fr_payload f)
             then destroy_session (fr_session f) (send_out (SentError (fr_session f) ''TOO_LARGE'') x')
             else put_item cfg u (Chunk (fr_payload f)) x')
      else if fr_type f = type_number StreamEnd then
        (case get_session (fr_session f) now x of (None, x') \<Rightarrow> x' | (Some u, x') \<Rightarrow> put_item cfg u EndMark x')
      else if fr_type f = type_number Cancel then destroy_session (fr_session f) x
      else x)"

definition read_one :: "socket_config \<Rightarrow> (buffer \<Rightarrow> opened) \<Rightarrow> int \<Rightarrow> frame \<Rightarrow> conn \<Rightarrow> conn" where
  "read_one cfg opens now f x = dispatch_frame cfg opens now f (x\<lparr>x_read := x_read x @ [f]\<rparr>)"

section \<open>Handlers\<close>

definition take_item :: "nat \<Rightarrow> conn \<Rightarrow> conn" where
  "take_item u x =
     (case s_queue (x_objects x ! u) of
        [] \<Rightarrow> x
      | i # q \<Rightarrow> upd_session u (\<lambda>s. s\<lparr>s_queue := q, s_taken := s_taken s @ [i]\<rparr>) x)"

text \<open>The read loop, woken by a handler that took an item, tries its \<open>put\<close> again.\<close>

definition resume_put :: "socket_config \<Rightarrow> conn \<Rightarrow> conn" where
  "resume_put cfg x =
     (case x_waiting x of None \<Rightarrow> x | Some (u, i) \<Rightarrow> put_item cfg u i (x\<lparr>x_waiting := None\<rparr>))"

text \<open>A download handler writes; that counts as activity of its session.\<close>

definition write_chunk :: "nat \<Rightarrow> int \<Rightarrow> buffer \<Rightarrow> conn \<Rightarrow> conn" where
  "write_chunk u now p x =
     send_out (SentChunk (s_sid (x_objects x ! u)) p) (upd_session u (\<lambda>s. s\<lparr>s_active := now\<rparr>) x)"

text \<open>
  The \<open>finally\<close> block of a handler destroys whatever session its number names by then.
\<close>

definition end_handler :: "nat \<Rightarrow> sent list \<Rightarrow> conn \<Rightarrow> conn" where
  "end_handler u answer x =
     (let x1 = x\<lparr>x_out := x_out x @ answer\<rparr>
      in upd_session u (\<lambda>s. s\<lparr>s_running := False\<rparr>) (destroy_session (s_sid (x_objects x ! u)) x1))"

text \<open>
  The steps in any order: the loop reads when it is not blocked; handlers that still run take, write or end, on their own
  or because they were cancelled; a blocked \<open>put\<close> is tried again; the reaper looks around; when the peer is gone the loop, if it still reads, closes.
\<close>

inductive conn_step :: "socket_config \<Rightarrow> (buffer \<Rightarrow> opened) \<Rightarrow> conn \<Rightarrow> conn \<Rightarrow> bool" for cfg opens where
  Read: "x_waiting x = None \<Longrightarrow> \<not> x_closed x \<Longrightarrow> conn_step cfg opens x (read_one cfg opens now f x)"
| Take: "u < length (x_objects x) \<Longrightarrow> s_running (x_objects x ! u) \<Longrightarrow> conn_step cfg opens x (take_item u x)"
| Writes: "u < length (x_objects x) \<Longrightarrow> s_running (x_objects x ! u) \<Longrightarrow> conn_step cfg opens x (write_chunk u now p x)"
| Ends: "u < length (x_objects x) \<Longrightarrow> s_running (x_objects x ! u) \<Longrightarrow> conn_step cfg opens x (end_handler u answer x)"
| Resume: "x_waiting x = Some e \<Longrightarrow> conn_step cfg opens x (resume_put cfg x)"
| Reap: "conn_step cfg opens x (reap_expired cfg now x)"
| Closes: "x_waiting x = None \<Longrightarrow> conn_step cfg opens x (close_conn x)"

abbreviation conn_run :: "socket_config \<Rightarrow> (buffer \<Rightarrow> opened) \<Rightarrow> conn \<Rightarrow> conn \<Rightarrow> bool" where
  "conn_run cfg opens \<equiv> (conn_step cfg opens)\<^sup>*\<^sup>*"

inductive_cases conn_stepE: "conn_step cfg opens x y"

section \<open>Frames of the operations\<close>

lemma upd_session_fields [simp]:
  "x_waiting (upd_session u f x) = x_waiting x" "x_read (upd_session u f x) = x_read x" "x_closed (upd_session u f x) = x_closed x"
  "x_sessions (upd_session u f x) = x_sessions x" "length (x_objects (upd_session u f x)) = length (x_objects x)"
  "x_out (upd_session u f x) = x_out x"
  by (simp_all add: upd_session_def)

lemma upd_session_nth:
  "u < length (x_objects x) \<Longrightarrow> x_objects (upd_session u f x) ! v = (if u = v then f (x_objects x ! v) else x_objects x ! v)"
  by (simp add: upd_session_def nth_list_update)

lemma send_out_fields [simp]:
  "x_waiting (send_out s x) = x_waiting x" "x_read (send_out s x) = x_read x" "x_closed (send_out s x) = x_closed x"
  "x_sessions (send_out s x) = x_sessions x" "x_objects (send_out s x) = x_objects x"
  by (simp_all add: send_out_def)

section \<open>Order and bounds\<close>

text \<open>The items of a session among some frames, and those a session object has accepted.\<close>

definition item_of :: "nat \<Rightarrow> frame \<Rightarrow> item option" where
  "item_of sid f =
     (if fr_session f \<noteq> sid then None
      else if fr_type f = type_number StreamChunk then Some (Chunk (fr_payload f))
      else if fr_type f = type_number StreamEnd then Some EndMark else None)"

definition items :: "nat \<Rightarrow> frame list \<Rightarrow> item list" where
  "items sid fs = List.map_filter (item_of sid) fs"

definition unexpired :: "item list \<Rightarrow> item list" where
  "unexpired is = filter (\<lambda>i. i \<noteq> Expired) is"

definition waiting_for :: "conn \<Rightarrow> nat \<Rightarrow> item list" where
  "waiting_for x u = (case x_waiting x of Some (w, i) \<Rightarrow> if w = u then [i] else [] | None \<Rightarrow> [])"

definition accepted :: "conn \<Rightarrow> nat \<Rightarrow> item list" where
  "accepted x u = s_taken (x_objects x ! u) @ s_queue (x_objects x ! u) @ waiting_for x u"

definition arrived :: "conn \<Rightarrow> nat \<Rightarrow> item list" where
  "arrived x u = items (s_sid (x_objects x ! u)) (drop (s_from (x_objects x ! u)) (x_read x))"

text \<open>
  The invariant, with the items \<open>is\<close> the session object \<open>v0\<close> still owes to its queue while a frame is dispatched.
\<close>

definition conn_owes :: "socket_config \<Rightarrow> nat \<Rightarrow> item list \<Rightarrow> conn \<Rightarrow> bool" where
  "conn_owes cfg v0 is x \<longleftrightarrow> distinct (dkeys (x_sessions x)) \<and>
     (\<forall>sid u. dget (x_sessions x) sid = Some u \<longrightarrow> u < length (x_objects x) \<and> s_sid (x_objects x ! u) = sid \<and>
        unexpired (accepted x u) @ (if u = v0 then is else []) = arrived x u) \<and>
     (\<forall>u < length (x_objects x). s_from (x_objects x ! u) \<le> length (x_read x) \<and> prefix (unexpired (accepted x u)) (arrived x u) \<and>
        (0 < sc_queue_size cfg \<longrightarrow> length (s_queue (x_objects x ! u)) \<le> sc_queue_size cfg)) \<and>
     (\<forall>u i. x_waiting x = Some (u, i) \<longrightarrow> u < length (x_objects x))"

definition conn_ok :: "socket_config \<Rightarrow> conn \<Rightarrow> bool" where
  "conn_ok cfg x = conn_owes cfg 0 [] x"

lemma conn_ok_owes: "conn_owes cfg v0 [] x = conn_ok cfg x"
  by (simp add: conn_ok_def conn_owes_def)

lemma items_simps [simp]:
  "items sid [] = []" "items sid (xs @ ys) = items sid xs @ items sid ys"
  "items sid [f] = (case item_of sid f of None \<Rightarrow> [] | Some i \<Rightarrow> [i])"
  by (simp_all add: items_def map_filter_def split: option.splits)

lemma unexpired_simps [simp]: "unexpired [] = []" "unexpired (xs @ ys) = unexpired xs @ unexpired ys" "unexpired [Expired] = []"
  "unexpired [Chunk p] = [Chunk p]" "unexpired [EndMark] = [EndMark]"
  by (simp_all add: unexpired_def)

lemma conn_owesD:
  assumes "conn_owes cfg v0 is x"
  shows "distinct (dkeys (x_sessions x))"
    and "dget (x_sessions x) sid = Some u \<Longrightarrow> u < length (x_objects x) \<and> s_sid (x_objects x ! u) = sid \<and>
      unexpired (accepted x u) @ (if u = v0 then is else []) = arrived x u"
    and "v < length (x_objects x) \<Longrightarrow> s_from (x_objects x ! v) \<le> length (x_read x) \<and> prefix (unexpired (accepted x v)) (arrived x v) \<and>
      (0 < sc_queue_size cfg \<longrightarrow> length (s_queue (x_objects x ! v)) \<le> sc_queue_size cfg)"
    and "x_waiting x = Some (w, i) \<Longrightarrow> w < length (x_objects x)"
  using assms by (auto simp: conn_owes_def)

text \<open>Changes that leave the accepted items of every object alone and drop sessions at most.\<close>

lemma conn_owes_frame:
  assumes "conn_owes cfg v0 is x" and "x_read y = x_read x" and "length (x_objects y) = length (x_objects x)"
    and "\<And>u. u < length (x_objects x) \<Longrightarrow> s_sid (x_objects y ! u) = s_sid (x_objects x ! u) \<and> s_from (x_objects y ! u) = s_from (x_objects x ! u)"
    and "\<And>u. u < length (x_objects x) \<Longrightarrow> unexpired (accepted y u) = unexpired (accepted x u)"
    and "\<And>u. u < length (x_objects x) \<Longrightarrow> 0 < sc_queue_size cfg \<Longrightarrow> length (s_queue (x_objects y ! u)) \<le> sc_queue_size cfg"
    and "distinct (dkeys (x_sessions y))" and "\<And>sid u. dget (x_sessions y) sid = Some u \<Longrightarrow> dget (x_sessions x) sid = Some u"
    and "\<And>u i. x_waiting y = Some (u, i) \<Longrightarrow> \<exists>j. x_waiting x = Some (u, j)"
  shows "conn_owes cfg v0 is y"
proof -
  have arr: "arrived y u = arrived x u" if "u < length (x_objects x)" for u
    using that assms(2,4) by (simp add: arrived_def)
  show ?thesis
    unfolding conn_owes_def
  proof (intro conjI allI impI)
    fix sid u assume "dget (x_sessions y) sid = Some u"
    note d = conn_owesD(2) [OF assms(1) assms(8) [OF this]]
    show "u < length (x_objects y)" "s_sid (x_objects y ! u) = sid" "unexpired (accepted y u) @ (if u = v0 then is else []) = arrived y u"
      using d assms(3-5) arr by simp_all
  next
    fix u assume u: "u < length (x_objects y)"
    note d = conn_owesD(3) [OF assms(1) u [unfolded assms(3)]]
    show "s_from (x_objects y ! u) \<le> length (x_read y)" "prefix (unexpired (accepted y u)) (arrived y u)"
      using d u assms(2-5) arr by simp_all
    show "length (s_queue (x_objects y ! u)) \<le> sc_queue_size cfg" if "0 < sc_queue_size cfg"
      using u assms(3,6) that by simp
  next
    fix u i assume "x_waiting y = Some (u, i)"
    then show "u < length (x_objects y)" using assms(3,9) conn_owesD(4) [OF assms(1)] by fastforce
  qed (rule assms(7))
qed

lemma upd_owes:
  assumes "conn_owes cfg v0 is x" and "w < length (x_objects x)" and "s_sid (f (x_objects x ! w)) = s_sid (x_objects x ! w)"
    and "s_from (f (x_objects x ! w)) = s_from (x_objects x ! w)"
    and "unexpired (s_taken (f (x_objects x ! w)) @ s_queue (f (x_objects x ! w))) = unexpired (s_taken (x_objects x ! w) @ s_queue (x_objects x ! w))"
    and "0 < sc_queue_size cfg \<Longrightarrow> length (s_queue (f (x_objects x ! w))) \<le> sc_queue_size cfg"
  shows "conn_owes cfg v0 is (upd_session w f x)"
  by (rule conn_owes_frame [OF assms(1)])
    (use assms(2-) conn_owesD(1,3) [OF assms(1)] in \<open>auto simp: upd_session_nth accepted_def waiting_for_def simp flip: append_assoc\<close>)

lemma drop_session_owes:
  assumes "conn_owes cfg v0 is x" shows "conn_owes cfg v0 is (x\<lparr>x_sessions := ddel sid (x_sessions x)\<rparr>)"
  by (rule conn_owes_frame [OF assms])
    (use conn_owesD(1,3) [OF assms] in \<open>auto simp: accepted_def waiting_for_def distinct_delete split: if_splits\<close>)

lemma destroy_owes:
  assumes "conn_owes cfg v0 is x" shows "conn_owes cfg v0 is (destroy_session sid x)"
proof (cases "dget (x_sessions x) sid")
  case (Some w)
  have w: "w < length (x_objects x)" using conn_owesD(2) [OF assms Some] by simp
  show ?thesis unfolding destroy_session_def Some option.case
    by (rule upd_owes [OF drop_session_owes [OF assms]]) (use w conn_owesD(3) [OF assms w] in \<open>auto\<close>)
qed (simp add: destroy_session_def assms)

lemma destroy_pays:
  assumes "conn_owes cfg v0 is x" and "s_sid (x_objects x ! v0) = sid"
  shows "conn_ok cfg (destroy_session sid x)"
proof -
  have d: "conn_owes cfg v0 is (destroy_session sid x)" by (rule destroy_owes [OF assms(1)])
  have "u \<noteq> v0" if at: "dget (x_sessions (destroy_session sid x)) sid' = Some u" for sid' u
  proof
    assume u: "u = v0"
    have n: "sid' \<noteq> sid" and old: "dget (x_sessions x) sid' = Some u"
      using at by (auto simp: destroy_session_def split: option.splits if_splits)
    show False using conn_owesD(2) [OF assms(1) old] u assms(2) n by simp
  qed
  then show ?thesis using d by (auto simp: conn_ok_def conn_owes_def)
qed

lemma send_out_owes [simp]: "conn_owes cfg v0 is (send_out s x) = conn_owes cfg v0 is x"
  by (simp add: conn_owes_def accepted_def arrived_def waiting_for_def)

lemma create_ok:
  assumes "conn_ok cfg x" shows "conn_ok cfg (create_session sid now runs x)"
proof -
  note ok = assms [unfolded conn_ok_def]
  let ?y = "create_session sid now runs x" and ?n = "length (x_objects x)"
  have nth: "x_objects ?y ! u = x_objects x ! u" if "u < ?n" for u
    using that by (simp add: create_session_def nth_append)
  have old: "unexpired (accepted ?y u) = unexpired (accepted x u)" "arrived ?y u = arrived x u" if "u < ?n" for u
    using that nth [OF that] by (simp_all add: accepted_def arrived_def waiting_for_def create_session_def)
  have new: "unexpired (accepted ?y ?n) = []" "arrived ?y ?n = []"
    using conn_owesD(4) [OF ok]
    by (auto simp: accepted_def arrived_def waiting_for_def create_session_def split: option.splits)
  show ?thesis
    unfolding conn_ok_def conn_owes_def
  proof (intro conjI allI impI)
    show "distinct (dkeys (x_sessions ?y))" using conn_owesD(1) [OF ok] by (simp add: create_session_def distinct_update)
  next
    fix sid' u assume at: "dget (x_sessions ?y) sid' = Some u"
    have c: "sid' = sid \<and> u = ?n \<or> dget (x_sessions x) sid' = Some u" using at by (auto simp: create_session_def split: if_splits)
    have "u < length (x_objects ?y) \<and> s_sid (x_objects ?y ! u) = sid' \<and> unexpired (accepted ?y u) @ (if u = 0 then [] else []) = arrived ?y u"
      using c
    proof (elim disjE conjE)
      assume u: "sid' = sid" "u = ?n"
      show ?thesis unfolding u new by (simp add: create_session_def)
    next
      assume a: "dget (x_sessions x) sid' = Some u"
      note d = conn_owesD(2) [OF ok a]
      show ?thesis using d nth old by (simp add: create_session_def)
    qed
    then show "u < length (x_objects ?y)" "s_sid (x_objects ?y ! u) = sid'" "unexpired (accepted ?y u) @ (if u = 0 then [] else []) = arrived ?y u"
      by simp_all
  next
    fix u assume u: "u < length (x_objects ?y)"
    have "s_from (x_objects ?y ! u) \<le> length (x_read ?y) \<and> prefix (unexpired (accepted ?y u)) (arrived ?y u) \<and>
      (0 < sc_queue_size cfg \<longrightarrow> length (s_queue (x_objects ?y ! u)) \<le> sc_queue_size cfg)"
    proof (cases "u = ?n")
      case True
      show ?thesis unfolding True new by (simp add: create_session_def)
    next
      case False
      then have "u < ?n" using u by (simp add: create_session_def)
      then show ?thesis using conn_owesD(3) [OF ok] nth old by (simp add: create_session_def)
    qed
    then show "s_from (x_objects ?y ! u) \<le> length (x_read ?y)" "prefix (unexpired (accepted ?y u)) (arrived ?y u)"
      "0 < sc_queue_size cfg \<Longrightarrow> length (s_queue (x_objects ?y ! u)) \<le> sc_queue_size cfg" by simp_all
  next
    fix u i assume "x_waiting ?y = Some (u, i)"
    then have "x_waiting x = Some (u, i)" by (simp add: create_session_def)
    then show "u < length (x_objects ?y)" using conn_owesD(4) [OF ok] by (simp add: create_session_def less_Suc_eq)
  qed
qed

text \<open>The frame that was read last: its session owes the item to its queue.\<close>

lemma reading_owes:
  assumes "conn_ok cfg x" and y: "y = x\<lparr>x_read := x_read x @ [f]\<rparr>"
  shows "dget (x_sessions x) (fr_session f) = Some w \<Longrightarrow> conn_owes cfg w (items (fr_session f) [f]) y"
    and "dget (x_sessions x) (fr_session f) = None \<or> items (fr_session f) [f] = [] \<Longrightarrow> conn_ok cfg y"
proof -
  note ok = assms(1) [unfolded conn_ok_def]
  have acc: "accepted y u = accepted x u" for u by (simp add: y accepted_def waiting_for_def)
  have arr: "arrived y u = arrived x u @ items (s_sid (x_objects x ! u)) [f]" if "u < length (x_objects x)" for u
    using conn_owesD(3) [OF ok that] by (simp add: y arrived_def)
  have none: "items s [f] = []" if "s \<noteq> fr_session f" for s using that by (simp add: item_of_def)
  have rest: "distinct (dkeys (x_sessions y))" "\<And>u i. x_waiting y = Some (u, i) \<Longrightarrow> u < length (x_objects y)"
    "\<And>u. u < length (x_objects y) \<Longrightarrow> s_from (x_objects y ! u) \<le> length (x_read y) \<and> prefix (unexpired (accepted y u)) (arrived y u) \<and>
        (0 < sc_queue_size cfg \<longrightarrow> length (s_queue (x_objects y ! u)) \<le> sc_queue_size cfg)"
    using conn_owesD(1,4) [OF ok] conn_owesD(3) [OF ok] by (simp_all add: y acc [unfolded y] arr [unfolded y] prefix_def) (fastforce)+
  show "conn_owes cfg w (items (fr_session f) [f]) y" if at: "dget (x_sessions x) (fr_session f) = Some w"
    unfolding conn_owes_def
  proof (intro conjI allI impI)
    fix sid u assume "dget (x_sessions y) sid = Some u"
    then have a: "dget (x_sessions x) sid = Some u" by (simp add: y)
    note d = conn_owesD(2) [OF ok a]
    show "u < length (x_objects y)" "s_sid (x_objects y ! u) = sid" using d by (simp_all add: y)
    have iff: "u = w \<longleftrightarrow> sid = fr_session f" using d conn_owesD(2) [OF ok at] a at by auto
    show "unexpired (accepted y u) @ (if u = w then items (fr_session f) [f] else []) = arrived y u"
      using d arr [of u] none [of sid] iff by (auto simp: acc simp del: items_simps)
  qed (use rest in auto)
  show "conn_ok cfg y" if n: "dget (x_sessions x) (fr_session f) = None \<or> items (fr_session f) [f] = []"
    unfolding conn_ok_def conn_owes_def
  proof (intro conjI allI impI)
    fix sid u assume "dget (x_sessions y) sid = Some u"
    then have a: "dget (x_sessions x) sid = Some u" by (simp add: y)
    note d = conn_owesD(2) [OF ok a]
    show "u < length (x_objects y)" "s_sid (x_objects y ! u) = sid" using d by (simp_all add: y)
    have "items sid [f] = []" using n none [of sid] a by (cases "sid = fr_session f") auto
    then show "unexpired (accepted y u) @ (if u = 0 then [] else []) = arrived y u"
      using d arr [of u] by (simp add: acc del: items_simps)
  qed (use rest in auto)
qed

lemma put_frame:
  "length (x_objects (put_item cfg w i x)) = length (x_objects x)" "x_sessions (put_item cfg w i x) = x_sessions x"
  "x_read (put_item cfg w i x) = x_read x" "x_closed (put_item cfg w i x) = x_closed x"
  by (simp_all add: put_item_def)

lemma put_objects:
  assumes "w < length (x_objects x)"
  shows "s_sid (x_objects (put_item cfg w i x) ! u) = s_sid (x_objects x ! u)"
    "s_from (x_objects (put_item cfg w i x) ! u) = s_from (x_objects x ! u)"
    "0 < sc_queue_size cfg \<Longrightarrow> length (s_queue (x_objects x ! u)) \<le> sc_queue_size cfg \<Longrightarrow>
      length (s_queue (x_objects (put_item cfg w i x) ! u)) \<le> sc_queue_size cfg"
  using assms by (auto simp: put_item_def upd_session_nth queue_full_def)

lemma put_accepted:
  assumes "w < length (x_objects x)" and "x_waiting x = None"
  shows "accepted (put_item cfg w i x) u = accepted x u @ (if u = w then [i] else [])"
  using assms by (auto simp: put_item_def accepted_def upd_session_nth waiting_for_def)

lemma put_pays:
  assumes owes: "conn_owes cfg w [i] x" and none: "x_waiting x = None" and at: "dget (x_sessions x) sid = Some w" and i: "unexpired [i] = [i]"
  shows "conn_ok cfg (put_item cfg w i x)"
proof -
  let ?y = "put_item cfg w i x"
  have w: "w < length (x_objects x)" and eq: "unexpired (accepted x w) @ [i] = arrived x w" using conn_owesD(2) [OF owes at] by auto
  have arr: "arrived ?y u = arrived x u" for u by (simp add: arrived_def put_objects [OF w] put_frame)
  have acc: "unexpired (accepted ?y u) = unexpired (accepted x u) @ (if u = w then [i] else [])" for u
    using i by (simp add: put_accepted [OF w none])
  show ?thesis
    unfolding conn_ok_def conn_owes_def
  proof (intro conjI allI impI)
    fix sid' u assume "dget (x_sessions ?y) sid' = Some u"
    note d = conn_owesD(2) [OF owes this [unfolded put_frame]]
    show "u < length (x_objects ?y)" "s_sid (x_objects ?y ! u) = sid'" "unexpired (accepted ?y u) @ (if u = 0 then [] else []) = arrived ?y u"
      using d by (simp_all add: put_frame put_objects [OF w] arr acc)
  next
    fix u assume "u < length (x_objects ?y)"
    note d = conn_owesD(3) [OF owes this [unfolded put_frame]]
    show "s_from (x_objects ?y ! u) \<le> length (x_read ?y)" using d by (simp add: put_frame put_objects [OF w])
    show "prefix (unexpired (accepted ?y u)) (arrived ?y u)"
      unfolding acc arr using d eq by (cases "u = w") simp_all
    show "length (s_queue (x_objects ?y ! u)) \<le> sc_queue_size cfg" if "0 < sc_queue_size cfg"
      using d that by (simp add: put_objects [OF w])
  next
    fix u j assume "x_waiting ?y = Some (u, j)"
    then show "u < length (x_objects ?y)" using w none by (auto simp: put_item_def split: if_splits)
  qed (use conn_owesD(1) [OF owes] in \<open>simp add: put_frame\<close>)
qed

lemma get_owes:
  assumes "conn_owes cfg v0 is x" and "get_session sid now x = (r, y)"
  shows "conn_owes cfg v0 is y" and "r = dget (x_sessions x) sid" and "x_sessions y = x_sessions x" and "x_waiting y = x_waiting x"
    and "s_sid (x_objects y ! u) = s_sid (x_objects x ! u)"
  using assms upd_owes [OF assms(1), where f = "\<lambda>s. s\<lparr>s_active := now\<rparr>"] conn_owesD(2) [OF assms(1), where sid = sid] conn_owesD(3) [OF assms(1)]
  by (auto simp: get_session_def upd_session_nth split: option.splits)

lemma destroy_all_ok:
  assumes "conn_ok cfg x" shows "conn_ok cfg (destroy_all x)"
proof -
  have "conn_ok cfg (fold destroy_session sids x)" for sids
    using assms by (induction sids arbitrary: x) (simp_all add: conn_ok_def destroy_owes)
  then show ?thesis by (simp add: destroy_all_def)
qed

lemma close_ok:
  assumes "conn_ok cfg x" shows "conn_ok cfg (close_conn x)"
  using destroy_all_ok [OF assms]
  by (simp add: close_conn_def conn_ok_def conn_owes_def accepted_def arrived_def waiting_for_def)

lemma start_stream_ok:
  assumes "conn_ok cfg x" shows "conn_ok cfg (start_stream open_as now sid x)"
  using assms create_ok [OF assms] destroy_owes close_ok
  by (auto simp: start_stream_def conn_ok_def split: opened.splits stream_shape.splits)

lemma read_one_ok:
  assumes ok: "conn_ok cfg x" and none: "x_waiting x = None"
  shows "conn_ok cfg (read_one cfg opens now f x)"
proof -
  let ?y = "x\<lparr>x_read := x_read x @ [f]\<rparr>" and ?s = "fr_session f"
  have idle: "conn_ok cfg ?y" if "item_of ?s f = None" by (rule reading_owes(2) [OF ok refl]) (simp add: that)
  have data: "conn_ok cfg (case get_session ?s now ?y of (None, x') \<Rightarrow> x' | (Some u, x') \<Rightarrow>
      if big then destroy_session ?s (send_out (SentError ?s e) x') else put_item cfg u i x')"
    if i: "item_of ?s f = Some i" "unexpired [i] = [i]" for big e i
  proof (cases "dget (x_sessions x) ?s")
    case None
    then have "conn_ok cfg ?y" by (intro reading_owes(2) [OF ok refl]) simp
    then show ?thesis using None by (simp add: get_session_def)
  next
    case (Some w)
    obtain r y where g: "get_session ?s now ?y = (r, y)" by fastforce
    have o: "conn_owes cfg w [i] ?y" using reading_owes(1) [OF ok refl Some] by (simp add: i)
    note o' = get_owes [OF o g]
    have r: "r = Some w" using o'(2) Some by simp
    have at: "dget (x_sessions y) ?s = Some w" using o'(3) Some by simp
    have sid: "s_sid (x_objects y ! w) = ?s" using conn_owesD(2) [OF o'(1) at] by simp
    have "conn_ok cfg (destroy_session ?s (send_out (SentError ?s e) y))"
      by (rule destroy_pays [OF iffD2 [OF send_out_owes o'(1)]]) (simp add: sid)
    moreover have "conn_ok cfg (put_item cfg w i y)"
      by (rule put_pays [OF o'(1) _ at i(2)]) (simp add: o'(4) none)
    ultimately show ?thesis by (simp add: g r)
  qed
  have types: "fr_type f = type_number StreamChunk \<Longrightarrow> item_of ?s f = Some (Chunk (fr_payload f))"
    "fr_type f = type_number StreamEnd \<Longrightarrow> item_of ?s f = Some EndMark"
    "fr_type f \<noteq> type_number StreamChunk \<Longrightarrow> fr_type f \<noteq> type_number StreamEnd \<Longrightarrow> item_of ?s f = None"
    by (simp_all add: item_of_def)
  consider (chunk) "fr_type f = type_number StreamChunk" | (over) "fr_type f = type_number StreamEnd"
    | (other) "fr_type f \<noteq> type_number StreamChunk" "fr_type f \<noteq> type_number StreamEnd" by blast
  then show ?thesis
  proof cases
    case chunk
    show ?thesis using data [OF types(1) [OF chunk], where big = "sc_max_chunk cfg < length (fr_payload f)" and e = "''TOO_LARGE''"] chunk
      by (simp add: read_one_def dispatch_frame_def)
  next
    case over
    show ?thesis using data [OF types(2) [OF over], where big = False, unfolded if_False] over by (simp add: read_one_def dispatch_frame_def)
  next
    case other
    have y: "conn_ok cfg ?y" by (rule idle [OF types(3) [OF other]])
    show ?thesis using other start_stream_ok [OF y] y destroy_owes [of cfg 0 "[]" ?y ?s]
      by (simp add: read_one_def dispatch_frame_def conn_ok_def)
  qed
qed

section \<open>Runs\<close>

lemma take_owes:
  assumes "conn_owes cfg v0 is x" and "u < length (x_objects x)" shows "conn_owes cfg v0 is (take_item u x)"
proof (cases "s_queue (x_objects x ! u)")
  case (Cons i q)
  then show ?thesis using conn_owesD(3) [OF assms] unfolding take_item_def
    by simp (rule upd_owes [OF assms], auto)
qed (simp add: take_item_def assms)

lemma write_owes:
  assumes "conn_owes cfg v0 is x" and "u < length (x_objects x)" shows "conn_owes cfg v0 is (write_chunk u now p x)"
  using upd_owes [OF assms, where f = "\<lambda>s. s\<lparr>s_active := now\<rparr>"] conn_owesD(3) [OF assms] by (simp add: write_chunk_def)

lemma resume_ok:
  assumes "conn_ok cfg x" shows "conn_ok cfg (resume_put cfg x)"
proof (cases "x_waiting x")
  case (Some e)
  obtain u i where e: "e = (u, i)" by fastforce
  note ok = assms [unfolded conn_ok_def]
  have u: "u < length (x_objects x)" using conn_owesD(4) [OF ok] Some e by simp
  let ?x = "x\<lparr>x_waiting := None\<rparr>"
  have acc: "accepted (put_item cfg u i ?x) v = accepted x v" for v
    using put_accepted [where x = ?x and cfg = cfg and i = i and w = u and u = v] u Some by (auto simp: e accepted_def waiting_for_def)
  have "conn_owes cfg 0 [] (put_item cfg u i ?x)"
    by (rule conn_owes_frame [OF ok])
      (use u conn_owesD(1,3) [OF ok] Some e put_objects [where x = ?x and w = u and i = i and cfg = cfg] acc
       in \<open>auto simp: put_frame split: if_splits simp: put_item_def\<close>)
  then show ?thesis by (simp add: resume_put_def Some e conn_ok_def)
qed (simp add: resume_put_def assms)

lemma end_handler_ok:
  assumes "conn_ok cfg x" and "u < length (x_objects x)" shows "conn_ok cfg (end_handler u answer x)"
proof -
  let ?x = "x\<lparr>x_out := x_out x @ answer\<rparr>" and ?sid = "s_sid (x_objects x ! u)"
  have ok: "conn_owes cfg 0 [] ?x"
    using assms(1) by (simp add: conn_ok_def conn_owes_def accepted_def arrived_def waiting_for_def)
  note d = destroy_owes [OF ok, where sid = ?sid]
  have len: "length (x_objects (destroy_session ?sid ?x)) = length (x_objects x)"
    by (simp add: destroy_session_def split: option.splits)
  show ?thesis unfolding end_handler_def Let_def conn_ok_def
    by (rule upd_owes [OF d]) (use len assms(2) conn_owesD(3) [OF d] in auto)
qed

lemma conn_ok_expire:
  assumes "conn_owes cfg v0 is x" and "u < length (x_objects x)" and "\<not> queue_full cfg (x_objects x ! u)"
  shows "conn_owes cfg v0 is (upd_session u (\<lambda>s. s\<lparr>s_queue := s_queue s @ [Expired]\<rparr>) x)"
  by (rule upd_owes [OF assms(1,2)]) (use assms(3) in \<open>auto simp: queue_full_def\<close>)

lemma destroy_length [simp]: "length (x_objects (destroy_session sid x)) = length (x_objects x)"
  by (simp add: destroy_session_def split: option.splits)

lemma reap_session_ok:
  assumes "conn_ok cfg x" and "snd e < length (x_objects x)"
  shows "conn_ok cfg (reap_session cfg now e x)" and "length (x_objects (reap_session cfg now e x)) = length (x_objects x)"
  using assms by (auto simp: reap_session_def conn_ok_def intro!: destroy_owes conn_ok_expire split: prod.splits)

lemma entries_in_range:
  assumes "conn_ok cfg x" and "e \<in> set (x_sessions x)" shows "snd e < length (x_objects x)"
proof -
  have "dget (x_sessions x) (fst e) = Some (snd e)"
    by (rule map_of_is_SomeI [OF conn_owesD(1) [OF assms(1) [unfolded conn_ok_def]]]) (simp add: assms(2))
  then show ?thesis using conn_owesD(2) [OF assms(1) [unfolded conn_ok_def]] by simp
qed

lemma reap_ok:
  assumes "conn_ok cfg x" shows "conn_ok cfg (reap_expired cfg now x)"
proof -
  have "conn_ok cfg (fold (reap_session cfg now) es y)"
    if "conn_ok cfg y" "\<forall>e \<in> set es. snd e < length (x_objects y)" for es y
    using that by (induction es arbitrary: y) (simp_all add: reap_session_ok)
  then show ?thesis using assms entries_in_range [OF assms] by (simp add: reap_expired_def)
qed

lemma step_ok:
  assumes "conn_step cfg opens x y" and "conn_ok cfg x" shows "conn_ok cfg y"
  using assms by (cases rule: conn_step.cases)
    (simp_all add: read_one_ok resume_ok end_handler_ok reap_ok close_ok
      take_owes [of cfg 0 "[]", folded conn_ok_def] write_owes [of cfg 0 "[]", folded conn_ok_def])

lemma run_ok:
  assumes "conn_run cfg opens new_conn x" shows "conn_ok cfg x"
  using assms
proof (induction rule: rtranclp_induct)
  case base
  show ?case by (simp add: conn_ok_def conn_owes_def new_conn_def)
qed (rule step_ok)

text \<open>
  C23: whatever the peer sends and whenever the handlers take, end, time out or are cancelled: the chunks a handler
  has taken, with the end mark, are the first of those of its session number that arrived after it started, in
  their order, none lost and none twice; and the queue never holds more than its configured size.
\<close>

theorem chunks_in_order:
  assumes "conn_run cfg opens new_conn x" and "u < length (x_objects x)"
  shows "prefix (unexpired (s_taken (x_objects x ! u))) (arrived x u) \<and>
    (0 < sc_queue_size cfg \<longrightarrow> length (s_queue (x_objects x ! u)) \<le> sc_queue_size cfg)"
proof -
  note d = conn_owesD(3) [OF run_ok [OF assms(1), unfolded conn_ok_def] assms(2)]
  have "prefix (unexpired (s_taken (x_objects x ! u))) (unexpired (accepted x u))" by (simp add: accepted_def)
  then show ?thesis using d prefix_order.trans by blast
qed

lemma chunks_in_order_witness:
  "\<exists>(cfg :: socket_config) (opens :: buffer \<Rightarrow> opened) x. conn_run cfg opens new_conn x \<and>
     arrived x 0 = [Chunk [7], EndMark] \<and> prefix (unexpired (s_taken (x_objects x ! 0))) (arrived x 0)"
proof -
  let ?cfg = "\<lparr>sc_timeout = 60, sc_max_chunk = 8, sc_queue_size = 2\<rparr>" and ?o = "\<lambda>_ :: buffer. Opens Upload"
  let ?f = "\<lambda>t p. \<lparr>fr_type = type_number t, fr_session = 1, fr_payload = p\<rparr>"
  let ?r = "\<lambda>t p. read_one ?cfg ?o 0 (?f t p)"
  let ?x1 = "?r StreamStart [] new_conn"
  let ?x2 = "?r StreamChunk [7] ?x1"
  let ?x3 = "?r StreamEnd [] ?x2"
  let ?x4 = "take_item 0 ?x3"
  have "conn_step ?cfg ?o new_conn ?x1" by (rule conn_step.Read) code_simp+
  moreover have "conn_step ?cfg ?o ?x1 ?x2" by (rule conn_step.Read) code_simp+
  moreover have "conn_step ?cfg ?o ?x2 ?x3" by (rule conn_step.Read) code_simp+
  moreover have "conn_step ?cfg ?o ?x3 ?x4" by (rule conn_step.Take) code_simp+
  ultimately have run: "conn_run ?cfg ?o new_conn ?x4" by (meson converse_rtranclp_into_rtranclp rtranclp.rtrancl_refl)
  have a: "arrived ?x4 0 = [Chunk [7], EndMark]" and n: "0 < length (x_objects ?x4)" by code_simp+
  show ?thesis using run a chunks_in_order [OF run n] by blast
qed

section \<open>A handler that ends early\<close>

definition blocked_for_good :: "socket_config \<Rightarrow> frame list \<Rightarrow> nat \<Rightarrow> conn \<Rightarrow> bool" where
  "blocked_for_good cfg fs u x \<longleftrightarrow> (\<exists>i. x_waiting x = Some (u, i)) \<and> u < length (x_objects x) \<and> \<not> s_running (x_objects x ! u) \<and>
     queue_full cfg (x_objects x ! u) \<and> x_read x = fs \<and> \<not> x_closed x"

lemma blocked_upd:
  assumes "blocked_for_good cfg fs u x" and "w < length (x_objects x)"
    and "w = u \<Longrightarrow> s_queue (f (x_objects x ! u)) = s_queue (x_objects x ! u) \<and> \<not> s_running (f (x_objects x ! u))"
  shows "blocked_for_good cfg fs u (upd_session w f x)"
  using assms by (auto simp: blocked_for_good_def upd_session_nth queue_full_def)

lemma blocked_destroy:
  assumes "blocked_for_good cfg fs u x" and "conn_ok cfg x" shows "blocked_for_good cfg fs u (destroy_session sid x)"
proof (cases "dget (x_sessions x) sid")
  case (Some w)
  have w: "w < length (x_objects x)" using conn_owesD(2) [OF assms(2) [unfolded conn_ok_def] Some] by simp
  have b: "blocked_for_good cfg fs u (x\<lparr>x_sessions := ddel sid (x_sessions x)\<rparr>)" using assms(1) by (simp add: blocked_for_good_def)
  show ?thesis unfolding destroy_session_def Some option.case
    by (rule blocked_upd [OF b]) (use w assms(1) in \<open>auto simp: blocked_for_good_def\<close>)
qed (simp add: destroy_session_def assms)

lemma blocked_reap:
  assumes "blocked_for_good cfg fs u x" and "conn_ok cfg x" and "snd e < length (x_objects x)"
  shows "blocked_for_good cfg fs u (reap_session cfg now e x)"
proof -
  obtain sid w where e: "e = (sid, w)" by fastforce
  have w: "w < length (x_objects x)" using assms(3) e by simp
  have "blocked_for_good cfg fs u (upd_session w (\<lambda>s. s\<lparr>s_queue := s_queue s @ [Expired]\<rparr>) x)" if "\<not> queue_full cfg (x_objects x ! w)"
    by (rule blocked_upd [OF assms(1) w]) (use that assms(1) in \<open>simp add: blocked_for_good_def\<close>)
  then show ?thesis using assms blocked_destroy conn_ok_expire w
    by (auto simp: reap_session_def e conn_ok_def)
qed

lemma blocked_reap_all:
  assumes "blocked_for_good cfg fs u x" and "conn_ok cfg x" and "\<forall>e \<in> set es. snd e < length (x_objects x)"
  shows "blocked_for_good cfg fs u (fold (reap_session cfg now) es x)"
  using assms
proof (induction es arbitrary: x)
  case (Cons e es)
  show ?case using Cons by (simp add: blocked_reap reap_session_ok)
qed simp

lemma blocked_step:
  assumes "conn_step cfg opens x y" and "blocked_for_good cfg fs u x" and "conn_ok cfg x"
  shows "blocked_for_good cfg fs u y"
  using assms(1)
proof (cases rule: conn_step.cases)
  case (Take w)
  have "w \<noteq> u" using Take assms(2) by (auto simp: blocked_for_good_def)
  then show ?thesis using Take blocked_upd [OF assms(2)] assms(2) by (auto simp: take_item_def split: list.splits)
next
  case (Writes w now p)
  have "blocked_for_good cfg fs u (upd_session w (\<lambda>s. s\<lparr>s_active := now\<rparr>) x)"
    by (rule blocked_upd [OF assms(2)]) (use Writes assms(2) in \<open>auto simp: blocked_for_good_def\<close>)
  then show ?thesis by (simp add: Writes(1) write_chunk_def blocked_for_good_def)
next
  case (Ends w answer)
  have n: "w \<noteq> u" using Ends assms(2) by (auto simp: blocked_for_good_def)
  let ?x = "x\<lparr>x_out := x_out x @ answer\<rparr>"
  have "blocked_for_good cfg fs u ?x" "conn_ok cfg ?x"
    using assms(2,3) by (simp_all add: blocked_for_good_def conn_ok_def conn_owes_def accepted_def arrived_def waiting_for_def)
  then show ?thesis unfolding Ends(1) end_handler_def Let_def
    by (intro blocked_upd blocked_destroy) (use Ends n in auto)
next
  case (Resume e)
  obtain i where i: "x_waiting x = Some (u, i)" and full: "queue_full cfg (x_objects x ! u)"
    using assms(2) by (auto simp: blocked_for_good_def)
  have "y = x" unfolding Resume(1) resume_put_def using i full by (simp add: put_item_def)
  then show ?thesis using assms(2) by simp
next
  case (Reap now)
  then show ?thesis using blocked_reap_all [OF assms(2,3)] entries_in_range [OF assms(3)] by (simp add: reap_expired_def)
qed (use assms(2) in \<open>auto simp: blocked_for_good_def\<close>)

lemma blocked_run:
  assumes "conn_run cfg opens x y" and "blocked_for_good cfg fs u x" and "conn_ok cfg x"
  shows "blocked_for_good cfg fs u y \<and> conn_ok cfg y"
  using assms(1) by (induction rule: rtranclp_induct) (use assms(2,3) blocked_step step_ok in blast)+

text \<open>A stream that is opened and receives \<open>n\<close> empty chunks while its handler takes none.\<close>

definition opened_with :: "nat \<Rightarrow> conn \<Rightarrow> bool" where
  "opened_with n x \<longleftrightarrow> x_sessions x = [(1, 0)] \<and> x_waiting x = None \<and> \<not> x_closed x \<and>
     (\<exists>s. x_objects x = [s] \<and> s_sid s = 1 \<and> s_running s \<and> length (s_queue s) = n)"

definition empty_chunk :: frame where
  "empty_chunk = \<lparr>fr_type = type_number StreamChunk, fr_session = 1, fr_payload = []\<rparr>"

lemma opened_more:
  assumes "opened_with n x" and "n < sc_queue_size cfg"
  shows "opened_with (Suc n) (read_one cfg opens 0 empty_chunk x)"
  using assms by (auto simp: opened_with_def read_one_def dispatch_frame_def empty_chunk_def get_session_def upd_session_def
      put_item_def queue_full_def)

lemma opened_runs:
  assumes "opens p = Opens Upload" and "n \<le> sc_queue_size cfg"
  shows "\<exists>x. conn_run cfg opens new_conn x \<and> opened_with n x"
  using assms(2)
proof (induction n)
  case 0
  let ?f = "\<lparr>fr_type = type_number StreamStart, fr_session = 1, fr_payload = p\<rparr>"
  have "conn_step cfg opens new_conn (read_one cfg opens 0 ?f new_conn)" by (rule conn_step.Read) (simp_all add: new_conn_def)
  moreover have "opened_with 0 (read_one cfg opens 0 ?f new_conn)"
    by (simp add: opened_with_def read_one_def dispatch_frame_def start_stream_def assms(1) create_session_def new_conn_def)
  ultimately show ?case by (meson r_into_rtranclp)
next
  case (Suc n)
  then obtain x where x: "conn_run cfg opens new_conn x" "opened_with n x" by auto
  have "conn_step cfg opens x (read_one cfg opens 0 empty_chunk x)" using x(2) by (intro conn_step.Read) (auto simp: opened_with_def)
  then show ?case using x opened_more [OF x(2)] Suc.prems by (meson Suc_le_lessD rtranclp.rtrancl_into_rtrancl)
qed

text \<open>
  With a bounded queue, a connection can reach a state in which every handler has ended and yet, whatever
  happens, it never reads another frame and is never closed: the chunk the read loop tries to put waits for a
  place in the queue of a handler that is gone.
\<close>
theorem early_end_hangs_connection:
  assumes "0 < sc_queue_size cfg" and "opens p = Opens Upload"
  shows "\<exists>x. conn_run cfg opens new_conn x \<and> (\<forall>s \<in> set (x_objects x). \<not> s_running s) \<and>
    (\<forall>y. conn_run cfg opens x y \<longrightarrow> x_waiting y \<noteq> None \<and> x_read y = x_read x \<and> \<not> x_closed y)"
proof -
  obtain x where x: "conn_run cfg opens new_conn x" "opened_with (sc_queue_size cfg) x" using opened_runs [where cfg = cfg and n = "sc_queue_size cfg" and opens = opens and p = p] assms(2) by auto
  obtain s where s: "x_objects x = [s]" "s_sid s = 1" "s_running s" "length (s_queue s) = sc_queue_size cfg" and
    at: "x_sessions x = [(1, 0)]" "x_waiting x = None" "\<not> x_closed x" using x(2) by (auto simp: opened_with_def)
  let ?y = "read_one cfg opens 0 empty_chunk x"
  let ?z = "end_handler 0 [] ?y"
  have y: "conn_run cfg opens new_conn ?y" using x(1) conn_step.Read [OF at(2,3)] by (rule rtranclp.rtrancl_into_rtrancl)
  have full: "x_waiting ?y = Some (0, Chunk []) \<and> x_objects ?y = [s\<lparr>s_active := 0\<rparr>] \<and> x_sessions ?y = [(1, 0)] \<and> \<not> x_closed ?y"
    using s at assms(1) by (simp add: read_one_def dispatch_frame_def empty_chunk_def get_session_def upd_session_def put_item_def queue_full_def)
  have "conn_step cfg opens ?y ?z" by (rule conn_step.Ends) (use full s in auto)
  then have z: "conn_run cfg opens new_conn ?z" by (rule rtranclp.rtrancl_into_rtrancl [OF y])
  have b: "blocked_for_good cfg (x_read ?z) 0 ?z" and e: "\<forall>s \<in> set (x_objects ?z). \<not> s_running s"
    using full s assms(1) by (auto simp: end_handler_def destroy_session_def upd_session_def blocked_for_good_def queue_full_def)
  have "x_waiting w \<noteq> None \<and> x_read w = x_read ?z \<and> \<not> x_closed w" if "conn_run cfg opens ?z w" for w
  proof -
    have "blocked_for_good cfg (x_read ?z) 0 w" using blocked_run [OF that b run_ok [OF z]] ..
    then show ?thesis unfolding blocked_for_good_def by (elim conjE exE) simp
  qed
  then have hang: "\<forall>w. conn_run cfg opens ?z w \<longrightarrow> x_waiting w \<noteq> None \<and> x_read w = x_read ?z \<and> \<not> x_closed w"
    by (intro allI impI)
  show ?thesis by (rule exI [of _ ?z], intro conjI) (rule z e hang)+
qed

lemma early_end_hangs_connection_witness:
  "\<exists>x. conn_run \<lparr>sc_timeout = 60, sc_max_chunk = 8, sc_queue_size = 2\<rparr> (\<lambda>_. Opens Upload) new_conn x \<and>
     (\<forall>s \<in> set (x_objects x). \<not> s_running s) \<and> x_waiting x \<noteq> None"
  using early_end_hangs_connection [of "\<lparr>sc_timeout = 60, sc_max_chunk = 8, sc_queue_size = 2\<rparr>" "\<lambda>_. Opens Upload" "[]"]
  by fastforce

end
