(* ===== verification/Grpc_Lock.thy ===== *)
theory Grpc_Lock
  imports Prelude "HOL-Library.List_Lexorder" "HOL-Library.Char_ord"
begin

text \<open>
  The numbers of protobuf fields and the lock file that keeps them (\<open>xime/adapters/grpc/codefirst/_lock.py\<close>).
  Field numbers are natural numbers; a file is the JSON value it holds.
\<close>

section \<open>The lock\<close>

record message_lock =
  lk_fields :: "(string, nat) dict"
  lk_numbers :: "nat list"
  lk_names :: "string list"

type_synonym lock_file = "(string, message_lock) dict"

definition no_lock :: message_lock where
  "no_lock = \<lparr>lk_fields = [], lk_numbers = [], lk_names = []\<rparr>"

definition lock_of :: "lock_file \<Rightarrow> string \<Rightarrow> message_lock" where
  "lock_of l m = dget_default no_lock l m"

definition known_numbers :: "message_lock \<Rightarrow> string list \<Rightarrow> (string, nat) dict" where
  "known_numbers rec fs = fold (\<lambda>f d. case dget (lk_fields rec) f of Some n \<Rightarrow> dset f n d | None \<Rightarrow> d) fs []"

definition used_numbers :: "message_lock \<Rightarrow> nat set" where
  "used_numbers rec = set (dvals (lk_fields rec)) \<union> set (lk_numbers rec)"

definition next_number :: "message_lock \<Rightarrow> nat" where
  "next_number rec = (if used_numbers rec = {} then 1 else Max (used_numbers rec) + 1)"

fun number_new :: "string list \<Rightarrow> nat \<Rightarrow> (string, nat) dict \<Rightarrow> (string, nat) dict" where
  "number_new [] n d = d"
| "number_new (f # fs) n d = (if f \<in> set (dkeys d) then number_new fs n d else number_new fs (n + 1) (dset f n d))"

definition add_once :: "'a \<Rightarrow> 'a list \<Rightarrow> 'a list" where
  "add_once x xs = (if x \<in> set xs then xs else xs @ [x])"

definition retire_one :: "string list \<Rightarrow> string \<times> nat \<Rightarrow> message_lock \<Rightarrow> message_lock" where
  "retire_one fs e r =
     (case e of (f, n) \<Rightarrow> if f \<in> set fs then r
        else r\<lparr>lk_numbers := add_once n (lk_numbers r), lk_names := add_once f (lk_names r)\<rparr>)"

definition retire_missing :: "string list \<Rightarrow> message_lock \<Rightarrow> message_lock" where
  "retire_missing fs rec = fold (retire_one fs) (lk_fields rec) rec"

definition assign_numbers :: "string \<Rightarrow> string list \<Rightarrow> lock_file \<Rightarrow> (string, nat) dict \<times> lock_file" where
  "assign_numbers m fs l =
     (let rec = lock_of l m;
          result = number_new fs (next_number rec) (known_numbers rec fs);
          rec' = retire_missing fs rec
      in (result, dset m (rec'\<lparr>lk_fields := result, lk_numbers := sort (lk_numbers rec')\<rparr>) l))"

section \<open>The file\<close>

datatype json = JNum nat | JStr string | JList "json list" | JObj "(string, json) dict"

definition lock_version :: nat where "lock_version = 1"

definition record_json :: "message_lock \<Rightarrow> json" where
  "record_json rec = JObj [(''fields'', JObj (map (\<lambda>(f, n). (f, JNum n)) (lk_fields rec))),
     (''reserved_numbers'', JList (map JNum (lk_numbers rec))), (''reserved_names'', JList (map JStr (lk_names rec)))]"

definition lock_json :: "lock_file \<Rightarrow> json" where
  "lock_json l = JObj [(''version'', JNum lock_version),
     (''messages'', JObj (map (\<lambda>(m, rec). (m, record_json rec)) (sort_key fst l)))]"

text \<open>\<open>load\<close> of an absent file is an empty lock; \<open>None\<close> stands for a value that is not of the shape of a lock file.\<close>

definition the_obj :: "json \<Rightarrow> (string, json) dict option" where
  "the_obj j = (case j of JObj d \<Rightarrow> Some d | _ \<Rightarrow> None)"

definition the_num :: "json \<Rightarrow> nat option" where
  "the_num j = (case j of JNum n \<Rightarrow> Some n | _ \<Rightarrow> None)"

definition the_str :: "json \<Rightarrow> string option" where
  "the_str j = (case j of JStr s \<Rightarrow> Some s | _ \<Rightarrow> None)"

fun all_some :: "'a option list \<Rightarrow> 'a list option" where
  "all_some [] = Some []"
| "all_some (x # xs) = (case (x, all_some xs) of (Some y, Some ys) \<Rightarrow> Some (y # ys) | _ \<Rightarrow> None)"

definition load_record :: "json \<Rightarrow> message_lock option" where
  "load_record j =
     (case the_obj j of
        None \<Rightarrow> None
      | Some d \<Rightarrow>
          case (the_obj (dget_default (JObj []) d ''fields''), dget_default (JList []) d ''reserved_numbers'',
                dget_default (JList []) d ''reserved_names'') of
            (Some fs, JList ns, JList ss) \<Rightarrow>
              (case (all_some (map (\<lambda>(f, n). map_option (Pair f) (the_num n)) fs), all_some (map the_num ns), all_some (map the_str ss)) of
                 (Some fs', Some ns', Some ss') \<Rightarrow> Some \<lparr>lk_fields = fs', lk_numbers = ns', lk_names = ss'\<rparr>
               | _ \<Rightarrow> None)
          | _ \<Rightarrow> None)"

definition load_lock :: "json option \<Rightarrow> lock_file option" where
  "load_lock file =
     (case file of
        None \<Rightarrow> Some []
      | Some j \<Rightarrow>
          case the_obj j of
            None \<Rightarrow> None
          | Some d \<Rightarrow>
              case the_obj (dget_default (JObj []) d ''messages'') of
                None \<Rightarrow> None
              | Some ms \<Rightarrow> all_some (map (\<lambda>(m, r). map_option (Pair m) (load_record r)) ms))"

section \<open>Saving and loading\<close>

lemma all_some_map: "(\<And>x. x \<in> set xs \<Longrightarrow> f x = Some (g x)) \<Longrightarrow> all_some (map f xs) = Some (map g xs)"
  by (induction xs) auto

lemma load_record_json: "load_record (record_json rec) = Some rec"
proof -
  have "all_some (map ((\<lambda>(f, n). map_option (Pair f) (the_num n)) \<circ> (\<lambda>(f, n). (f, JNum n))) (lk_fields rec)) = Some (lk_fields rec)"
    by (subst all_some_map [where g = id]) (auto simp: the_num_def)
  moreover have "all_some (map (the_num \<circ> JNum) ns) = Some ns" "all_some (map (the_str \<circ> JStr) ss) = Some ss" for ns ss
    by (induction ns) (simp_all add: the_num_def, induction ss, simp_all add: the_str_def)
  ultimately show ?thesis
    by (simp add: load_record_def record_json_def the_obj_def dget_default_def)
qed

lemma load_lock_json: "load_lock (Some (lock_json l)) = Some (sort_key fst l)"
proof -
  have "all_some (map ((\<lambda>(m, r). map_option (Pair m) (load_record r)) \<circ> (\<lambda>(m, rec). (m, record_json rec))) (sort_key fst l))
    = Some (sort_key fst l)"
    by (subst all_some_map [where g = id]) (auto simp: load_record_json)
  then show ?thesis by (simp add: load_lock_def lock_json_def the_obj_def dget_default_def)
qed

lemma dget_sort_key:
  assumes "distinct (dkeys l)" shows "dget (sort_key fst l) k = dget l k"
proof -
  have "distinct (dkeys (sort_key fst l))"
    using assms by (metis distinct_map distinct_sort inj_on_def set_sort)
  then show ?thesis using assms by (metis map_of_inject_set set_sort)
qed

section \<open>One assignment\<close>

text \<open>What a record promises: a name once, a number once, and no number in use that is retired.\<close>

definition numbers_once :: "(string, nat) dict \<Rightarrow> bool" where
  "numbers_once d \<longleftrightarrow> (\<forall>f g n. dget d f = Some n \<longrightarrow> dget d g = Some n \<longrightarrow> f = g)"

definition rec_ok :: "message_lock \<Rightarrow> bool" where
  "rec_ok rec \<longleftrightarrow> distinct (dkeys (lk_fields rec)) \<and> numbers_once (lk_fields rec) \<and>
     (\<forall>f n. dget (lk_fields rec) f = Some n \<longrightarrow> n \<notin> set (lk_numbers rec))"

lemma dget_known: "dget (known_numbers rec fs) f = (if f \<in> set fs then dget (lk_fields rec) f else None)"
proof -
  have "dget (fold (\<lambda>f d. case dget (lk_fields rec) f of Some n \<Rightarrow> dset f n d | None \<Rightarrow> d) fs d) f =
      (if f \<in> set fs \<and> dget (lk_fields rec) f \<noteq> None then dget (lk_fields rec) f else dget d f)" for d
    by (induction fs arbitrary: d) (auto split: option.splits)
  then show ?thesis by (simp add: known_numbers_def)
qed

lemma distinct_known: "distinct (dkeys (known_numbers rec fs))"
proof -
  have "distinct (dkeys d) \<Longrightarrow>
      distinct (dkeys (fold (\<lambda>f d. case dget (lk_fields rec) f of Some n \<Rightarrow> dset f n d | None \<Rightarrow> d) fs d))" for d
    by (induction fs arbitrary: d) (auto simp: distinct_update split: option.splits)
  then show ?thesis by (simp add: known_numbers_def)
qed

lemma number_new_keys: "set (dkeys (number_new fs n d)) = set (dkeys d) \<union> set fs"
  by (induction fs n d rule: number_new.induct) auto

lemma number_new_distinct: "distinct (dkeys d) \<Longrightarrow> distinct (dkeys (number_new fs n d))"
  by (induction fs n d rule: number_new.induct) (auto simp: distinct_update)

lemma number_new_old: "dget d f = Some v \<Longrightarrow> dget (number_new fs n d) f = Some v"
proof (induction fs n d rule: number_new.induct)
  case (2 g fs n d)
  have "f \<noteq> g" if "g \<notin> set (dkeys d)" using 2(3) that dget_Some_keys by metis
  then show ?case using 2 by simp
qed simp

lemma number_new_fresh: "dget (number_new fs n d) f = Some v \<Longrightarrow> dget d f = None \<Longrightarrow> n \<le> v"
proof (induction fs n d rule: number_new.induct)
  case (2 g fs n d)
  consider (known) "g \<in> set (dkeys d)" | (this) "g \<notin> set (dkeys d)" "f = g" | (other) "g \<notin> set (dkeys d)" "f \<noteq> g" by blast
  then show ?case
  proof cases
    case this
    then have "dget (number_new (g # fs) n d) f = Some n" by (simp add: number_new_old)
    then show ?thesis using 2(3) by simp
  qed (use 2 in force)+
qed simp

lemma number_new_once:
  "\<forall>f v. dget d f = Some v \<longrightarrow> v < n \<Longrightarrow> numbers_once d \<Longrightarrow> numbers_once (number_new fs n d)"
proof (induction fs n d rule: number_new.induct)
  case (2 f fs n d)
  have "numbers_once (dset f n d)" using 2(3,4) by (auto simp: numbers_once_def)
  moreover have "\<forall>g v. dget (dset f n d) g = Some v \<longrightarrow> v < n + 1" using 2(3) by (auto simp: less_Suc_eq)
  ultimately show ?case using 2(1) [OF _ 2(3,4)] 2(2) by (cases "f \<in> set (dkeys d)") simp_all
qed simp

lemma retire_fields: "lk_fields (retire_missing fs rec) = lk_fields rec"
proof -
  have "lk_fields (fold (retire_one fs) es r) = lk_fields r" for es r
    by (induction es arbitrary: r) (auto simp: retire_one_def)
  then show ?thesis by (simp add: retire_missing_def)
qed

lemma retire_numbers:
  "set (lk_numbers (retire_missing fs rec)) = set (lk_numbers rec) \<union> {n. \<exists>f. (f, n) \<in> set (lk_fields rec) \<and> f \<notin> set fs}"
  "set (lk_names (retire_missing fs rec)) = set (lk_names rec) \<union> {f \<in> set (dkeys (lk_fields rec)). f \<notin> set fs}"
proof -
  have one: "set (lk_numbers (retire_one fs (f, n) r)) = set (lk_numbers r) \<union> (if f \<in> set fs then {} else {n})"
    "set (lk_names (retire_one fs (f, n) r)) = set (lk_names r) \<union> (if f \<in> set fs then {} else {f})" for f n r
    by (auto simp: retire_one_def add_once_def)
  have "set (lk_numbers (fold (retire_one fs) es r)) = set (lk_numbers r) \<union> {n. \<exists>f. (f, n) \<in> set es \<and> f \<notin> set fs}"
    "set (lk_names (fold (retire_one fs) es r)) = set (lk_names r) \<union> {f \<in> set (dkeys es). f \<notin> set fs}" for es r
  proof (induction es arbitrary: r)
    case (Cons e es)
    obtain f n where e: "e = (f, n)" by fastforce
    {
      case 1 show ?case using Cons(1) [of "retire_one fs e r"] by (auto simp: e one)
    next
      case 2 show ?case using Cons(2) [of "retire_one fs e r"] by (auto simp: e one)
    }
  qed simp_all
  then show "set (lk_numbers (retire_missing fs rec)) = set (lk_numbers rec) \<union> {n. \<exists>f. (f, n) \<in> set (lk_fields rec) \<and> f \<notin> set fs}"
    "set (lk_names (retire_missing fs rec)) = set (lk_names rec) \<union> {f \<in> set (dkeys (lk_fields rec)). f \<notin> set fs}"
    by (simp_all add: retire_missing_def)
qed

lemma finite_used: "finite (used_numbers rec)"
  by (simp add: used_numbers_def)

lemma next_number_fresh: "n \<in> used_numbers rec \<Longrightarrow> n < next_number rec"
  using Max_ge [OF finite_used] by (auto simp: next_number_def less_Suc_eq_le)

text \<open>The record after an assignment, and what a field's number is in it.\<close>

lemma assign_spec:
  assumes ok: "rec_ok (lock_of l m)" and run: "assign_numbers m fs l = (r, l')"
  shows "rec_ok (lock_of l' m)" and "lk_fields (lock_of l' m) = r" and "set (dkeys r) = set fs"
    and "f \<in> set fs \<Longrightarrow> dget (lk_fields (lock_of l m)) f = Some n \<Longrightarrow> dget r f = Some n"
    and "dget r f = Some n \<Longrightarrow> dget (lk_fields (lock_of l m)) f \<noteq> Some n \<Longrightarrow> n \<notin> used_numbers (lock_of l m)"
    and "set (lk_numbers (lock_of l' m)) = set (lk_numbers (lock_of l m)) \<union>
      {n. \<exists>f. dget (lk_fields (lock_of l m)) f = Some n \<and> f \<notin> set fs}"
    and "m' \<noteq> m \<Longrightarrow> lock_of l' m' = lock_of l m'"
proof -
  let ?rec = "lock_of l m" and ?k = "known_numbers (lock_of l m) fs"
  have r: "r = number_new fs (next_number ?rec) ?k" and l': "l' = dset m ((retire_missing fs ?rec)\<lparr>lk_fields := r,
      lk_numbers := sort (lk_numbers (retire_missing fs ?rec))\<rparr>) l"
    using run by (auto simp: assign_numbers_def Let_def)
  have at: "lock_of l' m = (retire_missing fs ?rec)\<lparr>lk_fields := r, lk_numbers := sort (lk_numbers (retire_missing fs ?rec))\<rparr>"
    unfolding l' by (simp add: lock_of_def dget_default_def)
  show fields: "lk_fields (lock_of l' m) = r" by (simp add: at)
  show "set (dkeys r) = set fs"
    unfolding r number_new_keys using dget_Some_keys dget_known [of ?rec fs]
    by (metis (no_types, lifting) Un_absorb1 dget_None_keys subsetI)
  show keep: "dget r f = Some n" if "f \<in> set fs" "dget (lk_fields ?rec) f = Some n" for f n
    unfolding r by (rule number_new_old) (simp add: dget_known that)
  show fresh: "n \<notin> used_numbers ?rec" if "dget r f = Some n" "dget (lk_fields ?rec) f \<noteq> Some n" for f n
  proof
    assume u: "n \<in> used_numbers ?rec"
    have "dget ?k f = None"
    proof (cases "dget ?k f")
      case (Some v)
      have "dget r f = Some v" unfolding r by (rule number_new_old [OF Some])
      then show ?thesis using that Some by (simp add: dget_known split: if_splits)
    qed
    then have "next_number ?rec \<le> n" using that(1) unfolding r by (rule number_new_fresh [rotated])
    then show False using next_number_fresh [OF u] by simp
  qed
  have fields_iff: "(f, n) \<in> set (lk_fields ?rec) \<longleftrightarrow> dget (lk_fields ?rec) f = Some n" for f n
    by (rule map_of_eq_Some_iff [symmetric]) (use ok in \<open>simp add: rec_ok_def\<close>)
  show nums: "set (lk_numbers (lock_of l' m)) = set (lk_numbers ?rec) \<union> {n. \<exists>f. dget (lk_fields ?rec) f = Some n \<and> f \<notin> set fs}"
    by (simp add: at retire_numbers fields_iff)
  have once: "numbers_once ?k"
    using ok by (auto simp: rec_ok_def numbers_once_def dget_known split: if_splits)
  have below: "v < next_number ?rec" if "dget ?k f = Some v" for f v
  proof -
    have "(f, v) \<in> set (lk_fields ?rec)" using that fields_iff by (simp add: dget_known split: if_splits)
    then show ?thesis by (intro next_number_fresh) (force simp: used_numbers_def)
  qed
  have inj: "numbers_once r" unfolding r by (rule number_new_once) (use below once in auto)
  have "n \<notin> set (lk_numbers (lock_of l' m))" if a: "dget r f = Some n" for f n
  proof (cases "dget (lk_fields ?rec) f = Some n")
    case True
    have "f \<in> set fs" using a \<open>set (dkeys r) = set fs\<close> dget_Some_keys by metis
    moreover have "n \<notin> set (lk_numbers ?rec)" using True ok by (simp add: rec_ok_def)
    moreover have "g = f" if "dget (lk_fields ?rec) g = Some n" for g using True ok that by (auto simp: rec_ok_def numbers_once_def)
    ultimately show ?thesis unfolding nums by auto
  next
    case False
    then show ?thesis using fresh [OF a False] fields_iff unfolding nums used_numbers_def by force
  qed
  then show "rec_ok (lock_of l' m)"
    unfolding rec_ok_def fields using inj number_new_distinct [OF distinct_known] by (simp add: r)
  show "m' \<noteq> m \<Longrightarrow> lock_of l' m' = lock_of l m'" unfolding l' by (simp add: lock_of_def dget_default_def)
qed

section \<open>Histories\<close>

text \<open>
  A build assigns the numbers of its messages one after the other; between builds the lock is saved and loaded.
\<close>

datatype lock_op = Assign string "string list" | Reload

definition lock_step :: "lock_op \<Rightarrow> lock_file \<Rightarrow> lock_file" where
  "lock_step op l =
     (case op of
        Assign m fs \<Rightarrow> snd (assign_numbers m fs l)
      | Reload \<Rightarrow> (case load_lock (Some (lock_json l)) of Some l' \<Rightarrow> l' | None \<Rightarrow> []))"

definition lock_after :: "lock_op list \<Rightarrow> lock_file" where
  "lock_after ops = fold lock_step ops []"

definition numbers_now :: "string \<Rightarrow> string list \<Rightarrow> lock_file \<Rightarrow> (string, nat) dict" where
  "numbers_now m fs l = fst (assign_numbers m fs l)"

definition lock_ok :: "lock_file \<Rightarrow> bool" where
  "lock_ok l \<longleftrightarrow> distinct (dkeys l) \<and> (\<forall>m. rec_ok (lock_of l m))"

lemma assign_ok:
  assumes "lock_ok l" shows "lock_ok (snd (assign_numbers m fs l))"
proof -
  obtain r l' where run: "assign_numbers m fs l = (r, l')" by fastforce
  have d: "distinct (dkeys l')" using run assms by (auto simp: assign_numbers_def Let_def lock_ok_def distinct_update)
  have "rec_ok (lock_of l' m')" for m'
    using assms assign_spec(1,7) [OF _ run] by (cases "m' = m") (simp_all add: lock_ok_def)
  then show ?thesis using d run by (simp add: lock_ok_def)
qed

lemma reload_same:
  assumes "lock_ok l" shows "lock_of (lock_step Reload l) m = lock_of l m" and "lock_ok (lock_step Reload l)"
proof -
  have r: "lock_step Reload l = sort_key fst l" by (simp add: lock_step_def load_lock_json)
  have d: "distinct (dkeys (sort_key fst l))" using assms by (metis distinct_map distinct_sort set_sort lock_ok_def)
  show same: "lock_of (lock_step Reload l) m = lock_of l m" for m
    using assms by (simp add: r lock_of_def dget_default_def dget_sort_key lock_ok_def)
  then show "lock_ok (lock_step Reload l)" using assms d by (simp add: lock_ok_def r)
qed

lemma lock_step_ok: "lock_ok l \<Longrightarrow> lock_ok (lock_step op l)"
  by (cases op) (simp_all add: reload_same lock_step_def [of "Assign _ _"] assign_ok)

lemma lock_after_ok: "lock_ok (lock_after ops)"
proof -
  have "lock_ok l \<Longrightarrow> lock_ok (fold lock_step ops l)" for l by (induction ops arbitrary: l) (simp_all add: lock_step_ok)
  moreover have "lock_ok []" by (simp add: lock_ok_def lock_of_def dget_default_def rec_ok_def numbers_once_def no_lock_def)
  ultimately show ?thesis by (simp add: lock_after_def)
qed

text \<open>A number of a message, once given, is held by its field while every assignment lists it, and retired after.\<close>

definition held :: "string \<Rightarrow> string \<Rightarrow> nat \<Rightarrow> lock_file \<Rightarrow> bool" where
  "held m f n l \<longleftrightarrow> dget (lk_fields (lock_of l m)) f = Some n"

definition retired :: "string \<Rightarrow> nat \<Rightarrow> lock_file \<Rightarrow> bool" where
  "retired m n l \<longleftrightarrow> n \<in> set (lk_numbers (lock_of l m))"

definition always_listed :: "string \<Rightarrow> string \<Rightarrow> lock_op list \<Rightarrow> bool" where
  "always_listed m f ops \<longleftrightarrow> (\<forall>fs. Assign m fs \<in> set ops \<longrightarrow> f \<in> set fs)"

lemma assign_held:
  assumes "lock_ok l" and "held m f n l"
  shows "if f \<in> set fs then held m f n (snd (assign_numbers m fs l)) else retired m n (snd (assign_numbers m fs l))"
proof -
  obtain r l' where run: "assign_numbers m fs l = (r, l')" by fastforce
  have ok: "rec_ok (lock_of l m)" using assms(1) by (simp add: lock_ok_def)
  show ?thesis using assms(2) assign_spec(2,4,6) [OF ok run] by (auto simp: held_def retired_def run)
qed

lemma assign_retired:
  assumes "lock_ok l" and "retired m n l" shows "retired m n (snd (assign_numbers m fs l))"
proof -
  obtain r l' where run: "assign_numbers m fs l = (r, l')" by fastforce
  have ok: "rec_ok (lock_of l m)" using assms(1) by (simp add: lock_ok_def)
  show ?thesis using assms(2) assign_spec(6) [OF ok run] by (simp add: retired_def run)
qed

lemma other_step:
  assumes "lock_ok l" and "\<forall>fs. op \<noteq> Assign m fs" shows "lock_of (lock_step op l) m = lock_of l m"
proof (cases op)
  case (Assign m' fs)
  obtain r l' where run: "assign_numbers m' fs l = (r, l')" by fastforce
  have "rec_ok (lock_of l m')" using assms(1) by (simp add: lock_ok_def)
  then show ?thesis using assms(2) assign_spec(7) [OF _ run, of m] by (auto simp: Assign lock_step_def run)
qed (simp add: reload_same assms(1))

lemma lock_step_held:
  assumes "lock_ok l" and "held m f n l"
  shows "if always_listed m f [op] then held m f n (lock_step op l) else retired m n (lock_step op l)"
proof (cases "\<exists>fs. op = Assign m fs")
  case True
  then show ?thesis using assign_held [OF assms] by (auto simp: lock_step_def always_listed_def)
next
  case False
  then show ?thesis using other_step [OF assms(1), of op m] assms(2) by (auto simp: held_def always_listed_def)
qed

lemma lock_step_retired:
  assumes "lock_ok l" and "retired m n l" shows "retired m n (lock_step op l)"
proof (cases "\<exists>fs. op = Assign m fs")
  case True
  then show ?thesis using assign_retired [OF assms] by (auto simp: lock_step_def)
next
  case False
  then show ?thesis using other_step [OF assms(1), of op m] assms(2) by (auto simp: retired_def)
qed

lemma retired_for_good: "lock_ok l \<Longrightarrow> retired m n l \<Longrightarrow> retired m n (fold lock_step ops l)"
  by (induction ops arbitrary: l) (simp_all add: lock_step_ok lock_step_retired)

lemma held_or_retired:
  assumes "lock_ok l" and "held m f n l"
  shows "if always_listed m f ops then held m f n (fold lock_step ops l) else retired m n (fold lock_step ops l)"
  using assms
proof (induction ops arbitrary: l)
  case (Cons op ops)
  have c: "always_listed m f (op # ops) \<longleftrightarrow> always_listed m f [op] \<and> always_listed m f ops" by (auto simp: always_listed_def)
  note s = lock_step_held [OF Cons.prems, of op] and ok = lock_step_ok [OF Cons.prems(1), of op]
  show ?case
  proof (cases "always_listed m f [op]")
    case True
    then show ?thesis using Cons.IH [OF ok] s c by simp
  next
    case False
    then show ?thesis using retired_for_good [OF ok, of m n ops] s c by simp
  qed
qed (simp add: always_listed_def)

lemma retired_not_given:
  assumes "lock_ok l" and "retired m n l" shows "dget (numbers_now m fs l) g \<noteq> Some n"
proof
  obtain r l' where run: "assign_numbers m fs l = (r, l')" by fastforce
  have ok: "rec_ok (lock_of l m)" using assms(1) by (simp add: lock_ok_def)
  assume "dget (numbers_now m fs l) g = Some n"
  then have "held m g n l'" using assign_spec(2) [OF ok run] by (simp add: held_def numbers_now_def run)
  moreover have "retired m n l'" using assign_retired [OF assms] run by (metis snd_conv)
  moreover have "rec_ok (lock_of l' m)" by (rule assign_spec(1) [OF ok run])
  ultimately show False by (simp add: rec_ok_def held_def retired_def)
qed

lemma held_given:
  assumes "lock_ok l" and "held m f n l" shows "dget (numbers_now m fs l) g = Some n \<longleftrightarrow> g = f \<and> f \<in> set fs"
proof -
  obtain r l' where run: "assign_numbers m fs l = (r, l')" by fastforce
  have ok: "rec_ok (lock_of l m)" using assms(1) by (simp add: lock_ok_def)
  note spec = assign_spec [OF ok run]
  have once: "numbers_once r" using spec(1,2) by (simp add: rec_ok_def)
  have keep: "f \<in> set fs \<Longrightarrow> dget r f = Some n" using spec(4) assms(2) by (simp add: held_def)
  have "g = f" if a: "dget r g = Some n"
  proof (rule ccontr)
    assume "g \<noteq> f"
    then have "dget (lk_fields (lock_of l m)) g \<noteq> Some n" using ok assms(2) by (auto simp: rec_ok_def numbers_once_def held_def)
    then have "n \<notin> used_numbers (lock_of l m)" by (rule spec(5) [OF a])
    moreover have "(f, n) \<in> set (lk_fields (lock_of l m))" using assms(2) by (simp add: held_def map_of_SomeD)
    ultimately show False by (force simp: used_numbers_def)
  qed
  moreover have "f \<in> set fs" if "dget r f = Some n" using dget_Some_keys [OF that] spec(3) by simp
  ultimately show ?thesis using keep by (auto simp: numbers_now_def run)
qed

text \<open>
  C24: over any history of builds, whatever messages and fields come and go and however often the lock is saved and
  loaded: a number that was given to a field of a message is given again to that field, and only to it, as long as every
  assignment in between listed it; once one did not, the number is never given to any field of the message.
\<close>

theorem numbers_never_reused:
  assumes "dget (numbers_now m fs (lock_after ops)) f = Some n"
  shows "dget (numbers_now m fs' (lock_after (ops @ Assign m fs # later_ops))) g = Some n \<longleftrightarrow>
    g = f \<and> f \<in> set fs' \<and> always_listed m f later_ops"
proof -
  let ?l = "lock_after ops"
  obtain r l' where run: "assign_numbers m fs ?l = (r, l')" by fastforce
  have ok: "rec_ok (lock_of ?l m)" using lock_after_ok by (simp add: lock_ok_def)
  have l': "lock_ok l'" using assign_ok [OF lock_after_ok, of m fs ops] run by simp
  have held: "held m f n l'" using assign_spec(2) [OF ok run] assms by (simp add: held_def numbers_now_def run)
  have after_later: "lock_after (ops @ Assign m fs # later_ops) = fold lock_step later_ops l'"
    using run by (simp add: lock_after_def lock_step_def)
  have ok2: "lock_ok (fold lock_step later_ops l')" using lock_after_ok after_later by metis
  show ?thesis
  proof (cases "always_listed m f later_ops")
    case True
    then show ?thesis using held_or_retired [OF l' held, of later_ops] held_given [OF ok2] by (simp add: after_later)
  next
    case False
    then show ?thesis using held_or_retired [OF l' held, of later_ops] retired_not_given [OF ok2] by (simp add: after_later)
  qed
qed

lemma numbers_never_reused_witness:
  "dget (numbers_now ''M'' [''c'', ''a''] (lock_after ([] @ Assign ''M'' [''a'', ''b''] # [Reload, Assign ''M'' [''a'']]))) ''c'' \<noteq> Some 2"
proof -
  have given: "dget (numbers_now ''M'' [''a'', ''b''] (lock_after [])) ''b'' = Some 2" by code_simp
  show ?thesis by (subst numbers_never_reused [OF given]) simp
qed

section \<open>Two divergences\<close>

text \<open>A field that comes back gets a new number, while its name stays among the reserved ones.\<close>

lemma readded_name_stays_reserved:
  "let l = lock_after [Assign ''M'' [''a'', ''b''], Assign ''M'' [''a''], Assign ''M'' [''a'', ''b'']]
   in dget (lk_fields (lock_of l ''M'')) ''b'' = Some 3 \<and> ''b'' \<in> set (lk_names (lock_of l ''M''))"
  by code_simp

text \<open>Two classes of one name, of two servers say, take each other's numbers away at every build.\<close>

lemma same_name_renumbers:
  "numbers_now ''M'' [''a''] (lock_after [Assign ''M'' [''a''], Assign ''M'' [''x''], Reload]) = [(''a'', 3)]"
  by code_simp

end
