(* ===== verification/Grpc_Types.thy ===== *)
theory Grpc_Types
  imports Grpc_Lock
begin

text \<open>
  From Python types to protobuf types (\<open>xime/adapters/grpc/codefirst/_type_map.py\<close>), with the registry of messages and
  enums the mapping fills (\<open>_MessageRegistry\<close> of \<open>_builder.py\<close>). What \<open>typing\<close> reports of an
  annotation is a value of \<open>py_type\<close>; a class is a number, its name and members are in the environment.
\<close>

section \<open>Types\<close>

datatype int_marker = AnyMarker | MInt32 | MInt64 | MUInt32 | MUInt64 | MSInt32 | MSInt64

datatype scalar_type = TStr | TBytes | TBool | TInt | TFloat | TUuid | TDecimal | TDatetime | TDate

text \<open>The arguments of a list or a dict type may be missing; \<open>metadata\<close> other than a marker is \<open>None\<close>.\<close>

datatype py_type =
  Scalar scalar_type | NoneT | AnyT | Annotated py_type "int_marker option list" | UnionOf "py_type list"
| ListOf "py_type option" | DictOf "(py_type \<times> py_type) option"
| ModelT nat | IntEnumT nat | StrEnumT nat | PlainEnumT nat | OtherT string

record proto_env =
  pe_name :: "nat \<Rightarrow> string"
  pe_fields :: "nat \<Rightarrow> (string \<times> py_type \<times> int_marker option list) list"
  pe_members :: "nat \<Rightarrow> (string \<times> int) list"

definition marker_proto :: "int_marker \<Rightarrow> string" where
  "marker_proto m = (case m of AnyMarker \<Rightarrow> ''int64'' | MInt32 \<Rightarrow> ''int32'' | MInt64 \<Rightarrow> ''int64'' | MUInt32 \<Rightarrow> ''uint32''
     | MUInt64 \<Rightarrow> ''uint64'' | MSInt32 \<Rightarrow> ''sint32'' | MSInt64 \<Rightarrow> ''sint64'')"

definition scalar_proto :: "scalar_type \<Rightarrow> string" where
  "scalar_proto t = (case t of TStr \<Rightarrow> ''string'' | TBytes \<Rightarrow> ''bytes'' | TBool \<Rightarrow> ''bool'' | TInt \<Rightarrow> ''int64'' | TFloat \<Rightarrow> ''double''
     | TUuid \<Rightarrow> ''string'' | TDecimal \<Rightarrow> ''string'' | TDatetime \<Rightarrow> ''google.protobuf.Timestamp'' | TDate \<Rightarrow> ''string'')"

definition lookup_scalar :: "py_type \<Rightarrow> string option" where
  "lookup_scalar t = (case t of Scalar s \<Rightarrow> Some (scalar_proto s) | _ \<Rightarrow> None)"

section \<open>Contracts\<close>

record field_contract =
  fc_name :: string
  fc_type :: string
  fc_number :: nat
  fc_optional :: bool
  fc_oneof :: "string option"

record message_contract =
  mc_name :: string
  mc_fields :: "field_contract list"
  mc_numbers :: "nat list"
  mc_names :: "string list"

record enum_contract =
  ec_name :: string
  ec_values :: "(string \<times> int) list"

datatype endpoint_problem =
  NotAsync | BadAnnotation string | NoHint string | NotAModel string | NoRequest | StreamInCommand | CommandYields
| StreamAndYield | NoResponse | NotAnIterator | NoStream

datatype contract_error = UnsupportedType py_type string | NoZeroMember string | InvalidEndpoint string string endpoint_problem

section \<open>The registry\<close>

text \<open>Sets are lists without repetition.\<close>

record msg_registry =
  g_lock :: lock_file
  g_messages :: "(string, message_contract) dict"
  g_enums :: "(string, enum_contract) dict"
  g_pending :: "nat list"
  g_seen :: "nat list"
  g_seen_enums :: "nat list"
  g_children :: "(string, string list) dict"
  g_current :: "string option"
  g_hints :: "(string, string) dict"

definition new_msg_registry :: "lock_file \<Rightarrow> msg_registry" where
  "new_msg_registry l = \<lparr>g_lock = l, g_messages = [], g_enums = [], g_pending = [], g_seen = [], g_seen_enums = [],
     g_children = [], g_current = None, g_hints = []\<rparr>"

definition children_of :: "msg_registry \<Rightarrow> string \<Rightarrow> string list" where
  "children_of g n = dget_default [] (g_children g) n"

definition add_child :: "string \<Rightarrow> string \<Rightarrow> msg_registry \<Rightarrow> msg_registry" where
  "add_child p n g = g\<lparr>g_children := dset p (add_once n (children_of g p)) (g_children g)\<rparr>"

definition note_child :: "string \<Rightarrow> msg_registry \<Rightarrow> msg_registry" where
  "note_child n g = (case g_current g of None \<Rightarrow> g | Some p \<Rightarrow> add_child p n g)"

definition register_message :: "proto_env \<Rightarrow> nat \<Rightarrow> msg_registry \<Rightarrow> string \<times> msg_registry" where
  "register_message E m g =
     (pe_name E m, note_child (pe_name E m)
        (if m \<in> set (g_seen g) then g else g\<lparr>g_seen := g_seen g @ [m], g_pending := g_pending g @ [m]\<rparr>))"

definition build_enum :: "proto_env \<Rightarrow> nat \<Rightarrow> contract_error + enum_contract" where
  "build_enum E e =
     (let members = pe_members E e
      in if \<not> (\<exists>m \<in> set members. snd m = 0) then Inl (NoZeroMember (pe_name E e))
         else Inr \<lparr>ec_name = pe_name E e,
                ec_values = filter (\<lambda>m. snd m = 0) members @ filter (\<lambda>m. snd m \<noteq> 0) members\<rparr>)"

definition register_enum :: "proto_env \<Rightarrow> nat \<Rightarrow> msg_registry \<Rightarrow> contract_error + string \<times> msg_registry" where
  "register_enum E e g =
     sbind (if e \<in> set (g_seen_enums g) then Inr g
            else sbind (build_enum E e) (\<lambda>c. Inr (g\<lparr>g_seen_enums := g_seen_enums g @ [e],
                   g_enums := dset (pe_name E e) c (g_enums g)\<rparr>)))
       (\<lambda>g'. Inr (pe_name E e, note_child (pe_name E e) g'))"

section \<open>Mapping a type\<close>

definition scalar_or_error :: "py_type \<Rightarrow> string \<Rightarrow> contract_error + string" where
  "scalar_or_error t context =
     (case lookup_scalar t of
        None \<Rightarrow> Inl (UnsupportedType t context)
      | Some s \<Rightarrow> if starts_with ''repeated'' s \<or> starts_with ''map<'' s then Inl (UnsupportedType t context) else Inr s)"

definition first_marker :: "int_marker option list \<Rightarrow> int_marker option" where
  "first_marker ms = (case List.map_filter id ms of [] \<Rightarrow> None | m # _ \<Rightarrow> Some m)"

definition not_none :: "py_type list \<Rightarrow> py_type list" where
  "not_none ts = filter (\<lambda>t. t \<noteq> NoneT) ts"

lemma not_none_size: "not_none ts = [t] \<Longrightarrow> size t < Suc (size_list size ts)"
proof -
  assume "not_none ts = [t]"
  then have "t \<in> set ts" unfolding not_none_def by (metis filter_is_subset list.set_intros(1) subsetD)
  then show ?thesis by (simp add: less_Suc_eq_le size_list_estimation')
qed

function (sequential) map_type :: "proto_env \<Rightarrow> py_type \<Rightarrow> msg_registry \<Rightarrow> contract_error + (string \<times> bool) \<times> msg_registry" where
  "map_type E (Annotated t ms) g =
     (case first_marker ms of Some m \<Rightarrow> Inr ((marker_proto m, False), g) | None \<Rightarrow> map_type E t g)"
| "map_type E (UnionOf ts) g =
     (case not_none ts of
        [t] \<Rightarrow> sbind (map_type E t g) (\<lambda>(p, g'). Inr ((fst p, True), g'))
      | _ \<Rightarrow> Inl (UnsupportedType (UnionOf ts) ''only Optional[X] unions are supported''))"
| "map_type E (ListOf None) g = Inl (UnsupportedType AnyT [])"
| "map_type E (ListOf (Some t)) g = sbind (map_type E t g) (\<lambda>(p, g'). Inr ((''repeated '' @ fst p, False), g'))"
| "map_type E (DictOf None) g = Inl (UnsupportedType AnyT [])"
| "map_type E (DictOf (Some (k, v))) g =
     sbind (scalar_or_error k ''map key'') (\<lambda>key.
     sbind (map_type E v g) (\<lambda>(p, g').
       if starts_with ''repeated '' (fst p) \<or> starts_with ''map<'' (fst p)
       then Inl (UnsupportedType (DictOf (Some (k, v))) ''map values cannot be repeated/map'')
       else Inr ((''map<'' @ key @ '', '' @ fst p @ ''>'', False), g')))"
| "map_type E (ModelT m) g = (case register_message E m g of (n, g') \<Rightarrow> Inr ((n, False), g'))"
| "map_type E (IntEnumT e) g = sbind (register_enum E e g) (\<lambda>(n, g'). Inr ((n, False), g'))"
| "map_type E (StrEnumT e) g = Inr ((''string'', False), g)"
| "map_type E (PlainEnumT e) g = Inl (UnsupportedType (PlainEnumT e) ''only IntEnum / str-Enum are supported'')"
| "map_type E t g = (case lookup_scalar t of Some s \<Rightarrow> Inr ((s, False), g) | None \<Rightarrow> Inl (UnsupportedType t []))"
  by pat_completeness auto
termination
  by (relation "measure (\<lambda>(E, t, g). size t)") (auto dest: not_none_size)

function (sequential) python_hint :: "py_type \<Rightarrow> string option" where
  "python_hint (Annotated t ms) = python_hint t"
| "python_hint (UnionOf ts) = (case not_none ts of [t] \<Rightarrow> python_hint t | _ \<Rightarrow> None)"
| "python_hint (ListOf (Some t)) = python_hint t"
| "python_hint (DictOf (Some (k, v))) = python_hint v"
| "python_hint (Scalar TDecimal) = Some ''decimal''"
| "python_hint (Scalar TUuid) = Some ''uuid''"
| "python_hint (Scalar TDate) = Some ''date''"
| "python_hint t = None"
  by pat_completeness auto
termination
  by (relation "measure size") (auto dest: not_none_size)

section \<open>Valid field types\<close>

text \<open>Where a type text is one name, and not a list or a map: it has no blank, comma or angle bracket.\<close>

definition name_char :: "char \<Rightarrow> bool" where
  "name_char c \<longleftrightarrow> c \<notin> set '' <>,''"

definition type_name :: "string \<Rightarrow> bool" where
  "type_name s \<longleftrightarrow> s \<noteq> [] \<and> list_all name_char s"

definition map_keys :: "string list" where
  "map_keys = [''int32'', ''int64'', ''uint32'', ''uint64'', ''sint32'', ''sint64'', ''bool'', ''string'']"

text \<open>
  What the proto3 grammar allows as the type of a field: a type name, \<open>optional\<close> before a type name, \<open>repeated\<close>
  before a type name, or a map from an integral type, \<open>bool\<close> or \<open>string\<close> to a type name. A type name is made of
  identifiers with dots between them.
\<close>

definition digit_chars :: string where "digit_chars = ''0123456789''"

definition ident_chars :: string where
  "ident_chars = ''abcdefghijklmnopqrstuvwxyzABCDEFGHIJKLMNOPQRSTUVWXYZ_'' @ digit_chars"

definition proto_ident :: "string \<Rightarrow> bool" where
  "proto_ident s \<longleftrightarrow> s \<noteq> [] \<and> set s \<subseteq> set ident_chars \<and> hd s \<notin> set digit_chars"

definition proto_name :: "string \<Rightarrow> bool" where
  "proto_name s \<longleftrightarrow> list_all proto_ident (split_on (CHR ''.'') s)"

definition valid_field :: "string \<Rightarrow> bool \<Rightarrow> bool" where
  "valid_field s opt \<longleftrightarrow> proto_name s \<or>
     \<not> opt \<and> ((\<exists>t. s = ''repeated '' @ t \<and> proto_name t) \<or>
       (\<exists>k v. s = ''map<'' @ k @ '', '' @ v @ ''>'' \<and> k \<in> set map_keys \<and> proto_name v))"

text \<open>The Python types whose protobuf type is one name, and those whose field is valid.\<close>

function (sequential) one_name :: "py_type \<Rightarrow> bool" where
  "one_name (Annotated t ms) = (first_marker ms \<noteq> None \<or> one_name t)"
| "one_name (UnionOf ts) = (case not_none ts of [t] \<Rightarrow> one_name t | _ \<Rightarrow> True)"
| "one_name (ListOf t) = False"
| "one_name (DictOf t) = False"
| "one_name t = True"
  by pat_completeness auto
termination
  by (relation "measure size") (auto dest: not_none_size)

fun proto_fits :: "py_type \<Rightarrow> bool" where
  "proto_fits (Annotated t ms) = (first_marker ms \<noteq> None \<or> proto_fits t)"
| "proto_fits (UnionOf ts) = one_name (UnionOf ts)"
| "proto_fits (ListOf (Some t)) = one_name t"
| "proto_fits (DictOf (Some (k, v))) = (\<exists>s \<in> {TStr, TBool, TInt, TUuid, TDecimal, TDate}. k = Scalar s)"
| "proto_fits t = True"

text \<open>The classes a type names have protobuf names; the name of a generic model such as \<open>Page[int]\<close> is none.\<close>

function (sequential) names_fit :: "proto_env \<Rightarrow> py_type \<Rightarrow> bool" where
  "names_fit E (Annotated t ms) = (first_marker ms \<noteq> None \<or> names_fit E t)"
| "names_fit E (UnionOf ts) = (case not_none ts of [t] \<Rightarrow> names_fit E t | _ \<Rightarrow> True)"
| "names_fit E (ListOf (Some t)) = names_fit E t"
| "names_fit E (DictOf (Some (k, v))) = names_fit E v"
| "names_fit E (ModelT m) = proto_name (pe_name E m)"
| "names_fit E (IntEnumT e) = proto_name (pe_name E e)"
| "names_fit E t = True"
  by pat_completeness auto
termination
  by (relation "measure (\<lambda>(E, t). size t)") (auto dest: not_none_size)

definition names_ok :: "proto_env \<Rightarrow> bool" where
  "names_ok E \<longleftrightarrow> (\<forall>m. type_name (pe_name E m))"

lemma type_name_simps [simp]: "type_name (marker_proto m)" "type_name (scalar_proto t)" "type_name ''string''"
  by (simp_all add: marker_proto_def scalar_proto_def type_name_def name_char_def split: int_marker.split scalar_type.split)

lemma not_type_name: "\<not> type_name (''repeated '' @ s)" "\<not> type_name (''map<'' @ s)"
  by (simp_all add: type_name_def name_char_def)

lemma type_name_starts: "type_name s \<Longrightarrow> \<not> starts_with ''repeated '' s \<and> \<not> starts_with ''map<'' s"
  by (metis append_take_drop_id not_type_name starts_with_def)

lemma register_enum_name: "register_enum E e g = Inr (n, g') \<Longrightarrow> n = pe_name E e"
  by (auto simp: register_enum_def sbind_eq_Inr split: if_splits)

text \<open>The shape of a mapped type.\<close>

lemma map_type_shape:
  assumes "map_type E t g = Inr ((s, opt), g')" and "names_ok E"
  shows "(one_name t \<longrightarrow> type_name s) \<and> (\<not> one_name t \<longrightarrow> starts_with ''repeated '' s \<or> starts_with ''map<'' s)"
  using assms
proof (induction E t g arbitrary: s opt g' rule: map_type.induct)
  case (1 E t ms g)
  then show ?case by (auto split: option.splits)
next
  case (2 E ts g)
  then show ?case by (auto simp: sbind_eq_Inr split: list.splits)
next
  case (7 E m g)
  then show ?case by (auto simp: register_message_def names_ok_def)
next
  case (8 E e g)
  then show ?case by (auto simp: sbind_eq_Inr names_ok_def dest: register_enum_name)
qed (auto simp: sbind_eq_Inr starts_with_def lookup_scalar_def split: if_splits)

lemma one_name_shape:
  assumes "map_type E t g = Inr ((s, opt), g')" and "names_ok E" shows "type_name s \<longleftrightarrow> one_name t"
  using map_type_shape [OF assms] type_name_starts by blast

lemma proto_type_name: "proto_name s \<Longrightarrow> type_name s"
proof -
  assume p: "proto_name s"
  have ident: "c \<in> set ident_chars \<Longrightarrow> name_char c" for c by (auto simp: ident_chars_def digit_chars_def name_char_def)
  have "set s \<subseteq> insert (CHR ''.'') (\<Union>w \<in> set (split_on (CHR ''.'') s). set w)" for s :: string
  proof (induction s)
    case (Cons x s)
    then show ?case by (cases "split_on (CHR ''.'') s") auto
  qed simp
  moreover have "\<forall>w \<in> set (split_on (CHR ''.'') s). set w \<subseteq> set ident_chars" using p by (auto simp: proto_name_def list_all_iff proto_ident_def)
  ultimately have "set s \<subseteq> insert (CHR ''.'') (set ident_chars)" by blast
  then have "list_all name_char s" using ident by (auto simp: list_all_iff name_char_def)
  moreover have "s \<noteq> []" using p by (auto simp: proto_name_def proto_ident_def)
  ultimately show ?thesis by (simp add: type_name_def)
qed

lemma scalar_names: "proto_name (marker_proto m)" "proto_name (scalar_proto t)" "proto_name ''string''"
proof -
  have all: "proto_name ''int64''" "proto_name ''int32''" "proto_name ''uint32''" "proto_name ''uint64''" "proto_name ''sint32''"
    "proto_name ''sint64''" "proto_name ''string''" "proto_name ''bytes''" "proto_name ''bool''" "proto_name ''double''"
    "proto_name ''google.protobuf.Timestamp''" by code_simp+
  show "proto_name (marker_proto m)" unfolding marker_proto_def by (cases m) (simp_all only: int_marker.case all)
  show "proto_name (scalar_proto t)" unfolding scalar_proto_def by (cases t) (simp_all only: scalar_type.case all)
  show "proto_name ''string''" by (rule all)
qed

lemma one_name_proto:
  assumes "map_type E t g = Inr ((s, opt), g')" and "names_ok E"
  shows "one_name t \<Longrightarrow> proto_name s \<longleftrightarrow> names_fit E t"
  using assms
proof (induction E t g arbitrary: s opt g' rule: map_type.induct)
  case (1 E t ms g)
  then show ?case using scalar_names by (auto split: option.splits)
next
  case (2 E ts g)
  then show ?case by (auto simp: sbind_eq_Inr split: list.splits)
next
  case (7 E m g)
  then show ?case by (auto simp: register_message_def)
next
  case (8 E e g)
  then show ?case by (auto simp: sbind_eq_Inr dest: register_enum_name)
qed (use scalar_names in \<open>auto simp: sbind_eq_Inr lookup_scalar_def split: if_splits\<close>)

lemma one_name_valid:
  assumes "map_type E t g = Inr ((s, opt), g')" and "names_ok E" shows "proto_name s \<longleftrightarrow> one_name t \<and> names_fit E t"
  using one_name_proto [OF assms] one_name_shape [OF assms] proto_type_name [of s] by blast

lemma valid_repeated: "valid_field (''repeated '' @ t) False \<longleftrightarrow> proto_name t"
  using not_type_name(1) [of t] by (auto simp: valid_field_def dest: proto_type_name)

lemma no_comma: "k \<in> set map_keys \<Longrightarrow> CHR '','' \<notin> set k" "CHR '','' \<notin> set (scalar_proto s)"
  by (auto simp: map_keys_def scalar_proto_def split: scalar_type.splits)

lemma named_valid: "type_name s \<Longrightarrow> valid_field s opt \<longleftrightarrow> proto_name s"
  using not_type_name by (auto simp: valid_field_def)

lemma valid_map:
  assumes "CHR '','' \<notin> set k" shows "valid_field (''map<'' @ k @ '', '' @ v @ ''>'') False \<longleftrightarrow> k \<in> set map_keys \<and> proto_name v"
proof -
  have cut: "takeWhile (\<lambda>c. c \<noteq> CHR '','') (k' @ '', '' @ w) = k'" if "CHR '','' \<notin> set k'" for k' w
    using that by (induction k') auto
  have only: "k' = k \<and> v' = v" if "''map<'' @ k @ '', '' @ v @ ''>'' = ''map<'' @ k' @ '', '' @ v' @ ''>''" "k' \<in> set map_keys" for k' v'
  proof -
    have e: "k @ '', '' @ v @ ''>'' = k' @ '', '' @ v' @ ''>''" using that(1) by simp
    then have "k = k'" using cut [OF assms] cut [OF no_comma(1) [OF that(2)]] by metis
    then show ?thesis using e by simp
  qed
  let ?s = "''map<'' @ k @ '', '' @ v @ ''>''"
  have "\<not> proto_name ?s" using not_type_name(2) proto_type_name by blast
  moreover have "?s \<noteq> ''repeated '' @ t" for t by simp
  ultimately have "valid_field ?s False \<longleftrightarrow> (\<exists>k' v'. ?s = ''map<'' @ k' @ '', '' @ v' @ ''>'' \<and> k' \<in> set map_keys \<and> proto_name v')"
    unfolding valid_field_def by blast
  then show ?thesis using only by blast
qed

text \<open>
  C25: a Python type that is mapped gives a field declaration that proto3 accepts exactly when the type fits, an
  element of a list and the content of an \<open>Optional\<close> being single names, not lists or maps, and the keys of a map
  integers, booleans or strings, and the models and enums it names have names that are identifiers. The mapping itself
  refuses only maps in maps and lists in maps. No class has a name with blanks, commas or angle brackets.
\<close>

theorem field_types_valid:
  assumes "map_type E t g = Inr ((s, opt), g')" and "names_ok E"
  shows "valid_field s opt \<longleftrightarrow> proto_fits t \<and> names_fit E t"
  using assms
proof (induction E t g arbitrary: s opt g' rule: map_type.induct)
  case (1 E t ms g)
  then show ?case using scalar_names by (auto simp: valid_field_def split: option.splits)
next
  case (2 E ts g)
  then obtain t where t: "not_none ts = [t]" by (auto split: list.splits)
  then obtain o1 g1 where m: "map_type E t g = Inr ((s, o1), g1)" and o: "opt = True"
    using 2(2) by (auto simp: sbind_eq_Inr)
  show ?case using one_name_valid [OF m 2(3)] by (simp add: t o valid_field_def)
next
  case (4 E t g)
  then obtain s1 o1 g1 where m: "map_type E t g = Inr ((s1, o1), g1)" and s: "s = ''repeated '' @ s1" "opt = False"
    by (auto simp: sbind_eq_Inr)
  show ?case using one_name_valid [OF m 4(3)] valid_repeated [of s1] by (simp add: s)
next
  case (6 E k v g)
  obtain key where key: "scalar_or_error k ''map key'' = Inr key" using 6(2) by (auto simp: sbind_eq_Inr)
  then obtain s1 o1 g1 where m: "map_type E v g = Inr ((s1, o1), g1)" using 6(2) by (auto simp: sbind_eq_Inr)
  have s: "s = ''map<'' @ key @ '', '' @ s1 @ ''>''" "opt = False" "\<not> starts_with ''repeated '' s1" "\<not> starts_with ''map<'' s1"
    using 6(2) by (auto simp: sbind_eq_Inr key m split: if_splits)
  obtain k1 where k1: "k = Scalar k1" "key = scalar_proto k1"
    using key by (auto simp: scalar_or_error_def lookup_scalar_def split: py_type.splits if_splits)
  have "one_name v" using map_type_shape [OF m 6(3)] s(3,4) by blast
  then have v: "proto_name s1 \<longleftrightarrow> names_fit E v" by (rule one_name_proto [OF m 6(3)])
  have "scalar_proto k1 \<in> set map_keys \<longleftrightarrow> k1 \<in> {TStr, TBool, TInt, TUuid, TDecimal, TDate}"
    by (cases k1) (simp_all add: scalar_proto_def map_keys_def)
  then show ?case unfolding s(1,2) k1(2) valid_map [OF no_comma(2)] using v by (auto simp: k1(1))
next
  case (7 E m g)
  then show ?case using named_valid [of "pe_name E m" opt] by (auto simp: register_message_def names_ok_def)
next
  case (8 E e g)
  then show ?case using named_valid [of "pe_name E e" opt] by (auto simp: sbind_eq_Inr names_ok_def dest: register_enum_name)
qed (use scalar_names in \<open>auto simp: lookup_scalar_def valid_field_def\<close>)

definition sample_types :: proto_env where
  "sample_types = \<lparr>pe_name = (\<lambda>m. if m = 3 then ''Item'' else ''Page[int]''), pe_fields = (\<lambda>m. []), pe_members = (\<lambda>m. [(''A'', 0)])\<rparr>"

lemma field_types_valid_witness:
  "valid_field ''repeated Item'' False \<and> \<not> valid_field ''repeated string'' True \<and>
    valid_field ''map<int64, Item>'' False \<and> \<not> valid_field ''map<double, Item>'' False \<and> \<not> valid_field ''Page[int]'' True"
proof -
  have n: "names_ok sample_types" by (simp add: names_ok_def sample_types_def type_name_def name_char_def)
  have item: "proto_name ''Item''" "\<not> proto_name ''Page[int]''" by code_simp+
  have 1: "map_type sample_types (ListOf (Some (ModelT 3))) (new_msg_registry []) =
      Inr ((''repeated Item'', False), snd (register_message sample_types 3 (new_msg_registry [])))"
    by (simp add: register_message_def sample_types_def)
  have 2: "map_type sample_types (UnionOf [ListOf (Some (Scalar TStr)), NoneT]) (new_msg_registry []) =
      Inr ((''repeated string'', True), new_msg_registry [])"
    by (simp add: not_none_def lookup_scalar_def scalar_proto_def)
  have 3: "map_type sample_types (DictOf (Some (Scalar TInt, ModelT 3))) (new_msg_registry []) =
      Inr ((''map<int64, Item>'', False), snd (register_message sample_types 3 (new_msg_registry [])))"
    "map_type sample_types (DictOf (Some (Scalar TFloat, ModelT 3))) (new_msg_registry []) =
      Inr ((''map<double, Item>'', False), snd (register_message sample_types 3 (new_msg_registry [])))"
    by (simp_all add: register_message_def sample_types_def scalar_or_error_def lookup_scalar_def scalar_proto_def starts_with_def)
  have 4: "map_type sample_types (UnionOf [ModelT 5, NoneT]) (new_msg_registry []) =
      Inr ((''Page[int]'', True), snd (register_message sample_types 5 (new_msg_registry [])))"
    by (simp add: not_none_def register_message_def sample_types_def)
  have sample: "pe_name sample_types 3 = ''Item''" "pe_name sample_types 5 = ''Page[int]''" by (simp_all add: sample_types_def)
  note v = field_types_valid [OF 1 n] field_types_valid [OF 2 n] field_types_valid [OF 3(1) n] field_types_valid [OF 3(2) n]
    field_types_valid [OF 4 n]
  show ?thesis unfolding v by (simp add: not_none_def item sample)
qed

end
