(* ===== verification/Grpc_Builder.thy ===== *)
theory Grpc_Builder
  imports Grpc_Types
begin

text \<open>
  From controllers to the contract of a server (\<open>xime/adapters/grpc/codefirst/_builder.py\<close>): the messages that are
  reachable from the endpoints, their numbers, the services and which service refers to which message. What
  \<open>inspect\<close> and \<open>typing\<close> report of a handler is data. Upper and lower case are those of ASCII.
\<close>

section \<open>Messages\<close>

definition annotate :: "py_type \<Rightarrow> int_marker option list \<Rightarrow> py_type" where
  "annotate t ms = (if ms = [] then t else case t of Annotated u ns \<Rightarrow> Annotated u (ns @ ms) | _ \<Rightarrow> Annotated t ms)"

definition add_hint :: "string \<Rightarrow> string \<Rightarrow> py_type \<Rightarrow> msg_registry \<Rightarrow> msg_registry" where
  "add_hint n f t g = (case python_hint t of None \<Rightarrow> g | Some h \<Rightarrow> g\<lparr>g_hints := dset (n @ ''.'' @ f) h (g_hints g)\<rparr>)"

fun map_fields :: "proto_env \<Rightarrow> string \<Rightarrow> (string \<times> py_type \<times> int_marker option list) list \<Rightarrow> msg_registry \<Rightarrow>
    contract_error + (string \<times> string \<times> bool) list \<times> msg_registry" where
  "map_fields E n [] g = Inr ([], g)"
| "map_fields E n ((f, t, ms) # rest) g =
     sbind (map_type E (annotate t ms) g) (\<lambda>(p, g1).
     sbind (map_fields E n rest (add_hint n f (annotate t ms) g1)) (\<lambda>(specs, g2). Inr ((f, p) # specs, g2)))"

definition number_field :: "(string, nat) dict \<Rightarrow> string \<times> string \<times> bool \<Rightarrow> field_contract" where
  "number_field numbers spec = (case spec of (f, p, opt) \<Rightarrow>
     \<lparr>fc_name = f, fc_type = p, fc_number = dget_default 0 numbers f, fc_optional = opt, fc_oneof = None\<rparr>)"

definition build_message :: "proto_env \<Rightarrow> nat \<Rightarrow> msg_registry \<Rightarrow> contract_error + message_contract \<times> msg_registry" where
  "build_message E m g =
     (let n = pe_name E m
      in sbind (map_fields E n (pe_fields E m) (g\<lparr>g_current := Some n\<rparr>)) (\<lambda>(specs, g1).
           case assign_numbers n (map fst specs) (g_lock g1) of (numbers, lock) \<Rightarrow>
             Inr (\<lparr>mc_name = n, mc_fields = map (number_field numbers) specs, mc_numbers = lk_numbers (lock_of lock n),
                   mc_names = lk_names (lock_of lock n)\<rparr>,
                  g1\<lparr>g_current := None, g_lock := lock\<rparr>)))"

definition store_message :: "proto_env \<Rightarrow> nat \<Rightarrow> message_contract \<Rightarrow> msg_registry \<Rightarrow> msg_registry" where
  "store_message E m c g = g\<lparr>g_messages := dset (pe_name E m) c (g_messages g)\<rparr>"

text \<open>The outer \<open>option\<close> is \<open>None\<close> when the loop does not end.\<close>

partial_function (option) process_pending :: "proto_env \<Rightarrow> msg_registry \<Rightarrow> (contract_error + msg_registry) option" where
  "process_pending E g =
     (case g_pending g of
        [] \<Rightarrow> Some (Inr g)
      | m # ms \<Rightarrow>
          (case build_message E m (g\<lparr>g_pending := ms\<rparr>) of
             Inl e \<Rightarrow> Some (Inl e)
           | Inr r \<Rightarrow> process_pending E (store_message E m (fst r) (snd r))))"

definition add_message :: "message_contract \<Rightarrow> string list \<Rightarrow> msg_registry \<Rightarrow> msg_registry" where
  "add_message c ks g =
     fold (add_child (mc_name c)) ks (g\<lparr>g_messages := dset (mc_name c) c (g_messages g)\<rparr>)"

section \<open>Endpoints\<close>

datatype endpoint_kind = CommandEndpoint | StreamEndpoint

datatype stream_kind = Unary | ClientStream | ServerStream | ServerStreamTyped

datatype hint = UploadHint | DownloadHint | ModelHint nat | AsyncIterHint "hint option" | OtherHint string

record endpoint_mark =
  em_name :: string
  em_kind :: endpoint_kind

text \<open>\<open>ha_hints\<close> is the text of the exception where the annotations cannot be resolved.\<close>

record handler =
  ha_coroutine :: bool
  ha_async_gen :: bool
  ha_hints :: "string + (string, hint) dict"
  ha_params :: "string list"

text \<open>\<open>ct_vars\<close>: for each class from the root of the MRO down, its attributes and whether they are functions.\<close>

record controller_class =
  ct_name :: string
  ct_server :: string
  ct_vars :: "(string \<times> bool) list list"
  ct_mark :: "string \<Rightarrow> endpoint_mark option"
  ct_handler :: "string \<Rightarrow> handler"

record method_contract =
  mt_rpc :: string
  mt_request :: string
  mt_response :: string
  mt_kind :: stream_kind
  mt_attr :: string
  mt_stream_param :: string
  mt_request_py :: nat
  mt_response_py :: "nat option"
  mt_endpoint :: string

record service_contract =
  sv_name :: string
  sv_server :: string
  sv_file :: string
  sv_methods :: "method_contract list"

record contract_model =
  cm_server :: string
  cm_services :: "service_contract list"
  cm_messages :: "(string, message_contract) dict"
  cm_enums :: "(string, enum_contract) dict"
  cm_references :: "(string, string list) dict"
  cm_hints :: "(string, string) dict"

fun iter_vars :: "(string \<Rightarrow> endpoint_mark option) \<Rightarrow> (string \<times> bool) list \<Rightarrow> string list \<Rightarrow> (string \<times> endpoint_mark) list" where
  "iter_vars mark [] seen = []"
| "iter_vars mark ((a, func) # rest) seen =
     (if a \<in> set seen \<or> \<not> func then iter_vars mark rest seen
      else case mark a of None \<Rightarrow> iter_vars mark rest (a # seen) | Some i \<Rightarrow> (a, i) # iter_vars mark rest (a # seen))"

definition iter_endpoints :: "controller_class \<Rightarrow> (string \<times> endpoint_mark) list" where
  "iter_endpoints c = iter_vars (ct_mark c) (concat (ct_vars c)) []"

text \<open>The request model and the stream parameter; a later one replaces an earlier one.\<close>

fun read_params :: "(string, hint) dict \<Rightarrow> string list \<Rightarrow> nat option \<Rightarrow> (hint \<times> string) option \<Rightarrow>
    endpoint_problem + nat option \<times> (hint \<times> string) option" where
  "read_params hints [] req str = Inr (req, str)"
| "read_params hints (p # ps) req str =
     (if p = ''self'' then read_params hints ps req str
      else case dget hints p of
        None \<Rightarrow> Inl (NoHint p)
      | Some UploadHint \<Rightarrow> read_params hints ps req (Some (UploadHint, p))
      | Some DownloadHint \<Rightarrow> read_params hints ps req (Some (DownloadHint, p))
      | Some (ModelHint m) \<Rightarrow> read_params hints ps (Some m) str
      | Some _ \<Rightarrow> Inl (NotAModel p))"

definition require_response :: "hint option \<Rightarrow> endpoint_problem + nat" where
  "require_response ret = (case ret of Some (ModelHint m) \<Rightarrow> Inr m | _ \<Rightarrow> Inl NoResponse)"

definition yielded_model :: "hint option \<Rightarrow> endpoint_problem + nat" where
  "yielded_model ret = (case ret of Some (AsyncIterHint (Some (ModelHint m))) \<Rightarrow> Inr m | _ \<Rightarrow> Inl NotAnIterator)"

definition resolve_stream :: "handler \<Rightarrow> hint option \<Rightarrow> nat \<Rightarrow> (hint \<times> string) option \<Rightarrow>
    endpoint_problem + nat \<times> nat option \<times> stream_kind \<times> string" where
  "resolve_stream h ret req str =
     (if str \<noteq> None \<and> ha_async_gen h then Inl StreamAndYield
      else case str of
        Some (UploadHint, p) \<Rightarrow> sbind (require_response ret) (\<lambda>m. Inr (req, Some m, ClientStream, p))
      | Some (_, p) \<Rightarrow> Inr (req, None, ServerStream, p)
      | None \<Rightarrow> if ha_async_gen h then sbind (yielded_model ret) (\<lambda>m. Inr (req, Some m, ServerStreamTyped, []))
                else Inl NoStream)"

definition resolve_endpoint :: "endpoint_mark \<Rightarrow> handler \<Rightarrow> endpoint_problem + nat \<times> nat option \<times> stream_kind \<times> string" where
  "resolve_endpoint i h =
     (if \<not> ha_coroutine h \<and> \<not> ha_async_gen h then Inl NotAsync
      else case ha_hints h of
        Inl text \<Rightarrow> Inl (BadAnnotation text)
      | Inr hints0 \<Rightarrow>
          let ret = dget hints0 ''return''; hints = ddel ''return'' hints0
          in sbind (read_params hints (ha_params h) None None) (\<lambda>(req, str).
             case req of
               None \<Rightarrow> Inl NoRequest
             | Some r \<Rightarrow>
                 (case em_kind i of
                    CommandEndpoint \<Rightarrow>
                      if str \<noteq> None then Inl StreamInCommand
                      else if ha_async_gen h then Inl CommandYields
                      else sbind (require_response ret) (\<lambda>m. Inr (r, Some m, Unary, []))
                  | StreamEndpoint \<Rightarrow> resolve_stream h ret r str)))"

section \<open>Names\<close>

definition to_upper :: "char \<Rightarrow> char" where
  "to_upper c = (if 97 \<le> (of_char c :: nat) \<and> (of_char c :: nat) \<le> 122 then char_of ((of_char c :: nat) - 32) else c)"

fun snake_from :: "char option \<Rightarrow> string \<Rightarrow> string" where
  "snake_from prev [] = []"
| "snake_from prev (c # cs) =
     (case prev of Some p \<Rightarrow> if is_upper c \<and> \<not> is_upper p then ''_'' else [] | None \<Rightarrow> []) @ to_lower c # snake_from (Some c) cs"

definition snake :: "string \<Rightarrow> string" where
  "snake s = snake_from None s"

definition cut_suffix :: "string \<Rightarrow> string \<Rightarrow> string" where
  "cut_suffix suf s =
     (if length suf \<le> length s \<and> drop (length s - length suf) s = suf then take (length s - length suf) s else s)"

definition proto_file :: "string \<Rightarrow> string" where
  "proto_file controller = snake (cut_suffix ''Controller'' controller) @ ''.proto''"

definition proto_stem :: "string \<Rightarrow> string" where
  "proto_stem file = cut_suffix ''.proto'' file"

definition rpc_name :: "string \<Rightarrow> string" where
  "rpc_name endpoint = concat (map (\<lambda>part. map to_upper (take 1 part) @ drop 1 part)
     (filter (\<lambda>part. part \<noteq> []) (split_on (CHR ''_'') endpoint)))"

definition wrapper_name :: "string \<Rightarrow> string" where
  "wrapper_name rpc = rpc @ ''Chunk''"

section \<open>Methods and services\<close>

definition chunk_field :: "nat \<Rightarrow> string option \<Rightarrow> field_contract" where
  "chunk_field n og = \<lparr>fc_name = ''chunk'', fc_type = ''bytes'', fc_number = n, fc_optional = False, fc_oneof = og\<rparr>"

definition upload_wrapper :: "string \<Rightarrow> string \<Rightarrow> message_contract" where
  "upload_wrapper rpc req =
     \<lparr>mc_name = wrapper_name rpc,
      mc_fields = [\<lparr>fc_name = ''metadata'', fc_type = req, fc_number = 1, fc_optional = False, fc_oneof = Some ''payload''\<rparr>,
        chunk_field 2 (Some ''payload'')],
      mc_numbers = [], mc_names = []\<rparr>"

definition download_wrapper :: "string \<Rightarrow> message_contract" where
  "download_wrapper rpc = \<lparr>mc_name = wrapper_name rpc, mc_fields = [chunk_field 1 None], mc_numbers = [], mc_names = []\<rparr>"

definition register_maybe :: "proto_env \<Rightarrow> nat option \<Rightarrow> msg_registry \<Rightarrow> string \<times> msg_registry" where
  "register_maybe E m g = (case m of Some x \<Rightarrow> register_message E x g | None \<Rightarrow> ([], g))"

text \<open>\<open>register_maybe\<close> is only used where the resolved response type is there.\<close>

definition build_method :: "proto_env \<Rightarrow> controller_class \<Rightarrow> string \<times> endpoint_mark \<Rightarrow> msg_registry \<Rightarrow>
    contract_error + method_contract \<times> msg_registry" where
  "build_method E c e g =
     (case e of (attr, i) \<Rightarrow>
      case resolve_endpoint i (ct_handler c attr) of
        Inl p \<Rightarrow> Inl (InvalidEndpoint (ct_name c) attr p)
      | Inr (req, resp, kind, param) \<Rightarrow>
          let rpc = rpc_name (em_name i);
              (req_msg, g1) = register_message E req g;
              method = \<lparr>mt_rpc = rpc, mt_request = req_msg, mt_response = [], mt_kind = kind, mt_attr = attr, mt_stream_param = param,
                mt_request_py = req, mt_response_py = resp, mt_endpoint = em_name i\<rparr>
          in case kind of
               ClientStream \<Rightarrow>
                 (let (resp_msg, g2) = register_maybe E resp g1
                  in Inr (method\<lparr>mt_request := wrapper_name rpc, mt_response := resp_msg\<rparr>,
                       add_message (upload_wrapper rpc req_msg) [req_msg] g2))
             | ServerStream \<Rightarrow> Inr (method\<lparr>mt_response := wrapper_name rpc\<rparr>, add_message (download_wrapper rpc) [] g1)
             | _ \<Rightarrow> (let (resp_msg, g2) = register_maybe E resp g1 in Inr (method\<lparr>mt_response := resp_msg\<rparr>, g2)))"

fun build_methods :: "proto_env \<Rightarrow> controller_class \<Rightarrow> (string \<times> endpoint_mark) list \<Rightarrow> msg_registry \<Rightarrow>
    contract_error + method_contract list \<times> msg_registry" where
  "build_methods E c [] g = Inr ([], g)"
| "build_methods E c (e # es) g =
     sbind (build_method E c e g) (\<lambda>(m, g1). sbind (build_methods E c es g1) (\<lambda>(ms, g2). Inr (m # ms, g2)))"

definition build_service :: "proto_env \<Rightarrow> string \<Rightarrow> controller_class \<Rightarrow> msg_registry \<Rightarrow>
    contract_error + service_contract \<times> msg_registry" where
  "build_service E sid c g =
     sbind (build_methods E c (iter_endpoints c) g) (\<lambda>(ms, g').
       Inr (\<lparr>sv_name = ct_name c, sv_server = sid, sv_file = proto_file (ct_name c), sv_methods = ms\<rparr>, g'))"

fun build_services :: "proto_env \<Rightarrow> string \<Rightarrow> controller_class list \<Rightarrow> msg_registry \<Rightarrow>
    contract_error + service_contract list \<times> msg_registry" where
  "build_services E sid [] g = Inr ([], g)"
| "build_services E sid (c # cs) g =
     (if ct_server c \<noteq> sid then build_services E sid cs g
      else sbind (build_service E sid c g) (\<lambda>(s, g1). sbind (build_services E sid cs g1) (\<lambda>(ss, g2). Inr (s # ss, g2))))"

section \<open>References\<close>

definition kids :: "(string, string list) dict \<Rightarrow> string \<Rightarrow> string list" where
  "kids ch n = dget_default [] ch n"

lemma kids_subset: "set (kids ch n) \<subseteq> \<Union> (set ` snd ` set ch)"
proof (cases "dget ch n")
  case (Some ns)
  have "ns \<in> snd ` set ch" using map_of_SomeD [OF Some] by force
  then show ?thesis using Some by (auto simp: kids_def dget_default_def)
qed (simp add: kids_def dget_default_def)

function reach_loop :: "(string, string list) dict \<Rightarrow> string list \<Rightarrow> string list \<Rightarrow> string list" where
  "reach_loop ch [] seen = seen"
| "reach_loop ch (n # stack) seen =
     (if n \<in> set seen then reach_loop ch stack seen else reach_loop ch (kids ch n @ stack) (n # seen))"
  by pat_completeness auto
termination
proof (relation "measures [\<lambda>(ch, stack, seen). card ((set stack \<union> \<Union> (set ` snd ` set ch)) - set seen), \<lambda>(ch, stack, seen). length stack]", goal_cases)
  case (2 ch n stack seen)
  have "(set stack \<union> \<Union> (set ` snd ` set ch)) - set seen = (set (n # stack) \<union> \<Union> (set ` snd ` set ch)) - set seen" using 2 by auto
  then show ?case by simp
next
  case (3 ch n stack seen)
  let ?old = "(set (n # stack) \<union> \<Union> (set ` snd ` set ch)) - set seen" and ?new = "(set (kids ch n @ stack) \<union> \<Union> (set ` snd ` set ch)) - set (n # seen)"
  have "?new \<subset> ?old" using 3 kids_subset [of ch n] by auto
  then have "card ?new < card ?old" by (intro psubset_card_mono) auto
  then show ?case by simp
qed simp

definition reachable_names :: "(string, string list) dict \<Rightarrow> string list \<Rightarrow> string list" where
  "reachable_names ch roots = reach_loop ch roots []"

definition add_reference :: "string \<Rightarrow> string \<Rightarrow> (string, string list) dict \<Rightarrow> (string, string list) dict" where
  "add_reference stem n refs = dset n (add_once stem (dget_default [] refs n)) refs"

definition service_roots :: "service_contract \<Rightarrow> string list" where
  "service_roots s = concat (map (\<lambda>m. [mt_request m, mt_response m]) (sv_methods s))"

definition refer_service :: "(string, string list) dict \<Rightarrow> service_contract \<Rightarrow> (string, string list) dict \<Rightarrow> (string, string list) dict" where
  "refer_service ch s refs = fold (add_reference (proto_stem (sv_file s))) (reachable_names ch (service_roots s)) refs"

definition compute_references :: "service_contract list \<Rightarrow> (string, string list) dict \<Rightarrow> (string, string list) dict" where
  "compute_references services ch = fold (refer_service ch) services []"

text \<open>The lock is changed in place; it is returned with the contract.\<close>

definition build_contract :: "proto_env \<Rightarrow> string \<Rightarrow> controller_class list \<Rightarrow> lock_file \<Rightarrow>
    (contract_error + contract_model \<times> lock_file) option" where
  "build_contract E sid controllers lock =
     (case build_services E sid controllers (new_msg_registry lock) of
        Inl e \<Rightarrow> Some (Inl e)
      | Inr (services, g) \<Rightarrow>
          (case process_pending E g of
             None \<Rightarrow> None
           | Some (Inl e) \<Rightarrow> Some (Inl e)
           | Some (Inr g') \<Rightarrow>
               Some (Inr (\<lparr>cm_server = sid, cm_services = services, cm_messages = g_messages g', cm_enums = g_enums g',
                  cm_references = compute_references services (g_children g'), cm_hints = g_hints g'\<rparr>, g_lock g'))))"

section \<open>The loop over pending messages ends\<close>

fun models_in :: "py_type \<Rightarrow> nat set" where
  "models_in (Annotated t ms) = models_in t"
| "models_in (UnionOf ts) = (\<Union>t \<in> set ts. models_in t)"
| "models_in (ListOf (Some t)) = models_in t"
| "models_in (DictOf (Some (k, v))) = models_in k \<union> models_in v"
| "models_in (ModelT m) = {m}"
| "models_in t = {}"

text \<open>Registering appends new models of a set to the pending ones and changes nothing else that matters here.\<close>

definition registers :: "nat set \<Rightarrow> msg_registry \<Rightarrow> msg_registry \<Rightarrow> bool" where
  "registers A g g' \<longleftrightarrow> g_messages g' = g_messages g \<and> g_current g' = g_current g \<and> g_lock g' = g_lock g \<and>
     (\<exists>fresh. g_seen g' = g_seen g @ fresh \<and> g_pending g' = g_pending g @ fresh \<and> distinct fresh \<and>
        set fresh \<inter> set (g_seen g) = {} \<and> set fresh \<subseteq> A)"

lemma registers_refl [simp]: "registers A g g"
  by (simp add: registers_def)

lemma registers_trans: "registers A g g1 \<Longrightarrow> registers B g1 g2 \<Longrightarrow> A \<subseteq> C \<Longrightarrow> B \<subseteq> C \<Longrightarrow> registers C g g2"
  unfolding registers_def by (elim conjE exE) (simp, blast)

lemma registers_mono: "registers A g g' \<Longrightarrow> A \<subseteq> B \<Longrightarrow> registers B g g'"
  unfolding registers_def by blast

lemma registers_note [simp]: "registers A g (note_child n g') = registers A g g'"
  by (auto simp: registers_def note_child_def add_child_def split: option.splits)

lemma registers_hint [simp]: "registers A g (add_hint n f t g') = registers A g g'"
  by (auto simp: registers_def add_hint_def split: option.splits)

lemma register_registers: "register_message E m g = (n, g') \<Longrightarrow> registers {m} g g'"
  by (auto simp: register_message_def) (auto simp: registers_def)

lemma register_enum_registers: "register_enum E e g = Inr (n, g') \<Longrightarrow> registers {} g g'"
  by (auto simp: register_enum_def sbind_eq_Inr registers_def build_enum_def Let_def note_child_def add_child_def
      split: if_splits option.splits)

lemma map_type_registers:
  "map_type E t g = Inr (p, g') \<Longrightarrow> registers (models_in t) g g'"
proof (induction E t g arbitrary: p g' rule: map_type.induct)
  case (1 E t ms g)
  then show ?case by (auto split: option.splits)
next
  case (2 E ts g)
  then obtain t where t: "not_none ts = [t]" by (auto split: list.splits)
  then obtain p1 where "map_type E t g = Inr (p1, g')" using 2(2) by (auto simp: sbind_eq_Inr)
  note r = 2(1) [OF t _ this]
  have "t \<in> set ts" using t unfolding not_none_def by (metis filter_is_subset list.set_intros(1) subsetD)
  then show ?case using registers_mono [OF r] by auto
next
  case (7 E m g)
  then show ?case by (auto split: prod.splits dest: register_registers)
next
  case (8 E e g)
  then show ?case by (auto simp: sbind_eq_Inr dest: register_enum_registers)
qed (auto simp: sbind_eq_Inr lookup_scalar_def split: if_splits elim: registers_mono)

definition models_of :: "proto_env \<Rightarrow> nat \<Rightarrow> nat set" where
  "models_of E m = (\<Union>(f, t, ms) \<in> set (pe_fields E m). models_in t)"

lemma models_in_annotate [simp]: "models_in (annotate t ms) = models_in t"
  by (auto simp: annotate_def split: py_type.splits)

lemma map_fields_registers:
  "map_fields E n fs g = Inr (specs, g') \<Longrightarrow> registers (\<Union>(f, t, ms) \<in> set fs. models_in t) g g'"
proof (induction E n fs g arbitrary: specs g' rule: map_fields.induct)
  case (2 E n f t ms rest g)
  obtain p g1 where 1: "map_type E (annotate t ms) g = Inr (p, g1)" using "2.prems" by (auto simp: sbind_eq_Inr)
  obtain specs2 g2 where rest: "map_fields E n rest (add_hint n f (annotate t ms) g1) = Inr (specs2, g2)" "g' = g2"
    using "2.prems" 1 by (auto simp: sbind_eq_Inr)
  have a: "registers (models_in t) g (add_hint n f (annotate t ms) g1)" using map_type_registers [OF 1] by simp
  have b: "registers (\<Union>(f, t, ms) \<in> set rest. models_in t) (add_hint n f (annotate t ms) g1) g'"
    using "2.IH" rest by simp
  show ?case by (rule registers_trans [OF a b]) auto
qed simp

lemma build_message_Inr:
  assumes "build_message E m g = Inr (c, g')"
  obtains specs g1 numbers lock where "map_fields E (pe_name E m) (pe_fields E m) (g\<lparr>g_current := Some (pe_name E m)\<rparr>) = Inr (specs, g1)"
    and "assign_numbers (pe_name E m) (map fst specs) (g_lock g1) = (numbers, lock)"
    and "g' = g1\<lparr>g_current := None, g_lock := lock\<rparr>"
    and "mc_fields c = map (number_field numbers) specs" and "mc_name c = pe_name E m"
proof -
  obtain specs g1 where f: "map_fields E (pe_name E m) (pe_fields E m) (g\<lparr>g_current := Some (pe_name E m)\<rparr>) = Inr (specs, g1)"
    using assms by (auto simp: build_message_def Let_def sbind_eq_Inr)
  obtain numbers lock where a: "assign_numbers (pe_name E m) (map fst specs) (g_lock g1) = (numbers, lock)" by fastforce
  show thesis by (rule that [OF f a]) (use assms f a in \<open>auto simp: build_message_def Let_def\<close>)
qed

lemma build_message_fresh:
  assumes "build_message E m g = Inr (c, g')"
  shows "\<exists>fresh. g_seen g' = g_seen g @ fresh \<and> g_pending g' = g_pending g @ fresh \<and> distinct fresh \<and>
    set fresh \<inter> set (g_seen g) = {} \<and> set fresh \<subseteq> models_of E m" and "g_messages g' = g_messages g"
proof -
  let ?n = "pe_name E m"
  obtain specs g1 lock where f: "map_fields E ?n (pe_fields E m) (g\<lparr>g_current := Some ?n\<rparr>) = Inr (specs, g1)"
    and g': "g' = g1\<lparr>g_current := None, g_lock := lock\<rparr>"
    by (rule build_message_Inr [OF assms]) blast
  have r: "registers (models_of E m) (g\<lparr>g_current := Some ?n\<rparr>) g1" using map_fields_registers [OF f] by (simp add: models_of_def)
  show "\<exists>fresh. g_seen g' = g_seen g @ fresh \<and> g_pending g' = g_pending g @ fresh \<and> distinct fresh \<and>
    set fresh \<inter> set (g_seen g) = {} \<and> set fresh \<subseteq> models_of E m" "g_messages g' = g_messages g"
    using g' r by (auto simp: registers_def)
qed

text \<open>What the loop leaves: nothing pending, a message for every model it saw, and no other model than those it can reach.\<close>

definition all_built :: "proto_env \<Rightarrow> msg_registry \<Rightarrow> bool" where
  "all_built E g \<longleftrightarrow> g_pending g = [] \<and> pe_name E ` set (g_seen g) \<subseteq> set (dkeys (g_messages g))"

definition built_or_pending :: "proto_env \<Rightarrow> msg_registry \<Rightarrow> bool" where
  "built_or_pending E g \<longleftrightarrow> (\<forall>m \<in> set (g_seen g). m \<in> set (g_pending g) \<or> pe_name E m \<in> set (dkeys (g_messages g)))"

lemma process_ends:
  assumes "finite U" and "\<forall>m \<in> U. models_of E m \<subseteq> U" and "set (g_pending g) \<subseteq> U" and "built_or_pending E g"
  shows "\<exists>r. process_pending E g = Some r \<and> (\<forall>g'. r = Inr g' \<longrightarrow> all_built E g' \<and> set (g_seen g') \<subseteq> set (g_seen g) \<union> U)"
  using assms(3,4)
proof (induction "2 * card (U - set (g_seen g)) + length (g_pending g)" arbitrary: g rule: less_induct)
  case less
  show ?case
  proof (cases "g_pending g")
    case Nil
    then show ?thesis using less.prems(2)
      by (subst process_pending.simps) (auto simp: all_built_def built_or_pending_def)
  next
    case (Cons m ms)
    show ?thesis
    proof (cases "build_message E m (g\<lparr>g_pending := ms\<rparr>)")
      case (Inl e)
      then show ?thesis by (subst process_pending.simps) (simp add: Cons)
    next
      case (Inr r)
      obtain c g1 where r: "r = (c, g1)" by fastforce
      let ?g = "store_message E m c g1"
      obtain fresh where fresh: "g_seen g1 = g_seen g @ fresh" "g_pending g1 = ms @ fresh" "distinct fresh"
        "set fresh \<inter> set (g_seen g) = {}" "set fresh \<subseteq> models_of E m" and msgs: "g_messages g1 = g_messages g"
        using build_message_fresh [OF Inr [unfolded r]] by auto
      have U: "set fresh \<subseteq> U" "set ms \<subseteq> U" using fresh(5) assms(2) less.prems(1) Cons by auto
      have "U - set (g_seen g) = (U - set (g_seen ?g)) \<union> set fresh" using U fresh(1,4) by (auto simp: store_message_def)
      moreover have "(U - set (g_seen ?g)) \<inter> set fresh = {}" by (auto simp: store_message_def fresh(1))
      ultimately have "card (U - set (g_seen g)) = card (U - set (g_seen ?g)) + length fresh"
        using assms(1) fresh(3) by (simp add: card_Un_disjoint distinct_card)
      then have less1: "2 * card (U - set (g_seen ?g)) + length (g_pending ?g) < 2 * card (U - set (g_seen g)) + length (g_pending g)"
        by (simp add: store_message_def fresh(2) Cons)
      have pend: "set (g_pending ?g) \<subseteq> U" using U by (simp add: store_message_def fresh(2))
      have bp: "built_or_pending E ?g"
        using less.prems(2) fresh(1,2) msgs by (auto simp: built_or_pending_def store_message_def Cons)
      have eq: "process_pending E g = process_pending E ?g" by (subst process_pending.simps) (simp add: Cons Inr r)
      have seen: "set (g_seen ?g) \<subseteq> set (g_seen g) \<union> U" using U by (auto simp: store_message_def fresh(1))
      obtain r' where r': "process_pending E ?g = Some r'"
        "\<forall>g'. r' = Inr g' \<longrightarrow> all_built E g' \<and> set (g_seen g') \<subseteq> set (g_seen ?g) \<union> U"
        using less.hyps [OF less1 pend bp] by auto
      show ?thesis unfolding eq using r' seen by (intro exI [of _ r']) blast
    qed
  qed
qed

section \<open>Building a contract ends\<close>

text \<open>While services are read: the models that are pending, and the names that messages will have.\<close>

definition named :: "proto_env \<Rightarrow> msg_registry \<Rightarrow> string set" where
  "named E g = pe_name E ` set (g_seen g) \<union> set (dkeys (g_messages g))"

definition reading :: "proto_env \<Rightarrow> nat set \<Rightarrow> msg_registry \<Rightarrow> msg_registry \<Rightarrow> bool" where
  "reading E U g g' \<longleftrightarrow> (built_or_pending E g \<longrightarrow> built_or_pending E g') \<and> named E g \<subseteq> named E g' \<and>
     (set (g_pending g) \<subseteq> U \<longrightarrow> set (g_pending g') \<subseteq> U)"

lemma reading_trans: "reading E U g g1 \<Longrightarrow> reading E U g1 g2 \<Longrightarrow> reading E U g g2"
  unfolding reading_def by blast

lemma reading_refl [simp]: "reading E U g g"
  by (simp add: reading_def)

lemma add_child_frame [simp]:
  "g_messages (add_child p n g) = g_messages g" "g_seen (add_child p n g) = g_seen g" "g_pending (add_child p n g) = g_pending g"
  "g_enums (add_child p n g) = g_enums g" "g_current (add_child p n g) = g_current g"
  by (simp_all add: add_child_def)

lemma note_child_frame [simp]:
  "g_messages (note_child n g) = g_messages g" "g_seen (note_child n g) = g_seen g" "g_pending (note_child n g) = g_pending g"
  "g_enums (note_child n g) = g_enums g" "g_current (note_child n g) = g_current g"
  by (simp_all add: note_child_def split: option.splits)

lemma add_message_frame:
  "g_messages (add_message c ks g) = dset (mc_name c) c (g_messages g)" "g_seen (add_message c ks g) = g_seen g"
  "g_pending (add_message c ks g) = g_pending g" "g_enums (add_message c ks g) = g_enums g"
  "g_current (add_message c ks g) = g_current g"
proof -
  have "g_messages (fold (add_child p) ks x) = g_messages x \<and> g_seen (fold (add_child p) ks x) = g_seen x \<and>
      g_pending (fold (add_child p) ks x) = g_pending x \<and> g_enums (fold (add_child p) ks x) = g_enums x \<and>
      g_current (fold (add_child p) ks x) = g_current x" for p x
    by (induction ks arbitrary: x) simp_all
  then show "g_messages (add_message c ks g) = dset (mc_name c) c (g_messages g)" "g_seen (add_message c ks g) = g_seen g"
    "g_pending (add_message c ks g) = g_pending g" "g_enums (add_message c ks g) = g_enums g"
    "g_current (add_message c ks g) = g_current g"
    by (simp_all add: add_message_def)
qed

lemma register_reading:
  assumes "register_message E m g = (n, g')" and "m \<in> U" shows "reading E U g g'" and "n \<in> named E g'"
  using assms by (auto simp: register_message_def reading_def built_or_pending_def named_def split: if_splits)

lemma register_maybe_reading:
  assumes "register_maybe E (Some m) g = (n, g')" and "m \<in> U" shows "reading E U g g'" and "n \<in> named E g'"
  using assms register_reading by (simp_all add: register_maybe_def)

lemma add_message_reading: "reading E U g (add_message c ks g)" "mc_name c \<in> named E (add_message c ks g)"
  by (auto simp: reading_def built_or_pending_def named_def add_message_frame)

text \<open>The models an endpoint uses; a response type that is resolved is there.\<close>

definition uses :: "controller_class \<Rightarrow> nat \<Rightarrow> bool" where
  "uses c m \<longleftrightarrow> (\<exists>i a r. resolve_endpoint i (ct_handler c a) = Inr r \<and> (m = fst r \<or> fst (snd r) = Some m))"

lemma resolve_stream_response:
  assumes "resolve_stream h ret q str = Inr (req, resp, kind, param)" shows "kind = ServerStream \<or> resp \<noteq> None"
proof (cases str)
  case None
  then show ?thesis using assms by (auto simp: resolve_stream_def sbind_eq_Inr split: if_splits)
next
  case (Some e)
  obtain h1 p where e: "e = (h1, p)" by fastforce
  show ?thesis using assms by (cases h1) (auto simp: resolve_stream_def Some e sbind_eq_Inr split: if_splits)
qed

lemma resolve_response:
  assumes "resolve_endpoint i h = Inr (req, resp, kind, param)" shows "kind = ServerStream \<or> resp \<noteq> None"
proof -
  obtain hints0 where h: "ha_hints h = Inr hints0" using assms by (auto simp: resolve_endpoint_def split: if_splits sum.splits)
  obtain r str where p: "read_params (ddel ''return'' hints0) (ha_params h) None None = Inr (Some r, str)"
    using assms by (auto simp: resolve_endpoint_def h Let_def sbind_eq_Inr split: if_splits option.splits)
  show ?thesis
  proof (cases "em_kind i")
    case CommandEndpoint
    then show ?thesis using assms by (auto simp: resolve_endpoint_def h Let_def p sbind_eq_Inr split: if_splits)
  next
    case StreamEndpoint
    then have "resolve_stream h (dget hints0 ''return'') r str = Inr (req, resp, kind, param)"
      using assms by (simp add: resolve_endpoint_def h Let_def p split: if_splits)
    then show ?thesis by (rule resolve_stream_response)
  qed
qed

lemma resolve_uses:
  assumes "resolve_endpoint i (ct_handler c a) = Inr (req, resp, kind, param)" shows "uses c req" and "resp = Some m \<Longrightarrow> uses c m"
  unfolding uses_def using assms by (intro exI [of _ i] exI [of _ a] exI [of _ "(req, resp, kind, param)"], simp)+

text \<open>What a method registers: a byte download, an upload, or a pair of messages.\<close>

lemma build_method_cases:
  assumes "build_method E c e g = Inr (mt, g')"
  obtains (download) req rm g1 rpc where "uses c req" "register_message E req g = (rm, g1)" "mt_request mt = rm"
      "mt_response mt = mc_name (download_wrapper rpc)" "g' = add_message (download_wrapper rpc) [] g1"
    | (upload) req rm g1 m sm g2 rpc where "uses c req" "register_message E req g = (rm, g1)" "uses c m"
      "register_message E m g1 = (sm, g2)" "mt_request mt = mc_name (upload_wrapper rpc rm)" "mt_response mt = sm"
      "g' = add_message (upload_wrapper rpc rm) [rm] g2"
    | (messages) req rm g1 m sm where "uses c req" "register_message E req g = (rm, g1)" "uses c m"
      "register_message E m g1 = (sm, g')" "mt_request mt = rm" "mt_response mt = sm"
proof -
  obtain attr i where e: "e = (attr, i)" by fastforce
  obtain req resp kind param where r: "resolve_endpoint i (ct_handler c attr) = Inr (req, resp, kind, param)"
    using assms(1) by (auto simp: build_method_def e split: sum.splits)
  obtain rm g1 where g1: "register_message E req g = (rm, g1)" by fastforce
  note uses = resolve_uses [OF r]
  let ?rpc = "rpc_name (em_name i)"
  show thesis
  proof (cases "kind = ServerStream")
    case True
    show thesis
      by (rule download [OF uses(1) g1, of ?rpc])
        (use assms in \<open>auto simp: build_method_def e r g1 True Let_def download_wrapper_def\<close>)
  next
    case False
    then obtain m where m: "resp = Some m" using resolve_response [OF r] by auto
    obtain sm g2 where g2: "register_message E m g1 = (sm, g2)" by fastforce
    show thesis
    proof (cases "kind = ClientStream")
      case True
      show thesis
        by (rule upload [OF uses(1) g1 uses(2) [OF m] g2, of ?rpc])
          (use assms g2 in \<open>auto simp: build_method_def e r g1 True Let_def m upload_wrapper_def register_maybe_def\<close>)
    next
      case no: False
      have "g' = g2 \<and> mt_request mt = rm \<and> mt_response mt = sm"
        using assms g2 no False by (cases kind) (auto simp: build_method_def e r g1 Let_def m register_maybe_def)
      then show thesis using messages [OF uses(1) g1 uses(2) [OF m]] g2 by simp
    qed
  qed
qed

lemma build_method_reading:
  assumes "build_method E c e g = Inr (mt, g')" and "\<forall>m. uses c m \<longrightarrow> m \<in> U"
  shows "reading E U g g' \<and> mt_request mt \<in> named E g' \<and> mt_response mt \<in> named E g'"
  using assms(1)
proof (cases rule: build_method_cases)
  case (download req rm g1 rpc)
  let ?w = "download_wrapper rpc"
  note req = register_reading [OF download(2) assms(2) [rule_format, OF download(1)]]
  note a = add_message_reading(1) [of E U g1 ?w "[]"] and b = add_message_reading(2) [of ?w E "[]" g1]
  have "rm \<in> named E g'" using req(2) a unfolding download reading_def by blast
  then show ?thesis using reading_trans [OF req(1) a] b unfolding download by blast
next
  case (upload req rm g1 m sm g2 rpc)
  let ?w = "upload_wrapper rpc rm"
  note req = register_reading [OF upload(2) assms(2) [rule_format, OF upload(1)]]
  note resp = register_reading [OF upload(4) assms(2) [rule_format, OF upload(3)]]
  note a = add_message_reading(1) [of E U g2 ?w "[rm]"] and b = add_message_reading(2) [of ?w E "[rm]" g2]
  have "sm \<in> named E g'" using resp(2) a unfolding upload reading_def by blast
  then show ?thesis using reading_trans [OF reading_trans [OF req(1) resp(1)] a] b unfolding upload by blast
next
  case (messages req rm g1 m sm)
  note req = register_reading [OF messages(2) assms(2) [rule_format, OF messages(1)]]
  note resp = register_reading [OF messages(4) assms(2) [rule_format, OF messages(3)]]
  have "rm \<in> named E g'" using req(2) resp(1) unfolding reading_def by blast
  then show ?thesis using reading_trans [OF req(1) resp(1)] resp(2) unfolding messages by blast
qed

lemma build_methods_reading:
  assumes "build_methods E c es g = Inr (ms, g')" and "\<forall>m. uses c m \<longrightarrow> m \<in> U"
  shows "reading E U g g' \<and> (\<forall>mt \<in> set ms. mt_request mt \<in> named E g' \<and> mt_response mt \<in> named E g')"
  using assms(1)
proof (induction es arbitrary: g ms)
  case (Cons e es)
  obtain mt g1 where 1: "build_method E c e g = Inr (mt, g1)" using Cons.prems by (auto simp: sbind_eq_Inr)
  obtain ms2 where 2: "build_methods E c es g1 = Inr (ms2, g')" "ms = mt # ms2" using Cons.prems 1 by (auto simp: sbind_eq_Inr)
  note a = build_method_reading [OF 1 assms(2)] and b = Cons.IH [OF 2(1)]
  have "named E g1 \<subseteq> named E g'" using b unfolding reading_def by blast
  then show ?case using a b reading_trans [of E U g g1 g'] unfolding 2(2) by auto
qed simp

lemma build_services_reading:
  assumes "build_services E sid cs g = Inr (ss, g')" and "\<forall>c \<in> set cs. \<forall>m. uses c m \<longrightarrow> m \<in> U"
  shows "reading E U g g' \<and> (\<forall>s \<in> set ss. set (service_roots s) \<subseteq> named E g')"
  using assms
proof (induction cs arbitrary: g ss)
  case (Cons c cs)
  show ?case
  proof (cases "ct_server c = sid")
    case True
    obtain s g1 where 1: "build_service E sid c g = Inr (s, g1)" using Cons.prems True by (auto simp: sbind_eq_Inr)
    obtain ss2 where 2: "build_services E sid cs g1 = Inr (ss2, g')" "ss = s # ss2"
      using Cons.prems True 1 by (auto simp: sbind_eq_Inr)
    obtain ms where 3: "build_methods E c (iter_endpoints c) g = Inr (ms, g1)" "sv_methods s = ms"
      using 1 by (auto simp: build_service_def sbind_eq_Inr)
    have U: "\<forall>m. uses c m \<longrightarrow> m \<in> U" using Cons.prems(2) by simp
    note a = build_methods_reading [OF 3(1) U] and b = Cons.IH [OF 2(1)]
    have "named E g1 \<subseteq> named E g'" using b Cons.prems(2) unfolding reading_def by auto
    moreover have "set (service_roots s) \<subseteq> named E g1" using a 3(2) by (auto simp: service_roots_def)
    ultimately show ?thesis using a b Cons.prems(2) reading_trans [of E U g g1 g'] unfolding 2(2) by auto
  qed (use Cons in auto)
qed simp

lemmas process_pending_induct = process_pending.raw_induct [rotated, consumes 1, case_names Loop]

lemma process_keeps:
  assumes "process_pending E g = Some r" and "r = Inr g'"
  shows "set (dkeys (g_messages g)) \<subseteq> set (dkeys (g_messages g')) \<and> set (g_seen g) \<subseteq> set (g_seen g')"
  using assms
proof (induction rule: process_pending_induct)
  case (Loop pp E g r)
  show ?case
  proof (cases "g_pending g")
    case Nil
    then show ?thesis using Loop(2,3) by simp
  next
    case (Cons m ms)
    then obtain c g1 where b: "build_message E m (g\<lparr>g_pending := ms\<rparr>) = Inr (c, g1)"
      using Loop(2,3) by (cases "build_message E m (g\<lparr>g_pending := ms\<rparr>)") auto
    then have pp: "pp E (store_message E m c g1) = Some r" using Loop(2) Cons by simp
    note f = build_message_fresh [OF b]
    have "set (dkeys (g_messages g)) \<subseteq> set (dkeys (g_messages (store_message E m c g1)))"
      "set (g_seen g) \<subseteq> set (g_seen (store_message E m c g1))"
      using f by (auto simp: store_message_def)
    then show ?thesis using Loop(1) [OF pp Loop(3)] by blast
  qed
qed

text \<open>
  C26: building the contract of a server ends, whatever recursion there is among the models, as soon as the models that
  are referred to are finitely many: it raises or returns a contract, and in the contract every request and
  response of a method is a message.
\<close>

theorem contract_builds:
  assumes "finite U" and "\<forall>m \<in> U. models_of E m \<subseteq> U" and "\<forall>c \<in> set cs. \<forall>m. uses c m \<longrightarrow> m \<in> U"
  shows "\<exists>r. build_contract E sid cs lock = Some r \<and>
    (\<forall>M lock'. r = Inr (M, lock') \<longrightarrow> (\<forall>s \<in> set (cm_services M). set (service_roots s) \<subseteq> set (dkeys (cm_messages M))))"
proof (cases "build_services E sid cs (new_msg_registry lock)")
  case (Inl e)
  then show ?thesis by (simp add: build_contract_def)
next
  case (Inr r)
  obtain ss g where r: "r = (ss, g)" by fastforce
  note s = build_services_reading [OF Inr [unfolded r] assms(3)]
  have new: "built_or_pending E (new_msg_registry lock)" "g_pending (new_msg_registry lock) = []"
    by (simp_all add: built_or_pending_def new_msg_registry_def)
  then have bp: "built_or_pending E g" and pend: "set (g_pending g) \<subseteq> U" using s by (simp_all add: reading_def)
  obtain p where p: "process_pending E g = Some p" and all: "\<forall>g'. p = Inr g' \<longrightarrow> all_built E g'"
    using process_ends [OF assms(1,2) pend bp] by blast
  show ?thesis
  proof (cases p)
    case (Inl e)
    then show ?thesis using p Inr r by (simp add: build_contract_def)
  next
    case p': (Inr g')
    have "named E g \<subseteq> set (dkeys (g_messages g'))"
    proof -
      have built: "pe_name E ` set (g_seen g') \<subseteq> set (dkeys (g_messages g'))" using all p' unfolding all_built_def by simp
      have keep: "set (dkeys (g_messages g)) \<subseteq> set (dkeys (g_messages g'))" "set (g_seen g) \<subseteq> set (g_seen g')"
        using process_keeps [OF p p'] by simp_all
      show ?thesis unfolding named_def using keep(1) order_trans [OF image_mono [OF keep(2)] built] by (rule Un_least [rotated])
    qed
    then have "\<forall>x \<in> set ss. set (service_roots x) \<subseteq> set (dkeys (g_messages g'))" using s by blast
    then show ?thesis using p p' Inr r by (simp add: build_contract_def)
  qed
qed

definition node_types :: proto_env where
  "node_types = \<lparr>pe_name = (\<lambda>m. if m = 0 then ''Node'' else ''Reply''),
     pe_fields = (\<lambda>m. if m = 0 then [(''label'', Scalar TStr, []), (''sub'', ListOf (Some (ModelT 0)), [])] else [(''ok'', Scalar TBool, [])]),
     pe_members = (\<lambda>m. [])\<rparr>"

definition node_controller :: controller_class where
  "node_controller = \<lparr>ct_name = ''NodeController'', ct_server = ''default'', ct_vars = [[(''walk'', True)]],
     ct_mark = [''walk'' \<mapsto> \<lparr>em_name = ''walk_tree'', em_kind = CommandEndpoint\<rparr>],
     ct_handler = (\<lambda>a. \<lparr>ha_coroutine = True, ha_async_gen = False,
       ha_hints = Inr [(''request'', ModelHint 0), (''return'', ModelHint 1)], ha_params = [''self'', ''request'']\<rparr>)\<rparr>"

lemma contract_builds_witness:
  "\<exists>r. build_contract node_types ''default'' [node_controller] [] = Some r \<and>
    (\<forall>M l. r = Inr (M, l) \<longrightarrow> (\<forall>s \<in> set (cm_services M). set (service_roots s) \<subseteq> set (dkeys (cm_messages M))))"
proof (rule contract_builds [of "{0, 1}"])
  show "\<forall>m \<in> {0, 1}. models_of node_types m \<subseteq> {0, 1}" by (simp add: models_of_def node_types_def)
  have "resolve_endpoint i (ct_handler node_controller a) = Inr r \<Longrightarrow> fst r = 0 \<and> (fst (snd r) = Some m \<longrightarrow> m = 1)" for i a r m
    by (cases "em_kind i") (auto simp: resolve_endpoint_def node_controller_def Let_def require_response_def resolve_stream_def)
  then show "\<forall>c \<in> set [node_controller]. \<forall>m. uses c m \<longrightarrow> m \<in> {0, 1}" unfolding uses_def by fastforce
qed simp

end
