(* ===== verification/Grpc_Emit.thy ===== *)
theory Grpc_Emit
  imports Grpc_Builder Topology
begin

text \<open>
  The \<open>.proto\<close> files of a contract (\<open>xime/adapters/grpc/codefirst/_proto_emitter.py\<close>): where each message goes,
  what each file imports, and the text. Sets are lists; the text does not depend on their order.
\<close>

section \<open>Placement\<close>

definition common_stem :: string where "common_stem = ''common''"
definition timestamp_import :: string where "timestamp_import = ''google/protobuf/timestamp.proto''"

definition refs_of :: "contract_model \<Rightarrow> string \<Rightarrow> string list" where
  "refs_of M n = dget_default [] (cm_references M) n"

definition place :: "contract_model \<Rightarrow> string \<Rightarrow> string" where
  "place M n = (case refs_of M n of [stem] \<Rightarrow> stem | _ \<Rightarrow> common_stem)"

definition type_keys :: "contract_model \<Rightarrow> string list" where
  "type_keys M = dkeys (cm_messages M) @ dkeys (cm_enums M)"

definition file_placement :: "contract_model \<Rightarrow> (string, string) dict" where
  "file_placement M = dict_of (map (\<lambda>n. (n, place M n)) (type_keys M))"

definition file_of :: "contract_model \<Rightarrow> string \<Rightarrow> string" where
  "file_of M n = dget_default common_stem (file_placement M) n"

definition messages_in :: "contract_model \<Rightarrow> string \<Rightarrow> message_contract list" where
  "messages_in M stem = map snd (filter (\<lambda>(n, c). file_of M n = stem) (cm_messages M))"

definition enums_in :: "contract_model \<Rightarrow> string \<Rightarrow> enum_contract list" where
  "enums_in M stem = map snd (filter (\<lambda>(n, c). file_of M n = stem) (cm_enums M))"

definition services_in :: "contract_model \<Rightarrow> string \<Rightarrow> service_contract list" where
  "services_in M stem = filter (\<lambda>s. proto_stem (sv_file s) = stem) (cm_services M)"

section \<open>Imports\<close>

definition strip_blanks :: "string \<Rightarrow> string" where
  "strip_blanks s = rev (dropWhile (\<lambda>c. c = CHR '' '') (rev (dropWhile (\<lambda>c. c = CHR '' '') s)))"

definition cut_prefix :: "string \<Rightarrow> string \<Rightarrow> string" where
  "cut_prefix p s = (if starts_with p s then drop (length p) s else s)"

definition type_names :: "string \<Rightarrow> string list" where
  "type_names proto =
     (let t = cut_prefix ''repeated '' proto
      in if starts_with ''map<'' t \<and> t \<noteq> [] \<and> last t = CHR ''>''
         then map strip_blanks (split_on (CHR '','') (butlast (drop 4 t)))
         else [t])"

definition in_common :: "contract_model \<Rightarrow> string \<Rightarrow> string \<Rightarrow> bool" where
  "in_common M stem ref \<longleftrightarrow> dget (file_placement M) ref = Some common_stem \<and> stem \<noteq> common_stem"

definition needs_common :: "contract_model \<Rightarrow> string \<Rightarrow> message_contract list \<Rightarrow> service_contract list \<Rightarrow> bool" where
  "needs_common M stem ms ss \<longleftrightarrow>
     (\<exists>c \<in> set ms. \<exists>f \<in> set (mc_fields c). \<exists>t \<in> set (type_names (fc_type f)). in_common M stem t) \<or>
     (\<exists>s \<in> set ss. \<exists>mt \<in> set (sv_methods s). \<exists>t \<in> {mt_request mt, mt_response mt}. in_common M stem t)"

definition imports_of :: "contract_model \<Rightarrow> string \<Rightarrow> message_contract list \<Rightarrow> service_contract list \<Rightarrow> string list" where
  "imports_of M stem ms ss =
     sort ((if \<exists>c \<in> set ms. \<exists>f \<in> set (mc_fields c). contains ''google.protobuf.Timestamp'' (fc_type f) then [timestamp_import] else []) @
           (if needs_common M stem ms ss then [common_stem @ ''.proto''] else []))"

section \<open>Text\<close>

definition nl :: string where "nl = [CHR 0x0A]"
definition quoted :: "string \<Rightarrow> string" where "quoted s = CHR 0x22 # s @ [CHR 0x22]"

definition int_text :: "int \<Rightarrow> string" where
  "int_text i = (if i < 0 then ''-'' @ digits (nat (- i)) else digits (nat i))"

definition proto_header :: string where
  "proto_header = ''// Code generated by `xime grpc generate`. DO NOT EDIT.'' @ nl"

definition package_name :: "string \<Rightarrow> string" where
  "package_name sid = ''xime.'' @ map (\<lambda>c. if c \<in> set ''0123456789abcdefghijklmnopqrstuvwxyzABCDEFGHIJKLMNOPQRSTUVWXYZ_'' then c else CHR ''_'') sid"

definition sorted_values :: "enum_contract \<Rightarrow> (string \<times> int) list" where
  "sorted_values e = sort_key snd (ec_values e)"

definition emit_enum :: "enum_contract \<Rightarrow> string" where
  "emit_enum e = join nl ([''enum '' @ ec_name e @ '' {''] @ map (\<lambda>(n, v). ''  '' @ n @ '' = '' @ int_text v @ '';'') (sorted_values e) @ [''}''])"

definition field_line :: "string \<Rightarrow> field_contract \<Rightarrow> string" where
  "field_line opt f = opt @ fc_type f @ '' '' @ fc_name f @ '' = '' @ digits (fc_number f) @ '';''"

definition group_lines :: "field_contract list \<Rightarrow> string \<Rightarrow> string list" where
  "group_lines fs og =
     [''  oneof '' @ og @ '' {''] @ map (field_line ''    '') (sort_key fc_number (filter (\<lambda>f. fc_oneof f = Some og) fs)) @ [''  }'']"

definition emit_message :: "message_contract \<Rightarrow> string" where
  "emit_message c =
     join nl ([''message '' @ mc_name c @ '' {''] @
       map (\<lambda>n. ''  reserved '' @ digits n @ '';'') (sort (dedup (mc_numbers c))) @
       (if mc_names c = [] then [] else [''  reserved '' @ join '', '' (map quoted (sort (dedup (mc_names c)))) @ '';'']) @
       map (\<lambda>f. ''  '' @ field_line (if fc_optional f then ''optional '' else []) f) (sort_key fc_number (filter (\<lambda>f. fc_oneof f = None) (mc_fields c))) @
       concat (map (group_lines (mc_fields c)) (sort (dedup (List.map_filter fc_oneof (mc_fields c))))) @ [''}''])"

definition rpc_line :: "method_contract \<Rightarrow> string" where
  "rpc_line mt =
     ''  rpc '' @ mt_rpc mt @ ''('' @ (if mt_kind mt = ClientStream then ''stream '' else []) @ mt_request mt @ '') returns ('' @
     (if mt_kind mt = ServerStream \<or> mt_kind mt = ServerStreamTyped then ''stream '' else []) @ mt_response mt @ '');''"

definition emit_service :: "service_contract \<Rightarrow> string" where
  "emit_service s = join nl ([''service '' @ sv_name s @ '' {''] @ map rpc_line (sort_key mt_rpc (sv_methods s)) @ [''}''])"

definition strip_newlines :: "string \<Rightarrow> string" where
  "strip_newlines s = rev (dropWhile (\<lambda>c. c = CHR 0x0A) (rev s))"

definition file_imports :: "contract_model \<Rightarrow> string \<Rightarrow> string list" where
  "file_imports M stem = imports_of M stem (sort_key mc_name (messages_in M stem)) (sort_key sv_name (services_in M stem))"

definition emit_file :: "contract_model \<Rightarrow> string \<Rightarrow> string" where
  "emit_file M stem =
     (let es = sort_key ec_name (enums_in M stem); ms = sort_key mc_name (messages_in M stem); ss = sort_key sv_name (services_in M stem);
          imps = file_imports M stem
      in strip_newlines (join nl ([proto_header, ''syntax = '' @ quoted ''proto3'' @ '';'', [], ''package '' @ package_name (cm_server M) @ '';'', []] @
           map (\<lambda>i. ''import '' @ quoted i @ '';'') imps @ (if imps = [] then [] else [[]]) @
           concat (map (\<lambda>e. [emit_enum e, []]) es) @ concat (map (\<lambda>c. [emit_message c, []]) ms) @
           concat (map (\<lambda>s. [emit_service s, []]) ss))) @ nl)"

definition stems_of :: "contract_model \<Rightarrow> string list" where
  "stems_of M = sort (dedup (map (file_of M) (type_keys M) @ map (\<lambda>s. proto_stem (sv_file s)) (cm_services M)))"

definition emit_contract :: "contract_model \<Rightarrow> (string, string) dict" where
  "emit_contract M = map (\<lambda>stem. (cm_server M @ ''/'' @ stem @ ''.proto'', emit_file M stem)) (stems_of M)"

end
