(* ===== verification/Grpc_Imports.thy ===== *)
theory Grpc_Imports
  imports Grpc_Emit
begin

text \<open>
  Every type a generated file mentions is defined in that file or in \<open>common.proto\<close>, which the file then imports:
  the parts of the code-first generator together, from the endpoints to the imports.
\<close>

section \<open>What is reachable\<close>

definition child_rel :: "(string, string list) dict \<Rightarrow> (string \<times> string) set" where
  "child_rel ch = {(a, b). b \<in> set (kids ch a)}"

definition reach :: "(string, string list) dict \<Rightarrow> string set \<Rightarrow> string set" where
  "reach ch R = (child_rel ch)\<^sup>* `` R"

lemma reach_root: "r \<in> R \<Longrightarrow> r \<in> reach ch R"
  by (auto simp: reach_def)

lemma reach_kid: "a \<in> reach ch R \<Longrightarrow> b \<in> set (kids ch a) \<Longrightarrow> b \<in> reach ch R"
  by (auto simp: reach_def child_rel_def intro: rtrancl_into_rtrancl)

lemma reach_mono:
  assumes "\<And>n. set (kids ch n) \<subseteq> set (kids ch' n)" and "R \<subseteq> R'" shows "reach ch R \<subseteq> reach ch' R'"
proof -
  have "child_rel ch \<subseteq> child_rel ch'" using assms(1) by (auto simp: child_rel_def)
  then have "(child_rel ch)\<^sup>* \<subseteq> (child_rel ch')\<^sup>*" by (rule rtrancl_mono)
  then show ?thesis using assms(2) by (auto simp: reach_def)
qed

lemma reach_least:
  assumes "R \<subseteq> S" and "\<And>a. a \<in> S \<Longrightarrow> set (kids ch a) \<subseteq> S" shows "reach ch R \<subseteq> S"
proof
  fix b assume "b \<in> reach ch R"
  then obtain r where r: "r \<in> R" "(r, b) \<in> (child_rel ch)\<^sup>*" by (auto simp: reach_def)
  from r(2) show "b \<in> S" by induction (use r(1) assms in \<open>auto simp: child_rel_def\<close>)
qed

lemma reach_absorb: "r \<in> reach ch R \<Longrightarrow> reach ch (insert r R) = reach ch R"
  by (rule equalityI [OF reach_least reach_mono]) (auto intro: reach_root reach_kid)

lemma reach_loop_sound: "set (reach_loop ch stack seen) \<subseteq> set seen \<union> reach ch (set stack)"
proof (induction ch stack seen rule: reach_loop.induct)
  case (2 ch n stack seen)
  have "reach ch (set (kids ch n @ stack)) \<subseteq> reach ch (set (n # stack))"
    by (rule reach_least) (auto intro: reach_root reach_kid)
  moreover have "reach ch (set stack) \<subseteq> reach ch (set (n # stack))" by (rule reach_mono) auto
  ultimately show ?case using 2 reach_root [of n "set (n # stack)" ch] by (cases "n \<in> set seen") auto
qed simp

lemma reach_loop_closed:
  assumes "\<forall>a \<in> set seen. set (kids ch a) \<subseteq> set seen \<union> set stack"
  shows "set seen \<union> set stack \<subseteq> set (reach_loop ch stack seen) \<and>
    (\<forall>a \<in> set (reach_loop ch stack seen). set (kids ch a) \<subseteq> set (reach_loop ch stack seen))"
  using assms
proof (induction ch stack seen rule: reach_loop.induct)
  case (2 ch n stack seen)
  show ?case
  proof (cases "n \<in> set seen")
    case True
    then show ?thesis using 2(1,3) by auto
  next
    case False
    have "\<forall>a \<in> set (n # seen). set (kids ch a) \<subseteq> set (n # seen) \<union> set (kids ch n @ stack)" using 2(3) by auto
    then show ?thesis using 2(2) [OF False] False by auto
  qed
qed simp

lemma reachable_names_set: "set (reachable_names ch roots) = reach ch (set roots)"
proof
  show "set (reachable_names ch roots) \<subseteq> reach ch (set roots)" using reach_loop_sound [of ch roots "[]"] by (simp add: reachable_names_def)
  show "reach ch (set roots) \<subseteq> set (reachable_names ch roots)"
    using reach_loop_closed [of "[]" ch roots] by (intro reach_least) (auto simp: reachable_names_def)
qed

section \<open>References\<close>

definition refs_in :: "(string, string list) dict \<Rightarrow> string \<Rightarrow> string list" where
  "refs_in refs n = dget_default [] refs n"

lemma add_once_set [simp]: "set (add_once x xs) = insert x (set xs)"
  by (auto simp: add_once_def)

lemma add_once_distinct: "distinct xs \<Longrightarrow> distinct (add_once x xs)"
  by (simp add: add_once_def)

lemma refs_add: "refs_in (add_reference stem n refs) m = (if m = n then add_once stem (refs_in refs m) else refs_in refs m)"
  by (simp add: refs_in_def add_reference_def dget_default_def)

lemma refs_fold:
  "set (refs_in (fold (add_reference stem) ns refs) m) = set (refs_in refs m) \<union> (if m \<in> set ns then {stem} else {})"
  "distinct (refs_in refs m) \<Longrightarrow> distinct (refs_in (fold (add_reference stem) ns refs) m)"
proof (induction ns arbitrary: refs)
  case (Cons n ns)
  {
    case 1 show ?case using Cons(1) [of "add_reference stem n refs"] by (auto simp: refs_add)
  next
    case 2 then show ?case using Cons(2) [of "add_reference stem n refs"] by (cases "m = n") (simp_all add: refs_add add_once_distinct)
  }
qed simp_all

lemma refs_services:
  "set (refs_in (fold (refer_service ch) ss refs) m) =
    set (refs_in refs m) \<union> {stem. \<exists>s \<in> set ss. stem = proto_stem (sv_file s) \<and> m \<in> reach ch (set (service_roots s))}"
  "distinct (refs_in refs m) \<Longrightarrow> distinct (refs_in (fold (refer_service ch) ss refs) m)"
proof (induction ss arbitrary: refs)
  case (Cons s ss)
  {
    case 1
    show ?case using Cons(1) [of "refer_service ch s refs"] by (auto simp: refer_service_def refs_fold reachable_names_set)
  next
    case 2
    then show ?case using Cons(2) [of "refer_service ch s refs"] by (simp add: refer_service_def refs_fold)
  }
qed simp_all

lemma references_spec:
  "set (refs_in (compute_references ss ch) m) = {stem. \<exists>s \<in> set ss. stem = proto_stem (sv_file s) \<and> m \<in> reach ch (set (service_roots s))}"
  "distinct (refs_in (compute_references ss ch) m)"
  using refs_services [where ch = ch and ss = ss and refs = "[]" and m = m] by (simp_all add: compute_references_def refs_in_def dget_default_def)

section \<open>The names in a type\<close>

definition builtin_types :: "string list" where
  "builtin_types = [''string'', ''bytes'', ''bool'', ''double'', ''google.protobuf.Timestamp'', ''int32'', ''int64'', ''uint32'', ''uint64'', ''sint32'', ''sint64'']"

text \<open>What need not be looked up: a built-in type, or a text that is no type name.\<close>

definition plain :: "string \<Rightarrow> bool" where
  "plain t \<longleftrightarrow> t \<in> set builtin_types \<or> \<not> type_name t"

lemma builtin_protos [simp]: "scalar_proto s \<in> set builtin_types" "marker_proto m \<in> set builtin_types"
  "''string'' \<in> set builtin_types"
  by (simp_all add: scalar_proto_def marker_proto_def builtin_types_def split: scalar_type.split int_marker.split)

lemma type_names_name:
  assumes "type_name s" shows "type_names s = [s]"
  using type_name_starts [OF assms] by (simp add: type_names_def cut_prefix_def)

lemma type_names_repeated:
  "type_names (''repeated '' @ s) = (if starts_with ''repeated '' s then [s] else type_names s)"
proof (cases "starts_with ''repeated '' s")
  case True
  then obtain r where "s = ''repeated '' @ r" by (metis append_take_drop_id starts_with_def)
  then have "\<not> starts_with ''map<'' s" by (simp add: starts_with_def)
  moreover have "cut_prefix ''repeated '' (''repeated '' @ s) = s" by (simp add: cut_prefix_def starts_with_def)
  ultimately show ?thesis using True by (simp add: type_names_def)
next
  case False
  have "cut_prefix ''repeated '' (''repeated '' @ s) = s" by (simp add: cut_prefix_def starts_with_def)
  moreover have "cut_prefix ''repeated '' s = s" by (simp add: cut_prefix_def False)
  ultimately have "cut_prefix ''repeated '' (''repeated '' @ s) = s" "cut_prefix ''repeated '' s = s" by simp_all
  then show ?thesis using False by (simp add: type_names_def)
qed

lemma strip_blanks_name: "type_name s \<Longrightarrow> strip_blanks s = s" "type_name s \<Longrightarrow> strip_blanks (CHR '' '' # s) = s"
proof -
  assume "type_name s"
  then have "hd s \<noteq> CHR '' ''" "last s \<noteq> CHR '' ''" "s \<noteq> []" by (auto simp: type_name_def name_char_def list_all_iff)
  then have "dropWhile (\<lambda>c. c = CHR '' '') s = s" "dropWhile (\<lambda>c. c = CHR '' '') (rev s) = rev s"
    by (simp_all add: dropWhile_eq_self_iff hd_rev)
  then show "strip_blanks s = s" "strip_blanks (CHR '' '' # s) = s" by (simp_all add: strip_blanks_def)
qed

lemma split_on_none: "c \<notin> set s \<Longrightarrow> split_on c s = [s]"
  by (induction s) auto

lemma split_on_append: "c \<notin> set s \<Longrightarrow> split_on c (s @ c # t) = s # split_on c t"
  by (induction s) auto

lemma type_name_no_comma: "type_name s \<Longrightarrow> CHR '','' \<notin> set s"
  by (auto simp: type_name_def name_char_def list_all_iff)

lemma type_names_map:
  assumes "type_name k" and "type_name v" shows "type_names (''map<'' @ k @ '', '' @ v @ ''>'') = [k, v]"
proof -
  let ?s = "''map<'' @ k @ '', '' @ v @ ''>''"
  have nr: "\<not> starts_with ''repeated '' ?s" by (simp add: starts_with_def)
  have m: "starts_with ''map<'' ?s" by (rule starts_append)
  have inner: "butlast (drop 4 ?s) = k @ CHR '','' # CHR '' '' # v"
  proof -
    have "drop 4 ?s = (k @ CHR '','' # CHR '' '' # v) @ ''>''" by simp
    then show ?thesis by (simp only: butlast_snoc)
  qed
  have "split_on (CHR '','') (k @ CHR '','' # CHR '' '' # v) = [k, CHR '' '' # v]"
    using split_on_append [OF type_name_no_comma [OF assms(1)]] split_on_none [of "CHR '',''" "CHR '' '' # v"]
      type_name_no_comma [OF assms(2)] by simp
  then have "map strip_blanks (split_on (CHR '','') (butlast (drop 4 ?s))) = [k, v]"
    unfolding inner using strip_blanks_name assms by simp
  moreover have "?s \<noteq> []" "last ?s = CHR ''>''" by simp_all
  moreover have "cut_prefix ''repeated '' ?s = ?s" unfolding cut_prefix_def using nr by simp
  ultimately show ?thesis unfolding type_names_def Let_def using m by simp
qed

section \<open>The registry is wired\<close>

text \<open>Every name the registry holds is reachable from the roots, and the children of a message are the types it names.\<close>

definition held_names :: "proto_env \<Rightarrow> msg_registry \<Rightarrow> string set" where
  "held_names E g = named E g \<union> set (dkeys (g_enums g))"

definition reg_reach :: "msg_registry \<Rightarrow> string set \<Rightarrow> string set" where
  "reg_reach g R = reach (g_children g) R"

definition kids_in :: "msg_registry \<Rightarrow> string \<Rightarrow> string set" where
  "kids_in g n = set (kids (g_children g) n)"

definition grows :: "msg_registry \<Rightarrow> msg_registry \<Rightarrow> bool" where
  "grows g g' \<longleftrightarrow> (\<forall>n. kids_in g n \<subseteq> kids_in g' n)"

definition names_kids :: "msg_registry \<Rightarrow> string \<Rightarrow> string \<Rightarrow> bool" where
  "names_kids g n proto \<longleftrightarrow> (\<forall>t \<in> set (type_names proto). t \<in> kids_in g n \<or> plain t)"

definition typed :: "msg_registry \<Rightarrow> bool" where
  "typed g \<longleftrightarrow> (\<forall>n c. dget (g_messages g) n = Some c \<longrightarrow> (\<forall>f \<in> set (mc_fields c). names_kids g n (fc_type f)))"

lemma grows_refl [simp]: "grows g g"
  by (simp add: grows_def)

lemma grows_trans: "grows g g1 \<Longrightarrow> grows g1 g2 \<Longrightarrow> grows g g2"
  unfolding grows_def by blast

lemma names_kids_mono: "names_kids g n p \<Longrightarrow> grows g g' \<Longrightarrow> names_kids g' n p"
  unfolding names_kids_def grows_def by blast

lemma typed_mono: "typed g \<Longrightarrow> grows g g' \<Longrightarrow> g_messages g' = g_messages g \<Longrightarrow> typed g'"
  unfolding typed_def using names_kids_mono by metis

lemma reg_reach_mono: "grows g g' \<Longrightarrow> R \<subseteq> R' \<Longrightarrow> reg_reach g R \<subseteq> reg_reach g' R'"
  unfolding reg_reach_def grows_def kids_in_def by (intro reach_mono) auto

lemma reg_reach_kid: "a \<in> reg_reach g R \<Longrightarrow> b \<in> kids_in g a \<Longrightarrow> b \<in> reg_reach g R"
  unfolding reg_reach_def kids_in_def by (rule reach_kid)

lemma kids_add_child: "kids_in (add_child p n g) m = kids_in g m \<union> (if m = p then {n} else {})"
  by (auto simp: kids_in_def kids_def add_child_def children_of_def dget_default_def)

lemma grows_add_child: "grows g (add_child p n g)"
  by (simp add: grows_def kids_add_child)

lemma kids_note: "g_current g = Some p \<Longrightarrow> kids_in (note_child n g) p = insert n (kids_in g p)"
  by (simp add: note_child_def kids_add_child)

lemma grows_note: "grows g (note_child n g)"
  by (simp add: note_child_def grows_add_child split: option.splits)

lemma grows_message: "register_message E m g = (n, g') \<Longrightarrow> grows g g'"
proof -
  assume r: "register_message E m g = (n, g')"
  let ?g = "if m \<in> set (g_seen g) then g else g\<lparr>g_seen := g_seen g @ [m], g_pending := g_pending g @ [m]\<rparr>"
  have "grows g ?g" by (simp add: grows_def kids_in_def)
  then show ?thesis using grows_trans [OF _ grows_note] r by (auto simp: register_message_def simp del: if_split)
qed

lemma message_held:
  assumes "register_message E m g = (n, g')"
  shows "n = pe_name E m" and "held_names E g' = insert n (held_names E g)" and "g_current g = Some p \<Longrightarrow> n \<in> kids_in g' p"
proof -
  let ?g = "if m \<in> set (g_seen g) then g else g\<lparr>g_seen := g_seen g @ [m], g_pending := g_pending g @ [m]\<rparr>"
  have g': "g' = note_child n ?g" and n: "n = pe_name E m"
    using assms unfolding register_message_def prod.inject by (elim conjE, simp only:)+
  show "n = pe_name E m" by (rule n)
  show "held_names E g' = insert n (held_names E g)" unfolding g' held_names_def named_def by (auto simp: n)
  show "n \<in> kids_in g' p" if "g_current g = Some p" unfolding g' by (subst kids_note) (simp_all add: that)
qed

lemma enum_held:
  assumes "register_enum E e g = Inr (n, g')"
  shows "grows g g'" and "held_names E g' \<subseteq> insert n (held_names E g)" and "g_current g = Some p \<Longrightarrow> n \<in> kids_in g' p"
proof -
  obtain g1 where g1: "g' = note_child n g1" "n = pe_name E e" and
    c: "g1 = g \<or> (\<exists>c. g1 = g\<lparr>g_seen_enums := g_seen_enums g @ [e], g_enums := dset (pe_name E e) c (g_enums g)\<rparr>)"
  proof (cases "e \<in> set (g_seen_enums g)")
    case True
    show thesis by (rule that [of g]) (use assms True in \<open>auto simp: register_enum_def\<close>)
  next
    case False
    then obtain c where c: "build_enum E e = Inr c" using assms by (auto simp: register_enum_def sbind_eq_Inr)
    show thesis
      by (rule that [of "g\<lparr>g_seen_enums := g_seen_enums g @ [e], g_enums := dset (pe_name E e) c (g_enums g)\<rparr>"])
        (use assms False c in \<open>auto simp: register_enum_def\<close>)
  qed
  have keys: "set (dkeys (g_enums g1)) \<subseteq> insert n (set (dkeys (g_enums g)))"
    using c by (elim disjE exE) (simp_all add: g1(2) del: set_map add: set_dkeys_dset subset_insertI)
  have nm: "named E g1 = named E g" using c by (auto simp: named_def)
  have same: "grows g g1" "g_current g1 = g_current g" using c by (auto simp: grows_def kids_in_def)
  have held: "held_names E g1 \<subseteq> insert n (held_names E g)" unfolding held_names_def nm using keys by blast
  show "grows g g'" unfolding g1(1) by (rule grows_trans [OF same(1) grows_note])
  show "held_names E g' \<subseteq> insert n (held_names E g)" using held by (simp add: g1(1) held_names_def named_def)
  show "n \<in> kids_in g' p" if "g_current g = Some p" unfolding g1(1) by (subst kids_note) (simp_all add: same(2) that)
qed

text \<open>What one mapping does to the registry while the message \<open>p\<close> is being built.\<close>

definition maps_wired :: "proto_env \<Rightarrow> string \<Rightarrow> msg_registry \<Rightarrow> msg_registry \<Rightarrow> bool" where
  "maps_wired E p g g' \<longleftrightarrow> grows g g' \<and> held_names E g' \<subseteq> held_names E g \<union> kids_in g' p"

lemma maps_wired_refl [simp]: "maps_wired E p g g"
  by (simp add: maps_wired_def)

lemma maps_wired_trans: "maps_wired E p g g1 \<Longrightarrow> maps_wired E p g1 g2 \<Longrightarrow> maps_wired E p g g2"
  unfolding maps_wired_def grows_def by blast

lemma names_kids_repeated:
  assumes "names_kids g p s" shows "names_kids g p (''repeated '' @ s)"
proof (cases "starts_with ''repeated '' s")
  case True
  then have "plain s" using type_name_starts by (auto simp: plain_def)
  then show ?thesis unfolding names_kids_def type_names_repeated using True by simp
next
  case False
  then show ?thesis using assms unfolding names_kids_def type_names_repeated by simp
qed

lemma map_type_wired:
  assumes "map_type E t g = Inr ((s, opt), g')" and "names_ok E" and "g_current g = Some p"
  shows "maps_wired E p g g' \<and> names_kids g' p s"
  using assms
proof (induction E t g arbitrary: s opt g' rule: map_type.induct)
  case (1 E t ms g)
  then show ?case by (auto simp: names_kids_def plain_def type_names_name split: option.splits)
next
  case (2 E ts g)
  then obtain t where t: "not_none ts = [t]" by (auto split: list.splits)
  then obtain o1 where "map_type E t g = Inr ((s, o1), g')" using 2(2) by (auto simp: sbind_eq_Inr)
  then show ?case using 2(1) [OF t] 2(3,4) by blast
next
  case (4 E t g)
  then obtain s1 o1 where m: "map_type E t g = Inr ((s1, o1), g')" and s: "s = ''repeated '' @ s1" by (auto simp: sbind_eq_Inr)
  show ?case using 4(1) [OF m 4(3,4)] names_kids_repeated unfolding s by blast
next
  case (6 E k v g)
  obtain key where key: "scalar_or_error k ''map key'' = Inr key" using 6(2) by (auto simp: sbind_eq_Inr)
  then obtain s1 o1 where m: "map_type E v g = Inr ((s1, o1), g')" using 6(2) by (auto simp: sbind_eq_Inr split: if_splits)
  have s: "s = ''map<'' @ key @ '', '' @ s1 @ ''>''" "\<not> starts_with ''repeated '' s1" "\<not> starts_with ''map<'' s1"
    using 6(2) by (auto simp: sbind_eq_Inr key m split: if_splits)
  obtain k1 where k1: "key = scalar_proto k1"
    using key by (auto simp: scalar_or_error_def lookup_scalar_def split: py_type.splits if_splits)
  have v: "type_name s1" using map_type_shape [OF m 6(3)] s(2,3) by blast
  have "type_names s = [key, s1]" unfolding s(1) by (rule type_names_map) (simp_all add: k1 v)
  then show ?case using 6(1) [OF m 6(3,4)] type_names_name [OF v] by (simp add: names_kids_def k1 plain_def)
next
  case (7 E m g)
  obtain n where r: "register_message E m g = (n, g')" and s: "s = n" using 7(1) by (auto split: prod.splits)
  note h = message_held [OF r] and k = message_held(3) [OF r 7(3)]
  have "type_name s" using 7(2) by (simp add: s h(1) names_ok_def)
  then show ?case using grows_message [OF r] h(2) k by (auto simp: maps_wired_def names_kids_def type_names_name s)
next
  case (8 E e g)
  obtain n where r: "register_enum E e g = Inr (n, g')" and s: "s = n" using 8(1) by (auto simp: sbind_eq_Inr)
  note h = enum_held(1,2) [OF r] and k = enum_held(3) [OF r 8(3)]
  have "type_name s" using 8(2) register_enum_name [OF r] by (simp add: s names_ok_def)
  then show ?case using h k by (auto simp: maps_wired_def names_kids_def type_names_name s)
qed (auto simp: lookup_scalar_def names_kids_def plain_def type_names_name)

lemma hint_wired [simp]:
  "maps_wired E p g (add_hint n f t g') = maps_wired E p g g'" "names_kids (add_hint n f t g') = names_kids g'"
  "g_current (add_hint n f t g') = g_current g'"
  by (auto simp: add_hint_def maps_wired_def grows_def kids_in_def held_names_def named_def names_kids_def fun_eq_iff
      split: option.splits)

lemma map_fields_wired:
  assumes "map_fields E n fs g = Inr (specs, g')" and "names_ok E" and "g_current g = Some p"
  shows "maps_wired E p g g' \<and> (\<forall>(f, s, opt) \<in> set specs. names_kids g' p s)"
  using assms
proof (induction E n fs g arbitrary: specs g' rule: map_fields.induct)
  case (2 E n f t ms rest g)
  obtain s opt g1 where 1: "map_type E (annotate t ms) g = Inr ((s, opt), g1)" using "2.prems"(1) by (auto simp: sbind_eq_Inr)
  let ?g = "add_hint n f (annotate t ms) g1"
  obtain specs2 where rest: "map_fields E n rest ?g = Inr (specs2, g')" and specs: "specs = (f, s, opt) # specs2"
    using "2.prems"(1) 1 by (auto simp: sbind_eq_Inr)
  have cur: "g_current ?g = Some p" using map_type_registers [OF 1] "2.prems"(3) by (simp add: registers_def)
  note a = map_type_wired [OF 1 "2.prems"(2,3)]
  have b: "maps_wired E p ?g g' \<and> (\<forall>(f, s, opt) \<in> set specs2. names_kids g' p s)"
    using "2.IH" [OF rest "2.prems"(2) cur] by simp
  have "maps_wired E p g ?g" using a by simp
  then have "maps_wired E p g g'" using b maps_wired_trans by blast
  moreover have "names_kids g' p s" using a b names_kids_mono [of ?g p s g'] by (simp add: maps_wired_def)
  ultimately show ?case using b by (simp add: specs)
qed simp

lemma build_message_wired:
  assumes "build_message E m g = Inr (c, g')" and "names_ok E"
  shows "maps_wired E (pe_name E m) g g' \<and> (\<forall>f \<in> set (mc_fields c). names_kids g' (pe_name E m) (fc_type f))"
  using assms(1)
proof (rule build_message_Inr)
  fix specs g1 numbers lock
  let ?n = "pe_name E m"
  assume f: "map_fields E ?n (pe_fields E m) (g\<lparr>g_current := Some ?n\<rparr>) = Inr (specs, g1)"
    and g': "g' = g1\<lparr>g_current := None, g_lock := lock\<rparr>" and c: "mc_fields c = map (number_field numbers) specs"
  note w = map_fields_wired [OF f assms(2), of ?n]
  have same: "maps_wired E ?n g g' = maps_wired E ?n (g\<lparr>g_current := Some ?n\<rparr>) g1" "names_kids g' = names_kids g1"
    by (auto simp: g' maps_wired_def grows_def kids_in_def held_names_def named_def names_kids_def fun_eq_iff)
  show ?thesis unfolding same c using w by (auto simp: number_field_def)
qed

text \<open>The loop over the pending models keeps everything reachable and every field among the children.\<close>

definition reg_wired :: "proto_env \<Rightarrow> string set \<Rightarrow> msg_registry \<Rightarrow> bool" where
  "reg_wired E R g \<longleftrightarrow> held_names E g \<subseteq> reg_reach g R \<and> typed g \<and> set (g_pending g) \<subseteq> set (g_seen g)"

lemma reg_wired_message:
  assumes "reg_wired E R g" and "m \<in> set (g_seen g)" and "build_message E m (g\<lparr>g_pending := ms\<rparr>) = Inr (c, g1)" and "names_ok E"
    and "set ms \<subseteq> set (g_seen g)"
  shows "reg_wired E R (store_message E m c g1)"
proof -
  let ?n = "pe_name E m" and ?g = "g\<lparr>g_pending := ms\<rparr>" and ?h = "store_message E m c g1"
  note w = build_message_wired [OF assms(3,4)]
  note f = build_message_fresh [OF assms(3)]
  have same: "held_names E ?g = held_names E g" "kids_in ?g = kids_in g" "g_messages ?g = g_messages g"
    by (simp_all add: held_names_def named_def kids_in_def fun_eq_iff)
  have h: "kids_in ?h = kids_in g1" "reg_reach ?h = reg_reach g1" "names_kids ?h = names_kids g1"
    by (simp_all add: store_message_def kids_in_def reg_reach_def names_kids_def fun_eq_iff)
  have grows: "grows g g1" using w same(2) by (simp add: maps_wired_def grows_def)
  have n: "?n \<in> held_names E g" using assms(2) by (simp add: held_names_def named_def)
  have reach: "held_names E g \<subseteq> reg_reach g1 R" using assms(1) reg_reach_mono [OF grows order_refl, of R] by (auto simp: reg_wired_def)
  have "kids_in g1 ?n \<subseteq> reg_reach g1 R" using reach n reg_reach_kid by blast
  then have "held_names E g1 \<subseteq> reg_reach g1 R" using w reach same(1) by (auto simp: maps_wired_def)
  moreover have "held_names E ?h \<subseteq> insert ?n (held_names E g1)"
    by (auto simp: held_names_def named_def store_message_def)
  ultimately have a: "held_names E ?h \<subseteq> reg_reach ?h R" using n reach by (auto simp: h)
  have "typed g1" using typed_mono [OF _ grows] assms(1) f(2) same(3) by (simp add: reg_wired_def)
  then have b: "typed ?h" using w unfolding typed_def h by (simp add: store_message_def)
  have c: "set (g_pending ?h) \<subseteq> set (g_seen ?h)" using f(1) assms(5) by (auto simp: store_message_def)
  show ?thesis using a b c by (simp add: reg_wired_def)
qed

lemma process_wired:
  assumes "process_pending E g = Some r" and "r = Inr g'" and "reg_wired E R g" and "names_ok E"
  shows "reg_wired E R g'"
  using assms
proof (induction rule: process_pending_induct)
  case (Loop pp E g r)
  show ?case
  proof (cases "g_pending g")
    case Nil
    then show ?thesis using Loop(2-4) by simp
  next
    case (Cons m ms)
    then obtain c g1 where b: "build_message E m (g\<lparr>g_pending := ms\<rparr>) = Inr (c, g1)"
      using Loop(2,3) by (cases "build_message E m (g\<lparr>g_pending := ms\<rparr>)") auto
    then have pp: "pp E (store_message E m c g1) = Some r" using Loop(2) Cons by simp
    have "m \<in> set (g_seen g)" "set ms \<subseteq> set (g_seen g)" using Loop(4) Cons by (auto simp: reg_wired_def)
    then have "reg_wired E R (store_message E m c g1)" using reg_wired_message [OF Loop(4) _ b Loop(5)] by simp
    then show ?thesis using Loop(1) [OF pp Loop(3) _ Loop(5)] by simp
  qed
qed

section \<open>Reading the services\<close>

definition service_wired :: "proto_env \<Rightarrow> string set \<Rightarrow> msg_registry \<Rightarrow> bool" where
  "service_wired E R g \<longleftrightarrow> reg_wired E R g \<and> g_current g = None"

lemma service_wired_mono: "service_wired E R g \<Longrightarrow> R \<subseteq> R' \<Longrightarrow> service_wired E R' g"
  using reg_reach_mono [OF grows_refl, of R R' g] unfolding service_wired_def reg_wired_def by blast

lemma register_service:
  assumes "service_wired E R g" and "register_message E m g = (n, g')"
  shows "service_wired E (insert n R) g'"
proof -
  note h = message_held [OF assms(2)] and grows = grows_message [OF assms(2)]
  have r: "registers {m} g g'" by (rule register_registers [OF assms(2)])
  have "held_names E g \<subseteq> reg_reach g' (insert n R)"
    using assms(1) reg_reach_mono [OF grows, of R "insert n R"] by (auto simp: service_wired_def reg_wired_def)
  moreover have "n \<in> reg_reach g' (insert n R)" unfolding reg_reach_def by (rule reach_root) simp
  ultimately have "held_names E g' \<subseteq> reg_reach g' (insert n R)" by (simp add: h(2))
  moreover have "typed g'" using assms(1) typed_mono [OF _ grows] r by (simp add: service_wired_def reg_wired_def registers_def)
  moreover have "set (g_pending g') \<subseteq> set (g_seen g')" using assms(1) r by (auto simp: service_wired_def reg_wired_def registers_def)
  ultimately show ?thesis using assms(1) r by (simp add: service_wired_def reg_wired_def registers_def)
qed

lemma kids_add_message: "kids_in (add_message c ks g) n = kids_in g n \<union> (if n = mc_name c then set ks else {})"
proof -
  have "kids_in (fold (add_child p) ks x) n = kids_in x n \<union> (if n = p then set ks else {})" for p x
    by (induction ks arbitrary: x) (auto simp: kids_add_child)
  then show ?thesis by (simp add: add_message_def kids_in_def)
qed

lemma add_message_service:
  assumes "service_wired E R g" and "set ks \<subseteq> reg_reach g R"
    and "\<forall>f \<in> set (mc_fields c). \<forall>t \<in> set (type_names (fc_type f)). t \<in> set ks \<or> plain t"
  shows "service_wired E (insert (mc_name c) R) (add_message c ks g)"
proof -
  let ?g = "add_message c ks g" and ?R = "insert (mc_name c) R"
  have grows: "grows g ?g" by (simp add: grows_def kids_add_message)
  have "held_names E g \<subseteq> reg_reach ?g ?R"
    using assms(1) reg_reach_mono [OF grows, of R ?R] by (auto simp: service_wired_def reg_wired_def)
  moreover have "mc_name c \<in> reg_reach ?g ?R" unfolding reg_reach_def by (rule reach_root) simp
  moreover have "held_names E ?g = insert (mc_name c) (held_names E g)" by (auto simp: held_names_def named_def add_message_frame)
  ultimately have "held_names E ?g \<subseteq> reg_reach ?g ?R" by simp
  moreover have "typed ?g"
    unfolding typed_def
  proof (intro allI impI ballI)
    fix n d f assume d: "dget (g_messages ?g) n = Some d" and f: "f \<in> set (mc_fields d)"
    show "names_kids ?g n (fc_type f)"
    proof (cases "n = mc_name c")
      case True
      then have "d = c" using d by (simp add: add_message_frame)
      then show ?thesis using assms(3) f True by (auto simp: names_kids_def kids_add_message)
    next
      case False
      then have "names_kids g n (fc_type f)"
        using assms(1) d f by (simp add: add_message_frame service_wired_def reg_wired_def typed_def)
      then show ?thesis using names_kids_mono grows by blast
    qed
  qed
  ultimately show ?thesis using assms(1) by (simp add: service_wired_def reg_wired_def add_message_frame)
qed

lemma bytes_plain: "plain ''bytes''" "type_names ''bytes'' = [''bytes'']"
proof -
  show "plain ''bytes''" by (simp add: plain_def builtin_types_def)
  have "type_name ''bytes''" by (simp add: type_name_def name_char_def)
  then show "type_names ''bytes'' = [''bytes'']" by (rule type_names_name)
qed

lemma build_method_wired:
  assumes "service_wired E R g" and "build_method E c e g = Inr (mt, g')" and "names_ok E"
  shows "service_wired E (R \<union> {mt_request mt, mt_response mt}) g'"
  using assms(2)
proof (cases rule: build_method_cases)
  case (download req rm g1 rpc)
  let ?w = "download_wrapper rpc"
  have "service_wired E (insert (mc_name ?w) (insert rm R)) (add_message ?w [] g1)"
    by (rule add_message_service [OF register_service [OF assms(1) download(2)]])
      (simp_all add: download_wrapper_def chunk_field_def bytes_plain)
  then show ?thesis unfolding download(5) by (rule service_wired_mono) (auto simp: download)
next
  case (upload req rm g1 m sm g2 rpc)
  let ?w = "upload_wrapper rpc rm" and ?R = "insert sm (insert rm R)" and ?R' = "R \<union> {mt_request mt, mt_response mt}"
  have rm: "type_name rm" using assms(3) message_held(1) [OF upload(2)] by (simp add: names_ok_def)
  have w: "service_wired E (insert (mc_name ?w) ?R) (add_message ?w [rm] g2)"
  proof (rule add_message_service [OF register_service [OF register_service [OF assms(1) upload(2)] upload(4)]])
    show "set [rm] \<subseteq> reg_reach g2 ?R" unfolding reg_reach_def by (auto intro: reach_root)
  qed (simp add: upload_wrapper_def chunk_field_def type_names_name rm bytes_plain)
  have same: "insert (mc_name ?w) ?R = insert rm ?R'" by (auto simp: upload)
  have "rm \<in> reg_reach g' ?R'"
    by (rule reg_reach_kid [of "mc_name ?w"])
      (auto simp: upload(7) kids_add_message reg_reach_def upload(5) [symmetric] intro: reach_root)
  then have "reg_reach g' (insert rm ?R') = reg_reach g' ?R'" unfolding reg_reach_def by (rule reach_absorb)
  then show ?thesis using w unfolding same upload(7) [symmetric] by (simp add: service_wired_def reg_wired_def)
next
  case (messages req rm g1 m sm)
  have "service_wired E (insert sm (insert rm R)) g'"
    by (rule register_service [OF register_service [OF assms(1) messages(2)] messages(4)])
  then show ?thesis by (rule service_wired_mono) (auto simp: messages)
qed

lemma build_methods_wired:
  assumes "service_wired E R g" and "build_methods E c es g = Inr (ms, g')" and "names_ok E"
  shows "service_wired E (R \<union> (\<Union>mt \<in> set ms. {mt_request mt, mt_response mt})) g'"
  using assms(1,2)
proof (induction es arbitrary: g ms R)
  case (Cons e es)
  obtain mt g1 where 1: "build_method E c e g = Inr (mt, g1)" using Cons.prems by (auto simp: sbind_eq_Inr)
  obtain ms2 where 2: "build_methods E c es g1 = Inr (ms2, g')" "ms = mt # ms2" using Cons.prems 1 by (auto simp: sbind_eq_Inr)
  show ?case using Cons.IH [OF build_method_wired [OF Cons.prems(1) 1 assms(3)] 2(1)] by (simp add: 2(2) Un_assoc)
qed simp

lemma build_services_wired:
  assumes "service_wired E R g" and "build_services E sid cs g = Inr (ss, g')" and "names_ok E"
  shows "service_wired E (R \<union> (\<Union>s \<in> set ss. set (service_roots s))) g'"
  using assms(1,2)
proof (induction cs arbitrary: g ss R)
  case (Cons c cs)
  show ?case
  proof (cases "ct_server c = sid")
    case True
    obtain s g1 where 1: "build_service E sid c g = Inr (s, g1)" using Cons.prems True by (auto simp: sbind_eq_Inr)
    obtain ss2 where 2: "build_services E sid cs g1 = Inr (ss2, g')" "ss = s # ss2"
      using Cons.prems True 1 by (auto simp: sbind_eq_Inr)
    have 3: "build_methods E c (iter_endpoints c) g = Inr (sv_methods s, g1)"
      using 1 by (auto simp: build_service_def sbind_eq_Inr)
    have roots: "(\<Union>mt \<in> set (sv_methods s). {mt_request mt, mt_response mt}) = set (service_roots s)"
      by (auto simp: service_roots_def)
    show ?thesis using Cons.IH [OF build_methods_wired [OF Cons.prems(1) 3 assms(3)] 2(1)] by (simp add: 2(2) roots Un_assoc)
  qed (use Cons in auto)
qed simp

section \<open>Every mentioned type is at hand\<close>

text \<open>The types a file mentions: in the fields of its messages and in the methods of its services.\<close>

definition mentions :: "contract_model \<Rightarrow> string \<Rightarrow> string \<Rightarrow> bool" where
  "mentions M stem t \<longleftrightarrow>
     (\<exists>c \<in> set (messages_in M stem). \<exists>f \<in> set (mc_fields c). t \<in> set (type_names (fc_type f))) \<or>
     (\<exists>s \<in> set (services_in M stem). t \<in> set (service_roots s))"

lemma contract_wired:
  assumes "build_contract E sid cs lock = Some (Inr (M, lock'))" and "names_ok E"
  obtains g where "reg_wired E (\<Union>s \<in> set (cm_services M). set (service_roots s)) g" and "cm_messages M = g_messages g"
    and "cm_enums M = g_enums g" and "cm_references M = compute_references (cm_services M) (g_children g)"
proof -
  obtain ss g0 where s: "build_services E sid cs (new_msg_registry lock) = Inr (ss, g0)"
    using assms(1) by (cases "build_services E sid cs (new_msg_registry lock)") (auto simp: build_contract_def)
  obtain p where p: "process_pending E g0 = Some p" using assms(1) by (cases "process_pending E g0") (auto simp: build_contract_def s)
  obtain g where g: "p = Inr g" using assms(1) by (cases p) (auto simp: build_contract_def s p)
  have M: "M = \<lparr>cm_server = sid, cm_services = ss, cm_messages = g_messages g, cm_enums = g_enums g,
      cm_references = compute_references ss (g_children g), cm_hints = g_hints g\<rparr>"
    using assms(1) by (simp add: build_contract_def s p g)
  have "service_wired E {} (new_msg_registry lock)"
    by (simp add: service_wired_def reg_wired_def new_msg_registry_def held_names_def named_def typed_def)
  then have "service_wired E ({} \<union> (\<Union>s \<in> set ss. set (service_roots s))) g0" using s assms(2) by (rule build_services_wired)
  then have "reg_wired E (\<Union>s \<in> set ss. set (service_roots s)) g0" by (simp add: service_wired_def)
  then have "reg_wired E (\<Union>s \<in> set ss. set (service_roots s)) g" by (rule process_wired [OF p g _ assms(2)])
  then show thesis by (intro that [of g]) (simp_all add: M)
qed

lemma file_of_place: "n \<in> set (type_keys M) \<Longrightarrow> dget (file_placement M) n = Some (place M n)"
proof -
  assume n: "n \<in> set (type_keys M)"
  have "file_placement M = dict_update [] (map (\<lambda>n. (n, place M n)) (type_keys M))" by (simp add: file_placement_def dict_of_def dict_update_def)
  then show ?thesis using n by (simp add: dget_dict_update rev_map)
qed

text \<open>A type that is referred to from wherever another one is goes into the same file or into the common one.\<close>

lemma place_subset:
  assumes "set (refs_of M n) \<subseteq> set (refs_of M t)" and "refs_of M n \<noteq> []" and "distinct (refs_of M n)"
  shows "place M t = place M n \<or> place M t = common_stem"
proof -
  obtain a rest where n: "refs_of M n = a # rest" using assms(2) by (cases "refs_of M n") auto
  show ?thesis
  proof (cases rest)
    case Nil
    then have "a \<in> set (refs_of M t)" using assms(1) n by simp
    then show ?thesis using n Nil by (cases "refs_of M t" rule: remdups_adj.cases) (auto simp: place_def)
  next
    case (Cons b more)
    then have "a \<noteq> b" "{a, b} \<subseteq> set (refs_of M t)" using assms(1,3) n by auto
    then show ?thesis by (cases "refs_of M t" rule: remdups_adj.cases) (auto simp: place_def)
  qed
qed

lemma place_at: "stem \<in> set (refs_of M t) \<Longrightarrow> place M t = stem \<or> place M t = common_stem"
  by (cases "refs_of M t" rule: remdups_adj.cases) (auto simp: place_def)

lemma mentioned_place:
  assumes "build_contract E sid cs lock = Some (Inr (M, lock'))" and "names_ok E"
    and keys: "\<forall>n \<in> set (type_keys M). type_name n \<and> n \<notin> set builtin_types"
    and "mentions M stem t" and t: "t \<in> set (type_keys M)" and dist: "distinct (dkeys (cm_messages M))"
  shows "place M t = stem \<or> place M t = common_stem"
proof -
  obtain g where w: "reg_wired E (\<Union>s \<in> set (cm_services M). set (service_roots s)) g" and M: "cm_messages M = g_messages g"
    "cm_enums M = g_enums g" and refs: "cm_references M = compute_references (cm_services M) (g_children g)"
    by (rule contract_wired [OF assms(1,2)])
  have refs_at: "set (refs_of M n) = {stem. \<exists>s \<in> set (cm_services M). stem = proto_stem (sv_file s) \<and> n \<in> reach (g_children g) (set (service_roots s))}"
    "distinct (refs_of M n)" for n
    using references_spec [of "cm_services M" "g_children g" n] by (simp_all add: refs refs_of_def refs_in_def)
  consider (field) c f where "c \<in> set (messages_in M stem)" "f \<in> set (mc_fields c)" "t \<in> set (type_names (fc_type f))"
    | (served) s where "s \<in> set (services_in M stem)" "t \<in> set (service_roots s)"
    using assms(4) by (auto simp: mentions_def)
  then show ?thesis
  proof cases
    case field
    obtain n where n: "(n, c) \<in> set (cm_messages M)" "file_of M n = stem" using field(1) by (auto simp: messages_in_def)
    have nk: "n \<in> set (type_keys M)" using n(1) by (force simp: type_keys_def)
    have stem: "stem = place M n" using n(2) file_of_place [OF nk] by (simp add: file_of_def dget_default_def)
    have "dget (g_messages g) n = Some c" using n(1) dist by (simp add: M)
    then have "names_kids g n (fc_type f)" using w field(2) by (simp add: reg_wired_def typed_def)
    then have kid: "t \<in> set (kids (g_children g) n)" using field(3) keys t by (auto simp: names_kids_def plain_def kids_in_def)
    have sub: "set (refs_of M n) \<subseteq> set (refs_of M t)" using reach_kid [OF _ kid] by (auto simp: refs_at(1))
    have "n \<in> reg_reach g (\<Union>s \<in> set (cm_services M). set (service_roots s))"
    proof -
      have "n \<in> set (dkeys (g_messages g))" using image_eqI [of n fst "(n, c)"] n(1) by (simp add: M)
      then have "n \<in> held_names E g" unfolding held_names_def named_def by blast
      then show ?thesis using w unfolding reg_wired_def by blast
    qed
    then obtain s where "s \<in> set (cm_services M)" "n \<in> reach (g_children g) (set (service_roots s))"
      by (auto simp: reg_reach_def reach_def)
    then have "refs_of M n \<noteq> []" using refs_at(1) [of n] by auto
    then show ?thesis using place_subset [OF sub _ refs_at(2)] stem by simp
  next
    case served
    have "stem \<in> set (refs_of M t)" using served reach_root by (fastforce simp: services_in_def refs_at(1))
    then show ?thesis by (rule place_at)
  qed
qed

lemma process_distinct:
  assumes "process_pending E g = Some r" and "r = Inr g'" and "distinct (dkeys (g_messages g))"
  shows "distinct (dkeys (g_messages g'))"
  using assms
proof (induction rule: process_pending_induct)
  case (Loop pp E g r)
  show ?case
  proof (cases "g_pending g")
    case Nil
    then show ?thesis using Loop(2-4) by simp
  next
    case (Cons m ms)
    then obtain c g1 where b: "build_message E m (g\<lparr>g_pending := ms\<rparr>) = Inr (c, g1)"
      using Loop(2,3) by (cases "build_message E m (g\<lparr>g_pending := ms\<rparr>)") auto
    then have pp: "pp E (store_message E m c g1) = Some r" using Loop(2) Cons by simp
    have "distinct (dkeys (g_messages (store_message E m c g1)))"
      using Loop(4) build_message_fresh(2) [OF b] by (simp add: store_message_def distinct_update)
    then show ?thesis using Loop(1) [OF pp Loop(3)] by simp
  qed
qed

lemma build_methods_distinct:
  "build_methods E c es g = Inr (ms, g') \<Longrightarrow> distinct (dkeys (g_messages g)) \<Longrightarrow> distinct (dkeys (g_messages g'))"
proof (induction es arbitrary: g ms)
  case (Cons e es)
  obtain mt g1 where 1: "build_method E c e g = Inr (mt, g1)" using Cons.prems by (auto simp: sbind_eq_Inr)
  obtain ms2 where 2: "build_methods E c es g1 = Inr (ms2, g')" using Cons.prems 1 by (auto simp: sbind_eq_Inr)
  have same: "g_messages h' = g_messages h" if "register_message E m h = (n, h')" for m h n h'
    using register_registers [OF that] by (simp add: registers_def)
  have "distinct (dkeys (g_messages g1))"
    using 1 by (cases rule: build_method_cases) (use Cons.prems(2) same in \<open>simp_all add: add_message_frame distinct_update\<close>)
  then show ?case by (rule Cons.IH [OF 2])
qed simp

lemma build_services_distinct:
  "build_services E sid cs g = Inr (ss, g') \<Longrightarrow> distinct (dkeys (g_messages g)) \<Longrightarrow> distinct (dkeys (g_messages g'))"
proof (induction cs arbitrary: g ss)
  case (Cons c cs)
  show ?case
  proof (cases "ct_server c = sid")
    case True
    obtain s g1 where 1: "build_service E sid c g = Inr (s, g1)" using Cons.prems True by (auto simp: sbind_eq_Inr)
    obtain ss2 where 2: "build_services E sid cs g1 = Inr (ss2, g')" using Cons.prems True 1 by (auto simp: sbind_eq_Inr)
    have 3: "build_methods E c (iter_endpoints c) g = Inr (sv_methods s, g1)" using 1 by (auto simp: build_service_def sbind_eq_Inr)
    show ?thesis by (rule Cons.IH [OF 2 build_methods_distinct [OF 3 Cons.prems(2)]])
  next
    case False
    then have "build_services E sid cs g = Inr (ss, g')" using Cons.prems(1) by simp
    then show ?thesis using Cons.prems(2) by (rule Cons.IH)
  qed
qed simp

lemma contract_distinct:
  assumes "build_contract E sid cs lock = Some (Inr (M, lock'))" shows "distinct (dkeys (cm_messages M))"
proof -
  obtain ss g0 where s: "build_services E sid cs (new_msg_registry lock) = Inr (ss, g0)"
    using assms by (cases "build_services E sid cs (new_msg_registry lock)") (auto simp: build_contract_def)
  obtain p where p: "process_pending E g0 = Some p" using assms by (cases "process_pending E g0") (auto simp: build_contract_def s)
  obtain g where g: "p = Inr g" using assms by (cases p) (auto simp: build_contract_def s p)
  have "distinct (dkeys (g_messages g0))" by (rule build_services_distinct [OF s]) (simp add: new_msg_registry_def)
  then have "distinct (dkeys (g_messages g))" by (rule process_distinct [OF p g])
  moreover have "cm_messages M = g_messages g" using assms by (auto simp: build_contract_def s p g)
  ultimately show ?thesis by simp
qed

text \<open>
  C27: whatever the controllers and their models: every message or enum that a generated file mentions, in a field or in
  a method, is put into the same file or into the common file, and in the second case the file imports it. (No name
  of a message or an enum may be that of a built-in type.)
\<close>

theorem imports_suffice:
  assumes "build_contract E sid cs lock = Some (Inr (M, lock'))" and "names_ok E"
    and "\<forall>n \<in> set (type_keys M). type_name n \<and> n \<notin> set builtin_types"
    and "mentions M stem t" and "t \<in> set (type_keys M)"
  shows "file_of M t = stem \<or> file_of M t = common_stem \<and> common_stem @ ''.proto'' \<in> set (file_imports M stem)"
proof -
  have f: "file_of M t = place M t" "dget (file_placement M) t = Some (place M t)"
    using file_of_place [OF assms(5)] by (simp_all add: file_of_def dget_default_def)
  show ?thesis
  proof (cases "place M t = stem")
    case False
    then have c: "place M t = common_stem" "stem \<noteq> common_stem"
      using mentioned_place [OF assms contract_distinct [OF assms(1)]] by auto
    then have "in_common M stem t" by (simp add: in_common_def f)
    then have "needs_common M stem (messages_in M stem) (services_in M stem)"
      using assms(4) by (auto simp: mentions_def needs_common_def service_roots_def)
    then show ?thesis using f c by (simp add: file_imports_def imports_of_def needs_common_def)
  qed (simp add: f)
qed

definition other_controller :: controller_class where
  "other_controller = node_controller\<lparr>ct_name := ''OtherController''\<rparr>"

declare process_pending.simps [code]

lemma shared_contract:
  "case build_contract node_types ''default'' [node_controller, other_controller] [] of
     Some (Inr (M, l)) \<Rightarrow> mentions M ''node'' ''Node'' \<and> ''Node'' \<in> set (type_keys M) \<and> file_of M ''Node'' = common_stem \<and>
       (\<forall>n \<in> set (type_keys M). type_name n \<and> n \<notin> set builtin_types)
   | _ \<Rightarrow> False"
  by code_simp

lemma imports_suffice_witness:
  "\<exists>M l. build_contract node_types ''default'' [node_controller, other_controller] [] = Some (Inr (M, l)) \<and>
     ''common.proto'' \<in> set (file_imports M ''node'')"
proof -
  obtain M l where b: "build_contract node_types ''default'' [node_controller, other_controller] [] = Some (Inr (M, l))"
    and m: "mentions M ''node'' ''Node''" "''Node'' \<in> set (type_keys M)" "file_of M ''Node'' = common_stem"
    and n: "\<forall>n \<in> set (type_keys M). type_name n \<and> n \<notin> set builtin_types"
    using shared_contract by (auto split: option.splits sum.splits)
  have "names_ok node_types" by (simp add: names_ok_def node_types_def type_name_def name_char_def)
  from imports_suffice [OF b this n m(1,2)] show ?thesis using b m(3) by (auto simp: common_stem_def)
qed

section \<open>Two divergences\<close>

text \<open>Two upload endpoints of one name: the wrapper message of the second replaces that of the first.\<close>

definition upload_controller :: "string \<Rightarrow> nat \<Rightarrow> controller_class" where
  "upload_controller n m = \<lparr>ct_name = n, ct_server = ''default'', ct_vars = [[(''put'', True)]],
     ct_mark = [''put'' \<mapsto> \<lparr>em_name = ''put'', em_kind = StreamEndpoint\<rparr>],
     ct_handler = (\<lambda>a. \<lparr>ha_coroutine = True, ha_async_gen = False,
       ha_hints = Inr [(''request'', ModelHint m), (''data'', UploadHint), (''return'', ModelHint 1)],
       ha_params = [''self'', ''request'', ''data'']\<rparr>)\<rparr>"

lemma wrappers_collide:
  "case build_contract node_types ''default'' [upload_controller ''A'' 0, upload_controller ''B'' 1] [] of
     Some (Inr (M, l)) \<Rightarrow> map (\<lambda>s. map mt_request (sv_methods s)) (cm_services M) = [[''PutChunk''], [''PutChunk'']] \<and>
       map_option (\<lambda>c. map fc_type (mc_fields c)) (dget (cm_messages M) ''PutChunk'') = Some [''Reply'', ''bytes'']
   | _ \<Rightarrow> False"
  by code_simp

text \<open>The member of value 0 that the builder puts first is not first in the text when another one is negative.\<close>

lemma negative_before_zero:
  "sorted_values \<lparr>ec_name = ''E'', ec_values = [(''NONE'', 0), (''BAD'', - 1)]\<rparr> = [(''BAD'', - 1), (''NONE'', 0)]"
  by (simp add: sorted_values_def)

end
