(* ===== verification/Event_Bus.thy ===== *)
theory Event_Bus
  imports Prelude "HOL-Library.Multiset"
begin

text \<open>
  The in-process event bus (\<open>xime/core/event/bus.py\<close>, \<open>_config.py\<close>): subscriptions, the ceiling on handler tasks,
  what is dropped and counted. An event type and a handler are numbers, an event is its type and a value. A task
  has the number of its creation; a handler may raise, which only ends its task.
\<close>

section \<open>Configuration\<close>

record bus_config =
  bc_max :: "int option"
  bc_never :: "nat list"

datatype bus_error = CeilingBelowOne int | NotClasses

text \<open>\<open>never_drop\<close> with the flag that tells which members are classes.\<close>

definition make_config :: "int option \<Rightarrow> (nat \<times> bool) list \<Rightarrow> bus_error + bus_config" where
  "make_config cap never =
     (case cap of
        Some n \<Rightarrow> if n < 1 then Inl (CeilingBelowOne n)
                  else if \<exists>e \<in> set never. \<not> snd e then Inl NotClasses else Inr \<lparr>bc_max = cap, bc_never = map fst never\<rparr>
      | None \<Rightarrow> if \<exists>e \<in> set never. \<not> snd e then Inl NotClasses else Inr \<lparr>bc_max = cap, bc_never = map fst never\<rparr>)"

definition default_config :: bus_config where
  "default_config = \<lparr>bc_max = Some 10000, bc_never = []\<rparr>"

section \<open>The bus\<close>

type_synonym bus_event = "nat \<times> nat"

record task =
  tk_id :: nat
  tk_handler :: nat
  tk_event :: bus_event

datatype publish_outcome = Scheduled | NoHandlers | Dropped

datatype bus_log = DropWarning nat nat nat | OverCapWarning nat nat

record event_bus =
  eb_config :: bus_config
  eb_handlers :: "(nat, nat list) dict"
  eb_pending :: "task list"
  eb_created :: nat
  eb_dropped :: nat
  eb_dropped_by :: "(nat, nat) dict"
  eb_over_cap :: nat
  eb_log :: "bus_log list"

definition new_bus :: "bus_config \<Rightarrow> event_bus" where
  "new_bus cfg = \<lparr>eb_config = cfg, eb_handlers = [], eb_pending = [], eb_created = 0, eb_dropped = 0, eb_dropped_by = [],
     eb_over_cap = 0, eb_log = []\<rparr>"

definition warn_every :: nat where "warn_every = 1000"

definition subscribe :: "nat \<Rightarrow> nat \<Rightarrow> event_bus \<Rightarrow> event_bus" where
  "subscribe ty h b = b\<lparr>eb_handlers := dset ty (dget_default [] (eb_handlers b) ty @ [h]) (eb_handlers b)\<rparr>"

definition handlers_of :: "event_bus \<Rightarrow> nat \<Rightarrow> nat list" where
  "handlers_of b ty = dget_default [] (eb_handlers b) ty"

definition warn_exempt :: "nat \<Rightarrow> event_bus \<Rightarrow> event_bus" where
  "warn_exempt ty b =
     (let n = eb_over_cap b + 1; b1 = b\<lparr>eb_over_cap := n\<rparr>
      in if n = 1 \<or> n mod warn_every = 0 then b1\<lparr>eb_log := eb_log b @ [OverCapWarning ty (length (eb_pending b))]\<rparr> else b1)"

definition has_room :: "nat \<Rightarrow> nat \<Rightarrow> event_bus \<Rightarrow> bool \<times> event_bus" where
  "has_room ty needed b =
     (case bc_max (eb_config b) of
        None \<Rightarrow> (True, b)
      | Some cap \<Rightarrow>
          if ty \<in> set (bc_never (eb_config b))
          then (True, if cap < int (length (eb_pending b) + needed) then warn_exempt ty b else b)
          else (int (length (eb_pending b) + needed) \<le> cap, b))"

definition record_drop :: "nat \<Rightarrow> event_bus \<Rightarrow> event_bus" where
  "record_drop ty b =
     (let n = eb_dropped b + 1;
          b1 = b\<lparr>eb_dropped := n, eb_dropped_by := dset ty (dget_default 0 (eb_dropped_by b) ty + 1) (eb_dropped_by b)\<rparr>
      in if n = 1 \<or> n mod warn_every = 0 then b1\<lparr>eb_log := eb_log b @ [DropWarning ty (length (eb_pending b)) n]\<rparr> else b1)"

definition create_tasks :: "bus_event \<Rightarrow> nat list \<Rightarrow> event_bus \<Rightarrow> event_bus" where
  "create_tasks e hs b =
     fold (\<lambda>h b. b\<lparr>eb_pending := eb_pending b @ [\<lparr>tk_id = eb_created b, tk_handler = h, tk_event = e\<rparr>], eb_created := eb_created b + 1\<rparr>) hs b"

definition publish_event :: "bus_event \<Rightarrow> event_bus \<Rightarrow> publish_outcome \<times> event_bus" where
  "publish_event e b =
     (let hs = handlers_of b (fst e)
      in if hs = [] then (NoHandlers, b)
         else case has_room (fst e) (length hs) b of
           (True, b1) \<Rightarrow> (Scheduled, create_tasks e hs b1)
         | (False, b1) \<Rightarrow> (Dropped, record_drop (fst e) b1))"

text \<open>A task that is done leaves the pending ones.\<close>

definition finish_task :: "nat \<Rightarrow> event_bus \<Rightarrow> event_bus" where
  "finish_task i b = b\<lparr>eb_pending := filter (\<lambda>t. tk_id t \<noteq> i) (eb_pending b)\<rparr>"

text \<open>\<open>drain\<close> waits for the tasks that are pending when it starts.\<close>

definition drain_waits :: "event_bus \<Rightarrow> nat list" where
  "drain_waits b = map tk_id (eb_pending b)"

definition drain_over :: "nat list \<Rightarrow> event_bus \<Rightarrow> bool" where
  "drain_over waits b \<longleftrightarrow> (\<forall>i \<in> set waits. i \<notin> tk_id ` set (eb_pending b))"

section \<open>Histories\<close>

datatype bus_op = Subscribes nat nat | Publishes bus_event | Finishes nat

text \<open>What was published, to which handlers, with which outcome.\<close>

type_synonym bus_history = "(bus_event \<times> nat list \<times> publish_outcome) list"

text \<open>The run keeps beside the bus what was published and which tasks have ended.\<close>

type_synonym bus_state = "bus_history \<times> nat list \<times> event_bus"

definition bus_step :: "bus_op \<Rightarrow> bus_state \<Rightarrow> bus_state" where
  "bus_step op s =
     (case s of (hist, ended, b) \<Rightarrow>
        case op of
          Subscribes ty h \<Rightarrow> (hist, ended, subscribe ty h b)
        | Publishes e \<Rightarrow> (case publish_event e b of (r, b') \<Rightarrow> (hist @ [(e, handlers_of b (fst e), r)], ended, b'))
        | Finishes i \<Rightarrow> (hist, if i \<in> set (map tk_id (eb_pending b)) then ended @ [i] else ended, finish_task i b))"

definition bus_run :: "bus_config \<Rightarrow> bus_op list \<Rightarrow> bus_state" where
  "bus_run cfg ops = fold bus_step ops ([], [], new_bus cfg)"

text \<open>The handler calls a history owes: one for each handler of each event that was scheduled.\<close>

definition owed :: "bus_history \<Rightarrow> (nat \<times> bus_event) list" where
  "owed hist = concat (map (\<lambda>(e, hs, r). if r = Scheduled then map (\<lambda>h. (h, e)) hs else []) hist)"

definition drops :: "bus_history \<Rightarrow> nat list" where
  "drops hist = map (\<lambda>(e, hs, r). fst e) (filter (\<lambda>(e, hs, r). r = Dropped) hist)"

definition under_ceiling :: "event_bus \<Rightarrow> task list" where
  "under_ceiling b = filter (\<lambda>t. fst (tk_event t) \<notin> set (bc_never (eb_config b))) (eb_pending b)"

text \<open>
  Every owed call is pending or has ended, exactly one of the two and once; a pending task is the owed call at the
  place its number says.
\<close>

definition bus_ok :: "bus_state \<Rightarrow> bool" where
  "bus_ok s =
     (case s of (hist, ended, b) \<Rightarrow>
        eb_created b = length (owed hist) \<and> mset (ended @ map tk_id (eb_pending b)) = mset [0..<length (owed hist)] \<and>
        (\<forall>t \<in> set (eb_pending b). owed hist ! tk_id t = (tk_handler t, tk_event t)) \<and>
        (\<forall>cap. bc_max (eb_config b) = Some cap \<longrightarrow> int (length (under_ceiling b)) \<le> max 0 cap) \<and>
        eb_dropped b = length (drops hist) \<and> (\<forall>ty. dget_default 0 (eb_dropped_by b) ty = count_list (drops hist) ty))"

lemma owed_snoc: "owed (hist @ [(e, hs, r)]) = owed hist @ (if r = Scheduled then map (\<lambda>h. (h, e)) hs else [])"
  by (simp add: owed_def)

lemma drops_snoc: "drops (hist @ [(e, hs, r)]) = drops hist @ (if r = Dropped then [fst e] else [])"
  by (simp add: drops_def)

lemma create_tasks_fields:
  "eb_config (create_tasks e hs b) = eb_config b" "eb_dropped (create_tasks e hs b) = eb_dropped b"
  "eb_dropped_by (create_tasks e hs b) = eb_dropped_by b" "eb_created (create_tasks e hs b) = eb_created b + length hs"
  "eb_pending (create_tasks e hs b) = eb_pending b @
    map (\<lambda>i. \<lparr>tk_id = eb_created b + i, tk_handler = hs ! i, tk_event = e\<rparr>) [0..<length hs]"
proof -
  have "eb_config (create_tasks e hs b) = eb_config b \<and> eb_dropped (create_tasks e hs b) = eb_dropped b \<and>
      eb_dropped_by (create_tasks e hs b) = eb_dropped_by b \<and> eb_created (create_tasks e hs b) = eb_created b + length hs"
    by (induction hs arbitrary: b) (simp_all add: create_tasks_def)
  then show "eb_config (create_tasks e hs b) = eb_config b" "eb_dropped (create_tasks e hs b) = eb_dropped b"
    "eb_dropped_by (create_tasks e hs b) = eb_dropped_by b" "eb_created (create_tasks e hs b) = eb_created b + length hs" by simp_all
  show "eb_pending (create_tasks e hs b) = eb_pending b @
    map (\<lambda>i. \<lparr>tk_id = eb_created b + i, tk_handler = hs ! i, tk_event = e\<rparr>) [0..<length hs]"
  proof (induction hs arbitrary: b)
    case (Cons h hs)
    show ?case using Cons by (simp add: create_tasks_def upt_conv_Cons del: upt_Suc flip: map_Suc_upt)
  qed (simp add: create_tasks_def)
qed

lemma has_room_fields:
  assumes "has_room ty n b = (r, b')"
  shows "eb_config b' = eb_config b" "eb_pending b' = eb_pending b" "eb_created b' = eb_created b"
    "eb_dropped b' = eb_dropped b" "eb_dropped_by b' = eb_dropped_by b" "eb_handlers b' = eb_handlers b"
  using assms by (auto simp: has_room_def warn_exempt_def Let_def split: option.splits if_splits)

lemma under_ceiling_le: "length (under_ceiling b) \<le> length (eb_pending b)"
  by (simp add: under_ceiling_def)

lemma bus_ok_ids:
  assumes "bus_ok (hist, ended, b)"
  shows "distinct (map tk_id (eb_pending b))" and "\<And>t. t \<in> set (eb_pending b) \<Longrightarrow> tk_id t < length (owed hist)"
proof -
  have m: "mset (ended @ map tk_id (eb_pending b)) = mset [0..<length (owed hist)]" using assms by (simp add: bus_ok_def)
  have "distinct (ended @ map tk_id (eb_pending b))" by (rule mset_eq_imp_distinct_iff [OF m, THEN iffD2]) simp
  then show "distinct (map tk_id (eb_pending b))" by simp
  fix t assume "t \<in> set (eb_pending b)"
  then have "tk_id t \<in> set (ended @ map tk_id (eb_pending b))" by simp
  then have "tk_id t \<in> set [0..<length (owed hist)]" by (simp only: mset_eq_setD [OF m])
  then show "tk_id t < length (owed hist)" by simp
qed

lemma mset_remove1_filter:
  assumes "distinct (map f xs)"
  shows "mset (if i \<in> set (map f xs) then ys @ [i] else ys) + mset (map f (filter (\<lambda>x. f x \<noteq> i) xs)) = mset ys + mset (map f xs)"
  using assms
proof (induction xs)
  case (Cons x xs)
  show ?case
  proof (cases "f x = i")
    case True
    have "f y \<noteq> i" if "y \<in> set xs" for y
    proof
      assume "f y = i"
      then have "i \<in> set (map f xs)" using that by force
      then show False using True Cons.prems by simp
    qed
    then have "filter (\<lambda>x. f x \<noteq> i) xs = xs" by (simp add: filter_id_conv)
    then show ?thesis using True by simp
  next
    case False
    then show ?thesis using Cons by auto
  qed
qed simp

lemma bus_publish_ok:
  assumes ok: "bus_ok (hist, ended, b)" and p: "publish_event e b = (r, b')"
  shows "bus_ok (hist @ [(e, handlers_of b (fst e), r)], ended, b')"
proof (cases r)
  case NoHandlers
  have "b' = b" using p NoHandlers by (auto simp: publish_event_def Let_def split: if_splits prod.splits bool.splits)
  have e: "owed (hist @ [(e, handlers_of b (fst e), r)]) = owed hist" "drops (hist @ [(e, handlers_of b (fst e), r)]) = drops hist"
    by (simp_all add: owed_snoc drops_snoc NoHandlers)
  show ?thesis unfolding \<open>b' = b\<close> bus_ok_def prod.case e by (rule ok [unfolded bus_ok_def prod.case])
next
  case Dropped
  then obtain b1 where h: "has_room (fst e) (length (handlers_of b (fst e))) b = (False, b1)" and b': "b' = record_drop (fst e) b1"
    using p by (auto simp: publish_event_def Let_def split: if_splits prod.splits bool.splits)
  note f = has_room_fields [OF h]
  have d: "eb_config b' = eb_config b" "eb_pending b' = eb_pending b" "eb_created b' = eb_created b" "eb_dropped b' = eb_dropped b + 1"
    "dget_default 0 (eb_dropped_by b') ty = dget_default 0 (eb_dropped_by b) ty + (if ty = fst e then 1 else 0)" for ty
    using f by (simp_all add: b' record_drop_def Let_def dget_default_def)
  have o: "owed (hist @ [(e, handlers_of b (fst e), r)]) = owed hist" by (simp add: owed_snoc Dropped)
  show ?thesis using ok unfolding bus_ok_def prod.case o d under_ceiling_def by (simp add: drops_snoc Dropped)
next
  case Scheduled
  let ?hs = "handlers_of b (fst e)"
  let ?hist = "hist @ [(e, ?hs, r)]"
  obtain b1 where h: "has_room (fst e) (length ?hs) b = (True, b1)" and b': "b' = create_tasks e ?hs b1"
    using p Scheduled by (auto simp: publish_event_def Let_def split: if_splits prod.splits bool.splits)
  note f = has_room_fields [OF h] and c = create_tasks_fields [of e ?hs b1]
  let ?new = "map (\<lambda>i. \<lparr>tk_id = eb_created b + i, tk_handler = ?hs ! i, tk_event = e\<rparr>) [0..<length ?hs]"
  have pend: "eb_pending b' = eb_pending b @ ?new" by (simp add: b' c(5) f)
  have cfg: "eb_config b' = eb_config b" by (simp add: b' c f)
  have n: "eb_created b = length (owed hist)" using ok by (simp add: bus_ok_def)
  have len: "length (owed ?hist) = length (owed hist) + length ?hs" by (simp add: owed_snoc Scheduled)
  have "map tk_id ?new = [length (owed hist)..<length (owed hist) + length ?hs]"
    by (rule nth_equalityI) (simp_all add: n)
  then have new: "mset (map tk_id ?new) = mset [length (owed hist)..<length (owed hist) + length ?hs]" by (simp only:)
  have old: "mset (ended @ map tk_id (eb_pending b)) = mset [0..<length (owed hist)]" using ok by (simp only: bus_ok_def prod.case)
  have "mset (ended @ map tk_id (eb_pending b')) = mset (ended @ map tk_id (eb_pending b)) + mset (map tk_id ?new)"
    unfolding pend by (simp only: map_append mset_append add.assoc)
  also have "\<dots> = mset [0..<length (owed hist)] + mset [length (owed hist)..<length (owed hist) + length ?hs]"
    unfolding old new ..
  also have "\<dots> = mset [0..<length (owed ?hist)]" unfolding len upt_add_eq_append [OF le0] mset_append ..
  finally have ids: "mset (ended @ map tk_id (eb_pending b')) = mset [0..<length (owed ?hist)]" .
  have tasks: "owed ?hist ! tk_id t = (tk_handler t, tk_event t)" if t: "t \<in> set (eb_pending b')" for t
  proof (cases "t \<in> set (eb_pending b)")
    case True
    then have "owed hist ! tk_id t = (tk_handler t, tk_event t)" using ok by (simp add: bus_ok_def)
    then show ?thesis using bus_ok_ids(2) [OF ok True] by (simp add: owed_snoc nth_append)
  next
    case False
    then obtain i where i: "i < length ?hs" "t = \<lparr>tk_id = length (owed hist) + i, tk_handler = ?hs ! i, tk_event = e\<rparr>"
      using t n unfolding pend by auto
    then show ?thesis by (simp add: owed_snoc Scheduled nth_append)
  qed
  have ceil: "int (length (under_ceiling b')) \<le> max 0 cap" if cap: "bc_max (eb_config b') = Some cap" for cap
  proof (cases "fst e \<in> set (bc_never (eb_config b))")
    case True
    then have "filter (\<lambda>t. fst (tk_event t) \<notin> set (bc_never (eb_config b))) ?new = []" by (auto simp: filter_empty_conv)
    then have "under_ceiling b' = under_ceiling b" by (simp add: under_ceiling_def cfg pend)
    then show ?thesis using ok cap by (simp add: bus_ok_def cfg)
  next
    case False
    then have "int (length (eb_pending b) + length ?hs) \<le> cap" using h cap by (auto simp: has_room_def cfg)
    then have "int (length (eb_pending b')) \<le> cap" by (simp add: pend)
    then show ?thesis using under_ceiling_le [of b'] by linarith
  qed
  have "eb_created b' = length (owed ?hist)" using len by (simp add: b' c f n)
  moreover have "eb_dropped b' = length (drops ?hist) \<and> (\<forall>ty. dget_default 0 (eb_dropped_by b') ty = count_list (drops ?hist) ty)"
    using ok by (simp add: bus_ok_def drops_snoc Scheduled b' c f)
  ultimately show ?thesis unfolding bus_ok_def prod.case using ids tasks ceil by blast
qed

lemma bus_step_ok:
  assumes ok: "bus_ok s" shows "bus_ok (bus_step op s)"
proof -
  obtain hist ended b where s: "s = (hist, ended, b)" by (metis prod_cases3)
  show ?thesis
  proof (cases op)
    case (Subscribes ty h)
    have "eb_config (subscribe ty h b) = eb_config b" "eb_pending (subscribe ty h b) = eb_pending b"
      "eb_created (subscribe ty h b) = eb_created b" "eb_dropped (subscribe ty h b) = eb_dropped b"
      "eb_dropped_by (subscribe ty h b) = eb_dropped_by b" by (simp_all add: subscribe_def)
    note e = this
    show ?thesis using ok unfolding s bus_step_def Subscribes prod.case bus_op.case bus_ok_def under_ceiling_def e .
  next
    case (Publishes e)
    obtain r b' where p: "publish_event e b = (r, b')" by fastforce
    show ?thesis using bus_publish_ok [OF _ p] ok by (simp add: s bus_step_def Publishes p)
  next
    case (Finishes i)
    have le: "length (under_ceiling (finish_task i b)) \<le> length (under_ceiling b)"
    proof -
      have "under_ceiling (finish_task i b) = filter (\<lambda>t. tk_id t \<noteq> i) (under_ceiling b)"
        by (simp add: under_ceiling_def finish_task_def conj_commute)
      then show ?thesis by simp
    qed
    let ?ended = "if i \<in> set (map tk_id (eb_pending b)) then ended @ [i] else ended"
    have ids: "mset (?ended @ map tk_id (eb_pending (finish_task i b))) = mset [0..<length (owed hist)]"
      using mset_remove1_filter [OF bus_ok_ids(1) [OF ok [unfolded s]], of i ended] ok
      unfolding s bus_ok_def prod.case finish_task_def by (simp add: mset_append)
    have "bus_ok (hist, ?ended, finish_task i b)"
      unfolding bus_ok_def prod.case
    proof (intro conjI allI impI ids ballI)
      fix cap assume "bc_max (eb_config (finish_task i b)) = Some cap"
      then have "int (length (under_ceiling b)) \<le> max 0 cap" using ok by (simp add: s bus_ok_def finish_task_def)
      then show "int (length (under_ceiling (finish_task i b))) \<le> max 0 cap" using le by linarith
    qed (use ok in \<open>simp_all add: s bus_ok_def finish_task_def\<close>)
    then show ?thesis by (simp only: s bus_step_def Finishes prod.case bus_op.case)
  qed
qed

lemma bus_run_ok: "bus_ok (bus_run cfg ops)"
proof -
  have "bus_ok (fold bus_step ops s)" if "bus_ok s" for s
    using that by (induction ops arbitrary: s) (simp_all add: bus_step_ok)
  moreover have "bus_ok ([], [], new_bus cfg)" by (simp add: bus_ok_def new_bus_def owed_def drops_def under_ceiling_def dget_default_def)
  ultimately show ?thesis by (simp add: bus_run_def)
qed

text \<open>
  C28: after any sequence of subscriptions, publications and endings of tasks, every handler of every accepted event
  has exactly one task, pending or ended; the tasks of the types under the ceiling are at most \<open>max_pending\<close>; and
  the counters, overall and for each type, are the events that were dropped.
\<close>
theorem bus_accounts: "bus_ok (bus_run cfg ops)"
  by (rule bus_run_ok)

section \<open>The drain\<close>

text \<open>
  \<open>drain\<close> is documented to wait for all in-flight handlers; it waits for those pending when it started. A handler
  that publishes while the drain waits leaves a task that nobody awaits.
\<close>

lemma drain_misses_new_tasks:
  "let b0 = subscribe 1 5 (subscribe 0 4 (new_bus default_config));
       b1 = snd (publish_event (0, 9) b0);
       b2 = finish_task 0 (snd (publish_event (1, 9) b1))
   in drain_over (drain_waits b1) b2 \<and> map tk_handler (eb_pending b2) = [5]"
  by code_simp

text \<open>An event with more handlers than the ceiling is never delivered, even on an idle bus.\<close>

lemma wide_event_always_dropped:
  assumes "bc_max (eb_config b) = Some cap" "cap < int (length (handlers_of b (fst e)))" "fst e \<notin> set (bc_never (eb_config b))"
    "handlers_of b (fst e) \<noteq> []"
  shows "fst (publish_event e b) = Dropped"
  using assms by (simp add: publish_event_def has_room_def Let_def)

end
