(* ===== verification/Config_Loader.thy ===== *)
theory Config_Loader
  imports Topology
begin

text \<open>
  The runtime configuration (\<open>xime/core/config/loader.py\<close>, \<open>runtime.py\<close>): the merge of an override over the base
  file, the choice of a branch of a single file by \<open>xime.dev\<close>, dotted look-ups and the masked text of a configuration.
  A file is the value YAML reads from it; what Pydantic takes for a boolean is a parameter.
\<close>

type_synonym yaml_items = "(string \<times> yaml) list"

section \<open>Loading\<close>

fun deep_merge :: "yaml_items \<Rightarrow> yaml_items \<Rightarrow> yaml_items" where
  "deep_merge base [] = base"
| "deep_merge base ((k, YMap m) # rest) =
     deep_merge (dset k (case dget base k of Some (YMap b) \<Rightarrow> YMap (deep_merge b m) | _ \<Rightarrow> YMap m) base) rest"
| "deep_merge base ((k, v) # rest) = deep_merge (dset k v base) rest"

datatype load_error =
    ProfileWithBlock
  | EnvironmentsNotMapping
  | UnknownBranch
  | SelectorMissing
  | SelectorNotBool
  | BranchNotMapping string
  | NestedSelector string
  | BothTopologies

definition is_true_text :: "string option \<Rightarrow> bool" where
  "is_true_text s \<longleftrightarrow> s \<noteq> None \<and> s \<noteq> Some []"

text \<open>\<open>get_bool\<close> under \<open>xime\<close>: a missing or empty value is the default.\<close>

definition config_bool :: "(yaml \<Rightarrow> bool option) \<Rightarrow> yaml option \<Rightarrow> bool \<Rightarrow> unit + bool" where
  "config_bool to_bool v dflt =
     (case v of
        None \<Rightarrow> Inr dflt
      | Some YNull \<Rightarrow> Inr dflt
      | Some w \<Rightarrow> (case to_bool w of Some b \<Rightarrow> Inr b | None \<Rightarrow> Inl ()))"

definition check_branch :: "yaml_items \<Rightarrow> string \<Rightarrow> (string, yaml_items) dict \<Rightarrow> load_error + (string, yaml_items) dict" where
  "check_branch envs name branches =
     (case dget envs name of
        Some (YMap m) \<Rightarrow>
          if ''xime'' \<in> set (dkeys m) \<or> ''environments'' \<in> set (dkeys m) then Inl (NestedSelector name)
          else Inr (dset name m branches)
      | _ \<Rightarrow> Inl (BranchNotMapping name))"

definition activate :: "yaml_items \<Rightarrow> yaml_items \<Rightarrow> load_error + yaml_items" where
  "activate base selected =
     (let common = ddel ''environments'' base;
          common = (if ''process'' \<in> set (dkeys selected) \<or> ''processes'' \<in> set (dkeys selected)
                    then ddel ''processes'' (ddel ''process'' common) else common);
          active = deep_merge common selected
      in if ''process'' \<in> set (dkeys active) \<and> ''processes'' \<in> set (dkeys active) then Inl BothTopologies else Inr active)"

definition load_single_file :: "(yaml \<Rightarrow> bool option) \<Rightarrow> yaml_items \<Rightarrow> string option \<Rightarrow> load_error + yaml_items" where
  "load_single_file to_bool base profile =
     (if is_true_text profile then Inl ProfileWithBlock
      else case dget base ''environments'' of
        Some (YMap envs) \<Rightarrow>
          if \<exists>name \<in> set (dkeys envs). name \<notin> {''local'', ''server''} then Inl UnknownBranch
          else (case dget base ''xime'' of
            Some (YMap xime) \<Rightarrow>
              if ''dev'' \<notin> set (dkeys xime) then Inl SelectorMissing
              else (case config_bool to_bool (dget xime ''dev'') False of
                      Inl _ \<Rightarrow> Inl SelectorNotBool
                    | Inr dev \<Rightarrow>
                        sbind (sfold (check_branch envs) [''local'', ''server''] []) (\<lambda>branches.
                          activate base (case dget branches (if dev then ''local'' else ''server'') of Some m \<Rightarrow> m | None \<Rightarrow> [])))
          | _ \<Rightarrow> Inl SelectorMissing)
      | _ \<Rightarrow> Inl EnvironmentsNotMapping)"

text \<open>The files of the resources directory: \<open>None\<close> for one that does not exist. An empty file is an empty mapping.\<close>

definition load_file :: "(string \<Rightarrow> yaml_items option) \<Rightarrow> string \<Rightarrow> yaml_items" where
  "load_file files name = (case files name of Some m \<Rightarrow> m | None \<Rightarrow> [])"

definition load_yaml :: "(yaml \<Rightarrow> bool option) \<Rightarrow> (string \<Rightarrow> yaml_items option) \<Rightarrow> string option \<Rightarrow> load_error + yaml_items" where
  "load_yaml to_bool files env =
     (let base = load_file files ''application.yml''
      in if ''environments'' \<in> set (dkeys base) then load_single_file to_bool base env
         else if \<not> is_true_text env then Inr base
         else Inr (deep_merge base (load_file files (''application-'' @ the env @ ''.yml''))))"

definition detect_env :: "(string \<Rightarrow> string option) \<Rightarrow> string option" where
  "detect_env environ =
     (if is_true_text (environ ''XIME_ENV'') then environ ''XIME_ENV''
      else if is_true_text (environ ''APP_ENV'') then environ ''APP_ENV'' else None)"

section \<open>Reading\<close>

fun get_path :: "yaml \<Rightarrow> string list \<Rightarrow> yaml option" where
  "get_path v [] = Some v"
| "get_path v (k # ks) = (case v of YMap m \<Rightarrow> (case dget m k of None \<Rightarrow> None | Some w \<Rightarrow> get_path w ks) | _ \<Rightarrow> None)"

definition config_get :: "yaml_items \<Rightarrow> string \<Rightarrow> yaml \<Rightarrow> yaml" where
  "config_get dump key dflt = (case get_path (YMap dump) (split_on (CHR ''.'') key) of Some v \<Rightarrow> v | None \<Rightarrow> dflt)"

definition get_bool :: "(yaml \<Rightarrow> bool option) \<Rightarrow> yaml_items \<Rightarrow> string \<Rightarrow> bool \<Rightarrow> unit + bool" where
  "get_bool to_bool dump key dflt = config_bool to_bool (get_path (YMap dump) (split_on (CHR ''.'') key)) dflt"

definition is_dev_mode :: "(yaml \<Rightarrow> bool option) \<Rightarrow> yaml_items \<Rightarrow> unit + bool" where
  "is_dev_mode to_bool dump = get_bool to_bool dump ''xime.dev'' False"

section \<open>The masked text\<close>

definition sensitive_fragments :: "string list" where
  "sensitive_fragments = [''secret'', ''password'', ''passwd'', ''token'', ''key'', ''credential'']"

definition mask_text :: string where "mask_text = ''***''"

definition sensitive :: "string \<Rightarrow> bool" where
  "sensitive key \<longleftrightarrow> key \<noteq> [] \<and> (\<exists>f \<in> set sensitive_fragments. contains f (map to_lower key))"

fun redacted :: "string \<Rightarrow> yaml \<Rightarrow> yaml" where
  "redacted key (YMap m) = YMap (map (\<lambda>(k, v). (k, redacted k v)) m)"
| "redacted key (YList vs) = (if sensitive key then YStr mask_text else YList (map (redacted key) vs))"
| "redacted key v = (if sensitive key then YStr mask_text else v)"

section \<open>What a merge reads\<close>

text \<open>Mappings have different keys, at every depth.\<close>

fun keys_once :: "yaml \<Rightarrow> bool" where
  "keys_once (YMap m) = (distinct (map fst m) \<and> (\<forall>e \<in> set m. keys_once (snd e)))"
| "keys_once (YList vs) = (\<forall>v \<in> set vs. keys_once v)"
| "keys_once v = True"

definition merge_value :: "yaml option \<Rightarrow> yaml \<Rightarrow> yaml" where
  "merge_value old v = (case (old, v) of (Some (YMap b), YMap m) \<Rightarrow> YMap (deep_merge b m) | _ \<Rightarrow> v)"

lemma deep_merge_Cons: "deep_merge base ((k, v) # rest) = deep_merge (dset k (merge_value (dget base k) v) base) rest"
  by (cases v) (simp_all add: merge_value_def split: option.splits yaml.splits)

lemma dget_deep_merge:
  assumes "distinct (dkeys m)"
  shows "dget (deep_merge base m) k = (case dget m k of None \<Rightarrow> dget base k | Some v \<Rightarrow> Some (merge_value (dget base k) v))"
  using assms
proof (induction m arbitrary: base)
  case (Cons e m)
  obtain k1 v1 where e: "e = (k1, v1)" by fastforce
  have "dget m k = None" if "k = k1" using Cons.prems that by (simp add: e dget_None_keys)
  then show ?case using Cons by (auto simp: e deep_merge_Cons split: option.splits)
qed simp

text \<open>A value that is not a mapping lies on the way to the path.\<close>

fun blocked :: "yaml \<Rightarrow> string list \<Rightarrow> bool" where
  "blocked v [] = False"
| "blocked v (k # ks) =
     (case v of YMap m \<Rightarrow> (case dget m k of None \<Rightarrow> False | Some w \<Rightarrow> blocked w ks) | _ \<Rightarrow> True)"

lemma merge_value_leaf: "\<nexists>m. v = YMap m \<Longrightarrow> merge_value w v = v"
  by (cases v) (simp_all add: merge_value_def split: option.splits yaml.splits)

lemma merge_value_no_map: "\<nexists>m. w = Some (YMap m) \<Longrightarrow> merge_value w v = v"
  by (auto simp: merge_value_def split: option.splits yaml.splits)

lemma keys_once_dget: "keys_once (YMap m) \<Longrightarrow> dget m k = Some v \<Longrightarrow> keys_once v"
  by (auto dest!: map_of_SomeD)

text \<open>
  What a path reads after a merge: the value of the override where it has one, two mappings merged; nothing where the
  override has a value that is not a mapping on the way; the value of the base elsewhere.
\<close>

lemma merge_reads:
  assumes "keys_once (YMap m)"
  shows "get_path (YMap (deep_merge b m)) ks =
    (case get_path (YMap m) ks of
       Some v \<Rightarrow> Some (merge_value (get_path (YMap b) ks) v)
     | None \<Rightarrow> if blocked (YMap m) ks then None else get_path (YMap b) ks)"
  using assms
proof (induction ks arbitrary: b m)
  case Nil
  then show ?case by (simp add: merge_value_def)
next
  case (Cons k ks)
  have dist: "distinct (dkeys m)" using Cons.prems by simp
  show ?case
  proof (cases "dget m k")
    case None
    then show ?thesis by (simp add: dget_deep_merge [OF dist])
  next
    case (Some v)
    show ?thesis
    proof (cases "\<exists>m1. v = YMap m1")
      case True
      then obtain m1 where v: "v = YMap m1" by blast
      show ?thesis
      proof (cases "\<exists>b1. dget b k = Some (YMap b1)")
        case True
        then obtain b1 where b1: "dget b k = Some (YMap b1)" by blast
        have "keys_once (YMap m1)" using keys_once_dget [OF Cons.prems] Some v by blast
        note IH = Cons.IH [OF this, of b1]
        have p: "get_path (YMap b) (k # ks) = get_path (YMap b1) ks" "get_path (YMap m) (k # ks) = get_path (YMap m1) ks"
          "blocked (YMap m) (k # ks) = blocked (YMap m1) ks"
          "get_path (YMap (deep_merge b m)) (k # ks) = get_path (YMap (deep_merge b1 m1)) ks"
          by (simp_all add: b1 Some v dget_deep_merge [OF dist] merge_value_def)
        show ?thesis unfolding p by (rule IH)
      next
        case False
        have e: "merge_value (dget b k) (YMap m1) = YMap m1" by (rule merge_value_no_map) (use False in blast)
        have no_map: "\<nexists>b1. get_path (YMap b) (k # ks) = Some (YMap b1)"
          using False by (cases ks) (auto split: option.splits yaml.splits)
        have free: "merge_value (get_path (YMap b) (k # ks)) w = w" for w by (rule merge_value_no_map [OF no_map])
        have below: "get_path (YMap b) (k # ks) = None" if "get_path (YMap m1) ks = None"
          using that False by (cases ks) (auto split: option.splits yaml.splits)
        have p: "get_path (YMap m) (k # ks) = get_path (YMap m1) ks" "blocked (YMap m) (k # ks) = blocked (YMap m1) ks"
          "get_path (YMap (deep_merge b m)) (k # ks) = get_path (YMap m1) ks"
          by (simp_all add: Some v e dget_deep_merge [OF dist])
        show ?thesis unfolding p free using below by (auto split: option.splits)
      qed
    next
      case False
      then have "merge_value w v = v" for w by (rule merge_value_leaf)
      then show ?thesis using False by (cases ks; cases v) (auto simp: dget_deep_merge [OF dist] Some)
    qed
  qed
qed

section \<open>The selected branch is the configuration\<close>

lemma dkeys_deep_merge: "k \<in> set (dkeys (deep_merge b m)) \<longleftrightarrow> k \<in> set (dkeys b) \<or> k \<in> set (dkeys m)"
proof (induction m arbitrary: b)
  case (Cons e m)
  obtain k1 v1 where "e = (k1, v1)" by fastforce
  then show ?case using Cons by (auto simp: deep_merge_Cons)
qed simp

lemma dkeys_dget: "k \<in> set (dkeys d) \<longleftrightarrow> dget d k \<noteq> None"
  by (simp only: dget_None_keys not_not)

lemma dkeys_ddel [simp]: "set (dkeys (ddel k d)) = set (dkeys d) - {k}"
proof (rule set_eqI)
  fix x
  show "x \<in> set (dkeys (ddel k d)) \<longleftrightarrow> x \<in> set (dkeys d) - {k}"
    unfolding dkeys_dget Diff_iff singleton_iff dget_ddel by simp
qed

lemma check_branch_ok:
  assumes "check_branch envs name bs = Inr bs'"
  shows "\<exists>m. dget envs name = Some (YMap m) \<and> ''xime'' \<notin> set (dkeys m) \<and> ''environments'' \<notin> set (dkeys m) \<and> bs' = dset name m bs"
  using assms by (auto simp: check_branch_def split: option.splits yaml.splits if_splits)

lemma branches_ok:
  assumes "sfold (check_branch envs) [''local'', ''server''] [] = Inr bs" and "name \<in> {''local'', ''server''}"
  shows "\<exists>m. dget bs name = Some m \<and> dget envs name = Some (YMap m) \<and> ''xime'' \<notin> set (dkeys m) \<and> ''environments'' \<notin> set (dkeys m)"
proof -
  obtain b1 where b1: "check_branch envs ''local'' [] = Inr b1" "check_branch envs ''server'' b1 = Inr bs"
    using assms(1) by (auto simp: err_simps)
  show ?thesis using check_branch_ok [OF b1(1)] check_branch_ok [OF b1(2)] assms(2) by auto
qed

lemma get_path_ddel: "k \<noteq> k1 \<Longrightarrow> get_path (YMap (ddel k1 d)) (k # ks) = get_path (YMap d) (k # ks)"
  by simp

text \<open>
  C33: a configuration with an \<open>environments\<close> block is the branch that \<open>xime.dev\<close> names, merged over the rest: what
  the branch says holds, what it does not touch is read from the common part, nothing of the other branch or of the
  block is left, the selector is that of the file and at most one of the two topology blocks survives.
\<close>
theorem branch_is_the_configuration:
  assumes "load_single_file to_bool base profile = Inr active" and "keys_once (YMap base)"
  shows "\<exists>envs xime dev m. dget base ''environments'' = Some (YMap envs) \<and> dget base ''xime'' = Some (YMap xime) \<and>
    config_bool to_bool (dget xime ''dev'') False = Inr dev \<and> dget envs (if dev then ''local'' else ''server'') = Some (YMap m) \<and>
    (\<forall>k ks. k \<notin> {''process'', ''processes'', ''environments''} \<longrightarrow>
       get_path (YMap active) (k # ks) =
         (case get_path (YMap m) (k # ks) of
            Some v \<Rightarrow> Some (merge_value (get_path (YMap base) (k # ks)) v)
          | None \<Rightarrow> if blocked (YMap m) (k # ks) then None else get_path (YMap base) (k # ks))) \<and>
    dget active ''xime'' = dget base ''xime'' \<and> ''environments'' \<notin> set (dkeys active) \<and>
    \<not> (''process'' \<in> set (dkeys active) \<and> ''processes'' \<in> set (dkeys active))"
proof -
  obtain envs xime where b: "dget base ''environments'' = Some (YMap envs)" "dget base ''xime'' = Some (YMap xime)"
    using assms(1) by (auto simp: load_single_file_def split: if_splits option.splits yaml.splits)
  obtain dev where dev: "config_bool to_bool (dget xime ''dev'') False = Inr dev"
    using assms(1) b by (auto simp: load_single_file_def split: if_splits sum.splits)
  obtain bs where bs: "sfold (check_branch envs) [''local'', ''server''] [] = Inr bs"
    and act: "activate base (case dget bs (if dev then ''local'' else ''server'') of Some m \<Rightarrow> m | None \<Rightarrow> []) = Inr active"
    using assms(1) b dev by (auto simp: load_single_file_def sbind_eq_Inr simp del: sfold.simps split: if_splits)
  obtain m where m: "dget bs (if dev then ''local'' else ''server'') = Some m"
    "dget envs (if dev then ''local'' else ''server'') = Some (YMap m)" "''xime'' \<notin> set (dkeys m)" "''environments'' \<notin> set (dkeys m)"
    using branches_ok [OF bs, of "if dev then ''local'' else ''server''"] by (cases dev) auto
  have ko: "keys_once (YMap m)" using keys_once_dget keys_once_dget [OF assms(2) b(1)] m(2) by blast
  define common where "common = (if ''process'' \<in> set (dkeys m) \<or> ''processes'' \<in> set (dkeys m)
      then ddel ''processes'' (ddel ''process'' (ddel ''environments'' base)) else ddel ''environments'' base)"
  have active: "active = deep_merge common m" and one: "\<not> (''process'' \<in> set (dkeys active) \<and> ''processes'' \<in> set (dkeys active))"
    using act by (auto simp: activate_def m(1) Let_def common_def split: if_splits)
  have same: "get_path (YMap common) (k # ks) = get_path (YMap base) (k # ks)" if "k \<notin> {''process'', ''processes'', ''environments''}" for k ks
    using that by (simp add: common_def)
  have "get_path (YMap active) (k # ks) =
         (case get_path (YMap m) (k # ks) of
            Some v \<Rightarrow> Some (merge_value (get_path (YMap base) (k # ks)) v)
          | None \<Rightarrow> if blocked (YMap m) (k # ks) then None else get_path (YMap base) (k # ks))"
    if "k \<notin> {''process'', ''processes'', ''environments''}" for k ks
    unfolding active merge_reads [OF ko] same [OF that] ..
  moreover have "dget active ''xime'' = dget base ''xime''"
    using dget_None_keys [of m "''xime''"] m(3) ko by (simp add: active dget_deep_merge common_def)
  moreover have "''environments'' \<notin> set (dkeys active)"
    using m(4) unfolding active dkeys_deep_merge by (simp add: common_def del: set_map)
  ultimately show ?thesis using b dev m(2) one by blast
qed

definition sample_config :: yaml_items where
  "sample_config = [(''xime'', YMap [(''dev'', YBool True)]), (''db'', YMap [(''host'', YStr ''prod''), (''port'', YInt 5432)]), (''process'', YMap []),
     (''environments'', YMap [(''local'', YMap [(''db'', YMap [(''host'', YStr ''here'')]), (''processes'', YMap [])]),
                            (''server'', YMap [(''db'', YMap [(''port'', YInt 1)])])])]"

definition plain_bool :: "yaml \<Rightarrow> bool option" where
  "plain_bool v = (case v of YBool b \<Rightarrow> Some b | _ \<Rightarrow> None)"

lemma branch_is_the_configuration_witness:
  "\<exists>active. load_single_file plain_bool sample_config None = Inr active \<and> dget active ''xime'' = dget sample_config ''xime'' \<and>
    get_path (YMap active) [''db'', ''host''] = Some (YStr ''here'') \<and> get_path (YMap active) [''db'', ''port''] = Some (YInt 5432) \<and>
    ''environments'' \<notin> set (dkeys active)"
proof -
  have l: "load_single_file plain_bool sample_config None =
      Inr [(''xime'', YMap [(''dev'', YBool True)]), (''db'', YMap [(''host'', YStr ''here''), (''port'', YInt 5432)]), (''processes'', YMap [])]"
    by code_simp
  have k: "keys_once (YMap sample_config)" by (simp add: sample_config_def)
  from branch_is_the_configuration [OF l k] have
    "dget [(''xime'', YMap [(''dev'', YBool True)]), (''db'', YMap [(''host'', YStr ''here''), (''port'', YInt 5432)]), (''processes'', YMap [])] ''xime'' =
       dget sample_config ''xime''" by blast
  then show ?thesis using l by (intro exI conjI) (assumption | simp)+
qed

text \<open>A selector without a value passes for one that is set, and selects the server.\<close>

lemma empty_selector_selects_server:
  "load_single_file plain_bool [(''xime'', YMap [(''dev'', YNull)]),
      (''environments'', YMap [(''local'', YMap []), (''server'', YMap [(''a'', YInt 1)])])] None =
    Inr [(''xime'', YMap [(''dev'', YNull)]), (''a'', YInt 1)]"
  by code_simp

section \<open>What the text of a configuration shows\<close>

lemma redacted_path:
  "get_path v ks = Some w \<Longrightarrow> get_path (redacted key v) ks = Some (redacted (if ks = [] then key else last ks) w)"
proof (induction ks arbitrary: v key)
  case (Cons k ks)
  then obtain m where v: "v = YMap m" by (cases v) simp_all
  then obtain u where u: "dget m k = Some u" "get_path u ks = Some w" using Cons.prems(1) by (auto split: option.splits)
  have "get_path (redacted k u) ks = Some (redacted (if ks = [] then k else last ks) w)"
    by (rule Cons.IH [OF u(2)])
  moreover have "dget (map (\<lambda>(k, v). (k, redacted k v)) m) k = Some (redacted k u)" using u(1) by (induction m) auto
  ultimately show ?case by (simp add: v)
qed simp

text \<open>A value under a name that looks like a secret is masked, unless it is a mapping.\<close>

lemma text_masks_secrets:
  assumes "get_path (YMap dump) ks = Some w" "ks \<noteq> []" "sensitive (last ks)" "\<nexists>m. w = YMap m"
  shows "get_path (redacted [] (YMap dump)) ks = Some (YStr mask_text)"
  using redacted_path [OF assms(1), of "[]"] assms(2-4) by (cases w) auto

text \<open>The leaves of a mapping under such a name are shown, although they are said to be masked.\<close>

lemma text_shows_nested_secrets:
  "redacted [] (YMap [(''keys'', YMap [(''primary'', YStr ''s3cr3t'')])]) = YMap [(''keys'', YMap [(''primary'', YStr ''s3cr3t'')])]"
  by code_simp

end
