(* ===== verification/Local_Storage.thy ===== *)
theory Local_Storage
  imports Shared_Memory
begin

text \<open>
  Object storage in a directory (\<open>xime/starters/localfs/_storage.py\<close>, \<open>starters/storage/_keys.py\<close>): what a key
  may be, where it lies under the root, the staged write that is moved into place, and the chunked read. The file
  system is a table from absolute paths to files and directories, without symbolic links; permission bits are not
  part of it. A moment at which another process may look is an element of the list of states an operation gives.
\<close>

section \<open>The file system\<close>

type_synonym path = "string list"

datatype node = File "byte list" | Dir

type_synonym fs = "(path, node) dict"

datatype io_error =
    BadKey string
  | Escapes string
  | NotFound path
  | IsDirectory path
  | NotDirectory path
  | FileExists path
  | Denied path
  | NoName
  | NoObject path
  | NegativeOffset
  | NegativeLength
  | Interrupted nat

definition is_file_at :: "fs \<Rightarrow> path \<Rightarrow> bool" where
  "is_file_at s p \<longleftrightarrow> (case dget s p of Some (File _) \<Rightarrow> True | _ \<Rightarrow> False)"

text \<open>The node a path names: a file among its proper prefixes is an error, the top directory always exists.\<close>

definition lookup :: "fs \<Rightarrow> path \<Rightarrow> io_error + node" where
  "lookup s p =
     (if \<exists>k \<in> set [1..<length p]. is_file_at s (take k p) then Inl (NotDirectory p)
      else case dget s p of Some n \<Rightarrow> Inr n | None \<Rightarrow> if p = [] then Inr Dir else Inl (NotFound p))"

definition data_at :: "fs \<Rightarrow> path \<Rightarrow> byte list option" where
  "data_at s p = (case dget s p of Some (File d) \<Rightarrow> Some d | _ \<Rightarrow> None)"

function make_dirs :: "path \<Rightarrow> fs \<Rightarrow> fs \<times> (io_error + unit)" where
  "make_dirs p s =
     (case lookup s p of
        Inr Dir \<Rightarrow> (s, Inr ())
      | Inr (File _) \<Rightarrow> (s, Inl (FileExists p))
      | Inl (NotFound _) \<Rightarrow>
          if p = [] then (s, Inr ())
          else (case make_dirs (butlast p) s of
                  (s1, Inl e) \<Rightarrow> (s1, Inl e)
                | (s1, Inr _) \<Rightarrow> (dset p Dir s1, Inr ()))
      | Inl e \<Rightarrow> (s, Inl e))"
  by pat_completeness auto
termination by (relation "measure (\<lambda>(p, s). length p)") auto

declare make_dirs.simps [simp del]

definition open_write :: "path \<Rightarrow> fs \<Rightarrow> io_error + fs" where
  "open_write p s =
     (case lookup s p of
        Inr Dir \<Rightarrow> Inl (IsDirectory p)
      | Inr (File _) \<Rightarrow> Inr (dset p (File []) s)
      | Inl (NotFound _) \<Rightarrow> (case lookup s (butlast p) of Inr Dir \<Rightarrow> Inr (dset p (File []) s) | _ \<Rightarrow> Inl (NotFound p))
      | Inl e \<Rightarrow> Inl e)"

definition write_more :: "path \<Rightarrow> byte list \<Rightarrow> fs \<Rightarrow> fs" where
  "write_more p bs s = dset p (File ((case data_at s p of Some d \<Rightarrow> d | None \<Rightarrow> []) @ bs)) s"

definition replace_file :: "path \<Rightarrow> path \<Rightarrow> fs \<Rightarrow> io_error + fs" where
  "replace_file src dst s =
     (case (lookup s dst, data_at s src) of
        (Inr Dir, _) \<Rightarrow> Inl (IsDirectory dst)
      | (Inl (NotDirectory q), _) \<Rightarrow> Inl (NotDirectory q)
      | (_, None) \<Rightarrow> Inl (NotFound src)
      | (_, Some d) \<Rightarrow> Inr (dset dst (File d) (ddel src s)))"

definition unlink_quiet :: "path \<Rightarrow> fs \<Rightarrow> fs \<times> (io_error + unit)" where
  "unlink_quiet p s =
     (case lookup s p of
        Inr (File _) \<Rightarrow> (ddel p s, Inr ())
      | Inl (NotDirectory q) \<Rightarrow> (s, Inl (NotDirectory q))
      | _ \<Rightarrow> (s, Inr ()))"

section \<open>Keys\<close>

definition key_parts :: "string \<Rightarrow> path" where
  "key_parts key = filter (\<lambda>c. c \<noteq> [] \<and> c \<noteq> ''.'') (split_on (CHR ''/'') key)"

definition validate_object_key :: "string \<Rightarrow> io_error + unit" where
  "validate_object_key key =
     (if key = [] then Inl (BadKey ''empty'')
      else if starts_with ''/'' key then Inl (BadKey ''absolute'')
      else if ''..'' \<in> set (key_parts key) then Inl (BadKey ''parent'')
      else if CHR 0x5C \<in> set key then Inl (BadKey ''backslash'')
      else if CHR 0x00 \<in> set key then Inl (BadKey ''nul'')
      else Inr ())"

definition resolve_key :: "path \<Rightarrow> string \<Rightarrow> io_error + path" where
  "resolve_key root key =
     sbind (validate_object_key key) (\<lambda>_.
       let candidate = root @ key_parts key
       in if candidate \<noteq> root \<and> take (length root) candidate \<noteq> root then Inl (Escapes key) else Inr candidate)"

lemma resolve_key_under: "resolve_key root key = Inr p \<Longrightarrow> p = root @ key_parts key \<and> ''..'' \<notin> set (key_parts key)"
  by (auto simp: resolve_key_def validate_object_key_def Let_def err_simps split: if_splits)

section \<open>Writing\<close>

text \<open>
  \<open>_publish\<close>: five attempts that a denied permission only delays, then a last one. \<open>denied\<close> is the number of
  attempts the operating system refuses.
\<close>

fun publish_tries :: "nat \<Rightarrow> nat \<Rightarrow> path \<Rightarrow> path \<Rightarrow> fs \<Rightarrow> io_error + fs" where
  "publish_tries 0 denied tmp p s = (if 0 < denied then Inl (Denied p) else replace_file tmp p s)"
| "publish_tries (Suc n) denied tmp p s = (if 0 < denied then publish_tries n (denied - 1) tmp p s else replace_file tmp p s)"

definition publish_file :: "nat \<Rightarrow> path \<Rightarrow> path \<Rightarrow> fs \<Rightarrow> io_error + fs" where
  "publish_file denied tmp p s = publish_tries 5 denied tmp p s"

fun write_chunks :: "path \<Rightarrow> byte list list \<Rightarrow> fs \<Rightarrow> fs list" where
  "write_chunks p [] s = []"
| "write_chunks p (c # cs) s = write_more p c s # write_chunks p cs (write_more p c s)"

definition part_path :: "path \<Rightarrow> string \<Rightarrow> path" where
  "part_path p uuid = butlast p @ [last p @ ''.'' @ uuid @ ''.part'']"

text \<open>
  The states the file system passes through, and the outcome. The source of the chunks ends after \<open>chunks\<close>, with the
  exception \<open>stop\<close> if there is one.
\<close>

definition put_stream :: "path \<Rightarrow> string \<Rightarrow> string \<Rightarrow> byte list list \<Rightarrow> nat option \<Rightarrow> nat \<Rightarrow> fs \<Rightarrow> fs list \<times> (io_error + unit)" where
  "put_stream root key uuid chunks stop denied s =
     (case resolve_key root key of
        Inl e \<Rightarrow> ([], Inl e)
      | Inr p \<Rightarrow>
          (case make_dirs (butlast p) s of
             (s1, Inl e) \<Rightarrow> ([s1], Inl e)
           | (s1, Inr _) \<Rightarrow>
               if p = [] then ([s1], Inl NoName)
               else let tmp = part_path p uuid
                    in case open_write tmp s1 of
                         Inl e \<Rightarrow> ([s1], Inl e)
                       | Inr s2 \<Rightarrow>
                           let ws = write_chunks tmp chunks s2; s3 = last (s2 # ws)
                           in case stop of
                                Some x \<Rightarrow> (s1 # s2 # ws @ [fst (unlink_quiet tmp s3)], Inl (Interrupted x))
                              | None \<Rightarrow>
                                  (case publish_file denied tmp p s3 of
                                     Inl e \<Rightarrow> (s1 # s2 # ws, Inl e)
                                   | Inr s4 \<Rightarrow> (s1 # s2 # ws @ [s4], Inr ()))))"

definition put_object :: "path \<Rightarrow> string \<Rightarrow> string \<Rightarrow> byte list \<Rightarrow> nat \<Rightarrow> fs \<Rightarrow> fs list \<times> (io_error + unit)" where
  "put_object root key uuid data denied s = put_stream root key uuid [data] None denied s"

section \<open>Reading\<close>

definition get_object :: "path \<Rightarrow> string \<Rightarrow> fs \<Rightarrow> io_error + byte list option" where
  "get_object root key s =
     sbind (resolve_key root key) (\<lambda>p.
       case lookup s p of
         Inr (File d) \<Rightarrow> Inr (Some d)
       | Inr Dir \<Rightarrow> Inr None
       | Inl (NotFound _) \<Rightarrow> Inr None
       | Inl e \<Rightarrow> Inl e)"

definition delete_object :: "path \<Rightarrow> string \<Rightarrow> fs \<Rightarrow> fs \<times> (io_error + unit)" where
  "delete_object root key s = (case resolve_key root key of Inl e \<Rightarrow> (s, Inl e) | Inr p \<Rightarrow> unlink_quiet p s)"

definition object_exists :: "path \<Rightarrow> string \<Rightarrow> fs \<Rightarrow> io_error + bool" where
  "object_exists root key s = sbind (resolve_key root key) (\<lambda>p. Inr (case lookup s p of Inr (File _) \<Rightarrow> True | _ \<Rightarrow> False))"

text \<open>Where a read starts and how much it may give; the loop stops at the end of the file.\<close>

definition chunk_size :: nat where "chunk_size = 64 * 1024"

function read_loop :: "byte list \<Rightarrow> nat \<Rightarrow> nat option \<Rightarrow> byte list list" where
  "read_loop data pos remaining =
     (let to_read = (case remaining of None \<Rightarrow> chunk_size | Some r \<Rightarrow> min chunk_size r);
          chunk = take to_read (drop pos data)
      in if to_read = 0 \<or> chunk = [] then []
         else chunk # read_loop data (pos + length chunk) (map_option (\<lambda>r. r - length chunk) remaining))"
  by pat_completeness auto
termination by (relation "measure (\<lambda>(data, pos, r). length data - pos)") (auto simp: Let_def split: option.splits)

declare read_loop.simps [simp del]

definition open_stream :: "path \<Rightarrow> string \<Rightarrow> int \<Rightarrow> int option \<Rightarrow> fs \<Rightarrow> io_error + byte list list" where
  "open_stream root key offset len s =
     (if offset < 0 then Inl NegativeOffset
      else if (case len of Some n \<Rightarrow> n < 0 | None \<Rightarrow> False) then Inl NegativeLength
      else sbind (resolve_key root key) (\<lambda>p.
        case lookup s p of
          Inr (File d) \<Rightarrow> Inr (read_loop d (nat offset) (map_option nat len))
        | Inr Dir \<Rightarrow> Inl (NoObject p)
        | Inl (NotFound _) \<Rightarrow> Inl (NoObject p)
        | Inl e \<Rightarrow> Inl e))"

record storage_stat =
  st_size :: "int option"
  st_content_type :: "string option"
  st_etag :: "string option"

fun hex_text :: "nat \<Rightarrow> string" where
  "hex_text n = (let c = (\<lambda>d. if d < 10 then char_of (48 + d) else char_of (87 + d))
                 in if n < 16 then [c n] else hex_text (n div 16) @ [c (n mod 16)])"

declare hex_text.simps [simp del]

text \<open>\<open>mtime\<close> is the modification time the operating system gives for a path.\<close>

definition stat_object :: "(path \<Rightarrow> nat) \<Rightarrow> path \<Rightarrow> string \<Rightarrow> fs \<Rightarrow> io_error + storage_stat option" where
  "stat_object mtime root key s =
     sbind (resolve_key root key) (\<lambda>p.
       case lookup s p of
         Inr (File d) \<Rightarrow> Inr (Some \<lparr>st_size = Some (int (length d)), st_content_type = None,
                                  st_etag = Some (hex_text (length d) @ ''-'' @ hex_text (mtime p))\<rparr>)
       | Inr Dir \<Rightarrow> Inr None
       | Inl (NotFound _) \<Rightarrow> Inr None
       | Inl e \<Rightarrow> Inl e)"

section \<open>What a staged write shows to others\<close>

lemma data_at_simps [simp]:
  "data_at (dset p n s) q = (if q = p then (case n of File d \<Rightarrow> Some d | Dir \<Rightarrow> None) else data_at s q)"
  "data_at (ddel p s) q = (if q = p then None else data_at s q)"
  by (simp_all add: data_at_def split: node.splits)

lemma is_file_data: "is_file_at s p \<longleftrightarrow> data_at s p \<noteq> None"
  by (simp add: is_file_at_def data_at_def split: option.splits node.splits)

text \<open>No proper prefix of the path is a file.\<close>

definition clear_way :: "fs \<Rightarrow> path \<Rightarrow> bool" where
  "clear_way s p \<longleftrightarrow> (\<forall>k. 0 < k \<and> k < length p \<longrightarrow> data_at s (take k p) = None)"

lemma lookup_clear: "lookup s p = (if clear_way s p then (case dget s p of Some n \<Rightarrow> Inr n | None \<Rightarrow> if p = [] then Inr Dir else Inl (NotFound p))
    else Inl (NotDirectory p))"
  unfolding lookup_def clear_way_def is_file_data by force

lemma clear_way_cong: "(\<And>q. length q < length p \<Longrightarrow> data_at s q = data_at t q) \<Longrightarrow> clear_way s p = clear_way t p"
  by (simp add: clear_way_def)

lemma clear_way_step:
  assumes "lookup s (butlast p) = Inr Dir" "p \<noteq> []" shows "clear_way s p"
  unfolding clear_way_def
proof (intro allI impI)
  fix k assume k: "0 < k \<and> k < length p"
  have c: "clear_way s (butlast p)" and d: "data_at s (butlast p) = None \<or> butlast p = []"
    using assms by (auto simp: lookup_clear data_at_def split: if_splits option.splits)
  show "data_at s (take k p) = None"
  proof (cases "k = length p - 1")
    case True
    then show ?thesis using d k by (metis butlast_conv_take length_butlast list.size(3) neq0_conv)
  next
    case False
    then have "k \<le> length p - 1" using k by linarith
    then have "take k p = take k (butlast p)" by (simp add: butlast_conv_take min_def)
    moreover have "0 < k \<and> k < length (butlast p)" using k False by auto
    ultimately show ?thesis using c by (simp only: clear_way_def)
  qed
qed

lemma make_dirs_missing:
  "lookup s p = Inl (NotFound x) \<Longrightarrow> p \<noteq> [] \<Longrightarrow>
    make_dirs p s = (case make_dirs (butlast p) s of (s1, Inl e) \<Rightarrow> (s1, Inl e) | (s1, Inr _) \<Rightarrow> (dset p Dir s1, Inr ()))"
  by (simp add: make_dirs.simps [of p s])

lemma make_dirs_there:
  assumes "\<nexists>x. lookup s p = Inl (NotFound x) \<and> p \<noteq> []"
  shows "fst (make_dirs p s) = s" and "snd (make_dirs p s) = Inr () \<Longrightarrow> lookup s p = Inr Dir"
proof -
  have "fst (make_dirs p s) = s \<and> (snd (make_dirs p s) = Inr () \<longrightarrow> lookup s p = Inr Dir)"
  proof (cases "lookup s p")
    case (Inl e)
    have "\<not> (lookup s p = Inl (NotFound x) \<and> p = [])" for x by (simp add: lookup_clear clear_way_def split: option.splits)
    then show ?thesis using assms Inl by (cases e) (simp_all add: make_dirs.simps [of p s])
  next
    case (Inr n)
    then show ?thesis by (cases n) (simp_all add: make_dirs.simps [of p s])
  qed
  then show "fst (make_dirs p s) = s" and "snd (make_dirs p s) = Inr () \<Longrightarrow> lookup s p = Inr Dir" by simp_all
qed

lemma make_dirs_data: "data_at (fst (make_dirs p s)) q = data_at s q"
proof (induction p s arbitrary: q rule: make_dirs.induct)
  case (1 p s)
  show ?case
  proof (cases "\<exists>x. lookup s p = Inl (NotFound x) \<and> p \<noteq> []")
    case True
    then obtain x where l: "lookup s p = Inl (NotFound x)" and p: "p \<noteq> []" by blast
    then have "data_at s p = None" by (auto simp: lookup_clear data_at_def split: if_splits option.splits)
    obtain s1 m where m: "make_dirs (butlast p) s = (s1, m)" by fastforce
    have "data_at s1 q = data_at s q" using "1.IH" [OF l refl p, of q] m by simp
    then show ?thesis unfolding make_dirs_missing [OF l p] m using \<open>data_at s p = None\<close> by (cases m) simp_all
  next
    case False
    then show ?thesis by (simp only: make_dirs_there(1) [OF False])
  qed
qed

lemma make_dirs_made: "make_dirs p s = (t, Inr ()) \<Longrightarrow> lookup t p = Inr Dir"
proof (induction p s arbitrary: t rule: make_dirs.induct)
  case (1 p s)
  show ?case
  proof (cases "\<exists>x. lookup s p = Inl (NotFound x) \<and> p \<noteq> []")
    case True
    then obtain x where l: "lookup s p = Inl (NotFound x)" and p: "p \<noteq> []" by blast
    obtain s1 where m: "make_dirs (butlast p) s = (s1, Inr ())" and t: "t = dset p Dir s1"
    proof -
      obtain s1 m where m: "make_dirs (butlast p) s = (s1, m)" by fastforce
      then show thesis using that "1.prems" make_dirs_missing [OF l p] by (cases m) auto
    qed
    have "clear_way s1 p" by (rule clear_way_step [OF "1.IH" [OF l refl p m] p])
    moreover have "clear_way t p = clear_way s1 p" by (rule clear_way_cong) (auto simp: t)
    ultimately show ?thesis by (simp add: lookup_clear t)
  next
    case False
    then show ?thesis using make_dirs_there [OF False] "1.prems" by simp
  qed
qed

lemma write_chunks_data:
  "t \<in> set (write_chunks p cs s) \<Longrightarrow> q \<noteq> p \<Longrightarrow> data_at t q = data_at s q"
  by (induction cs arbitrary: s) (auto simp: write_more_def)

lemma write_chunks_last:
  assumes "data_at s p = Some d"
  shows "data_at (last (s # write_chunks p cs s)) p = Some (d @ concat cs)"
  using assms by (induction cs arbitrary: s d) (auto simp: write_more_def)

lemma publish_tries_replace: "publish_tries n denied tmp p s = Inr t \<Longrightarrow> replace_file tmp p s = Inr t"
  by (induction n denied tmp p s rule: publish_tries.induct) (auto split: if_splits)

lemma replace_file_data:
  assumes "replace_file src dst s = Inr t"
  shows "\<exists>d. data_at s src = Some d \<and> t = dset dst (File d) (ddel src s)"
  using assms by (auto simp: replace_file_def split: sum.splits node.splits option.splits io_error.splits)

lemma part_path_other: "p \<noteq> [] \<Longrightarrow> part_path p uuid \<noteq> p \<and> length (part_path p uuid) = length p"
proof -
  assume p: "p \<noteq> []"
  have "last (part_path p uuid) = last p @ ''.'' @ uuid @ ''.part''" by (simp add: part_path_def)
  then have "part_path p uuid \<noteq> p" by (metis append_self_conv list.distinct(1) append_Cons)
  then show ?thesis using p by (simp add: part_path_def)
qed

text \<open>What \<open>put_stream\<close> does when it gets as far as the temporary file.\<close>

lemma put_stream_cases:
  assumes "resolve_key root key = Inr p" and put: "put_stream root key uuid chunks stop denied s = (states, r)"
  obtains (early) s1 where "states = [s1]" "r \<noteq> Inr ()" "\<And>q. data_at s1 q = data_at s q"
  | (staged) s1 s2 rest where "p \<noteq> []" "\<And>q. data_at s1 q = data_at s q" "lookup s1 (butlast p) = Inr Dir"
      "clear_way s1 (part_path p uuid)"
      "s2 = dset (part_path p uuid) (File []) s1" "states = s1 # s2 # write_chunks (part_path p uuid) chunks s2 @ rest"
      "(\<exists>x. stop = Some x \<and> r = Inl (Interrupted x) \<and>
          rest = [fst (unlink_quiet (part_path p uuid) (last (s2 # write_chunks (part_path p uuid) chunks s2)))]) \<or>
       (\<exists>e. stop = None \<and> r = Inl e \<and> rest = []) \<or>
       (\<exists>s4. stop = None \<and> r = Inr () \<and> rest = [s4] \<and>
          replace_file (part_path p uuid) p (last (s2 # write_chunks (part_path p uuid) chunks s2)) = Inr s4)"
proof -
  let ?tmp = "part_path p uuid"
  obtain s1 m where md: "make_dirs (butlast p) s = (s1, m)" by fastforce
  have d: "data_at s1 q = data_at s q" for q using make_dirs_data [of "butlast p" s q] md by simp
  show thesis
  proof (cases "m = Inr () \<and> p \<noteq> [] \<and> (\<exists>s2. open_write ?tmp s1 = Inr s2)")
    case False
    have "states = [s1] \<and> r \<noteq> Inr ()"
    proof (cases m)
      case (Inl e)
      then show ?thesis using put assms(1) by (auto simp add: put_stream_def md)
    next
      case (Inr u)
      then have md': "make_dirs (butlast p) s = (s1, Inr ())" using md by simp
      show ?thesis
      proof (cases "p = []")
        case True
        then have "make_dirs [] s = (s1, Inr ())" using md' by simp
        then show ?thesis using True put assms(1) by (auto simp add: put_stream_def)
      next
        case p: False
        then obtain e where "open_write ?tmp s1 = Inl e" using False Inr by (cases "open_write ?tmp s1") auto
        then show ?thesis using p put assms(1) by (auto simp add: put_stream_def md' Let_def)
      qed
    qed
    then show thesis using early d by blast
  next
    case True
    then obtain s2 where m: "m = Inr ()" and p: "p \<noteq> []" and o: "open_write ?tmp s1 = Inr s2" by blast
    have dir: "lookup s1 (butlast p) = Inr Dir" using make_dirs_made md m by blast
    have s2: "s2 = dset ?tmp (File []) s1" and c: "clear_way s1 ?tmp"
      using o by (auto simp: open_write_def lookup_clear split: sum.splits node.splits io_error.splits if_splits)
    let ?ws = "write_chunks ?tmp chunks s2"
    show thesis
    proof (cases stop)
      case (Some x)
      then have "states = s1 # s2 # ?ws @ [fst (unlink_quiet ?tmp (last (s2 # ?ws)))]" "r = Inl (Interrupted x)"
        using put assms(1) p by (simp_all add: put_stream_def md m o Let_def)
      then show thesis using staged [OF p d dir c s2] Some by blast
    next
      case None
      show thesis
      proof (cases "publish_file denied ?tmp p (last (s2 # ?ws))")
        case (Inl e)
        then have "states = s1 # s2 # ?ws @ []" "r = Inl e"
          using put assms(1) p None by (simp_all add: put_stream_def md m o Let_def)
        then show thesis using staged [OF p d dir c s2] None by blast
      next
        case (Inr s4)
        then have "states = s1 # s2 # ?ws @ [s4]" "r = Inr ()"
          using put assms(1) p None by (simp_all add: put_stream_def md m o Let_def)
        moreover have "replace_file ?tmp p (last (s2 # ?ws)) = Inr s4"
          using Inr publish_tries_replace by (simp add: publish_file_def)
        ultimately show thesis using staged [OF p d dir c s2] None by blast
      qed
    qed
  qed
qed

lemma staged_states_data:
  assumes "s2 = dset tmp (File []) s1" and "t \<in> set (s1 # s2 # write_chunks tmp cs s2)" and "q \<noteq> tmp"
  shows "data_at t q = data_at s1 q"
  using assms write_chunks_data [of t tmp cs s2 q] by auto

lemma last_staged: "last (s2 # write_chunks tmp cs s2) \<in> set (s1 # s2 # write_chunks tmp cs s2)"
  by simp

lemma unlink_removes:
  assumes "clear_way s p" "p \<noteq> []" "data_at s p = Some d" shows "fst (unlink_quiet p s) = ddel p s"
  using assms by (auto simp: unlink_quiet_def lookup_clear data_at_def split: option.splits node.splits)

text \<open>
  C29: whatever happens to an upload, every file but its temporary one reads at every moment as before the upload,
  until the object itself shows all of the new bytes; the upload returns only when it does; an upload that is broken
  off leaves no temporary file.
\<close>
theorem put_is_atomic:
  assumes "resolve_key root key = Inr p" and "put_stream root key uuid chunks stop denied s = (states, r)"
    and "data_at s (part_path p uuid) = None"
  shows "(\<forall>t \<in> set states. \<forall>q. q \<noteq> part_path p uuid \<longrightarrow>
            data_at t q = data_at s q \<or> q = p \<and> r = Inr () \<and> t = last states \<and> data_at t q = Some (concat chunks)) \<and>
    (r = Inr () \<longrightarrow> get_object root key (last states) = Inr (Some (concat chunks))) \<and>
    (r = Inr () \<or> stop \<noteq> None \<longrightarrow> data_at (last states) (part_path p uuid) = None)"
  using assms(1,2)
proof (cases rule: put_stream_cases)
  case (early s1)
  then show ?thesis using assms(3) by auto
next
  case (staged s1 s2 rest)
  let ?tmp = "part_path p uuid"
  let ?s3 = "last (s2 # write_chunks ?tmp chunks s2)"
  note other = part_path_other [OF staged(1), of uuid]
  have mid: "data_at t q = data_at s q" if "t \<in> set (s1 # s2 # write_chunks ?tmp chunks s2)" "q \<noteq> ?tmp" for t q
    using staged_states_data [OF staged(5) that] staged(2) by simp
  have d3: "data_at ?s3 ?tmp = Some (concat chunks)"
    using write_chunks_last [of s2 ?tmp "[]" chunks] staged(5) by simp
  have clear3: "clear_way ?s3 ?tmp"
  proof -
    have "clear_way ?s3 ?tmp = clear_way s1 ?tmp"
    proof (rule clear_way_cong)
      fix q :: path assume "length q < length ?tmp"
      then have "q \<noteq> ?tmp" by auto
      then show "data_at ?s3 q = data_at s1 q" using mid [OF last_staged [of s2 ?tmp chunks s1]] staged(2) by simp
    qed
    then show ?thesis using staged(4) by simp
  qed
  from staged(7) show ?thesis
  proof (elim disjE exE conjE)
    fix x assume x: "stop = Some x" "r = Inl (Interrupted x)" "rest = [fst (unlink_quiet ?tmp ?s3)]"
    have u: "fst (unlink_quiet ?tmp ?s3) = ddel ?tmp ?s3"
      by (rule unlink_removes [OF clear3 _ d3]) (use other staged(1) in auto)
    show ?thesis using mid mid [OF last_staged [of s2 ?tmp chunks s1]] x unfolding staged(6) u by auto
  next
    fix e assume "stop = None" "r = Inl e" "rest = []"
    then show ?thesis using mid unfolding staged(6) by auto
  next
    fix s4 assume x: "stop = None" "r = Inr ()" "rest = [s4]" "replace_file ?tmp p ?s3 = Inr s4"
    then have s4: "s4 = dset p (File (concat chunks)) (ddel ?tmp ?s3)" using replace_file_data d3 by fastforce
    have "clear_way s4 p = clear_way s1 p"
    proof (rule clear_way_cong)
      fix q :: path assume "length q < length p"
      then have "q \<noteq> ?tmp" "q \<noteq> p" using other by auto
      then show "data_at s4 q = data_at s1 q" using mid [OF last_staged [of s2 ?tmp chunks s1]] staged(2) by (simp add: s4)
    qed
    then have "clear_way s4 p" using clear_way_step [OF staged(3,1)] by simp
    then have "get_object root key s4 = Inr (Some (concat chunks))"
      using assms(1) by (simp add: get_object_def lookup_clear s4)
    then show ?thesis using mid mid [OF last_staged [of s2 ?tmp chunks s1]] x other unfolding staged(6) by (auto simp: s4)
  qed
qed

lemma put_is_atomic_witness:
  "(let r = put_stream [''data''] ''a/b.txt'' ''u'' [[1, 2], [3]] None 2 [([''data''], Dir), ([''data'', ''x''], File [9])]
    in map (\<lambda>t. data_at t [''data'', ''x'']) (fst r) = replicate 5 (Some [9])) \<and>
   get_object [''data''] ''a/b.txt'' (last (fst (put_stream [''data''] ''a/b.txt'' ''u'' [[1, 2], [3]] None 2
     [([''data''], Dir), ([''data'', ''x''], File [9])]))) = Inr (Some [1, 2, 3])"
proof -
  let ?s = "[([''data''], Dir), ([''data'', ''x''], File [9])]"
  let ?r = "put_stream [''data''] ''a/b.txt'' ''u'' [[1, 2], [3]] None 2 ?s"
  have "resolve_key [''data''] ''a/b.txt'' = Inr [''data'', ''a'', ''b.txt'']" by code_simp
  moreover have "put_stream [''data''] ''a/b.txt'' ''u'' [[1, 2], [3]] None 2 ?s = (fst ?r, snd ?r)" by simp
  moreover have "data_at ?s (part_path [''data'', ''a'', ''b.txt''] ''u'') = None" by code_simp
  moreover have "snd ?r = Inr ()" by code_simp
  ultimately have "get_object [''data''] ''a/b.txt'' (last (fst ?r)) = Inr (Some (concat [[1, 2], [3]]))"
    by (rule put_is_atomic [THEN conjunct2, THEN conjunct1, THEN mp])
  moreover have "map (\<lambda>t. data_at t [''data'', ''x'']) (fst ?r) = replicate 5 (Some [9])" by code_simp
  ultimately show ?thesis by (simp only: Let_def concat.simps append.simps append_Nil2 simp_thms)
qed

text \<open>
  The key \<open>.\<close> is accepted and names the root itself: an upload under it stages its bytes beside the root, outside of
  the storage, fails when it moves them and leaves them there.
\<close>

lemma dot_key_writes_outside:
  "let r = put_object [''srv'', ''data''] ''.'' ''u'' [7] 0 [([''srv''], Dir), ([''srv'', ''data''], Dir)]
   in snd r = Inl (IsDirectory [''srv'', ''data'']) \<and> data_at (last (fst r)) [''srv'', ''data.u.part''] = Some [7]"
  by code_simp

text \<open>A key that names a directory fails at the last step as well, and so does a denied move; the staged bytes stay.\<close>

lemma failed_move_leaves_part:
  "let r = put_object [''data''] ''a'' ''u'' [7] 6 [([''data''], Dir)]
   in snd r = Inl (Denied [''data'', ''a'']) \<and> data_at (last (fst r)) [''data'', ''a.u.part''] = Some [7]"
  by code_simp

section \<open>What a read gives\<close>

lemma read_loop_concat:
  "concat (read_loop data pos remaining) = (case remaining of None \<Rightarrow> drop pos data | Some r \<Rightarrow> take r (drop pos data))"
proof (induction data pos remaining rule: read_loop.induct)
  case (1 data pos remaining)
  define n where "n = (case remaining of None \<Rightarrow> chunk_size | Some r \<Rightarrow> min chunk_size r)"
  define chunk where "chunk = take n (drop pos data)"
  have pos: "0 < chunk_size" by (simp add: chunk_size_def)
  show ?case
  proof (cases "n = 0 \<or> chunk = []")
    case True
    then have "read_loop data pos remaining = []"
      by (subst read_loop.simps) (simp only: Let_def n_def [symmetric] chunk_def [symmetric] if_True)
    moreover have "n = 0 \<or> drop pos data = []" using True unfolding chunk_def by (metis take_eq_Nil)
    ultimately show ?thesis using pos by (auto simp: n_def split: option.splits)
  next
    case False
    then have e: "read_loop data pos remaining = chunk # read_loop data (pos + length chunk) (map_option (\<lambda>r. r - length chunk) remaining)"
      by (subst read_loop.simps) (simp only: Let_def n_def [symmetric] chunk_def [symmetric] if_False)
    have len: "length chunk = min n (length data - pos)" by (simp add: chunk_def)
    have IH: "concat (read_loop data (pos + length chunk) (map_option (\<lambda>r. r - length chunk) remaining)) =
       (case map_option (\<lambda>r. r - length chunk) remaining of None \<Rightarrow> drop (pos + length chunk) data
        | Some r \<Rightarrow> take r (drop (pos + length chunk) data))"
      by (rule "1.IH" [OF n_def chunk_def]) (use False in simp)
    have rest: "drop (pos + length chunk) data = drop (length chunk) (drop pos data)" by (simp add: add.commute)
    have cut: "take (length chunk) (drop pos data) = chunk" by (auto simp: chunk_def min_def)
    show ?thesis
    proof (cases remaining)
      case None
      then show ?thesis unfolding e concat.simps IH rest using append_take_drop_id [of "length chunk" "drop pos data"] cut by simp
    next
      case (Some r)
      then have "length chunk \<le> r" using len by (simp add: n_def)
      then have "take r (drop pos data) = take (length chunk) (drop pos data) @ take (r - length chunk) (drop (length chunk) (drop pos data))"
        by (metis le_add_diff_inverse take_add)
      then show ?thesis unfolding e concat.simps IH rest using cut Some by simp
    qed
  qed
qed

end
