(* ===== verification/Web_Download.thy ===== *)
theory Web_Download
  imports Local_Storage
begin

text \<open>
  Downloads over the web adapter (\<open>xime/adapters/web/files/_download.py\<close>): byte ranges, the entity tag of a
  conditional range, the \<open>Content-Disposition\<close> header and the response itself, over any storage and then over the
  storage in a directory. A header value is Latin-1 text, as HTTP servers decode it; a file name is its code points.
\<close>

section \<open>Byte ranges\<close>

text \<open>\<open>int\<close> refuses a numeral of more than 4300 digits.\<close>

definition int_limit :: nat where "int_limit = 4300"

definition parse_int :: "string \<Rightarrow> int option" where
  "parse_int s = (if length s \<le> int_limit then Some (int (digits_value s)) else None)"

datatype unsatisfiable = Unsatisfiable

text \<open>\<open>Inr None\<close>: the header is ignored; a pair is the offset and the length.\<close>

definition parse_range :: "string \<Rightarrow> int \<Rightarrow> unsatisfiable + (int \<times> int) option" where
  "parse_range header extent =
     (let h = strip header
      in if \<not> starts_with ''bytes='' h \<or> CHR '','' \<in> set h then Inr None
         else let spec = strip (drop (length ''bytes='') h);
                  start_s = takeWhile (\<lambda>c. c \<noteq> CHR ''-'') spec;
                  end_s = drop (length start_s + 1) spec
              in if CHR ''-'' \<notin> set spec then Inr None
                 else if \<exists>part \<in> set [start_s, end_s]. part \<noteq> [] \<and> \<not> list_all is_digit part then Inr None
                 else if start_s = [] then
                   (if end_s = [] then Inr None
                    else case parse_int end_s of
                           None \<Rightarrow> Inr None
                         | Some suffix \<Rightarrow> if suffix \<le> 0 \<or> extent = 0 then Inl Unsatisfiable
                                          else Inr (Some (extent - min suffix extent, min suffix extent)))
                 else (case parse_int start_s of
                         None \<Rightarrow> Inr None
                       | Some start \<Rightarrow>
                           if end_s = [] then (if extent \<le> start then Inl Unsatisfiable else Inr (Some (start, extent - start)))
                           else (case parse_int end_s of
                                   None \<Rightarrow> Inr None
                                 | Some stop \<Rightarrow>
                                     if stop < start then Inr None
                                     else if extent \<le> start then Inl Unsatisfiable
                                     else Inr (Some (start, min stop (extent - 1) - start + 1)))))"

section \<open>Content-Disposition\<close>

definition is_printable :: "char \<Rightarrow> bool" where
  "is_printable c \<longleftrightarrow> 32 \<le> (of_char c :: nat) \<and> (of_char c :: nat) \<le> 126"

definition ascii_replace :: "nat list \<Rightarrow> string" where
  "ascii_replace name = map (\<lambda>p. if p < 128 then char_of p else CHR ''?'') name"

text \<open>UTF-8; a surrogate has no encoding.\<close>

definition utf8_point :: "nat \<Rightarrow> nat list option" where
  "utf8_point p =
     (if p < 0x80 then Some [p]
      else if p < 0x800 then Some [0xC0 + p div 64, 0x80 + p mod 64]
      else if 0xD800 \<le> p \<and> p < 0xE000 then None
      else if p < 0x10000 then Some [0xE0 + p div 4096, 0x80 + p div 64 mod 64, 0x80 + p mod 64]
      else Some [0xF0 + p div 262144, 0x80 + p div 4096 mod 64, 0x80 + p div 64 mod 64, 0x80 + p mod 64])"

definition hex_digit :: "nat \<Rightarrow> char" where
  "hex_digit d = (if d < 10 then char_of (48 + d) else char_of (55 + d))"

definition always_safe :: "nat \<Rightarrow> bool" where
  "always_safe b \<longleftrightarrow> 48 \<le> b \<and> b \<le> 57 \<or> 65 \<le> b \<and> b \<le> 90 \<or> 97 \<le> b \<and> b \<le> 122 \<or> b \<in> {95, 46, 45, 126}"

definition quote_byte :: "nat \<Rightarrow> string" where
  "quote_byte b = (if always_safe b then [char_of b] else [CHR ''%'', hex_digit (b div 16 mod 16), hex_digit (b mod 16)])"

fun quote_name :: "nat list \<Rightarrow> string option" where
  "quote_name [] = Some []"
| "quote_name (p # ps) =
     (case utf8_point p of
        None \<Rightarrow> None
      | Some bs \<Rightarrow> map_option (\<lambda>rest. concat (map quote_byte bs) @ rest) (quote_name ps))"

definition content_disposition :: "string \<Rightarrow> nat list option \<Rightarrow> string option" where
  "content_disposition disposition filename =
     (case filename of
        None \<Rightarrow> Some disposition
      | Some [] \<Rightarrow> Some disposition
      | Some name \<Rightarrow>
          let plain = filter (\<lambda>c. is_printable c \<and> c \<noteq> CHR 0x22 \<and> c \<noteq> CHR 0x5C) (ascii_replace name);
              ascii_name = if plain = [] then ''download'' else plain
          in map_option (\<lambda>q. disposition @ ''; filename='' @ [CHR 0x22] @ ascii_name @ [CHR 0x22] @ ''; filename*=UTF-8'' @ [CHR 0x27, CHR 0x27] @ q)
               (quote_name name))"

section \<open>The response\<close>

definition inline_safe :: "string list" where
  "inline_safe = [''image/png'', ''image/jpeg'', ''image/gif'', ''image/webp'', ''image/bmp'', ''image/avif'', ''application/pdf'',
     ''video/mp4'', ''video/webm'', ''audio/mpeg'', ''audio/ogg'', ''audio/wav'', ''text/plain'']"

definition default_media_type :: string where
  "default_media_type = ''application/octet-stream''"

record web_request =
  rq_range :: "string option"
  rq_if_range :: "string option"

type_synonym web_headers = "(string, string) dict"

text \<open>\<open>Streams\<close> has the status, the headers, the media type and the body, which may raise while it is sent.\<close>

datatype 'e web_response = HttpError nat web_headers | Streams nat web_headers string "'e + byte list list"

datatype 'e download_error = StorageRaised 'e | NotEncodable

definition num_text :: "int \<Rightarrow> string" where
  "num_text i = (if i < 0 then ''-'' @ digits (nat (- i)) else digits (nat i))"

definition etag_text :: "string \<Rightarrow> string" where
  "etag_text e = [CHR 0x22] @ e @ [CHR 0x22]"

definition strong_etag :: "string \<Rightarrow> bool" where
  "strong_etag v \<longleftrightarrow> 2 \<le> length v \<and> hd v = CHR 0x22 \<and> last v = CHR 0x22 \<and>
     list_all (\<lambda>c. let n = (of_char c :: nat) in n = 0x21 \<or> 0x23 \<le> n \<and> n \<le> 0x7E \<or> 0x80 \<le> n) (butlast (tl v))"

definition base_type :: "string \<Rightarrow> string" where
  "base_type media = map to_lower (strip (hd (split_on (CHR '';'') media)))"

definition base_headers :: "storage_stat \<Rightarrow> string \<Rightarrow> nat list option \<Rightarrow> bool \<Rightarrow> web_headers option" where
  "base_headers st media filename download =
     (let h0 = [(''Accept-Ranges'', ''bytes''), (''X-Content-Type-Options'', ''nosniff'')];
          force = download \<or> base_type media \<notin> set inline_safe;
          disposition = (if force then ''attachment'' else ''inline'')
      in map_option (\<lambda>h. case st_etag st of Some e \<Rightarrow> if e = [] then h else dset ''ETag'' (etag_text e) h | None \<Rightarrow> h)
           (if filename \<noteq> None \<or> force
            then map_option (\<lambda>d. dset ''Content-Disposition'' d h0) (content_disposition disposition filename)
            else Some h0))"

text \<open>The range header that counts: none when the condition on the entity tag does not hold.\<close>

definition range_header_of :: "web_request option \<Rightarrow> web_headers \<Rightarrow> string option" where
  "range_header_of rq h =
     (case rq of
        None \<Rightarrow> None
      | Some r \<Rightarrow>
          (case rq_if_range r of
             None \<Rightarrow> rq_range r
           | Some v \<Rightarrow> if \<not> strong_etag (strip v) \<or> Some (strip v) \<noteq> dget h ''ETag'' then None else rq_range r))"

definition or_text :: "string option \<Rightarrow> string option \<Rightarrow> string option" where
  "or_text a b = (case a of Some t \<Rightarrow> if t = [] then b else a | None \<Rightarrow> b)"

definition stream_object ::
  "(string \<Rightarrow> 'e + storage_stat option) \<Rightarrow> (string \<Rightarrow> int \<Rightarrow> int option \<Rightarrow> 'e + byte list list) \<Rightarrow> string \<Rightarrow> web_request option \<Rightarrow>
   nat list option \<Rightarrow> string option \<Rightarrow> bool \<Rightarrow> 'e download_error + 'e web_response" where
  "stream_object stat_of open_of key rq filename content_type download =
     (case stat_of key of
        Inl e \<Rightarrow> Inl (StorageRaised e)
      | Inr None \<Rightarrow> Inr (HttpError 404 [])
      | Inr (Some st) \<Rightarrow>
          let media = (case or_text content_type (or_text (st_content_type st) None) of Some t \<Rightarrow> t | None \<Rightarrow> default_media_type)
          in case base_headers st media filename download of
               None \<Rightarrow> Inl NotEncodable
             | Some h \<Rightarrow>
                 (case (case (range_header_of rq h, st_size st) of
                          (Some r, Some extent) \<Rightarrow> if r = [] then Inr None else parse_range r extent
                        | _ \<Rightarrow> Inr None) of
                    Inl Unsatisfiable \<Rightarrow> Inr (HttpError 416 [(''Content-Range'', ''bytes */'' @ num_text (the (st_size st)))])
                  | Inr (Some (off, len)) \<Rightarrow>
                      Inr (Streams 206
                        (dset ''Content-Length'' (num_text len)
                          (dset ''Content-Range'' (''bytes '' @ num_text off @ ''-'' @ num_text (off + len - 1) @ ''/'' @ num_text (the (st_size st))) h))
                        media (open_of key off (Some len)))
                  | Inr None \<Rightarrow>
                      Inr (Streams 200 (case st_size st of Some extent \<Rightarrow> dset ''Content-Length'' (num_text extent) h | None \<Rightarrow> h)
                        media (open_of key 0 None))))"

section \<open>Ranges are read as they are meant\<close>

lemma digit_not_space: "is_digit c \<Longrightarrow> \<not> is_space c \<and> c \<noteq> CHR ''-'' \<and> c \<noteq> CHR '',''"
  by (auto simp: is_digit_def is_space_def Let_def)

lemma strip_id: "s = [] \<or> \<not> is_space (hd s) \<and> \<not> is_space (last s) \<Longrightarrow> strip s = s"
proof -
  assume a: "s = [] \<or> \<not> is_space (hd s) \<and> \<not> is_space (last s)"
  then have "dropWhile is_space s = s" by (cases s) auto
  moreover have "dropWhile is_space (rev s) = rev s" using a by (cases s rule: rev_cases) auto
  ultimately show ?thesis by (simp add: strip_def)
qed

lemma parse_range_spec:
  assumes "list_all is_digit a" "list_all is_digit b"
  shows "parse_range (''bytes='' @ a @ ''-'' @ b) extent =
    (if a = [] then
       (if b = [] then Inr None
        else case parse_int b of
               None \<Rightarrow> Inr None
             | Some suffix \<Rightarrow> if suffix \<le> 0 \<or> extent = 0 then Inl Unsatisfiable
                              else Inr (Some (extent - min suffix extent, min suffix extent)))
     else (case parse_int a of
             None \<Rightarrow> Inr None
           | Some start \<Rightarrow>
               if b = [] then (if extent \<le> start then Inl Unsatisfiable else Inr (Some (start, extent - start)))
               else (case parse_int b of
                       None \<Rightarrow> Inr None
                     | Some stop \<Rightarrow>
                         if stop < start then Inr None
                         else if extent \<le> start then Inl Unsatisfiable
                         else Inr (Some (start, min stop (extent - 1) - start + 1)))))"
proof -
  let ?spec = "a @ ''-'' @ b"
  let ?h = "''bytes='' @ ?spec"
  have c: "c \<in> set a \<union> set b \<Longrightarrow> is_digit c" for c using assms by (auto simp: list_all_iff)
  have ends: "\<not> is_space (hd ?spec) \<and> \<not> is_space (last ?spec)"
  proof
    show "\<not> is_space (hd ?spec)" using c digit_not_space by (cases a) (auto simp: is_space_def)
    show "\<not> is_space (last ?spec)" using c digit_not_space by (cases b rule: rev_cases) (auto simp: is_space_def)
  qed
  have h: "strip ?h = ?h"
  proof (rule strip_id, rule disjI2, rule conjI)
    show "\<not> is_space (hd ?h)" by (simp add: is_space_def)
    show "\<not> is_space (last ?h)" using ends by simp
  qed
  have s: "strip ?spec = ?spec" by (rule strip_id) (use ends in blast)
  have "takeWhile (\<lambda>c. c \<noteq> CHR ''-'') ?spec = a"
    using c digit_not_space by (subst takeWhile_append2) auto
  moreover have "drop (length a + 1) ?spec = b" by simp
  moreover have "CHR '','' \<notin> set ?h" using c digit_not_space by auto
  moreover have "starts_with ''bytes='' ?h" by (rule starts_append)
  moreover have "drop (length ''bytes='') ?h = ?spec" by simp
  moreover have "\<not> (\<exists>part \<in> set [a, b]. part \<noteq> [] \<and> \<not> list_all is_digit part)" using assms by simp
  moreover have "CHR ''-'' \<in> set ?spec" by simp
  ultimately show ?thesis unfolding parse_range_def Let_def h s by (simp only: s simp_thms if_False if_True)
qed

text \<open>
  A byte range is read as the standard means it: first and last byte, both counted, the last cut to the end of
  the object; an open range to the end; a suffix of at most the whole object; reversed ends are ignored and a range
  that starts behind the object, or an empty suffix, is not satisfiable.
\<close>
theorem ranges_read_as_meant:
  assumes "list_all is_digit a" "list_all is_digit b" "a \<noteq> []" "b \<noteq> []" "length a \<le> int_limit" "length b \<le> int_limit"
  shows "parse_range (''bytes='' @ a @ ''-'' @ b) (int n) =
      (if digits_value b < digits_value a then Inr None
       else if n \<le> digits_value a then Inl Unsatisfiable
       else Inr (Some (int (digits_value a), int (min (digits_value b + 1) n - digits_value a)))) \<and>
    parse_range (''bytes='' @ a @ ''-'') (int n) =
      (if n \<le> digits_value a then Inl Unsatisfiable else Inr (Some (int (digits_value a), int (n - digits_value a)))) \<and>
    parse_range (''bytes=-'' @ b) (int n) =
      (if digits_value b = 0 \<or> n = 0 then Inl Unsatisfiable
       else Inr (Some (int (n - min (digits_value b) n), int (min (digits_value b) n))))"
proof (intro conjI)
  note p = parse_range_spec
  show "parse_range (''bytes='' @ a @ ''-'' @ b) (int n) =
      (if digits_value b < digits_value a then Inr None
       else if n \<le> digits_value a then Inl Unsatisfiable
       else Inr (Some (int (digits_value a), int (min (digits_value b + 1) n - digits_value a))))"
    unfolding p [OF assms(1,2)] using assms(3-6) by (simp add: parse_int_def of_nat_diff min_def)
  show "parse_range (''bytes='' @ a @ ''-'') (int n) =
      (if n \<le> digits_value a then Inl Unsatisfiable else Inr (Some (int (digits_value a), int (n - digits_value a))))"
    using p [OF assms(1), of "[]" "int n"] assms(3-6) by (simp add: parse_int_def of_nat_diff)
  show "parse_range (''bytes=-'' @ b) (int n) =
      (if digits_value b = 0 \<or> n = 0 then Inl Unsatisfiable
       else Inr (Some (int (n - min (digits_value b) n), int (min (digits_value b) n))))"
    using p [of "[]" b "int n"] assms by (simp add: parse_int_def of_nat_diff of_nat_min)
qed

lemma ranges_read_as_meant_witness:
  "parse_range ''bytes=2-9'' 5 = Inr (Some (2, 3)) \<and> parse_range ''bytes=2-'' 5 = Inr (Some (2, 3)) \<and>
   parse_range ''bytes=-9'' 5 = Inr (Some (0, 5))"
  using ranges_read_as_meant [of "''2''" "''9''" 5] by (simp add: is_digit_def int_limit_def digits_value_def)

section \<open>The body is what the headers say\<close>

lemma parse_int_nonneg: "parse_int s = Some i \<Longrightarrow> 0 \<le> i"
  by (auto simp: parse_int_def split: if_splits)

lemma parse_range_within:
  assumes "parse_range h extent = Inr (Some (off, len))" and "0 \<le> extent"
  shows "0 \<le> off \<and> 0 < len \<and> off + len \<le> extent"
  using assms parse_int_nonneg
  by (fastforce simp: parse_range_def Let_def split: if_splits option.splits)

text \<open>What a download relies on: a size that is known is that of the object, and a stream is a slice of it.\<close>

locale object_store =
  fixes stat_of :: "string \<Rightarrow> 'e + storage_stat option"
    and open_of :: "string \<Rightarrow> int \<Rightarrow> int option \<Rightarrow> 'e + byte list list"
    and content :: "string \<Rightarrow> byte list option"
  assumes stat_content: "stat_of key = Inr (Some st) \<Longrightarrow> st_size st = Some n \<Longrightarrow> \<exists>d. content key = Some d \<and> n = int (length d)"
    and open_content: "content key = Some d \<Longrightarrow> 0 \<le> off \<Longrightarrow> (\<And>n. len = Some n \<Longrightarrow> 0 \<le> n) \<Longrightarrow>
      \<exists>bs. open_of key off len = Inr bs \<and>
        concat bs = (case len of None \<Rightarrow> drop (nat off) d | Some n \<Rightarrow> take (nat n) (drop (nat off) d))"
begin

lemma streams_slice:
  assumes "stream_object stat_of open_of key rq fn ct dl = Inr (Streams status h media body)" and d: "content key = Some d"
    and known: "\<And>st. stat_of key = Inr (Some st) \<Longrightarrow> st_size st \<noteq> None"
  shows "\<exists>bs. body = Inr bs \<and> dget h ''Content-Length'' = Some (num_text (int (length (concat bs)))) \<and>
    (status = 200 \<and> concat bs = d \<or>
     status = 206 \<and> (\<exists>off len. 0 < len \<and> off + len \<le> length d \<and> concat bs = take len (drop off d) \<and>
       dget h ''Content-Range'' = Some (''bytes '' @ digits off @ ''-'' @ digits (off + len - 1) @ ''/'' @ digits (length d))))"
proof -
  obtain st where st: "stat_of key = Inr (Some st)"
    using assms(1) by (auto simp: stream_object_def split: sum.splits option.splits)
  obtain n where n: "st_size st = Some n" using known [OF st] by blast
  have n_d: "n = int (length d)" using stat_content [OF st n] d by simp
  define media' where "media' = (case or_text ct (or_text (st_content_type st) None) of Some t \<Rightarrow> t | None \<Rightarrow> default_media_type)"
  obtain h0 where h0: "base_headers st media' fn dl = Some h0"
    using assms(1) st by (auto simp: stream_object_def media'_def Let_def split: option.splits)
  define r where "r = (case (range_header_of rq h0, st_size st) of
      (Some t, Some extent) \<Rightarrow> if t = [] then Inr None else parse_range t extent | _ \<Rightarrow> Inr None)"
  have out: "(case r of
       Inl Unsatisfiable \<Rightarrow> Inr (HttpError 416 [(''Content-Range'', ''bytes */'' @ num_text (the (st_size st)))])
     | Inr (Some (off, len)) \<Rightarrow>
         Inr (Streams 206
           (dset ''Content-Length'' (num_text len)
             (dset ''Content-Range'' (''bytes '' @ num_text off @ ''-'' @ num_text (off + len - 1) @ ''/'' @ num_text (the (st_size st))) h0))
           media' (open_of key off (Some len)))
     | Inr None \<Rightarrow> Inr (Streams 200 (case st_size st of Some extent \<Rightarrow> dset ''Content-Length'' (num_text extent) h0 | None \<Rightarrow> h0)
           media' (open_of key 0 None))) =
     (Inr (Streams status h media body) :: 'e download_error + 'e web_response)"
    using assms(1) st h0 unfolding stream_object_def by (simp add: Let_def media'_def [symmetric] r_def)
  show ?thesis
  proof (cases r)
    case (Inl u)
    then show ?thesis using out by (cases u) simp
  next
    case (Inr o1)
    show ?thesis
    proof (cases o1)
      case None
      obtain bs where "open_of key 0 None = Inr bs" "concat bs = d"
        using open_content [OF d, of 0 None] by auto
      then show ?thesis using out Inr None n n_d by (intro exI [of _ bs]) auto
    next
      case (Some p)
      obtain off len where p: "p = (off, len)" by fastforce
      have "parse_range (the (range_header_of rq h0)) n = Inr (Some (off, len))"
        using Inr Some p n by (auto simp: r_def split: option.splits if_splits)
      then have w: "0 \<le> off" "0 < len" "off + len \<le> n" using parse_range_within n_d by auto
      obtain bs where bs: "open_of key off (Some len) = Inr bs" "concat bs = take (nat len) (drop (nat off) d)"
        using open_content [OF d w(1), of "Some len"] w(2) by auto
      have len: "int (length (concat bs)) = len" using bs(2) w n_d by auto
      have texts: "num_text off = digits (nat off)" "num_text (off + len - 1) = digits (nat off + nat len - 1)"
        "num_text n = digits (length d)"
        using w n_d by (auto simp: num_text_def intro!: arg_cong [where f = digits])
      have st6: "status = 206" "body = Inr bs" "h = dset ''Content-Length'' (num_text len)
             (dset ''Content-Range'' (''bytes '' @ num_text off @ ''-'' @ num_text (off + len - 1) @ ''/'' @ num_text n) h0)"
        using out Inr Some p bs(1) n by auto
      have range: "dget h ''Content-Range'' =
          Some (''bytes '' @ digits (nat off) @ ''-'' @ digits (nat off + nat len - 1) @ ''/'' @ digits (length d))"
        unfolding st6(3) texts by simp
      have "0 < nat len" "nat off + nat len \<le> length d" using w n_d by linarith+
      then have "\<exists>off len. 0 < len \<and> off + len \<le> length d \<and> concat bs = take len (drop off d) \<and>
          dget h ''Content-Range'' = Some (''bytes '' @ digits off @ ''-'' @ digits (off + len - 1) @ ''/'' @ digits (length d))"
        using bs(2) range by blast
      moreover have "dget h ''Content-Length'' = Some (num_text (int (length (concat bs))))" unfolding st6(3) len by simp
      ultimately show ?thesis using st6(1,2) by blast
    qed
  qed
qed

end

lemma get_object_content: "get_object root key s = Inr (Some d) \<longleftrightarrow> (\<exists>p. resolve_key root key = Inr p \<and> lookup s p = Inr (File d))"
proof (cases "resolve_key root key")
  case (Inr p)
  show ?thesis
  proof (cases "lookup s p")
    case (Inl e)
    then show ?thesis using Inr by (cases e) (simp_all add: get_object_def)
  next
    case (Inr n)
    then show ?thesis using \<open>resolve_key root key = Inr p\<close> by (cases n) (simp_all add: get_object_def)
  qed
qed (simp add: get_object_def)

lemma stat_object_file:
  assumes "stat_object mtime root key s = Inr (Some st)"
  obtains p d where "resolve_key root key = Inr p" "lookup s p = Inr (File d)" "st_size st = Some (int (length d))"
proof -
  obtain p where p: "resolve_key root key = Inr p" using assms by (cases "resolve_key root key") (simp_all add: stat_object_def)
  show thesis
  proof (cases "lookup s p")
    case (Inl e)
    then show thesis using assms p by (cases e) (simp_all add: stat_object_def)
  next
    case (Inr n)
    then show thesis using assms p that by (cases n) (auto simp add: stat_object_def)
  qed
qed

interpretation lf: object_store "\<lambda>key. stat_object mtime root key s" "\<lambda>key off len. open_stream root key off len s"
    "\<lambda>key. case get_object root key s of Inr (Some d) \<Rightarrow> Some d | _ \<Rightarrow> None"
  for mtime root s
proof unfold_locales
  fix key st n
  assume "stat_object mtime root key s = Inr (Some st)" "st_size st = Some n"
  then obtain p d where "resolve_key root key = Inr p" "lookup s p = Inr (File d)" "n = int (length d)"
    by (auto elim: stat_object_file)
  then show "\<exists>d. (case get_object root key s of Inr (Some d) \<Rightarrow> Some d | _ \<Rightarrow> None) = Some d \<and> n = int (length d)"
    by (simp add: get_object_def)
next
  fix key d and off :: int and len :: "int option"
  assume c: "(case get_object root key s of Inr (Some d) \<Rightarrow> Some d | _ \<Rightarrow> None) = Some d" and off: "0 \<le> off"
    and len: "\<And>n. len = Some n \<Longrightarrow> 0 \<le> n"
  have "get_object root key s = Inr (Some d)" using c by (auto split: sum.splits option.splits)
  then obtain p where p: "resolve_key root key = Inr p" "lookup s p = Inr (File d)" by (auto simp: get_object_content)
  have "open_stream root key off len s = Inr (read_loop d (nat off) (map_option nat len))"
    using off len p by (cases len) (simp_all add: open_stream_def not_less)
  then show "\<exists>bs. open_stream root key off len s = Inr bs \<and>
      concat bs = (case len of None \<Rightarrow> drop (nat off) d | Some n \<Rightarrow> take (nat n) (drop (nat off) d))"
    by (simp add: read_loop_concat split: option.splits)
qed

text \<open>
  C30: a file that does not change between the stat and the read is sent as the headers say: status 200 and all of its
  bytes, or status 206 and exactly the bytes from the first to the last position the \<open>Content-Range\<close> names, at
  least one; \<open>Content-Length\<close> is the number of bytes sent.
\<close>
theorem download_is_the_slice:
  assumes "stream_object (\<lambda>key. stat_object mtime root key s) (\<lambda>key off len. open_stream root key off len s) key rq fn ct dl =
      Inr (Streams status h media body)"
    and "get_object root key s = Inr (Some d)"
  shows "\<exists>bs. body = Inr bs \<and> dget h ''Content-Length'' = Some (num_text (int (length (concat bs)))) \<and>
    (status = 200 \<and> concat bs = d \<or>
     status = 206 \<and> (\<exists>off len. 0 < len \<and> off + len \<le> length d \<and> concat bs = take len (drop off d) \<and>
       dget h ''Content-Range'' = Some (''bytes '' @ digits off @ ''-'' @ digits (off + len - 1) @ ''/'' @ digits (length d))))"
proof (rule lf.streams_slice [OF assms(1)])
  show "(case get_object root key s of Inr (Some d) \<Rightarrow> Some d | _ \<Rightarrow> None) = Some d" using assms(2) by simp
  show "st_size st \<noteq> None" if "stat_object mtime root key s = Inr (Some st)" for st
    using that by (auto elim: stat_object_file)
qed

definition sample_fs :: fs where
  "sample_fs = [([''data''], Dir), ([''data'', ''a.txt''], File [10, 11, 12, 13, 14])]"

lemma sample_answer:
  "stream_object (\<lambda>key. stat_object (\<lambda>_. 1) [''data''] key sample_fs) f ''a.txt''
      (Some \<lparr>rq_range = Some ''bytes=1-2'', rq_if_range = None\<rparr>) None (Some ''text/plain'') False =
   Inr (Streams 206 [(''Accept-Ranges'', ''bytes''), (''X-Content-Type-Options'', ''nosniff''),
     (''ETag'', etag_text ''5-1''), (''Content-Range'', ''bytes 1-2/5''), (''Content-Length'', ''2'')] ''text/plain'' (f ''a.txt'' 1 (Some 2)))"
  by code_simp

lemma download_is_the_slice_witness:
  "\<exists>h bs. stream_object (\<lambda>key. stat_object (\<lambda>_. 1) [''data''] key sample_fs) (\<lambda>key off len. open_stream [''data''] key off len sample_fs)
      ''a.txt'' (Some \<lparr>rq_range = Some ''bytes=1-2'', rq_if_range = None\<rparr>) None (Some ''text/plain'') False =
      Inr (Streams 206 h ''text/plain'' (Inr bs)) \<and> concat bs = [11, 12] \<and>
    dget h ''Content-Length'' = Some (num_text (int (length (concat bs))))"
proof -
  let ?r = "stream_object (\<lambda>key. stat_object (\<lambda>_. 1) [''data''] key sample_fs) (\<lambda>key off len. open_stream [''data''] key off len sample_fs)
      ''a.txt'' (Some \<lparr>rq_range = Some ''bytes=1-2'', rq_if_range = None\<rparr>) None (Some ''text/plain'') False"
  have opened: "open_stream [''data''] ''a.txt'' 1 (Some 2) sample_fs = Inr [[11, 12]]"
  proof -
    have "resolve_key [''data''] ''a.txt'' = Inr [''data'', ''a.txt'']" by code_simp
    moreover have "lookup sample_fs [''data'', ''a.txt''] = Inr (File [10, 11, 12, 13, 14])" by code_simp
    ultimately show ?thesis by (simp add: open_stream_def read_loop.simps chunk_size_def)
  qed
  have r: "?r = Inr (Streams 206 [(''Accept-Ranges'', ''bytes''), (''X-Content-Type-Options'', ''nosniff''),
     (''ETag'', etag_text ''5-1''), (''Content-Range'', ''bytes 1-2/5''), (''Content-Length'', ''2'')] ''text/plain'' (Inr [[11, 12]]))"
    unfolding sample_answer [of "\<lambda>key off len. open_stream [''data''] key off len sample_fs"] opened ..
  have g: "get_object [''data''] ''a.txt'' sample_fs = Inr (Some [10, 11, 12, 13, 14])" by code_simp
  show ?thesis using download_is_the_slice [OF r g] r by auto
qed

section \<open>What a browser is told\<close>

lemma num_range_printable: "32 \<le> n \<Longrightarrow> n \<le> 126 \<Longrightarrow> is_printable (char_of (n :: nat))"
  by (simp add: is_printable_def)

lemma hex_digit_plain: "d < 16 \<Longrightarrow> is_printable (hex_digit d) \<and> hex_digit d \<noteq> CHR 0x22"
proof -
  assume "d < 16"
  then have "(of_char (hex_digit d) :: nat) = (if d < 10 then 48 + d else 55 + d)" by (simp add: hex_digit_def)
  then show ?thesis using \<open>d < 16\<close> by (auto simp: is_printable_def split: if_splits)
qed

lemma quote_byte_plain: "c \<in> set (quote_byte b) \<Longrightarrow> is_printable c \<and> c \<noteq> CHR 0x22"
proof (cases "always_safe b")
  case True
  assume "c \<in> set (quote_byte b)"
  then have "c = char_of b" "45 \<le> b" "b \<le> 126" using True by (auto simp: quote_byte_def always_safe_def)
  then have "(of_char c :: nat) = b" by simp
  then have "is_printable c" "c \<noteq> CHR 0x22" using \<open>45 \<le> b\<close> \<open>b \<le> 126\<close> by (auto simp: is_printable_def)
  then show ?thesis by simp
next
  case False
  assume "c \<in> set (quote_byte b)"
  then show ?thesis using False hex_digit_plain [of "b mod 16"] hex_digit_plain [of "b div 16 mod 16"]
    by (auto simp: quote_byte_def is_printable_def)
qed

lemma quote_name_plain: "quote_name name = Some q \<Longrightarrow> c \<in> set q \<Longrightarrow> is_printable c \<and> c \<noteq> CHR 0x22"
proof (induction name arbitrary: q)
  case (Cons p ps)
  then show ?case using quote_byte_plain by (fastforce split: option.splits)
qed simp

text \<open>
  No file name breaks out of the header: what a browser gets for any name is the disposition alone, or the
  disposition and a quoted file name without a quote or a backslash in it, all in printable ASCII characters.
\<close>
theorem disposition_contained:
  assumes "content_disposition disposition filename = Some v"
  shows "v = disposition \<or>
    (\<exists>name rest. v = disposition @ ''; filename='' @ [CHR 0x22] @ name @ [CHR 0x22] @ rest \<and> name \<noteq> [] \<and>
      CHR 0x22 \<notin> set name \<and> CHR 0x5C \<notin> set name \<and> CHR 0x22 \<notin> set rest \<and> (\<forall>c \<in> set (name @ rest). is_printable c))"
proof (cases filename)
  case (Some name)
  show ?thesis
  proof (cases "name = []")
    case False
    define plain where "plain = filter (\<lambda>c. is_printable c \<and> c \<noteq> CHR 0x22 \<and> c \<noteq> CHR 0x5C) (ascii_replace name)"
    define shown where "shown = (if plain = [] then ''download'' else plain)"
    obtain q where q: "quote_name name = Some q"
      and v: "v = disposition @ ''; filename='' @ [CHR 0x22] @ shown @ [CHR 0x22] @ ''; filename*=UTF-8'' @ [CHR 0x27, CHR 0x27] @ q"
      using assms Some False by (cases name) (auto simp: content_disposition_def Let_def plain_def shown_def)
    have "shown \<noteq> [] \<and> CHR 0x22 \<notin> set shown \<and> CHR 0x5C \<notin> set shown \<and> (\<forall>c \<in> set shown. is_printable c)"
      by (auto simp: shown_def plain_def is_printable_def)
    moreover have "CHR 0x22 \<notin> set (''; filename*=UTF-8'' @ [CHR 0x27, CHR 0x27] @ q) \<and>
        (\<forall>c \<in> set (''; filename*=UTF-8'' @ [CHR 0x27, CHR 0x27] @ q). is_printable c)"
      using quote_name_plain [OF q] by (auto simp: is_printable_def)
    ultimately show ?thesis unfolding v by (intro disjI2 exI conjI) (rule refl | force)+
  qed (use assms Some in \<open>simp add: content_disposition_def\<close>)
qed (use assms in \<open>simp add: content_disposition_def\<close>)

lemma disposition_contained_witness:
  "\<exists>name. content_disposition ''inline'' (Some [34, 10, 72]) =
      Some (''inline; filename='' @ [CHR 0x22] @ name @ [CHR 0x22] @ ''; filename*=UTF-8'' @ [CHR 0x27, CHR 0x27] @ ''%22%0AH'') \<and>
    CHR 0x22 \<notin> set name"
proof -
  have c: "content_disposition ''inline'' (Some [34, 10, 72]) =
      Some (''inline; filename='' @ [CHR 0x22] @ ''H'' @ [CHR 0x22] @ ''; filename*=UTF-8'' @ [CHR 0x27, CHR 0x27] @ ''%22%0AH'')"
    by code_simp
  from disposition_contained [OF c] show ?thesis using c by (intro exI [of _ "''H''"]) simp
qed

text \<open>A type a browser could run is always sent as an attachment, and never sniffed.\<close>

lemma unsafe_is_attachment:
  assumes "base_headers st media filename download = Some h" and "download \<or> base_type media \<notin> set inline_safe"
  shows "\<exists>v. dget h ''Content-Disposition'' = Some v \<and> starts_with ''attachment'' v"
    and "dget h ''X-Content-Type-Options'' = Some ''nosniff''"
proof -
  obtain v where v: "content_disposition ''attachment'' filename = Some v"
    using assms by (auto simp: base_headers_def Let_def split: if_splits)
  have "starts_with ''attachment'' v"
    using v by (auto simp: content_disposition_def Let_def starts_with_def split: option.splits list.splits)
  then show "\<exists>v. dget h ''Content-Disposition'' = Some v \<and> starts_with ''attachment'' v"
    and "dget h ''X-Content-Type-Options'' = Some ''nosniff''"
    using assms v by (auto simp: base_headers_def Let_def split: option.splits if_splits)
qed

end
