(* ===== verification/Mqtt.thy ===== *)
theory Mqtt
  imports Prelude "HOL-Library.Multiset"
begin

text \<open>
  The MQTT adapter: topic filters (\<open>xime/adapters/mqtt/_topic.py\<close>), the routes built from the controllers
  (\<open>routing/_builder.py\<close>) with the subscription numbers of the adapter (\<open>_adapter.py\<close>), and the dispatcher
  (\<open>_dispatcher.py\<close>): which handlers a message runs, in which order, and what a request is answered. Classes and
  models are numbers; what a handler does to the application, what a payload decodes to and whether a publication
  succeeds are functions of an environment on a state.
\<close>

section \<open>Topic filters\<close>

definition levels :: "string \<Rightarrow> string list" where
  "levels s = split_on (CHR ''/'') s"

fun match_loop :: "string list \<Rightarrow> string list \<Rightarrow> nat \<Rightarrow> string list \<Rightarrow> bool" where
  "match_loop filter_levels topic_levels i [] = (length filter_levels = length topic_levels)"
| "match_loop filter_levels topic_levels i (f # fs) =
     (if f = ''#'' then True
      else if length topic_levels \<le> i then False
      else if f = ''+'' then match_loop filter_levels topic_levels (i + 1) fs
      else if f \<noteq> topic_levels ! i then False
      else match_loop filter_levels topic_levels (i + 1) fs)"

definition topic_matches :: "string \<Rightarrow> string \<Rightarrow> bool" where
  "topic_matches flt topic =
     (let fs = levels flt; ts = levels topic
      in if ts \<noteq> [] \<and> starts_with ''$'' (ts ! 0) \<and> fs \<noteq> [] \<and> fs ! 0 \<in> {''+'', ''#''} then False
         else match_loop fs ts 0 fs)"

fun valid_loop :: "nat \<Rightarrow> nat \<Rightarrow> string list \<Rightarrow> bool" where
  "valid_loop n i [] = True"
| "valid_loop n i (l # ls) =
     (if CHR ''#'' \<in> set l \<and> (l \<noteq> ''#'' \<or> i \<noteq> n - 1) then False
      else if CHR ''+'' \<in> set l \<and> l \<noteq> ''+'' then False
      else valid_loop n (i + 1) ls)"

definition is_valid_filter :: "string \<Rightarrow> bool" where
  "is_valid_filter flt = (if flt = [] then False else valid_loop (length (levels flt)) 0 (levels flt))"

text \<open>What the protocol says: \<open>+\<close> stands for one level, a final \<open>#\<close> for any number of levels, zero included.\<close>

inductive levels_match :: "string list \<Rightarrow> string list \<Rightarrow> bool" where
  stop: "levels_match [] []"
| rest: "levels_match [''#''] ts"
| one: "levels_match fs ts \<Longrightarrow> levels_match (''+'' # fs) (t # ts)"
| same: "levels_match fs ts \<Longrightarrow> levels_match (t # fs) (t # ts)"

inductive_cases levels_match_elims: "levels_match [] ts" "levels_match (f # fs) ts"

lemma valid_loop_nth:
  "valid_loop n i ls \<longleftrightarrow>
    (\<forall>k < length ls. (CHR ''#'' \<in> set (ls ! k) \<longrightarrow> ls ! k = ''#'' \<and> i + k = n - 1) \<and> (CHR ''+'' \<in> set (ls ! k) \<longrightarrow> ls ! k = ''+''))"
proof (induction ls arbitrary: i)
  case (Cons l ls)
  define P where "P = (\<lambda>j l. (CHR ''#'' \<in> set l \<longrightarrow> l = ''#'' \<and> j = n - 1) \<and> (CHR ''+'' \<in> set l \<longrightarrow> l = ''+''))"
  have "valid_loop n i (l # ls) \<longleftrightarrow> P i l \<and> valid_loop n (i + 1) ls" by (auto simp: P_def)
  also have "\<dots> \<longleftrightarrow> P i l \<and> (\<forall>k < length ls. P (i + 1 + k) (ls ! k))" unfolding P_def Cons.IH ..
  also have "\<dots> \<longleftrightarrow> (\<forall>k < length (l # ls). P (i + k) ((l # ls) ! k))" by (simp add: All_less_Suc2)
  finally show ?case unfolding P_def .
qed simp

lemma match_loop_levels:
  assumes "length F = i + length fs" "i \<le> length ts" "\<And>k. k < length fs \<Longrightarrow> fs ! k = ''#'' \<Longrightarrow> Suc k = length fs"
  shows "match_loop F ts i fs \<longleftrightarrow> levels_match fs (drop i ts)"
  using assms
proof (induction fs arbitrary: i)
  case Nil
  then show ?case by (auto intro: levels_match.stop elim: levels_match_elims)
next
  case (Cons f fs)
  have last: "k < length fs \<Longrightarrow> fs ! k = ''#'' \<Longrightarrow> Suc k = length fs" for k using Cons.prems(3) [of "Suc k"] by simp
  show ?case
  proof (cases "f = ''#''")
    case True
    then have "fs = []" using Cons.prems(3) [of 0] by simp
    then show ?thesis using True by (simp add: levels_match.rest)
  next
    case False
    show ?thesis
    proof (cases "i < length ts")
      case True
      have IH: "match_loop F ts (i + 1) fs \<longleftrightarrow> levels_match fs (drop (i + 1) ts)"
        by (rule Cons.IH) (use Cons.prems(1,2) True last in auto)
      have d: "drop i ts = ts ! i # drop (i + 1) ts" using True by (simp add: Cons_nth_drop_Suc)
      show ?thesis unfolding d using IH False True
        by (auto intro: levels_match.intros elim: levels_match_elims)
    next
      case False
      then have "drop i ts = []" by simp
      then show ?thesis using False \<open>f \<noteq> ''#''\<close> by (auto elim: levels_match_elims)
    qed
  qed
qed

text \<open>
  C31: a filter that is accepted matches exactly the topics the protocol says, and a filter that starts with a
  wildcard no topic that starts with a dollar sign.
\<close>
theorem topic_matching_exact:
  assumes "is_valid_filter flt"
  shows "topic_matches flt topic \<longleftrightarrow>
    levels_match (levels flt) (levels topic) \<and> \<not> (starts_with ''$'' (levels topic ! 0) \<and> levels flt ! 0 \<in> {''+'', ''#''})"
proof -
  have ne: "levels flt \<noteq> []" "levels topic \<noteq> []" by (simp_all add: levels_def)
  have "match_loop (levels flt) (levels topic) 0 (levels flt) \<longleftrightarrow> levels_match (levels flt) (drop 0 (levels topic))"
  proof (rule match_loop_levels)
    fix k assume k: "k < length (levels flt)" "levels flt ! k = ''#''"
    have "valid_loop (length (levels flt)) 0 (levels flt)" using assms unfolding is_valid_filter_def by presburger
    then have "CHR ''#'' \<in> set (levels flt ! k) \<longrightarrow> 0 + k = length (levels flt) - 1"
      unfolding valid_loop_nth using k(1) by blast
    then have "k = length (levels flt) - 1" using k(2) by simp
    then show "Suc k = length (levels flt)" using k by simp
  qed simp_all
  then show ?thesis using ne by (auto simp: topic_matches_def Let_def)
qed

lemma topic_matching_exact_witness:
  "levels_match (levels ''sensors/+/#'') (levels ''sensors/a'') \<and> \<not> topic_matches ''+/x'' ''$SYS/x''"
proof
  have "is_valid_filter ''sensors/+/#''" "topic_matches ''sensors/+/#'' ''sensors/a''" by code_simp+
  then show "levels_match (levels ''sensors/+/#'') (levels ''sensors/a'')" by (rule topic_matching_exact [THEN iffD1, THEN conjunct1])
  have "is_valid_filter ''+/x''" "starts_with ''$'' (levels ''$SYS/x'' ! 0) \<and> levels ''+/x'' ! 0 \<in> {''+'', ''#''}" by code_simp+
  then show "\<not> topic_matches ''+/x'' ''$SYS/x''" unfolding topic_matching_exact [OF \<open>is_valid_filter ''+/x''\<close>] by blast
qed

section \<open>Routes\<close>

datatype mqtt_kind = SubscribeKind | RpcKind

record mqtt_info =
  mi_kind :: mqtt_kind
  mi_topic :: string
  mi_qos :: int

datatype mqtt_hint = NoHint | ModelHint nat | OtherHint

text \<open>
  What introspection reports of a handler: whether it is a coroutine function, its parameters in order with their
  hints (\<open>None\<close>: the annotations do not resolve) and the hint of its result.
\<close>

record mqtt_method =
  mm_async :: bool
  mm_params :: "string list"
  mm_hints :: "(string \<Rightarrow> mqtt_hint) option"
  mm_return :: mqtt_hint

text \<open>
  A controller: its classes from the most derived to the root, each with its attributes and whether they are
  functions; the metadata and the method an attribute of the class itself leads to.
\<close>

record mqtt_class =
  mk_name :: string
  mk_registered :: bool
  mk_mro :: "(string \<times> bool) list list"
  mk_info :: "string \<Rightarrow> mqtt_info option"
  mk_method :: "string \<Rightarrow> mqtt_method"

record mqtt_route =
  mr_info :: mqtt_info
  mr_handler :: "string \<times> string"
  mr_id :: "nat option"
  mr_params :: "string list"
  mr_request :: "nat option"
  mr_response :: "nat option"
  mr_wants_topic :: bool
  mr_request_param :: string

datatype mqtt_error =
    NotRegistered string
  | DuplicateFilter string
  | NotAsync string string
  | BadFilter string string string
  | BadQos string string int
  | BadHints string string
  | UnknownParams string string "string list"
  | UntypedParam string string string
  | SecondModel string string
  | NoModelParam string string string
  | NoRequest string string
  | NoResponseModel string string

definition subscribe_params :: "string list" where
  "subscribe_params = [''payload'', ''topic'', ''message'']"

fun handler_scan :: "mqtt_class \<Rightarrow> (string \<times> bool) list \<Rightarrow> string list \<Rightarrow> (string \<times> mqtt_info) list" where
  "handler_scan c [] seen = []"
| "handler_scan c ((name, is_fun) # attrs) seen =
     (if name \<in> set seen \<or> \<not> is_fun then handler_scan c attrs seen
      else (case mk_info c name of Some info \<Rightarrow> [(name, info)] | None \<Rightarrow> []) @ handler_scan c attrs (name # seen))"

definition iter_handlers :: "mqtt_class \<Rightarrow> (string \<times> mqtt_info) list" where
  "iter_handlers c = handler_scan c (concat (rev (mk_mro c))) []"

definition blank_route :: "mqtt_info \<Rightarrow> string \<times> string \<Rightarrow> mqtt_route" where
  "blank_route info h = \<lparr>mr_info = info, mr_handler = h, mr_id = None, mr_params = [], mr_request = None, mr_response = None,
     mr_wants_topic = False, mr_request_param = ''request''\<rparr>"

definition resolve_subscribe :: "string \<Rightarrow> string \<Rightarrow> mqtt_info \<Rightarrow> string list \<Rightarrow> mqtt_error + mqtt_route" where
  "resolve_subscribe cls name info params =
     (let unknown = filter (\<lambda>p. p \<notin> set subscribe_params) params
      in if unknown \<noteq> [] then Inl (UnknownParams cls name unknown)
         else Inr ((blank_route info (cls, name))\<lparr>mr_params := filter (\<lambda>p. p \<in> set params) subscribe_params\<rparr>))"

definition rpc_param :: "string \<Rightarrow> string \<Rightarrow> (string \<Rightarrow> mqtt_hint) \<Rightarrow> string \<Rightarrow> mqtt_route \<Rightarrow> mqtt_error + mqtt_route" where
  "rpc_param cls name hints p r =
     (if p = ''topic'' then Inr (r\<lparr>mr_wants_topic := True\<rparr>)
      else case hints p of
             NoHint \<Rightarrow> Inl (UntypedParam cls name p)
           | ModelHint m \<Rightarrow> if mr_request r \<noteq> None then Inl (SecondModel cls name) else Inr (r\<lparr>mr_request := Some m, mr_request_param := p\<rparr>)
           | OtherHint \<Rightarrow> Inl (NoModelParam cls name p))"

definition resolve_rpc :: "string \<Rightarrow> string \<Rightarrow> mqtt_info \<Rightarrow> mqtt_method \<Rightarrow> (string \<Rightarrow> mqtt_hint) \<Rightarrow> mqtt_error + mqtt_route" where
  "resolve_rpc cls name info m hints =
     sbind (sfold (rpc_param cls name hints) (mm_params m) (blank_route info (cls, name))) (\<lambda>r.
       if mr_request r = None then Inl (NoRequest cls name)
       else case mm_return m of
              ModelHint t \<Rightarrow> Inr (r\<lparr>mr_response := Some t\<rparr>)
            | _ \<Rightarrow> Inl (NoResponseModel cls name))"

definition resolve_route :: "string \<Rightarrow> string \<Rightarrow> mqtt_info \<Rightarrow> mqtt_method \<Rightarrow> mqtt_error + mqtt_route" where
  "resolve_route cls name info m =
     (if \<not> mm_async m then Inl (NotAsync cls name)
      else if \<not> is_valid_filter (mi_topic info) then Inl (BadFilter cls name (mi_topic info))
      else if mi_qos info \<notin> {0, 1, 2} then Inl (BadQos cls name (mi_qos info))
      else case mm_hints m of
             None \<Rightarrow> Inl (BadHints cls name)
           | Some hints \<Rightarrow>
               (case mi_kind info of
                  SubscribeKind \<Rightarrow> resolve_subscribe cls name info (mm_params m)
                | RpcKind \<Rightarrow> resolve_rpc cls name info m hints))"

definition add_route :: "mqtt_class \<Rightarrow> string \<times> mqtt_info \<Rightarrow> mqtt_route list \<Rightarrow> mqtt_error + mqtt_route list" where
  "add_route c h routes =
     sbind (resolve_route (mk_name c) (fst h) (snd h) (mk_method c (fst h))) (\<lambda>r.
       if mi_topic (snd h) \<in> set (map (\<lambda>r. mi_topic (mr_info r)) routes) then Inl (DuplicateFilter (mi_topic (snd h)))
       else Inr (routes @ [r]))"

definition add_controller :: "mqtt_class \<Rightarrow> mqtt_route list \<Rightarrow> mqtt_error + mqtt_route list" where
  "add_controller c routes =
     (if \<not> mk_registered c then Inl (NotRegistered (mk_name c)) else sfold (add_route c) (iter_handlers c) routes)"

definition build_routes :: "mqtt_class list \<Rightarrow> mqtt_error + mqtt_route list" where
  "build_routes cs = sfold add_controller cs []"

text \<open>The adapter numbers the routes from 1 and subscribes each filter under the number of its route.\<close>

definition number_routes :: "mqtt_route list \<Rightarrow> mqtt_route list" where
  "number_routes rs = map (\<lambda>(i, r). r\<lparr>mr_id := Some (i + 1)\<rparr>) (enumerate 0 rs)"

definition subscriptions :: "mqtt_route list \<Rightarrow> (string \<times> int \<times> nat) list" where
  "subscriptions rs = concat (map (\<lambda>r. case mr_id r of Some i \<Rightarrow> [(mi_topic (mr_info r), mi_qos (mr_info r), i)] | None \<Rightarrow> []) rs)"

section \<open>The dispatcher\<close>

text \<open>An exception: its class, its text and whether \<open>except Exception\<close> catches it.\<close>

record mqtt_exn =
  mx_class :: nat
  mx_text :: string
  mx_exception :: bool

record mqtt_message =
  mq_topic :: string
  mq_payload :: string
  mq_response_topic :: "string option"
  mq_correlation :: "string option"
  mq_ids :: "nat list"

datatype mqtt_args = SubscribeArgs "string list" mqtt_message | RpcArgs string nat "string option"

datatype mqtt_reply = ResultReply string | ErrorReply string string

text \<open>
  Pydantic reads a payload (\<open>me_decode\<close>) and writes a response (\<open>me_dump\<close>); a handler and the connection act on
  the state of the application.
\<close>

record 'w mqtt_env =
  me_decode :: "nat \<Rightarrow> string \<Rightarrow> mqtt_exn + nat"
  me_dump :: "nat \<Rightarrow> mqtt_exn + string"
  me_call :: "string \<times> string \<Rightarrow> mqtt_args \<Rightarrow> 'w \<Rightarrow> 'w \<times> (mqtt_exn + nat)"
  me_publish :: "string \<Rightarrow> mqtt_reply \<Rightarrow> string option \<Rightarrow> 'w \<Rightarrow> 'w \<times> (mqtt_exn + unit)"
  me_instance :: "nat \<Rightarrow> nat \<Rightarrow> bool"
  me_mappings :: "(nat \<times> string) list"
  me_allowed :: "string list"

datatype mqtt_event =
    HandlerCalled "string \<times> string" mqtt_args
  | ReplySent string mqtt_reply "string option" bool
  | ReplyLost string
  | HandlerFailed string string
  | OutsideReply string
  | OutsideCapped

record 'w mqtt_state =
  ms_world :: 'w
  ms_log :: "mqtt_event list"
  ms_warned :: "string list"
  ms_capped :: bool

definition note_mqtt :: "mqtt_event \<Rightarrow> 'w mqtt_state \<Rightarrow> 'w mqtt_state" where
  "note_mqtt e st = st\<lparr>ms_log := ms_log st @ [e]\<rparr>"

definition max_warned :: nat where "max_warned = 64"

definition check_reply_topic :: "'w mqtt_env \<Rightarrow> string \<Rightarrow> 'w mqtt_state \<Rightarrow> 'w mqtt_state" where
  "check_reply_topic E t st =
     (if me_allowed E = [] then st
      else if \<exists>f \<in> set (me_allowed E). topic_matches f t then st
      else if t \<in> set (ms_warned st) then st
      else if max_warned \<le> length (ms_warned st) then
        (if \<not> ms_capped st then note_mqtt OutsideCapped (st\<lparr>ms_capped := True\<rparr>) else st)
      else note_mqtt (OutsideReply t) (st\<lparr>ms_warned := ms_warned st @ [t]\<rparr>))"

definition call_handler :: "'w mqtt_env \<Rightarrow> string \<times> string \<Rightarrow> mqtt_args \<Rightarrow> 'w mqtt_state \<Rightarrow> 'w mqtt_state \<times> (mqtt_exn + nat)" where
  "call_handler E h args st =
     (case me_call E h args (ms_world st) of (w, r) \<Rightarrow> ((note_mqtt (HandlerCalled h args) st)\<lparr>ms_world := w\<rparr>, r))"

definition send_reply :: "'w mqtt_env \<Rightarrow> string \<Rightarrow> mqtt_reply \<Rightarrow> string option \<Rightarrow> 'w mqtt_state \<Rightarrow> 'w mqtt_state \<times> (mqtt_exn + unit)" where
  "send_reply E t body cor st =
     (case me_publish E t body cor (ms_world st) of
        (w, r) \<Rightarrow> ((note_mqtt (ReplySent t body cor (\<exists>u. r = Inr u)) st)\<lparr>ms_world := w\<rparr>, r))"

definition map_error :: "'w mqtt_env \<Rightarrow> mqtt_exn \<Rightarrow> mqtt_reply" where
  "map_error E x =
     (case filter (\<lambda>(c, code). me_instance E (mx_class x) c) (me_mappings E) of
        (c, code) # _ \<Rightarrow> ErrorReply code (mx_text x)
      | [] \<Rightarrow> ErrorReply ''INTERNAL'' ''Internal server error'')"

definition invoke_subscribe :: "'w mqtt_env \<Rightarrow> mqtt_route \<Rightarrow> mqtt_message \<Rightarrow> 'w mqtt_state \<Rightarrow> 'w mqtt_state \<times> mqtt_exn option" where
  "invoke_subscribe E r m st =
     (case call_handler E (mr_handler r) (SubscribeArgs (mr_params r) m) st of
        (st, Inl x) \<Rightarrow> (st, Some x) | (st, Inr _) \<Rightarrow> (st, None))"

text \<open>An empty reply topic counts as none, an empty payload as an empty JSON object.\<close>

definition reply_topic :: "mqtt_message \<Rightarrow> string option" where
  "reply_topic m = (case mq_response_topic m of Some t \<Rightarrow> if t = [] then None else Some t | None \<Rightarrow> None)"

definition json_payload :: "mqtt_message \<Rightarrow> string" where
  "json_payload m = (if mq_payload m = [] then ''{}'' else mq_payload m)"

definition no_request_exn :: mqtt_exn where
  "no_request_exn = \<lparr>mx_class = 0, mx_text = ''RPC route has no request model'', mx_exception = True\<rparr>"

text \<open>The \<open>try\<close> block of a remote call.\<close>

definition rpc_body :: "'w mqtt_env \<Rightarrow> mqtt_route \<Rightarrow> mqtt_message \<Rightarrow> 'w mqtt_state \<Rightarrow> 'w mqtt_state \<times> mqtt_exn option" where
  "rpc_body E r m st =
     (case mr_request r of
        None \<Rightarrow> (st, Some no_request_exn)
      | Some model \<Rightarrow>
          (case me_decode E model (json_payload m) of
             Inl x \<Rightarrow> (st, Some x)
           | Inr req \<Rightarrow>
               (case call_handler E (mr_handler r)
                       (RpcArgs (mr_request_param r) req (if mr_wants_topic r then Some (mq_topic m) else None)) st of
                  (st1, Inl x) \<Rightarrow> (st1, Some x)
                | (st1, Inr resp) \<Rightarrow>
                    (case reply_topic m of
                       None \<Rightarrow> (st1, None)
                     | Some t \<Rightarrow>
                         (case me_dump E resp of
                            Inl x \<Rightarrow> (st1, Some x)
                          | Inr body \<Rightarrow>
                              (case send_reply E t (ResultReply body) (mq_correlation m) st1 of
                                 (st2, Inl x) \<Rightarrow> (st2, Some x)
                               | (st2, Inr _) \<Rightarrow> (st2, None)))))))"

definition invoke_rpc :: "'w mqtt_env \<Rightarrow> mqtt_route \<Rightarrow> mqtt_message \<Rightarrow> 'w mqtt_state \<Rightarrow> 'w mqtt_state \<times> mqtt_exn option" where
  "invoke_rpc E r m st =
     (let st0 = (case reply_topic m of Some t \<Rightarrow> check_reply_topic E t st | None \<Rightarrow> st)
      in case rpc_body E r m st0 of
           (st1, None) \<Rightarrow> (st1, None)
         | (st1, Some x) \<Rightarrow>
             (case reply_topic m of
                Some t \<Rightarrow>
                  if mx_exception x then
                    (case send_reply E t (map_error E x) (mq_correlation m) st1 of
                       (st2, Inr _) \<Rightarrow> (st2, Some x)
                     | (st2, Inl y) \<Rightarrow> if mx_exception y then (note_mqtt (ReplyLost t) st2, Some x) else (st2, Some y))
                  else (st1, Some x)
              | None \<Rightarrow> (st1, Some x)))"

text \<open>Later routes win in \<open>_by_sub_id\<close>; without numbers every route whose filter matches is run.\<close>

definition by_sub_id :: "mqtt_route list \<Rightarrow> nat \<Rightarrow> mqtt_route option" where
  "by_sub_id routes i = find (\<lambda>r. mr_id r = Some i) (rev routes)"

definition match_routes :: "mqtt_route list \<Rightarrow> string \<Rightarrow> nat list \<Rightarrow> mqtt_route list" where
  "match_routes routes topic ids =
     (if ids \<noteq> [] then List.map_filter (by_sub_id routes) (dedup ids)
      else filter (\<lambda>r. topic_matches (mi_topic (mr_info r)) topic) routes)"

text \<open>A handler that fails is logged and the next one runs; what \<open>except Exception\<close> does not catch ends the dispatch.\<close>

fun dispatch_each :: "'w mqtt_env \<Rightarrow> mqtt_message \<Rightarrow> mqtt_route list \<Rightarrow> 'w mqtt_state \<Rightarrow> 'w mqtt_state \<times> mqtt_exn option" where
  "dispatch_each E m [] st = (st, None)"
| "dispatch_each E m (r # rs) st =
     (case (case mi_kind (mr_info r) of SubscribeKind \<Rightarrow> invoke_subscribe E r m st | RpcKind \<Rightarrow> invoke_rpc E r m st) of
        (st1, None) \<Rightarrow> dispatch_each E m rs st1
      | (st1, Some x) \<Rightarrow>
          if mx_exception x then dispatch_each E m rs (note_mqtt (HandlerFailed (mq_topic m) (mi_topic (mr_info r))) st1)
          else (st1, Some x))"

definition mqtt_dispatch :: "'w mqtt_env \<Rightarrow> mqtt_route list \<Rightarrow> mqtt_message \<Rightarrow> 'w mqtt_state \<Rightarrow> 'w mqtt_state \<times> mqtt_exn option" where
  "mqtt_dispatch E routes m st = dispatch_each E m (match_routes routes (mq_topic m) (mq_ids m)) st"

section \<open>Every handler of a message runs once\<close>

definition called :: "'w mqtt_state \<Rightarrow> (string \<times> string) list" where
  "called st = concat (map (\<lambda>e. case e of HandlerCalled h _ \<Rightarrow> [h] | _ \<Rightarrow> []) (ms_log st))"

text \<open>Only exceptions that \<open>except Exception\<close> catches are raised.\<close>

definition calm_env :: "'w mqtt_env \<Rightarrow> bool" where
  "calm_env E \<longleftrightarrow> (\<forall>m p x. me_decode E m p = Inl x \<longrightarrow> mx_exception x) \<and> (\<forall>v x. me_dump E v = Inl x \<longrightarrow> mx_exception x) \<and>
     (\<forall>h a w x. snd (me_call E h a w) = Inl x \<longrightarrow> mx_exception x) \<and>
     (\<forall>t b c w x. snd (me_publish E t b c w) = Inl x \<longrightarrow> mx_exception x)"

text \<open>A subscription takes every payload, a remote call those that its model reads.\<close>

definition takes :: "'w mqtt_env \<Rightarrow> mqtt_message \<Rightarrow> mqtt_route \<Rightarrow> bool" where
  "takes E m r \<longleftrightarrow> (case mi_kind (mr_info r) of
     SubscribeKind \<Rightarrow> True
   | RpcKind \<Rightarrow> (case mr_request r of None \<Rightarrow> False | Some model \<Rightarrow> (case me_decode E model (json_payload m) of Inl _ \<Rightarrow> False | Inr _ \<Rightarrow> True)))"

lemma called_note [simp]:
  "called (note_mqtt e st) = called st @ (case e of HandlerCalled h _ \<Rightarrow> [h] | _ \<Rightarrow> [])"
  "called (st\<lparr>ms_world := w\<rparr>) = called st" "called (st\<lparr>ms_warned := ws\<rparr>) = called st" "called (st\<lparr>ms_capped := b\<rparr>) = called st"
  by (simp_all add: called_def note_mqtt_def)

lemma called_check [simp]: "called (check_reply_topic E t st) = called st"
  by (simp add: check_reply_topic_def)

lemma called_handler [simp]: "called (fst (call_handler E h args st)) = called st @ [h]"
  by (simp add: call_handler_def split: prod.splits)

lemma called_reply [simp]: "called (fst (send_reply E t b c st)) = called st"
  by (simp add: send_reply_def split: prod.splits)

lemma calm_handler: "calm_env E \<Longrightarrow> snd (call_handler E h args st) = Inl x \<Longrightarrow> mx_exception x"
proof -
  assume "calm_env E" "snd (call_handler E h args st) = Inl x"
  moreover have "snd (call_handler E h args st) = snd (me_call E h args (ms_world st))"
    by (simp add: call_handler_def split: prod.splits)
  ultimately show "mx_exception x" unfolding calm_env_def by metis
qed

lemma calm_reply: "calm_env E \<Longrightarrow> snd (send_reply E t b c st) = Inl x \<Longrightarrow> mx_exception x"
proof -
  assume "calm_env E" "snd (send_reply E t b c st) = Inl x"
  moreover have "snd (send_reply E t b c st) = snd (me_publish E t b c (ms_world st))"
    by (simp add: send_reply_def split: prod.splits)
  ultimately show "mx_exception x" unfolding calm_env_def by metis
qed

lemma invoke_subscribe_called:
  assumes "calm_env E" "invoke_subscribe E r m st = (st', x)"
  shows "called st' = called st @ [mr_handler r]" "x = Some y \<Longrightarrow> mx_exception y"
proof -
  obtain st1 o1 where c: "call_handler E (mr_handler r) (SubscribeArgs (mr_params r) m) st = (st1, o1)" by fastforce
  have "called st1 = called st @ [mr_handler r]" using called_handler [of E "mr_handler r" _ st] c by (metis fst_conv)
  moreover have "st' = st1" "x = (case o1 of Inl e \<Rightarrow> Some e | Inr _ \<Rightarrow> None)"
    using assms(2) c by (cases o1; simp add: invoke_subscribe_def)+
  ultimately show "called st' = called st @ [mr_handler r]" "x = Some y \<Longrightarrow> mx_exception y"
    using calm_handler [OF assms(1), of "mr_handler r" "SubscribeArgs (mr_params r) m" st y] c by (auto split: sum.splits)
qed

lemma rpc_body_called:
  assumes "calm_env E" "rpc_body E r m st = (st', x)"
  shows "called st' = called st @ (if \<exists>model. mr_request r = Some model \<and> (\<exists>v. me_decode E model (json_payload m) = Inr v) then [mr_handler r] else [])"
    "x = Some y \<Longrightarrow> mx_exception y"
proof -
  have "called st' = called st @ (if \<exists>model. mr_request r = Some model \<and> (\<exists>v. me_decode E model (json_payload m) = Inr v) then [mr_handler r] else []) \<and>
    (x = Some y \<longrightarrow> mx_exception y)"
  proof (cases "mr_request r")
    case None
    then show ?thesis using assms by (auto simp: rpc_body_def no_request_exn_def)
  next
    case (Some model)
    show ?thesis
    proof (cases "me_decode E model (json_payload m)")
      case (Inl e)
      then have "mx_exception e" using assms(1) by (auto simp: calm_env_def)
      then show ?thesis using assms(2) Some Inl by (auto simp: rpc_body_def)
    next
      case (Inr req)
      let ?args = "RpcArgs (mr_request_param r) req (if mr_wants_topic r then Some (mq_topic m) else None)"
      obtain st1 o1 where c: "call_handler E (mr_handler r) ?args st = (st1, o1)" by fastforce
      have k: "called st1 = called st @ [mr_handler r]" using called_handler [of E "mr_handler r" ?args st] c by simp
      show ?thesis
      proof (cases o1)
        case (Inl e)
        then have "mx_exception e" using calm_handler [OF assms(1), of "mr_handler r" ?args st e] c by simp
        then show ?thesis using assms(2) Some \<open>me_decode E model (json_payload m) = Inr req\<close> c k Inl by (auto simp: rpc_body_def)
      next
        case o1: (Inr resp)
        show ?thesis
        proof (cases "reply_topic m")
          case None
          then show ?thesis using assms(2) Some Inr c k o1 by (auto simp: rpc_body_def)
        next
          case t: (Some t)
          show ?thesis
          proof (cases "me_dump E resp")
            case (Inl e)
            then have "mx_exception e" using assms(1) by (auto simp: calm_env_def)
            then show ?thesis using assms(2) Some Inr c k o1 t Inl by (auto simp: rpc_body_def)
          next
            case d: (Inr body)
            obtain st2 o2 where s: "send_reply E t (ResultReply body) (mq_correlation m) st1 = (st2, o2)" by fastforce
            have k2: "called st2 = called st1" using called_reply [of E t "ResultReply body" "mq_correlation m" st1] s by simp
            have "mx_exception e" if "o2 = Inl e" for e using calm_reply [OF assms(1), of t "ResultReply body" "mq_correlation m" st1 e] s that by simp
            then show ?thesis using assms(2) Some Inr c k k2 o1 t d s by (cases o2) (auto simp: rpc_body_def)
          qed
        qed
      qed
    qed
  qed
  then show "called st' = called st @ (if \<exists>model. mr_request r = Some model \<and> (\<exists>v. me_decode E model (json_payload m) = Inr v) then [mr_handler r] else [])"
    "x = Some y \<Longrightarrow> mx_exception y" by blast+
qed

lemma invoke_rpc_called:
  assumes "calm_env E" "invoke_rpc E r m st = (st', x)"
  shows "called st' = called st @ (if \<exists>model. mr_request r = Some model \<and> (\<exists>v. me_decode E model (json_payload m) = Inr v) then [mr_handler r] else [])"
    "x = Some y \<Longrightarrow> mx_exception y"
proof -
  define st0 where "st0 = (case reply_topic m of Some t \<Rightarrow> check_reply_topic E t st | None \<Rightarrow> st)"
  have k0: "called st0 = called st" by (simp add: st0_def split: option.splits)
  obtain st1 o1 where b: "rpc_body E r m st0 = (st1, o1)" by fastforce
  note body = rpc_body_called [OF assms(1) b]
  have "called st' = called st1 \<and> (x = Some y \<longrightarrow> mx_exception y)"
  proof (cases o1)
    case None
    then show ?thesis using assms(2) b by (auto simp: invoke_rpc_def st0_def [symmetric])
  next
    case (Some e)
    have e: "mx_exception e" using body(2) Some by blast
    show ?thesis
    proof (cases "reply_topic m")
      case None
      then have "st' = st1" "x = Some e" using assms(2) b Some by (auto simp: invoke_rpc_def st0_def)
      then show ?thesis using e by auto
    next
      case t: (Some t)
      obtain st2 o2 where s: "send_reply E t (map_error E e) (mq_correlation m) st1 = (st2, o2)" by fastforce
      have k2: "called st2 = called st1" using called_reply [of E t "map_error E e" "mq_correlation m" st1] s by simp
      have "mx_exception z" if "o2 = Inl z" for z using calm_reply [OF assms(1), of t "map_error E e" "mq_correlation m" st1 z] s that by simp
      moreover have "st0 = check_reply_topic E t st" by (simp add: st0_def t)
      ultimately show ?thesis using assms(2) b Some e t s k2 by (cases o2) (auto simp: invoke_rpc_def Let_def)
    qed
  qed
  then show "called st' = called st @ (if \<exists>model. mr_request r = Some model \<and> (\<exists>v. me_decode E model (json_payload m) = Inr v) then [mr_handler r] else [])"
    "x = Some y \<Longrightarrow> mx_exception y" using body(1) k0 by simp_all
qed

lemma dispatch_each_called:
  assumes "calm_env E"
  shows "called (fst (dispatch_each E m rs st)) = called st @ map mr_handler (filter (takes E m) rs) \<and> snd (dispatch_each E m rs st) = None"
proof (induction rs arbitrary: st)
  case (Cons r rs)
  define step where "step = (case mi_kind (mr_info r) of SubscribeKind \<Rightarrow> invoke_subscribe E r m st | RpcKind \<Rightarrow> invoke_rpc E r m st)"
  obtain st1 o1 where s: "step = (st1, o1)" by fastforce
  have k: "called st1 = called st @ (if takes E m r then [mr_handler r] else [])" and x: "\<And>y. o1 = Some y \<Longrightarrow> mx_exception y"
  proof -
    have "called st1 = called st @ (if takes E m r then [mr_handler r] else []) \<and> (\<forall>y. o1 = Some y \<longrightarrow> mx_exception y)"
    proof (cases "mi_kind (mr_info r)")
      case SubscribeKind
      then show ?thesis using s invoke_subscribe_called [OF assms, of r m st st1 o1] by (auto simp: step_def takes_def)
    next
      case RpcKind
      then have i: "invoke_rpc E r m st = (st1, o1)" using s by (simp add: step_def)
      have "takes E m r \<longleftrightarrow> (\<exists>model. mr_request r = Some model \<and> (\<exists>v. me_decode E model (json_payload m) = Inr v))"
        by (simp add: takes_def RpcKind split: option.splits sum.splits)
      then show ?thesis using invoke_rpc_called [OF assms i] by simp
    qed
    then show "called st1 = called st @ (if takes E m r then [mr_handler r] else [])" "\<And>y. o1 = Some y \<Longrightarrow> mx_exception y" by blast+
  qed
  show ?case
  proof (cases o1)
    case None
    then show ?thesis using Cons.IH [of st1] s k by (simp add: step_def)
  next
    case (Some y)
    then show ?thesis using Cons.IH [of "note_mqtt (HandlerFailed (mq_topic m) (mi_topic (mr_info r))) st1"] s k x by (simp add: step_def)
  qed
qed simp

text \<open>The routes of an application: valid, with different filters and the numbers from 1 on.\<close>

lemma resolve_route_info: "resolve_route cls name info m = Inr r \<Longrightarrow> mr_info r = info \<and> is_valid_filter (mi_topic info)"
proof -
  assume a: "resolve_route cls name info m = Inr r"
  have f: "sfold (rpc_param cls name hints) ps r0 = Inr r1 \<Longrightarrow> mr_info r1 = mr_info r0" for hints ps r0 r1
  proof (induction ps arbitrary: r0)
    case (Cons p ps)
    then obtain r2 where "rpc_param cls name hints p r0 = Inr r2" "sfold (rpc_param cls name hints) ps r2 = Inr r1"
      by (auto simp: err_simps)
    moreover from this(1) have "mr_info r2 = mr_info r0" by (auto simp: rpc_param_def split: if_splits mqtt_hint.splits)
    ultimately show ?case using Cons.IH by simp
  qed simp
  have "is_valid_filter (mi_topic info)" using a by (auto simp: resolve_route_def split: if_splits)
  moreover have "mr_info r = info"
    using a by (auto simp: resolve_route_def resolve_subscribe_def resolve_rpc_def blank_route_def Let_def err_simps
      split: if_splits option.splits mqtt_kind.splits mqtt_hint.splits dest!: f)
  ultimately show ?thesis by simp
qed

definition routes_ok :: "mqtt_route list \<Rightarrow> bool" where
  "routes_ok rs \<longleftrightarrow> distinct (map (\<lambda>r. mi_topic (mr_info r)) rs) \<and> (\<forall>r \<in> set rs. is_valid_filter (mi_topic (mr_info r)))"

lemma add_route_ok: "routes_ok rs \<Longrightarrow> add_route c h rs = Inr rs' \<Longrightarrow> routes_ok rs'"
  by (auto simp: add_route_def err_simps routes_ok_def split: if_splits dest!: resolve_route_info)

lemma build_routes_ok: "build_routes cs = Inr rs \<Longrightarrow> routes_ok rs"
proof -
  assume "build_routes cs = Inr rs"
  moreover have "routes_ok []" by (simp add: routes_ok_def)
  moreover have "routes_ok rs'" if ok: "routes_ok rs" and a: "add_controller c rs = Inr rs'" for c rs rs'
  proof -
    have "sfold (add_route c) (iter_handlers c) rs = Inr rs'" using a by (simp add: add_controller_def split: if_splits)
    then show ?thesis by (rule sfold_invariant [where I = routes_ok]) (use ok add_route_ok in blast)+
  qed
  ultimately show ?thesis unfolding build_routes_def by (elim sfold_invariant [where I = routes_ok]) blast+
qed

lemma number_routes_ids: "map mr_id (number_routes rs) = map (\<lambda>i. Some (i + 1)) [0..<length rs]"
  by (rule nth_equalityI) (simp_all add: number_routes_def nth_enumerate_eq)

lemma by_sub_id_route:
  assumes "distinct (map mr_id routes)" "r \<in> set routes" "mr_id r = Some i"
  shows "by_sub_id routes i = Some r"
proof (cases "by_sub_id routes i")
  case None
  then show ?thesis using assms(2,3) by (auto simp: by_sub_id_def find_None_iff)
next
  case (Some r')
  then have "r' \<in> set routes" "mr_id r' = Some i" unfolding by_sub_id_def find_Some_iff by (auto, metis length_rev nth_mem set_rev)
  then show ?thesis using assms Some by (metis distinct_map inj_onD)
qed

text \<open>The copies of one message a broker sends, each with the numbers of the subscriptions it is for.\<close>

definition deliver_copies :: "'w mqtt_env \<Rightarrow> mqtt_route list \<Rightarrow> mqtt_message \<Rightarrow> nat list list \<Rightarrow> 'w mqtt_state \<Rightarrow> 'w mqtt_state" where
  "deliver_copies E routes m idss st = fold (\<lambda>ids st. fst (mqtt_dispatch E routes (m\<lparr>mq_ids := ids\<rparr>) st)) idss st"

text \<open>The numbers of the subscriptions a topic matches.\<close>

definition matching_ids :: "mqtt_route list \<Rightarrow> string \<Rightarrow> nat list" where
  "matching_ids routes t = map (\<lambda>(f, q, i). i) (filter (\<lambda>(f, q, i). topic_matches f t) (subscriptions routes))"

lemma takes_ids [simp]: "takes E (m\<lparr>mq_ids := ids\<rparr>) = takes E m"
  by (rule ext) (simp add: takes_def json_payload_def split: mqtt_kind.splits option.splits)

lemma deliver_copies_called:
  assumes "calm_env E"
  shows "called (deliver_copies E routes m idss st) =
    called st @ concat (map (\<lambda>ids. map mr_handler (filter (takes E m) (match_routes routes (mq_topic m) ids))) idss)"
proof (induction idss arbitrary: st)
  case (Cons ids idss)
  have "called (fst (mqtt_dispatch E routes (m\<lparr>mq_ids := ids\<rparr>) st)) =
      called st @ map mr_handler (filter (takes E m) (match_routes routes (mq_topic m) ids))"
    using dispatch_each_called [OF assms, of "m\<lparr>mq_ids := ids\<rparr>"] by (simp add: mqtt_dispatch_def)
  then show ?case using Cons.IH by (simp add: deliver_copies_def)
qed (simp add: deliver_copies_def)

lemma matching_ids_routes:
  assumes "\<And>r. r \<in> set routes \<Longrightarrow> \<exists>i. mr_id r = Some i"
  shows "map Some (matching_ids routes t) = map mr_id (filter (\<lambda>r. topic_matches (mi_topic (mr_info r)) t) routes)"
  using assms
proof (induction routes)
  case (Cons r rs)
  obtain i where "mr_id r = Some i" using Cons.prems by force
  then show ?case using Cons by (simp add: matching_ids_def subscriptions_def)
qed (simp add: matching_ids_def subscriptions_def)

lemma match_by_ids:
  assumes "distinct (map mr_id routes)" "ids \<noteq> []" "distinct ids" "set ids \<subseteq> set (matching_ids routes t)"
    "\<And>r. r \<in> set routes \<Longrightarrow> \<exists>i. mr_id r = Some i"
  shows "match_routes routes t ids = map (\<lambda>i. the (by_sub_id routes i)) ids"
proof -
  have "\<exists>r. by_sub_id routes i = Some r" if "i \<in> set ids" for i
  proof -
    have "Some i \<in> set (map Some (matching_ids routes t))" using that assms(4) by auto
    then have "Some i \<in> set (map mr_id (filter (\<lambda>r. topic_matches (mi_topic (mr_info r)) t) routes))"
      by (simp only: matching_ids_routes [OF assms(5)])
    then obtain r where "r \<in> set routes" "mr_id r = Some i" by auto
    then show ?thesis using by_sub_id_route [OF assms(1)] by blast
  qed
  then have "List.map_filter (by_sub_id routes) ids = map (\<lambda>i. the (by_sub_id routes i)) ids"
    by (induction ids) (auto simp: map_filter_simps split: option.splits)
  then show ?thesis using assms(2,3) by (simp add: match_routes_def dedup_distinct)
qed

text \<open>
  C32: with the routes of an application, numbered by the adapter, each handler whose filter matches a message and
  that takes its payload is called exactly once for it, whether the broker sends one copy for all subscriptions, one
  for each or anything between, and although any of the handlers, replies and decoders may raise an \<open>Exception\<close>.
\<close>
theorem fanout_once:
  assumes "build_routes cs = Inr rs" and "calm_env E"
    and "mset (concat idss) = mset (matching_ids (number_routes rs) (mq_topic m))" and "[] \<notin> set idss"
  shows "mset (called (deliver_copies E (number_routes rs) m idss st)) =
    mset (called st) + mset (map mr_handler (filter (\<lambda>r. topic_matches (mi_topic (mr_info r)) (mq_topic m) \<and> takes E m r) (number_routes rs)))"
proof -
  let ?R = "number_routes rs" and ?t = "mq_topic m"
  let ?M = "filter (\<lambda>r. topic_matches (mi_topic (mr_info r)) ?t) ?R"
  let ?g = "\<lambda>i. the (by_sub_id ?R i)"
  have ids: "distinct (map mr_id ?R)" unfolding number_routes_ids by (simp add: distinct_map inj_on_def)
  have num: "\<exists>i. mr_id r = Some i" if "r \<in> set ?R" for r using that by (auto simp: number_routes_def)
  note names = matching_ids_routes [where routes = ?R and t = ?t, OF num]
  have "distinct (map mr_id ?M)" by (rule distinct_map_filter [OF ids])
  then have "distinct (map Some (matching_ids ?R ?t))" by (simp only: names)
  then have "distinct (matching_ids ?R ?t)" by (simp add: distinct_map)
  then have dist: "distinct (concat idss)" using mset_eq_imp_distinct_iff [OF assms(3)] by simp
  have sub: "set (concat idss) = set (matching_ids ?R ?t)" by (rule mset_eq_setD [OF assms(3)])
  have each: "match_routes ?R ?t ks = map ?g ks" if "ks \<in> set idss" for ks
  proof (rule match_by_ids [OF ids _ _ _ num])
    show "ks \<noteq> []" using that assms(4) by auto
    show "distinct ks" using dist that by (auto simp: distinct_concat_iff)
    show "set ks \<subseteq> set (matching_ids ?R ?t)" using that sub by auto
  qed
  have "map (\<lambda>ks. map mr_handler (filter (takes E m) (match_routes ?R ?t ks))) idss =
      map (\<lambda>ks. map mr_handler (filter (takes E m) (map ?g ks))) idss"
    by (rule map_cong [OF refl]) (simp only: each)
  then have "mset (concat (map (\<lambda>ks. map mr_handler (filter (takes E m) (match_routes ?R ?t ks))) idss)) =
      mset (concat (map (\<lambda>ks. map mr_handler (filter (takes E m) (map ?g ks))) idss))" by (simp only:)
  also have "\<dots> = image_mset mr_handler (filter_mset (takes E m) (image_mset ?g (mset (concat idss))))"
    by (induction idss) simp_all
  also have "\<dots> = image_mset mr_handler (filter_mset (takes E m) (mset (map ?g (matching_ids ?R ?t))))"
    unfolding assms(3) mset_map ..
  also have "map ?g (matching_ids ?R ?t) = ?M"
  proof (rule nth_equalityI)
    show len: "length (map ?g (matching_ids ?R ?t)) = length ?M" using arg_cong [OF names, of length] by simp
    fix k assume k: "k < length (map ?g (matching_ids ?R ?t))"
    then have "mr_id (?M ! k) = Some (matching_ids ?R ?t ! k)" using arg_cong [OF names, of "\<lambda>xs. xs ! k"] len by simp
    moreover have "?M ! k \<in> set ?M" using k len by (intro nth_mem) simp
    then have "?M ! k \<in> set ?R" by simp
    ultimately show "map ?g (matching_ids ?R ?t) ! k = ?M ! k" using by_sub_id_route [OF ids] k by simp
  qed
  also have "image_mset mr_handler (filter_mset (takes E m) (mset ?M)) =
      mset (map mr_handler (filter (\<lambda>r. topic_matches (mi_topic (mr_info r)) ?t \<and> takes E m r) ?R))"
    by (simp only: mset_filter [symmetric] mset_map [symmetric] filter_filter)
  finally show ?thesis unfolding deliver_copies_called [OF assms(2)] mset_append by simp
qed

definition sample_mqtt_class :: mqtt_class where
  "sample_mqtt_class = \<lparr>mk_name = ''Sensors'', mk_registered = True,
     mk_mro = [[(''one'', True), (''all'', True), (''ask'', True)], [(''__init__'', False)]],
     mk_info = (\<lambda>a. if a = ''one'' then Some \<lparr>mi_kind = SubscribeKind, mi_topic = ''a/+'', mi_qos = 0\<rparr>
                  else if a = ''all'' then Some \<lparr>mi_kind = SubscribeKind, mi_topic = ''a/#'', mi_qos = 1\<rparr>
                  else if a = ''ask'' then Some \<lparr>mi_kind = RpcKind, mi_topic = ''b'', mi_qos = 1\<rparr> else None),
     mk_method = (\<lambda>a. if a = ''ask'' then \<lparr>mm_async = True, mm_params = [''request''], mm_hints = Some (\<lambda>_. ModelHint 3), mm_return = ModelHint 4\<rparr>
                    else \<lparr>mm_async = True, mm_params = [''payload''], mm_hints = Some (\<lambda>_. NoHint), mm_return = NoHint\<rparr>)\<rparr>"

definition failing :: mqtt_exn where
  "failing = \<lparr>mx_class = 1, mx_text = ''no'', mx_exception = True\<rparr>"

definition sample_mqtt_env :: "nat mqtt_env" where
  "sample_mqtt_env = \<lparr>me_decode = (\<lambda>_ _. Inl failing), me_dump = (\<lambda>_. Inl failing), me_call = (\<lambda>_ _ w. (w + 1, Inl failing)),
     me_publish = (\<lambda>_ _ _ w. (w, Inl failing)), me_instance = (=), me_mappings = [], me_allowed = []\<rparr>"

definition sample_message :: mqtt_message where
  "sample_message = \<lparr>mq_topic = ''a/x'', mq_payload = [], mq_response_topic = None, mq_correlation = None, mq_ids = []\<rparr>"

lemma fanout_once_witness:
  "mset (called (deliver_copies sample_mqtt_env (number_routes (case build_routes [sample_mqtt_class] of Inr rs \<Rightarrow> rs | Inl _ \<Rightarrow> []))
      sample_message [[2], [1]] \<lparr>ms_world = 0, ms_log = [], ms_warned = [], ms_capped = False\<rparr>)) =
   {#(''Sensors'', ''one''), (''Sensors'', ''all'')#}"
proof -
  let ?st = "\<lparr>ms_world = 0, ms_log = [], ms_warned = [], ms_capped = False\<rparr> :: nat mqtt_state"
  have "(case build_routes [sample_mqtt_class] of
      Inr rs \<Rightarrow> matching_ids (number_routes rs) (mq_topic sample_message) = [1, 2] \<and>
        map mr_handler (filter (\<lambda>r. topic_matches (mi_topic (mr_info r)) (mq_topic sample_message) \<and>
          takes sample_mqtt_env sample_message r) (number_routes rs)) = [(''Sensors'', ''one''), (''Sensors'', ''all'')]
    | Inl _ \<Rightarrow> False)" by code_simp
  then obtain rs where rs: "build_routes [sample_mqtt_class] = Inr rs"
    and ids: "matching_ids (number_routes rs) (mq_topic sample_message) = [1, 2]"
    and wanted: "map mr_handler (filter (\<lambda>r. topic_matches (mi_topic (mr_info r)) (mq_topic sample_message) \<and>
          takes sample_mqtt_env sample_message r) (number_routes rs)) = [(''Sensors'', ''one''), (''Sensors'', ''all'')]"
    by (cases "build_routes [sample_mqtt_class]") auto
  have "calm_env sample_mqtt_env" by (simp add: calm_env_def sample_mqtt_env_def failing_def)
  moreover have "mset (concat [[2], [1]]) = mset (matching_ids (number_routes rs) (mq_topic sample_message))" unfolding ids by simp
  ultimately have "mset (called (deliver_copies sample_mqtt_env (number_routes rs) sample_message [[2], [1]] ?st)) =
      mset (called ?st) + mset (map mr_handler (filter (\<lambda>r. topic_matches (mi_topic (mr_info r)) (mq_topic sample_message) \<and>
          takes sample_mqtt_env sample_message r) (number_routes rs)))"
    by (rule fanout_once [OF rs]) simp
  then show ?thesis unfolding rs wanted sum.case by (simp add: called_def)
qed

end
