(* ===== verification/Lmdb_Store.thy ===== *)
theory Lmdb_Store
  imports Shared_Memory
begin

text \<open>
  The shared store of the LMDB starter (\<open>xime/starters/lmdb/_store.py\<close>, \<open>_env.py\<close>): tables of values with an
  expiry, spread over files by a hash of the key, with a budget for the sum of the file sizes and a bounded retry
  when a file is full or was resized by another process. A transaction of LMDB is atomic: it happens or has no
  effect; which of the two, and why not, is the fate of an attempt. An instant is a number, and a stored entry is
  the pair of its expiry and its bytes (the expiry is eight bytes in front of the value in the file).
\<close>

section \<open>Declarations\<close>

datatype stamp = Until int | Never

datatype store_exn = StoreBad string | StoreUnavailable | StoreFull | StoreOverflow

text \<open>
  A time to live; what is neither an \<open>int\<close> nor a \<open>float\<close> is refused before. \<open>Forever\<close> is the infinite float and
  \<open>NotANumber\<close> the float nan, which passes the check since \<open>nan <= 0\<close> is false; a deadline made of either
  never compares as past.
\<close>

datatype ttl = Ttl int | Forever | NotANumber

record store_decl =
  sd_name :: string
  sd_ttl :: ttl
  sd_parts :: nat

definition name_start :: "char \<Rightarrow> bool" where
  "name_start c \<longleftrightarrow> is_digit c \<or> is_upper c \<or> 97 \<le> (of_char c :: nat) \<and> (of_char c :: nat) \<le> 122"

definition name_rest :: "char \<Rightarrow> bool" where
  "name_rest c \<longleftrightarrow> name_start c \<or> c \<in> {CHR ''.'', CHR ''_'', CHR ''-''}"

text \<open>\<open>$\<close> also matches before a final newline.\<close>

definition store_name_matches :: "string \<Rightarrow> bool" where
  "store_name_matches n \<longleftrightarrow>
     (let m = (if n \<noteq> [] \<and> last n = CHR 0x0A then butlast n else n)
      in m \<noteq> [] \<and> name_start (hd m) \<and> list_all name_rest (tl m))"

definition validate_ttl :: "ttl \<Rightarrow> store_exn + ttl" where
  "validate_ttl t = (case t of Ttl n \<Rightarrow> if n \<le> 0 then Inl (StoreBad ''ttl'') else Inr t | _ \<Rightarrow> Inr t)"

definition declare_store :: "string \<Rightarrow> ttl \<Rightarrow> int \<Rightarrow> store_exn + store_decl" where
  "declare_store name t parts =
     (if \<not> store_name_matches name then Inl (StoreBad ''name'')
      else sbind (validate_ttl t) (\<lambda>t.
        if parts < 1 then Inl (StoreBad ''parts'') else Inr \<lparr>sd_name = name, sd_ttl = t, sd_parts = nat parts\<rparr>))"

section \<open>Files and the budget\<close>

type_synonym store_file = "string \<times> nat"

type_synonym entry = "stamp \<times> byte list"

record store_env =
  se_map_size :: int
  se_total_max :: int
  se_sizes :: "(store_file, int) dict"
  se_open :: "store_file list"
  se_checked :: "string list"

text \<open>What lies on the disk: the partition count each table was made with, and the entries of each file.\<close>

record store_disk =
  dk_parts :: "string \<Rightarrow> nat option"
  dk_data :: "store_file \<Rightarrow> string \<Rightarrow> entry option"

definition allocated_bytes :: "store_env \<Rightarrow> int" where
  "allocated_bytes s = sum_list (dvals (se_sizes s))"

definition reserve_size :: "store_file \<Rightarrow> int \<Rightarrow> store_env \<Rightarrow> store_exn + store_env" where
  "reserve_size f new s =
     (let current = dget_default 0 (se_sizes s) f
      in if se_total_max s < allocated_bytes s - current + new then Inl StoreFull
         else Inr (s\<lparr>se_sizes := dset f new (se_sizes s)\<rparr>))"

text \<open>\<open>works\<close>: whether LMDB opens the file, takes a new map size, or says its size after another process changed it.\<close>

definition open_file :: "store_file \<Rightarrow> bool \<Rightarrow> store_env \<Rightarrow> store_env \<times> (store_exn + unit)" where
  "open_file f works s =
     (case reserve_size f (se_map_size s) s of
        Inl e \<Rightarrow> (s, Inl e)
      | Inr s1 \<Rightarrow> if works then (s1\<lparr>se_open := se_open s1 @ [f]\<rparr>, Inr ()) else (s1\<lparr>se_sizes := ddel f (se_sizes s1)\<rparr>, Inl StoreUnavailable))"

definition grow_file :: "store_file \<Rightarrow> bool \<Rightarrow> store_env \<Rightarrow> store_env \<times> (store_exn + unit)" where
  "grow_file f works s =
     (let current = dget_default (se_map_size s) (se_sizes s) f
      in case reserve_size f (current * 2) s of
           Inl e \<Rightarrow> (s, Inl e)
         | Inr s1 \<Rightarrow> if works then (s1, Inr ()) else (s1\<lparr>se_sizes := dset f current (se_sizes s1)\<rparr>, Inl StoreUnavailable))"

definition adopt_size :: "store_file \<Rightarrow> int option \<Rightarrow> store_env \<Rightarrow> store_env \<times> (store_exn + unit)" where
  "adopt_size f works s =
     (case works of None \<Rightarrow> (s, Inl StoreUnavailable) | Some n \<Rightarrow> (s\<lparr>se_sizes := dset f n (se_sizes s)\<rparr>, Inr ()))"

text \<open>A table made with another number of partitions, or without a readable mark, is dropped.\<close>

definition check_parts :: "string \<Rightarrow> nat \<Rightarrow> store_disk \<Rightarrow> store_disk" where
  "check_parts table parts d =
     (if dk_parts d table = Some parts then d
      else d\<lparr>dk_parts := (dk_parts d)(table := Some parts), dk_data := (\<lambda>f. if fst f = table then (\<lambda>_. None) else dk_data d f)\<rparr>)"

definition env_for :: "store_file \<Rightarrow> nat \<Rightarrow> bool \<Rightarrow> store_env \<times> store_disk \<Rightarrow> (store_env \<times> store_disk) \<times> (store_exn + unit)" where
  "env_for f parts works sd =
     (case sd of (s, d) \<Rightarrow>
        if f \<in> set (se_open s) then ((s, d), Inr ())
        else let checked = fst f \<in> set (se_checked s);
                 d1 = (if checked then d else check_parts (fst f) parts d);
                 s1 = (if checked then s else s\<lparr>se_checked := se_checked s @ [fst f]\<rparr>)
             in case open_file f works s1 of (s2, r) \<Rightarrow> ((s2, d1), r))"

definition close_store :: "store_env \<Rightarrow> store_env" where
  "close_store s = s\<lparr>se_sizes := [], se_open := [], se_checked := []\<rparr>"

section \<open>Running an operation\<close>

text \<open>What LMDB makes of an attempt, with the outcome of the resize that follows.\<close>

datatype fate = Commits | FileFull bool | FileResized "int option" | FileBroken

type_synonym 'r store_op = "(string \<Rightarrow> entry option) \<Rightarrow> store_exn + 'r \<times> (string \<Rightarrow> entry option)"

definition max_attempts :: nat where "max_attempts = 4"

fun run_attempts :: "nat \<Rightarrow> store_file \<Rightarrow> bool \<Rightarrow> 'r store_op \<Rightarrow> fate list \<Rightarrow> store_env \<times> store_disk \<Rightarrow>
    (store_env \<times> store_disk) \<times> (store_exn + 'r)" where
  "run_attempts 0 f writes op fates sd = (sd, Inl StoreUnavailable)"
| "run_attempts (Suc n) f writes op fates (s, d) =
     (case (case fates of [] \<Rightarrow> Commits | x # _ \<Rightarrow> x) of
        Commits \<Rightarrow>
          (case op (dk_data d f) of
             Inr (r, m) \<Rightarrow> ((s, if writes then d\<lparr>dk_data := (dk_data d)(f := m)\<rparr> else d), Inr r)
           | Inl (StoreBad e) \<Rightarrow> ((s, d), Inl (StoreBad e))
           | Inl _ \<Rightarrow> ((s, d), Inl StoreUnavailable))
      | FileResized extent \<Rightarrow>
          (case adopt_size f extent s of
             (s1, Inl e) \<Rightarrow> ((s1, d), Inl e)
           | (s1, Inr _) \<Rightarrow> run_attempts n f writes op (tl fates) (s1, d))
      | FileFull works \<Rightarrow>
          if writes then
            (case grow_file f works s of
               (s1, Inl e) \<Rightarrow> ((s1, d), Inl e)
             | (s1, Inr _) \<Rightarrow> run_attempts n f writes op (tl fates) (s1, d))
          else ((s, d), Inl StoreUnavailable)
      | FileBroken \<Rightarrow> ((s, d), Inl StoreUnavailable))"

text \<open>The partition of a key; \<open>crc\<close> is \<open>zlib.crc32\<close> of its bytes.\<close>

definition partition_of :: "(string \<Rightarrow> nat) \<Rightarrow> store_decl \<Rightarrow> string \<Rightarrow> nat" where
  "partition_of crc D key = (if sd_parts D = 1 then 0 else crc key mod sd_parts D)"

definition file_of_key :: "(string \<Rightarrow> nat) \<Rightarrow> store_decl \<Rightarrow> string \<Rightarrow> store_file" where
  "file_of_key crc D key = (sd_name D, partition_of crc D key)"

text \<open>\<open>opens\<close>: whether the file opens, should it have to; \<open>fates\<close>: what becomes of each attempt.\<close>

definition run_store :: "(string \<Rightarrow> nat) \<Rightarrow> store_decl \<Rightarrow> string \<Rightarrow> bool \<Rightarrow> 'r store_op \<Rightarrow> bool \<Rightarrow> fate list \<Rightarrow>
    store_env \<times> store_disk \<Rightarrow> (store_env \<times> store_disk) \<times> (store_exn + 'r)" where
  "run_store crc D key writes op opens fates sd =
     (let f = file_of_key crc D key
      in case env_for f (sd_parts D) opens sd of
           (sd1, Inl e) \<Rightarrow> (sd1, Inl e)
         | (sd1, Inr _) \<Rightarrow> run_attempts max_attempts f writes op fates sd1)"

section \<open>The operations\<close>

definition raw_key :: "string \<Rightarrow> store_exn + string" where
  "raw_key key = (if key = [] then Inl (StoreBad ''key'') else Inr key)"

definition deadline :: "store_decl \<Rightarrow> ttl option \<Rightarrow> int \<Rightarrow> store_exn + stamp" where
  "deadline D t now =
     sbind (case t of None \<Rightarrow> Inr (sd_ttl D) | Some t \<Rightarrow> validate_ttl t) (\<lambda>t.
       Inr (case t of Ttl n \<Rightarrow> Until (now + n) | _ \<Rightarrow> Never))"

definition expired :: "stamp \<Rightarrow> int \<Rightarrow> bool" where
  "expired st now = (case st of Until t \<Rightarrow> t \<le> now | Never \<Rightarrow> False)"

text \<open>\<open>CounterStore\<close>: a value is eight bytes, signed, little-endian; a number that does not fit raises.\<close>

definition counter_encode :: "int \<Rightarrow> store_exn + byte list" where
  "counter_encode v = (if - (2 ^ 63) \<le> v \<and> v < 2 ^ 63 then Inr (le_bytes 8 (nat (v mod 2 ^ 64))) else Inl StoreOverflow)"

definition counter_decode :: "byte list \<Rightarrow> int" where
  "counter_decode bs =
     (let n = int (le_value bs); w = 2 ^ (8 * length bs)
      in if bs \<noteq> [] \<and> w \<le> 2 * n then n - w else n)"

definition get_op :: "(byte list \<Rightarrow> 'v) \<Rightarrow> int \<Rightarrow> string \<Rightarrow> 'v option store_op" where
  "get_op decode now k m =
     (case m k of
        None \<Rightarrow> Inr (None, m)
      | Some (st, bs) \<Rightarrow> if expired st now then Inr (None, m) else Inr (Some (decode bs), m))"

definition set_op :: "string \<Rightarrow> entry \<Rightarrow> unit store_op" where
  "set_op k blob m = Inr ((), m(k \<mapsto> blob))"

definition delete_op :: "string \<Rightarrow> unit store_op" where
  "delete_op k m = Inr ((), m(k := None))"

definition claim_op :: "int \<Rightarrow> string \<Rightarrow> entry \<Rightarrow> bool store_op" where
  "claim_op now k blob m =
     (case m k of
        Some (st, bs) \<Rightarrow> if \<not> expired st now then Inr (False, m) else Inr (True, m(k \<mapsto> blob))
      | None \<Rightarrow> Inr (True, m(k \<mapsto> blob)))"

definition incr_op :: "int \<Rightarrow> string \<Rightarrow> int \<Rightarrow> stamp \<Rightarrow> int store_op" where
  "incr_op now k inc st m =
     (let current = (case m k of Some (st', bs) \<Rightarrow> if \<not> expired st' now then counter_decode bs else 0 | None \<Rightarrow> 0);
          updated = current + inc
      in sbind (counter_encode updated) (\<lambda>bs. Inr (updated, m(k \<mapsto> (st, bs)))))"

datatype counter_call =
    Get string
  | Put string int "ttl option"
  | Del string
  | Claim string int "ttl option"
  | Incr string int "ttl option"

datatype counter_result = GotNone | Got int | Stored | Removed | Claimed bool | Counted int

text \<open>
  A call reads the clock for its deadline and again inside of the transaction (\<open>now\<close>, \<open>later\<close>).
\<close>

record call_context =
  cc_now :: int
  cc_later :: int
  cc_opens :: bool
  cc_fates :: "fate list"

definition run_in :: "(string \<Rightarrow> nat) \<Rightarrow> store_decl \<Rightarrow> call_context \<Rightarrow> string \<Rightarrow> bool \<Rightarrow> 'r store_op \<Rightarrow>
    store_env \<times> store_disk \<Rightarrow> (store_env \<times> store_disk) \<times> (store_exn + 'r)" where
  "run_in crc D c key writes op sd = run_store crc D key writes op (cc_opens c) (cc_fates c) sd"

definition returning :: "('r \<Rightarrow> counter_result) \<Rightarrow> (store_env \<times> store_disk) \<times> (store_exn + 'r) \<Rightarrow>
    (store_env \<times> store_disk) \<times> (store_exn + counter_result)" where
  "returning f x = (fst x, case snd x of Inl e \<Rightarrow> Inl e | Inr r \<Rightarrow> Inr (f r))"

fun call_store :: "(string \<Rightarrow> nat) \<Rightarrow> store_decl \<Rightarrow> counter_call \<Rightarrow> call_context \<Rightarrow> store_env \<times> store_disk \<Rightarrow>
    (store_env \<times> store_disk) \<times> (store_exn + counter_result)" where
  "call_store crc D (Get key) c sd =
     (case raw_key key of
        Inl e \<Rightarrow> (sd, Inl e)
      | Inr k \<Rightarrow> returning (\<lambda>r. case r of None \<Rightarrow> GotNone | Some v \<Rightarrow> Got v) (run_in crc D c key False (get_op counter_decode (cc_later c) k) sd))"
| "call_store crc D (Put key v t) c sd =
     (case sbind (counter_encode v) (\<lambda>bs. sbind (raw_key key) (\<lambda>k. sbind (deadline D t (cc_now c)) (\<lambda>st. Inr (k, st, bs)))) of
        Inl e \<Rightarrow> (sd, Inl e)
      | Inr (k, st, bs) \<Rightarrow> returning (\<lambda>_. Stored) (run_in crc D c key True (set_op k (st, bs)) sd))"
| "call_store crc D (Del key) c sd =
     (case raw_key key of
        Inl e \<Rightarrow> (sd, Inl e)
      | Inr k \<Rightarrow> returning (\<lambda>_. Removed) (run_in crc D c key True (delete_op k) sd))"
| "call_store crc D (Claim key v t) c sd =
     (case sbind (counter_encode v) (\<lambda>bs. sbind (raw_key key) (\<lambda>k. sbind (deadline D t (cc_now c)) (\<lambda>st. Inr (k, st, bs)))) of
        Inl e \<Rightarrow> (sd, Inl e)
      | Inr (k, st, bs) \<Rightarrow> returning Claimed (run_in crc D c key True (claim_op (cc_later c) k (st, bs)) sd))"
| "call_store crc D (Incr key inc t) c sd =
     (case sbind (raw_key key) (\<lambda>k. sbind (deadline D t (cc_now c)) (\<lambda>st. Inr (k, st))) of
        Inl e \<Rightarrow> (sd, Inl e)
      | Inr (k, st) \<Rightarrow> returning Counted (run_in crc D c key True (incr_op (cc_later c) k inc st) sd))"

section \<open>The store is a table of values with an expiry\<close>

type_synonym ttl_map = "string \<Rightarrow> (int \<times> stamp) option"

definition live :: "ttl_map \<Rightarrow> int \<Rightarrow> string \<Rightarrow> int option" where
  "live m now k = (case m k of None \<Rightarrow> None | Some (v, Never) \<Rightarrow> Some v | Some (v, Until t) \<Rightarrow> if now < t then Some v else None)"

definition stamp_of :: "store_decl \<Rightarrow> ttl option \<Rightarrow> int \<Rightarrow> stamp" where
  "stamp_of D t now = (case (case t of None \<Rightarrow> sd_ttl D | Some t \<Rightarrow> t) of Ttl n \<Rightarrow> Until (now + n) | _ \<Rightarrow> Never)"

text \<open>What a call promises: reads see what has not expired, writes replace value and expiry, a claim takes a free key only.\<close>

fun spec_call :: "store_decl \<Rightarrow> counter_call \<Rightarrow> call_context \<Rightarrow> ttl_map \<Rightarrow> counter_result \<times> ttl_map" where
  "spec_call D (Get k) c m = (case live m (cc_later c) k of None \<Rightarrow> GotNone | Some v \<Rightarrow> Got v, m)"
| "spec_call D (Put k v t) c m = (Stored, m(k \<mapsto> (v, stamp_of D t (cc_now c))))"
| "spec_call D (Del k) c m = (Removed, m(k := None))"
| "spec_call D (Claim k v t) c m =
     (if live m (cc_later c) k = None then (Claimed True, m(k \<mapsto> (v, stamp_of D t (cc_now c)))) else (Claimed False, m))"
| "spec_call D (Incr k inc t) c m =
     (let n = (case live m (cc_later c) k of None \<Rightarrow> 0 | Some v \<Rightarrow> v) + inc in (Counted n, m(k \<mapsto> (n, stamp_of D t (cc_now c)))))"

text \<open>
  When a call may raise: for arguments or a result the store does not take, and when something outside fails, which
  is the budget, the opening of the file or an attempt of LMDB.
\<close>

definition bad_ttl :: "ttl option \<Rightarrow> bool" where
  "bad_ttl t \<longleftrightarrow> (case t of Some (Ttl n) \<Rightarrow> n \<le> 0 | _ \<Rightarrow> False)"

definition too_big :: "int \<Rightarrow> bool" where
  "too_big v \<longleftrightarrow> v < - (2 ^ 63) \<or> 2 ^ 63 \<le> v"

fun bad_call :: "counter_call \<Rightarrow> call_context \<Rightarrow> ttl_map \<Rightarrow> bool" where
  "bad_call (Get k) c m = (k = [])"
| "bad_call (Del k) c m = (k = [])"
| "bad_call (Put k v t) c m = (k = [] \<or> bad_ttl t \<or> too_big v)"
| "bad_call (Claim k v t) c m = (k = [] \<or> bad_ttl t \<or> too_big v)"
| "bad_call (Incr k inc t) c m =
     (k = [] \<or> bad_ttl t \<or> too_big ((case live m (cc_later c) k of None \<Rightarrow> 0 | Some v \<Rightarrow> v) + inc))"

definition may_raise :: "counter_call \<Rightarrow> call_context \<Rightarrow> ttl_map \<Rightarrow> store_exn \<Rightarrow> bool" where
  "may_raise call c m e \<longleftrightarrow> bad_call call c m \<or> e = StoreFull \<or> \<not> cc_opens c \<or> cc_fates c \<noteq> []"

text \<open>A call that raises had a reason to and changes nothing.\<close>

fun follows :: "store_decl \<Rightarrow> (counter_call \<times> call_context) list \<Rightarrow> (store_exn + counter_result) list \<Rightarrow> ttl_map \<Rightarrow> ttl_map option" where
  "follows D [] [] m = Some m"
| "follows D ((call, c) # calls) (r # rs) m =
     (case r of
        Inl e \<Rightarrow> if may_raise call c m e then follows D calls rs m else None
      | Inr v \<Rightarrow> (case spec_call D call c m of (v', m') \<Rightarrow> if v = v' then follows D calls rs m' else None))"
| "follows D _ _ m = None"

fun run_calls :: "(string \<Rightarrow> nat) \<Rightarrow> store_decl \<Rightarrow> (counter_call \<times> call_context) list \<Rightarrow> store_env \<times> store_disk \<Rightarrow>
    (store_exn + counter_result) list \<times> (store_env \<times> store_disk)" where
  "run_calls crc D [] sd = ([], sd)"
| "run_calls crc D ((call, c) # calls) sd =
     (case call_store crc D call c sd of (sd1, r) \<Rightarrow> (case run_calls crc D calls sd1 of (rs, sd2) \<Rightarrow> (r # rs, sd2)))"

definition table_of :: "(string \<Rightarrow> nat) \<Rightarrow> store_decl \<Rightarrow> store_disk \<Rightarrow> ttl_map" where
  "table_of crc D d = (\<lambda>k. map_option (\<lambda>(st, bs). (counter_decode bs, st)) (dk_data d (file_of_key crc D k) k))"

text \<open>
  What a table holds for the code that declares it: a table marked with another partition count, or not marked, counts
  as empty, since its first use in a process drops it. A process that has checked or opened the table has seen its mark.
\<close>

definition contents :: "(string \<Rightarrow> nat) \<Rightarrow> store_decl \<Rightarrow> store_disk \<Rightarrow> ttl_map" where
  "contents crc D d = (if dk_parts d (sd_name D) = Some (sd_parts D) then table_of crc D d else (\<lambda>_. None))"

definition mark_seen :: "store_decl \<Rightarrow> store_env \<Rightarrow> store_disk \<Rightarrow> bool" where
  "mark_seen D s d \<longleftrightarrow> sd_name D \<in> set (se_checked s) \<or> sd_name D \<in> fst ` set (se_open s) \<longrightarrow>
     dk_parts d (sd_name D) = Some (sd_parts D)"

definition checked_disk :: "store_decl \<Rightarrow> store_disk \<Rightarrow> store_disk" where
  "checked_disk D d = check_parts (sd_name D) (sd_parts D) d"

lemma contents_checked: "contents crc D d = table_of crc D (checked_disk D d)"
  by (simp add: contents_def checked_disk_def check_parts_def table_of_def file_of_key_def)

lemma contents_marked: "dk_parts d (sd_name D) = Some (sd_parts D) \<Longrightarrow> contents crc D d = table_of crc D d"
  by (simp add: contents_def)

lemma counter_roundtrip: "counter_encode v = Inr bs \<Longrightarrow> counter_decode bs = v"
proof -
  assume "counter_encode v = Inr bs"
  then have v: "- (2 ^ 63) \<le> v" "v < 2 ^ 63" and bs: "bs = le_bytes 8 (nat (v mod 2 ^ 64))"
    by (auto simp: counter_encode_def split: if_splits)
  have p: "(256::nat) ^ 8 = 2 ^ 64" by simp
  have n: "nat (v mod 2 ^ 64) mod 256 ^ 8 = nat (v mod 2 ^ 64)" by (simp add: nat_mod_distrib p nat_less_iff)
  have val: "int (le_value bs) = v mod 2 ^ 64" by (simp only: bs le_value_bytes n) simp
  have l: "length bs = 8" "bs \<noteq> []" by (auto simp: bs simp flip: length_0_conv)
  show ?thesis
  proof (cases "0 \<le> v")
    case True
    then have "v mod 2 ^ 64 = v" using v by simp
    then show ?thesis using v l val by (simp add: counter_decode_def Let_def)
  next
    case False
    have "v mod 2 ^ 64 = (v + 2 ^ 64) mod 2 ^ 64" by simp
    also have "\<dots> = v + 2 ^ 64" using v False by (intro mod_pos_pos_trivial) simp_all
    finally have "v mod 2 ^ 64 = v + 2 ^ 64" .
    then show ?thesis using v l val by (simp add: counter_decode_def Let_def)
  qed
qed

lemma run_attempts_effect:
  assumes "run_attempts n f writes op fates (s, d) = ((s', d'), r)"
  shows "dk_parts d' = dk_parts d \<and> (case r of
      Inl _ \<Rightarrow> dk_data d' = dk_data d
    | Inr v \<Rightarrow> \<exists>m. op (dk_data d f) = Inr (v, m) \<and> dk_data d' = (if writes then (dk_data d)(f := m) else dk_data d))"
  using assms
proof (induction n arbitrary: fates s)
  case (Suc n)
  define x where "x = (case fates of [] \<Rightarrow> Commits | x # _ \<Rightarrow> x)"
  show ?case
  proof (cases x)
    case Commits
    then show ?thesis using Suc.prems
      by (auto simp: x_def [symmetric] split: sum.splits prod.splits store_exn.splits if_splits)
  next
    case (FileFull works)
    obtain s1 o1 where g: "grow_file f works s = (s1, o1)" by fastforce
    show ?thesis
    proof (cases "writes \<and> (\<exists>u. o1 = Inr u)")
      case True
      then have "run_attempts n f writes op (tl fates) (s1, d) = ((s', d'), r)"
        using Suc.prems FileFull g by (auto simp: x_def [symmetric])
      then show ?thesis by (rule Suc.IH)
    next
      case False
      then show ?thesis using Suc.prems FileFull g by (cases o1) (auto simp: x_def [symmetric] split: if_splits)
    qed
  next
    case (FileResized extent)
    obtain s1 o1 where g: "adopt_size f extent s = (s1, o1)" by fastforce
    show ?thesis using Suc.prems Suc.IH [of "tl fates" s1] FileResized g by (cases o1) (auto simp: x_def [symmetric])
  next
    case FileBroken
    then show ?thesis using Suc.prems by (auto simp: x_def [symmetric])
  qed
qed auto

lemma env_for_checks:
  assumes "mark_seen D s d" "env_for (file_of_key crc D key) (sd_parts D) works (s, d) = ((s', d'), r)"
  shows "d' = checked_disk D d"
proof (cases "file_of_key crc D key \<in> set (se_open s) \<or> sd_name D \<in> set (se_checked s)")
  case True
  then have "d' = d" using assms(2) by (auto simp: env_for_def Let_def file_of_key_def split: if_splits prod.splits)
  moreover have "sd_name D \<in> set (se_checked s) \<or> sd_name D \<in> fst ` set (se_open s)"
    using True by (force simp: file_of_key_def)
  then have "dk_parts d (sd_name D) = Some (sd_parts D)" using assms(1) by (simp only: mark_seen_def simp_thms)
  ultimately show ?thesis by (simp add: checked_disk_def check_parts_def)
next
  case False
  then show ?thesis using assms(2) by (auto simp: env_for_def Let_def file_of_key_def checked_disk_def split: if_splits prod.splits)
qed

lemma checked_disk_marked: "dk_parts (checked_disk D d) (sd_name D) = Some (sd_parts D)"
  by (simp add: checked_disk_def check_parts_def)

lemma run_in_effect:
  assumes "mark_seen D s d" "run_in crc D c key writes op (s, d) = ((s', d'), r)"
  shows "dk_parts d' (sd_name D) = Some (sd_parts D)"
    and "r = Inl e \<Longrightarrow> dk_data d' = dk_data (checked_disk D d)"
    and "r = Inr v \<Longrightarrow> \<exists>m. op (dk_data (checked_disk D d) (file_of_key crc D key)) = Inr (v, m) \<and>
      dk_data d' = (if writes then (dk_data (checked_disk D d))(file_of_key crc D key := m) else dk_data (checked_disk D d))"
proof -
  let ?f = "file_of_key crc D key" and ?d = "checked_disk D d"
  obtain s1 d1 o1 where e: "env_for ?f (sd_parts D) (cc_opens c) (s, d) = ((s1, d1), o1)" by (metis prod_cases3 surj_pair)
  have d1: "d1 = ?d" by (rule env_for_checks [OF assms(1) e])
  have "dk_parts d' = dk_parts ?d \<and> (case r of
      Inl _ \<Rightarrow> dk_data d' = dk_data ?d
    | Inr v \<Rightarrow> \<exists>m. op (dk_data ?d ?f) = Inr (v, m) \<and> dk_data d' = (if writes then (dk_data ?d)(?f := m) else dk_data ?d))"
  proof (cases o1)
    case (Inl x)
    then have "d' = ?d" "r = Inl x" using assms(2) e d1 by (auto simp: run_in_def run_store_def Let_def)
    then show ?thesis by simp
  next
    case (Inr u)
    then have "run_attempts max_attempts ?f writes op (cc_fates c) (s1, ?d) = ((s', d'), r)"
      using assms(2) e d1 by (simp add: run_in_def run_store_def Let_def)
    then show ?thesis by (rule run_attempts_effect)
  qed
  then show "dk_parts d' (sd_name D) = Some (sd_parts D)" "r = Inl e \<Longrightarrow> dk_data d' = dk_data ?d"
    "r = Inr v \<Longrightarrow> \<exists>m. op (dk_data ?d ?f) = Inr (v, m) \<and> dk_data d' = (if writes then (dk_data ?d)(?f := m) else dk_data ?d)"
    using checked_disk_marked [of D d] by auto
qed


lemma calm_attempt: "run_attempts (Suc n) f writes op [] (s, d) = (sd', Inl e) \<Longrightarrow> \<exists>x. op (dk_data d f) = Inl x"
  by (auto split: sum.splits prod.splits store_exn.splits)

lemma bad_args:
  "raw_key key = Inl e \<Longrightarrow> key = []" "deadline D t now = Inl e \<Longrightarrow> bad_ttl t" "counter_encode v = Inl e \<Longrightarrow> too_big v"
proof -
  show "raw_key key = Inl e \<Longrightarrow> key = []" by (simp add: raw_key_def split: if_splits)
  show "deadline D t now = Inl e \<Longrightarrow> bad_ttl t"
    by (cases t; cases "the t") (auto simp: deadline_def validate_ttl_def bad_ttl_def split: if_splits)
  show "counter_encode v = Inl e \<Longrightarrow> too_big v" by (auto simp: counter_encode_def too_big_def split: if_splits)
qed

lemma bad_arguments:
  "sbind (counter_encode v) (\<lambda>bs. sbind (raw_key key) (\<lambda>k. sbind (deadline D t now) (\<lambda>st. Inr (k, st, bs)))) = Inl e \<Longrightarrow>
    key = [] \<or> bad_ttl t \<or> too_big v"
  "sbind (raw_key key) (\<lambda>k. sbind (deadline D t now) (\<lambda>st. Inr (k, st))) = Inl e \<Longrightarrow> key = [] \<or> bad_ttl t"
  by (auto simp: sbind_def split: sum.splits dest: bad_args)

lemma run_in_raises:
  assumes "mark_seen D s d" "run_in crc D c key writes op (s, d) = (sd', Inl e)"
  shows "e = StoreFull \<or> \<not> cc_opens c \<or> cc_fates c \<noteq> [] \<or> (\<exists>x. op (dk_data (checked_disk D d) (file_of_key crc D key)) = Inl x)"
proof -
  let ?f = "file_of_key crc D key" and ?d = "checked_disk D d"
  obtain s1 d1 o1 where env: "env_for ?f (sd_parts D) (cc_opens c) (s, d) = ((s1, d1), o1)" by (metis prod_cases3 surj_pair)
  have d1: "d1 = ?d" by (rule env_for_checks [OF assms(1) env])
  show ?thesis
  proof (cases o1)
    case (Inl x)
    then have "e = x" using assms(2) env by (simp add: run_in_def run_store_def Let_def)
    then show ?thesis
      using env Inl by (auto simp: env_for_def open_file_def reserve_size_def Let_def split: if_splits prod.splits)
  next
    case (Inr u)
    then have run: "run_attempts (Suc 3) ?f writes op (cc_fates c) (s1, ?d) = (sd', Inl e)"
      using assms(2) env d1 by (simp add: run_in_def run_store_def Let_def max_attempts_def)
    show ?thesis
    proof (cases "cc_fates c")
      case Nil
      show ?thesis using calm_attempt [OF run [unfolded Nil]] by blast
    qed simp
  qed
qed

lemma table_of_upd:
  assumes "dk_data d' = (dk_data d)(file_of_key crc D k := (dk_data d (file_of_key crc D k))(k := e))"
  shows "table_of crc D d' = (table_of crc D d)(k := map_option (\<lambda>(st, bs). (counter_decode bs, st)) e)"
  by (rule ext) (auto simp: table_of_def assms)

lemma table_of_same: "dk_data d' = dk_data d \<Longrightarrow> table_of crc D d' = table_of crc D d"
  by (simp add: table_of_def)

lemma live_table:
  "live (table_of crc D d) now k =
    (case dk_data d (file_of_key crc D k) k of
       Some (st, bs) \<Rightarrow> if expired st now then None else Some (counter_decode bs) | None \<Rightarrow> None)"
  by (auto simp: live_def table_of_def expired_def split: option.splits stamp.splits)

lemma deadline_stamp: "deadline D t now = Inr st \<Longrightarrow> st = stamp_of D t now"
proof -
  assume "deadline D t now = Inr st"
  then show ?thesis
    by (cases t; cases "the t") (auto simp: deadline_def stamp_of_def validate_ttl_def split: if_splits)
qed

lemma raw_key_same: "raw_key key = Inr k \<Longrightarrow> k = key"
  by (simp add: raw_key_def split: if_splits)

lemma returning_eq: "returning g x = (sd, r) \<longleftrightarrow> (\<exists>r0. x = (sd, r0) \<and> r = (case r0 of Inl e \<Rightarrow> Inl e | Inr v \<Rightarrow> Inr (g v)))"
  by (cases x) (auto simp: returning_def)

lemma returning_effect:
  assumes parts: "mark_seen D s d"
    and run: "returning g (run_in crc D c k writes op (s, d)) = ((s', d'), r)"
    and spec: "\<And>v m. op (dk_data (checked_disk D d) (file_of_key crc D k)) = Inr (v, m) \<Longrightarrow>
      \<exists>e. (writes \<longrightarrow> m = (dk_data (checked_disk D d) (file_of_key crc D k))(k := e)) \<and>
        (g v, (if writes then (table_of crc D (checked_disk D d))(k := map_option (\<lambda>(st, bs). (counter_decode bs, st)) e) else table_of crc D (checked_disk D d))) = S"
    and bad: "\<And>x. op (dk_data (checked_disk D d) (file_of_key crc D k)) = Inl x \<Longrightarrow> bad_call call c (contents crc D d)"
  shows "mark_seen D s' d' \<and> (case r of
      Inl e \<Rightarrow> contents crc D d' = contents crc D d \<and> may_raise call c (contents crc D d) e
    | Inr v \<Rightarrow> S = (v, contents crc D d'))"
proof -
  let ?f = "file_of_key crc D k" and ?d = "checked_disk D d"
  obtain r0 where r0: "run_in crc D c k writes op (s, d) = ((s', d'), r0)" and r: "r = (case r0 of Inl e \<Rightarrow> Inl e | Inr v \<Rightarrow> Inr (g v))"
    using run unfolding returning_eq by blast
  note eff = run_in_effect [OF parts r0]
  have after: "mark_seen D s' d'" "contents crc D d' = table_of crc D d'"
    using eff(1) by (simp_all add: mark_seen_def contents_marked)
  show ?thesis
  proof (cases r0)
    case (Inl e)
    then have "r = Inl e" using r by simp
    moreover have "may_raise call c (contents crc D d) e"
      using run_in_raises [OF parts r0 [unfolded Inl]] bad unfolding may_raise_def by blast
    moreover have "table_of crc D d' = table_of crc D ?d" by (rule table_of_same [OF eff(2) [OF Inl]])
    ultimately show ?thesis by (simp only: sum.case simp_thms after contents_checked [of crc D d])
  next
    case (Inr v)
    obtain m where m: "op (dk_data ?d ?f) = Inr (v, m)" "dk_data d' = (if writes then (dk_data ?d)(?f := m) else dk_data ?d)"
      using eff(3) [OF Inr] by blast
    from spec [OF m(1)] obtain e where e: "writes \<longrightarrow> m = (dk_data ?d ?f)(k := e)"
      "(g v, (if writes then (table_of crc D ?d)(k := map_option (\<lambda>(st, bs). (counter_decode bs, st)) e) else table_of crc D ?d)) = S"
      by (elim exE conjE) (rule that)
    have "table_of crc D d' = (if writes then (table_of crc D ?d)(k := map_option (\<lambda>(st, bs). (counter_decode bs, st)) e) else table_of crc D ?d)"
    proof (cases writes)
      case True
      then have "dk_data d' = (dk_data ?d)(?f := (dk_data ?d ?f)(k := e))" using m(2) e(1) by simp
      from table_of_upd [OF this] True show ?thesis by (simp only: if_True)
    next
      case False
      then have "dk_data d' = dk_data ?d" using m(2) by simp
      from table_of_same [OF this] False show ?thesis by (simp only: if_False)
    qed
    then have "S = (g v, table_of crc D d')" using e(2) by simp
    moreover have "r = Inr (g v)" using Inr r by simp
    ultimately show ?thesis by (simp only: sum.case simp_thms after contents_checked [of crc D d])
  qed
qed

lemma call_store_spec:
  assumes parts: "mark_seen D s d" and call: "call_store crc D x c (s, d) = ((s', d'), r)"
  shows "mark_seen D s' d' \<and> (case r of
      Inl e \<Rightarrow> contents crc D d' = contents crc D d \<and> may_raise x c (contents crc D d) e
    | Inr v \<Rightarrow> spec_call D x c (contents crc D d) = (v, contents crc D d'))"
proof (cases x)
  case (Get key)
  show ?thesis
  proof (cases "raw_key key")
    case (Inr k)
    note k = raw_key_same [OF Inr]
    show ?thesis using call unfolding Get call_store.simps Inr sum.case k
      by (rule returning_effect [OF parts]) (auto simp: get_op_def live_table contents_checked split: option.splits if_splits)
  qed (use call parts Get in \<open>auto simp: may_raise_def dest: bad_args bad_arguments\<close>)
next
  case (Put key v t)
  show ?thesis
  proof (cases "sbind (counter_encode v) (\<lambda>bs. sbind (raw_key key) (\<lambda>k. sbind (deadline D t (cc_now c)) (\<lambda>st. Inr (k, st, bs))))")
    case (Inr p)
    then obtain bs st where p: "counter_encode v = Inr bs" "raw_key key = Inr key" "deadline D t (cc_now c) = Inr st" "p = (key, st, bs)"
      by (auto simp: err_simps dest: raw_key_same)
    show ?thesis using call unfolding Put call_store.simps Inr p(4) sum.case prod.case
      by (rule returning_effect [OF parts])
        (auto simp: set_op_def contents_checked deadline_stamp [OF p(3)] counter_roundtrip [OF p(1)] intro!: exI [of _ "Some (st, bs)"])
  qed (use call parts Put in \<open>auto simp: may_raise_def dest: bad_args bad_arguments\<close>)
next
  case (Del key)
  show ?thesis
  proof (cases "raw_key key")
    case (Inr k)
    note k = raw_key_same [OF Inr]
    show ?thesis using call unfolding Del call_store.simps Inr sum.case k
      by (rule returning_effect [OF parts]) (auto simp: delete_op_def contents_checked intro!: exI [of _ None])
  qed (use call parts Del in \<open>auto simp: may_raise_def dest: bad_args bad_arguments\<close>)
next
  case (Claim key v t)
  show ?thesis
  proof (cases "sbind (counter_encode v) (\<lambda>bs. sbind (raw_key key) (\<lambda>k. sbind (deadline D t (cc_now c)) (\<lambda>st. Inr (k, st, bs))))")
    case (Inr p)
    then obtain bs st where p: "counter_encode v = Inr bs" "raw_key key = Inr key" "deadline D t (cc_now c) = Inr st" "p = (key, st, bs)"
      by (auto simp: err_simps dest: raw_key_same)
    let ?old = "dk_data (checked_disk D d) (file_of_key crc D key) key"
    show ?thesis using call unfolding Claim call_store.simps Inr p(4) sum.case prod.case
    proof (rule returning_effect [OF parts])
      fix w m assume op: "claim_op (cc_later c) key (st, bs) (dk_data (checked_disk D d) (file_of_key crc D key)) = Inr (w, m)"
      show "\<exists>e. (True \<longrightarrow> m = (dk_data (checked_disk D d) (file_of_key crc D key))(key := e)) \<and>
          (Claimed w, if True then (table_of crc D (checked_disk D d))(key := map_option (\<lambda>(st, bs). (counter_decode bs, st)) e) else table_of crc D (checked_disk D d)) =
          spec_call D (Claim key v t) c (contents crc D d)"
      proof (cases "live (table_of crc D (checked_disk D d)) (cc_later c) key = None")
        case True
        then have "w = True" "m = (dk_data (checked_disk D d) (file_of_key crc D key))(key \<mapsto> (st, bs))"
          using op by (auto simp: claim_op_def live_table split: option.splits if_splits)
        then show ?thesis using True
          by (intro exI [of _ "Some (st, bs)"]) (simp add: contents_checked deadline_stamp [OF p(3)] counter_roundtrip [OF p(1)])
      next
        case False
        then have "w = False" "m = dk_data (checked_disk D d) (file_of_key crc D key)"
          using op by (auto simp: claim_op_def live_table split: option.splits if_splits)
        then show ?thesis using False by (intro exI [of _ ?old]) (auto simp: table_of_def contents_checked)
      qed
    qed (simp add: claim_op_def split: option.splits if_splits prod.splits)
  qed (use call parts Claim in \<open>auto simp: may_raise_def dest: bad_args bad_arguments\<close>)
next
  case (Incr key inc t)
  show ?thesis
  proof (cases "sbind (raw_key key) (\<lambda>k. sbind (deadline D t (cc_now c)) (\<lambda>st. Inr (k, st)))")
    case (Inr p)
    then obtain st where p: "raw_key key = Inr key" "deadline D t (cc_now c) = Inr st" "p = (key, st)"
      by (auto simp: err_simps dest: raw_key_same)
    show ?thesis using call unfolding Incr call_store.simps Inr p(3) sum.case prod.case
    proof (rule returning_effect [OF parts])
      fix n m assume op: "incr_op (cc_later c) key inc st (dk_data (checked_disk D d) (file_of_key crc D key)) = Inr (n, m)"
      let ?cur = "case live (table_of crc D (checked_disk D d)) (cc_later c) key of None \<Rightarrow> 0 | Some v \<Rightarrow> v"
      have cur: "(case dk_data (checked_disk D d) (file_of_key crc D key) key of
          Some (st', bs) \<Rightarrow> if \<not> expired st' (cc_later c) then counter_decode bs else 0 | None \<Rightarrow> 0) = ?cur"
        by (simp add: live_table split: option.splits)
      obtain bs where bs: "counter_encode (?cur + inc) = Inr bs" "n = ?cur + inc" "m = (dk_data (checked_disk D d) (file_of_key crc D key))(key \<mapsto> (st, bs))"
        using op unfolding incr_op_def cur by (auto simp: Let_def err_simps)
      show "\<exists>e. (True \<longrightarrow> m = (dk_data (checked_disk D d) (file_of_key crc D key))(key := e)) \<and>
          (Counted n, if True then (table_of crc D (checked_disk D d))(key := map_option (\<lambda>(st, bs). (counter_decode bs, st)) e) else table_of crc D (checked_disk D d)) =
          spec_call D (Incr key inc t) c (contents crc D d)"
        by (intro exI [of _ "Some (st, bs)"]) (simp add: contents_checked bs deadline_stamp [OF p(2)] counter_roundtrip [OF bs(1)] Let_def)
    next
      fix e assume op: "incr_op (cc_later c) key inc st (dk_data (checked_disk D d) (file_of_key crc D key)) = Inl e"
      have cur: "(case dk_data (checked_disk D d) (file_of_key crc D key) key of
          Some (st', bs) \<Rightarrow> if \<not> expired st' (cc_later c) then counter_decode bs else 0 | None \<Rightarrow> 0) =
          (case live (contents crc D d) (cc_later c) key of None \<Rightarrow> 0 | Some v \<Rightarrow> v)"
        unfolding contents_checked by (simp add: live_table split: option.splits)
      have "\<exists>e. counter_encode ((case live (contents crc D d) (cc_later c) key of None \<Rightarrow> 0 | Some v \<Rightarrow> v) + inc) = Inl e"
        using op unfolding incr_op_def cur by (auto simp: Let_def sbind_def split: sum.splits)
      then show "bad_call (Incr key inc t) c (contents crc D d)" using bad_args(3) unfolding bad_call.simps by blast
    qed
  qed (use call parts Incr in \<open>auto simp: may_raise_def dest: bad_args bad_arguments\<close>)
qed

lemma run_calls_follow:
  assumes "mark_seen D s d" "run_calls crc D calls (s, d) = (rs, (s', d'))"
  shows "follows D calls rs (contents crc D d) = Some (contents crc D d')"
  using assms
proof (induction calls arbitrary: s d rs)
  case (Cons e calls)
  obtain x c where e: "e = (x, c)" by fastforce
  obtain s1 d1 r where call: "call_store crc D x c (s, d) = ((s1, d1), r)" by (metis prod_cases3 surj_pair)
  obtain rs1 where rest: "run_calls crc D calls (s1, d1) = (rs1, (s', d'))" "rs = r # rs1"
    using Cons.prems(2) by (auto simp: e call split: prod.splits)
  note sp = call_store_spec [OF Cons.prems(1) call]
  have "follows D calls rs1 (contents crc D d1) = Some (contents crc D d')" using Cons.IH [OF _ rest(1)] sp by blast
  then show ?case using sp rest(2) by (cases r) (simp_all add: e)
qed simp

text \<open>
  C34: a counter table is a table of numbers with an expiry: in every sequence of calls of a process, from its first on,
  whatever LMDB makes of the attempts, each call that returns gives what the table promises at its time and
  changes the table in that way, and each call that raises leaves its contents as they are and had a reason to raise: an
  argument or a result the store does not take, the budget, or a file or an attempt that failed; partitions, byte encoding
  and retries do not show. The contents of a table that was made with another partition count, or bears no
  readable mark, are empty: its first use in a process drops what lies there, even when that call then raises.
\<close>
theorem counter_store_refines:
  assumes "mark_seen D s d" "run_calls crc D calls (s, d) = (rs, (s', d'))"
  shows "follows D calls rs (contents crc D d) = Some (contents crc D d')"
  by (rule run_calls_follow [OF assms])


text \<open>An entry put with a time to live that is not a number never expires.\<close>

lemma nan_never_expires:
  "live (snd (spec_call D (Put k v (Some NotANumber)) c m)) now k = Some v"
  by (simp add: live_def stamp_of_def expired_def)

text \<open>A table of two partitions over files that another declaration, of three, had filled.\<close>

definition sample_store :: store_decl where
  "sample_store = \<lparr>sd_name = ''hits'', sd_ttl = Ttl 60, sd_parts = 2\<rparr>"

definition sample_store_state :: "store_env \<times> store_disk" where
  "sample_store_state = (\<lparr>se_map_size = 100, se_total_max = 1000, se_sizes = [], se_open = [], se_checked = []\<rparr>,
     \<lparr>dk_parts = (\<lambda>_. Some 3), dk_data = (\<lambda>_ _. Some (Never, [9]))\<rparr>)"

definition at_time :: "int \<Rightarrow> fate list \<Rightarrow> call_context" where
  "at_time n fates = \<lparr>cc_now = n, cc_later = n, cc_opens = True, cc_fates = fates\<rparr>"

definition sample_calls :: "(counter_call \<times> call_context) list" where
  "sample_calls = [(Claim ''a'' 7 (Some (Ttl 10)), at_time 0 []), (Claim ''a'' 9 None, at_time 5 []), (Incr ''a'' 1 None, at_time 6 [FileFull True]),
     (Get ''a'', at_time 65 []), (Get ''a'', at_time 66 []), (Put ''b'' (2 ^ 63) None, at_time 66 []), (Get ''b'', at_time 66 [FileBroken])]"

lemma counter_store_refines_witness:
  "\<exists>m. follows sample_store sample_calls [Inr (Claimed True), Inr (Claimed False), Inr (Counted 8), Inr (Got 8), Inr GotNone,
      Inl StoreOverflow, Inl StoreUnavailable] (\<lambda>_. None) = Some m"
proof -
  obtain rs s' d' where r: "run_calls length sample_store sample_calls (fst sample_store_state, snd sample_store_state) = (rs, (s', d'))"
    by (metis prod_cases3)
  have "fst (run_calls length sample_store sample_calls sample_store_state) =
      [Inr (Claimed True), Inr (Claimed False), Inr (Counted 8), Inr (Got 8), Inr GotNone, Inl StoreOverflow, Inl StoreUnavailable]"
    by code_simp
  then have "rs = [Inr (Claimed True), Inr (Claimed False), Inr (Counted 8), Inr (Got 8), Inr GotNone, Inl StoreOverflow, Inl StoreUnavailable]"
    using r by simp
  moreover have "mark_seen sample_store (fst sample_store_state) (snd sample_store_state)"
    by (simp add: sample_store_state_def mark_seen_def)
  moreover have "contents length sample_store (snd sample_store_state) = (\<lambda>_. None)"
    by (simp add: sample_store_state_def sample_store_def contents_def)
  ultimately show ?thesis using counter_store_refines [OF _ r] by auto
qed

section \<open>The budget\<close>

lemma sum_dset: "distinct (dkeys d) \<Longrightarrow> sum_list (dvals (dset k v d)) = sum_list (dvals d) - dget_default 0 d k + (v :: int)"
proof (induction d)
  case (Cons e d)
  obtain k1 v1 where e: "e = (k1, v1)" by fastforce
  show ?case
  proof (cases "k1 = k")
    case True
    then show ?thesis by (simp add: e dget_default_def)
  next
    case False
    then show ?thesis using Cons by (simp add: e dget_default_def)
  qed
qed (simp add: dget_default_def)

lemma sum_ddel: "distinct (dkeys d) \<Longrightarrow> sum_list (dvals (ddel k d)) = sum_list (dvals d) - (dget_default 0 d k :: int)"
proof (induction d)
  case (Cons e d)
  obtain k1 v1 where e: "e = (k1, v1)" by fastforce
  show ?case
  proof (cases "k1 = k")
    case True
    then have "ddel k d = d" using Cons.prems by (simp add: e delete_id)
    then show ?thesis using True by (simp add: e dget_default_def)
  next
    case False
    then show ?thesis using Cons by (simp add: e dget_default_def)
  qed
qed (simp add: dget_default_def)

definition in_budget :: "store_env \<Rightarrow> bool" where
  "in_budget s \<longleftrightarrow> distinct (dkeys (se_sizes s)) \<and> (\<forall>f. 0 \<le> dget_default 0 (se_sizes s) f) \<and> 0 \<le> se_map_size s \<and>
     allocated_bytes s \<le> se_total_max s"

lemma reserve_in_budget:
  assumes "in_budget s" "0 \<le> new" "reserve_size f new s = Inr s'"
  shows "in_budget s'" "se_total_max s' = se_total_max s" "se_map_size s' = se_map_size s" "se_sizes s' = dset f new (se_sizes s)"
proof -
  have s': "s' = s\<lparr>se_sizes := dset f new (se_sizes s)\<rparr>" "allocated_bytes s - dget_default 0 (se_sizes s) f + new \<le> se_total_max s"
    using assms(3) by (auto simp: reserve_size_def Let_def split: if_splits)
  then show "se_total_max s' = se_total_max s" "se_map_size s' = se_map_size s" "se_sizes s' = dset f new (se_sizes s)" by simp_all
  show "in_budget s'" using assms(1,2) s'(2)
    by (simp add: in_budget_def s'(1) allocated_bytes_def sum_dset distinct_dset dget_default_def)
qed

lemma open_in_budget:
  assumes "in_budget s" "open_file f works s = (s', r)"
  shows "in_budget s' \<and> se_total_max s' = se_total_max s"
proof (cases "reserve_size f (se_map_size s) s")
  case (Inl e)
  then show ?thesis using assms by (simp add: open_file_def)
next
  case (Inr s1)
  have "0 \<le> se_map_size s" using assms(1) by (simp add: in_budget_def)
  note r1 = reserve_in_budget [OF assms(1) this Inr]
  show ?thesis
  proof (cases works)
    case True
    then show ?thesis using assms(2) Inr r1(1,2) by (auto simp: open_file_def in_budget_def allocated_bytes_def)
  next
    case False
    then have s': "s' = s1\<lparr>se_sizes := ddel f (se_sizes s1)\<rparr>" using assms(2) Inr by (simp add: open_file_def)
    have "distinct (dkeys (se_sizes s1))" "\<And>g. 0 \<le> dget_default 0 (se_sizes s1) g" "allocated_bytes s1 \<le> se_total_max s1"
      using r1(1) unfolding in_budget_def by blast+
    note d = this
    have "0 \<le> dget_default 0 (se_sizes s1) f" by (rule d(2))
    then have "sum_list (dvals (ddel f (se_sizes s1))) \<le> se_total_max s1"
      using sum_ddel [OF d(1), of f] d(3) unfolding allocated_bytes_def by linarith
    moreover have "distinct (dkeys (ddel f (se_sizes s1)))" using d(1) by (rule distinct_delete)
    moreover have "0 \<le> dget_default 0 (ddel f (se_sizes s1)) g" for g using d(2) [of g] by (simp add: dget_default_def)
    moreover have "0 \<le> se_map_size s1" using r1(1) unfolding in_budget_def by blast
    ultimately show ?thesis unfolding s' in_budget_def allocated_bytes_def by (simp add: r1(2))
  qed
qed

lemma grow_in_budget:
  assumes "in_budget s" "grow_file f works s = (s', r)"
  shows "in_budget s' \<and> se_total_max s' = se_total_max s"
proof -
  define current where "current = dget_default (se_map_size s) (se_sizes s) f"
  have c: "0 \<le> current"
  proof -
    have "0 \<le> dget_default 0 (se_sizes s) f" "0 \<le> se_map_size s" using assms(1) unfolding in_budget_def by blast+
    then show ?thesis by (cases "dget (se_sizes s) f") (simp_all add: current_def dget_default_def)
  qed
  show ?thesis
  proof (cases "reserve_size f (current * 2) s")
    case (Inl e)
    then show ?thesis using assms by (simp add: grow_file_def current_def)
  next
    case (Inr s1)
    have "0 \<le> current * 2" using c by simp
    note r1 = reserve_in_budget [OF assms(1) this Inr]
    show ?thesis
    proof (cases works)
      case True
      then show ?thesis using assms(2) Inr r1 by (simp add: grow_file_def current_def [symmetric] Let_def)
    next
      case False
      then have s': "s' = s1\<lparr>se_sizes := dset f current (se_sizes s1)\<rparr>"
        using assms(2) Inr by (simp add: grow_file_def current_def [symmetric] Let_def)
      have d: "distinct (dkeys (se_sizes s1))" and a: "allocated_bytes s1 \<le> se_total_max s1" using r1(1) by (simp_all add: in_budget_def)
      have "dget_default 0 (se_sizes s1) f = current * 2" by (simp add: r1(4) dget_default_def)
      then have "sum_list (dvals (dset f current (se_sizes s1))) \<le> se_total_max s1"
        using sum_dset [OF d, of f current] a c by (simp add: allocated_bytes_def)
      then show ?thesis using r1(1,2) c by (simp add: s' in_budget_def allocated_bytes_def distinct_dset dget_default_def)
    qed
  qed
qed

definition no_resize :: "fate list \<Rightarrow> bool" where
  "no_resize fates \<longleftrightarrow> (\<forall>n. FileResized n \<notin> set fates)"

lemma run_attempts_in_budget:
  assumes "in_budget s" "no_resize fates" "run_attempts n f writes op fates (s, d) = ((s', d'), r)"
  shows "in_budget s' \<and> se_total_max s' = se_total_max s"
  using assms
proof (induction n arbitrary: fates s)
  case (Suc n)
  define x where "x = (case fates of [] \<Rightarrow> Commits | x # _ \<Rightarrow> x)"
  have nx: "x \<noteq> FileResized e" for e using Suc.prems(2) by (cases fates) (auto simp: x_def no_resize_def)
  have tl: "no_resize (tl fates)" using Suc.prems(2) by (cases fates) (auto simp: no_resize_def)
  show ?case
  proof (cases x)
    case Commits
    then show ?thesis using Suc.prems(1,3)
      by (auto simp: x_def [symmetric] split: sum.splits prod.splits store_exn.splits if_splits)
  next
    case (FileFull works)
    obtain s1 o1 where g: "grow_file f works s = (s1, o1)" by fastforce
    note b = grow_in_budget [OF Suc.prems(1) g]
    show ?thesis
    proof (cases "writes \<and> (\<exists>u. o1 = Inr u)")
      case True
      then have "run_attempts n f writes op (tl fates) (s1, d) = ((s', d'), r)"
        using Suc.prems(3) FileFull g by (auto simp: x_def [symmetric])
      then show ?thesis using Suc.IH [OF _ tl] b by auto
    next
      case False
      then show ?thesis using Suc.prems(1,3) FileFull g b by (cases o1) (auto simp: x_def [symmetric] split: if_splits)
    qed
  next
    case (FileResized e)
    then show ?thesis using nx by blast
  next
    case FileBroken
    then show ?thesis using Suc.prems(1,3) by (auto simp: x_def [symmetric])
  qed
qed auto

lemma run_in_budget:
  assumes "in_budget s" "no_resize (cc_fates c)" "run_in crc D c key writes op (s, d) = ((s', d'), r)"
  shows "in_budget s' \<and> se_total_max s' = se_total_max s"
proof -
  let ?f = "file_of_key crc D key"
  obtain s1 d1 o1 where e: "env_for ?f (sd_parts D) (cc_opens c) (s, d) = ((s1, d1), o1)" by (metis prod_cases3 surj_pair)
  have b: "in_budget s1 \<and> se_total_max s1 = se_total_max s"
  proof (cases "?f \<in> set (se_open s)")
    case True
    then show ?thesis using e assms(1) by (simp add: env_for_def)
  next
    case False
    define s0 where "s0 = (if fst ?f \<in> set (se_checked s) then s else s\<lparr>se_checked := se_checked s @ [fst ?f]\<rparr>)"
    have "in_budget s0 \<and> se_total_max s0 = se_total_max s" using assms(1) by (simp add: s0_def in_budget_def allocated_bytes_def)
    moreover have "open_file ?f (cc_opens c) s0 = (s1, o1)" using e False by (auto simp: env_for_def s0_def Let_def split: prod.splits)
    ultimately show ?thesis using open_in_budget by metis
  qed
  show ?thesis
  proof (cases o1)
    case (Inl x)
    then show ?thesis using assms(3) e b by (simp add: run_in_def run_store_def Let_def)
  next
    case (Inr u)
    then have "run_attempts max_attempts ?f writes op (cc_fates c) (s1, d1) = ((s', d'), r)"
      using assms(3) e by (simp add: run_in_def run_store_def Let_def)
    then show ?thesis using run_attempts_in_budget b assms(2) by metis
  qed
qed

lemma returning_in_budget:
  assumes "in_budget s" "no_resize (cc_fates c)" "returning g (run_in crc D c key writes op (s, d)) = ((s', d'), r)"
  shows "in_budget s' \<and> se_total_max s' = se_total_max s"
proof -
  obtain r0 where "run_in crc D c key writes op (s, d) = ((s', d'), r0)" using assms(3) unfolding returning_eq by blast
  then show ?thesis by (rule run_in_budget [OF assms(1,2)])
qed

lemma call_store_in_budget:
  assumes "in_budget s" "no_resize (cc_fates c)" "call_store crc D x c (s, d) = ((s', d'), r)"
  shows "in_budget s' \<and> se_total_max s' = se_total_max s"
  using assms(1,3) by (cases x) (auto split: sum.splits dest: returning_in_budget [OF assms(1,2)])

lemma run_calls_in_budget:
  assumes "in_budget s" "\<forall>e \<in> set calls. no_resize (cc_fates (snd e))" "run_calls crc D calls (s, d) = (rs, (s', d'))"
  shows "in_budget s' \<and> se_total_max s' = se_total_max s"
  using assms
proof (induction calls arbitrary: s d rs)
  case (Cons e calls)
  obtain x c where e: "e = (x, c)" by fastforce
  obtain s1 d1 r where call: "call_store crc D x c (s, d) = ((s1, d1), r)" by (metis prod_cases3 surj_pair)
  obtain rs1 where rest: "run_calls crc D calls (s1, d1) = (rs1, (s', d'))"
    using Cons.prems(3) by (auto simp: e call split: prod.splits)
  have "in_budget s1 \<and> se_total_max s1 = se_total_max s" by (rule call_store_in_budget [OF Cons.prems(1) _ call]) (use Cons.prems(2) e in simp)
  then show ?case using Cons.IH [OF _ _ rest] Cons.prems(2) by auto
qed simp

text \<open>
  As long as no other process resizes a file, the sum of the file sizes stays within the budget, whatever calls
  are made and whichever files do not open or do not grow.
\<close>
theorem store_keeps_its_budget:
  assumes "in_budget s" "\<forall>e \<in> set calls. no_resize (cc_fates (snd e))" "run_calls crc D calls (s, d) = (rs, (s', d'))"
  shows "allocated_bytes s' \<le> se_total_max s"
  using run_calls_in_budget [OF assms] by (auto simp: in_budget_def)

lemma store_keeps_its_budget_witness:
  "allocated_bytes (fst (snd (run_calls length sample_store sample_calls sample_store_state))) \<le> 1000"
proof -
  obtain rs s' d' where r: "run_calls length sample_store sample_calls (fst sample_store_state, snd sample_store_state) = (rs, (s', d'))"
    by (metis prod_cases3)
  have "in_budget (fst sample_store_state)"
    by (simp add: in_budget_def sample_store_state_def allocated_bytes_def dget_default_def)
  moreover have "\<forall>e \<in> set sample_calls. no_resize (cc_fates (snd e))" by (simp add: sample_calls_def no_resize_def at_time_def)
  ultimately have "allocated_bytes s' \<le> se_total_max (fst sample_store_state)" by (rule store_keeps_its_budget [OF _ _ r])
  then show ?thesis using r by (simp add: sample_store_state_def)
qed

text \<open>A file that another process made larger is taken over without the check, so the sum may pass the budget.\<close>

lemma adopted_size_passes_budget:
  "allocated_bytes (fst (fst (call_store length sample_store (Get ''a'')
     \<lparr>cc_now = 0, cc_later = 0, cc_opens = True, cc_fates = [FileResized (Some 5000)]\<rparr> sample_store_state))) = 5000"
  by code_simp

end
