(* ===== verification/Request_Scope.thy ===== *)
theory Request_Scope
  imports Prelude Complex_Main
begin

text \<open>
  What belongs to one request: the context dictionary (\<open>xime/core/context/request_context.py\<close>), the security slots
  (\<open>xime/core/security/context.py\<close>, \<open>session.py\<close>) and the outermost middleware that gives a request an id and clears
  all of it (\<open>xime/adapters/web/middleware/_context.py\<close>). Every one of these is a context variable of the task that
  serves the request; a scope is their values in that task. A value is \<open>None\<close> when the variable holds Python's None,
  which is also its default.
\<close>

section \<open>Values\<close>

text \<open>What JSON holds, as far as it is looked at; a float is the rational it stands for.\<close>

datatype claim_value = CNull | CText string | CBool bool | CInt int | CFloat rat | COther nat

type_synonym claims = "(string, claim_value) dict"

text \<open>\<open>d.get(k)\<close>, where null and a missing key are the same.\<close>

definition claim_at :: "string \<Rightarrow> claims \<Rightarrow> claim_value option" where
  "claim_at k d = (case dget d k of Some CNull \<Rightarrow> None | r \<Rightarrow> r)"

datatype ctx_value = CtxText string | CtxClaims claims | CtxNames "string list" | CtxOther nat

datatype credential_kind = Password | Token | ApiKey | OAuth2 | Certificate

record request_scope =
  sc_context :: "(string, ctx_value) dict option"
  sc_identity :: "claim_value option"
  sc_credentials :: "nat option"
  sc_credential_type :: "credential_kind option"
  sc_permissions :: "nat list option"

definition clean_scope :: request_scope where
  "clean_scope = \<lparr>sc_context = None, sc_identity = None, sc_credentials = None, sc_credential_type = None, sc_permissions = None\<rparr>"

section \<open>The context dictionary\<close>

text \<open>Each update copies the dictionary, so that a task that was started earlier keeps the one it had.\<close>

definition ctx_set :: "string \<Rightarrow> ctx_value \<Rightarrow> request_scope \<Rightarrow> request_scope" where
  "ctx_set k v s = s\<lparr>sc_context := Some (dset k v (case sc_context s of Some d \<Rightarrow> d | None \<Rightarrow> []))\<rparr>"

definition ctx_get :: "string \<Rightarrow> request_scope \<Rightarrow> ctx_value option" where
  "ctx_get k s = (case sc_context s of None \<Rightarrow> None | Some d \<Rightarrow> dget d k)"

definition ctx_delete :: "string \<Rightarrow> request_scope \<Rightarrow> request_scope" where
  "ctx_delete k s =
     (case sc_context s of
        None \<Rightarrow> s
      | Some d \<Rightarrow> if k \<in> set (dkeys d) then s\<lparr>sc_context := Some (ddel k d)\<rparr> else s)"

definition ctx_clear :: "request_scope \<Rightarrow> request_scope" where
  "ctx_clear s = s\<lparr>sc_context := None\<rparr>"

definition ctx_all :: "request_scope \<Rightarrow> (string, ctx_value) dict" where
  "ctx_all s = (case sc_context s of Some d \<Rightarrow> d | None \<Rightarrow> [])"

definition ctx_contains :: "string \<Rightarrow> request_scope \<Rightarrow> bool" where
  "ctx_contains k s = (case sc_context s of Some d \<Rightarrow> k \<in> set (dkeys d) | None \<Rightarrow> False)"

definition ctx_len :: "request_scope \<Rightarrow> nat" where
  "ctx_len s = (case sc_context s of Some d \<Rightarrow> length d | None \<Rightarrow> 0)"

lemma ctx_get_set [simp]: "ctx_get k (ctx_set k' v s) = (if k = k' then Some v else ctx_get k s)"
  by (auto simp: ctx_get_def ctx_set_def split: option.splits)

lemma ctx_get_delete [simp]: "ctx_get k (ctx_delete k' s) = (if k = k' then None else ctx_get k s)"
  by (auto simp: ctx_get_def ctx_delete_def dget_None_keys split: option.splits)

lemma ctx_get_clear [simp]: "ctx_get k (ctx_clear s) = None"
  by (simp add: ctx_get_def ctx_clear_def)

lemma ctx_contains_get: "ctx_contains k s \<longleftrightarrow> ctx_get k s \<noteq> None"
  by (simp add: ctx_contains_def ctx_get_def dget_None_keys del: not_None_eq split: option.splits)

section \<open>The security slots\<close>

text \<open>An argument that is not passed is the outer \<open>None\<close> and leaves its slot; the inner \<open>None\<close> clears it.\<close>

record authentication =
  au_identity :: "claim_value option option"
  au_credentials :: "nat option option"
  au_credential_type :: "credential_kind option option"
  au_permissions :: "nat list option option"

definition nothing_passed :: authentication where
  "nothing_passed = \<lparr>au_identity = None, au_credentials = None, au_credential_type = None, au_permissions = None\<rparr>"

definition authenticate :: "authentication \<Rightarrow> request_scope \<Rightarrow> request_scope" where
  "authenticate a s =
     (let s1 = (case au_identity a of None \<Rightarrow> s | Some v \<Rightarrow> s\<lparr>sc_identity := v\<rparr>);
          s2 = (case au_credentials a of None \<Rightarrow> s1 | Some v \<Rightarrow> s1\<lparr>sc_credentials := v\<rparr>);
          s3 = (case au_credential_type a of None \<Rightarrow> s2 | Some v \<Rightarrow> s2\<lparr>sc_credential_type := v\<rparr>)
      in (case au_permissions a of None \<Rightarrow> s3 | Some v \<Rightarrow> s3\<lparr>sc_permissions := v\<rparr>))"

definition clear_security :: "request_scope \<Rightarrow> request_scope" where
  "clear_security s = s\<lparr>sc_identity := None, sc_credentials := None, sc_credential_type := None, sc_permissions := None\<rparr>"

lemma cleared_is_clean [simp]: "clear_security (ctx_clear s) = clean_scope"
  by (simp add: clear_security_def ctx_clear_def clean_scope_def)

text \<open>The identity of the peer of a mutual TLS connection.\<close>

definition current_caller :: "request_scope \<Rightarrow> ctx_value option" where
  "current_caller s = ctx_get ''peer_cn'' s"

definition current_peer_sans :: "request_scope \<Rightarrow> ctx_value option" where
  "current_peer_sans s = ctx_get ''peer_sans'' s"

section \<open>ASGI applications\<close>

text \<open>
  A request as the middlewares read it: the type and the path of the scope the router goes by, the path of the URL that
  Starlette builds of the scope, and the first \<open>Authorization\<close> header. An application gives what it did, an exception
  included, and the values of the context variables it leaves.
\<close>

record http_request =
  hq_type :: string
  hq_path :: string
  hq_url_path :: string
  hq_authorization :: "string option"

datatype 'r answer = Served 'r | Unauthorized string | Crashed string

type_synonym 'r asgi = "http_request \<Rightarrow> request_scope \<Rightarrow> 'r answer \<times> request_scope"

text \<open>\<open>RequestContextMiddleware\<close>; the id is a parameter.\<close>

definition context_call :: "string \<Rightarrow> 'r asgi \<Rightarrow> 'r asgi" where
  "context_call request_id app q s =
     (if hq_type q \<noteq> ''http'' then app q s
      else let (r, s') = app q (ctx_set ''request_id'' (CtxText request_id) s) in (r, clear_security (ctx_clear s')))"

lemma context_call_clean: "hq_type q = ''http'' \<Longrightarrow> snd (context_call i app q s) = clean_scope"
  by (simp add: context_call_def split_beta)

end
