(* ===== verification/Jwt_Auth.thy ===== *)
theory Jwt_Auth
  imports Request_Scope
begin

text \<open>
  The JWT starter (\<open>xime/starters/jwt\<close>): public paths, keys, the verifier and the signer over PyJWT, the authenticator
  that tries the keys a token may have been signed with, and the middleware. PyJWT is a parameter: \<open>decode\<close> gives the
  outcome of the n-th call for the arguments of \<open>jwt.decode\<close>, \<open>unverified\<close> the header of a token, \<open>encode\<close> a token.
  The application's key provider is a parameter too. Text is Latin-1.
\<close>

section \<open>Public paths\<close>

definition rstrip_slash :: "string \<Rightarrow> string" where
  "rstrip_slash p = rev (dropWhile (\<lambda>c. c = CHR ''/'') (rev p))"

definition normalize_path :: "string \<Rightarrow> string" where
  "normalize_path p = (if rstrip_slash p = [] then ''/'' else rstrip_slash p)"

definition ends_with :: "string \<Rightarrow> string \<Rightarrow> bool" where
  "ends_with e s \<longleftrightarrow> length e \<le> length s \<and> drop (length s - length e) s = e"

datatype path_error = WholeSitePublic | BadWildcard string

text \<open>The loop body of \<open>split_public_paths\<close>: the exact entries (a set, without repetition) and the prefixes in order.\<close>

definition add_public_path :: "string \<Rightarrow> string list \<times> string list \<Rightarrow> path_error + string list \<times> string list" where
  "add_public_path raw acc =
     (let path = strip raw; (exact, prefixes) = acc
      in if path = [] then Inr acc
         else if CHR ''*'' \<notin> set path then Inr (List.insert (normalize_path path) exact, prefixes)
         else if path = ''/*'' then Inl WholeSitePublic
         else if \<not> ends_with ''/*'' path \<or> length (filter (\<lambda>c. c = CHR ''*'') path) \<noteq> 1 then Inl (BadWildcard path)
         else Inr (exact, prefixes @ [normalize_path (butlast path) @ ''/'']))"

definition split_public_paths :: "string list \<Rightarrow> path_error + string list \<times> string list" where
  "split_public_paths paths = sfold add_public_path paths ([], [])"

definition path_is_public :: "string \<Rightarrow> string list \<Rightarrow> string list \<Rightarrow> bool" where
  "path_is_public path exact prefixes =
     (let n = normalize_path path
      in n \<in> set exact \<or> (\<exists>prefix \<in> set prefixes. starts_with prefix n \<or> n = butlast prefix))"

subsection \<open>What an entry means\<close>

text \<open>
  A plain entry is one path, up to slashes at the end; an entry that ends in \<open>/*\<close> is the branch of the paths whose
  segments begin with its segments.
\<close>

definition segments :: "string \<Rightarrow> string list" where
  "segments p = split_on (CHR ''/'') (normalize_path p)"

definition entry_covers :: "string \<Rightarrow> string \<Rightarrow> bool" where
  "entry_covers raw path =
     (let entry = strip raw
      in entry \<noteq> [] \<and>
         (if CHR ''*'' \<notin> set entry then normalize_path path = normalize_path entry
          else let base = segments (butlast entry) in take (length base) (segments path) = base))"

definition acceptable_entry :: "string \<Rightarrow> bool" where
  "acceptable_entry raw =
     (let entry = strip raw
      in CHR ''*'' \<notin> set entry \<or>
         (entry \<noteq> ''/*'' \<and> ends_with ''/*'' entry \<and> length (filter (\<lambda>c. c = CHR ''*'') entry) = 1))"

lemma split_at_sep: "split_on c (a @ c # b) = split_on c a @ split_on c b"
proof (induction a)
  case (Cons x xs)
  obtain w ws where "split_on c xs = w # ws" by (cases "split_on c xs") auto
  with Cons show ?case by auto
qed simp

lemma join_append: "xs \<noteq> [] \<Longrightarrow> ys \<noteq> [] \<Longrightarrow> join c (xs @ ys) = join c xs @ c @ join c ys"
proof (induction xs)
  case (Cons x xs)
  then show ?case by (cases xs; cases ys) auto
qed simp

lemma split_on_inj: "split_on c a = split_on c b \<Longrightarrow> a = b"
  by (metis join_split_on)

lemma branch_by_segments:
  "starts_with (b @ [c]) n \<or> n = b \<longleftrightarrow> take (length (split_on c b)) (split_on c n) = split_on c b" (is "?l \<longleftrightarrow> ?r")
proof
  assume ?l
  then show ?r
  proof
    assume "starts_with (b @ [c]) n"
    then have "n = b @ c # drop (length b + 1) n"
      unfolding starts_with_def by (metis append.assoc append_Cons append_Nil append_take_drop_id length_append_singleton Suc_eq_plus1)
    then show ?r by (metis append_eq_conv_conj split_at_sep)
  qed simp
next
  assume r: ?r
  then have n: "split_on c n = split_on c b @ drop (length (split_on c b)) (split_on c n)" (is "_ = _ @ ?rest")
    by (metis append_take_drop_id)
  show ?l
  proof (cases "?rest = []")
    case True
    then show ?thesis using n split_on_inj by fastforce
  next
    case False
    have "n = join [c] (split_on c b @ ?rest)" using join_split_on [of c n] n by simp
    also have "\<dots> = b @ [c] @ join [c] ?rest"
      by (simp only: join_append [OF split_on_nonempty False] join_split_on)
    finally show ?thesis using starts_append [of "b @ [c]"] by (metis append.assoc)
  qed
qed

lemma normalize_nonempty: "normalize_path p \<noteq> []"
  by (simp add: normalize_path_def)

lemma add_public_path_covers:
  assumes "add_public_path raw (exact, prefixes) = Inr (exact', prefixes')"
  shows "acceptable_entry raw \<and>
    (path_is_public p exact' prefixes' \<longleftrightarrow> path_is_public p exact prefixes \<or> entry_covers raw p)"
proof (cases "strip raw = [] \<or> CHR ''*'' \<notin> set (strip raw)")
  case True
  then show ?thesis
    using assms by (auto simp: add_public_path_def acceptable_entry_def path_is_public_def entry_covers_def Let_def split: if_splits)
next
  case False
  let ?b = "normalize_path (butlast (strip raw))"
  have ok: "acceptable_entry raw" and new: "exact' = exact" "prefixes' = prefixes @ [?b @ ''/'']"
    using assms False by (auto simp: add_public_path_def acceptable_entry_def Let_def split: if_splits)
  have "entry_covers raw p \<longleftrightarrow> starts_with (?b @ ''/'') (normalize_path p) \<or> normalize_path p = ?b"
    unfolding branch_by_segments using False by (simp add: entry_covers_def segments_def Let_def)
  then show ?thesis using ok by (auto simp: new path_is_public_def Let_def)
qed

lemma add_public_path_refuses: "(\<exists>e. add_public_path raw acc = Inl e) \<longleftrightarrow> \<not> acceptable_entry raw"
  by (cases acc) (auto simp: add_public_path_def acceptable_entry_def Let_def)

lemma split_public_paths_from:
  "sfold add_public_path paths (exact, prefixes) = Inr (exact', prefixes') \<Longrightarrow>
     path_is_public p exact' prefixes' \<longleftrightarrow> path_is_public p exact prefixes \<or> (\<exists>raw \<in> set paths. entry_covers raw p)"
proof (induction paths arbitrary: exact prefixes)
  case (Cons raw paths)
  then obtain e1 p1 where step: "add_public_path raw (exact, prefixes) = Inr (e1, p1)"
    and rest: "sfold add_public_path paths (e1, p1) = Inr (exact', prefixes')"
    by (auto simp: sbind_eq_Inr)
  show ?case using Cons.IH [OF rest] add_public_path_covers [OF step, of p] by auto
qed simp

lemma split_public_paths_accepts:
  "(\<exists>r. sfold add_public_path paths acc = Inr r) \<longleftrightarrow> (\<forall>raw \<in> set paths. acceptable_entry raw)"
proof (induction paths arbitrary: acc)
  case (Cons raw paths)
  show ?case
  proof (cases "add_public_path raw acc")
    case (Inl e)
    then show ?thesis using add_public_path_refuses [of raw acc] by auto
  next
    case (Inr acc')
    then have "acceptable_entry raw" using add_public_path_refuses [of raw acc] by auto
    then show ?thesis using Inr Cons.IH [of acc'] by simp
  qed
qed simp

lemma public_exactly_listed:
  "split_public_paths paths = Inr (exact, prefixes) \<Longrightarrow> path_is_public p exact prefixes \<longleftrightarrow> (\<exists>raw \<in> set paths. entry_covers raw p)"
  unfolding split_public_paths_def by (drule split_public_paths_from [of _ _ _ _ _ p]) (simp add: path_is_public_def)

text \<open>
  C35: The list of public paths is refused when an entry has a wildcard anywhere but as its whole last segment, or opens the
  whole site; otherwise a request path is public exactly when some entry entry_covers it: a plain entry its own path up to
  slashes at the end, a branch entry the paths whose segments begin with its own. No path that only begins with the same
  text is opened.
\<close>

theorem public_paths_mean_segments:
  "case split_public_paths paths of
     Inl e \<Rightarrow> \<not> list_all acceptable_entry paths
   | Inr (exact, prefixes) \<Rightarrow> list_all acceptable_entry paths \<and>
       (path_is_public path exact prefixes \<longleftrightarrow> list_ex (\<lambda>raw. entry_covers raw path) paths)"
proof (cases "split_public_paths paths")
  case (Inl e)
  then show ?thesis using split_public_paths_accepts [of paths "([], [])"]
    by (auto simp: split_public_paths_def list_all_iff)
next
  case (Inr r)
  obtain exact prefixes where r: "r = (exact, prefixes)" by fastforce
  have "list_all acceptable_entry paths"
    using Inr split_public_paths_accepts [of paths "([], [])"] by (auto simp: split_public_paths_def list_all_iff)
  then show ?thesis using Inr r public_exactly_listed [of paths exact prefixes path] by (simp add: list_ex_iff)
qed

section \<open>Keys and configuration\<close>

record key_context =
  kc_algorithm :: string
  kc_key_id :: "string option"
  kc_secret :: "string option"
  kc_private_pem :: "string option"
  kc_public_pem :: "string option"

datatype audience = OneAudience string | Audiences "string list"

record jwt_config =
  jc_key_context :: "key_context option"
  jc_identity_claim :: string
  jc_public_paths :: "string list"
  jc_audience :: "audience option"
  jc_issuer :: "string option"
  jc_algorithms :: "string list option"
  jc_leeway :: rat
  jc_require :: "string list"

definition default_jwt_config :: jwt_config where
  "default_jwt_config = \<lparr>jc_key_context = None, jc_identity_claim = ''sub'', jc_public_paths = [], jc_audience = None,
     jc_issuer = None, jc_algorithms = None, jc_leeway = 0, jc_require = []\<rparr>"

text \<open>The registry; the classes of a provider and of a verifier are numbers.\<close>

record jwt_registry =
  jr_config :: "jwt_config option"
  jr_key_provider :: "nat option"
  jr_verifier :: "nat option"

definition empty_jwt_registry :: jwt_registry where
  "empty_jwt_registry = \<lparr>jr_config = None, jr_key_provider = None, jr_verifier = None\<rparr>"

definition configure_jwt :: "jwt_config \<Rightarrow> nat option \<Rightarrow> nat option \<Rightarrow> jwt_registry \<Rightarrow> path_error + jwt_registry" where
  "configure_jwt cfg key_provider verifier r =
     sbind (split_public_paths (jc_public_paths cfg))
       (\<lambda>_. Inr (r\<lparr>jr_config := Some cfg, jr_key_provider := key_provider, jr_verifier := verifier\<rparr>))"

text \<open>\<open>algorithm.upper().startswith("HS")\<close>; beside the ASCII letters only the sharp s has an upper case in those letters.\<close>

definition upper_text :: "string \<Rightarrow> string" where
  "upper_text s = concat (map (\<lambda>c. let n = (of_char c :: nat)
     in if 97 \<le> n \<and> n \<le> 122 then [char_of (n - 32)] else if n = 223 then ''SS'' else [c]) s)"

definition is_hmac :: "string \<Rightarrow> bool" where
  "is_hmac algorithm = starts_with ''HS'' (upper_text algorithm)"

datatype key_error = SecretRequired string | PublicKeyRequired string | PrivateKeyRequired string

definition key_material :: "(string \<Rightarrow> key_error) \<Rightarrow> (key_context \<Rightarrow> string option) \<Rightarrow> key_context \<Rightarrow> key_error + string" where
  "key_material missing pem key =
     (if is_hmac (kc_algorithm key)
      then (case kc_secret key of Some (c # cs) \<Rightarrow> Inr (c # cs) | _ \<Rightarrow> Inl (SecretRequired (kc_algorithm key)))
      else (case pem key of Some (c # cs) \<Rightarrow> Inr (c # cs) | _ \<Rightarrow> Inl (missing (kc_algorithm key))))"

definition resolve_verify_key :: "key_context \<Rightarrow> key_error + string" where
  "resolve_verify_key = key_material PublicKeyRequired kc_public_pem"

definition resolve_signing_key :: "key_context \<Rightarrow> key_error + string" where
  "resolve_signing_key = key_material PrivateKeyRequired kc_private_pem"

section \<open>Verification\<close>

text \<open>The arguments of \<open>jwt.decode\<close>, the options written out, and what it does with them.\<close>

record decode_args =
  da_token :: string
  da_key :: string
  da_algorithms :: "string list"
  da_audience :: "audience option"
  da_issuer :: "string option"
  da_leeway :: rat
  da_verify_aud :: bool
  da_require :: "string list option"

datatype decoding = Decoded claims | SignatureExpired | InvalidToken string | NestedTooDeep | DecodeRaises string

text \<open>\<open>TokenExpired\<close> is the subclass of the authentication errors; other exceptions escape.\<close>

datatype token_verdict = Verified claims | TokenExpired string | Unauthenticated string | Escapes string

text \<open>A verifier: the n-th call of this request, the token and the key, with the knobs of the configuration.\<close>

type_synonym verifier = "nat \<Rightarrow> string \<Rightarrow> key_context \<Rightarrow> jwt_config \<Rightarrow> token_verdict"

definition decode_request :: "string \<Rightarrow> string \<Rightarrow> key_context \<Rightarrow> jwt_config \<Rightarrow> decode_args" where
  "decode_request token k key cfg =
     \<lparr>da_token = token, da_key = k, da_algorithms = [kc_algorithm key], da_audience = jc_audience cfg, da_issuer = jc_issuer cfg,
      da_leeway = jc_leeway cfg, da_verify_aud = (jc_audience cfg \<noteq> None),
      da_require = (if jc_require cfg = [] then None else Some (jc_require cfg))\<rparr>"

definition single_quoted :: "string \<Rightarrow> string" where
  "single_quoted s = [CHR 0x27] @ s @ [CHR 0x27]"

definition key_error_text :: "key_error \<Rightarrow> string" where
  "key_error_text e =
     (case e of
        SecretRequired a \<Rightarrow> ''KeyContext.secret is required for algorithm '' @ single_quoted a
      | PublicKeyRequired a \<Rightarrow> ''KeyContext.public_key_pem is required for algorithm '' @ single_quoted a
      | PrivateKeyRequired a \<Rightarrow> ''KeyContext.private_key_pem is required for algorithm '' @ single_quoted a)"

definition pyjwt_verify :: "(nat \<Rightarrow> decode_args \<Rightarrow> decoding) \<Rightarrow> verifier" where
  "pyjwt_verify decode n token key cfg =
     (if (case jc_algorithms cfg of Some allowed \<Rightarrow> kc_algorithm key \<notin> set allowed | None \<Rightarrow> False)
      then Unauthenticated (''Algorithm '' @ single_quoted (kc_algorithm key) @ '' is not in the allow-list'')
      else case resolve_verify_key key of
             Inl e \<Rightarrow> Escapes (key_error_text e)
           | Inr k \<Rightarrow>
               (case decode n (decode_request token k key cfg) of
                  Decoded c \<Rightarrow> Verified c
                | SignatureExpired \<Rightarrow> TokenExpired ''Token has expired''
                | NestedTooDeep \<Rightarrow> Unauthenticated ''Invalid token: JSON nesting limit exceeded''
                | InvalidToken why \<Rightarrow> Unauthenticated (''Invalid token: '' @ why)
                | DecodeRaises why \<Rightarrow> Escapes why))"

section \<open>The authenticator\<close>

text \<open>A provider: what \<open>keys(kid)\<close> returns, or \<open>None\<close> when it raises.\<close>

type_synonym key_provider = "string option \<Rightarrow> key_context list option"

definition read_kid :: "(string \<Rightarrow> claims option) \<Rightarrow> string \<Rightarrow> string + string option" where
  "read_kid unverified token =
     (case unverified token of
        None \<Rightarrow> Inl ''Invalid token: malformed header''
      | Some header \<Rightarrow>
          (case claim_at ''kid'' header of
             None \<Rightarrow> Inr None
           | Some (CText kid) \<Rightarrow> Inr (Some kid)
           | Some _ \<Rightarrow> Inl ''Invalid token: malformed header''))"

definition candidate_keys :: "(string \<Rightarrow> claims option) \<Rightarrow> key_provider option \<Rightarrow> jwt_config \<Rightarrow> string \<Rightarrow> string + key_context list" where
  "candidate_keys unverified provider cfg token =
     (case provider of
        None \<Rightarrow> Inr (case jc_key_context cfg of Some key \<Rightarrow> [key] | None \<Rightarrow> [])
      | Some keys \<Rightarrow>
          sbind (read_kid unverified token)
            (\<lambda>kid. case keys kid of
                     None \<Rightarrow> Inl ''Unknown signing key''
                   | Some [] \<Rightarrow> Inl ''Unknown signing key''
                   | Some candidates \<Rightarrow> Inr candidates))"

text \<open>The loop: \<open>n\<close> counts the attempts; the two options are \<open>first_error\<close> and \<open>expired\<close>.\<close>

fun try_keys :: "(nat \<Rightarrow> key_context \<Rightarrow> token_verdict) \<Rightarrow> nat \<Rightarrow> key_context list \<Rightarrow> string option \<Rightarrow> string option \<Rightarrow> token_verdict" where
  "try_keys ver n [] first_error expired =
     (case expired of
        Some m \<Rightarrow> TokenExpired m
      | None \<Rightarrow> Unauthenticated (case first_error of Some m \<Rightarrow> m | None \<Rightarrow> ''Unknown signing key''))"
| "try_keys ver n (key # keys) first_error expired =
     (case ver n key of
        Verified c \<Rightarrow> Verified c
      | Escapes e \<Rightarrow> Escapes e
      | TokenExpired m \<Rightarrow> try_keys ver (Suc n) keys first_error (case expired of None \<Rightarrow> Some m | Some e \<Rightarrow> Some e)
      | Unauthenticated m \<Rightarrow> try_keys ver (Suc n) keys (case first_error of None \<Rightarrow> Some m | Some e \<Rightarrow> Some e) expired)"

definition jwt_verify :: "(string \<Rightarrow> claims option) \<Rightarrow> key_provider option \<Rightarrow> verifier \<Rightarrow> jwt_config \<Rightarrow> string \<Rightarrow> token_verdict" where
  "jwt_verify unverified provider verify cfg token =
     (case candidate_keys unverified provider cfg token of
        Inl m \<Rightarrow> Unauthenticated m
      | Inr keys \<Rightarrow> try_keys (\<lambda>n key. verify n token key cfg) 0 keys None None)"

subsection \<open>Which token_verdict is reported\<close>

definition decisive :: "token_verdict \<Rightarrow> bool" where
  "decisive v = (case v of Verified _ \<Rightarrow> True | Escapes _ \<Rightarrow> True | _ \<Rightarrow> False)"

definition says_expired :: "token_verdict \<Rightarrow> bool" where
  "says_expired v = (case v of TokenExpired _ \<Rightarrow> True | _ \<Rightarrow> False)"

text \<open>The verdicts of all candidates ranked: success (or a crash), else the first expiry, else the first refusal.\<close>

definition ranked :: "token_verdict list \<Rightarrow> token_verdict" where
  "ranked vs =
     (case find decisive vs of
        Some v \<Rightarrow> v
      | None \<Rightarrow> (case find says_expired vs of
                   Some v \<Rightarrow> v
                 | None \<Rightarrow> (case vs of v # _ \<Rightarrow> v | [] \<Rightarrow> Unauthenticated ''Unknown signing key'')))"

definition attempts :: "(nat \<Rightarrow> key_context \<Rightarrow> token_verdict) \<Rightarrow> nat \<Rightarrow> key_context list \<Rightarrow> token_verdict list" where
  "attempts ver n keys = map (\<lambda>(i, key). ver i key) (zip [n..<n + length keys] keys)"

lemma attempts_simps [simp]:
  "attempts ver n [] = []"
  "attempts ver n (key # keys) = ver n key # attempts ver (Suc n) keys"
  by (simp_all add: attempts_def upt_conv_Cons del: upt_Suc)

definition reported :: "string option \<Rightarrow> string option \<Rightarrow> token_verdict list" where
  "reported first_error expired =
     (case expired of Some m \<Rightarrow> [TokenExpired m] | None \<Rightarrow> []) @ (case first_error of Some m \<Rightarrow> [Unauthenticated m] | None \<Rightarrow> [])"

lemma try_keys_ranked: "try_keys ver n keys first_error expired = ranked (reported first_error expired @ attempts ver n keys)"
proof (induction keys arbitrary: n first_error expired)
  case Nil
  show ?case by (auto simp: ranked_def reported_def decisive_def says_expired_def split: option.splits)
next
  case (Cons key keys)
  show ?case
    by (cases "ver n key"; cases first_error; cases expired)
       (simp_all add: Cons.IH ranked_def reported_def decisive_def says_expired_def split: option.split)
qed

text \<open>
  C36: The loop over the candidate keys gives the token_verdict of the first key that verifies the token; when none does, an
  expiry outranks every refusal wherever its key stands in the list, among expiries and among refusals the first is
  reported, and no candidate at all is an unknown signing key.
\<close>

theorem expiry_outranks_refusals:
  "jwt_verify unverified provider verify cfg token =
     (case candidate_keys unverified provider cfg token of
        Inl m \<Rightarrow> Unauthenticated m
      | Inr keys \<Rightarrow> ranked (map (\<lambda>n. verify n token (keys ! n) cfg) [0..<length keys]))"
proof -
  have "attempts a 0 keys = map (\<lambda>n. a n (keys ! n)) [0..<length keys]" for a keys
    by (auto simp: attempts_def intro: nth_equalityI)
  then show ?thesis
    by (simp add: jwt_verify_def try_keys_ranked reported_def split: sum.split)
qed

lemma try_keys_verified:
  "try_keys ver n keys fe ex = Verified c \<Longrightarrow> \<exists>i < length keys. ver (n + i) (keys ! i) = Verified c"
proof (induction keys arbitrary: n fe ex)
  case Nil
  then show ?case by (auto split: option.splits)
next
  case (Cons key keys)
  show ?case
  proof (cases "ver n key = Verified c")
    case True
    then show ?thesis by (intro exI [of _ 0]) simp
  next
    case False
    then obtain fe' ex' where "try_keys ver (Suc n) keys fe' ex' = Verified c"
      using Cons.prems by (auto split: token_verdict.splits)
    from Cons.IH [OF this] obtain i where "i < length keys" "ver (Suc n + i) (keys ! i) = Verified c" by blast
    then show ?thesis by (intro exI [of _ "Suc i"]) simp
  qed
qed

section \<open>The signer\<close>

datatype sign_error = ReservedHeaders "string list" | NoKey key_error

definition reserved_headers :: "string list" where
  "reserved_headers = [''alg'', ''b64'', ''kid'']"

text \<open>\<open>encode\<close> has the payload, the key, the algorithm and the headers, none when there are none.\<close>

definition sign :: "(claims \<Rightarrow> string \<Rightarrow> string \<Rightarrow> claims option \<Rightarrow> string) \<Rightarrow> claims \<Rightarrow> key_context \<Rightarrow> claims option \<Rightarrow> sign_error + string" where
  "sign encode payload key headers =
     (let merged = (case headers of Some h \<Rightarrow> h | None \<Rightarrow> []);
          reserved = filter (\<lambda>h. h \<in> set (dkeys merged)) reserved_headers
      in if reserved \<noteq> [] then Inl (ReservedHeaders reserved)
         else case resolve_signing_key key of
                Inl e \<Rightarrow> Inl (NoKey e)
              | Inr k \<Rightarrow>
                  let named = (case kc_key_id key of Some (c # cs) \<Rightarrow> dset ''kid'' (CText (c # cs)) merged | _ \<Rightarrow> merged)
                  in Inr (encode payload k (kc_algorithm key) (if named = [] then None else Some named)))"

section \<open>The middleware\<close>

definition jwt_claims_key :: string where "jwt_claims_key = ''jwt_claims''"

definition bearer_prefix :: string where "bearer_prefix = ''Bearer ''"

definition extract_bearer_token :: "http_request \<Rightarrow> string option" where
  "extract_bearer_token q =
     (let header = (case hq_authorization q of Some h \<Rightarrow> h | None \<Rightarrow> [])
      in if map to_lower (take (length bearer_prefix) header) \<noteq> map to_lower bearer_prefix then None
         else let token = strip (drop (length bearer_prefix) header) in if token = [] then None else Some token)"

definition token_authentication :: "claim_value \<Rightarrow> authentication" where
  "token_authentication identity = nothing_passed\<lparr>au_identity := Some (Some identity), au_credential_type := Some (Some Token)\<rparr>"

definition accept_claims :: "claims \<Rightarrow> claim_value \<Rightarrow> request_scope \<Rightarrow> request_scope" where
  "accept_claims c identity s = authenticate (token_authentication identity) (ctx_set jwt_claims_key (CtxClaims c) s)"

text \<open>\<open>JwtAuthMiddleware.__call__\<close> for an application, with what \<open>JwtAuthenticator.verify\<close> says of a token.\<close>

definition jwt_call :: "(string \<Rightarrow> token_verdict) \<Rightarrow> jwt_config \<Rightarrow> string list \<times> string list \<Rightarrow> 'r asgi \<Rightarrow> 'r asgi" where
  "jwt_call verify cfg public app q s =
     (if hq_type q \<noteq> ''http'' then app q s
      else if path_is_public (hq_url_path q) (fst public) (snd public) then app q s
      else case extract_bearer_token q of
             None \<Rightarrow> (Unauthorized ''Missing authorization token'', s)
           | Some token \<Rightarrow>
               (case verify token of
                  TokenExpired m \<Rightarrow> (Unauthorized m, s)
                | Unauthenticated m \<Rightarrow> (Unauthorized m, s)
                | Escapes e \<Rightarrow> (Crashed e, s)
                | Verified c \<Rightarrow>
                    (case claim_at (jc_identity_claim cfg) c of
                       None \<Rightarrow> (Unauthorized (''Token missing required claim '' @ single_quoted (jc_identity_claim cfg)), s)
                     | Some identity \<Rightarrow> app q (accept_claims c identity s))))"

definition jwt_middleware ::
  "(string \<Rightarrow> claims option) \<Rightarrow> key_provider option \<Rightarrow> verifier \<Rightarrow> jwt_config \<Rightarrow> path_error + ('r asgi \<Rightarrow> 'r asgi)" where
  "jwt_middleware unverified provider verify cfg =
     sbind (split_public_paths (jc_public_paths cfg)) (\<lambda>public. Inr (jwt_call (jwt_verify unverified provider verify cfg) cfg public))"

subsection \<open>What reaches the application\<close>

text \<open>The n-th candidate key decodes the token, is allowed, and the claims name an identity, which is that of the scope.\<close>

definition vouched :: "(nat \<Rightarrow> decode_args \<Rightarrow> decoding) \<Rightarrow> jwt_config \<Rightarrow> string \<Rightarrow> request_scope \<Rightarrow> nat \<Rightarrow> key_context \<Rightarrow> bool" where
  "vouched decode cfg token s n key \<longleftrightarrow>
     (case jc_algorithms cfg of None \<Rightarrow> True | Some allowed \<Rightarrow> kc_algorithm key \<in> set allowed) \<and>
     (case resolve_verify_key key of
        Inl _ \<Rightarrow> False
      | Inr k \<Rightarrow>
          (case decode n (decode_request token k key cfg) of
             Decoded c \<Rightarrow> sc_identity s \<noteq> None \<and> sc_identity s = claim_at (jc_identity_claim cfg) c \<and>
               sc_credential_type s = Some Token \<and> ctx_get jwt_claims_key s = Some (CtxClaims c)
           | _ \<Rightarrow> False))"

definition vouched_token ::
  "(nat \<Rightarrow> decode_args \<Rightarrow> decoding) \<Rightarrow> (string \<Rightarrow> claims option) \<Rightarrow> key_provider option \<Rightarrow> jwt_config \<Rightarrow> string \<Rightarrow> request_scope \<Rightarrow> bool" where
  "vouched_token decode unverified provider cfg token s \<longleftrightarrow>
     (case candidate_keys unverified provider cfg token of
        Inl _ \<Rightarrow> False
      | Inr keys \<Rightarrow> list_ex (\<lambda>n. vouched decode cfg token s n (keys ! n)) [0..<length keys])"

text \<open>
  A request is on a public path when a public entry covers the path of its scope, by which the router goes. The code
  looks at the path of the URL instead, which Starlette builds from the \<open>Host\<close> header and the path: where the two
  differ, a request to any route is let through when the URL names a public one (\<open>disguised\<close>).
\<close>

definition on_public_path :: "jwt_config \<Rightarrow> http_request \<Rightarrow> bool" where
  "on_public_path cfg q \<longleftrightarrow> list_ex (\<lambda>raw. entry_covers raw (hq_path q)) (jc_public_paths cfg)"

definition disguised :: "jwt_config \<Rightarrow> http_request \<Rightarrow> bool" where
  "disguised cfg q \<longleftrightarrow> hq_url_path q \<noteq> hq_path q \<and> list_ex (\<lambda>raw. entry_covers raw (hq_url_path q)) (jc_public_paths cfg)"

definition admitted ::
  "(nat \<Rightarrow> decode_args \<Rightarrow> decoding) \<Rightarrow> (string \<Rightarrow> claims option) \<Rightarrow> key_provider option \<Rightarrow> jwt_config \<Rightarrow> http_request \<Rightarrow> request_scope \<Rightarrow> bool" where
  "admitted decode unverified provider cfg q s \<longleftrightarrow>
     hq_type q \<noteq> ''http'' \<or> on_public_path cfg q \<or> disguised cfg q \<or>
     (case extract_bearer_token q of None \<Rightarrow> False | Some token \<Rightarrow> vouched_token decode unverified provider cfg token s)"

lemma accept_claims_scope [simp]:
  "sc_identity (accept_claims c identity s) = Some identity"
  "sc_credential_type (accept_claims c identity s) = Some Token"
  "ctx_get k (accept_claims c identity s) = (if k = jwt_claims_key then Some (CtxClaims c) else ctx_get k s)"
  by (auto simp: accept_claims_def authenticate_def token_authentication_def nothing_passed_def Let_def ctx_get_def ctx_set_def split: option.splits)

lemma pyjwt_verified:
  assumes "pyjwt_verify decode n token key cfg = Verified c"
    and "claim_at (jc_identity_claim cfg) c = Some identity"
  shows "vouched decode cfg token (accept_claims c identity s) n key"
  using assms unfolding pyjwt_verify_def vouched_def
  by (auto split: if_splits sum.splits decoding.splits option.splits)

lemma jwt_verify_verified:
  assumes "jwt_verify unverified provider verify cfg token = Verified c"
  shows "\<exists>keys n. candidate_keys unverified provider cfg token = Inr keys \<and> n < length keys \<and> verify n token (keys ! n) cfg = Verified c"
  using assms try_keys_verified [of "\<lambda>n key. verify n token key cfg" 0 _ None None c]
  by (auto simp: jwt_verify_def split: sum.splits)

lemma jwt_call_only_admitted:
  assumes public: "split_public_paths (jc_public_paths cfg) = Inr public"
    and same: "\<And>s. admitted decode unverified provider cfg q s \<Longrightarrow> app q s = app' q s"
  shows "jwt_call (jwt_verify unverified provider (pyjwt_verify decode) cfg) cfg public app q s =
    jwt_call (jwt_verify unverified provider (pyjwt_verify decode) cfg) cfg public app' q s"
proof (cases "hq_type q \<noteq> ''http'' \<or> path_is_public (hq_url_path q) (fst public) (snd public)")
  case True
  then have "admitted decode unverified provider cfg q s"
    using public_exactly_listed [of "jc_public_paths cfg" "fst public" "snd public" "hq_url_path q"] public
    by (cases "hq_url_path q = hq_path q") (auto simp: admitted_def on_public_path_def disguised_def list_ex_iff)
  then have "app q s = app' q s" by (rule same)
  then show ?thesis using True by (auto simp: jwt_call_def)
next
  case False
  have passes: "app q (accept_claims c identity s) = app' q (accept_claims c identity s)"
    if t: "extract_bearer_token q = Some token"
      and v: "jwt_verify unverified provider (pyjwt_verify decode) cfg token = Verified c"
      and i: "claim_at (jc_identity_claim cfg) c = Some identity" for token c identity
  proof (rule same)
    from jwt_verify_verified [OF v] obtain keys n
      where "candidate_keys unverified provider cfg token = Inr keys" "n < length keys"
        "pyjwt_verify decode n token (keys ! n) cfg = Verified c" by blast
    then show "admitted decode unverified provider cfg q (accept_claims c identity s)"
      using t pyjwt_verified [OF _ i, of decode n token "keys ! n" s] by (auto simp: admitted_def vouched_token_def list_ex_iff)
  qed
  show ?thesis using False passes by (auto simp: jwt_call_def split: option.split token_verdict.split)
qed

lemma middleware_only_admitted:
  assumes "\<And>s. admitted decode unverified provider cfg q s \<Longrightarrow> app q s = app' q s"
  shows "map_sum id (\<lambda>m. m app q s) (jwt_middleware unverified provider (pyjwt_verify decode) cfg) =
    map_sum id (\<lambda>m. m app' q s) (jwt_middleware unverified provider (pyjwt_verify decode) cfg)"
proof (cases "split_public_paths (jc_public_paths cfg)")
  case (Inr public)
  from jwt_call_only_admitted [of _ _ decode unverified provider q app app', OF this assms] show ?thesis
    by (simp add: jwt_middleware_def Inr)
qed (simp add: jwt_middleware_def)

end
