(* ===== verification/Web_Sockets.thy ===== *)
theory Web_Sockets
  imports Jwt_Auth "HOL-Library.Sublist"
begin

text \<open>
  WebSocket routes (\<open>xime/adapters/web/ws\<close>): the token among the offered subprotocols, the registrar that guards a route
  and the life of a connection in \<open>WebSocketHandler.handle\<close>. The callbacks of the application, what the peer sends and
  cancellation are parameters.
\<close>

section \<open>Subprotocols\<close>

definition bearer_subprotocol_prefix :: string where "bearer_subprotocol_prefix = ''xime.bearer.''"

definition ws_unauthorized :: int where "ws_unauthorized = 3000"

definition split_entry :: "string \<Rightarrow> string option \<times> string option \<Rightarrow> string option \<times> string option" where
  "split_entry entry acc =
     (let (token, echo) = acc
      in if starts_with bearer_subprotocol_prefix entry
         then (if token = None
               then (let t = drop (length bearer_subprotocol_prefix) entry in if t = [] then None else Some t, echo)
               else acc)
         else if echo = None then (token, Some entry) else acc)"

definition split_subprotocols :: "string list \<Rightarrow> string option \<times> string option" where
  "split_subprotocols offered = fold split_entry offered (None, None)"

definition is_bearer :: "string \<Rightarrow> bool" where
  "is_bearer entry = starts_with bearer_subprotocol_prefix entry"

lemma fold_split_entry:
  "fold split_entry offered (token, echo) =
     (case token of
        Some t \<Rightarrow> Some t
      | None \<Rightarrow> map_option (drop (length bearer_subprotocol_prefix)) (find (\<lambda>e. is_bearer e \<and> e \<noteq> bearer_subprotocol_prefix) offered),
      case echo of Some e \<Rightarrow> Some e | None \<Rightarrow> find (\<lambda>e. \<not> is_bearer e) offered)"
proof (induction offered arbitrary: token echo)
  case (Cons entry offered)
  have e: "drop (length bearer_subprotocol_prefix) entry = [] \<longleftrightarrow> entry = bearer_subprotocol_prefix" if "is_bearer entry"
    using that by (metis append_Nil2 append_take_drop_id drop_eq_Nil is_bearer_def order_refl starts_with_def)
  have "split_entry entry (token, echo) =
    (if is_bearer entry \<and> entry \<noteq> bearer_subprotocol_prefix \<and> token = None then Some (drop (length bearer_subprotocol_prefix) entry) else token,
     if \<not> is_bearer entry \<and> echo = None then Some entry else echo)"
    using e unfolding split_entry_def is_bearer_def by (auto simp: Let_def)
  then show ?case by (cases token; cases echo) (auto simp: Cons.IH)
qed (auto split: option.splits)

text \<open>
  The token is the first bearer entry that carries one, and what is echoed is the first entry that is no bearer entry, so
  that a token is never sent back.
\<close>

lemma split_subprotocols_eq:
  "split_subprotocols offered =
     (map_option (drop (length bearer_subprotocol_prefix)) (find (\<lambda>e. is_bearer e \<and> e \<noteq> bearer_subprotocol_prefix) offered),
      find (\<lambda>e. \<not> is_bearer e) offered)"
  by (simp add: split_subprotocols_def fold_split_entry)

lemma token_never_echoed: "snd (split_subprotocols offered) = Some e \<Longrightarrow> \<not> is_bearer e \<and> e \<in> set offered"
  by (auto simp: split_subprotocols_eq find_Some_iff)

text \<open>A second bearer entry is read when the first is empty.\<close>

lemma second_bearer_entry_read:
  "split_subprotocols [''xime.bearer.'', ''xime.bearer.abc'', ''xime''] = (Some ''abc'', Some ''xime'')"
  by code_simp

section \<open>The guarded route\<close>

text \<open>What a connection ends as: refused with a close code, an exception, or what the handler did.\<close>

datatype 'r ws_answer = Closed int | WsCrashed string | Handled 'r

type_synonym 'r ws_app = "string list \<Rightarrow> request_scope \<Rightarrow> 'r ws_answer \<times> request_scope"

text \<open>The registrar: \<open>None\<close> for a process without \<open>configure_jwt\<close>.\<close>

record ws_registrar =
  wr_auth :: "(jwt_config \<times> (string \<Rightarrow> token_verdict)) option"
  wr_exact :: "string list"
  wr_prefixes :: "string list"

definition make_ws_registrar :: "(jwt_config \<times> (string \<Rightarrow> token_verdict)) option \<Rightarrow> path_error + ws_registrar" where
  "make_ws_registrar auth =
     (case auth of
        None \<Rightarrow> Inr \<lparr>wr_auth = None, wr_exact = [], wr_prefixes = []\<rparr>
      | Some (cfg, verify) \<Rightarrow>
          sbind (split_public_paths (jc_public_paths cfg))
            (\<lambda>(exact, prefixes). Inr \<lparr>wr_auth = Some (cfg, verify), wr_exact = exact, wr_prefixes = prefixes\<rparr>))"

definition requires_auth :: "ws_registrar \<Rightarrow> string \<Rightarrow> bool" where
  "requires_auth r path = (wr_auth r \<noteq> None \<and> \<not> path_is_public path (wr_exact r) (wr_prefixes r))"

text \<open>\<open>_authenticate\<close>: the reason of a refusal, or the scope with the identity.\<close>

datatype ws_check = WsRefused string | WsEscapes string | WsAccepted request_scope

definition ws_authenticate :: "jwt_config \<Rightarrow> (string \<Rightarrow> token_verdict) \<Rightarrow> string list \<Rightarrow> request_scope \<Rightarrow> ws_check" where
  "ws_authenticate cfg verify offered s =
     (case fst (split_subprotocols offered) of
        None \<Rightarrow> WsRefused ''no bearer subprotocol offered''
      | Some token \<Rightarrow>
          (case verify token of
             TokenExpired m \<Rightarrow> WsRefused m
           | Unauthenticated m \<Rightarrow> WsRefused m
           | Escapes e \<Rightarrow> WsEscapes e
           | Verified c \<Rightarrow>
               (case claim_at (jc_identity_claim cfg) c of
                  None \<Rightarrow> WsRefused (''token missing claim '' @ single_quoted (jc_identity_claim cfg))
                | Some identity \<Rightarrow> WsAccepted (accept_claims c identity s))))"

definition ws_endpoint :: "ws_registrar \<Rightarrow> string \<Rightarrow> 'r ws_app \<Rightarrow> 'r ws_app" where
  "ws_endpoint r path handler offered s =
     (case wr_auth r of
        None \<Rightarrow> handler offered s
      | Some (cfg, verify) \<Rightarrow>
          if \<not> requires_auth r path then handler offered s
          else case ws_authenticate cfg verify offered s of
                 WsRefused _ \<Rightarrow> (Closed ws_unauthorized, s)
               | WsEscapes e \<Rightarrow> (WsCrashed e, s)
               | WsAccepted s' \<Rightarrow> handler offered s')"

text \<open>
  What a connection on a route must have for the handler to run: a public route, or a token in its first bearer entry, the
  only one that is read by the documentation, which takes two for a malformed request. The code goes on to a later
  bearer entry when the first one is there but empty; a malformed offer of that kind is the one exception.
\<close>

definition token_entry :: "string \<Rightarrow> bool" where
  "token_entry e \<longleftrightarrow> is_bearer e \<and> e \<noteq> bearer_subprotocol_prefix"

definition malformed_offer :: "string list \<Rightarrow> bool" where
  "malformed_offer offered \<longleftrightarrow> find is_bearer offered = Some bearer_subprotocol_prefix"

definition ws_admitted ::
  "(nat \<Rightarrow> decode_args \<Rightarrow> decoding) \<Rightarrow> (string \<Rightarrow> claims option) \<Rightarrow> key_provider option \<Rightarrow> jwt_config \<Rightarrow> string \<Rightarrow> string list \<Rightarrow> request_scope \<Rightarrow> bool" where
  "ws_admitted decode unverified provider cfg path offered s \<longleftrightarrow>
     list_ex (\<lambda>raw. entry_covers raw path) (jc_public_paths cfg) \<or>
     (case (if malformed_offer offered then find token_entry offered else find is_bearer offered) of
        None \<Rightarrow> False
      | Some entry \<Rightarrow> token_entry entry \<and>
          vouched_token decode unverified provider cfg (drop (length bearer_subprotocol_prefix) entry) s)"

lemma admitting_entry:
  "find token_entry offered = Some entry \<Longrightarrow>
     (if malformed_offer offered then find token_entry offered else find is_bearer offered) = Some entry \<and> token_entry entry"
  by (induction offered) (auto simp: malformed_offer_def token_entry_def split: if_splits)

lemma ws_endpoint_only_admitted:
  assumes r: "make_ws_registrar (Some (cfg, jwt_verify unverified provider (pyjwt_verify decode) cfg)) = Inr r"
    and same: "\<And>s. ws_admitted decode unverified provider cfg path offered s \<Longrightarrow> handler offered s = handler' offered s"
  shows "ws_endpoint r path handler offered s = ws_endpoint r path handler' offered s"
proof -
  let ?verify = "jwt_verify unverified provider (pyjwt_verify decode) cfg"
  from r have auth: "wr_auth r = Some (cfg, ?verify)"
    and split: "split_public_paths (jc_public_paths cfg) = Inr (wr_exact r, wr_prefixes r)"
    by (auto simp: make_ws_registrar_def sbind_eq_Inr)
  show ?thesis
  proof (cases "requires_auth r path")
    case False
    then have "ws_admitted decode unverified provider cfg path offered s"
      using auth public_exactly_listed [OF split, of path] by (auto simp: requires_auth_def ws_admitted_def list_ex_iff)
    then have "handler offered s = handler' offered s" by (rule same)
    then show ?thesis using False auth by (simp add: ws_endpoint_def)
  next
    case True
    have "handler offered s' = handler' offered s'" if a: "ws_authenticate cfg ?verify offered s = WsAccepted s'" for s'
    proof (rule same)
      from a obtain token c identity where t: "fst (split_subprotocols offered) = Some token"
        and v: "?verify token = Verified c" and i: "claim_at (jc_identity_claim cfg) c = Some identity"
        and s': "s' = accept_claims c identity s"
        by (auto simp: ws_authenticate_def split: option.splits token_verdict.splits)
      obtain keys n where k: "candidate_keys unverified provider cfg token = Inr keys" "n < length keys"
        "pyjwt_verify decode n token (keys ! n) cfg = Verified c"
        using jwt_verify_verified [OF v] by blast
      from t obtain entry where e: "find token_entry offered = Some entry" "token = drop (length bearer_subprotocol_prefix) entry"
        by (auto simp: split_subprotocols_eq token_entry_def [abs_def])
      have "vouched_token decode unverified provider cfg token s'"
        using k pyjwt_verified [OF k(3) i, of s] by (auto simp: vouched_token_def s' list_ex_iff)
      then show "ws_admitted decode unverified provider cfg path offered s'"
        using admitting_entry [OF e(1)] e(2) by (simp add: ws_admitted_def)
    qed
    then show ?thesis using True auth by (auto simp: ws_endpoint_def split: ws_check.split)
  qed
qed

section \<open>The life of a connection\<close>

datatype callback = OnConnect | OnMessage string | OnBytes string | OnDisconnect int

text \<open>How an awaited call ends; \<open>Cancelled\<close> is the exception that is no \<open>Exception\<close>.\<close>

datatype ending = Fine | PeerGone int | Fails string | Cancelled

datatype arrival = TextFrame string | BytesFrame string | EmptyFrame | Disconnect "int option" | ReceiveEnds ending

text \<open>
  The loop over what \<open>receive\<close> gives: how the body of the \<open>try\<close> ends, \<open>None\<close> while it waits, and the callbacks made.
  \<open>run n c\<close> is how the n-th callback ends.
\<close>

fun receive_loop :: "(nat \<Rightarrow> callback \<Rightarrow> ending) \<Rightarrow> arrival list \<Rightarrow> callback list \<Rightarrow> ending option \<times> callback list" where
  "receive_loop run [] made = (None, made)"
| "receive_loop run (Disconnect code # _) made =
     (let c = OnDisconnect (case code of Some k \<Rightarrow> k | None \<Rightarrow> 1000) in (Some (run (length made) c), made @ [c]))"
| "receive_loop run (ReceiveEnds Fine # as) made = receive_loop run as made"
| "receive_loop run (ReceiveEnds e # _) made = (Some e, made)"
| "receive_loop run (EmptyFrame # as) made = receive_loop run as made"
| "receive_loop run (TextFrame t # as) made =
     (case run (length made) (OnMessage t) of
        Fine \<Rightarrow> receive_loop run as (made @ [OnMessage t])
      | e \<Rightarrow> (Some e, made @ [OnMessage t]))"
| "receive_loop run (BytesFrame t # as) made =
     (case run (length made) (OnBytes t) of
        Fine \<Rightarrow> receive_loop run as (made @ [OnBytes t])
      | e \<Rightarrow> (Some e, made @ [OnBytes t]))"

text \<open>The exception handlers: a callback that raises there replaces the exception.\<close>

definition handle_end :: "(nat \<Rightarrow> callback \<Rightarrow> ending) \<Rightarrow> bool \<Rightarrow> ending \<times> callback list \<Rightarrow> ending \<times> callback list" where
  "handle_end run was_up em =
     (let (e, made) = em
      in case e of
           PeerGone code \<Rightarrow>
             if was_up then (run (length made) (OnDisconnect code), made @ [OnDisconnect code]) else (Fine, made)
         | Fails m \<Rightarrow>
             if was_up
             then (case run (length made) (OnDisconnect 1011) of Fine \<Rightarrow> Fails m | e' \<Rightarrow> e', made @ [OnDisconnect 1011])
             else (Fails m, made)
         | Fine \<Rightarrow> (Fine, made)
         | Cancelled \<Rightarrow> (Cancelled, made))"

text \<open>\<open>handle\<close>: the ending, the callbacks and the scope that is left; \<open>None\<close> while the connection is open.\<close>

definition ws_handle ::
  "string \<Rightarrow> (nat \<Rightarrow> callback \<Rightarrow> ending) \<Rightarrow> arrival list \<Rightarrow> request_scope \<Rightarrow> (ending \<times> callback list) option \<times> callback list \<times> request_scope" where
  "ws_handle connection_id run arrivals s =
     (let s' = ctx_set ''connection_id'' (CtxText connection_id) s
      in case run 0 OnConnect of
           Fine \<Rightarrow>
             (case receive_loop run arrivals [OnConnect] of
                (None, made) \<Rightarrow> (None, made, s')
              | (Some e, made) \<Rightarrow>
                  let em = handle_end run True (e, made) in (Some em, snd em, clear_security (ctx_clear s')))
         | e \<Rightarrow> let em = handle_end run False (e, [OnConnect]) in (Some em, snd em, clear_security (ctx_clear s')))"

text \<open>
  \<open>_start_expiry_watchdog\<close>: the delay after which the connection is closed. A boolean is a number in Python.
\<close>

definition expiry_delay :: "bool \<Rightarrow> rat \<Rightarrow> request_scope \<Rightarrow> rat option" where
  "expiry_delay close_on_token_expiry now s =
     (if \<not> close_on_token_expiry then None
      else case ctx_get jwt_claims_key s of
             Some (CtxClaims c) \<Rightarrow>
               (case claim_at ''exp'' c of
                  Some (CInt e) \<Rightarrow> Some (max 0 (of_int e - now))
                | Some (CFloat e) \<Rightarrow> Some (max 0 (e - now))
                | Some (CBool b) \<Rightarrow> Some (max 0 ((if b then 1 else 0) - now))
                | _ \<Rightarrow> None)
           | _ \<Rightarrow> None)"

definition is_on_disconnect :: "callback \<Rightarrow> bool" where
  "is_on_disconnect c = (case c of OnDisconnect _ \<Rightarrow> True | _ \<Rightarrow> False)"

definition disconnects :: "callback list \<Rightarrow> nat" where
  "disconnects made = length (filter is_on_disconnect made)"

lemma disconnects_simps [simp]:
  "disconnects [] = 0"
  "disconnects (a @ b) = disconnects a + disconnects b"
  "disconnects [c] = (if is_on_disconnect c then 1 else 0)"
  by (simp_all add: disconnects_def)

lemma is_on_disconnect_simps [simp]:
  "is_on_disconnect (OnDisconnect n)" "\<not> is_on_disconnect OnConnect" "\<not> is_on_disconnect (OnMessage t)" "\<not> is_on_disconnect (OnBytes t)"
  by (simp_all add: is_on_disconnect_def)

text \<open>The loop ends with one \<open>on_disconnect\<close>, the last callback, which ends as the loop does, or with none.\<close>

lemma receive_loop_disconnects:
  assumes "receive_loop run as made = (r, made')" and "disconnects made = 0"
  shows "(disconnects made' = 0 \<and> (\<forall>e. r = Some e \<longrightarrow> e \<noteq> Fine)) \<or>
    (\<exists>front code. made' = front @ [OnDisconnect code] \<and> disconnects front = 0 \<and> r = Some (run (length front) (OnDisconnect code)))"
  using assms
proof (induction run as made rule: receive_loop.induct)
  case (2 run code u made)
  then show ?case by (auto simp: Let_def)
next
  case (6 run t as made)
  then show ?case by (cases "run (length made) (OnMessage t)") auto
next
  case (7 run t as made)
  then show ?case by (cases "run (length made) (OnBytes t)") auto
qed auto

lemma receive_loop_front: "receive_loop run as made = (r, made') \<Longrightarrow> prefix made made'"
proof (induction run as made rule: receive_loop.induct)
  case (6 run t as made)
  then show ?case by (cases "run (length made) (OnMessage t)") (auto dest: append_prefixD)
next
  case (7 run t as made)
  then show ?case by (cases "run (length made) (OnBytes t)") (auto dest: append_prefixD)
qed (auto simp: Let_def)

lemma handle_end_disconnects:
  assumes quiet: "\<And>n code. run n (OnDisconnect code) = Fine"
    and loop: "receive_loop run as [OnConnect] = (Some e, made)"
    and finish: "handle_end run True (e, made) = (e', made')" "e' \<noteq> Cancelled"
  shows "disconnects made' = 1 \<and> is_on_disconnect (last made')"
proof -
  have "disconnects [OnConnect] = 0" by simp
  from receive_loop_disconnects [OF loop this] show ?thesis
  proof (elim disjE)
    assume none: "disconnects made = 0 \<and> (\<forall>e'. Some e = Some e' \<longrightarrow> e' \<noteq> Fine)"
    then show ?thesis using finish by (cases e) (auto simp: handle_end_def Let_def)
  next
    assume "\<exists>front code. made = front @ [OnDisconnect code] \<and> disconnects front = 0 \<and> Some e = Some (run (length front) (OnDisconnect code))"
    then show ?thesis using finish quiet by (auto simp: handle_end_def)
  qed
qed

text \<open>
  When the \<open>on_disconnect\<close> of the application does not raise, a connection that ends otherwise than by cancellation
  has it called exactly once, as the last callback, when \<open>on_connect\<close> succeeded, and not at all when it did not; what the
  connection put into the context and the security slots is gone.
\<close>

theorem on_disconnect_once:
  assumes "\<And>n code. run n (OnDisconnect code) = Fine"
    and "ws_handle connection_id run arrivals s = (Some (e, made), made', s')"
    and "e \<noteq> Cancelled"
  shows "s' = clean_scope \<and> made' = made \<and> hd made = OnConnect \<and>
    (if run 0 OnConnect = Fine then disconnects made = 1 \<and> is_on_disconnect (last made) else made = [OnConnect])"
proof (cases "run 0 OnConnect = Fine")
  case True
  then obtain e0 made0 where loop: "receive_loop run arrivals [OnConnect] = (Some e0, made0)"
    and em: "handle_end run True (e0, made0) = (e, made)" and eqs: "made' = made" "s' = clean_scope"
    using assms(2) by (auto simp: ws_handle_def Let_def split: option.splits prod.splits)
  have "\<exists>rest. made0 = OnConnect # rest"
    using receive_loop_front [OF loop] by (auto simp: prefix_def)
  then have "hd made = OnConnect" using em by (auto simp: handle_end_def Let_def split: ending.splits)
  then show ?thesis using True eqs handle_end_disconnects [OF assms(1) loop em assms(3)] by simp
next
  case False
  then show ?thesis using assms(2,3)
    by (cases "run 0 OnConnect") (auto simp: ws_handle_def handle_end_def Let_def)
qed

theorem on_disconnect_once_witness:
  "let run = (\<lambda>n c. if c = OnMessage ''bad'' then Fails ''ValueError'' else Fine);
       out = ws_handle ''id'' run [TextFrame ''ok'', TextFrame ''bad'', TextFrame ''never''] clean_scope
   in out = (Some (Fails ''ValueError'', [OnConnect, OnMessage ''ok'', OnMessage ''bad'', OnDisconnect 1011]),
             [OnConnect, OnMessage ''ok'', OnMessage ''bad'', OnDisconnect 1011], clean_scope) \<and>
      disconnects (fst (snd out)) = 1"
proof -
  let ?run = "\<lambda>n c. if c = OnMessage ''bad'' then Fails ''ValueError'' else Fine"
  have out: "ws_handle ''id'' ?run [TextFrame ''ok'', TextFrame ''bad'', TextFrame ''never''] clean_scope =
    (Some (Fails ''ValueError'', [OnConnect, OnMessage ''ok'', OnMessage ''bad'', OnDisconnect 1011]),
     [OnConnect, OnMessage ''ok'', OnMessage ''bad'', OnDisconnect 1011], clean_scope)"
    by code_simp
  show ?thesis using on_disconnect_once [OF _ out] by (simp add: out)
qed

text \<open>An \<open>on_disconnect\<close> that raises is called again, with the code of an internal error.\<close>

lemma raising_on_disconnect_runs_twice:
  "ws_handle ''id'' (\<lambda>n c. if is_on_disconnect c then Fails ''OSError'' else Fine) [Disconnect (Some 1001)] clean_scope =
     (Some (Fails ''OSError'', [OnConnect, OnDisconnect 1001, OnDisconnect 1011]), [OnConnect, OnDisconnect 1001, OnDisconnect 1011],
      clean_scope)"
  by code_simp

text \<open>A connection whose task is cancelled, as at a shutdown, ends without \<open>on_disconnect\<close>.\<close>

lemma cancelled_connection_without_on_disconnect:
  "ws_handle ''id'' (\<lambda>n c. Fine) [TextFrame ''hi'', ReceiveEnds Cancelled] clean_scope =
     (Some (Cancelled, [OnConnect, OnMessage ''hi'']), [OnConnect, OnMessage ''hi''], clean_scope)"
  by code_simp

end
