(* ===== verification/Tls_Reload.thy ===== *)
theory Tls_Reload
  imports Shared_Memory
begin

text \<open>
  Certificates that are replaced while the server runs (\<open>xime/adapters/web/_tls_reload.py\<close>) and the options of a web
  server (\<open>_server_config.py\<close>): what a reload serves, the command that asks every worker for one, their answers and the
  result. The file system is a parameter: \<open>look n path\<close> is what the n-th look finds, \<open>load n\<close> whether a context can be
  built then. A context is the number of the look it was built at.
\<close>

section \<open>Configuration\<close>

datatype cert_reqs = CertNone | CertOptional | CertRequired

record tls_config =
  tc_certfile :: "string option"
  tc_keyfile :: "string option"
  tc_keyfile_password :: "string option"
  tc_ca_certs :: "string option"
  tc_cert_reqs :: "cert_reqs option"
  tc_ciphers :: "string option"

definition given :: "string option \<Rightarrow> bool" where
  "given v = (case v of Some (_ # _) \<Rightarrow> True | _ \<Rightarrow> False)"

definition tls_enabled :: "tls_config \<Rightarrow> bool" where
  "tls_enabled tls = (given (tc_certfile tls) \<or> given (tc_keyfile tls))"

datatype reload_mode = ModeOff | ModeWatch | ModeApi | ModeBoth

record web_server_config =
  ws_host :: string
  ws_port :: int
  ws_ssl :: tls_config
  ws_reload_mode :: reload_mode
  ws_reload_interval :: int
  ws_management :: bool
  ws_management_host :: string
  ws_management_port :: "int option"

datatype config_problem =
  BothServerKeys | NotAMapping | BadInterval int | ManagementNotLoopback string | BadManagementPort int
| ManagementNeedsPort | ApiNeedsManagement

text \<open>
  The validators over a record pydantic has built; \<open>loopback\<close> tells which texts are loopback addresses. Fields are
  checked from the inside out.
\<close>

definition validate_web_config :: "(string \<Rightarrow> bool) \<Rightarrow> web_server_config \<Rightarrow> config_problem + web_server_config" where
  "validate_web_config loopback c =
     (if ws_reload_interval c \<le> 0 then Inl (BadInterval (ws_reload_interval c))
      else if \<not> loopback (ws_management_host c) then Inl (ManagementNotLoopback (ws_management_host c))
      else if (case ws_management_port c of Some p \<Rightarrow> p < 1 \<or> 65535 < p | None \<Rightarrow> False)
           then Inl (BadManagementPort (the (ws_management_port c)))
      else if ws_management c \<and> ws_management_port c = None then Inl ManagementNeedsPort
      else if ws_reload_mode c \<in> {ModeApi, ModeBoth} \<and> \<not> ws_management c then Inl ApiNeedsManagement
      else Inr c)"

definition default_tls :: tls_config where
  "default_tls = \<lparr>tc_certfile = None, tc_keyfile = None, tc_keyfile_password = None, tc_ca_certs = None, tc_cert_reqs = None,
     tc_ciphers = None\<rparr>"

definition default_web_config :: web_server_config where
  "default_web_config = \<lparr>ws_host = ''0.0.0.0'', ws_port = 8080, ws_ssl = default_tls, ws_reload_mode = ModeOff,
     ws_reload_interval = 300, ws_management = False, ws_management_host = ''127.0.0.1'', ws_management_port = None\<rparr>"

text \<open>A section of the configuration: absent, no mapping, or a mapping that pydantic reads.\<close>

datatype config_section = Absent | Scalar | Mapping web_server_config

definition from_runtime :: "(string \<Rightarrow> bool) \<Rightarrow> config_section \<Rightarrow> config_section \<Rightarrow> config_problem + web_server_config" where
  "from_runtime loopback webserver legacy =
     (if webserver \<noteq> Absent \<and> legacy \<noteq> Absent then Inl BothServerKeys
      else case (if webserver \<noteq> Absent then webserver else legacy) of
             Absent \<Rightarrow> Inr default_web_config
           | Scalar \<Rightarrow> Inl NotAMapping
           | Mapping c \<Rightarrow> validate_web_config loopback c)"

section \<open>Versions of files\<close>

record file_version =
  fv_path :: string
  fv_device :: nat
  fv_inode :: nat
  fv_length :: nat
  fv_modified :: nat
  fv_digest :: string

record applied_version =
  av_certificate :: file_version
  av_private_key :: file_version
  av_ca :: "file_version option"

type_synonym looks = "nat \<Rightarrow> string \<Rightarrow> file_version option"

text \<open>\<open>_version\<close> at look \<open>n\<close>, three looks at most; \<open>None\<close> is an exception.\<close>

definition version_at :: "looks \<Rightarrow> tls_config \<Rightarrow> nat \<Rightarrow> applied_version option" where
  "version_at look tls n =
     (case (tc_certfile tls, tc_keyfile tls) of
        (Some (c # cs), Some (k # ks)) \<Rightarrow>
          Option.bind (case tc_ca_certs tls of Some (a # as) \<Rightarrow> map_option Some (look n (a # as)) | _ \<Rightarrow> Some None)
            (\<lambda>ca. Option.bind (look (n + 1) (c # cs))
               (\<lambda>cert. map_option (\<lambda>key. \<lparr>av_certificate = cert, av_private_key = key, av_ca = ca\<rparr>) (look (n + 2) (k # ks))))
      | _ \<Rightarrow> None)"

definition content_fingerprint :: "applied_version \<Rightarrow> (string \<times> string) list" where
  "content_fingerprint v =
     map (\<lambda>f. (fv_path f, fv_digest f))
       ([av_certificate v, av_private_key v] @ (case av_ca v of Some f \<Rightarrow> [f] | None \<Rightarrow> []))"

definition certificate_fingerprint :: "applied_version \<Rightarrow> string" where
  "certificate_fingerprint v = fv_digest (av_certificate v)"

section \<open>The reloader\<close>

record reloader =
  rl_factory :: bool
  rl_listener :: "nat option"
  rl_current :: "nat option"
  rl_applied :: "applied_version option"

definition new_reloader :: reloader where
  "new_reloader = \<lparr>rl_factory = False, rl_listener = None, rl_current = None, rl_applied = None\<rparr>"

text \<open>\<open>ssl_context_factory\<close>, called while uvicorn loads its configuration: \<open>None\<close> is an exception.\<close>

definition ssl_context_factory :: "looks \<Rightarrow> (nat \<Rightarrow> bool) \<Rightarrow> tls_config \<Rightarrow> nat \<Rightarrow> reloader \<Rightarrow> reloader option" where
  "ssl_context_factory look load tls n r =
     Option.bind (version_at look tls n)
       (\<lambda>before. if \<not> load (n + 3) then None
         else Option.bind (version_at look tls (n + 4))
           (\<lambda>after. if before \<noteq> after then None
             else Some (r\<lparr>rl_factory := True, rl_listener := Some (n + 3), rl_current := Some (n + 3), rl_applied := Some after\<rparr>)))"

datatype tls_outcome = Reloaded | Unchanged | Failed | TimedOut | PartlyDone

record worker_result =
  wk_index :: int
  wk_outcome :: tls_outcome
  wk_fingerprint :: "string option"
  wk_detail :: "string option"

text \<open>\<open>reload\<close>; \<open>why\<close> is the type name of the exception.\<close>

definition reload :: "looks \<Rightarrow> (nat \<Rightarrow> bool) \<Rightarrow> string \<Rightarrow> tls_config \<Rightarrow> nat \<Rightarrow> reloader \<Rightarrow> worker_result \<times> reloader" where
  "reload look load why tls n r =
     (let failed = (\<lparr>wk_index = -1, wk_outcome = Failed, wk_fingerprint = None, wk_detail = Some why\<rparr>, r)
      in case version_at look tls n of
           None \<Rightarrow> failed
         | Some before \<Rightarrow>
             if (case rl_applied r of Some a \<Rightarrow> content_fingerprint before = content_fingerprint a | None \<Rightarrow> False)
             then (\<lparr>wk_index = -1, wk_outcome = Unchanged, wk_fingerprint = Some (certificate_fingerprint before), wk_detail = None\<rparr>, r)
             else if \<not> rl_factory r \<or> \<not> load (n + 3) then failed
             else case version_at look tls (n + 4) of
                    None \<Rightarrow> failed
                  | Some after \<Rightarrow>
                      if before \<noteq> after then failed
                      else (\<lparr>wk_index = -1, wk_outcome = Reloaded, wk_fingerprint = Some (certificate_fingerprint after), wk_detail = None\<rparr>,
                            r\<lparr>rl_current := Some (n + 3), rl_applied := Some after\<rparr>))"

text \<open>The callback of a handshake: the context of the socket is replaced when it is the listener's.\<close>

definition select_context :: "nat \<Rightarrow> reloader \<Rightarrow> nat" where
  "select_context context r =
     (if rl_listener r \<noteq> Some context then context else case rl_current r of Some c \<Rightarrow> c | None \<Rightarrow> context)"

datatype tls_event = Startup nat | ReloadAt nat string

definition tls_step :: "looks \<Rightarrow> (nat \<Rightarrow> bool) \<Rightarrow> tls_config \<Rightarrow> tls_event \<Rightarrow> reloader \<Rightarrow> reloader" where
  "tls_step look load tls st r =
     (case st of
        Startup n \<Rightarrow> (case ssl_context_factory look load tls n r of Some r' \<Rightarrow> r' | None \<Rightarrow> r)
      | ReloadAt n why \<Rightarrow> snd (reload look load why tls n r))"

text \<open>A context that was built between two looks at the files that found one version.\<close>

definition built_from :: "looks \<Rightarrow> (nat \<Rightarrow> bool) \<Rightarrow> tls_config \<Rightarrow> nat \<Rightarrow> applied_version \<Rightarrow> bool" where
  "built_from look load tls context v \<longleftrightarrow>
     3 \<le> context \<and> load context \<and> version_at look tls (context - 3) = Some v \<and> version_at look tls (context + 1) = Some v"

definition reloader_ok :: "looks \<Rightarrow> (nat \<Rightarrow> bool) \<Rightarrow> tls_config \<Rightarrow> reloader \<Rightarrow> bool" where
  "reloader_ok look load tls r \<longleftrightarrow>
     (rl_factory r \<longleftrightarrow> rl_listener r \<noteq> None) \<and> (rl_listener r = None \<longleftrightarrow> rl_current r = None) \<and>
     (case (rl_current r, rl_applied r) of
        (Some c, Some v) \<Rightarrow> built_from look load tls c v
      | (None, None) \<Rightarrow> True
      | _ \<Rightarrow> False)"

lemma startup_ok:
  "reloader_ok look load tls r \<Longrightarrow> ssl_context_factory look load tls n r = Some r' \<Longrightarrow> reloader_ok look load tls r'"
  by (auto simp: ssl_context_factory_def reloader_ok_def built_from_def bind_eq_Some_conv add.commute split: if_splits)

lemma reload_cases:
  "(snd (reload look load why tls n r) = r \<and> wk_outcome (fst (reload look load why tls n r)) \<in> {Unchanged, Failed}) \<or>
   (\<exists>v. rl_factory r \<and> built_from look load tls (n + 3) v \<and>
      reload look load why tls n r =
        (\<lparr>wk_index = -1, wk_outcome = Reloaded, wk_fingerprint = Some (certificate_fingerprint v), wk_detail = None\<rparr>,
         r\<lparr>rl_current := Some (n + 3), rl_applied := Some v\<rparr>))"
  unfolding reload_def built_from_def Let_def
  by (simp add: add.commute split: option.split)

lemma tls_step_ok: "reloader_ok look load tls r \<Longrightarrow> reloader_ok look load tls (tls_step look load tls st r)"
proof (cases st)
  case (Startup n)
  then show "reloader_ok look load tls r \<Longrightarrow> ?thesis" using startup_ok by (auto simp: tls_step_def split: option.splits)
next
  case (ReloadAt n why)
  assume "reloader_ok look load tls r"
  then show ?thesis
    using reload_cases [of look load why tls n r] by (auto simp: tls_step_def ReloadAt reloader_ok_def split: option.splits)
qed

text \<open>
  C38: Whatever starts and reloads have happened, the context a new connection is given on the listener is one that was
  built between two looks at the certificate, key and CA files that found the same version, which is the version recorded
  as applied; a reload that fails leaves the served context and the recorded version as they were.
\<close>

theorem served_context_matches_its_files:
  "let r = fold (tls_step look load tls) steps new_reloader
   in (case rl_listener r of
         Some context \<Rightarrow> (case rl_applied r of Some v \<Rightarrow> built_from look load tls (select_context context r) v | None \<Rightarrow> False)
       | None \<Rightarrow> rl_applied r = None) \<and>
      (let (result, r') = reload look load why tls n r
       in wk_outcome result = Reloaded \<or> (r' = r \<and> wk_outcome result \<in> {Unchanged, Failed}))"
proof -
  let ?r = "fold (tls_step look load tls) steps new_reloader"
  have "reloader_ok look load tls (fold (tls_step look load tls) steps r)" if "reloader_ok look load tls r" for r
    using that by (induction steps arbitrary: r) (auto intro: tls_step_ok)
  moreover have "reloader_ok look load tls new_reloader" by (simp add: reloader_ok_def new_reloader_def)
  ultimately have ok: "reloader_ok look load tls ?r" by blast
  have "wk_outcome (fst (reload look load why tls n ?r)) = Reloaded \<or>
      (snd (reload look load why tls n ?r) = ?r \<and> wk_outcome (fst (reload look load why tls n ?r)) \<in> {Unchanged, Failed})"
    using reload_cases [of look load why tls n ?r] by auto
  moreover have "case rl_listener ?r of
      Some context \<Rightarrow> (case rl_applied ?r of Some v \<Rightarrow> built_from look load tls (select_context context ?r) v | None \<Rightarrow> False)
    | None \<Rightarrow> rl_applied ?r = None"
    using ok unfolding reloader_ok_def select_context_def by (auto split: option.splits)
  ultimately show ?thesis unfolding Let_def split_beta by blast
qed

section \<open>The command and its acknowledgement\<close>

definition is_ascii :: "char \<Rightarrow> bool" where
  "is_ascii c = ((of_char c :: nat) < 128)"

definition ascii_byte :: "char \<Rightarrow> byte" where
  "ascii_byte c = word_of_nat (of_char c)"

definition byte_char :: "byte \<Rightarrow> char" where
  "byte_char b = char_of (unat b)"

text \<open>\<open>encode("ascii")\<close> and \<open>decode("ascii")\<close>; \<open>None\<close> is an exception.\<close>

definition encode_ascii :: "string \<Rightarrow> byte list option" where
  "encode_ascii s = (if list_all is_ascii s then Some (map ascii_byte s) else None)"

definition decode_ascii :: "byte list \<Rightarrow> string option" where
  "decode_ascii bs = (if list_all (\<lambda>b. unat b < 128) bs then Some (map byte_char bs) else None)"

lemma unat_ascii_byte: "is_ascii c \<Longrightarrow> unat (ascii_byte c) = of_char c"
  by (simp add: is_ascii_def ascii_byte_def unat_of_nat)

lemma decode_encode_ascii [simp]: "list_all is_ascii s \<Longrightarrow> decode_ascii (map ascii_byte s) = Some s"
  by (induction s) (auto simp: decode_ascii_def byte_char_def unat_ascii_byte is_ascii_def split: if_splits)

definition command_version :: byte where "command_version = 1"

definition encode_command :: "string \<Rightarrow> byte list option" where
  "encode_command server_id =
     Option.bind (encode_ascii server_id)
       (\<lambda>encoded. if encoded = [] \<or> 64 < length encoded then None
         else Some ([command_version, word_of_nat (length encoded)] @ encoded))"

definition decode_command :: "byte list \<Rightarrow> string option" where
  "decode_command payload =
     (if length payload < 3 \<or> payload ! 0 \<noteq> command_version then None
      else let size = unat (payload ! 1)
           in if size < 1 \<or> 64 < size \<or> length payload \<noteq> size + 2 then None else decode_ascii (drop 2 payload))"

lemma decode_encode_command: "encode_command server_id = Some payload \<Longrightarrow> decode_command payload = Some server_id"
  by (auto simp: encode_command_def decode_command_def encode_ascii_def bind_eq_Some_conv Let_def unat_of_nat Suc_le_eq
    split: if_splits)

definition status_byte :: "tls_outcome \<Rightarrow> byte" where
  "status_byte r = (case r of Reloaded \<Rightarrow> 1 | Unchanged \<Rightarrow> 2 | _ \<Rightarrow> 3)"

text \<open>\<open>errors="replace"\<close> writes a question mark for every other character; a length above 255 is an exception.\<close>

definition ascii_or_mark :: "string \<Rightarrow> string" where
  "ascii_or_mark s = map (\<lambda>c. if is_ascii c then c else CHR ''?'') s"

definition encode_worker_result :: "worker_result \<Rightarrow> byte list option" where
  "encode_worker_result r =
     Option.bind (encode_ascii (case wk_fingerprint r of Some f \<Rightarrow> f | None \<Rightarrow> []))
       (\<lambda>fingerprint.
          let detail = take 64 (map ascii_byte (ascii_or_mark (case wk_detail r of Some d \<Rightarrow> d | None \<Rightarrow> [])))
          in if 255 < length fingerprint then None
             else Some ([status_byte (wk_outcome r), word_of_nat (length fingerprint)] @ fingerprint @ [word_of_nat (length detail)] @ detail))"

definition text_or_none :: "string \<Rightarrow> string option" where
  "text_or_none s = (if s = [] then None else Some s)"

definition invalid_ack :: "int \<Rightarrow> worker_result" where
  "invalid_ack index = \<lparr>wk_index = index, wk_outcome = Failed, wk_fingerprint = None, wk_detail = Some ''InvalidAcknowledgement''\<rparr>"

definition decode_worker_result :: "int \<Rightarrow> byte list \<Rightarrow> worker_result" where
  "decode_worker_result index payload =
     (if length payload < 3 \<or> payload ! 0 \<notin> {1, 2, 3} then invalid_ack index
      else let status = (if payload ! 0 = 1 then Reloaded else if payload ! 0 = 2 then Unchanged else Failed);
               fp_end = 2 + unat (payload ! 1)
           in if length payload \<le> fp_end then invalid_ack index
              else let detail_end = fp_end + 1 + unat (payload ! fp_end)
                   in if detail_end \<noteq> length payload then invalid_ack index
                      else (case (decode_ascii (drop 2 (take fp_end payload)), decode_ascii (drop (fp_end + 1) (take detail_end payload))) of
                              (Some fingerprint, Some detail) \<Rightarrow>
                                \<lparr>wk_index = index, wk_outcome = status, wk_fingerprint = text_or_none fingerprint, wk_detail = text_or_none detail\<rparr>
                            | _ \<Rightarrow> invalid_ack index))"

text \<open>What a worker's result becomes on the way: the index is that of the worker, and the detail is cut.\<close>

definition arrives_as :: "int \<Rightarrow> worker_result \<Rightarrow> worker_result" where
  "arrives_as index r =
     \<lparr>wk_index = index, wk_outcome = (if wk_outcome r \<in> {Reloaded, Unchanged} then wk_outcome r else Failed),
      wk_fingerprint = text_or_none (case wk_fingerprint r of Some f \<Rightarrow> f | None \<Rightarrow> []),
      wk_detail = text_or_none (take 64 (ascii_or_mark (case wk_detail r of Some d \<Rightarrow> d | None \<Rightarrow> [])))\<rparr>"

lemma ascii_or_mark_ascii: "list_all is_ascii (take n (ascii_or_mark s))"
proof -
  have "c \<in> set (ascii_or_mark s) \<Longrightarrow> is_ascii c" for c by (auto simp: ascii_or_mark_def is_ascii_def)
  then show ?thesis by (auto simp: list_all_iff dest: in_set_takeD)
qed

lemma decode_frame:
  assumes "length f \<le> 255" "length d \<le> 255" "b \<in> {1, 2, 3}"
  shows "decode_worker_result index ([b, word_of_nat (length f)] @ f @ [word_of_nat (length d)] @ d) =
    (case (decode_ascii f, decode_ascii d) of
       (Some fingerprint, Some detail) \<Rightarrow>
         \<lparr>wk_index = index, wk_outcome = (if b = 1 then Reloaded else if b = 2 then Unchanged else Failed),
          wk_fingerprint = text_or_none fingerprint, wk_detail = text_or_none detail\<rparr>
     | _ \<Rightarrow> invalid_ack index)"
  using assms by (simp add: decode_worker_result_def Let_def unat_of_nat nth_append)

lemma decode_encode_worker_result:
  assumes "encode_worker_result r = Some payload"
  shows "decode_worker_result index payload = arrives_as index r"
proof -
  let ?f = "case wk_fingerprint r of Some f \<Rightarrow> f | None \<Rightarrow> []" and ?d = "case wk_detail r of Some d \<Rightarrow> d | None \<Rightarrow> []"
  let ?detail = "map ascii_byte (take 64 (ascii_or_mark ?d))"
  from assms have f: "list_all is_ascii ?f" "length ?f \<le> 255"
    and payload: "payload = [status_byte (wk_outcome r), word_of_nat (length (map ascii_byte ?f))] @ map ascii_byte ?f @ [word_of_nat (length ?detail)] @ ?detail"
    by (auto simp: encode_worker_result_def encode_ascii_def bind_eq_Some_conv Let_def take_map split: if_splits)
  have "decode_worker_result index payload =
    \<lparr>wk_index = index, wk_outcome = (if status_byte (wk_outcome r) = 1 then Reloaded else if status_byte (wk_outcome r) = 2 then Unchanged else Failed),
     wk_fingerprint = text_or_none ?f, wk_detail = text_or_none (take 64 (ascii_or_mark ?d))\<rparr>"
    unfolding payload
    by (subst decode_frame) (auto simp: f ascii_or_mark_ascii status_byte_def split: tls_outcome.split)
  then show ?thesis by (cases "wk_outcome r") (simp_all add: arrives_as_def status_byte_def)
qed

section \<open>The reload of a whole cluster\<close>

record reload_result =
  rr_server :: string
  rr_outcome :: tls_outcome
  rr_workers :: "worker_result list"
  rr_missing :: "nat list"

definition good :: "worker_result \<Rightarrow> bool" where
  "good w = (wk_outcome w \<in> {Reloaded, Unchanged})"

definition succeeded :: "reload_result \<Rightarrow> bool" where
  "succeeded r = (rr_outcome r \<in> {Reloaded, Unchanged} \<and> rr_workers r \<noteq> [] \<and> rr_missing r = [] \<and> list_all good (rr_workers r))"

text \<open>A web listener of this process: its id, whether it is the management one, its reloader and whether it is active.\<close>

record listener =
  li_id :: string
  li_management :: bool
  li_reloader :: "reloader option"
  li_active :: bool

definition listeners :: "listener list \<Rightarrow> string \<Rightarrow> listener list" where
  "listeners adapters server = filter (\<lambda>a. \<not> li_management a \<and> li_id a = server) adapters"

text \<open>\<open>run\<close> is \<open>reload\<close> of the reloader.\<close>

definition reload_local :: "(reloader \<Rightarrow> worker_result) \<Rightarrow> int \<Rightarrow> listener list \<Rightarrow> string \<Rightarrow> worker_result" where
  "reload_local run index adapters server =
     (case listeners adapters server of
        [l] \<Rightarrow>
          (case li_reloader l of
             Some m \<Rightarrow> if li_active l then (run m)\<lparr>wk_index := index\<rparr>
                       else \<lparr>wk_index = index, wk_outcome = Failed, wk_fingerprint = None, wk_detail = Some ''ListenerNotActive''\<rparr>
           | None \<Rightarrow> \<lparr>wk_index = index, wk_outcome = Failed, wk_fingerprint = None, wk_detail = Some ''ListenerNotActive''\<rparr>)
      | _ \<Rightarrow> \<lparr>wk_index = index, wk_outcome = Failed, wk_fingerprint = None, wk_detail = Some ''ListenerUnavailable''\<rparr>)"

text \<open>The handler of a worker; \<open>None\<close> when the command is not one.\<close>

definition handle_cluster_command :: "(reloader \<Rightarrow> worker_result) \<Rightarrow> int \<Rightarrow> listener list \<Rightarrow> byte list \<Rightarrow> byte list option" where
  "handle_cluster_command run index adapters payload =
     Option.bind (decode_command payload) (\<lambda>server. encode_worker_result (reload_local run index adapters server))"

text \<open>The processes whose block has a web endpoint of that id; \<open>None\<close> without a topology.\<close>

definition targets_for :: "(string \<Rightarrow> bool) list option \<Rightarrow> string \<Rightarrow> nat list" where
  "targets_for topology server =
     (case topology of None \<Rightarrow> [] | Some serves \<Rightarrow> filter (\<lambda>i. (serves ! i) server) [0..<length serves])"

definition cluster_outcome :: "worker_result list \<Rightarrow> nat list \<Rightarrow> tls_outcome" where
  "cluster_outcome workers missing =
     (if missing \<noteq> [] then (if workers = [] then TimedOut else PartlyDone)
      else if workers \<noteq> [] \<and> list_all good workers then
        (if list_all (\<lambda>w. wk_outcome w = Unchanged) workers then Unchanged else Reloaded)
      else if list_ex good workers then PartlyDone else Failed)"

text \<open>
  \<open>reload_tls\<close>: \<open>request\<close> is \<open>request_adapter_command\<close>, which gives the acknowledgements by worker and the workers that did
  not answer, or raises; \<open>clustered\<close> is whether there are other processes.
\<close>

definition reload_tls ::
  "(string \<Rightarrow> bool) list option \<Rightarrow> bool \<Rightarrow> (byte list \<Rightarrow> nat list \<Rightarrow> ((nat, byte list) dict \<times> nat list) option) \<Rightarrow>
   (string \<Rightarrow> worker_result) \<Rightarrow> string \<Rightarrow> reload_result" where
  "reload_tls topology clustered request local server =
     (let targets = targets_for topology server
      in if targets = [] then \<lparr>rr_server = server, rr_outcome = Failed, rr_workers = [], rr_missing = []\<rparr>
         else if clustered then
           (case Option.bind (encode_command server) (\<lambda>c. request c targets) of
              None \<Rightarrow> \<lparr>rr_server = server, rr_outcome = Failed, rr_workers = [], rr_missing = targets\<rparr>
            | Some (acks, missing) \<Rightarrow>
                let workers = map (\<lambda>(i, p). decode_worker_result (int i) p) (sort_key fst acks)
                in \<lparr>rr_server = server, rr_outcome = cluster_outcome workers missing, rr_workers = workers, rr_missing = missing\<rparr>)
         else let w = local server in \<lparr>rr_server = server, rr_outcome = wk_outcome w, rr_workers = [w], rr_missing = []\<rparr>)"

lemma cluster_outcome_good: "missing = [] \<Longrightarrow> cluster_outcome workers missing \<in> {Reloaded, Unchanged} \<longleftrightarrow> workers \<noteq> [] \<and> list_all good workers"
  by (auto simp: cluster_outcome_def)

lemma good_arrives [simp]: "good (arrives_as i r) \<longleftrightarrow> good r"
  by (simp add: good_def arrives_as_def)

text \<open>
  When every worker that answers sends the encoding of what its own reload gave, the reload of a cluster is reported
  as a success exactly when nobody is missing, somebody answered, and each of them serves the new files or had them
  already; what was sent is what is read, with the worker's index put in.
\<close>
theorem cluster_reload_succeeds_iff_all:
  assumes "targets_for topology server \<noteq> []" and "encode_command server = Some c"
    and "request c (targets_for topology server) = Some (acks, missing)"
    and "\<forall>(i, p) \<in> set acks. encode_worker_result (result i) = Some p"
  shows "succeeded (reload_tls topology True request own server) \<longleftrightarrow> missing = [] \<and> acks \<noteq> [] \<and> (\<forall>(i, p) \<in> set acks. good (result i))"
proof -
  let ?workers = "map (\<lambda>(i, p). decode_worker_result (int i) p) (sort_key fst acks)"
  have each: "decode_worker_result (int i) p = arrives_as (int i) (result i)" if "(i, p) \<in> set acks" for i p
    using assms(4) that by (auto intro: decode_encode_worker_result)
  have run: "reload_tls topology True request own server =
    \<lparr>rr_server = server, rr_outcome = cluster_outcome ?workers missing, rr_workers = ?workers, rr_missing = missing\<rparr>"
    using assms(1-3) by (simp add: reload_tls_def Let_def)
  have "list_all good ?workers \<longleftrightarrow> (\<forall>(i, p) \<in> set acks. good (result i))"
    using each by (force simp: list_all_iff)
  moreover have "?workers = [] \<longleftrightarrow> acks = []" using length_sort [of fst acks] by (cases acks) (auto simp del: length_sort)
  ultimately show ?thesis
    unfolding run succeeded_def using cluster_outcome_good [of missing ?workers] by auto
qed

theorem cluster_reload_succeeds_iff_all_witness:
  "let result = (\<lambda>i. \<lparr>wk_index = -1, wk_outcome = (if i = (0::nat) then Reloaded else Unchanged), wk_fingerprint = Some ''ab12'', wk_detail = None\<rparr>);
       acks = [(1, the (encode_worker_result (result 1))), (0, the (encode_worker_result (result 0)))]
   in succeeded (reload_tls (Some [\<lambda>_. True, \<lambda>_. True]) True (\<lambda>_ _. Some (acks, [])) (\<lambda>_. invalid_ack 0) ''default'') \<and>
      \<not> succeeded (reload_tls (Some [\<lambda>_. True, \<lambda>_. True]) True (\<lambda>_ _. Some (acks, [2])) (\<lambda>_. invalid_ack 0) ''default'')"
proof -
  let ?result = "\<lambda>i. \<lparr>wk_index = -1, wk_outcome = (if i = (0::nat) then Reloaded else Unchanged), wk_fingerprint = Some ''ab12'', wk_detail = None\<rparr>"
  let ?acks = "[(1::nat, the (encode_worker_result (?result 1))), (0, the (encode_worker_result (?result 0)))]"
  have t: "targets_for (Some [\<lambda>_. True, \<lambda>_. True]) ''default'' \<noteq> []" by code_simp
  have c: "encode_command ''default'' = Some (the (encode_command ''default''))" by code_simp
  have e: "encode_worker_result (?result 1) \<noteq> None" "encode_worker_result (?result 0) \<noteq> None" by code_simp+
  have acks: "\<forall>(i, p) \<in> set ?acks. encode_worker_result (?result i) = Some p" using e by auto
  have g: "good (?result 1)" "good (?result 0)" by code_simp+
  show ?thesis
    using cluster_reload_succeeds_iff_all [OF t c, of "\<lambda>_ _. Some (?acks, [])" ?acks "[]" ?result "\<lambda>_. invalid_ack 0"]
      cluster_reload_succeeds_iff_all [OF t c, of "\<lambda>_ _. Some (?acks, [2])" ?acks "[2]" ?result "\<lambda>_. invalid_ack 0"]
      acks g by (simp add: Let_def)
qed

end
