(* ===== verification/Web_Adapter.thy ===== *)
theory Web_Adapter
  imports Web_Sockets Tls_Reload
begin

text \<open>
  The web adapter (\<open>xime/adapters/web/_adapter.py\<close>) and what configures it: the registry, CORS, health paths, options
  taken from the container or the configuration, routes, TLS parameters, the documentation URLs and the stack of
  middlewares, JWT innermost. FastAPI, Starlette and uvicorn are used through documented behaviour only: the middleware
  that is added last is the outermost.
\<close>

section \<open>The registry\<close>

text \<open>Option values: text, a list, a flag, a number, nothing, or a marker that is resolved when the application is built.\<close>

datatype option_value =
  OptText string | OptList "string list" | OptBool bool | OptInt int | OptNone | OptObject nat
| Inject nat | FromConfig string option_value

record 'r middleware_entry =
  mw_class :: string
  mw_options :: "(string, option_value) dict"
  mw_wrap :: "(string, option_value) dict \<Rightarrow> 'r asgi \<Rightarrow> 'r asgi"

record openapi_config =
  oa_docs_url :: "string option"
  oa_redoc_url :: "string option"
  oa_openapi_url :: "string option"
  oa_swagger_title :: "string option"

record health_config =
  hc_healthz :: "string option"
  hc_readyz :: "string option"

record 'r web_registry =
  wg_openapi :: "(string, openapi_config) dict"
  wg_middlewares :: "(string, 'r middleware_entry list) dict"
  wg_handlers :: "(string, (nat, nat) dict) dict"
  wg_health :: "(string, health_config) dict"

definition empty_web_registry :: "'r web_registry" where
  "empty_web_registry = \<lparr>wg_openapi = [], wg_middlewares = [], wg_handlers = [], wg_health = []\<rparr>"

definition set_openapi :: "openapi_config \<Rightarrow> string \<Rightarrow> 'r web_registry \<Rightarrow> 'r web_registry" where
  "set_openapi cfg server r = r\<lparr>wg_openapi := dset server cfg (wg_openapi r)\<rparr>"

definition add_middleware :: "'r middleware_entry \<Rightarrow> string \<Rightarrow> 'r web_registry \<Rightarrow> 'r web_registry" where
  "add_middleware m server r = r\<lparr>wg_middlewares := dset server (dget_default [] (wg_middlewares r) server @ [m]) (wg_middlewares r)\<rparr>"

definition get_middlewares :: "string \<Rightarrow> 'r web_registry \<Rightarrow> 'r middleware_entry list" where
  "get_middlewares server r = dget_default [] (wg_middlewares r) server"

definition add_exception_handlers :: "(nat, nat) dict \<Rightarrow> string \<Rightarrow> 'r web_registry \<Rightarrow> 'r web_registry" where
  "add_exception_handlers hs server r =
     r\<lparr>wg_handlers := dset server (dict_update (dget_default [] (wg_handlers r) server) hs) (wg_handlers r)\<rparr>"

definition set_health :: "health_config \<Rightarrow> string \<Rightarrow> 'r web_registry \<Rightarrow> 'r web_registry" where
  "set_health cfg server r = r\<lparr>wg_health := dset server cfg (wg_health r)\<rparr>"

section \<open>Options\<close>

datatype web_error =
  CannotInject string nat | CorsNotList string | CorsWideOpen | CorsTypeError | JwtNoKeySource | JwtTwoKeySources | PyJwtMissing
| JwtPaths path_error | NotInContainer nat | TlsIncomplete "string list" | TlsFileMissing string string
| TlsFileUnreadable string string string | NoSlot | NoPort string

text \<open>\<open>resolve_options\<close>: \<open>get\<close> is the container, \<open>conf\<close> the value of a configuration key with its default.\<close>

definition resolve_option :: "(nat \<Rightarrow> option_value option) \<Rightarrow> (string \<Rightarrow> option_value \<Rightarrow> option_value) \<Rightarrow>
    string \<times> option_value \<Rightarrow> web_error + string \<times> option_value" where
  "resolve_option get conf nv =
     (case snd nv of
        Inject t \<Rightarrow> (case get t of None \<Rightarrow> Inl (CannotInject (fst nv) t) | Some v \<Rightarrow> Inr (fst nv, v))
      | FromConfig key fallback \<Rightarrow> Inr (fst nv, conf key fallback)
      | v \<Rightarrow> Inr (fst nv, v))"

definition resolve_options :: "(nat \<Rightarrow> option_value option) \<Rightarrow> (string \<Rightarrow> option_value \<Rightarrow> option_value) \<Rightarrow>
    (string, option_value) dict \<Rightarrow> web_error + (string, option_value) dict" where
  "resolve_options get conf options = smap (resolve_option get conf) options"

section \<open>CORS\<close>

definition cors_defaults :: "(string, option_value) dict" where
  "cors_defaults = [(''allow_origins'', OptList []), (''allow_methods'', OptList [''GET'']), (''allow_headers'', OptList []),
     (''allow_credentials'', OptBool False), (''allow_origin_regex'', OptNone), (''expose_headers'', OptList []), (''max_age'', OptInt 600)]"

text \<open>An argument that is not given is read from the configuration under \<open>cors.\<close>\<close>

definition cors_options :: "(string \<Rightarrow> option_value option) \<Rightarrow> (string, option_value) dict" where
  "cors_options explicit =
     map (\<lambda>(name, fallback). (name, case explicit name of Some v \<Rightarrow> v | None \<Rightarrow> FromConfig (''cors.'' @ name) fallback)) cors_defaults"

definition configure_cors :: "(string \<Rightarrow> option_value option) \<Rightarrow> ((string, option_value) dict \<Rightarrow> 'r asgi \<Rightarrow> 'r asgi) \<Rightarrow> string \<Rightarrow>
    'r web_registry \<Rightarrow> 'r web_registry" where
  "configure_cors explicit cors server r =
     add_middleware \<lparr>mw_class = ''CORSMiddleware'', mw_options = cors_options explicit, mw_wrap = cors\<rparr> server r"

definition option_truthy :: "option_value \<Rightarrow> bool" where
  "option_truthy v = (case v of OptText t \<Rightarrow> t \<noteq> [] | OptList l \<Rightarrow> l \<noteq> [] | OptBool b \<Rightarrow> b | OptInt i \<Rightarrow> i \<noteq> 0 | OptNone \<Rightarrow> False | _ \<Rightarrow> True)"

definition is_text :: "option_value \<Rightarrow> bool" where
  "is_text v = (case v of OptText _ \<Rightarrow> True | _ \<Rightarrow> False)"

text \<open>\<open>'*' in (origins or ())\<close>; \<open>None\<close> is the exception for a value that has no members.\<close>

definition wildcard_origin :: "option_value option \<Rightarrow> bool option" where
  "wildcard_origin v =
     (case v of
        Some (OptList l) \<Rightarrow> Some (''*'' \<in> set l)
      | Some (OptInt i) \<Rightarrow> if i = 0 then Some False else None
      | Some (OptBool b) \<Rightarrow> if b then None else Some False
      | _ \<Rightarrow> Some False)"

definition cors_list_options :: "string list" where
  "cors_list_options = [''allow_origins'', ''allow_methods'', ''allow_headers'', ''expose_headers'']"

definition validate_cors_options :: "string \<Rightarrow> (string, option_value) dict \<Rightarrow> web_error + unit" where
  "validate_cors_options middleware options =
     (if middleware \<noteq> ''CORSMiddleware'' then Inr ()
      else case find (\<lambda>name. case dget options name of Some v \<Rightarrow> is_text v | None \<Rightarrow> False) cors_list_options of
             Some name \<Rightarrow> Inl (CorsNotList name)
           | None \<Rightarrow>
               (case wildcard_origin (dget options ''allow_origins'') of
                  None \<Rightarrow> Inl CorsTypeError
                | Some wild \<Rightarrow>
                    if wild \<and> (case dget options ''allow_credentials'' of Some v \<Rightarrow> option_truthy v | None \<Rightarrow> False)
                    then Inl CorsWideOpen else Inr ()))"

section \<open>Health and documentation\<close>

definition default_health :: health_config where
  "default_health = \<lparr>hc_healthz = Some ''/healthz'', hc_readyz = Some ''/readyz''\<rparr>"

definition public_health_paths :: "string \<Rightarrow> 'r web_registry \<Rightarrow> string list" where
  "public_health_paths server r =
     (case dget (wg_health r) server of
        None \<Rightarrow> []
      | Some cfg \<Rightarrow> filter (\<lambda>p. p \<noteq> []) (List.map_filter id [hc_healthz cfg, hc_readyz cfg]))"

text \<open>The routes that answer probes; the flag is \<open>alive\<close> for the first and \<open>ready\<close> for the second.\<close>

definition add_health_routes :: "string \<Rightarrow> 'r web_registry \<Rightarrow> (string \<times> bool) list" where
  "add_health_routes server r =
     (case dget (wg_health r) server of
        None \<Rightarrow> []
      | Some cfg \<Rightarrow>
          (case hc_healthz cfg of Some (c # p) \<Rightarrow> [(c # p, True)] | _ \<Rightarrow> []) @
          (case hc_readyz cfg of Some (c # p) \<Rightarrow> [(c # p, False)] | _ \<Rightarrow> []))"

definition health_response :: "bool \<Rightarrow> bool \<Rightarrow> bool \<Rightarrow> string \<times> nat" where
  "health_response liveness alive ready =
     (if (if liveness then alive else ready) then (''ok'', 200) else (''unavailable'', 503))"

text \<open>Documentation URLs are served in development mode only; the flag is the warning that hiding the schema hides them.\<close>

definition resolve_doc_urls :: "openapi_config option \<Rightarrow> bool \<Rightarrow> (string option \<times> string option \<times> string option) \<times> bool" where
  "resolve_doc_urls cfg dev =
     (if \<not> dev then ((None, None, None), False)
      else case cfg of
             None \<Rightarrow> ((Some ''/docs'', Some ''/redoc'', Some ''/openapi.json''), False)
           | Some c \<Rightarrow>
               (case oa_openapi_url c of
                  None \<Rightarrow> ((None, None, None), (case oa_docs_url c of Some (_ # _) \<Rightarrow> True | _ \<Rightarrow>
                             (case oa_redoc_url c of Some (_ # _) \<Rightarrow> True | _ \<Rightarrow> False)))
                | Some u \<Rightarrow> ((oa_docs_url c, oa_redoc_url c, Some u), False)))"

text \<open>The page of a custom title replaces the one FastAPI would serve.\<close>

definition custom_swagger :: "openapi_config option \<Rightarrow> bool \<Rightarrow> (string \<times> string \<times> string) option" where
  "custom_swagger cfg dev =
     (case (cfg, fst (resolve_doc_urls cfg dev)) of
        (Some c, Some docs, _, Some schema) \<Rightarrow> map_option (\<lambda>title. (title, docs, schema)) (oa_swagger_title c)
      | _ \<Rightarrow> None)"

section \<open>Routes\<close>

text \<open>FastAPI keeps an included router as an object with its routes.\<close>

datatype web_route = Included "web_route list" | Route bool bool

fun count_http_routes :: "web_route list \<Rightarrow> nat" where
  "count_http_routes [] = 0"
| "count_http_routes (Included inner # rs) = count_http_routes inner + count_http_routes rs"
| "count_http_routes (Route methods in_schema # rs) = (if methods \<and> in_schema then 1 else 0) + count_http_routes rs"

record route_info =
  ri_method :: string
  ri_path :: string
  ri_status :: nat
  ri_tags :: "string list option"

text \<open>
  A web_controller: its classes from the base to itself, each with its attributes in order (the flag: a plain function), and
  what the attribute of the class itself is marked with.
\<close>

record web_controller =
  co_name :: nat
  co_server :: string
  co_prefix :: string
  co_mro_bases_first :: "(string \<times> bool) list list"
  co_marked :: "string \<Rightarrow> route_info option"

definition ordered_methods :: "web_controller \<Rightarrow> string list" where
  "ordered_methods c = fold (\<lambda>(name, is_fun) acc. if is_fun \<and> name \<notin> set acc then acc @ [name] else acc) (concat (co_mro_bases_first c)) []"

definition controller_routes :: "web_controller \<Rightarrow> (string \<times> route_info) list" where
  "controller_routes c = List.map_filter (\<lambda>name. map_option (\<lambda>i. (name, i)) (co_marked c name)) (ordered_methods c)"

text \<open>\<open>_register_controllers\<close>: the routers of the controllers of this server; \<open>get\<close> tells which classes the container has.\<close>

definition register_controllers :: "(nat \<Rightarrow> bool) \<Rightarrow> string \<Rightarrow> web_controller list \<Rightarrow> web_error + (nat \<times> (string \<times> route_info) list) list" where
  "register_controllers get server cs =
     smap (\<lambda>c. if get (co_name c) then Inr (co_name c, controller_routes c) else Inl (NotInContainer (co_name c)))
       (filter (\<lambda>c. co_server c = server) cs)"

lemma ordered_methods_from:
  "distinct acc \<Longrightarrow> distinct (fold (\<lambda>(name, is_fun) acc. if is_fun \<and> name \<notin> set acc then acc @ [name] else acc) xs acc) \<and>
   set (fold (\<lambda>(name, is_fun) acc. if is_fun \<and> name \<notin> set acc then acc @ [name] else acc) xs acc) = set acc \<union> {n. (n, True) \<in> set xs}"
  by (induction xs arbitrary: acc) (auto split: if_splits)

lemma ordered_methods_once:
  "distinct (ordered_methods c)" "set (ordered_methods c) = {n. (n, True) \<in> set (concat (co_mro_bases_first c))}"
  using ordered_methods_from [of "[]" "concat (co_mro_bases_first c)"] by (simp_all add: ordered_methods_def)

section \<open>TLS parameters\<close>

text \<open>What opening a file gives; the text is the reason.\<close>

datatype file_state = NoRegularFile | CannotOpen string | Readable

definition tls_mode :: "tls_config \<Rightarrow> string" where
  "tls_mode tls = (if \<not> tls_enabled tls then ''HTTP'' else if tc_cert_reqs tls = Some CertRequired then ''HTTPS+mTLS'' else ''HTTPS'')"

definition check_tls_file :: "(string \<Rightarrow> file_state) \<Rightarrow> string \<times> string option \<Rightarrow> web_error + unit" where
  "check_tls_file file np =
     (case snd np of
        Some (c # cs) \<Rightarrow>
          (case file (c # cs) of
             NoRegularFile \<Rightarrow> Inl (TlsFileMissing (fst np) (c # cs))
           | CannotOpen why \<Rightarrow> Inl (TlsFileUnreadable (fst np) (c # cs) why)
           | Readable \<Rightarrow> Inr ())
      | _ \<Rightarrow> Inr ())"

datatype tls_value = TlsText string | TlsReqs cert_reqs

definition tls_kwargs :: "(string \<Rightarrow> file_state) \<Rightarrow> tls_config \<Rightarrow> web_error + (string, tls_value) dict" where
  "tls_kwargs file tls =
     (if \<not> tls_enabled tls then Inr []
      else let missing = map fst (filter (\<lambda>nv. \<not> given (snd nv)) [(''certfile'', tc_certfile tls), (''keyfile'', tc_keyfile tls)])
           in if missing \<noteq> [] then Inl (TlsIncomplete missing)
              else sbind (smap (check_tls_file file) [(''certfile'', tc_certfile tls), (''keyfile'', tc_keyfile tls), (''ca_certs'', tc_ca_certs tls)])
                (\<lambda>_. Inr ([(''ssl_certfile'', TlsText (the (tc_certfile tls))), (''ssl_keyfile'', TlsText (the (tc_keyfile tls)))] @
                  (if given (tc_keyfile_password tls) then [(''ssl_keyfile_password'', TlsText (the (tc_keyfile_password tls)))] else []) @
                  (if given (tc_ca_certs tls) then [(''ssl_ca_certs'', TlsText (the (tc_ca_certs tls)))] else []) @
                  (case tc_cert_reqs tls of Some q \<Rightarrow> [(''ssl_cert_reqs'', TlsReqs q)] | None \<Rightarrow> []) @
                  (if given (tc_ciphers tls) then [(''ssl_ciphers'', TlsText (the (tc_ciphers tls)))] else []))))"

text \<open>The options of an endpoint come before those of the server; an empty mapping is plain HTTP.\<close>

definition resolve_tls :: "tls_config option \<Rightarrow> tls_config \<Rightarrow> tls_config" where
  "resolve_tls slot_ssl server_ssl = (case slot_ssl of None \<Rightarrow> server_ssl | Some t \<Rightarrow> t)"

text \<open>TLS that is switched on is never served without a readable certificate and key.\<close>

lemma enabled_tls_has_its_files:
  assumes "tls_kwargs file tls = Inr kw" and "tls_enabled tls"
  shows "\<exists>cert key. tc_certfile tls = Some cert \<and> tc_keyfile tls = Some key \<and> file cert = Readable \<and> file key = Readable \<and>
    dget kw ''ssl_certfile'' = Some (TlsText cert) \<and> dget kw ''ssl_keyfile'' = Some (TlsText key)"
proof -
  let ?files = "[(''certfile'', tc_certfile tls), (''keyfile'', tc_keyfile tls), (''ca_certs'', tc_ca_certs tls)]"
  have both: "given (tc_certfile tls)" "given (tc_keyfile tls)"
    using assms by (simp_all add: tls_kwargs_def Let_def split: if_splits)
  then obtain cert key where c: "tc_certfile tls = Some cert" "cert \<noteq> []" and k: "tc_keyfile tls = Some key" "key \<noteq> []"
    by (auto simp: given_def split: option.splits list.splits)
  from assms both obtain us rest where us: "smap (check_tls_file file) ?files = Inr us"
    and kw: "kw = [(''ssl_certfile'', TlsText cert), (''ssl_keyfile'', TlsText key)] @ rest"
    by (auto simp: tls_kwargs_def Let_def sbind_eq_Inr c(1) k(1))
  from us have "check_tls_file file (''certfile'', Some cert) = Inr ()" "check_tls_file file (''keyfile'', Some key) = Inr ()"
    by (auto simp: sbind_eq_Inr c(1) k(1))
  then have "file cert = Readable" "file key = Readable"
    using c k by (auto simp: check_tls_file_def neq_Nil_conv split: file_state.splits)
  then show ?thesis using c k by (simp add: kw)
qed

section \<open>The application\<close>

subsection \<open>The JWT middleware\<close>

text \<open>
  \<open>_add_jwt_middleware\<close>: the configuration in force with the provider and the verifier taken from the container, \<open>None\<close>
  without \<open>configure_jwt\<close>.
\<close>

definition open_health_paths :: "string list \<Rightarrow> jwt_config \<Rightarrow> web_error + jwt_config" where
  "open_health_paths health cfg =
     (if health = [] then Inr cfg
      else case split_public_paths (jc_public_paths cfg) of
             Inl e \<Rightarrow> Inl (JwtPaths e)
           | Inr (exact, branches) \<Rightarrow>
               Inr (cfg\<lparr>jc_public_paths := jc_public_paths cfg @ filter (\<lambda>p. \<not> path_is_public p exact branches) health\<rparr>))"

definition from_container :: "(nat \<Rightarrow> 'a option) \<Rightarrow> nat option \<Rightarrow> web_error + 'a option" where
  "from_container get cls =
     (case cls of None \<Rightarrow> Inr None | Some c \<Rightarrow> (case get c of None \<Rightarrow> Inl (NotInContainer c) | Some v \<Rightarrow> Inr (Some v)))"

definition add_jwt_middleware ::
  "bool \<Rightarrow> (nat \<Rightarrow> key_provider option) \<Rightarrow> (nat \<Rightarrow> verifier option) \<Rightarrow> string list \<Rightarrow> jwt_registry \<Rightarrow>
   web_error + (jwt_config \<times> key_provider option \<times> verifier option) option" where
  "add_jwt_middleware pyjwt_installed providers verifiers health jr =
     (case jr_config jr of
        None \<Rightarrow> Inr None
      | Some cfg \<Rightarrow>
          if jc_key_context cfg = None \<and> jr_key_provider jr = None then Inl JwtNoKeySource
          else if jc_key_context cfg \<noteq> None \<and> jr_key_provider jr \<noteq> None then Inl JwtTwoKeySources
          else if \<not> pyjwt_installed then Inl PyJwtMissing
          else sbind (open_health_paths health cfg)
            (\<lambda>cfg'. sbind (from_container providers (jr_key_provider jr))
              (\<lambda>provider. sbind (from_container verifiers (jr_verifier jr))
                (\<lambda>ver. Inr (Some (cfg', provider, ver))))))"

subsection \<open>The stack\<close>

text \<open>Starlette keeps the middlewares in a list, puts a new one in front, and the first is the outermost.\<close>

definition install :: "('r asgi \<Rightarrow> 'r asgi) \<Rightarrow> ('r asgi \<Rightarrow> 'r asgi) list \<Rightarrow> ('r asgi \<Rightarrow> 'r asgi) list" where
  "install m ms = m # ms"

definition stack :: "('r asgi \<Rightarrow> 'r asgi) list \<Rightarrow> 'r asgi \<Rightarrow> 'r asgi" where
  "stack ms router = foldr (\<lambda>m app. m app) ms router"

definition prepare_middleware :: "(nat \<Rightarrow> option_value option) \<Rightarrow> (string \<Rightarrow> option_value \<Rightarrow> option_value) \<Rightarrow>
    'r middleware_entry \<Rightarrow> web_error + ('r asgi \<Rightarrow> 'r asgi)" where
  "prepare_middleware get conf m =
     sbind (resolve_options get conf (mw_options m))
       (\<lambda>resolved. sbind (validate_cors_options (mw_class m) resolved) (\<lambda>_. Inr (mw_wrap m resolved)))"

text \<open>
  What \<open>build_app\<close> makes of the router: JWT is added first, then the middlewares of the application from the last declared
  to the first, then the request context. \<open>decode\<close> and \<open>unverified\<close> are PyJWT, \<open>request_id\<close> the id drawn for the request.
\<close>

record web_parts =
  wp_decode :: "nat \<Rightarrow> decode_args \<Rightarrow> decoding"
  wp_unverified :: "string \<Rightarrow> claims option"
  wp_pyjwt :: bool
  wp_providers :: "nat \<Rightarrow> key_provider option"
  wp_verifiers :: "nat \<Rightarrow> verifier option"
  wp_objects :: "nat \<Rightarrow> option_value option"
  wp_conf :: "string \<Rightarrow> option_value \<Rightarrow> option_value"
  wp_request_id :: string

definition jwt_layer :: "web_parts \<Rightarrow> (jwt_config \<times> key_provider option \<times> verifier option) option \<Rightarrow> web_error + ('r asgi \<Rightarrow> 'r asgi) list" where
  "jwt_layer w j =
     (case j of
        None \<Rightarrow> Inr []
      | Some (cfg, provider, ver) \<Rightarrow>
          (case jwt_middleware (wp_unverified w) provider (case ver of Some v \<Rightarrow> v | None \<Rightarrow> pyjwt_verify (wp_decode w)) cfg of
             Inl e \<Rightarrow> Inl (JwtPaths e)
           | Inr m \<Rightarrow> Inr (install m [])))"

definition build_stack :: "web_parts \<Rightarrow> 'r web_registry \<Rightarrow> string \<Rightarrow> jwt_registry \<Rightarrow> 'r asgi \<Rightarrow> web_error + 'r asgi" where
  "build_stack w reg server jr router =
     sbind (add_jwt_middleware (wp_pyjwt w) (wp_providers w) (wp_verifiers w) (public_health_paths server reg) jr)
       (\<lambda>j. sbind (smap (prepare_middleware (wp_objects w) (wp_conf w)) (rev (get_middlewares server reg)))
         (\<lambda>users. sbind (jwt_layer w j)
           (\<lambda>inner. Inr (stack (install (context_call (wp_request_id w)) (fold install users inner)) router))))"

lemma fold_install: "fold install users inner = rev users @ inner"
  by (induction users arbitrary: inner) (simp_all add: install_def)

lemma stack_append: "stack (ms @ ms') router = stack ms (stack ms' router)"
  by (simp add: stack_def)

text \<open>The layers from the outside in: the request context, the application's in the order declared, JWT, the router.\<close>

lemma stack_order:
  assumes "smap (prepare_middleware get conf) (rev ms) = Inr users"
  shows "stack (install c (fold install users inner)) router = c (stack (rev users) (stack inner router))"
  by (simp add: fold_install install_def stack_append) (simp add: stack_def)

subsection \<open>What reaches the router\<close>

lemma jwt_layer_only_admitted:
  assumes "jwt_layer w (Some (cfg, provider, None)) = Inr inner"
    and "\<And>q s. admitted (wp_decode w) (wp_unverified w) provider cfg q s \<Longrightarrow> router q s = router' q s"
  shows "stack inner router = stack inner router'"
proof -
  from assms(1) obtain m where m: "jwt_middleware (wp_unverified w) provider (pyjwt_verify (wp_decode w)) cfg = Inr m" and inner: "inner = [m]"
    by (auto simp: jwt_layer_def install_def split: sum.splits)
  have "m router q s = m router' q s" for q s
    using middleware_only_admitted [of "wp_decode w" "wp_unverified w" provider cfg q router router' s] assms(2) m by simp
  then show ?thesis by (simp add: inner stack_def fun_eq_iff)
qed

text \<open>
  C4: With \<open>configure_jwt\<close> and the verifier of the starter, the router of the whole application -- under any middlewares
  of its own -- sees nothing but admitted requests: two routers that agree on those give the same application. An admitted
  request is no HTTP request, or its path, the one the router goes by, is covered by one of the public entries, or it carries
  a bearer token that PyJWT decoded with a key the configuration or the provider names for it, under that key's own
  algorithm, which the allow-list has, and whose claims name the identity found in the security slots; or else it is
  disguised: the URL path differs from its path, as a \<open>Host\<close> header can bring about, and a public entry covers
  that URL path. The last case is the hole the code has, and the only one.
\<close>

theorem only_admitted_requests_reach_router:
  assumes "add_jwt_middleware (wp_pyjwt w) (wp_providers w) (wp_verifiers w) (public_health_paths server reg) jr =
      Inr (Some (cfg, provider, None))"
    and "\<And>q s. admitted (wp_decode w) (wp_unverified w) provider cfg q s \<Longrightarrow> router q s = router' q s"
  shows "build_stack w reg server jr router = build_stack w reg server jr router'"
proof -
  have built: "build_stack w reg server jr router =
    sbind (smap (prepare_middleware (wp_objects w) (wp_conf w)) (rev (get_middlewares server reg)))
      (\<lambda>users. sbind (jwt_layer w (Some (cfg, provider, None)))
         (\<lambda>inner. Inr (context_call (wp_request_id w) (stack (rev users) (stack inner router)))))" for router :: "'a asgi"
    unfolding build_stack_def assms(1) sbind_simps
    by (simp add: fold_install install_def stack_append) (simp add: stack_def)
  show ?thesis
  proof (cases "jwt_layer w (Some (cfg, provider, None)) :: web_error + ('a asgi \<Rightarrow> 'a asgi) list")
    case (Inl e)
    then show ?thesis by (simp only: built Inl sbind_simps)
  next
    case (Inr inner)
    have "stack inner router = stack inner router'"
      by (rule jwt_layer_only_admitted [OF Inr]) (rule assms(2))
    then show ?thesis by (simp only: built Inr sbind_simps)
  qed
qed

lemma vouched_identity: "vouched decode cfg token s n key \<Longrightarrow> sc_identity s \<noteq> None"
  by (auto simp: vouched_def split: sum.splits decoding.splits)

text \<open>On a protected path an admitted request that is not disguised has an identity.\<close>

lemma admitted_protected:
  "admitted decode unverified provider cfg q s \<Longrightarrow>
     hq_type q \<noteq> ''http'' \<or> on_public_path cfg q \<or> disguised cfg q \<or> sc_identity s \<noteq> None"
  using vouched_identity by (fastforce simp: admitted_def vouched_token_def list_ex_iff split: option.splits sum.splits)

text \<open>A process with an HMAC key and one public branch, over a PyJWT that knows one token.\<close>

definition sample_parts :: web_parts where
  "sample_parts = \<lparr>wp_decode = (\<lambda>n a. if da_token a = ''good'' \<and> da_key a = ''k1'' \<and> da_algorithms a = [''HS256'']
       then Decoded [(''sub'', CText ''ann'')] else InvalidToken ''Signature verification failed''),
     wp_unverified = (\<lambda>t. Some []), wp_pyjwt = True, wp_providers = (\<lambda>_. None), wp_verifiers = (\<lambda>_. None),
     wp_objects = (\<lambda>_. None), wp_conf = (\<lambda>_ v. v), wp_request_id = ''r1''\<rparr>"

definition sample_jwt :: jwt_registry where
  "sample_jwt = \<lparr>jr_config = Some (default_jwt_config\<lparr>jc_public_paths := [''/open/*''],
       jc_key_context := Some \<lparr>kc_algorithm = ''HS256'', kc_key_id = None, kc_secret = Some ''k1'', kc_private_pem = None, kc_public_pem = None\<rparr>\<rparr>),
     jr_key_provider = None, jr_verifier = None\<rparr>"

definition sample_registry :: "string web_registry" where
  "sample_registry = set_health default_health ''default'' empty_web_registry"

definition sample_request :: "string \<Rightarrow> string option \<Rightarrow> http_request" where
  "sample_request path auth = \<lparr>hq_type = ''http'', hq_path = path, hq_url_path = path, hq_authorization = auth\<rparr>"

theorem only_admitted_requests_reach_router_witness:
  "let router = (\<lambda>q s. (Served (hq_path q), s));
       router' = (\<lambda>q s. if hq_type q = ''http'' \<and> hq_path q = ''/secret'' \<and> hq_url_path q = ''/secret'' \<and> sc_identity s = None then (Served ''leaked'', s) else (Served (hq_path q), s));
       run = (\<lambda>r q. case build_stack sample_parts sample_registry ''default'' sample_jwt r of Inr app \<Rightarrow> Some (fst (app q clean_scope)) | Inl _ \<Rightarrow> None)
   in run router' = run router \<and>
      run router (sample_request ''/secret'' None) = Some (Unauthorized ''Missing authorization token'') \<and>
      run router (sample_request ''/secret'' (Some ''bearer good'')) = Some (Served ''/secret'') \<and>
      run router (sample_request ''/healthz'' None) = Some (Served ''/healthz'') \<and>
      run router ((sample_request ''/secret'' None)\<lparr>hq_url_path := ''/open/x''\<rparr>) = Some (Served ''/secret'')"
proof -
  let ?router = "\<lambda>q s. (Served (hq_path q), s) :: string answer \<times> request_scope"
  let ?router' = "\<lambda>q s. if hq_type q = ''http'' \<and> hq_path q = ''/secret'' \<and> hq_url_path q = ''/secret'' \<and> sc_identity s = None then (Served ''leaked'', s) else (Served (hq_path q), s)"
  let ?cfg = "the (jr_config sample_jwt)\<lparr>jc_public_paths := [''/open/*'', ''/healthz'', ''/readyz'']\<rparr>"
  have wired: "add_jwt_middleware (wp_pyjwt sample_parts) (wp_providers sample_parts) (wp_verifiers sample_parts)
      (public_health_paths ''default'' sample_registry) sample_jwt = Inr (Some (?cfg, None, None))"
  proof -
    have "open_health_paths (public_health_paths ''default'' sample_registry) (the (jr_config sample_jwt)) = Inr ?cfg" by code_simp
    then show ?thesis by (simp add: add_jwt_middleware_def from_container_def sample_jwt_def sample_parts_def)
  qed
  have closed: "\<not> list_ex (\<lambda>raw. entry_covers raw ''/secret'') (jc_public_paths ?cfg)" by code_simp
  have same: "?router q s = ?router' q s"
    if "admitted (wp_decode sample_parts) (wp_unverified sample_parts) None ?cfg q s" for q s
    using that admitted_protected [OF that] closed by (auto simp: on_public_path_def disguised_def)
  have eq: "build_stack sample_parts sample_registry ''default'' sample_jwt ?router = build_stack sample_parts sample_registry ''default'' sample_jwt ?router'"
    by (rule only_admitted_requests_reach_router [OF wired same])
  have "case build_stack sample_parts sample_registry ''default'' sample_jwt ?router of
      Inr app \<Rightarrow> fst (app (sample_request ''/secret'' None) clean_scope) = Unauthorized ''Missing authorization token'' \<and>
        fst (app (sample_request ''/secret'' (Some ''bearer good'')) clean_scope) = Served ''/secret'' \<and>
        fst (app (sample_request ''/healthz'' None) clean_scope) = Served ''/healthz'' \<and>
        fst (app ((sample_request ''/secret'' None)\<lparr>hq_url_path := ''/open/x''\<rparr>) clean_scope) = Served ''/secret''
    | Inl _ \<Rightarrow> False"
    by code_simp
  then show ?thesis unfolding Let_def eq by (auto simp: fun_eq_iff eq split: sum.splits)
qed

subsection \<open>WebSocket routes\<close>

text \<open>The handlers of this server with their paths; the authenticator uses the configuration without the health paths.\<close>

definition ws_authenticator :: "web_parts \<Rightarrow> jwt_registry \<Rightarrow> web_error + (jwt_config \<times> (string \<Rightarrow> token_verdict)) option" where
  "ws_authenticator w jr =
     (case jr_config jr of
        None \<Rightarrow> Inr None
      | Some cfg \<Rightarrow>
          sbind (from_container (wp_providers w) (jr_key_provider jr))
            (\<lambda>provider. sbind (from_container (wp_verifiers w) (jr_verifier jr))
              (\<lambda>ver. Inr (Some (cfg, jwt_verify (wp_unverified w) provider
                 (case ver of Some v \<Rightarrow> v | None \<Rightarrow> pyjwt_verify (wp_decode w)) cfg)))))"

record 'r ws_class =
  wc_name :: nat
  wc_server :: string
  wc_path :: string
  wc_handler :: "'r ws_app"

text \<open>\<open>_register_websocket_handlers\<close>: the guarded endpoint of each path; nothing is set up when there is no handler.\<close>

definition register_websockets :: "web_parts \<Rightarrow> jwt_registry \<Rightarrow> (nat \<Rightarrow> bool) \<Rightarrow> string \<Rightarrow> 'r ws_class list \<Rightarrow> web_error + (string \<times> 'r ws_app) list" where
  "register_websockets w jr get server cs =
     (let handlers = filter (\<lambda>c. wc_server c = server) cs
      in if handlers = [] then Inr []
         else sbind (ws_authenticator w jr)
           (\<lambda>auth. case make_ws_registrar auth of
              Inl e \<Rightarrow> Inl (JwtPaths e)
            | Inr r \<Rightarrow> smap (\<lambda>c. if get (wc_name c) then Inr (wc_path c, ws_endpoint r (wc_path c) (wc_handler c))
                                 else Inl (NotInContainer (wc_name c))) handlers))"

lemma ws_admitted_protected:
  "ws_admitted decode unverified provider cfg path offered s \<Longrightarrow>
     list_ex (\<lambda>raw. entry_covers raw path) (jc_public_paths cfg) \<or> sc_identity s \<noteq> None"
  using vouched_identity by (fastforce simp: ws_admitted_def vouched_token_def list_ex_iff split: option.splits sum.splits)

lemma smap_cong_map: "(\<And>x. x \<in> set xs \<Longrightarrow> f (g x) = f x) \<Longrightarrow> smap f (map g xs) = smap f xs"
  by (induction xs) simp_all

text \<open>
  C37: Under \<open>configure_jwt\<close> with the starter's verifier (without \<open>configure_jwt\<close> every WebSocket route is open) the
  handlers of the registered WebSocket routes run only for admitted connections: replacing every handler by one that
  agrees with it on those gives the same endpoints. A connection is admitted when a public entry covers its route, or
  when the first bearer subprotocol it offered carries a token that PyJWT decoded with a candidate key and that key's
  algorithm, with the identity of the claims in the security slots. One offer is admitted against the documentation,
  which reads the first bearer entry only: when that entry is empty, the token may come from a later one.
\<close>

theorem websocket_routes_are_guarded:
  assumes "jr_config jr = Some cfg" and "jr_verifier jr = None"
    and "from_container (wp_providers w) (jr_key_provider jr) = Inr provider"
    and "\<And>c offered s. c \<in> set cs \<Longrightarrow> ws_admitted (wp_decode w) (wp_unverified w) provider cfg (wc_path c) offered s \<Longrightarrow>
      other c offered s = wc_handler c offered s"
  shows "register_websockets w jr get server (map (\<lambda>c. c\<lparr>wc_handler := other c\<rparr>) cs) = register_websockets w jr get server cs"
proof -
  let ?swap = "\<lambda>c. c\<lparr>wc_handler := other c\<rparr>"
  have auth: "ws_authenticator w jr = Inr (Some (cfg, jwt_verify (wp_unverified w) provider (pyjwt_verify (wp_decode w)) cfg))"
    using assms(1-3) by (simp add: ws_authenticator_def from_container_def)
  have sel: "filter (\<lambda>c. wc_server c = server) (map ?swap cs) = map ?swap (filter (\<lambda>c. wc_server c = server) cs)"
    by (induction cs) simp_all
  have "ws_endpoint r (wc_path c) (other c) = ws_endpoint r (wc_path c) (wc_handler c)"
    if "make_ws_registrar (Some (cfg, jwt_verify (wp_unverified w) provider (pyjwt_verify (wp_decode w)) cfg)) = Inr r" "c \<in> set cs" for r c
    using ws_endpoint_only_admitted [OF that(1), of "wc_path c" _ "other c" "wc_handler c"] assms(4) [OF that(2)]
    by (simp add: fun_eq_iff)
  then show ?thesis
    by (auto simp: register_websockets_def Let_def auth sel split: sum.split intro!: smap_cong_map)
qed

theorem websocket_routes_are_guarded_witness:
  "let safe = (\<lambda>offered s. (Handled (sc_identity s \<noteq> None), s));
       chat = \<lparr>wc_name = 1, wc_server = ''default'', wc_path = ''/chat'', wc_handler = safe\<rparr>;
       odd = (\<lambda>offered s. (Handled True, s))
   in register_websockets sample_parts sample_jwt (\<lambda>_. True) ''default'' [chat\<lparr>wc_handler := odd\<rparr>] =
        register_websockets sample_parts sample_jwt (\<lambda>_. True) ''default'' [chat] \<and>
      (case register_websockets sample_parts sample_jwt (\<lambda>_. True) ''default'' [chat] of
         Inr [(_, endpoint)] \<Rightarrow> fst (endpoint [''xime''] clean_scope) = Closed 3000 \<and>
           fst (endpoint [''xime.bearer.bad'', ''xime''] clean_scope) = Closed 3000 \<and>
           fst (endpoint [''xime.bearer.good'', ''xime''] clean_scope) = Handled True
       | _ \<Rightarrow> False)"
proof -
  let ?safe = "\<lambda>offered s. (Handled (sc_identity s \<noteq> None), s) :: bool ws_answer \<times> request_scope"
  let ?chat = "\<lparr>wc_name = 1, wc_server = ''default'', wc_path = ''/chat'', wc_handler = ?safe\<rparr>"
  let ?cfg = "the (jr_config sample_jwt)"
  have cfg: "jr_config sample_jwt = Some ?cfg" "jr_verifier sample_jwt = None" by (simp_all add: sample_jwt_def)
  have prov: "from_container (wp_providers sample_parts) (jr_key_provider sample_jwt) = Inr None"
    by (simp add: from_container_def sample_jwt_def)
  have closed: "\<not> list_ex (\<lambda>raw. entry_covers raw ''/chat'') (jc_public_paths ?cfg)" by code_simp
  have "(Handled True, s) = ?safe offered s"
    if "ws_admitted (wp_decode sample_parts) (wp_unverified sample_parts) None ?cfg ''/chat'' offered s" for offered s
    using ws_admitted_protected [OF that] closed by simp
  then have "register_websockets sample_parts sample_jwt (\<lambda>_. True) ''default'' [?chat\<lparr>wc_handler := \<lambda>_ s. (Handled True, s)\<rparr>] =
      register_websockets sample_parts sample_jwt (\<lambda>_. True) ''default'' [?chat]"
    using websocket_routes_are_guarded [OF cfg prov, of "[?chat]" "\<lambda>_ _ s. (Handled True, s)" "\<lambda>_. True" "''default''"]
    by simp
  moreover have "case register_websockets sample_parts sample_jwt (\<lambda>_. True) ''default'' [?chat] of
         Inr [(_, endpoint)] \<Rightarrow> fst (endpoint [''xime''] clean_scope) = Closed 3000 \<and>
           fst (endpoint [''xime.bearer.bad'', ''xime''] clean_scope) = Closed 3000 \<and>
           fst (endpoint [''xime.bearer.good'', ''xime''] clean_scope) = Handled True
       | _ \<Rightarrow> False"
    by code_simp
  ultimately show ?thesis by (simp only: Let_def)
qed

section \<open>Serving\<close>

text \<open>
  The adapter object: \<open>wa_servers\<close> is whether uvicorn bound its listeners, \<open>wa_shutdowns\<close> counts the calls of
  \<open>Server.shutdown\<close> since the last bind. \<open>serve\<close> is two steps, since \<open>stop\<close> runs while it serves.
\<close>

record web_adapter =
  wa_server :: bool
  wa_servers :: bool
  wa_should_exit :: bool
  wa_watcher :: bool
  wa_listener_active :: bool
  wa_serve_active :: bool
  wa_shutdown_done :: bool
  wa_shutdowns :: nat

definition new_web_adapter :: web_adapter where
  "new_web_adapter = \<lparr>wa_server = False, wa_servers = False, wa_should_exit = False, wa_watcher = False, wa_listener_active = False,
     wa_serve_active = False, wa_shutdown_done = False, wa_shutdowns = 0\<rparr>"

text \<open>What \<open>start\<close> needs of its slot and the configuration before it binds.\<close>

record endpoint_slot =
  es_host :: "string option"
  es_port :: "int option"
  es_shared_socket :: bool
  es_ssl :: "tls_config option"
  es_where :: string

record uvicorn_config =
  uc_host :: string
  uc_port :: int
  uc_access_log :: bool
  uc_tls :: "(string, tls_value) dict"
  uc_reloading :: bool
  uc_watching :: "int option"

definition start_config :: "(string \<Rightarrow> file_state) \<Rightarrow> web_server_config \<Rightarrow> bool \<Rightarrow> web_error + 'r asgi \<Rightarrow> endpoint_slot option \<Rightarrow>
    web_error + uvicorn_config \<times> 'r asgi" where
  "start_config file cfg dev built slot =
     (case slot of
        None \<Rightarrow> Inl NoSlot
      | Some sl \<Rightarrow>
          if es_port sl = None \<and> \<not> es_shared_socket sl then Inl (NoPort (es_where sl))
          else let tls = resolve_tls (es_ssl sl) (ws_ssl cfg)
               in sbind built (\<lambda>app. sbind (tls_kwargs file tls)
                 (\<lambda>kw. Inr (\<lparr>uc_host = (case es_host sl of Some h \<Rightarrow> h | None \<Rightarrow> ''0.0.0.0''),
                    uc_port = (case es_port sl of Some p \<Rightarrow> p | None \<Rightarrow> 0), uc_access_log = dev, uc_tls = kw,
                    uc_reloading = tls_enabled tls,
                    uc_watching = (if tls_enabled tls \<and> ws_reload_mode cfg \<in> {ModeWatch, ModeBoth} then Some (ws_reload_interval cfg) else None)\<rparr>, app))))"

text \<open>\<open>_bind\<close> and the lines after it; \<open>bound\<close> is whether uvicorn set its listeners up.\<close>

definition bind_server :: "uvicorn_config \<Rightarrow> bool \<Rightarrow> web_adapter \<Rightarrow> web_adapter" where
  "bind_server c bound a = a\<lparr>wa_server := True, wa_servers := bound, wa_should_exit := \<not> bound, wa_shutdown_done := False,
     wa_shutdowns := 0, wa_listener_active := uc_reloading c, wa_watcher := (uc_watching c \<noteq> None)\<rparr>"

definition shutdown_server :: "web_adapter \<Rightarrow> web_adapter" where
  "shutdown_server a = a\<lparr>wa_shutdowns := wa_shutdowns a + 1, wa_shutdown_done := True\<rparr>"

definition serve_begin :: "web_adapter \<Rightarrow> web_adapter" where
  "serve_begin a = (if wa_server a then a\<lparr>wa_serve_active := True\<rparr> else a)"

definition serve_end :: "web_adapter \<Rightarrow> web_adapter" where
  "serve_end a =
     (if \<not> wa_serve_active a then a
      else let a1 = a\<lparr>wa_watcher := False\<rparr>;
               a2 = (if \<not> wa_shutdown_done a1 \<and> wa_servers a1 then shutdown_server a1 else a1)
           in a2\<lparr>wa_listener_active := False, wa_serve_active := False\<rparr>)"

definition stop_adapter :: "web_adapter \<Rightarrow> web_adapter" where
  "stop_adapter a =
     (let a1 = (if wa_server a then a\<lparr>wa_should_exit := True\<rparr> else a);
          a2 = a1\<lparr>wa_listener_active := False, wa_watcher := False\<rparr>
      in if wa_server a2 \<and> \<not> wa_serve_active a2 \<and> \<not> wa_shutdown_done a2 \<and> wa_servers a2 then shutdown_server a2 else a2)"

datatype adapter_op = ServeBegin | ServeEnd | Stop

definition adapter_step :: "adapter_op \<Rightarrow> web_adapter \<Rightarrow> web_adapter" where
  "adapter_step op a = (case op of ServeBegin \<Rightarrow> serve_begin a | ServeEnd \<Rightarrow> serve_end a | Stop \<Rightarrow> stop_adapter a)"

definition adapter_ok :: "web_adapter \<Rightarrow> bool" where
  "adapter_ok a \<longleftrightarrow> wa_shutdowns a = (if wa_shutdown_done a then 1 else 0) \<and> (wa_shutdown_done a \<longrightarrow> wa_servers a) \<and> (wa_servers a \<longrightarrow> wa_server a)"

lemma adapter_step_ok: "adapter_ok a \<Longrightarrow> adapter_ok (adapter_step op a) \<and> wa_servers (adapter_step op a) = wa_servers a"
  by (cases op) (auto simp: adapter_ok_def adapter_step_def serve_begin_def serve_end_def stop_adapter_def shutdown_server_def Let_def)

lemma adapter_run_ok: "adapter_ok a \<Longrightarrow> adapter_ok (fold adapter_step ops a) \<and> wa_servers (fold adapter_step ops a) = wa_servers a"
proof (induction ops arbitrary: a)
  case (Cons op ops)
  from adapter_step_ok [OF Cons.prems, of op] Cons.IH [of "adapter_step op a"] show ?case by simp
qed simp

text \<open>
  However \<open>serve\<close> and \<open>stop\<close> interleave after a bind, the listeners are shut down at most once, and once the adapter was
  stopped and is not serving they have been, the certificate watcher is gone and no reload reaches the listener.
\<close>

theorem listeners_shut_down_once:
  "let a = fold adapter_step ops (bind_server c True new_web_adapter)
   in wa_shutdowns a \<le> 1 \<and>
      (let e = adapter_step Stop a
       in if wa_serve_active e then wa_shutdowns (adapter_step ServeEnd e) = 1 \<and> \<not> wa_watcher (adapter_step ServeEnd e)
          else wa_shutdowns e = 1 \<and> \<not> wa_watcher e \<and> \<not> wa_listener_active e)"
proof -
  let ?b = "bind_server c True new_web_adapter"
  let ?a = "fold adapter_step ops ?b"
  have "adapter_ok ?b" "wa_servers ?b" by (simp_all add: adapter_ok_def bind_server_def new_web_adapter_def)
  with adapter_run_ok [of ?b ops] have "adapter_ok ?a" "wa_servers ?a" by simp_all
  then have "wa_shutdowns a \<le> 1 \<and> (let e = adapter_step Stop a
       in if wa_serve_active e then wa_shutdowns (adapter_step ServeEnd e) = 1 \<and> \<not> wa_watcher (adapter_step ServeEnd e)
          else wa_shutdowns e = 1 \<and> \<not> wa_watcher e \<and> \<not> wa_listener_active e)" if "a = ?a" for a
    using that unfolding Let_def adapter_ok_def adapter_step_def serve_end_def stop_adapter_def shutdown_server_def by auto
  then show ?thesis by simp
qed

text \<open>\<open>_watch_tls\<close>: the sleeps before each reload, by whether the reloads fail; after a failure three quicker retries.\<close>

fun watch_sleeps :: "int \<Rightarrow> int list \<Rightarrow> bool list \<Rightarrow> int list" where
  "watch_sleeps interval retries [] = [case retries of [] \<Rightarrow> interval | d # _ \<Rightarrow> d]"
| "watch_sleeps interval retries (failed # rest) =
     (case retries of
        [] \<Rightarrow> interval # watch_sleeps interval (if failed then [5, 10, 30] else []) rest
      | d # ds \<Rightarrow> d # watch_sleeps interval (if failed then ds else []) rest)"

lemma failing_reload_is_retried:
  "watch_sleeps 300 [] [True, True, True, True, True, False] = [300, 5, 10, 30, 300, 5, 300]"
  by code_simp

end
