(* ===== verification/Sql_Transactions.thy ===== *)
theory Sql_Transactions
  imports Prelude
begin

text \<open>
  Units of work over SQLAlchemy (\<open>xime/starters/sqlalchemy/transaction.py\<close>, \<open>readonly.py\<close>, \<open>session.py\<close>,
  \<open>_cleanup.py\<close>): the session that a context variable holds, what is called on it and which exception leaves a block.
  How a call on a session ends is a parameter. A program nests blocks as business code does.
\<close>

section \<open>Sessions\<close>

text \<open>How a call ends: \<open>Stops\<close> is a \<open>BaseException\<close> that is no \<open>Exception\<close>, such as a cancellation.\<close>

datatype call_fate = Done | Fails nat | Stops nat

datatype db_call = Begin | Commit | Rollback | Expunge | Close

type_synonym fates = "nat \<Rightarrow> db_call \<Rightarrow> call_fate"

text \<open>
  The context variable, the number of the next session, the calls in order, and the cleanup failures that were reported on
  another exception (\<open>add_note\<close> and the log). \<open>db_bodies\<close> only observes: the body of which session, of which kind
  of unit, ended how.
\<close>

datatype unit_kind = Writing | Reading

record db_state =
  db_current :: "nat option"
  db_next :: nat
  db_calls :: "(nat \<times> db_call) list"
  db_reported :: "(nat \<times> db_call) list"
  db_bodies :: "(nat \<times> unit_kind \<times> call_fate) list"

definition new_db :: db_state where
  "new_db = \<lparr>db_current = None, db_next = 0, db_calls = [], db_reported = [], db_bodies = []\<rparr>"

definition note_body :: "nat \<Rightarrow> unit_kind \<Rightarrow> call_fate \<Rightarrow> db_state \<Rightarrow> db_state" where
  "note_body i kind exc d = d\<lparr>db_bodies := db_bodies d @ [(i, kind, exc)]\<rparr>"

definition open_session :: "db_state \<Rightarrow> nat \<times> db_state" where
  "open_session d = (db_next d, d\<lparr>db_next := db_next d + 1\<rparr>)"

text \<open>\<open>AsyncSessionFactory.current\<close>; \<open>None\<close> is the RuntimeError.\<close>

definition current_session :: "db_state \<Rightarrow> nat option" where
  "current_session d = db_current d"

definition call_on :: "fates \<Rightarrow> nat \<Rightarrow> db_call \<Rightarrow> db_state \<Rightarrow> call_fate \<times> db_state" where
  "call_on f i c d = (f i c, d\<lparr>db_calls := db_calls d @ [(i, c)]\<rparr>)"

text \<open>The test of both except clauses: a failure is raised when nothing went wrong before or when it is no \<open>Exception\<close>.\<close>

definition prevails :: "call_fate \<Rightarrow> call_fate \<Rightarrow> bool" where
  "prevails primary failure = (case failure of Done \<Rightarrow> False | Fails _ \<Rightarrow> primary = Done | Stops _ \<Rightarrow> True)"

definition report_cleanup_failure :: "nat \<Rightarrow> db_call \<Rightarrow> db_state \<Rightarrow> db_state" where
  "report_cleanup_failure i c d = d\<lparr>db_reported := db_reported d @ [(i, c)]\<rparr>"

text \<open>A cleanup call under a primary fate: the fate that is raised from here on, and what was reported.\<close>

definition cleanup_call :: "fates \<Rightarrow> nat \<Rightarrow> db_call \<Rightarrow> call_fate \<Rightarrow> db_state \<Rightarrow> call_fate \<times> db_state" where
  "cleanup_call f i c primary d =
     (let (failure, d1) = call_on f i c d
      in if failure = Done then (primary, d1)
         else if prevails primary failure then (failure, d1)
         else (primary, report_cleanup_failure i c d1))"

section \<open>The two contexts\<close>

definition restore :: "nat option \<Rightarrow> call_fate \<times> db_state \<Rightarrow> call_fate \<times> db_state" where
  "restore token fd = (fst fd, (snd fd)\<lparr>db_current := token\<rparr>)"

text \<open>\<open>__aenter__\<close> of a transaction: the previous value of the variable, or the exception after the session is closed.\<close>

definition tx_enter :: "fates \<Rightarrow> nat \<Rightarrow> db_state \<Rightarrow> call_fate \<times> db_state" where
  "tx_enter f i d =
     (let (failure, d1) = call_on f i Begin (d\<lparr>db_current := Some i\<rparr>)
      in if failure = Done then (Done, d1) else restore (db_current d) (cleanup_call f i Close failure d1))"

definition tx_exit :: "fates \<Rightarrow> nat \<Rightarrow> nat option \<Rightarrow> call_fate \<Rightarrow> db_state \<Rightarrow> call_fate \<times> db_state" where
  "tx_exit f i token exc d =
     (let (primary, d1) = cleanup_call f i (if exc = Done then Commit else Rollback) exc d
      in restore token (cleanup_call f i Close primary d1))"

definition ro_exit :: "fates \<Rightarrow> nat \<Rightarrow> nat option \<Rightarrow> call_fate \<Rightarrow> db_state \<Rightarrow> call_fate \<times> db_state" where
  "ro_exit f i token exc d =
     (let (failure, d1) = call_on f i Expunge d;
          (primary, d2) =
            (if failure = Done then cleanup_call f i Rollback exc d1
             else if prevails exc failure then (failure, d1)
             else (exc, report_cleanup_failure i Expunge d1))
      in restore token (cleanup_call f i Close primary d2))"

section \<open>Programs\<close>

text \<open>
  A use of the current session with the fate of what is done there, statements in sequence, a block that handles any
  \<open>Exception\<close> of its body, and the two kinds of units of work.
\<close>

datatype program = Query call_fate | Then program program | Handle program | Transaction program | ReadOnly program

text \<open>The error of \<open>current\<close> outside of every block.\<close>

definition no_session :: call_fate where "no_session = Fails 0"

fun execute :: "fates \<Rightarrow> program \<Rightarrow> db_state \<Rightarrow> call_fate \<times> db_state" where
  "execute f (Query r) d = (if current_session d = None then (no_session, d) else (r, d))"
| "execute f (Then p q) d = (let (r, d1) = execute f p d in if r = Done then execute f q d1 else (r, d1))"
| "execute f (Handle p) d = (let (r, d1) = execute f p d in (case r of Fails _ \<Rightarrow> (Done, d1) | _ \<Rightarrow> (r, d1)))"
| "execute f (Transaction p) d =
     (let (i, d1) = open_session d; (r, d2) = tx_enter f i d1
      in if r \<noteq> Done then (r, d2) else let (exc, d3) = execute f p d2 in tx_exit f i (db_current d1) exc (note_body i Writing exc d3))"
| "execute f (ReadOnly p) d =
     (if db_current d \<noteq> None then execute f p d
      else let (i, d1) = open_session d; (exc, d2) = execute f p (d1\<lparr>db_current := Some i\<rparr>)
           in ro_exit f i (db_current d1) exc (note_body i Reading exc d2))"

section \<open>What a block leaves\<close>

text \<open>Of two fates in sequence the first counts, unless the second is no \<open>Exception\<close>.\<close>

definition join_fate :: "call_fate \<Rightarrow> call_fate \<Rightarrow> call_fate" where
  "join_fate a b = (if prevails a b then b else a)"

lemma cleanup_call_simps [simp]:
  "fst (cleanup_call f i c primary d) = join_fate primary (f i c)"
  "db_current (snd (cleanup_call f i c primary d)) = db_current d"
  "db_next (snd (cleanup_call f i c primary d)) = db_next d"
  "db_calls (snd (cleanup_call f i c primary d)) = db_calls d @ [(i, c)]"
  "db_bodies (snd (cleanup_call f i c primary d)) = db_bodies d"
  by (auto simp: cleanup_call_def call_on_def join_fate_def prevails_def report_cleanup_failure_def)

lemma restore_simps [simp]:
  "fst (restore token fd) = fst fd" "db_current (snd (restore token fd)) = token"
  "db_next (snd (restore token fd)) = db_next (snd fd)" "db_calls (snd (restore token fd)) = db_calls (snd fd)"
  "db_bodies (snd (restore token fd)) = db_bodies (snd fd)"
  by (simp_all add: restore_def)

lemma tx_exit_simps [simp]:
  "fst (tx_exit f i token exc d) = join_fate (join_fate exc (f i (if exc = Done then Commit else Rollback))) (f i Close)"
  "db_current (snd (tx_exit f i token exc d)) = token"
  "db_next (snd (tx_exit f i token exc d)) = db_next d"
  "db_calls (snd (tx_exit f i token exc d)) = db_calls d @ [(i, if exc = Done then Commit else Rollback), (i, Close)]"
  "db_bodies (snd (tx_exit f i token exc d)) = db_bodies d"
  by (auto simp: tx_exit_def Let_def split_beta)

definition ro_calls :: "fates \<Rightarrow> nat \<Rightarrow> db_call list" where
  "ro_calls f i = (if f i Expunge = Done then [Expunge, Rollback, Close] else [Expunge, Close])"

lemma ro_exit_simps [simp]:
  "fst (ro_exit f i token exc d) =
     join_fate (join_fate exc (if f i Expunge = Done then f i Rollback else f i Expunge)) (f i Close)"
  "db_current (snd (ro_exit f i token exc d)) = token"
  "db_next (snd (ro_exit f i token exc d)) = db_next d"
  "db_calls (snd (ro_exit f i token exc d)) = db_calls d @ map (Pair i) (ro_calls f i)"
  "db_bodies (snd (ro_exit f i token exc d)) = db_bodies d"
  by (auto simp: ro_exit_def Let_def split_beta call_on_def ro_calls_def join_fate_def report_cleanup_failure_def)

lemma tx_enter_simps [simp]:
  "fst (tx_enter f i d) = (if f i Begin = Done then Done else join_fate (f i Begin) (f i Close))"
  "db_current (snd (tx_enter f i d)) = (if f i Begin = Done then Some i else db_current d)"
  "db_next (snd (tx_enter f i d)) = db_next d"
  "db_calls (snd (tx_enter f i d)) = db_calls d @ (if f i Begin = Done then [(i, Begin)] else [(i, Begin), (i, Close)])"
  "db_bodies (snd (tx_enter f i d)) = db_bodies d"
  by (auto simp: tx_enter_def Let_def split_beta call_on_def)

lemma note_body_simps [simp]:
  "db_current (note_body i k exc d) = db_current d" "db_next (note_body i k exc d) = db_next d"
  "db_calls (note_body i k exc d) = db_calls d" "db_bodies (note_body i k exc d) = db_bodies d @ [(i, k, exc)]"
  by (simp_all add: note_body_def)

lemma join_fate_Done [simp]: "join_fate a b = Done \<longleftrightarrow> a = Done \<and> b = Done"
  by (cases b) (auto simp: join_fate_def prevails_def)

text \<open>What is recorded of one session, its calls or the ends of its body.\<close>

definition of_session :: "nat \<Rightarrow> (nat \<times> 'x) list \<Rightarrow> 'x list" where
  "of_session i cs = map snd (filter (\<lambda>x. fst x = i) cs)"

lemma of_session_simps [simp]:
  "of_session i [] = []" "of_session i (cs @ cs') = of_session i cs @ of_session i cs'"
  "of_session i ((j, c) # cs) = (if j = i then c # of_session i cs else of_session i cs)"
  "of_session i (map (Pair j) xs) = (if j = i then xs else [])"
  by (auto simp: of_session_def filter_map o_def filter_empty_conv)

text \<open>
  The whole life of a session. One whose body never ran failed to begin and was closed. One whose body ran in a transaction
  was begun, then committed when the body ended well and rolled back otherwise, and closed. One of a read-only unit
  had its entities detached and was rolled back, or not when they could not be detached, and closed.
\<close>

definition whole_life :: "fates \<Rightarrow> nat \<Rightarrow> (unit_kind \<times> call_fate) list \<Rightarrow> db_call list \<Rightarrow> bool" where
  "whole_life f i bodies calls \<longleftrightarrow>
     bodies = [] \<and> f i Begin \<noteq> Done \<and> calls = [Begin, Close] \<or>
     (\<exists>exc. bodies = [(Writing, exc)] \<and> f i Begin = Done \<and> calls = [Begin, if exc = Done then Commit else Rollback, Close]) \<or>
     (\<exists>exc. bodies = [(Reading, exc)] \<and> calls = (if f i Expunge = Done then [Expunge, Rollback, Close] else [Expunge, Close]))"

text \<open>
  From one state to another the variable is as it was, and the calls made are those of the sessions that were created
  meanwhile, each with a whole life.
\<close>

definition unit_ok :: "fates \<Rightarrow> db_state \<Rightarrow> db_state \<Rightarrow> bool" where
  "unit_ok f d d' \<longleftrightarrow> db_current d' = db_current d \<and> db_next d \<le> db_next d' \<and>
     (\<exists>cs bs. db_calls d' = db_calls d @ cs \<and> db_bodies d' = db_bodies d @ bs \<and>
       (\<forall>i. of_session i cs \<noteq> [] \<or> of_session i bs \<noteq> [] \<longrightarrow> db_next d \<le> i \<and> i < db_next d') \<and>
       (\<forall>i. db_next d \<le> i \<and> i < db_next d' \<longrightarrow> whole_life f i (of_session i bs) (of_session i cs)))"

lemma unit_ok_refl [simp]: "unit_ok f d d"
  by (auto simp: unit_ok_def)

lemma unit_ok_trans:
  assumes "unit_ok f d d1" and "unit_ok f d1 d2"
  shows "unit_ok f d d2"
proof -
  from assms(1) obtain cs1 bs1 where 1: "db_current d1 = db_current d" "db_next d \<le> db_next d1"
    "db_calls d1 = db_calls d @ cs1" "db_bodies d1 = db_bodies d @ bs1"
    "\<And>i. of_session i cs1 \<noteq> [] \<or> of_session i bs1 \<noteq> [] \<Longrightarrow> db_next d \<le> i \<and> i < db_next d1"
    "\<And>i. db_next d \<le> i \<Longrightarrow> i < db_next d1 \<Longrightarrow> whole_life f i (of_session i bs1) (of_session i cs1)" by (auto simp: unit_ok_def)
  from assms(2) obtain cs2 bs2 where 2: "db_current d2 = db_current d1" "db_next d1 \<le> db_next d2"
    "db_calls d2 = db_calls d1 @ cs2" "db_bodies d2 = db_bodies d1 @ bs2"
    "\<And>i. of_session i cs2 \<noteq> [] \<or> of_session i bs2 \<noteq> [] \<Longrightarrow> db_next d1 \<le> i \<and> i < db_next d2"
    "\<And>i. db_next d1 \<le> i \<Longrightarrow> i < db_next d2 \<Longrightarrow> whole_life f i (of_session i bs2) (of_session i cs2)" by (auto simp: unit_ok_def)
  have range: "db_next d \<le> i \<and> i < db_next d2" if "of_session i (cs1 @ cs2) \<noteq> [] \<or> of_session i (bs1 @ bs2) \<noteq> []" for i
    using that 1(2) 1(5) [of i] 2(2) 2(5) [of i] by fastforce
  have whole: "whole_life f i (of_session i (bs1 @ bs2)) (of_session i (cs1 @ cs2))" if i: "db_next d \<le> i" "i < db_next d2" for i
  proof (cases "i < db_next d1")
    case True
    then have "of_session i cs2 = [] \<and> of_session i bs2 = []" using 2(5) [of i] by fastforce
    then show ?thesis using 1(6) [OF i(1) True] by simp
  next
    case False
    then have "of_session i cs1 = [] \<and> of_session i bs1 = []" using 1(5) [of i] by fastforce
    then show ?thesis using 2(6) [of i] i(2) False by simp
  qed
  have "db_calls d2 = db_calls d @ cs1 @ cs2" "db_bodies d2 = db_bodies d @ bs1 @ bs2" using 1(3,4) 2(3,4) by simp_all
  then show ?thesis unfolding unit_ok_def using 1(1,2) 2(1,2) range whole
    by (intro conjI exI [of _ "cs1 @ cs2"] exI [of _ "bs1 @ bs2"]) auto
qed

lemma unit_ok_wrap:
  assumes inner: "unit_ok f d2 d3"
    and start: "db_next d2 = Suc (db_next d)" "db_calls d2 = db_calls d @ map (Pair (db_next d)) front" "db_bodies d2 = db_bodies d"
    and finish: "db_current d' = db_current d" "db_next d' = db_next d3" "db_calls d' = db_calls d3 @ map (Pair (db_next d)) rear"
      "db_bodies d' = db_bodies d3 @ map (Pair (db_next d)) body"
    and life: "whole_life f (db_next d) body (front @ rear)"
  shows "unit_ok f d d'"
proof -
  let ?i = "db_next d"
  from inner obtain cs bs where 1: "Suc ?i \<le> db_next d3" "db_calls d3 = db_calls d2 @ cs" "db_bodies d3 = db_bodies d2 @ bs"
    "\<And>i. of_session i cs \<noteq> [] \<or> of_session i bs \<noteq> [] \<Longrightarrow> Suc ?i \<le> i \<and> i < db_next d3"
    "\<And>i. Suc ?i \<le> i \<Longrightarrow> i < db_next d3 \<Longrightarrow> whole_life f i (of_session i bs) (of_session i cs)"
    using start by (auto simp: unit_ok_def)
  let ?cs = "map (Pair ?i) front @ cs @ map (Pair ?i) rear" and ?bs = "bs @ map (Pair ?i) body"
  have none: "of_session ?i cs = []" "of_session ?i bs = []" by (rule ccontr, use 1(4) [of ?i] in auto)+
  then have calls: "of_session i ?cs = (if i = ?i then front @ rear else of_session i cs)"
    and bodies: "of_session i ?bs = (if i = ?i then body else of_session i bs)" for i by auto
  have "whole_life f i (of_session i ?bs) (of_session i ?cs)" if "?i \<le> i" "i < db_next d3" for i
    using that 1(5) [of i] life unfolding calls bodies by auto
  moreover have "?i \<le> i \<and> i < db_next d3" if "of_session i ?cs \<noteq> [] \<or> of_session i ?bs \<noteq> []" for i
    using that 1(1) 1(4) [of i] unfolding calls bodies by (auto split: if_splits)
  moreover have "db_calls d' = db_calls d @ ?cs" "db_bodies d' = db_bodies d @ ?bs" using 1(2,3) start finish by simp_all
  ultimately show ?thesis unfolding unit_ok_def using 1(1) finish by (intro conjI exI [of _ ?cs] exI [of _ ?bs]) auto
qed

lemma execute_unit: "unit_ok f d (snd (execute f p d))"
proof (induction p arbitrary: d)
  case (Query x)
  show ?case by simp
next
  case (Then p q)
  show ?case using Then.IH(1) [of d] Then.IH(2) [of "snd (execute f p d)"] unit_ok_trans
    by (auto simp: Let_def split_beta)
next
  case (Handle p)
  show ?case using Handle.IH [of d] by (auto simp: Let_def split_beta split: call_fate.split)
next
  case (Transaction p)
  let ?i = "db_next d" and ?d1 = "d\<lparr>db_next := Suc (db_next d)\<rparr>"
  let ?d2 = "snd (tx_enter f ?i ?d1)"
  show ?case
  proof (cases "f ?i Begin = Done")
    case True
    let ?r = "execute f p ?d2"
    have run: "execute f (Transaction p) d = tx_exit f ?i (db_current d) (fst ?r) (note_body ?i Writing (fst ?r) (snd ?r))"
      using True by (simp add: open_session_def Let_def split_beta)
    show ?thesis unfolding run
      by (rule unit_ok_wrap [OF Transaction.IH [of ?d2], where front = "[Begin]"
            and rear = "[if fst ?r = Done then Commit else Rollback, Close]" and body = "[(Writing, fst ?r)]"])
         (auto simp: True whole_life_def)
  next
    case False
    then have run: "execute f (Transaction p) d = tx_enter f ?i ?d1"
      by (simp add: open_session_def Let_def split_beta prod_eq_iff)
    show ?thesis unfolding run
      by (rule unit_ok_wrap [OF unit_ok_refl [of f ?d2], where front = "[Begin, Close]" and rear = "[]" and body = "[]"])
         (auto simp: False whole_life_def)
  qed
next
  case (ReadOnly p)
  let ?i = "db_next d" and ?d2 = "d\<lparr>db_next := Suc (db_next d), db_current := Some (db_next d)\<rparr>"
  show ?case
  proof (cases "db_current d = None")
    case False
    then show ?thesis using ReadOnly.IH [of d] by simp
  next
    case True
    let ?r = "execute f p ?d2"
    have run: "execute f (ReadOnly p) d = ro_exit f ?i (db_current d) (fst ?r) (note_body ?i Reading (fst ?r) (snd ?r))"
      using True by (simp add: open_session_def Let_def split_beta)
    show ?thesis unfolding run
      by (rule unit_ok_wrap [OF ReadOnly.IH [of ?d2], where front = "[]" and rear = "ro_calls f ?i" and body = "[(Reading, fst ?r)]"])
         (auto simp: ro_calls_def whole_life_def)
  qed
qed

text \<open>
  C39: Whatever fails and however units of work are nested and their exceptions handled, the context variable is empty again
  at the end and every session that was created has had its whole life, with one close as its last call: a transaction that
  began was committed once when its body ended well and otherwise rolled back once, one that could not begin was only
  closed, and a read-only session was rolled back, never committed, unless its entities could not be detached; then
  it was only closed.
\<close>

theorem units_of_work_clean_up:
  "let (r, d') = execute f p new_db
   in db_current d' = None \<and> list_all (\<lambda>(i, c). i < db_next d') (db_calls d') \<and>
      list_all (\<lambda>i. whole_life f i (of_session i (db_bodies d')) (of_session i (db_calls d'))) [0..<db_next d']"
proof -
  let ?d = "snd (execute f p new_db)"
  from execute_unit [of f new_db p] have cur: "db_current ?d = None"
    and own: "\<And>i. of_session i (db_calls ?d) \<noteq> [] \<Longrightarrow> i < db_next ?d"
    and whole: "\<And>i. i < db_next ?d \<Longrightarrow> whole_life f i (of_session i (db_bodies ?d)) (of_session i (db_calls ?d))"
    by (auto simp: unit_ok_def new_db_def)
  have "i < db_next ?d" if "(i, c) \<in> set (db_calls ?d)" for i c
  proof (rule own)
    from that show "of_session i (db_calls ?d) \<noteq> []" by (force simp: of_session_def filter_empty_conv)
  qed
  then show ?thesis using cur whole by (auto simp: Let_def split_beta list_all_iff)
qed

text \<open>
  The exception of a transaction: that of \<open>begin\<close>, else the one of its body, of \<open>commit\<close> or \<open>rollback\<close> and of \<open>close\<close>,
  whichever came first, but one that is no \<open>Exception\<close> prevails over those before it. A transaction that ends without
  an exception was begun, committed and closed.
\<close>

theorem transaction_outcome:
  "fst (execute f (Transaction p) d) =
     (let i = db_next d; exc = fst (execute f p (snd (tx_enter f i (d\<lparr>db_next := i + 1\<rparr>))))
      in if f i Begin \<noteq> Done then join_fate (f i Begin) (f i Close)
         else join_fate (join_fate exc (f i (if exc = Done then Commit else Rollback))) (f i Close))"
  by (simp add: open_session_def Let_def split_beta)

corollary transaction_succeeds_committed:
  assumes "fst (execute f (Transaction p) d) = Done"
  shows "f (db_next d) Begin = Done \<and> f (db_next d) Commit = Done \<and> f (db_next d) Close = Done"
  using assms unfolding transaction_outcome by (auto simp: Let_def split: if_splits)

text \<open>A body that asks for the session outside of every block fails and touches nothing.\<close>

lemma no_session_outside: "db_current d = None \<Longrightarrow> execute f (Query r) d = (no_session, d)"
  by (simp add: current_session_def)

text \<open>A read-only unit inside a transaction uses its session and leaves it open.\<close>

lemma read_only_borrows: "db_current d \<noteq> None \<Longrightarrow> execute f (ReadOnly p) d = execute f p d"
  by simp

text \<open>When the entities cannot be detached, a read-only session is closed without a rollback.\<close>

lemma failed_expunge_skips_rollback:
  "db_calls (snd (execute (\<lambda>i c. if c = Expunge then Fails 7 else Done) (ReadOnly (Query Done)) new_db)) = [(0, Expunge), (0, Close)]"
  by code_simp

text \<open>A transaction whose failure is handled, then one that reads through a nested unit and whose commit is cancelled.\<close>

lemma sample_units:
  "execute (\<lambda>i c. if i = 1 \<and> c = Commit then Stops 9 else Done)
     (Then (Handle (Transaction (Query (Fails 1)))) (Transaction (ReadOnly (Query Done)))) new_db =
   (Stops 9, \<lparr>db_current = None, db_next = 2,
      db_calls = [(0, Begin), (0, Rollback), (0, Close), (1, Begin), (1, Commit), (1, Close)], db_reported = [],
      db_bodies = [(0, Writing, Fails 1), (1, Writing, Done)]\<rparr>)"
  by code_simp

end
