(* ===== verification/Application_Run.thy ===== *)
theory Application_Run
  imports Prelude
begin

text \<open>
  The life of an application in one process (\<open>xime/core/bootstrap/application.py\<close>): what is opened in which order when it
  starts, what is closed when it stops or fails, the adapters it is given and the configuration module it finds. A call of
  something else is an element of a trace with the way it ended; \<open>run n c\<close> is how the n-th call ends. Adapters are numbers with
  their being singletons. The flags of an object and the counts of its trace agree (\<open>balanced\<close>), so that a run that ends
  with all flags cleared has closed everything it opened.
\<close>

section \<open>Calls and results\<close>

text \<open>An \<open>Exception\<close>, a \<open>CancelledError\<close>, a \<open>KeyboardInterrupt\<close>, and any other \<open>BaseException\<close>.\<close>

datatype result = Okay | Error nat | Cancellation | Keyboard | Abort nat

datatype app_call =
  FindBinding | LoadRuntime | LogOpen | NativeAttach | NativeClose | LogClose
| RefOpen | RefClose | LinkMake | LinkOpen | LinkListen | LinkQuiesce | LinkClose
| DiMake | DiStart | DiStop | RunOnceHooks | TellRunOnce | TellReady
| BuildRunner | CheckTargets | AdapterStart nat | AdapterStop nat | Serve | ResolveTopology | PrepareWorker

record application =
  ap_adapters :: "(nat \<times> bool) list"
  ap_framework :: "nat list"
  ap_started :: "nat list"
  ap_standby :: "nat list"
  ap_primary :: bool
  ap_run_once_done :: bool
  ap_logging :: bool
  ap_native :: bool
  ap_refdata :: bool
  ap_cluster :: bool
  ap_orchestrator :: bool
  ap_runtime :: bool
  ap_trace :: "(app_call \<times> result) list"

definition new_application :: application where
  "new_application = \<lparr>ap_adapters = [], ap_framework = [], ap_started = [], ap_standby = [], ap_primary = True, ap_run_once_done = False,
     ap_logging = False, ap_native = False, ap_refdata = False, ap_cluster = False, ap_orchestrator = False, ap_runtime = False, ap_trace = []\<rparr>"

type_synonym runs = "nat \<Rightarrow> app_call \<Rightarrow> result"

type_synonym step = "application \<Rightarrow> result \<times> application"

text \<open>A call, and what the object becomes when it succeeds.\<close>

definition perform :: "runs \<Rightarrow> app_call \<Rightarrow> (application \<Rightarrow> application) \<Rightarrow> step" where
  "perform run c update a =
     (let r = run (length (ap_trace a)) c; a1 = a\<lparr>ap_trace := ap_trace a @ [(c, r)]\<rparr>
      in (r, if r = Okay then update a1 else a1))"

definition just :: "(application \<Rightarrow> application) \<Rightarrow> step" where
  "just f a = (Okay, f a)"

definition and_then :: "step \<Rightarrow> step \<Rightarrow> step" where
  "and_then m k a = (let (r, a1) = m a in if r = Okay then k a1 else (r, a1))"

fun in_turn :: "step list \<Rightarrow> step" where
  "in_turn [] = just id"
| "in_turn (m # ms) = and_then m (in_turn ms)"

text \<open>\<open>try ... finally\<close> and \<open>try ... except BaseException: ...; raise\<close>: an exception of the second part replaces the first.\<close>

definition ensuring :: "step \<Rightarrow> step \<Rightarrow> step" where
  "ensuring m k a = (let (r, a1) = m a; (r2, a2) = k a1 in (if r2 = Okay then r else r2, a2))"

definition on_failure :: "step \<Rightarrow> step \<Rightarrow> step" where
  "on_failure m k a = (let (r, a1) = m a in if r = Okay then (Okay, a1) else let (r2, a2) = k a1 in (if r2 = Okay then r else r2, a2))"

definition when_set :: "(application \<Rightarrow> bool) \<Rightarrow> step \<Rightarrow> step" where
  "when_set cond m a = (if cond a then m a else (Okay, a))"

section \<open>Adapters and configuration\<close>

text \<open>An object that may be an adapter, as the contract check sees it.\<close>

record candidate =
  cd_is_adapter :: bool
  cd_id_text :: "string option"
  cd_scaling :: "bool option"
  cd_type :: nat

datatype use_error = NotAnAdapter | NoUsableId | NoScaling | DuplicateAdapter string

definition check_contract :: "candidate \<Rightarrow> use_error + unit" where
  "check_contract c =
     (if \<not> cd_is_adapter c then Inl NotAnAdapter
      else if cd_id_text c = None \<or> cd_id_text c = Some [] then Inl NoUsableId
      else if cd_scaling c = None then Inl NoScaling else Inr ())"

definition use_adapter :: "candidate \<Rightarrow> candidate list \<Rightarrow> use_error + candidate list" where
  "use_adapter c existing =
     sbind (check_contract c)
       (\<lambda>_. if \<exists>e \<in> set existing. cd_type e = cd_type c \<and> cd_id_text e = cd_id_text c
            then Inl (DuplicateAdapter (the (cd_id_text c))) else Inr (existing @ [c]))"

text \<open>The modules tried for the configuration: the one named, or that of the package of \<open>__main__\<close> and the top-level one.\<close>

definition config_candidates :: "string option \<Rightarrow> string option \<Rightarrow> string list" where
  "config_candidates configured main_parent =
     (case configured of
        Some m \<Rightarrow> [m]
      | None \<Rightarrow> (case main_parent of Some (c # cs) \<Rightarrow> [(c # cs) @ ''.config.dependency''] | _ \<Rightarrow> []) @ [''config.dependency''])"

text \<open>What importing a module gives: its \<open>dependency\<close> when that is a binding, a missing module by name, another exception.\<close>

datatype 'b import_result = Imported "'b option" | MissingModule string | ImportRaises nat

definition try_load_config :: "(string \<Rightarrow> 'b import_result) \<Rightarrow> string \<Rightarrow> nat + 'b option" where
  "try_load_config load path =
     (case load path of
        Imported b \<Rightarrow> Inr b
      | ImportRaises e \<Rightarrow> Inl e
      | MissingModule name \<Rightarrow>
          let parts = split_on (CHR ''.'') path; missing = split_on (CHR ''.'') name
          in if take (length missing) parts \<noteq> missing then Inl 0 else Inr None)"

text \<open>\<open>siblings\<close> imports the other modules of the package of a module.\<close>

fun discover_binding :: "(string \<Rightarrow> 'b import_result) \<Rightarrow> (string \<Rightarrow> nat + unit) \<Rightarrow> 'b \<Rightarrow> string list \<Rightarrow> nat + 'b" where
  "discover_binding load siblings fallback [] = Inr fallback"
| "discover_binding load siblings fallback (m # ms) =
     sbind (try_load_config load m)
       (\<lambda>r. case r of Some b \<Rightarrow> sbind (siblings m) (\<lambda>_. Inr b) | None \<Rightarrow> discover_binding load siblings fallback ms)"

text \<open>\<open>_validate_grpc_codefirst_targets\<close>: the controllers with a server id that no adapter serves.\<close>

definition unserved_controllers :: "string list \<Rightarrow> (string \<times> string) list \<Rightarrow> (string \<times> string) list" where
  "unserved_controllers served controllers = filter (\<lambda>c. snd c \<notin> set served) controllers"

section \<open>Starting\<close>

text \<open>What the process is given: the native log redirection, a scheduler, whether hooks that run once are still to run, the listeners
  the framework derives from the configuration, the adapters the process keeps, and whether it is the primary.\<close>

record setting =
  se_native :: bool
  se_scheduler :: "nat option"
  se_run_once_needed :: bool
  se_internal :: "(nat \<times> bool) list"
  se_kept :: "nat list"
  se_primary :: bool

definition stop_logging :: "runs \<Rightarrow> step" where
  "stop_logging run =
     in_turn [when_set ap_native (perform run NativeClose (\<lambda>a. a\<lparr>ap_native := False\<rparr>)),
       when_set ap_logging (perform run LogClose (\<lambda>a. a\<lparr>ap_logging := False\<rparr>))]"

definition start_logging :: "runs \<Rightarrow> setting \<Rightarrow> step" where
  "start_logging run S =
     when_set (\<lambda>a. \<not> ap_logging a)
       (in_turn [perform run LogOpen (\<lambda>a. a\<lparr>ap_logging := True\<rparr>),
         when_set (\<lambda>_. se_native S)
           (on_failure (perform run NativeAttach (\<lambda>a. a\<lparr>ap_native := True\<rparr>)) (perform run LogClose (\<lambda>a. a\<lparr>ap_logging := False\<rparr>)))])"

text \<open>The scheduler becomes an adapter of the framework; it is a singleton.\<close>

definition register_framework :: "runs \<Rightarrow> setting \<Rightarrow> step" where
  "register_framework run S =
     perform run BuildRunner (\<lambda>a. case se_scheduler S of
        None \<Rightarrow> a
      | Some i \<Rightarrow> a\<lparr>ap_adapters := ap_adapters a @ [(i, True)], ap_framework := ap_framework a @ [i]\<rparr>)"

definition start_runtime :: "runs \<Rightarrow> setting \<Rightarrow> step" where
  "start_runtime run S =
     in_turn [perform run RefOpen (\<lambda>a. a\<lparr>ap_refdata := True\<rparr>), perform run LinkMake (\<lambda>a. a\<lparr>ap_cluster := True\<rparr>), perform run LinkOpen id,
       perform run DiMake (\<lambda>a. a\<lparr>ap_orchestrator := True\<rparr>), perform run DiStart id, register_framework run S, perform run LinkListen id,
       when_set ap_primary
         (in_turn [when_set (\<lambda>_. se_run_once_needed S) (in_turn [perform run RunOnceHooks id, perform run TellRunOnce id]),
            just (\<lambda>a. a\<lparr>ap_run_once_done := True\<rparr>)])]"

definition start_application :: "runs \<Rightarrow> setting \<Rightarrow> step" where
  "start_application run S a =
     (if ap_orchestrator a then (Error 0, a)
      else in_turn [perform run FindBinding id, when_set (\<lambda>a. \<not> ap_runtime a) (perform run LoadRuntime (\<lambda>a. a\<lparr>ap_runtime := True\<rparr>)),
             start_logging run S, on_failure (start_runtime run S) (stop_logging run)] a)"

section \<open>Stopping\<close>

definition forget_framework :: "application \<Rightarrow> application" where
  "forget_framework a = a\<lparr>ap_adapters := filter (\<lambda>x. fst x \<notin> set (ap_framework a)) (ap_adapters a), ap_framework := [], ap_started := [],
     ap_standby := [], ap_run_once_done := False, ap_runtime := False\<rparr>"

definition stop_runtime :: "runs \<Rightarrow> step" where
  "stop_runtime run =
     in_turn [when_set ap_cluster (perform run LinkQuiesce id),
       when_set ap_orchestrator (perform run DiStop (\<lambda>a. a\<lparr>ap_orchestrator := False\<rparr>)),
       when_set ap_cluster (perform run LinkClose (\<lambda>a. a\<lparr>ap_cluster := False\<rparr>)),
       when_set ap_refdata (perform run RefClose (\<lambda>a. a\<lparr>ap_refdata := False\<rparr>)),
       just forget_framework]"

definition stop_application :: "runs \<Rightarrow> step" where
  "stop_application run = ensuring (stop_runtime run) (stop_logging run)"

text \<open>\<open>async with\<close>: \<open>__aexit__\<close> runs only when \<open>__aenter__\<close> returned.\<close>

definition with_application :: "runs \<Rightarrow> setting \<Rightarrow> step \<Rightarrow> step" where
  "with_application run S body = and_then (start_application run S) (ensuring body (stop_application run))"

section \<open>Running\<close>

fun start_each_adapter :: "runs \<Rightarrow> (nat \<times> bool) list \<Rightarrow> step" where
  "start_each_adapter run [] = just id"
| "start_each_adapter run ((i, singleton) # ads) =
     and_then (\<lambda>a. if singleton \<and> \<not> ap_primary a then (Okay, a\<lparr>ap_standby := ap_standby a @ [i]\<rparr>)
                   else perform run (AdapterStart i) (\<lambda>a. a\<lparr>ap_started := ap_started a @ [i]\<rparr>) a)
       (start_each_adapter run ads)"

text \<open>Exceptions and cancellations of \<open>stop\<close> are passed over; anything else leaves the loop.\<close>

fun stop_each_adapter :: "runs \<Rightarrow> nat list \<Rightarrow> step" where
  "stop_each_adapter run [] = just id"
| "stop_each_adapter run (i # rest) =
     (\<lambda>a. case perform run (AdapterStop i) id a of
        (Abort e, a1) \<Rightarrow> (Abort e, a1)
      | (Keyboard, a1) \<Rightarrow> (Keyboard, a1)
      | (_, a1) \<Rightarrow> stop_each_adapter run rest a1)"

definition run_body :: "runs \<Rightarrow> setting \<Rightarrow> step" where
  "run_body run S =
     in_turn [start_application run S, perform run CheckTargets id, \<lambda>a. start_each_adapter run (ap_adapters a) a,
       when_set ap_cluster (perform run TellReady id), perform run Serve id]"

definition swallow_interrupt :: "step \<Rightarrow> step" where
  "swallow_interrupt m a = (let (r, a1) = m a in (if r = Cancellation \<or> r = Keyboard then Okay else r, a1))"

definition run_async :: "runs \<Rightarrow> setting \<Rightarrow> step" where
  "run_async run S =
     ensuring (swallow_interrupt (run_body run S))
       (and_then (\<lambda>a. stop_each_adapter run (rev (map fst (ap_adapters a))) a) (stop_application run))"

text \<open>\<open>_run_worker\<close> up to the event loop: the adapters without a block of this process are left out.\<close>

definition prepare_run :: "runs \<Rightarrow> setting \<Rightarrow> step" where
  "prepare_run run S = perform run PrepareWorker
     (\<lambda>a. a\<lparr>ap_primary := se_primary S, ap_adapters := filter (\<lambda>x. fst x \<in> set (se_kept S)) (ap_adapters a)\<rparr>)"

text \<open>The first \<open>run\<close> of an application in one process.\<close>

definition run_application :: "runs \<Rightarrow> setting \<Rightarrow> step" where
  "run_application run S =
     in_turn [when_set (\<lambda>a. \<not> ap_runtime a) (perform run LoadRuntime (\<lambda>a. a\<lparr>ap_runtime := True\<rparr>)), 
       perform run ResolveTopology (\<lambda>a. a\<lparr>ap_adapters := ap_adapters a @ se_internal S\<rparr>), start_logging run S,
       ensuring (in_turn [prepare_run run S, run_async run S]) (stop_logging run)]"

text \<open>A start that fails inside \<open>async with\<close> leaves what it opened, and a second start is refused.\<close>

lemma failed_start_keeps_resources:
  "let S = \<lparr>se_native = False, se_scheduler = None, se_run_once_needed = True, se_internal = [], se_kept = [1, 2], se_primary = True\<rparr>;
       run = (\<lambda>n c. if c = DiStart then Error 3 else Okay);
       a = snd (with_application run S (just id) new_application)
   in ap_refdata a \<and> ap_cluster a \<and> ap_orchestrator a \<and> \<not> ap_logging a \<and>
      fst (with_application (\<lambda>_ _. Okay) S (just id) a) = Error 0"
  by code_simp

text \<open>A link that cannot be quiesced keeps the container, the link and the shared data open.\<close>

lemma failed_quiesce_keeps_resources:
  "let S = \<lparr>se_native = False, se_scheduler = None, se_run_once_needed = True, se_internal = [], se_kept = [1, 2], se_primary = True\<rparr>;
       run = (\<lambda>n c. if c = LinkQuiesce then Error 3 else Okay);
       (r, a) = run_application run S new_application
   in r = Error 3 \<and> ap_refdata a \<and> ap_cluster a \<and> ap_orchestrator a \<and> \<not> ap_logging a"
  by code_simp

section \<open>What was opened is closed\<close>

definition count_ok :: "app_call \<Rightarrow> application \<Rightarrow> nat" where
  "count_ok c a = length (filter (\<lambda>x. x = (c, Okay)) (ap_trace a))"

text \<open>Each flag tells whether its resource was opened once more than it was closed.\<close>

definition balanced :: "application \<Rightarrow> bool" where
  "balanced a \<longleftrightarrow> (ap_native a \<longrightarrow> ap_logging a) \<and>
     count_ok LogOpen a = count_ok LogClose a + of_bool (ap_logging a) \<and>
     count_ok NativeAttach a = count_ok NativeClose a + of_bool (ap_native a) \<and>
     count_ok RefOpen a = count_ok RefClose a + of_bool (ap_refdata a) \<and>
     count_ok LinkMake a = count_ok LinkClose a + of_bool (ap_cluster a) \<and>
     count_ok DiMake a = count_ok DiStop a + of_bool (ap_orchestrator a)"

text \<open>Only adapters of the application were started.\<close>

definition roster :: "application \<Rightarrow> bool" where
  "roster a \<longleftrightarrow> (\<forall>i r. (AdapterStart i, r) \<in> set (ap_trace a) \<longrightarrow> i \<in> fst ` set (ap_adapters a))"

definition core_flags :: "application \<Rightarrow> bool \<times> bool \<times> bool" where
  "core_flags a = (ap_refdata a, ap_cluster a, ap_orchestrator a)"

definition log_flags :: "application \<Rightarrow> bool \<times> bool" where
  "log_flags a = (ap_logging a, ap_native a)"

lemmas flow_defs = perform_def just_def and_then_def when_set_def Let_def

lemmas flag_defs = balanced_def roster_def core_flags_def log_flags_def count_ok_def

lemma in_turn_Nil [simp]: "in_turn [] a = (Okay, a)"
  by (simp add: just_def)

lemma in_turn_Cons: "in_turn (m # ms) a = (if fst (m a) = Okay then in_turn ms (snd (m a)) else m a)"
  by (simp add: and_then_def split_beta)

lemma stop_logging_ok:
  "balanced a \<Longrightarrow> roster a \<Longrightarrow> balanced (snd (stop_logging run a)) \<and> roster (snd (stop_logging run a)) \<and> core_flags (snd (stop_logging run a)) = core_flags a"
  unfolding stop_logging_def flag_defs by (simp add: in_turn_Cons flow_defs del: in_turn.simps)

lemma start_logging_ok:
  "balanced a \<Longrightarrow> roster a \<Longrightarrow> balanced (snd (start_logging run S a)) \<and> roster (snd (start_logging run S a)) \<and> core_flags (snd (start_logging run S a)) = core_flags a \<and>
     ap_adapters (snd (start_logging run S a)) = ap_adapters a"
  unfolding start_logging_def flag_defs
  by (cases "ap_logging a"; cases "ap_native a") (auto simp: in_turn_Cons flow_defs on_failure_def simp del: in_turn.simps)

text \<open>A balanced object with the flags of the log and of the rest; a call changes at most the flag of its resource.\<close>

definition open_are :: "bool \<times> bool \<Rightarrow> bool \<times> bool \<times> bool \<Rightarrow> application \<Rightarrow> bool" where
  "open_are l c a \<longleftrightarrow> balanced a \<and> roster a \<and> log_flags a = l \<and> core_flags a = c"

definition neutral :: "app_call \<Rightarrow> bool" where
  "neutral c \<longleftrightarrow> c \<notin> {LogOpen, LogClose, NativeAttach, NativeClose, RefOpen, RefClose, LinkMake, LinkClose, DiMake, DiStop} \<union> range AdapterStart"

lemma neutral_simps [simp]:
  "neutral FindBinding" "neutral LoadRuntime" "neutral LinkOpen" "neutral LinkListen" "neutral LinkQuiesce" "neutral DiStart"
  "neutral RunOnceHooks" "neutral TellRunOnce" "neutral TellReady" "neutral BuildRunner" "neutral CheckTargets"
  "neutral (AdapterStop i)" "neutral Serve" "neutral ResolveTopology" "neutral PrepareWorker"
  by (auto simp: neutral_def)

lemma trace_neutral:
  assumes "neutral c" and "open_are l f a"
  shows "open_are l f (a\<lparr>ap_trace := ap_trace a @ [(c, r)]\<rparr>)"
proof -
  have "c \<noteq> AdapterStart i" for i using assms(1) by (auto simp: neutral_def)
  then have "roster (a\<lparr>ap_trace := ap_trace a @ [(c, r)]\<rparr>)"
    using assms(2) by (auto simp: open_are_def roster_def)
  moreover have "count_ok x (a\<lparr>ap_trace := ap_trace a @ [(c, r)]\<rparr>) = count_ok x a" if "\<not> neutral x" for x
    using that assms(1) by (auto simp: count_ok_def)
  moreover have "\<not> neutral x" if "x \<in> {LogOpen, LogClose, NativeAttach, NativeClose, RefOpen, RefClose, LinkMake, LinkClose, DiMake, DiStop}" for x
    using that unfolding neutral_def by blast
  ultimately show ?thesis
    using assms(2) by (simp add: open_are_def balanced_def log_flags_def core_flags_def)
qed

lemma perform_neutral:
  "neutral c \<Longrightarrow> (\<And>a. open_are l f a \<Longrightarrow> open_are l f (update a)) \<Longrightarrow> open_are l f a \<Longrightarrow> open_are l f (snd (perform run c update a))"
  using trace_neutral [of c l f a] by (simp add: perform_def Let_def)

lemma perform_opens:
  "open_are l (False, k, d) a \<Longrightarrow>
     open_are l (fst (perform run RefOpen (\<lambda>a. a\<lparr>ap_refdata := True\<rparr>) a) = Okay, k, d) (snd (perform run RefOpen (\<lambda>a. a\<lparr>ap_refdata := True\<rparr>) a))"
  "open_are l (r, False, d) a \<Longrightarrow>
     open_are l (r, fst (perform run LinkMake (\<lambda>a. a\<lparr>ap_cluster := True\<rparr>) a) = Okay, d) (snd (perform run LinkMake (\<lambda>a. a\<lparr>ap_cluster := True\<rparr>) a))"
  "open_are l (r, k, False) a \<Longrightarrow>
     open_are l (r, k, fst (perform run DiMake (\<lambda>a. a\<lparr>ap_orchestrator := True\<rparr>) a) = Okay) (snd (perform run DiMake (\<lambda>a. a\<lparr>ap_orchestrator := True\<rparr>) a))"
  by (auto simp: perform_def Let_def open_are_def flag_defs)

lemma perform_closes:
  "open_are l (True, k, d) a \<Longrightarrow>
     open_are l (fst (perform run RefClose (\<lambda>a. a\<lparr>ap_refdata := False\<rparr>) a) \<noteq> Okay, k, d) (snd (perform run RefClose (\<lambda>a. a\<lparr>ap_refdata := False\<rparr>) a))"
  "open_are l (r, True, d) a \<Longrightarrow>
     open_are l (r, fst (perform run LinkClose (\<lambda>a. a\<lparr>ap_cluster := False\<rparr>) a) \<noteq> Okay, d) (snd (perform run LinkClose (\<lambda>a. a\<lparr>ap_cluster := False\<rparr>) a))"
  "open_are l (r, k, True) a \<Longrightarrow>
     open_are l (r, k, fst (perform run DiStop (\<lambda>a. a\<lparr>ap_orchestrator := False\<rparr>) a) \<noteq> Okay) (snd (perform run DiStop (\<lambda>a. a\<lparr>ap_orchestrator := False\<rparr>) a))"
  by (auto simp: perform_def Let_def open_are_def flag_defs)

lemma in_turn_step:
  assumes "open_are l f a" and "\<And>a. open_are l f a \<Longrightarrow> \<exists>f'. open_are l f' (snd (m a)) \<and> (fst (m a) = Okay \<longrightarrow> f' = g)"
    and "\<And>a. open_are l g a \<Longrightarrow> \<exists>f'. open_are l f' (snd (in_turn ms a))"
  shows "\<exists>f'. open_are l f' (snd (in_turn (m # ms) a))"
  using assms(2) [OF assms(1)] assms(3) [of "snd (m a)"] by (auto simp: in_turn_Cons simp del: in_turn.simps)

lemma neutral_step:
  "neutral c \<Longrightarrow> open_are l f a \<Longrightarrow> \<exists>f'. open_are l f' (snd (perform run c id a)) \<and> (fst (perform run c id a) = Okay \<longrightarrow> f' = f)"
  by (intro exI [of _ f] conjI perform_neutral impI refl) simp_all

lemma register_framework_step:
  "open_are l f a \<Longrightarrow> \<exists>f'. open_are l f' (snd (register_framework run S a)) \<and> (fst (register_framework run S a) = Okay \<longrightarrow> f' = f)"
  unfolding register_framework_def
  by (intro exI [of _ f] conjI perform_neutral impI refl) (auto simp: neutral_def open_are_def flag_defs split: option.split)

lemma run_once_step:
  "open_are l f a \<Longrightarrow> open_are l f (snd (when_set ap_primary
     (in_turn [when_set (\<lambda>_. se_run_once_needed S) (in_turn [perform run RunOnceHooks id, perform run TellRunOnce id]),
        just (\<lambda>a. a\<lparr>ap_run_once_done := True\<rparr>)]) a))"
  by (auto simp: flow_defs open_are_def flag_defs)

lemma start_runtime_ok:
  assumes "open_are l (False, False, False) a"
  shows "\<exists>f. open_are l f (snd (start_runtime run S a))"
  unfolding start_runtime_def
  apply (rule in_turn_step [OF assms, where g = "(True, False, False)"])
   apply (use perform_opens(1) in blast)
  apply (rule in_turn_step [where g = "(True, True, False)"], assumption)
   apply (use perform_opens(2) in blast)
  apply (rule in_turn_step, assumption, rule neutral_step, rule neutral_simps, assumption)
  apply (rule in_turn_step [where g = "(True, True, True)"], assumption)
   apply (use perform_opens(3) in blast)
  apply (rule in_turn_step, assumption, rule neutral_step, rule neutral_simps, assumption)
  apply (rule in_turn_step, assumption, rule register_framework_step, assumption)
  apply (rule in_turn_step, assumption, rule neutral_step, rule neutral_simps, assumption)
  apply (rule in_turn_step, assumption)
   apply (use run_once_step in blast)
  apply (auto simp: just_def)
  done

lemma neutral_keeps:
  "neutral c \<Longrightarrow> balanced a \<Longrightarrow> roster a \<Longrightarrow> (\<And>l f a. open_are l f a \<Longrightarrow> open_are l f (update a)) \<Longrightarrow>
     balanced (snd (perform run c update a)) \<and> roster (snd (perform run c update a)) \<and> core_flags (snd (perform run c update a)) = core_flags a"
  using perform_neutral [of c "log_flags a" "core_flags a" update a run] by (simp add: open_are_def)

lemma load_runtime_step:
  "balanced a \<Longrightarrow> roster a \<Longrightarrow>
     balanced (snd (when_set (\<lambda>a. \<not> ap_runtime a) (perform run LoadRuntime (\<lambda>a. a\<lparr>ap_runtime := True\<rparr>)) a)) \<and>
     roster (snd (when_set (\<lambda>a. \<not> ap_runtime a) (perform run LoadRuntime (\<lambda>a. a\<lparr>ap_runtime := True\<rparr>)) a)) \<and>
     core_flags (snd (when_set (\<lambda>a. \<not> ap_runtime a) (perform run LoadRuntime (\<lambda>a. a\<lparr>ap_runtime := True\<rparr>)) a)) = core_flags a"
  using neutral_keeps [of LoadRuntime a "\<lambda>a. a\<lparr>ap_runtime := True\<rparr>" run]
  by (simp add: when_set_def open_are_def flag_defs)

lemma start_application_ok:
  assumes "balanced a" and "roster a" and "core_flags a = (False, False, False)"
  shows "balanced (snd (start_application run S a)) \<and> roster (snd (start_application run S a))"
proof -
  let ?find = "perform run FindBinding id" and ?load = "when_set (\<lambda>a. \<not> ap_runtime a) (perform run LoadRuntime (\<lambda>a. a\<lparr>ap_runtime := True\<rparr>))"
  have 1: "balanced (snd (?find a)) \<and> roster (snd (?find a)) \<and> core_flags (snd (?find a)) = core_flags a"
    using assms by (intro neutral_keeps) simp_all
  let ?a1 = "snd (?find a)"
  have 2: "balanced (snd (?load ?a1)) \<and> roster (snd (?load ?a1)) \<and> core_flags (snd (?load ?a1)) = core_flags ?a1"
    using 1 by (intro load_runtime_step) simp_all
  let ?a2 = "snd (?load ?a1)"
  have 3: "balanced (snd (start_logging run S ?a2)) \<and> roster (snd (start_logging run S ?a2)) \<and>
      core_flags (snd (start_logging run S ?a2)) = core_flags ?a2"
    using 2 start_logging_ok [of ?a2 run S] by simp
  let ?a3 = "snd (start_logging run S ?a2)"
  have "open_are (log_flags ?a3) (False, False, False) ?a3" using 1 2 3 assms(3) by (simp add: open_are_def)
  then have 4: "balanced (snd (start_runtime run S ?a3)) \<and> roster (snd (start_runtime run S ?a3))"
    using start_runtime_ok [of "log_flags ?a3" ?a3 run S] by (auto simp: open_are_def)
  then have 5: "balanced (snd (on_failure (start_runtime run S) (stop_logging run) ?a3)) \<and> roster (snd (on_failure (start_runtime run S) (stop_logging run) ?a3))"
    using stop_logging_ok [of "snd (start_runtime run S ?a3)" run] by (auto simp: on_failure_def Let_def split_beta)
  show ?thesis using assms 1 2 3 5 by (auto simp: start_application_def in_turn_Cons simp del: in_turn.simps)
qed

lemma start_each_adapter_ok:
  "set ads \<subseteq> set (ap_adapters a) \<Longrightarrow> balanced a \<Longrightarrow> roster a \<Longrightarrow>
     balanced (snd (start_each_adapter run ads a)) \<and> roster (snd (start_each_adapter run ads a)) \<and>
     ap_adapters (snd (start_each_adapter run ads a)) = ap_adapters a"
proof (induction run ads arbitrary: a rule: start_each_adapter.induct)
  case (2 run i singleton ads)
  let ?m = "\<lambda>a. if singleton \<and> \<not> ap_primary a then (Okay, a\<lparr>ap_standby := ap_standby a @ [i]\<rparr>)
    else perform run (AdapterStart i) (\<lambda>a. a\<lparr>ap_started := ap_started a @ [i]\<rparr>) a"
  have "i \<in> fst ` set (ap_adapters a)" using "2.prems"(1) by force
  then have "balanced (snd (?m a)) \<and> roster (snd (?m a)) \<and> ap_adapters (snd (?m a)) = ap_adapters a"
    using "2.prems" by (auto simp: perform_def Let_def flag_defs)
  then show ?case using "2.IH" [of "snd (?m a)"] "2.prems"(1) by (auto simp: and_then_def Let_def split_beta)
qed (simp add: just_def)

lemma run_body_ok:
  assumes "balanced a" and "roster a" and "core_flags a = (False, False, False)"
  shows "balanced (snd (run_body run S a)) \<and> roster (snd (run_body run S a))"
proof -
  have n: "balanced (snd (perform run c id a)) \<and> roster (snd (perform run c id a))" if "neutral c" "balanced a" "roster a" for c a
    using neutral_keeps [OF that, of id run] by simp
  have w: "balanced (snd (when_set ap_cluster (perform run TellReady id) a)) \<and> roster (snd (when_set ap_cluster (perform run TellReady id) a))"
    if "balanced a" "roster a" for a
    using that n [of TellReady a] by (simp add: when_set_def)
  have step: "balanced (snd (in_turn (m # ms) a)) \<and> roster (snd (in_turn (m # ms) a))"
    if "balanced (snd (m a)) \<and> roster (snd (m a))" and "\<And>a. balanced a \<Longrightarrow> roster a \<Longrightarrow> balanced (snd (in_turn ms a)) \<and> roster (snd (in_turn ms a))"
    for m ms a using that by (auto simp: in_turn_Cons simp del: in_turn.simps)
  show ?thesis
    unfolding run_body_def
    apply (rule step, rule start_application_ok [OF assms])
    apply (rule step, rule n, rule neutral_simps, assumption, assumption)
    apply (rule step, use start_each_adapter_ok [OF subset_refl] in blast)
    apply (rule step, rule w, assumption, assumption)
    apply (rule step, rule n, rule neutral_simps, assumption, assumption)
    apply (simp add: just_def)
    done
qed

section \<open>Stopping closes what is open\<close>

text \<open>Closing succeeds and no adapter's \<open>stop\<close> raises more than an exception or a cancellation.\<close>

definition quiet :: "runs \<Rightarrow> bool" where
  "quiet run \<longleftrightarrow> (\<forall>n. (\<forall>c \<in> {LinkQuiesce, DiStop, LinkClose, RefClose, NativeClose, LogClose}. run n c = Okay) \<and>
     (\<forall>i. run n (AdapterStop i) \<noteq> Keyboard \<and> (\<forall>e. run n (AdapterStop i) \<noteq> Abort e)))"

definition started_in :: "application \<Rightarrow> nat set" where
  "started_in a = {i. \<exists>r. (AdapterStart i, r) \<in> set (ap_trace a)}"

definition stopped_in :: "application \<Rightarrow> nat set" where
  "stopped_in a = {i. \<exists>r. (AdapterStop i, r) \<in> set (ap_trace a)}"

lemma quiet_closing:
  "quiet run \<Longrightarrow> run n LinkQuiesce = Okay" "quiet run \<Longrightarrow> run n DiStop = Okay" "quiet run \<Longrightarrow> run n LinkClose = Okay"
  "quiet run \<Longrightarrow> run n RefClose = Okay" "quiet run \<Longrightarrow> run n NativeClose = Okay" "quiet run \<Longrightarrow> run n LogClose = Okay"
  by (simp_all add: quiet_def)

lemma stop_logging_quiet:
  assumes "quiet run" and "balanced a"
  shows "fst (stop_logging run a) = Okay \<and> balanced (snd (stop_logging run a)) \<and> log_flags (snd (stop_logging run a)) = (False, False) \<and>
    core_flags (snd (stop_logging run a)) = core_flags a \<and>
    started_in (snd (stop_logging run a)) = started_in a \<and> stopped_in (snd (stop_logging run a)) = stopped_in a"
  using assms unfolding stop_logging_def flag_defs started_in_def stopped_in_def
  by (simp add: in_turn_Cons flow_defs quiet_closing del: in_turn.simps)

lemma stop_runtime_value:
  assumes "quiet run"
  shows "stop_runtime run a = (Okay, forget_framework (a\<lparr>ap_orchestrator := False, ap_cluster := False, ap_refdata := False,
    ap_trace := ap_trace a @ (if ap_cluster a then [(LinkQuiesce, Okay)] else []) @ (if ap_orchestrator a then [(DiStop, Okay)] else []) @
      (if ap_cluster a then [(LinkClose, Okay)] else []) @ (if ap_refdata a then [(RefClose, Okay)] else [])\<rparr>))"
  unfolding stop_runtime_def
  by (cases "ap_cluster a"; cases "ap_orchestrator a"; cases "ap_refdata a")
    (simp add: in_turn_Cons flow_defs quiet_closing [OF assms] del: in_turn.simps, rule arg_cong [where f = forget_framework],
      rule application.equality; simp)+

lemma stop_runtime_quiet:
  assumes "quiet run" and "balanced a"
  shows "fst (stop_runtime run a) = Okay \<and> balanced (snd (stop_runtime run a)) \<and> core_flags (snd (stop_runtime run a)) = (False, False, False) \<and>
    started_in (snd (stop_runtime run a)) = started_in a \<and> stopped_in (snd (stop_runtime run a)) = stopped_in a"
  unfolding stop_runtime_value [OF assms(1)]
  using assms(2) by (simp add: forget_framework_def balanced_def core_flags_def count_ok_def started_in_def stopped_in_def)

lemma stop_application_quiet:
  assumes "quiet run" and "balanced a"
  shows "balanced (snd (stop_application run a)) \<and> log_flags (snd (stop_application run a)) = (False, False) \<and>
    core_flags (snd (stop_application run a)) = (False, False, False) \<and>
    started_in (snd (stop_application run a)) = started_in a \<and> stopped_in (snd (stop_application run a)) = stopped_in a"
  using stop_runtime_quiet [OF assms] stop_logging_quiet [OF assms(1), of "snd (stop_runtime run a)"]
  by (simp add: stop_application_def ensuring_def Let_def split_beta)

lemma stop_each_adapter_quiet:
  assumes "quiet run"
  shows "balanced a \<Longrightarrow> fst (stop_each_adapter run ids a) = Okay \<and> balanced (snd (stop_each_adapter run ids a)) \<and>
    started_in (snd (stop_each_adapter run ids a)) = started_in a \<and> stopped_in (snd (stop_each_adapter run ids a)) = set ids \<union> stopped_in a"
proof (induction ids arbitrary: a)
  case (Cons i ids)
  define a1 where "a1 = a\<lparr>ap_trace := ap_trace a @ [(AdapterStop i, run (length (ap_trace a)) (AdapterStop i))]\<rparr>"
  have "run (length (ap_trace a)) (AdapterStop i) \<noteq> Abort e" "run (length (ap_trace a)) (AdapterStop i) \<noteq> Keyboard" for e
    using assms unfolding quiet_def by blast+
  then have "stop_each_adapter run (i # ids) a = stop_each_adapter run ids a1"
    by (simp add: perform_def Let_def a1_def split: result.split)
  moreover have "balanced a1" using Cons.prems by (simp add: a1_def flag_defs)
  moreover have "started_in a1 = started_in a" "stopped_in a1 = insert i (stopped_in a)"
    by (auto simp: a1_def started_in_def stopped_in_def)
  ultimately show ?case using Cons.IH [of a1] by simp
qed (simp add: just_def)

lemma run_async_quiet:
  assumes "quiet run" and "balanced a" and "roster a" and "core_flags a = (False, False, False)"
  shows "balanced (snd (run_async run S a)) \<and> log_flags (snd (run_async run S a)) = (False, False) \<and>
    core_flags (snd (run_async run S a)) = (False, False, False) \<and> started_in (snd (run_async run S a)) \<subseteq> stopped_in (snd (run_async run S a))"
proof -
  define b where "b = snd (run_body run S a)"
  define d where "d = snd (stop_each_adapter run (rev (map fst (ap_adapters b))) b)"
  have b: "balanced b" "roster b" using run_body_ok [OF assms(2-4)] by (simp_all add: b_def)
  have "started_in b \<subseteq> fst ` set (ap_adapters b)" using b(2) by (auto simp: roster_def started_in_def)
  then have d: "fst (stop_each_adapter run (rev (map fst (ap_adapters b))) b) = Okay" "balanced d" "started_in d \<subseteq> stopped_in d"
    using stop_each_adapter_quiet [OF assms(1) b(1), of "rev (map fst (ap_adapters b))"] by (auto simp: d_def)
  have "snd (run_async run S a) = snd (stop_application run d)"
    using d(1) by (simp add: run_async_def ensuring_def swallow_interrupt_def and_then_def Let_def split_beta b_def d_def)
  then show ?thesis using stop_application_quiet [OF assms(1) d(2)] d(3) by simp
qed

lemma start_logging_quiet:
  assumes "quiet run" and "fst (start_logging run S a) \<noteq> Okay" and "\<not> ap_logging a" and "\<not> ap_native a"
  shows "log_flags (snd (start_logging run S a)) = (False, False)"
  using assms(2-4) unfolding start_logging_def log_flags_def
  by (cases "run (length (ap_trace a)) LogOpen = Okay"; cases "se_native S"; cases "run (Suc (length (ap_trace a))) NativeAttach = Okay")
    (simp_all add: in_turn_Cons flow_defs on_failure_def quiet_closing [OF assms(1)] del: in_turn.simps)

lemma start_logging_calls:
  "started_in (snd (start_logging run S a)) = started_in a \<and> stopped_in (snd (start_logging run S a)) = stopped_in a"
  unfolding start_logging_def started_in_def stopped_in_def
  by (cases "ap_logging a"; cases "run (length (ap_trace a)) LogOpen = Okay"; cases "se_native S"; cases "run (Suc (length (ap_trace a))) NativeAttach = Okay")
    (simp_all add: in_turn_Cons flow_defs on_failure_def del: in_turn.simps)

text \<open>Nothing is open and every adapter that was started was stopped; \<open>unused\<close> also knows the adapters that were started.\<close>

definition released :: "application \<Rightarrow> bool" where
  "released a \<longleftrightarrow> balanced a \<and> log_flags a = (False, False) \<and> core_flags a = (False, False, False) \<and> started_in a \<subseteq> stopped_in a"

definition unused :: "bool \<times> bool \<Rightarrow> application \<Rightarrow> bool" where
  "unused l a \<longleftrightarrow> open_are l (False, False, False) a \<and> started_in a = {}"

lemma unused_neutral:
  assumes "neutral c" and "\<And>a. unused l a \<Longrightarrow> unused l (update a)" and "unused l a"
  shows "unused l (snd (perform run c update a))"
proof -
  let ?a1 = "a\<lparr>ap_trace := ap_trace a @ [(c, run (length (ap_trace a)) c)]\<rparr>"
  have "c \<noteq> AdapterStart i" for i using assms(1) by (auto simp: neutral_def)
  then have "started_in ?a1 = started_in a" by (auto simp: started_in_def)
  then have "unused l ?a1" using assms(3) trace_neutral [OF assms(1)] by (simp add: unused_def)
  then show ?thesis using assms(2) [of ?a1] by (auto simp: perform_def Let_def)
qed

lemma unused_updates:
  "unused l (a\<lparr>ap_runtime := True\<rparr>) = unused l a"
  "unused l a \<Longrightarrow> unused l (a\<lparr>ap_adapters := ads\<rparr>)"
  "unused l a \<Longrightarrow> unused l (a\<lparr>ap_primary := p, ap_adapters := ads\<rparr>)"
  by (simp_all add: unused_def open_are_def flag_defs started_in_def)

lemma unused_load:
  "unused l a \<Longrightarrow> unused l (snd (when_set (\<lambda>a. \<not> ap_runtime a) (perform run LoadRuntime (\<lambda>a. a\<lparr>ap_runtime := True\<rparr>)) a))"
  by (simp add: when_set_def unused_neutral unused_updates)

lemma unused_released: "unused (False, False) a \<Longrightarrow> released a"
  by (simp add: unused_def released_def open_are_def)

lemma start_logging_unused:
  assumes "quiet run" and "unused (False, False) a"
  shows "\<exists>l. unused l (snd (start_logging run S a)) \<and> (fst (start_logging run S a) \<noteq> Okay \<longrightarrow> l = (False, False))"
proof -
  have a: "balanced a" "roster a" "\<not> ap_logging a" "\<not> ap_native a" "core_flags a = (False, False, False)" "started_in a = {}"
    using assms(2) by (auto simp: unused_def open_are_def log_flags_def)
  show ?thesis
    using start_logging_ok [OF a(1,2), of run S] start_logging_quiet [OF assms(1) _ a(3,4), of S] start_logging_calls [of run S a] a(5,6)
    by (intro exI [of _ "log_flags (snd (start_logging run S a))"]) (simp add: unused_def open_are_def)
qed

lemma run_worker_released:
  assumes "quiet run" and "unused l a"
  shows "released (snd (ensuring (in_turn [prepare_run run S, run_async run S]) (stop_logging run) a))"
proof -
  let ?p = "prepare_run run S a" and ?m = "in_turn [prepare_run run S, run_async run S]"
  have p: "unused l (snd ?p)" using assms(2) by (simp add: prepare_run_def unused_neutral unused_updates)
  have r: "released (snd (run_async run S (snd ?p)))"
    using run_async_quiet [OF assms(1), of "snd ?p" S] p by (auto simp: unused_def open_are_def released_def)
  have "balanced (snd (?m a)) \<and> core_flags (snd (?m a)) = (False, False, False) \<and> started_in (snd (?m a)) \<subseteq> stopped_in (snd (?m a))"
    using p r by (auto simp: in_turn_Cons unused_def open_are_def released_def simp del: in_turn.simps)
  then show ?thesis
    using stop_logging_quiet [OF assms(1), of "snd (?m a)"] by (simp add: ensuring_def Let_def split_beta released_def del: in_turn.simps)
qed

lemma run_application_released:
  assumes "quiet run" and "unused (False, False) a"
  shows "released (snd (run_application run S a))"
proof -
  let ?load = "when_set (\<lambda>a. \<not> ap_runtime a) (perform run LoadRuntime (\<lambda>a. a\<lparr>ap_runtime := True\<rparr>)) a"
  let ?topology = "perform run ResolveTopology (\<lambda>a. a\<lparr>ap_adapters := ap_adapters a @ se_internal S\<rparr>) (snd ?load)"
  let ?log = "start_logging run S (snd ?topology)"
  have 1: "unused (False, False) (snd ?load)" using assms(2) by (rule unused_load)
  have 2: "unused (False, False) (snd ?topology)" using 1 by (simp add: unused_neutral unused_updates)
  obtain l where 3: "unused l (snd ?log)" and 4: "fst ?log \<noteq> Okay \<Longrightarrow> l = (False, False)"
    using start_logging_unused [OF assms(1) 2, of S] by blast
  show ?thesis
    using unused_released [OF 1] unused_released [OF 2] unused_released [of "snd ?log"] 3 4 run_worker_released [OF assms(1) 3, of S]
    unfolding run_application_def in_turn_Cons [where ms = "_ # _"] in_turn_Cons [where ms = "[]"] by (auto simp del: in_turn.simps)
qed

text \<open>C40: A run in one process, whatever of it fails, closes everything it opened, as often as it opened it (the log, the native
  redirection, the shared reference data, the link of the cluster, the container), and calls \<open>stop\<close> of every adapter whose
  \<open>start\<close> it called, provided that closing does not raise and that \<open>stop\<close> of an adapter
  ends with nothing worse than an \<open>Exception\<close> or a cancellation.\<close>

theorem run_releases_everything:
  assumes "quiet run"
  shows "let a = snd (run_application run S (new_application\<lparr>ap_adapters := ads\<rparr>))
    in \<not> ap_logging a \<and> \<not> ap_native a \<and> \<not> ap_refdata a \<and> \<not> ap_cluster a \<and> \<not> ap_orchestrator a \<and>
      count_ok LogOpen a = count_ok LogClose a \<and> count_ok NativeAttach a = count_ok NativeClose a \<and>
      count_ok RefOpen a = count_ok RefClose a \<and> count_ok LinkMake a = count_ok LinkClose a \<and>
      count_ok DiMake a = count_ok DiStop a \<and> started_in a \<subseteq> stopped_in a"
proof -
  have "unused (False, False) (new_application\<lparr>ap_adapters := ads\<rparr>)"
    by (simp add: unused_def open_are_def flag_defs new_application_def started_in_def)
  from run_application_released [OF assms this, of S] show ?thesis
    by (simp add: released_def balanced_def log_flags_def core_flags_def Let_def)
qed

lemma run_releases_everything_witness:
  "let run = (\<lambda>n c. if c = AdapterStart 2 then Error 7 else Okay);
       a = snd (run_application run \<lparr>se_native = True, se_scheduler = Some 9, se_run_once_needed = True, se_internal = [], se_kept = [1, 2], se_primary = True\<rparr>
             (new_application\<lparr>ap_adapters := [(1, False), (2, False)]\<rparr>))
   in \<not> ap_cluster a \<and> count_ok LinkMake a = count_ok LinkClose a \<and> started_in a \<subseteq> stopped_in a"
  using run_releases_everything [where run = "\<lambda>n c. if c = AdapterStart 2 then Error 7 else Okay"
      and S = "\<lparr>se_native = True, se_scheduler = Some 9, se_run_once_needed = True, se_internal = [], se_kept = [1, 2], se_primary = True\<rparr>"
      and ads = "[(1, False), (2, False)]"]
  by (simp add: quiet_def Let_def)

end
