(* ===== verification/Spec2Isabelle.thy ===== *)
theory Spec2Isabelle
  imports Prelude Dep_Graph Class_Model Validator Registry Switcher Container Lifecycle
    Shared_Memory Link_Layout Link_Delivery Link_Pump RefData_Safety Topology
    Control Placement Supervisor Member Cluster_Run
    Modbus_Client Modbus_Server Modbus_Poll Socket_Sessions
    Grpc_Imports Event_Bus Config_Loader Web_Download Mqtt Lmdb_Store Web_Adapter Sql_Transactions
    Application_Run
begin

text \<open>
  XIME framework: a verification development of its core. The framework (\<open>src/xime\<close>, Python) builds an application
  out of classes by dependency injection, runs it in one process or as a cluster of processes under a supervisor, and
  connects it to the outside through adapters (web, gRPC, sockets, Modbus, MQTT, OPC UA) and starters (storage, stores,
  mail). The definitions are translated from the source, one group for each part, and are executable; errors that
  the code raises are values (\<open>Inl\<close>), dictionaries are lists of items in insertion order, shared memory and files are
  lists of bytes. The proofs rest on the definitions alone.

  The container. \<open>Class_Model\<close> holds what introspection reports of classes and the scanner and hint resolver
  (\<open>core/container/scanner.py\<close>, \<open>resolver.py\<close>), \<open>Dep_Graph\<close> the graph of dependencies, its cycle search and the two
  topological orders (\<open>graph.py\<close>), \<open>Validator\<close> the checks before a build (\<open>validator.py\<close>), \<open>Registry\<close> the lazy
  construction of singletons (\<open>registry.py\<close>), \<open>Switcher\<close> the dynamic bindings and their proxies (\<open>switcher.py\<close>,
  \<open>proxy.py\<close>), \<open>Container\<close> the facade that calls all of them (\<open>__init__.py\<close>, \<open>config_loader.py\<close>) and \<open>Lifecycle\<close> the
  hooks (\<open>core/lifecycle\<close>). The lemmas show that the orders and the cycle search are exact, that the validator accepts
  exactly the wirable graphs, and that after a build every singleton gets its declared dependencies and every
  started hook is stopped once, in reverse. \<open>Event_Bus\<close> is the in-process bus (\<open>core/event\<close>) and its accounts,
  \<open>Config_Loader\<close> the merge and choice of configuration files and the look-ups (\<open>core/config\<close>).

  The cluster. \<open>Topology\<close> parses the process blocks (\<open>core/bootstrap/_processes.py\<close>), \<open>Control\<close> the control messages
  (\<open>_control.py\<close>), \<open>Placement\<close> checks adapters against the topology and prepares the shared sockets (\<open>_slot.py\<close> and
  the first half of \<open>_supervisor.py\<close>), \<open>Supervisor\<close> is the supervisor with its watch loop and heartbeats
  (\<open>_supervisor.py\<close>, \<open>_watchdog.py\<close>), \<open>Member\<close> one process with its adapters (\<open>_cluster.py\<close>, \<open>application.py\<close>), and
  \<open>Cluster_Run\<close> all of them over the internal channel. Shown are the exactness of the parser and of the placement
  checks (the documented conditions, and one the documents do not have: no process repeats a value of a disjoint set), one primary at a time (and the run in which there are two), the limits on restarts and promotions, which
  children are killed, and that a refused promotion is undone. \<open>Application_Run\<close> has what an application opens and closes over
  its life in one process (\<open>application.py\<close>): a run that fails anywhere closes all it opened.

  Shared memory. \<open>Shared_Memory\<close> has the bytes and \<open>struct\<close> formats, \<open>Link_Layout\<close> the byte layout of a channel
  (\<open>core/link/_layout.py\<close>), \<open>Link\<close> the operations of a process link (\<open>_link.py\<close> and its siblings), \<open>Link_Delivery\<close>
  sequential histories of all processes on a channel and \<open>Link_Pump\<close> the reading loops and their wake-ups. \<open>RefData\<close> and
  \<open>RefData_Safety\<close> are the shared reference data (\<open>core/refdata\<close>) with readers interleaved between single byte writes.
  Shown are that locations do not overlap, that no message is lost uncounted as long as the calls of the processes
  follow one another (the link has no lock to see to that), and that a read of the reference data is always a version
  that was published whole, whatever runs beside it. Lost wake-ups and lost bits of racing writers are exhibited by runs.

  Adapters. \<open>Modbus_Model\<close>, \<open>Modbus_Plan\<close>, \<open>Modbus_Codec\<close>, \<open>Modbus_Client\<close>, \<open>Modbus_Server\<close> and \<open>Modbus_Poll\<close> are
  the Modbus adapter (\<open>adapters/modbus\<close>): device models, the plan of block reads, register values, the client, the
  slave and polling. \<open>Socket_Frames\<close> and \<open>Socket_Sessions\<close> are the frame protocol and one connection with its
  sessions (\<open>adapters/socket\<close>). \<open>Grpc_Types\<close>, \<open>Grpc_Lock\<close>, \<open>Grpc_Builder\<close>, \<open>Grpc_Emit\<close> and \<open>Grpc_Imports\<close> are the
  code-first generator of protobuf contracts (\<open>adapters/grpc/codefirst\<close>): types, field numbers, messages, files and
  their imports. \<open>Web_Download\<close> is the download helper (\<open>adapters/web/files/_download.py\<close>) over any storage and over
  \<open>Local_Storage\<close>, the storage in a directory (\<open>starters/localfs\<close>, \<open>starters/storage\<close>). \<open>Mqtt\<close> has the topic filters,
  the routes and the dispatcher (\<open>adapters/mqtt\<close>). \<open>Lmdb_Store\<close> is the shared store (\<open>starters/lmdb\<close>) with its
  budget and its retry. Shown are the equivalence of planned and single reads on a device that has the planned addresses, exactly-once fan-out of MQTT
  messages, chunks in order, stable field numbers, ranges of bytes, atomic uploads, and that a counter table is a
  table of numbers with an expiry, emptied by the first call that finds another count of partitions in its mark.

  Web. \<open>Request_Scope\<close> has the context variables of a request (\<open>core/context\<close>, \<open>core/security\<close>) and the middleware that
  clears them, \<open>Jwt_Auth\<close> the JWT starter (\<open>starters/jwt\<close>), \<open>Web_Sockets\<close> the guarded WebSocket routes and the life of a
  connection (\<open>adapters/web/ws\<close>), \<open>Web_Adapter\<close> the registry, the stack of middlewares, TLS parameters and the serving
  state (\<open>adapters/web/_adapter.py\<close> and what configures it) and \<open>Tls_Reload\<close> the replacement of certificates in one process
  and in a cluster (\<open>_tls_reload.py\<close>, \<open>_server_config.py\<close>). PyJWT, FastAPI, Starlette and uvicorn are parameters. Shown
  are that a router or a WebSocket handler sees only admitted requests (with a public path, with a path the Host header makes
  look public, or with a vouched token), that public paths are read by segments, which
  verdict on a token is reported, and that a served certificate matches the files it was read from. \<open>Sql_Transactions\<close> has the units of work over SQLAlchemy
  (\<open>starters/sqlalchemy\<close>): nested programs, and that a transaction is committed exactly
  when its block ended well, a read-only session never, and each session is closed once whatever fails.

  Interfaces. A locale states what one part promises another: \<open>guarded_object\<close> (\<open>Prelude\<close>) operations on a state with
  an invariant, for the container before its build and the switcher; \<open>placed\<close> and \<open>cells\<close> (\<open>Shared_Memory\<close>) locations
  in a block that do not overlap, for the channels and the reference data; \<open>object_store\<close> (\<open>Web_Download\<close>) the storage
  a download reads from, for the storage in a directory. Each is interpreted on the model's own definitions.

  Bounds and fuel. Loops follow the code: structural recursion where it goes over a list, a measure otherwise; loops
  that wait for others are step relations. The contract builder is a partial function that is proved to return. The
  retry loops have the counts of the code (4 attempts of the store, 5 and one of the publication of a file), and
  Python integers are \<open>int\<close>, machine fields words or numbers with their modulus.

  Findings. Where the code does not do what it means to, or a document says otherwise, a lemma next to the
  definitions exhibits the run, for instance \<open>Cluster_Run.two_primaries\<close>, \<open>Link_Pump.two_channels_lose_wakeups\<close>,
  \<open>Link_Delivery.racing_bits_lose_a_row\<close>, \<open>Modbus_Client.inherited_field_keeps_its_first_orders\<close>, \<open>Web_Sockets.raising_on_disconnect_runs_twice\<close>, \<open>Local_Storage.dot_key_writes_outside\<close>.

  Not modelled, because they are calls of libraries or of the operating system with little of their own: the gRPC and
  OPC UA servers and clients, the MQTT connection, the generated OpenAPI schema, mail, Redis, S3 and scheduler starters, the engine and repositories of SQLAlchemy, logging,
  signals, systemd, accept locks and the reports on stalls, the command line tools and the test doubles. Threads are
  modelled only where the code shares memory between processes; calls under a lock are atomic, and so are, in
  \<open>Link_Delivery\<close>, the calls on a channel, which have no lock. Log texts, times of
  sleeping and permission bits are left out unless a property is about them.
\<close>

end
